(* ===== verification/Hell_Prelude.thy ===== *)
theory Hell_Prelude
  imports Main "HOL-Library.Word"
begin

text \<open>
  Shared vocabulary of the development: the machine integers the sources use, the
  three-valued result of a Rust function (a value, an \<open>Err\<close>, or a panic), checked
  reads of vectors, and the loop combinator \<open>run\<close> by which every work-list loop of
  the sources is modelled, with the total-correctness rule (locale \<open>loop_machine\<close>)
  that the components instantiate.
\<close>

section \<open>Machine integers\<close>

type_synonym u8 = "8 word"
type_synonym u32 = "32 word"
type_synonym u64 = "64 word"

text \<open>
  Indices and lengths (\<open>usize\<close>) are natural numbers; the sources narrow them to 32 bits
  with \<open>u32::try_from\<close>, whose failure is \<open>None\<close> here.
\<close>

definition u32_max :: nat where
  "u32_max = 4294967295"

definition u64_max :: nat where
  "u64_max = 18446744073709551615"

definition u32_try_from :: "nat \<Rightarrow> nat option" where
  "u32_try_from n = (if n \<le> u32_max then Some n else None)"

lemma u32_try_from_Some [simp]: "u32_try_from n = Some m \<longleftrightarrow> n = m \<and> n \<le> u32_max"
  by (auto simp: u32_try_from_def)

lemma u32_try_from_None [simp]: "u32_try_from n = None \<longleftrightarrow> u32_max < n"
  by (auto simp: u32_try_from_def)

lemma u32_try_from_in [simp]: "n \<le> u32_max \<Longrightarrow> u32_try_from n = Some n"
  by (simp add: u32_try_from_def)

text \<open>Saturation at the largest 32-bit value.\<close>

definition u32_saturate :: "nat \<Rightarrow> nat" where
  "u32_saturate n = min n u32_max"

text \<open>Evaluation compares with the bounds as integers, which are binary.\<close>

lemma u32_try_from_code [code]:
  "u32_try_from n = (if int n \<le> 4294967295 then Some n else None)"
  by (simp add: u32_try_from_def u32_max_def)

lemma u32_saturate_code [code]: "u32_saturate n = (if int n \<le> 4294967295 then n else u32_max)"
  by (simp add: u32_saturate_def u32_max_def min_def)

section \<open>Results\<close>

text \<open>
  \<open>Ok\<close> and \<open>Err\<close> are Rust's \<open>Result\<close>; \<open>Panic\<close> is a failed \<open>expect\<close>, an
  index out of bounds or an explicit \<open>panic!\<close>.
\<close>

datatype ('a, 'e) res = Ok 'a | Err 'e | Panic

fun res_bind :: "('a, 'e) res \<Rightarrow> ('a \<Rightarrow> ('b, 'e) res) \<Rightarrow> ('b, 'e) res" where
  "res_bind (Ok a) f = f a"
| "res_bind (Err e) f = Err e"
| "res_bind Panic f = Panic"

lemma res_bind_Ok [simp]: "res_bind m f = Ok b \<longleftrightarrow> (\<exists>a. m = Ok a \<and> f a = Ok b)"
  by (cases m) auto

definition ok_or :: "'e \<Rightarrow> 'a option \<Rightarrow> ('a, 'e) res" where
  "ok_or e x = (case x of None \<Rightarrow> Err e | Some a \<Rightarrow> Ok a)"

text \<open>
  A \<open>for\<close> loop whose body may panic or return early with an error, and its rule: an
  invariant of the state before the iteration \<open>i\<close> holds at the end for the number of
  iterations.
\<close>

fun res_fold :: "('a \<Rightarrow> 's \<Rightarrow> ('s, 'e) res) \<Rightarrow> 'a list \<Rightarrow> 's \<Rightarrow> ('s, 'e) res" where
  "res_fold f [] s = Ok s"
| "res_fold f (x # xs) s = res_bind (f x s) (res_fold f xs)"

lemma res_fold_append [simp]:
  "res_fold f (xs @ ys) s = res_bind (res_fold f xs s) (res_fold f ys)"
proof (induction xs arbitrary: s)
  case (Cons x xs)
  then show ?case by (cases "f x s") simp_all
qed simp

lemma res_fold_upto:
  assumes "I 0 s"
    and "\<And>i s. i < n \<Longrightarrow> I i s \<Longrightarrow> \<exists>s'. f i s = Ok s' \<and> I (Suc i) s'"
  shows "\<exists>s'. res_fold f [0..<n] s = Ok s' \<and> I n s'"
  using assms(2)
proof (induction n)
  case (Suc n)
  then obtain t where t: "res_fold f [0..<n] s = Ok t" "I n t" by auto
  with Suc.prems obtain u where "f n t = Ok u" "I (Suc n) u" by blast
  with t show ?case by auto
qed (simp add: assms(1))

section \<open>Numbers as text\<close>

text \<open>An unsigned integer under the format \<open>{}\<close>.\<close>

fun show_nat :: "nat \<Rightarrow> string" where
  "show_nat n = (if n < 10 then [char_of (48 + n)] else show_nat (n div 10) @ [char_of (48 + n mod 10)])"

declare show_nat.simps [simp del]

section \<open>Vectors\<close>

text \<open>\<open>slice::get\<close>: \<open>None\<close> out of bounds.\<close>

definition vget :: "'a list \<Rightarrow> nat \<Rightarrow> 'a option" where
  "vget xs i = (if i < length xs then Some (xs ! i) else None)"

lemma vget_Some: "vget xs i = Some x \<longleftrightarrow> i < length xs \<and> xs ! i = x"
  by (auto simp: vget_def)

lemma vget_Some_sym: "Some x = vget xs i \<longleftrightarrow> i < length xs \<and> xs ! i = x"
  by (auto simp: vget_def)

lemma vget_None [simp]: "vget xs i = None \<longleftrightarrow> length xs \<le> i"
  by (auto simp: vget_def)

lemma vget_end [simp]: "vget xs (length xs) = None"
  by simp

lemma vget_in [simp]: "i < length xs \<Longrightarrow> vget xs i = Some (xs ! i)"
  by (simp add: vget_def)

lemma vget_append_old: "vget xs i = Some x \<Longrightarrow> vget (xs @ ys) i = Some x"
  by (auto simp: vget_def nth_append)

lemma vget_append_new [simp]: "vget (xs @ [y]) (length xs) = Some y"
  by (simp add: vget_def)

lemma vget_Nil [simp]: "vget [] i = None"
  by (simp add: vget_def)

lemma vget_Cons_0 [simp]: "vget (x # xs) 0 = Some x"
  by (simp add: vget_def)

lemma vget_Cons_Suc [simp]: "vget (x # xs) (Suc i) = vget xs i"
  by (simp add: vget_def)

lemma vget_code [code]:
  "vget [] i = None"
  "vget (x # xs) i = (if i = 0 then Some x else vget xs (i - 1))"
  by (auto simp: vget_def nth_Cons')

text \<open>\<open>slice::get(start..end)\<close>: \<open>None\<close> when the range is reversed or out of bounds.\<close>

definition vslice :: "'a list \<Rightarrow> nat \<Rightarrow> nat \<Rightarrow> 'a list option" where
  "vslice xs i j = (if i \<le> j \<and> j \<le> length xs then Some (take (j - i) (drop i xs)) else None)"

section \<open>Loops\<close>

text \<open>
  One iteration of a loop either goes on with a new state (\<open>Inl\<close>) or leaves it with a
  result (\<open>Inr\<close>); its body may itself call a loop that does not return (\<open>None\<close>).
  A loop that never leaves is \<open>None\<close>.  \<open>run\<close> is the case of a body without such
  calls.
\<close>

partial_function (option) run_calls :: "('s \<Rightarrow> ('s + 'r) option) \<Rightarrow> 's \<Rightarrow> 'r option" where
  "run_calls step s =
    (case step s of
       None \<Rightarrow> None
     | Some next \<Rightarrow> (case next of Inl s' \<Rightarrow> run_calls step s' | Inr r \<Rightarrow> Some r))"

declare run_calls.simps [code]

definition run :: "('s \<Rightarrow> 's + 'r) \<Rightarrow> 's \<Rightarrow> 'r option" where
  "run step = run_calls (\<lambda>s. Some (step s))"

lemma run_calls_Inl: "step s = Some (Inl s') \<Longrightarrow> run_calls step s = run_calls step s'"
  by (subst run_calls.simps) simp

lemma run_calls_Inr: "step s = Some (Inr r) \<Longrightarrow> run_calls step s = Some r"
  by (subst run_calls.simps) simp

lemma run_unfold [code]:
  "run step s = (case step s of Inl s' \<Rightarrow> run step s' | Inr r \<Rightarrow> Some r)"
  unfolding run_def by (subst run_calls.simps) simp

lemma run_Inl: "step s = Inl s' \<Longrightarrow> run step s = run step s'"
  by (subst run_unfold) simp

lemma run_Inr: "step s = Inr r \<Longrightarrow> run step s = Some r"
  by (subst run_unfold) simp

text \<open>In a loop body: the \<open>?\<close> operator on a call, and an index that may panic.\<close>

definition call ::
  "('a, 'e) res option \<Rightarrow> ('a \<Rightarrow> ('s + ('b, 'e) res) option) \<Rightarrow> ('s + ('b, 'e) res) option" where
  "call m f = (case m of
     None \<Rightarrow> None
   | Some (Ok a) \<Rightarrow> f a
   | Some (Err e) \<Rightarrow> Some (Inr (Err e))
   | Some Panic \<Rightarrow> Some (Inr Panic))"

lemma call_simps [simp]:
  "call None f = None" "call (Some (Ok a)) f = f a"
  "call (Some (Err e)) f = Some (Inr (Err e))" "call (Some Panic) f = Some (Inr Panic)"
  by (simp_all add: call_def)

text \<open>Partial correctness: an invariant of the iterations holds where the loop leaves.\<close>

lemma run_calls_invariant:
  assumes ret: "run_calls step s = Some r"
    and init: "I s"
    and keep: "\<And>s s'. I s \<Longrightarrow> step s = Some (Inl s') \<Longrightarrow> I s'"
    and leave: "\<And>s r. I s \<Longrightarrow> step s = Some (Inr r) \<Longrightarrow> Q r"
  shows "Q r"
proof -
  have "I s \<longrightarrow> Q r"
  proof (rule run_calls.raw_induct
      [where P = "\<lambda>st s r. st = step \<longrightarrow> I s \<longrightarrow> Q r", OF _ ret, THEN mp, OF _ refl])
    fix f st s r
    assume IH: "\<And>st s r. f st s = Some r \<Longrightarrow> st = step \<longrightarrow> I s \<longrightarrow> Q r"
      and eq: "(case st s of None \<Rightarrow> None
        | Some next \<Rightarrow> (case next of Inl s' \<Rightarrow> f st s' | Inr r \<Rightarrow> Some r)) = Some r"
    show "st = step \<longrightarrow> I s \<longrightarrow> Q r"
    proof (intro impI)
      assume "st = step" and "I s"
      with eq IH show "Q r"
        by (auto split: option.splits sum.splits intro: leave dest: keep)
    qed
  qed
  with init show ?thesis by blast
qed

text \<open>Total correctness: the iterations also descend in a well-founded relation.\<close>

lemma run_calls_total:
  assumes init: "I s"
    and wf: "wf R"
    and keep: "\<And>s. I s \<Longrightarrow>
      (\<exists>s'. step s = Some (Inl s') \<and> I s' \<and> (s', s) \<in> R) \<or> (\<exists>r. step s = Some (Inr r) \<and> Q r)"
  shows "\<exists>r. run_calls step s = Some r \<and> Q r"
  using wf init
proof (induction s rule: wf_induct_rule)
  case (less s)
  from keep [OF less.prems] show ?case
  proof
    assume "\<exists>s'. step s = Some (Inl s') \<and> I s' \<and> (s', s) \<in> R"
    with less.IH show ?thesis by (auto simp: run_calls_Inl)
  qed (auto simp: run_calls_Inr)
qed

text \<open>
  The same with a ghost: what descends may be measured by something the state only
  determines, such as a solution of the equations it holds.
\<close>

lemma run_calls_ghost:
  assumes init: "I g s"
    and wf: "wf R"
    and keep: "\<And>g s. I g s \<Longrightarrow>
      (\<exists>s' g'. step s = Some (Inl s') \<and> I g' s' \<and> ((g', s'), (g, s)) \<in> R) \<or>
      (\<exists>r. step s = Some (Inr r) \<and> Q r)"
  shows "\<exists>r. run_calls step s = Some r \<and> Q r"
proof -
  define p where "p = (g, s)"
  have "I (fst p) (snd p) \<Longrightarrow> \<exists>r. run_calls step (snd p) = Some r \<and> Q r"
    using wf
  proof (induction p rule: wf_induct_rule)
    case (less p)
    from keep [OF less.prems] show ?case
    proof
      assume "\<exists>s' g'. step (snd p) = Some (Inl s') \<and> I g' s' \<and> ((g', s'), (fst p, snd p)) \<in> R"
      then obtain s' g' where *: "step (snd p) = Some (Inl s')" "I g' s'" "((g', s'), p) \<in> R" by auto
      from less.IH [OF *(3)] *(2) show ?thesis by (simp add: run_calls_Inl [where step = step, OF *(1)])
    qed (auto simp: run_calls_Inr)
  qed
  with init show ?thesis by (simp add: p_def)
qed

lemma run_total:
  assumes init: "I s"
    and wf: "wf R"
    and keep: "\<And>s s'. I s \<Longrightarrow> step s = Inl s' \<Longrightarrow> I s' \<and> (s', s) \<in> R"
    and leave: "\<And>s r. I s \<Longrightarrow> step s = Inr r \<Longrightarrow> Q r"
  shows "\<exists>r. run step s = Some r \<and> Q r"
  unfolding run_def
proof (rule run_calls_total [where I = I and R = R, OF init wf])
  fix s assume "I s"
  then show "(\<exists>s'. Some (step s) = Some (Inl s') \<and> I s' \<and> (s', s) \<in> R) \<or>
      (\<exists>r. Some (step s) = Some (Inr r) \<and> Q r)"
    using keep [of s] leave [of s] by (cases "step s") auto
qed

lemma run_invariant:
  assumes "run step s = Some r" and "I s"
    and "\<And>s s'. I s \<Longrightarrow> step s = Inl s' \<Longrightarrow> I s'"
    and "\<And>s r. I s \<Longrightarrow> step s = Inr r \<Longrightarrow> Q r"
  shows "Q r"
  by (rule run_calls_invariant [where I = I and step = "\<lambda>s. Some (step s)", OF assms(1) [unfolded run_def] assms(2)])
     (use assms(3,4) in auto)

text \<open>
  The contract of a work-list loop: what it maintains, what descends, and what holds when
  it leaves.  Each component interprets it on its own loop body.
\<close>

locale loop_machine =
  fixes step :: "'s \<Rightarrow> 's + 'r"
    and inv :: "'s \<Rightarrow> bool"
    and weight :: "'s \<Rightarrow> nat"
    and post :: "'r \<Rightarrow> bool"
  assumes step_inv: "inv s \<Longrightarrow> step s = Inl s' \<Longrightarrow> inv s'"
    and step_weight: "inv s \<Longrightarrow> step s = Inl s' \<Longrightarrow> weight s' < weight s"
    and step_post: "inv s \<Longrightarrow> step s = Inr r \<Longrightarrow> post r"
begin

lemma returns: "inv s \<Longrightarrow> \<exists>r. run step s = Some r \<and> post r"
  by (rule run_total [where I = inv and R = "measure weight"])
     (auto intro: step_inv step_weight step_post)

lemma result: "inv s \<Longrightarrow> run step s = Some r \<Longrightarrow> post r"
  using returns by force

end

section \<open>Lists\<close>

lemma nth_append_old: "i < length xs \<Longrightarrow> (xs @ ys) ! i = xs ! i"
  by (simp add: nth_append)

lemma filter_id_conv_all: "(\<forall>x \<in> set xs. P x) \<Longrightarrow> filter P xs = xs"
  by (induction xs) auto

end
