(* ===== verification/Hell_Digest.thy ===== *)
theory Hell_Digest
  imports Hell_Prelude
begin

unbundle bit_operations_syntax

text \<open>
  Crate \<open>hell-digest\<close>: the dependency-free streaming SHA-256.  The model follows the
  code: the chaining state, the 64-byte block buffer, its fill and the saturating byte
  count are the fields of \<open>sha256\<close>; \<open>compress\<close> is the code's compression
  function on 32-bit words.  The lemmas show that the streaming buffer computes the
  padded one-shot hash whatever the chunking, and that the hexadecimal codec round-trips.
\<close>

section \<open>Constants\<close>

definition INITIAL :: "u32 list" where
  "INITIAL =
    [0x6a09e667, 0xbb67ae85, 0x3c6ef372, 0xa54ff53a,
     0x510e527f, 0x9b05688c, 0x1f83d9ab, 0x5be0cd19]"

definition ROUND :: "u32 list" where
  "ROUND = concat
    [[0x428a2f98, 0x71374491, 0xb5c0fbcf, 0xe9b5dba5], [0x3956c25b, 0x59f111f1, 0x923f82a4, 0xab1c5ed5],
     [0xd807aa98, 0x12835b01, 0x243185be, 0x550c7dc3], [0x72be5d74, 0x80deb1fe, 0x9bdc06a7, 0xc19bf174],
     [0xe49b69c1, 0xefbe4786, 0x0fc19dc6, 0x240ca1cc], [0x2de92c6f, 0x4a7484aa, 0x5cb0a9dc, 0x76f988da],
     [0x983e5152, 0xa831c66d, 0xb00327c8, 0xbf597fc7], [0xc6e00bf3, 0xd5a79147, 0x06ca6351, 0x14292967],
     [0x27b70a85, 0x2e1b2138, 0x4d2c6dfc, 0x53380d13], [0x650a7354, 0x766a0abb, 0x81c2c92e, 0x92722c85],
     [0xa2bfe8a1, 0xa81a664b, 0xc24b8b70, 0xc76c51a3], [0xd192e819, 0xd6990624, 0xf40e3585, 0x106aa070],
     [0x19a4c116, 0x1e376c08, 0x2748774c, 0x34b0bcb5], [0x391c0cb3, 0x4ed8aa4a, 0x5b9cca4f, 0x682e6ff3],
     [0x748f82ee, 0x78a5636f, 0x84c87814, 0x8cc70208], [0x90befffa, 0xa4506ceb, 0xbef9a3f7, 0xc67178f2]]"

section \<open>Hexadecimal digests\<close>

text \<open>A \<open>Digest\<close> is its 32 bytes; \<open>&str\<close> arguments are their ASCII bytes.\<close>

type_synonym digest = "u8 list"

definition wrong_width :: string where
  "wrong_width = ''SHA-256 has the wrong hexadecimal width''"

definition wrong_digit :: string where
  "wrong_digit = ''SHA-256 contains a non-hexadecimal digit''"

definition nibble :: "char \<Rightarrow> (u8, string) res" where
  "nibble byte =
    (let b = (of_char byte :: nat) in
     if 48 \<le> b \<and> b \<le> 57 then Ok (of_nat (b - 48))
     else if 97 \<le> b \<and> b \<le> 102 then Ok (of_nat (b - 97 + 10))
     else if 65 \<le> b \<and> b \<le> 70 then Ok (of_nat (b - 65 + 10))
     else Err wrong_digit)"

text \<open>The loop over \<open>chunks_exact(2)\<close>: the first bad digit ends it with its error.\<close>

fun hex_pairs :: "string \<Rightarrow> (u8 list, string) res" where
  "hex_pairs (a # b # rest) =
     res_bind (nibble a) (\<lambda>hi.
     res_bind (nibble b) (\<lambda>lo.
     res_bind (hex_pairs rest) (\<lambda>bs. Ok ((push_bit 4 hi OR lo) # bs))))"
| "hex_pairs _ = Ok []"

definition from_hex :: "string \<Rightarrow> (digest, string) res" where
  "from_hex hex = (if length hex \<noteq> 32 * 2 then Err wrong_width else hex_pairs hex)"

definition HEX :: string where
  "HEX = ''0123456789abcdef''"

fun hex_of :: "digest \<Rightarrow> string" where
  "hex_of [] = []"
| "hex_of (byte # bs) = HEX ! unat (drop_bit 4 byte) # HEX ! unat (byte AND 0x0f) # hex_of bs"

section \<open>The streaming state\<close>

record sha256 =
  chain :: "u32 list"
  block :: "u8 list"
  block_len :: nat
  total_bytes :: u64

definition sha256_new :: sha256 where
  "sha256_new = \<lparr>chain = INITIAL, block = replicate 64 0, block_len = 0, total_bytes = 0\<rparr>"

definition saturating_add_u64 :: "u64 \<Rightarrow> nat \<Rightarrow> u64" where
  "saturating_add_u64 a n =
    (let m = min n u64_max in
     if unat a + m \<le> u64_max then a + of_nat m else of_nat u64_max)"

lemma saturating_add_u64_code [code]:
  "saturating_add_u64 a n =
    (let m = (if int n \<le> 18446744073709551615 then n else nat 18446744073709551615) in
     if uint a + int m \<le> 18446744073709551615 then a + of_nat m else 18446744073709551615)"
proof -
  have max: "int u64_max = 18446744073709551615" and nat_max: "nat 18446744073709551615 = u64_max"
    by (simp_all add: u64_max_def)
  have "unat a + m \<le> u64_max \<longleftrightarrow> uint a + int m \<le> 18446744073709551615" for m
    unfolding max [symmetric] uint_nat of_nat_add [symmetric] of_nat_le_iff ..
  moreover have "min n u64_max = (if int n \<le> 18446744073709551615 then n else nat 18446744073709551615)"
    unfolding max [symmetric] of_nat_le_iff by (simp add: min_def nat_max)
  moreover have "(of_nat u64_max :: u64) = 18446744073709551615"
    by (simp add: u64_max_def)
  ultimately show ?thesis
    by (simp add: saturating_add_u64_def Let_def)
qed

text \<open>\<open>dst[at..at + src.len()].copy_from_slice(src)\<close>\<close>

definition copy_at :: "'a list \<Rightarrow> nat \<Rightarrow> 'a list \<Rightarrow> 'a list" where
  "copy_at dst at src = take at dst @ src @ drop (at + length src) dst"

section \<open>Compression\<close>

definition be32 :: "u8 list \<Rightarrow> u32" where
  "be32 bs = fold (\<lambda>b acc. push_bit 8 acc OR ucast b) bs 0"

definition be_bytes32 :: "u32 \<Rightarrow> u8 list" where
  "be_bytes32 w = map (\<lambda>k. ucast (drop_bit (8 * k) w)) [3, 2, 1, 0]"

definition be_bytes64 :: "u64 \<Rightarrow> u8 list" where
  "be_bytes64 w = map (\<lambda>k. ucast (drop_bit (8 * k) w)) [7, 6, 5, 4, 3, 2, 1, 0]"

fun chunks_exact4 :: "u8 list \<Rightarrow> u8 list list" where
  "chunks_exact4 (a # b # c # d # rest) = [a, b, c, d] # chunks_exact4 rest"
| "chunks_exact4 _ = []"

definition schedule_word :: "nat \<Rightarrow> u32 list \<Rightarrow> u32 list" where
  "schedule_word index words =
    (let s0 = word_rotr 7 (words ! (index - 15)) XOR word_rotr 18 (words ! (index - 15))
                XOR drop_bit 3 (words ! (index - 15));
         s1 = word_rotr 17 (words ! (index - 2)) XOR word_rotr 19 (words ! (index - 2))
                XOR drop_bit 10 (words ! (index - 2))
     in words[index := words ! (index - 16) + s0 + words ! (index - 7) + s1])"

definition message_schedule :: "u8 list \<Rightarrow> u32 list" where
  "message_schedule blk =
    fold schedule_word [16..<64]
      (copy_at (replicate 64 0) 0 (map be32 (chunks_exact4 blk)))"

type_synonym working = "u32 \<times> u32 \<times> u32 \<times> u32 \<times> u32 \<times> u32 \<times> u32 \<times> u32"

fun round_step :: "u32 \<times> u32 \<Rightarrow> working \<Rightarrow> working" where
  "round_step (word, constant) (a, b, c, d, e, f, g, h) =
    (let choice = (e AND f) XOR (NOT e AND g);
         majority = (a AND b) XOR (a AND c) XOR (b AND c);
         sum0 = word_rotr 2 a XOR word_rotr 13 a XOR word_rotr 22 a;
         sum1 = word_rotr 6 e XOR word_rotr 11 e XOR word_rotr 25 e;
         first = h + sum1 + choice + constant + word;
         second = sum0 + majority
     in (first + second, a, b, c, d + first, e, f, g))"

definition working_of :: "u32 list \<Rightarrow> working" where
  "working_of s = (s ! 0, s ! 1, s ! 2, s ! 3, s ! 4, s ! 5, s ! 6, s ! 7)"

fun list_of_working :: "working \<Rightarrow> u32 list" where
  "list_of_working (a, b, c, d, e, f, g, h) = [a, b, c, d, e, f, g, h]"

definition compress :: "u32 list \<Rightarrow> u8 list \<Rightarrow> u32 list" where
  "compress st blk =
    map2 (+) st
      (list_of_working (fold round_step (zip (message_schedule blk) ROUND) (working_of st)))"

section \<open>Update and finish\<close>

text \<open>The \<open>while bytes.len() >= 64\<close> loop: the chaining state and the bytes left over.\<close>

function absorb :: "u32 list \<Rightarrow> u8 list \<Rightarrow> u32 list \<times> u8 list" where
  "absorb st bytes =
    (if 64 \<le> length bytes then absorb (compress st (take 64 bytes)) (drop 64 bytes)
     else (st, bytes))"
  by pat_completeness auto
termination by (relation "measure (\<lambda>(st, bytes). length bytes)") auto

declare absorb.simps [simp del]

text \<open>The loop and the two statements after it.\<close>

definition update_tail :: "sha256 \<Rightarrow> u8 list \<Rightarrow> sha256" where
  "update_tail s bytes =
    (let (st, rest) = absorb (chain s) bytes in
     s\<lparr>chain := st, block := copy_at (block s) 0 rest, block_len := length rest\<rparr>)"

definition sha256_update :: "sha256 \<Rightarrow> u8 list \<Rightarrow> sha256" where
  "sha256_update s0 bytes =
    (let s = s0\<lparr>total_bytes := saturating_add_u64 (total_bytes s0) (length bytes)\<rparr> in
     if block_len s \<noteq> 0 then
       let copy = min (64 - block_len s) (length bytes);
           s1 = s\<lparr>block := copy_at (block s) (block_len s) (take copy bytes),
                   block_len := block_len s + copy\<rparr>
       in if block_len s1 = 64
          then update_tail (s1\<lparr>chain := compress (chain s1) (block s1), block_len := 0\<rparr>)
                 (drop copy bytes)
          else s1
     else update_tail s bytes)"

definition sha256_finish :: "sha256 \<Rightarrow> digest" where
  "sha256_finish s0 =
    (let bit_len = total_bytes s0 * 8;
         s = s0\<lparr>block := (block s0)[block_len s0 := 0x80], block_len := block_len s0 + 1\<rparr>;
         filled = copy_at (block s) (block_len s) (replicate (64 - block_len s) 0);
         (st, blk) = (if 64 - 8 < block_len s
                      then (compress (chain s) filled, replicate 64 0)
                      else (chain s, filled));
         last = copy_at blk (64 - 8) (be_bytes64 bit_len)
     in concat (map be_bytes32 (compress st last)))"

section \<open>The one-shot hash\<close>

text \<open>
  The specification: SHA-256 of a whole message, the message padded with \<open>0x80\<close>,
  zeros and its 64-bit bit length to a multiple of 64 bytes and compressed block by block.
\<close>

definition sha_pad :: "u8 list \<Rightarrow> u8 list" where
  "sha_pad m =
    m @ [0x80] @ replicate ((119 - length m mod 64) mod 64) 0 @ be_bytes64 (of_nat (8 * length m))"

definition sha256_spec :: "u8 list \<Rightarrow> digest" where
  "sha256_spec m = concat (map be_bytes32 (fst (absorb INITIAL (sha_pad m))))"

section \<open>Absorbing blocks\<close>

lemma absorb_small: "length bytes < 64 \<Longrightarrow> absorb st bytes = (st, bytes)"
  by (simp add: absorb.simps)

lemma absorb_block: "length b = 64 \<Longrightarrow> absorb st (b @ bytes) = absorb (compress st b) bytes"
  by (subst absorb.simps) simp

lemma absorb_rest: "length (snd (absorb st bytes)) < 64"
proof (induction st bytes rule: absorb.induct)
  case (1 st bytes)
  then show ?case by (cases "64 \<le> length bytes") (simp_all add: absorb.simps [of st bytes])
qed

text \<open>Splitting the input anywhere changes nothing: what is left over is absorbed first.\<close>

lemma absorb_append:
  "absorb st (xs @ ys) = (case absorb st xs of (st', rest) \<Rightarrow> absorb st' (rest @ ys))"
proof (induction st xs rule: absorb.induct)
  case (1 st xs)
  show ?case
  proof (cases "64 \<le> length xs")
    case True
    have "absorb st (xs @ ys) = absorb st (take 64 xs @ (drop 64 xs @ ys))"
      by (simp flip: append_assoc)
    also have "\<dots> = absorb (compress st (take 64 xs)) (drop 64 xs @ ys)"
      using True by (intro absorb_block) simp
    finally show ?thesis using 1 [OF True] True by (simp add: absorb.simps [of st xs])
  next
    case False
    then show ?thesis by (simp add: absorb_small)
  qed
qed

lemma length_copy_at [simp]: "at + length src \<le> length dst \<Longrightarrow> length (copy_at dst at src) = length dst"
  by (simp add: copy_at_def)

lemma take_copy_at: "at + length src \<le> length dst \<Longrightarrow> take (at + length src) (copy_at dst at src) = take at dst @ src"
  by (simp add: copy_at_def)

text \<open>
  What the streaming state stands for: the message \<open>m\<close> fed so far, its whole blocks
  compressed and the rest at the front of the buffer, the byte count saturated.
\<close>

definition streams :: "sha256 \<Rightarrow> u8 list \<Rightarrow> bool" where
  "streams s m \<longleftrightarrow>
     length (block s) = 64 \<and> block_len s < 64 \<and>
     absorb INITIAL m = (chain s, take (block_len s) (block s)) \<and>
     unat (total_bytes s) = min (length m) u64_max"

lemma unat_u64_le: "unat (x :: u64) \<le> u64_max"
  proof -
  have "unat x < 2 ^ LENGTH(64)" by (rule unsigned_less)
  then show ?thesis by (simp add: u64_max_def)
qed

lemma unat_saturating_add:
  "unat (saturating_add_u64 a n) = min (unat a + n) u64_max"
proof -
  have u: "unat (of_nat k :: u64) = k" if "k \<le> u64_max" for k
    using that by (simp add: u64_max_def unat_of_nat)
  have "unat (a + of_nat m) = unat a + m" if "unat a + m \<le> u64_max" for m
    using that u [of m] by (subst unat_add_lem [THEN iffD1]) (simp_all add: u64_max_def)
  then show ?thesis
    using u [of u64_max] unat_u64_le [of a] by (auto simp: saturating_add_u64_def Let_def min_def)
qed

lemma streams_new: "streams sha256_new []"
  by (simp add: streams_def sha256_new_def absorb_small)

lemma update_tail_streams:
  assumes "length (block s) = 64" and "absorb INITIAL m = absorb (chain s) bytes"
    and "unat (total_bytes s) = min (length m) u64_max"
  shows "streams (update_tail s bytes) m"
proof -
  obtain st rest where a: "absorb (chain s) bytes = (st, rest)" by force
  have "length rest < 64" using absorb_rest [of "chain s" bytes] a by simp
  then show ?thesis
    using assms a take_copy_at [of 0 rest "block s"] by (simp add: streams_def update_tail_def)
qed

lemma update_streams:
  assumes s: "streams s m"
  shows "streams (sha256_update s bytes) (m @ bytes)"
proof -
  define r where "r = take (block_len s) (block s)"
  define copy where "copy = min (64 - block_len s) (length bytes)"
  define s1 where "s1 = s\<lparr>total_bytes := saturating_add_u64 (total_bytes s) (length bytes)\<rparr>"
  define blk where "blk = copy_at (block s) (block_len s) (take copy bytes)"
  from s have len: "length (block s) = 64" "block_len s < 64" and r: "length r = block_len s"
    and abs: "absorb INITIAL m = (chain s, r)"
    by (simp_all add: streams_def r_def)
  have tot: "unat (total_bytes s1) = min (length (m @ bytes)) u64_max"
  proof -
    have "unat (total_bytes s) = min (length m) u64_max" using s by (simp add: streams_def)
    then have "unat (total_bytes s1) = min (min (length m) u64_max + length bytes) u64_max"
      by (simp add: s1_def unat_saturating_add)
    then show ?thesis by simp
  qed
  have abs': "absorb INITIAL (m @ bytes) = absorb (chain s) (r @ bytes)"
    by (simp only: absorb_append [of INITIAL m bytes] abs prod.case)
  have copy: "copy \<le> length bytes" "block_len s + copy \<le> 64" using len by (auto simp: copy_def)
  have lc: "length (take copy bytes) = copy" using copy(1) by simp
  have blk: "length blk = 64" "take (block_len s + copy) blk = r @ take copy bytes"
    using len copy(2) take_copy_at [of "block_len s" "take copy bytes" "block s"]
    unfolding lc by (simp_all add: blk_def r_def lc)
  consider (empty) "block_len s = 0" | (full) "block_len s \<noteq> 0" "block_len s + copy = 64"
    | (part) "block_len s \<noteq> 0" "block_len s + copy \<noteq> 64" by blast
  then show ?thesis
  proof cases
    case empty
    then have "streams (update_tail s1 bytes) (m @ bytes)"
      using len abs' tot r by (intro update_tail_streams) (simp_all add: s1_def)
    with empty show ?thesis by (simp add: sha256_update_def s1_def Let_def)
  next
    case full
    have "absorb (chain s) (r @ bytes) = absorb (chain s) (blk @ drop copy bytes)"
      using blk full by simp
    also have "\<dots> = absorb (compress (chain s) blk) (drop copy bytes)"
      using blk by (simp add: absorb_block)
    finally have "streams (update_tail (s1\<lparr>block := blk, chain := compress (chain s) blk, block_len := 0\<rparr>)
        (drop copy bytes)) (m @ bytes)"
      using abs' tot blk by (intro update_tail_streams) (simp_all add: s1_def)
    with full show ?thesis
      by (simp add: sha256_update_def s1_def Let_def copy_def blk_def)
  next
    case part
    then have "copy = length bytes" "block_len s + length bytes < 64"
      using len by (auto simp: copy_def min_def split: if_splits)
    with part blk abs' tot r show ?thesis
      by (simp add: sha256_update_def streams_def s1_def Let_def copy_def blk_def absorb_small)
  qed
qed

lemma absorb_rest_mod: "length (snd (absorb st bytes)) = length bytes mod 64"
proof (induction st bytes rule: absorb.induct)
  case (1 st bytes)
  show ?case
  proof (cases "64 \<le> length bytes")
    case True
    with 1 have "length (snd (absorb st bytes)) = (length bytes - 64) mod 64"
      by (simp add: absorb.simps [of st bytes])
    with True show ?thesis by (simp add: le_mod_geq)
  next
    case False
    then show ?thesis by (simp add: absorb_small)
  qed
qed

lemma length_be_bytes64 [simp]: "length (be_bytes64 w) = 8"
  by (simp add: be_bytes64_def)

text \<open>The last one or two blocks the code builds in its buffer are the padded rest.\<close>

lemma finish_blocks:
  assumes "length blk = 64" and "n < 64"
  defines "r \<equiv> take n blk"
  defines "filled \<equiv> copy_at (blk[n := 0x80]) (n + 1) (replicate (64 - (n + 1)) 0)"
  shows "filled = r @ 0x80 # replicate (63 - n) 0"
    and "56 < n + 1 \<Longrightarrow>
      r @ [0x80] @ replicate ((119 - n) mod 64) 0 @ be_bytes64 w =
      filled @ copy_at (replicate 64 0) 56 (be_bytes64 w)"
    and "\<not> 56 < n + 1 \<Longrightarrow>
      r @ [0x80] @ replicate ((119 - n) mod 64) 0 @ be_bytes64 w =
      copy_at filled 56 (be_bytes64 w)"
proof -
  have "take (n + 1) (blk[n := 0x80]) = r @ [0x80]"
    using assms(1,2) by (simp add: r_def take_Suc_conv_app_nth)
  then show filled: "filled = r @ 0x80 # replicate (63 - n) 0"
    using assms(1,2) by (simp add: filled_def copy_at_def)
  have r: "length r = n" using assms(1,2) by (simp add: r_def)
  show "r @ [0x80] @ replicate ((119 - n) mod 64) 0 @ be_bytes64 w =
      filled @ copy_at (replicate 64 0) 56 (be_bytes64 w)" if "56 < n + 1"
  proof -
    have "(119 - n) mod 64 = (63 - n) + 56" using that assms(2) by simp
    moreover have "replicate ((63 - n) + 56) (0 :: u8) = replicate (63 - n) 0 @ replicate 56 0"
      by (rule replicate_add)
    ultimately show ?thesis by (simp add: filled copy_at_def)
  qed
  show "r @ [0x80] @ replicate ((119 - n) mod 64) 0 @ be_bytes64 w =
      copy_at filled 56 (be_bytes64 w)" if "\<not> 56 < n + 1"
  proof -
    have "(119 - n) mod 64 = 55 - n" using that by (simp add: mod_if)
    moreover have "take 56 filled = r @ 0x80 # replicate (55 - n) 0"
      using that r by (simp add: filled take_Cons' min_def)
    moreover have "length filled = 64" using r assms(2) by (simp add: filled)
    ultimately show ?thesis by (simp add: copy_at_def)
  qed
qed

lemma finish_streams:
  assumes s: "streams s m" and len: "length m \<le> u64_max"
  shows "sha256_finish s = sha256_spec m"
proof -
  define n where "n = block_len s"
  define r where "r = take n (block s)"
  define w :: u64 where "w = of_nat (8 * length m)"
  define filled where "filled = copy_at ((block s)[n := 0x80]) (n + 1) (replicate (64 - (n + 1)) 0)"
  from s have blk: "length (block s) = 64" "n < 64" and abs: "absorb INITIAL m = (chain s, r)"
    by (simp_all add: streams_def r_def n_def)
  have "unat (total_bytes s) = length m" using s len by (simp add: streams_def)
  then have "of_nat (unat (total_bytes s)) = (of_nat (length m) :: u64)" by simp
  then have "total_bytes s = of_nat (length m)" by simp
  then have w: "total_bytes s * 8 = w" by (simp add: w_def)
  have n: "length m mod 64 = n" using absorb_rest_mod [of INITIAL m] abs blk by (simp add: r_def)
  have fl: "length filled = 64" using finish_blocks(1) [OF blk] blk by (simp add: filled_def)
  have "fst (absorb INITIAL (sha_pad m)) =
      fst (absorb (chain s) (r @ [0x80] @ replicate ((119 - n) mod 64) 0 @ be_bytes64 w))"
    using absorb_append [of INITIAL m] by (simp add: sha_pad_def n w_def abs)
  also have "\<dots> = (if 56 < n + 1
      then compress (compress (chain s) filled) (copy_at (replicate 64 0) 56 (be_bytes64 w))
      else compress (chain s) (copy_at filled 56 (be_bytes64 w)))"
  proof (cases "56 < n + 1")
    case True
    have "r @ [0x80] @ replicate ((119 - n) mod 64) 0 @ be_bytes64 w =
        filled @ copy_at (replicate 64 0) 56 (be_bytes64 w) @ []"
      using finish_blocks(2) [OF blk True] by (simp add: r_def filled_def)
    then show ?thesis using True fl
      by (simp only: absorb_block length_copy_at length_replicate length_be_bytes64) (simp add: absorb_block absorb_small)
  next
    case False
    have "r @ [0x80] @ replicate ((119 - n) mod 64) 0 @ be_bytes64 w =
        copy_at filled 56 (be_bytes64 w) @ []"
      using finish_blocks(3) [OF blk False] by (simp add: r_def filled_def)
    then show ?thesis using False fl
      by (simp only: absorb_block length_copy_at length_be_bytes64) (simp add: absorb_block absorb_small)
  qed
  finally show ?thesis
    by (simp add: sha256_spec_def sha256_finish_def Let_def w filled_def n_def split: if_splits)
qed

section \<open>The hexadecimal codec\<close>

lemma nibble_HEX: "n < 16 \<Longrightarrow> nibble (HEX ! n) = Ok (of_nat n)"
proof -
  have "\<forall>n \<in> set [0..<16]. nibble (HEX ! n) = Ok (of_nat n)" by code_simp
  then show "n < 16 \<Longrightarrow> nibble (HEX ! n) = Ok (of_nat n)" by simp
qed

lemma nibbles_byte [simp]: "push_bit 4 (drop_bit 4 (b :: u8)) OR (b AND 0x0f) = b"
proof -
  have m: "(0x0f :: u8) = mask 4" by (simp add: mask_eq_exp_minus_1)
  show ?thesis
    unfolding m by (rule bit_word_eqI) (auto simp: bit_simps)
qed

lemma unat_nibbles: "unat (drop_bit 4 (b :: u8)) < 16" "unat (b AND 0x0f) < 16"
proof -
  have "unat b < 2 ^ LENGTH(8)" by (rule unsigned_less)
  then show "unat (drop_bit 4 b) < 16"
    unfolding unat_drop_bit_eq by (simp add: drop_bit_eq_div)
  have "b AND 0x0f \<le> 0x0f" by (rule word_and_le1)
  then show "unat (b AND 0x0f) < 16" by (simp add: word_le_nat_alt)
qed

lemma hex_pairs_hex_of: "hex_pairs (hex_of d) = Ok d"
  by (induction d) (simp_all add: nibble_HEX unat_nibbles)

lemma length_hex_of [simp]: "length (hex_of d) = 2 * length d"
  by (induction d) simp_all

definition ascii_lower :: "char \<Rightarrow> char" where
  "ascii_lower c = (let b = (of_char c :: nat) in if 65 \<le> b \<and> b \<le> 90 then char_of (b + 32) else c)"

lemma nibble_Ok: "nibble c = Ok n \<Longrightarrow> unat n < 16 \<and> HEX ! unat n = ascii_lower c"
proof -
  assume n: "nibble c = Ok n"
  define b where "b = (of_char c :: nat)"
  have c: "c = char_of b" by (simp add: b_def)
  have "(48 \<le> b \<and> b \<le> 57) \<or> (65 \<le> b \<and> b \<le> 70) \<or> (97 \<le> b \<and> b \<le> 102)"
    using n by (simp add: nibble_def b_def Let_def split: if_splits)
  then have "b \<in> set ([48..<58] @ [65..<71] @ [97..<103])"
    by (simp only: set_append set_upt) auto
  then consider "b = 48" | "b = 49" | "b = 50" | "b = 51" | "b = 52" | "b = 53" | "b = 54" | "b = 55"
    | "b = 56" | "b = 57" | "b = 65" | "b = 66" | "b = 67" | "b = 68" | "b = 69" | "b = 70"
    | "b = 97" | "b = 98" | "b = 99" | "b = 100" | "b = 101" | "b = 102"
    by (auto simp: upt_rec_numeral)
  then have "unat n < 16 \<and> (of_char (HEX ! unat n) :: nat) = of_char (ascii_lower c)"
    by cases (use n in \<open>simp_all add: c nibble_def ascii_lower_def HEX_def Let_def\<close>)
  then show ?thesis by simp
qed

lemma nibble_lower: "nibble (ascii_lower c) = nibble c"
  by (auto simp: nibble_def ascii_lower_def Let_def)

lemma join_nibbles:
  assumes "unat hi < 16" and "unat lo < 16"
  shows "drop_bit 4 (push_bit 4 hi OR lo :: u8) = hi" and "(push_bit 4 hi OR lo) AND 0x0f = lo"
proof -
  have "\<forall>h \<in> set [0..<16]. \<forall>l \<in> set [0..<16].
     drop_bit 4 (push_bit 4 (of_nat h) OR of_nat l :: u8) = of_nat h \<and>
     (push_bit 4 (of_nat h) OR of_nat l :: u8) AND 0x0f = of_nat l"
    by code_simp
  moreover have "unat hi \<in> set [0..<16]" "unat lo \<in> set [0..<16]" using assms by simp_all
  ultimately have "drop_bit 4 (push_bit 4 (of_nat (unat hi)) OR of_nat (unat lo) :: u8) = of_nat (unat hi) \<and>
     (push_bit 4 (of_nat (unat hi)) OR of_nat (unat lo) :: u8) AND 0x0f = of_nat (unat lo)" by blast
  then show "drop_bit 4 (push_bit 4 hi OR lo :: u8) = hi" and "(push_bit 4 hi OR lo) AND 0x0f = lo"
    by simp_all
qed

lemma hex_pairs_Ok:
  "hex_pairs h = Ok d \<Longrightarrow> even (length h) \<Longrightarrow> map ascii_lower h = hex_of d"
proof (induction h arbitrary: d rule: hex_pairs.induct)
  case (1 a b rest)
  then obtain hi lo bs where n: "nibble a = Ok hi" "nibble b = Ok lo"
    and r: "hex_pairs rest = Ok bs" and d: "d = (push_bit 4 hi OR lo) # bs" by auto
  have "map ascii_lower rest = hex_of bs" using 1 n r by simp
  then show ?case using nibble_Ok [OF n(1)] nibble_Ok [OF n(2)] join_nibbles [of hi lo]
    by (simp only: d hex_of.simps list.map)
qed simp_all

lemma hex_pairs_lower: "hex_pairs (map ascii_lower h) = hex_pairs h"
  by (induction h rule: hex_pairs.induct) (simp_all add: nibble_lower)

section \<open>The streaming contract\<close>

text \<open>
  What a caller of a streaming digest relies on: a state holds the message fed so far,
  and closing it hashes that message.  Any split of the input into chunks then gives the
  hash of the concatenation.
\<close>

locale streaming_digest =
  fixes fresh :: 's
    and feed :: "'s \<Rightarrow> 'b list \<Rightarrow> 's"
    and close :: "'s \<Rightarrow> 'd"
    and hash :: "'b list \<Rightarrow> 'd"
    and holds :: "'s \<Rightarrow> 'b list \<Rightarrow> bool"
    and cap :: nat
  assumes holds_fresh: "holds fresh []"
    and holds_feed: "holds s m \<Longrightarrow> holds (feed s x) (m @ x)"
    and close_hash: "holds s m \<Longrightarrow> length m \<le> cap \<Longrightarrow> close s = hash m"
begin

lemma foldl_holds: "holds s m \<Longrightarrow> holds (foldl feed s chunks) (m @ concat chunks)"
proof (induction chunks arbitrary: s m)
  case (Cons x chunks)
  then have "holds (foldl feed (feed s x) chunks) ((m @ x) @ concat chunks)"
    by (intro Cons.IH holds_feed)
  then show ?case by simp
qed simp

lemma chunked:
  "length (concat chunks) \<le> cap \<Longrightarrow> close (foldl feed fresh chunks) = hash (concat chunks)"
  using close_hash foldl_holds [OF holds_fresh] by simp

end

interpretation sha: streaming_digest sha256_new sha256_update sha256_finish sha256_spec streams u64_max
  by unfold_locales (rule streams_new update_streams finish_streams, assumption?)+

section \<open>Properties\<close>

text \<open>C25: However a message of at most \<open>u64::MAX\<close> bytes is cut into chunks, feeding the
  chunks to \<open>Sha256::update\<close> and finishing gives the SHA-256 of the whole message: the
  block buffer, its partial fills and the one- or two-block padding of \<open>finish\<close> refine
  the one-shot padded hash.\<close>

theorem sha256_streaming_correct:
  assumes "length (concat chunks) \<le> u64_max"
  shows "sha256_finish (foldl sha256_update sha256_new chunks) = sha256_spec (concat chunks)"
  using assms by (rule sha.chunked)

lemma sha256_streaming_correct_witness:
  "sha256_finish (foldl sha256_update sha256_new [[0x61], [], replicate 70 0x62]) =
   sha256_spec ([0x61] @ replicate 70 0x62)"
  using sha256_streaming_correct [of "[[0x61], [], replicate 70 0x62]"] by (simp add: u64_max_def)

text \<open>Printing a 32-byte digest with \<open>Digest::hex\<close> and parsing it with
  \<open>Digest::from_hex\<close> gives the digest back.\<close>

theorem from_hex_hex:
  assumes "length d = 32"
  shows "from_hex (hex_of d) = Ok d"
  using assms by (simp add: from_hex_def hex_pairs_hex_of)

lemma from_hex_hex_witness: "from_hex (hex_of (replicate 32 0xa5)) = Ok (replicate 32 0xa5)"
  using from_hex_hex [of "replicate 32 0xa5"] by simp

text \<open>\<open>Digest::from_hex\<close> accepts exactly the upper- or lower-case spellings of
  the canonical form that \<open>Digest::hex\<close> prints for a 32-byte digest, and returns that
  digest; every other string is an error.\<close>

theorem from_hex_accepts:
  "from_hex h = Ok d \<longleftrightarrow> length d = 32 \<and> map ascii_lower h = hex_of d"
proof
  assume ok: "from_hex h = Ok d"
  then have len: "length h = 64" and pairs: "hex_pairs h = Ok d"
    by (auto simp: from_hex_def split: if_splits)
  then have "map ascii_lower h = hex_of d" by (intro hex_pairs_Ok) simp_all
  moreover from this have "length h = 2 * length d" by (metis length_hex_of length_map)
  ultimately show "length d = 32 \<and> map ascii_lower h = hex_of d" using len by simp
next
  assume d: "length d = 32 \<and> map ascii_lower h = hex_of d"
  then have "length h = 64" by (metis length_hex_of length_map mult_2 numeral_Bit0)
  moreover have "hex_pairs h = Ok d"
    using hex_pairs_lower [of h] d by (simp add: hex_pairs_hex_of)
  ultimately show "from_hex h = Ok d" by (simp add: from_hex_def)
qed

end
