(* ===== verification/Hell_Policy.thy ===== *)
theory Hell_Policy
  imports Hell_Prelude
begin

text \<open>
  \<open>crates/hell-runtime/src/policy.rs\<close>: the explicit limits and capabilities of the
  runtime profiles.  Limits are natural numbers; the widths of the source types
  (\<open>u64\<close>, \<open>u32\<close>, \<open>usize\<close>) bound them, and the consumer \<open>Hell_Budget\<close> writes
  the 64-bit overflow out.  Durations are milliseconds.
\<close>

section \<open>Limits and capabilities\<close>

datatype 'a limit = Unlimited | At 'a

fun limit_value :: "'a limit \<Rightarrow> 'a option" where
  "limit_value Unlimited = None"
| "limit_value (At v) = Some v"

datatype runtime_profile = Upstream | Sandboxed | DeterministicTest

record capabilities =
  cap_filesystem :: bool
  cap_process :: bool
  cap_network_loopback :: bool
  cap_network_external :: bool
  cap_environment_read :: bool
  cap_clock :: bool
  cap_exit_process :: bool

record runtime_limits =
  lim_evaluator_steps :: "nat limit"
  lim_machine_frames :: "nat limit"
  lim_allocations :: "nat limit"
  lim_live_thunks :: "nat limit"
  lim_list_materialized_elements :: "nat limit"
  lim_stdin_bytes :: "nat limit"
  lim_handle_read_bytes :: "nat limit"
  lim_process_capture_bytes :: "nat limit"
  lim_json_depth :: "nat limit"
  lim_json_nodes :: "nat limit"
  lim_numeric_precision :: "nat limit"
  lim_concurrent_tasks :: "nat limit"
  lim_open_handles :: "nat limit"
  lim_child_processes :: "nat limit"
  lim_http_connections :: "nat limit"
  lim_http_header_bytes :: "nat limit"
  lim_http_header_count :: "nat limit"
  lim_http_body_bytes :: "nat limit"
  lim_http_reason_bytes :: "nat limit"
  lim_temp_resources :: "nat limit"

record cancellation_policy =
  graceful_shutdown :: nat
  forced_shutdown :: nat
  stalled_cleanup_is_error :: bool

record cleanup_policy =
  temp_create_retries :: "nat limit"
  temp_delete_retries :: nat

record runtime_policy =
  policy_id :: string
  policy_profile :: runtime_profile
  policy_capabilities :: capabilities
  policy_limits :: runtime_limits
  policy_cancellation :: cancellation_policy
  policy_cleanup :: cleanup_policy

section \<open>The named profiles\<close>

definition unlimited_limits :: runtime_limits where
  "unlimited_limits = \<lparr>
     lim_evaluator_steps = Unlimited, lim_machine_frames = Unlimited,
     lim_allocations = Unlimited, lim_live_thunks = Unlimited,
     lim_list_materialized_elements = Unlimited, lim_stdin_bytes = Unlimited,
     lim_handle_read_bytes = Unlimited, lim_process_capture_bytes = Unlimited,
     lim_json_depth = Unlimited, lim_json_nodes = Unlimited,
     lim_numeric_precision = Unlimited, lim_concurrent_tasks = Unlimited,
     lim_open_handles = Unlimited, lim_child_processes = Unlimited,
     lim_http_connections = Unlimited, lim_http_header_bytes = Unlimited,
     lim_http_header_count = Unlimited, lim_http_body_bytes = Unlimited,
     lim_http_reason_bytes = Unlimited, lim_temp_resources = Unlimited\<rparr>"

definition cancellation_default :: cancellation_policy where
  "cancellation_default =
     \<lparr>graceful_shutdown = 100, forced_shutdown = 150, stalled_cleanup_is_error = True\<rparr>"

definition cancellation_upstream :: cancellation_policy where
  "cancellation_upstream =
     \<lparr>graceful_shutdown = 5 * 1000, forced_shutdown = 150, stalled_cleanup_is_error = True\<rparr>"

definition cleanup_upstream :: cleanup_policy where
  "cleanup_upstream = \<lparr>temp_create_retries = Unlimited, temp_delete_retries = 1\<rparr>"

definition cleanup_sandboxed :: cleanup_policy where
  "cleanup_sandboxed = \<lparr>temp_create_retries = At 1024, temp_delete_retries = 1\<rparr>"

definition upstream :: runtime_policy where
  "upstream = \<lparr>
     policy_id = ''upstream'',
     policy_profile = Upstream,
     policy_capabilities = \<lparr>
       cap_filesystem = True, cap_process = True, cap_network_loopback = True,
       cap_network_external = True, cap_environment_read = True, cap_clock = True,
       cap_exit_process = True\<rparr>,
     policy_limits = unlimited_limits,
     policy_cancellation = cancellation_upstream,
     policy_cleanup = cleanup_upstream\<rparr>"

definition MIB :: nat where
  "MIB = 1024 * 1024"

definition sandboxed :: runtime_policy where
  "sandboxed = \<lparr>
     policy_id = ''sandboxed'',
     policy_profile = Sandboxed,
     policy_capabilities = \<lparr>
       cap_filesystem = False, cap_process = False, cap_network_loopback = True,
       cap_network_external = False, cap_environment_read = False, cap_clock = True,
       cap_exit_process = False\<rparr>,
     policy_limits = \<lparr>
       lim_evaluator_steps = At 10000000, lim_machine_frames = At 1000000,
       lim_allocations = At 10000000, lim_live_thunks = At 1000000,
       lim_list_materialized_elements = At 1000000, lim_stdin_bytes = At (64 * MIB),
       lim_handle_read_bytes = At (64 * MIB), lim_process_capture_bytes = At (64 * MIB),
       lim_json_depth = At 512, lim_json_nodes = At 1000000,
       lim_numeric_precision = At 1000, lim_concurrent_tasks = At 64,
       lim_open_handles = At 256, lim_child_processes = At 64,
       lim_http_connections = At 256, lim_http_header_bytes = At (64 * 1024),
       lim_http_header_count = At 256, lim_http_body_bytes = At (16 * MIB),
       lim_http_reason_bytes = At 1024, lim_temp_resources = At 256\<rparr>,
     policy_cancellation = cancellation_default,
     policy_cleanup = cleanup_sandboxed\<rparr>"

definition deterministic_test :: runtime_policy where
  "deterministic_test = sandboxed\<lparr>
     policy_id := ''deterministic-test'',
     policy_profile := DeterministicTest,
     policy_limits := (policy_limits sandboxed)\<lparr>lim_concurrent_tasks := At 2\<rparr>\<rparr>"

end
