(* ===== verification/Hell_Budget.thy ===== *)
theory Hell_Budget
  imports Hell_Policy
begin

text \<open>
  \<open>crates/hell-runtime/src/budget.rs\<close>: shared work and live-resource accounting.
  Counters are \<open>u64\<close> read as natural numbers with the overflow of \<open>checked_add\<close>
  and the wrap-around of \<open>fetch_sub\<close> written out.  The first part is the API as one
  thread sees it; the second is the compare-and-exchange loop of \<open>update\<close> run by any
  number of threads, as a step relation on the counter and the threads' program points.
\<close>

section \<open>Kinds, errors and the counters\<close>

datatype budget_kind = EvaluatorSteps | Allocations | LiveThunks | MaterializedElements
  | CapturedBytes | Tasks | Handles | Processes | HttpConnections | TempResources

text \<open>The two resource-limit messages, by what they report.\<close>

datatype budget_error =
    BudgetOverflowed budget_kind "nat limit" string string
  | BudgetExceeded budget_kind nat nat string string

record budget_snapshot =
  snap_evaluator_steps :: nat
  snap_allocations :: nat
  snap_live_thunks :: nat
  snap_materialized_elements :: nat
  snap_captured_bytes :: nat
  snap_live_tasks :: nat
  snap_live_handles :: nat
  snap_live_processes :: nat
  snap_live_http_connections :: nat
  snap_live_temp_resources :: nat

record budget =
  policy :: runtime_policy
  evaluator_steps :: nat
  allocations :: nat
  live_thunks :: nat
  materialized_elements :: nat
  captured_bytes :: nat
  live_tasks :: nat
  live_handles :: nat
  live_processes :: nat
  live_http_connections :: nat
  live_temp_resources :: nat

definition budget_new :: "runtime_policy \<Rightarrow> budget" where
  "budget_new p = \<lparr>policy = p, evaluator_steps = 0, allocations = 0, live_thunks = 0,
     materialized_elements = 0, captured_bytes = 0, live_tasks = 0, live_handles = 0,
     live_processes = 0, live_http_connections = 0, live_temp_resources = 0\<rparr>"

definition snapshot :: "budget \<Rightarrow> budget_snapshot" where
  "snapshot b = \<lparr>snap_evaluator_steps = evaluator_steps b, snap_allocations = allocations b,
     snap_live_thunks = live_thunks b, snap_materialized_elements = materialized_elements b,
     snap_captured_bytes = captured_bytes b, snap_live_tasks = live_tasks b,
     snap_live_handles = live_handles b, snap_live_processes = live_processes b,
     snap_live_http_connections = live_http_connections b,
     snap_live_temp_resources = live_temp_resources b\<rparr>"

section \<open>The update loop, uncontended\<close>

definition checked_add :: "nat \<Rightarrow> nat \<Rightarrow> nat option" where
  "checked_add a b = (if a + b \<le> u64_max then Some (a + b) else None)"

text \<open>
  The checks of one round of the loop on the observed value: the new value to install, or
  the error with which the loop is left.
\<close>

definition admit ::
  "nat limit \<Rightarrow> budget_kind \<Rightarrow> string \<Rightarrow> string \<Rightarrow> nat \<Rightarrow> nat \<Rightarrow> (nat, budget_error) res" where
  "admit limit kind operation profile amount current =
    (case checked_add current amount of
       None \<Rightarrow> Err (BudgetOverflowed kind limit operation profile)
     | Some next \<Rightarrow>
         (case limit of
            At maximum \<Rightarrow> (if maximum < next then Err (BudgetExceeded kind maximum next operation profile) else Ok next)
          | Unlimited \<Rightarrow> Ok next))"

text \<open>
  Uncontended, the first exchange succeeds: the counter afterwards and the result.
\<close>

definition update ::
  "nat \<Rightarrow> nat limit \<Rightarrow> budget_kind \<Rightarrow> string \<Rightarrow> string \<Rightarrow> nat \<Rightarrow> nat \<times> (nat, budget_error) res" where
  "update counter limit kind operation profile amount =
    (case admit limit kind operation profile amount counter of
       Ok next \<Rightarrow> (next, Ok next)
     | r \<Rightarrow> (counter, r))"

definition charge ::
  "nat \<Rightarrow> nat limit \<Rightarrow> budget_kind \<Rightarrow> string \<Rightarrow> string \<Rightarrow> nat \<Rightarrow> nat \<times> (unit, budget_error) res" where
  "charge counter limit kind operation profile amount =
    (let (c, r) = update counter limit kind operation profile amount in (c, res_bind r (\<lambda>_. Ok ())))"

text \<open>A permit releases the counter it was acquired from: it is that counter's kind.\<close>

definition acquire_u64 ::
  "nat \<Rightarrow> nat limit \<Rightarrow> budget_kind \<Rightarrow> string \<Rightarrow> string \<Rightarrow> nat \<times> (budget_kind, budget_error) res" where
  "acquire_u64 counter limit kind operation profile =
    (let (c, r) = update counter limit kind operation profile 1 in (c, res_bind r (\<lambda>_. Ok kind)))"

definition acquire ::
  "nat \<Rightarrow> nat limit \<Rightarrow> budget_kind \<Rightarrow> string \<Rightarrow> string \<Rightarrow> nat \<times> (budget_kind, budget_error) res" where
  "acquire counter limit kind operation profile =
    (let lim = (case limit of Unlimited \<Rightarrow> Unlimited | At value \<Rightarrow> At (min value u64_max));
         (c, r) = update counter lim kind operation profile 1
     in (c, res_bind r (\<lambda>_. Ok kind)))"

section \<open>The operations of a budget\<close>

definition charge_steps :: "budget \<Rightarrow> nat \<Rightarrow> budget \<times> (unit, budget_error) res" where
  "charge_steps b amount =
    (let (c, r) = charge (evaluator_steps b) (lim_evaluator_steps (policy_limits (policy b)))
                    EvaluatorSteps ''evaluator transition'' (policy_id (policy b)) amount
     in (b\<lparr>evaluator_steps := c\<rparr>, r))"

definition charge_allocation :: "budget \<Rightarrow> nat \<Rightarrow> budget \<times> (unit, budget_error) res" where
  "charge_allocation b amount =
    (let (c, r) = charge (allocations b) (lim_allocations (policy_limits (policy b)))
                    Allocations ''runtime allocation'' (policy_id (policy b)) amount
     in (b\<lparr>allocations := c\<rparr>, r))"

definition acquire_live_thunk :: "budget \<Rightarrow> budget \<times> (budget_kind, budget_error) res" where
  "acquire_live_thunk b =
    (let (c, r) = acquire_u64 (live_thunks b) (lim_live_thunks (policy_limits (policy b)))
                    LiveThunks ''thunk construction'' (policy_id (policy b))
     in (b\<lparr>live_thunks := c\<rparr>, r))"

definition charge_materialization :: "budget \<Rightarrow> nat \<Rightarrow> budget \<times> (unit, budget_error) res" where
  "charge_materialization b amount =
    (let (c, r) = charge (materialized_elements b)
                    (lim_list_materialized_elements (policy_limits (policy b)))
                    MaterializedElements ''list materialization'' (policy_id (policy b)) amount
     in (b\<lparr>materialized_elements := c\<rparr>, r))"

definition charge_capture :: "budget \<Rightarrow> nat \<Rightarrow> budget \<times> (unit, budget_error) res" where
  "charge_capture b amount =
    (let (c, r) = charge (captured_bytes b) (lim_process_capture_bytes (policy_limits (policy b)))
                    CapturedBytes ''process output capture'' (policy_id (policy b)) amount
     in (b\<lparr>captured_bytes := c\<rparr>, r))"

definition acquire_task :: "budget \<Rightarrow> budget \<times> (budget_kind, budget_error) res" where
  "acquire_task b =
    (let (c, r) = acquire (live_tasks b) (lim_concurrent_tasks (policy_limits (policy b)))
                    Tasks ''task spawn'' (policy_id (policy b))
     in (b\<lparr>live_tasks := c\<rparr>, r))"

definition acquire_handle :: "budget \<Rightarrow> budget \<times> (budget_kind, budget_error) res" where
  "acquire_handle b =
    (let (c, r) = acquire (live_handles b) (lim_open_handles (policy_limits (policy b)))
                    Handles ''handle open'' (policy_id (policy b))
     in (b\<lparr>live_handles := c\<rparr>, r))"

definition acquire_process :: "budget \<Rightarrow> budget \<times> (budget_kind, budget_error) res" where
  "acquire_process b =
    (let (c, r) = acquire (live_processes b) (lim_child_processes (policy_limits (policy b)))
                    Processes ''child process spawn'' (policy_id (policy b))
     in (b\<lparr>live_processes := c\<rparr>, r))"

definition acquire_http_connection :: "budget \<Rightarrow> budget \<times> (budget_kind, budget_error) res" where
  "acquire_http_connection b =
    (let (c, r) = acquire (live_http_connections b) (lim_http_connections (policy_limits (policy b)))
                    HttpConnections ''HTTP connection admission'' (policy_id (policy b))
     in (b\<lparr>live_http_connections := c\<rparr>, r))"

definition acquire_temp_resource :: "budget \<Rightarrow> budget \<times> (budget_kind, budget_error) res" where
  "acquire_temp_resource b =
    (let (c, r) = acquire (live_temp_resources b) (lim_temp_resources (policy_limits (policy b)))
                    TempResources ''temporary resource creation'' (policy_id (policy b))
     in (b\<lparr>live_temp_resources := c\<rparr>, r))"

text \<open>\<open>Drop for BudgetPermit\<close>: \<open>fetch_sub(1)\<close>, which wraps.\<close>

definition fetch_sub_1 :: "nat \<Rightarrow> nat" where
  "fetch_sub_1 n = (if n = 0 then u64_max else n - 1)"

fun drop_permit :: "budget_kind \<Rightarrow> budget \<Rightarrow> budget" where
  "drop_permit EvaluatorSteps b = b\<lparr>evaluator_steps := fetch_sub_1 (evaluator_steps b)\<rparr>"
| "drop_permit Allocations b = b\<lparr>allocations := fetch_sub_1 (allocations b)\<rparr>"
| "drop_permit LiveThunks b = b\<lparr>live_thunks := fetch_sub_1 (live_thunks b)\<rparr>"
| "drop_permit MaterializedElements b = b\<lparr>materialized_elements := fetch_sub_1 (materialized_elements b)\<rparr>"
| "drop_permit CapturedBytes b = b\<lparr>captured_bytes := fetch_sub_1 (captured_bytes b)\<rparr>"
| "drop_permit Tasks b = b\<lparr>live_tasks := fetch_sub_1 (live_tasks b)\<rparr>"
| "drop_permit Handles b = b\<lparr>live_handles := fetch_sub_1 (live_handles b)\<rparr>"
| "drop_permit Processes b = b\<lparr>live_processes := fetch_sub_1 (live_processes b)\<rparr>"
| "drop_permit HttpConnections b = b\<lparr>live_http_connections := fetch_sub_1 (live_http_connections b)\<rparr>"
| "drop_permit TempResources b = b\<lparr>live_temp_resources := fetch_sub_1 (live_temp_resources b)\<rparr>"

section \<open>Facts about one counter\<close>

fun within :: "nat limit \<Rightarrow> nat \<Rightarrow> bool" where
  "within Unlimited n = True"
| "within (At m) n = (n \<le> m)"

lemma admit_Ok:
  "admit l k op pr a c = Ok n \<longleftrightarrow> n = c + a \<and> c + a \<le> u64_max \<and> within l (c + a)"
  by (cases l) (auto simp: admit_def checked_add_def)

lemma admit_not_Panic [simp]: "admit l k op pr a c \<noteq> Panic"
  by (simp add: admit_def split: option.split limit.split)

lemma admit_Err:
  "(\<exists>e. admit l k op pr a c = Err e) \<longleftrightarrow> u64_max < c + a \<or> \<not> within l (c + a)"
  by (cases l) (auto simp: admit_def checked_add_def)

lemma update_cases:
  obtains (granted) "c + a \<le> u64_max" "within l (c + a)" "update c l k op pr a = (c + a, Ok (c + a))"
  | (refused) e where "u64_max < c + a \<or> \<not> within l (c + a)" "update c l k op pr a = (c, Err e)"
proof (cases "admit l k op pr a c")
  case (Ok n)
  with granted show ?thesis by (auto simp: update_def admit_Ok)
next
  case (Err e)
  with refused admit_Err [of l k op pr a c] show ?thesis by (auto simp: update_def)
qed simp

lemma update_keeps_limit:
  assumes "within l c" and "c \<le> u64_max"
  shows "within l (fst (update c l k op pr a)) \<and> fst (update c l k op pr a) \<le> u64_max"
  by (rule update_cases [of c a l k op pr]) (use assms in simp_all)

lemma within_min: "n \<le> u64_max \<Longrightarrow> within (case l of Unlimited \<Rightarrow> Unlimited | At v \<Rightarrow> At (min v u64_max)) n = within l n"
  by (cases l) auto

section \<open>The meter and pool contracts\<close>

text \<open>
  A meter is a level under a cap with an operation that takes a fixed amount or refuses;
  a pool is a meter of single permits with a release.
\<close>

locale meter =
  fixes level :: "'b \<Rightarrow> nat"
    and cap :: "'b \<Rightarrow> nat limit"
    and set_level :: "nat \<Rightarrow> 'b \<Rightarrow> 'b"
    and amount :: nat
    and draw :: "'b \<Rightarrow> 'b \<times> ('r, 'e) res"
  assumes draw_granted: "level b + amount \<le> u64_max \<Longrightarrow> within (cap b) (level b + amount) \<Longrightarrow>
      \<exists>r. draw b = (set_level (level b + amount) b, Ok r)"
    and draw_refused: "u64_max < level b + amount \<or> \<not> within (cap b) (level b + amount) \<Longrightarrow>
      \<exists>e. draw b = (b, Err e)"
    and level_set: "level (set_level n b) = n"
    and cap_set: "cap (set_level n b) = cap b"
    and set_set: "set_level n (set_level m b) = set_level n b"
    and set_same: "set_level (level b) b = b"
begin

lemma draw_Ok_iff:
  "(\<exists>b' r. draw b = (b', Ok r)) \<longleftrightarrow> level b + amount \<le> u64_max \<and> within (cap b) (level b + amount)"
  using draw_granted [of b] draw_refused [of b] by (metis linorder_not_less prod.inject res.distinct(1))

lemma draw_Ok:
  assumes "draw b = (b', Ok r)"
  shows "b' = set_level (level b + amount) b" and "within (cap b) (level b + amount)"
    and "level b + amount \<le> u64_max"
  using assms draw_Ok_iff [of b] draw_granted [of b] by auto

lemma draw_Err: "draw b = (b', Err e) \<Longrightarrow> b' = b"
  using draw_Ok_iff [of b] draw_refused [of b] draw_granted [of b]
  by (metis linorder_not_less prod.inject res.distinct(1))

lemma draw_never_panics: "snd (draw b) \<noteq> Panic"
  using draw_granted [of b] draw_refused [of b]
  by (metis linorder_not_less res.distinct(3) res.distinct(5) snd_conv)

lemma draw_keeps_cap:
  assumes "within (cap b) (level b)" and "level b \<le> u64_max" and "draw b = (b', r)"
  shows "within (cap b') (level b') \<and> level b' \<le> u64_max"
proof (cases r)
  case (Ok x)
  with assms(3) show ?thesis using draw_Ok [of b b' x] by (simp add: level_set cap_set)
next
  case (Err e)
  with assms show ?thesis using draw_Err by auto
next
  case Panic
  with assms(3) draw_never_panics [of b] show ?thesis by simp
qed

end

locale pool = meter level cap set_level 1 draw
  for level :: "'b \<Rightarrow> nat"
    and cap :: "'b \<Rightarrow> nat limit"
    and set_level :: "nat \<Rightarrow> 'b \<Rightarrow> 'b"
    and draw :: "'b \<Rightarrow> 'b \<times> ('r, 'e) res" +
  fixes release :: "'b \<Rightarrow> 'b"
  assumes release_eq: "release b = set_level (fetch_sub_1 (level b)) b"
begin

lemma release_undoes_draw: "draw b = (b', Ok r) \<Longrightarrow> release b' = b"
  using draw_Ok [of b b' r] by (simp add: release_eq fetch_sub_1_def level_set set_set set_same)

lemma release_keeps_cap:
  assumes "within (cap b) (level b)" and "level b \<le> u64_max" and "0 < level b"
  shows "within (cap (release b)) (level (release b)) \<and> level (release b) = level b - 1"
  using assms by (cases "cap b") (auto simp: release_eq fetch_sub_1_def level_set cap_set)

end

lemmas meter_simps = update_def admit_def checked_add_def Let_def

text \<open>The error a refused draw reports.\<close>

definition refusal :: "nat limit \<Rightarrow> budget_kind \<Rightarrow> string \<Rightarrow> string \<Rightarrow> nat \<Rightarrow> budget_error" where
  "refusal l k op pr n =
    (if u64_max < n then BudgetOverflowed k l op pr else BudgetExceeded k (the (limit_value l)) n op pr)"

definition narrowed :: "nat limit \<Rightarrow> nat limit" where
  "narrowed l = (case l of Unlimited \<Rightarrow> Unlimited | At v \<Rightarrow> At (min v u64_max))"

lemma charge_eq:
  "charge c l k op pr a =
    (if c + a \<le> u64_max \<and> within l (c + a) then (c + a, Ok ()) else (c, Err (refusal l k op pr (c + a))))"
  by (cases l) (auto simp: charge_def meter_simps refusal_def)

lemma acquire_u64_eq:
  "acquire_u64 c l k op pr =
    (if c + 1 \<le> u64_max \<and> within l (c + 1) then (c + 1, Ok k) else (c, Err (refusal l k op pr (c + 1))))"
  by (cases l) (auto simp: acquire_u64_def meter_simps refusal_def)

lemma acquire_eq:
  "acquire c l k op pr =
    (if c + 1 \<le> u64_max \<and> within l (c + 1) then (c + 1, Ok k)
     else (c, Err (refusal (narrowed l) k op pr (c + 1))))"
  by (cases l) (auto simp: acquire_def meter_simps refusal_def narrowed_def)

section \<open>Every operation is a meter on its own counter\<close>

interpretation steps: meter evaluator_steps "\<lambda>b. lim_evaluator_steps (policy_limits (policy b))"
    "\<lambda>n b. b\<lparr>evaluator_steps := n\<rparr>" a "\<lambda>b. charge_steps b a" for a
  by unfold_locales (auto simp: charge_steps_def charge_eq)

interpretation allocs: meter allocations "\<lambda>b. lim_allocations (policy_limits (policy b))"
    "\<lambda>n b. b\<lparr>allocations := n\<rparr>" a "\<lambda>b. charge_allocation b a" for a
  by unfold_locales (auto simp: charge_allocation_def charge_eq)

interpretation materialized: meter materialized_elements "\<lambda>b. lim_list_materialized_elements (policy_limits (policy b))"
    "\<lambda>n b. b\<lparr>materialized_elements := n\<rparr>" a "\<lambda>b. charge_materialization b a" for a
  by unfold_locales (auto simp: charge_materialization_def charge_eq)

interpretation captured: meter captured_bytes "\<lambda>b. lim_process_capture_bytes (policy_limits (policy b))"
    "\<lambda>n b. b\<lparr>captured_bytes := n\<rparr>" a "\<lambda>b. charge_capture b a" for a
  by unfold_locales (auto simp: charge_capture_def charge_eq)

interpretation thunks: pool live_thunks "\<lambda>b. lim_live_thunks (policy_limits (policy b))"
    "\<lambda>n b. b\<lparr>live_thunks := n\<rparr>" acquire_live_thunk "drop_permit LiveThunks"
  by unfold_locales (auto simp: acquire_live_thunk_def acquire_u64_eq)

interpretation tasks: pool live_tasks "\<lambda>b. lim_concurrent_tasks (policy_limits (policy b))"
    "\<lambda>n b. b\<lparr>live_tasks := n\<rparr>" acquire_task "drop_permit Tasks"
  by unfold_locales (auto simp: acquire_task_def acquire_eq)

interpretation handles: pool live_handles "\<lambda>b. lim_open_handles (policy_limits (policy b))"
    "\<lambda>n b. b\<lparr>live_handles := n\<rparr>" acquire_handle "drop_permit Handles"
  by unfold_locales (auto simp: acquire_handle_def acquire_eq)

interpretation processes: pool live_processes "\<lambda>b. lim_child_processes (policy_limits (policy b))"
    "\<lambda>n b. b\<lparr>live_processes := n\<rparr>" acquire_process "drop_permit Processes"
  by unfold_locales (auto simp: acquire_process_def acquire_eq)

interpretation connections: pool live_http_connections "\<lambda>b. lim_http_connections (policy_limits (policy b))"
    "\<lambda>n b. b\<lparr>live_http_connections := n\<rparr>" acquire_http_connection "drop_permit HttpConnections"
  by unfold_locales (auto simp: acquire_http_connection_def acquire_eq)

interpretation temps: pool live_temp_resources "\<lambda>b. lim_temp_resources (policy_limits (policy b))"
    "\<lambda>n b. b\<lparr>live_temp_resources := n\<rparr>" acquire_temp_resource "drop_permit TempResources"
  by unfold_locales (auto simp: acquire_temp_resource_def acquire_eq)


section \<open>Clients of one budget\<close>

text \<open>
  A client charges and acquires through the API and drops permits it holds, each once, as
  Rust's ownership makes it; \<open>charged\<close> records what was granted.
\<close>

fun level_of :: "budget_kind \<Rightarrow> budget \<Rightarrow> nat" where
  "level_of EvaluatorSteps b = evaluator_steps b"
| "level_of Allocations b = allocations b"
| "level_of LiveThunks b = live_thunks b"
| "level_of MaterializedElements b = materialized_elements b"
| "level_of CapturedBytes b = captured_bytes b"
| "level_of Tasks b = live_tasks b"
| "level_of Handles b = live_handles b"
| "level_of Processes b = live_processes b"
| "level_of HttpConnections b = live_http_connections b"
| "level_of TempResources b = live_temp_resources b"

fun limit_of :: "budget_kind \<Rightarrow> runtime_limits \<Rightarrow> nat limit" where
  "limit_of EvaluatorSteps l = lim_evaluator_steps l"
| "limit_of Allocations l = lim_allocations l"
| "limit_of LiveThunks l = lim_live_thunks l"
| "limit_of MaterializedElements l = lim_list_materialized_elements l"
| "limit_of CapturedBytes l = lim_process_capture_bytes l"
| "limit_of Tasks l = lim_concurrent_tasks l"
| "limit_of Handles l = lim_open_handles l"
| "limit_of Processes l = lim_child_processes l"
| "limit_of HttpConnections l = lim_http_connections l"
| "limit_of TempResources l = lim_temp_resources l"

fun charge_of :: "budget_kind \<Rightarrow> (budget \<Rightarrow> nat \<Rightarrow> budget \<times> (unit, budget_error) res) option" where
  "charge_of EvaluatorSteps = Some charge_steps"
| "charge_of Allocations = Some charge_allocation"
| "charge_of MaterializedElements = Some charge_materialization"
| "charge_of CapturedBytes = Some charge_capture"
| "charge_of _ = None"

fun acquire_of :: "budget_kind \<Rightarrow> (budget \<Rightarrow> budget \<times> (budget_kind, budget_error) res) option" where
  "acquire_of LiveThunks = Some acquire_live_thunk"
| "acquire_of Tasks = Some acquire_task"
| "acquire_of Handles = Some acquire_handle"
| "acquire_of Processes = Some acquire_process"
| "acquire_of HttpConnections = Some acquire_http_connection"
| "acquire_of TempResources = Some acquire_temp_resource"
| "acquire_of _ = None"

datatype budget_op = ChargeOp budget_kind nat | AcquireOp budget_kind | DropOp budget_kind

record client =
  bud :: budget
  held :: "budget_kind list"
  charged :: "budget_kind \<Rightarrow> nat"

definition client_new :: "runtime_policy \<Rightarrow> client" where
  "client_new p = \<lparr>bud = budget_new p, held = [], charged = (\<lambda>_. 0)\<rparr>"

fun client_step :: "client \<Rightarrow> budget_op \<Rightarrow> client" where
  "client_step s (ChargeOp k a) =
    (case charge_of k of None \<Rightarrow> s
     | Some f \<Rightarrow> (case f (bud s) a of
         (b, Ok _) \<Rightarrow> s\<lparr>bud := b, charged := (charged s)(k := charged s k + a)\<rparr>
       | (b, _) \<Rightarrow> s\<lparr>bud := b\<rparr>))"
| "client_step s (AcquireOp k) =
    (case acquire_of k of None \<Rightarrow> s
     | Some f \<Rightarrow> (case f (bud s) of
         (b, Ok permit) \<Rightarrow> s\<lparr>bud := b, held := permit # held s\<rparr>
       | (b, _) \<Rightarrow> s\<lparr>bud := b\<rparr>))"
| "client_step s (DropOp k) =
    (if k \<in> set (held s) then s\<lparr>bud := drop_permit k (bud s), held := remove1 k (held s)\<rparr> else s)"

definition client_run :: "client \<Rightarrow> budget_op list \<Rightarrow> client" where
  "client_run s ops = foldl client_step s ops"

lemmas charge_draws =
  steps.draw_Ok allocs.draw_Ok materialized.draw_Ok captured.draw_Ok
lemmas acquire_draws =
  thunks.draw_Ok tasks.draw_Ok handles.draw_Ok processes.draw_Ok connections.draw_Ok temps.draw_Ok
lemmas refused_draws =
  steps.draw_Err allocs.draw_Err materialized.draw_Err captured.draw_Err
  thunks.draw_Err tasks.draw_Err handles.draw_Err processes.draw_Err connections.draw_Err temps.draw_Err
lemmas panicking_draws =
  steps.draw_never_panics allocs.draw_never_panics materialized.draw_never_panics
  captured.draw_never_panics thunks.draw_never_panics tasks.draw_never_panics
  handles.draw_never_panics processes.draw_never_panics connections.draw_never_panics
  temps.draw_never_panics

lemma charge_of_Ok:
  assumes "charge_of k = Some f" and "f b a = (b', Ok r)"
  shows "level_of j b' = (if j = k then level_of k b + a else level_of j b)"
    and "policy b' = policy b"
    and "level_of k b + a \<le> u64_max" and "within (limit_of k (policy_limits (policy b))) (level_of k b + a)"
  using assms by (cases k; cases j; auto dest: charge_draws)+

lemma charge_of_refused:
  assumes "charge_of k = Some f" and "f b a = (b', r)" and "\<nexists>x. r = Ok x"
  shows "b' = b"
  using assms panicking_draws(1-4) [of b a]
  by (cases r; cases k) (auto dest: refused_draws)

lemma acquire_of_Ok:
  assumes "acquire_of k = Some f" and "f b = (b', Ok permit)"
  shows "level_of j b' = (if j = k then level_of k b + 1 else level_of j b)"
    and "policy b' = policy b" and "permit = k"
    and "level_of k b + 1 \<le> u64_max" and "within (limit_of k (policy_limits (policy b))) (level_of k b + 1)"
  subgoal using assms by (cases k; cases j; auto dest: acquire_draws)
  subgoal using assms by (cases k; auto dest: acquire_draws)
  subgoal using assms
    by (cases k) (auto simp: acquire_live_thunk_def acquire_task_def acquire_handle_def
        acquire_process_def acquire_http_connection_def acquire_temp_resource_def
        acquire_eq acquire_u64_eq split: if_splits)
  subgoal using assms by (cases k; auto dest: acquire_draws)
  subgoal using assms by (cases k; auto dest: acquire_draws)
  done

lemma acquire_of_refused:
  assumes "acquire_of k = Some f" and "f b = (b', r)" and "\<nexists>x. r = Ok x"
  shows "b' = b"
  using assms panicking_draws(5-10) [of b]
  by (cases r; cases k) (auto dest: refused_draws)

lemma level_drop_permit:
  "level_of j (drop_permit k b) = (if j = k then fetch_sub_1 (level_of k b) else level_of j b)"
  by (cases k; cases j) simp_all

lemma policy_drop_permit [simp]: "policy (drop_permit k b) = policy b"
  by (cases k) simp_all

definition client_ok :: "runtime_policy \<Rightarrow> client \<Rightarrow> bool" where
  "client_ok p s \<longleftrightarrow> policy (bud s) = p \<and>
     (\<forall>k. level_of k (bud s) = charged s k + count_list (held s) k \<and>
          within (limit_of k (policy_limits p)) (charged s k + count_list (held s) k) \<and>
          charged s k + count_list (held s) k \<le> u64_max)"

lemma within_mono: "within l n \<Longrightarrow> m \<le> n \<Longrightarrow> within l m"
  by (cases l) auto

lemma within_0 [simp]: "within l 0"
  by (cases l) auto

lemma client_ok_new: "client_ok p (client_new p)"
proof -
  have "level_of k (budget_new p) = 0" for k by (cases k) (simp_all add: budget_new_def)
  then show ?thesis by (simp add: client_ok_def client_new_def) (simp add: budget_new_def)
qed

lemma client_ok_step:
  assumes ok: "client_ok p s"
  shows "client_ok p (client_step s op)"
proof (cases op)
  case (ChargeOp k a)
  show ?thesis
  proof (cases "charge_of k")
    case (Some f)
    obtain b r where f: "f (bud s) a = (b, r)" by force
    show ?thesis
    proof (cases "\<exists>x. r = Ok x")
      case True
      then have f': "f (bud s) a = (b, Ok ())" using f by auto
      note ch = charge_of_Ok [OF Some f']
      show ?thesis using ok ch(2-4) f' Some
        by (auto simp: client_ok_def ChargeOp ch(1) ac_simps)
    next
      case False
      then have "b = bud s" using charge_of_refused [OF Some f] by simp
      with False show ?thesis using ok f Some by (cases r) (auto simp: client_ok_def ChargeOp)
    qed
  qed (use ok in \<open>simp add: ChargeOp\<close>)
next
  case (AcquireOp k)
  show ?thesis
  proof (cases "acquire_of k")
    case (Some f)
    obtain b r where f: "f (bud s) = (b, r)" by force
    show ?thesis
    proof (cases "\<exists>x. r = Ok x")
      case True
      then obtain x where f': "f (bud s) = (b, Ok x)" using f by auto
      note ac = acquire_of_Ok [OF Some f']
      show ?thesis using ok ac(2-5) f' Some
        by (auto simp: client_ok_def AcquireOp ac(1))
    next
      case False
      then have "b = bud s" using acquire_of_refused [OF Some f] by simp
      with False show ?thesis using ok f Some by (cases r) (auto simp: client_ok_def AcquireOp)
    qed
  qed (use ok in \<open>simp add: AcquireOp\<close>)
next
  case (DropOp k)
  have pos: "0 < count_list (held s) k" if "k \<in> set (held s)"
    using that by (simp add: count_list_0_iff zero_less_iff_neq_zero)
  show ?thesis
  proof (cases "k \<in> set (held s)")
    case True
    have le: "charged s j + count_list (remove1 k (held s)) j \<le> charged s j + count_list (held s) j" for j
      by simp
    have "level_of j (drop_permit k (bud s)) = charged s j + count_list (remove1 k (held s)) j" for j
      using ok pos [OF True]
      by (auto simp: client_ok_def level_drop_permit fetch_sub_1_def True)
    with ok True show ?thesis
      by (auto simp: client_ok_def DropOp intro: within_mono [OF _ le] le_trans [OF le] simp del: count_list_remove1)
  qed (use ok in \<open>simp add: DropOp\<close>)
qed

lemma client_ok_run: "client_ok p s \<Longrightarrow> client_ok p (client_run s ops)"
  unfolding client_run_def by (induction ops arbitrary: s) (auto intro: client_ok_step)

section \<open>Threads in the compare-and-exchange loop\<close>

text \<open>
  A thread that wants \<open>amount\<close> first loads the counter, then tries to exchange the value
  it has seen; the weak exchange may fail although the value is current, and a failure
  hands it the value the counter has.  A granted permit may be dropped.
\<close>

datatype thread =
    Loading (wanted: nat)
  | Trying (wanted: nat) (seen: nat)
  | Granted (wanted: nat)
  | Rejected (wanted: nat)
  | Released

record cas =
  counter :: nat
  threads :: "thread list"

inductive cas_step :: "nat limit \<Rightarrow> bool \<Rightarrow> cas \<Rightarrow> cas \<Rightarrow> bool" for limit permits where
  load: "i < length (threads s) \<Longrightarrow> threads s ! i = Loading a \<Longrightarrow>
    cas_step limit permits s (s\<lparr>threads := (threads s)[i := Trying a (counter s)]\<rparr>)"
| reject: "i < length (threads s) \<Longrightarrow> threads s ! i = Trying a current \<Longrightarrow>
    admit limit kind operation profile a current = Err e \<Longrightarrow>
    cas_step limit permits s (s\<lparr>threads := (threads s)[i := Rejected a]\<rparr>)"
| exchange: "i < length (threads s) \<Longrightarrow> threads s ! i = Trying a current \<Longrightarrow>
    admit limit kind operation profile a current = Ok next \<Longrightarrow> counter s = current \<Longrightarrow>
    cas_step limit permits s (s\<lparr>counter := next, threads := (threads s)[i := Granted a]\<rparr>)"
| retry: "i < length (threads s) \<Longrightarrow> threads s ! i = Trying a current \<Longrightarrow>
    admit limit kind operation profile a current = Ok next \<Longrightarrow>
    cas_step limit permits s (s\<lparr>threads := (threads s)[i := Trying a (counter s)]\<rparr>)"
| drop: "i < length (threads s) \<Longrightarrow> threads s ! i = Granted 1 \<Longrightarrow> permits \<Longrightarrow>
    cas_step limit permits s
      (s\<lparr>counter := fetch_sub_1 (counter s), threads := (threads s)[i := Released]\<rparr>)"

inductive_cases cas_stepE: "cas_step limit permits s t"

definition cas_start :: "nat list \<Rightarrow> cas" where
  "cas_start amounts = \<lparr>counter = 0, threads = map Loading amounts\<rparr>"

inductive cas_reachable :: "nat limit \<Rightarrow> bool \<Rightarrow> nat list \<Rightarrow> cas \<Rightarrow> bool"
  for limit permits amounts where
  start: "cas_reachable limit permits amounts (cas_start amounts)"
| step: "cas_reachable limit permits amounts s \<Longrightarrow> cas_step limit permits s t \<Longrightarrow>
    cas_reachable limit permits amounts t"

fun holding :: "thread \<Rightarrow> nat" where
  "holding (Granted a) = a"
| "holding _ = 0"

definition total_held :: "cas \<Rightarrow> nat" where
  "total_held s = sum_list (map holding (threads s))"

lemma sum_list_update_nat:
  "i < length xs \<Longrightarrow> sum_list (map f (xs[i := x])) + f (xs ! i) = sum_list (map f xs) + (f x :: nat)"
  by (induction xs arbitrary: i) (auto split: nat.splits simp: nth_Cons')

lemma total_held_update:
  "i < length (threads s) \<Longrightarrow>
   total_held (s\<lparr>threads := (threads s)[i := x]\<rparr>) + holding (threads s ! i) = total_held s + holding x"
  using sum_list_update_nat [of i "threads s" holding x] by (simp add: total_held_def)

lemma total_held_counter [simp]: "total_held (s\<lparr>counter := c\<rparr>) = total_held s"
  by (simp add: total_held_def)

definition cas_ok :: "nat limit \<Rightarrow> cas \<Rightarrow> bool" where
  "cas_ok limit s \<longleftrightarrow>
     counter s = total_held s \<and> within limit (counter s) \<and> counter s \<le> u64_max"

lemma cas_step_ok:
  assumes "cas_step limit permits s t" and "cas_ok limit s"
  shows "cas_ok limit t"
  using assms
proof (cases rule: cas_step.cases)
  case (exchange i a current kind operation profile "next")
  then show ?thesis
    using assms(2) total_held_update [of i s "Granted a"]
    by (auto simp: cas_ok_def admit_Ok total_held_def)
next
  case (drop i)
  have "total_held (s\<lparr>threads := (threads s)[i := Released]\<rparr>) + 1 = total_held s"
    using drop total_held_update [of i s Released] by simp
  then have h: "total_held t + 1 = total_held s" by (simp add: drop total_held_def)
  then have "counter t = counter s - 1" "0 < counter s"
    using assms(2) by (auto simp: drop cas_ok_def fetch_sub_1_def)
  then show ?thesis using h assms(2) by (auto simp: cas_ok_def intro: within_mono)
qed (use assms(2) total_held_update in \<open>fastforce simp: cas_ok_def\<close>)+

lemma cas_reachable_ok: "cas_reachable limit permits amounts s \<Longrightarrow> cas_ok limit s"
proof (induction rule: cas_reachable.induct)
  case start
  have "total_held (cas_start amounts) = 0"
    by (induction amounts) (simp_all add: total_held_def cas_start_def)
  then show ?case by (simp add: cas_ok_def cas_start_def)
qed (rule cas_step_ok)

text \<open>Without drops the counter only grows, so what a thread has seen is never too high.\<close>

definition seen_ok :: "nat limit \<Rightarrow> nat \<Rightarrow> thread \<Rightarrow> bool" where
  "seen_ok limit c th = (case th of
     Trying a current \<Rightarrow> current \<le> c
   | Rejected a \<Rightarrow> u64_max < c + a \<or> \<not> within limit (c + a)
   | _ \<Rightarrow> True)"

lemma seen_ok_mono: "seen_ok limit c th \<Longrightarrow> c \<le> d \<Longrightarrow> seen_ok limit d th"
  by (cases th; cases limit) (auto simp: seen_ok_def)

lemma seen_ok_reject:
  "admit limit k op pr a current = Err e \<Longrightarrow> current \<le> c \<Longrightarrow> seen_ok limit c (Rejected a)"
  using admit_Err [of limit k op pr a current] by (cases limit) (auto simp: seen_ok_def)

lemma list_all_update: "list_all P xs \<Longrightarrow> P x \<Longrightarrow> list_all P (xs[i := x])"
  by (auto simp: list_all_iff dest: set_update_subset_insert [THEN subsetD])

lemma cas_step_seen:
  assumes "cas_step limit False s t" and "list_all (seen_ok limit (counter s)) (threads s)"
  shows "list_all (seen_ok limit (counter t)) (threads t)"
  using assms(1)
proof (cases rule: cas_step.cases)
  case (reject i a current kind operation profile e)
  then have "seen_ok limit (counter s) (Trying a current)"
    using assms(2) by (metis list_all_length)
  then have "seen_ok limit (counter s) (Rejected a)"
    using seen_ok_reject reject by (auto simp: seen_ok_def [of _ _ "Trying a current"])
  with assms(2) show ?thesis by (simp add: reject list_all_update)
next
  case (exchange i a current kind operation profile "next")
  then have "list_all (seen_ok limit next) (threads s)"
    using assms(2) by (auto simp: list_all_iff admit_Ok intro: seen_ok_mono)
  then show ?thesis by (simp add: exchange list_all_update seen_ok_def)
qed (use assms(2) in \<open>simp_all add: list_all_update seen_ok_def\<close>)

lemma cas_reachable_seen:
  "cas_reachable limit False amounts s \<Longrightarrow> list_all (seen_ok limit (counter s)) (threads s)"
proof (induction rule: cas_reachable.induct)
  case start
  then show ?case by (simp add: cas_start_def list_all_iff seen_ok_def)
qed (rule cas_step_seen)

text \<open>Left alone, a thread gets its answer in a few steps.\<close>

lemma thread_answers:
  assumes "i < length (threads s)" and "threads s ! i = Trying a (counter s)"
  shows "\<exists>t. cas_step limit permits s t \<and> threads t ! i \<in> {Granted a, Rejected a}"
proof (cases "admit limit Tasks [] [] a (counter s)")
  case (Ok n)
  with assms show ?thesis by (auto intro!: exI cas_step.exchange)
next
  case (Err e)
  with assms show ?thesis by (auto intro!: exI cas_step.reject)
qed simp

section \<open>Properties\<close>

text \<open>C37: Whatever a client does with a fresh budget -- charge, acquire, drop the permits
  it holds, in any order -- each counter is exactly what was granted and is still held, it
  is within the policy's limit, and it never wraps.\<close>

theorem budget_accounts_exactly:
  "let s = client_run (client_new p) ops in
   level_of k (bud s) = charged s k + count_list (held s) k \<and>
   within (limit_of k (policy_limits p)) (level_of k (bud s)) \<and>
   level_of k (bud s) \<le> u64_max"
  using client_ok_run [OF client_ok_new, of p ops] by (simp add: client_ok_def Let_def)

text \<open>A permit is worth exactly one unit of its counter: dropping the permit an
  acquisition returned restores the whole budget, for each of the six pools.\<close>

theorem permit_roundtrip:
  assumes "acquire_of k = Some acq" and "acq b = (b', Ok permit)"
  shows "drop_permit permit b' = b"
proof -
  have "permit = k" using assms by (rule acquire_of_Ok(3))
  then show ?thesis
    using assms by (cases k)
      (auto dest: thunks.release_undoes_draw tasks.release_undoes_draw handles.release_undoes_draw
         processes.release_undoes_draw connections.release_undoes_draw temps.release_undoes_draw)
qed

lemma permit_roundtrip_witness:
  "\<exists>b' permit. acquire_handle (budget_new sandboxed) = (b', Ok permit) \<and>
     drop_permit permit b' = budget_new sandboxed"
proof -
  have acq: "acquire_handle (budget_new sandboxed) =
      ((budget_new sandboxed)\<lparr>live_handles := 1\<rparr>, Ok Handles)"
    by (simp add: acquire_handle_def acquire_eq budget_new_def sandboxed_def u64_max_def)
  then show ?thesis using permit_roundtrip [of Handles acquire_handle, OF _ acq] by auto
qed

text \<open>C17: With any number of threads interleaving their compare-and-exchange loops (weak
  exchanges that fail spuriously included) and dropping permits, the shared counter always
  equals the sum of the amounts granted and not yet released, and never exceeds the
  limit.\<close>

theorem concurrent_budget_invariant:
  assumes "cas_reachable limit permits amounts s"
  shows "counter s = total_held s \<and> within limit (counter s) \<and> counter s \<le> u64_max"
  using cas_reachable_ok [OF assms] unfolding cas_ok_def .

lemma concurrent_budget_invariant_witness:
  "\<exists>s. counter s = 2 \<and> counter s = total_held s \<and> within (At 2) (counter s) \<and> counter s \<le> u64_max"
proof -
  let ?s1 = "(cas_start [2])\<lparr>threads := (threads (cas_start [2]))[0 := Trying 2 0]\<rparr>"
  let ?s2 = "?s1\<lparr>counter := 2, threads := (threads ?s1)[0 := Granted 2]\<rparr>"
  have "cas_step (At 2) True (cas_start [2]) ?s1"
    using cas_step.load [of 0 "cas_start [2]" 2 "At 2" True] by (simp add: cas_start_def)
  moreover have "cas_step (At 2) True ?s1 ?s2"
    by (rule cas_step.exchange [where kind = Tasks and operation = "[]" and profile = "[]"])
       (simp_all add: cas_start_def admit_def checked_add_def u64_max_def)
  ultimately have "cas_reachable (At 2) True [2] ?s2"
    by (blast intro: cas_reachable.intros)
  from concurrent_budget_invariant [OF this] show ?thesis by (intro exI [of _ ?s2]) simp
qed

text \<open>A charge is refused only when it does not fit: in every interleaving of charging
  threads, an amount that was rejected exceeds the limit (or overflows 64 bits) together
  with what has been charged, even though the thread decided on a value it had loaded
  earlier.\<close>

theorem rejected_charge_does_not_fit:
  assumes "cas_reachable limit False amounts s" and "i < length (threads s)"
    and "threads s ! i = Rejected a"
  shows "u64_max < counter s + a \<or> \<not> within limit (counter s + a)"
  using cas_reachable_seen [OF assms(1)] assms(2,3) by (force simp: list_all_length seen_ok_def)

lemma rejected_charge_does_not_fit_witness:
  "\<exists>s. cas_reachable (At 2) False [3] s \<and> (u64_max < counter s + 3 \<or> \<not> within (At 2) (counter s + 3))"
proof -
  let ?s1 = "(cas_start [3])\<lparr>threads := (threads (cas_start [3]))[0 := Trying 3 0]\<rparr>"
  let ?s2 = "?s1\<lparr>threads := (threads ?s1)[0 := Rejected 3]\<rparr>"
  have "cas_step (At 2) False (cas_start [3]) ?s1"
    using cas_step.load [of 0 "cas_start [3]" 3 "At 2" False] by (simp add: cas_start_def)
  moreover have "cas_step (At 2) False ?s1 ?s2"
    by (rule cas_step.reject [where kind = Tasks and operation = "[]" and profile = "[]"
          and e = "BudgetExceeded Tasks 2 3 [] []" and current = 0])
       (simp_all add: cas_start_def admit_def checked_add_def u64_max_def)
  ultimately have r: "cas_reachable (At 2) False [3] ?s2"
    by (blast intro: cas_reachable.intros)
  from rejected_charge_does_not_fit [OF r, of 0 3] r show ?thesis
    by (intro exI [of _ ?s2]) (simp add: cas_start_def)
qed

section \<open>Progress of a charging thread\<close>

fun settled :: "thread \<Rightarrow> bool" where
  "settled (Loading _) = False"
| "settled (Trying _ _) = False"
| "settled _ = True"

text \<open>
  A step of one thread that changes the state.  A spurious failure of the weak exchange,
  which hands back the value the thread has seen, changes nothing.
\<close>

definition own_step :: "nat limit \<Rightarrow> bool \<Rightarrow> nat \<Rightarrow> cas \<Rightarrow> cas \<Rightarrow> bool" where
  "own_step limit permits i s t \<longleftrightarrow>
     cas_step limit permits s t \<and> t \<noteq> s \<and> (\<forall>j. j \<noteq> i \<longrightarrow> threads t ! j = threads s ! j)"

definition steps_left :: "nat \<Rightarrow> cas \<Rightarrow> nat" where
  "steps_left i s = (case threads s ! i of
     Loading a \<Rightarrow> 2 | Trying a current \<Rightarrow> if current = counter s then 1 else 2 | _ \<Rightarrow> 0)"

lemma steps_left_0: "steps_left i s = 0 \<longleftrightarrow> settled (threads s ! i)"
  by (simp add: steps_left_def split: thread.split)

lemma admit_no_panic: "admit limit kind operation profile a c \<noteq> Panic"
  by (auto simp: admit_def split: option.split limit.split)

lemma own_step_decreases:
  assumes "own_step limit permits i s t" "i < length (threads s)"
  shows "length (threads t) = length (threads s) \<and> steps_left i t \<le> steps_left i s - 1"
proof -
  have step: "cas_step limit permits s t" and "t \<noteq> s" and frame: "\<And>j. j \<noteq> i \<Longrightarrow> threads t ! j = threads s ! j"
    using assms(1) by (auto simp: own_step_def)
  from step show ?thesis
  proof (cases rule: cas_step.cases)
    case (load k a)
    then have "k = i" using frame [of k] by (cases "k = i") auto
    with load assms(2) show ?thesis by (simp add: steps_left_def)
  next
    case (reject k a current)
    then have "k = i" using frame [of k] by (cases "k = i") auto
    with reject assms(2) show ?thesis by (simp add: steps_left_def)
  next
    case (exchange k a current)
    then have "k = i" using frame [of k] by (cases "k = i") auto
    with exchange assms(2) show ?thesis by (simp add: steps_left_def)
  next
    case (retry k a current)
    have "current \<noteq> counter s"
    proof
      assume "current = counter s"
      then have "(threads s)[k := Trying a (counter s)] = threads s"
        using retry list_update_id [of "threads s" k] by simp
      with retry \<open>t \<noteq> s\<close> show False by simp
    qed
    with retry have "k = i" using frame [of k] by (cases "k = i") auto
    with retry \<open>current \<noteq> counter s\<close> assms(2) show ?thesis by (simp add: steps_left_def)
  next
    case (drop k)
    then have "k = i" using frame [of k] by (cases "k = i") auto
    with drop assms(2) show ?thesis by (simp add: steps_left_def)
  qed
qed

lemma own_steps_decrease:
  "(own_step limit permits i ^^ n) s t \<Longrightarrow> i < length (threads s) \<Longrightarrow> steps_left i t \<le> steps_left i s - n"
proof (induction n arbitrary: s)
  case (Suc n)
  from relpowp_Suc_D2 [OF Suc.prems(1)] obtain u where
    u: "own_step limit permits i s u" "(own_step limit permits i ^^ n) u t" by blast
  have "i < length (threads u)" "steps_left i u \<le> steps_left i s - 1"
    using own_step_decreases [OF u(1) Suc.prems(2)] Suc.prems(2) by auto
  with Suc.IH [OF u(2)] show ?case by linarith
qed simp

lemma own_step_available:
  assumes "i < length (threads s)" "\<not> settled (threads s ! i)"
  shows "\<exists>t. own_step limit permits i s t"
proof (cases "threads s ! i")
  case (Loading a)
  have "(threads s)[i := Trying a (counter s)] \<noteq> threads s"
    using Loading assms(1) by (metis nth_list_update_eq thread.distinct(1))
  with cas_step.load [OF assms(1) Loading, of limit permits] show ?thesis
    unfolding own_step_def by (intro exI conjI) (auto dest: arg_cong [where f = threads])
next
  case (Trying a current)
  have moved: "s\<lparr>counter := c, threads := (threads s)[i := x]\<rparr> \<noteq> s" if "x \<noteq> Trying a current" for x c
    using that Trying assms(1) by (metis (no_types) cas.select_convs(2) cas.surjective cas.update_convs(2) nth_list_update_eq)
  show ?thesis
  proof (cases "admit limit Tasks [] [] a current")
    case (Ok new)
    show ?thesis
    proof (cases "counter s = current")
      case True
      from cas_step.exchange [OF assms(1) Trying Ok True] moved [of "Granted a" new] show ?thesis
        unfolding own_step_def by (intro exI conjI) auto
    next
      case False
      from cas_step.retry [OF assms(1) Trying Ok] moved [of "Trying a (counter s)" "counter s"] False show ?thesis
        unfolding own_step_def by (intro exI conjI) auto
    qed
  next
    case (Err e)
    from cas_step.reject [OF assms(1) Trying Err] moved [of "Rejected a" "counter s"] show ?thesis
      unfolding own_step_def by (intro exI conjI) auto
  qed (use admit_no_panic in blast)
qed (use assms(2) in auto)

text \<open>
  C32: Charging is free of obstruction.  In every state, whatever the other threads have
  done, a thread that runs alone is settled, granted or rejected, after two of its steps at
  most, and until then it can step.  Spurious failures of the weak exchange, which leave the
  state as it is, are not counted; there may be any number of them.
\<close>

theorem charging_thread_settles:
  assumes "i < length (threads s)"
  shows "(\<forall>n t. 2 \<le> n \<and> (own_step limit permits i ^^ n) s t \<longrightarrow> settled (threads t ! i)) \<and>
    (\<not> settled (threads s ! i) \<longrightarrow> (\<exists>t. own_step limit permits i s t))"
proof -
  have "steps_left i s \<le> 2" by (simp add: steps_left_def split: thread.split)
  then have "settled (threads t ! i)" if "2 \<le> n" "(own_step limit permits i ^^ n) s t" for n t
    using own_steps_decrease [OF that(2) assms] that(1) by (simp add: steps_left_0 [symmetric])
  with own_step_available [OF assms] show ?thesis by blast
qed

theorem charging_thread_settles_witness:
  "\<exists>t. (own_step (At 2) False 1 ^^ 2) (cas_start [2, 1]) t \<and> settled (threads t ! 1)"
proof -
  let ?s = "cas_start [2, 1]" and ?u = "\<lparr>counter = 0, threads = [Loading 2, Trying 1 0]\<rparr>"
    and ?t = "\<lparr>counter = 1, threads = [Loading 2, Granted 1]\<rparr>"
  have "own_step (At 2) False 1 ?s ?u"
    using cas_step.load [of 1 ?s 1 "At 2" False] by (auto simp: own_step_def cas_start_def nth_Cons' split: if_splits)
  moreover have "own_step (At 2) False 1 ?u ?t"
    using cas_step.exchange [of 1 ?u 1 0 "At 2" Tasks "[]" "[]" 1 False]
    by (auto simp: own_step_def admit_def checked_add_def u64_max_def nth_Cons')
  ultimately have "(own_step (At 2) False 1 ^^ 2) ?s ?t" by (auto simp: numeral_2_eq_2)
  moreover have "1 < length (threads ?s)" by (simp add: cas_start_def)
  ultimately show ?thesis using charging_thread_settles [of 1 ?s "At 2" False] by blast
qed

end
