(* ===== verification/Hell_Utf8.thy ===== *)
theory Hell_Utf8
  imports Hell_Prelude
begin

text \<open>
  UTF-8 as \<open>core::str\<close> has it, for the sources that validate, slice and walk byte
  strings.  A byte is an Isabelle \<open>char\<close>, a \<open>&[u8]\<close> or \<open>&str\<close> a \<open>string\<close>, a
  Rust \<open>char\<close> its scalar value.  \<open>from_utf8\<close> is the validator of the standard
  library with its \<open>valid_up_to\<close> and \<open>error_len\<close>; the lemmas say that any position
  that does not hold a continuation byte is a boundary of valid text.
\<close>

section \<open>Decoding\<close>

abbreviation byte :: "char \<Rightarrow> nat" where
  "byte c \<equiv> of_char c"

definition is_cont :: "char \<Rightarrow> bool" where
  "is_cont c \<longleftrightarrow> 128 \<le> byte c \<and> byte c \<le> 191"

definition second_of_3 :: "char \<Rightarrow> char \<Rightarrow> bool" where
  "second_of_3 a b \<longleftrightarrow>
    (if byte a = 224 then 160 \<le> byte b \<and> byte b \<le> 191
     else if byte a = 237 then 128 \<le> byte b \<and> byte b \<le> 159
     else is_cont b)"

definition second_of_4 :: "char \<Rightarrow> char \<Rightarrow> bool" where
  "second_of_4 a b \<longleftrightarrow>
    (if byte a = 240 then 144 \<le> byte b \<and> byte b \<le> 191
     else if byte a = 244 then 128 \<le> byte b \<and> byte b \<le> 143
     else is_cont b)"

text \<open>One scalar value and its width, or the \<open>error_len\<close> of the defect at the front.\<close>

definition decode1 :: "string \<Rightarrow> (nat \<times> nat, nat option) res" where
  "decode1 s = (case s of [] \<Rightarrow> Err None | a # s1 \<Rightarrow>
    if byte a < 128 then Ok (byte a, 1)
    else if 194 \<le> byte a \<and> byte a \<le> 223 then
      (case s1 of [] \<Rightarrow> Err None | b # _ \<Rightarrow>
        if is_cont b then Ok ((byte a - 192) * 64 + (byte b - 128), 2) else Err (Some 1))
    else if 224 \<le> byte a \<and> byte a \<le> 239 then
      (case s1 of [] \<Rightarrow> Err None | b # s2 \<Rightarrow>
        if second_of_3 a b then
          (case s2 of [] \<Rightarrow> Err None | c # _ \<Rightarrow>
            if is_cont c
            then Ok ((byte a - 224) * 4096 + (byte b - 128) * 64 + (byte c - 128), 3)
            else Err (Some 2))
        else Err (Some 1))
    else if 240 \<le> byte a \<and> byte a \<le> 244 then
      (case s1 of [] \<Rightarrow> Err None | b # s2 \<Rightarrow>
        if second_of_4 a b then
          (case s2 of [] \<Rightarrow> Err None | c # s3 \<Rightarrow>
            if is_cont c then
              (case s3 of [] \<Rightarrow> Err None | d # _ \<Rightarrow>
                if is_cont d
                then Ok ((byte a - 240) * 262144 + (byte b - 128) * 4096
                         + (byte c - 128) * 64 + (byte d - 128), 4)
                else Err (Some 3))
            else Err (Some 2))
        else Err (Some 1))
    else Err (Some 1))"

lemma decode1_cases:
  assumes "decode1 s = Ok (c, w)"
  obtains
    (one) a t where "s = a # t" "byte a < 128" "w = 1" "c = byte a"
  | (two) a b t where "s = a # b # t" "194 \<le> byte a" "byte a \<le> 223" "is_cont b" "w = 2"
      "c = (byte a - 192) * 64 + (byte b - 128)"
  | (three) a b x t where "s = a # b # x # t" "224 \<le> byte a" "byte a \<le> 239" "second_of_3 a b"
      "is_cont x" "w = 3" "c = (byte a - 224) * 4096 + (byte b - 128) * 64 + (byte x - 128)"
  | (four) a b x y t where "s = a # b # x # y # t" "240 \<le> byte a" "byte a \<le> 244"
      "second_of_4 a b" "is_cont x" "is_cont y" "w = 4"
      "c = (byte a - 240) * 262144 + (byte b - 128) * 4096 + (byte x - 128) * 64 + (byte y - 128)"
  using assms unfolding decode1_def by (simp split: list.split_asm if_split_asm)

lemma decode1_width:
  assumes "decode1 s = Ok (c, w)"
  shows "1 \<le> w \<and> w \<le> 4 \<and> w \<le> length s"
  using assms by (cases rule: decode1_cases) simp_all

text \<open>Only the bytes of the value matter.\<close>

lemma decode1_take_append:
  assumes "decode1 s = Ok (c, w)"
  shows "decode1 (take w s @ t) = Ok (c, w)"
  using assms by (cases rule: decode1_cases) (simp_all add: decode1_def)

text \<open>The scalar values of valid text; \<open>Err (valid_up_to, error_len)\<close> otherwise.\<close>

function utf8_scan :: "nat \<Rightarrow> string \<Rightarrow> (nat list, nat \<times> nat option) res" where
  "utf8_scan pos s =
    (if s = [] then Ok []
     else case decode1 s of
       Ok (c, w) \<Rightarrow> res_bind (utf8_scan (pos + w) (drop w s)) (\<lambda>cs. Ok (c # cs))
     | Err len \<Rightarrow> Err (pos, len)
     | Panic \<Rightarrow> Panic)"
  by pat_completeness auto
termination
  by (relation "measure (\<lambda>(pos, s). length s)") (auto dest: decode1_width)

declare utf8_scan.simps [simp del]

definition from_utf8 :: "string \<Rightarrow> (nat list, nat \<times> nat option) res" where
  "from_utf8 s = utf8_scan 0 s"

definition len_utf8 :: "nat \<Rightarrow> nat" where
  "len_utf8 c = (if c < 128 then 1 else if c < 2048 then 2 else if c < 65536 then 3 else 4)"

text \<open>\<open>char::from_u32\<close>\<close>

definition char_from_u32 :: "nat \<Rightarrow> nat option" where
  "char_from_u32 n = (if n \<le> 1114111 \<and> \<not> (55296 \<le> n \<and> n \<le> 57343) then Some n else None)"

text \<open>\<open>String::push\<close>: the encoding of a scalar value.\<close>

definition encode_utf8 :: "nat \<Rightarrow> string" where
  "encode_utf8 c =
    (if c < 128 then [char_of c]
     else if c < 2048 then [char_of (192 + c div 64), char_of (128 + c mod 64)]
     else if c < 65536 then
       [char_of (224 + c div 4096), char_of (128 + c div 64 mod 64), char_of (128 + c mod 64)]
     else [char_of (240 + c div 262144), char_of (128 + c div 4096 mod 64),
           char_of (128 + c div 64 mod 64), char_of (128 + c mod 64)])"

text \<open>\<open>str::is_char_boundary\<close>\<close>

definition is_char_boundary :: "string \<Rightarrow> nat \<Rightarrow> bool" where
  "is_char_boundary s i \<longleftrightarrow> i = 0 \<or> i = length s \<or> (i < length s \<and> \<not> is_cont (s ! i))"

text \<open>\<open>str::get(start..end)\<close>; the slice \<open>&s[start..end]\<close> panics where it is \<open>None\<close>.\<close>

definition str_get :: "string \<Rightarrow> nat \<Rightarrow> nat \<Rightarrow> string option" where
  "str_get s i j =
    (if i \<le> j \<and> is_char_boundary s i \<and> is_char_boundary s j then vslice s i j else None)"

section \<open>Valid text\<close>

definition utf8_valid :: "string \<Rightarrow> bool" where
  "utf8_valid s \<longleftrightarrow> (\<exists>cs. from_utf8 s = Ok cs)"

lemma utf8_scan_valid_pos:
  "(\<exists>cs. utf8_scan p s = Ok cs) \<longleftrightarrow> (\<exists>cs. utf8_scan q s = Ok cs)"
proof (induction p s arbitrary: q rule: utf8_scan.induct)
  case (1 p s)
  show ?case
  proof (cases "s = []")
    case True
    then show ?thesis by (simp add: utf8_scan.simps)
  next
    case False
    show ?thesis
    proof (cases "decode1 s")
      case (Ok cw)
      obtain c w where cw: "cw = (c, w)" by force
      have "(\<exists>cs. utf8_scan (p + w) (drop w s) = Ok cs) \<longleftrightarrow> (\<exists>cs. utf8_scan (q + w) (drop w s) = Ok cs)"
        using 1 False Ok cw by blast
      then show ?thesis using False Ok cw by (simp add: utf8_scan.simps [of _ s])
    qed (simp_all add: False utf8_scan.simps [of _ s])
  qed
qed

lemma utf8_valid_Nil [simp]: "utf8_valid []"
  by (simp add: utf8_valid_def from_utf8_def utf8_scan.simps)

lemma utf8_valid_decode:
  assumes "s \<noteq> []"
  shows "utf8_valid s \<longleftrightarrow> (\<exists>c w. decode1 s = Ok (c, w) \<and> utf8_valid (drop w s))"
proof (cases "decode1 s")
  case (Ok cw)
  obtain c w where cw: "cw = (c, w)" by force
  show ?thesis
    using assms Ok cw utf8_scan_valid_pos [of w "drop w s" 0]
    by (simp add: utf8_valid_def from_utf8_def utf8_scan.simps [of 0 s])
qed (use assms in \<open>simp_all add: utf8_valid_def from_utf8_def utf8_scan.simps [of 0 s]\<close>)

lemma from_utf8_first:
  assumes "utf8_valid s" and "s \<noteq> []"
  obtains c w cs where "decode1 s = Ok (c, w)" and "from_utf8 s = Ok (c # cs)"
  using assms
  by (auto simp: utf8_valid_def from_utf8_def utf8_scan.simps [of 0 s] split: res.splits)

lemma decode1_ascii: "byte a < 128 \<Longrightarrow> decode1 (a # s) = Ok (byte a, 1)"
  by (simp add: decode1_def)

lemma utf8_valid_ascii: "byte a < 128 \<Longrightarrow> utf8_valid (a # s) = utf8_valid s"
  by (simp add: utf8_valid_decode decode1_ascii)

text \<open>ASCII text, byte by byte; the evaluator takes this way where it can.\<close>

lemma byte_ascii: "byte b < 128 \<longleftrightarrow> \<not> digit7 b"
  by (cases b) (simp add: of_char_def)

lemma utf8_scan_ascii: "list_all (\<lambda>b. \<not> digit7 b) s \<Longrightarrow> utf8_scan p s = Ok (map byte s)"
proof (induction s arbitrary: p)
  case (Cons a s)
  then have "byte a < 128" by (simp add: byte_ascii)
  with Cons show ?case by (simp add: utf8_scan.simps [of _ "a # s"] decode1_ascii)
qed (simp add: utf8_scan.simps)

lemma from_utf8_code [code]:
  "from_utf8 s = (if list_all (\<lambda>b. \<not> digit7 b) s then Ok (map byte s) else utf8_scan 0 s)"
  by (simp add: from_utf8_def utf8_scan_ascii)

text \<open>Inside a scalar value there are continuation bytes only.\<close>

lemma second_is_cont: "second_of_3 a b \<Longrightarrow> is_cont b" "second_of_4 a b \<Longrightarrow> is_cont b"
  by (auto simp: second_of_3_def second_of_4_def is_cont_def split: if_splits)

lemma decode1_inside:
  assumes "decode1 s = Ok (c, w)" and "0 < i" and "i < w"
  shows "is_cont (s ! i)"
proof -
  have "w \<le> 4" using decode1_width [OF assms(1)] by simp
  with assms(2,3) consider "i = 1" | "i = 2" | "i = 3" by linarith
  then show ?thesis
    by cases (use assms(3) in \<open>(cases rule: decode1_cases [OF assms(1)]; simp add: second_is_cont)\<close>)+
qed

lemma decode1_front: "decode1 (a # s) = Ok (c, w) \<Longrightarrow> \<not> is_cont a"
  by (erule decode1_cases) (simp_all add: is_cont_def)

lemma utf8_valid_front: "utf8_valid (a # s) \<Longrightarrow> \<not> is_cont a"
  by (auto simp: utf8_valid_decode dest: decode1_front)

text \<open>A position of valid text that holds no continuation byte starts valid text.\<close>

lemma utf8_valid_drop:
  assumes "utf8_valid s" and "i \<le> length s" and "i = length s \<or> \<not> is_cont (s ! i)"
  shows "utf8_valid (drop i s)"
  using assms
proof (induction "length s" arbitrary: s i rule: less_induct)
  case less
  show ?case
  proof (cases "i = 0 \<or> s = []")
    case False
    with less.prems obtain c w where w: "decode1 s = Ok (c, w)" and v: "utf8_valid (drop w s)"
      by (auto simp: utf8_valid_decode)
    note len = decode1_width [OF w]
    have "w \<le> i"
    proof (rule ccontr)
      assume "\<not> w \<le> i"
      then show False using decode1_inside [OF w, of i] False less.prems(3) len by auto
    qed
    moreover have "length (drop w s) < length s" using len False by auto
    ultimately have "utf8_valid (drop (i - w) (drop w s))"
      using less.hyps [OF _ v, of "i - w"] less.prems(2,3) by auto
    with \<open>w \<le> i\<close> show ?thesis by simp
  qed (use less in auto)
qed

lemma utf8_valid_append: "utf8_valid s \<Longrightarrow> utf8_valid t \<Longrightarrow> utf8_valid (s @ t)"
proof (induction "length s" arbitrary: s rule: less_induct)
  case less
  show ?case
  proof (cases s)
    case (Cons a s')
    then obtain c w where w: "decode1 s = Ok (c, w)" and v: "utf8_valid (drop w s)"
      using less.prems by (auto simp: utf8_valid_decode)
    have dec: "decode1 (s @ t) = Ok (c, w)"
      using decode1_take_append [OF w, of "drop w s @ t"] by (metis append_assoc append_take_drop_id)
    have len: "w \<le> length s" "1 \<le> w" using decode1_width [OF w] by auto
    have eq: "drop w (s @ t) = drop w s @ t" using len(1) by simp
    have short: "length (drop w s) < length s" using len by simp
    have "utf8_valid (drop w (s @ t))"
      unfolding eq by (rule less.hyps [OF short v less.prems(2)])
    moreover have "s @ t \<noteq> []" by (simp add: Cons)
    ultimately show ?thesis using dec utf8_valid_decode by blast
  qed (use less in simp)
qed

text \<open>Splitting valid text at a boundary gives valid text on both sides.\<close>

lemma utf8_valid_take:
  assumes "utf8_valid s" and "i \<le> length s" and "i = length s \<or> \<not> is_cont (s ! i)"
  shows "utf8_valid (take i s)"
  using assms
proof (induction "length s" arbitrary: s i rule: less_induct)
  case less
  show ?case
  proof (cases "i = 0 \<or> s = []")
    case False
    with less.prems obtain c w where w: "decode1 s = Ok (c, w)" and v: "utf8_valid (drop w s)"
      by (auto simp: utf8_valid_decode)
    note len = decode1_width [OF w]
    have wi: "w \<le> i"
    proof (rule ccontr)
      assume "\<not> w \<le> i"
      then show False using decode1_inside [OF w, of i] False less.prems(3) len by auto
    qed
    have "length (drop w s) < length s" using len False by auto
    then have "utf8_valid (take (i - w) (drop w s))"
      using less.hyps [OF _ v, of "i - w"] less.prems(2,3) wi by auto
    moreover have "decode1 (take i s) = Ok (c, w)"
    proof -
      have "take w s @ take (i - w) (drop w s) = take i s"
        using wi by (metis le_add_diff_inverse take_add)
      then show ?thesis using decode1_take_append [OF w, of "take (i - w) (drop w s)"] by simp
    qed
    ultimately show ?thesis using False wi less.prems(2)
      by (subst utf8_valid_decode) (auto simp: drop_take)
  qed (use less in auto)
qed

end
