(* ===== verification/Hell_Source.thy ===== *)
theory Hell_Source
  imports Hell_Utf8
begin

text \<open>
  Crate \<open>hell-source\<close>: byte spans, source files and the source map.  A file is added
  once, after UTF-8 validation; its line index and shebang span are computed then and
  everything later reads them.  Reading a file from disk is input/output and is not
  modelled; its bytes arrive at \<open>add_bytes\<close>.
\<close>

section \<open>Spans\<close>

record span =
  span_source :: nat
  span_start :: nat
  span_end :: nat

definition span_new :: "nat \<Rightarrow> nat \<Rightarrow> nat \<Rightarrow> span" where
  "span_new src s e = \<lparr>span_source = src, span_start = s, span_end = e\<rparr>"

definition span_empty :: "nat \<Rightarrow> nat \<Rightarrow> span" where
  "span_empty src pos = span_new src pos pos"

definition span_join :: "span \<Rightarrow> span \<Rightarrow> span" where
  "span_join a b = span_new (span_source a) (span_start a) (span_end b)"

section \<open>Files\<close>

datatype source_name = PathName string | VirtualName string

record source_file =
  file_id :: nat
  file_name :: source_name
  file_bytes :: string
  file_text :: string
  line_starts :: "nat list"
  shebang :: "span option"

definition u32_or_max :: "nat \<Rightarrow> nat" where
  "u32_or_max n = (case u32_try_from n of Some m \<Rightarrow> m | None \<Rightarrow> u32_max)"

definition eof_span :: "source_file \<Rightarrow> span" where
  "eof_span f = span_empty (file_id f) (u32_or_max (length (file_bytes f)))"

definition slice :: "source_file \<Rightarrow> span \<Rightarrow> string option" where
  "slice f sp = (if span_source sp \<noteq> file_id f then None
                 else str_get (file_text f) (span_start sp) (span_end sp))"

text \<open>One character's effect on the display column; \<open>u32\<close> arithmetic.\<close>

definition next_column :: "nat \<Rightarrow> nat \<Rightarrow> nat" where
  "next_column column ch =
    (if ch = 9 then (((column - 1) div 8 + 1) * 8 + 1) mod (u32_max + 1)
     else min (column + 1) u32_max)"

lemma next_column_code [code]:
  "next_column col ch =
    (if col \<le> 64 then if ch = 9 then ((col - 1) div 8 + 1) * 8 + 1 else col + 1
     else if ch = 9 then (((col - 1) div 8 + 1) * 8 + 1) mod (u32_max + 1) else min (col + 1) u32_max)"
proof -
  have "((col - 1) div 8 + 1) * 8 + 1 < 4294967296" if "col \<le> 64"
    using that div_le_mono [of "col - 1" 64 8] by simp
  then show ?thesis by (auto simp: next_column_def u32_max_def)
qed


text \<open>\<open>slice::binary_search\<close> on a sorted vector without repetitions.\<close>

definition binary_search :: "nat list \<Rightarrow> nat \<Rightarrow> nat + nat" where
  "binary_search xs k =
    (let i = length (takeWhile (\<lambda>x. x < k) xs) in if k \<in> set xs then Inl i else Inr i)"

definition line_column :: "source_file \<Rightarrow> nat \<Rightarrow> ((nat \<times> nat) option, unit) res" where
  "line_column f offset0 =
    (let offset = min offset0 (length (file_text f)) in
     if \<not> is_char_boundary (file_text f) offset then Ok None
     else case u32_try_from offset of None \<Rightarrow> Ok None
     | Some offset_u32 \<Rightarrow>
        (let line_index = (case binary_search (line_starts f) offset_u32 of
                             Inl index \<Rightarrow> index | Inr index \<Rightarrow> index - 1) in
         case vget (line_starts f) line_index of None \<Rightarrow> Panic
         | Some start \<Rightarrow>
            (case str_get (file_text f) start offset of None \<Rightarrow> Panic
             | Some text \<Rightarrow>
                (case from_utf8 text of
                   Ok chars \<Rightarrow>
                     (let column = foldl next_column 1 chars in
                      case u32_try_from line_index of None \<Rightarrow> Ok None
                      | Some l \<Rightarrow> (case u32_try_from (l + 1) of None \<Rightarrow> Ok None
                                 | Some line \<Rightarrow> Ok (Some (line, column))))
                 | _ \<Rightarrow> Panic))))"

section \<open>The source map\<close>

type_synonym source_map = "source_file list"

record utf8_source_error =
  valid_up_to :: nat
  error_len :: "nat option"

definition map_new :: source_map where
  "map_new = []"

text \<open>The loop that records the offset after every newline, from position \<open>index\<close> on.\<close>

fun newline_starts :: "nat \<Rightarrow> string \<Rightarrow> (nat list, utf8_source_error) res" where
  "newline_starts index [] = Ok []"
| "newline_starts index (b # bytes) =
    (if b = CHR 0x0A then
       (case u32_try_from (index + 1) of
          None \<Rightarrow> Err \<lparr>valid_up_to = index, error_len = None\<rparr>
        | Some s \<Rightarrow> res_bind (newline_starts (index + 1) bytes) (\<lambda>rest. Ok (s # rest)))
     else newline_starts (index + 1) bytes)"

definition first_newline :: "string \<Rightarrow> nat" where
  "first_newline bytes = length (takeWhile (\<lambda>b. b \<noteq> CHR 0x0A) bytes)"

definition shebang_of :: "nat \<Rightarrow> string \<Rightarrow> (span option, utf8_source_error) res" where
  "shebang_of sid bytes =
    (if take 2 bytes = ''#!'' then
       (let stop = first_newline bytes in
        case u32_try_from stop of
          None \<Rightarrow> Err \<lparr>valid_up_to = stop, error_len = None\<rparr>
        | Some e \<Rightarrow> Ok (Some (span_new sid 0 e)))
     else Ok None)"

definition add_bytes ::
  "source_map \<Rightarrow> source_name \<Rightarrow> string \<Rightarrow> source_map \<times> (source_file, utf8_source_error) res" where
  "add_bytes files name bytes =
    (case from_utf8 bytes of
       Err (up_to, len) \<Rightarrow> (files, Err \<lparr>valid_up_to = up_to, error_len = len\<rparr>)
     | Panic \<Rightarrow> (files, Panic)
     | Ok _ \<Rightarrow>
       (case u32_try_from (length files) of
          None \<Rightarrow> (files, Err \<lparr>valid_up_to = length bytes, error_len = None\<rparr>)
        | Some sid \<Rightarrow>
          (case res_bind (newline_starts 0 bytes) (\<lambda>starts.
                res_bind (shebang_of sid bytes) (\<lambda>sb.
                Ok \<lparr>file_id = sid, file_name = name, file_bytes = bytes, file_text = bytes,
                    line_starts = 0 # starts, shebang = sb\<rparr>)) of
             Ok f \<Rightarrow> (files @ [f], Ok f)
           | Err e \<Rightarrow> (files, Err e)
           | Panic \<Rightarrow> (files, Panic))))"

text \<open>\<open>add_text\<close>: the \<open>expect\<close> turns any error into a panic.\<close>

definition add_text :: "source_map \<Rightarrow> string \<Rightarrow> string \<Rightarrow> source_map \<times> (source_file, utf8_source_error) res" where
  "add_text files name text =
    (case add_bytes files (VirtualName name) text of
       (files', Err _) \<Rightarrow> (files', Panic)
     | r \<Rightarrow> r)"

definition map_get :: "source_map \<Rightarrow> nat \<Rightarrow> source_file option" where
  "map_get files sid = vget files sid"

section \<open>The line index\<close>

text \<open>The offsets just after a newline, in order.\<close>

fun after_newlines :: "nat \<Rightarrow> string \<Rightarrow> nat list" where
  "after_newlines index [] = []"
| "after_newlines index (b # bytes) =
    (if b = CHR 0x0A then [index + 1] else []) @ after_newlines (index + 1) bytes"

lemma newline_starts_Ok:
  "newline_starts index bytes = Ok starts \<Longrightarrow> starts = after_newlines index bytes \<and> (\<forall>s\<in>set starts. s \<le> u32_max)"
  by (induction index bytes arbitrary: starts rule: newline_starts.induct)
     (auto split: if_splits option.splits)

lemma newline_starts_Ok_iff:
  "(\<exists>starts. newline_starts index bytes = Ok starts) \<longleftrightarrow> (\<forall>s\<in>set (after_newlines index bytes). s \<le> u32_max)"
  by (induction index bytes rule: newline_starts.induct) (auto split: option.split)

lemma newline_starts_not_Panic [simp]: "newline_starts index bytes \<noteq> Panic"
proof (induction index bytes rule: newline_starts.induct)
  case (2 index b bytes)
  then show ?case by (cases "newline_starts (index + 1) bytes") (auto split: option.split)
qed simp

lemma after_newlines_bounds:
  "s \<in> set (after_newlines index bytes) \<Longrightarrow> index < s \<and> s \<le> index + length bytes"
  by (induction index bytes rule: after_newlines.induct) (auto split: if_splits)

lemma after_newlines_mem:
  "s \<in> set (after_newlines index bytes) \<longleftrightarrow>
     index < s \<and> s \<le> index + length bytes \<and> bytes ! (s - index - 1) = CHR 0x0A"
proof (induction index bytes rule: after_newlines.induct)
  case (2 index b bytes)
  show ?case
  proof (cases "s = index + 1")
    case True
    then show ?thesis using after_newlines_bounds [of s "index + 1" bytes] by auto
  next
    case False
    then have "s - index - 1 = Suc (s - (index + 1) - 1)" if "index < s" using that by simp
    with False 2 show ?thesis by (cases "index < s") auto
  qed
qed simp

lemma sorted_after_newlines: "sorted_wrt (<) (after_newlines index bytes)"
  by (induction index bytes rule: after_newlines.induct)
     (auto simp: sorted_wrt_append dest: after_newlines_bounds)

text \<open>How many line starts lie at or before an offset: one per newline before it.\<close>

lemma length_filter_after_newlines:
  "length (filter (\<lambda>s. s \<le> index + k) (after_newlines index bytes)) =
   length (filter (\<lambda>b. b = CHR 0x0A) (take k bytes))"
proof (induction index bytes arbitrary: k rule: after_newlines.induct)
  case (2 index b bytes)
  show ?case
  proof (cases k)
    case 0
    then have "filter (\<lambda>s. s \<le> index + k) (after_newlines (index + 1) bytes) = []"
      by (auto simp: filter_empty_conv dest: after_newlines_bounds)
    with 0 show ?thesis by simp
  next
    case (Suc k')
    then show ?thesis using 2 [of k'] by simp
  qed
qed simp

lemma takeWhile_filter_sorted:
  "sorted_wrt (<) xs \<Longrightarrow> takeWhile (\<lambda>x. x < (k :: nat)) xs = filter (\<lambda>x. x < k) xs"
proof (induction xs)
  case (Cons x xs)
  have "filter (\<lambda>x. x < k) xs = []" if "\<not> x < k"
    using Cons.prems that by (auto simp: filter_empty_conv)
  with Cons show ?case by auto
qed simp

text \<open>The index the search leads to is the last line start at or before the offset.\<close>

lemma search_line_index:
  assumes sorted: "sorted_wrt (<) xs" and "0 \<in> set xs"
  shows "(case binary_search xs k of Inl i \<Rightarrow> i | Inr i \<Rightarrow> i - 1) =
         length (filter (\<lambda>x. x \<le> k) xs) - 1"
proof -
  have "length (filter (\<lambda>x. x \<le> k) xs) = length (filter (\<lambda>x. x < k) xs) + (if k \<in> set xs then 1 else 0)"
    using sorted
  proof (induction xs)
    case (Cons x xs)
    then have "x \<notin> set xs" by auto
    with Cons show ?case by auto
  qed simp
  then show ?thesis
    by (simp add: binary_search_def Let_def takeWhile_filter_sorted [OF sorted])
qed

text \<open>The text of the current line up to a point.\<close>

definition line_prefix :: "string \<Rightarrow> string" where
  "line_prefix s = rev (takeWhile (\<lambda>b. b \<noteq> CHR 0x0A) (rev s))"

definition newlines :: "string \<Rightarrow> nat" where
  "newlines s = length (filter (\<lambda>b. b = CHR 0x0A) s)"

lemma after_newlines_append:
  "after_newlines i (xs @ ys) = after_newlines i xs @ after_newlines (i + length xs) ys"
  by (induction xs arbitrary: i) auto

lemma length_after_newlines: "length (after_newlines i s) = newlines s"
  by (induction s arbitrary: i) (auto simp: newlines_def)

lemma length_line_prefix: "length (line_prefix s) \<le> length s"
  by (simp add: line_prefix_def) (metis length_rev length_takeWhile_le)

lemma last_line_start: "last (0 # after_newlines 0 s) = length s - length (line_prefix s)"
proof (induction s rule: rev_induct)
  case (snoc b s)
  then show ?case
    using length_line_prefix [of s] by (auto simp: after_newlines_append line_prefix_def)
qed (simp add: line_prefix_def)

lemma drop_line_prefix: "drop (length s - length (line_prefix s)) s = line_prefix s"
proof -
  have "rev s = takeWhile (\<lambda>b. b \<noteq> CHR 0x0A) (rev s) @ dropWhile (\<lambda>b. b \<noteq> CHR 0x0A) (rev s)"
    by simp
  then have "s = rev (dropWhile (\<lambda>b. b \<noteq> CHR 0x0A) (rev s)) @ line_prefix s"
    unfolding line_prefix_def by (metis rev_append rev_rev_ident)
  then show ?thesis
    by (metis append_eq_conv_conj length_append diff_add_inverse2)
qed

lemma line_start_nth:
  assumes "k \<le> length s"
  shows "(0 # after_newlines 0 s) ! newlines (take k s) = k - length (line_prefix (take k s))"
proof -
  have "after_newlines 0 s = after_newlines 0 (take k s) @ after_newlines k (drop k s)"
    using after_newlines_append [of 0 "take k s" "drop k s"] assms by simp
  then have "(0 # after_newlines 0 s) ! newlines (take k s) =
      (0 # after_newlines 0 (take k s)) ! newlines (take k s)"
    by (simp add: nth_append length_after_newlines nth_Cons')
  also have "\<dots> = last (0 # after_newlines 0 (take k s))"
    using last_conv_nth [of "0 # after_newlines 0 (take k s)"]
    by (simp add: length_after_newlines del: last.simps)
  finally show ?thesis using assms by (simp only: last_line_start) simp
qed

section \<open>What add_bytes builds\<close>

definition indexed :: "source_file \<Rightarrow> bool" where
  "indexed f \<longleftrightarrow> utf8_valid (file_text f) \<and> file_bytes f = file_text f \<and>
     line_starts f = 0 # after_newlines 0 (file_text f)"

lemma shebang_of_not_Panic [simp]: "shebang_of sid bytes \<noteq> Panic"
  by (auto simp: shebang_of_def Let_def split: option.split)

lemma utf8_scan_not_Panic [simp]: "utf8_scan pos s \<noteq> Panic"
proof (induction pos s rule: utf8_scan.induct)
  case (1 pos s)
  show ?case
  proof (cases "s = [] \<or> (\<forall>cw. decode1 s \<noteq> Ok cw)")
    case True
    have "decode1 s \<noteq> Panic" by (auto simp: decode1_def split: list.split)
    with True show ?thesis
      by (cases "s = []"; cases "decode1 s") (auto simp: utf8_scan.simps)
  next
    case False
    then obtain c w where "decode1 s = Ok (c, w)" "s \<noteq> []" by auto
    with 1 show ?thesis
      by (cases "utf8_scan (pos + w) (drop w s)") (simp_all add: utf8_scan.simps [of pos s])
  qed
qed

lemma add_bytes_Ok:
  assumes "add_bytes files name bytes = (files', Ok f)"
  shows "files' = files @ [f]" and "file_id f = length files" and "file_name f = name"
    and "file_text f = bytes" and "indexed f" and "length files \<le> u32_max"
    and "shebang_of (length files) bytes = Ok (shebang f)"
  using assms
  by (auto simp: add_bytes_def indexed_def utf8_valid_def
      split: res.splits prod.splits option.splits dest: newline_starts_Ok)

lemma add_bytes_unchanged:
  assumes "add_bytes files name bytes = (files', r)" and "\<nexists>f. r = Ok f"
  shows "files' = files"
  using assms by (auto simp: add_bytes_def split: res.splits prod.splits option.splits)

lemma add_bytes_not_Panic: "snd (add_bytes files name bytes) \<noteq> Panic"
proof -
  have "from_utf8 bytes \<noteq> Panic" by (simp add: from_utf8_def)
  moreover have "res_bind (newline_starts 0 bytes) (\<lambda>starts. res_bind (shebang_of sid bytes) (\<lambda>sb. Ok (g starts sb))) \<noteq> Panic"
    for sid and g :: "nat list \<Rightarrow> span option \<Rightarrow> source_file"
    by (cases "newline_starts 0 bytes"; cases "shebang_of sid bytes") auto
  ultimately show ?thesis
    by (auto simp: add_bytes_def split: res.split prod.split option.split)
qed

lemma line_index_eq:
  assumes "indexed f" and "k \<le> length (file_text f)"
  shows "(case binary_search (line_starts f) k of Inl i \<Rightarrow> i | Inr i \<Rightarrow> i - 1) =
    newlines (take k (file_text f))"
proof -
  have "sorted_wrt (<) (line_starts f)"
    using assms(1) sorted_after_newlines by (auto simp: indexed_def dest: after_newlines_bounds)
  moreover have "0 \<in> set (line_starts f)" using assms(1) by (simp add: indexed_def)
  ultimately show ?thesis
    using length_filter_after_newlines [of 0 k "file_text f"] assms(1)
    by (simp add: search_line_index indexed_def newlines_def)
qed

lemma boundary_dvd:
  "is_char_boundary s i \<Longrightarrow> utf8_valid s \<Longrightarrow> i \<le> length s \<and> (i = length s \<or> \<not> is_cont (s ! i))"
  by (cases s) (auto simp: is_char_boundary_def dest: utf8_valid_front)

lemma newline_not_cont [simp]: "\<not> is_cont (CHR 0x0A)"
  by (simp add: is_cont_def)

text \<open>The line starts of an indexed file are boundaries of its text.\<close>

lemma line_start_boundary:
  assumes "utf8_valid s" and "k = 0 \<or> (0 < k \<and> k \<le> length s \<and> s ! (k - 1) = CHR 0x0A)"
  shows "is_char_boundary s k"
proof (cases "k = 0 \<or> k = length s")
  case False
  with assms(2) have k: "0 < k" "k < length s" "s ! (k - 1) = CHR 0x0A" by auto
  have "utf8_valid (drop (k - 1) s)" using assms(1) k by (intro utf8_valid_drop) auto
  moreover have "drop (k - 1) s = CHR 0x0A # s ! k # drop (k + 1) s"
    using k by (metis Cons_nth_drop_Suc One_nat_def Suc_pred add.commute less_imp_diff_less plus_1_eq_Suc)
  ultimately have "utf8_valid (s ! k # drop (k + 1) s)" by (simp add: utf8_valid_ascii)
  then show ?thesis using k by (auto simp: is_char_boundary_def dest: utf8_valid_front)
qed (auto simp: is_char_boundary_def)

lemma line_column_indexed:
  assumes f: "indexed f" and k: "k \<le> length (file_text f)" and b: "is_char_boundary (file_text f) k"
    and small: "k < u32_max"
  shows "\<exists>chars. from_utf8 (line_prefix (take k (file_text f))) = Ok chars \<and>
    line_column f k = Ok (Some (newlines (take k (file_text f)) + 1, foldl next_column 1 chars))"
proof -
  define t where "t = file_text f"
  define n where "n = newlines (take k t)"
  define start where "start = k - length (line_prefix (take k t))"
  have valid: "utf8_valid t" using f by (simp add: indexed_def t_def)
  have nk: "n \<le> k" using length_filter_le [of _ "take k t"] by (simp add: n_def newlines_def)
  have start_mem: "start \<in> set (0 # after_newlines 0 t)" and start: "vget (line_starts f) n = Some start"
  proof -
    have len: "n < length (0 # after_newlines 0 t)"
    proof -
      have "newlines (take k t) \<le> newlines t"
        by (metis append_take_drop_id filter_append le_add1 length_append newlines_def)
      then show ?thesis by (simp add: length_after_newlines n_def)
    qed
    have nth: "(0 # after_newlines 0 t) ! n = start"
      using line_start_nth [of k t] k by (simp add: n_def start_def t_def)
    show "start \<in> set (0 # after_newlines 0 t)" using len nth nth_mem by metis
    show "vget (line_starts f) n = Some start"
      using len nth f by (simp add: indexed_def t_def vget_def)
  qed
  have sb: "is_char_boundary t start"
    using start_mem valid by (intro line_start_boundary) (auto simp: after_newlines_mem)
  have prefix: "take (k - start) (drop start t) = line_prefix (take k t)"
    using drop_line_prefix [of "take k t"] k by (simp add: start_def t_def drop_take)
  have slice: "str_get t start k = Some (line_prefix (take k t))"
    using sb b k prefix by (simp add: str_get_def vslice_def t_def) (simp add: start_def)
  have "utf8_valid (take (k - start) (drop start t))"
    using boundary_dvd [OF b [folded t_def] valid] boundary_dvd [OF sb valid] valid
    by (intro utf8_valid_take utf8_valid_drop) (auto simp: start_def)
  then obtain chars where chars: "from_utf8 (line_prefix (take k t)) = Ok chars"
    by (auto simp: prefix utf8_valid_def)
  have "line_column f k = Ok (Some (n + 1, foldl next_column 1 chars))"
    using b k small nk start slice chars line_index_eq [OF f k]
    by (simp add: line_column_def Let_def t_def [symmetric] n_def [symmetric] min_absorb1)
  with chars show ?thesis by (auto simp: t_def n_def)
qed

section \<open>Properties\<close>

text \<open>C38: In every file that \<open>SourceMap::add_bytes\<close> returns, \<open>line_column\<close> of a
  character boundary is one more than the number of newlines before it, and the display
  column that the tab rule gives for the characters since the last newline; in particular
  the binary search over the line index never misses and no slice panics.\<close>

theorem line_column_correct:
  assumes "add_bytes files name bytes = (files', Ok f)"
    and "offset \<le> length bytes" and "is_char_boundary bytes offset" and "offset < u32_max"
  shows "\<exists>chars. from_utf8 (line_prefix (take offset bytes)) = Ok chars \<and>
    line_column f offset = Ok (Some (newlines (take offset bytes) + 1, foldl next_column 1 chars))"
  using line_column_indexed [of f offset] add_bytes_Ok [OF assms(1)] assms(2-4) by simp

definition sample_bytes :: string where
  "sample_bytes = ''ab'' @ [CHR 0x0A, CHR 0x09] @ ''cd''"

lemma line_column_correct_witness:
  "\<exists>f. add_bytes [] (VirtualName ''v'') sample_bytes = ([f], Ok f) \<and>
    line_column f 5 = Ok (Some (2, 10))"
proof -
  let ?f = "\<lparr>file_id = 0, file_name = VirtualName ''v'', file_bytes = sample_bytes,
    file_text = sample_bytes, line_starts = [0, 3], shebang = None\<rparr>"
  have add: "add_bytes [] (VirtualName ''v'') sample_bytes = ([] @ [?f], Ok ?f)"
    by (simp add: add_bytes_def sample_bytes_def from_utf8_def utf8_scan.simps decode1_def
        shebang_of_def u32_max_def)
  have "\<exists>chars. from_utf8 (line_prefix (take 5 sample_bytes)) = Ok chars \<and>
      line_column ?f 5 = Ok (Some (newlines (take 5 sample_bytes) + 1, foldl next_column 1 chars))"
    by (rule line_column_correct [OF add])
       (simp_all add: sample_bytes_def is_char_boundary_def is_cont_def u32_max_def)
  then have "line_column ?f 5 = Ok (Some (2, 10))"
    by (simp add: sample_bytes_def line_prefix_def newlines_def from_utf8_def utf8_scan.simps
        decode1_def next_column_def u32_max_def)
  with add show ?thesis by auto
qed

text \<open>Adding a source keeps the map's promise: on success the file gets the next id,
  looking that id up returns the file, the earlier files keep their places, the file holds exactly the given bytes, and these are valid UTF-8; on failure the map is
  unchanged, and adding never panics.\<close>

theorem source_map_insert_lookup:
  "case add_bytes files name bytes of
     (files', Ok f) \<Rightarrow>
       files' = files @ [f] \<and> file_id f = length files \<and> map_get files' (file_id f) = Some f \<and>
       file_bytes f = bytes \<and> file_text f = bytes \<and> utf8_valid bytes
   | (files', Err e) \<Rightarrow> files' = files
   | (files', Panic) \<Rightarrow> False"
proof (cases "add_bytes files name bytes")
  case (Pair files' r)
  show ?thesis
  proof (cases r)
    case (Ok f)
    with Pair have "add_bytes files name bytes = (files', Ok f)" by simp
    note this add_bytes_Ok [OF this]
    then show ?thesis by (auto simp: map_get_def indexed_def vget_def nth_append)
  next
    case (Err e)
    with Pair show ?thesis using add_bytes_unchanged [OF Pair] by simp
  next
    case Panic
    with Pair show ?thesis using add_bytes_not_Panic [of files name bytes] by simp
  qed
qed

end
