(* ===== verification/Hell_Types.thy ===== *)
theory Hell_Types
  imports Hell_Prelude
begin

text \<open>
  Crate \<open>hell-types\<close>: hash-consed kind and type arenas, kinding, printing, and the
  metavariable unifier with path compression, occurs check and zonking.  Identifiers are
  the \<open>u32\<close> indices of the sources; the maps and sets are partial functions and sets.
  Every loop over an explicit work list is a body iterated by \<open>run\<close> or
  \<open>run_calls\<close>; stacks have their top in front.  This theory holds the definitions and
  the arena's own lemmas; kinding, printing, unification and zonking are verified in the
  theories that import it.
\<close>

section \<open>Kinds\<close>

datatype kind_node = KType | KConstraint | KSymbol | KRow | KStreamType
  | KOpaque string | KArrow nat nat

record kind_arena =
  k_nodes :: "kind_node list"
  k_interned :: "kind_node \<rightharpoonup> nat"

definition kind_intern :: "kind_arena \<Rightarrow> kind_node \<Rightarrow> kind_arena \<times> (nat, unit) res" where
  "kind_intern ar node =
    (case k_interned ar node of
       Some i \<Rightarrow> (ar, Ok i)
     | None \<Rightarrow>
        (case u32_try_from (length (k_nodes ar)) of
           None \<Rightarrow> (ar, Panic)
         | Some i \<Rightarrow> (ar\<lparr>k_nodes := k_nodes ar @ [node], k_interned := (k_interned ar)(node \<mapsto> i)\<rparr>, Ok i)))"

definition kind_default :: kind_arena where
  "kind_default =
    fold (\<lambda>kind ar. fst (kind_intern ar kind)) [KType, KConstraint, KSymbol, KRow, KStreamType]
      \<lparr>k_nodes = [], k_interned = Map.empty\<rparr>"

definition TYPE_KIND :: nat where "TYPE_KIND = 0"
definition CONSTRAINT_KIND :: nat where "CONSTRAINT_KIND = 1"
definition SYMBOL_KIND :: nat where "SYMBOL_KIND = 2"
definition ROW_KIND :: nat where "ROW_KIND = 3"
definition STREAM_TYPE_KIND :: nat where "STREAM_TYPE_KIND = 4"

text \<open>\<open>KindArena::get\<close>: an index, which panics out of bounds (\<open>None\<close>).\<close>

definition kind_get :: "kind_arena \<Rightarrow> nat \<Rightarrow> kind_node option" where
  "kind_get ar i = vget (k_nodes ar) i"

section \<open>Types\<close>

datatype type_node =
    TMeta nat
  | TBound nat
  | TConstructor string nat
  | TApply nat nat
  | TFunction nat nat
  | TSymbol string
  | TRowNil
  | TRowCons string nat nat

record type_arena =
  t_nodes :: "type_node list"
  t_interned :: "type_node \<rightharpoonup> nat"

definition type_arena_default :: type_arena where
  "type_arena_default = \<lparr>t_nodes = [], t_interned = Map.empty\<rparr>"

fun is_meta :: "type_node \<Rightarrow> bool" where
  "is_meta (TMeta _) = True"
| "is_meta _ = False"

definition type_intern :: "type_arena \<Rightarrow> type_node \<Rightarrow> type_arena \<times> (nat, unit) res" where
  "type_intern ar node =
    (case (if \<not> is_meta node then t_interned ar node else None) of
       Some i \<Rightarrow> (ar, Ok i)
     | None \<Rightarrow>
        (case u32_try_from (length (t_nodes ar)) of
           None \<Rightarrow> (ar, Panic)
         | Some i \<Rightarrow>
            (ar\<lparr>t_nodes := t_nodes ar @ [node],
                t_interned := (if \<not> is_meta node then (t_interned ar)(node \<mapsto> i) else t_interned ar)\<rparr>,
             Ok i)))"

definition type_get :: "type_arena \<Rightarrow> nat \<Rightarrow> type_node option" where
  "type_get ar i = vget (t_nodes ar) i"

definition type_ctor :: "type_arena \<Rightarrow> string \<Rightarrow> nat \<Rightarrow> type_arena \<times> (nat, unit) res" where
  "type_ctor ar name kind = type_intern ar (TConstructor name kind)"

definition type_function :: "type_arena \<Rightarrow> nat \<Rightarrow> nat \<Rightarrow> type_arena \<times> (nat, unit) res" where
  "type_function ar argument result = type_intern ar (TFunction argument result)"

definition type_apply :: "type_arena \<Rightarrow> nat \<Rightarrow> nat \<Rightarrow> type_arena \<times> (nat, unit) res" where
  "type_apply ar constructor argument = type_intern ar (TApply constructor argument)"

text \<open>\<open>list\<close> and \<open>io\<close> differ in the constructor's name only.\<close>

definition unary_type ::
  "string \<Rightarrow> type_arena \<Rightarrow> nat \<Rightarrow> kind_arena \<Rightarrow> (type_arena \<times> kind_arena) \<times> (nat, unit) res" where
  "unary_type name ar item kinds =
    (case kind_intern kinds (KArrow TYPE_KIND TYPE_KIND) of
       (kinds', Ok kind) \<Rightarrow>
         (case type_ctor ar name kind of
            (ar', Ok c) \<Rightarrow> (case type_apply ar' c item of (ar'', r) \<Rightarrow> ((ar'', kinds'), r))
          | (ar', r) \<Rightarrow> ((ar', kinds'), r))
     | (kinds', r) \<Rightarrow> ((ar, kinds'), r))"

definition type_list ::
  "type_arena \<Rightarrow> nat \<Rightarrow> kind_arena \<Rightarrow> (type_arena \<times> kind_arena) \<times> (nat, unit) res" where
  "type_list = unary_type ''[]''"

definition type_io ::
  "type_arena \<Rightarrow> nat \<Rightarrow> kind_arena \<Rightarrow> (type_arena \<times> kind_arena) \<times> (nat, unit) res" where
  "type_io = unary_type ''IO''"

fun tuple_kind :: "nat list \<Rightarrow> nat \<Rightarrow> kind_arena \<Rightarrow> kind_arena \<times> (nat, unit) res" where
  "tuple_kind [] kind kinds = (kinds, Ok kind)"
| "tuple_kind (_ # items) kind kinds =
    (case kind_intern kinds (KArrow TYPE_KIND kind) of
       (kinds', Ok kind') \<Rightarrow> tuple_kind items kind' kinds'
     | (kinds', r) \<Rightarrow> (kinds', r))"

fun apply_all :: "type_arena \<Rightarrow> nat \<Rightarrow> nat list \<Rightarrow> type_arena \<times> (nat, unit) res" where
  "apply_all ar ty [] = (ar, Ok ty)"
| "apply_all ar ty (item # items) =
    (case type_apply ar ty item of
       (ar', Ok ty') \<Rightarrow> apply_all ar' ty' items
     | (ar', r) \<Rightarrow> (ar', r))"

definition tuple_name :: "nat \<Rightarrow> string option" where
  "tuple_name n =
    (if n = 2 then Some ''(,)'' else if n = 3 then Some ''(,,)''
     else if n = 4 then Some ''(,,,)'' else None)"

definition type_tuple ::
  "type_arena \<Rightarrow> nat list \<Rightarrow> kind_arena \<Rightarrow> (type_arena \<times> kind_arena) \<times> (nat, unit) res" where
  "type_tuple ar items kinds =
    (case tuple_kind items TYPE_KIND kinds of
       (kinds', Ok kind) \<Rightarrow>
         (case tuple_name (length items) of
            None \<Rightarrow> ((ar, kinds'), Panic)
          | Some name \<Rightarrow>
             (case type_ctor ar name kind of
                (ar', Ok ty) \<Rightarrow> (case apply_all ar' ty items of (ar'', r) \<Rightarrow> ((ar'', kinds'), r))
              | (ar', r) \<Rightarrow> ((ar', kinds'), r)))
     | (kinds', r) \<Rightarrow> ((ar, kinds'), r))"

section \<open>Errors\<close>

datatype type_error =
    Mismatch (mm_left: nat) (mm_right: nat)
  | KindMismatch (km_expected: nat) (km_actual: nat)
  | NotATypeConstructor nat
  | Occurs (oc_meta: nat) (oc_within: nat)
  | Ambiguous nat
  | Internal string

section \<open>Kinding\<close>

datatype kind_work = KVisit nat | KFunctionDone | KRowDone | KApplyDone

type_synonym kind_state = "kind_work list \<times> nat list"

definition kind_visit ::
  "type_arena \<Rightarrow> (nat \<Rightarrow> nat option) \<Rightarrow> nat \<Rightarrow> kind_work list \<Rightarrow> nat list \<Rightarrow>
   kind_state + (nat, type_error) res" where
  "kind_visit ar meta_kinds ty work results =
    (case type_get ar ty of
       None \<Rightarrow> Inr Panic
     | Some node \<Rightarrow>
        (case node of
           TMeta meta \<Rightarrow> (case meta_kinds meta of None \<Rightarrow> Inr Panic | Some k \<Rightarrow> Inl (work, k # results))
         | TBound _ \<Rightarrow> Inr (Err (Internal ''unsubstituted bound type''))
         | TConstructor _ kind \<Rightarrow> Inl (work, kind # results)
         | TFunction argument result \<Rightarrow>
             Inl (KVisit argument # KVisit result # KFunctionDone # work, results)
         | TSymbol _ \<Rightarrow> Inl (work, SYMBOL_KIND # results)
         | TRowNil \<Rightarrow> Inl (work, ROW_KIND # results)
         | TRowCons _ field tail \<Rightarrow> Inl (KVisit field # KVisit tail # KRowDone # work, results)
         | TApply function argument \<Rightarrow>
             Inl (KVisit function # KVisit argument # KApplyDone # work, results)))"

definition function_kind :: "nat \<Rightarrow> nat \<Rightarrow> (nat, type_error) res" where
  "function_kind argument result =
    (if argument \<noteq> TYPE_KIND then Err (KindMismatch TYPE_KIND argument)
     else if result \<noteq> TYPE_KIND then Err (KindMismatch TYPE_KIND result)
     else Ok TYPE_KIND)"

definition row_kind :: "nat \<Rightarrow> nat \<Rightarrow> (nat, type_error) res" where
  "row_kind field tail =
    (if field \<noteq> TYPE_KIND then Err (KindMismatch TYPE_KIND field)
     else if tail \<noteq> ROW_KIND then Err (KindMismatch ROW_KIND tail)
     else Ok ROW_KIND)"

definition apply_kind :: "kind_arena \<Rightarrow> nat \<Rightarrow> nat \<Rightarrow> (nat, type_error) res" where
  "apply_kind kinds function argument =
    (case kind_get kinds function of
       None \<Rightarrow> Panic
     | Some (KArrow expected result) \<Rightarrow>
         (if expected = argument then Ok result else Err (KindMismatch expected argument))
     | Some _ \<Rightarrow> Err (NotATypeConstructor function))"

text \<open>The two results on top of the stack, the later one first.\<close>

definition combine_kinds ::
  "(nat \<Rightarrow> nat \<Rightarrow> (nat, type_error) res) \<Rightarrow> kind_work list \<Rightarrow> nat list \<Rightarrow>
   kind_state + (nat, type_error) res" where
  "combine_kinds f work results =
    (case results of
       second # first # rest \<Rightarrow>
         (case f first second of Ok k \<Rightarrow> Inl (work, k # rest) | Err e \<Rightarrow> Inr (Err e) | Panic \<Rightarrow> Inr Panic)
     | _ \<Rightarrow> Inr Panic)"

fun kind_step ::
  "type_arena \<Rightarrow> kind_arena \<Rightarrow> (nat \<Rightarrow> nat option) \<Rightarrow> kind_state \<Rightarrow> kind_state + (nat, type_error) res" where
  "kind_step ar kinds meta_kinds ([], results) =
    Inr (case results of k # _ \<Rightarrow> Ok k | [] \<Rightarrow> Panic)"
| "kind_step ar kinds meta_kinds (KVisit ty # work, results) = kind_visit ar meta_kinds ty work results"
| "kind_step ar kinds meta_kinds (KFunctionDone # work, results) = combine_kinds function_kind work results"
| "kind_step ar kinds meta_kinds (KRowDone # work, results) = combine_kinds row_kind work results"
| "kind_step ar kinds meta_kinds (KApplyDone # work, results) = combine_kinds (apply_kind kinds) work results"

definition kind_of ::
  "type_arena \<Rightarrow> kind_arena \<Rightarrow> nat \<Rightarrow> (nat \<Rightarrow> nat option) \<Rightarrow> (nat, type_error) res option" where
  "kind_of ar kinds ty meta_kinds = run (kind_step ar kinds meta_kinds) ([KVisit ty], [])"

section \<open>Printing\<close>

datatype display_work = DVisit nat nat | DText string | DCharacter char

type_synonym display_state = "display_work list \<times> string"

definition display_function ::
  "nat \<Rightarrow> nat \<Rightarrow> nat \<Rightarrow> display_work list \<Rightarrow> string \<Rightarrow> display_state" where
  "display_function argument function_result precedence work result =
    (let parts = [DVisit argument 1, DText '' -> '', DVisit function_result 0] in
     if precedence > 0 then (parts @ DCharacter (CHR '')'') # work, result @ ''('')
     else (parts @ work, result))"

definition display_apply ::
  "type_arena \<Rightarrow> nat \<Rightarrow> nat \<Rightarrow> nat \<Rightarrow> display_work list \<Rightarrow> string \<Rightarrow>
   display_state + (string, unit) res" where
  "display_apply ar function argument precedence work result =
    (case type_get ar function of
       None \<Rightarrow> Inr Panic
     | Some head \<Rightarrow>
        (let parts = [DVisit function 1, DCharacter (CHR '' ''), DVisit argument 2] in
         if (case head of TConstructor name _ \<Rightarrow> name = ''[]'' | _ \<Rightarrow> False)
         then Inl (DVisit argument 0 # DCharacter (CHR '']'') # work, result @ ''['')
         else if precedence > 1
         then Inl (parts @ DCharacter (CHR '')'') # work, result @ ''('')
         else Inl (parts @ work, result)))"

definition display_visit ::
  "type_arena \<Rightarrow> nat \<Rightarrow> nat \<Rightarrow> display_work list \<Rightarrow> string \<Rightarrow> display_state + (string, unit) res" where
  "display_visit ar ty precedence work result =
    (case type_get ar ty of
       None \<Rightarrow> Inr Panic
     | Some node \<Rightarrow>
        (case node of
           TMeta i \<Rightarrow> Inl (work, result @ ''t'' @ show_nat i)
         | TBound i \<Rightarrow> Inl (work, result @ ''a'' @ show_nat i)
         | TConstructor name _ \<Rightarrow> Inl (work, result @ name)
         | TSymbol v \<Rightarrow> Inl (work, result @ [CHR 0x22] @ v @ [CHR 0x22])
         | TRowNil \<Rightarrow> Inl (work, result @ ''{}'')
         | TRowCons label field tail \<Rightarrow>
             (case type_get ar tail of
                None \<Rightarrow> Inr Panic
              | Some tail_node \<Rightarrow>
                 Inl (DVisit field 0 # (if tail_node \<noteq> TRowNil then [DText '', ..''] else [])
                        @ DCharacter (CHR ''}'') # work,
                      result @ ''{'' @ label @ '' :: ''))
         | TFunction argument function_result \<Rightarrow>
             Inl (display_function argument function_result precedence work result)
         | TApply function argument \<Rightarrow> display_apply ar function argument precedence work result))"

fun display_step :: "type_arena \<Rightarrow> display_state \<Rightarrow> display_state + (string, unit) res" where
  "display_step ar ([], result) = Inr (Ok result)"
| "display_step ar (DText text # work, result) = Inl (work, result @ text)"
| "display_step ar (DCharacter c # work, result) = Inl (work, result @ [c])"
| "display_step ar (DVisit ty precedence # work, result) = display_visit ar ty precedence work result"

definition display :: "type_arena \<Rightarrow> nat \<Rightarrow> (string, unit) res option" where
  "display ar ty = run (display_step ar) ([DVisit ty 0], [])"

section \<open>Schemes and evidence\<close>

record scheme_binder =
  binder_name :: string
  binder_kind :: nat
  binder_visible :: bool

record class_constraint =
  constraint_class :: string
  constraint_argument :: nat

record scheme =
  scheme_binders :: "scheme_binder list"
  scheme_constraints :: "class_constraint list"
  scheme_body :: nat

section \<open>The unifier\<close>

record meta_var =
  mv_kind :: nat
  mv_binding :: "nat option"

record unifier =
  metas :: "meta_var list"
  zonked :: "nat \<rightharpoonup> nat"

definition unifier_default :: unifier where
  "unifier_default = \<lparr>metas = [], zonked = Map.empty\<rparr>"

definition fresh :: "unifier \<Rightarrow> type_arena \<Rightarrow> nat \<Rightarrow> (unifier \<times> type_arena) \<times> (nat, unit) res" where
  "fresh u ar kind =
    (let u0 = u\<lparr>zonked := Map.empty\<rparr> in
     case u32_try_from (length (metas u0)) of
       None \<Rightarrow> ((u0, ar), Panic)
     | Some meta \<Rightarrow>
        (let u1 = u0\<lparr>metas := metas u0 @ [\<lparr>mv_kind = kind, mv_binding = None\<rparr>]\<rparr> in
         case type_intern ar (TMeta meta) of (ar', r) \<Rightarrow> ((u1, ar'), r)))"

definition meta_kind :: "unifier \<Rightarrow> nat \<Rightarrow> nat option" where
  "meta_kind u meta = map_option mv_kind (vget (metas u) meta)"

definition set_binding :: "nat \<Rightarrow> nat \<Rightarrow> unifier \<Rightarrow> unifier" where
  "set_binding meta ty u =
    u\<lparr>metas := (metas u)[meta := ((metas u) ! meta)\<lparr>mv_binding := Some ty\<rparr>]\<rparr>"

text \<open>The first loop of \<open>prune\<close> follows the bindings, the second compresses the path.\<close>

fun prune_step ::
  "type_arena \<Rightarrow> unifier \<Rightarrow> nat \<times> nat list \<Rightarrow> nat \<times> nat list + (nat \<times> nat list, type_error) res" where
  "prune_step ar u (current, path) =
    (case type_get ar current of
       None \<Rightarrow> Inr Panic
     | Some (TMeta meta) \<Rightarrow>
         (case vget (metas u) meta of
            None \<Rightarrow> Inr Panic
          | Some mv \<Rightarrow>
             (case mv_binding mv of
                None \<Rightarrow> Inr (Ok (current, path))
              | Some bound \<Rightarrow> Inl (bound, path @ [meta])))
     | Some _ \<Rightarrow> Inr (Ok (current, path)))"

definition prune :: "unifier \<Rightarrow> type_arena \<Rightarrow> nat \<Rightarrow> (nat \<times> unifier, type_error) res option" where
  "prune u ar ty =
    map_option (\<lambda>r. res_bind r (\<lambda>(current, path).
        Ok (current, fold (\<lambda>meta. set_binding meta current) path u)))
      (run (prune_step ar u) (ty, []))"

type_synonym occurs_state = "nat list \<times> nat set \<times> unifier"

fun occurs_step ::
  "type_arena \<Rightarrow> nat \<Rightarrow> occurs_state \<Rightarrow> (occurs_state + (bool \<times> unifier, type_error) res) option" where
  "occurs_step ar needle ([], visited, u) = Some (Inr (Ok (False, u)))"
| "occurs_step ar needle (ty0 # work, visited, u) =
    call (prune u ar ty0) (\<lambda>(ty, u).
      if ty \<in> visited then Some (Inl (work, visited, u))
      else
        (let visited = insert ty visited in
         case type_get ar ty of
           None \<Rightarrow> Some (Inr Panic)
         | Some node \<Rightarrow>
            (case node of
               TMeta meta \<Rightarrow>
                 if meta = needle then Some (Inr (Ok (True, u))) else Some (Inl (work, visited, u))
             | TApply left right \<Rightarrow> Some (Inl (left # right # work, visited, u))
             | TFunction left right \<Rightarrow> Some (Inl (left # right # work, visited, u))
             | TRowCons _ field tail \<Rightarrow> Some (Inl (field # tail # work, visited, u))
             | _ \<Rightarrow> Some (Inl (work, visited, u)))))"

definition occurs ::
  "unifier \<Rightarrow> type_arena \<Rightarrow> nat \<Rightarrow> nat \<Rightarrow> (bool \<times> unifier, type_error) res option" where
  "occurs u ar needle ty = run_calls (occurs_step ar needle) ([ty], {}, u)"

text \<open>
  \<open>bind\<close> and \<open>unify\<close> leave the unifier changed also when they fail, so their result
  pairs it with the outcome.
\<close>

type_synonym outcome = "unifier \<times> (unit, type_error) res"

definition bind_meta ::
  "unifier \<Rightarrow> type_arena \<Rightarrow> kind_arena \<Rightarrow> nat \<Rightarrow> nat \<Rightarrow> outcome option" where
  "bind_meta u0 ar kinds meta ty =
    (case occurs u0 ar meta ty of
       None \<Rightarrow> None
     | Some (Ok (True, u)) \<Rightarrow> Some (u, Err (Occurs meta ty))
     | Some (Ok (False, u)) \<Rightarrow>
        (case meta_kind u meta of
           None \<Rightarrow> Some (u, Panic)
         | Some expected \<Rightarrow>
            (case kind_of ar kinds ty (meta_kind u) of
               None \<Rightarrow> None
             | Some (Ok actual) \<Rightarrow>
                (if expected \<noteq> actual then Some (u, Err (KindMismatch expected actual))
                 else Some (set_binding meta ty (u\<lparr>zonked := Map.empty\<rparr>), Ok ()))
             | Some (Err e) \<Rightarrow> Some (u, Err e)
             | Some Panic \<Rightarrow> Some (u, Panic)))
     | Some (Err e) \<Rightarrow> Some (u0, Err e)
     | Some Panic \<Rightarrow> Some (u0, Panic))"

type_synonym unify_state = "(nat \<times> nat) list \<times> unifier"

text \<open>After a \<open>bind\<close> the loop goes on, or leaves with the error.\<close>

definition after_bind ::
  "(nat \<times> nat) list \<Rightarrow> outcome option \<Rightarrow> (unify_state + outcome) option" where
  "after_bind work r = (case r of
     None \<Rightarrow> None
   | Some (u, Ok _) \<Rightarrow> Some (Inl (work, u))
   | Some (u, e) \<Rightarrow> Some (Inr (u, e)))"

definition unify_nodes ::
  "type_arena \<Rightarrow> kind_arena \<Rightarrow> unifier \<Rightarrow> nat \<Rightarrow> nat \<Rightarrow> (nat \<times> nat) list \<Rightarrow>
   type_node \<Rightarrow> type_node \<Rightarrow> (unify_state + outcome) option" where
  "unify_nodes ar kinds u left right work left_node right_node =
    (case (left_node, right_node) of
       (TMeta meta, _) \<Rightarrow> after_bind work (bind_meta u ar kinds meta right)
     | (_, TMeta meta) \<Rightarrow> after_bind work (bind_meta u ar kinds meta left)
     | (TFunction a1 b1, TFunction a2 b2) \<Rightarrow> Some (Inl ((a1, a2) # (b1, b2) # work, u))
     | (TApply a1 b1, TApply a2 b2) \<Rightarrow> Some (Inl ((a1, a2) # (b1, b2) # work, u))
     | (TRowCons l1 f1 t1, TRowCons l2 f2 t2) \<Rightarrow>
         (if l1 = l2 then Some (Inl ((f1, f2) # (t1, t2) # work, u))
          else Some (Inr (u, Err (Mismatch left right))))
     | (l, r) \<Rightarrow> (if l = r then Some (Inl (work, u)) else Some (Inr (u, Err (Mismatch left right)))))"

fun unify_step ::
  "type_arena \<Rightarrow> kind_arena \<Rightarrow> unify_state \<Rightarrow> (unify_state + outcome) option" where
  "unify_step ar kinds ([], u) = Some (Inr (u, Ok ()))"
| "unify_step ar kinds ((left0, right0) # work, u0) =
    (case prune u0 ar left0 of
       None \<Rightarrow> None
     | Some (Ok (left, u1)) \<Rightarrow>
        (case prune u1 ar right0 of
           None \<Rightarrow> None
         | Some (Ok (right, u2)) \<Rightarrow>
            (if left = right then Some (Inl (work, u2))
             else
               (case (type_get ar left, type_get ar right) of
                  (Some left_node, Some right_node) \<Rightarrow>
                    unify_nodes ar kinds u2 left right work left_node right_node
                | _ \<Rightarrow> Some (Inr (u2, Panic))))
         | Some (Err e) \<Rightarrow> Some (Inr (u1, Err e))
         | Some Panic \<Rightarrow> Some (Inr (u1, Panic)))
     | Some (Err e) \<Rightarrow> Some (Inr (u0, Err e))
     | Some Panic \<Rightarrow> Some (Inr (u0, Panic)))"

definition unify ::
  "unifier \<Rightarrow> type_arena \<Rightarrow> kind_arena \<Rightarrow> nat \<Rightarrow> nat \<Rightarrow> outcome option" where
  "unify u ar kinds left right = run_calls (unify_step ar kinds) ([(left, right)], u)"

section \<open>Zonking\<close>

datatype zonk_work = ZVisit nat | ZApply nat | ZFunction nat | ZRow nat string

record zonk_state =
  z_work :: "zonk_work list"
  z_results :: "nat list"
  z_visiting :: "nat set"
  z_arena :: type_arena
  z_unifier :: unifier

type_synonym zonk_outcome = "(unifier \<times> type_arena) \<times> (nat, type_error) res"

definition zonk_leave :: "zonk_state \<Rightarrow> (nat, type_error) res \<Rightarrow> (zonk_state + zonk_outcome) option" where
  "zonk_leave s r = Some (Inr ((z_unifier s, z_arena s), r))"

definition zonk_visit :: "nat \<Rightarrow> zonk_state \<Rightarrow> (zonk_state + zonk_outcome) option" where
  "zonk_visit ty0 s0 =
    (case prune (z_unifier s0) (z_arena s0) ty0 of
       None \<Rightarrow> None
     | Some (Err e) \<Rightarrow> zonk_leave s0 (Err e)
     | Some Panic \<Rightarrow> zonk_leave s0 Panic
     | Some (Ok (ty, u)) \<Rightarrow>
        (let s = s0\<lparr>z_unifier := u\<rparr> in
         case zonked u ty of
           Some z \<Rightarrow> Some (Inl (s\<lparr>z_results := z # z_results s\<rparr>))
         | None \<Rightarrow>
            (if ty \<in> z_visiting s then Some (Inl (s\<lparr>z_results := ty # z_results s\<rparr>))
             else
               (let t = s\<lparr>z_visiting := insert ty (z_visiting s)\<rparr> in
                case type_get (z_arena t) ty of
                  None \<Rightarrow> zonk_leave t Panic
                | Some node \<Rightarrow>
                   (case node of
                      TMeta meta \<Rightarrow> zonk_leave t (Err (Ambiguous meta))
                    | TBound _ \<Rightarrow> zonk_leave t (Err (Internal ''bound type escaped scheme instantiation''))
                    | TApply left right \<Rightarrow>
                        Some (Inl (t\<lparr>z_work := ZVisit left # ZVisit right # ZApply ty # z_work t\<rparr>))
                    | TFunction left right \<Rightarrow>
                        Some (Inl (t\<lparr>z_work := ZVisit left # ZVisit right # ZFunction ty # z_work t\<rparr>))
                    | TRowCons label field tail \<Rightarrow>
                        Some (Inl (t\<lparr>z_work := ZVisit field # ZVisit tail # ZRow ty label # z_work t\<rparr>))
                    | _ \<Rightarrow>
                        Some (Inl (t\<lparr>z_visiting := z_visiting t - {ty},
                                     z_unifier := u\<lparr>zonked := (zonked u)(ty \<mapsto> ty)\<rparr>,
                                     z_results := ty # z_results t\<rparr>)))))))"

text \<open>A node is rebuilt from its two children, the later one on top of the results.\<close>

definition zonk_rebuild ::
  "nat \<Rightarrow> (nat \<Rightarrow> nat \<Rightarrow> type_node) \<Rightarrow> zonk_state \<Rightarrow> (zonk_state + zonk_outcome) option" where
  "zonk_rebuild original build s =
    (case z_results s of
       second # first # rest \<Rightarrow>
        (let t = s\<lparr>z_results := rest, z_visiting := z_visiting s - {original}\<rparr> in
         case type_intern (z_arena t) (build first second) of
           (ar, Ok z) \<Rightarrow>
             Some (Inl (t\<lparr>z_arena := ar,
               z_unifier := (z_unifier t)\<lparr>zonked := (zonked (z_unifier t))(original \<mapsto> z)\<rparr>,
               z_results := z # rest\<rparr>))
         | (ar, _) \<Rightarrow> zonk_leave (t\<lparr>z_arena := ar\<rparr>) Panic)
     | _ \<Rightarrow> zonk_leave s Panic)"

definition zonk_step :: "zonk_state \<Rightarrow> (zonk_state + zonk_outcome) option" where
  "zonk_step s0 =
    (case z_work s0 of
       [] \<Rightarrow> zonk_leave s0 (case z_results s0 of z # _ \<Rightarrow> Ok z | [] \<Rightarrow> Panic)
     | item # work \<Rightarrow>
        (let s = s0\<lparr>z_work := work\<rparr> in
         case item of
           ZVisit ty \<Rightarrow> zonk_visit ty s
         | ZApply original \<Rightarrow> zonk_rebuild original TApply s
         | ZFunction original \<Rightarrow> zonk_rebuild original TFunction s
         | ZRow original label \<Rightarrow> zonk_rebuild original (TRowCons label) s))"

definition zonk :: "unifier \<Rightarrow> type_arena \<Rightarrow> nat \<Rightarrow> zonk_outcome option" where
  "zonk u ar ty = run_calls zonk_step
    \<lparr>z_work = [ZVisit ty], z_results = [], z_visiting = {}, z_arena = ar, z_unifier = u\<rparr>"

end
