(* ===== verification/Hell_Trees.thy ===== *)
theory Hell_Trees
  imports Hell_Types
begin

text \<open>
  What an arena identifier stands for.  An arena is hash-consed: a node that is shared has
  one identifier only, and identifiers never change their node.  That contract is the
  locale \<open>hash_arena\<close>, interpreted for the kind arena and the type arena.  In a
  well-formed type arena the children of a node come before it, so every identifier reads
  as a finite tree (\<open>tree\<close>), which the later theories reason about.
\<close>

section \<open>The contract of an arena\<close>

locale hash_arena =
  fixes nodes :: "'a \<Rightarrow> 'n list"
    and intern :: "'a \<Rightarrow> 'n \<Rightarrow> 'a \<times> (nat, unit) res"
    and ok :: "'a \<Rightarrow> bool"
    and shared :: "'n \<Rightarrow> bool"
  assumes intern_Ok: "ok ar \<Longrightarrow> intern ar n = (ar', Ok i) \<Longrightarrow>
      ok ar' \<and> vget (nodes ar') i = Some n \<and> (\<exists>new. nodes ar' = nodes ar @ new \<and> set new \<subseteq> {n})"
    and intern_found: "ok ar \<Longrightarrow> vget (nodes ar) i = Some n \<Longrightarrow> shared n \<Longrightarrow> intern ar n = (ar, Ok i)"
    and intern_full: "snd (intern ar n) = Panic \<Longrightarrow> u32_max < length (nodes ar) \<and> fst (intern ar n) = ar"
    and intern_no_error: "snd (intern ar n) \<noteq> Err e"
begin

lemma intern_get: "ok ar \<Longrightarrow> intern ar n = (ar', Ok i) \<Longrightarrow> vget (nodes ar') i = Some n"
  using intern_Ok by blast

lemma intern_old:
  "ok ar \<Longrightarrow> intern ar n = (ar', Ok i) \<Longrightarrow> vget (nodes ar) j = Some m \<Longrightarrow> vget (nodes ar') j = Some m"
  using intern_Ok vget_append_old by metis

text \<open>Interning twice gives the same identifier and changes nothing.\<close>

lemma intern_again:
  "ok ar \<Longrightarrow> shared n \<Longrightarrow> intern ar n = (ar', Ok i) \<Longrightarrow> intern ar' n = (ar', Ok i)"
  using intern_Ok intern_found by blast

lemma shared_once:
  "ok ar \<Longrightarrow> shared n \<Longrightarrow> vget (nodes ar) i = Some n \<Longrightarrow> vget (nodes ar) j = Some n \<Longrightarrow> i = j"
  using intern_found [of ar i n] intern_found [of ar j n] by simp

text \<open>Two nodes are equal exactly when interning gives them the same identifier.\<close>

lemma intern_injective:
  assumes "ok ar" "shared m" "intern ar n = (ar1, Ok i)" "intern ar1 m = (ar2, Ok j)"
  shows "i = j \<longleftrightarrow> n = m"
proof
  from assms have ok1: "ok ar1" and i: "vget (nodes ar1) i = Some n" using intern_Ok by blast+
  show "n = m" if "i = j"
    using intern_old [OF ok1 assms(4) i] intern_get [OF ok1 assms(4)] that by simp
  show "i = j" if "n = m"
    using intern_found [OF ok1 i] assms(2,4) that by simp
qed

end

section \<open>The kind arena\<close>

definition kind_arena_ok :: "kind_arena \<Rightarrow> bool" where
  "kind_arena_ok ar \<longleftrightarrow> (\<forall>n i. k_interned ar n = Some i \<longleftrightarrow> vget (k_nodes ar) i = Some n)"

lemma vget_snoc: "vget (xs @ [y]) i = (if i = length xs then Some y else vget xs i)"
  by (auto simp: vget_def nth_append)

interpretation kinds: hash_arena k_nodes kind_intern kind_arena_ok "\<lambda>_. True"
proof
  fix ar :: kind_arena and n ar' i
  assume ok: "kind_arena_ok ar" and eq: "kind_intern ar n = (ar', Ok i)"
  show "kind_arena_ok ar' \<and> vget (k_nodes ar') i = Some n \<and>
      (\<exists>new. k_nodes ar' = k_nodes ar @ new \<and> set new \<subseteq> {n})"
  proof (cases "k_interned ar n")
    case None
    then have new: "\<And>j. vget (k_nodes ar) j \<noteq> Some n" using ok by (metis kind_arena_ok_def option.distinct(1))
    with None eq ok show ?thesis
      by (auto simp: kind_intern_def kind_arena_ok_def vget_snoc split: option.splits if_splits)
  next
    case (Some j)
    with eq have "ar' = ar \<and> i = j" by (simp add: kind_intern_def)
    with Some ok show ?thesis by (simp add: kind_arena_ok_def)
  qed
next
  fix ar i n assume "kind_arena_ok ar" "vget (k_nodes ar) i = Some n"
  then have "k_interned ar n = Some i" by (simp add: kind_arena_ok_def)
  then show "kind_intern ar n = (ar, Ok i)" by (simp add: kind_intern_def)
qed (auto simp: kind_intern_def split: option.splits)

text \<open>Every kind refers to kinds of the arena, which begins with the five base kinds.\<close>

definition kind_node_ok :: "nat \<Rightarrow> kind_node \<Rightarrow> bool" where
  "kind_node_ok n k = (case k of KArrow a b \<Rightarrow> a < n \<and> b < n | _ \<Rightarrow> True)"

definition kinds_ok :: "kind_arena \<Rightarrow> bool" where
  "kinds_ok ar \<longleftrightarrow> kind_arena_ok ar \<and> (\<forall>k \<in> set (k_nodes ar). kind_node_ok (length (k_nodes ar)) k) \<and>
     take 5 (k_nodes ar) = [KType, KConstraint, KSymbol, KRow, KStreamType]"

lemma kind_node_ok_mono: "kind_node_ok n k \<Longrightarrow> n \<le> m \<Longrightarrow> kind_node_ok m k"
  by (auto simp: kind_node_ok_def split: kind_node.splits)

lemma kinds_ok_base:
  assumes "kinds_ok ar"
  shows "5 \<le> length (k_nodes ar)"
proof -
  have "length (take 5 (k_nodes ar)) = 5" using assms by (simp add: kinds_ok_def)
  then show ?thesis by simp
qed

lemma kinds_ok_intern:
  assumes "kinds_ok ar" "kind_intern ar k = (ar', Ok i)" "kind_node_ok (length (k_nodes ar)) k"
  shows "kinds_ok ar' \<and> vget (k_nodes ar') i = Some k \<and> i < length (k_nodes ar') \<and>
    length (k_nodes ar) \<le> length (k_nodes ar')"
proof -
  from kinds.intern_Ok [of ar k ar' i] assms obtain new where
    *: "kind_arena_ok ar'" "vget (k_nodes ar') i = Some k" "k_nodes ar' = k_nodes ar @ new" "set new \<subseteq> {k}"
    by (auto simp: kinds_ok_def)
  from * assms kinds_ok_base [OF assms(1)] show ?thesis
    by (auto simp: kinds_ok_def vget_Some intro: kind_node_ok_mono)
qed

lemma kind_intern_ok: "kind_arena_ok ar \<Longrightarrow> kind_arena_ok (fst (kind_intern ar k))"
  using kinds.intern_Ok [of ar k] kinds.intern_full [of ar k] kinds.intern_no_error [of ar k]
  by (cases "kind_intern ar k"; cases "snd (kind_intern ar k)") auto

lemma kind_default_nodes: "k_nodes kind_default = [KType, KConstraint, KSymbol, KRow, KStreamType]"
  by (simp add: kind_default_def kind_intern_def u32_try_from_def u32_max_def)

lemma kind_default_ok: "kinds_ok kind_default"
proof -
  have "kind_arena_ok kind_default"
    unfolding kind_default_def fold.simps comp_def id_def
    by (intro kind_intern_ok) (simp add: kind_arena_ok_def)
  then show ?thesis by (simp add: kinds_ok_def kind_default_nodes kind_node_ok_def)
qed

section \<open>The type arena\<close>

definition type_arena_ok :: "type_arena \<Rightarrow> bool" where
  "type_arena_ok ar \<longleftrightarrow>
     (\<forall>n i. t_interned ar n = Some i \<longleftrightarrow> \<not> is_meta n \<and> vget (t_nodes ar) i = Some n)"

interpretation types: hash_arena t_nodes type_intern type_arena_ok "\<lambda>n. \<not> is_meta n"
proof
  fix ar :: type_arena and n ar' i
  assume ok: "type_arena_ok ar" and eq: "type_intern ar n = (ar', Ok i)"
  show "type_arena_ok ar' \<and> vget (t_nodes ar') i = Some n \<and>
      (\<exists>new. t_nodes ar' = t_nodes ar @ new \<and> set new \<subseteq> {n})"
  proof (cases "is_meta n \<or> t_interned ar n = None")
    case True
    then have new: "is_meta n \<or> (\<forall>j. vget (t_nodes ar) j \<noteq> Some n)"
      using ok by (metis type_arena_ok_def option.distinct(1))
    with True eq ok show ?thesis
      by (auto simp: type_intern_def type_arena_ok_def vget_snoc split: option.splits if_splits)
  next
    case False
    then obtain j where j: "t_interned ar n = Some j" "\<not> is_meta n" by auto
    with eq have "ar' = ar \<and> i = j" by (simp add: type_intern_def)
    with j ok show ?thesis by (simp add: type_arena_ok_def)
  qed
next
  fix ar i n assume "type_arena_ok ar" "vget (t_nodes ar) i = Some n" and n: "\<not> is_meta n"
  then have "t_interned ar n = Some i" by (simp add: type_arena_ok_def)
  with n show "type_intern ar n = (ar, Ok i)" by (simp add: type_intern_def)
qed (auto simp: type_intern_def split: option.splits if_splits)

fun children :: "type_node \<Rightarrow> nat list" where
  "children (TApply l r) = [l, r]"
| "children (TFunction l r) = [l, r]"
| "children (TRowCons _ f t) = [f, t]"
| "children _ = []"

text \<open>Children precede their parent; \<open>nodes_below\<close> speaks of the vector of nodes only.\<close>

definition nodes_below :: "type_node list \<Rightarrow> bool" where
  "nodes_below N \<longleftrightarrow> (\<forall>i < length N. \<forall>c \<in> set (children (N ! i)). c < i)"

definition types_ok :: "type_arena \<Rightarrow> bool" where
  "types_ok ar \<longleftrightarrow> type_arena_ok ar \<and> nodes_below (t_nodes ar)"

lemma nodes_below_append:
  assumes "nodes_below N" "set new \<subseteq> {n}" "\<forall>c \<in> set (children n). c < length N"
  shows "nodes_below (N @ new)"
  unfolding nodes_below_def
proof (intro allI impI ballI)
  fix i c assume i: "i < length (N @ new)" and c: "c \<in> set (children ((N @ new) ! i))"
  show "c < i"
  proof (cases "i < length N")
    case True
    then show ?thesis using assms(1) c by (simp add: nodes_below_def nth_append)
  next
    case False
    then have "(N @ new) ! i \<in> set new" using i by (simp add: nth_append)
    then have "(N @ new) ! i = n" using assms(2) by auto
    then have "c < length N" using assms(3) c by simp
    then show ?thesis using False by simp
  qed
qed

lemma types_ok_default: "types_ok type_arena_default"
  by (auto simp: types_ok_def type_arena_ok_def nodes_below_def type_arena_default_def)

text \<open>What every allocation of a node with valid children gives.\<close>

lemma types_ok_intern:
  assumes "types_ok ar" "type_intern ar n = (ar', Ok i)" "\<forall>c \<in> set (children n). c < length (t_nodes ar)"
  shows "types_ok ar'" "vget (t_nodes ar') i = Some n" "\<exists>new. t_nodes ar' = t_nodes ar @ new \<and> set new \<subseteq> {n}"
proof -
  from types.intern_Ok [of ar n ar' i] assms obtain new where
    *: "type_arena_ok ar'" "vget (t_nodes ar') i = Some n" "t_nodes ar' = t_nodes ar @ new" "set new \<subseteq> {n}"
    by (auto simp: types_ok_def)
  show "types_ok ar'"
    using * assms nodes_below_append [of "t_nodes ar" new n] by (auto simp: types_ok_def)
  show "vget (t_nodes ar') i = Some n" by (rule *)
  show "\<exists>new. t_nodes ar' = t_nodes ar @ new \<and> set new \<subseteq> {n}" using * by blast
qed

section \<open>Trees\<close>

datatype ty = Meta nat | Bound nat | Con string nat | App ty ty | Fun ty ty
  | Sym string | RNil | RCons string ty ty

text \<open>
  The tree under an identifier.  The guards never fail in a well-formed arena; an identifier
  outside the arena reads as an arbitrary leaf.
\<close>

function (sequential) tree :: "type_node list \<Rightarrow> nat \<Rightarrow> ty" where
  "tree N i =
    (if i < length N then
       (case N ! i of
          TMeta m \<Rightarrow> Meta m
        | TBound n \<Rightarrow> Bound n
        | TConstructor name k \<Rightarrow> Con name k
        | TApply l r \<Rightarrow> if l < i \<and> r < i then App (tree N l) (tree N r) else RNil
        | TFunction l r \<Rightarrow> if l < i \<and> r < i then Fun (tree N l) (tree N r) else RNil
        | TSymbol s \<Rightarrow> Sym s
        | TRowNil \<Rightarrow> RNil
        | TRowCons lab f t \<Rightarrow> if f < i \<and> t < i then RCons lab (tree N f) (tree N t) else RNil)
     else RNil)"
  by pat_completeness auto
termination by (relation "measure snd") auto

declare tree.simps [simp del]

text \<open>The tree of a node, its children's trees given.\<close>

fun node_tree :: "(nat \<Rightarrow> ty) \<Rightarrow> type_node \<Rightarrow> ty" where
  "node_tree T (TMeta m) = Meta m"
| "node_tree T (TBound n) = Bound n"
| "node_tree T (TConstructor name k) = Con name k"
| "node_tree T (TApply l r) = App (T l) (T r)"
| "node_tree T (TFunction l r) = Fun (T l) (T r)"
| "node_tree T (TSymbol s) = Sym s"
| "node_tree T TRowNil = RNil"
| "node_tree T (TRowCons lab f t) = RCons lab (T f) (T t)"

lemma tree_local:
  "vget N i = Some n \<Longrightarrow> \<forall>c \<in> set (children n). c < i \<Longrightarrow> tree N i = node_tree (tree N) n"
  unfolding vget_Some tree.simps [of N i] by (cases n) simp_all

lemma node_tree_cong: "\<forall>c \<in> set (children n). T c = T' c \<Longrightarrow> node_tree T n = node_tree T' n"
  by (cases n) auto

lemma node_tree_inj:
  assumes "node_tree T n = node_tree T m" "\<not> is_meta n"
    and "\<And>c d. c \<in> set (children n) \<Longrightarrow> d \<in> set (children m) \<Longrightarrow> T c = T d \<Longrightarrow> c = d"
  shows "n = m"
  using assms(1,2) by (cases n; cases m; simp) (auto intro: assms(3))

lemma children_below:
  "nodes_below N \<Longrightarrow> vget N i = Some n \<Longrightarrow> c \<in> set (children n) \<Longrightarrow> c < i"
  by (auto simp: nodes_below_def vget_Some)

lemma tree_node: "nodes_below N \<Longrightarrow> vget N i = Some n \<Longrightarrow> tree N i = node_tree (tree N) n"
  using tree_local children_below by blast

lemma tree_append:
  assumes "nodes_below N"
  shows "i < length N \<Longrightarrow> tree (N @ X) i = tree N i"
proof (induction i rule: less_induct)
  case (less i)
  have i: "vget N i = Some (N ! i)" using less.prems by simp
  have c: "\<forall>c \<in> set (children (N ! i)). c < i" using children_below [OF assms i] by blast
  have "tree (N @ X) i = node_tree (tree (N @ X)) (N ! i)"
    using tree_local [OF vget_append_old [OF i] c] .
  also have "\<dots> = node_tree (tree N) (N ! i)"
    using c less by (intro node_tree_cong) simp
  also have "\<dots> = tree N i" using tree_local [OF i c] by simp
  finally show ?case .
qed

text \<open>In a well-formed arena the identifier of a closed tree is unique.\<close>

fun metas_of :: "ty \<Rightarrow> nat set" where
  "metas_of (Meta m) = {m}"
| "metas_of (App a b) = metas_of a \<union> metas_of b"
| "metas_of (Fun a b) = metas_of a \<union> metas_of b"
| "metas_of (RCons _ a b) = metas_of a \<union> metas_of b"
| "metas_of _ = {}"

lemma metas_of_child: "c \<in> set (children n) \<Longrightarrow> metas_of (T c) \<subseteq> metas_of (node_tree T n)"
  by (cases n) auto

lemma tree_injective:
  assumes "types_ok ar"
  shows "i < length (t_nodes ar) \<Longrightarrow> j < length (t_nodes ar) \<Longrightarrow>
    tree (t_nodes ar) i = tree (t_nodes ar) j \<Longrightarrow> metas_of (tree (t_nodes ar) i) = {} \<Longrightarrow> i = j"
proof (induction i arbitrary: j rule: less_induct)
  case (less i)
  let ?N = "t_nodes ar"
  have nb: "nodes_below ?N" and ok: "type_arena_ok ar" using assms by (auto simp: types_ok_def)
  have i: "vget ?N i = Some (?N ! i)" and j: "vget ?N j = Some (?N ! j)" using less.prems by auto
  note ti = tree_node [OF nb i] and tj = tree_node [OF nb j]
  have "?N ! i = ?N ! j"
  proof (rule node_tree_inj)
    show "node_tree (tree ?N) (?N ! i) = node_tree (tree ?N) (?N ! j)" using less.prems(3) ti tj by simp
    show "\<not> is_meta (?N ! i)" using less.prems(4) ti by (cases "?N ! i") auto
    fix c d assume c: "c \<in> set (children (?N ! i))" and d: "d \<in> set (children (?N ! j))"
      and eq: "tree ?N c = tree ?N d"
    have "metas_of (tree ?N c) = {}" using metas_of_child [OF c, of "tree ?N"] less.prems(4) ti by simp
    then show "c = d"
      using less.IH [of c d] eq children_below [OF nb i c] children_below [OF nb j d] less.prems(1,2) by simp
  qed
  moreover have "\<not> is_meta (?N ! i)" using less.prems(4) ti by (cases "?N ! i") auto
  ultimately show ?case using types.shared_once [OF ok _ i, of j] j by simp
qed

end
