(* ===== verification/Hell_Kinding.thy ===== *)
theory Hell_Kinding
  imports Hell_Trees
begin

text \<open>
  The work-list loops of \<open>TypeArena\<close>.  \<open>kind_of\<close> is compared with a kinding judgement on
  trees (\<open>has_kind\<close>), \<open>display\<close> with a recursive printer (\<open>show_ty\<close>), and the type
  constructors of the arena with the trees they are meant to build.
\<close>

section \<open>The kinding judgement\<close>

inductive has_kind :: "kind_arena \<Rightarrow> (nat \<Rightarrow> nat option) \<Rightarrow> ty \<Rightarrow> nat \<Rightarrow> bool"
  for ks :: kind_arena and mk :: "nat \<Rightarrow> nat option"
where
  has_kind_Meta: "mk m = Some k \<Longrightarrow> has_kind ks mk (Meta m) k"
| has_kind_Con: "has_kind ks mk (Con name k) k"
| has_kind_Sym: "has_kind ks mk (Sym s) SYMBOL_KIND"
| has_kind_RNil: "has_kind ks mk RNil ROW_KIND"
| has_kind_Fun: "has_kind ks mk a TYPE_KIND \<Longrightarrow> has_kind ks mk b TYPE_KIND \<Longrightarrow>
    has_kind ks mk (Fun a b) TYPE_KIND"
| has_kind_RCons: "has_kind ks mk f TYPE_KIND \<Longrightarrow> has_kind ks mk t ROW_KIND \<Longrightarrow>
    has_kind ks mk (RCons l f t) ROW_KIND"
| has_kind_App: "has_kind ks mk f k \<Longrightarrow> kind_get ks k = Some (KArrow a r) \<Longrightarrow> has_kind ks mk x a \<Longrightarrow>
    has_kind ks mk (App f x) r"

inductive_simps has_kind_simps:
  "has_kind ks mk (Meta m) k" "has_kind ks mk (Bound n) k" "has_kind ks mk (Con s c) k"
  "has_kind ks mk (Sym s) k" "has_kind ks mk RNil k" "has_kind ks mk (Fun a b) k"
  "has_kind ks mk (RCons l f t) k" "has_kind ks mk (App f x) k"

declare has_kind_simps [simp]

text \<open>What \<open>kind_of\<close> computes, with the errors in the order of its visits.\<close>

fun kinding :: "kind_arena \<Rightarrow> (nat \<Rightarrow> nat option) \<Rightarrow> ty \<Rightarrow> (nat, type_error) res" where
  "kinding ks mk (Meta m) = (case mk m of Some k \<Rightarrow> Ok k | None \<Rightarrow> Panic)"
| "kinding ks mk (Bound _) = Err (Internal ''unsubstituted bound type'')"
| "kinding ks mk (Con _ k) = Ok k"
| "kinding ks mk (Sym _) = Ok SYMBOL_KIND"
| "kinding ks mk RNil = Ok ROW_KIND"
| "kinding ks mk (Fun a b) =
    res_bind (kinding ks mk a) (\<lambda>ka. res_bind (kinding ks mk b) (function_kind ka))"
| "kinding ks mk (RCons _ f t) =
    res_bind (kinding ks mk f) (\<lambda>kf. res_bind (kinding ks mk t) (row_kind kf))"
| "kinding ks mk (App f x) =
    res_bind (kinding ks mk f) (\<lambda>kf. res_bind (kinding ks mk x) (apply_kind ks kf))"

text \<open>Every kind a type mentions is a kind of the arena.\<close>

fun kind_scoped :: "kind_arena \<Rightarrow> (nat \<Rightarrow> nat option) \<Rightarrow> ty \<Rightarrow> bool" where
  "kind_scoped ks mk (Meta m) = (case mk m of Some k \<Rightarrow> k < length (k_nodes ks) | None \<Rightarrow> False)"
| "kind_scoped ks mk (Con _ k) = (k < length (k_nodes ks))"
| "kind_scoped ks mk (Fun a b) = (kind_scoped ks mk a \<and> kind_scoped ks mk b)"
| "kind_scoped ks mk (RCons _ a b) = (kind_scoped ks mk a \<and> kind_scoped ks mk b)"
| "kind_scoped ks mk (App a b) = (kind_scoped ks mk a \<and> kind_scoped ks mk b)"
| "kind_scoped ks mk _ = True"

lemma kinds_ok_arrow:
  "kinds_ok ks \<Longrightarrow> kind_get ks k = Some (KArrow a r) \<Longrightarrow> a < length (k_nodes ks) \<and> r < length (k_nodes ks)"
  by (fastforce simp: kinds_ok_def kind_get_def vget_Some kind_node_ok_def dest: nth_mem)

lemma apply_kind_Ok: "apply_kind ks kf kx = Ok k \<longleftrightarrow> kind_get ks kf = Some (KArrow kx k)"
  by (auto simp: apply_kind_def split: kind_node.splits option.splits)

lemma apply_kind_Panic: "apply_kind ks kf kx = Panic \<longleftrightarrow> length (k_nodes ks) \<le> kf"
  by (auto simp: apply_kind_def kind_get_def vget_def split: kind_node.splits option.splits if_splits)

lemma res_bind_Panic: "res_bind m f = Panic \<longleftrightarrow> m = Panic \<or> (\<exists>a. m = Ok a \<and> f a = Panic)"
  by (cases m) auto

lemma kinding_scoped:
  assumes "kinds_ok ks" "kind_scoped ks mk t"
  shows "kinding ks mk t \<noteq> Panic \<and> (\<forall>k. kinding ks mk t = Ok k \<longrightarrow> k < length (k_nodes ks))"
  using assms(2)
proof (induction t)
  case (App a b)
  then show ?case
    using kinds_ok_arrow [OF assms(1)] by (auto simp: apply_kind_Ok apply_kind_Panic res_bind_Panic)
next
  case (Meta m)
  then show ?case by (auto split: option.splits)
qed (use kinds_ok_base [OF assms(1)] in
     \<open>auto simp: SYMBOL_KIND_def ROW_KIND_def TYPE_KIND_def function_kind_def row_kind_def
        res_bind_Panic split: if_splits\<close>)

lemma kinding_iff: "kinding ks mk t = Ok k \<longleftrightarrow> has_kind ks mk t k"
proof (induction t arbitrary: k)
  case (App a b)
  then show ?case by (auto simp: apply_kind_Ok)
qed (auto simp: function_kind_def row_kind_def split: option.splits if_splits)

lemma has_kind_unique: "has_kind ks mk t k \<Longrightarrow> has_kind ks mk t k' \<Longrightarrow> k = k'"
  unfolding kinding_iff [symmetric] by simp

section \<open>The loop of \<open>kind_of\<close>\<close>

definition after_kind ::
  "type_arena \<Rightarrow> kind_arena \<Rightarrow> (nat \<Rightarrow> nat option) \<Rightarrow> (nat, type_error) res \<Rightarrow> kind_work list \<Rightarrow> nat list \<Rightarrow>
   (nat, type_error) res option" where
  "after_kind ar ks mk r work results =
    (case r of Ok k \<Rightarrow> run (kind_step ar ks mk) (work, k # results) | Err e \<Rightarrow> Some (Err e) | Panic \<Rightarrow> Some Panic)"

lemma run_combine:
  assumes "\<And>work results. kind_step ar ks mk (w # work, results) = combine_kinds f work results"
  shows "run (kind_step ar ks mk) (w # work, second # first # results) =
    after_kind ar ks mk (f first second) work results"
  by (cases "f first second")
     (simp_all add: after_kind_def combine_kinds_def assms run_unfold [of _ "(w # work, _)"])

lemma run_kind_visit:
  assumes nb: "nodes_below (t_nodes ar)"
  shows "i < length (t_nodes ar) \<Longrightarrow>
    run (kind_step ar ks mk) (KVisit i # work, results) =
    after_kind ar ks mk (kinding ks mk (tree (t_nodes ar) i)) work results"
proof (induction i arbitrary: work results rule: less_induct)
  case (less i)
  let ?N = "t_nodes ar"
  have i: "vget ?N i = Some (?N ! i)" using less.prems by simp
  have c: "\<And>c work results. c \<in> set (children (?N ! i)) \<Longrightarrow>
      run (kind_step ar ks mk) (KVisit c # work, results) =
      after_kind ar ks mk (kinding ks mk (tree ?N c)) work results"
    using less children_below [OF nb i] by (meson order_less_trans)
  have step: "run (kind_step ar ks mk) (KVisit i # work, results) =
      (case kind_visit ar mk i work results of Inl s \<Rightarrow> run (kind_step ar ks mk) s | Inr r \<Rightarrow> Some r)"
    by (subst run_unfold) simp
  have two: "\<And>l r w f. children (?N ! i) = [l, r] \<Longrightarrow>
      (\<And>work results. kind_step ar ks mk (w # work, results) = combine_kinds f work results) \<Longrightarrow>
      run (kind_step ar ks mk) (KVisit l # KVisit r # w # work, results) =
      after_kind ar ks mk (res_bind (kinding ks mk (tree ?N l))
        (\<lambda>kl. res_bind (kinding ks mk (tree ?N r)) (f kl))) work results"
    subgoal for l r w f
      by (cases "kinding ks mk (tree ?N l)"; cases "kinding ks mk (tree ?N r)")
         (simp_all add: c run_combine after_kind_def)
    done
  show ?case unfolding step tree_node [OF nb i]
    by (cases "?N ! i")
       (simp_all add: kind_visit_def type_get_def i two after_kind_def split: option.split)
qed

lemma kind_of_eq:
  assumes "nodes_below (t_nodes ar)" "i < length (t_nodes ar)"
  shows "kind_of ar ks i mk = Some (kinding ks mk (tree (t_nodes ar) i))"
  unfolding kind_of_def run_kind_visit [OF assms] after_kind_def
  by (cases "kinding ks mk (tree (t_nodes ar) i)") (simp_all add: run_Inr)

text \<open>
  C33: \<open>TypeArena::kind_of\<close> decides the kinding judgement.  On a well-formed arena whose type
  mentions kinds of the kind arena only, the loop returns without panicking; it returns
  \<open>Ok k\<close> exactly when the type has kind \<open>k\<close>, and that kind is one of the arena.
\<close>

theorem kind_of_decides:
  assumes "types_ok ar" "kinds_ok ks" "i < length (t_nodes ar)"
    and "kind_scoped ks mk (tree (t_nodes ar) i)"
  shows "\<exists>r. kind_of ar ks i mk = Some r \<and> r \<noteq> Panic \<and>
    (\<forall>k. r = Ok k \<longleftrightarrow> has_kind ks mk (tree (t_nodes ar) i) k) \<and>
    (\<forall>k. r = Ok k \<longrightarrow> k < length (k_nodes ks))"
  using assms kind_of_eq [of ar i ks mk] kinding_scoped [of ks mk "tree (t_nodes ar) i"]
  by (simp add: types_ok_def kinding_iff)

definition kind_sample :: type_arena where
  "kind_sample = fst (type_function (fst (type_ctor type_arena_default ''Int'' TYPE_KIND)) 0 0)"

lemma kind_sample_nodes: "t_nodes kind_sample = [TConstructor ''Int'' TYPE_KIND, TFunction 0 0]"
  by (simp add: kind_sample_def type_function_def type_ctor_def type_intern_def type_arena_default_def
      u32_try_from_def u32_max_def)

lemma kind_sample_ok: "types_ok kind_sample"
proof -
  let ?a = "fst (type_ctor type_arena_default ''Int'' TYPE_KIND)"
  have a: "type_ctor type_arena_default ''Int'' TYPE_KIND = (?a, Ok 0)"
    and n: "t_nodes ?a = [TConstructor ''Int'' TYPE_KIND]"
    by (simp_all add: type_ctor_def type_intern_def type_arena_default_def u32_try_from_def u32_max_def)
  have ok: "types_ok ?a"
    using types_ok_intern(1) [OF types_ok_default, of _ ?a 0] a by (simp add: type_ctor_def)
  have "type_function ?a 0 0 = (kind_sample, Ok 1)"
    by (simp add: kind_sample_def type_function_def type_ctor_def type_intern_def type_arena_default_def
      u32_try_from_def u32_max_def)
  then show ?thesis
    using types_ok_intern(1) [OF ok, of "TFunction 0 0" kind_sample 1] n by (simp add: type_function_def)
qed

theorem kind_of_decides_witness:
  "\<exists>r. kind_of kind_sample kind_default 1 Map.empty = Some r \<and> r \<noteq> Panic \<and>
    (\<forall>k. r = Ok k \<longleftrightarrow> has_kind kind_default Map.empty (tree (t_nodes kind_sample) 1) k) \<and>
    (\<forall>k. r = Ok k \<longrightarrow> k < length (k_nodes kind_default))"
  by (rule kind_of_decides [OF kind_sample_ok kind_default_ok])
     (simp_all add: kind_sample_nodes kind_default_nodes TYPE_KIND_def tree.simps)

section \<open>Printing\<close>

definition parens :: "bool \<Rightarrow> string \<Rightarrow> string" where
  "parens b s = (if b then ''('' @ s @ '')'' else s)"

fun is_list_con :: "ty \<Rightarrow> bool" where
  "is_list_con (Con name _) = (name = ''[]'')"
| "is_list_con _ = False"

fun show_ty :: "nat \<Rightarrow> ty \<Rightarrow> string" where
  "show_ty p (Meta m) = ''t'' @ show_nat m"
| "show_ty p (Bound n) = ''a'' @ show_nat n"
| "show_ty p (Con name _) = name"
| "show_ty p (Sym s) = [CHR 0x22] @ s @ [CHR 0x22]"
| "show_ty p RNil = ''{}''"
| "show_ty p (RCons l f t) =
    ''{'' @ l @ '' :: '' @ show_ty 0 f @ (if t = RNil then '''' else '', ..'') @ ''}''"
| "show_ty p (Fun a b) = parens (p > 0) (show_ty 1 a @ '' -> '' @ show_ty 0 b)"
| "show_ty p (App f x) =
    (if is_list_con f then ''['' @ show_ty 0 x @ '']''
     else parens (p > 1) (show_ty 1 f @ '' '' @ show_ty 2 x))"

lemma run_display_text [simp]:
  "run (display_step ar) (DText text # work, s) = run (display_step ar) (work, s @ text)"
  "run (display_step ar) (DCharacter c # work, s) = run (display_step ar) (work, s @ [c])"
  by (simp_all add: run_Inl)

lemma run_display_visit:
  assumes nb: "nodes_below (t_nodes ar)"
  shows "i < length (t_nodes ar) \<Longrightarrow>
    run (display_step ar) (DVisit i p # work, s) =
    run (display_step ar) (work, s @ show_ty p (tree (t_nodes ar) i))"
proof (induction i arbitrary: p work s rule: less_induct)
  case (less i)
  let ?N = "t_nodes ar"
  have i: "vget ?N i = Some (?N ! i)" using less.prems by simp
  have c: "\<And>c p work s. c \<in> set (children (?N ! i)) \<Longrightarrow>
      run (display_step ar) (DVisit c p # work, s) =
      run (display_step ar) (work, s @ show_ty p (tree ?N c))"
    using less children_below [OF nb i] by (meson order_less_trans)
  have get: "\<And>c. c \<in> set (children (?N ! i)) \<Longrightarrow> vget ?N c = Some (?N ! c)"
    using children_below [OF nb i] less.prems by fastforce
  have shape: "\<And>c. c \<in> set (children (?N ! i)) \<Longrightarrow> tree ?N c = node_tree (tree ?N) (?N ! c)"
    using tree_node [OF nb get] by simp
  have nil: "\<And>c. c \<in> set (children (?N ! i)) \<Longrightarrow> ?N ! c = TRowNil \<longleftrightarrow> tree ?N c = RNil"
    subgoal for c using shape [of c] by (cases "?N ! c") auto
    done
  have con: "\<And>c. c \<in> set (children (?N ! i)) \<Longrightarrow>
      (case ?N ! c of TConstructor name _ \<Rightarrow> name = ''[]'' | _ \<Rightarrow> False) = is_list_con (tree ?N c)"
    subgoal for c using shape [of c] by (cases "?N ! c") auto
    done
  have step: "run (display_step ar) (DVisit i p # work, s) =
      (case display_visit ar i p work s of Inl s \<Rightarrow> run (display_step ar) s | Inr r \<Rightarrow> Some r)"
    by (subst run_unfold) simp
  show ?case unfolding step tree_node [OF nb i]
    by (cases "?N ! i")
       (simp_all add: display_visit_def type_get_def i c get nil con display_function_def display_apply_def
          parens_def Let_def)
qed

lemma display_eq:
  assumes "types_ok ar" "i < length (t_nodes ar)"
  shows "display ar i = Some (Ok (show_ty 0 (tree (t_nodes ar) i)))"
  using assms run_display_visit [of ar i 0 "[]" "''''"]
  by (simp add: display_def types_ok_def run_Inr)

text \<open>
  C39: \<open>TypeArena::display\<close> prints.  On a well-formed arena the loop over text fragments
  returns, without panicking, the text of the recursive printer: function arrows
  associate to the right, arguments and function domains are parenthesised by precedence,
  lists are bracketed and an unfinished row shows its first field only.
\<close>

theorem display_prints:
  assumes "types_ok ar" "i < length (t_nodes ar)"
  shows "display ar i = Some (Ok (show_ty 0 (tree (t_nodes ar) i)))"
  using assms by (rule display_eq)

theorem display_prints_witness: "display kind_sample 1 = Some (Ok ''Int -> Int'')"
  using display_prints [OF kind_sample_ok, of 1]
  by (simp add: kind_sample_nodes tree.simps parens_def)

section \<open>The type constructors\<close>

text \<open>A kind that takes \<open>n\<close> types to the kind \<open>r\<close>.\<close>

fun arrows :: "kind_arena \<Rightarrow> nat \<Rightarrow> nat \<Rightarrow> nat \<Rightarrow> bool" where
  "arrows ks 0 k r = (k = r)"
| "arrows ks (Suc n) k r = (\<exists>k'. kind_get ks k = Some (KArrow TYPE_KIND k') \<and> arrows ks n k' r)"

definition extends_kinds :: "kind_arena \<Rightarrow> kind_arena \<Rightarrow> bool" where
  "extends_kinds ks ks' \<longleftrightarrow> (\<exists>new. k_nodes ks' = k_nodes ks @ new)"

lemma extends_kinds_refl: "extends_kinds ks ks"
  by (simp add: extends_kinds_def)

lemma extends_kinds_trans: "extends_kinds a b \<Longrightarrow> extends_kinds b c \<Longrightarrow> extends_kinds a c"
  by (auto simp: extends_kinds_def)

lemma kind_get_mono: "extends_kinds ks ks' \<Longrightarrow> kind_get ks k = Some n \<Longrightarrow> kind_get ks' k = Some n"
  by (auto simp: extends_kinds_def kind_get_def intro: vget_append_old)

lemma has_kind_mono: "has_kind ks mk t k \<Longrightarrow> extends_kinds ks ks' \<Longrightarrow> has_kind ks' mk t k"
  by (induction rule: has_kind.induct) (auto intro: kind_get_mono)

lemma arrows_mono: "extends_kinds ks ks' \<Longrightarrow> arrows ks n k r \<Longrightarrow> arrows ks' n k r"
  by (induction n arbitrary: k) (auto dest: kind_get_mono)

lemma extends_kinds_intern: "kinds_ok ks \<Longrightarrow> kind_intern ks k = (ks', Ok i) \<Longrightarrow> extends_kinds ks ks'"
  using kinds.intern_Ok by (fastforce simp: kinds_ok_def extends_kinds_def)

lemma TYPE_KIND_in: "kinds_ok ks \<Longrightarrow> TYPE_KIND < length (k_nodes ks)"
  unfolding TYPE_KIND_def using kinds_ok_base [of ks] by linarith

lemma tuple_kind_arrows:
  assumes "tuple_kind items k ks = (ks', Ok k')" "kinds_ok ks" "k < length (k_nodes ks)" "arrows ks n k TYPE_KIND"
  shows "kinds_ok ks' \<and> extends_kinds ks ks' \<and> k' < length (k_nodes ks') \<and>
    arrows ks' (length items + n) k' TYPE_KIND"
  using assms
proof (induction items arbitrary: k ks n)
  case Nil
  then show ?case by (simp add: extends_kinds_refl)
next
  case (Cons item items)
  from Cons.prems(1) obtain ks1 k1 where 1: "kind_intern ks (KArrow TYPE_KIND k) = (ks1, Ok k1)"
    and 2: "tuple_kind items k1 ks1 = (ks', Ok k')"
    by (auto split: prod.splits res.splits)
  have ok: "kinds_ok ks1" "vget (k_nodes ks1) k1 = Some (KArrow TYPE_KIND k)" "k1 < length (k_nodes ks1)"
    using kinds_ok_intern [OF Cons.prems(2) 1] TYPE_KIND_in [OF Cons.prems(2)] Cons.prems(3)
    by (simp_all add: kind_node_ok_def)
  have ext: "extends_kinds ks ks1" by (rule extends_kinds_intern [OF Cons.prems(2) 1])
  have "arrows ks1 (Suc n) k1 TYPE_KIND"
    using ok(2) arrows_mono [OF ext Cons.prems(4)] by (simp add: kind_get_def)
  from Cons.IH [OF 2 ok(1) ok(3) this] ext show ?case
    by (auto intro: extends_kinds_trans)
qed

definition extends_types :: "type_arena \<Rightarrow> type_arena \<Rightarrow> bool" where
  "extends_types ar ar' \<longleftrightarrow> (\<exists>new. t_nodes ar' = t_nodes ar @ new)"

lemma extends_types_refl: "extends_types ar ar"
  by (simp add: extends_types_def)

lemma extends_types_trans: "extends_types a b \<Longrightarrow> extends_types b c \<Longrightarrow> extends_types a c"
  by (auto simp: extends_types_def)

lemma extends_types_tree:
  "extends_types ar ar' \<Longrightarrow> types_ok ar \<Longrightarrow> i < length (t_nodes ar) \<Longrightarrow>
    i < length (t_nodes ar') \<and> tree (t_nodes ar') i = tree (t_nodes ar) i"
  by (auto simp: extends_types_def types_ok_def tree_append)

text \<open>Allocating a node with valid children yields an identifier that reads as that node.\<close>

lemma intern_tree:
  assumes "types_ok ar" "type_intern ar n = (ar', Ok i)" "\<forall>c \<in> set (children n). c < length (t_nodes ar)"
  shows "types_ok ar'" "extends_types ar ar'" "i < length (t_nodes ar')"
    "tree (t_nodes ar') i = node_tree (tree (t_nodes ar)) n"
proof -
  note * = types_ok_intern [OF assms]
  show ok: "types_ok ar'" by (rule *(1))
  show ext: "extends_types ar ar'" using *(3) by (auto simp: extends_types_def)
  show "i < length (t_nodes ar')" using *(2) by (auto simp: vget_Some)
  have "tree (t_nodes ar') i = node_tree (tree (t_nodes ar')) n"
    using tree_node *(2) ok by (simp add: types_ok_def)
  also have "\<dots> = node_tree (tree (t_nodes ar)) n"
    using extends_types_tree [OF ext assms(1)] assms(3) by (intro node_tree_cong) blast
  finally show "tree (t_nodes ar') i = node_tree (tree (t_nodes ar)) n" .
qed

lemma apply_all_tree:
  assumes "apply_all ar ty items = (ar', Ok i)" "types_ok ar" "ty < length (t_nodes ar)"
    "\<forall>c \<in> set items. c < length (t_nodes ar)"
  shows "types_ok ar' \<and> extends_types ar ar' \<and> i < length (t_nodes ar') \<and>
    tree (t_nodes ar') i = foldl App (tree (t_nodes ar) ty) (map (tree (t_nodes ar)) items)"
  using assms
proof (induction items arbitrary: ar ty)
  case Nil
  then show ?case by (simp add: extends_types_refl)
next
  case (Cons item items)
  from Cons.prems(1) obtain ar1 ty1 where 1: "type_intern ar (TApply ty item) = (ar1, Ok ty1)"
    and 2: "apply_all ar1 ty1 items = (ar', Ok i)"
    by (auto simp: type_apply_def split: prod.splits res.splits)
  have ch: "\<forall>c \<in> set (children (TApply ty item)). c < length (t_nodes ar)" using Cons.prems(3,4) by simp
  note * = intern_tree [OF Cons.prems(2) 1 ch]
  have old: "\<And>c. c < length (t_nodes ar) \<Longrightarrow> c < length (t_nodes ar1) \<and> tree (t_nodes ar1) c = tree (t_nodes ar) c"
    using extends_types_tree [OF *(2) Cons.prems(2)] by simp
  have "types_ok ar' \<and> extends_types ar1 ar' \<and> i < length (t_nodes ar') \<and>
      tree (t_nodes ar') i = foldl App (tree (t_nodes ar1) ty1) (map (tree (t_nodes ar1)) items)"
    by (rule Cons.IH [OF 2]) (use * old Cons.prems(3,4) in auto)
  moreover have "map (tree (t_nodes ar1)) items = map (tree (t_nodes ar)) items"
    using old Cons.prems(4) by auto
  ultimately show ?case using * by (auto intro: extends_types_trans)
qed

lemma has_kind_apply_all:
  assumes "has_kind ks mk f k" "arrows ks (length ts) k TYPE_KIND" "\<forall>t \<in> set ts. has_kind ks mk t TYPE_KIND"
  shows "has_kind ks mk (foldl App f ts) TYPE_KIND"
  using assms
proof (induction ts arbitrary: f k)
  case (Cons t ts)
  from Cons.prems(2) obtain k' where k': "kind_get ks k = Some (KArrow TYPE_KIND k')" "arrows ks (length ts) k' TYPE_KIND"
    by auto
  have "has_kind ks mk (App f t) k'"
    using Cons.prems(1,3) k'(1) by (auto intro: has_kind.intros)
  then show ?case using Cons.IH [OF _ k'(2)] Cons.prems(3) by simp
qed auto

lemma ctor_apply_builds:
  assumes ar: "types_ok ar" and ks: "kinds_ok ks"
    and kind: "kinds_ok ks'" "extends_kinds ks ks'" "arrows ks' (length items) k TYPE_KIND"
    and items: "\<forall>c \<in> set items. c < length (t_nodes ar) \<and> has_kind ks mk (tree (t_nodes ar) c) TYPE_KIND"
    and c: "type_ctor ar name k = (ar1, Ok c)" and all: "apply_all ar1 c items = (ar2, Ok i)"
  shows "types_ok ar2 \<and> extends_types ar ar2 \<and> i < length (t_nodes ar2) \<and>
    tree (t_nodes ar2) i = foldl App (Con name k) (map (tree (t_nodes ar)) items) \<and>
    has_kind ks' mk (tree (t_nodes ar2) i) TYPE_KIND"
proof -
  note c' = intern_tree [OF ar c [unfolded type_ctor_def], simplified]
  have old: "\<And>c. c < length (t_nodes ar) \<Longrightarrow> c < length (t_nodes ar1) \<and> tree (t_nodes ar1) c = tree (t_nodes ar) c"
    using extends_types_tree [OF c'(2) ar] by simp
  have "types_ok ar2 \<and> extends_types ar1 ar2 \<and> i < length (t_nodes ar2) \<and>
      tree (t_nodes ar2) i = foldl App (tree (t_nodes ar1) c) (map (tree (t_nodes ar1)) items)"
    by (rule apply_all_tree [OF all c'(1,3)]) (use items old in blast)
  moreover have "map (tree (t_nodes ar1)) items = map (tree (t_nodes ar)) items"
    using old items by auto
  moreover have "has_kind ks' mk (foldl App (Con name k) (map (tree (t_nodes ar)) items)) TYPE_KIND"
    by (rule has_kind_apply_all [where k = k])
       (use kind items in \<open>auto intro: has_kind_mono\<close>)
  ultimately show ?thesis using c' by (auto intro: extends_types_trans)
qed

text \<open>
  \<open>TypeArena::tuple\<close> builds well-kinded tuples.  Given types of kind \<open>Type\<close>, a call
  that does not panic returns the tuple constructor of that arity, applied to the items in
  order; the constructor's kind takes that many types, so the result again has kind
  \<open>Type\<close>.  Both arenas stay well formed and keep the meaning of every older identifier.
\<close>

theorem type_tuple_builds:
  assumes "types_ok ar" "kinds_ok ks"
    and "\<forall>c \<in> set items. c < length (t_nodes ar) \<and> has_kind ks mk (tree (t_nodes ar) c) TYPE_KIND"
    and "type_tuple ar items ks = ((ar', ks'), Ok i)"
  shows "types_ok ar' \<and> kinds_ok ks' \<and> extends_types ar ar' \<and> extends_kinds ks ks' \<and>
    (\<exists>name k. tuple_name (length items) = Some name \<and>
       tree (t_nodes ar') i = foldl App (Con name k) (map (tree (t_nodes ar)) items)) \<and>
    has_kind ks' mk (tree (t_nodes ar') i) TYPE_KIND"
proof -
  from assms(4) obtain k name ar1 c where
    1: "tuple_kind items TYPE_KIND ks = (ks', Ok k)" and 2: "tuple_name (length items) = Some name"
    and 3: "type_ctor ar name k = (ar1, Ok c)" and 4: "apply_all ar1 c items = (ar', Ok i)"
    by (auto simp: type_tuple_def split: prod.splits res.splits option.splits)
  have k: "kinds_ok ks'" "extends_kinds ks ks'" "arrows ks' (length items) k TYPE_KIND"
    using tuple_kind_arrows [OF 1 assms(2) TYPE_KIND_in [OF assms(2)], of 0] by simp_all
  from ctor_apply_builds [OF assms(1,2) k assms(3) 3 4] k 2 show ?thesis by blast
qed

lemma tuple_sample:
  "\<exists>ar' ks' i. type_tuple kind_sample [0, 1] kind_default = ((ar', ks'), Ok i)"
  by (simp add: type_tuple_def tuple_name_def kind_intern_def kind_default_def type_ctor_def type_intern_def
      type_apply_def kind_sample_def type_function_def type_arena_default_def u32_try_from_def u32_max_def)

theorem type_tuple_builds_witness:
  "\<exists>ar' ks' i. type_tuple kind_sample [0, 1] kind_default = ((ar', ks'), Ok i) \<and>
     has_kind ks' Map.empty (tree (t_nodes ar') i) TYPE_KIND"
proof -
  obtain ar' ks' i where *: "type_tuple kind_sample [0, 1] kind_default = ((ar', ks'), Ok i)"
    using tuple_sample by blast
  have "\<forall>c \<in> set [0, 1]. c < length (t_nodes kind_sample) \<and>
      has_kind kind_default Map.empty (tree (t_nodes kind_sample) c) TYPE_KIND"
    by (simp add: kind_sample_nodes tree.simps)
  from type_tuple_builds [OF kind_sample_ok kind_default_ok this *] * show ?thesis by blast
qed

text \<open>\<open>list\<close> and \<open>io\<close>: the same with one argument and the constructor's own name.\<close>

lemma unary_type_builds:
  assumes ar: "types_ok ar" and ks: "kinds_ok ks"
    and item: "item < length (t_nodes ar)" "has_kind ks mk (tree (t_nodes ar) item) TYPE_KIND"
    and eq: "unary_type name ar item ks = ((ar', ks'), Ok i)"
  shows "types_ok ar' \<and> kinds_ok ks' \<and> extends_types ar ar' \<and> extends_kinds ks ks' \<and>
    (\<exists>k. tree (t_nodes ar') i = App (Con name k) (tree (t_nodes ar) item)) \<and>
    has_kind ks' mk (tree (t_nodes ar') i) TYPE_KIND"
proof -
  from eq obtain k ar1 c where 1: "tuple_kind [item] TYPE_KIND ks = (ks', Ok k)"
    and 3: "type_ctor ar name k = (ar1, Ok c)" and 4: "apply_all ar1 c [item] = (ar', Ok i)"
    by (auto simp: unary_type_def split: prod.splits res.splits)
  have k: "kinds_ok ks'" "extends_kinds ks ks'" "arrows ks' (length [item]) k TYPE_KIND"
    using tuple_kind_arrows [OF 1 ks TYPE_KIND_in [OF ks], of 0] by simp_all
  have "\<forall>c \<in> set [item]. c < length (t_nodes ar) \<and> has_kind ks mk (tree (t_nodes ar) c) TYPE_KIND"
    using item by simp
  from ctor_apply_builds [OF ar ks k this 3 4] k(1,2) show ?thesis
    by (auto simp del: has_kind_simps)
qed

end
