(* ===== verification/Hell_Unify.thy ===== *)
theory Hell_Unify
  imports Hell_Kinding
begin

text \<open>
  Correctness of the \<open>Unifier\<close>.  Bindings are read as equations between trees; their
  solutions are the assignments of trees to metavariables that satisfy them.  Path
  compression keeps the solutions, the occurs check decides occurrence under the most
  general solution, and \<open>unify\<close> adds exactly the equation it is given, or fails when no
  well-kinded assignment satisfies it.
\<close>

section \<open>Equations and their solutions\<close>

fun subst :: "(nat \<Rightarrow> ty) \<Rightarrow> ty \<Rightarrow> ty" where
  "subst \<theta> (Meta m) = \<theta> m"
| "subst \<theta> (App a b) = App (subst \<theta> a) (subst \<theta> b)"
| "subst \<theta> (Fun a b) = Fun (subst \<theta> a) (subst \<theta> b)"
| "subst \<theta> (RCons l a b) = RCons l (subst \<theta> a) (subst \<theta> b)"
| "subst \<theta> (Bound n) = Bound n"
| "subst \<theta> (Con s k) = Con s k"
| "subst \<theta> (Sym s) = Sym s"
| "subst \<theta> RNil = RNil"

lemma subst_subst: "subst \<theta> (subst \<sigma> t) = subst (\<lambda>m. subst \<theta> (\<sigma> m)) t"
  by (induction t) auto

lemma subst_cong: "(\<And>m. m \<in> metas_of t \<Longrightarrow> \<theta> m = \<theta>' m) \<Longrightarrow> subst \<theta> t = subst \<theta>' t"
  by (induction t) auto

lemma subst_closed: "metas_of t = {} \<Longrightarrow> subst \<theta> t = t"
  by (induction t) auto

lemma metas_of_subst: "metas_of (subst \<theta> t) = (\<Union>m \<in> metas_of t. metas_of (\<theta> m))"
  by (induction t) auto

lemma size_subst_occurs: "m \<in> metas_of t \<Longrightarrow> size (\<theta> m) \<le> size (subst \<theta> t)"
  by (induction t) (auto intro: trans_le_add1 trans_le_add2 le_SucI)

lemma size_subst_occurs_strict: "m \<in> metas_of t \<Longrightarrow> t \<noteq> Meta m \<Longrightarrow> size (\<theta> m) < size (subst \<theta> t)"
  by (cases t) (fastforce dest: size_subst_occurs [where \<theta> = \<theta>])+

definition binding :: "meta_var list \<Rightarrow> nat \<Rightarrow> nat option" where
  "binding M m = (case vget M m of None \<Rightarrow> None | Some mv \<Rightarrow> mv_binding mv)"

definition mkind :: "meta_var list \<Rightarrow> nat \<Rightarrow> nat option" where
  "mkind M m = map_option mv_kind (vget M m)"

lemma meta_kind_eq: "meta_kind u = mkind (metas u)"
  by (simp add: meta_kind_def mkind_def fun_eq_iff)

definition solves :: "type_node list \<Rightarrow> meta_var list \<Rightarrow> (nat \<Rightarrow> ty) \<Rightarrow> bool" where
  "solves N M \<theta> \<longleftrightarrow> (\<forall>m b. binding M m = Some b \<longrightarrow> \<theta> m = subst \<theta> (tree N b))"

definition same_equations :: "type_node list \<Rightarrow> meta_var list \<Rightarrow> meta_var list \<Rightarrow> bool" where
  "same_equations N M M' \<longleftrightarrow> mkind M' = mkind M \<and>
     (\<forall>m. binding M' m = None \<longleftrightarrow> binding M m = None) \<and> (\<forall>\<theta>. solves N M' \<theta> \<longleftrightarrow> solves N M \<theta>)"

lemma same_refl [simp]: "same_equations N M M"
  by (simp add: same_equations_def)

lemma same_trans: "same_equations N A B \<Longrightarrow> same_equations N B C \<Longrightarrow> same_equations N A C"
  by (simp add: same_equations_def)

text \<open>The most general solution: it leaves the unbound metavariables, and every other factors through it.\<close>

definition most_general :: "type_node list \<Rightarrow> meta_var list \<Rightarrow> (nat \<Rightarrow> ty) \<Rightarrow> bool" where
  "most_general N M \<sigma> \<longleftrightarrow> solves N M \<sigma> \<and> (\<forall>m. binding M m = None \<longrightarrow> \<sigma> m = Meta m) \<and>
     (\<forall>\<theta> m. solves N M \<theta> \<longrightarrow> \<theta> m = subst \<theta> (\<sigma> m))"

lemma most_general_same: "most_general N M \<sigma> \<Longrightarrow> same_equations N M M' \<Longrightarrow> most_general N M' \<sigma>"
  by (simp add: most_general_def same_equations_def)

lemma most_general_subst: "most_general N M \<sigma> \<Longrightarrow> solves N M \<theta> \<Longrightarrow> subst \<theta> (subst \<sigma> t) = subst \<theta> t"
  unfolding subst_subst by (rule subst_cong) (simp add: most_general_def)

text \<open>An assignment that gives every metavariable a tree of its kind.\<close>

definition kind_respecting :: "kind_arena \<Rightarrow> (nat \<Rightarrow> nat option) \<Rightarrow> (nat \<Rightarrow> ty) \<Rightarrow> bool" where
  "kind_respecting ks mk \<theta> \<longleftrightarrow> (\<forall>m k. mk m = Some k \<longrightarrow> has_kind ks mk (\<theta> m) k)"

lemma has_kind_subst:
  assumes "kind_respecting ks mk \<theta>"
  shows "kind_scoped ks mk t \<Longrightarrow> has_kind ks mk (subst \<theta> t) k \<longleftrightarrow> has_kind ks mk t k"
proof (induction t arbitrary: k)
  case (Meta m)
  then obtain k' where k': "mk m = Some k'" by (auto split: option.splits)
  with assms have "has_kind ks mk (\<theta> m) k'" by (simp add: kind_respecting_def)
  then show ?case using k' has_kind_unique by auto
qed auto

section \<open>Following bindings\<close>

definition is_end :: "type_node list \<Rightarrow> meta_var list \<Rightarrow> nat \<Rightarrow> bool" where
  "is_end N M i \<longleftrightarrow> (\<forall>m. vget N i = Some (TMeta m) \<longrightarrow> binding M m = None)"

inductive prunes :: "type_node list \<Rightarrow> meta_var list \<Rightarrow> nat \<Rightarrow> nat list \<Rightarrow> nat \<Rightarrow> bool"
  for N M where
  prunes_end: "is_end N M i \<Longrightarrow> prunes N M i [] i"
| prunes_step: "vget N i = Some (TMeta m) \<Longrightarrow> binding M m = Some b \<Longrightarrow> prunes N M b p j \<Longrightarrow>
    prunes N M i (m # p) j"

inductive_cases prunes_pathE: "prunes N M i (m # p) j"

lemma prunes_is_end: "prunes N M i p j \<Longrightarrow> is_end N M j"
  by (induction rule: prunes.induct) auto

lemma prunes_deterministic: "prunes N M i p j \<Longrightarrow> prunes N M i p' j' \<Longrightarrow> p = p' \<and> j = j'"
proof (induction arbitrary: p' j' rule: prunes.induct)
  case (prunes_end i)
  from prunes_end.prems show ?case
  proof cases
    case (prunes_step m b q)
    then show ?thesis using prunes_end.hyps by (simp add: is_end_def)
  qed simp
next
  case (prunes_step i m b p j)
  from prunes_step.prems show ?case
  proof cases
    case prunes_end
    then show ?thesis using prunes_step.hyps by (simp add: is_end_def)
  next
    case (prunes_step m' b' q)
    then have "m' = m" "b' = b" using prunes_step.hyps(1,2) by simp_all
    then show ?thesis using prunes_step prunes_step.IH by blast
  qed
qed

definition metas_ok :: "type_node list \<Rightarrow> meta_var list \<Rightarrow> bool" where
  "metas_ok N M \<longleftrightarrow>
     (\<forall>i m. vget N i = Some (TMeta m) \<longrightarrow> m < length M) \<and>
     (\<forall>i j m. vget N i = Some (TMeta m) \<longrightarrow> vget N j = Some (TMeta m) \<longrightarrow> i = j) \<and>
     (\<forall>m b. binding M m = Some b \<longrightarrow> b < length N) \<and>
     (\<forall>i < length N. \<exists>p j. prunes N M i p j)"

lemma prunes_valid: "prunes N M i p j \<Longrightarrow> metas_ok N M \<Longrightarrow> i < length N \<Longrightarrow> j < length N"
  by (induction rule: prunes.induct) (auto simp: metas_ok_def)

lemma prunes_path_valid: "prunes N M i p j \<Longrightarrow> metas_ok N M \<Longrightarrow> set p \<subseteq> {..<length M}"
  by (induction rule: prunes.induct) (auto simp: metas_ok_def)

lemma prunes_solution:
  "prunes N M i p j \<Longrightarrow> nodes_below N \<Longrightarrow> solves N M \<theta> \<Longrightarrow> subst \<theta> (tree N i) = subst \<theta> (tree N j)"
  by (induction rule: prunes.induct) (auto simp: tree_node solves_def)

lemma prunes_suffix:
  "prunes N M i p j \<Longrightarrow> m \<in> set p \<Longrightarrow> \<exists>b q. binding M m = Some b \<and> prunes N M b q j"
  by (induction rule: prunes.induct) auto

section \<open>Path compression\<close>

text \<open>Bindings may move forward along the path they start.\<close>

definition shortens :: "type_node list \<Rightarrow> meta_var list \<Rightarrow> meta_var list \<Rightarrow> bool" where
  "shortens N M M' \<longleftrightarrow> length M' = length M \<and> mkind M' = mkind M \<and>
     (\<forall>m. binding M' m = binding M m \<or>
        (\<exists>b q c. binding M m = Some b \<and> binding M' m = Some c \<and> prunes N M b q c))"

lemma shortens_unbound: "shortens N M M' \<Longrightarrow> binding M' m = None \<longleftrightarrow> binding M m = None"
  unfolding shortens_def by (metis option.distinct(1))

lemma shortens_end: "shortens N M M' \<Longrightarrow> is_end N M' i \<longleftrightarrow> is_end N M i"
  by (simp add: is_end_def shortens_unbound)

lemma shortens_prunes:
  assumes "shortens N M M'"
  shows "prunes N M i p j \<Longrightarrow> \<exists>p'. prunes N M' i p' j"
proof (induction rule: prunes.induct)
  case (prunes_end i)
  then show ?case using shortens_end [OF assms] by (blast intro: prunes.intros)
next
  case (prunes_step i m b p j)
  from assms consider "binding M' m = Some b"
    | q c where "binding M' m = Some c" "prunes N M b q c"
    unfolding shortens_def using prunes_step.hyps(2) by (metis option.inject)
  then show ?case
  proof cases
    case 1
    then show ?thesis using prunes_step by (blast intro: prunes.intros)
  next
    case 2
    have "c = j" using prunes_deterministic [OF 2(2) prunes_step.hyps(3)] by simp
    moreover have "is_end N M' c" using prunes_is_end [OF 2(2)] shortens_end [OF assms] by simp
    ultimately show ?thesis using 2(1) prunes_step.hyps(1) by (blast intro: prunes.intros)
  qed
qed

lemma shortens_solves:
  assumes sh: "shortens N M M'" and nb: "nodes_below N"
  shows "solves N M' \<theta> \<longleftrightarrow> solves N M \<theta>"
proof
  assume s: "solves N M \<theta>"
  show "solves N M' \<theta>"
    unfolding solves_def
  proof (intro allI impI)
    fix m c assume c: "binding M' m = Some c"
    from sh consider "binding M m = Some c" | b q where "binding M m = Some b" "prunes N M b q c"
      unfolding shortens_def by (metis c option.inject)
    then show "\<theta> m = subst \<theta> (tree N c)"
      by cases (use s prunes_solution [OF _ nb s] in \<open>auto simp: solves_def\<close>)
  qed
next
  assume s: "solves N M' \<theta>"
  show "solves N M \<theta>"
    unfolding solves_def
  proof (intro allI impI)
    fix m b assume b: "binding M m = Some b"
    from sh consider "binding M' m = Some b" | q c where "binding M' m = Some c" "prunes N M b q c"
      unfolding shortens_def by (metis b option.inject)
    then show "\<theta> m = subst \<theta> (tree N b)"
    proof cases
      case 2
      from shortens_prunes [OF sh 2(2)] prunes_solution [OF _ nb s]
      have "subst \<theta> (tree N b) = subst \<theta> (tree N c)" by blast
      then show ?thesis using s 2(1) by (simp add: solves_def)
    qed (use s in \<open>simp add: solves_def\<close>)
  qed
qed

lemma shortens_same: "shortens N M M' \<Longrightarrow> nodes_below N \<Longrightarrow> same_equations N M M'"
  by (simp add: same_equations_def shortens_unbound shortens_solves) (simp add: shortens_def)

lemma shortens_metas_ok:
  assumes sh: "shortens N M M'" and ok: "metas_ok N M"
  shows "metas_ok N M'"
proof -
  have "b < length N" if c: "binding M' m = Some b" for m b
  proof -
    from sh consider "binding M m = Some b" | a q where "binding M m = Some a" "prunes N M a q b"
      unfolding shortens_def by (metis c option.inject)
    then show ?thesis
      by cases (use ok prunes_valid in \<open>auto simp: metas_ok_def\<close>)
  qed
  moreover have "\<forall>i < length N. \<exists>p j. prunes N M' i p j"
    using ok shortens_prunes [OF sh] unfolding metas_ok_def by meson
  ultimately show ?thesis using ok sh by (simp add: metas_ok_def shortens_def)
qed

text \<open>The second loop of \<open>prune\<close>.\<close>

lemma compress_metas:
  assumes "set p \<subseteq> {..<length (metas u)}"
  shows "length (metas (fold (\<lambda>m. set_binding m j) p u)) = length (metas u) \<and>
    mkind (metas (fold (\<lambda>m. set_binding m j) p u)) = mkind (metas u) \<and>
    (\<forall>m. binding (metas (fold (\<lambda>m. set_binding m j) p u)) m =
      (if m \<in> set p then Some j else binding (metas u) m)) \<and>
    zonked (fold (\<lambda>m. set_binding m j) p u) = zonked u"
  using assms
proof (induction p arbitrary: u)
  case (Cons a p)
  let ?u = "set_binding a j u"
  have a: "a < length (metas u)" using Cons.prems by simp
  have len: "length (metas ?u) = length (metas u)" by (simp add: set_binding_def)
  have kind: "mkind (metas ?u) = mkind (metas u)"
    using a by (auto simp: mkind_def set_binding_def vget_def fun_eq_iff nth_list_update)
  have bind: "binding (metas ?u) m = (if m = a then Some j else binding (metas u) m)" for m
    using a by (auto simp: binding_def set_binding_def vget_def nth_list_update)
  have z: "zonked ?u = zonked u" by (simp add: set_binding_def)
  show ?case using Cons.IH [of ?u] Cons.prems by (simp add: len kind bind z)
qed simp

lemma run_prune:
  assumes "prunes N M i p j" "N = t_nodes ar" "M = metas u" "metas_ok N M" "i < length N"
  shows "run (prune_step ar u) (i, path) = Some (Ok (j, path @ p))"
  using assms
proof (induction arbitrary: path rule: prunes.induct)
  case (prunes_end i)
  then obtain n where n: "vget (t_nodes ar) i = Some n" by auto
  show ?case
  proof (cases n)
    case (TMeta m)
    then have get: "vget N i = Some (TMeta m)" using n prunes_end.prems(1) by simp
    have "m < length M" using prunes_end.prems(3) get unfolding metas_ok_def by blast
    moreover have "binding M m = None" using prunes_end.hyps get unfolding is_end_def by blast
    ultimately obtain mv where "vget (metas u) m = Some mv" "mv_binding mv = None"
      using prunes_end.prems(2) by (cases "vget (metas u) m") (simp_all add: binding_def)
    then show ?thesis using n TMeta by (simp add: run_Inr type_get_def)
  qed (use n in \<open>simp_all add: run_Inr type_get_def\<close>)
next
  case (prunes_step i m b p j)
  then have b: "b < length N" by (auto simp: metas_ok_def)
  obtain mv where "vget (metas u) m = Some mv" "mv_binding mv = Some b"
    using prunes_step by (auto simp: binding_def split: option.splits)
  then have "run (prune_step ar u) (i, path) = run (prune_step ar u) (b, path @ [m])"
    using prunes_step by (simp add: run_Inl type_get_def)
  then show ?case using prunes_step b by simp
qed

section \<open>The state of the unifier\<close>

fun closed :: "ty \<Rightarrow> bool" where
  "closed (Meta _) = False"
| "closed (Bound _) = False"
| "closed (App a b) = (closed a \<and> closed b)"
| "closed (Fun a b) = (closed a \<and> closed b)"
| "closed (RCons _ a b) = (closed a \<and> closed b)"
| "closed _ = True"

lemma closed_metas: "closed t \<Longrightarrow> metas_of t = {}"
  by (induction t) auto

text \<open>The cache of \<open>zonk\<close> maps an identifier to its closed tree.\<close>

definition cache_ok :: "type_node list \<Rightarrow> meta_var list \<Rightarrow> (nat \<rightharpoonup> nat) \<Rightarrow> bool" where
  "cache_ok N M Z \<longleftrightarrow> (\<forall>k z. Z k = Some z \<longrightarrow> k < length N \<and> z < length N \<and> closed (tree N z) \<and>
     (\<forall>\<theta>. solves N M \<theta> \<longrightarrow> subst \<theta> (tree N k) = tree N z))"

definition all_scoped :: "kind_arena \<Rightarrow> type_node list \<Rightarrow> meta_var list \<Rightarrow> bool" where
  "all_scoped ks N M \<longleftrightarrow> (\<forall>i < length N. kind_scoped ks (mkind M) (tree N i))"

definition unifier_ok :: "kind_arena \<Rightarrow> type_arena \<Rightarrow> unifier \<Rightarrow> bool" where
  "unifier_ok ks ar u \<longleftrightarrow>
     types_ok ar \<and> all_scoped ks (t_nodes ar) (metas u) \<and> metas_ok (t_nodes ar) (metas u) \<and>
     (\<exists>\<sigma>. most_general (t_nodes ar) (metas u) \<sigma> \<and> kind_respecting ks (mkind (metas u)) \<sigma>) \<and>
     cache_ok (t_nodes ar) (metas u) (zonked u)"

text \<open>What \<open>prune\<close> and \<open>occurs\<close> do to the state: nothing that shows.\<close>

definition tidied :: "kind_arena \<Rightarrow> type_arena \<Rightarrow> unifier \<Rightarrow> unifier \<Rightarrow> bool" where
  "tidied ks ar u u' \<longleftrightarrow> unifier_ok ks ar u' \<and> same_equations (t_nodes ar) (metas u) (metas u') \<and>
     zonked u' = zonked u"

lemma tidied_refl: "unifier_ok ks ar u \<Longrightarrow> tidied ks ar u u"
  by (simp add: tidied_def)

lemma tidied_trans: "tidied ks ar u v \<Longrightarrow> tidied ks ar v w \<Longrightarrow> tidied ks ar u w"
  by (auto simp: tidied_def intro: same_trans)

lemma unifier_ok_same:
  assumes "unifier_ok ks ar u" "same_equations (t_nodes ar) (metas u) (metas u')"
    "metas_ok (t_nodes ar) (metas u')" "zonked u' = zonked u"
  shows "tidied ks ar u u'"
proof -
  have "\<exists>\<sigma>. most_general (t_nodes ar) (metas u') \<sigma> \<and> kind_respecting ks (mkind (metas u')) \<sigma>"
    using assms(1,2) most_general_same unfolding unifier_ok_def same_equations_def by metis
  moreover have "cache_ok (t_nodes ar) (metas u') (zonked u')"
    using assms by (simp add: unifier_ok_def same_equations_def cache_ok_def)
  ultimately show ?thesis
    using assms by (simp add: tidied_def unifier_ok_def all_scoped_def same_equations_def)
qed

lemma same_is_end: "same_equations N M M' \<Longrightarrow> is_end N M' i \<longleftrightarrow> is_end N M i"
  by (simp add: is_end_def same_equations_def)

lemma prune_correct:
  assumes ok: "unifier_ok ks ar u" and i: "i < length (t_nodes ar)"
  shows "\<exists>j u'. prune u ar i = Some (Ok (j, u')) \<and> tidied ks ar u u' \<and> j < length (t_nodes ar) \<and>
    is_end (t_nodes ar) (metas u) j \<and>
    (\<forall>\<theta>. solves (t_nodes ar) (metas u) \<theta> \<longrightarrow>
       subst \<theta> (tree (t_nodes ar) i) = subst \<theta> (tree (t_nodes ar) j))"
proof -
  let ?N = "t_nodes ar" and ?M = "metas u"
  from ok have nb: "nodes_below ?N" and m: "metas_ok ?N ?M" by (auto simp: unifier_ok_def types_ok_def)
  from m i obtain p j where p: "prunes ?N ?M i p j" unfolding metas_ok_def by blast
  define u' where "u' = fold (\<lambda>m. set_binding m j) p u"
  have eq: "prune u ar i = Some (Ok (j, u'))"
    using run_prune [OF p refl refl m i] by (simp add: prune_def u'_def)
  note c = compress_metas [OF prunes_path_valid [OF p m], of j, folded u'_def]
  have "shortens ?N ?M (metas u')"
    unfolding shortens_def using c prunes_suffix [OF p] by auto
  then have "tidied ks ar u u'"
    using unifier_ok_same ok shortens_same nb shortens_metas_ok m c by blast
  with eq show ?thesis
    using prunes_valid [OF p m i] prunes_is_end [OF p] prunes_solution [OF p nb] by blast
qed

text \<open>At the end of a path stands an unbound metavariable or a proper node.\<close>

lemma end_cases:
  assumes "unifier_ok ks ar u" "is_end (t_nodes ar) (metas u) j" "j < length (t_nodes ar)"
    "most_general (t_nodes ar) (metas u) \<sigma>"
  obtains (meta) m where "vget (t_nodes ar) j = Some (TMeta m)" "binding (metas u) m = None"
      "m < length (metas u)" "subst \<sigma> (tree (t_nodes ar) j) = Meta m"
    | (node) n where "vget (t_nodes ar) j = Some n" "\<not> is_meta n"
      "tree (t_nodes ar) j = node_tree (tree (t_nodes ar)) n"
proof -
  obtain n where n: "vget (t_nodes ar) j = Some n" using assms(3) by simp
  have t: "tree (t_nodes ar) j = node_tree (tree (t_nodes ar)) n"
    using tree_node [OF _ n] assms(1) by (simp add: unifier_ok_def types_ok_def)
  show thesis
  proof (cases n)
    case (TMeta m)
    have un: "binding (metas u) m = None" using assms(2) n TMeta unfolding is_end_def by simp
    have "m < length (metas u)" using assms(1) n TMeta unfolding unifier_ok_def metas_ok_def by blast
    with un n TMeta t assms(4) show thesis by (intro meta [of m]) (auto simp: most_general_def)
  qed (use node n t in auto)
qed

section \<open>The occurs check\<close>

text \<open>
  A tree that was visited and holds the needle has a smaller tree with the needle still on
  the work list, so an empty work list means that the needle does not occur.
\<close>

definition occurs_inv ::
  "kind_arena \<Rightarrow> type_arena \<Rightarrow> unifier \<Rightarrow> (nat \<Rightarrow> ty) \<Rightarrow> nat \<Rightarrow> nat \<Rightarrow> occurs_state \<Rightarrow> bool" where
  "occurs_inv ks ar u0 \<sigma> needle ty s \<longleftrightarrow>
    (case s of (work, visited, u) \<Rightarrow>
      tidied ks ar u0 u \<and> set work \<subseteq> {..<length (t_nodes ar)} \<and> visited \<subseteq> {..<length (t_nodes ar)} \<and>
      (\<forall>w \<in> set work. metas_of (subst \<sigma> (tree (t_nodes ar) w)) \<subseteq> metas_of (subst \<sigma> (tree (t_nodes ar) ty))) \<and>
      (\<forall>v \<in> visited. needle \<in> metas_of (subst \<sigma> (tree (t_nodes ar) v)) \<longrightarrow>
         (\<exists>w \<in> set work. needle \<in> metas_of (subst \<sigma> (tree (t_nodes ar) w)) \<and>
            size (subst \<sigma> (tree (t_nodes ar) w)) < size (subst \<sigma> (tree (t_nodes ar) v)))) \<and>
      (needle \<in> metas_of (subst \<sigma> (tree (t_nodes ar) ty)) \<longrightarrow>
         (\<exists>w \<in> set work. needle \<in> metas_of (subst \<sigma> (tree (t_nodes ar) w)))))"

text \<open>One iteration: drop the item, answer, or replace it by the children of its end.\<close>

lemma occurs_step_eq:
  assumes "prune u ar ty0 = Some (Ok (ty, u'))" "vget (t_nodes ar) ty = Some n"
  shows "occurs_step ar needle (ty0 # work, visited, u) =
    (if ty \<in> visited then Some (Inl (work, visited, u'))
     else if n = TMeta needle then Some (Inr (Ok (True, u')))
     else Some (Inl (children n @ work, insert ty visited, u')))"
  using assms by (cases n) (auto simp: type_get_def Let_def)

lemma children_subst:
  "m \<in> metas_of (subst \<sigma> (node_tree T n)) \<Longrightarrow> \<not> is_meta n \<Longrightarrow>
    \<exists>c \<in> set (children n). m \<in> metas_of (subst \<sigma> (T c))"
  by (cases n) auto

lemma children_size: "c \<in> set (children n) \<Longrightarrow> size (subst \<sigma> (T c)) < size (subst \<sigma> (node_tree T n))"
  by (cases n) auto

lemma children_metas: "c \<in> set (children n) \<Longrightarrow> metas_of (subst \<sigma> (T c)) \<subseteq> metas_of (subst \<sigma> (node_tree T n))"
  by (cases n) auto

lemma occurs_inv_next:
  assumes inv: "occurs_inv ks ar u0 \<sigma> needle root (w0 # work, visited, u)"
    and tidy: "tidied ks ar u u'"
    and new: "set work \<subseteq> set new" "set new \<subseteq> {..<length (t_nodes ar)}"
      "\<forall>w \<in> set new. metas_of (subst \<sigma> (tree (t_nodes ar) w)) \<subseteq> metas_of (subst \<sigma> (tree (t_nodes ar) root))"
    and held: "needle \<in> metas_of (subst \<sigma> (tree (t_nodes ar) w0)) \<Longrightarrow>
      \<exists>w \<in> set new. needle \<in> metas_of (subst \<sigma> (tree (t_nodes ar) w)) \<and>
        size (subst \<sigma> (tree (t_nodes ar) w)) \<le> size (subst \<sigma> (tree (t_nodes ar) w0))"
    and vis: "visited' \<subseteq> {..<length (t_nodes ar)}"
      "\<And>v. v \<in> visited' - visited \<Longrightarrow> needle \<in> metas_of (subst \<sigma> (tree (t_nodes ar) v)) \<Longrightarrow>
        \<exists>w \<in> set new. needle \<in> metas_of (subst \<sigma> (tree (t_nodes ar) w)) \<and>
          size (subst \<sigma> (tree (t_nodes ar) w)) < size (subst \<sigma> (tree (t_nodes ar) v))"
  shows "occurs_inv ks ar u0 \<sigma> needle root (new, visited', u')"
proof -
  let ?P = "\<lambda>w. needle \<in> metas_of (subst \<sigma> (tree (t_nodes ar) w))"
  let ?s = "\<lambda>w. size (subst \<sigma> (tree (t_nodes ar) w))"
  have move: "\<exists>w \<in> set new. ?P w \<and> ?s w \<le> ?s w1" if "w1 \<in> set (w0 # work)" "?P w1" for w1
    using that held new(1) by auto
  have old: "\<forall>v \<in> visited. ?P v \<longrightarrow> (\<exists>w \<in> set (w0 # work). ?P w \<and> ?s w < ?s v)"
    and rootp: "?P root \<longrightarrow> (\<exists>w \<in> set (w0 # work). ?P w)" and t0: "tidied ks ar u0 u"
    using inv unfolding occurs_inv_def by blast+
  have "\<exists>w \<in> set new. ?P w \<and> ?s w < ?s v" if v: "v \<in> visited'" "?P v" for v
  proof (cases "v \<in> visited")
    case True
    with old v obtain w1 where "w1 \<in> set (w0 # work)" "?P w1" "?s w1 < ?s v" by blast
    with move show ?thesis by (meson order_le_less_trans)
  qed (use vis(2) v in blast)
  moreover have "?P root \<longrightarrow> (\<exists>w \<in> set new. ?P w)" using rootp move by blast
  ultimately show ?thesis
    using tidied_trans [OF t0 tidy] new vis(1) unfolding occurs_inv_def by blast
qed

lemma occurs_iteration:
  assumes inv: "occurs_inv ks ar u0 \<sigma> needle root (w0 # work, visited, u)"
    and mg: "most_general (t_nodes ar) (metas u0) \<sigma>"
  shows "(\<exists>s. occurs_step ar needle (w0 # work, visited, u) = Some (Inl s) \<and>
       occurs_inv ks ar u0 \<sigma> needle root s \<and>
       ((s, (w0 # work, visited, u)) \<in>
         measure (\<lambda>(work, visited, _). 3 * (length (t_nodes ar) - card visited) + length work))) \<or>
    (\<exists>u'. occurs_step ar needle (w0 # work, visited, u) = Some (Inr (Ok (True, u'))) \<and> tidied ks ar u0 u' \<and>
       needle \<in> metas_of (subst \<sigma> (tree (t_nodes ar) root)))"
proof -
  let ?N = "t_nodes ar" and ?S = "\<lambda>w. subst \<sigma> (tree (t_nodes ar) w)"
  from inv have t0: "tidied ks ar u0 u" and w0: "w0 < length ?N" and vis: "visited \<subseteq> {..<length ?N}"
    and work: "set work \<subseteq> {..<length ?N}" and sub: "\<forall>w \<in> set (w0 # work). metas_of (?S w) \<subseteq> metas_of (?S root)"
    unfolding occurs_inv_def by auto
  have ok: "unifier_ok ks ar u" and mgu: "most_general ?N (metas u) \<sigma>"
    using t0 mg most_general_same by (auto simp: tidied_def)
  from prune_correct [OF ok w0] obtain ty u' where
    pr: "prune u ar w0 = Some (Ok (ty, u'))" and tidy: "tidied ks ar u u'" and ty: "ty < length ?N"
    and e: "is_end ?N (metas u) ty" and sem: "?S w0 = ?S ty"
    using mgu by (auto simp: most_general_def)
  from ty obtain n where n: "vget ?N ty = Some n" by simp
  note step = occurs_step_eq [OF pr n, of needle work visited]
  have nb: "nodes_below ?N" using ok by (simp add: unifier_ok_def types_ok_def)
  have tn: "tree ?N ty = node_tree (tree ?N) n" by (rule tree_node [OF nb n])
  consider "ty \<in> visited" | "ty \<notin> visited" "n = TMeta needle" | "ty \<notin> visited" "n \<noteq> TMeta needle" by blast
  then show ?thesis
  proof cases
    case 1
    have "occurs_inv ks ar u0 \<sigma> needle root (work, visited, u')"
    proof (rule occurs_inv_next [OF inv tidy])
      assume "needle \<in> metas_of (?S w0)"
      then have held: "needle \<in> metas_of (?S ty)" using sem by simp
      from inv have "\<forall>v \<in> visited. needle \<in> metas_of (?S v) \<longrightarrow>
          (\<exists>w \<in> set (w0 # work). needle \<in> metas_of (?S w) \<and> size (?S w) < size (?S v))"
        unfolding occurs_inv_def by blast
      with 1 held obtain w where "w \<in> set (w0 # work)" "needle \<in> metas_of (?S w)" "size (?S w) < size (?S ty)"
        by blast
      moreover have "size (?S ty) = size (?S w0)" using sem by simp
      ultimately have "w \<in> set (w0 # work)" "needle \<in> metas_of (?S w)" "size (?S w) < size (?S w0)" by simp_all
      then show "\<exists>w \<in> set work. needle \<in> metas_of (?S w) \<and> size (?S w) \<le> size (?S w0)" by auto
    qed (use work vis sub in auto)
    with step 1 show ?thesis by simp
  next
    case 2
    have "?S ty = Meta needle"
      using end_cases [OF ok e ty mgu] n 2 by (metis is_meta.simps(1) option.inject type_node.inject(1))
    then have "needle \<in> metas_of (?S root)" using sem sub by auto
    with step 2 show ?thesis using tidied_trans [OF t0 tidy] by auto
  next
    case 3
    have held: "\<exists>c \<in> set (children n). needle \<in> metas_of (?S c) \<and> size (?S c) < size (?S ty)"
      if "needle \<in> metas_of (?S ty)"
    proof -
      from end_cases [OF ok e ty mgu] have "\<not> is_meta n"
        by (cases; use n 3(2) that in auto)
      with children_subst [of needle \<sigma> "tree ?N" n] that tn children_size [where n = n and T = "tree ?N" and \<sigma> = \<sigma>]
      show ?thesis by auto
    qed
    have ch: "set (children n) \<subseteq> {..<length ?N}" using children_below [OF nb n] ty by fastforce
    have "occurs_inv ks ar u0 \<sigma> needle root (children n @ work, insert ty visited, u')"
    proof (rule occurs_inv_next [OF inv tidy])
      show "\<forall>w \<in> set (children n @ work). metas_of (?S w) \<subseteq> metas_of (?S root)"
        using sub sem tn children_metas [where n = n and T = "tree ?N" and \<sigma> = \<sigma>] by fastforce
      show "\<exists>w \<in> set (children n @ work). needle \<in> metas_of (?S w) \<and> size (?S w) \<le> size (?S w0)"
        if "needle \<in> metas_of (?S w0)"
        using held that sem by fastforce
      show "\<exists>w \<in> set (children n @ work). needle \<in> metas_of (?S w) \<and> size (?S w) < size (?S v)"
        if "v \<in> insert ty visited - visited" "needle \<in> metas_of (?S v)" for v
        using held that by auto
    qed (use ch work ty vis in auto)
    moreover have "card (insert ty visited) = Suc (card visited)" "card (insert ty visited) \<le> length ?N"
      using 3(1) vis ty finite_subset card_mono [of "{..<length ?N}" "insert ty visited"] by (auto intro: card_insert_disjoint)
    moreover have "length (children n) \<le> 2" by (cases n) auto
    ultimately show ?thesis using step 3 by auto
  qed
qed

lemma occurs_correct:
  assumes ok: "unifier_ok ks ar u" and mg: "most_general (t_nodes ar) (metas u) \<sigma>"
    and i: "i < length (t_nodes ar)"
  shows "\<exists>b u'. occurs u ar needle i = Some (Ok (b, u')) \<and> tidied ks ar u u' \<and>
    (b \<longleftrightarrow> needle \<in> metas_of (subst \<sigma> (tree (t_nodes ar) i)))"
proof -
  let ?Q = "\<lambda>r. \<exists>b u'. r = Ok (b, u') \<and> tidied ks ar u u' \<and>
    (b \<longleftrightarrow> needle \<in> metas_of (subst \<sigma> (tree (t_nodes ar) i)))"
  have "\<exists>r. run_calls (occurs_step ar needle) ([i], {}, u) = Some r \<and> ?Q r"
  proof (rule run_calls_total [where I = "occurs_inv ks ar u \<sigma> needle i"])
    show "occurs_inv ks ar u \<sigma> needle i ([i], {}, u)"
      using i tidied_refl [OF ok] by (simp add: occurs_inv_def)
    show "wf (measure (\<lambda>(work, visited, _ :: unifier). 3 * (length (t_nodes ar) - card visited) + length work))"
      by (rule wf_measure)
    fix s :: occurs_state assume inv: "occurs_inv ks ar u \<sigma> needle i s"
    obtain work visited v where s: "s = (work, visited, v)" by (cases s)
    show "(\<exists>s'. occurs_step ar needle s = Some (Inl s') \<and> occurs_inv ks ar u \<sigma> needle i s' \<and>
        (s', s) \<in> measure (\<lambda>(work, visited, _). 3 * (length (t_nodes ar) - card visited) + length work)) \<or>
      (\<exists>r. occurs_step ar needle s = Some (Inr r) \<and> ?Q r)"
    proof (cases work)
      case Nil
      then show ?thesis using inv s by (auto simp: occurs_inv_def)
    next
      case (Cons w work')
      with occurs_iteration [OF inv [unfolded s Cons] mg] show ?thesis unfolding s by fastforce
    qed
  qed
  then show ?thesis by (auto simp: occurs_def)
qed

section \<open>Binding a metavariable\<close>

lemma has_kind_subst_mono:
  "has_kind ks mk t k \<Longrightarrow> kind_respecting ks mk \<theta> \<Longrightarrow> has_kind ks mk (subst \<theta> t) k"
  by (induction rule: has_kind.induct) (auto simp: kind_respecting_def)

text \<open>The vector of metavariables after \<open>m\<close> has been bound to \<open>ty\<close>.\<close>

definition bound_to :: "meta_var list \<Rightarrow> nat \<Rightarrow> nat \<Rightarrow> meta_var list \<Rightarrow> bool" where
  "bound_to M m ty M' \<longleftrightarrow> length M' = length M \<and> mkind M' = mkind M \<and>
     (\<forall>x. binding M' x = (if x = m then Some ty else binding M x))"

lemma set_binding_bound_to: "m < length (metas u) \<Longrightarrow> bound_to (metas u) m ty (metas (set_binding m ty u))"
  using compress_metas [of "[m]" u ty] by (auto simp: bound_to_def)

lemma bound_to_prunes:
  assumes b: "bound_to M m ty M'" and m: "binding M m = None" and e: "is_end N M ty"
    and ty: "vget N ty \<noteq> Some (TMeta m)"
  shows "prunes N M i p j \<Longrightarrow> \<exists>p' j'. prunes N M' i p' j'"
proof (induction rule: prunes.induct)
  case (prunes_end i)
  have e': "is_end N M' ty" using e b ty by (auto simp: is_end_def bound_to_def)
  show ?case
  proof (cases "vget N i = Some (TMeta m)")
    case True
    moreover have "binding M' m = Some ty" using b by (simp add: bound_to_def)
    ultimately show ?thesis using e' by (blast intro: prunes.intros)
  next
    case False
    then have "is_end N M' i" using prunes_end b by (auto simp: is_end_def bound_to_def)
    then show ?thesis by (blast intro: prunes.intros)
  qed
next
  case (prunes_step i x b' p j)
  then have "binding M' x = Some b'" using b m by (auto simp: bound_to_def)
  then show ?case using prunes_step by (blast intro: prunes.intros)
qed

lemma bound_to_metas_ok:
  assumes b: "bound_to M m ty M'" and ok: "metas_ok N M" and m: "binding M m = None" and e: "is_end N M ty"
    and ty: "vget N ty \<noteq> Some (TMeta m)" "ty < length N"
  shows "metas_ok N M'"
proof -
  have "\<forall>i < length N. \<exists>p j. prunes N M' i p j"
    using bound_to_prunes [OF b m e ty(1)] ok unfolding metas_ok_def by blast
  then show ?thesis using ok b ty(2) by (auto simp: metas_ok_def bound_to_def)
qed

lemma bound_to_solves:
  "bound_to M m ty M' \<Longrightarrow> binding M m = None \<Longrightarrow>
    solves N M' \<theta> \<longleftrightarrow> solves N M \<theta> \<and> \<theta> m = subst \<theta> (tree N ty)"
  by (auto simp: solves_def bound_to_def)

lemma bound_to_most_general:
  assumes b: "bound_to M m ty M'" and m: "binding M m = None" and mg: "most_general N M \<sigma>"
    and occ: "m \<notin> metas_of (subst \<sigma> (tree N ty))"
  shows "most_general N M' (\<lambda>x. subst (Meta(m := subst \<sigma> (tree N ty))) (\<sigma> x))"
    (is "most_general N M' ?\<sigma>'")
proof -
  let ?s = "subst \<sigma> (tree N ty)" and ?\<delta> = "Meta(m := subst \<sigma> (tree N ty))"
  have \<sigma>m: "\<sigma> m = Meta m" using mg m by (simp add: most_general_def)
  have Meta: "subst Meta t = t" for t by (induction t) auto
  have s: "subst ?\<delta> ?s = ?s"
    using subst_cong [of ?s ?\<delta> Meta] occ Meta by (metis fun_upd_apply)
  have "solves N M ?\<sigma>'"
    unfolding solves_def subst_subst [symmetric] using mg by (simp add: most_general_def solves_def)
  moreover have "?\<sigma>' m = subst ?\<sigma>' (tree N ty)"
    unfolding subst_subst [symmetric] using s \<sigma>m by simp
  moreover have "?\<sigma>' x = Meta x" if "binding M' x = None" for x
    using that b mg by (auto simp: bound_to_def most_general_def split: if_splits)
  moreover have "\<theta> x = subst \<theta> (?\<sigma>' x)" if \<theta>: "solves N M \<theta>" "\<theta> m = subst \<theta> (tree N ty)" for \<theta> x
  proof -
    have "subst \<theta> ?s = \<theta> m" using most_general_subst [OF mg \<theta>(1)] \<theta>(2) by simp
    then have "(\<lambda>y. subst \<theta> (?\<delta> y)) = \<theta>" by (simp add: fun_eq_iff)
    then have "subst \<theta> (?\<sigma>' x) = subst \<theta> (\<sigma> x)" by (simp add: subst_subst)
    then show ?thesis using mg \<theta>(1) by (simp add: most_general_def)
  qed
  ultimately show ?thesis
    unfolding most_general_def bound_to_solves [OF b m] by blast
qed

definition bind_post ::
  "kind_arena \<Rightarrow> type_arena \<Rightarrow> unifier \<Rightarrow> nat \<Rightarrow> nat \<Rightarrow> outcome \<Rightarrow> bool" where
  "bind_post ks ar u m ty r \<longleftrightarrow>
    (case r of (u', Ok _) \<Rightarrow>
        unifier_ok ks ar u' \<and> mkind (metas u') = mkind (metas u) \<and>
        (\<forall>x. binding (metas u') x = None \<longleftrightarrow> binding (metas u) x = None \<and> x \<noteq> m) \<and>
        (\<forall>\<theta>. solves (t_nodes ar) (metas u') \<theta> \<longleftrightarrow>
           solves (t_nodes ar) (metas u) \<theta> \<and> \<theta> m = subst \<theta> (tree (t_nodes ar) ty))
      | (u', Err e) \<Rightarrow>
        tidied ks ar u u' \<and>
        (\<forall>\<theta>. solves (t_nodes ar) (metas u) \<theta> \<longrightarrow> kind_respecting ks (mkind (metas u)) \<theta> \<longrightarrow>
           \<theta> m \<noteq> subst \<theta> (tree (t_nodes ar) ty))
      | (u', Panic) \<Rightarrow> False)"

lemma occurs_no_solution:
  assumes "most_general N M \<sigma>" "m \<in> metas_of (subst \<sigma> t)" "subst \<sigma> t \<noteq> Meta m" "solves N M \<theta>"
  shows "\<theta> m \<noteq> subst \<theta> t"
proof -
  have "size (\<theta> m) < size (subst \<theta> (subst \<sigma> t))" by (rule size_subst_occurs_strict [OF assms(2,3)])
  then show ?thesis using most_general_subst [OF assms(1,4)] by auto
qed

lemma bind_ok:
  assumes ok: "unifier_ok ks ar u" and ks: "kinds_ok ks"
    and mg: "most_general (t_nodes ar) (metas u) \<sigma>" "kind_respecting ks (mkind (metas u)) \<sigma>"
    and un: "binding (metas u) m = None" and m: "m < length (metas u)"
    and ty: "ty < length (t_nodes ar)" "is_end (t_nodes ar) (metas u) ty"
      "vget (t_nodes ar) ty \<noteq> Some (TMeta m)"
    and occ: "m \<notin> metas_of (subst \<sigma> (tree (t_nodes ar) ty))"
    and kind: "has_kind ks (mkind (metas u)) (tree (t_nodes ar) ty) (mv_kind (metas u ! m))"
  shows "bind_post ks ar u m ty (set_binding m ty (u\<lparr>zonked := Map.empty\<rparr>), Ok ())"
proof -
  let ?N = "t_nodes ar" and ?M = "metas u" and ?u = "set_binding m ty (u\<lparr>zonked := Map.empty\<rparr>)"
  let ?\<sigma> = "\<lambda>x. subst (Meta(m := subst \<sigma> (tree ?N ty))) (\<sigma> x)"
  have b: "bound_to ?M m ty (metas ?u)"
    using set_binding_bound_to [of m "u\<lparr>zonked := Map.empty\<rparr>" ty] m by simp
  then have mk: "mkind (metas ?u) = mkind ?M" by (simp add: bound_to_def)
  have "metas_ok ?N (metas ?u)"
    using bound_to_metas_ok [OF b _ un ty(2,3,1)] ok by (simp add: unifier_ok_def)
  moreover have "most_general ?N (metas ?u) ?\<sigma>" by (rule bound_to_most_general [OF b un mg(1) occ])
  moreover have "kind_respecting ks (mkind ?M) ?\<sigma>"
  proof -
    have "kind_respecting ks (mkind ?M) (Meta(m := subst \<sigma> (tree ?N ty)))"
      using has_kind_subst_mono [OF kind mg(2)] m by (auto simp: kind_respecting_def mkind_def)
    then show ?thesis
      using mg(2) has_kind_subst_mono by (simp add: kind_respecting_def)
  qed
  moreover have "zonked ?u = Map.empty" by (simp add: set_binding_def)
  ultimately have "unifier_ok ks ar ?u"
    using ok unfolding unifier_ok_def all_scoped_def cache_ok_def mk by auto
  moreover have "binding (metas ?u) x = None \<longleftrightarrow> binding ?M x = None \<and> x \<noteq> m" for x
    using b by (simp add: bound_to_def)
  ultimately show ?thesis
    unfolding bind_post_def using bound_to_solves [OF b un] mk by simp
qed

lemma bind_correct:
  assumes ok: "unifier_ok ks ar u" and ks: "kinds_ok ks"
    and mg: "most_general (t_nodes ar) (metas u) \<sigma>" "kind_respecting ks (mkind (metas u)) \<sigma>"
    and m: "vget (t_nodes ar) i = Some (TMeta m)" "binding (metas u) m = None"
    and ty: "ty < length (t_nodes ar)" "is_end (t_nodes ar) (metas u) ty" "ty \<noteq> i"
  shows "\<exists>r. bind_meta u ar ks m ty = Some r \<and> bind_post ks ar u m ty r"
proof -
  let ?N = "t_nodes ar" and ?M = "metas u" and ?t = "tree (t_nodes ar) ty"
  have nb: "nodes_below ?N" and mok: "metas_ok ?N ?M" and sc: "kind_scoped ks (mkind ?M) ?t"
    using ok ty(1) by (auto simp: unifier_ok_def types_ok_def all_scoped_def)
  have mlen: "m < length ?M" using mok m(1) unfolding metas_ok_def by blast
  have other: "vget ?N ty \<noteq> Some (TMeta m)" using mok m(1) ty(3) unfolding metas_ok_def by blast
  have notm: "subst \<sigma> ?t \<noteq> Meta m"
  proof (rule end_cases [OF ok ty(2,1) mg(1)])
    fix x assume "vget ?N ty = Some (TMeta x)" "subst \<sigma> ?t = Meta x"
    then show ?thesis using other by auto
  next
    fix n assume "\<not> is_meta n" "?t = node_tree (tree ?N) n"
    then show ?thesis by (cases n) auto
  qed
  obtain b u' where occ: "occurs u ar m ty = Some (Ok (b, u'))" and tidy: "tidied ks ar u u'"
    and b: "b \<longleftrightarrow> m \<in> metas_of (subst \<sigma> ?t)"
    using occurs_correct [OF ok mg(1) ty(1)] by blast
  have ok': "unifier_ok ks ar u'" and same: "same_equations ?N ?M (metas u')" and mk: "mkind (metas u') = mkind ?M"
    using tidy by (auto simp: tidied_def same_equations_def)
  have mlen': "m < length (metas u')" using ok' m(1) unfolding unifier_ok_def metas_ok_def by blast
  have expected: "meta_kind u' m = Some (mv_kind (metas u' ! m))" using mlen' by (simp add: meta_kind_def)
  then have mkm: "mkind ?M m = Some (mv_kind (metas u' ! m))" by (simp add: meta_kind_eq mk)
  have kof: "kind_of ar ks ty (meta_kind u') = Some (kinding ks (mkind ?M) ?t)"
    using kind_of_eq [OF nb ty(1), of ks] by (simp add: meta_kind_eq mk)
  have ill: "\<theta> m \<noteq> subst \<theta> ?t"
    if "kinding ks (mkind ?M) ?t \<noteq> Ok (mv_kind (metas u' ! m))" "kind_respecting ks (mkind ?M) \<theta>" for \<theta>
  proof
    assume eq: "\<theta> m = subst \<theta> ?t"
    have "has_kind ks (mkind ?M) (subst \<theta> ?t) (mv_kind (metas u' ! m))"
      using that(2) mkm unfolding eq [symmetric] kind_respecting_def by blast
    then show False using has_kind_subst [OF that(2) sc] that(1) by (simp add: kinding_iff)
  qed
  consider (occ) "b" | (ok) "\<not> b" "kinding ks (mkind ?M) ?t = Ok (mv_kind (metas u' ! m))"
    | (kind) k where "\<not> b" "kinding ks (mkind ?M) ?t = Ok k" "k \<noteq> mv_kind (metas u' ! m)"
    | (err) e where "\<not> b" "kinding ks (mkind ?M) ?t = Err e"
    using kinding_scoped [OF ks sc] by (cases "kinding ks (mkind ?M) ?t") auto
  then show ?thesis
  proof cases
    case occ
    with \<open>occurs u ar m ty = _\<close> show ?thesis
      using occurs_no_solution [OF mg(1) _ notm] b tidy by (auto simp: bind_meta_def bind_post_def)
  next
    case ok
    let ?r = "(set_binding m ty (u'\<lparr>zonked := Map.empty\<rparr>), Ok ()) :: outcome"
    have eq: "bind_meta u ar ks m ty = Some ?r" using occ ok expected kof by (simp add: bind_meta_def)
    have "bind_post ks ar u' m ty ?r"
    proof (rule bind_ok [OF ok' ks])
      show "most_general ?N (metas u') \<sigma>" by (rule most_general_same [OF mg(1) same])
      show "has_kind ks (mkind (metas u')) ?t (mv_kind (metas u' ! m))" using ok(2) by (simp add: kinding_iff mk)
      show "is_end ?N (metas u') ty" using same_is_end [OF same] ty(2) by simp
    qed (use mg(2) mk m(2) same mlen' ty(1) other ok(1) b in \<open>auto simp: same_equations_def\<close>)
    then have "bind_post ks ar u m ty ?r"
      using same mk by (simp add: bind_post_def same_equations_def)
    with eq show ?thesis by blast
  next
    case kind
    then show ?thesis using occ expected kof ill tidy by (auto simp: bind_meta_def bind_post_def)
  next
    case err
    then show ?thesis using occ expected kof ill tidy by (auto simp: bind_meta_def bind_post_def)
  qed
qed

section \<open>Unification\<close>

text \<open>The pairs a pair of proper nodes is replaced by; \<open>None\<close> when their heads differ.\<close>

fun decompose :: "type_node \<Rightarrow> type_node \<Rightarrow> (nat \<times> nat) list option" where
  "decompose (TFunction a1 b1) (TFunction a2 b2) = Some [(a1, a2), (b1, b2)]"
| "decompose (TApply a1 b1) (TApply a2 b2) = Some [(a1, a2), (b1, b2)]"
| "decompose (TRowCons l1 f1 t1) (TRowCons l2 f2 t2) = (if l1 = l2 then Some [(f1, f2), (t1, t2)] else None)"
| "decompose l r = (if l = r then Some [] else None)"

lemma unify_nodes_eq:
  assumes "\<not> is_meta ln" "\<not> is_meta rn"
  shows "unify_nodes ar ks u left right work ln rn =
    (case decompose ln rn of
       Some pairs \<Rightarrow> Some (Inl (pairs @ work, u))
     | None \<Rightarrow> Some (Inr (u, Err (Mismatch left right))))"
  using assms by (cases ln; cases rn) (simp_all add: unify_nodes_def)

definition pair_size :: "(nat \<Rightarrow> ty) \<Rightarrow> nat \<times> nat \<Rightarrow> nat" where
  "pair_size T p = 2 * size (T (fst p)) + 1"

lemma decompose_None:
  "decompose ln rn = None \<Longrightarrow> \<not> is_meta ln \<Longrightarrow> \<not> is_meta rn \<Longrightarrow>
    subst \<theta> (node_tree T ln) \<noteq> subst \<theta> (node_tree T rn)"
  by (cases ln; cases rn) (auto split: if_splits)

lemma decompose_Some:
  assumes "decompose ln rn = Some pairs" "\<not> is_meta ln" "\<not> is_meta rn"
  shows "subst \<theta> (node_tree T ln) = subst \<theta> (node_tree T rn) \<longleftrightarrow>
      (\<forall>(a, b) \<in> set pairs. subst \<theta> (T a) = subst \<theta> (T b))"
    and "set pairs \<subseteq> set (children ln) \<times> set (children rn)"
    and "sum_list (map (pair_size (\<lambda>i. subst \<theta> (T i))) pairs) < 2 * size (subst \<theta> (node_tree T ln)) + 1"
  using assms by (cases ln; cases rn; auto simp: pair_size_def split: if_splits)+

definition equal_under :: "type_node list \<Rightarrow> (nat \<Rightarrow> ty) \<Rightarrow> nat \<times> nat \<Rightarrow> bool" where
  "equal_under N \<theta> p \<longleftrightarrow> subst \<theta> (tree N (fst p)) = subst \<theta> (tree N (snd p))"

definition unify_inv ::
  "kind_arena \<Rightarrow> type_arena \<Rightarrow> unifier \<Rightarrow> nat \<times> nat \<Rightarrow> (nat \<Rightarrow> ty) \<Rightarrow> unify_state \<Rightarrow> bool" where
  "unify_inv ks ar u0 goal \<sigma> s \<longleftrightarrow>
    (case s of (work, u) \<Rightarrow>
      unifier_ok ks ar u \<and> most_general (t_nodes ar) (metas u) \<sigma> \<and>
      kind_respecting ks (mkind (metas u)) \<sigma> \<and>
      set work \<subseteq> {..<length (t_nodes ar)} \<times> {..<length (t_nodes ar)} \<and>
      mkind (metas u) = mkind (metas u0) \<and>
      (\<forall>\<theta>. solves (t_nodes ar) (metas u0) \<theta> \<and> equal_under (t_nodes ar) \<theta> goal \<longleftrightarrow>
         solves (t_nodes ar) (metas u) \<theta> \<and> (\<forall>p \<in> set work. equal_under (t_nodes ar) \<theta> p)))"

definition unify_post :: "kind_arena \<Rightarrow> type_arena \<Rightarrow> unifier \<Rightarrow> nat \<times> nat \<Rightarrow> outcome \<Rightarrow> bool" where
  "unify_post ks ar u0 goal r \<longleftrightarrow>
    unifier_ok ks ar (fst r) \<and> mkind (metas (fst r)) = mkind (metas u0) \<and>
    (case snd r of
       Ok _ \<Rightarrow> \<forall>\<theta>. solves (t_nodes ar) (metas (fst r)) \<theta> \<longleftrightarrow>
         solves (t_nodes ar) (metas u0) \<theta> \<and> equal_under (t_nodes ar) \<theta> goal
     | Err e \<Rightarrow> \<forall>\<theta>. solves (t_nodes ar) (metas u0) \<theta> \<longrightarrow> kind_respecting ks (mkind (metas u0)) \<theta> \<longrightarrow>
         \<not> equal_under (t_nodes ar) \<theta> goal
     | Panic \<Rightarrow> False)"

definition unbound_metas :: "meta_var list \<Rightarrow> nat set" where
  "unbound_metas M = {m. m < length M \<and> binding M m = None}"

definition work_size :: "type_arena \<Rightarrow> (nat \<Rightarrow> ty) \<Rightarrow> (nat \<times> nat) list \<Rightarrow> nat" where
  "work_size ar \<sigma> work = sum_list (map (pair_size (\<lambda>i. subst \<sigma> (tree (t_nodes ar) i))) work)"

text \<open>Either a metavariable gets bound, or the trees still to be compared shrink.\<close>

definition unify_order :: "type_arena \<Rightarrow> (((nat \<Rightarrow> ty) \<times> unify_state) \<times> ((nat \<Rightarrow> ty) \<times> unify_state)) set" where
  "unify_order ar = inv_image (less_than <*lex*> less_than)
    (\<lambda>(\<sigma>, work, u). (card (unbound_metas (metas u)), work_size ar \<sigma> work))"

lemma wf_unify_order: "wf (unify_order ar)"
  by (simp add: unify_order_def wf_lex_prod)

definition unify_progress ::
  "kind_arena \<Rightarrow> type_arena \<Rightarrow> unifier \<Rightarrow> nat \<times> nat \<Rightarrow> (nat \<Rightarrow> ty) \<Rightarrow> unify_state \<Rightarrow>
   (unify_state + outcome) option \<Rightarrow> bool" where
  "unify_progress ks ar u0 goal \<sigma> s next \<longleftrightarrow>
    (\<exists>s' \<sigma>'. next = Some (Inl s') \<and> unify_inv ks ar u0 goal \<sigma>' s' \<and> ((\<sigma>', s'), (\<sigma>, s)) \<in> unify_order ar) \<or>
    (\<exists>r. next = Some (Inr r) \<and> unify_post ks ar u0 goal r)"

lemma mkind_length: "mkind M = mkind M' \<Longrightarrow> length M = length M'"
proof (rule ccontr)
  assume eq: "mkind M = mkind M'" and "length M \<noteq> length M'"
  then consider "length M < length M'" | "length M' < length M" by linarith
  then show False
  proof cases
    case 1
    then have "mkind M (length M) = None" "mkind M' (length M) \<noteq> None" by (simp_all add: mkind_def)
    with eq show False by simp
  next
    case 2
    then have "mkind M' (length M') = None" "mkind M (length M') \<noteq> None" by (simp_all add: mkind_def)
    with eq show False by simp
  qed
qed

lemma tidied_unify_inv:
  assumes "unify_inv ks ar u0 goal \<sigma> (work, u)" "tidied ks ar u u'"
  shows "unify_inv ks ar u0 goal \<sigma> (work, u')" "card (unbound_metas (metas u')) = card (unbound_metas (metas u))"
proof -
  have same: "same_equations (t_nodes ar) (metas u) (metas u')" "unifier_ok ks ar u'"
    using assms(2) by (auto simp: tidied_def)
  then show "unify_inv ks ar u0 goal \<sigma> (work, u')"
    using assms(1) most_general_same by (auto simp: unify_inv_def same_equations_def)
  show "card (unbound_metas (metas u')) = card (unbound_metas (metas u))"
    using same mkind_length [of "metas u'" "metas u"] by (simp add: unbound_metas_def same_equations_def)
qed

lemma bind_progress:
  assumes inv: "unify_inv ks ar u0 goal \<sigma> ((l, r) # work, u)" and ks: "kinds_ok ks"
    and e: "is_end (t_nodes ar) (metas u) i" "is_end (t_nodes ar) (metas u) j" and ij: "i \<noteq> j" "j < length (t_nodes ar)"
    and m: "vget (t_nodes ar) i = Some (TMeta m)"
    and swap: "\<And>\<theta>. solves (t_nodes ar) (metas u) \<theta> \<Longrightarrow>
      equal_under (t_nodes ar) \<theta> (l, r) \<longleftrightarrow> \<theta> m = subst \<theta> (tree (t_nodes ar) j)"
  shows "unify_progress ks ar u0 goal \<sigma> ((l, r) # work, u) (after_bind work (bind_meta u ar ks m j))"
proof -
  let ?N = "t_nodes ar" and ?M = "metas u"
  have ok: "unifier_ok ks ar u" and mg: "most_general ?N ?M \<sigma>" "kind_respecting ks (mkind ?M) \<sigma>"
    and mk: "mkind ?M = mkind (metas u0)"
    and sol: "\<And>\<theta>. solves ?N (metas u0) \<theta> \<and> equal_under ?N \<theta> goal \<longleftrightarrow>
         solves ?N ?M \<theta> \<and> \<theta> m = subst \<theta> (tree ?N j) \<and> (\<forall>p \<in> set work. equal_under ?N \<theta> p)"
    and valid: "set work \<subseteq> {..<length ?N} \<times> {..<length ?N}"
    using inv swap unfolding unify_inv_def by auto
  have un: "binding ?M m = None" using e(1) m unfolding is_end_def by blast
  have mlen: "m < length ?M" using ok m unfolding unifier_ok_def metas_ok_def by blast
  from bind_correct [OF ok ks mg m un ij(2) e(2)] ij(1) obtain u' res where
    b: "bind_meta u ar ks m j = Some (u', res)" and post: "bind_post ks ar u m j (u', res)" by fastforce
  show ?thesis
  proof (cases res)
    case (Ok x)
    with post have ok': "unifier_ok ks ar u'" and mk': "mkind (metas u') = mkind ?M"
      and un': "\<And>x. binding (metas u') x = None \<longleftrightarrow> binding ?M x = None \<and> x \<noteq> m"
      and sol': "\<And>\<theta>. solves ?N (metas u') \<theta> \<longleftrightarrow> solves ?N ?M \<theta> \<and> \<theta> m = subst \<theta> (tree ?N j)"
      by (auto simp: bind_post_def)
    from ok' obtain \<sigma>' where "most_general ?N (metas u') \<sigma>'" "kind_respecting ks (mkind (metas u')) \<sigma>'"
      unfolding unifier_ok_def by blast
    then have inv': "unify_inv ks ar u0 goal \<sigma>' (work, u')"
      using ok' mk mk' sol sol' valid by (simp add: unify_inv_def)
    have "unbound_metas (metas u') = unbound_metas ?M - {m}" "m \<in> unbound_metas ?M"
      using un' un mlen mkind_length [OF mk'] by (auto simp: unbound_metas_def)
    moreover have "finite (unbound_metas ?M)" by (simp add: unbound_metas_def)
    ultimately have "card (unbound_metas (metas u')) < card (unbound_metas ?M)"
      using card_Diff1_less by metis
    then show ?thesis
      using inv' b Ok by (auto simp: unify_progress_def after_bind_def unify_order_def)
  next
    case (Err x)
    with post have t: "tidied ks ar u u'"
      and no: "\<And>\<theta>. solves ?N ?M \<theta> \<Longrightarrow> kind_respecting ks (mkind ?M) \<theta> \<Longrightarrow> \<theta> m \<noteq> subst \<theta> (tree ?N j)"
      by (auto simp: bind_post_def)
    have "unify_post ks ar u0 goal (u', Err x)"
      using t no mk sol by (auto simp: unify_post_def tidied_def same_equations_def)
    then show ?thesis using b Err by (simp add: unify_progress_def after_bind_def)
  qed (use post in \<open>simp add: bind_post_def\<close>)
qed

lemma nodes_progress:
  assumes inv: "unify_inv ks ar u0 goal \<sigma> ((l, r) # work, u)" and ks: "kinds_ok ks" and ne: "l \<noteq> r"
    and e: "is_end (t_nodes ar) (metas u) l" "is_end (t_nodes ar) (metas u) r"
    and n: "vget (t_nodes ar) l = Some ln" "vget (t_nodes ar) r = Some rn"
  shows "unify_progress ks ar u0 goal \<sigma> ((l, r) # work, u) (unify_nodes ar ks u l r work ln rn)"
proof -
  let ?N = "t_nodes ar"
  have ok: "unifier_ok ks ar u" and nb: "nodes_below ?N" and l: "l < length ?N" and r: "r < length ?N"
    using inv by (auto simp: unify_inv_def unifier_ok_def types_ok_def)
  have tl: "tree ?N l = node_tree (tree ?N) ln" and tr: "tree ?N r = node_tree (tree ?N) rn"
    using tree_node [OF nb n(1)] tree_node [OF nb n(2)] .
  consider (left) m where "ln = TMeta m" | (right) m where "\<not> is_meta ln" "rn = TMeta m"
    | (nodes) "\<not> is_meta ln" "\<not> is_meta rn"
    using is_meta.elims(2) by metis
  then show ?thesis
  proof cases
    case left
    have "unify_progress ks ar u0 goal \<sigma> ((l, r) # work, u) (after_bind work (bind_meta u ar ks m r))"
      by (rule bind_progress [OF inv ks e ne r])
         (use n left tl in \<open>auto simp: equal_under_def\<close>)
    then show ?thesis by (simp add: left unify_nodes_def)
  next
    case right
    have "unify_progress ks ar u0 goal \<sigma> ((l, r) # work, u) (after_bind work (bind_meta u ar ks m l))"
      by (rule bind_progress [OF inv ks e(2,1) ne [symmetric] l])
         (use n right tr in \<open>auto simp: equal_under_def\<close>)
    then show ?thesis using right by (cases ln) (simp_all add: unify_nodes_def)
  next
    case nodes
    show ?thesis
    proof (cases "decompose ln rn")
      case None
      have "\<not> equal_under ?N \<theta> (l, r)" for \<theta>
        using decompose_None [OF None nodes] tl tr by (simp add: equal_under_def)
      then have "unify_post ks ar u0 goal (u, Err (Mismatch l r))"
        using inv by (auto simp: unify_post_def unify_inv_def)
      then show ?thesis using None by (simp add: unify_progress_def unify_nodes_eq [OF nodes])
    next
      case (Some pairs)
      note d = decompose_Some [OF Some nodes]
      have "set pairs \<subseteq> {..<length ?N} \<times> {..<length ?N}"
        using d(2) children_below [OF nb n(1)] children_below [OF nb n(2)] l r by fastforce
      moreover have "equal_under ?N \<theta> (l, r) \<longleftrightarrow> (\<forall>p \<in> set pairs. equal_under ?N \<theta> p)" for \<theta>
        using d(1) [of \<theta> "tree ?N"] tl tr by (fastforce simp: equal_under_def)
      ultimately have inv': "unify_inv ks ar u0 goal \<sigma> (pairs @ work, u)"
        using inv by (auto simp: unify_inv_def)
      have "work_size ar \<sigma> (pairs @ work) < work_size ar \<sigma> ((l, r) # work)"
        using d(3) [of \<sigma> "tree ?N"] tl by (simp add: work_size_def pair_size_def)
      then show ?thesis
        using Some inv' by (auto simp: unify_progress_def unify_nodes_eq [OF nodes] unify_order_def)
    qed
  qed
qed

lemma unify_progress_tidied:
  assumes "unify_progress ks ar u0 goal \<sigma> (work', u') next" "work_size ar \<sigma> work' \<le> work_size ar \<sigma> work"
    "card (unbound_metas (metas u')) = card (unbound_metas (metas u))"
  shows "unify_progress ks ar u0 goal \<sigma> (work, u) next"
  using assms unfolding unify_progress_def unify_order_def by fastforce

lemma unify_iteration:
  assumes inv: "unify_inv ks ar u0 goal \<sigma> s" and ks: "kinds_ok ks"
  shows "unify_progress ks ar u0 goal \<sigma> s (unify_step ar ks s)"
proof -
  let ?N = "t_nodes ar"
  obtain work u where s: "s = (work, u)" by (cases s)
  show ?thesis
  proof (cases work)
    case Nil
    then have "unify_post ks ar u0 goal (u, Ok ())"
      using inv s by (auto simp: unify_inv_def unify_post_def)
    then show ?thesis using s Nil by (simp add: unify_progress_def)
  next
    case (Cons p work')
    obtain l0 r0 where p: "p = (l0, r0)" by (cases p)
    have inv0: "unify_inv ks ar u0 goal \<sigma> ((l0, r0) # work', u)" using inv s Cons p by simp
    have ok: "unifier_ok ks ar u" and l0: "l0 < length ?N" and r0: "r0 < length ?N"
      using inv0 by (auto simp: unify_inv_def)
    obtain l u1 where 1: "prune u ar l0 = Some (Ok (l, u1))" "tidied ks ar u u1" "l < length ?N"
      "is_end ?N (metas u) l" and sem1: "\<And>\<theta>. solves ?N (metas u) \<theta> \<Longrightarrow> subst \<theta> (tree ?N l0) = subst \<theta> (tree ?N l)"
      using prune_correct [OF ok l0] by blast
    have ok1: "unifier_ok ks ar u1" and same1: "same_equations ?N (metas u) (metas u1)"
      using 1(2) by (auto simp: tidied_def)
    obtain r u2 where 2: "prune u1 ar r0 = Some (Ok (r, u2))" "tidied ks ar u1 u2" "r < length ?N"
      "is_end ?N (metas u1) r" and sem2: "\<And>\<theta>. solves ?N (metas u1) \<theta> \<Longrightarrow> subst \<theta> (tree ?N r0) = subst \<theta> (tree ?N r)"
      using prune_correct [OF ok1 r0] by blast
    have t: "tidied ks ar u u2" by (rule tidied_trans [OF 1(2) 2(2)])
    have same: "same_equations ?N (metas u) (metas u2)" "same_equations ?N (metas u1) (metas u2)"
      using t 2(2) by (auto simp: tidied_def)
    note inv2 = tidied_unify_inv [OF inv0 t]
    have sem: "equal_under ?N \<theta> (l0, r0) \<longleftrightarrow> equal_under ?N \<theta> (l, r)" if "solves ?N (metas u2) \<theta>" for \<theta>
      using that same same1 sem1 sem2 by (simp add: equal_under_def same_equations_def)
    have inv3: "unify_inv ks ar u0 goal \<sigma> ((l, r) # work', u2)"
      using inv2(1) 1(3) 2(3) sem by (auto simp: unify_inv_def)
    have "subst \<sigma> (tree ?N l0) = subst \<sigma> (tree ?N l)"
      using inv0 sem1 by (simp add: unify_inv_def most_general_def)
    then have size: "work_size ar \<sigma> ((l, r) # work') = work_size ar \<sigma> ((l0, r0) # work')"
      by (simp add: work_size_def pair_size_def)
    have e: "is_end ?N (metas u2) l" "is_end ?N (metas u2) r"
      using 1(4) 2(4) same_is_end same by blast+
    obtain ln rn where n: "vget ?N l = Some ln" "vget ?N r = Some rn" using 1(3) 2(3) by simp
    have "unify_progress ks ar u0 goal \<sigma> ((l, r) # work', u2) (unify_step ar ks s)"
    proof (cases "l = r")
      case True
      then have "unify_inv ks ar u0 goal \<sigma> (work', u2)"
        using inv3 by (auto simp: unify_inv_def equal_under_def)
      moreover have "work_size ar \<sigma> work' < work_size ar \<sigma> ((l, r) # work')"
        by (simp add: work_size_def pair_size_def)
      moreover have "unify_step ar ks s = Some (Inl (work', u2))" using s Cons p 1(1) 2(1) True by simp
      ultimately show ?thesis unfolding unify_progress_def by (auto simp: unify_order_def)
    next
      case False
      then have "unify_step ar ks s = unify_nodes ar ks u2 l r work' ln rn"
        using s Cons p 1(1) 2(1) n by (simp add: type_get_def)
      then show ?thesis using nodes_progress [OF inv3 ks False e n] by simp
    qed
    then show ?thesis using unify_progress_tidied size inv2(2) s Cons p by simp
  qed
qed

lemma unify_ok_post:
  assumes "unifier_ok ks ar u" "kinds_ok ks" "l < length (t_nodes ar)" "r < length (t_nodes ar)"
  shows "\<exists>u' res. unify u ar ks l r = Some (u', res) \<and> res \<noteq> Panic \<and> unifier_ok ks ar u' \<and>
    (res = Ok () \<longrightarrow> (\<forall>\<theta>. solves (t_nodes ar) (metas u') \<theta> \<longleftrightarrow> solves (t_nodes ar) (metas u) \<theta> \<and>
       subst \<theta> (tree (t_nodes ar) l) = subst \<theta> (tree (t_nodes ar) r))) \<and>
    (\<forall>e. res = Err e \<longrightarrow> (\<nexists>\<theta>. solves (t_nodes ar) (metas u) \<theta> \<and>
       kind_respecting ks (mkind (metas u)) \<theta> \<and>
       subst \<theta> (tree (t_nodes ar) l) = subst \<theta> (tree (t_nodes ar) r)))"
proof -
  from assms(1) obtain \<sigma> where \<sigma>: "most_general (t_nodes ar) (metas u) \<sigma>" "kind_respecting ks (mkind (metas u)) \<sigma>"
    unfolding unifier_ok_def by blast
  have "\<exists>x. run_calls (unify_step ar ks) ([(l, r)], u) = Some x \<and> unify_post ks ar u (l, r) x"
  proof (rule run_calls_ghost [where I = "unify_inv ks ar u (l, r)"])
    show "unify_inv ks ar u (l, r) \<sigma> ([(l, r)], u)" using assms \<sigma> by (simp add: unify_inv_def)
    show "wf (unify_order ar)" by (rule wf_unify_order)
    show "(\<exists>s' \<sigma>'. unify_step ar ks s = Some (Inl s') \<and> unify_inv ks ar u (l, r) \<sigma>' s' \<and> ((\<sigma>', s'), (\<sigma>, s)) \<in> unify_order ar) \<or>
        (\<exists>x. unify_step ar ks s = Some (Inr x) \<and> unify_post ks ar u (l, r) x)"
      if "unify_inv ks ar u (l, r) \<sigma> s" for \<sigma> s
      using unify_iteration [OF that assms(2)] unfolding unify_progress_def .
  qed
  then obtain u' res where "unify u ar ks l r = Some (u', res)" "unify_post ks ar u (l, r) (u', res)"
    by (auto simp: unify_def)
  then show ?thesis by (cases res) (auto simp: unify_post_def equal_under_def)
qed

section \<open>Allocation\<close>

text \<open>A longer vector of nodes, with the old bindings, has the old solutions and the old paths.\<close>

lemma solves_extend:
  assumes "nodes_below N" "metas_ok N M" "\<And>m. binding M' m = binding M m"
  shows "solves (N @ X) M' \<theta> \<longleftrightarrow> solves N M \<theta>"
proof -
  have "b < length N" if "binding M m = Some b" for m b
    using that assms(2) unfolding metas_ok_def by blast
  then show ?thesis using tree_append [OF assms(1)] assms(3) by (auto simp: solves_def)
qed

lemma prunes_extend:
  assumes "metas_ok N M" "\<And>m. binding M' m = binding M m"
  shows "prunes N M i p j \<Longrightarrow> i < length N \<Longrightarrow> prunes (N @ X) M' i p j"
proof (induction rule: prunes.induct)
  case (prunes_end i)
  have "vget (N @ X) i = vget N i" using prunes_end.prems by (simp add: vget_def nth_append)
  then show ?case using prunes_end.hyps assms(2) by (intro prunes.prunes_end) (simp add: is_end_def)
next
  case (prunes_step i m b p j)
  then have "b < length N" using assms(1) unfolding metas_ok_def by blast
  show ?case
  proof (rule prunes.prunes_step)
    show "vget (N @ X) i = Some (TMeta m)" by (rule vget_append_old [OF prunes_step.hyps(1)])
    show "binding M' m = Some b" using prunes_step.hyps(2) assms(2) by simp
    show "prunes (N @ X) M' b p j" using prunes_step.IH \<open>b < length N\<close> .
  qed
qed

lemma cache_ok_extend:
  assumes "nodes_below N" "metas_ok N M" "\<And>m. binding M' m = binding M m" "cache_ok N M Z"
  shows "cache_ok (N @ X) M' Z"
  using assms(4) tree_append [OF assms(1)] solves_extend [OF assms(1-3)]
  unfolding cache_ok_def by (metis length_append trans_less_add1)

lemma most_general_extend:
  assumes "nodes_below N" "metas_ok N M" "\<And>m. binding M' m = binding M m" "most_general N M \<sigma>"
  shows "most_general (N @ X) M' \<sigma>"
  using assms(4) solves_extend [OF assms(1-3)] by (simp add: most_general_def assms(3))

lemma unifier_ok_default: "kinds_ok ks \<Longrightarrow> unifier_ok ks type_arena_default unifier_default"
proof -
  have b: "binding (metas unifier_default) m = None" for m by (simp add: binding_def unifier_default_def)
  have "most_general (t_nodes type_arena_default) (metas unifier_default) Meta"
    by (simp add: most_general_def solves_def b)
  moreover have "kind_respecting ks (mkind (metas unifier_default)) Meta"
    by (simp add: kind_respecting_def)
  ultimately show ?thesis
    using types_ok_default b
    by (auto simp: unifier_ok_def all_scoped_def metas_ok_def cache_ok_def type_arena_default_def
        unifier_default_def)
qed

text \<open>How the pair of an arena and a unifier evolves when no binding is added.\<close>

definition grows :: "kind_arena \<Rightarrow> type_arena \<times> unifier \<Rightarrow> type_arena \<times> unifier \<Rightarrow> bool" where
  "grows ks a b \<longleftrightarrow> unifier_ok ks (fst b) (snd b) \<and> extends_types (fst a) (fst b) \<and>
     mkind (metas (snd b)) = mkind (metas (snd a)) \<and>
     (\<forall>m. binding (metas (snd b)) m = None \<longleftrightarrow> binding (metas (snd a)) m = None) \<and>
     (\<forall>\<theta>. solves (t_nodes (fst b)) (metas (snd b)) \<theta> \<longleftrightarrow> solves (t_nodes (fst a)) (metas (snd a)) \<theta>)"

lemma grows_refl: "unifier_ok ks ar u \<Longrightarrow> grows ks (ar, u) (ar, u)"
  by (simp add: grows_def extends_types_refl)

lemma grows_trans: "grows ks a b \<Longrightarrow> grows ks b c \<Longrightarrow> grows ks a c"
  by (auto simp: grows_def intro: extends_types_trans)

lemma grows_tidied: "tidied ks ar u u' \<Longrightarrow> grows ks (ar, u) (ar, u')"
  by (simp add: grows_def tidied_def same_equations_def extends_types_refl)

lemma grows_most_general:
  "most_general (t_nodes ar) (metas u) \<sigma> \<Longrightarrow> grows ks (ar, u) (ar', u') \<Longrightarrow>
    most_general (t_nodes ar') (metas u') \<sigma>"
  by (simp add: most_general_def grows_def)

lemma grows_tree:
  "grows ks (ar, u) (ar', u') \<Longrightarrow> types_ok ar \<Longrightarrow> i < length (t_nodes ar) \<Longrightarrow>
    i < length (t_nodes ar') \<and> tree (t_nodes ar') i = tree (t_nodes ar) i"
  using extends_types_tree [of ar ar'] by (simp add: grows_def)

lemma intern_grows:
  assumes ok: "unifier_ok ks ar u" and int: "type_intern ar n = (ar', Ok i)"
    and ch: "\<forall>c \<in> set (children n). c < length (t_nodes ar)" and meta: "\<not> is_meta n"
    and sc: "kind_scoped ks (mkind (metas u)) (node_tree (tree (t_nodes ar)) n)"
  shows "grows ks (ar, u) (ar', u)"
proof -
  let ?N = "t_nodes ar" and ?M = "metas u"
  have t: "types_ok ar" and nb: "nodes_below ?N" and mok: "metas_ok ?N ?M"
    using ok by (auto simp: unifier_ok_def types_ok_def)
  obtain new where new: "t_nodes ar' = ?N @ new" "set new \<subseteq> {n}" and t': "types_ok ar'"
    using types_ok_intern [OF t int ch] by blast
  have nb': "nodes_below (?N @ new)" using t' new(1) by (simp add: types_ok_def)
  have get: "vget (?N @ new) j = (if j < length ?N then vget ?N j else vget (?N @ new) j)" for j
    by (simp add: vget_def nth_append)
  have fresh: "vget (?N @ new) j = Some n" if "j < length (?N @ new)" "\<not> j < length ?N" for j
  proof -
    have "(?N @ new) ! j \<in> set new" using that by (simp add: nth_append)
    then show ?thesis using that new(2) by (auto simp: vget_Some)
  qed
  have mt: "vget ?N j = Some (TMeta m)" if "vget (?N @ new) j = Some (TMeta m)" for j m
    using that fresh [of j] meta get [of j] by (cases "j < length ?N") (auto simp: vget_Some)
  have "metas_ok (?N @ new) ?M"
    unfolding metas_ok_def
  proof (intro conjI allI impI)
    fix j assume j: "j < length (?N @ new)"
    show "\<exists>p k. prunes (?N @ new) ?M j p k"
    proof (cases "j < length ?N")
      case True
      then show ?thesis using mok prunes_extend [OF mok refl] unfolding metas_ok_def by meson
    next
      case False
      have "is_end (?N @ new) ?M j" using fresh [OF j False] meta by (auto simp: is_end_def)
      then show ?thesis by (blast intro: prunes.intros)
    qed
  qed (use mok mt in \<open>fastforce simp: metas_ok_def\<close>)+
  moreover have "all_scoped ks (?N @ new) ?M"
    unfolding all_scoped_def
  proof (intro allI impI)
    fix j assume j: "j < length (?N @ new)"
    show "kind_scoped ks (mkind ?M) (tree (?N @ new) j)"
    proof (cases "j < length ?N")
      case True
      then show ?thesis using ok tree_append [OF nb True] by (simp add: unifier_ok_def all_scoped_def)
    next
      case False
      have "tree (?N @ new) j = node_tree (tree (?N @ new)) n"
        by (rule tree_node [OF nb' fresh [OF j False]])
      also have "\<dots> = node_tree (tree ?N) n"
        using ch tree_append [OF nb] by (intro node_tree_cong) simp
      finally show ?thesis using sc by simp
    qed
  qed
  ultimately have "unifier_ok ks ar' u"
    using ok t' new(1) most_general_extend [OF nb mok refl] cache_ok_extend [OF nb mok refl]
    unfolding unifier_ok_def by auto
  then show ?thesis
    using new(1) solves_extend [OF nb mok refl, of new] by (auto simp: grows_def extends_types_def)
qed

end
