(* ===== verification/Hell_Zonk.thy ===== *)
theory Hell_Zonk
  imports Hell_Unify
begin

text \<open>
  Fresh metavariables and \<open>Unifier::zonk\<close>: the loop that resolves every metavariable of a
  type and rebuilds it in the arena, with a cache that outlives the call.
\<close>

section \<open>Fresh metavariables\<close>

lemma kind_scoped_mono:
  "kind_scoped ks mk t \<Longrightarrow> (\<And>m k. mk m = Some k \<Longrightarrow> mk' m = Some k) \<Longrightarrow> kind_scoped ks mk' t"
  by (induction t) (auto split: option.splits)

lemma has_kind_metas_mono:
  "has_kind ks mk t k \<Longrightarrow> (\<And>m k. mk m = Some k \<Longrightarrow> mk' m = Some k) \<Longrightarrow> has_kind ks mk' t k"
  by (induction rule: has_kind.induct) auto

lemma fresh_result:
  assumes "fresh u ar kind = ((u', ar'), Ok i)"
  shows "metas u' = metas u @ [\<lparr>mv_kind = kind, mv_binding = None\<rparr>]" "zonked u' = Map.empty"
    "t_nodes ar' = t_nodes ar @ [TMeta (length (metas u))]" "i = length (t_nodes ar)"
    "t_interned ar' = t_interned ar"
  using assms by (auto simp: fresh_def type_intern_def Let_def split: option.splits if_splits)

lemma fresh_keeps:
  assumes ok: "unifier_ok ks ar u" and k: "kind < length (k_nodes ks)"
    and eq: "fresh u ar kind = ((u', ar'), Ok i)"
  shows "unifier_ok ks ar' u' \<and> extends_types ar ar' \<and> i < length (t_nodes ar') \<and>
    tree (t_nodes ar') i = Meta (length (metas u)) \<and> meta_kind u' (length (metas u)) = Some kind \<and>
    binding (metas u') (length (metas u)) = None \<and>
    (\<forall>\<theta>. solves (t_nodes ar') (metas u') \<theta> \<longleftrightarrow> solves (t_nodes ar) (metas u) \<theta>)"
proof -
  let ?N = "t_nodes ar" and ?M = "metas u" and ?m = "length (metas u)"
  note r = fresh_result [OF eq]
  have t: "types_ok ar" and nb: "nodes_below ?N" and mok: "metas_ok ?N ?M"
    using ok by (auto simp: unifier_ok_def types_ok_def)
  have b: "binding (metas u') x = binding ?M x" for x
    by (auto simp: binding_def r(1) vget_def nth_append)
  have mk: "mkind (metas u') = (mkind ?M)(?m \<mapsto> kind)"
    by (auto simp: mkind_def r(1) vget_def nth_append fun_eq_iff)
  have mono: "mkind (metas u') x = Some k'" if "mkind ?M x = Some k'" for x k'
    using that by (auto simp: mk mkind_def)
  have get: "vget (t_nodes ar') j = (if j = length ?N then Some (TMeta ?m) else vget ?N j)" for j
    by (simp add: r(3) vget_snoc)
  have t': "types_ok ar'"
    using t by (auto simp: types_ok_def type_arena_ok_def r(5) vget_snoc nodes_below_def r(3) nth_append)
  have old: "m < ?m" if "vget ?N j = Some (TMeta m)" for j m
    using that mok unfolding metas_ok_def by blast
  have "metas_ok (t_nodes ar') (metas u')"
    unfolding metas_ok_def
  proof (intro conjI allI impI)
    fix j assume j: "j < length (t_nodes ar')"
    show "\<exists>p k. prunes (t_nodes ar') (metas u') j p k"
    proof (cases "j < length ?N")
      case True
      then obtain p k where "prunes ?N ?M j p k" using mok unfolding metas_ok_def by blast
      from prunes_extend [OF mok b this True] show ?thesis using r(3) by auto
    next
      case False
      then have "j = length ?N" using j r(3) by simp
      then have "vget (t_nodes ar') j = Some (TMeta ?m)" unfolding get by simp
      moreover have "binding (metas u') ?m = None" unfolding b by (simp add: binding_def)
      ultimately have "is_end (t_nodes ar') (metas u') j" by (simp add: is_end_def)
      then show ?thesis by (blast intro: prunes.intros)
    qed
  next
    fix m c assume "binding (metas u') m = Some c"
    then show "c < length (t_nodes ar')" using mok by (simp add: b metas_ok_def r(3)) fastforce
  next
    fix j m assume "vget (t_nodes ar') j = Some (TMeta m)"
    then show "m < length (metas u')" using old by (auto simp: get r(1) less_Suc_eq split: if_splits)
  next
    fix j j' m assume "vget (t_nodes ar') j = Some (TMeta m)" "vget (t_nodes ar') j' = Some (TMeta m)"
    then show "j = j'"
      using mok old by (simp add: get metas_ok_def split: if_splits) (metis less_irrefl)+
  qed
  moreover have tm: "tree (t_nodes ar') (length ?N) = Meta ?m"
    using tree_node [of "t_nodes ar'" "length ?N" "TMeta ?m"] t' by (simp add: get types_ok_def)
  have "all_scoped ks (t_nodes ar') (metas u')"
    unfolding all_scoped_def
  proof (intro allI impI)
    fix j assume j: "j < length (t_nodes ar')"
    show "kind_scoped ks (mkind (metas u')) (tree (t_nodes ar') j)"
    proof (cases "j < length ?N")
      case True
      then have "kind_scoped ks (mkind ?M) (tree ?N j)" using ok by (simp add: unifier_ok_def all_scoped_def)
      then show ?thesis using kind_scoped_mono mono tree_append [OF nb True] by (metis r(3))
    next
      case False
      then have "j = length ?N" using j r(3) by simp
      then show ?thesis using tm mk k by simp
    qed
  qed
  moreover obtain \<sigma> where \<sigma>: "most_general ?N ?M \<sigma>" "kind_respecting ks (mkind ?M) \<sigma>"
    using ok unfolding unifier_ok_def by blast
  have "most_general (t_nodes ar') (metas u') \<sigma>"
    using most_general_extend [OF nb mok b \<sigma>(1)] r(3) by simp
  moreover have "kind_respecting ks (mkind (metas u')) \<sigma>"
    unfolding kind_respecting_def
  proof (intro allI impI)
    fix x k' assume x: "mkind (metas u') x = Some k'"
    show "has_kind ks (mkind (metas u')) (\<sigma> x) k'"
    proof (cases "x = ?m")
      case True
      have "binding ?M ?m = None" by (simp add: binding_def)
      then have "\<sigma> x = Meta x" using \<sigma>(1) True by (simp add: most_general_def)
      then show ?thesis using x by simp
    next
      case False
      then have "mkind ?M x = Some k'" using x mk by simp
      then have "has_kind ks (mkind ?M) (\<sigma> x) k'" using \<sigma>(2) unfolding kind_respecting_def by blast
      then show ?thesis by (rule has_kind_metas_mono) (rule mono)
    qed
  qed
  ultimately have "unifier_ok ks ar' u'"
    using t' r(2) unfolding unifier_ok_def cache_ok_def by auto
  then show ?thesis
    using r tm solves_extend [OF nb mok b, of "[TMeta ?m]"] mk
    by (auto simp: extends_types_def meta_kind_eq b binding_def)
qed

text \<open>
  \<open>Unifier::fresh\<close> keeps the unifier well formed.  A call that does not overflow
  returns a new identifier whose tree is a new, unbound metavariable of the given kind; the
  solutions of the bindings and the meaning of every older identifier are unchanged.
\<close>

theorem fresh_preserves:
  assumes ok: "unifier_ok ks ar u" and k: "kind < length (k_nodes ks)"
    and eq: "fresh u ar kind = ((u', ar'), Ok i)"
  shows "unifier_ok ks ar' u' \<and> extends_types ar ar' \<and> i < length (t_nodes ar') \<and>
    tree (t_nodes ar') i = Meta (length (metas u)) \<and> meta_kind u' (length (metas u)) = Some kind \<and>
    binding (metas u') (length (metas u)) = None \<and>
    (\<forall>\<theta>. solves (t_nodes ar') (metas u') \<theta> \<longleftrightarrow> solves (t_nodes ar) (metas u) \<theta>)"
  by (rule fresh_keeps [OF assms])

text \<open>A metavariable of kind \<open>Type\<close> beside \<open>Int\<close> and \<open>Int -> Int\<close>.\<close>

definition fresh_sample :: "(unifier \<times> type_arena) \<times> (nat, unit) res" where
  "fresh_sample = fresh unifier_default kind_sample TYPE_KIND"

definition unifier_sample :: unifier where
  "unifier_sample = fst (fst fresh_sample)"

definition arena_sample :: type_arena where
  "arena_sample = snd (fst fresh_sample)"

lemma fresh_sample_eq: "fresh unifier_default kind_sample TYPE_KIND = ((unifier_sample, arena_sample), Ok 2)"
  by (simp add: unifier_sample_def arena_sample_def fresh_sample_def fresh_def unifier_default_def
      type_intern_def kind_sample_nodes u32_max_def Let_def)

lemma kind_sample_unifier: "unifier_ok kind_default kind_sample unifier_default"
proof -
  have b: "binding (metas unifier_default) m = None" for m by (simp add: binding_def unifier_default_def)
  have "most_general (t_nodes kind_sample) (metas unifier_default) Meta"
    by (simp add: most_general_def solves_def b)
  moreover have "kind_respecting kind_default (mkind (metas unifier_default)) Meta"
    by (simp add: kind_respecting_def)
  moreover have "metas_ok (t_nodes kind_sample) (metas unifier_default)"
  proof -
    have "is_end (t_nodes kind_sample) (metas unifier_default) i" for i by (simp add: is_end_def b)
    then have "\<exists>p j. prunes (t_nodes kind_sample) (metas unifier_default) i p j" for i
      by (blast intro: prunes.intros)
    moreover have "vget (t_nodes kind_sample) i \<noteq> Some (TMeta m)" for i m
      by (auto simp: kind_sample_nodes vget_def nth_Cons' split: if_splits)
    ultimately show ?thesis by (simp add: metas_ok_def b)
  qed
  moreover have "all_scoped kind_default (t_nodes kind_sample) (metas unifier_default)"
    by (auto simp: all_scoped_def kind_sample_nodes tree.simps kind_default_nodes TYPE_KIND_def less_Suc_eq)
  ultimately show ?thesis
    using kind_sample_ok by (auto simp: unifier_ok_def cache_ok_def unifier_default_def)
qed

theorem fresh_preserves_witness:
  "unifier_ok kind_default arena_sample unifier_sample \<and> extends_types kind_sample arena_sample \<and>
    2 < length (t_nodes arena_sample) \<and>
    tree (t_nodes arena_sample) 2 = Meta (length (metas unifier_default)) \<and>
    meta_kind unifier_sample (length (metas unifier_default)) = Some TYPE_KIND \<and>
    binding (metas unifier_sample) (length (metas unifier_default)) = None \<and>
    (\<forall>\<theta>. solves (t_nodes arena_sample) (metas unifier_sample) \<theta> \<longleftrightarrow>
       solves (t_nodes kind_sample) (metas unifier_default) \<theta>)"
  by (rule fresh_preserves [OF kind_sample_unifier _ fresh_sample_eq])
     (simp add: kind_default_nodes TYPE_KIND_def)

section \<open>Zonking\<close>

fun bounds_of :: "ty \<Rightarrow> nat set" where
  "bounds_of (Bound n) = {n}"
| "bounds_of (App a b) = bounds_of a \<union> bounds_of b"
| "bounds_of (Fun a b) = bounds_of a \<union> bounds_of b"
| "bounds_of (RCons _ a b) = bounds_of a \<union> bounds_of b"
| "bounds_of _ = {}"

lemma closed_iff: "closed t \<longleftrightarrow> metas_of t = {} \<and> bounds_of t = {}"
  by (induction t) auto

text \<open>The error a tree that is not closed may give.\<close>

definition zonk_error :: "ty \<Rightarrow> type_error \<Rightarrow> bool" where
  "zonk_error t e \<longleftrightarrow> (\<exists>m \<in> metas_of t. e = Ambiguous m) \<or>
     (bounds_of t \<noteq> {} \<and> e = Internal ''bound type escaped scheme instantiation'')"

lemma zonk_error_open: "zonk_error t e \<Longrightarrow> \<not> closed t"
  by (auto simp: zonk_error_def closed_iff)

text \<open>
  What visiting an identifier whose solved tree is \<open>t\<close> does: push the identifier of \<open>t\<close>,
  fail because \<open>t\<close> is not closed, or run out of identifiers.
\<close>

definition pushed :: "zonk_state \<Rightarrow> zonk_work list \<Rightarrow> nat set \<Rightarrow> nat \<Rightarrow> type_arena \<Rightarrow> unifier \<Rightarrow> zonk_state" where
  "pushed s work vis z ar u =
    s\<lparr>z_work := work, z_results := z # z_results s, z_visiting := vis, z_arena := ar, z_unifier := u\<rparr>"

definition zonk_reaches ::
  "kind_arena \<Rightarrow> ty \<Rightarrow> zonk_state \<Rightarrow> zonk_work list \<Rightarrow> nat set \<Rightarrow> zonk_state \<Rightarrow> bool" where
  "zonk_reaches ks t base work vis s \<longleftrightarrow>
    (\<exists>z ar u. closed t \<and> grows ks (z_arena s, z_unifier s) (ar, u) \<and> z < length (t_nodes ar) \<and>
       tree (t_nodes ar) z = t \<and>
       run_calls zonk_step s = run_calls zonk_step (pushed base work vis z ar u)) \<or>
    (\<exists>e ar u. zonk_error t e \<and> grows ks (z_arena s, z_unifier s) (ar, u) \<and>
       run_calls zonk_step s = Some ((u, ar), Err e)) \<or>
    (\<exists>ar u. u32_max < length (t_nodes ar) \<and> run_calls zonk_step s = Some ((u, ar), Panic))"

text \<open>Visits in sequence: an error or a full arena ends the loop at once.\<close>

lemma zonk_reaches_then:
  assumes first: "zonk_reaches ks t' s work' vis' s"
    and err: "\<And>e. zonk_error t' e \<Longrightarrow> zonk_error t e"
    and rest: "\<And>z ar u. closed t' \<Longrightarrow> grows ks (z_arena s, z_unifier s) (ar, u) \<Longrightarrow> z < length (t_nodes ar) \<Longrightarrow>
      tree (t_nodes ar) z = t' \<Longrightarrow> zonk_reaches ks t base work vis (pushed s work' vis' z ar u)"
  shows "zonk_reaches ks t base work vis s"
proof -
  from first consider
      (ok) z ar u where "closed t'" "grows ks (z_arena s, z_unifier s) (ar, u)" "z < length (t_nodes ar)"
        "tree (t_nodes ar) z = t'" "run_calls zonk_step s = run_calls zonk_step (pushed s work' vis' z ar u)"
    | (err) e ar u where "zonk_error t' e" "grows ks (z_arena s, z_unifier s) (ar, u)"
        "run_calls zonk_step s = Some ((u, ar), Err e)"
    | (full) ar u where "u32_max < length (t_nodes ar)" "run_calls zonk_step s = Some ((u, ar), Panic)"
    unfolding zonk_reaches_def by blast
  then show ?thesis
  proof cases
    case ok
    have "z_arena (pushed s work' vis' z ar u) = ar" "z_unifier (pushed s work' vis' z ar u) = u"
      by (simp_all add: pushed_def)
    with rest [OF ok(1-4)] ok(5) grows_trans [OF ok(2)] show ?thesis
      unfolding zonk_reaches_def by metis
  next
    case err
    with assms(2) show ?thesis unfolding zonk_reaches_def by blast
  next
    case full
    then show ?thesis unfolding zonk_reaches_def by blast
  qed
qed

text \<open>Adding the entry of a solved, closed type keeps the cache correct.\<close>

lemma cache_insert:
  assumes ok: "unifier_ok ks ar u" and mg: "most_general (t_nodes ar) (metas u) \<sigma>"
    and t: "subst \<sigma> (tree (t_nodes ar) k) = t" "closed t" "tree (t_nodes ar) z = t"
    and len: "k < length (t_nodes ar)" "z < length (t_nodes ar)"
  shows "grows ks (ar, u) (ar, u\<lparr>zonked := (zonked u)(k \<mapsto> z)\<rparr>)"
proof -
  have "subst \<theta> (tree (t_nodes ar) k) = t" if "solves (t_nodes ar) (metas u) \<theta>" for \<theta>
  proof -
    have "subst \<theta> (tree (t_nodes ar) k) = subst \<theta> t" using most_general_subst [OF mg that] t(1) by metis
    then show ?thesis using subst_closed closed_metas [OF t(2)] by simp
  qed
  then have "cache_ok (t_nodes ar) (metas u) ((zonked u)(k \<mapsto> z))"
    using ok t len by (auto simp: unifier_ok_def cache_ok_def)
  then show ?thesis using ok by (simp add: grows_def unifier_ok_def extends_types_refl)
qed

text \<open>The node rebuilt from two zonked children.\<close>

lemma zonk_rebuilds:
  assumes ok: "unifier_ok ks (z_arena s) (z_unifier s)"
    and mg: "most_general (t_nodes (z_arena s)) (metas (z_unifier s)) \<sigma>"
    and t: "subst \<sigma> (tree (t_nodes (z_arena s)) k) = t" "closed t" "k < length (t_nodes (z_arena s))"
    and res: "z_results s = z2 # z1 # rest" "z1 < length (t_nodes (z_arena s))" "z2 < length (t_nodes (z_arena s))"
    and build: "children (build z1 z2) = [z1, z2]" "node_tree (tree (t_nodes (z_arena s))) (build z1 z2) = t"
    and vis: "k \<notin> vis" "z_visiting s = insert k vis"
  shows "(\<exists>z ar u. grows ks (z_arena s, z_unifier s) (ar, u) \<and> z < length (t_nodes ar) \<and>
       tree (t_nodes ar) z = t \<and>
       zonk_rebuild k build s = Some (Inl
         (s\<lparr>z_results := z # rest, z_visiting := vis, z_arena := ar, z_unifier := u\<rparr>))) \<or>
    (\<exists>ar u. u32_max < length (t_nodes ar) \<and> zonk_rebuild k build s = Some (Inr ((u, ar), Panic)))"
proof -
  let ?ar = "z_arena s" and ?u = "z_unifier s"
  obtain ar r where int: "type_intern ?ar (build z1 z2) = (ar, r)" by fastforce
  have v: "z_visiting s - {k} = vis" using vis by auto
  show ?thesis
  proof (cases r)
    case (Ok z)
    have meta: "\<not> is_meta (build z1 z2)" using build(1) by (cases "build z1 z2") auto
    have "kind_scoped ks (mkind (metas ?u)) (node_tree (tree (t_nodes ?ar)) (build z1 z2))"
    proof -
      have "kind_scoped ks (mkind (metas ?u)) (tree (t_nodes ?ar) c)" if "c \<in> {z1, z2}" for c
        using that ok res by (auto simp: unifier_ok_def all_scoped_def)
      then show ?thesis using build(1) by (cases "build z1 z2") auto
    qed
    moreover have ch: "\<forall>c \<in> set (children (build z1 z2)). c < length (t_nodes ?ar)" using build res by simp
    ultimately have g: "grows ks (?ar, ?u) (ar, ?u)"
      using intern_grows [OF ok _ _ meta] int Ok by blast
    have tok: "types_ok ?ar" using ok by (simp add: unifier_ok_def)
    note it = intern_tree [OF tok int [unfolded Ok] ch]
    have z: "tree (t_nodes ar) z = t" "z < length (t_nodes ar)" using it build(2) by simp_all
    have k: "k < length (t_nodes ar)" "tree (t_nodes ar) k = tree (t_nodes ?ar) k"
      using grows_tree [OF g tok t(3)] by simp_all
    have "grows ks (ar, ?u) (ar, ?u\<lparr>zonked := (zonked ?u)(k \<mapsto> z)\<rparr>)"
    proof (rule cache_insert)
      show "unifier_ok ks ar ?u" using g by (simp add: grows_def)
      show "most_general (t_nodes ar) (metas ?u) \<sigma>" by (rule grows_most_general [OF mg g])
      show "subst \<sigma> (tree (t_nodes ar) k) = t" using t(1) k(2) by simp
    qed (use z k t(2) in simp_all)
    then have "grows ks (?ar, ?u) (ar, ?u\<lparr>zonked := (zonked ?u)(k \<mapsto> z)\<rparr>)" by (rule grows_trans [OF g])
    moreover have "zonk_rebuild k build s = Some (Inl
        (s\<lparr>z_results := z # rest, z_visiting := vis, z_arena := ar, z_unifier := ?u\<lparr>zonked := (zonked ?u)(k \<mapsto> z)\<rparr>\<rparr>))"
      using res(1) int Ok v by (simp add: zonk_rebuild_def Let_def)
    ultimately show ?thesis using z by blast
  next
    case (Err e)
    then show ?thesis using types.intern_no_error [of ?ar "build z1 z2"] int by simp
  next
    case Panic
    have "u32_max < length (t_nodes ar)"
      using types.intern_full [of ?ar "build z1 z2"] int Panic by simp
    moreover have "zonk_rebuild k build s = Some (Inr ((?u, ar), Panic))"
      using res(1) int Panic by (simp add: zonk_rebuild_def zonk_leave_def Let_def)
    ultimately show ?thesis by blast
  qed
qed

lemma zonk_node_reaches:
  assumes step: "zonk_step s = zonk_rebuild k build (s\<lparr>z_work := work\<rparr>)"
    and ok: "unifier_ok ks (z_arena s) (z_unifier s)"
    and mg: "most_general (t_nodes (z_arena s)) (metas (z_unifier s)) \<sigma>"
    and t: "subst \<sigma> (tree (t_nodes (z_arena s)) k) = t" "closed t" "k < length (t_nodes (z_arena s))"
    and res: "z_results s = z2 # z1 # z_results base" "z1 < length (t_nodes (z_arena s))" "z2 < length (t_nodes (z_arena s))"
    and build: "children (build z1 z2) = [z1, z2]" "node_tree (tree (t_nodes (z_arena s))) (build z1 z2) = t"
    and vis: "k \<notin> vis" "z_visiting s = insert k vis"
    and base: "\<And>z ar u. s\<lparr>z_work := work, z_results := z # z_results base, z_visiting := vis, z_arena := ar, z_unifier := u\<rparr>
      = pushed base work vis z ar u"
  shows "zonk_reaches ks t base work vis s"
proof -
  let ?s = "s\<lparr>z_work := work\<rparr>"
  from zonk_rebuilds [where s = ?s and vis = vis and rest = "z_results base" and build = build and k = k
      and t = t and \<sigma> = \<sigma> and ?z1.0 = z1 and ?z2.0 = z2 and ks = ks, simplified, OF ok mg t res build vis]
  consider z ar u where "grows ks (z_arena s, z_unifier s) (ar, u)" "z < length (t_nodes ar)" "tree (t_nodes ar) z = t"
      "zonk_step s = Some (Inl (pushed base work vis z ar u))"
    | ar u where "u32_max < length (t_nodes ar)" "zonk_step s = Some (Inr ((u, ar), Panic))"
    unfolding step base [symmetric] by auto
  then show ?thesis
  proof cases
    case 1
    then show ?thesis
      using run_calls_Inl [where step = zonk_step and s = s] t(2) unfolding zonk_reaches_def by metis
  next
    case 2
    then show ?thesis
      using run_calls_Inr [where step = zonk_step and s = s] unfolding zonk_reaches_def by metis
  qed
qed

text \<open>The situation in which an identifier of solved tree \<open>t\<close> is about to be visited.\<close>

definition zonk_ready :: "kind_arena \<Rightarrow> (nat \<Rightarrow> ty) \<Rightarrow> ty \<Rightarrow> nat \<Rightarrow> zonk_state \<Rightarrow> zonk_work list \<Rightarrow> bool" where
  "zonk_ready ks \<sigma> t k s work \<longleftrightarrow>
    unifier_ok ks (z_arena s) (z_unifier s) \<and>
    most_general (t_nodes (z_arena s)) (metas (z_unifier s)) \<sigma> \<and>
    k < length (t_nodes (z_arena s)) \<and> subst \<sigma> (tree (t_nodes (z_arena s)) k) = t \<and>
    z_work s = ZVisit k # work \<and>
    (\<forall>v \<in> z_visiting s. v < length (t_nodes (z_arena s)) \<and>
       size t < size (subst \<sigma> (tree (t_nodes (z_arena s)) v)))"

lemma zonk_ready_pushed:
  assumes "grows ks (z_arena s, z_unifier s) (ar, u)" "unifier_ok ks (z_arena s) (z_unifier s)"
    and "most_general (t_nodes (z_arena s)) (metas (z_unifier s)) \<sigma>"
    and "k < length (t_nodes (z_arena s))" "subst \<sigma> (tree (t_nodes (z_arena s)) k) = t"
    and "\<forall>v \<in> vis. v < length (t_nodes (z_arena s)) \<and> size t < size (subst \<sigma> (tree (t_nodes (z_arena s)) v))"
  shows "zonk_ready ks \<sigma> t k (pushed s (ZVisit k # work) vis z ar u) work"
proof -
  have "types_ok (z_arena s)" using assms(2) by (simp add: unifier_ok_def)
  note old = grows_tree [OF assms(1) this]
  have "unifier_ok ks ar u" using assms(1) by (simp add: grows_def)
  then show ?thesis
    using grows_most_general [OF assms(3,1)] old assms(4-6) by (simp add: zonk_ready_def pushed_def)
qed

lemma zonk_children:
  assumes IH: "\<And>t' k' s' work'. size t' < size t \<Longrightarrow> zonk_ready ks \<sigma> t' k' s' work' \<Longrightarrow>
      zonk_reaches ks t' s' work' (z_visiting s') s'"
    and build: "build = TApply \<or> build = TFunction \<or> (\<exists>label. build = TRowCons label)"
    and item: "\<And>s w. z_work s = item # w \<Longrightarrow> zonk_step s = zonk_rebuild k build (s\<lparr>z_work := w\<rparr>)"
    and work: "z_work s = ZVisit l # ZVisit r # item # work"
    and ok: "unifier_ok ks (z_arena s) (z_unifier s)"
    and mg: "most_general (t_nodes (z_arena s)) (metas (z_unifier s)) \<sigma>"
    and k: "vget (t_nodes (z_arena s)) k = Some (build l r)"
      "subst \<sigma> (tree (t_nodes (z_arena s)) k) = t"
    and vis: "k \<notin> vis" "z_visiting s = insert k vis"
      "\<forall>v \<in> vis. v < length (t_nodes (z_arena s)) \<and> size t < size (subst \<sigma> (tree (t_nodes (z_arena s)) v))"
  shows "zonk_reaches ks t s work vis s"
proof -
  let ?N = "t_nodes (z_arena s)"
  define tl tr where "tl = subst \<sigma> (tree ?N l)" and "tr = subst \<sigma> (tree ?N r)"
  have tok: "types_ok (z_arena s)" and nb: "nodes_below ?N" using ok by (auto simp: unifier_ok_def types_ok_def)
  have klen: "k < length ?N" using k(1) by (simp add: vget_Some)
  have ch: "children (build a b) = [a, b]" for a b using build by auto
  have lr: "l < length ?N" "r < length ?N" using children_below [OF nb k(1)] klen by (fastforce simp: ch)+
  have tk: "t = subst \<sigma> (node_tree (tree ?N) (build l r))" using k(2) tree_node [OF nb k(1)] by simp
  have built: "node_tree T (build a b) = t" if "T a = tl" "T b = tr" for T a b
    using build that unfolding tk tl_def tr_def by auto
  have sizes: "size tl < size t" "size tr < size t" and cl: "closed t \<longleftrightarrow> closed tl \<and> closed tr"
    and err: "\<And>e. zonk_error tl e \<Longrightarrow> zonk_error t e" "\<And>e. zonk_error tr e \<Longrightarrow> zonk_error t e"
    using build unfolding tk tl_def tr_def zonk_error_def by auto
  have visk: "\<forall>v \<in> insert k vis. v < length ?N \<and> n < size (subst \<sigma> (tree ?N v))" if "n < size t" for n
    using vis(3) that klen k(2) by fastforce
  show ?thesis
  proof (rule zonk_reaches_then [OF _ err(1)])
    have "zonk_ready ks \<sigma> tl l s (ZVisit r # item # work)"
      using ok mg lr(1) work vis(2) visk [OF sizes(1)] by (simp add: zonk_ready_def tl_def)
    from IH [OF sizes(1) this] show "zonk_reaches ks tl s (ZVisit r # item # work) (insert k vis) s"
      using vis(2) by simp
  next
    fix z1 ar1 u1
    assume c1: "closed tl" and g1: "grows ks (z_arena s, z_unifier s) (ar1, u1)"
      and z1: "z1 < length (t_nodes ar1)" "tree (t_nodes ar1) z1 = tl"
    let ?s1 = "pushed s (ZVisit r # item # work) (insert k vis) z1 ar1 u1"
    show "zonk_reaches ks t s work vis ?s1"
    proof (rule zonk_reaches_then [OF _ err(2)])
      have "zonk_ready ks \<sigma> tr r ?s1 (item # work)"
        by (rule zonk_ready_pushed [OF g1 ok mg lr(2) _ visk [OF sizes(2)]]) (simp add: tr_def)
      from IH [OF sizes(2) this] show "zonk_reaches ks tr ?s1 (item # work) (insert k vis) ?s1"
        by (simp add: pushed_def)
    next
      fix z2 ar2 u2
      assume c2: "closed tr" and g2: "grows ks (z_arena ?s1, z_unifier ?s1) (ar2, u2)"
        and z2: "z2 < length (t_nodes ar2)" "tree (t_nodes ar2) z2 = tr"
      let ?s2 = "pushed ?s1 (item # work) (insert k vis) z2 ar2 u2"
      have g2': "grows ks (ar1, u1) (ar2, u2)" using g2 by (simp add: pushed_def)
      note g = grows_trans [OF g1 g2']
      have tok1: "types_ok ar1" using g1 by (simp add: grows_def unifier_ok_def)
      note z1' = grows_tree [OF g2' tok1 z1(1), unfolded z1(2)] and k' = grows_tree [OF g tok klen]
      show "zonk_reaches ks t s work vis ?s2"
      proof (rule zonk_node_reaches [where \<sigma> = \<sigma> and k = k and ?z1.0 = z1 and ?z2.0 = z2])
        show "zonk_step ?s2 = zonk_rebuild k build (?s2\<lparr>z_work := work\<rparr>)"
          by (rule item) (simp add: pushed_def)
        show "unifier_ok ks (z_arena ?s2) (z_unifier ?s2)" using g by (simp add: grows_def pushed_def)
        show "most_general (t_nodes (z_arena ?s2)) (metas (z_unifier ?s2)) \<sigma>"
          using grows_most_general [OF mg g] by (simp add: pushed_def)
        show "node_tree (tree (t_nodes (z_arena ?s2))) (build z1 z2) = t"
          using built z1' z2(2) by (simp add: pushed_def)
      qed (use c1 c2 cl k' k(2) z1' z2 ch vis(1) in \<open>simp_all add: pushed_def\<close>)
    qed
  qed
qed

lemma zonk_reaches_Inl:
  assumes "zonk_step s = Some (Inl s1)" "zonk_reaches ks t base work vis s1"
    "grows ks (z_arena s, z_unifier s) (z_arena s1, z_unifier s1)"
  shows "zonk_reaches ks t base work vis s"
  using assms(2) run_calls_Inl [where step = zonk_step, OF assms(1)] grows_trans [OF assms(3)]
  unfolding zonk_reaches_def by metis

lemma zonk_reaches_leaf:
  assumes "zonk_step s = Some (Inl (pushed base work vis z ar u))" "closed t"
    "grows ks (z_arena s, z_unifier s) (ar, u)" "z < length (t_nodes ar)" "tree (t_nodes ar) z = t"
  shows "zonk_reaches ks t base work vis s"
  using assms run_calls_Inl [where step = zonk_step, OF assms(1)] unfolding zonk_reaches_def by metis

lemma zonk_reaches_fail:
  assumes "zonk_step s = Some (Inr ((u, ar), Err e))" "zonk_error t e"
    "grows ks (z_arena s, z_unifier s) (ar, u)"
  shows "zonk_reaches ks t base work vis s"
  using assms run_calls_Inr [where step = zonk_step, OF assms(1)] unfolding zonk_reaches_def by metis

lemma zonk_visit_reaches:
  "zonk_ready ks \<sigma> t k s work \<Longrightarrow> zonk_reaches ks t s work (z_visiting s) s"
proof (induction "size t" arbitrary: t k s work rule: less_induct)
  case less
  let ?N = "t_nodes (z_arena s)" and ?vis = "z_visiting s"
  from less.prems have ok: "unifier_ok ks (z_arena s) (z_unifier s)"
    and mg: "most_general ?N (metas (z_unifier s)) \<sigma>" and k: "k < length ?N" and t: "subst \<sigma> (tree ?N k) = t"
    and work: "z_work s = ZVisit k # work"
    and vis: "\<forall>v \<in> ?vis. v < length ?N \<and> size t < size (subst \<sigma> (tree ?N v))"
    by (auto simp: zonk_ready_def)
  obtain j u where pr: "prune (z_unifier s) (z_arena s) k = Some (Ok (j, u))"
    and tidy: "tidied ks (z_arena s) (z_unifier s) u" and j: "j < length ?N"
    and e: "is_end ?N (metas (z_unifier s)) j" and tj: "subst \<sigma> (tree ?N j) = t"
    using prune_correct [OF ok k] mg t by (auto simp: most_general_def)
  have g: "grows ks (z_arena s, z_unifier s) (z_arena s, u)" by (rule grows_tidied [OF tidy])
  have ok1: "unifier_ok ks (z_arena s) u" using tidy by (simp add: tidied_def)
  have mg1: "most_general ?N (metas u) \<sigma>" by (rule grows_most_general [OF mg g])
  have nb: "nodes_below ?N" using ok by (simp add: unifier_ok_def types_ok_def)
  have notvis: "j \<notin> ?vis" using vis tj by auto
  have step: "zonk_step s = zonk_visit k (s\<lparr>z_work := work\<rparr>)" using work by (simp add: zonk_step_def Let_def)
  obtain n where n: "vget ?N j = Some n" using j by simp
  have tn: "tree ?N j = node_tree (tree ?N) n" by (rule tree_node [OF nb n])
  show ?case
  proof (cases "zonked u j")
    case (Some z)
    have z: "z < length ?N" "closed (tree ?N z)" "subst \<sigma> (tree ?N j) = tree ?N z"
      using ok1 mg1 Some unfolding unifier_ok_def cache_ok_def most_general_def by blast+
    have "zonk_step s = Some (Inl (pushed s work ?vis z (z_arena s) u))"
      unfolding step using pr Some by (cases s) (simp add: zonk_visit_def Let_def pushed_def)
    then show ?thesis by (rule zonk_reaches_leaf) (use g z tj in auto)
  next
    case None
    note visit = zonk_visit_def Let_def zonk_leave_def type_get_def
    have two: "zonk_reaches ks t s work ?vis s"
      if n2: "n = build l r" and build: "build = TApply \<or> build = TFunction \<or> (\<exists>label. build = TRowCons label)"
        and item: "\<And>s w. z_work s = item # w \<Longrightarrow> zonk_step s = zonk_rebuild j build (s\<lparr>z_work := w\<rparr>)"
        and s1: "zonk_step s = Some (Inl (s\<lparr>z_work := ZVisit l # ZVisit r # item # work, z_unifier := u,
            z_visiting := insert j ?vis\<rparr>))"
      for build l r item
    proof -
      let ?s1 = "s\<lparr>z_work := ZVisit l # ZVisit r # item # work, z_unifier := u, z_visiting := insert j ?vis\<rparr>"
      have "zonk_reaches ks t ?s1 work ?vis ?s1"
        by (rule zonk_children [OF less.hyps build item, where \<sigma> = \<sigma>])
           (use n n2 ok1 mg1 tj notvis vis in simp_all)
      then have "zonk_reaches ks t s work ?vis ?s1"
        unfolding zonk_reaches_def pushed_def by simp
      then show ?thesis using zonk_reaches_Inl [OF s1] g by simp
    qed
    have leaf: "zonk_reaches ks t s work ?vis s" if "closed (tree ?N j)" "children n = []" "\<not> is_meta n"
      "\<forall>b. n \<noteq> TBound b"
    proof -
      have tt: "tree ?N j = t" using tj subst_closed [OF closed_metas [OF that(1)]] by simp
      have "zonk_step s = Some (Inl (pushed s work ?vis j (z_arena s) (u\<lparr>zonked := (zonked u)(j \<mapsto> j)\<rparr>)))"
        unfolding step using pr None n notvis that(2-4)
        by (cases s; cases n) (simp_all add: visit pushed_def)
      then show ?thesis
        by (rule zonk_reaches_leaf)
           (use that(1) tt j grows_trans [OF g cache_insert [OF ok1 mg1 tj _ tt j j]] in auto)
    qed
    show ?thesis
    proof (cases n)
      case (TMeta m)
      have "zonk_step s = Some (Inr ((u, z_arena s), Err (Ambiguous m)))"
        unfolding step using pr None n notvis TMeta by (simp add: visit)
      moreover have "t = Meta m" using end_cases [OF ok e j mg] n TMeta tj by fastforce
      ultimately show ?thesis using g by (intro zonk_reaches_fail) (auto simp: zonk_error_def)
    next
      case (TBound b)
      have "zonk_step s = Some (Inr ((u, z_arena s), Err (Internal ''bound type escaped scheme instantiation'')))"
        unfolding step using pr None n notvis TBound by (simp add: visit)
      moreover have "t = Bound b" using tn TBound tj by simp
      ultimately show ?thesis using g by (intro zonk_reaches_fail) (auto simp: zonk_error_def)
    next
      case (TApply l r)
      then show ?thesis
        by (intro two [of TApply l r "ZApply j"])
           (use pr None n notvis work in \<open>simp_all add: visit zonk_step_def\<close>)
    next
      case (TFunction l r)
      then show ?thesis
        by (intro two [of TFunction l r "ZFunction j"])
           (use pr None n notvis work in \<open>simp_all add: visit zonk_step_def\<close>)
    next
      case (TRowCons label f r)
      have row: "TRowCons label = TApply \<or> TRowCons label = TFunction \<or> (\<exists>l. TRowCons label = TRowCons l)"
        by blast
      show ?thesis
        by (rule two [of "TRowCons label" f r "ZRow j label", OF TRowCons row])
           (use TRowCons pr None n notvis work in \<open>simp_all add: visit zonk_step_def\<close>)
    qed (use leaf tn in auto)
  qed
qed

lemma zonk_run:
  assumes "unifier_ok ks ar u" "most_general (t_nodes ar) (metas u) \<sigma>" "i < length (t_nodes ar)"
    and "subst \<sigma> (tree (t_nodes ar) i) = t"
  shows "(\<exists>z ar' u'. zonk u ar i = Some ((u', ar'), Ok z) \<and> closed t \<and> grows ks (ar, u) (ar', u') \<and>
      z < length (t_nodes ar') \<and> tree (t_nodes ar') z = t) \<or>
    (\<exists>e ar' u'. zonk u ar i = Some ((u', ar'), Err e) \<and> zonk_error t e \<and> grows ks (ar, u) (ar', u')) \<or>
    (\<exists>ar' u'. zonk u ar i = Some ((u', ar'), Panic) \<and> u32_max < length (t_nodes ar'))"
proof -
  let ?s = "\<lparr>z_work = [ZVisit i], z_results = [], z_visiting = {}, z_arena = ar, z_unifier = u\<rparr>"
  have "zonk_ready ks \<sigma> t i ?s []" using assms by (simp add: zonk_ready_def)
  from zonk_visit_reaches [OF this] have "zonk_reaches ks t ?s [] {} ?s" by simp
  moreover have "run_calls zonk_step (pushed ?s [] {} z ar' u') = Some ((u', ar'), Ok z)" for z ar' u'
    by (rule run_calls_Inr) (simp add: zonk_step_def zonk_leave_def pushed_def)
  ultimately show ?thesis unfolding zonk_reaches_def zonk_def by auto
qed

text \<open>
  C14: \<open>Unifier::zonk\<close> solves a type.  The loop terminates.  When the type's solved tree is
  closed, it returns an identifier of exactly that tree; when it is not, it fails, with
  \<open>Ambiguous\<close> naming a metavariable that is left in the tree or with \<open>Internal\<close> for a
  bound variable.  The only panic is an arena of more than \<open>u32::MAX\<close> nodes.  Solutions
  and older identifiers keep their meaning, and the cache stays correct.
\<close>

theorem zonk_solves:
  assumes "unifier_ok ks ar u" "i < length (t_nodes ar)"
    and "most_general (t_nodes ar) (metas u) \<sigma>"
  shows "\<exists>u' ar' r. zonk u ar i = Some ((u', ar'), r) \<and>
    (case r of
       Ok z \<Rightarrow> closed (subst \<sigma> (tree (t_nodes ar) i)) \<and> z < length (t_nodes ar') \<and>
         tree (t_nodes ar') z = subst \<sigma> (tree (t_nodes ar) i) \<and> grows ks (ar, u) (ar', u')
     | Err e \<Rightarrow> zonk_error (subst \<sigma> (tree (t_nodes ar) i)) e \<and> grows ks (ar, u) (ar', u')
     | Panic \<Rightarrow> u32_max < length (t_nodes ar'))"
  using zonk_run [OF assms(1,3,2) refl] by (elim disjE exE conjE) auto

theorem zonk_solves_witness:
  "\<exists>u' ar' r. zonk unifier_default kind_sample 1 = Some ((u', ar'), r) \<and>
    (case r of
       Ok z \<Rightarrow> closed (subst Meta (tree (t_nodes kind_sample) 1)) \<and> z < length (t_nodes ar') \<and>
         tree (t_nodes ar') z = subst Meta (tree (t_nodes kind_sample) 1) \<and>
         grows kind_default (kind_sample, unifier_default) (ar', u')
     | Err e \<Rightarrow> zonk_error (subst Meta (tree (t_nodes kind_sample) 1)) e \<and>
         grows kind_default (kind_sample, unifier_default) (ar', u')
     | Panic \<Rightarrow> u32_max < length (t_nodes ar'))"
  by (rule zonk_solves [OF kind_sample_unifier])
     (simp_all add: kind_sample_nodes most_general_def solves_def binding_def unifier_default_def)

text \<open>
  Unified types zonk to the same identifier.  After a successful \<open>unify\<close>, zonking
  both types, in either order the second from the state the first left, yields one and
  the same arena identifier: equality of closed types is equality of identifiers.
\<close>

theorem unify_then_zonk:
  assumes "unifier_ok ks ar u" "kinds_ok ks" "l < length (t_nodes ar)" "r < length (t_nodes ar)"
    and "unify u ar ks l r = Some (u0, Ok ())"
    and "zonk u0 ar l = Some ((u1, ar1), Ok z1)" "zonk u1 ar1 r = Some ((u2, ar2), Ok z2)"
  shows "z1 = z2"
proof -
  obtain u' res where "unify u ar ks l r = Some (u', res)" "unifier_ok ks ar u'" and
    eq: "res = Ok () \<longrightarrow> (\<forall>\<theta>. solves (t_nodes ar) (metas u') \<theta> \<longleftrightarrow> solves (t_nodes ar) (metas u) \<theta> \<and>
       subst \<theta> (tree (t_nodes ar) l) = subst \<theta> (tree (t_nodes ar) r))"
    using unify_ok_post [OF assms(1-4)] by blast
  then have ok: "unifier_ok ks ar u0" and
    same: "\<And>\<theta>. solves (t_nodes ar) (metas u0) \<theta> \<Longrightarrow> subst \<theta> (tree (t_nodes ar) l) = subst \<theta> (tree (t_nodes ar) r)"
    using assms(5) by auto
  from ok obtain \<sigma> where mg: "most_general (t_nodes ar) (metas u0) \<sigma>" unfolding unifier_ok_def by blast
  let ?t = "subst \<sigma> (tree (t_nodes ar) l)"
  have tr: "subst \<sigma> (tree (t_nodes ar) r) = ?t" using same [of \<sigma>] mg by (simp add: most_general_def)
  from zonk_run [OF ok mg assms(3) refl] assms(6)
  have cl: "closed ?t" and g1: "grows ks (ar, u0) (ar1, u1)" and z1: "z1 < length (t_nodes ar1)" "tree (t_nodes ar1) z1 = ?t"
    by auto
  have tok: "types_ok ar" and ok1: "unifier_ok ks ar1 u1" and tok1: "types_ok ar1"
    using ok g1 by (auto simp: unifier_ok_def grows_def)
  note r1 = grows_tree [OF g1 tok assms(4)]
  have "subst \<sigma> (tree (t_nodes ar1) r) = ?t" using r1 tr by simp
  from zonk_run [OF ok1 grows_most_general [OF mg g1] conjunct1 [OF r1] this] assms(7)
  have g2: "grows ks (ar1, u1) (ar2, u2)" and z2: "z2 < length (t_nodes ar2)" "tree (t_nodes ar2) z2 = ?t"
    by auto
  have tok2: "types_ok ar2" using g2 by (auto simp: unifier_ok_def grows_def)
  show ?thesis
    using tree_injective [OF tok2] z2 grows_tree [OF g2 tok1 z1(1)] z1(2) closed_metas [OF cl] by metis
qed

text \<open>The sample: unify the metavariable with \<open>Int -> Int\<close>, then zonk both.\<close>

lemma zonk_sample:
  "case unify unifier_sample arena_sample kind_default 2 1 of
      Some (u0, Ok ()) \<Rightarrow>
        (case zonk u0 arena_sample 2 of
           Some ((u1, ar1), Ok z1) \<Rightarrow>
             (case zonk u1 ar1 1 of Some ((u2, ar2), Ok z2) \<Rightarrow> True | _ \<Rightarrow> False)
         | _ \<Rightarrow> False)
    | _ \<Rightarrow> False"
  by code_simp

lemma unify_returned:
  "(case x of Some (u, Ok ()) \<Rightarrow> P u | _ \<Rightarrow> False) \<longleftrightarrow> (\<exists>u. x = Some (u :: unifier, Ok () :: (unit, type_error) res) \<and> P u)"
  by (auto split: option.splits prod.splits res.splits unit.splits)

lemma zonk_returned:
  "(case x of Some ((u, ar), Ok z) \<Rightarrow> P u ar z | _ \<Rightarrow> False) \<longleftrightarrow>
    (\<exists>u ar z. x = Some ((u, ar), Ok z :: (nat, type_error) res) \<and> P u ar z)"
  by (auto split: option.splits prod.splits res.splits)

lemma sample_unifier: "unifier_ok kind_default arena_sample unifier_sample"
  using fresh_keeps [OF kind_sample_unifier _ fresh_sample_eq] by (simp add: kind_default_nodes TYPE_KIND_def)

lemma sample_length: "length (t_nodes arena_sample) = 3"
  using fresh_result(3) [OF fresh_sample_eq] by (simp add: kind_sample_nodes)

theorem unify_then_zonk_witness:
  "\<exists>u0 u1 ar1 z1 u2 ar2 z2. unify unifier_sample arena_sample kind_default 2 1 = Some (u0, Ok ()) \<and>
     zonk u0 arena_sample 2 = Some ((u1, ar1), Ok z1) \<and> zonk u1 ar1 1 = Some ((u2, ar2), Ok z2) \<and> z1 = z2"
proof -
  obtain u0 u1 ar1 z1 u2 ar2 z2 where
    1: "unify unifier_sample arena_sample kind_default 2 1 = Some (u0, Ok ())"
    and 2: "zonk u0 arena_sample 2 = Some ((u1, ar1), Ok z1)" and 3: "zonk u1 ar1 1 = Some ((u2, ar2), Ok z2)"
    using zonk_sample unfolding unify_returned zonk_returned by blast
  have "z1 = z2"
    by (rule unify_then_zonk [OF sample_unifier kind_default_ok _ _ 1 2 3]) (simp_all add: sample_length)
  with 1 2 3 show ?thesis by blast
qed

text \<open>
  C3: \<open>Unifier::unify\<close> decides unifiability.  On a well-formed unifier and well-formed
  arenas the loop terminates and does not panic.  If it returns \<open>Ok\<close>, the solutions of
  the bindings are exactly the former solutions that make the two types equal; if it
  returns an error, no former solution that respects kinds makes them equal.  Either way
  the unifier stays well formed, in particular its bindings are acyclic and well kinded,
  and has a most general solution.
\<close>

theorem unify_decides:
  assumes "unifier_ok ks ar u" "kinds_ok ks" "l < length (t_nodes ar)" "r < length (t_nodes ar)"
  shows "\<exists>u' res. unify u ar ks l r = Some (u', res) \<and> res \<noteq> Panic \<and> unifier_ok ks ar u' \<and>
    (res = Ok () \<longrightarrow> (\<forall>\<theta>. solves (t_nodes ar) (metas u') \<theta> \<longleftrightarrow> solves (t_nodes ar) (metas u) \<theta> \<and>
       subst \<theta> (tree (t_nodes ar) l) = subst \<theta> (tree (t_nodes ar) r))) \<and>
    (\<forall>e. res = Err e \<longrightarrow> (\<nexists>\<theta>. solves (t_nodes ar) (metas u) \<theta> \<and>
       kind_respecting ks (mkind (metas u)) \<theta> \<and>
       subst \<theta> (tree (t_nodes ar) l) = subst \<theta> (tree (t_nodes ar) r)))"
  by (rule unify_ok_post [OF assms])

theorem unify_decides_witness:
  "\<exists>u' res. unify unifier_sample arena_sample kind_default 2 1 = Some (u', res) \<and> res \<noteq> Panic \<and>
     unifier_ok kind_default arena_sample u'"
  using unify_decides [OF sample_unifier kind_default_ok, of 2 1] by (auto simp: sample_length)

end
