(* ===== verification/Hell_Lexer.thy ===== *)
theory Hell_Lexer
  imports Hell_Source
begin

text \<open>
  The lexer of crate \<open>hell-syntax\<close>.  The scanner's state is a record that every function
  returns updated; a failed \<open>expect("validated source")\<close> is \<open>Panic\<close>.  Token texts are
  the UTF-8 bytes of the source, character literals are scalar values.  The Unicode
  property \<open>Uppercase\<close> beyond ASCII, a table of the standard library, is the parameter
  \<open>upper\<close>.  A message is a fixed text or the arguments of the one format that prints a
  token.
\<close>

section \<open>Tokens\<close>

datatype token_kind =
    TkLower string | TkUpper string | TkQualified string | TkOperator string
  | TkInteger string | TkFraction string | TkCharacter nat | TkText string
  | TkKwCase | TkKwData | TkKwDo | TkKwElse | TkKwIf | TkKwLet | TkKwOf | TkKwThen
  | TkLParen | TkRParen | TkLBracket | TkRBracket | TkLBrace | TkRBrace
  | TkComma | TkSemicolon | TkEquals | TkBackslash | TkArrow | TkBindArrow | TkDoubleColon
  | TkAt | TkPipe | TkUnderscore
  | TkVirtualLBrace | TkVirtualRBrace | TkVirtualSemicolon | TkEof

record token =
  tk_kind :: token_kind
  tk_span :: span
  starts_line :: bool
  column :: nat

datatype message = Msg string | Expected string token_kind

record syntax_error =
  err_code :: string
  err_message :: message
  err_span :: span

definition lex_error :: "string \<Rightarrow> span \<Rightarrow> syntax_error" where
  "lex_error message sp = \<lparr>err_code = ''H0100'', err_message = Msg message, err_span = sp\<rparr>"

definition parse_error :: "string \<Rightarrow> span \<Rightarrow> syntax_error" where
  "parse_error message sp = \<lparr>err_code = ''H0200'', err_message = Msg message, err_span = sp\<rparr>"

definition resource_limit_error :: "string \<Rightarrow> span \<Rightarrow> syntax_error" where
  "resource_limit_error message sp = \<lparr>err_code = ''H0801'', err_message = Msg message, err_span = sp\<rparr>"

definition resource_error :: "string \<Rightarrow> string \<Rightarrow> span \<Rightarrow> syntax_error" where
  "resource_error code message sp = \<lparr>err_code = code, err_message = Msg message, err_span = sp\<rparr>"

definition source_span :: "source_file \<Rightarrow> nat \<Rightarrow> nat \<Rightarrow> span" where
  "source_span f s e = span_new (file_id f) (u32_or_max s) (u32_or_max e)"

section \<open>The scanner's state\<close>

record lexer =
  lx_source :: source_file
  lx_bytes :: string
  lx_at :: nat
  line_start :: nat
  saw_token_on_line :: bool
  lx_errors :: "syntax_error list"

definition lexer_new :: "source_file \<Rightarrow> lexer" where
  "lexer_new f =
    \<lparr>lx_source = f, lx_bytes = file_bytes f,
     lx_at = (case shebang f of None \<Rightarrow> 0 | Some value \<Rightarrow> span_end value),
     line_start = 0, saw_token_on_line = False, lx_errors = []\<rparr>"

text \<open>\<open>self.bytes.get(self.at + k)\<close>, \<open>self.at += n\<close> and \<open>self.errors.push\<close>.\<close>

definition peek :: "lexer \<Rightarrow> nat \<Rightarrow> char option" where
  "peek l k = vget (lx_bytes l) (lx_at l + k)"

definition advance :: "nat \<Rightarrow> lexer \<Rightarrow> lexer" where
  "advance n l = l\<lparr>lx_at := lx_at l + n\<rparr>"

definition push_error :: "syntax_error \<Rightarrow> lexer \<Rightarrow> lexer" where
  "push_error e l = l\<lparr>lx_errors := lx_errors l @ [e]\<rparr>"

definition here :: "lexer \<Rightarrow> nat \<Rightarrow> span" where
  "here l start = source_span (lx_source l) start (lx_at l)"

text \<open>\<open>while self.bytes.get(self.at).is_some_and(p) { self.at += 1 }\<close>\<close>

definition skip_while :: "(char \<Rightarrow> bool) \<Rightarrow> lexer \<Rightarrow> lexer" where
  "skip_while p l = advance (length (takeWhile p (drop (lx_at l) (lx_bytes l)))) l"

text \<open>\<open>str::from_utf8(&self.bytes[start..self.at]).expect(..)\<close>\<close>

definition text_from :: "lexer \<Rightarrow> nat \<Rightarrow> (string, unit) res" where
  "text_from l start =
    (case vslice (lx_bytes l) start (lx_at l) of
       None \<Rightarrow> Panic
     | Some text \<Rightarrow> (case from_utf8 text of Ok _ \<Rightarrow> Ok text | _ \<Rightarrow> Panic))"

definition char_len :: "string \<Rightarrow> nat \<Rightarrow> nat" where
  "char_len bytes pos = (case from_utf8 (drop pos bytes) of Ok (c # _) \<Rightarrow> len_utf8 c | _ \<Rightarrow> 1)"

definition visual_column :: "lexer \<Rightarrow> nat \<Rightarrow> (nat, unit) res" where
  "visual_column l pos =
    (case vslice (lx_bytes l) (line_start l) pos of
       None \<Rightarrow> Panic
     | Some text \<Rightarrow> (case from_utf8 text of Ok chars \<Rightarrow> Ok (foldl next_column 1 chars) | _ \<Rightarrow> Panic))"

section \<open>Trivia\<close>

definition two_bytes :: "lexer \<Rightarrow> string option" where
  "two_bytes l = vslice (lx_bytes l) (lx_at l) (lx_at l + 2)"

text \<open>The loop over a nested block comment, from its current depth.\<close>

function block_comment :: "nat \<Rightarrow> lexer \<Rightarrow> nat \<times> lexer" where
  "block_comment depth l =
    (if lx_at l < length (lx_bytes l) \<and> 0 < depth then
       if two_bytes l = Some ''{-'' then block_comment (depth + 1) (advance 2 l)
       else if two_bytes l = Some ''-}'' then block_comment (depth - 1) (advance 2 l)
       else if lx_bytes l ! lx_at l = CHR 0x0A
       then block_comment depth (advance 1 (l\<lparr>line_start := lx_at l + 1, saw_token_on_line := False\<rparr>))
       else block_comment depth (advance 1 l)
     else (depth, l))"
  by pat_completeness auto
termination
  by (relation "measure (\<lambda>(depth, l). length (lx_bytes l) - lx_at l)") (auto simp: advance_def)

declare block_comment.simps [simp del]

definition skip_block_comment :: "lexer \<Rightarrow> lexer" where
  "skip_block_comment l =
    (let start = lx_at l;
         l1 = (if peek l 2 = Some (CHR ''#'')
               then push_error (parse_error ''Haskell pragmas are unsupported''
                      (source_span (lx_source l) start (min (start + 3) (length (lx_bytes l))))) l
               else l) in
     case block_comment 1 (advance 2 l1) of (depth, l2) \<Rightarrow>
       if depth \<noteq> 0
       then push_error (lex_error ''unterminated nested block comment'' (here l2 start)) l2
       else l2)"

text \<open>One round of \<open>skip_trivia\<close>; \<open>None\<close> is its \<open>return\<close>.\<close>

definition trivia_round :: "lexer \<Rightarrow> lexer option" where
  "trivia_round l =
    (case peek l 0 of
       None \<Rightarrow> None
     | Some b \<Rightarrow>
        (if b \<in> {CHR '' '', CHR 0x0D, CHR 0x09} then Some (advance 1 l)
         else if b = CHR 0x0A
         then Some ((advance 1 l)\<lparr>line_start := lx_at l + 1, saw_token_on_line := False\<rparr>)
         else if b = CHR ''-'' \<and> peek l 1 = Some (CHR ''-'')
         then Some (skip_while (\<lambda>b. b \<noteq> CHR 0x0A) (advance 2 l))
         else if b = CHR ''{'' \<and> peek l 1 = Some (CHR ''-'')
         then Some (skip_block_comment l)
         else None))"

lemma block_comment_at:
  "lx_at l \<le> lx_at (snd (block_comment depth l)) \<and> lx_bytes (snd (block_comment depth l)) = lx_bytes l"
proof (induction depth l rule: block_comment.induct)
  case (1 depth l)
  show ?case by (subst (1 2) block_comment.simps) (use 1 in \<open>auto simp: advance_def\<close>)
qed

lemma trivia_round_at:
  assumes "trivia_round l = Some l'"
  shows "lx_at l < lx_at l' \<and> lx_at l < length (lx_bytes l) \<and> lx_bytes l' = lx_bytes l"
proof -
  have "lx_at l < lx_at (skip_block_comment l) \<and> lx_bytes (skip_block_comment l) = lx_bytes l"
    using block_comment_at [of "advance 2 (if peek l 2 = Some (CHR ''#'')
               then push_error (parse_error ''Haskell pragmas are unsupported''
                      (source_span (lx_source l) (lx_at l) (min (lx_at l + 3) (length (lx_bytes l))))) l
               else l)" 1]
    by (auto simp: skip_block_comment_def Let_def advance_def push_error_def split: prod.splits)
  then show ?thesis
    using assms by (auto simp: trivia_round_def peek_def advance_def skip_while_def vget_Some
        split: option.splits if_splits)
qed

function skip_trivia :: "lexer \<Rightarrow> lexer" where
  "skip_trivia l = (case trivia_round l of None \<Rightarrow> l | Some l' \<Rightarrow> skip_trivia l')"
  by pat_completeness auto
termination
  by (relation "measure (\<lambda>l. length (lx_bytes l) - lx_at l)")
     (auto dest!: trivia_round_at)

declare skip_trivia.simps [simp del]

section \<open>Identifiers and operators\<close>

definition is_ident_start :: "char \<Rightarrow> bool" where
  "is_ident_start b \<longleftrightarrow> b = CHR ''_'' \<or> (65 \<le> byte b \<and> byte b \<le> 90) \<or> (97 \<le> byte b \<and> byte b \<le> 122) \<or> 128 \<le> byte b"

definition is_digit_byte :: "char \<Rightarrow> bool" where
  "is_digit_byte b \<longleftrightarrow> 48 \<le> byte b \<and> byte b \<le> 57"

definition is_ident_continue :: "char \<Rightarrow> bool" where
  "is_ident_continue b \<longleftrightarrow> is_ident_start b \<or> is_digit_byte b \<or> b = CHR 0x27"

definition keyword :: "string \<Rightarrow> token_kind option" where
  "keyword text =
    (if text = ''case'' then Some TkKwCase else if text = ''data'' then Some TkKwData
     else if text = ''do'' then Some TkKwDo else if text = ''else'' then Some TkKwElse
     else if text = ''if'' then Some TkKwIf else if text = ''let'' then Some TkKwLet
     else if text = ''of'' then Some TkKwOf else if text = ''then'' then Some TkKwThen
     else None)"

lemma len_utf8_pos: "0 < len_utf8 c"
  by (simp add: len_utf8_def)

lemma char_len_pos: "0 < char_len bytes pos"
  by (auto simp: char_len_def len_utf8_pos split: res.splits list.splits)

function ident_tail :: "lexer \<Rightarrow> lexer" where
  "ident_tail l =
    (case peek l 0 of
       Some b \<Rightarrow> if is_ident_continue b then ident_tail (advance (char_len (lx_bytes l) (lx_at l)) l) else l
     | None \<Rightarrow> l)"
  by pat_completeness auto
termination
  by (relation "measure (\<lambda>l. length (lx_bytes l) - lx_at l)")
     (auto simp: advance_def peek_def vget_Some char_len_pos intro!: diff_less_mono2)

declare ident_tail.simps [simp del]

lemma ident_tail_at: "lx_at l \<le> lx_at (ident_tail l) \<and> lx_bytes (ident_tail l) = lx_bytes l"
proof (induction l rule: ident_tail.induct)
  case (1 l)
  show ?case
    by (subst (1 2) ident_tail.simps) (use 1 in \<open>auto simp: advance_def split: option.splits\<close>)
qed

text \<open>The first character, taken whatever it is, and the rest of the word.\<close>

definition ident_word :: "lexer \<Rightarrow> lexer" where
  "ident_word l = ident_tail (advance (char_len (lx_bytes l) (lx_at l)) l)"

lemma ident_word_at: "lx_at l < lx_at (ident_word l) \<and> lx_bytes (ident_word l) = lx_bytes l"
  using ident_tail_at [of "advance (char_len (lx_bytes l) (lx_at l)) l"] char_len_pos [of "lx_bytes l" "lx_at l"]
  by (auto simp: ident_word_def advance_def)

function qualified_tail :: "lexer \<Rightarrow> lexer" where
  "qualified_tail l =
    (case (peek l 0, peek l 1) of
       (Some d, Some b) \<Rightarrow>
         if d = CHR ''.'' \<and> is_ident_start b then qualified_tail (ident_word (advance 1 l)) else l
     | _ \<Rightarrow> l)"
  by pat_completeness auto
termination
proof (relation "measure (\<lambda>l. length (lx_bytes l) - lx_at l)", goal_cases)
  case (2 l x y d b)
  then show ?case
    using ident_word_at [of "advance 1 l"] by (auto simp: advance_def peek_def vget_Some_sym intro!: diff_less_mono2)
qed simp

declare qualified_tail.simps [simp del]

text \<open>\<open>char::is_uppercase\<close> and the text after the last dot.\<close>

definition is_uppercase :: "(nat \<Rightarrow> bool) \<Rightarrow> nat \<Rightarrow> bool" where
  "is_uppercase upper c = (if c < 128 then 65 \<le> c \<and> c \<le> 90 else upper c)"

definition after_last_dot :: "string \<Rightarrow> string" where
  "after_last_dot text = rev (takeWhile (\<lambda>c. c \<noteq> CHR ''.'') (rev text))"

definition classify :: "(nat \<Rightarrow> bool) \<Rightarrow> string \<Rightarrow> token_kind" where
  "classify upper text =
    (case keyword text of
       Some k \<Rightarrow> k
     | None \<Rightarrow>
        if text = ''_'' then TkUnderscore
        else (case from_utf8 text of
                Ok (c # _) \<Rightarrow> if is_uppercase upper c then TkUpper text else TkLower text
              | _ \<Rightarrow> TkLower text))"

type_synonym 'a lexing = "(lexer \<times> 'a, unit) res"

definition lex_identifier :: "(nat \<Rightarrow> bool) \<Rightarrow> nat \<Rightarrow> lexer \<Rightarrow> token_kind lexing" where
  "lex_identifier upper start l0 =
    (let l = qualified_tail (ident_word l0) in
     res_bind (text_from l start) (\<lambda>text.
       if CHR ''.'' \<in> set text then
         Ok (if keyword (after_last_dot text) \<noteq> None
             then push_error (parse_error (''reserved word in qualified name `'' @ text @ ''`'') (here l start)) l
             else l, TkQualified text)
       else Ok (l, classify upper text)))"

definition is_operator_byte :: "char \<Rightarrow> bool" where
  "is_operator_byte b \<longleftrightarrow> b \<in> {CHR ''$'', CHR ''.'', CHR ''<'', CHR ''>'', CHR ''*''}"

definition lex_operator :: "nat \<Rightarrow> lexer \<Rightarrow> token_kind lexing" where
  "lex_operator start l0 =
    (let l = skip_while is_operator_byte l0 in
     res_bind (text_from l start) (\<lambda>text. Ok (l, TkOperator text)))"

section \<open>Numbers\<close>

definition is_hex_byte :: "char \<Rightarrow> bool" where
  "is_hex_byte b \<longleftrightarrow> is_digit_byte b \<or> (65 \<le> byte b \<and> byte b \<le> 70) \<or> (97 \<le> byte b \<and> byte b \<le> 102)"

definition is_octal_byte :: "char \<Rightarrow> bool" where
  "is_octal_byte b \<longleftrightarrow> 48 \<le> byte b \<and> byte b \<le> 55"

definition is_digit_at :: "lexer \<Rightarrow> bool" where
  "is_digit_at l \<longleftrightarrow> (case peek l 0 of Some b \<Rightarrow> is_digit_byte b | None \<Rightarrow> False)"

definition hex_number :: "nat \<Rightarrow> lexer \<Rightarrow> token_kind lexing" where
  "hex_number start l0 =
    (let l1 = advance 2 l0; l2 = skip_while is_hex_byte l1;
         l = (if lx_at l2 = lx_at l1
              then push_error (lex_error ''hexadecimal literal has no digits'' (here l2 start)) l2 else l2) in
     res_bind (text_from l start) (\<lambda>text. Ok (l, TkInteger text)))"

definition octal_number :: "nat \<Rightarrow> lexer \<Rightarrow> token_kind lexing" where
  "octal_number start l0 =
    (let l1 = advance 2 l0; l2 = skip_while is_octal_byte l1;
         l = (if lx_at l2 = lx_at l1 \<or> is_digit_at l2 then
                (let l3 = (if is_digit_at l2 then advance 1 l2 else l2) in
                 push_error (lex_error ''invalid octal literal'' (here l3 start)) l3)
              else l2) in
     res_bind (text_from l start) (\<lambda>text. Ok (l, TkInteger text)))"

text \<open>The optional fraction and exponent of a decimal literal; the flag is \<open>fraction\<close>.\<close>

definition fraction_part :: "lexer \<Rightarrow> lexer \<times> bool" where
  "fraction_part l =
    (case (peek l 0, peek l 1) of
       (Some d, Some b) \<Rightarrow>
         if d = CHR ''.'' \<and> is_digit_byte b then (skip_while is_digit_byte (advance 1 l), True) else (l, False)
     | _ \<Rightarrow> (l, False))"

definition exponent_part :: "nat \<Rightarrow> lexer \<times> bool \<Rightarrow> lexer \<times> bool" where
  "exponent_part start s =
    (case s of (l0, fraction) \<Rightarrow>
      if peek l0 0 \<in> {Some (CHR ''e''), Some (CHR ''E'')} then
        (let l1 = advance 1 l0;
             l2 = (if peek l1 0 \<in> {Some (CHR ''+''), Some (CHR ''-'')} then advance 1 l1 else l1);
             l3 = skip_while is_digit_byte l2;
             l4 = (if lx_at l3 = lx_at l2
                   then push_error (lex_error ''fraction exponent has no digits'' (here l3 start)) l3 else l3) in
         (l4, True))
      else (l0, fraction))"

definition decimal_number :: "nat \<Rightarrow> lexer \<Rightarrow> token_kind lexing" where
  "decimal_number start l0 =
    (case exponent_part start (fraction_part (skip_while is_digit_byte l0)) of
       (l, fraction) \<Rightarrow>
         res_bind (text_from l start) (\<lambda>raw. Ok (l, if fraction then TkFraction raw else TkInteger raw)))"

definition lex_number :: "lexer \<Rightarrow> token_kind lexing" where
  "lex_number l =
    (let start = lx_at l in
     if two_bytes l \<in> {Some ''0x'', Some ''0X''} then hex_number start l
     else if two_bytes l \<in> {Some ''0o'', Some ''0O''} then octal_number start l
     else decimal_number start l)"

section \<open>Character and text literals\<close>

definition simple_escape :: "char \<Rightarrow> nat option" where
  "simple_escape c =
    (if c = CHR ''a'' then Some 7 else if c = CHR ''b'' then Some 8 else if c = CHR ''f'' then Some 12
     else if c = CHR ''n'' then Some 10 else if c = CHR ''r'' then Some 13 else if c = CHR ''t'' then Some 9
     else if c = CHR ''v'' then Some 11 else if c = CHR 0x5C then Some 92 else if c = CHR 0x27 then Some 39
     else if c = CHR 0x22 then Some 34 else None)"

text \<open>\<open>char::to_digit\<close> and \<open>u32::from_str_radix\<close> of digits.\<close>

definition to_digit :: "nat \<Rightarrow> char \<Rightarrow> nat option" where
  "to_digit radix b =
    (let n = byte b;
         d = (if 48 \<le> n \<and> n \<le> 57 then n - 48 else if 97 \<le> n \<and> n \<le> 122 then n - 87
              else if 65 \<le> n \<and> n \<le> 90 then n - 55 else 36) in
     if d < radix then Some d else None)"

definition from_str_radix :: "nat \<Rightarrow> string \<Rightarrow> nat option" where
  "from_str_radix radix digits =
    (if digits = [] then None
     else foldl (\<lambda>acc b. case (acc, to_digit radix b) of
         (Some n, Some d) \<Rightarrow> u32_try_from (n * radix + d) | _ \<Rightarrow> None) (Some 0) digits)"

text \<open>The numeric escapes: the radix, and whether the digit is already the escaped byte.\<close>

definition escape_radix :: "char \<Rightarrow> (nat \<times> bool) option" where
  "escape_radix c =
    (if c = CHR ''x'' \<or> c = CHR ''X'' then Some (16, False)
     else if c = CHR ''o'' \<or> c = CHR ''O'' then Some (8, False)
     else if is_digit_byte c then Some (10, True) else None)"

definition invalid_escape :: "nat \<Rightarrow> lexer \<Rightarrow> lexer" where
  "invalid_escape escape_start l =
    push_error (lex_error ''invalid Haskell literal escape'' (here l escape_start)) l"

definition numeric_escape :: "nat \<Rightarrow> nat \<Rightarrow> bool \<Rightarrow> lexer \<Rightarrow> lexer \<times> nat option" where
  "numeric_escape escape_start radix first_is_digit l0 =
    (let l1 = (if first_is_digit then l0\<lparr>lx_at := lx_at l0 - 1\<rparr> else l0);
         l = skip_while (\<lambda>b. to_digit radix b \<noteq> None) l1 in
     if lx_at l = lx_at l1 \<and> \<not> first_is_digit
     then (push_error (lex_error ''numeric escape has no digits'' (here l escape_start)) l, None)
     else
       (case text_from l (lx_at l1) of
          Ok digits \<Rightarrow>
            (case Option.bind (from_str_radix radix digits) char_from_u32 of
               Some value \<Rightarrow> (l, Some value)
             | None \<Rightarrow> (invalid_escape escape_start l, None))
        | _ \<Rightarrow> (l, None)))"

definition decode_escape :: "lexer \<Rightarrow> lexer \<times> nat option" where
  "decode_escape l0 =
    (let escape_start = lx_at l0; l1 = advance 1 l0 in
     case peek l1 0 of
       None \<Rightarrow> (l1, None)
     | Some escaped \<Rightarrow>
        (let l2 = advance (char_len (lx_bytes l1) (lx_at l1)) l1 in
         case simple_escape escaped of
           Some value \<Rightarrow> (l2, Some value)
         | None \<Rightarrow>
            (case escape_radix escaped of
               Some (radix, first_is_digit) \<Rightarrow> numeric_escape escape_start radix first_is_digit l2
             | None \<Rightarrow> (invalid_escape escape_start l2, None))))"

definition decode_char :: "nat \<Rightarrow> char \<Rightarrow> lexer \<Rightarrow> nat option lexing" where
  "decode_char literal_start delimiter l =
    (case peek l 0 of
       None \<Rightarrow> Ok (push_error (lex_error ''literal contains no character'' (here l literal_start)) l, None)
     | Some b \<Rightarrow>
        (if b = delimiter
         then Ok (push_error (lex_error ''literal contains no character'' (here l literal_start)) l, None)
         else if b \<noteq> CHR 0x5C then
           (case from_utf8 (drop (lx_at l) (lx_bytes l)) of
              Ok (value # _) \<Rightarrow> Ok (advance (len_utf8 value) l, Some value)
            | _ \<Rightarrow> Panic)
         else Ok (decode_escape l)))"

definition lex_character :: "nat \<Rightarrow> lexer \<Rightarrow> token_kind lexing" where
  "lex_character start l0 =
    res_bind (decode_char start (CHR 0x27) (advance 1 l0)) (\<lambda>(l, value).
      Ok (if peek l 0 = Some (CHR 0x27) then advance 1 l
          else push_error (lex_error ''unterminated character literal'' (here l start)) l,
          TkCharacter (case value of Some c \<Rightarrow> c | None \<Rightarrow> 0)))"

text \<open>One round of the loop of \<open>string\<close>; it leaves at the delimiter or with a \<open>break\<close>.\<close>

definition string_round :: "nat \<Rightarrow> lexer \<times> string \<Rightarrow> lexer \<times> string + (lexer \<times> string, unit) res" where
  "string_round start s =
    (case s of (l, result) \<Rightarrow>
      case peek l 0 of
        None \<Rightarrow> Inr (Ok (l, result))
      | Some b \<Rightarrow>
         (if b = CHR 0x22 then Inr (Ok (l, result))
          else if b = CHR 0x0A
          then Inr (Ok (push_error (lex_error ''unterminated text literal'' (here l start)) l, result))
          else if b = CHR 0x5C \<and> peek l 1 = Some (CHR ''&'') then Inl (advance 2 l, result)
          else (case decode_char start (CHR 0x22) l of
                  Ok (l', Some value) \<Rightarrow> Inl (l', result @ encode_utf8 value)
                | Ok (l', None) \<Rightarrow> Inr (Ok (l', result))
                | _ \<Rightarrow> Inr Panic)))"

definition lex_string :: "nat \<Rightarrow> lexer \<Rightarrow> token_kind lexing option" where
  "lex_string start l0 =
    map_option (\<lambda>r. res_bind r (\<lambda>(l, result).
        Ok (if peek l 0 = Some (CHR 0x22) then advance 1 l
            else push_error (lex_error ''unterminated text literal'' (here l start)) l,
            TkText result)))
      (run (string_round start) (advance 1 l0, []))"

section \<open>The next token\<close>

definition single :: "token_kind \<Rightarrow> lexer \<Rightarrow> token_kind lexing option" where
  "single kind l = Some (Ok (advance 1 l, kind))"

definition punctuation :: "char \<Rightarrow> token_kind option" where
  "punctuation b =
    (if b = CHR ''('' then Some TkLParen else if b = CHR '')'' then Some TkRParen
     else if b = CHR ''['' then Some TkLBracket else if b = CHR '']'' then Some TkRBracket
     else if b = CHR ''{'' then Some TkLBrace else if b = CHR ''}'' then Some TkRBrace
     else if b = CHR '','' then Some TkComma else if b = CHR '';'' then Some TkSemicolon
     else if b = CHR ''='' then Some TkEquals else if b = CHR 0x5C then Some TkBackslash
     else if b = CHR ''@'' then Some TkAt else if b = CHR ''|'' then Some TkPipe else None)"

definition underscore :: "(nat \<Rightarrow> bool) \<Rightarrow> nat \<Rightarrow> lexer \<Rightarrow> token_kind lexing" where
  "underscore upper start l0 =
    (let l = advance 1 l0 in
     case peek l 0 of
       Some b \<Rightarrow> if is_ident_continue b then lex_identifier upper start l else Ok (l, TkUnderscore)
     | None \<Rightarrow> Ok (l, TkUnderscore))"

text \<open>The token that starts with byte \<open>b\<close>; \<open>Inl\<close> for a byte that cannot start one.\<close>

definition scan_token ::
  "(nat \<Rightarrow> bool) \<Rightarrow> nat \<Rightarrow> char \<Rightarrow> lexer \<Rightarrow> lexer + token_kind lexing option" where
  "scan_token upper start b l =
    (case punctuation b of
       Some kind \<Rightarrow> Inr (single kind l)
     | None \<Rightarrow>
        (if b = CHR '':'' \<and> peek l 1 = Some (CHR '':'') then Inr (Some (Ok (advance 2 l, TkDoubleColon)))
         else if b = CHR ''-'' \<and> peek l 1 = Some (CHR ''>'') then Inr (Some (Ok (advance 2 l, TkArrow)))
         else if b = CHR ''<'' \<and> peek l 1 = Some (CHR ''-'') then Inr (Some (Ok (advance 2 l, TkBindArrow)))
         else if b = CHR 0x27 then Inr (Some (lex_character start l))
         else if b = CHR 0x22 then Inr (lex_string start l)
         else if is_digit_byte b then Inr (Some (lex_number l))
         else if b = CHR ''_'' then Inr (Some (underscore upper start l))
         else if is_ident_start b then Inr (Some (lex_identifier upper start l))
         else if is_operator_byte b then Inr (Some (lex_operator start l))
         else
           (let l' = advance (char_len (lx_bytes l) (lx_at l)) l in
            Inl (push_error (lex_error ''character cannot start a Hell token'' (here l' start)) l'))))"

text \<open>\<open>next\<close>; its recursive call after an error is another iteration.\<close>

definition next_round ::
  "(nat \<Rightarrow> bool) \<Rightarrow> lexer \<Rightarrow> (lexer + token lexing) option" where
  "next_round upper l0 =
    (let l = skip_trivia l0; start = lx_at l; first = \<not> saw_token_on_line l in
     case visual_column l start of
       Ok col \<Rightarrow>
         (case peek l 0 of
            None \<Rightarrow> Some (Inr (Ok (l,
              \<lparr>tk_kind = TkEof, tk_span = source_span (lx_source l) start start,
               starts_line = first, column = col\<rparr>)))
          | Some b \<Rightarrow>
             (case scan_token upper start b (l\<lparr>saw_token_on_line := True\<rparr>) of
                Inl l' \<Rightarrow> Some (Inl l')
              | Inr None \<Rightarrow> None
              | Inr (Some (Ok (l', kind))) \<Rightarrow> Some (Inr (Ok (l',
                  \<lparr>tk_kind = kind, tk_span = here l' start, starts_line = first, column = col\<rparr>)))
              | Inr (Some _) \<Rightarrow> Some (Inr Panic)))
     | _ \<Rightarrow> Some (Inr Panic))"

definition next_token :: "(nat \<Rightarrow> bool) \<Rightarrow> lexer \<Rightarrow> token lexing option" where
  "next_token upper l = run_calls (next_round upper) l"

end
