(* ===== verification/Hell_Scanning.thy ===== *)
theory Hell_Scanning
  imports Hell_Lexer
begin

text \<open>
  The scanner never panics and always returns: on valid UTF-8 it stops at character
  boundaries only, and every call of \<open>next\<close> yields a token whose span lies behind the
  previous one.
\<close>

section \<open>Boundaries\<close>

definition front :: "string \<Rightarrow> nat \<Rightarrow> bool" where
  "front s i \<longleftrightarrow> i \<le> length s \<and> utf8_valid (drop i s)"

lemma front_end [simp]: "front s (length s)"
  by (simp add: front_def)

lemma front_not_cont: "front s i \<Longrightarrow> i < length s \<Longrightarrow> \<not> is_cont (s ! i)"
  unfolding front_def using utf8_valid_front [of "s ! i" "drop (Suc i) s"] by (simp add: Cons_nth_drop_Suc)

lemma frontI: "utf8_valid s \<Longrightarrow> i < length s \<Longrightarrow> \<not> is_cont (s ! i) \<Longrightarrow> front s i"
  using utf8_valid_drop [of s i] by (simp add: front_def)

lemma ascii_not_cont: "byte c < 128 \<Longrightarrow> \<not> is_cont c"
  by (simp add: is_cont_def)

text \<open>An ASCII byte of valid text is a whole character, wherever it stands.\<close>

lemma front_after_ascii:
  assumes "utf8_valid s" "i < length s" "byte (s ! i) < 128"
  shows "front s (Suc i)"
proof -
  have "utf8_valid (drop i s)" using utf8_valid_drop assms ascii_not_cont by (meson less_imp_le)
  then have "utf8_valid (s ! i # drop (Suc i) s)" using assms(2) by (simp add: Cons_nth_drop_Suc)
  then show ?thesis using utf8_valid_ascii [OF assms(3)] assms(2) by (simp add: front_def)
qed

lemma front_slice:
  assumes "front s i" "front s j" "i \<le> j"
  shows "vslice s i j = Some (take (j - i) (drop i s)) \<and> utf8_valid (take (j - i) (drop i s))"
proof -
  have ij: "i \<le> length s" "j \<le> length s" "utf8_valid (drop i s)" using assms by (auto simp: front_def)
  have "j - i = length (drop i s) \<or> \<not> is_cont (drop i s ! (j - i))"
    using front_not_cont [OF assms(2)] ij assms(3) by (cases "j < length s") auto
  then have "utf8_valid (take (j - i) (drop i s))"
    using utf8_valid_take [OF ij(3), of "j - i"] ij assms(3) by simp
  then show ?thesis using ij assms(3) by (simp add: vslice_def)
qed

lemma decode1_len_utf8:
  assumes "decode1 s = Ok (c, w)"
  shows "len_utf8 c = w"
  using assms
proof (cases rule: decode1_cases)
  case (two a b t)
  then show ?thesis by (auto simp: len_utf8_def is_cont_def)
next
  case (three a b x t)
  then have "2048 \<le> c" "c < 65536"
    by (auto simp: second_of_3_def is_cont_def split: if_splits)
  then show ?thesis using three by (simp add: len_utf8_def)
next
  case (four a b x y t)
  then have "65536 \<le> c"
    by (auto simp: second_of_4_def is_cont_def split: if_splits)
  then show ?thesis using four by (simp add: len_utf8_def)
qed (simp add: len_utf8_def)

lemma front_char:
  assumes "front s i" "i < length s"
  obtains c cs where "from_utf8 (drop i s) = Ok (c # cs)" "front s (i + len_utf8 c)" "char_len s i = len_utf8 c"
proof -
  from assms have v: "utf8_valid (drop i s)" "drop i s \<noteq> []" by (auto simp: front_def)
  obtain c w cs where d: "decode1 (drop i s) = Ok (c, w)" and f: "from_utf8 (drop i s) = Ok (c # cs)"
    using from_utf8_first [OF v] by blast
  have w: "len_utf8 c = w" by (rule decode1_len_utf8 [OF d])
  have "utf8_valid (drop w (drop i s))" using v utf8_valid_decode d by auto
  moreover have "i + w \<le> length s" using decode1_width [OF d] assms(2) by auto
  ultimately have "front s (i + len_utf8 c)" by (simp add: front_def w add.commute)
  moreover have "char_len s i = len_utf8 c" by (simp add: char_len_def f)
  ultimately show thesis using f that by blast
qed

section \<open>Moving forward\<close>

definition lexer_ok :: "lexer \<Rightarrow> bool" where
  "lexer_ok l \<longleftrightarrow> utf8_valid (lx_bytes l) \<and> front (lx_bytes l) (lx_at l) \<and>
     front (lx_bytes l) (line_start l) \<and> line_start l \<le> lx_at l"

text \<open>From one boundary to a later one, within a line.\<close>

definition moved :: "lexer \<Rightarrow> lexer \<Rightarrow> bool" where
  "moved l l' \<longleftrightarrow> lx_source l' = lx_source l \<and> lx_bytes l' = lx_bytes l \<and> line_start l' = line_start l \<and>
     saw_token_on_line l' = saw_token_on_line l \<and> lx_at l \<le> lx_at l' \<and> front (lx_bytes l) (lx_at l')"

lemma moved_ok: "lexer_ok l \<Longrightarrow> moved l l' \<Longrightarrow> lexer_ok l'"
  by (auto simp: lexer_ok_def moved_def)

lemma moved_refl: "lexer_ok l \<Longrightarrow> moved l l"
  by (simp add: moved_def lexer_ok_def)

lemma moved_trans: "moved a b \<Longrightarrow> moved b c \<Longrightarrow> moved a c"
  by (auto simp: moved_def)

lemma moved_push [simp]: "moved l (push_error e l') = moved l l'"
  by (simp add: moved_def push_error_def)

lemma push_error_at [simp]:
  "lx_at (push_error e l) = lx_at l" "lx_bytes (push_error e l) = lx_bytes l"
  by (simp_all add: push_error_def)

lemma peek_Some: "peek l k = Some b \<longleftrightarrow> lx_at l + k < length (lx_bytes l) \<and> lx_bytes l ! (lx_at l + k) = b"
  by (auto simp: peek_def vget_Some)

lemma moved_advance_ascii:
  assumes "lexer_ok l" "peek l 0 = Some b" "byte b < 128"
  shows "moved l (advance 1 l)" "lx_at (advance 1 l) = Suc (lx_at l)"
  using assms front_after_ascii [of "lx_bytes l" "lx_at l"]
  by (simp_all add: moved_def advance_def lexer_ok_def peek_Some)

lemma moved_advance2_ascii:
  assumes "lexer_ok l" "peek l 1 = Some c" "byte c < 128"
  shows "moved l (advance 2 l)" "lx_at (advance 2 l) = lx_at l + 2"
  using assms front_after_ascii [of "lx_bytes l" "Suc (lx_at l)"]
  by (simp_all add: moved_def advance_def lexer_ok_def peek_Some)

lemma moved_char:
  assumes "lexer_ok l" "peek l 0 = Some b"
  shows "moved l (advance (char_len (lx_bytes l) (lx_at l)) l)"
proof -
  have "front (lx_bytes l) (lx_at l)" "lx_at l < length (lx_bytes l)"
    using assms by (simp_all add: lexer_ok_def peek_Some)
  then obtain c where "front (lx_bytes l) (lx_at l + len_utf8 c)" "char_len (lx_bytes l) (lx_at l) = len_utf8 c"
    by (rule front_char)
  then show ?thesis by (simp add: moved_def advance_def)
qed

lemma ascii_run:
  "utf8_valid s \<Longrightarrow> front s i \<Longrightarrow> i + n \<le> length s \<Longrightarrow> \<forall>k < n. byte (s ! (i + k)) < 128 \<Longrightarrow> front s (i + n)"
proof (cases n)
  case (Suc m)
  assume "utf8_valid s" "i + n \<le> length s" "\<forall>k < n. byte (s ! (i + k)) < 128"
  then show ?thesis using front_after_ascii [of s "i + m"] Suc by simp
qed simp

lemma takeWhile_drop_bound: "pos \<le> length xs \<Longrightarrow> pos + length (takeWhile p (drop pos xs)) \<le> length xs"
  using length_takeWhile_le [of p "drop pos xs"] by simp

lemma moved_skip_while:
  assumes "lexer_ok l" "\<And>b. p b \<Longrightarrow> byte b < 128"
  shows "moved l (skip_while p l)"
proof -
  let ?s = "lx_bytes l" and ?i = "lx_at l"
  let ?n = "length (takeWhile p (drop ?i ?s))"
  have i: "?i \<le> length ?s" and v: "utf8_valid ?s" and f: "front ?s ?i"
    using assms(1) by (auto simp: lexer_ok_def front_def)
  have "\<forall>k < ?n. byte (?s ! (?i + k)) < 128"
  proof (intro allI impI)
    fix k assume k: "k < ?n"
    then have "p (takeWhile p (drop ?i ?s) ! k)" using set_takeWhileD nth_mem by metis
    then have "p (?s ! (?i + k))" using k i takeWhile_nth [of k p "drop ?i ?s"] by simp
    then show "byte (?s ! (?i + k)) < 128" by (rule assms(2))
  qed
  with ascii_run [OF v f takeWhile_drop_bound [OF i]] show ?thesis
    by (simp add: moved_def skip_while_def advance_def)
qed

lemma skip_while_at: "lx_at l \<le> lx_at (skip_while p l)" "lx_bytes (skip_while p l) = lx_bytes l"
  by (simp_all add: skip_while_def advance_def)

lemma skip_while_head:
  assumes "peek l 0 = Some b" "p b"
  shows "lx_at l < lx_at (skip_while p l)"
proof -
  have "drop (lx_at l) (lx_bytes l) = b # drop (Suc (lx_at l)) (lx_bytes l)"
    using assms(1) by (auto simp: peek_Some Cons_nth_drop_Suc)
  then show ?thesis using assms(2) by (simp add: skip_while_def advance_def)
qed

text \<open>The texts taken between two boundaries are valid.\<close>

definition slice_of :: "lexer \<Rightarrow> nat \<Rightarrow> string" where
  "slice_of l start = take (lx_at l - start) (drop start (lx_bytes l))"

lemma text_from_ok:
  assumes "lexer_ok l" "front (lx_bytes l) start" "start \<le> lx_at l"
  shows "text_from l start = Ok (slice_of l start)"
proof -
  have "vslice (lx_bytes l) start (lx_at l) = Some (slice_of l start)" "utf8_valid (slice_of l start)"
    using front_slice [of "lx_bytes l" start "lx_at l"] assms by (auto simp: lexer_ok_def slice_of_def)
  then show ?thesis by (auto simp: text_from_def utf8_valid_def)
qed

lemma visual_column_ok: "lexer_ok l \<Longrightarrow> \<exists>col. visual_column l (lx_at l) = Ok col"
  using front_slice [of "lx_bytes l" "line_start l" "lx_at l"]
  by (auto simp: lexer_ok_def visual_column_def utf8_valid_def)

section \<open>Trivia\<close>

lemma two_bytes_Some: "two_bytes l = Some [a, b] \<longleftrightarrow> peek l 0 = Some a \<and> peek l 1 = Some b"
proof -
  have "drop (lx_at l) (lx_bytes l) = lx_bytes l ! lx_at l # lx_bytes l ! Suc (lx_at l) # drop (lx_at l + 2) (lx_bytes l)"
    if "lx_at l + 2 \<le> length (lx_bytes l)"
    using that by (simp add: Cons_nth_drop_Suc)
  then show ?thesis by (auto simp: two_bytes_def vslice_def peek_Some)
qed

text \<open>Inside a comment the position need not be a boundary; at its end it is.\<close>

definition in_comment :: "lexer \<Rightarrow> bool" where
  "in_comment l \<longleftrightarrow> utf8_valid (lx_bytes l) \<and> lx_at l \<le> length (lx_bytes l) \<and>
     front (lx_bytes l) (line_start l) \<and> line_start l \<le> lx_at l"

lemma block_comment_ok:
  "in_comment l \<Longrightarrow> (depth = 0 \<Longrightarrow> front (lx_bytes l) (lx_at l)) \<Longrightarrow> lexer_ok (snd (block_comment depth l)) \<and>
    lx_source (snd (block_comment depth l)) = lx_source l"
proof (induction depth l rule: block_comment.induct)
  case (1 depth l)
  let ?s = "lx_bytes l" and ?i = "lx_at l"
  show ?case
  proof (cases "?i < length ?s \<and> 0 < depth")
    case False
    then have "block_comment depth l = (depth, l)" by (subst block_comment.simps) auto
    moreover have "front ?s ?i" using 1(5,6) False by (cases "?i < length ?s") (auto simp: in_comment_def)
    ultimately show ?thesis using 1(5) by (simp add: lexer_ok_def in_comment_def)
  next
    case live: True
    consider (opens) "two_bytes l = Some ''{-''" | (closes) "two_bytes l = Some ''-}''"
      | (newline) "two_bytes l \<noteq> Some ''{-''" "two_bytes l \<noteq> Some ''-}''" "?s ! ?i = CHR 0x0A"
      | (other) "two_bytes l \<noteq> Some ''{-''" "two_bytes l \<noteq> Some ''-}''" "?s ! ?i \<noteq> CHR 0x0A"
      by blast
    then show ?thesis
    proof cases
      case opens
      then have "block_comment depth l = block_comment (depth + 1) (advance 2 l)"
        using live by (subst block_comment.simps) simp
      moreover have "in_comment (advance 2 l)"
        using 1(5) opens by (simp add: in_comment_def advance_def two_bytes_Some peek_Some)
      ultimately show ?thesis using 1(1) live opens by (simp add: advance_def)
    next
      case closes
      then have eq: "block_comment depth l = block_comment (depth - 1) (advance 2 l)"
        using live by (subst block_comment.simps) simp
      have "front ?s (Suc (Suc ?i))"
        using closes 1(5) front_after_ascii [of ?s "Suc ?i"] by (simp add: two_bytes_Some peek_Some in_comment_def)
      then have "in_comment (advance 2 l) \<and> front (lx_bytes (advance 2 l)) (lx_at (advance 2 l))"
        using 1(5) closes by (simp add: in_comment_def advance_def two_bytes_Some peek_Some)
      then show ?thesis using 1(2) live closes eq by (simp add: advance_def)
    next
      case newline
      let ?l = "advance 1 (l\<lparr>line_start := ?i + 1, saw_token_on_line := False\<rparr>)"
      have eq: "block_comment depth l = block_comment depth ?l"
        using live newline by (subst block_comment.simps) simp
      have "front ?s (Suc ?i)"
        using newline 1(5) live front_after_ascii [of ?s ?i] by (simp add: in_comment_def)
      then have "in_comment ?l"
        using 1(5) live by (simp add: in_comment_def advance_def)
      then show ?thesis using 1(3) live newline eq by (simp add: advance_def)
    next
      case other
      have eq: "block_comment depth l = block_comment depth (advance 1 l)"
        using live other by (subst block_comment.simps) simp
      have "in_comment (advance 1 l)"
        using 1(5) live by (simp add: in_comment_def advance_def)
      then show ?thesis using 1(4) live other eq by (simp add: advance_def)
    qed
  qed
qed

lemma skip_block_comment_ok:
  assumes ok: "lexer_ok l" and c: "peek l 0 = Some (CHR ''{'')" "peek l 1 = Some (CHR ''-'')"
  shows "lexer_ok (skip_block_comment l) \<and> lx_source (skip_block_comment l) = lx_source l"
proof -
  define l1 where "l1 = (if peek l 2 = Some (CHR ''#'')
               then push_error (parse_error ''Haskell pragmas are unsupported''
                      (source_span (lx_source l) (lx_at l) (min (lx_at l + 3) (length (lx_bytes l))))) l
               else l)"
  have "in_comment (advance 2 l1)" "lx_source (advance 2 l1) = lx_source l"
    using ok c by (auto simp: l1_def in_comment_def lexer_ok_def advance_def push_error_def peek_Some)
  from block_comment_ok [OF this(1), of 1] this(2)
  have "lexer_ok (snd (block_comment 1 (advance 2 l1)))" "lx_source (snd (block_comment 1 (advance 2 l1))) = lx_source l"
    by auto
  then show ?thesis
    by (auto simp: skip_block_comment_def Let_def l1_def [symmetric] push_error_def lexer_ok_def split: prod.splits)
qed

lemma trivia_round_ok:
  assumes ok: "lexer_ok l" and r: "trivia_round l = Some l'"
  shows "lexer_ok l' \<and> lx_source l' = lx_source l"
proof -
  from r obtain b where b: "peek l 0 = Some b" by (auto simp: trivia_round_def split: option.splits)
  let ?s = "lx_bytes l" and ?i = "lx_at l"
  consider (blank) "b \<in> {CHR '' '', CHR 0x0D, CHR 0x09}" "l' = advance 1 l"
    | (newline) "b = CHR 0x0A" "l' = (advance 1 l)\<lparr>line_start := lx_at l + 1, saw_token_on_line := False\<rparr>"
    | (line) "b = CHR ''-''" "peek l 1 = Some (CHR ''-'')" "l' = skip_while (\<lambda>b. b \<noteq> CHR 0x0A) (advance 2 l)"
    | (block) "b = CHR ''{''" "peek l 1 = Some (CHR ''-'')" "l' = skip_block_comment l"
    using r b by (auto simp: trivia_round_def split: if_splits)
  then show ?thesis
  proof cases
    case blank
    then have "byte b < 128" by auto
    from moved_advance_ascii(1) [OF ok b this] blank(2) show ?thesis
      using moved_ok [OF ok] by (auto simp: moved_def)
  next
    case newline
    have "front ?s (Suc ?i)" using ok b newline(1) front_after_ascii [of ?s ?i]
      by (simp add: lexer_ok_def peek_Some)
    then show ?thesis using ok newline(2) by (simp add: lexer_ok_def advance_def)
  next
    case line
    let ?l = "advance 2 l"
    let ?j = "lx_at (skip_while (\<lambda>b. b \<noteq> CHR 0x0A) ?l)"
    have len: "lx_at ?l \<le> length ?s" using line(2) by (simp add: peek_Some advance_def)
    have j: "?j = lx_at ?l + length (takeWhile (\<lambda>b. b \<noteq> CHR 0x0A) (drop (lx_at ?l) ?s))"
      by (simp add: skip_while_def advance_def)
    have "?j \<le> length ?s" using takeWhile_drop_bound [OF len] j by simp
    moreover have "\<not> is_cont (?s ! ?j)" if "?j < length ?s"
    proof -
      have "length (takeWhile (\<lambda>b. b \<noteq> CHR 0x0A) (drop (lx_at ?l) ?s)) < length (drop (lx_at ?l) ?s)"
        using that j by simp
      from nth_length_takeWhile [OF this] have "?s ! ?j = CHR 0x0A" using j len by simp
      then show ?thesis by (simp add: ascii_not_cont)
    qed
    ultimately have "front ?s ?j"
      using frontI ok by (cases "?j < length ?s") (auto simp: lexer_ok_def)
    moreover have "line_start l \<le> ?j" using ok j by (simp add: lexer_ok_def advance_def)
    ultimately show ?thesis using ok line(3) by (simp add: lexer_ok_def skip_while_def advance_def)
  next
    case block
    then show ?thesis using skip_block_comment_ok [OF ok] b by simp
  qed
qed

lemma skip_trivia_ok:
  "lexer_ok l \<Longrightarrow> lexer_ok (skip_trivia l) \<and> lx_source (skip_trivia l) = lx_source l \<and>
    lx_bytes (skip_trivia l) = lx_bytes l \<and> lx_at l \<le> lx_at (skip_trivia l)"
proof (induction l rule: skip_trivia.induct)
  case (1 l)
  show ?case
  proof (cases "trivia_round l")
    case None
    then show ?thesis using 1 by (subst (1 2 3 4) skip_trivia.simps) simp
  next
    case (Some l')
    then have eq: "skip_trivia l = skip_trivia l'" by (subst skip_trivia.simps) simp
    show ?thesis
      unfolding eq using 1(1) [OF Some] trivia_round_ok [OF 1(2) Some] trivia_round_at [OF Some] by simp
  qed
qed

section \<open>Words and numbers\<close>

lemma ident_tail_moved: "lexer_ok l \<Longrightarrow> moved l (ident_tail l)"
proof (induction l rule: ident_tail.induct)
  case (1 l)
  show ?case
  proof (cases "\<exists>b. peek l 0 = Some b \<and> is_ident_continue b")
    case True
    then obtain b where b: "peek l 0 = Some b" "is_ident_continue b" by blast
    note m = moved_char [OF 1(2) b(1)]
    have "ident_tail l = ident_tail (advance (char_len (lx_bytes l) (lx_at l)) l)"
      using b by (subst ident_tail.simps) simp
    then show ?thesis using 1(1) [OF b moved_ok [OF 1(2) m]] moved_trans [OF m] by simp
  next
    case False
    then have "ident_tail l = l" by (subst ident_tail.simps) (auto split: option.splits)
    then show ?thesis using moved_refl 1 by simp
  qed
qed

lemma ident_word_moved:
  assumes "lexer_ok l" "peek l 0 = Some b"
  shows "moved l (ident_word l)"
  unfolding ident_word_def
  using moved_char [OF assms] ident_tail_moved moved_ok [OF assms(1)] moved_trans by blast

lemma qualified_tail_moved: "lexer_ok l \<Longrightarrow> moved l (qualified_tail l)"
proof (induction l rule: qualified_tail.induct)
  case (1 l)
  show ?case
  proof (cases "\<exists>b. peek l 0 = Some (CHR ''.'') \<and> peek l 1 = Some b \<and> is_ident_start b")
    case True
    then obtain b where b: "peek l 0 = Some (CHR ''.'')" "peek l 1 = Some b" "is_ident_start b" by blast
    have m1: "moved l (advance 1 l)" by (rule moved_advance_ascii [OF 1(2) b(1)]) simp
    have p: "peek (advance 1 l) 0 = Some b" using b(2) by (simp add: peek_def advance_def)
    note m2 = moved_trans [OF m1 ident_word_moved [OF moved_ok [OF 1(2) m1] p]]
    have eq: "qualified_tail l = qualified_tail (ident_word (advance 1 l))"
      using b by (subst qualified_tail.simps) simp
    have "moved (ident_word (advance 1 l)) (qualified_tail (ident_word (advance 1 l)))"
      by (rule 1(1) [OF refl b(1,2)]) (use b moved_ok [OF 1(2) m2] in auto)
    then show ?thesis using moved_trans [OF m2] eq by simp
  next
    case False
    then have "qualified_tail l = l" by (subst qualified_tail.simps) (auto split: option.splits)
    then show ?thesis using moved_refl 1 by simp
  qed
qed

text \<open>What a scanning function returns: a physical token whose text is its slice.\<close>

fun token_text :: "token_kind \<Rightarrow> string option" where
  "token_text (TkLower s) = Some s"
| "token_text (TkUpper s) = Some s"
| "token_text (TkQualified s) = Some s"
| "token_text (TkOperator s) = Some s"
| "token_text (TkInteger s) = Some s"
| "token_text (TkFraction s) = Some s"
| "token_text _ = None"

fun virtual_kind :: "token_kind \<Rightarrow> bool" where
  "virtual_kind TkVirtualLBrace = True"
| "virtual_kind TkVirtualRBrace = True"
| "virtual_kind TkVirtualSemicolon = True"
| "virtual_kind _ = False"

definition scans :: "lexer \<Rightarrow> nat \<Rightarrow> token_kind lexing \<Rightarrow> bool" where
  "scans l start r \<longleftrightarrow> (\<exists>l' k. r = Ok (l', k) \<and> moved l l' \<and> lx_at l < lx_at l' \<and>
     k \<noteq> TkEof \<and> \<not> virtual_kind k \<and> (\<forall>s. token_text k = Some s \<longrightarrow> s = slice_of l' start))"

lemma scans_text:
  assumes ok: "lexer_ok l" and m: "moved l l'" and lt: "lx_at l < lx_at l'"
    and st: "front (lx_bytes l) start" "start \<le> lx_at l"
    and k: "\<And>s. token_text (k s) = Some s" "\<And>s. k s \<noteq> TkEof" "\<And>s. \<not> virtual_kind (k s)"
  shows "scans l start (res_bind (text_from l' start) (\<lambda>text. Ok (l', k text)))"
proof -
  have "text_from l' start = Ok (slice_of l' start)"
    by (rule text_from_ok [OF moved_ok [OF ok m]]) (use m st in \<open>auto simp: moved_def\<close>)
  then show ?thesis using m lt k by (auto simp: scans_def)
qed

lemma keyword_kind: "keyword text = Some k \<Longrightarrow> token_text k = None \<and> k \<noteq> TkEof \<and> \<not> virtual_kind k"
  by (auto simp: keyword_def split: if_splits)

lemma classify_kind:
  "classify upper text \<noteq> TkEof \<and> \<not> virtual_kind (classify upper text) \<and>
    (\<forall>s. token_text (classify upper text) = Some s \<longrightarrow> s = text)"
  using keyword_kind by (auto simp: classify_def split: option.splits res.splits list.splits)

lemma slice_of_push [simp]: "slice_of (push_error e l) start = slice_of l start"
  by (simp add: slice_of_def)

lemma lex_identifier_scans:
  assumes ok: "lexer_ok l" and b: "peek l 0 = Some b" and st: "front (lx_bytes l) start" "start \<le> lx_at l"
  shows "scans l start (lex_identifier upper start l)"
proof -
  let ?l = "qualified_tail (ident_word l)"
  note m1 = ident_word_moved [OF ok b]
  note m = moved_trans [OF m1 qualified_tail_moved [OF moved_ok [OF ok m1]]]
  have lt: "lx_at l < lx_at ?l"
    using ident_word_at [of l] qualified_tail_moved [OF moved_ok [OF ok m1]] by (simp add: moved_def)
  have "text_from ?l start = Ok (slice_of ?l start)"
    by (rule text_from_ok [OF moved_ok [OF ok m]]) (use m st in \<open>auto simp: moved_def\<close>)
  then show ?thesis
    using m lt classify_kind by (auto simp: lex_identifier_def Let_def scans_def)
qed

lemma digit_ascii: "is_digit_byte b \<Longrightarrow> byte b < 128" "is_hex_byte b \<Longrightarrow> byte b < 128"
  "is_octal_byte b \<Longrightarrow> byte b < 128" "is_operator_byte b \<Longrightarrow> byte b < 128"
  by (auto simp: is_digit_byte_def is_hex_byte_def is_octal_byte_def is_operator_byte_def)

lemma lex_operator_scans:
  assumes ok: "lexer_ok l" and b: "peek l 0 = Some b" "is_operator_byte b" and st: "front (lx_bytes l) start" "start \<le> lx_at l"
  shows "scans l start (lex_operator start l)"
  unfolding lex_operator_def Let_def
  by (rule scans_text [OF ok moved_skip_while [OF ok digit_ascii(4)] skip_while_head [where p = is_operator_byte, OF b] st]) auto

text \<open>Steps over optional pieces, each at a boundary.\<close>

lemma fraction_part_moved: "lexer_ok l \<Longrightarrow> moved l (fst (fraction_part l))"
proof (cases "\<exists>b. peek l 0 = Some (CHR ''.'') \<and> peek l 1 = Some b \<and> is_digit_byte b")
  case True
  assume ok: "lexer_ok l"
  from True have dot: "peek l 0 = Some (CHR ''.'')" by blast
  have m: "moved l (advance 1 l)" by (rule moved_advance_ascii [OF ok dot]) simp
  show ?thesis
    using moved_trans [OF m moved_skip_while [OF moved_ok [OF ok m] digit_ascii(1)]] True
    by (auto simp: fraction_part_def)
next
  case False
  assume "lexer_ok l"
  with False show ?thesis using moved_refl by (auto simp: fraction_part_def split: option.splits)
qed

lemma exponent_part_moved:
  assumes ok: "lexer_ok l"
  shows "moved l (fst (exponent_part start (l, f)))"
proof (cases "peek l 0 \<in> {Some (CHR ''e''), Some (CHR ''E'')}")
  case True
  then obtain b where b: "peek l 0 = Some b" "byte b < 128" by auto
  let ?l1 = "advance 1 l"
  have m1: "moved l ?l1" by (rule moved_advance_ascii [OF ok b])
  define l2 where "l2 = (if peek ?l1 0 \<in> {Some (CHR ''+''), Some (CHR ''-'')} then advance 1 ?l1 else ?l1)"
  have m2: "moved ?l1 l2"
  proof (cases "peek ?l1 0 \<in> {Some (CHR ''+''), Some (CHR ''-'')}")
    case True
    then obtain c where c: "peek ?l1 0 = Some c" "byte c < 128" by auto
    show ?thesis using moved_advance_ascii(1) [OF moved_ok [OF ok m1] c] True by (simp add: l2_def)
  qed (use moved_refl moved_ok [OF ok m1] in \<open>simp add: l2_def\<close>)
  have "moved l (skip_while is_digit_byte l2)"
    using moved_trans [OF moved_trans [OF m1 m2] moved_skip_while [OF _ digit_ascii(1)]]
      moved_ok [OF moved_ok [OF ok m1] m2] by blast
  then show ?thesis using True by (auto simp: exponent_part_def Let_def l2_def split: if_splits)
next
  case False
  then show ?thesis using moved_refl [OF ok] by (simp add: exponent_part_def)
qed

lemma decimal_scans:
  assumes ok: "lexer_ok l" and b: "peek l 0 = Some b" "is_digit_byte b" and st: "front (lx_bytes l) start" "start \<le> lx_at l"
  shows "scans l start (decimal_number start l)"
proof -
  let ?l1 = "skip_while is_digit_byte l"
  obtain l2 f2 where 2: "fraction_part ?l1 = (l2, f2)" by fastforce
  obtain l3 f3 where 3: "exponent_part start (l2, f2) = (l3, f3)" by fastforce
  have m1: "moved l ?l1" by (rule moved_skip_while [OF ok digit_ascii(1)])
  have m2: "moved ?l1 l2" using fraction_part_moved [OF moved_ok [OF ok m1]] 2 by simp
  have m3: "moved l2 l3"
    using exponent_part_moved [OF moved_ok [OF moved_ok [OF ok m1] m2], of start f2] 3 by simp
  have lt: "lx_at l < lx_at l3"
    using skip_while_head [where p = is_digit_byte, OF b] m2 m3 by (simp add: moved_def)
  show ?thesis
    unfolding decimal_number_def 2 3 prod.case
    by (rule scans_text [OF ok moved_trans [OF m1 moved_trans [OF m2 m3]] lt st]) auto
qed

lemma radix_scans:
  assumes ok: "lexer_ok l" and b: "peek l 1 = Some c" "byte c < 128" and p: "\<And>b. p b \<Longrightarrow> byte b < 128"
    and st: "front (lx_bytes l) start" "start \<le> lx_at l"
    and l': "moved (skip_while p (advance 2 l)) l'"
  shows "scans l start (res_bind (text_from l' start) (\<lambda>text. Ok (l', TkInteger text)))"
proof -
  note m1 = moved_advance2_ascii [OF ok b]
  note m2 = moved_skip_while [OF moved_ok [OF ok m1(1)], of p, OF p]
  have lt: "lx_at l < lx_at l'"
    using m1(2) m2 l' by (simp add: moved_def)
  show ?thesis by (rule scans_text [OF ok moved_trans [OF m1(1) moved_trans [OF m2 l']] lt st]) auto
qed

lemma lex_number_scans:
  assumes ok: "lexer_ok l" and b: "peek l 0 = Some b" "is_digit_byte b"
  shows "scans l (lx_at l) (lex_number l)"
proof -
  have st: "front (lx_bytes l) (lx_at l)" "lx_at l \<le> lx_at l" using ok by (auto simp: lexer_ok_def)
  consider (hex) "two_bytes l \<in> {Some ''0x'', Some ''0X''}"
    | (oct) "two_bytes l \<notin> {Some ''0x'', Some ''0X''}" "two_bytes l \<in> {Some ''0o'', Some ''0O''}"
    | (dec) "two_bytes l \<notin> {Some ''0x'', Some ''0X''}" "two_bytes l \<notin> {Some ''0o'', Some ''0O''}" by blast
  then show ?thesis
  proof cases
    case hex
    then obtain c where c: "peek l 1 = Some c" "byte c < 128" by (auto simp: two_bytes_Some)
    note m1 = moved_advance2_ascii [OF ok c]
    have ok2: "lexer_ok (skip_while is_hex_byte (advance 2 l))"
      using moved_ok moved_skip_while digit_ascii(2) ok m1(1) by metis
    have "scans l (lx_at l) (hex_number (lx_at l) l)"
      unfolding hex_number_def Let_def
      by (rule radix_scans [OF ok c digit_ascii(2) st]) (use moved_refl [OF ok2] in auto)
    then show ?thesis using hex by (simp add: lex_number_def Let_def)
  next
    case oct
    then obtain c where c: "peek l 1 = Some c" "byte c < 128" by (auto simp: two_bytes_Some)
    note m1 = moved_advance2_ascii [OF ok c]
    have ok2: "lexer_ok (skip_while is_octal_byte (advance 2 l))"
      using moved_ok moved_skip_while digit_ascii(3) ok m1(1) by metis
    have digit: "moved (skip_while is_octal_byte (advance 2 l)) (advance 1 (skip_while is_octal_byte (advance 2 l)))"
      if "is_digit_at (skip_while is_octal_byte (advance 2 l))"
    proof -
      from that obtain d where "peek (skip_while is_octal_byte (advance 2 l)) 0 = Some d" "is_digit_byte d"
        by (auto simp: is_digit_at_def split: option.splits)
      then show ?thesis using moved_advance_ascii(1) [OF ok2] digit_ascii(1) by blast
    qed
    have "scans l (lx_at l) (octal_number (lx_at l) l)"
      unfolding octal_number_def Let_def
      by (rule radix_scans [OF ok c digit_ascii(3) st]) (use moved_refl [OF ok2] digit in auto)
    then show ?thesis using oct by (simp add: lex_number_def Let_def)
  next
    case dec
    then show ?thesis using decimal_scans [OF ok b st] by (simp add: lex_number_def Let_def)
  qed
qed

section \<open>Literals\<close>

lemma char_len_ascii:
  assumes "front s i" "i < length s" "byte (s ! i) < 128"
  shows "char_len s i = 1"
proof -
  have "utf8_valid (drop i s)" "drop i s \<noteq> []" using assms by (auto simp: front_def)
  then obtain c w cs where d: "decode1 (drop i s) = Ok (c, w)" "from_utf8 (drop i s) = Ok (c # cs)"
    using from_utf8_first by blast
  have "decode1 (drop i s) = Ok (byte (s ! i), 1)"
    using decode1_ascii [OF assms(3)] assms(2) by (metis Cons_nth_drop_Suc)
  then show ?thesis using d decode1_len_utf8 [OF d(1)] by (simp add: char_len_def)
qed

lemma to_digit_ascii: "radix \<le> 36 \<Longrightarrow> to_digit radix b \<noteq> None \<Longrightarrow> byte b < 128"
  by (auto simp: to_digit_def Let_def split: if_splits)

lemma escape_radix_cases:
  "escape_radix c = Some (radix, f) \<Longrightarrow> radix \<le> 36 \<and> (f \<longrightarrow> byte c < 128)"
  by (auto simp: escape_radix_def is_digit_byte_def split: if_splits)

lemma numeric_escape_moved:
  assumes ok: "lexer_ok l" and radix: "radix \<le> 36" and st: "if f then lx_at l0 = Suc (lx_at l) \<and> l = l0\<lparr>lx_at := lx_at l\<rparr> else l0 = l"
  shows "moved l (fst (numeric_escape escape_start radix f l0))"
proof -
  have eq: "(if f then l0\<lparr>lx_at := lx_at l0 - 1\<rparr> else l0) = l" using st by (auto split: if_splits)
  have "moved l (skip_while (\<lambda>b. to_digit radix b \<noteq> None) l)"
    by (rule moved_skip_while [OF ok to_digit_ascii [OF radix]])
  then show ?thesis
    unfolding numeric_escape_def Let_def eq invalid_escape_def
    by (auto split: res.splits option.splits)
qed

lemma decode_escape_moved:
  assumes ok: "lexer_ok l" and b: "peek l 0 = Some (CHR 0x5C)"
  shows "moved l (fst (decode_escape l)) \<and> lx_at l < lx_at (fst (decode_escape l))"
proof -
  let ?l1 = "advance 1 l"
  have m1: "moved l ?l1" and at1: "lx_at ?l1 = Suc (lx_at l)"
    using moved_advance_ascii [OF ok b] by simp_all
  have ok1: "lexer_ok ?l1" by (rule moved_ok [OF ok m1])
  have after: "moved l l' \<and> lx_at l < lx_at l'" if "moved ?l1 l'" for l'
    using moved_trans [OF m1 that] that at1 by (simp add: moved_def)
  show ?thesis
  proof (cases "peek ?l1 0")
    case None
    then show ?thesis using after [OF moved_refl [OF ok1]] by (simp add: decode_escape_def Let_def)
  next
    case (Some c)
    let ?l2 = "advance (char_len (lx_bytes ?l1) (lx_at ?l1)) ?l1"
    have m2: "moved ?l1 ?l2" by (rule moved_char [OF ok1 Some])
    show ?thesis
    proof (cases "simple_escape c = None \<and> escape_radix c \<noteq> None")
      case True
      then obtain radix f where r: "escape_radix c = Some (radix, f)" by auto
      note rc = escape_radix_cases [OF r]
      have "moved ?l1 (fst (numeric_escape (lx_at l) radix f ?l2))" if f
      proof (rule numeric_escape_moved [OF ok1])
        have "char_len (lx_bytes ?l1) (lx_at ?l1) = 1"
          using char_len_ascii Some rc that ok1 by (simp add: lexer_ok_def peek_Some)
        then show "if f then lx_at ?l2 = Suc (lx_at ?l1) \<and> ?l1 = ?l2\<lparr>lx_at := lx_at ?l1\<rparr> else ?l2 = ?l1"
          using that by (simp add: advance_def)
      qed (use rc in simp)
      moreover have "moved ?l1 (fst (numeric_escape (lx_at l) radix f ?l2))" if "\<not> f"
        using moved_trans [OF m2 numeric_escape_moved [OF moved_ok [OF ok1 m2]]] rc that by simp
      ultimately have "moved ?l1 (fst (numeric_escape (lx_at l) radix f ?l2))" by blast
      from after [OF this] show ?thesis using Some True r by (simp add: decode_escape_def Let_def)
    next
      case False
      then show ?thesis using after [OF m2] Some
        by (auto simp: decode_escape_def Let_def invalid_escape_def split: option.splits)
    qed
  qed
qed

lemma decode_char_moved:
  assumes ok: "lexer_ok l"
  shows "\<exists>l' v. decode_char start d l = Ok (l', v) \<and> moved l l' \<and> (v \<noteq> None \<longrightarrow> lx_at l < lx_at l')"
proof (cases "peek l 0")
  case None
  then show ?thesis using moved_refl [OF ok] by (simp add: decode_char_def)
next
  case (Some b)
  have f: "front (lx_bytes l) (lx_at l)" "lx_at l < length (lx_bytes l)"
    using ok Some by (simp_all add: lexer_ok_def peek_Some)
  consider "b = d" | "b \<noteq> d" "b = CHR 0x5C" | "b \<noteq> d" "b \<noteq> CHR 0x5C" by blast
  then show ?thesis
  proof cases
    case 1
    then show ?thesis using Some moved_refl [OF ok] by (simp add: decode_char_def)
  next
    case 2
    then show ?thesis
      using Some decode_escape_moved [OF ok, unfolded] by (cases "decode_escape l") (auto simp: decode_char_def)
  next
    case 3
    obtain c cs where c: "from_utf8 (drop (lx_at l) (lx_bytes l)) = Ok (c # cs)"
      "front (lx_bytes l) (lx_at l + len_utf8 c)"
      by (rule front_char [OF f])
    then have "moved l (advance (len_utf8 c) l)" by (simp add: moved_def advance_def)
    then show ?thesis using 3 Some c(1) len_utf8_pos [of c] by (simp add: decode_char_def advance_def)
  qed
qed

lemma lex_character_scans:
  assumes ok: "lexer_ok l" and b: "peek l 0 = Some (CHR 0x27)"
  shows "scans l start (lex_character start l)"
proof -
  have m1: "moved l (advance 1 l)" and at1: "lx_at (advance 1 l) = Suc (lx_at l)"
    using moved_advance_ascii [OF ok b] by simp_all
  obtain l2 v where d: "decode_char start (CHR 0x27) (advance 1 l) = Ok (l2, v)" and m2: "moved (advance 1 l) l2"
    using decode_char_moved [OF moved_ok [OF ok m1]] by blast
  have ok2: "lexer_ok l2" by (rule moved_ok [OF moved_ok [OF ok m1] m2])
  have m: "moved l l2" "lx_at l < lx_at l2" using moved_trans [OF m1 m2] m2 at1 by (auto simp: moved_def)
  have "moved l (advance 1 l2) \<and> lx_at l < lx_at (advance 1 l2)" if "peek l2 0 = Some (CHR 0x27)"
    using moved_trans [OF m(1) moved_advance_ascii(1) [OF ok2 that]] m(2) by (simp add: advance_def)
  then show ?thesis using m d by (simp add: lex_character_def scans_def)
qed

text \<open>The loop of \<open>string\<close> moves from its start to a boundary.\<close>

interpretation string_loop: loop_machine "string_round start" "\<lambda>s. lexer_ok (fst s) \<and> moved l1 (fst s)"
  "\<lambda>s. length (lx_bytes (fst s)) - lx_at (fst s)"
  "\<lambda>r. \<exists>l s. r = Ok (l, s) \<and> lexer_ok l \<and> moved l1 l" for start l1
proof
  fix s s' :: "lexer \<times> string" and r
  assume inv: "lexer_ok (fst s) \<and> moved l1 (fst s)"
  obtain l acc where s: "s = (l, acc)" by (cases s)
  have ok: "lexer_ok l" and m1: "moved l1 l" using inv s by auto
  obtain l' v where d: "decode_char start (CHR 0x22) l = Ok (l', v)" and m: "moved l l'"
    and lt: "v \<noteq> None \<longrightarrow> lx_at l < lx_at l'"
    using decode_char_moved [OF ok] by blast
  have bytes: "lx_bytes l' = lx_bytes l" using m by (simp add: moved_def)
  have gap: "moved l (advance 2 l)" if "peek l 1 = Some (CHR ''&'')"
    by (rule moved_advance2_ascii [OF ok that]) simp
  have inside: "lx_at l < length (lx_bytes l)" if "peek l 0 = Some b" for b
    using that by (simp add: peek_Some)
  show "lexer_ok (fst s') \<and> moved l1 (fst s')" if "string_round start s = Inl s'"
    using that s d gap moved_ok [OF ok] moved_trans [OF m1] m
    by (auto simp: string_round_def split: option.splits if_splits)
  show "length (lx_bytes (fst s')) - lx_at (fst s') < length (lx_bytes (fst s)) - lx_at (fst s)"
    if "string_round start s = Inl s'"
    using that s d lt bytes inside
    by (auto simp: string_round_def advance_def split: option.splits if_splits intro!: diff_less_mono2)
  show "\<exists>l s. r = Ok (l, s) \<and> lexer_ok l \<and> moved l1 l" if "string_round start s = Inr r"
    using that s d ok moved_ok [OF ok] moved_trans [OF m1] m m1
    by (auto simp: string_round_def lexer_ok_def push_error_def moved_def split: option.splits if_splits)
qed

lemma lex_string_scans:
  assumes ok: "lexer_ok l" and b: "peek l 0 = Some (CHR 0x22)"
  shows "\<exists>r. lex_string start l = Some r \<and> scans l start r"
proof -
  have m1: "moved l (advance 1 l)" and at1: "lx_at (advance 1 l) = Suc (lx_at l)"
    using moved_advance_ascii [OF ok b] by simp_all
  have ok1: "lexer_ok (advance 1 l)" by (rule moved_ok [OF ok m1])
  obtain l2 acc where r: "run (string_round start) (advance 1 l, []) = Some (Ok (l2, acc))"
    and ok2: "lexer_ok l2" and m2: "moved (advance 1 l) l2"
    using string_loop.returns [of "(advance 1 l, [])" "advance 1 l" start] ok1 moved_refl [OF ok1] by auto
  have m: "moved l l2" "lx_at l < lx_at l2" using moved_trans [OF m1 m2] m2 at1 by (auto simp: moved_def)
  have "moved l (advance 1 l2) \<and> lx_at l < lx_at (advance 1 l2)" if "peek l2 0 = Some (CHR 0x22)"
    using moved_trans [OF m(1) moved_advance_ascii(1) [OF ok2 that]] m(2) by (simp add: advance_def)
  then show ?thesis using m r by (simp add: lex_string_def scans_def)
qed

section \<open>The next token\<close>

lemma punctuation_ascii:
  "punctuation b = Some k \<Longrightarrow> byte b < 128 \<and> k \<noteq> TkEof \<and> \<not> virtual_kind k \<and> token_text k = None"
  by (auto simp: punctuation_def split: if_splits)

lemma underscore_scans:
  assumes ok: "lexer_ok l" and b: "peek l 0 = Some (CHR ''_'')"
  shows "scans l (lx_at l) (underscore upper (lx_at l) l)"
proof -
  let ?l = "advance 1 l"
  have m: "moved l ?l" and at1: "lx_at ?l = Suc (lx_at l)" using moved_advance_ascii [OF ok b] by simp_all
  have ok1: "lexer_ok ?l" by (rule moved_ok [OF ok m])
  have st: "front (lx_bytes ?l) (lx_at l)" "lx_at l \<le> lx_at ?l" using ok at1 by (auto simp: lexer_ok_def advance_def)
  have "scans l (lx_at l) (lex_identifier upper (lx_at l) ?l)" if "peek ?l 0 = Some c" for c
    using lex_identifier_scans [OF ok1 that st, of upper] moved_trans [OF m] at1
    by (fastforce simp: scans_def)
  moreover have "scans l (lx_at l) (Ok (?l, TkUnderscore))" using m at1 by (simp add: scans_def)
  ultimately show ?thesis by (auto simp: underscore_def Let_def split: option.splits)
qed

lemma scan_token_ok:
  assumes ok: "lexer_ok l" and b: "peek l 0 = Some b"
  shows "(\<exists>l'. scan_token upper (lx_at l) b l = Inl l' \<and> moved l l' \<and> lx_at l < lx_at l') \<or>
    (\<exists>r. scan_token upper (lx_at l) b l = Inr (Some r) \<and> scans l (lx_at l) r)"
proof -
  have st: "front (lx_bytes l) (lx_at l)" "lx_at l \<le> lx_at l" using ok by (auto simp: lexer_ok_def)
  have one: "scans l (lx_at l) (Ok (advance 1 l, k))" if "punctuation b = Some k" for k
    using moved_advance_ascii [OF ok b] punctuation_ascii [OF that] by (simp add: scans_def)
  have two: "scans l (lx_at l) (Ok (advance 2 l, k))"
    if "peek l 1 = Some c" "byte c < 128" "k \<in> {TkDoubleColon, TkArrow, TkBindArrow}" for k c
    using moved_advance2_ascii [OF ok that(1,2)] that(3) by (auto simp: scans_def)
  have skip: "moved l (advance (char_len (lx_bytes l) (lx_at l)) l)" by (rule moved_char [OF ok b])
  have lt: "lx_at l < lx_at (advance (char_len (lx_bytes l) (lx_at l)) l)"
    using char_len_pos by (simp add: advance_def)
  consider (punct) k where "punctuation b = Some k"
    | (dcolon) "punctuation b = None" "b = CHR '':''" "peek l 1 = Some (CHR '':'')"
    | (arrow) "punctuation b = None" "b = CHR ''-''" "peek l 1 = Some (CHR ''>'')"
    | (bind) "punctuation b = None" "b = CHR ''<''" "peek l 1 = Some (CHR ''-'')"
    | (other) "punctuation b = None" "\<not> (b = CHR '':'' \<and> peek l 1 = Some (CHR '':''))"
      "\<not> (b = CHR ''-'' \<and> peek l 1 = Some (CHR ''>''))" "\<not> (b = CHR ''<'' \<and> peek l 1 = Some (CHR ''-''))"
    by (cases "punctuation b"; blast)
  then show ?thesis
  proof cases
    case punct
    then show ?thesis using one by (simp add: scan_token_def single_def)
  next
    case dcolon
    then show ?thesis using two [OF dcolon(3)] by (simp add: scan_token_def)
  next
    case arrow
    then show ?thesis using two [OF arrow(3)] by (simp add: scan_token_def)
  next
    case bind
    then show ?thesis using two [OF bind(3)] by (simp add: scan_token_def)
  next
    case other
    consider (chr) "b = CHR 0x27" | (str) "b \<noteq> CHR 0x27" "b = CHR 0x22"
      | (num) "b \<noteq> CHR 0x27" "b \<noteq> CHR 0x22" "is_digit_byte b"
      | (und) "b \<noteq> CHR 0x27" "b \<noteq> CHR 0x22" "\<not> is_digit_byte b" "b = CHR ''_''"
      | (idt) "b \<noteq> CHR 0x27" "b \<noteq> CHR 0x22" "\<not> is_digit_byte b" "b \<noteq> CHR ''_''" "is_ident_start b"
      | (opr) "b \<noteq> CHR 0x27" "b \<noteq> CHR 0x22" "\<not> is_digit_byte b" "b \<noteq> CHR ''_''" "\<not> is_ident_start b"
        "is_operator_byte b"
      | (err) "b \<noteq> CHR 0x27" "b \<noteq> CHR 0x22" "\<not> is_digit_byte b" "b \<noteq> CHR ''_''" "\<not> is_ident_start b"
        "\<not> is_operator_byte b"
      by blast
    then show ?thesis
    proof cases
      case chr
      then show ?thesis using other lex_character_scans [OF ok, of "lx_at l"] b by (simp add: scan_token_def)
    next
      case str
      then show ?thesis using other lex_string_scans [OF ok, of "lx_at l"] b by (auto simp: scan_token_def)
    next
      case num
      then show ?thesis using other lex_number_scans [OF ok b] by (auto simp: scan_token_def)
    next
      case und
      then show ?thesis using other underscore_scans [OF ok, of upper] b by (auto simp: scan_token_def)
    next
      case idt
      then show ?thesis using other lex_identifier_scans [OF ok b st, of upper] by (auto simp: scan_token_def)
    next
      case opr
      then show ?thesis using other lex_operator_scans [OF ok b _ st] by (auto simp: scan_token_def)
    next
      case err
      then show ?thesis using other skip lt by (auto simp: scan_token_def Let_def)
    qed
  qed
qed

text \<open>What a call of \<open>next\<close> returns.\<close>

definition token_between :: "lexer \<Rightarrow> lexer \<Rightarrow> nat \<Rightarrow> token \<Rightarrow> bool" where
  "token_between l l' start t \<longleftrightarrow>
     lexer_ok l' \<and> lx_source l' = lx_source l \<and> lx_bytes l' = lx_bytes l \<and>
     lx_at l \<le> start \<and> front (lx_bytes l) start \<and> tk_span t = source_span (lx_source l) start (lx_at l') \<and>
     \<not> virtual_kind (tk_kind t) \<and> (\<forall>s. token_text (tk_kind t) = Some s \<longrightarrow> s = slice_of l' start) \<and>
     (if tk_kind t = TkEof then start = length (lx_bytes l) \<and> lx_at l' = start else start < lx_at l')"

lemma lexer_ok_saw [simp]: "lexer_ok (l\<lparr>saw_token_on_line := b\<rparr>) = lexer_ok l"
  by (simp add: lexer_ok_def)

lemma next_round_ok:
  assumes ok: "lexer_ok l"
  shows "(\<exists>l'. next_round upper l = Some (Inl l') \<and> lexer_ok l' \<and> lx_source l' = lx_source l \<and>
      lx_bytes l' = lx_bytes l \<and> lx_at l < lx_at l' \<and> lx_at l < length (lx_bytes l)) \<or>
    (\<exists>l' t start. next_round upper l = Some (Inr (Ok (l', t))) \<and> token_between l l' start t)"
proof -
  let ?l = "skip_trivia l"
  note tr = skip_trivia_ok [OF ok]
  obtain col where col: "visual_column ?l (lx_at ?l) = Ok col" using visual_column_ok tr by blast
  show ?thesis
  proof (cases "peek ?l 0")
    case None
    then have "length (lx_bytes l) \<le> lx_at ?l" using tr by (simp add: peek_def)
    moreover have "lx_at ?l \<le> length (lx_bytes l)" using tr unfolding lexer_ok_def front_def by metis
    ultimately have "lx_at ?l = length (lx_bytes l)" by simp
    then show ?thesis
      using None col tr by (auto simp: next_round_def Let_def token_between_def)
  next
    case (Some b)
    let ?k = "?l\<lparr>saw_token_on_line := True\<rparr>"
    have ok': "lexer_ok ?k" "peek ?k 0 = Some b" using tr Some by (simp_all add: peek_def)
    have inside: "lx_at l < length (lx_bytes l)" using Some tr by (simp add: peek_Some)
    have f: "front (lx_bytes l) (lx_at ?l)" using tr unfolding lexer_ok_def by metis
    from scan_token_ok [OF ok', of upper] show ?thesis
    proof
      assume "\<exists>l'. scan_token upper (lx_at ?k) b ?k = Inl l' \<and> moved ?k l' \<and> lx_at ?k < lx_at l'"
      then obtain l' where l': "scan_token upper (lx_at ?l) b ?k = Inl l'" "moved ?k l'" "lx_at ?l < lx_at l'" by auto
      then have "lexer_ok l'" "lx_source l' = lx_source l" "lx_bytes l' = lx_bytes l" "lx_at l < lx_at l'"
        using moved_ok [OF ok'(1) l'(2)] tr by (auto simp: moved_def)
      then show ?thesis using l'(1) Some col inside by (simp add: next_round_def Let_def)
    next
      assume "\<exists>r. scan_token upper (lx_at ?k) b ?k = Inr (Some r) \<and> scans ?k (lx_at ?k) r"
      then obtain l' kind where l': "scan_token upper (lx_at ?l) b ?k = Inr (Some (Ok (l', kind)))"
        and m: "moved ?k l'" "lx_at ?l < lx_at l'" and k: "kind \<noteq> TkEof" "\<not> virtual_kind kind"
          "\<forall>s. token_text kind = Some s \<longrightarrow> s = slice_of l' (lx_at ?l)"
        by (auto simp: scans_def)
      have "lexer_ok l'" "lx_source l' = lx_source l" "lx_bytes l' = lx_bytes l"
        using moved_ok [OF ok'(1) m(1)] m(1) tr by (auto simp: moved_def)
      then show ?thesis
        using l' k m(2) Some col tr f
        by (auto simp: next_round_def Let_def token_between_def here_def)
    qed
  qed
qed

lemma next_token_ok:
  assumes ok: "lexer_ok l"
  shows "\<exists>l' t start. next_token upper l = Some (Ok (l', t)) \<and> token_between l l' start t"
proof -
  let ?I = "\<lambda>k. lexer_ok k \<and> lx_source k = lx_source l \<and> lx_bytes k = lx_bytes l \<and> lx_at l \<le> lx_at k"
  let ?Q = "\<lambda>r. \<exists>l' t start. r = Ok (l', t) \<and> token_between l l' start t"
  have "\<exists>r. run_calls (next_round upper) l = Some r \<and> ?Q r"
  proof (rule run_calls_total [where I = ?I])
    show "wf (measure (\<lambda>k. length (lx_bytes k) - lx_at k))" by (rule wf_measure)
    show "?I l" using ok by simp
    fix k assume k: "?I k"
    from next_round_ok [OF conjunct1 [OF k], of upper]
    show "(\<exists>s'. next_round upper k = Some (Inl s') \<and> ?I s' \<and>
        (s', k) \<in> measure (\<lambda>k. length (lx_bytes k) - lx_at k)) \<or>
      (\<exists>r. next_round upper k = Some (Inr r) \<and> ?Q r)"
    proof (elim disjE exE conjE)
      fix l' assume "next_round upper k = Some (Inl l')" "lexer_ok l'" "lx_source l' = lx_source k"
        "lx_bytes l' = lx_bytes k" "lx_at k < lx_at l'" "lx_at k < length (lx_bytes k)"
      then show ?thesis using k by (intro disjI1) (auto intro!: diff_less_mono2)
    next
      fix l' t start assume "next_round upper k = Some (Inr (Ok (l', t)))" "token_between k l' start t"
      moreover from this have "token_between l l' start t"
        using k unfolding token_between_def by (auto split: if_splits)
      ultimately show ?thesis by blast
    qed
  qed
  then show ?thesis by (auto simp: next_token_def)
qed

end
