(* ===== verification/Hell_Layout.thy ===== *)
theory Hell_Layout
  imports Hell_Scanning
begin

text \<open>
  Layout: \<open>insert_layout\<close> turns the physical tokens into the token stream of the parser by
  inserting virtual braces and semicolons, and \<open>lex\<close> puts the scanner and the layout
  pass together.  The stack of contexts has its top in front.
\<close>

section \<open>The layout pass\<close>

datatype layout_context = Explicit | Implicit nat bool

record layout =
  ly_output :: "token list"
  ly_contexts :: "layout_context list"
  ly_pending :: bool

definition layout_push :: "token \<Rightarrow> layout \<Rightarrow> layout" where
  "layout_push t s = s\<lparr>ly_output := ly_output s @ [t]\<rparr>"

text \<open>A virtual token at the start of \<open>t\<close>.\<close>

definition virtual_at :: "token_kind \<Rightarrow> token \<Rightarrow> bool \<Rightarrow> token" where
  "virtual_at kind t starts =
    \<lparr>tk_kind = kind, tk_span = span_empty (span_source (tk_span t)) (span_start (tk_span t)),
     starts_line = starts, column = column t\<rparr>"

text \<open>The block that a \<open>do\<close> or \<open>of\<close> opens at the next token.\<close>

definition open_pending :: "token \<Rightarrow> layout \<Rightarrow> layout" where
  "open_pending t s =
    (if ly_pending s then
       (let s' = s\<lparr>ly_pending := False\<rparr> in
        if tk_kind t \<noteq> TkLBrace then
          (layout_push (virtual_at TkVirtualLBrace t (starts_line t)) s')
            \<lparr>ly_contexts := Implicit (column t) True # ly_contexts s'\<rparr>
        else s')
     else s)"

text \<open>The loop that closes the implicit blocks to the right of the token.\<close>

fun dedent :: "token \<Rightarrow> layout_context list \<Rightarrow> token list \<Rightarrow> layout_context list \<times> token list" where
  "dedent t (Implicit col first # contexts) output =
    (if column t < col then dedent t contexts (output @ [virtual_at TkVirtualRBrace t True])
     else (Implicit col first # contexts, output))"
| "dedent t contexts output = (contexts, output)"

definition close_dedented :: "token \<Rightarrow> layout \<Rightarrow> layout" where
  "close_dedented t s =
    (case dedent t (ly_contexts s) (ly_output s) of
       (contexts, output) \<Rightarrow> s\<lparr>ly_contexts := contexts, ly_output := output\<rparr>)"

text \<open>A token on a new line at the column of its block starts another item.\<close>

definition separate_item :: "token \<Rightarrow> layout \<Rightarrow> layout" where
  "separate_item t s =
    (case ly_contexts s of
       Implicit col first # contexts \<Rightarrow>
         (if column t = col then
            (if first then s\<lparr>ly_contexts := Implicit col False # contexts\<rparr>
             else layout_push (virtual_at TkVirtualSemicolon t True) s)
          else s)
     | _ \<Rightarrow> s)"

definition clear_first :: "layout \<Rightarrow> layout" where
  "clear_first s =
    (case ly_contexts s of
       Implicit col first # contexts \<Rightarrow> s\<lparr>ly_contexts := Implicit col False # contexts\<rparr>
     | _ \<Rightarrow> s)"

fun pop_explicit :: "layout_context list \<Rightarrow> layout_context list" where
  "pop_explicit [] = []"
| "pop_explicit (Explicit # contexts) = contexts"
| "pop_explicit (Implicit _ _ # contexts) = pop_explicit contexts"

definition enter_token :: "token \<Rightarrow> layout \<Rightarrow> layout" where
  "enter_token t s =
    (case tk_kind t of
       TkLBrace \<Rightarrow> s\<lparr>ly_contexts := Explicit # ly_contexts s\<rparr>
     | TkRBrace \<Rightarrow> s\<lparr>ly_contexts := pop_explicit (ly_contexts s)\<rparr>
     | TkKwDo \<Rightarrow> s\<lparr>ly_pending := True\<rparr>
     | TkKwOf \<Rightarrow> s\<lparr>ly_pending := True\<rparr>
     | _ \<Rightarrow> s)"

definition layout_token :: "token \<Rightarrow> layout \<Rightarrow> layout" where
  "layout_token t s0 =
    (let s1 = open_pending t s0;
         s2 = (if starts_line t then separate_item t (close_dedented t s1) else clear_first s1) in
     layout_push t (enter_token t s2))"

text \<open>At the end of the file the implicit blocks on top of the stack are closed.\<close>

fun close_implicit :: "token \<Rightarrow> layout_context list \<Rightarrow> token list" where
  "close_implicit t (Implicit _ _ # contexts) = t\<lparr>tk_kind := TkVirtualRBrace\<rparr> # close_implicit t contexts"
| "close_implicit t _ = []"

fun layout_tokens :: "token list \<Rightarrow> layout \<Rightarrow> token list" where
  "layout_tokens [] s = ly_output s"
| "layout_tokens (t # ts) s =
    (if tk_kind t = TkEof then ly_output s @ close_implicit t (ly_contexts s) @ [t]
     else layout_tokens ts (layout_token t s))"

definition layout_start :: "source_file \<Rightarrow> token list \<Rightarrow> layout" where
  "layout_start f physical =
    \<lparr>ly_output =
       [\<lparr>tk_kind = TkVirtualLBrace,
         tk_span = (case physical of [] \<Rightarrow> eof_span f | t # _ \<Rightarrow> span_empty (file_id f) (span_start (tk_span t))),
         starts_line = True, column = 1\<rparr>],
     ly_contexts = [Implicit (case physical of [] \<Rightarrow> 1 | t # _ \<Rightarrow> column t) True],
     ly_pending = False\<rparr>"

definition insert_layout :: "source_file \<Rightarrow> token list \<Rightarrow> token list" where
  "insert_layout f physical = layout_tokens physical (layout_start f physical)"

section \<open>The whole lexer\<close>

definition lex_round ::
  "(nat \<Rightarrow> bool) \<Rightarrow> lexer \<times> token list \<Rightarrow>
   (lexer \<times> token list + (lexer \<times> token list, unit) res) option" where
  "lex_round upper s =
    (case s of (l, tokens) \<Rightarrow>
      call (next_token upper l) (\<lambda>(l', t).
        if tk_kind t = TkEof then Some (Inr (Ok (l', tokens @ [t])))
        else Some (Inl (l', tokens @ [t]))))"

definition lex :: "(nat \<Rightarrow> bool) \<Rightarrow> source_file \<Rightarrow> (token list, syntax_error list) res option" where
  "lex upper f =
    map_option (\<lambda>r. case r of
        Ok (l, tokens) \<Rightarrow> if lx_errors l = [] then Ok (insert_layout f tokens) else Err (lx_errors l)
      | _ \<Rightarrow> Panic)
      (run_calls (lex_round upper) (lexer_new f, []))"

section \<open>Layout only adds virtual tokens\<close>

definition physical :: "token \<Rightarrow> bool" where
  "physical t \<longleftrightarrow> \<not> virtual_kind (tk_kind t)"

lemma not_physical_virtual [simp]:
  "k \<in> {TkVirtualLBrace, TkVirtualRBrace, TkVirtualSemicolon} \<Longrightarrow> \<not> physical (virtual_at k t b)"
  by (auto simp: physical_def virtual_at_def)

lemma dedent_physical: "filter physical (snd (dedent t cs ts)) = filter physical ts"
  by (induction t cs ts rule: dedent.induct) auto

lemma layout_token_physical:
  "filter physical (ly_output (layout_token t s)) = filter physical (ly_output s) @ filter physical [t]"
proof -
  have 1: "filter physical (ly_output (open_pending t s)) = filter physical (ly_output s)"
    by (simp add: open_pending_def layout_push_def Let_def)
  have 2: "filter physical (ly_output (separate_item t (close_dedented t s'))) = filter physical (ly_output s')" for s'
    using dedent_physical [of t "ly_contexts s'" "ly_output s'"]
    by (auto simp: close_dedented_def separate_item_def layout_push_def
        split: prod.splits list.splits layout_context.splits)
  have 3: "ly_output (clear_first s') = ly_output s'" "ly_output (enter_token t s') = ly_output s'" for s'
    by (auto simp: clear_first_def enter_token_def split: list.splits layout_context.splits token_kind.splits)
  show ?thesis by (simp add: layout_token_def Let_def layout_push_def 1 2 3)
qed

lemma close_implicit_physical: "filter physical (close_implicit t contexts) = []"
  by (induction t contexts rule: close_implicit.induct) (auto simp: physical_def)

lemma layout_tokens_physical:
  "layout_tokens (ts @ [eof]) s = out \<Longrightarrow> \<forall>t \<in> set ts. physical t \<and> tk_kind t \<noteq> TkEof \<Longrightarrow> tk_kind eof = TkEof \<Longrightarrow>
    filter physical out = filter physical (ly_output s) @ ts @ [eof]"
proof (induction ts arbitrary: s)
  case Nil
  then have "physical eof" by (simp add: physical_def)
  then show ?case using Nil close_implicit_physical [of eof "ly_contexts s"] by auto
next
  case (Cons t ts)
  then show ?case using layout_token_physical [of t s] by auto
qed

lemma insert_layout_physical:
  assumes "\<forall>t \<in> set ts. physical t \<and> tk_kind t \<noteq> TkEof" "tk_kind eof = TkEof"
  shows "filter physical (insert_layout f (ts @ [eof])) = ts @ [eof]"
  using layout_tokens_physical [OF refl assms, of "layout_start f (ts @ [eof])"]
  by (simp add: insert_layout_def layout_start_def physical_def)

lemma layout_tokens_last:
  "tk_kind eof = TkEof \<Longrightarrow> \<forall>t \<in> set ts. tk_kind t \<noteq> TkEof \<Longrightarrow>
    \<exists>front. layout_tokens (ts @ [eof]) s = front @ [eof]"
  by (induction ts arbitrary: s) auto

section \<open>Lexing returns, and its tokens are the source\<close>

text \<open>The shape of a source file that \<open>SourceMap::add_bytes\<close> accepts.\<close>

definition source_ok :: "source_file \<Rightarrow> bool" where
  "source_ok f \<longleftrightarrow> utf8_valid (file_bytes f) \<and>
     (case shebang f of None \<Rightarrow> True | Some sp \<Rightarrow> front (file_bytes f) (span_end sp))"

lemma add_bytes_source_ok:
  assumes "add_bytes files name bytes = (files', Ok f)"
  shows "source_ok f \<and> file_bytes f = bytes"
proof -
  from assms obtain cs sb where v: "from_utf8 bytes = Ok cs" and b: "file_bytes f = bytes" "shebang f = sb"
    and sb: "shebang_of (length files) bytes = Ok sb"
    by (auto simp: add_bytes_def split: res.splits prod.splits option.splits)
  have valid: "utf8_valid bytes" using v by (auto simp: utf8_valid_def)
  let ?n = "first_newline bytes"
  have "front bytes ?n"
  proof (cases "?n < length bytes")
    case True
    have "bytes ! ?n = CHR 0x0A"
      using nth_length_takeWhile [of "\<lambda>b. b \<noteq> CHR 0x0A" bytes] True by (simp add: first_newline_def)
    then show ?thesis using frontI [OF valid True] by (simp add: ascii_not_cont)
  next
    case False
    have "?n \<le> length bytes" unfolding first_newline_def by (rule length_takeWhile_le)
    then show ?thesis using False by simp
  qed
  then show ?thesis
    using sb valid b by (auto simp: source_ok_def shebang_of_def Let_def span_new_def split: if_splits option.splits)
qed

text \<open>
  A chain of physical tokens from position \<open>p\<close>: each spans a nonempty part of the source
  behind the previous one, a token with a text has the text of its span, and the last one
  is \<open>Eof\<close> at the end of the file.
\<close>

fun token_chain :: "source_file \<Rightarrow> nat \<Rightarrow> token list \<Rightarrow> bool" where
  "token_chain f p [] = False"
| "token_chain f p [t] =
    (tk_kind t = TkEof \<and> p \<le> length (file_bytes f) \<and>
     tk_span t = source_span f (length (file_bytes f)) (length (file_bytes f)))"
| "token_chain f p (t # ts) =
    (tk_kind t \<noteq> TkEof \<and> \<not> virtual_kind (tk_kind t) \<and>
     (\<exists>s e. p \<le> s \<and> s < e \<and> e \<le> length (file_bytes f) \<and> tk_span t = source_span f s e \<and>
        (\<forall>x. token_text (tk_kind t) = Some x \<longrightarrow> x = take (e - s) (drop s (file_bytes f))) \<and>
        token_chain f e ts))"

text \<open>The tokens read so far, up to position \<open>p\<close>.\<close>

fun tokens_upto :: "source_file \<Rightarrow> nat \<Rightarrow> token list \<Rightarrow> nat \<Rightarrow> bool" where
  "tokens_upto f q [] p = (q \<le> p)"
| "tokens_upto f q (t # ts) p =
    (tk_kind t \<noteq> TkEof \<and> \<not> virtual_kind (tk_kind t) \<and>
     (\<exists>s e. q \<le> s \<and> s < e \<and> e \<le> length (file_bytes f) \<and> tk_span t = source_span f s e \<and>
        (\<forall>x. token_text (tk_kind t) = Some x \<longrightarrow> x = take (e - s) (drop s (file_bytes f))) \<and>
        tokens_upto f e ts p))"

lemma tokens_upto_snoc:
  "tokens_upto f q ts p \<Longrightarrow> tk_kind t \<noteq> TkEof \<Longrightarrow> \<not> virtual_kind (tk_kind t) \<Longrightarrow> p \<le> s \<Longrightarrow> s < e \<Longrightarrow>
    e \<le> length (file_bytes f) \<Longrightarrow> tk_span t = source_span f s e \<Longrightarrow>
    (\<forall>x. token_text (tk_kind t) = Some x \<longrightarrow> x = take (e - s) (drop s (file_bytes f))) \<Longrightarrow>
    tokens_upto f q (ts @ [t]) e"
  by (induction ts arbitrary: q) (auto intro: exI [of _ s])

lemma tokens_upto_eof:
  "tokens_upto f q ts p \<Longrightarrow> p \<le> length (file_bytes f) \<Longrightarrow> tk_kind t = TkEof \<Longrightarrow>
    tk_span t = source_span f (length (file_bytes f)) (length (file_bytes f)) \<Longrightarrow> token_chain f q (ts @ [t])"
proof (induction ts arbitrary: q)
  case (Cons a ts)
  then obtain s e where se: "q \<le> s" "s < e" "e \<le> length (file_bytes f)" "tk_span a = source_span f s e"
    "\<forall>x. token_text (tk_kind a) = Some x \<longrightarrow> x = take (e - s) (drop s (file_bytes f))" "tokens_upto f e ts p"
    by auto
  from Cons.IH [OF se(6) Cons.prems(2-4)] have "token_chain f e (ts @ [t])" .
  moreover obtain b bs where "ts @ [t] = b # bs" by (cases ts) auto
  ultimately show ?case using Cons.prems(1) se by auto
qed simp

lemma token_chain_shape:
  "token_chain f p ts \<Longrightarrow> \<exists>init eof. ts = init @ [eof] \<and> tk_kind eof = TkEof \<and>
    (\<forall>t \<in> set init. physical t \<and> tk_kind t \<noteq> TkEof)"
proof (induction f p ts rule: token_chain.induct)
  case (2 f p t)
  then show ?case by (intro exI [of _ "[]"]) auto
next
  case (3 f p t a ts)
  from 3(2) obtain e where e: "token_chain f e (a # ts)" and t: "physical t" "tk_kind t \<noteq> TkEof"
    by (auto simp: physical_def)
  from 3(1) [OF e] obtain init eof where "a # ts = init @ [eof]" "tk_kind eof = TkEof"
    "\<forall>t \<in> set init. physical t \<and> tk_kind t \<noteq> TkEof" by blast
  with t show ?case by (intro exI [of _ "t # init"] exI [of _ eof]) auto
qed simp

lemma lex_run:
  assumes "source_ok f"
  shows "\<exists>l tokens. run_calls (lex_round upper) (lexer_new f, []) = Some (Ok (l, tokens)) \<and>
    token_chain f 0 tokens"
proof -
  let ?I = "\<lambda>(l, ts). lexer_ok l \<and> lx_source l = f \<and> lx_bytes l = file_bytes f \<and> tokens_upto f 0 ts (lx_at l)"
  let ?Q = "\<lambda>r. \<exists>l ts. r = Ok (l, ts) \<and> token_chain f 0 ts"
  let ?R = "measure (\<lambda>(l, ts). length (lx_bytes l) - lx_at l)"
  have "\<exists>r. run_calls (lex_round upper) (lexer_new f, []) = Some r \<and> ?Q r"
  proof (rule run_calls_total [where I = ?I])
    show "?I (lexer_new f, [])"
      using assms by (auto simp: lexer_new_def lexer_ok_def source_ok_def front_def split: option.splits)
    show "wf ?R" by simp
    fix s assume inv: "?I s"
    obtain l ts where s: "s = (l, ts)" by (cases s)
    have l: "lexer_ok l" "lx_source l = f" "lx_bytes l = file_bytes f" "tokens_upto f 0 ts (lx_at l)"
      using inv s by auto
    obtain l' t start where t: "next_token upper l = Some (Ok (l', t))" and b: "token_between l l' start t"
      using next_token_ok [OF l(1)] by blast
    have len: "lx_at l' \<le> length (file_bytes f)" and l': "lexer_ok l'" "lx_source l' = f" "lx_bytes l' = file_bytes f"
      using b l by (auto simp: token_between_def lexer_ok_def front_def)
    show "(\<exists>s'. lex_round upper s = Some (Inl s') \<and> ?I s' \<and> (s', s) \<in> ?R) \<or>
        (\<exists>r. lex_round upper s = Some (Inr r) \<and> ?Q r)"
    proof (cases "tk_kind t = TkEof")
      case True
      then have "token_chain f 0 (ts @ [t])"
        using tokens_upto_eof [OF l(4)] b l by (auto simp: token_between_def lexer_ok_def front_def)
      then show ?thesis using t True s by (simp add: lex_round_def)
    next
      case False
      then have lt: "lx_at l \<le> start" "start < lx_at l'" using b by (auto simp: token_between_def)
      have "tokens_upto f 0 (ts @ [t]) (lx_at l')"
        by (rule tokens_upto_snoc [OF l(4) False _ lt len])
           (use b l l' in \<open>auto simp: token_between_def slice_of_def\<close>)
      then show ?thesis using t False s l' l lt len by (simp add: lex_round_def)
    qed
  qed
  then show ?thesis by auto
qed

text \<open>
  C5: \<open>lex\<close> is total and lossless.  For every file that \<open>SourceMap\<close> accepts the lexer
  returns without panicking.  When it returns tokens, those that are not virtual form a
  chain through the source: nonempty spans in order, each identifier, operator and number
  carrying exactly the text of its span, ended by a single \<open>Eof\<close> at the end of the file;
  layout has only added virtual tokens, and the stream ends with \<open>Eof\<close>.
\<close>

theorem lex_total:
  assumes "source_ok f"
  shows "\<exists>r. lex upper f = Some r \<and> r \<noteq> Panic \<and> (\<forall>es. r = Err es \<longrightarrow> es \<noteq> []) \<and>
    (\<forall>ts. r = Ok ts \<longrightarrow> token_chain f 0 (filter physical ts) \<and> ts \<noteq> [] \<and> tk_kind (last ts) = TkEof)"
proof -
  obtain l tokens where r: "run_calls (lex_round upper) (lexer_new f, []) = Some (Ok (l, tokens))"
    and chain: "token_chain f 0 tokens"
    using lex_run [OF assms] by blast
  obtain init eof where shape: "tokens = init @ [eof]" "tk_kind eof = TkEof"
    "\<forall>t \<in> set init. physical t \<and> tk_kind t \<noteq> TkEof"
    using token_chain_shape [OF chain] by blast
  have "filter physical (insert_layout f tokens) = tokens"
    using insert_layout_physical shape by blast
  moreover have "\<exists>front. insert_layout f tokens = front @ [eof]"
    unfolding insert_layout_def shape(1) by (rule layout_tokens_last) (use shape in auto)
  ultimately show ?thesis using r chain shape(2) by (auto simp: lex_def)
qed

text \<open>A file of one declaration.\<close>

definition sample_file :: "string \<Rightarrow> source_file" where
  "sample_file bytes =
    \<lparr>file_id = 0, file_name = VirtualName ''sample'', file_bytes = bytes, file_text = bytes,
     line_starts = [0], shebang = None\<rparr>"

theorem lex_total_witness:
  "\<exists>r. lex (\<lambda>_. False) (sample_file ''x = 1'') = Some r \<and> r \<noteq> Panic \<and> (\<forall>es. r = Err es \<longrightarrow> es \<noteq> []) \<and>
    (\<forall>ts. r = Ok ts \<longrightarrow> token_chain (sample_file ''x = 1'') 0 (filter physical ts) \<and> ts \<noteq> [] \<and>
      tk_kind (last ts) = TkEof)"
  by (rule lex_total) (simp add: source_ok_def sample_file_def utf8_valid_ascii)

section \<open>Virtual braces balance\<close>

text \<open>
  Without explicit braces the context stack is what the virtual braces have opened: no
  prefix of the stream closes more blocks than it has opened, and at the end all are
  closed.
\<close>

fun brace :: "token_kind \<Rightarrow> int" where
  "brace TkVirtualLBrace = 1"
| "brace TkVirtualRBrace = - 1"
| "brace _ = 0"

definition brace_depth :: "token list \<Rightarrow> int" where
  "brace_depth ts = sum_list (map (\<lambda>t. brace (tk_kind t)) ts)"

definition never_negative :: "token list \<Rightarrow> bool" where
  "never_negative ts \<longleftrightarrow> (\<forall>n. 0 \<le> brace_depth (take n ts))"

lemma brace_depth_append [simp]: "brace_depth (a @ b) = brace_depth a + brace_depth b"
  by (simp add: brace_depth_def)

lemma brace_depth_simps [simp]: "brace_depth [] = 0" "brace_depth (t # ts) = brace (tk_kind t) + brace_depth ts"
  by (simp_all add: brace_depth_def)

lemma never_negative_snoc:
  assumes "never_negative ts" "0 \<le> brace_depth (ts @ [t])"
  shows "never_negative (ts @ [t])"
  unfolding never_negative_def
proof
  fix n
  show "0 \<le> brace_depth (take n (ts @ [t]))"
    using assms by (cases "n \<le> length ts") (auto simp: never_negative_def)
qed

definition all_implicit :: "layout_context list \<Rightarrow> bool" where
  "all_implicit cs \<longleftrightarrow> Explicit \<notin> set cs"

lemma dedent_depth:
  "never_negative ts \<Longrightarrow> all_implicit cs \<Longrightarrow> brace_depth ts = int (length cs) \<Longrightarrow> dedent t cs ts = (cs', ts') \<Longrightarrow>
    never_negative ts' \<and> all_implicit cs' \<and> brace_depth ts' = int (length cs')"
proof (induction t cs ts rule: dedent.induct)
  case (1 t col first cs ts)
  let ?v = "virtual_at TkVirtualRBrace t True"
  show ?case
  proof (cases "column t < col")
    case True
    have d: "brace_depth (ts @ [?v]) = int (length cs)" using 1(4) by (simp add: virtual_at_def)
    have "never_negative (ts @ [?v])" by (rule never_negative_snoc [OF 1(2)]) (simp only: d of_nat_0_le_iff)
    from 1(1) [OF True this _ d] show ?thesis using 1(3,5) True by (simp add: all_implicit_def)
  next
    case False
    then show ?thesis using 1 by auto
  qed
qed auto

definition balanced :: "layout \<Rightarrow> bool" where
  "balanced s \<longleftrightarrow> never_negative (ly_output s) \<and> all_implicit (ly_contexts s) \<and>
     brace_depth (ly_output s) = int (length (ly_contexts s))"

lemma balanced_push: "balanced s \<Longrightarrow> brace (tk_kind t) = 0 \<Longrightarrow> balanced (layout_push t s)"
  by (auto simp: balanced_def layout_push_def intro!: never_negative_snoc)

lemma layout_token_balanced:
  assumes s: "balanced s" and t: "\<not> virtual_kind (tk_kind t)" "tk_kind t \<notin> {TkLBrace, TkRBrace}"
  shows "balanced (layout_token t s)"
proof -
  have b0: "brace (tk_kind t) = 0" using t by (cases "tk_kind t") auto
  have 1: "balanced (open_pending t s)"
    using s t(2) by (auto simp: open_pending_def balanced_def layout_push_def virtual_at_def all_implicit_def
        Let_def intro!: never_negative_snoc)
  have 2: "balanced (close_dedented t s')" if "balanced s'" for s'
    using that dedent_depth [of "ly_output s'" "ly_contexts s'" t]
    by (auto simp: balanced_def close_dedented_def split: prod.splits)
  have 3: "balanced (separate_item t s')" if "balanced s'" for s'
    using that balanced_push [OF that, of "virtual_at TkVirtualSemicolon t True"]
    by (auto simp: separate_item_def balanced_def all_implicit_def virtual_at_def
        split: list.splits layout_context.splits)
  have 4: "balanced (clear_first s')" if "balanced s'" for s'
    using that by (auto simp: clear_first_def balanced_def all_implicit_def split: list.splits layout_context.splits)
  have 5: "balanced (enter_token t s')" if "balanced s'" for s'
    using that t(2) by (auto simp: enter_token_def balanced_def split: token_kind.splits)
  show ?thesis
    unfolding layout_token_def Let_def by (rule balanced_push [OF 5 b0]) (use 1 2 3 4 in auto)
qed

lemma close_implicit_depth:
  "all_implicit cs \<Longrightarrow> never_negative ts \<Longrightarrow> brace_depth ts = int (length cs) \<Longrightarrow>
    never_negative (ts @ close_implicit t cs) \<and> brace_depth (ts @ close_implicit t cs) = 0"
proof (induction t cs arbitrary: ts rule: close_implicit.induct)
  case (1 t col first cs)
  have "never_negative (ts @ [t\<lparr>tk_kind := TkVirtualRBrace\<rparr>])"
    by (rule never_negative_snoc [OF 1(3)]) (use 1(4) in simp)
  then show ?case using 1(1) [of "ts @ [t\<lparr>tk_kind := TkVirtualRBrace\<rparr>]"] 1(2,4) by (simp add: all_implicit_def)
qed (auto simp: all_implicit_def)

lemma layout_tokens_balanced:
  assumes "balanced s" "tk_kind eof = TkEof"
    "\<forall>t \<in> set ts. \<not> virtual_kind (tk_kind t) \<and> tk_kind t \<notin> {TkEof, TkLBrace, TkRBrace}"
  shows "never_negative (layout_tokens (ts @ [eof]) s) \<and> brace_depth (layout_tokens (ts @ [eof]) s) = 0"
  using assms
proof (induction ts arbitrary: s)
  case Nil
  then have "never_negative (ly_output s @ close_implicit eof (ly_contexts s)) \<and>
      brace_depth (ly_output s @ close_implicit eof (ly_contexts s)) = 0"
    unfolding balanced_def by (intro close_implicit_depth) simp_all
  then show ?case
    using Nil never_negative_snoc [of "ly_output s @ close_implicit eof (ly_contexts s)" eof] by simp
next
  case (Cons t ts)
  then show ?case using layout_token_balanced [of s t] by simp
qed

text \<open>
  C35: Layout balances.  For a source without explicit braces, in the token stream of
  \<open>insert_layout\<close> every virtual closing brace closes an open virtual block, and every
  virtual block is closed before the end of the file.
\<close>

theorem layout_balanced:
  assumes "tk_kind eof = TkEof"
    and "\<forall>t \<in> set ts. \<not> virtual_kind (tk_kind t) \<and> tk_kind t \<notin> {TkEof, TkLBrace, TkRBrace}"
  shows "never_negative (insert_layout f (ts @ [eof])) \<and> brace_depth (insert_layout f (ts @ [eof])) = 0"
proof -
  have "never_negative [v]" if "tk_kind v = TkVirtualLBrace" for v
    using never_negative_snoc [of "[]" v] that by (simp add: never_negative_def)
  then have "balanced (layout_start f (ts @ [eof]))"
    by (auto simp: balanced_def layout_start_def all_implicit_def)
  from layout_tokens_balanced [OF this assms] show ?thesis by (simp add: insert_layout_def)
qed

definition sample_token :: "token_kind \<Rightarrow> nat \<Rightarrow> nat \<Rightarrow> bool \<Rightarrow> token" where
  "sample_token k s col first =
    \<lparr>tk_kind = k, tk_span = span_new 0 s (s + 1), starts_line = first, column = col\<rparr>"

theorem layout_balanced_witness:
  "brace_depth (insert_layout (sample_file ''x = do y'')
     [sample_token (TkLower ''x'') 0 1 True, sample_token TkEquals 2 3 False, sample_token TkKwDo 4 5 False,
      sample_token (TkLower ''y'') 7 8 False, sample_token TkEof 8 9 False]) = 0"
  using layout_balanced [of "sample_token TkEof 8 9 False"
    "[sample_token (TkLower ''x'') 0 1 True, sample_token TkEquals 2 3 False, sample_token TkKwDo 4 5 False,
      sample_token (TkLower ''y'') 7 8 False]" "sample_file ''x = do y''"]
  by (simp add: sample_token_def)

end
