(* ===== verification/Hell_Ast.thy ===== *)
theory Hell_Ast
  imports Hell_Layout
begin

text \<open>
  The syntax trees of crate \<open>hell-syntax\<close> and the state of its parser.  Expressions and
  types live in arenas and refer to each other by index.  A parsing function takes the
  parser and returns it updated, also when it fails, because \<open>parse\<close> goes on after an
  error; a loop that does not return is \<open>None\<close>.
\<close>

section \<open>Syntax trees\<close>

datatype literal = LInteger string | LDouble string | LCharacter nat | LText string | LUnit

datatype binding_pattern =
    PVariable string span
  | PWildcard span
  | PTuple "string list" span
  | PAnnotated binding_pattern nat span

datatype do_statement =
    SBind binding_pattern nat span
  | SLet binding_pattern nat span
  | SThen nat span

datatype case_pattern =
    UserConstructor string "string option" span
  | PrimitiveConstructor string "string list" span
  | CWildcard span

fun case_pattern_span :: "case_pattern \<Rightarrow> span" where
  "case_pattern_span (UserConstructor _ _ sp) = sp"
| "case_pattern_span (PrimitiveConstructor _ _ sp) = sp"
| "case_pattern_span (CWildcard sp) = sp"

record case_alternative =
  alt_pattern :: case_pattern
  alt_expression :: nat
  alt_span :: span

record record_field_expr =
  rf_name :: string
  rf_value :: nat
  rf_pun :: bool
  rf_span :: span

datatype expr =
    EName string span
  | ELiteral literal span
  | EApply nat nat span
  | ETypeApply nat nat span
  | ELambda "binding_pattern list" nat span
  | EIf nat nat nat span
  | EDo "do_statement list" span
  | ECase nat "case_alternative list" span
  | ETuple "nat list" span
  | EList "nat list" span
  | ERecord string "record_field_expr list" span
  | EAnnotation nat nat span

fun expr_span :: "expr \<Rightarrow> span" where
  "expr_span (EName _ sp) = sp"
| "expr_span (ELiteral _ sp) = sp"
| "expr_span (EApply _ _ sp) = sp"
| "expr_span (ETypeApply _ _ sp) = sp"
| "expr_span (ELambda _ _ sp) = sp"
| "expr_span (EIf _ _ _ sp) = sp"
| "expr_span (EDo _ sp) = sp"
| "expr_span (ECase _ _ sp) = sp"
| "expr_span (ETuple _ sp) = sp"
| "expr_span (EList _ sp) = sp"
| "expr_span (ERecord _ _ sp) = sp"
| "expr_span (EAnnotation _ _ sp) = sp"

datatype type_expr =
    TyName string span
  | TyUnit span
  | TyList nat span
  | TyTuple "nat list" span
  | TyFunction nat nat span
  | TyApply nat nat span
  | TyPromoted string span

fun type_expr_span :: "type_expr \<Rightarrow> span" where
  "type_expr_span (TyName _ sp) = sp"
| "type_expr_span (TyUnit sp) = sp"
| "type_expr_span (TyList _ sp) = sp"
| "type_expr_span (TyTuple _ sp) = sp"
| "type_expr_span (TyFunction _ _ sp) = sp"
| "type_expr_span (TyApply _ _ sp) = sp"
| "type_expr_span (TyPromoted _ sp) = sp"

record value_decl =
  vd_name :: string
  vd_annotation :: "nat option"
  vd_value :: nat
  vd_span :: span

record field_decl =
  fd_name :: string
  fd_ty :: nat
  fd_span :: span

record record_decl =
  rd_type_name :: string
  rd_constructor :: string
  rd_fields :: "field_decl list"
  rd_span :: span

record constructor_decl =
  cd_name :: string
  cd_payload :: "nat option"
  cd_span :: span

record sum_decl =
  sd_type_name :: string
  sd_constructors :: "constructor_decl list"
  sd_span :: span

datatype top_declaration = DValue value_decl | DRecord record_decl | DSum sum_decl

fun declaration_span :: "top_declaration \<Rightarrow> span" where
  "declaration_span (DValue d) = vd_span d"
| "declaration_span (DRecord d) = rd_span d"
| "declaration_span (DSum d) = sd_span d"

record parsed_file =
  pf_declarations :: "top_declaration list"
  pf_expressions :: "expr list"
  pf_types :: "type_expr list"
  pf_span :: span

fun pattern_span :: "binding_pattern \<Rightarrow> span" where
  "pattern_span (PVariable _ sp) = sp"
| "pattern_span (PWildcard sp) = sp"
| "pattern_span (PTuple _ sp) = sp"
| "pattern_span (PAnnotated _ _ sp) = sp"

section \<open>The parser's state\<close>

record parser =
  p_tokens :: "token list"
  p_at :: nat
  p_expressions :: "expr list"
  p_types :: "type_expr list"
  p_errors :: "syntax_error list"

type_synonym 'a parsing = "parser \<Rightarrow> (parser \<times> ('a, syntax_error) res) option"

definition preturn :: "'a \<Rightarrow> 'a parsing" where
  "preturn x p = Some (p, Ok x)"

definition pfail :: "syntax_error \<Rightarrow> 'a parsing" where
  "pfail e p = Some (p, Err e)"

definition ppanic :: "'a parsing" where
  "ppanic p = Some (p, Panic)"

text \<open>Sequencing; the \<open>?\<close> operator.\<close>

definition pbind :: "'a parsing \<Rightarrow> ('a \<Rightarrow> 'b parsing) \<Rightarrow> 'b parsing" where
  "pbind m f p = (case m p of
     None \<Rightarrow> None
   | Some (p', Ok x) \<Rightarrow> f x p'
   | Some (p', Err e) \<Rightarrow> Some (p', Err e)
   | Some (p', Panic) \<Rightarrow> Some (p', Panic))"

text \<open>A loop whose body goes on with a new loop state or leaves with a value.\<close>

definition ploop_step :: "('s \<Rightarrow> ('s + 'a) parsing) \<Rightarrow> 's \<times> parser \<Rightarrow>
    ('s \<times> parser + parser \<times> ('a, syntax_error) res) option" where
  "ploop_step body sp = (case sp of (s, p) \<Rightarrow>
     case body s p of
       None \<Rightarrow> None
     | Some (p', Ok (Inl s')) \<Rightarrow> Some (Inl (s', p'))
     | Some (p', Ok (Inr x)) \<Rightarrow> Some (Inr (p', Ok x))
     | Some (p', Err e) \<Rightarrow> Some (Inr (p', Err e))
     | Some (p', Panic) \<Rightarrow> Some (Inr (p', Panic)))"

definition ploop :: "('s \<Rightarrow> ('s + 'a) parsing) \<Rightarrow> 's \<Rightarrow> 'a parsing" where
  "ploop body s p = run_calls (ploop_step body) (s, p)"

definition alloc_expr :: "expr \<Rightarrow> nat parsing" where
  "alloc_expr e p =
    (case u32_try_from (length (p_expressions p)) of
       None \<Rightarrow> Some (p, Panic)
     | Some i \<Rightarrow> Some (p\<lparr>p_expressions := p_expressions p @ [e]\<rparr>, Ok i))"

definition alloc_type :: "type_expr \<Rightarrow> nat parsing" where
  "alloc_type t p =
    (case u32_try_from (length (p_types p)) of
       None \<Rightarrow> Some (p, Panic)
     | Some i \<Rightarrow> Some (p\<lparr>p_types := p_types p @ [t]\<rparr>, Ok i))"

definition p_current :: "token parsing" where
  "p_current p = Some (p, case vget (p_tokens p) (p_at p) of None \<Rightarrow> Panic | Some t \<Rightarrow> Ok t)"

definition current_kind :: "token_kind parsing" where
  "current_kind = pbind p_current (\<lambda>t. preturn (tk_kind t))"

definition bump :: "token parsing" where
  "bump p =
    (case vget (p_tokens p) (p_at p) of
       None \<Rightarrow> Some (p, Panic)
     | Some t \<Rightarrow> Some (p\<lparr>p_at := p_at p + 1\<rparr>, Ok t))"

definition eat :: "(token_kind \<Rightarrow> bool) \<Rightarrow> token option parsing" where
  "eat predicate = pbind p_current (\<lambda>t.
     if predicate (tk_kind t) then pbind bump (\<lambda>t. preturn (Some t)) else preturn None)"

definition expected :: "string \<Rightarrow> syntax_error parsing" where
  "expected what = pbind p_current (\<lambda>t.
     preturn \<lparr>err_code = ''H0200'', err_message = Expected what (tk_kind t), err_span = tk_span t\<rparr>)"

text \<open>\<open>return Err(self.expected(..))\<close>\<close>

definition fail_expected :: "string \<Rightarrow> 'a parsing" where
  "fail_expected what = pbind (expected what) pfail"

text \<open>\<open>if self.eat(..).is_none() { return Err(self.expected(..)) }\<close>\<close>

definition require :: "(token_kind \<Rightarrow> bool) \<Rightarrow> string \<Rightarrow> unit parsing" where
  "require predicate what = pbind (eat predicate) (\<lambda>t.
     case t of Some _ \<Rightarrow> preturn () | None \<Rightarrow> fail_expected what)"

definition span_of_expr :: "nat \<Rightarrow> span parsing" where
  "span_of_expr i p = Some (p, case vget (p_expressions p) i of None \<Rightarrow> Panic | Some e \<Rightarrow> Ok (expr_span e))"

definition span_of_type :: "nat \<Rightarrow> span parsing" where
  "span_of_type i p = Some (p, case vget (p_types p) i of None \<Rightarrow> Panic | Some t \<Rightarrow> Ok (type_expr_span t))"

definition discard_deferred_layout_close :: "unit parsing" where
  "discard_deferred_layout_close p =
    (if p_at p + 1 \<le> length (p_tokens p) then
       (let rest = drop (p_at p + 1) (p_tokens p);
            keep = takeWhile (\<lambda>t. tk_kind t \<noteq> TkVirtualRBrace) rest in
        Some (p\<lparr>p_tokens := take (p_at p + 1) (p_tokens p) @ keep @ drop (length keep + 1) rest\<rparr>, Ok ()))
     else Some (p, Panic))"

definition starts_expression_atom :: "token_kind \<Rightarrow> bool" where
  "starts_expression_atom kind =
    (case kind of
       TkLower _ \<Rightarrow> True | TkUpper _ \<Rightarrow> True | TkQualified _ \<Rightarrow> True | TkInteger _ \<Rightarrow> True
     | TkFraction _ \<Rightarrow> True | TkCharacter _ \<Rightarrow> True | TkText _ \<Rightarrow> True | TkLParen \<Rightarrow> True
     | TkLBracket \<Rightarrow> True | TkBackslash \<Rightarrow> True | TkKwIf \<Rightarrow> True | TkKwCase \<Rightarrow> True | TkKwDo \<Rightarrow> True
     | _ \<Rightarrow> False)"

definition starts_type_atom :: "token_kind \<Rightarrow> bool" where
  "starts_type_atom kind =
    (case kind of
       TkUpper _ \<Rightarrow> True | TkQualified _ \<Rightarrow> True | TkText _ \<Rightarrow> True | TkLParen \<Rightarrow> True
     | TkLBracket \<Rightarrow> True | _ \<Rightarrow> False)"

definition fixity :: "string \<Rightarrow> (nat \<times> bool) option" where
  "fixity operator =
    (if operator = ''$'' then Some (0, True)
     else if operator \<in> {''<$>'', ''<*>'', ''<**>''} then Some (4, False)
     else if operator = ''<>'' then Some (6, True)
     else if operator = ''.'' then Some (9, True)
     else None)"

section \<open>Resource limits\<close>

record parser_limits =
  profile_id :: string
  max_tokens :: "nat option"
  max_nesting_depth :: "nat option"

definition limits_sandboxed :: parser_limits where
  "limits_sandboxed = \<lparr>profile_id = ''sandboxed'', max_tokens = Some 1000000, max_nesting_depth = Some 64\<rparr>"

definition limits_upstream :: parser_limits where
  "limits_upstream = \<lparr>profile_id = ''upstream'', max_tokens = None, max_nesting_depth = None\<rparr>"

definition opens_delimiter :: "token_kind \<Rightarrow> bool" where
  "opens_delimiter k \<longleftrightarrow> k \<in> {TkLParen, TkLBracket, TkLBrace}"

definition closes_delimiter :: "token_kind \<Rightarrow> bool" where
  "closes_delimiter k \<longleftrightarrow> k \<in> {TkRParen, TkRBracket, TkRBrace}"

definition nesting_error :: "nat \<Rightarrow> string \<Rightarrow> nat \<Rightarrow> span \<Rightarrow> syntax_error" where
  "nesting_error limit profile depth sp =
    resource_limit_error (''parser nesting limit exceeded: operation=parse_nesting profile='' @ profile @
      '' configured='' @ show_nat limit @ '' observed='' @ show_nat (min (depth + 1) u64_max)) sp"

fun nesting_from ::
  "nat \<Rightarrow> token list \<Rightarrow> nat option \<Rightarrow> string \<Rightarrow> (unit, syntax_error list) res" where
  "nesting_from depth [] limit profile = Ok ()"
| "nesting_from depth (t # ts) limit profile =
    (if opens_delimiter (tk_kind t) then
       (case limit of
          Some configured \<Rightarrow>
            if configured \<le> depth then Err [nesting_error configured profile depth (tk_span t)]
            else nesting_from (depth + 1) ts limit profile
        | None \<Rightarrow> nesting_from (depth + 1) ts limit profile)
     else if closes_delimiter (tk_kind t) then nesting_from (depth - 1) ts limit profile
     else nesting_from depth ts limit profile)"

definition reject_excessive_delimiter_nesting ::
  "token list \<Rightarrow> nat option \<Rightarrow> string \<Rightarrow> (unit, syntax_error list) res" where
  "reject_excessive_delimiter_nesting tokens limit profile = nesting_from 0 tokens limit profile"

end
