(* ===== verification/Hell_Type_Parser.thy ===== *)
theory Hell_Type_Parser
  imports Hell_Ast
begin

text \<open>
  The type parser of crate \<open>hell-syntax\<close>: a work-list loop in place of recursive
  descent.  \<open>Hell_Type_Total\<close> proves that it returns and, on a token list that ends with
  \<open>Eof\<close>, never panics.
\<close>

section \<open>The loop\<close>

datatype type_parse_entry = EntryType | EntryAtom

datatype type_work =
    TwType | TwApplication | TwAtom | TwAfterApplication | TwContinue
  | TwCombine nat | TwFunction nat | TwList span | TwParenthesized span | TwTuple span "nat list"

type_synonym type_state = "type_work list \<times> nat option"

definition type_go :: "type_work list \<Rightarrow> nat option \<Rightarrow> (type_state + nat) parsing" where
  "type_go work out = preturn (Inl (work, out))"

definition type_produce :: "type_expr \<Rightarrow> type_work list \<Rightarrow> (type_state + nat) parsing" where
  "type_produce t work = pbind (alloc_type t) (\<lambda>i. type_go work (Some i))"

text \<open>\<open>output.take().expect(..)\<close>\<close>

definition taken :: "nat option \<Rightarrow> (nat \<Rightarrow> 'a parsing) \<Rightarrow> 'a parsing" where
  "taken out f = (case out of None \<Rightarrow> ppanic | Some i \<Rightarrow> f i)"

definition joined_types :: "nat \<Rightarrow> nat \<Rightarrow> span parsing" where
  "joined_types left right = pbind (span_of_type left) (\<lambda>l. pbind (span_of_type right) (\<lambda>r.
     preturn (span_join l r)))"

definition type_atom :: "type_work list \<Rightarrow> nat option \<Rightarrow> (type_state + nat) parsing" where
  "type_atom work out = pbind bump (\<lambda>token.
     case tk_kind token of
       TkUpper name \<Rightarrow> type_produce (TyName name (tk_span token)) work
     | TkQualified name \<Rightarrow> type_produce (TyName name (tk_span token)) work
     | TkText v \<Rightarrow> type_produce (TyPromoted v (tk_span token)) work
     | TkLBracket \<Rightarrow> type_go (TwType # TwList (tk_span token) # work) out
     | TkLParen \<Rightarrow> pbind (eat (\<lambda>k. k = TkRParen)) (\<lambda>close.
         case close of
           Some e \<Rightarrow> type_produce (TyUnit (span_join (tk_span token) (tk_span e))) work
         | None \<Rightarrow> type_go (TwType # TwParenthesized (tk_span token) # work) out)
     | _ \<Rightarrow> pfail (parse_error ''expected concrete monotype'' (tk_span token)))"

definition type_after_application :: "type_work list \<Rightarrow> nat option \<Rightarrow> (type_state + nat) parsing" where
  "type_after_application work out = taken out (\<lambda>left.
     pbind (eat (\<lambda>k. k = TkArrow)) (\<lambda>arrow.
       case arrow of
         Some _ \<Rightarrow> type_go (TwType # TwFunction left # work) None
       | None \<Rightarrow> type_go work (Some left)))"

definition type_finish_function :: "nat \<Rightarrow> type_work list \<Rightarrow> nat option \<Rightarrow> (type_state + nat) parsing" where
  "type_finish_function left work out = taken out (\<lambda>right.
     pbind (joined_types left right) (\<lambda>sp.
     type_produce (TyFunction left right sp) work))"

definition type_continue :: "type_work list \<Rightarrow> nat option \<Rightarrow> (type_state + nat) parsing" where
  "type_continue work out = taken out (\<lambda>left.
     pbind current_kind (\<lambda>k.
       if starts_type_atom k then type_go (TwAtom # TwCombine left # work) None
       else type_go work (Some left)))"

definition type_combine :: "nat \<Rightarrow> type_work list \<Rightarrow> nat option \<Rightarrow> (type_state + nat) parsing" where
  "type_combine left work out = taken out (\<lambda>right.
     pbind (joined_types left right) (\<lambda>sp.
     type_produce (TyApply left right sp) (TwContinue # work)))"

definition type_finish_list :: "span \<Rightarrow> type_work list \<Rightarrow> nat option \<Rightarrow> (type_state + nat) parsing" where
  "type_finish_list start work out = taken out (\<lambda>item.
     pbind bump (\<lambda>e.
       if tk_kind e \<noteq> TkRBracket then pfail (parse_error ''expected `]` in type'' (tk_span e))
       else type_produce (TyList item (span_join start (tk_span e))) work))"

definition type_parenthesized :: "span \<Rightarrow> type_work list \<Rightarrow> nat option \<Rightarrow> (type_state + nat) parsing" where
  "type_parenthesized start work out = taken out (\<lambda>first.
     pbind (eat (\<lambda>k. k = TkComma)) (\<lambda>comma.
       case comma of
         Some _ \<Rightarrow> type_go (TwType # TwTuple start [first] # work) None
       | None \<Rightarrow> pbind bump (\<lambda>e.
           if tk_kind e \<noteq> TkRParen then pfail (parse_error ''expected `)` in type'' (tk_span e))
           else type_go work (Some first))))"

definition type_tuple_item ::
  "span \<Rightarrow> nat list \<Rightarrow> type_work list \<Rightarrow> nat option \<Rightarrow> (type_state + nat) parsing" where
  "type_tuple_item start items0 work out = taken out (\<lambda>item.
     (let items = items0 @ [item] in
      pbind (eat (\<lambda>k. k = TkComma)) (\<lambda>comma.
        case comma of
          Some _ \<Rightarrow> type_go (TwType # TwTuple start items # work) None
        | None \<Rightarrow> pbind bump (\<lambda>e.
            if tk_kind e \<noteq> TkRParen \<or> \<not> (2 \<le> length items \<and> length items \<le> 4)
            then pfail (parse_error ''tuple type arity must be two through four'' (span_join start (tk_span e)))
            else type_produce (TyTuple items (span_join start (tk_span e))) work))))"

fun type_round :: "type_state \<Rightarrow> (type_state + nat) parsing" where
  "type_round ([], out) = taken out (\<lambda>i. preturn (Inr i))"
| "type_round (TwType # work, out) = type_go (TwApplication # TwAfterApplication # work) out"
| "type_round (TwApplication # work, out) = type_go (TwAtom # TwContinue # work) out"
| "type_round (TwAtom # work, out) = type_atom work out"
| "type_round (TwAfterApplication # work, out) = type_after_application work out"
| "type_round (TwContinue # work, out) = type_continue work out"
| "type_round (TwCombine left # work, out) = type_combine left work out"
| "type_round (TwFunction left # work, out) = type_finish_function left work out"
| "type_round (TwList start # work, out) = type_finish_list start work out"
| "type_round (TwParenthesized start # work, out) = type_parenthesized start work out"
| "type_round (TwTuple start items # work, out) = type_tuple_item start items work out"

definition parse_type_iterative :: "type_parse_entry \<Rightarrow> nat parsing" where
  "parse_type_iterative entry =
    ploop type_round ([case entry of EntryType \<Rightarrow> TwType | EntryAtom \<Rightarrow> TwAtom], None)"

definition parse_type :: "nat parsing" where
  "parse_type = parse_type_iterative EntryType"

definition parse_type_atom :: "nat parsing" where
  "parse_type_atom = parse_type_iterative EntryAtom"

end
