(* ===== verification/Hell_Parser.thy ===== *)
theory Hell_Parser
  imports Hell_Type_Parser
begin

text \<open>
  The expression parser, the declarations and the entry points of crate
  \<open>hell-syntax\<close>.  \<open>parse_expression\<close> is one loop over a stack of continuations; each
  continuation of the source is a constructor of \<open>work\<close> and each arm of its match is a
  definition here.
\<close>

section \<open>Patterns\<close>

definition parse_case_pattern :: "case_pattern parsing" where
  "parse_case_pattern = pbind bump (\<lambda>token.
     case tk_kind token of
       TkUnderscore \<Rightarrow> preturn (CWildcard (tk_span token))
     | TkUpper name \<Rightarrow> pbind current_kind (\<lambda>k.
         case k of
           TkLower binder \<Rightarrow> pbind bump (\<lambda>b.
             preturn (UserConstructor name (Some binder) (span_join (tk_span token) (tk_span b))))
         | _ \<Rightarrow> preturn (UserConstructor name None (tk_span token)))
     | TkQualified name \<Rightarrow> ploop (\<lambda>(binders, e). pbind current_kind (\<lambda>k.
         case k of
           TkLower binder \<Rightarrow> pbind bump (\<lambda>b. preturn (Inl (binders @ [binder], tk_span b)))
         | _ \<Rightarrow> preturn (Inr (PrimitiveConstructor name binders (span_join (tk_span token) e)))))
         ([], tk_span token)
     | _ \<Rightarrow> pfail (parse_error ''unsupported case pattern'' (tk_span token)))"

text \<open>The names of a tuple pattern after its first comma.\<close>

definition tuple_binders :: "span \<Rightarrow> string \<Rightarrow> binding_pattern parsing" where
  "tuple_binders start first_name = ploop (\<lambda>names0. pbind bump (\<lambda>name_token.
     case tk_kind name_token of
       TkLower name \<Rightarrow>
         if name \<in> set names0
         then pfail (parse_error (''duplicate tuple binder `'' @ name @ ''`'') (tk_span name_token))
         else
           (let names = names0 @ [name] in
            pbind (eat (\<lambda>k. k = TkComma)) (\<lambda>comma.
              case comma of
                Some _ \<Rightarrow> preturn (Inl names)
              | None \<Rightarrow> pbind bump (\<lambda>e.
                  if tk_kind e \<noteq> TkRParen then pfail (parse_error ''expected `)`'' (tk_span e))
                  else if \<not> (2 \<le> length names \<and> length names \<le> 4)
                  then pfail (parse_error ''tuple binder arity must be two through four'' (span_join start (tk_span e)))
                  else preturn (Inr (PTuple names (span_join start (tk_span e)))))))
     | _ \<Rightarrow> pfail (parse_error ''tuple binders contain variables only'' (tk_span name_token))))
     [first_name]"

text \<open>A parenthesised pattern; the flag says that it is already complete (\<open>return\<close>).\<close>

definition parenthesized_pattern :: "span \<Rightarrow> (binding_pattern \<times> bool) parsing" where
  "parenthesized_pattern start = pbind bump (\<lambda>name_token.
     case tk_kind name_token of
       TkLower first_name \<Rightarrow> pbind (eat (\<lambda>k. k = TkRParen)) (\<lambda>close.
         case close of
           Some e \<Rightarrow> preturn (PVariable first_name (span_join start (tk_span e)), False)
         | None \<Rightarrow> pbind (eat (\<lambda>k. k = TkDoubleColon)) (\<lambda>colon.
             case colon of
               Some _ \<Rightarrow> pbind parse_type (\<lambda>ty. pbind bump (\<lambda>e.
                 if tk_kind e \<noteq> TkRParen then pfail (parse_error ''expected `)`'' (tk_span e))
                 else preturn (PAnnotated (PVariable first_name (tk_span name_token)) ty
                        (span_join start (tk_span e)), True)))
             | None \<Rightarrow> pbind (require (\<lambda>k. k = TkComma) ''`,` or `)` in binding pattern'') (\<lambda>_.
                 pbind (tuple_binders start first_name) (\<lambda>pattern. preturn (pattern, False)))))
     | _ \<Rightarrow> pfail (parse_error ''parenthesized and tuple binders contain variables only'' (tk_span name_token)))"

text \<open>The type annotation that may follow a pattern.\<close>

definition annotated_pattern :: "binding_pattern \<times> bool \<Rightarrow> binding_pattern parsing" where
  "annotated_pattern = (\<lambda>(pattern, complete).
     if complete then preturn pattern
     else pbind (eat (\<lambda>k. k = TkDoubleColon)) (\<lambda>colon.
       case colon of
         Some _ \<Rightarrow> pbind parse_type (\<lambda>ty. pbind (span_of_type ty) (\<lambda>sp.
           preturn (PAnnotated pattern ty (span_join (pattern_span pattern) sp))))
       | None \<Rightarrow> preturn pattern))"

definition parse_pattern :: "binding_pattern parsing" where
  "parse_pattern = pbind bump (\<lambda>token. let sp = tk_span token in
     case tk_kind token of
       TkLower name \<Rightarrow> annotated_pattern (PVariable name sp, False)
     | TkUnderscore \<Rightarrow> annotated_pattern (PWildcard sp, False)
     | TkLParen \<Rightarrow> pbind (parenthesized_pattern sp) annotated_pattern
     | _ \<Rightarrow> pfail (parse_error ''unsupported binding pattern'' sp))"

section \<open>The continuations\<close>

datatype work =
    ParseExpression nat
  | ParsePrefix
  | AfterPrefix nat
  | ResumeExpression nat nat
  | FinishApplication nat nat
  | FinishOperator nat string span nat
  | FinishLambda span "binding_pattern list"
  | AfterIfCondition span
  | AfterIfThen span nat
  | FinishIf span nat nat
  | AfterCaseScrutinee span
  | CaseNext span nat "case_alternative list"
  | FinishCaseAlternative span nat "case_alternative list" case_pattern
  | DoNext span "do_statement list"
  | FinishDoLet span "do_statement list" binding_pattern span
  | FinishDoBind span "do_statement list" binding_pattern
  | FinishDoThen span "do_statement list"
  | ListAfterElement span "nat list"
  | RecordNext string span "record_field_expr list"
  | FinishRecordField string span "record_field_expr list" string span bool
  | FinishParenthesized span "span list"
  | ContinueParenthesizedTuple span "span list" "nat list"

text \<open>The loop's state: the stack and \<open>output\<close>.\<close>

type_synonym expr_state = "work list \<times> nat option"
type_synonym arm = "work list \<Rightarrow> nat option \<Rightarrow> (expr_state + nat) parsing"

definition go :: "work list \<Rightarrow> nat option \<Rightarrow> (expr_state + nat) parsing" where
  "go work out = preturn (Inl (work, out))"

definition produce :: "expr \<Rightarrow> work list \<Rightarrow> (expr_state + nat) parsing" where
  "produce e work = pbind (alloc_expr e) (\<lambda>i. go work (Some i))"

section \<open>Prefixes\<close>

definition prefix_lambda :: "span \<Rightarrow> arm" where
  "prefix_lambda start work out =
    pbind (ploop (\<lambda>parameters. pbind current_kind (\<lambda>k.
        if k \<in> {TkArrow, TkEof} then preturn (Inr parameters)
        else pbind parse_pattern (\<lambda>pattern. preturn (Inl (parameters @ [pattern]))))) [])
      (\<lambda>parameters.
        if parameters = [] then pfail (parse_error ''lambda must bind a parameter'' start)
        else pbind (require (\<lambda>k. k = TkArrow) ''`->`'') (\<lambda>_.
          go (ParseExpression 0 # FinishLambda start parameters # work) out))"

definition prefix_do :: "span \<Rightarrow> arm" where
  "prefix_do start work out =
    pbind (require (\<lambda>k. k \<in> {TkVirtualLBrace, TkLBrace}) ''do statement block'') (\<lambda>_.
      go (DoNext start [] # work) out)"

definition prefix_list :: "span \<Rightarrow> arm" where
  "prefix_list start work out =
    pbind (eat (\<lambda>k. k = TkRBracket)) (\<lambda>close.
      case close of
        Some e \<Rightarrow> produce (EList [] (span_join start (tk_span e))) work
      | None \<Rightarrow> go (ParseExpression 0 # ListAfterElement start [] # work) out)"

text \<open>Adjacent opening parentheses; the innermost is the last of \<open>starts\<close>.\<close>

definition prefix_parenthesis :: "span \<Rightarrow> arm" where
  "prefix_parenthesis first work out =
    pbind (ploop (\<lambda>starts. pbind current_kind (\<lambda>k.
        if k = TkLParen then pbind bump (\<lambda>t. preturn (Inl (starts @ [tk_span t])))
        else preturn (Inr starts))) [first])
      (\<lambda>all. let start = last all; starts = butlast all in
        pbind (eat (\<lambda>k. k = TkRParen)) (\<lambda>close.
          case close of
            Some e \<Rightarrow> pbind (alloc_expr (ELiteral LUnit (span_join start (tk_span e)))) (\<lambda>expression.
              if starts = [] then go work (Some expression)
              else go (ResumeExpression expression 0 #
                       FinishParenthesized (last starts) (butlast starts) # work) out)
          | None \<Rightarrow> go (ParseExpression 0 # FinishParenthesized start starts # work) out))"

definition prefix_qualified :: "string \<Rightarrow> span \<Rightarrow> arm" where
  "prefix_qualified name sp work out =
    pbind current_kind (\<lambda>k.
      if k = TkLBrace then pbind bump (\<lambda>_. go (RecordNext name sp [] # work) out)
      else produce (EName name sp) work)"

definition parse_prefix :: arm where
  "parse_prefix work out = pbind bump (\<lambda>token. let sp = tk_span token in
     case tk_kind token of
       TkBackslash \<Rightarrow> prefix_lambda sp work out
     | TkKwIf \<Rightarrow> go (ParseExpression 0 # AfterIfCondition sp # work) out
     | TkKwCase \<Rightarrow> go (ParseExpression 0 # AfterCaseScrutinee sp # work) out
     | TkKwDo \<Rightarrow> prefix_do sp work out
     | TkQualified name \<Rightarrow> prefix_qualified name sp work out
     | TkLower name \<Rightarrow> produce (EName name sp) work
     | TkUpper name \<Rightarrow> produce (EName name sp) work
     | TkOperator name \<Rightarrow> produce (EName name sp) work
     | TkInteger v \<Rightarrow> produce (ELiteral (LInteger v) sp) work
     | TkFraction v \<Rightarrow> produce (ELiteral (LDouble v) sp) work
     | TkCharacter v \<Rightarrow> produce (ELiteral (LCharacter v) sp) work
     | TkText v \<Rightarrow> produce (ELiteral (LText v) sp) work
     | TkLBracket \<Rightarrow> prefix_list sp work out
     | TkLParen \<Rightarrow> prefix_parenthesis sp work out
     | _ \<Rightarrow> pfail (parse_error ''expected expression'' sp))"

section \<open>Operators and applications\<close>

definition joined_exprs :: "nat \<Rightarrow> nat \<Rightarrow> span parsing" where
  "joined_exprs a b = pbind (span_of_expr a) (\<lambda>x. pbind (span_of_expr b) (\<lambda>y. preturn (span_join x y)))"

text \<open>The argument of a type application: a text literal is a promoted symbol.\<close>

definition type_argument :: "nat parsing" where
  "type_argument = pbind current_kind (\<lambda>k.
     case k of
       TkText v \<Rightarrow> pbind bump (\<lambda>token. alloc_type (TyPromoted v (tk_span token)))
     | _ \<Rightarrow> parse_type_atom)"

definition resume_name :: "nat \<Rightarrow> nat \<Rightarrow> arm" where
  "resume_name left minimum work out =
    (let annotated = pbind (eat (\<lambda>k. k = TkDoubleColon)) (\<lambda>colon.
       case colon of
         Some _ \<Rightarrow> pbind parse_type (\<lambda>ty. pbind (span_of_expr left) (\<lambda>a. pbind (span_of_type ty) (\<lambda>b.
           produce (EAnnotation left ty (span_join a b)) work)))
       | None \<Rightarrow> go work (Some left)) in
     if minimum = 0 then annotated else go work (Some left))"

definition resume_operator :: "nat \<Rightarrow> string \<Rightarrow> nat \<Rightarrow> arm" where
  "resume_operator left operator minimum work out =
    (case fixity operator of
       None \<Rightarrow> pbind p_current (\<lambda>t.
         pfail (parse_error (''unsupported operator `'' @ operator @ ''`'') (tk_span t)))
     | Some (precedence, right_associative) \<Rightarrow>
         if precedence < minimum then go work (Some left)
         else pbind bump (\<lambda>t.
           go (ParseExpression (if right_associative then precedence else precedence + 1) #
               FinishOperator left operator (tk_span t) minimum # work) out))"

text \<open>One round of the loop of \<open>ResumeExpression\<close>; a type application goes round again.\<close>

definition resume_expression :: "nat \<Rightarrow> nat \<Rightarrow> arm" where
  "resume_expression left minimum work out =
    pbind (eat (\<lambda>k. k = TkAt)) (\<lambda>sign.
      case sign of
        Some _ \<Rightarrow> pbind type_argument (\<lambda>ty. pbind (span_of_expr left) (\<lambda>a. pbind (span_of_type ty) (\<lambda>b.
          pbind (alloc_expr (ETypeApply left ty (span_join a b))) (\<lambda>i.
            go (ResumeExpression i minimum # work) out))))
      | None \<Rightarrow> pbind current_kind (\<lambda>k.
          if starts_expression_atom k
          then go (ParsePrefix # FinishApplication left minimum # work) out
          else (case k of
                  TkOperator operator \<Rightarrow> resume_operator left operator minimum work out
                | _ \<Rightarrow> resume_name left minimum work out)))"

definition etaken :: "nat option \<Rightarrow> (nat \<Rightarrow> 'a parsing) \<Rightarrow> 'a parsing" where
  "etaken out f = (case out of None \<Rightarrow> ppanic | Some i \<Rightarrow> f i)"

definition after_prefix :: "nat \<Rightarrow> arm" where
  "after_prefix minimum work out = etaken out (\<lambda>left. go (ResumeExpression left minimum # work) None)"

definition finish_application :: "nat \<Rightarrow> nat \<Rightarrow> arm" where
  "finish_application function minimum work out = etaken out (\<lambda>argument.
     pbind (joined_exprs function argument) (\<lambda>sp.
     pbind (alloc_expr (EApply function argument sp)) (\<lambda>i.
       go (ResumeExpression i minimum # work) None)))"

definition finish_operator :: "nat \<Rightarrow> string \<Rightarrow> span \<Rightarrow> nat \<Rightarrow> arm" where
  "finish_operator left operator operator_span minimum work out = etaken out (\<lambda>right.
     pbind (alloc_expr (EName operator operator_span)) (\<lambda>op.
     pbind (joined_exprs left op) (\<lambda>op_left_span.
     pbind (alloc_expr (EApply op left op_left_span)) (\<lambda>applied_left.
     pbind (joined_exprs left right) (\<lambda>sp.
     pbind (alloc_expr (EApply applied_left right sp)) (\<lambda>i.
       go (ResumeExpression i minimum # work) None))))))"

section \<open>Lambda, if and case\<close>

definition finish_lambda :: "span \<Rightarrow> binding_pattern list \<Rightarrow> arm" where
  "finish_lambda start parameters work out = etaken out (\<lambda>body.
     pbind (span_of_expr body) (\<lambda>sp. produce (ELambda parameters body (span_join start sp)) work))"

definition after_if_condition :: "span \<Rightarrow> arm" where
  "after_if_condition start work out = etaken out (\<lambda>condition.
     pbind (require (\<lambda>k. k = TkKwThen) ''`then`'') (\<lambda>_.
       go (ParseExpression 0 # AfterIfThen start condition # work) None))"

definition after_if_then :: "span \<Rightarrow> nat \<Rightarrow> arm" where
  "after_if_then start condition work out = etaken out (\<lambda>then_branch.
     pbind (require (\<lambda>k. k = TkKwElse) ''`else`'') (\<lambda>_.
       go (ParseExpression 0 # FinishIf start condition then_branch # work) None))"

definition finish_if :: "span \<Rightarrow> nat \<Rightarrow> nat \<Rightarrow> arm" where
  "finish_if start condition then_branch work out = etaken out (\<lambda>else_branch.
     pbind (span_of_expr else_branch) (\<lambda>sp.
       produce (EIf condition then_branch else_branch (span_join start sp)) work))"

definition after_case_scrutinee :: "span \<Rightarrow> arm" where
  "after_case_scrutinee start work out = etaken out (\<lambda>scrutinee.
     pbind (require (\<lambda>k. k = TkKwOf) ''`of`'') (\<lambda>_.
     pbind (require (\<lambda>k. k \<in> {TkVirtualLBrace, TkLBrace}) ''case alternative block'') (\<lambda>_.
       go (CaseNext start scrutinee [] # work) None)))"

text \<open>The separators between the items of a block, and its end.\<close>

definition skip_semicolons :: "unit parsing" where
  "skip_semicolons = ploop (\<lambda>_. pbind (eat (\<lambda>k. k \<in> {TkVirtualSemicolon, TkSemicolon})) (\<lambda>t.
     case t of Some _ \<Rightarrow> preturn (Inl ()) | None \<Rightarrow> preturn (Inr ()))) ()"

definition closes_block :: "token_kind \<Rightarrow> bool" where
  "closes_block k \<longleftrightarrow> k \<in> {TkVirtualRBrace, TkRBrace, TkRParen}"

definition block_end :: "span parsing" where
  "block_end = pbind p_current (\<lambda>t.
     if tk_kind t = TkRParen then pbind discard_deferred_layout_close (\<lambda>_. preturn (tk_span t))
     else pbind bump (\<lambda>t. preturn (tk_span t)))"

definition case_next :: "span \<Rightarrow> nat \<Rightarrow> case_alternative list \<Rightarrow> arm" where
  "case_next start scrutinee alternatives work out =
    pbind skip_semicolons (\<lambda>_. pbind current_kind (\<lambda>k.
      if closes_block k then
        pbind block_end (\<lambda>e.
          if alternatives = [] then pfail (parse_error ''empty case block'' (span_join start e))
          else produce (ECase scrutinee alternatives (span_join start e)) work)
      else if k = TkEof then fail_expected ''end of case block''
      else pbind parse_case_pattern (\<lambda>pattern.
        pbind (require (\<lambda>k. k = TkArrow) ''`->` in case alternative'') (\<lambda>_.
          go (ParseExpression 0 # FinishCaseAlternative start scrutinee alternatives pattern # work) out))))"

definition finish_case_alternative ::
  "span \<Rightarrow> nat \<Rightarrow> case_alternative list \<Rightarrow> case_pattern \<Rightarrow> arm" where
  "finish_case_alternative start scrutinee alternatives pattern work out = etaken out (\<lambda>expression.
     pbind (span_of_expr expression) (\<lambda>sp.
       go (CaseNext start scrutinee (alternatives @
             [\<lparr>alt_pattern = pattern, alt_expression = expression,
               alt_span = span_join (case_pattern_span pattern) sp\<rparr>]) # work) None))"

section \<open>Do blocks\<close>

fun is_then :: "do_statement \<Rightarrow> bool" where
  "is_then (SThen _ _) = True"
| "is_then _ = False"

definition do_end :: "span \<Rightarrow> do_statement list \<Rightarrow> work list \<Rightarrow> (expr_state + nat) parsing" where
  "do_end start statements work = pbind block_end (\<lambda>e.
     if statements = [] then pfail (parse_error ''empty do block'' (span_join start e))
     else if \<not> is_then (last statements)
     then pfail (parse_error ''the final do statement must be an expression'' (span_join start e))
     else produce (EDo statements (span_join start e)) work)"

text \<open>
  A statement that begins with a pattern and a binding arrow binds; otherwise the parser
  goes back to where the statement started.  A pattern that fails is forgotten with its
  error, but the type expressions it allocated stay.
\<close>

definition attempt_bind :: "binding_pattern option parsing" where
  "attempt_bind p =
    (case parse_pattern p of
       None \<Rightarrow> None
     | Some (p1, Panic) \<Rightarrow> Some (p1, Panic)
     | Some (p1, Err _) \<Rightarrow> Some (p1\<lparr>p_at := p_at p\<rparr>, Ok None)
     | Some (p1, Ok pattern) \<Rightarrow>
         pbind (eat (\<lambda>k. k = TkBindArrow)) (\<lambda>arrow.
           case arrow of
             Some _ \<Rightarrow> preturn (Some pattern)
           | None \<Rightarrow> (\<lambda>p2. Some (p2\<lparr>p_at := p_at p\<rparr>, Ok None))) p1)"

definition do_statement_start :: "span \<Rightarrow> do_statement list \<Rightarrow> arm" where
  "do_statement_start start statements work out =
    pbind (eat (\<lambda>k. k = TkKwLet)) (\<lambda>let_token.
      case let_token of
        Some t \<Rightarrow> pbind parse_pattern (\<lambda>pattern.
          pbind (require (\<lambda>k. k = TkEquals) ''`=` in do let'') (\<lambda>_.
            go (ParseExpression 0 # FinishDoLet start statements pattern (tk_span t) # work) out))
      | None \<Rightarrow> pbind attempt_bind (\<lambda>bound.
          case bound of
            Some pattern \<Rightarrow> go (ParseExpression 0 # FinishDoBind start statements pattern # work) out
          | None \<Rightarrow> go (ParseExpression 0 # FinishDoThen start statements # work) out))"

definition do_next :: "span \<Rightarrow> do_statement list \<Rightarrow> arm" where
  "do_next start statements work out =
    pbind skip_semicolons (\<lambda>_. pbind current_kind (\<lambda>k.
      if closes_block k then do_end start statements work
      else if k = TkEof then fail_expected ''end of do block''
      else do_statement_start start statements work out))"

definition finish_do_let :: "span \<Rightarrow> do_statement list \<Rightarrow> binding_pattern \<Rightarrow> span \<Rightarrow> arm" where
  "finish_do_let start statements pattern statement_start work out = etaken out (\<lambda>expression.
     pbind (span_of_expr expression) (\<lambda>sp.
       go (DoNext start (statements @ [SLet pattern expression (span_join statement_start sp)]) # work) None))"

definition finish_do_bind :: "span \<Rightarrow> do_statement list \<Rightarrow> binding_pattern \<Rightarrow> arm" where
  "finish_do_bind start statements pattern work out = etaken out (\<lambda>expression.
     pbind (span_of_expr expression) (\<lambda>sp.
       go (DoNext start (statements @ [SBind pattern expression (span_join (pattern_span pattern) sp)]) # work) None))"

definition finish_do_then :: "span \<Rightarrow> do_statement list \<Rightarrow> arm" where
  "finish_do_then start statements work out = etaken out (\<lambda>expression.
     pbind (span_of_expr expression) (\<lambda>sp.
       go (DoNext start (statements @ [SThen expression sp]) # work) None))"

section \<open>Lists, records and parentheses\<close>

definition list_after_element :: "span \<Rightarrow> nat list \<Rightarrow> arm" where
  "list_after_element start elements0 work out = etaken out (\<lambda>element.
     let elements = elements0 @ [element] in
     pbind (eat (\<lambda>k. k = TkComma)) (\<lambda>comma.
       case comma of
         Some _ \<Rightarrow> go (ParseExpression 0 # ListAfterElement start elements # work) None
       | None \<Rightarrow> pbind bump (\<lambda>e.
           if tk_kind e \<noteq> TkRBracket then pfail (parse_error ''expected `]`'' (tk_span e))
           else produce (EList elements (span_join start (tk_span e))) work)))"

definition record_next :: "string \<Rightarrow> span \<Rightarrow> record_field_expr list \<Rightarrow> arm" where
  "record_next constructor start flds work out =
    pbind (eat (\<lambda>k. k = TkRBrace)) (\<lambda>close.
      case close of
        Some e \<Rightarrow> produce (ERecord constructor flds (span_join start (tk_span e))) work
      | None \<Rightarrow> pbind bump (\<lambda>field_token.
          case tk_kind field_token of
            TkLower name \<Rightarrow> pbind (eat (\<lambda>k. k = TkEquals)) (\<lambda>eq.
              let field = (\<lambda>pun. FinishRecordField constructor start flds name (tk_span field_token) pun) in
              case eq of
                None \<Rightarrow> produce (EName name (tk_span field_token)) (field True # work)
              | Some _ \<Rightarrow> go (ParseExpression 0 # field False # work) out)
          | _ \<Rightarrow> pfail (parse_error ''record initializer labels must be unqualified lowercase names''
                   (tk_span field_token))))"

definition finish_record_field ::
  "string \<Rightarrow> span \<Rightarrow> record_field_expr list \<Rightarrow> string \<Rightarrow> span \<Rightarrow> bool \<Rightarrow> arm" where
  "finish_record_field constructor start flds0 name field_span pun work out = etaken out (\<lambda>v.
     pbind (span_of_expr v) (\<lambda>sp.
       let flds = flds0 @
             [\<lparr>rf_name = name, rf_value = v, rf_pun = pun, rf_span = span_join field_span sp\<rparr>] in
       pbind (eat (\<lambda>k. k = TkComma)) (\<lambda>comma.
         case comma of
           Some _ \<Rightarrow> go (RecordNext constructor start flds # work) None
         | None \<Rightarrow> pbind bump (\<lambda>e.
             if tk_kind e \<noteq> TkRBrace then pfail (parse_error ''expected `}` in record construction'' (tk_span e))
             else produce (ERecord constructor flds (span_join start (tk_span e))) work))))"

text \<open>A finished parenthesis: the expression goes on inside the next outer one, if any.\<close>

definition leave_parenthesis :: "nat \<Rightarrow> span list \<Rightarrow> work list \<Rightarrow> (expr_state + nat) parsing" where
  "leave_parenthesis expression remaining work =
    (if remaining = [] then go work (Some expression)
     else go (ResumeExpression expression 0 #
              FinishParenthesized (last remaining) (butlast remaining) # work) None)"

definition finish_parenthesized :: "span \<Rightarrow> span list \<Rightarrow> arm" where
  "finish_parenthesized start remaining work out = etaken out (\<lambda>first.
     pbind (eat (\<lambda>k. k = TkComma)) (\<lambda>comma.
       case comma of
         Some _ \<Rightarrow> go (ParseExpression 0 # ContinueParenthesizedTuple start remaining [first] # work) None
       | None \<Rightarrow> pbind bump (\<lambda>e.
           if tk_kind e \<noteq> TkRParen then pfail (parse_error ''expected `)`'' (tk_span e))
           else leave_parenthesis first remaining work)))"

definition continue_parenthesized_tuple :: "span \<Rightarrow> span list \<Rightarrow> nat list \<Rightarrow> arm" where
  "continue_parenthesized_tuple start remaining elements0 work out = etaken out (\<lambda>element.
     let elements = elements0 @ [element] in
     pbind (eat (\<lambda>k. k = TkComma)) (\<lambda>comma.
       case comma of
         Some _ \<Rightarrow> go (ParseExpression 0 # ContinueParenthesizedTuple start remaining elements # work) None
       | None \<Rightarrow> pbind bump (\<lambda>e.
           if tk_kind e \<noteq> TkRParen \<or> \<not> (2 \<le> length elements \<and> length elements \<le> 4)
           then pfail (parse_error ''tuple arity must be two through four'' (span_join start (tk_span e)))
           else pbind (alloc_expr (ETuple elements (span_join start (tk_span e)))) (\<lambda>expression.
             leave_parenthesis expression remaining work))))"

section \<open>The loop\<close>

fun arm_of :: "work \<Rightarrow> arm" where
  "arm_of (ParseExpression minimum) = (\<lambda>work out. go (ParsePrefix # AfterPrefix minimum # work) out)"
| "arm_of ParsePrefix = parse_prefix"
| "arm_of (AfterPrefix minimum) = after_prefix minimum"
| "arm_of (ResumeExpression left minimum) = resume_expression left minimum"
| "arm_of (FinishApplication function minimum) = finish_application function minimum"
| "arm_of (FinishOperator left operator sp minimum) = finish_operator left operator sp minimum"
| "arm_of (FinishLambda start parameters) = finish_lambda start parameters"
| "arm_of (AfterIfCondition start) = after_if_condition start"
| "arm_of (AfterIfThen start condition) = after_if_then start condition"
| "arm_of (FinishIf start condition then_branch) = finish_if start condition then_branch"
| "arm_of (AfterCaseScrutinee start) = after_case_scrutinee start"
| "arm_of (CaseNext start scrutinee alternatives) = case_next start scrutinee alternatives"
| "arm_of (FinishCaseAlternative start scrutinee alternatives pattern) =
    finish_case_alternative start scrutinee alternatives pattern"
| "arm_of (DoNext start statements) = do_next start statements"
| "arm_of (FinishDoLet start statements pattern sp) = finish_do_let start statements pattern sp"
| "arm_of (FinishDoBind start statements pattern) = finish_do_bind start statements pattern"
| "arm_of (FinishDoThen start statements) = finish_do_then start statements"
| "arm_of (ListAfterElement start elements) = list_after_element start elements"
| "arm_of (RecordNext constructor start flds) = record_next constructor start flds"
| "arm_of (FinishRecordField constructor start flds name sp pun) =
    finish_record_field constructor start flds name sp pun"
| "arm_of (FinishParenthesized start remaining) = finish_parenthesized start remaining"
| "arm_of (ContinueParenthesizedTuple start remaining elements) =
    continue_parenthesized_tuple start remaining elements"

definition expr_round :: "expr_state \<Rightarrow> (expr_state + nat) parsing" where
  "expr_round s =
    (case s of
       ([], out) \<Rightarrow> etaken out (\<lambda>i. preturn (Inr i))
     | (item # work, out) \<Rightarrow> arm_of item work out)"

definition parse_expression :: "nat \<Rightarrow> nat parsing" where
  "parse_expression minimum = ploop expr_round ([ParseExpression minimum], None)"

end
