(* ===== verification/Hell_Declarations.thy ===== *)
theory Hell_Declarations
  imports Hell_Parser
begin

text \<open>
  Declarations and the entry points of crate \<open>hell-syntax\<close>: \<open>parse_with_limits\<close> lexes
  the file, checks the token budget and the nesting of its delimiters, and runs the
  parser, which goes on after an error at the next declaration.
\<close>

section \<open>Declarations\<close>

text \<open>The constructor's payload and the span up to its end.\<close>

definition sum_payload :: "span \<Rightarrow> (nat option \<times> span) parsing" where
  "sum_payload name_span = pbind current_kind (\<lambda>k.
     if starts_type_atom k then
       pbind parse_type_atom (\<lambda>payload. pbind (span_of_type payload) (\<lambda>sp.
         preturn (Some payload, span_join name_span sp)))
     else preturn (None, name_span))"

definition sum_constructors ::
  "span \<Rightarrow> string \<Rightarrow> constructor_decl list \<Rightarrow> (constructor_decl list + top_declaration) parsing" where
  "sum_constructors start type_name constructors0 = pbind bump (\<lambda>constructor_token.
     case tk_kind constructor_token of
       TkUpper name \<Rightarrow> pbind (sum_payload (tk_span constructor_token)) (\<lambda>(payload, sp).
         let constructors = constructors0 @ [\<lparr>cd_name = name, cd_payload = payload, cd_span = sp\<rparr>] in
         pbind (eat (\<lambda>k. k = TkPipe)) (\<lambda>pipe.
           case pipe of
             Some _ \<Rightarrow> preturn (Inl constructors)
           | None \<Rightarrow> preturn (Inr (DSum \<lparr>sd_type_name = type_name, sd_constructors = constructors,
                                       sd_span = span_join start sp\<rparr>))))
     | _ \<Rightarrow> pfail (parse_error ''sum constructors must be unqualified uppercase names''
              (tk_span constructor_token)))"

definition parse_sum_declaration :: "span \<Rightarrow> string \<Rightarrow> string \<Rightarrow> span \<Rightarrow> top_declaration parsing" where
  "parse_sum_declaration start type_name first_name first_token_span =
    pbind (sum_payload first_token_span) (\<lambda>(first_payload, first_span).
    pbind (eat (\<lambda>k. k = TkPipe)) (\<lambda>pipe.
      case pipe of
        None \<Rightarrow> pfail (parse_error ''one-constructor ordinary sums are unsupported; use record syntax'' first_span)
      | Some _ \<Rightarrow> ploop (sum_constructors start type_name)
          [\<lparr>cd_name = first_name, cd_payload = first_payload, cd_span = first_span\<rparr>]))"

text \<open>The names before a \<open>::\<close>; several fields may share one type.\<close>

definition field_names :: "(string \<times> span) list parsing" where
  "field_names = ploop (\<lambda>names0. pbind bump (\<lambda>field_token.
     case tk_kind field_token of
       TkLower field_name \<Rightarrow>
         (let names = names0 @ [(field_name, tk_span field_token)] in
          pbind current_kind (\<lambda>k.
            if k = TkDoubleColon then preturn (Inr names)
            else pbind (require (\<lambda>k. k = TkComma) ''`,` or `::` in record field declaration'')
                   (\<lambda>_. preturn (Inl names))))
     | _ \<Rightarrow> pfail (parse_error ''record field declarations require lowercase names'' (tk_span field_token))))
     []"

definition group_fields :: "(string \<times> span) list \<Rightarrow> nat \<Rightarrow> span \<Rightarrow> field_decl list" where
  "group_fields names ty type_span = map (\<lambda>(name, name_span).
     \<lparr>fd_name = name, fd_ty = ty, fd_span = span_join name_span type_span\<rparr>) names"

definition field_group :: "field_decl list \<Rightarrow> (field_decl list + field_decl list) parsing" where
  "field_group flds =
    pbind field_names (\<lambda>names. pbind bump (\<lambda>_. pbind parse_type (\<lambda>ty. pbind (span_of_type ty) (\<lambda>type_span.
      pbind (eat (\<lambda>k. k = TkComma)) (\<lambda>comma.
        case comma of
          Some _ \<Rightarrow> preturn (Inl (flds @ group_fields names ty type_span))
        | None \<Rightarrow> preturn (Inr (flds @ group_fields names ty type_span)))))))"

definition parse_record_declaration :: "span \<Rightarrow> string \<Rightarrow> string \<Rightarrow> top_declaration parsing" where
  "parse_record_declaration start type_name constructor = pbind p_current (\<lambda>t.
     if tk_kind t = TkRBrace then
       pfail (parse_error ''record declarations require at least one field'' (tk_span t))
     else pbind (ploop field_group []) (\<lambda>flds. pbind bump (\<lambda>e.
       if tk_kind e \<noteq> TkRBrace then pfail (parse_error ''expected `}` in record declaration'' (tk_span e))
       else preturn (DRecord \<lparr>rd_type_name = type_name, rd_constructor = constructor,
                              rd_fields = flds, rd_span = span_join start (tk_span e)\<rparr>))))"

text \<open>After the equals sign of a data declaration.\<close>

definition data_constructor :: "span \<Rightarrow> string \<Rightarrow> top_declaration parsing" where
  "data_constructor start type_name = pbind bump (\<lambda>first_token.
     case tk_kind first_token of
       TkUpper first_name \<Rightarrow> pbind (eat (\<lambda>k. k = TkLBrace)) (\<lambda>brace.
         case brace of
           Some _ \<Rightarrow> parse_record_declaration start type_name first_name
         | None \<Rightarrow> parse_sum_declaration start type_name first_name (tk_span first_token))
     | _ \<Rightarrow> pfail (parse_error ''data constructors must be unqualified uppercase names'' (tk_span first_token)))"

definition parse_data_declaration :: "top_declaration parsing" where
  "parse_data_declaration = pbind bump (\<lambda>start. pbind bump (\<lambda>type_token.
     case tk_kind type_token of
       TkUpper type_name \<Rightarrow> pbind (eat (\<lambda>k. k = TkEquals)) (\<lambda>eq.
         case eq of
           None \<Rightarrow> pbind p_current (\<lambda>t.
             pfail (parse_error ''type parameters and contexts on data declarations are unsupported'' (tk_span t)))
         | Some _ \<Rightarrow> data_constructor (tk_span start) type_name)
     | _ \<Rightarrow> pfail (parse_error ''data declarations require an unqualified type name'' (tk_span type_token))))"

text \<open>After the name and the annotation of a value declaration.\<close>

definition value_body :: "span \<Rightarrow> string \<Rightarrow> nat option \<Rightarrow> top_declaration parsing" where
  "value_body start name annotation =
    pbind (require (\<lambda>k. k = TkEquals) ''`=`; top-level function equations are unsupported'') (\<lambda>_.
    pbind (parse_expression 0) (\<lambda>v. pbind (span_of_expr v) (\<lambda>sp.
      preturn (DValue \<lparr>vd_name = name, vd_annotation = annotation, vd_value = v, vd_span = span_join start sp\<rparr>))))"

definition parse_value_declaration :: "top_declaration parsing" where
  "parse_value_declaration = pbind bump (\<lambda>token.
     case tk_kind token of
       TkLower name \<Rightarrow> pbind (eat (\<lambda>k. k = TkDoubleColon)) (\<lambda>colon.
         case colon of
           Some _ \<Rightarrow> pbind parse_type (\<lambda>ty. value_body (tk_span token) name (Some ty))
         | None \<Rightarrow> value_body (tk_span token) name None)
     | _ \<Rightarrow> pfail (parse_error ''top-level declarations must be `name [:: Type] = expression`'' (tk_span token)))"

definition parse_declaration :: "top_declaration parsing" where
  "parse_declaration = pbind current_kind (\<lambda>k.
     if k = TkKwData then parse_data_declaration else parse_value_declaration)"

section \<open>A file\<close>

definition report_error :: "syntax_error \<Rightarrow> unit parsing" where
  "report_error e p = Some (p\<lparr>p_errors := p_errors p @ [e]\<rparr>, Ok ())"

definition ends_declarations :: "token_kind \<Rightarrow> bool" where
  "ends_declarations k \<longleftrightarrow> k \<in> {TkVirtualRBrace, TkEof}"

text \<open>After an error the parser skips to the next boundary of declarations.\<close>

definition recover :: "unit parsing" where
  "recover = ploop (\<lambda>_. pbind current_kind (\<lambda>k.
     if k \<in> {TkVirtualSemicolon, TkSemicolon, TkVirtualRBrace, TkEof} then preturn (Inr ())
     else pbind bump (\<lambda>_. preturn (Inl ())))) ()"

definition declaration_or_recover :: "top_declaration option parsing" where
  "declaration_or_recover p =
    (case parse_declaration p of
       None \<Rightarrow> None
     | Some (p', Ok d) \<Rightarrow> Some (p', Ok (Some d))
     | Some (p', Err e) \<Rightarrow> pbind (report_error e) (\<lambda>_. pbind recover (\<lambda>_. preturn None)) p'
     | Some (p', Panic) \<Rightarrow> Some (p', Panic))"

definition declarations_round ::
  "top_declaration list \<Rightarrow> (top_declaration list + top_declaration list) parsing" where
  "declarations_round declarations = pbind current_kind (\<lambda>k.
     if ends_declarations k then preturn (Inr declarations)
     else pbind skip_semicolons (\<lambda>_. pbind current_kind (\<lambda>k.
       if ends_declarations k then preturn (Inr declarations)
       else pbind declaration_or_recover (\<lambda>d.
         case d of Some d \<Rightarrow> preturn (Inl (declarations @ [d])) | None \<Rightarrow> preturn (Inl declarations)))))"

definition parse_file :: "(span \<times> top_declaration list \<times> span) parsing" where
  "parse_file = pbind p_current (\<lambda>start.
     pbind (eat (\<lambda>k. k = TkVirtualLBrace)) (\<lambda>brace.
     pbind (case brace of
              Some _ \<Rightarrow> preturn ()
            | None \<Rightarrow> pbind (expected ''top-level declaration block'') report_error) (\<lambda>_.
     pbind (ploop declarations_round []) (\<lambda>declarations.
     pbind bump (\<lambda>e. preturn (tk_span start, declarations, tk_span e))))))"

definition parser_new :: "token list \<Rightarrow> parser" where
  "parser_new tokens =
    \<lparr>p_tokens = tokens, p_at = 0, p_expressions = [], p_types = [], p_errors = []\<rparr>"

definition parse_tokens :: "token list \<Rightarrow> (parsed_file, syntax_error list) res option" where
  "parse_tokens tokens = map_option (\<lambda>(p, r). case r of
       Ok (start, declarations, e) \<Rightarrow>
         if p_errors p = [] then
           Ok \<lparr>pf_declarations = declarations, pf_expressions = p_expressions p,
               pf_types = p_types p, pf_span = span_join start e\<rparr>
         else Err (p_errors p)
     | Err e \<Rightarrow> Err (p_errors p @ [e])
     | Panic \<Rightarrow> Panic)
     (parse_file (parser_new tokens))"

section \<open>The entry points\<close>

definition token_budget_error :: "parser_limits \<Rightarrow> nat \<Rightarrow> nat \<Rightarrow> span \<Rightarrow> syntax_error" where
  "token_budget_error limits configured observed sp =
    resource_error ''H0802''
      (''token budget exceeded: operation=parse_tokens profile='' @ profile_id limits @
       '' configured='' @ show_nat configured @ '' observed='' @ show_nat observed) sp"

text \<open>What the entry points do with the tokens of the file.\<close>

definition parse_nested :: "parser_limits \<Rightarrow> token list \<Rightarrow> (parsed_file, syntax_error list) res option" where
  "parse_nested limits tokens =
    (case reject_excessive_delimiter_nesting tokens (max_nesting_depth limits) (profile_id limits) of
       Ok _ \<Rightarrow> parse_tokens tokens
     | Err es \<Rightarrow> Some (Err es)
     | Panic \<Rightarrow> Some Panic)"

definition parse_lexed ::
  "source_file \<Rightarrow> parser_limits \<Rightarrow> token list \<Rightarrow> (parsed_file, syntax_error list) res option" where
  "parse_lexed f limits tokens =
    (case max_tokens limits of
       Some configured \<Rightarrow>
         if configured < length tokens
         then Some (Err [token_budget_error limits configured (length tokens) (eof_span f)])
         else parse_nested limits tokens
     | None \<Rightarrow> parse_nested limits tokens)"

definition parse_on_current_thread ::
  "(nat \<Rightarrow> bool) \<Rightarrow> source_file \<Rightarrow> parser_limits \<Rightarrow> (parsed_file, syntax_error list) res option" where
  "parse_on_current_thread upper f limits =
    (case lex upper f of
       None \<Rightarrow> None
     | Some (Ok tokens) \<Rightarrow> parse_lexed f limits tokens
     | Some (Err es) \<Rightarrow> Some (Err es)
     | Some Panic \<Rightarrow> Some Panic)"

definition parse_with_limits ::
  "(nat \<Rightarrow> bool) \<Rightarrow> source_file \<Rightarrow> parser_limits \<Rightarrow> (parsed_file, syntax_error list) res option" where
  "parse_with_limits upper f limits = parse_on_current_thread upper f limits"

definition parse :: "(nat \<Rightarrow> bool) \<Rightarrow> source_file \<Rightarrow> (parsed_file, syntax_error list) res option" where
  "parse upper f = parse_with_limits upper f limits_sandboxed"

end
