(* ===== verification/Hell_Wp.thy ===== *)
theory Hell_Wp
  imports Hell_Declarations
begin

text \<open>
  Total correctness of parsing functions.  \<open>wp m Q E p\<close>: run on \<open>p\<close>, the function
  returns, does not panic, and ends in \<open>Q\<close> with its value or in \<open>E\<close> with an error.
  Each primitive has an equation that computes its \<open>wp\<close> from the tokens that are left, so
  that a handler is executed symbolically by simplification; a loop has an invariant and a
  measure.
\<close>

definition wp :: "'a parsing \<Rightarrow> ('a \<Rightarrow> parser \<Rightarrow> bool) \<Rightarrow> (parser \<Rightarrow> bool) \<Rightarrow> parser \<Rightarrow> bool" where
  "wp m Q E p = (case m p of
     None \<Rightarrow> False
   | Some (p', Ok x) \<Rightarrow> Q x p'
   | Some (p', Err e) \<Rightarrow> E p'
   | Some (p', Panic) \<Rightarrow> False)"

named_theorems wp_eqs

section \<open>The monad\<close>

lemma wp_preturn [wp_eqs]: "wp (preturn x) Q E p = Q x p"
  by (simp add: wp_def preturn_def)

lemma wp_pfail [wp_eqs]: "wp (pfail e) Q E p = E p"
  by (simp add: wp_def pfail_def)

lemma wp_ppanic [wp_eqs]: "wp ppanic Q E p = False"
  by (simp add: wp_def ppanic_def)

lemma wp_pbind [wp_eqs]: "wp (pbind m f) Q E p = wp m (\<lambda>x. wp (f x) Q E) E p"
  by (auto simp: wp_def pbind_def split: option.split res.split)

lemma wp_if [wp_eqs]: "wp (if b then m else m') Q E p = (if b then wp m Q E p else wp m' Q E p)"
  by simp

lemma wp_option [wp_eqs]:
  "wp (case x of None \<Rightarrow> m | Some y \<Rightarrow> f y) Q E p = (case x of None \<Rightarrow> wp m Q E p | Some y \<Rightarrow> wp (f y) Q E p)"
  by (simp split: option.split)

lemma wp_prod [wp_eqs]: "wp (case x of (a, b) \<Rightarrow> f a b) Q E p = (case x of (a, b) \<Rightarrow> wp (f a b) Q E p)"
  by (simp split: prod.split)

lemma wp_mono:
  assumes "wp m Q E p" and "\<And>x p'. Q x p' \<Longrightarrow> Q' x p'" and "\<And>p'. E p' \<Longrightarrow> E' p'"
  shows "wp m Q' E' p"
  using assms by (auto simp: wp_def split: option.splits res.splits)

lemma wp_returns: "wp m Q E p \<Longrightarrow> \<exists>p' r. m p = Some (p', r) \<and> r \<noteq> Panic"
  by (auto simp: wp_def split: option.splits res.splits prod.splits)

lemma wp_ploop:
  fixes weight :: "'s \<Rightarrow> parser \<Rightarrow> nat"
  assumes init: "I s p"
    and body: "\<And>s p. I s p \<Longrightarrow>
      wp (body s) (\<lambda>r p'. case r of Inl s' \<Rightarrow> I s' p' \<and> weight s' p' < weight s p | Inr x \<Rightarrow> Q x p') E p"
  shows "wp (ploop body s) Q E p"
proof -
  let ?Q = "\<lambda>pr. case snd pr of Ok x \<Rightarrow> Q x (fst pr) | Err e \<Rightarrow> E (fst pr) | Panic \<Rightarrow> False"
  have "\<exists>r. run_calls (ploop_step body) (s, p) = Some r \<and> ?Q r"
  proof (rule run_calls_total [where I = "\<lambda>(s, p). I s p" and R = "measure (\<lambda>(s, p). weight s p)"])
    fix sp assume inv: "case sp of (s, p) \<Rightarrow> I s p"
    obtain s p where sp: "sp = (s, p)" by fastforce
    from body [of s p] inv sp obtain p' r where run: "body s p = Some (p', r)" "r \<noteq> Panic"
      and Inl: "\<And>s'. r = Ok (Inl s') \<Longrightarrow> I s' p' \<and> weight s' p' < weight s p"
      and Inr: "\<And>x. r = Ok (Inr x) \<Longrightarrow> Q x p'" and Err: "\<And>e. r = Err e \<Longrightarrow> E p'"
      by (fastforce simp: wp_def split: option.splits res.splits prod.splits)
    show "(\<exists>s'. ploop_step body sp = Some (Inl s') \<and> (case s' of (s, p) \<Rightarrow> I s p) \<and>
          (s', sp) \<in> measure (\<lambda>(s, p). weight s p)) \<or>
        (\<exists>r. ploop_step body sp = Some (Inr r) \<and> ?Q r)"
    proof (cases r)
      case (Ok x)
      then show ?thesis using Inl Inr by (cases x) (simp_all add: run sp ploop_step_def)
    next
      case (Err e)
      then show ?thesis using \<open>\<And>e. r = Err e \<Longrightarrow> E p'\<close> by (simp add: run sp ploop_step_def)
    qed (use run in simp)
  qed (simp_all add: init)
  then obtain p' r where "run_calls (ploop_step body) (s, p) = Some (p', r)" "?Q (p', r)"
    by fastforce
  then show ?thesis by (cases r) (simp_all add: wp_def ploop_def)
qed

section \<open>Primitives\<close>

text \<open>The tokens that are left, and the parser after the first of them.\<close>

definition rest :: "parser \<Rightarrow> token list" where
  "rest p = drop (p_at p) (p_tokens p)"

definition adv :: "parser \<Rightarrow> parser" where
  "adv p = p\<lparr>p_at := p_at p + 1\<rparr>"

lemma rest_adv [simp]: "rest (adv p) = tl (rest p)"
  by (simp add: rest_def adv_def drop_Suc tl_drop)

lemma adv_fields [simp]:
  "p_tokens (adv p) = p_tokens p" "p_expressions (adv p) = p_expressions p"
  "p_types (adv p) = p_types p" "p_errors (adv p) = p_errors p"
  by (simp_all add: adv_def)

lemma rest_update [simp]:
  "rest (p\<lparr>p_expressions := es\<rparr>) = rest p" "rest (p\<lparr>p_types := ts\<rparr>) = rest p"
  "rest (p\<lparr>p_errors := xs\<rparr>) = rest p"
  by (simp_all add: rest_def)

lemma vget_rest: "vget (p_tokens p) (p_at p) = (case rest p of [] \<Rightarrow> None | t # _ \<Rightarrow> Some t)"
  by (auto simp: rest_def vget_def Cons_nth_drop_Suc [symmetric] split: list.split)

lemma wp_p_current [wp_eqs]:
  "wp p_current Q E p = (case rest p of [] \<Rightarrow> False | t # _ \<Rightarrow> Q t p)"
  by (auto simp: wp_def p_current_def vget_rest split: list.split)

lemma wp_current_kind [wp_eqs]:
  "wp current_kind Q E p = (case rest p of [] \<Rightarrow> False | t # _ \<Rightarrow> Q (tk_kind t) p)"
  by (simp add: current_kind_def wp_eqs split: list.split)

lemma wp_bump [wp_eqs]: "wp bump Q E p = (case rest p of [] \<Rightarrow> False | t # _ \<Rightarrow> Q t (adv p))"
  by (auto simp: wp_def bump_def vget_rest adv_def split: list.split)

lemma wp_eat [wp_eqs]:
  "wp (eat P) Q E p =
    (case rest p of [] \<Rightarrow> False | t # _ \<Rightarrow> if P (tk_kind t) then Q (Some t) (adv p) else Q None p)"
  by (auto simp: eat_def wp_eqs split: list.split)

lemma wp_expected [wp_eqs]:
  "wp (expected what) Q E p = (case rest p of [] \<Rightarrow> False | t # _ \<Rightarrow>
     Q \<lparr>err_code = ''H0200'', err_message = Expected what (tk_kind t), err_span = tk_span t\<rparr> p)"
  by (simp add: expected_def wp_eqs split: list.split)

lemma wp_fail_expected [wp_eqs]: "wp (fail_expected what) Q E p \<longleftrightarrow> rest p \<noteq> [] \<and> E p"
  by (auto simp: fail_expected_def wp_eqs split: list.split)

lemma wp_require [wp_eqs]:
  "wp (require P what) Q E p =
    (case rest p of [] \<Rightarrow> False | t # _ \<Rightarrow> if P (tk_kind t) then Q () (adv p) else E p)"
  by (auto simp: require_def wp_eqs split: list.split)

lemma wp_alloc_expr [wp_eqs]:
  "wp (alloc_expr e) Q E p \<longleftrightarrow> length (p_expressions p) \<le> u32_max \<and>
     Q (length (p_expressions p)) (p\<lparr>p_expressions := p_expressions p @ [e]\<rparr>)"
  by (simp add: wp_def alloc_expr_def u32_try_from_def)

lemma wp_alloc_type [wp_eqs]:
  "wp (alloc_type t) Q E p \<longleftrightarrow> length (p_types p) \<le> u32_max \<and>
     Q (length (p_types p)) (p\<lparr>p_types := p_types p @ [t]\<rparr>)"
  by (simp add: wp_def alloc_type_def u32_try_from_def)

lemma wp_span_of_expr [wp_eqs]:
  "wp (span_of_expr i) Q E p \<longleftrightarrow> i < length (p_expressions p) \<and> Q (expr_span (p_expressions p ! i)) p"
  by (simp add: wp_def span_of_expr_def vget_def)

lemma wp_span_of_type [wp_eqs]:
  "wp (span_of_type i) Q E p \<longleftrightarrow> i < length (p_types p) \<and> Q (type_expr_span (p_types p ! i)) p"
  by (simp add: wp_def span_of_type_def vget_def)

end
