(* ===== verification/Hell_Blocks.thy ===== *)
theory Hell_Blocks
  imports Hell_Wp
begin

text \<open>
  Well-formed token streams and arenas.  \<open>closes d e ts\<close>: \<open>d\<close> implicit blocks and \<open>e\<close>
  explicit braces are open before \<open>ts\<close>, and \<open>ts\<close> closes them in order and then ends with
  its only \<open>Eof\<close>; explicit braces hold no implicit block.  It is what keeps the parser away
  from the end of its tokens.
\<close>

section \<open>Token streams\<close>

fun opens_block :: "token list \<Rightarrow> bool" where
  "opens_block [] = False"
| "opens_block (t # _) = (tk_kind t = TkVirtualLBrace)"

fun closes :: "nat \<Rightarrow> nat \<Rightarrow> token list \<Rightarrow> bool" where
  "closes d e [] = False"
| "closes d e (t # ts) =
    (if tk_kind t = TkEof then d = 0 \<and> e = 0 \<and> ts = []
     else 0 < d \<and>
       (if tk_kind t = TkVirtualLBrace then e = 0 \<and> closes (d + 1) 0 ts
        else if tk_kind t = TkVirtualRBrace then e = 0 \<and> closes (d - 1) 0 ts
        else if tk_kind t = TkLBrace then closes d (e + 1) ts
        else if tk_kind t = TkRBrace then 0 < e \<and> closes d (e - 1) ts
        else (tk_kind t \<in> {TkKwDo, TkKwOf} \<longrightarrow> opens_block ts) \<and> closes d e ts))"

definition plain :: "token_kind \<Rightarrow> bool" where
  "plain k \<longleftrightarrow> k \<notin> {TkEof, TkVirtualLBrace, TkVirtualRBrace, TkLBrace, TkRBrace}"

lemma plain_simps [simp]:
  "plain (TkLower x)" "plain (TkUpper x)" "plain (TkQualified x)" "plain (TkOperator x)"
  "plain (TkInteger x)" "plain (TkFraction x)" "plain (TkCharacter c)" "plain (TkText x)"
  "plain TkKwCase" "plain TkKwData" "plain TkKwDo" "plain TkKwElse" "plain TkKwIf"
  "plain TkKwLet" "plain TkKwOf" "plain TkKwThen" "plain TkLParen" "plain TkRParen"
  "plain TkLBracket" "plain TkRBracket" "plain TkComma" "plain TkSemicolon" "plain TkEquals"
  "plain TkBackslash" "plain TkArrow" "plain TkBindArrow" "plain TkDoubleColon" "plain TkAt"
  "plain TkPipe" "plain TkUnderscore" "plain TkVirtualSemicolon" "\<not> plain TkLBrace"
  "\<not> plain TkRBrace" "\<not> plain TkVirtualLBrace" "\<not> plain TkVirtualRBrace"
  "\<not> plain TkEof"
  by (simp_all add: plain_def)

lemma closes_plain: "closes d e (t # ts) \<Longrightarrow> plain (tk_kind t) \<Longrightarrow> closes d e ts"
  by (auto simp: plain_def split: if_splits)

lemma closes_not_Nil: "closes d e ts \<Longrightarrow> ts \<noteq> []"
  by auto

lemma closes_Eof: "closes d e (t # ts) \<Longrightarrow> 0 < d \<Longrightarrow> tk_kind t \<noteq> TkEof"
  by auto

lemma closes_zero: "closes 0 e ts \<Longrightarrow> \<exists>t. ts = [t] \<and> tk_kind t = TkEof"
  by (cases ts) (auto split: if_splits)

text \<open>Some depths are left behind whatever token is skipped.\<close>

definition ends_well :: "token list \<Rightarrow> bool" where
  "ends_well ts \<longleftrightarrow> (\<exists>d e. closes d e ts)"

lemma ends_well_tl: "closes d e (t # ts) \<Longrightarrow> tk_kind t \<noteq> TkEof \<Longrightarrow> ends_well ts"
  by (auto simp: ends_well_def split: if_splits)

lemma closes_ends_well: "closes d e ts \<Longrightarrow> ends_well ts"
  by (auto simp: ends_well_def)

text \<open>
  A parenthesis that ends a block takes the block's virtual brace out of the tokens to come:
  the stream then closes one block less.
\<close>

definition without_close :: "token list \<Rightarrow> token list" where
  "without_close ts =
    takeWhile (\<lambda>t. tk_kind t \<noteq> TkVirtualRBrace) ts @
    drop (length (takeWhile (\<lambda>t. tk_kind t \<noteq> TkVirtualRBrace) ts) + 1) ts"

lemma without_close_simps [simp]:
  "tk_kind t = TkVirtualRBrace \<Longrightarrow> without_close (t # ts) = ts"
  "tk_kind t \<noteq> TkVirtualRBrace \<Longrightarrow> without_close (t # ts) = t # without_close ts"
  by (simp_all add: without_close_def)

lemma opens_block_without_close: "opens_block ts \<Longrightarrow> opens_block (without_close ts)"
  by (cases ts) auto

lemma closes_without_close:
  "closes (Suc d) e ts \<Longrightarrow> 0 < d \<Longrightarrow> closes d e (without_close ts) \<and> Suc (length (without_close ts)) = length ts"
proof (induction ts arbitrary: d e)
  case (Cons t ts)
  then show ?case
    by (cases "tk_kind t = TkVirtualRBrace")
       (auto simp: opens_block_without_close split: if_splits)
qed simp

lemma closes_single: "closes d e [t] \<Longrightarrow> tk_kind t = TkEof"
  by (auto split: if_splits)

declare closes.simps(2) [simp del]

section \<open>Arenas\<close>

fun type_refs :: "type_expr \<Rightarrow> nat list" where
  "type_refs (TyName _ _) = []"
| "type_refs (TyUnit _) = []"
| "type_refs (TyList t _) = [t]"
| "type_refs (TyTuple ts _) = ts"
| "type_refs (TyFunction a b _) = [a, b]"
| "type_refs (TyApply a b _) = [a, b]"
| "type_refs (TyPromoted _ _) = []"

fun pattern_types :: "binding_pattern \<Rightarrow> nat list" where
  "pattern_types (PVariable _ _) = []"
| "pattern_types (PWildcard _) = []"
| "pattern_types (PTuple _ _) = []"
| "pattern_types (PAnnotated p t _) = t # pattern_types p"

fun statement_exprs :: "do_statement \<Rightarrow> nat list" where
  "statement_exprs (SBind _ e _) = [e]"
| "statement_exprs (SLet _ e _) = [e]"
| "statement_exprs (SThen e _) = [e]"

fun statement_types :: "do_statement \<Rightarrow> nat list" where
  "statement_types (SBind p _ _) = pattern_types p"
| "statement_types (SLet p _ _) = pattern_types p"
| "statement_types (SThen _ _) = []"

fun expr_refs :: "expr \<Rightarrow> nat list" where
  "expr_refs (EName _ _) = []"
| "expr_refs (ELiteral _ _) = []"
| "expr_refs (EApply f a _) = [f, a]"
| "expr_refs (ETypeApply f _ _) = [f]"
| "expr_refs (ELambda _ b _) = [b]"
| "expr_refs (EIf a b c _) = [a, b, c]"
| "expr_refs (EDo ss _) = concat (map statement_exprs ss)"
| "expr_refs (ECase s alts _) = s # map alt_expression alts"
| "expr_refs (ETuple es _) = es"
| "expr_refs (EList es _) = es"
| "expr_refs (ERecord _ fs _) = map rf_value fs"
| "expr_refs (EAnnotation e _ _) = [e]"

fun expr_types :: "expr \<Rightarrow> nat list" where
  "expr_types (ETypeApply _ t _) = [t]"
| "expr_types (ELambda ps _ _) = concat (map pattern_types ps)"
| "expr_types (EDo ss _) = concat (map statement_types ss)"
| "expr_types (EAnnotation _ t _) = [t]"
| "expr_types _ = []"

definition below :: "nat list \<Rightarrow> nat \<Rightarrow> bool" where
  "below is n \<longleftrightarrow> (\<forall>i \<in> set is. i < n)"

lemma below_simps [simp]:
  "below [] n" "below (i # is) n \<longleftrightarrow> i < n \<and> below is n"
  "below (is @ js) n \<longleftrightarrow> below is n \<and> below js n"
  by (auto simp: below_def)

lemma below_mono: "below is n \<Longrightarrow> n \<le> m \<Longrightarrow> below is m"
  by (auto simp: below_def)

text \<open>Every node refers to nodes before it only: the arenas are finite trees.\<close>

definition types_below :: "type_expr list \<Rightarrow> bool" where
  "types_below ts \<longleftrightarrow> (\<forall>i < length ts. below (type_refs (ts ! i)) i)"

definition exprs_below :: "expr list \<Rightarrow> nat \<Rightarrow> bool" where
  "exprs_below es n \<longleftrightarrow> (\<forall>i < length es. below (expr_refs (es ! i)) i \<and> below (expr_types (es ! i)) n)"

lemma types_below_snoc [simp]:
  "types_below (ts @ [t]) \<longleftrightarrow> types_below ts \<and> below (type_refs t) (length ts)"
  by (auto simp: types_below_def nth_append less_Suc_eq)

lemma exprs_below_snoc [simp]:
  "exprs_below (es @ [e]) n \<longleftrightarrow>
    exprs_below es n \<and> below (expr_refs e) (length es) \<and> below (expr_types e) n"
  by (auto simp: exprs_below_def nth_append less_Suc_eq)

lemma exprs_below_mono: "exprs_below es n \<Longrightarrow> n \<le> m \<Longrightarrow> exprs_below es m"
  by (auto simp: exprs_below_def intro: below_mono)

lemma below_Nil_arenas [simp]: "types_below []" "exprs_below [] n"
  by (simp_all add: types_below_def exprs_below_def)

definition arenas_ok :: "parser \<Rightarrow> bool" where
  "arenas_ok p \<longleftrightarrow> types_below (p_types p) \<and> exprs_below (p_expressions p) (length (p_types p))"

lemma arenas_ok_adv [simp]: "arenas_ok (adv p) = arenas_ok p"
  by (simp add: arenas_ok_def)

lemma arenas_ok_alloc_type:
  "arenas_ok p \<Longrightarrow> below (type_refs t) (length (p_types p)) \<Longrightarrow>
    arenas_ok (p\<lparr>p_types := p_types p @ [t]\<rparr>)"
  by (auto simp: arenas_ok_def intro: exprs_below_mono)

lemma arenas_ok_alloc_expr:
  "arenas_ok p \<Longrightarrow> below (expr_refs e) (length (p_expressions p)) \<Longrightarrow>
    below (expr_types e) (length (p_types p)) \<Longrightarrow>
    arenas_ok (p\<lparr>p_expressions := p_expressions p @ [e]\<rparr>)"
  by (auto simp: arenas_ok_def)

end
