(* ===== verification/Hell_Type_Total.thy ===== *)
theory Hell_Type_Total
  imports Hell_Blocks
begin

text \<open>
  The type parser is total: on a stream that closes its blocks it returns, it does not
  panic, it leaves the blocks as they are, and it allocates at most two nodes for each token
  it takes.
\<close>

section \<open>What a routine that leaves the blocks alone does\<close>

text \<open>Parsing types and patterns changes the position and the type arena only.\<close>

definition kept :: "parser \<Rightarrow> parser \<Rightarrow> bool" where
  "kept p p' \<longleftrightarrow> p_tokens p' = p_tokens p \<and> p_expressions p' = p_expressions p \<and>
     length (p_types p) \<le> length (p_types p') \<and> arenas_ok p' \<and> p_at p \<le> p_at p'"

text \<open>Two type nodes can be paid for by a token.\<close>

definition funds :: "parser \<Rightarrow> nat" where
  "funds p = length (p_types p) + 2 * length (rest p)"

definition advanced :: "nat \<Rightarrow> nat \<Rightarrow> parser \<Rightarrow> parser \<Rightarrow> bool" where
  "advanced d e p p' \<longleftrightarrow> kept p p' \<and> closes d e (rest p') \<and> funds p' \<le> funds p \<and>
     length (rest p') < length (rest p)"

definition stopped :: "parser \<Rightarrow> parser \<Rightarrow> bool" where
  "stopped p p' \<longleftrightarrow> kept p p' \<and> ends_well (rest p') \<and> funds p' \<le> funds p \<and>
     length (rest p') \<le> length (rest p)"

definition type_known :: "nat \<Rightarrow> parser \<Rightarrow> bool" where
  "type_known i p \<longleftrightarrow> i < length (p_types p)"

text \<open>A routine that may be called anywhere inside a block.\<close>

definition routine :: "'a parsing \<Rightarrow> ('a \<Rightarrow> parser \<Rightarrow> bool) \<Rightarrow> bool" where
  "routine m R \<longleftrightarrow> (\<forall>p d e. arenas_ok p \<longrightarrow> closes d e (rest p) \<longrightarrow> 0 < d \<longrightarrow> funds p \<le> u32_max \<longrightarrow>
     wp m (\<lambda>x p'. advanced d e p p' \<and> R x p') (stopped p) p)"

section \<open>The loop\<close>

fun takes_atom :: "type_work \<Rightarrow> bool" where
  "takes_atom TwType = True"
| "takes_atom TwApplication = True"
| "takes_atom TwAtom = True"
| "takes_atom _ = False"

fun type_item_ok :: "nat \<Rightarrow> type_work \<Rightarrow> bool" where
  "type_item_ok n (TwCombine i) = (i < n)"
| "type_item_ok n (TwFunction i) = (i < n)"
| "type_item_ok n (TwTuple _ is) = below is n"
| "type_item_ok n _ = True"

lemma type_item_ok_mono: "type_item_ok n w \<Longrightarrow> n \<le> m \<Longrightarrow> type_item_ok m w"
  by (cases w) (auto intro: below_mono)

text \<open>The nodes an item is still to allocate, and its weight in the measure of the loop.\<close>

fun type_debt :: "type_work \<Rightarrow> nat" where
  "type_debt (TwCombine _) = 1"
| "type_debt (TwFunction _) = 1"
| "type_debt (TwList _) = 1"
| "type_debt (TwTuple _ _) = 1"
| "type_debt _ = 0"

fun type_item_weight :: "type_work \<Rightarrow> nat" where
  "type_item_weight TwType = 5"
| "type_item_weight TwApplication = 3"
| "type_item_weight (TwCombine _) = 2"
| "type_item_weight _ = 1"

definition type_bonus :: "type_work list \<Rightarrow> nat" where
  "type_bonus work = (case work of [] \<Rightarrow> 1 | w # _ \<Rightarrow> if takes_atom w then 0 else 1)"

lemma type_bonus_simps [simp]:
  "type_bonus [] = 1" "type_bonus (w # work) = (if takes_atom w then 0 else 1)"
  by (simp_all add: type_bonus_def)

definition type_out_ok :: "type_work list \<Rightarrow> nat option \<Rightarrow> nat \<Rightarrow> bool" where
  "type_out_ok work out n \<longleftrightarrow>
     (if type_bonus work = 1 then (\<exists>i. out = Some i \<and> i < n) else True)"

fun type_weight :: "type_state \<Rightarrow> parser \<Rightarrow> nat" where
  "type_weight (work, out) p = 16 * length (rest p) + 8 * type_bonus work + sum_list (map type_item_weight work)"

fun type_inv :: "nat \<Rightarrow> nat \<Rightarrow> parser \<Rightarrow> type_state \<Rightarrow> parser \<Rightarrow> bool" where
  "type_inv d e p0 (work, out) p \<longleftrightarrow>
     kept p0 p \<and> closes d e (rest p) \<and> (\<forall>w \<in> set work. type_item_ok (length (p_types p)) w) \<and>
     type_out_ok work out (length (p_types p)) \<and>
     funds p + type_bonus work + sum_list (map type_debt work) \<le> funds p0 \<and>
     length (rest p) + type_bonus work \<le> length (rest p0)"

definition type_post :: "nat \<Rightarrow> nat \<Rightarrow> parser \<Rightarrow> nat \<Rightarrow> type_state + nat \<Rightarrow> parser \<Rightarrow> bool" where
  "type_post d e p0 m r p = (case r of
     Inl s \<Rightarrow> type_inv d e p0 s p \<and> type_weight s p < m
   | Inr i \<Rightarrow> advanced d e p0 p \<and> type_known i p)"

lemma kept_adv: "kept p0 p \<Longrightarrow> kept p0 (adv p)"
  by (simp add: kept_def) (simp add: adv_def)

lemma kept_alloc:
  "kept p0 p \<Longrightarrow> below (type_refs t) (length (p_types p)) \<Longrightarrow> kept p0 (p\<lparr>p_types := p_types p @ [t]\<rparr>)"
  by (auto simp: kept_def intro: arenas_ok_alloc_type)

lemma kept_refl: "arenas_ok p \<Longrightarrow> kept p p"
  by (simp add: kept_def)

lemma kept_trans: "kept p q \<Longrightarrow> kept q r \<Longrightarrow> kept p r"
  by (auto simp: kept_def)



text \<open>Three ways to end a round: push work that takes an atom, pass a value on, make a node.\<close>

definition type_ready :: "nat \<Rightarrow> nat \<Rightarrow> parser \<Rightarrow> type_work list \<Rightarrow> parser \<Rightarrow> bool" where
  "type_ready d e p0 work p \<longleftrightarrow>
     kept p0 p \<and> closes d e (rest p) \<and> (\<forall>w \<in> set work. type_item_ok (length (p_types p)) w)"

lemma type_ready_adv:
  "type_ready d e p0 work p \<Longrightarrow> rest p = t # ts \<Longrightarrow> plain (tk_kind t) \<Longrightarrow> type_ready d e p0 work (adv p)"
  by (auto simp: type_ready_def kept_adv dest: closes_plain)

lemma type_ready_Cons [simp]:
  "type_ready d e p0 (w # work) p \<longleftrightarrow> type_item_ok (length (p_types p)) w \<and> type_ready d e p0 work p"
  by (auto simp: type_ready_def)

lemma type_go_atom:
  assumes "type_ready d e p0 work p" "type_bonus work = 0"
    and "funds p + sum_list (map type_debt work) \<le> funds p0" "length (rest p) \<le> length (rest p0)"
    and "16 * length (rest p) + sum_list (map type_item_weight work) < m"
  shows "wp (type_go work out) (type_post d e p0 m) E p"
  using assms by (auto simp: type_go_def wp_eqs type_post_def type_out_ok_def type_ready_def)

lemma type_go_value:
  assumes "type_ready d e p0 work p" "i < length (p_types p)"
    and "funds p + 1 + sum_list (map type_debt work) \<le> funds p0" "length (rest p) < length (rest p0)"
    and "16 * length (rest p) + 8 + sum_list (map type_item_weight work) < m"
  shows "wp (type_go work (Some i)) (type_post d e p0 m) E p"
  using assms by (cases work) (auto simp: type_go_def wp_eqs type_post_def type_out_ok_def type_ready_def)

lemma type_produce_ok:
  assumes "type_ready d e p0 work p" "below (type_refs t) (length (p_types p))" "funds p0 \<le> u32_max"
    and "funds p + 2 + sum_list (map type_debt work) \<le> funds p0" "length (rest p) < length (rest p0)"
    and "16 * length (rest p) + 8 + sum_list (map type_item_weight work) < m"
  shows "wp (type_produce t work) (type_post d e p0 m) E p"
proof -
  have "length (p_types p) \<le> u32_max" using assms(3,4) by (simp add: funds_def)
  moreover have "\<forall>w \<in> set work. type_item_ok (Suc (length (p_types p))) w"
    using assms(1) type_item_ok_mono [OF _ le_SucI [OF order_refl]] by (simp add: type_ready_def)
  ultimately show ?thesis
    using assms unfolding type_produce_def
    by (auto simp: wp_eqs type_ready_def kept_alloc funds_def intro!: type_go_value)
qed

lemma stopped_here: "type_ready d e p0 work p \<Longrightarrow> funds p \<le> funds p0 \<Longrightarrow> length (rest p) \<le> length (rest p0) \<Longrightarrow> stopped p0 p"
  by (auto simp: type_ready_def stopped_def intro: closes_ends_well)

lemma stopped_after:
  "type_ready d e p0 work p \<Longrightarrow> 0 < d \<Longrightarrow> funds p \<le> funds p0 \<Longrightarrow> length (rest p) \<le> length (rest p0) \<Longrightarrow> stopped p0 (adv p)"
  by (cases "rest p") (auto simp: type_ready_def stopped_def funds_def kept_adv dest: closes_Eof ends_well_tl)

lemma funds_adv: "rest p = t # ts \<Longrightarrow> funds (adv p) + 2 = funds p"
  by (simp add: funds_def)

lemmas type_rules = type_go_atom type_go_value type_produce_ok


lemma type_inv_ready:
  assumes "type_inv d e p0 (w # work, out) p" and "0 < d"
  shows "type_ready d e p0 (w # work) p"
    and "funds p + type_bonus (w # work) + (type_debt w + sum_list (map type_debt work)) \<le> funds p0"
    and "length (rest p) + type_bonus (w # work) \<le> length (rest p0)"
    and "\<not> takes_atom w \<Longrightarrow> \<exists>i. out = Some i \<and> i < length (p_types p)"
    and "stopped p0 p" and "stopped p0 (adv p)"
proof -
  show ready: "type_ready d e p0 (w # work) p"
    and le: "funds p + type_bonus (w # work) + (type_debt w + sum_list (map type_debt work)) \<le> funds p0"
      "length (rest p) + type_bonus (w # work) \<le> length (rest p0)"
    and "\<not> takes_atom w \<Longrightarrow> \<exists>i. out = Some i \<and> i < length (p_types p)"
    using assms by (auto simp: type_ready_def type_out_ok_def)
  from le show "stopped p0 p" "stopped p0 (adv p)"
    by (auto intro: stopped_here [OF ready] stopped_after [OF ready assms(2)])
qed

lemma type_inv_tokens:
  assumes "type_inv d e p0 (w # work, out) p" and "0 < d"
  obtains t ts where "rest p = t # ts" "ts \<noteq> []" "funds (adv p) + 2 = funds p"
    "plain (tk_kind t) \<Longrightarrow> type_ready d e p0 work (adv p)"
proof (cases "rest p")
  case (Cons t ts)
  with assms have "ts \<noteq> []" by (auto dest: closes_single closes_Eof)
  with that Cons type_inv_ready(1) [OF assms] show ?thesis
    by (auto simp: funds_def intro: type_ready_adv)
qed (use assms in simp)

lemma type_after_application_ok:
  assumes inv: "type_inv d e p0 (TwAfterApplication # work, out) p" and d: "0 < d"
  shows "wp (type_after_application work out)
    (type_post d e p0 (type_weight (TwAfterApplication # work, out) p)) (stopped p0) p"
  using type_inv_ready [OF inv d]
  by (rule_tac type_inv_tokens [OF inv d])
    (auto simp: type_after_application_def taken_def wp_eqs intro!: type_rules)

lemma type_atom_ok:
  assumes inv: "type_inv d e p0 (TwAtom # work, out) p" and d: "0 < d" and space: "funds p0 \<le> u32_max"
  shows "wp (type_atom work out) (type_post d e p0 (type_weight (TwAtom # work, out) p)) (stopped p0) p"
proof -
  obtain t t' ts where "rest p = t # t' # ts" "funds (adv p) + 2 = funds p"
      "plain (tk_kind t) \<Longrightarrow> type_ready d e p0 work (adv p)"
    by (rule type_inv_tokens [OF inv d]) (metis neq_Nil_conv)
  with type_inv_ready [OF inv d] space
    type_ready_adv [of d e p0 work "adv p" t' ts] funds_adv [of "adv p" t' ts]
  show ?thesis
    by (cases "tk_kind t") (auto simp: type_atom_def wp_eqs intro!: type_rules)
qed

lemma type_continue_ok:
  assumes inv: "type_inv d e p0 (TwContinue # work, out) p" and d: "0 < d"
  shows "wp (type_continue work out)
    (type_post d e p0 (type_weight (TwContinue # work, out) p)) (stopped p0) p"
  using type_inv_ready [OF inv d]
  by (rule_tac type_inv_tokens [OF inv d])
    (auto simp: type_continue_def taken_def wp_eqs intro!: type_rules)

lemma type_combine_ok:
  assumes inv: "type_inv d e p0 (TwCombine left # work, out) p" and d: "0 < d" and space: "funds p0 \<le> u32_max"
  shows "wp (type_combine left work out)
    (type_post d e p0 (type_weight (TwCombine left # work, out) p)) (stopped p0) p"
  using type_inv_ready [OF inv d] space
  by (rule_tac type_inv_tokens [OF inv d])
    (auto simp: type_combine_def joined_types_def taken_def wp_eqs intro!: type_rules)

lemma type_finish_function_ok:
  assumes inv: "type_inv d e p0 (TwFunction left # work, out) p" and d: "0 < d" and space: "funds p0 \<le> u32_max"
  shows "wp (type_finish_function left work out)
    (type_post d e p0 (type_weight (TwFunction left # work, out) p)) (stopped p0) p"
  using type_inv_ready [OF inv d] space
  by (rule_tac type_inv_tokens [OF inv d])
    (auto simp: type_finish_function_def joined_types_def taken_def wp_eqs intro!: type_rules)

lemma type_finish_list_ok:
  assumes inv: "type_inv d e p0 (TwList start # work, out) p" and d: "0 < d" and space: "funds p0 \<le> u32_max"
  shows "wp (type_finish_list start work out)
    (type_post d e p0 (type_weight (TwList start # work, out) p)) (stopped p0) p"
  using type_inv_ready [OF inv d] space
  by (rule_tac type_inv_tokens [OF inv d])
    (auto simp: type_finish_list_def taken_def wp_eqs intro!: type_rules)

lemma type_parenthesized_ok:
  assumes inv: "type_inv d e p0 (TwParenthesized start # work, out) p" and d: "0 < d"
  shows "wp (type_parenthesized start work out)
    (type_post d e p0 (type_weight (TwParenthesized start # work, out) p)) (stopped p0) p"
  using type_inv_ready [OF inv d]
  by (rule_tac type_inv_tokens [OF inv d])
    (auto simp: type_parenthesized_def taken_def wp_eqs intro!: type_rules)

lemma type_tuple_item_ok:
  assumes inv: "type_inv d e p0 (TwTuple start items # work, out) p" and d: "0 < d" and space: "funds p0 \<le> u32_max"
  shows "wp (type_tuple_item start items work out)
    (type_post d e p0 (type_weight (TwTuple start items # work, out) p)) (stopped p0) p"
  using type_inv_ready [OF inv d] space
  by (rule_tac type_inv_tokens [OF inv d])
    (auto simp: type_tuple_item_def Let_def taken_def wp_eqs intro!: type_rules)

lemmas type_arms_ok = type_after_application_ok type_atom_ok type_continue_ok type_combine_ok
  type_finish_function_ok type_finish_list_ok type_parenthesized_ok type_tuple_item_ok

lemma type_round_ok:
  assumes inv: "type_inv d e p0 s p" and d: "0 < d" and space: "funds p0 \<le> u32_max"
  shows "wp (type_round s) (type_post d e p0 (type_weight s p)) (stopped p0) p"
proof (cases s rule: type_round.cases)
  case (1 out)
  then show ?thesis using inv
    by (auto simp: taken_def wp_eqs type_post_def type_out_ok_def advanced_def type_known_def)
next
  case (2 work out)
  with type_inv_ready [of d e p0 TwType work out p] inv d show ?thesis
    by (auto intro!: type_go_atom)
next
  case (3 work out)
  with type_inv_ready [of d e p0 TwApplication work out p] inv d show ?thesis
    by (auto intro!: type_go_atom)
qed (use inv d space in \<open>auto simp del: type_inv.simps type_weight.simps intro: type_arms_ok\<close>)

theorem parse_type_iterative_ok: "routine (parse_type_iterative entry) type_known"
  unfolding routine_def
proof (intro allI impI)
  fix p d e assume "arenas_ok p" "closes d e (rest p)" "0 < d" "funds p \<le> u32_max"
  then show "wp (parse_type_iterative entry) (\<lambda>i p'. advanced d e p p' \<and> type_known i p') (stopped p) p"
    unfolding parse_type_iterative_def
    by (intro wp_ploop [where I = "type_inv d e p" and weight = type_weight])
      (auto simp: kept_refl type_out_ok_def split: type_parse_entry.split
        intro: type_round_ok [unfolded type_post_def])
qed

lemma parse_type_ok: "routine parse_type type_known"
  by (simp add: parse_type_def parse_type_iterative_ok)

lemma parse_type_atom_ok: "routine parse_type_atom type_known"
  by (simp add: parse_type_atom_def parse_type_iterative_ok)

end
