(* ===== verification/Hell_Pattern_Total.thy ===== *)
theory Hell_Pattern_Total
  imports Hell_Type_Total
begin

text \<open>
  The pattern parsers are total, and so are the loops over separators and the attempt to read
  a binding statement, which goes back to where the statement started.
\<close>

section \<open>Moving ahead\<close>

definition ahead :: "nat \<Rightarrow> nat \<Rightarrow> parser \<Rightarrow> parser \<Rightarrow> bool" where
  "ahead d e p0 p \<longleftrightarrow> kept p0 p \<and> closes d e (rest p) \<and> funds p \<le> funds p0 \<and>
     length (rest p) \<le> length (rest p0)"

lemma ahead_refl: "arenas_ok p \<Longrightarrow> closes d e (rest p) \<Longrightarrow> ahead d e p p"
  by (simp add: ahead_def kept_refl)

lemma ahead_advanced: "ahead d e p0 p \<Longrightarrow> advanced d e p p' \<Longrightarrow> ahead d e p0 p' \<and> advanced d e p0 p'"
  by (auto simp: ahead_def advanced_def intro: kept_trans)

lemma ahead_stopped: "ahead d e p0 p \<Longrightarrow> stopped p p' \<Longrightarrow> stopped p0 p'"
  by (auto simp: ahead_def stopped_def intro: kept_trans)

lemma advanced_ahead: "advanced d e p0 p \<Longrightarrow> ahead d e p0 p"
  by (auto simp: ahead_def advanced_def)

text \<open>What one more token does.\<close>

lemma ahead_step:
  assumes "ahead d e p0 p" and "0 < d"
  obtains t t' ts where "rest p = t # t' # ts" "stopped p0 p" "stopped p0 (adv p)"
    "plain (tk_kind t) \<longrightarrow> ahead d e p0 (adv p) \<and> advanced d e p0 (adv p)"
proof -
  obtain t ts where rest: "rest p = t # ts" using assms by (cases "rest p") (auto simp: ahead_def)
  with assms have eof: "tk_kind t \<noteq> TkEof" "ts \<noteq> []" and cl: "closes d e (t # ts)"
    by (auto simp: ahead_def dest: closes_Eof closes_single)
  from assms rest eof cl have stop: "stopped p0 p" "stopped p0 (adv p)"
    by (auto simp: ahead_def stopped_def funds_def kept_adv intro: closes_ends_well ends_well_tl)
  moreover have "plain (tk_kind t) \<longrightarrow> ahead d e p0 (adv p) \<and> advanced d e p0 (adv p)"
    using assms rest closes_plain [OF cl] by (auto simp: ahead_def advanced_def funds_def kept_adv)
  ultimately show thesis using that rest eof by (cases ts) auto
qed

lemma ahead_case:
  assumes "ahead d e p0 p" and "0 < d"
    and "\<And>t t' ts. rest p = t # t' # ts \<Longrightarrow> stopped p0 p \<Longrightarrow> stopped p0 (adv p) \<Longrightarrow>
      (plain (tk_kind t) \<longrightarrow> ahead d e p0 (adv p) \<and> advanced d e p0 (adv p)) \<Longrightarrow> f t (t' # ts)"
  shows "case rest p of [] \<Rightarrow> False | t # ts \<Rightarrow> f t ts"
  by (rule ahead_step [OF assms(1,2)]) (use assms(3) in simp)

lemma wp_routine:
  assumes "routine m R" "ahead d e p0 p" "0 < d" "funds p0 \<le> u32_max"
    and "\<And>x p'. ahead d e p0 p' \<Longrightarrow> advanced d e p0 p' \<Longrightarrow> R x p' \<Longrightarrow> length (p_types p) \<le> length (p_types p') \<Longrightarrow> Q x p'"
    and "\<And>p'. stopped p0 p' \<Longrightarrow> E p'"
  shows "wp m Q E p"
proof (rule wp_mono)
  show "wp m (\<lambda>x p'. advanced d e p p' \<and> R x p') (stopped p) p"
    using assms(1-4) by (auto simp: routine_def ahead_def kept_def)
next
  fix x p' assume "advanced d e p p' \<and> R x p'"
  with assms(5) ahead_advanced [OF assms(2)] show "Q x p'" by (auto simp: advanced_def kept_def)
qed (use assms(2,6) in \<open>auto intro: ahead_stopped\<close>)

lemma routineI:
  assumes "\<And>p d e. ahead d e p p \<Longrightarrow> 0 < d \<Longrightarrow> funds p \<le> u32_max \<Longrightarrow>
    wp m (\<lambda>x p'. advanced d e p p' \<and> R x p') (stopped p) p"
  shows "routine m R"
  using assms by (auto simp: routine_def intro: ahead_refl)

section \<open>Patterns\<close>

definition pattern_known :: "binding_pattern \<Rightarrow> parser \<Rightarrow> bool" where
  "pattern_known pattern p \<longleftrightarrow> below (pattern_types pattern) (length (p_types p))"


text \<open>The constructor pattern's binders.\<close>

lemma lower_binders_ok:
  assumes "ahead d e p0 p" "advanced d e p0 p" "0 < d"
  shows "wp (ploop (\<lambda>(binders, e). pbind current_kind (\<lambda>k.
         case k of
           TkLower binder \<Rightarrow> pbind bump (\<lambda>b. preturn (Inl (binders @ [binder], tk_span b)))
         | _ \<Rightarrow> preturn (Inr (PrimitiveConstructor name binders (span_join sp e))))) init)
     (\<lambda>_ p'. advanced d e p0 p') E p"
proof (rule wp_ploop [where I = "\<lambda>_ q. advanced d e p0 q" and weight = "\<lambda>_ q. length (rest q)"])
  fix s q assume "advanced d e p0 q"
  show "wp (case s of (binders, e) \<Rightarrow> pbind current_kind (\<lambda>k.
         case k of
           TkLower binder \<Rightarrow> pbind bump (\<lambda>b. preturn (Inl (binders @ [binder], tk_span b)))
         | _ \<Rightarrow> preturn (Inr (PrimitiveConstructor name binders (span_join sp e)))))
      (\<lambda>r p'. case r of Inl s' \<Rightarrow> advanced d e p0 p' \<and> length (rest p') < length (rest q)
         | Inr x \<Rightarrow> advanced d e p0 p') E q"
  proof (rule ahead_step [OF advanced_ahead [OF \<open>advanced d e p0 q\<close>] assms(3)])
    fix t t' ts assume "rest q = t # t' # ts"
      "plain (tk_kind t) \<longrightarrow> ahead d e p0 (adv q) \<and> advanced d e p0 (adv q)"
    then show ?thesis using \<open>advanced d e p0 q\<close>
      by (cases "tk_kind t") (auto simp: wp_eqs split: prod.splits)
  qed
qed (use assms in simp)

lemma pattern_known_simps [simp]:
  "pattern_known (PVariable x sp) p" "pattern_known (PWildcard sp) p"
  by (simp_all add: pattern_known_def)

lemma parse_case_pattern_ok: "routine parse_case_pattern (\<lambda>_ _. True)"
proof (rule routineI)
  fix p d e assume start: "ahead d e p p" "0 < d" "funds p \<le> u32_max"
  show "wp parse_case_pattern (\<lambda>x p'. advanced d e p p' \<and> True) (stopped p) p"
  proof (rule ahead_step [OF start(1,2)])
    fix t t' ts assume *: "rest p = t # t' # ts" "stopped p p" "stopped p (adv p)"
      "plain (tk_kind t) \<longrightarrow> ahead d e p (adv p) \<and> advanced d e p (adv p)"
    have upper: ?thesis if "tk_kind t = TkUpper c" for c
    proof -
      from that *(4) have "ahead d e p (adv p)" by (simp add:)
      then show ?thesis using that * start(2)
        by (rule_tac ahead_step) (auto simp: parse_case_pattern_def wp_eqs split: token_kind.splits)
    qed
    from * start(2) upper show ?thesis
      by (cases "tk_kind t") (auto simp: parse_case_pattern_def wp_eqs intro!: lower_binders_ok)
  qed
qed

lemma tuple_binders_ok: "routine (tuple_binders start name) pattern_known"
proof (rule routineI)
  fix p d e assume start: "ahead d e p p" "0 < d"
  let ?Q = "\<lambda>x p'. advanced d e p p' \<and> pattern_known x p'"
  show "wp (tuple_binders start name) ?Q (stopped p) p"
    unfolding tuple_binders_def
  proof (rule wp_ploop [where I = "\<lambda>_ q. ahead d e p q" and weight = "\<lambda>_ q. length (rest q)"])
    fix names q assume "ahead d e p q"
    then obtain t t' ts where *: "rest q = t # t' # ts" "stopped p q" "stopped p (adv q)"
      "plain (tk_kind t) \<longrightarrow> ahead d e p (adv q) \<and> advanced d e p (adv q)"
      by (rule ahead_step [OF _ start(2)])
    show "wp (pbind bump (\<lambda>name_token.
       case tk_kind name_token of
         TkLower name \<Rightarrow>
           if name \<in> set names
           then pfail (parse_error (''duplicate tuple binder `'' @ name @ ''`'') (tk_span name_token))
           else
             (let names = names @ [name] in
              pbind (eat (\<lambda>k. k = TkComma)) (\<lambda>comma.
                case comma of
                  Some _ \<Rightarrow> preturn (Inl names)
                | None \<Rightarrow> pbind bump (\<lambda>e.
                    if tk_kind e \<noteq> TkRParen then pfail (parse_error ''expected `)`'' (tk_span e))
                    else if \<not> (2 \<le> length names \<and> length names \<le> 4)
                    then pfail (parse_error ''tuple binder arity must be two through four'' (span_join start (tk_span e)))
                    else preturn (Inr (PTuple names (span_join start (tk_span e)))))))
       | _ \<Rightarrow> pfail (parse_error ''tuple binders contain variables only'' (tk_span name_token))))
      (\<lambda>r p'. case r of Inl s' \<Rightarrow> ahead d e p p' \<and> length (rest p') < length (rest q)
         | Inr x \<Rightarrow> ?Q x p') (stopped p) q"
    proof (cases "\<exists>n. tk_kind t = TkLower n")
      case True
      with *(4) have "ahead d e p (adv q)" by (auto simp:)
      then show ?thesis using True * start(2)
        by (rule_tac ahead_step) (auto simp: wp_eqs Let_def pattern_known_def split: if_splits)
    next
      case False
      with * show ?thesis by (cases "tk_kind t") (auto simp: wp_eqs)
    qed
  qed (rule start)
qed

lemma parenthesized_pattern_ok: "routine (parenthesized_pattern start) (\<lambda>x. pattern_known (fst x))"
proof (rule routineI)
  fix p d e assume start: "ahead d e p p" "0 < d" and space: "funds p \<le> u32_max"
  let ?Q = "\<lambda>x p'. advanced d e p p' \<and> pattern_known (fst x) p'"
  obtain t t' ts where *: "rest p = t # t' # ts" "stopped p p" "stopped p (adv p)"
      "plain (tk_kind t) \<longrightarrow> ahead d e p (adv p) \<and> advanced d e p (adv p)"
    by (rule ahead_step [OF start])
  show "wp (parenthesized_pattern start) ?Q (stopped p) p"
  proof (cases "\<exists>n. tk_kind t = TkLower n")
    case True
    with *(4) have a: "ahead d e p (adv p)" "advanced d e p (adv p)" by (auto simp:)
    obtain t2 t3 ts2 where **: "rest (adv p) = t2 # t3 # ts2" "stopped p (adv (adv p))"
      "plain (tk_kind t2) \<longrightarrow> ahead d e p (adv (adv p)) \<and> advanced d e p (adv (adv p))"
      by (rule ahead_step [OF a(1) start(2)])
    from True * ** start(2) space show ?thesis
      by (auto simp: parenthesized_pattern_def wp_eqs pattern_known_def type_known_def
          intro!: wp_routine [OF parse_type_ok] wp_routine [OF tuple_binders_ok] ahead_case
          split: if_splits)
  next
    case False
    with * show ?thesis by (cases "tk_kind t") (auto simp: parenthesized_pattern_def wp_eqs)
  qed
qed

lemma annotated_pattern_ok:
  assumes "ahead d e p q" "advanced d e p q" "pattern_known (fst x) q" "0 < d" "funds p \<le> u32_max"
  shows "wp (annotated_pattern x) (\<lambda>x p'. advanced d e p p' \<and> pattern_known x p') (stopped p) q"
  using assms unfolding annotated_pattern_def
  by (cases x) (auto simp: wp_eqs pattern_known_def type_known_def
      intro!: ahead_case wp_routine [OF parse_type_ok, where ?p0.0 = p and d = d and e = e]
      split: if_splits, (erule (1) below_mono)?)

lemma parse_pattern_ok: "routine parse_pattern pattern_known"
proof (rule routineI)
  fix p d e assume start: "ahead d e p p" "0 < d" and space: "funds p \<le> u32_max"
  obtain t t' ts where *: "rest p = t # t' # ts" "stopped p p" "stopped p (adv p)"
      "plain (tk_kind t) \<longrightarrow> ahead d e p (adv p) \<and> advanced d e p (adv p)"
    by (rule ahead_step [OF start])
  from * start(2) space
  show "wp parse_pattern (\<lambda>x p'. advanced d e p p' \<and> pattern_known x p') (stopped p) p"
    by (cases "tk_kind t") (auto simp: parse_pattern_def Let_def wp_eqs
        intro!: annotated_pattern_ok [where e = e]
          wp_routine [OF parenthesized_pattern_ok, where ?p0.0 = p and d = d and e = e])
qed

section \<open>Separators and binding statements\<close>

definition separator :: "token_kind \<Rightarrow> bool" where
  "separator k \<longleftrightarrow> k \<in> {TkVirtualSemicolon, TkSemicolon}"

lemma skip_semicolons_ok:
  assumes "ahead d e p0 p" and "0 < d"
    and "\<And>p'. ahead d e p0 p' \<Longrightarrow> length (rest p') \<le> length (rest p) \<Longrightarrow>
      p_types p' = p_types p \<Longrightarrow> Q () p'"
  shows "wp skip_semicolons Q E p"
  unfolding skip_semicolons_def
proof (rule wp_ploop [where I = "\<lambda>_ q. ahead d e p0 q \<and> length (rest q) \<le> length (rest p) \<and> p_types q = p_types p"
      and weight = "\<lambda>_ q. length (rest q)"])
  fix s q assume "ahead d e p0 q \<and> length (rest q) \<le> length (rest p) \<and> p_types q = p_types p"
  then show "wp (pbind (eat (\<lambda>k. k \<in> {TkVirtualSemicolon, TkSemicolon})) (\<lambda>t.
       case t of Some _ \<Rightarrow> preturn (Inl ()) | None \<Rightarrow> preturn (Inr ())))
     (\<lambda>r p'. case r of
        Inl s' \<Rightarrow> (ahead d e p0 p' \<and> length (rest p') \<le> length (rest p) \<and> p_types p' = p_types p) \<and>
          length (rest p') < length (rest q)
      | Inr x \<Rightarrow> Q x p') E q"
    using assms(2,3)
    by (auto simp: wp_eqs intro!: ahead_case split: if_splits)
qed (use assms in simp)

text \<open>
  The attempt leaves the parser where it was; a pattern that is not followed by an arrow
  leaves its type nodes behind.
\<close>

lemma attempt_bind_ok:
  assumes "ahead d e p p" and "0 < d" and "funds p \<le> u32_max"
    and "\<And>pattern p'. advanced d e p p' \<Longrightarrow> pattern_known pattern p' \<Longrightarrow> Q (Some pattern) p'"
    and "\<And>p'. kept p p' \<Longrightarrow> p_at p' = p_at p \<Longrightarrow>
      length (p_types p') \<le> length (p_types p) + 2 * length (rest p) \<Longrightarrow> Q None p'"
  shows "wp attempt_bind Q E p"
proof -
  let ?again = "\<lambda>q. q\<lparr>p_at := p_at p\<rparr>"
  have undo: "Q None (?again q)" if "kept p q" "funds q \<le> funds p" for q
  proof (rule assms(5))
    show "kept p (?again q)" using that(1) by (auto simp: kept_def arenas_ok_def)
    show "length (p_types (?again q)) \<le> length (p_types p) + 2 * length (rest p)"
      using that by (simp add: funds_def)
  qed simp
  have "wp parse_pattern (\<lambda>x p'. advanced d e p p' \<and> pattern_known x p') (stopped p) p"
    using parse_pattern_ok assms(1-3) by (auto simp: routine_def ahead_def kept_def)
  then obtain q r where run: "parse_pattern p = Some (q, r)" "r \<noteq> Panic"
    and Ok: "\<And>x. r = Ok x \<Longrightarrow> advanced d e p q \<and> pattern_known x q"
    and Err: "\<And>err. r = Err err \<Longrightarrow> stopped p q"
    by (fastforce simp: wp_def split: option.splits res.splits prod.splits)
  show ?thesis
  proof (cases r)
    case (Ok x)
    with run \<open>\<And>x. r = Ok x \<Longrightarrow> advanced d e p q \<and> pattern_known x q\<close>
    have ok: "parse_pattern p = Some (q, Ok x)" "advanced d e p q" "pattern_known x q" by auto
    show ?thesis
    proof (rule ahead_step [OF advanced_ahead [OF ok(2)] assms(2)])
      fix t t' ts assume *: "rest q = t # t' # ts"
        "plain (tk_kind t) \<longrightarrow> ahead d e p (adv q) \<and> advanced d e p (adv q)"
      have stay: "wp (\<lambda>p2. Some (?again p2, Ok None)) Q E q"
        using undo [of q] ok(2) by (simp add: wp_def advanced_def)
      have "Q (Some x) (adv q)" if "tk_kind t = TkBindArrow"
        using assms(4) [of "adv q" x] that * ok(3) by (simp add: pattern_known_def)
      then have "wp (pbind (eat (\<lambda>k. k = TkBindArrow)) (\<lambda>arrow.
           case arrow of Some _ \<Rightarrow> preturn (Some x) | None \<Rightarrow> (\<lambda>p2. Some (?again p2, Ok None)))) Q E q"
        using stay *(1) by (simp add: wp_eqs)
      then show ?thesis using ok(1) by (simp add: attempt_bind_def wp_def)
    qed
  next
    case (Err err)
    with run \<open>\<And>err. r = Err err \<Longrightarrow> stopped p q\<close> have "parse_pattern p = Some (q, Err err)" "stopped p q" by auto
    then show ?thesis using undo [of q] by (simp add: attempt_bind_def wp_def stopped_def)
  qed (use run in simp)
qed

end
