(* ===== verification/Hell_Expr_Inv.thy ===== *)
theory Hell_Expr_Inv
  imports Hell_Pattern_Total
begin

text \<open>
  The expression parser is total.  Every arm of its loop keeps the invariant \<open>steady\<close> -- the
  stack's blocks are the open blocks of the token stream, every identifier on the stack is
  allocated, and the arenas stay within what the tokens pay for -- and makes \<open>weight\<close> smaller.
\<close>

section \<open>The stack of continuations\<close>

text \<open>Continuations inside an implicit block, and inside the braces of a record.\<close>

fun block_item :: "work \<Rightarrow> bool" where
  "block_item (CaseNext _ _ _) = True"
| "block_item (FinishCaseAlternative _ _ _ _) = True"
| "block_item (DoNext _ _) = True"
| "block_item (FinishDoLet _ _ _ _) = True"
| "block_item (FinishDoBind _ _ _) = True"
| "block_item (FinishDoThen _ _) = True"
| "block_item _ = False"

fun brace_item :: "work \<Rightarrow> bool" where
  "brace_item (RecordNext _ _ _) = True"
| "brace_item (FinishRecordField _ _ _ _ _ _) = True"
| "brace_item _ = False"

text \<open>
  \<open>d\<close> blocks and \<open>e\<close> braces are open in front of the stack when \<open>c\<close> and \<open>e0\<close> were open where
  the expression started.
\<close>

fun nested :: "nat \<Rightarrow> nat \<Rightarrow> work list \<Rightarrow> nat \<Rightarrow> nat \<Rightarrow> bool" where
  "nested c e0 [] d e = (d = c \<and> e = e0)"
| "nested c e0 (item # work) d e =
    (if block_item item then e = 0 \<and> 0 < d \<and> nested c e0 work (d - 1) 0
     else if brace_item item then 0 < e \<and> nested c e0 work d (e - 1)
     else nested c e0 work d e)"

lemma nested_base: "nested c e0 work d e \<Longrightarrow> c \<le> d"
  by (induction work arbitrary: d e) (auto split: if_splits, force)

lemma nested_block: "nested c e0 (item # work) d e \<Longrightarrow> block_item item \<Longrightarrow> c < d \<and> e = 0"
  by (auto dest!: nested_base)

text \<open>The identifiers of a continuation, below the sizes of the two arenas.\<close>

fun item_ok :: "nat \<Rightarrow> nat \<Rightarrow> work \<Rightarrow> bool" where
  "item_ok es ts (ResumeExpression l _) = (l < es)"
| "item_ok es ts (FinishApplication f _) = (f < es)"
| "item_ok es ts (FinishOperator l _ _ _) = (l < es)"
| "item_ok es ts (FinishLambda _ ps) = below (concat (map pattern_types ps)) ts"
| "item_ok es ts (AfterIfThen _ c) = (c < es)"
| "item_ok es ts (FinishIf _ c t) = (c < es \<and> t < es)"
| "item_ok es ts (CaseNext _ s as) = (s < es \<and> below (map alt_expression as) es)"
| "item_ok es ts (FinishCaseAlternative _ s as _) = (s < es \<and> below (map alt_expression as) es)"
| "item_ok es ts (DoNext _ ss) =
    (below (concat (map statement_exprs ss)) es \<and> below (concat (map statement_types ss)) ts)"
| "item_ok es ts (FinishDoLet _ ss p _) =
    (below (concat (map statement_exprs ss)) es \<and> below (concat (map statement_types ss)) ts \<and>
     below (pattern_types p) ts)"
| "item_ok es ts (FinishDoBind _ ss p) =
    (below (concat (map statement_exprs ss)) es \<and> below (concat (map statement_types ss)) ts \<and>
     below (pattern_types p) ts)"
| "item_ok es ts (FinishDoThen _ ss) =
    (below (concat (map statement_exprs ss)) es \<and> below (concat (map statement_types ss)) ts)"
| "item_ok es ts (ListAfterElement _ is) = below is es"
| "item_ok es ts (RecordNext _ _ fs) = below (map rf_value fs) es"
| "item_ok es ts (FinishRecordField _ _ fs _ _ _) = below (map rf_value fs) es"
| "item_ok es ts (ContinueParenthesizedTuple _ _ is) = below is es"
| "item_ok es ts _ = True"

lemma item_ok_mono: "item_ok es ts w \<Longrightarrow> es \<le> es' \<Longrightarrow> ts \<le> ts' \<Longrightarrow> item_ok es' ts' w"
  by (cases w) (auto elim: below_mono)

definition items_ok :: "parser \<Rightarrow> work list \<Rightarrow> bool" where
  "items_ok p work \<longleftrightarrow> (\<forall>w \<in> set work. item_ok (length (p_expressions p)) (length (p_types p)) w)"

lemma items_ok_simps [simp]:
  "items_ok p []"
  "items_ok p (w # work) \<longleftrightarrow> item_ok (length (p_expressions p)) (length (p_types p)) w \<and> items_ok p work"
  by (simp_all add: items_ok_def)

lemma items_ok_mono:
  "items_ok p work \<Longrightarrow> length (p_expressions p) \<le> length (p_expressions q) \<Longrightarrow>
    length (p_types p) \<le> length (p_types q) \<Longrightarrow> items_ok q work"
  by (auto simp: items_ok_def intro: item_ok_mono)

text \<open>Continuations that read a token before anything else, and those that do not use \<open>output\<close>.\<close>

fun takes_prefix :: "work \<Rightarrow> bool" where
  "takes_prefix (ParseExpression _) = True"
| "takes_prefix ParsePrefix = True"
| "takes_prefix _ = False"

fun starts_anew :: "work \<Rightarrow> bool" where
  "starts_anew (ParseExpression _) = True"
| "starts_anew ParsePrefix = True"
| "starts_anew (ResumeExpression _ _) = True"
| "starts_anew (CaseNext _ _ _) = True"
| "starts_anew (DoNext _ _) = True"
| "starts_anew (RecordNext _ _ _) = True"
| "starts_anew _ = False"

definition value_ready :: "work list \<Rightarrow> nat option \<Rightarrow> nat \<Rightarrow> bool" where
  "value_ready work out n \<longleftrightarrow>
     (case work of w # _ \<Rightarrow> starts_anew w | [] \<Rightarrow> False) \<or> (\<exists>i. out = Some i \<and> i < n)"

lemma value_ready_simps [simp]:
  "starts_anew w \<Longrightarrow> value_ready (w # work) out n" "i < n \<Longrightarrow> value_ready work (Some i) n"
  by (simp_all add: value_ready_def)

section \<open>The measure and what the tokens pay for\<close>

fun item_weight :: "work \<Rightarrow> nat" where
  "item_weight (ParseExpression _) = 4"
| "item_weight ParsePrefix = 1"
| "item_weight (ResumeExpression _ _) = 1"
| "item_weight (CaseNext _ _ _) = 1"
| "item_weight (DoNext _ _) = 1"
| "item_weight (RecordNext _ _ _) = 1"
| "item_weight _ = 2"

definition bonus :: "work list \<Rightarrow> nat" where
  "bonus work = (case work of [] \<Rightarrow> 1 | w # _ \<Rightarrow> if takes_prefix w then 0 else 1)"

lemma bonus_simps [simp]:
  "bonus [] = 1" "bonus (w # work) = (if takes_prefix w then 0 else 1)"
  by (simp_all add: bonus_def)

lemma bonus_le: "bonus work \<le> 1"
  by (simp add: bonus_def split: list.split)

definition weight :: "work list \<Rightarrow> parser \<Rightarrow> nat" where
  "weight work p = 16 * length (rest p) + 8 * bonus work + sum_list (map item_weight work)"

text \<open>
  The type arena, in terms of the number \<open>n\<close> of tokens: two nodes for each token that is left,
  and for each of them one attempt at a binding pattern, which goes back.
\<close>

definition types_fit :: "nat \<Rightarrow> nat \<Rightarrow> parser \<Rightarrow> bool" where
  "types_fit n b p \<longleftrightarrow> length (rest p) \<le> n \<and>
     length (p_types p) + 2 * length (rest p) + 2 * n * (length (rest p) + b) \<le> 2 * n * (n + 2)"

definition max_source_tokens :: nat where
  "max_source_tokens = 46000"

lemma types_fit_mono: "types_fit n b p \<Longrightarrow> b' \<le> b \<Longrightarrow> types_fit n b' p"
proof -
  assume *: "types_fit n b p" "b' \<le> b"
  then have "2 * n * (length (rest p) + b') \<le> 2 * n * (length (rest p) + b)"
    by (intro mult_left_mono) simp_all
  with * show ?thesis unfolding types_fit_def by linarith
qed

lemma types_fit_step:
  assumes "types_fit n b p" and "length (p_types q) + 2 * length (rest q) \<le> length (p_types p) + 2 * length (rest p)"
    and "length (rest q) + b' \<le> length (rest p) + b" "length (rest q) \<le> length (rest p)"
  shows "types_fit n b' q"
proof -
  have "2 * n * (length (rest q) + b') \<le> 2 * n * (length (rest p) + b)"
    using assms(3) by (intro mult_left_mono) simp_all
  with assms show ?thesis unfolding types_fit_def by linarith
qed

lemma types_fit_attempt:
  assumes "types_fit n 1 p" and "length (p_types q) \<le> length (p_types p) + 2 * length (rest p)"
    and "length (rest q) = length (rest p)"
  shows "types_fit n 0 q"
  using assms by (simp add: types_fit_def)

lemma types_fit_funds:
  assumes "types_fit n b p" and "n \<le> max_source_tokens"
  shows "funds p \<le> u32_max"
proof -
  have "2 * n * (n + 2) \<le> 2 * max_source_tokens * (max_source_tokens + 2)"
    using assms(2) by (intro mult_mono) simp_all
  with assms(1) show ?thesis by (simp add: types_fit_def funds_def max_source_tokens_def u32_max_def)
qed

section \<open>The invariant\<close>

definition steady :: "nat \<Rightarrow> nat \<Rightarrow> nat \<Rightarrow> work list \<Rightarrow> parser \<Rightarrow> bool" where
  "steady c e0 n work p \<longleftrightarrow>
     arenas_ok p \<and> items_ok p work \<and> (\<exists>d e. closes d e (rest p) \<and> nested c e0 work d e) \<and>
     length (p_expressions p) + 3 * weight work p \<le> 48 * n \<and> types_fit n (bonus work) p"

text \<open>After an error the parser can go on.\<close>

definition fault :: "nat \<Rightarrow> parser \<Rightarrow> bool" where
  "fault n p \<longleftrightarrow> arenas_ok p \<and> ends_well (rest p) \<and>
     length (p_expressions p) + 48 * length (rest p) \<le> 48 * n \<and> types_fit n 1 p"

definition finished :: "nat \<Rightarrow> nat \<Rightarrow> nat \<Rightarrow> nat \<Rightarrow> parser \<Rightarrow> bool" where
  "finished c e0 n i p \<longleftrightarrow> arenas_ok p \<and> closes c e0 (rest p) \<and> i < length (p_expressions p) \<and>
     length (p_expressions p) + 48 * length (rest p) \<le> 48 * n \<and> types_fit n 1 p"

definition round_post ::
  "nat \<Rightarrow> nat \<Rightarrow> nat \<Rightarrow> nat \<Rightarrow> expr_state + nat \<Rightarrow> parser \<Rightarrow> bool" where
  "round_post c e0 n m r p = (case r of
     Inl (work, out) \<Rightarrow> steady c e0 n work p \<and> value_ready work out (length (p_expressions p)) \<and> weight work p < m
   | Inr i \<Rightarrow> finished c e0 n i p)"

text \<open>Ways to end a round.\<close>

lemma go_ok:
  assumes "arenas_ok q" "closes d e (rest q)" "nested c e0 work d e" "items_ok q work"
    and "value_ready work out (length (p_expressions q))"
    and "length (p_expressions q) + 3 * m \<le> 48 * n + 3" "weight work q < m" "types_fit n (bonus work) q"
  shows "wp (go work out) (round_post c e0 n m) E q"
  using assms unfolding go_def by (auto simp: wp_eqs round_post_def steady_def)

lemma produce_ok:
  assumes "arenas_ok q" "closes d e (rest q)" "nested c e0 work d e" "items_ok q work"
    and "below (expr_refs x) (length (p_expressions q))" "below (expr_types x) (length (p_types q))"
    and "length (p_expressions q) + 3 * m \<le> 48 * n + 2" "weight work q < m" "types_fit n 1 q"
    and "n \<le> max_source_tokens"
  shows "wp (produce x work) (round_post c e0 n m) E q"
proof -
  let ?q = "q\<lparr>p_expressions := p_expressions q @ [x]\<rparr>"
  have "types_fit n (bonus work) ?q"
    using types_fit_mono [OF assms(9) bonus_le] by (simp add: types_fit_def)
  moreover have "items_ok ?q work" by (rule items_ok_mono [OF assms(4)]) simp_all
  moreover have "length (p_expressions q) \<le> u32_max"
    using assms(7,10) by (simp add: max_source_tokens_def u32_max_def)
  ultimately show ?thesis
    using assms unfolding produce_def
    by (auto simp: wp_eqs arenas_ok_alloc_expr weight_def intro!: go_ok)
qed

end
