(* ===== verification/Hell_Expr_Arms.thy ===== *)
theory Hell_Expr_Arms
  imports Hell_Expr_Inv
begin

text \<open>
  The arms of the expression loop that take a value and go on, or finish a node, keep the
  invariant.
\<close>

section \<open>Starting and leaving an arm\<close>

definition arm_ok :: "work \<Rightarrow> bool" where
  "arm_ok item \<longleftrightarrow> (\<forall>c e0 n work out p. steady c e0 n (item # work) p \<longrightarrow>
     value_ready (item # work) out (length (p_expressions p)) \<longrightarrow> 0 < c \<longrightarrow> n \<le> max_source_tokens \<longrightarrow>
     wp (arm_of item work out) (round_post c e0 n (weight (item # work) p)) (fault n) p)"

text \<open>The facts an arm starts from.\<close>

definition arm_start :: "nat \<Rightarrow> nat \<Rightarrow> nat \<Rightarrow> nat \<Rightarrow> nat \<Rightarrow> work \<Rightarrow> work list \<Rightarrow> parser \<Rightarrow> bool" where
  "arm_start c e0 n d e item work p \<longleftrightarrow> nested c e0 (item # work) d e \<and> items_ok p (item # work) \<and>
     length (p_expressions p) + 3 * weight (item # work) p \<le> 48 * n \<and>
     types_fit n (bonus (item # work)) p \<and> n \<le> max_source_tokens \<and> funds p \<le> u32_max \<and>
     0 < c \<and> 0 < d \<and> ahead d e p p"

lemma arm_okI:
  assumes "\<And>c e0 n d e work out p. arm_start c e0 n d e item work p \<Longrightarrow>
    starts_anew item \<or> (\<exists>i. out = Some i \<and> i < length (p_expressions p)) \<Longrightarrow>
    wp (arm_of item work out) (round_post c e0 n (weight (item # work) p)) (fault n) p"
  shows "arm_ok item"
  unfolding arm_ok_def
proof (intro allI impI)
  fix c e0 n work out p
  assume *: "steady c e0 n (item # work) p" "value_ready (item # work) out (length (p_expressions p))"
    "0 < c" "n \<le> max_source_tokens"
  then obtain d e where "closes d e (rest p)" "nested c e0 (item # work) d e"
    by (auto simp: steady_def)
  with * have "arm_start c e0 n d e item work p"
    using nested_base [of c e0 "item # work" d e] types_fit_funds
    by (fastforce simp: arm_start_def steady_def ahead_refl)
  with * assms show "wp (arm_of item work out) (round_post c e0 n (weight (item # work) p)) (fault n) p"
    by (auto simp: value_ready_def)
qed

lemma go_moved:
  assumes "arm_start c e0 n d0 e1 item work0 p" "ahead d e p q"
    and "length (p_expressions p) + 3 * m \<le> 48 * n"
    and "nested c e0 work d e" "items_ok q work" "value_ready work out (length (p_expressions p))"
    and "length (rest q) + bonus work \<le> length (rest p) + bonus (item # work0)" "weight work q < m"
  shows "wp (go work out) (round_post c e0 n m) E q"
proof -
  from assms(1) have fit: "types_fit n (bonus (item # work0)) p" and n: "n \<le> max_source_tokens"
    by (simp_all add: arm_start_def)
  from assms(2) have kept: "kept p q" and cl: "closes d e (rest q)" and funds: "funds q \<le> funds p"
    and len: "length (rest q) \<le> length (rest p)" by (simp_all add: ahead_def)
  then have q: "arenas_ok q" "p_expressions q = p_expressions p" by (simp_all add: kept_def)
  show ?thesis
    by (rule go_ok [OF q(1) cl assms(4,5) _ _ assms(8)])
      (use assms(3,6,7) q funds len in \<open>simp_all add: types_fit_step [OF fit] funds_def\<close>)
qed

lemma produce_moved:
  assumes "arm_start c e0 n d0 e1 item work0 p" "ahead d e p q"
    and "length (p_expressions p) + 3 * m \<le> 48 * n"
    and "nested c e0 work d e" "items_ok q work"
    and "below (expr_refs x) (length (p_expressions p))" "below (expr_types x) (length (p_types q))"
    and "length (rest q) + 1 \<le> length (rest p) + bonus (item # work0)"
    and "16 * length (rest q) + 8 + sum_list (map item_weight work) < m"
  shows "wp (produce x work) (round_post c e0 n m) E q"
proof -
  from assms(1) have fit: "types_fit n (bonus (item # work0)) p" and n: "n \<le> max_source_tokens"
    by (simp_all add: arm_start_def)
  from assms(2) have kept: "kept p q" and cl: "closes d e (rest q)" and funds: "funds q \<le> funds p"
    and len: "length (rest q) \<le> length (rest p)" by (simp_all add: ahead_def)
  then have q: "arenas_ok q" "p_expressions q = p_expressions p" by (simp_all add: kept_def)
  have "weight work q < m" using assms(9) bonus_le [of work] by (simp add: weight_def)
  with assms(3,6,7,8) q funds len show ?thesis
    by (intro produce_ok [OF q(1) cl assms(4,5) _ _ _ _ _ n])
      (simp_all add: types_fit_step [OF fit] funds_def del: bonus_simps)
qed

lemmas go_ahead = go_moved [where ?d0.0 = d and ?e1.0 = e and d = d and e = e for d e]
lemmas produce_ahead = produce_moved [where ?d0.0 = d and ?e1.0 = e and d = d and e = e for d e]

text \<open>The same after nodes were made.\<close>

lemma go_alloc:
  assumes "arm_start c e0 n d e item work0 p" "ahead d e p q"
    and "length (p_expressions p) + 3 * m \<le> 48 * n"
    and "nested c e0 work d e" "items_ok (q\<lparr>p_expressions := es\<rparr>) work" "value_ready work out (length es)"
    and "length (rest q) + bonus work \<le> length (rest p) + bonus (item # work0)"
    and "16 * length (rest q) + 8 * bonus work + sum_list (map item_weight work) < m"
    and "exprs_below es (length (p_types q))" "length es \<le> length (p_expressions p) + 3"
  shows "wp (go work out) (round_post c e0 n m) E (q\<lparr>p_expressions := es\<rparr>)"
proof -
  from assms(1) have fit: "types_fit n (bonus (item # work0)) p" by (simp add: arm_start_def)
  from assms(2) have "types_below (p_types q)" and cl: "closes d e (rest q)" and funds: "funds q \<le> funds p"
    and len: "length (rest q) \<le> length (rest p)" by (simp_all add: ahead_def kept_def arenas_ok_def)
  with assms(9) have "arenas_ok (q\<lparr>p_expressions := es\<rparr>)" by (simp add: arenas_ok_def)
  then show ?thesis
    by (rule go_ok [OF _ _ assms(4,5)])
      (use assms(3,6,7,8,10) cl funds len in \<open>simp_all add: weight_def types_fit_step [OF fit] funds_def\<close>)
qed

lemma items_ok_alloc [simp]:
  "items_ok q work \<Longrightarrow> length (p_expressions q) \<le> length es \<Longrightarrow> items_ok (q\<lparr>p_expressions := es\<rparr>) work"
  by (erule items_ok_mono) simp_all

lemma exprs_below_three:
  "exprs_below (es @ [a, b, c]) n \<longleftrightarrow> exprs_below (es @ [a]) n \<and>
    below (expr_refs b) (length es + 1) \<and> below (expr_types b) n \<and>
    below (expr_refs c) (length es + 2) \<and> below (expr_types c) n"
  using exprs_below_snoc [of "es @ [a, b]" c n] exprs_below_snoc [of "es @ [a]" b n] by simp

lemma exprs_below_ahead: "ahead d e p q \<Longrightarrow> exprs_below (p_expressions p) (length (p_types q))"
  by (auto simp: ahead_def kept_def arenas_ok_def)

lemma fault_stopped:
  assumes "stopped p q" "types_fit n 1 p" "length (p_expressions p) + 48 * length (rest p) \<le> 48 * n"
  shows "fault n q"
  using assms types_fit_step [OF assms(2), of q 1] by (auto simp: fault_def stopped_def kept_def funds_def)

lemma items_ok_ahead: "ahead d e p q \<Longrightarrow> items_ok p work \<Longrightarrow> items_ok q work"
  by (rule items_ok_mono) (auto simp: ahead_def kept_def)

lemma wp_routine_arm:
  assumes "routine m R" "ahead d e p q" "0 < d" "funds p \<le> u32_max"
    and "\<And>x p'. ahead d e p p' \<Longrightarrow> R x p' \<Longrightarrow> length (rest p') < length (rest p) \<Longrightarrow>
      p_expressions p' = p_expressions p \<Longrightarrow> length (p_types p) \<le> length (p_types p') \<Longrightarrow>
      items_ok p' work \<Longrightarrow> Q x p'"
    and "\<And>p'. stopped p p' \<Longrightarrow> E p'" and "items_ok p work"
  shows "wp m Q E q"
  by (rule wp_routine [OF assms(1-4)])
    (use assms(5-7) items_ok_ahead in \<open>auto simp: advanced_def kept_def\<close>)

text \<open>At the start of an arm that is not about to read a prefix.\<close>

lemma arm_start_facts:
  assumes "arm_start c e0 n d e item work p" and "\<not> takes_prefix item"
  shows "nested c e0 (item # work) d e" and "items_ok p (item # work)"
    and "length (p_expressions p) + 3 * weight (item # work) p \<le> 48 * n" "types_fit n 1 p"
    and "n \<le> max_source_tokens" "funds p \<le> u32_max" "0 < d" "ahead d e p p"
    and "bonus work \<le> 1" and "length (p_expressions p) + 3 \<le> u32_max"
    and "exprs_below (p_expressions p) (length (p_types p))" and "stopped p q \<Longrightarrow> fault n q"
  using assms bonus_le
  by (auto simp: arm_start_def weight_def max_source_tokens_def u32_max_def intro: fault_stopped exprs_below_ahead)


lemma items_ok_adv [simp]: "items_ok (adv p) work = items_ok p work"
  by (simp add: items_ok_def)

lemmas arm_simps = etaken_def weight_def wp_eqs

lemma after_prefix_ok: "arm_ok (AfterPrefix minimum)"
proof (rule arm_okI, goal_cases)
  case (1 c e0 n d e work out p)
  with arm_start_facts [OF 1(1)] show ?case
    by (auto simp: after_prefix_def arm_simps intro!: go_ahead [OF 1(1)])
qed

lemma finish_lambda_ok: "arm_ok (FinishLambda start parameters)"
proof (rule arm_okI, goal_cases)
  case (1 c e0 n d e work out p)
  with arm_start_facts [OF 1(1)] show ?case
    by (auto simp: finish_lambda_def arm_simps intro!: produce_ahead [OF 1(1)])
qed

lemma after_if_condition_ok: "arm_ok (AfterIfCondition start)"
proof (rule arm_okI, goal_cases)
  case (1 c e0 n d e work out p)
  with arm_start_facts [OF 1(1)] show ?case
    by (auto simp: after_if_condition_def arm_simps intro!: go_ahead [OF 1(1)] ahead_case)
qed

lemma after_if_then_ok: "arm_ok (AfterIfThen start condition)"
proof (rule arm_okI, goal_cases)
  case (1 c e0 n d e work out p)
  with arm_start_facts [OF 1(1)] show ?case
    by (auto simp: after_if_then_def arm_simps intro!: go_ahead [OF 1(1)] ahead_case)
qed

lemma finish_if_ok: "arm_ok (FinishIf start condition then_branch)"
proof (rule arm_okI, goal_cases)
  case (1 c e0 n d e work out p)
  with arm_start_facts [OF 1(1)] show ?case
    by (auto simp: finish_if_def arm_simps intro!: produce_ahead [OF 1(1)])
qed

lemma finish_application_ok: "arm_ok (FinishApplication function minimum)"
proof (rule arm_okI, goal_cases)
  case (1 c e0 n d e work out p)
  with arm_start_facts [OF 1(1)] show ?case
    by (auto simp: finish_application_def joined_exprs_def arm_simps
        intro!: go_alloc [OF 1(1)])
qed

lemma finish_operator_ok: "arm_ok (FinishOperator left operator sp minimum)"
proof (rule arm_okI, goal_cases)
  case (1 c e0 n d e work out p)
  with arm_start_facts [OF 1(1)] show ?case
    by (auto simp: finish_operator_def joined_exprs_def arm_simps nth_append exprs_below_three
        intro!: go_alloc [OF 1(1)])
qed

lemma finish_case_alternative_ok: "arm_ok (FinishCaseAlternative start scrutinee alternatives pattern)"
proof (rule arm_okI, goal_cases)
  case (1 c e0 n d e work out p)
  with arm_start_facts [OF 1(1)] show ?case
    by (auto simp: finish_case_alternative_def arm_simps intro!: go_ahead [OF 1(1)])
qed

lemma finish_do_let_ok: "arm_ok (FinishDoLet start statements pattern sp)"
proof (rule arm_okI, goal_cases)
  case (1 c e0 n d e work out p)
  with arm_start_facts [OF 1(1)] show ?case
    by (auto simp: finish_do_let_def arm_simps intro!: go_ahead [OF 1(1)])
qed

lemma finish_do_bind_ok: "arm_ok (FinishDoBind start statements pattern)"
proof (rule arm_okI, goal_cases)
  case (1 c e0 n d e work out p)
  with arm_start_facts [OF 1(1)] show ?case
    by (auto simp: finish_do_bind_def arm_simps intro!: go_ahead [OF 1(1)])
qed

lemma finish_do_then_ok: "arm_ok (FinishDoThen start statements)"
proof (rule arm_okI, goal_cases)
  case (1 c e0 n d e work out p)
  with arm_start_facts [OF 1(1)] show ?case
    by (auto simp: finish_do_then_def arm_simps intro!: go_ahead [OF 1(1)])
qed

lemma list_after_element_ok: "arm_ok (ListAfterElement start elements)"
proof (rule arm_okI, goal_cases)
  case (1 c e0 n d e work out p)
  with arm_start_facts [OF 1(1)] show ?case
    by (auto simp: list_after_element_def Let_def arm_simps
        intro!: go_ahead [OF 1(1)] produce_ahead [OF 1(1)] ahead_case split: if_splits)
qed

lemma finish_parenthesized_ok: "arm_ok (FinishParenthesized start remaining)"
proof (rule arm_okI, goal_cases)
  case (1 c e0 n d e work out p)
  with arm_start_facts [OF 1(1)] show ?case
    by (auto simp: finish_parenthesized_def leave_parenthesis_def arm_simps
        intro!: go_ahead [OF 1(1)] produce_ahead [OF 1(1)] ahead_case split: if_splits)
qed

lemma leave_parenthesis_alloc:
  assumes "arm_start c e0 n d e item work p" "\<not> takes_prefix item" "ahead d e p q" "nested c e0 work d e"
    and "exprs_below es (length (p_types q))" "length (p_expressions q) \<le> length es" "i < length es"
    and "length es \<le> length (p_expressions p) + 1"
    and "length (rest q) < length (rest p)"
  shows "wp (leave_parenthesis i remaining work) (round_post c e0 n (weight (item # work) p)) E
    (q\<lparr>p_expressions := es\<rparr>)"
  using assms arm_start_facts [OF assms(1,2)] items_ok_ahead [OF assms(3), of work]
  by (auto simp: leave_parenthesis_def arm_simps intro!: go_alloc [OF assms(1,3)])

lemma continue_parenthesized_tuple_ok: "arm_ok (ContinueParenthesizedTuple start remaining elements)"
proof (rule arm_okI, goal_cases)
  case (1 c e0 n d e work out p)
  with arm_start_facts [OF 1(1)] show ?case
    by (auto simp: continue_parenthesized_tuple_def Let_def etaken_def wp_eqs
        intro!: go_ahead [OF 1(1)] leave_parenthesis_alloc [OF 1(1)] ahead_case split: if_splits)
      (auto simp: weight_def)
qed


lemma type_argument_ok: "routine type_argument type_known"
proof (rule routineI, goal_cases)
  case (1 p d e)
  have space: "length (p_types p) \<le> u32_max" using 1 by (simp add: funds_def)
  obtain t t' ts where *: "rest p = t # t' # ts" "stopped p p" "stopped p (adv p)"
      "plain (tk_kind t) \<longrightarrow> ahead d e p (adv p) \<and> advanced d e p (adv p)"
    by (rule ahead_step [OF 1(1,2)])
  show ?case
  proof (cases "\<exists>v. tk_kind t = TkText v")
    case True
    then obtain v where v: "tk_kind t = TkText v" by blast
    with * have "advanced d e p (adv p)" by (simp add:)
    then have "advanced d e p (adv p\<lparr>p_types := p_types p @ [TyPromoted v (tk_span t)]\<rparr>)"
      using * by (auto simp: advanced_def kept_def funds_def arenas_ok_def elim!: exprs_below_mono)
    with v * space show ?thesis by (simp add: type_argument_def wp_eqs type_known_def)
  next
    case False
    then have "type_argument p = parse_type_atom p"
      using * by (cases "tk_kind t") (simp_all add: type_argument_def current_kind_def pbind_def p_current_def vget_rest preturn_def)
    moreover have "wp parse_type_atom (\<lambda>x p'. advanced d e p p' \<and> type_known x p') (stopped p) p"
      using parse_type_atom_ok 1 by (auto simp: routine_def ahead_def kept_def)
    ultimately show ?thesis by (simp add: wp_def)
  qed
qed

end
