(* ===== verification/Hell_Expr_Blocks.thy ===== *)
theory Hell_Expr_Blocks
  imports Hell_Expr_Arms
begin

text \<open>
  The arms that call other routines or open and close blocks keep the invariant of the
  expression loop.
\<close>

section \<open>Going on after a value\<close>

lemma arm_step:
  assumes "arm_start c e0 n d e item work p"
  obtains t t' ts where "rest p = t # t' # ts" "stopped p p" "stopped p (adv p)"
    "plain (tk_kind t) \<longrightarrow> ahead d e p (adv p) \<and> advanced d e p (adv p)"
  using assms by (auto simp: arm_start_def elim: ahead_step)

lemma arm_fault:
  assumes "arm_start c e0 n d e item work p" and "\<not> takes_prefix item"
  shows "fault n p"
proof -
  note facts = arm_start_facts [OF assms]
  show ?thesis by (rule ahead_step [OF facts(8,7)]) (rule facts(12))
qed

lemma resume_name_ok:
  assumes start: "arm_start c e0 n d e (ResumeExpression left minimum) work p"
  shows "wp (resume_name left minimum work out)
    (round_post c e0 n (weight (ResumeExpression left minimum # work) p)) (fault n) p"
  using arm_start_facts [OF start]
  by (auto simp: resume_name_def Let_def arm_simps type_known_def
      intro!: ahead_case wp_routine_arm [OF parse_type_ok, where p = p and d = d and e = e and work = work]
        go_ahead [OF start] produce_ahead [OF start] split: if_splits)

lemma resume_operator_ok:
  assumes start: "arm_start c e0 n d e (ResumeExpression left minimum) work p"
    and "rest p = t # ts" "tk_kind t = TkOperator operator" "ahead d e p (adv p)"
  shows "wp (resume_operator left operator minimum work out)
    (round_post c e0 n (weight (ResumeExpression left minimum # work) p)) (fault n) p"
  using arm_start_facts [OF start] assms(2-4) arm_fault [OF start]
  by (auto simp: resume_operator_def arm_simps
      intro!: go_ahead [OF start] split: option.splits)

lemma resume_type_application_ok:
  assumes start: "arm_start c e0 n d e (ResumeExpression left minimum) work p"
    and "ahead d e p q" "length (rest q) < length (rest p)"
  shows "wp (pbind type_argument (\<lambda>ty. pbind (span_of_expr left) (\<lambda>a. pbind (span_of_type ty) (\<lambda>b.
      pbind (alloc_expr (ETypeApply left ty (span_join a b))) (\<lambda>i.
        go (ResumeExpression i minimum # work) out)))))
    (round_post c e0 n (weight (ResumeExpression left minimum # work) p)) (fault n) q"
  using arm_start_facts [OF start] assms(2,3) exprs_below_ahead
  by (auto simp: arm_simps type_known_def
      intro!: wp_routine_arm [OF type_argument_ok, where p = p and d = d and e = e and work = work]
        go_alloc [OF start])

lemma resume_expression_ok: "arm_ok (ResumeExpression left minimum)"
proof (rule arm_okI, goal_cases)
  case (1 c e0 n d e work out p)
  note start = 1(1)
  note facts = arm_start_facts [OF start, simplified]
  obtain t t' ts where *: "rest p = t # t' # ts"
      "plain (tk_kind t) \<longrightarrow> ahead d e p (adv p) \<and> advanced d e p (adv p)"
    by (rule arm_step [OF start])
  consider "tk_kind t = TkAt" | "starts_expression_atom (tk_kind t)"
    | operator where "tk_kind t = TkOperator operator"
    | "tk_kind t \<noteq> TkAt" "\<not> starts_expression_atom (tk_kind t)" "\<And>operator. tk_kind t \<noteq> TkOperator operator"
    by blast
  then show ?case
  proof cases
    case 1
    then have "wp (resume_expression left minimum work out) Q E p =
        wp (pbind type_argument (\<lambda>ty. pbind (span_of_expr left) (\<lambda>a. pbind (span_of_type ty) (\<lambda>b.
          pbind (alloc_expr (ETypeApply left ty (span_join a b))) (\<lambda>i.
            go (ResumeExpression i minimum # work) out))))) Q E (adv p)" for Q E
      using * by (simp add: resume_expression_def wp_pbind wp_eat)
    with 1 * show ?thesis by (auto intro!: resume_type_application_ok [OF start])
  next
    case 2
    then have "wp (resume_expression left minimum work out) Q E p =
        wp (go (ParsePrefix # FinishApplication left minimum # work) out) Q E p" for Q E
      using * by (auto simp: resume_expression_def wp_eqs starts_expression_atom_def)
    with facts show ?thesis by (auto simp: weight_def intro!: go_ahead [OF start])
  next
    case 3
    then have "wp (resume_expression left minimum work out) Q E p =
        wp (resume_operator left operator minimum work out) Q E p" for Q E
      using * by (simp add: resume_expression_def wp_eqs starts_expression_atom_def)
    with 3 * show ?thesis by (simp add: resume_operator_ok [OF start])
  next
    case 4
    then have "wp (resume_expression left minimum work out) Q E p = wp (resume_name left minimum work out) Q E p" for Q E
      using * 4(3) by (cases "tk_kind t") (auto simp: resume_expression_def wp_eqs)
    with 4 * show ?thesis by (simp add: resume_name_ok [OF start])
  qed
qed

section \<open>Blocks and braces\<close>

lemma ahead_plain:
  "ahead d e p0 q \<Longrightarrow> rest q \<noteq> [] \<Longrightarrow> plain (tk_kind (hd (rest q))) \<Longrightarrow> ahead d e p0 (adv q)"
  by (cases "rest q") (auto simp: ahead_def kept_adv funds_def dest: closes_plain)

lemma ahead_rbrace:
  "ahead d e p0 p \<Longrightarrow> rest p = t # ts \<Longrightarrow> tk_kind t = TkRBrace \<Longrightarrow> ahead d (e - 1) p0 (adv p) \<and> 0 < e"
  by (auto simp: ahead_def kept_adv funds_def closes.simps(2))

lemma ahead_lbrace:
  "ahead d e p0 p \<Longrightarrow> rest p = t # ts \<Longrightarrow> tk_kind t = TkLBrace \<Longrightarrow> ahead d (e + 1) p0 (adv p)"
  by (auto simp: ahead_def kept_adv funds_def closes.simps(2))

lemma ahead_open:
  "ahead d e p0 p \<Longrightarrow> rest p = t # ts \<Longrightarrow> tk_kind t = TkVirtualLBrace \<Longrightarrow> ahead (d + 1) 0 p0 (adv p) \<and> e = 0"
  by (auto simp: ahead_def kept_adv funds_def closes.simps(2))

lemma ahead_close:
  "ahead d e p0 p \<Longrightarrow> rest p = t # ts \<Longrightarrow> tk_kind t = TkVirtualRBrace \<Longrightarrow> ahead (d - 1) 0 p0 (adv p) \<and> e = 0"
  by (auto simp: ahead_def kept_adv funds_def closes.simps(2))

lemma record_next_ok: "arm_ok (RecordNext constructor start flds)"
proof (rule arm_okI, goal_cases)
  case (1 c e0 n d e work out p)
  note facts = arm_start_facts [OF 1(1), simplified]
  obtain t t' ts where *: "rest p = t # t' # ts" "stopped p (adv p)"
      "plain (tk_kind t) \<longrightarrow> ahead d e p (adv p) \<and> advanced d e p (adv p)"
    by (rule arm_step [OF 1(1)])
  show ?case
  proof (cases "tk_kind t = TkRBrace")
    case True
    with ahead_rbrace [OF facts(8) *(1)] have "ahead d (e - 1) p (adv p)" by simp
    with True * facts show ?thesis
      by (auto simp: record_next_def arm_simps intro!: produce_moved [OF 1(1), where d = d and e = "e - 1"])
  next
    case False
    with * facts show ?thesis
      by (cases "tk_kind t") (auto simp: record_next_def Let_def arm_simps
          intro!: go_ahead [OF 1(1)] produce_ahead [OF 1(1)] ahead_plain split: if_splits)
  qed
qed

lemma finish_record_field_ok: "arm_ok (FinishRecordField constructor start flds name field_span pun)"
proof (rule arm_okI, goal_cases)
  case (1 c e0 n d e work out p)
  note facts = arm_start_facts [OF 1(1), simplified]
  obtain t t' ts where *: "rest p = t # t' # ts" "stopped p (adv p)"
      "plain (tk_kind t) \<longrightarrow> ahead d e p (adv p) \<and> advanced d e p (adv p)"
    by (rule arm_step [OF 1(1)])
  have "ahead d (e - 1) p (adv p)" if "tk_kind t = TkRBrace"
    using ahead_rbrace [OF facts(8) *(1)] that by simp
  with * facts 1(2) show ?case
    by (auto simp: finish_record_field_def Let_def arm_simps
        intro!: go_ahead [OF 1(1)] produce_moved [OF 1(1), where d = d and e = "e - 1"] split: if_splits)
qed

text \<open>The end of a block, its virtual brace or a parenthesis that stands for it.\<close>

lemma wp_discard:
  assumes "rest p = t # ts"
    and "\<And>q. rest q = t # without_close ts \<Longrightarrow> p_types q = p_types p \<Longrightarrow> p_expressions q = p_expressions p \<Longrightarrow> Q () q"
  shows "wp discard_deferred_layout_close Q E p"
proof -
  have "drop (p_at p) (p_tokens p) \<noteq> []" using assms(1) by (simp add: rest_def)
  then have at: "p_at p < length (p_tokens p)" by simp
  have ts: "drop (Suc (p_at p)) (p_tokens p) = ts" "p_tokens p ! p_at p = t"
    using assms(1) at by (simp_all add: rest_def Cons_nth_drop_Suc [symmetric])
  have "rest (p\<lparr>p_tokens := take (Suc (p_at p)) (p_tokens p) @ without_close ts\<rparr>) = t # without_close ts"
    using at ts by (simp add: rest_def take_Suc_conv_app_nth)
  then show ?thesis
    using at ts assms(2) [of "p\<lparr>p_tokens := take (Suc (p_at p)) (p_tokens p) @ without_close ts\<rparr>"]
    by (simp add: wp_def discard_deferred_layout_close_def without_close_def Let_def)
qed

definition ended :: "nat \<Rightarrow> parser \<Rightarrow> parser \<Rightarrow> bool" where
  "ended d p q \<longleftrightarrow> arenas_ok q \<and> closes (d - 1) 0 (rest q) \<and> p_types q = p_types p \<and>
     p_expressions q = p_expressions p \<and> length (rest q) < length (rest p)"

lemma block_end_ok:
  assumes "ahead d 0 p q" "p_types q = p_types p" "1 < d" "rest q = t # ts" "closes_block (tk_kind t)"
    and "\<And>sp q'. ended d p q' \<Longrightarrow> Q sp q'"
  shows "wp block_end Q E q"
proof -
  have cl: "closes d 0 (t # ts)" and arenas: "arenas_ok q" and len: "length (rest q) \<le> length (rest p)"
    and exprs: "p_expressions q = p_expressions p"
    using assms(1,4) by (auto simp: ahead_def kept_def)
  from assms(5) cl consider "tk_kind t = TkVirtualRBrace" | "tk_kind t = TkRParen"
    by (auto simp: closes_block_def closes.simps(2))
  then show ?thesis
  proof cases
    case 1
    with cl assms(4) len arenas exprs assms(2) have "ended d p (adv q)"
      by (simp add: ended_def closes.simps(2))
    with 1 assms(4,6) show ?thesis by (simp add: block_end_def wp_eqs)
  next
    case 2
    with cl closes_without_close [of "d - 1" 0 ts] assms(3)
    have "closes (d - 1) 0 (t # without_close ts)" "length (t # without_close ts) < length (t # ts)"
      by (auto simp: closes.simps(2))
    then have "ended d p q'" if "rest q' = t # without_close ts" "p_types q' = p_types q"
      "p_expressions q' = p_expressions q" for q'
      using that arenas exprs len assms(2,4) by (auto simp: ended_def arenas_ok_def)
    with 2 assms(4,6) show ?thesis
      by (auto simp: block_end_def wp_eqs intro!: wp_discard)
  qed
qed

lemma ended_fault:
  assumes "arm_start c e0 n d e item work p" "\<not> takes_prefix item" "ended d p q"
  shows "fault n q"
  using assms(3) arm_start_facts(3,4) [OF assms(1,2)] assms(2)
  by (auto simp: ended_def fault_def weight_def intro: closes_ends_well types_fit_step)

lemma ended_produce:
  assumes "arm_start c e0 n d e item work p" "\<not> takes_prefix item" "block_item item" "ended d p q"
    and "below (expr_refs x) (length (p_expressions p))" "below (expr_types x) (length (p_types p))"
  shows "wp (produce x work) (round_post c e0 n (weight (item # work) p)) E q"
proof -
  note facts = arm_start_facts [OF assms(1,2)]
  have "items_ok q work" using facts(2) assms(4) by (simp add: items_ok_def ended_def)
  moreover have "weight work q < weight (item # work) p"
    using assms(2,4) bonus_le [of work] by (simp add: weight_def ended_def)
  moreover have "types_fit n 1 q" using assms(4) by (auto simp: ended_def intro: types_fit_step [OF facts(4)])
  ultimately show ?thesis
    using facts assms(3-6)
    by (intro produce_ok [where d = "d - 1" and e = 0]) (simp_all add: ended_def)
qed

lemma case_next_ok: "arm_ok (CaseNext start scrutinee alternatives)"
proof (rule arm_okI, goal_cases)
  case (1 c e0 n d e work out p)
  note arm = 1(1)
  note facts = arm_start_facts [OF arm, simplified]
  from facts(1) nested_base [of c e0 work "d - 1" 0] arm
  have block: "e = 0" "1 < d" by (auto simp: arm_start_def)
  show ?case
    unfolding arm_of.simps case_next_def wp_pbind
  proof (rule skip_semicolons_ok [OF facts(8,7)])
    fix q assume q: "ahead d e p q" "length (rest q) \<le> length (rest p)" "p_types q = p_types p"
    obtain t t' ts where *: "rest q = t # t' # ts" "stopped p q" "stopped p (adv q)"
        "plain (tk_kind t) \<longrightarrow> ahead d e p (adv q) \<and> advanced d e p (adv q)"
      by (rule ahead_step [OF q(1) facts(7)])
    show "wp current_kind (\<lambda>x. wp (if closes_block x then
        pbind block_end (\<lambda>e.
          if alternatives = [] then pfail (parse_error ''empty case block'' (span_join start e))
          else produce (ECase scrutinee alternatives (span_join start e)) work)
      else if x = TkEof then fail_expected ''end of case block''
      else pbind parse_case_pattern (\<lambda>pattern.
        pbind (require (\<lambda>k. k = TkArrow) ''`->` in case alternative'') (\<lambda>_.
          go (ParseExpression 0 # FinishCaseAlternative start scrutinee alternatives pattern # work) out)))
      (round_post c e0 n (weight (CaseNext start scrutinee alternatives # work) p)) (fault n)) (fault n) q"
    proof (cases "closes_block (tk_kind t)")
      case True
      with * q block facts show ?thesis
        by (auto simp: wp_eqs intro!: block_end_ok [where p = p and d = d]
            ended_produce [OF arm] ended_fault [OF arm])
    next
      case False
      have "tk_kind t \<noteq> TkEof" using q(1) *(1) facts(7) by (auto simp: ahead_def dest: closes_Eof)
      with False *(1,2) q block(1) facts show ?thesis
        by (auto simp: arm_simps
            intro!: wp_routine_arm [OF parse_case_pattern_ok, where p = p and d = d and e = e and work = work]
              ahead_case go_ahead [OF arm] split: if_splits)
    qed
  qed
qed

lemma do_statement_start_ok:
  assumes arm: "arm_start c e0 n d e (DoNext start statements) work p"
    and q: "ahead d e p q" "length (rest q) \<le> length (rest p)" "p_types q = p_types p"
  shows "wp (do_statement_start start statements work out)
    (round_post c e0 n (weight (DoNext start statements # work) p)) (fault n) q"
proof -
  note facts = arm_start_facts [OF arm, simplified]
  have block: "e = 0" "nested c e0 work (d - 1) 0" using facts(1) by auto
  have items: "items_ok p (DoNext start statements # work)" using arm by (simp add: arm_start_def)
  obtain t t' ts where *: "rest q = t # t' # ts"
      "plain (tk_kind t) \<longrightarrow> ahead d e p (adv q) \<and> advanced d e p (adv q)"
    by (rule ahead_step [OF q(1) facts(7)])
  show ?thesis
  proof (cases "tk_kind t = TkKwLet")
    case True
    with *(1) q block facts have "ahead d e p (adv q)" using *(2) by simp
    with True *(1) block facts show ?thesis
      by (auto simp: do_statement_start_def arm_simps pattern_known_def
          intro!: wp_routine_arm [OF parse_pattern_ok, where p = p and d = d and e = e
              and work = "DoNext start statements # work"]
            ahead_case go_ahead [OF arm] split: if_splits)
  next
    case False
    have fit: "types_fit n 1 q"
      by (rule types_fit_step [OF facts(4)]) (use q in simp_all)
    have attempt: "wp attempt_bind (\<lambda>bound. wp (case bound of
          Some pattern \<Rightarrow> go (ParseExpression 0 # FinishDoBind start statements pattern # work) out
        | None \<Rightarrow> go (ParseExpression 0 # FinishDoThen start statements # work) out)
      (round_post c e0 n (weight (DoNext start statements # work) p)) (fault n)) (fault n) q"
    proof (rule attempt_bind_ok)
      show "ahead d e q q" using q(1) by (intro ahead_refl) (simp_all add: ahead_def kept_def)
      show "0 < d" "funds q \<le> u32_max" using facts(6,7) q(1) by (auto simp: ahead_def)
    next
      fix pattern p'
      assume "advanced d e q p'" "pattern_known pattern p'"
      with ahead_advanced [OF q(1)] have p': "ahead d e p p'" "length (rest p') < length (rest p)"
        by (auto simp: advanced_def)
      show "wp (case Some pattern of
          Some pattern \<Rightarrow> go (ParseExpression 0 # FinishDoBind start statements pattern # work) out
        | None \<Rightarrow> go (ParseExpression 0 # FinishDoThen start statements # work) out)
      (round_post c e0 n (weight (DoNext start statements # work) p)) (fault n) p'"
        using p' block facts items_ok_ahead [OF p'(1) items] \<open>pattern_known pattern p'\<close>
        by (auto simp: arm_simps pattern_known_def intro!: go_ahead [OF arm])
    next
      fix p' assume p': "kept q p'" "p_at p' = p_at q"
        "length (p_types p') \<le> length (p_types q) + 2 * length (rest q)"
      have rest: "rest p' = rest q" using p' by (simp add: rest_def kept_def)
      have "types_fit n 0 p'" by (rule types_fit_attempt [OF fit p'(3)]) (simp add: rest)
      moreover have "p_expressions p' = p_expressions p" "length (p_types p) \<le> length (p_types p')"
        "arenas_ok p'" "closes d e (rest p')"
        using p'(1) q rest by (auto simp: kept_def ahead_def)
      moreover have "items_ok p' (DoNext start statements # work)"
        by (rule items_ok_mono [OF items]) (use calculation in simp_all)
      ultimately show "wp (case None of
          Some pattern \<Rightarrow> go (ParseExpression 0 # FinishDoBind start statements pattern # work) out
        | None \<Rightarrow> go (ParseExpression 0 # FinishDoThen start statements # work) out)
      (round_post c e0 n (weight (DoNext start statements # work) p)) (fault n) p'"
        using q(2) rest block facts
        by (auto simp: weight_def intro!: go_ok [where d = d and e = e])
    qed
    with False *(1) show ?thesis by (simp add: do_statement_start_def wp_pbind wp_eat)
  qed
qed

lemma do_end_ok:
  assumes arm: "arm_start c e0 n d e (DoNext start statements) work p"
    and q: "ahead d e p q" "p_types q = p_types p" "rest q = t # ts" "closes_block (tk_kind t)"
  shows "wp (do_end start statements work)
    (round_post c e0 n (weight (DoNext start statements # work) p)) (fault n) q"
proof -
  note facts = arm_start_facts [OF arm, simplified]
  from facts(1) nested_base [of c e0 work "d - 1" 0] arm
  have block: "e = 0" "1 < d" by (auto simp: arm_start_def)
  show ?thesis
    unfolding do_end_def wp_pbind
  proof (rule block_end_ok [where p = p and d = d])
    fix sp q' assume "ended d p q'"
    then show "wp (if statements = [] then pfail (parse_error ''empty do block'' (span_join start sp))
       else if \<not> is_then (last statements)
       then pfail (parse_error ''the final do statement must be an expression'' (span_join start sp))
       else produce (EDo statements (span_join start sp)) work)
     (round_post c e0 n (weight (DoNext start statements # work) p)) (fault n) q'"
      using facts(2) ended_fault [OF arm] ended_produce [OF arm] by (auto simp: wp_eqs)
  qed (use q block in simp_all)
qed

lemma do_next_ok: "arm_ok (DoNext start statements)"
proof (rule arm_okI, goal_cases)
  case (1 c e0 n d e work out p)
  note arm = 1(1)
  note facts = arm_start_facts [OF arm, simplified]
  show ?case
    unfolding arm_of.simps do_next_def wp_pbind
  proof (rule skip_semicolons_ok [OF facts(8,7)])
    fix q assume q: "ahead d e p q" "length (rest q) \<le> length (rest p)" "p_types q = p_types p"
    obtain t t' ts where *: "rest q = t # t' # ts" by (rule ahead_step [OF q(1) facts(7)])
    have "tk_kind t \<noteq> TkEof" using q(1) *(1) facts(7) by (auto simp: ahead_def dest: closes_Eof)
    with * q show "wp current_kind (\<lambda>x. wp (if closes_block x then do_end start statements work
        else if x = TkEof then fail_expected ''end of do block''
        else do_statement_start start statements work out)
      (round_post c e0 n (weight (DoNext start statements # work) p)) (fault n)) (fault n) q"
      by (auto simp: wp_eqs intro!: do_end_ok [OF arm] do_statement_start_ok [OF arm])
  qed
qed

lemma after_case_scrutinee_ok: "arm_ok (AfterCaseScrutinee start)"
proof (rule arm_okI, goal_cases)
  case (1 c e0 n d e work out p)
  note arm = 1(1)
  note facts = arm_start_facts [OF arm, simplified]
  obtain i where i: "out = Some i" "i < length (p_expressions p)" using 1(2) by auto
  obtain t t' ts where *: "rest p = t # t' # ts"
      "plain (tk_kind t) \<longrightarrow> ahead d e p (adv p) \<and> advanced d e p (adv p)"
    by (rule arm_step [OF arm])
  show ?case
  proof (cases "tk_kind t = TkKwOf")
    case True
    then have a: "ahead d e p (adv p)" using *(2) by simp
    have open_: "tk_kind t' = TkVirtualLBrace"
      using facts(8) *(1) True by (auto simp: ahead_def closes.simps(2))
    with ahead_open [OF a, of t' ts] *(1) have "ahead (d + 1) 0 p (adv (adv p))" "e = 0" by simp_all
    with True open_ * i facts show ?thesis
      by (auto simp: after_case_scrutinee_def arm_simps
          intro!: go_moved [OF arm, where d = "d + 1" and e = 0])
  next
    case False
    with * i facts arm_fault [OF arm] show ?thesis by (auto simp: after_case_scrutinee_def arm_simps)
  qed
qed

end
