(* ===== verification/Hell_Expr_Total.thy ===== *)
theory Hell_Expr_Total
  imports Hell_Expr_Blocks
begin

text \<open>
  The arms that read a prefix, and the loop of the expression parser as a whole: it is total.
\<close>

section \<open>Before a prefix\<close>

lemma parse_expression_arm_ok: "arm_ok (ParseExpression minimum)"
proof (rule arm_okI, goal_cases)
  case (1 c e0 n d e work out p)
  then show ?case
    by (auto simp: arm_start_def weight_def intro!: go_ahead [OF 1(1)])
qed

lemma prefix_fault:
  assumes "arm_start c e0 n d e ParsePrefix work p" and "stopped p q" and "length (rest q) < length (rest p)"
  shows "fault n q"
proof -
  from assms(1) have *: "types_fit n 0 p" "length (p_expressions p) + 3 * weight (ParsePrefix # work) p \<le> 48 * n"
    by (simp_all add: arm_start_def)
  from assms(2,3) have "types_fit n 1 q"
    by (intro types_fit_step [OF *(1)]) (auto simp: stopped_def funds_def)
  with assms(2,3) *(2) show ?thesis by (auto simp: fault_def stopped_def kept_def weight_def)
qed

lemma ahead_trans: "ahead d e p q \<Longrightarrow> ahead d' e' q r \<Longrightarrow> ahead d' e' p r"
  by (auto simp: ahead_def intro: kept_trans)

lemma ahead_self: "ahead d e p q \<Longrightarrow> ahead d e q q"
  by (auto simp: ahead_def kept_def intro: kept_refl)

lemma prefix_fault_ahead:
  assumes "arm_start c e0 n d e ParsePrefix work p" "ahead d e p q" "length (rest q) < length (rest p)"
  shows "fault n q"
  using assms by (auto simp: ahead_def stopped_def intro!: prefix_fault [OF assms(1)] closes_ends_well)

text \<open>The parameters of a lambda.\<close>

lemma prefix_lambda_ok:
  assumes "arm_start c e0 n d e ParsePrefix work p" "ahead d e p q" "length (rest q) < length (rest p)"
  shows "wp (prefix_lambda start work out)
    (round_post c e0 n (weight (ParsePrefix # work) p)) (fault n) q"
proof -
  note arm = assms(1)
  have facts: "nested c e0 work d e" "items_ok p work" "0 < d" "funds p \<le> u32_max"
      "length (p_expressions p) + 3 * weight (ParsePrefix # work) p \<le> 48 * n"
    using arm by (simp_all add: arm_start_def)
  have tail: "wp (if parameters = [] then pfail (parse_error ''lambda must bind a parameter'' start)
        else pbind (require (\<lambda>k. k = TkArrow) ''`->`'') (\<lambda>_.
          go (ParseExpression 0 # FinishLambda start parameters # work) out))
      (round_post c e0 n (weight (ParsePrefix # work) p)) (fault n) q'"
    if "ahead d e p q'" "length (rest q') < length (rest p)"
      "below (concat (map pattern_types parameters)) (length (p_types q'))" for parameters q'
    using that facts items_ok_ahead [OF that(1)] prefix_fault_ahead [OF arm that(1,2)]
    by (auto simp: arm_simps intro!: ahead_case [OF that(1)] go_ahead [OF arm])
  show ?thesis
    unfolding prefix_lambda_def wp_pbind
  proof (rule wp_ploop [where I = "\<lambda>parameters q'. ahead d e p q' \<and> length (rest q') < length (rest p) \<and>
        below (concat (map pattern_types parameters)) (length (p_types q'))"
        and weight = "\<lambda>_ q'. length (rest q')"])
    fix parameters q'
    assume *: "ahead d e p q' \<and> length (rest q') < length (rest p) \<and>
      below (concat (map pattern_types parameters)) (length (p_types q'))"
    obtain t t' ts where q': "rest q' = t # t' # ts"
      by (rule ahead_step [OF conjunct1 [OF *] facts(3)])
    show "wp (pbind current_kind (\<lambda>k. if k \<in> {TkArrow, TkEof} then preturn (Inr parameters)
        else pbind parse_pattern (\<lambda>pattern. preturn (Inl (parameters @ [pattern])))))
      (\<lambda>r p'. case r of
        Inl s' \<Rightarrow> (ahead d e p p' \<and> length (rest p') < length (rest p) \<and>
          below (concat (map pattern_types s')) (length (p_types p'))) \<and> length (rest p') < length (rest q')
      | Inr x \<Rightarrow> wp (if x = [] then pfail (parse_error ''lambda must bind a parameter'' start)
          else pbind (require (\<lambda>k. k = TkArrow) ''`->`'') (\<lambda>_.
            go (ParseExpression 0 # FinishLambda start x # work) out))
          (round_post c e0 n (weight (ParsePrefix # work) p)) (fault n) p') (fault n) q'"
    proof (cases "tk_kind t \<in> {TkArrow, TkEof}")
      case True
      with q' * tail show ?thesis by (simp add: wp_pbind wp_current_kind wp_preturn)
    next
      case False
      have "wp parse_pattern (\<lambda>x p'. advanced d e q' p' \<and> pattern_known x p') (stopped q') q'"
        using parse_pattern_ok * facts(3,4) by (auto simp: routine_def ahead_def kept_def)
      then have "wp parse_pattern (\<lambda>x p'. (ahead d e p p' \<and> length (rest p') < length (rest p) \<and>
          below (concat (map pattern_types (parameters @ [x]))) (length (p_types p'))) \<and>
          length (rest p') < length (rest q')) (fault n) q'"
      proof (rule wp_mono)
        fix x p' assume x: "advanced d e q' p' \<and> pattern_known x p'"
        then have "ahead d e p p'" using * advanced_ahead ahead_trans by blast
        with x * show "(ahead d e p p' \<and> length (rest p') < length (rest p) \<and>
          below (concat (map pattern_types (parameters @ [x]))) (length (p_types p'))) \<and>
          length (rest p') < length (rest q')"
          by (auto simp: advanced_def pattern_known_def kept_def elim: below_mono)
      next
        fix p' assume "stopped q' p'"
        with * show "fault n p'"
          using ahead_stopped [of d e p q' p']
          by (intro prefix_fault [OF arm]) (simp_all add: stopped_def)
      qed
      with False q' show ?thesis
        by (simp add: wp_pbind wp_current_kind) (auto simp: wp_preturn elim!: wp_mono)
    qed
  qed (use assms in simp)
qed

section \<open>A prefix\<close>

lemma prefix_facts:
  assumes "arm_start c e0 n d e ParsePrefix work p"
  shows "nested c e0 work d e" and "items_ok p work" and "0 < d"
    and "length (p_expressions p) + 3 * weight (ParsePrefix # work) p \<le> 48 * n"
    and "ahead d e p p" and "length (p_expressions p) + 3 \<le> u32_max"
  using assms by (auto simp: arm_start_def weight_def max_source_tokens_def u32_max_def)

lemma prefix_list_ok:
  assumes arm: "arm_start c e0 n d e ParsePrefix work p" and q: "ahead d e p q" "length (rest q) < length (rest p)"
  shows "wp (prefix_list start work out) (round_post c e0 n (weight (ParsePrefix # work) p)) (fault n) q"
  using q prefix_facts [OF arm] items_ok_ahead [OF q(1)]
  by (auto simp: prefix_list_def arm_simps
      intro!: ahead_case [OF q(1)] go_ahead [OF arm] produce_ahead [OF arm] split: if_splits)

lemma prefix_do_ok:
  assumes arm: "arm_start c e0 n d e ParsePrefix work p" and q: "ahead d e p q" "length (rest q) < length (rest p)"
    and "opens_block (rest q)"
  shows "wp (prefix_do start work out) (round_post c e0 n (weight (ParsePrefix # work) p)) (fault n) q"
proof -
  obtain t ts where *: "rest q = t # ts" "tk_kind t = TkVirtualLBrace"
    using assms(4) by (cases "rest q") auto
  with ahead_open [OF q(1)] have "ahead (d + 1) 0 p (adv q)" "e = 0" by simp_all
  with * q prefix_facts [OF arm] items_ok_ahead [OF q(1)] show ?thesis
    by (auto simp: prefix_do_def arm_simps intro!: go_moved [OF arm, where d = "d + 1" and e = 0])
qed

lemma prefix_qualified_ok:
  assumes arm: "arm_start c e0 n d e ParsePrefix work p" and q: "ahead d e p q" "length (rest q) < length (rest p)"
  shows "wp (prefix_qualified name sp work out) (round_post c e0 n (weight (ParsePrefix # work) p)) (fault n) q"
proof -
  obtain t t' ts where *: "rest q = t # t' # ts" by (rule ahead_step [OF q(1) prefix_facts(3) [OF arm]])
  show ?thesis
  proof (cases "tk_kind t = TkLBrace")
    case True
    with ahead_lbrace [OF q(1) *] have "ahead d (e + 1) p (adv q)" by simp
    with True * q prefix_facts [OF arm] items_ok_ahead [OF q(1)] show ?thesis
      by (auto simp: prefix_qualified_def arm_simps intro!: go_moved [OF arm, where d = d and e = "e + 1"])
  next
    case False
    with * q prefix_facts [OF arm] items_ok_ahead [OF q(1)] show ?thesis
      by (auto simp: prefix_qualified_def arm_simps intro!: produce_ahead [OF arm])
  qed
qed

text \<open>Parentheses: the loop over the opening ones, then the unit or the first expression.\<close>

lemma prefix_parenthesis_ok:
  assumes arm: "arm_start c e0 n d e ParsePrefix work p" and q: "ahead d e p q" "length (rest q) < length (rest p)"
  shows "wp (prefix_parenthesis first work out) (round_post c e0 n (weight (ParsePrefix # work) p)) (fault n) q"
proof -
  note facts = prefix_facts [OF arm]
  show ?thesis
    unfolding prefix_parenthesis_def wp_pbind
  proof (rule wp_ploop [where I = "\<lambda>_ q'. ahead d e p q' \<and> length (rest q') < length (rest p)"
        and weight = "\<lambda>_ q'. length (rest q')"])
    fix starts q'
    assume *: "ahead d e p q' \<and> length (rest q') < length (rest p)"
    then have q': "ahead d e p q'" "length (rest q') < length (rest p)" "p_expressions q' = p_expressions p"
      by (auto simp: ahead_def kept_def)
    obtain t t' ts where tokens: "rest q' = t # t' # ts"
        "plain (tk_kind t) \<longrightarrow> ahead d e p (adv q') \<and> advanced d e p (adv q')"
      by (rule ahead_step [OF q'(1) facts(3)])
    let ?Q = "round_post c e0 n (weight (ParsePrefix # work) p)"
    have alloc: "wp (go work' out') ?Q (fault n) (adv q'\<lparr>p_expressions := p_expressions p @ [ELiteral LUnit sp]\<rparr>)"
      if "tk_kind t = TkRParen" "work' = work \<or> (\<exists>i a b. work' = ResumeExpression i 0 # FinishParenthesized a b # work \<and> i = length (p_expressions p))"
        "work' = work \<longrightarrow> out' = Some (length (p_expressions p))" for work' out' sp
      using that q' tokens facts bonus_le [of work] items_ok_ahead [of d e p "adv q'" work] exprs_below_ahead [of d e p "adv q'"]
      by (auto simp: weight_def intro!: go_alloc [OF arm])
    show "wp (pbind current_kind (\<lambda>k.
        if k = TkLParen then pbind bump (\<lambda>t. preturn (Inl (starts @ [tk_span t])))
        else preturn (Inr starts)))
      (\<lambda>r p'. case r of
        Inl s' \<Rightarrow> (ahead d e p p' \<and> length (rest p') < length (rest p)) \<and> length (rest p') < length (rest q')
      | Inr all \<Rightarrow> wp (let start = last all; starts = butlast all in
          pbind (eat (\<lambda>k. k = TkRParen)) (\<lambda>close.
            case close of
              Some e \<Rightarrow> pbind (alloc_expr (ELiteral LUnit (span_join start (tk_span e)))) (\<lambda>expression.
                if starts = [] then go work (Some expression)
                else go (ResumeExpression expression 0 #
                         FinishParenthesized (last starts) (butlast starts) # work) out)
            | None \<Rightarrow> go (ParseExpression 0 # FinishParenthesized start starts # work) out))
          (round_post c e0 n (weight (ParsePrefix # work) p)) (fault n) p') (fault n) q'"
    proof (cases "tk_kind t = TkRParen")
      case True
      with q' tokens facts(6) alloc show ?thesis by (simp add: Let_def wp_eqs)
    next
      case False
      with q' tokens facts items_ok_ahead [OF q'(1)] show ?thesis
        by (auto simp: Let_def wp_eqs weight_def intro!: go_ahead [OF arm])
    qed
  qed (use q in simp)
qed

lemma parse_prefix_ok: "arm_ok ParsePrefix"
proof (rule arm_okI, goal_cases)
  case (1 c e0 n d e work out p)
  note arm = 1(1)
  note facts = prefix_facts [OF arm]
  obtain t t' ts where *: "rest p = t # t' # ts" "stopped p (adv p)"
      "plain (tk_kind t) \<longrightarrow> ahead d e p (adv p) \<and> advanced d e p (adv p)"
    by (rule ahead_step [OF facts(5,3)])
  have bad: "fault n (adv p)" using *(1) by (intro prefix_fault [OF arm *(2)]) simp
  have block: "opens_block (rest (adv p))" if "tk_kind t = TkKwDo"
    using that facts(5) *(1) by (auto simp: ahead_def closes.simps(2))
  let ?m = "weight (ParsePrefix # work) p"
  have ends: "wp (prefix_list sp work out) (round_post c e0 n ?m) (fault n) (adv p)"
      "wp (prefix_lambda sp work out) (round_post c e0 n ?m) (fault n) (adv p)"
      "wp (prefix_parenthesis sp work out) (round_post c e0 n ?m) (fault n) (adv p)"
      "wp (prefix_qualified x sp work out) (round_post c e0 n ?m) (fault n) (adv p)"
      "tk_kind t = TkKwDo \<Longrightarrow> wp (prefix_do sp work out) (round_post c e0 n ?m) (fault n) (adv p)"
    if "plain (tk_kind t)" for sp x
    using that block * by (auto intro!: prefix_list_ok [OF arm] prefix_do_ok [OF arm]
        prefix_qualified_ok [OF arm] prefix_lambda_ok [OF arm] prefix_parenthesis_ok [OF arm])
  from * facts bad bonus_le [of work] ends show ?case
    by (cases "tk_kind t") (auto simp: parse_prefix_def Let_def arm_simps
        intro!: produce_ahead [OF arm] go_ahead [OF arm])
qed

section \<open>The loop\<close>

lemmas arms_ok = parse_expression_arm_ok parse_prefix_ok after_prefix_ok resume_expression_ok
  finish_application_ok finish_operator_ok finish_lambda_ok after_if_condition_ok after_if_then_ok
  finish_if_ok after_case_scrutinee_ok case_next_ok finish_case_alternative_ok do_next_ok
  finish_do_let_ok finish_do_bind_ok finish_do_then_ok list_after_element_ok record_next_ok
  finish_record_field_ok finish_parenthesized_ok continue_parenthesized_tuple_ok

lemma every_arm_ok: "arm_ok item"
  by (cases item) (simp_all add: arms_ok)

lemma expr_round_ok:
  assumes "steady c e0 n work p" "value_ready work out (length (p_expressions p))" "0 < c" "n \<le> max_source_tokens"
  shows "wp (expr_round (work, out)) (round_post c e0 n (weight work p)) (fault n) p"
proof (cases work)
  case Nil
  with assms show ?thesis
    by (auto simp: expr_round_def etaken_def wp_eqs round_post_def steady_def value_ready_def finished_def weight_def)
next
  case (Cons item work')
  with assms every_arm_ok [of item] show ?thesis by (simp add: expr_round_def arm_ok_def)
qed

text \<open>
  An expression can be read wherever a token has been taken since the last one: the parser
  returns, and it leaves the blocks and braces as they were.
\<close>

lemma parse_expression_ok:
  assumes "arenas_ok p" "closes c e0 (rest p)" "0 < c" "n \<le> max_source_tokens"
    and "length (p_expressions p) + 48 * length (rest p) + 12 \<le> 48 * n" "types_fit n 0 p"
  shows "wp (parse_expression minimum) (finished c e0 n) (fault n) p"
  unfolding parse_expression_def
proof (rule wp_ploop [where weight = "\<lambda>s q. weight (fst s) q"
      and I = "\<lambda>s q. steady c e0 n (fst s) q \<and> value_ready (fst s) (snd s) (length (p_expressions q))"])
  show "steady c e0 n (fst ([ParseExpression minimum], None)) p \<and>
      value_ready (fst ([ParseExpression minimum], None)) (snd ([ParseExpression minimum], None)) (length (p_expressions p))"
    using assms by (auto simp: steady_def weight_def)
next
  fix s q
  assume "steady c e0 n (fst s) q \<and> value_ready (fst s) (snd s) (length (p_expressions q))"
  then have "wp (expr_round (fst s, snd s)) (round_post c e0 n (weight (fst s) q)) (fault n) q"
    using expr_round_ok assms(3,4) by blast
  then show "wp (expr_round s) (\<lambda>r p'. case r of
      Inl s' \<Rightarrow> (steady c e0 n (fst s') p' \<and> value_ready (fst s') (snd s') (length (p_expressions p'))) \<and>
        weight (fst s') p' < weight (fst s) q
    | Inr i \<Rightarrow> finished c e0 n i p') (fault n) q"
    by (cases s) (auto simp: round_post_def elim!: wp_mono split: sum.splits)
qed

end
