(* ===== verification/Hell_Arenas.thy ===== *)
theory Hell_Arenas
  imports Hell_Blocks
begin

text \<open>
  The parser's arenas only grow and its position only moves on: whatever a parsing function
  does, it keeps every node that was there, so an identifier handed out before stays valid
  and means the same node, and it never has more tokens to come.
\<close>

definition extended :: "parser \<Rightarrow> parser \<Rightarrow> bool" where
  "extended p p' \<longleftrightarrow> (\<exists>es ts. p_expressions p' = p_expressions p @ es \<and> p_types p' = p_types p @ ts) \<and>
     p_at p \<le> p_at p' \<and> length (p_tokens p') \<le> length (p_tokens p)"

definition appends :: "'a parsing \<Rightarrow> bool" where
  "appends m \<longleftrightarrow> (\<forall>p p' r. m p = Some (p', r) \<longrightarrow> extended p p')"

lemma extended_refl [simp]: "extended p p"
  by (simp add: extended_def)

lemma extended_trans: "extended p q \<Longrightarrow> extended q r \<Longrightarrow> extended p r"
  by (auto simp: extended_def)

lemma extended_update [simp]:
  "p_at p \<le> i \<Longrightarrow> extended p (p\<lparr>p_at := i\<rparr>)" "extended p (p\<lparr>p_errors := ys\<rparr>)"
  "length xs \<le> length (p_tokens p) \<Longrightarrow> extended p (p\<lparr>p_tokens := xs\<rparr>)"
  "extended p (p\<lparr>p_expressions := p_expressions p @ es\<rparr>)" "extended p (p\<lparr>p_types := p_types p @ ts\<rparr>)"
  "extended p q \<Longrightarrow> extended p (q\<lparr>p_at := p_at p\<rparr>)"
  by (auto simp: extended_def)

lemma extended_lengths:
  assumes "extended p q"
  shows "length (p_expressions p) \<le> length (p_expressions q)" "length (p_types p) \<le> length (p_types q)"
    and "length (rest q) \<le> length (rest p)"
  using assms by (auto simp: extended_def rest_def)

lemma wp_appends:
  assumes "appends m" and "wp m Q E p"
  shows "wp m (\<lambda>x p'. Q x p' \<and> extended p p') (\<lambda>p'. E p' \<and> extended p p') p"
  using assms by (auto simp: wp_def appends_def split: option.splits res.splits)

lemma length_without_close: "length (without_close ts) \<le> length ts"
  by (induction ts) (simp add: without_close_def, metis without_close_simps le_Suc_eq length_Cons Suc_le_mono)

section \<open>Rules\<close>

named_theorems appends_intros

lemma appends_constant [appends_intros]: "appends (preturn x)" "appends (pfail e)" "appends ppanic"
  by (simp_all add: appends_def preturn_def pfail_def ppanic_def)

lemma appends_pbind [appends_intros]:
  assumes "appends m" and "\<And>x. appends (f x)"
  shows "appends (pbind m f)"
  using assms unfolding appends_def pbind_def
  by (fastforce split: option.splits res.splits intro: extended_trans)

lemma appends_if [appends_intros]: "(b \<Longrightarrow> appends m) \<Longrightarrow> (\<not> b \<Longrightarrow> appends m') \<Longrightarrow> appends (if b then m else m')"
  by simp

lemma appends_option [appends_intros]:
  "(x = None \<Longrightarrow> appends m) \<Longrightarrow> (\<And>y. x = Some y \<Longrightarrow> appends (f y)) \<Longrightarrow> appends (case x of None \<Rightarrow> m | Some y \<Rightarrow> f y)"
  by (simp split: option.split)

lemma appends_prod [appends_intros]:
  "(\<And>a b. x = (a, b) \<Longrightarrow> appends (f a b)) \<Longrightarrow> appends (case x of (a, b) \<Rightarrow> f a b)"
  by (simp split: prod.split)

lemma appends_ploop [appends_intros]:
  assumes "\<And>s. appends (body s)"
  shows "appends (ploop body s)"
  unfolding appends_def
proof (intro allI impI)
  fix p p' r assume "ploop body s p = Some (p', r)"
  then have "run_calls (ploop_step body) (s, p) = Some (p', r)" by (simp add: ploop_def)
  then have "extended p (fst (p', r))"
    by (rule run_calls_invariant [where I = "\<lambda>(s, q). extended p q"])
      (use assms in \<open>fastforce simp: appends_def ploop_step_def split: option.splits res.splits sum.splits
        intro: extended_trans\<close>)+
  then show "extended p p'" by simp
qed

lemma appends_discard [appends_intros]: "appends discard_deferred_layout_close"
proof -
  have "length (take (p_at p + 1) (p_tokens p) @ without_close (drop (p_at p + 1) (p_tokens p))) \<le> length (p_tokens p)"
    for p using length_without_close [of "drop (p_at p + 1) (p_tokens p)"] by simp
  then show ?thesis
    unfolding appends_def discard_deferred_layout_close_def Let_def without_close_def [symmetric]
    by (auto simp del: length_append intro!: extended_update)
qed

lemma appends_primitives [appends_intros]:
  "appends (alloc_expr e)" "appends (alloc_type t)" "appends p_current" "appends bump"
  "appends (span_of_expr i)" "appends (span_of_type i)" "appends (report_error err)"
  by (auto simp: appends_def alloc_expr_def alloc_type_def p_current_def bump_def span_of_expr_def span_of_type_def
      report_error_def split: option.splits)

lemma appends_tokens [appends_intros]:
  "appends current_kind" "appends (eat P)" "appends (expected what)" "appends (fail_expected what)" "appends (require P what)"
  unfolding require_def
  by (auto simp: current_kind_def eat_def expected_def fail_expected_def intro!: appends_intros)

section \<open>Types and patterns\<close>

lemma appends_taken [appends_intros]: "(\<And>i. appends (f i)) \<Longrightarrow> appends (taken out f)" "(\<And>i. appends (f i)) \<Longrightarrow> appends (etaken out f)"
  by (simp_all add: taken_def etaken_def appends_intros)

lemma appends_joined [appends_intros]: "appends (joined_types a b)" "appends (joined_exprs a b)"
  unfolding joined_types_def joined_exprs_def by (intro appends_intros)+

lemma appends_type_ends [appends_intros]: "appends (type_go work out)" "appends (type_produce t work)"
  unfolding type_produce_def type_go_def by (intro appends_intros)+

lemma appends_type_atom [appends_intros]: "appends (type_atom work out)"
  unfolding type_atom_def
  by (intro appends_intros) (auto intro!: appends_intros split: token_kind.split)

lemma appends_type_round: "appends (type_round s)"
  by (cases s rule: type_round.cases)
    (auto simp: type_after_application_def type_continue_def type_combine_def type_finish_function_def
      type_finish_list_def type_parenthesized_def type_tuple_item_def Let_def intro!: appends_intros)

lemma appends_types [appends_intros]: "appends parse_type" "appends parse_type_atom"
  unfolding parse_type_def parse_type_atom_def parse_type_iterative_def
  by (intro appends_intros appends_type_round)+

lemma appends_patterns [appends_intros]:
  "appends parse_case_pattern" "appends (tuple_binders start name)" "appends (annotated_pattern x)"
  unfolding parse_case_pattern_def tuple_binders_def annotated_pattern_def Let_def
  by (intro appends_intros; (auto intro!: appends_intros split: token_kind.split)?)+

lemma appends_parenthesized_pattern [appends_intros]: "appends (parenthesized_pattern start)"
  unfolding parenthesized_pattern_def
  by (intro appends_intros; (auto intro!: appends_intros split: token_kind.split)?)+

lemma appends_parse_pattern [appends_intros]: "appends parse_pattern"
  unfolding parse_pattern_def Let_def
  by (intro appends_intros; (auto intro!: appends_intros split: token_kind.split)?)+

lemma appends_skip_semicolons [appends_intros]: "appends skip_semicolons"
  unfolding skip_semicolons_def by (intro appends_intros)

lemma appends_attempt_bind [appends_intros]: "appends attempt_bind"
  unfolding appends_def
proof (intro allI impI)
  fix p p' r assume run: "attempt_bind p = Some (p', r)"
  have pattern: "extended p q" if "parse_pattern p = Some (q, x)" for q x
    using appends_parse_pattern that by (simp add: appends_def)
  have arrow: "extended p q'" if "extended p q"
    and "pbind (eat (\<lambda>k. k = TkBindArrow)) (\<lambda>arrow.
      case arrow of Some _ \<Rightarrow> preturn (Some y) | None \<Rightarrow> (\<lambda>p2. Some (p2\<lparr>p_at := p_at p\<rparr>, Ok None))) q = Some (q', x)"
    for q q' y and x :: "(binding_pattern option, syntax_error) res"
  proof -
    have "extended p q2" if "eat (\<lambda>k. k = TkBindArrow) q = Some (q2, z)" for q2 z
      using appends_tokens(2) that \<open>extended p q\<close> by (fastforce simp: appends_def intro: extended_trans)
    with that(2) show ?thesis
      by (auto simp: pbind_def preturn_def split: option.splits res.splits)
  qed
  from run pattern arrow show "extended p p'"
    by (fastforce simp: attempt_bind_def split: option.splits res.splits)
qed


section \<open>Expressions and declarations\<close>

lemma appends_ends [appends_intros]: "appends (go work out)" "appends (produce e work)"
  "appends (leave_parenthesis i remaining work)"
  unfolding produce_def go_def leave_parenthesis_def by (intro appends_intros)+

lemma appends_prefixes [appends_intros]:
  "appends (prefix_lambda sp work out)" "appends (prefix_do sp work out)" "appends (prefix_list sp work out)"
  "appends (prefix_parenthesis sp work out)" "appends (prefix_qualified name sp work out)"
  unfolding prefix_lambda_def prefix_do_def prefix_list_def prefix_parenthesis_def prefix_qualified_def Let_def
  by (intro appends_intros)+

lemma appends_parse_prefix [appends_intros]: "appends (parse_prefix work out)"
  unfolding parse_prefix_def Let_def
  by (intro appends_intros) (auto intro!: appends_intros split: token_kind.split)

lemma appends_type_argument [appends_intros]: "appends type_argument"
  unfolding type_argument_def by (intro appends_intros) (auto intro!: appends_intros split: token_kind.split)

lemma appends_resume [appends_intros]:
  "appends (resume_name left minimum work out)" "appends (resume_operator left operator minimum work out)"
  unfolding resume_name_def resume_operator_def Let_def by (intro appends_intros)+

lemma appends_resume_expression [appends_intros]: "appends (resume_expression left minimum work out)"
  unfolding resume_expression_def
  by (intro appends_intros) (auto intro!: appends_intros split: token_kind.split)

lemma appends_blocks [appends_intros]:
  "appends block_end" "appends (do_end start statements work)" "appends (do_statement_start start statements work out)"
  unfolding do_end_def block_end_def do_statement_start_def by (intro appends_intros)+

lemma appends_record_next [appends_intros]: "appends (record_next constructor start flds work out)"
  unfolding record_next_def Let_def
  by (intro appends_intros) (auto intro!: appends_intros split: token_kind.split)

lemma appends_arm [appends_intros]: "appends (arm_of item work out)"
  by (cases item) (auto simp: after_prefix_def finish_application_def finish_operator_def finish_lambda_def
      after_if_condition_def after_if_then_def finish_if_def after_case_scrutinee_def case_next_def
      finish_case_alternative_def do_next_def finish_do_let_def finish_do_bind_def finish_do_then_def
      list_after_element_def finish_record_field_def finish_parenthesized_def
      continue_parenthesized_tuple_def Let_def intro!: appends_intros)

lemma appends_parse_expression [appends_intros]: "appends (parse_expression minimum)"
  unfolding parse_expression_def
  by (intro appends_intros) (auto simp: expr_round_def intro!: appends_intros split: list.split prod.split)

lemma appends_declaration_parts [appends_intros]: "appends (sum_payload sp)" "appends field_names" "appends (field_group flds)"
  unfolding sum_payload_def field_names_def field_group_def Let_def
  by (intro appends_intros; (auto intro!: appends_intros split: token_kind.split)?)+

lemma appends_declaration_kinds [appends_intros]:
  "appends (parse_sum_declaration start type_name name sp)" "appends (parse_record_declaration start type_name name)"
  unfolding parse_sum_declaration_def sum_constructors_def parse_record_declaration_def Let_def
  by (intro appends_intros; (auto intro!: appends_intros split: token_kind.split)?)+

lemma appends_parse_declaration [appends_intros]: "appends parse_declaration"
  unfolding parse_declaration_def parse_data_declaration_def parse_value_declaration_def
    data_constructor_def value_body_def
  by (intro appends_intros; (auto intro!: appends_intros split: token_kind.split option.split)?)+

end
