(* ===== verification/Hell_Declarations_Total.thy ===== *)
theory Hell_Declarations_Total
  imports Hell_Expr_Total Hell_Arenas
begin

text \<open>
  Declarations and files: after an error the parser is still inside its tokens, recovery
  brings it to the next declaration, and so a whole file is parsed, without a panic, whatever
  its declarations are.
\<close>

section \<open>Declarations\<close>

fun declaration_exprs :: "top_declaration \<Rightarrow> nat list" where
  "declaration_exprs (DValue d) = [vd_value d]"
| "declaration_exprs _ = []"

fun declaration_types :: "top_declaration \<Rightarrow> nat list" where
  "declaration_types (DValue d) = (case vd_annotation d of None \<Rightarrow> [] | Some t \<Rightarrow> [t])"
| "declaration_types (DRecord d) = map fd_ty (rd_fields d)"
| "declaration_types (DSum d) = List.map_filter cd_payload (sd_constructors d)"

definition declaration_known :: "top_declaration \<Rightarrow> parser \<Rightarrow> bool" where
  "declaration_known d p \<longleftrightarrow>
     below (declaration_exprs d) (length (p_expressions p)) \<and> below (declaration_types d) (length (p_types p))"

lemma declaration_known_mono: "declaration_known d p \<Longrightarrow> extended p q \<Longrightarrow> declaration_known d q"
  using extended_lengths [of p q] by (auto simp: declaration_known_def elim!: below_mono)

text \<open>Between declarations.\<close>

definition between :: "nat \<Rightarrow> nat \<Rightarrow> nat \<Rightarrow> parser \<Rightarrow> bool" where
  "between n d e p \<longleftrightarrow> ahead d e p p \<and> 0 < d \<and> funds p \<le> u32_max \<and> types_fit n 1 p \<and>
     length (p_expressions p) + 48 * length (rest p) \<le> 48 * n \<and> n \<le> max_source_tokens"

lemma fault_between:
  assumes "fault n p" "n \<le> max_source_tokens" "rest p = t # ts" "\<not> ends_declarations (tk_kind t)"
  obtains d e where "between n d e p"
proof -
  from assms(1) obtain d e where *: "closes d e (rest p)" "arenas_ok p" "types_fit n 1 p"
      "length (p_expressions p) + 48 * length (rest p) \<le> 48 * n"
    by (auto simp: fault_def ends_well_def)
  moreover have "0 < d"
    using * assms(3,4) closes_zero [of e "rest p"] by (cases d) (auto simp: ends_declarations_def)
  ultimately have "between n d e p"
    using assms(2) types_fit_funds [OF _ assms(2)] by (auto simp: between_def intro: ahead_refl)
  then show thesis by (rule that)
qed

lemma between_stopped: "between n d e p \<Longrightarrow> stopped p q \<Longrightarrow> fault n q"
  by (auto simp: between_def intro: fault_stopped)

lemma between_ahead: "between n d e p \<Longrightarrow> ahead d' e' p q \<Longrightarrow> fault n q"
  by (erule between_stopped) (auto simp: ahead_def stopped_def intro: closes_ends_well)

definition payload_known :: "nat option \<times> span \<Rightarrow> parser \<Rightarrow> bool" where
  "payload_known x p \<longleftrightarrow> (\<forall>i. fst x = Some i \<longrightarrow> i < length (p_types p))"

lemma sum_payload_ok:
  assumes "ahead d e p q" "0 < d" "funds p \<le> u32_max"
    and "\<And>x q'. ahead d e p q' \<Longrightarrow> payload_known x q' \<Longrightarrow> extended q q' \<Longrightarrow> Q x q'" and "\<And>q'. stopped p q' \<Longrightarrow> E q'"
  shows "wp (sum_payload sp) Q E q"
proof -
  have "wp (sum_payload sp) (\<lambda>x q'. ahead d e p q' \<and> payload_known x q') (stopped p) q"
    using assms(1-3) by (auto simp: sum_payload_def wp_eqs payload_known_def type_known_def
        intro!: ahead_case [OF assms(1)] wp_routine [OF parse_type_atom_ok, where ?p0.0 = p and d = d and e = e])
  from wp_appends [OF _ this] show ?thesis
    by (rule wp_mono) (use assms(4,5) appends_intros in auto)
qed

lemma sum_constructors_ok:
  assumes "ahead d e p q" "0 < d" "funds p \<le> u32_max" "below (List.map_filter cd_payload cs) (length (p_types q))"
  shows "wp (sum_constructors start type_name cs)
    (\<lambda>r q'. ahead d e p q' \<and> length (rest q') < length (rest q) \<and> (case r of
        Inl cs' \<Rightarrow> below (List.map_filter cd_payload cs') (length (p_types q'))
      | Inr x \<Rightarrow> declaration_known x q')) (stopped p) q"
proof -
  obtain t t' ts where *: "rest q = t # t' # ts" "stopped p (adv q)"
      "plain (tk_kind t) \<longrightarrow> ahead d e p (adv q) \<and> advanced d e p (adv q)"
    by (rule ahead_step [OF assms(1,2)])
  show ?thesis
  proof (cases "\<exists>name. tk_kind t = TkUpper name")
    case True
    then obtain name where name: "tk_kind t = TkUpper name" by blast
    let ?Q = "\<lambda>r q'. ahead d e p q' \<and> length (rest q') < length (rest q) \<and> (case r of
        Inl cs' \<Rightarrow> below (List.map_filter cd_payload cs') (length (p_types q'))
      | Inr x \<Rightarrow> declaration_known x q')"
    have tail: "wp (pbind (eat (\<lambda>k. k = TkPipe)) (\<lambda>pipe. case pipe of
             Some _ \<Rightarrow> preturn (Inl cs')
           | None \<Rightarrow> preturn (Inr (DSum \<lparr>sd_type_name = type_name, sd_constructors = cs', sd_span = sp\<rparr>))))
      ?Q (stopped p) q'"
      if "ahead d e p q'" "extended (adv q) q'"
        "below (List.map_filter cd_payload cs') (length (p_types q'))" for q' cs' sp
      using that extended_lengths [OF that(2)] *(1) assms(2)
      by (auto simp: wp_eqs declaration_known_def intro!: ahead_case [OF that(1)] split: if_splits)
    have "wp (sum_constructors start type_name cs) ?Q (stopped p) q =
      wp (sum_payload (tk_span t)) (\<lambda>x. wp (case x of (payload, sp) \<Rightarrow>
        let constructors = cs @ [\<lparr>cd_name = name, cd_payload = payload, cd_span = sp\<rparr>] in
         pbind (eat (\<lambda>k. k = TkPipe)) (\<lambda>pipe.
           case pipe of
             Some _ \<Rightarrow> preturn (Inl constructors)
           | None \<Rightarrow> preturn (Inr (DSum \<lparr>sd_type_name = type_name, sd_constructors = constructors,
                                       sd_span = span_join start sp\<rparr>)))) ?Q (stopped p)) (stopped p) (adv q)"
      using name *(1) by (simp add: sum_constructors_def wp_pbind wp_bump)
    also have \<dots>
    proof (rule sum_payload_ok [where p = p and d = d and e = e])
      fix x q' assume x: "ahead d e p q'" "payload_known x q'" "extended (adv q) q'"
      obtain payload sp where pair: "x = (payload, sp)" by (cases x)
      have "below (List.map_filter cd_payload cs) (length (p_types q'))"
        using assms(4) extended_lengths(2) [OF x(3)] by (auto elim: below_mono)
      with x(2) pair have "below (List.map_filter cd_payload (cs @ [\<lparr>cd_name = name, cd_payload = payload, cd_span = sp\<rparr>]))
          (length (p_types q'))"
        by (auto simp: payload_known_def map_filter_def)
      from tail [OF x(1,3) this, of "span_join start sp"] show "wp (case x of (payload, sp) \<Rightarrow>
          let constructors = cs @ [\<lparr>cd_name = name, cd_payload = payload, cd_span = sp\<rparr>] in
           pbind (eat (\<lambda>k. k = TkPipe)) (\<lambda>pipe.
             case pipe of
               Some _ \<Rightarrow> preturn (Inl constructors)
             | None \<Rightarrow> preturn (Inr (DSum \<lparr>sd_type_name = type_name, sd_constructors = constructors,
                                         sd_span = span_join start sp\<rparr>)))) ?Q (stopped p) q'"
        by (simp add: pair Let_def)
    qed (use assms * name in auto)
    finally show ?thesis .
  next
    case False
    with * show ?thesis by (cases "tk_kind t") (auto simp: sum_constructors_def wp_eqs)
  qed
qed

lemma sum_declaration_ok: "routine (parse_sum_declaration start type_name name sp) declaration_known"
proof (rule routineI, goal_cases)
  case (1 p d e)
  let ?Q = "\<lambda>x p'. advanced d e p p' \<and> declaration_known x p'"
  have loop: "wp (ploop (sum_constructors start type_name) cs) ?Q (stopped p) q"
    if "ahead d e p q" "length (rest q) < length (rest p)" "below (List.map_filter cd_payload cs) (length (p_types q))"
    for q and cs :: "constructor_decl list"
  proof (rule wp_ploop [where weight = "\<lambda>_ q. length (rest q)"
        and I = "\<lambda>cs q. ahead d e p q \<and> length (rest q) < length (rest p) \<and>
          below (List.map_filter cd_payload cs) (length (p_types q))"])
    fix cs :: "constructor_decl list" and q
    assume *: "ahead d e p q \<and> length (rest q) < length (rest p) \<and>
      below (List.map_filter cd_payload cs) (length (p_types q))"
    show "wp (sum_constructors start type_name cs) (\<lambda>r p'. case r of
        Inl cs' \<Rightarrow> (ahead d e p p' \<and> length (rest p') < length (rest p) \<and>
          below (List.map_filter cd_payload cs') (length (p_types p'))) \<and> length (rest p') < length (rest q)
      | Inr x \<Rightarrow> ?Q x p') (stopped p) q"
      by (rule wp_mono [OF sum_constructors_ok [where p = p and d = d and e = e]])
        (use * 1 in \<open>auto simp: ahead_def advanced_def split: sum.splits\<close>)
  qed (use that in simp)
  show ?case
    unfolding parse_sum_declaration_def wp_pbind
  proof (rule sum_payload_ok [where p = p and d = d and e = e])
    fix x q assume q: "ahead d e p q" "payload_known x q"
    obtain t t' ts where *: "rest q = t # t' # ts" "stopped p q"
        "plain (tk_kind t) \<longrightarrow> ahead d e p (adv q) \<and> advanced d e p (adv q)"
      by (rule ahead_step [OF q(1) 1(2)])
    obtain payload sp' where x: "x = (payload, sp')" by (cases x)
    have "wp (ploop (sum_constructors start type_name) [\<lparr>cd_name = name, cd_payload = payload, cd_span = sp'\<rparr>])
        ?Q (stopped p) (adv q)" if "tk_kind t = TkPipe"
      using that * q x by (intro loop) (auto simp: payload_known_def map_filter_def advanced_def)
    with * x show "wp (case x of (first_payload, first_span) \<Rightarrow>
        pbind (eat (\<lambda>k. k = TkPipe)) (\<lambda>pipe. case pipe of
            None \<Rightarrow> pfail (parse_error ''one-constructor ordinary sums are unsupported; use record syntax'' first_span)
          | Some _ \<Rightarrow> ploop (sum_constructors start type_name)
              [\<lparr>cd_name = name, cd_payload = first_payload, cd_span = first_span\<rparr>])) ?Q (stopped p) q"
      by (simp add: wp_eqs)
  qed (use 1 in simp_all)
qed

section \<open>Records\<close>

definition at_colon :: "parser \<Rightarrow> bool" where
  "at_colon p \<longleftrightarrow> (\<exists>t ts. rest p = t # ts \<and> tk_kind t = TkDoubleColon)"

lemma field_names_ok: "routine field_names (\<lambda>_. at_colon)"
proof (rule routineI, goal_cases)
  case (1 p d e)
  show ?case
    unfolding field_names_def
  proof (rule wp_ploop [where weight = "\<lambda>_ q. length (rest q)" and I = "\<lambda>_ q. ahead d e p q"])
    fix names q assume "ahead d e p q"
    then obtain t t' ts where *: "rest q = t # t' # ts" "stopped p (adv q)"
        "plain (tk_kind t) \<longrightarrow> ahead d e p (adv q) \<and> advanced d e p (adv q)"
      by (rule ahead_step [OF _ 1(2)])
    then show "wp (pbind bump (\<lambda>field_token. case tk_kind field_token of
         TkLower field_name \<Rightarrow>
           (let names = names @ [(field_name, tk_span field_token)] in
            pbind current_kind (\<lambda>k.
              if k = TkDoubleColon then preturn (Inr names)
              else pbind (require (\<lambda>k. k = TkComma) ''`,` or `::` in record field declaration'')
                     (\<lambda>_. preturn (Inl names))))
       | _ \<Rightarrow> pfail (parse_error ''record field declarations require lowercase names'' (tk_span field_token))))
      (\<lambda>r p'. case r of Inl s' \<Rightarrow> ahead d e p p' \<and> length (rest p') < length (rest q)
        | Inr x \<Rightarrow> advanced d e p p' \<and> at_colon p') (stopped p) q"
      using 1(2) by (cases "tk_kind t")
        (auto simp: wp_eqs Let_def at_colon_def intro!: ahead_case [where ?p0.0 = p and d = d and e = e] ahead_plain
          split: if_splits)
  qed (use 1 in simp)
qed

lemma group_fields_types: "ty < n \<Longrightarrow> below (map fd_ty (group_fields names ty sp)) n"
  by (auto simp: group_fields_def below_def)

lemma field_group_ok:
  assumes "ahead d e q q" "0 < d" "funds q \<le> u32_max" "below (map fd_ty flds) (length (p_types q))"
  shows "wp (field_group flds) (\<lambda>r q'. advanced d e q q' \<and> below (map fd_ty (case r of Inl fs \<Rightarrow> fs | Inr fs \<Rightarrow> fs)) (length (p_types q')))
    (stopped q) q"
  using assms below_mono [OF assms(4)] by (auto simp: field_group_def wp_eqs type_known_def at_colon_def group_fields_types
      intro!: wp_routine [OF field_names_ok, where ?p0.0 = q and d = d and e = e] ahead_plain ahead_case
        wp_routine [OF parse_type_ok, where ?p0.0 = q and d = d and e = e]
      split: if_splits)

lemma field_groups_ok:
  assumes "ahead d e p p" "0 < d" "funds p \<le> u32_max"
  shows "wp (ploop field_group []) (\<lambda>flds q. ahead d e p q \<and> below (map fd_ty flds) (length (p_types q))) (stopped p) p"
proof (rule wp_ploop [where weight = "\<lambda>_ q. length (rest q)"
      and I = "\<lambda>flds q. ahead d e p q \<and> below (map fd_ty flds) (length (p_types q))"])
  fix flds :: "field_decl list" and q assume *: "ahead d e p q \<and> below (map fd_ty flds) (length (p_types q))"
  have "wp (field_group flds) (\<lambda>r q'. advanced d e q q' \<and>
      below (map fd_ty (case r of Inl fs \<Rightarrow> fs | Inr fs \<Rightarrow> fs)) (length (p_types q'))) (stopped q) q"
    using * assms ahead_self [of d e p q] by (intro field_group_ok) (simp_all add: ahead_def)
  then show "wp (field_group flds) (\<lambda>r q'. case r of
      Inl fs \<Rightarrow> (ahead d e p q' \<and> below (map fd_ty fs) (length (p_types q'))) \<and> length (rest q') < length (rest q)
    | Inr fs \<Rightarrow> ahead d e p q' \<and> below (map fd_ty fs) (length (p_types q'))) (stopped p) q"
    by (rule wp_mono)
      (use * ahead_advanced [of d e p q] ahead_stopped [of d e p q] in
        \<open>auto simp: advanced_def ahead_def split: sum.splits\<close>)
qed (use assms in simp)

lemma record_declaration_ok:
  assumes "ahead d (e + 1) p p" "0 < d" "funds p \<le> u32_max"
  shows "wp (parse_record_declaration start type_name constructor)
    (\<lambda>x q. ahead d e p q \<and> declaration_known x q) (stopped p) p"
proof -
  obtain t t' ts where *: "rest p = t # t' # ts" "stopped p p" by (rule ahead_step [OF assms(1,2)])
  have "wp (pbind bump (\<lambda>t. if tk_kind t \<noteq> TkRBrace
        then pfail (parse_error ''expected `}` in record declaration'' (tk_span t))
        else preturn (DRecord \<lparr>rd_type_name = type_name, rd_constructor = constructor,
                               rd_fields = flds, rd_span = span_join start (tk_span t)\<rparr>)))
      (\<lambda>x q. ahead d e p q \<and> declaration_known x q) (stopped p) q"
    if "ahead d (e + 1) p q \<and> below (map fd_ty flds) (length (p_types q))" for flds q
    using that ahead_rbrace [of d "e + 1" p q] assms(2)
    by (auto simp: wp_eqs declaration_known_def intro!: ahead_case [OF conjunct1 [OF that]])
  then have "wp (pbind (ploop field_group []) (\<lambda>flds. pbind bump (\<lambda>e.
       if tk_kind e \<noteq> TkRBrace then pfail (parse_error ''expected `}` in record declaration'' (tk_span e))
       else preturn (DRecord \<lparr>rd_type_name = type_name, rd_constructor = constructor,
                              rd_fields = flds, rd_span = span_join start (tk_span e)\<rparr>))))
      (\<lambda>x q. ahead d e p q \<and> declaration_known x q) (stopped p) p"
    unfolding wp_pbind [of "ploop _ _"] by (rule wp_mono [OF field_groups_ok [OF assms]])
  with * show ?thesis by (simp add: parse_record_declaration_def wp_pbind wp_p_current wp_if wp_pfail)
qed

section \<open>A declaration\<close>

definition declared :: "nat \<Rightarrow> parser \<Rightarrow> top_declaration \<Rightarrow> parser \<Rightarrow> bool" where
  "declared n p d q \<longleftrightarrow> fault n q \<and> declaration_known d q \<and> length (rest q) < length (rest p)"

lemma data_record_ok:
  assumes start: "between n d e p" and q: "ahead d e p q" "length (rest q) < length (rest p)"
    and "rest q = u # us" "tk_kind u = TkLBrace"
  shows "wp (parse_record_declaration sp type_name name) (declared n p) (fault n) (adv q)"
proof -
  have *: "ahead d (e + 1) p (adv q)" by (rule ahead_lbrace [OF q(1) assms(4,5)])
  have "wp (parse_record_declaration sp type_name name)
      (\<lambda>x q'. ahead d e (adv q) q' \<and> declaration_known x q') (stopped (adv q)) (adv q)"
    using start ahead_self [OF *] * by (intro record_declaration_ok) (simp_all add: ahead_def between_def)
  then show ?thesis
  proof (rule wp_mono)
    fix x q' assume x: "ahead d e (adv q) q' \<and> declaration_known x q'"
    then have "ahead d e p q'" using * by (blast intro: ahead_trans)
    with x q between_ahead [OF start] show "declared n p x q'" by (auto simp: declared_def ahead_def)
  qed (use between_stopped [OF start] ahead_stopped [OF *] in blast)
qed

lemma data_constructor_ok:
  assumes start: "between n d e p" and q: "ahead d e p q"
  shows "wp (data_constructor sp type_name) (declared n p) (fault n) q"
proof -
  have d: "0 < d" "funds p \<le> u32_max" using start by (simp_all add: between_def)
  obtain t t' ts where *: "rest q = t # t' # ts" "stopped p (adv q)"
      "plain (tk_kind t) \<longrightarrow> ahead d e p (adv q) \<and> advanced d e p (adv q)"
    by (rule ahead_step [OF q d(1)])
  have sum: "wp (parse_sum_declaration sp type_name name sp') (declared n p) (fault n) (adv q)"
    if "ahead d e p (adv q)" for name sp'
    using that d between_stopped [OF start] between_ahead [OF start] by (auto simp: declared_def advanced_def
        intro!: wp_routine [OF sum_declaration_ok, where ?p0.0 = p and d = d and e = e])
  show ?thesis
  proof (cases "\<exists>name. tk_kind t = TkUpper name")
    case True
    then obtain name where name: "tk_kind t = TkUpper name" by blast
    with * have next_: "ahead d e p (adv q)" "length (rest (adv q)) < length (rest p)" by (auto simp: advanced_def)
    with name * sum data_record_ok [OF start next_] show ?thesis
      by (simp add: data_constructor_def wp_eqs)
  next
    case False
    with * between_stopped [OF start] show ?thesis
      by (cases "tk_kind t") (auto simp: data_constructor_def wp_eqs)
  qed
qed

lemma data_declaration_ok:
  assumes start: "between n d e p" and "rest p = t # ts" "tk_kind t = TkKwData"
  shows "wp parse_data_declaration (declared n p) (fault n) p"
proof -
  have p: "0 < d" "ahead d e p (adv p)"
    using start assms(2,3) ahead_plain [of d e p p] by (simp_all add: between_def)
  obtain t2 t3 ts3 where *: "rest (adv p) = t2 # t3 # ts3" "stopped p (adv (adv p))"
      "plain (tk_kind t2) \<longrightarrow> ahead d e p (adv (adv p)) \<and> advanced d e p (adv (adv p))"
    by (rule ahead_step [OF p(2,1)])
  show ?thesis
  proof (cases "\<exists>name. tk_kind t2 = TkUpper name")
    case True
    with * have "ahead d e p (adv (adv p))" by auto
    with True assms(2) *(1) p(1) between_ahead [OF start] show ?thesis
      by (auto simp: parse_data_declaration_def wp_eqs intro!: data_constructor_ok [OF start]
          ahead_plain)
  next
    case False
    with assms(2) * between_stopped [OF start] show ?thesis
      by (cases "tk_kind t2") (auto simp: parse_data_declaration_def wp_eqs)
  qed
qed

lemma value_body_ok:
  assumes start: "between n d e p" and q: "ahead d e p q" "length (rest q) < length (rest p)"
    and "below (case annotation of None \<Rightarrow> [] | Some i \<Rightarrow> [i]) (length (p_types q))"
  shows "wp (value_body sp name annotation) (declared n p) (fault n) q"
proof -
  have d: "0 < d" "n \<le> max_source_tokens" "types_fit n 1 p"
      "length (p_expressions p) + 48 * length (rest p) \<le> 48 * n"
    using start by (simp_all add: between_def)
  obtain t t' ts where *: "rest q = t # t' # ts"
      "plain (tk_kind t) \<longrightarrow> ahead d e p (adv q) \<and> advanced d e p (adv q)"
    by (rule ahead_step [OF q(1) d(1)])
  show ?thesis
  proof (cases "tk_kind t = TkEquals")
    case True
    with * have r: "ahead d e p (adv q)" by simp
    then have "wp (parse_expression 0) (finished d e n) (fault n) (adv q)"
      using q(2) d types_fit_step [OF d(3), of "adv q" 0]
      by (intro parse_expression_ok) (auto simp: ahead_def kept_def funds_def)
    from wp_appends [OF appends_parse_expression this]
    have "wp (parse_expression 0) (\<lambda>v. wp (pbind (span_of_expr v) (\<lambda>s. preturn (DValue \<lparr>vd_name = name,
        vd_annotation = annotation, vd_value = v, vd_span = span_join sp s\<rparr>))) (declared n p) (fault n))
      (fault n) (adv q)"
    proof (rule wp_mono)
      fix v q' assume v: "finished d e n v q' \<and> extended (adv q) q'"
      then have "declaration_known (DValue \<lparr>vd_name = name, vd_annotation = annotation, vd_value = v,
          vd_span = s\<rparr>) q'" for s
        using assms(4) extended_lengths [of "adv q" q']
        by (auto simp: declaration_known_def finished_def elim!: below_mono split: option.splits)
      with v q(2) * show "wp (pbind (span_of_expr v) (\<lambda>s. preturn (DValue \<lparr>vd_name = name,
          vd_annotation = annotation, vd_value = v, vd_span = span_join sp s\<rparr>))) (declared n p) (fault n) q'"
        using extended_lengths(3) [of "adv q" q']
        by (auto simp: wp_eqs finished_def declared_def fault_def intro: closes_ends_well)
    qed simp
    with True * show ?thesis by (simp add: value_body_def wp_pbind wp_require)
  next
    case False
    with * between_ahead [OF start q(1)] show ?thesis by (simp add: value_body_def wp_eqs)
  qed
qed

lemma value_declaration_ok:
  assumes start: "between n d e p"
  shows "wp parse_value_declaration (declared n p) (fault n) p"
proof -
  have d: "0 < d" "ahead d e p p" "funds p \<le> u32_max" using start by (simp_all add: between_def)
  obtain t t' ts where *: "rest p = t # t' # ts" "stopped p (adv p)"
      "plain (tk_kind t) \<longrightarrow> ahead d e p (adv p) \<and> advanced d e p (adv p)"
    by (rule ahead_step [OF d(2,1)])
  show ?thesis
  proof (cases "\<exists>name. tk_kind t = TkLower name")
    case True
    with * have "ahead d e p (adv p)" by auto
    with True * d between_stopped [OF start] show ?thesis
      by (auto simp: parse_value_declaration_def wp_eqs type_known_def advanced_def
          intro!: value_body_ok [OF start] ahead_plain
            wp_routine [OF parse_type_ok, where ?p0.0 = p and d = d and e = e] split: if_splits)
  next
    case False
    with * between_stopped [OF start] show ?thesis
      by (cases "tk_kind t") (auto simp: parse_value_declaration_def wp_eqs)
  qed
qed

lemma declaration_ok:
  assumes "fault n p" "n \<le> max_source_tokens" "rest p = t # ts" "\<not> ends_declarations (tk_kind t)"
  shows "wp parse_declaration (declared n p) (fault n) p"
proof -
  obtain d e where "between n d e p" using fault_between [OF assms] .
  with assms(3) data_declaration_ok value_declaration_ok show ?thesis
    by (auto simp: parse_declaration_def wp_eqs)
qed

section \<open>Files\<close>

lemma parse_declaration_moves:
  assumes "parse_declaration p = Some (p', r)" and "rest p = t # ts"
  shows "extended (adv p) p'"
proof -
  have bump: "pbind bump f p = f t (adv p)" for f :: "token \<Rightarrow> top_declaration parsing"
    using assms(2) by (simp add: pbind_def bump_def vget_rest adv_def)
  have kind: "pbind current_kind f p = f (tk_kind t) p" for f :: "token_kind \<Rightarrow> top_declaration parsing"
    using assms(2) by (simp add: pbind_def current_kind_def p_current_def vget_rest preturn_def)
  have value_: "appends (case tk_kind t of
       TkLower name \<Rightarrow> pbind (eat (\<lambda>k. k = TkDoubleColon)) (\<lambda>colon.
         case colon of
           Some _ \<Rightarrow> pbind parse_type (\<lambda>ty. value_body (tk_span t) name (Some ty))
         | None \<Rightarrow> value_body (tk_span t) name None)
     | _ \<Rightarrow> pfail (parse_error ''top-level declarations must be `name [:: Type] = expression`'' (tk_span t)))"
    unfolding value_body_def by (auto intro!: appends_intros split: token_kind.split)
  have data: "appends (pbind bump (\<lambda>type_token.
     case tk_kind type_token of
       TkUpper type_name \<Rightarrow> pbind (eat (\<lambda>k. k = TkEquals)) (\<lambda>eq.
         case eq of
           None \<Rightarrow> pbind p_current (\<lambda>t.
             pfail (parse_error ''type parameters and contexts on data declarations are unsupported'' (tk_span t)))
         | Some _ \<Rightarrow> data_constructor (tk_span t) type_name)
     | _ \<Rightarrow> pfail (parse_error ''data declarations require an unqualified type name'' (tk_span type_token))))"
    unfolding data_constructor_def by (intro appends_intros) (auto intro!: appends_intros split: token_kind.split)
  from assms(1) value_ data show ?thesis
    by (auto simp: parse_declaration_def kind parse_data_declaration_def parse_value_declaration_def bump appends_def
        split: if_splits)
qed

lemma extended_adv: "extended p (adv p)"
  by (simp add: extended_def adv_def)

lemma extended_errors: "extended p q \<Longrightarrow> extended p (q\<lparr>p_errors := es\<rparr>)"
  by (simp add: extended_def)

lemma fault_adv:
  assumes "fault n p" "rest p = t # ts" "tk_kind t \<noteq> TkEof"
  shows "fault n (adv p)"
proof -
  from assms obtain d e where cl: "closes d e (t # ts)" by (auto simp: fault_def ends_well_def)
  have "types_fit n 1 (adv p)"
    by (rule types_fit_step [of n 1 p]) (use assms(1,2) in \<open>simp_all add: fault_def\<close>)
  with assms ends_well_tl [OF cl] show ?thesis by (simp add: fault_def)
qed

lemma fault_tokens: "fault n p \<Longrightarrow> rest p \<noteq> []"
  by (auto simp: fault_def ends_well_def)

lemma appends_recover: "appends recover"
  unfolding recover_def by (intro appends_intros)

lemma recover_ok:
  assumes "fault n p"
  shows "wp recover (\<lambda>_ q. fault n q \<and> length (rest q) \<le> length (rest p)) E p"
  unfolding recover_def
proof (rule wp_ploop [where weight = "\<lambda>_ q. length (rest q)"
      and I = "\<lambda>_ q. fault n q \<and> length (rest q) \<le> length (rest p)"])
  fix s q assume *: "fault n q \<and> length (rest q) \<le> length (rest p)"
  then obtain t ts where "rest q = t # ts" using fault_tokens by (cases "rest q") auto
  with * fault_adv [of n q] show "wp (pbind current_kind (\<lambda>k.
      if k \<in> {TkVirtualSemicolon, TkSemicolon, TkVirtualRBrace, TkEof} then preturn (Inr ())
      else pbind bump (\<lambda>_. preturn (Inl ()))))
    (\<lambda>r p'. case r of
      Inl s' \<Rightarrow> (fault n p' \<and> length (rest p') \<le> length (rest p)) \<and> length (rest p') < length (rest q)
    | Inr x \<Rightarrow> fault n p' \<and> length (rest p') \<le> length (rest p)) E q"
    by (auto simp: wp_eqs)
qed (use assms in simp)

lemma declaration_or_recover_ok:
  assumes "fault n p" "n \<le> max_source_tokens" "rest p = t # ts" "\<not> ends_declarations (tk_kind t)"
  shows "wp declaration_or_recover (\<lambda>d q. fault n q \<and> length (rest q) < length (rest p) \<and> extended p q \<and>
      (case d of None \<Rightarrow> True | Some d \<Rightarrow> declaration_known d q)) E p"
proof -
  obtain q r where run: "parse_declaration p = Some (q, r)" "r \<noteq> Panic"
      and Ok: "\<And>d. r = Ok d \<Longrightarrow> declared n p d q" and Err: "\<And>err. r = Err err \<Longrightarrow> fault n q"
    using declaration_ok [OF assms] by (fastforce simp: wp_def split: option.splits res.splits prod.splits)
  have q: "extended p q" "length (rest q) < length (rest p)"
    using parse_declaration_moves [OF run(1) assms(3)] extended_lengths(3) [of "adv p" q] assms(3)
      extended_trans [OF extended_adv, of p q]
    by auto
  show ?thesis
  proof (cases r)
    case (Ok d)
    with run(1) \<open>\<And>d. r = Ok d \<Longrightarrow> declared n p d q\<close> q show ?thesis
      by (auto simp: declaration_or_recover_def wp_def declared_def)
  next
    case (Err err)
    let ?q = "q\<lparr>p_errors := p_errors q @ [err]\<rparr>"
    have "fault n ?q" using Err \<open>\<And>err. r = Err err \<Longrightarrow> fault n q\<close>
      by (auto simp: fault_def arenas_ok_def types_fit_def)
    from wp_appends [OF appends_recover recover_ok [OF this, where E = E]]
    have "wp (pbind recover (\<lambda>_. preturn None)) (\<lambda>d q. fault n q \<and> length (rest q) < length (rest p) \<and>
        extended p q \<and> (case d of None \<Rightarrow> True | Some d \<Rightarrow> declaration_known d q)) E ?q"
      using q extended_trans [of p ?q] extended_errors [OF q(1)]
      unfolding wp_pbind by (auto simp: wp_preturn elim!: wp_mono)
    with run(1) Err show ?thesis by (simp add: declaration_or_recover_def wp_def pbind_def report_error_def)
  qed (use run in simp)
qed

definition declarations_known :: "top_declaration list \<Rightarrow> parser \<Rightarrow> bool" where
  "declarations_known ds p \<longleftrightarrow> (\<forall>d \<in> set ds. declaration_known d p)"

lemma declarations_known_simps [simp]:
  "declarations_known [] p"
  "declarations_known (ds @ [d]) p \<longleftrightarrow> declarations_known ds p \<and> declaration_known d p"
  by (auto simp: declarations_known_def)

lemma declarations_known_mono: "declarations_known ds p \<Longrightarrow> extended p q \<Longrightarrow> declarations_known ds q"
  by (auto simp: declarations_known_def intro: declaration_known_mono)

lemma declarations_round_ok:
  assumes "fault n p" "n \<le> max_source_tokens" "declarations_known ds p"
  shows "wp (declarations_round ds) (\<lambda>r q. fault n q \<and> (case r of
      Inl ds' \<Rightarrow> declarations_known ds' q \<and> length (rest q) < length (rest p)
    | Inr ds' \<Rightarrow> declarations_known ds' q)) E p"
proof -
  let ?Q = "\<lambda>r q. fault n q \<and> (case r of
      Inl ds' \<Rightarrow> declarations_known ds' q \<and> length (rest q) < length (rest p)
    | Inr ds' \<Rightarrow> declarations_known ds' q)"
  obtain t ts where p: "rest p = t # ts" using fault_tokens [OF assms(1)] by (cases "rest p") auto
  show ?thesis
  proof (cases "ends_declarations (tk_kind t)")
    case True
    with assms p show ?thesis by (simp add: declarations_round_def wp_eqs)
  next
    case False
    then obtain d e where start: "between n d e p" using fault_between [OF assms(1,2) p] by blast
    have one: "wp (pbind declaration_or_recover (\<lambda>d. case d of
        Some d \<Rightarrow> preturn (Inl (ds @ [d])) | None \<Rightarrow> preturn (Inl ds))) ?Q E q"
      if "fault n q" "rest q = u # us" "\<not> ends_declarations (tk_kind u)" "declarations_known ds q"
        "length (rest q) \<le> length (rest p)" for q u us
      unfolding wp_pbind
      by (rule wp_mono [OF declaration_or_recover_ok [OF that(1) assms(2) that(2,3)]])
        (use that(4,5) declarations_known_mono in \<open>auto simp: wp_eqs split: option.splits\<close>)
    have "wp skip_semicolons (\<lambda>_ q. fault n q \<and> length (rest q) \<le> length (rest p)) E p"
      using start between_ahead [OF start] by (auto simp: between_def intro!: skip_semicolons_ok)
    from wp_appends [OF appends_skip_semicolons this]
    have "wp skip_semicolons (\<lambda>_. wp (pbind current_kind (\<lambda>k.
        if ends_declarations k then preturn (Inr ds)
        else pbind declaration_or_recover (\<lambda>d. case d of
          Some d \<Rightarrow> preturn (Inl (ds @ [d])) | None \<Rightarrow> preturn (Inl ds)))) ?Q E) E p"
    proof (rule wp_mono)
      fix x q assume q: "(fault n q \<and> length (rest q) \<le> length (rest p)) \<and> extended p q"
      then obtain u us where "rest q = u # us" using fault_tokens by (cases "rest q") auto
      with q one [of q u us] declarations_known_mono [OF assms(3)]
      show "wp (pbind current_kind (\<lambda>k.
          if ends_declarations k then preturn (Inr ds)
          else pbind declaration_or_recover (\<lambda>d. case d of
            Some d \<Rightarrow> preturn (Inl (ds @ [d])) | None \<Rightarrow> preturn (Inl ds)))) ?Q E q"
        by (simp add: wp_pbind [of current_kind] wp_current_kind wp_if wp_preturn)
    qed simp
    with p False show ?thesis by (simp add: declarations_round_def wp_pbind wp_current_kind)
  qed
qed

lemma declarations_ok:
  assumes "fault n p" "n \<le> max_source_tokens"
  shows "wp (ploop declarations_round []) (\<lambda>ds q. fault n q \<and> declarations_known ds q) E p"
proof (rule wp_ploop [where weight = "\<lambda>_ q. length (rest q)" and I = "\<lambda>ds q. fault n q \<and> declarations_known ds q"])
  fix ds q assume "fault n q \<and> declarations_known ds q"
  with declarations_round_ok [OF _ assms(2)]
  have "wp (declarations_round ds) (\<lambda>r q'. fault n q' \<and> (case r of
      Inl ds' \<Rightarrow> declarations_known ds' q' \<and> length (rest q') < length (rest q)
    | Inr ds' \<Rightarrow> declarations_known ds' q')) E q" by blast
  then show "wp (declarations_round ds) (\<lambda>r q'. case r of
      Inl ds' \<Rightarrow> (fault n q' \<and> declarations_known ds' q') \<and> length (rest q') < length (rest q)
    | Inr ds' \<Rightarrow> fault n q' \<and> declarations_known ds' q') E q"
    by (rule wp_mono) (auto split: sum.splits)
qed (use assms in simp)

text \<open>A parsed file, and the token lists a file can be parsed from.\<close>

definition file_ok :: "parsed_file \<Rightarrow> bool" where
  "file_ok f \<longleftrightarrow> types_below (pf_types f) \<and> exprs_below (pf_expressions f) (length (pf_types f)) \<and>
     (\<forall>d \<in> set (pf_declarations f). below (declaration_exprs d) (length (pf_expressions f)) \<and>
        below (declaration_types d) (length (pf_types f)))"

fun file_tokens :: "token list \<Rightarrow> bool" where
  "file_tokens [] = False"
| "file_tokens (t # ts) = (tk_kind t = TkVirtualLBrace \<and> closes 1 0 ts)"

lemma parse_file_ok:
  assumes "file_tokens tokens" "length tokens \<le> max_source_tokens"
  shows "wp parse_file (\<lambda>(start, ds, e) q. arenas_ok q \<and> declarations_known ds q) (\<lambda>_. True) (parser_new tokens)"
proof -
  let ?n = "length tokens"
  let ?p = "adv (parser_new tokens)"
  obtain t ts where tokens: "tokens = t # ts" "tk_kind t = TkVirtualLBrace" "closes 1 0 ts"
    using assms(1) by (cases tokens) auto
  then have p: "rest (parser_new tokens) = t # ts" "rest ?p = ts" by (simp_all add: rest_def parser_new_def adv_def)
  have "fault ?n ?p"
    using tokens p closes_ends_well by (auto simp: fault_def arenas_ok_def types_fit_def parser_new_def algebra_simps)
  from declarations_ok [OF this assms(2)]
  have "wp (ploop declarations_round []) (\<lambda>ds. wp (pbind bump (\<lambda>e. preturn (tk_span t, ds, tk_span e)))
      (\<lambda>(start, ds, e) q. arenas_ok q \<and> declarations_known ds q) (\<lambda>_. True)) (\<lambda>_. True) ?p"
  proof (rule wp_mono)
    fix ds q assume q: "fault ?n q \<and> declarations_known ds q"
    then obtain u us where "rest q = u # us" using fault_tokens by (cases "rest q") auto
    with q show "wp (pbind bump (\<lambda>e. preturn (tk_span t, ds, tk_span e)))
        (\<lambda>(start, ds, e) q. arenas_ok q \<and> declarations_known ds q) (\<lambda>_. True) q"
      by (auto simp: wp_eqs fault_def declarations_known_def declaration_known_def)
  qed simp
  with p tokens(2) show ?thesis
    by (simp add: parse_file_def wp_pbind wp_p_current wp_eat wp_preturn)
qed

text \<open>
  Parsing is total and safe: on a token list that closes its blocks the parser returns, it
  does not run past the last token, does not use an identifier that is not allocated, and its
  arenas do not overflow 32-bit identifiers.
\<close>

lemma file_parsed:
  assumes "file_tokens tokens" "length tokens \<le> max_source_tokens"
  shows "\<exists>r. parse_tokens tokens = Some r \<and> r \<noteq> Panic \<and>
    (\<forall>f. r = Ok f \<longrightarrow> file_ok f) \<and> (\<forall>es. r = Err es \<longrightarrow> es \<noteq> [])"
proof -
  obtain q r where run: "parse_file (parser_new tokens) = Some (q, r)" "r \<noteq> Panic"
      and ok: "\<And>start ds e. r = Ok (start, ds, e) \<Longrightarrow> arenas_ok q \<and> declarations_known ds q"
    using parse_file_ok [OF assms] by (fastforce simp: wp_def split: option.splits res.splits)
  show ?thesis
  proof (cases r)
    case (Ok x)
    then obtain start ds e where "r = Ok (start, ds, e)" by (metis prod_cases3)
    with run ok show ?thesis
      by (simp add: parse_tokens_def file_ok_def arenas_ok_def declarations_known_def declaration_known_def)
  qed (use run in \<open>simp_all add: parse_tokens_def\<close>)
qed

end
