(* ===== verification/Hell_Parse_Total.thy ===== *)
theory Hell_Parse_Total
  imports Hell_Declarations_Total
begin

text \<open>
  Layout and parser together: what the layout pass makes of a source whose explicit braces
  hold no block closes its blocks in order, so that the parser returns on it.
\<close>

section \<open>Laid-out sources\<close>

text \<open>
  The physical tokens of such a source: explicit braces are matched, hold no \<open>do\<close> or
  \<open>of\<close> and do not follow one, no line starts to the left of the first token (at column
  \<open>c\<close>), and the file does not end with \<open>do\<close> or \<open>of\<close>.  \<open>e\<close> braces are open; \<open>after\<close>
  says that the last token was a \<open>do\<close> or an \<open>of\<close>.
\<close>

fun flat_braces :: "nat \<Rightarrow> nat \<Rightarrow> bool \<Rightarrow> token list \<Rightarrow> bool" where
  "flat_braces c e after [] = False"
| "flat_braces c e after (t # ts) =
    (if tk_kind t = TkEof then e = 0 \<and> \<not> after \<and> ts = []
     else physical t \<and> (starts_line t \<longrightarrow> c \<le> column t) \<and>
       (if tk_kind t = TkLBrace then \<not> after \<and> flat_braces c (e + 1) False ts
        else if tk_kind t = TkRBrace then 0 < e \<and> flat_braces c (e - 1) False ts
        else if tk_kind t \<in> {TkKwDo, TkKwOf} then e = 0 \<and> flat_braces c e True ts
        else flat_braces c e False ts))"

definition laid_out :: "token list \<Rightarrow> bool" where
  "laid_out ts \<longleftrightarrow> (case ts of [] \<Rightarrow> False | t # _ \<Rightarrow> flat_braces (column t) 0 False ts)"

section \<open>The layout pass keeps the blocks\<close>

text \<open>The contexts: \<open>e\<close> braces inside \<open>d\<close> implicit blocks, the outermost at column \<open>c\<close>.\<close>

fun stacked :: "nat \<Rightarrow> nat \<Rightarrow> nat \<Rightarrow> layout_context list \<Rightarrow> bool" where
  "stacked c d e [] = False"
| "stacked c d e (Explicit # contexts) = (0 < e \<and> stacked c d (e - 1) contexts)"
| "stacked c d e (Implicit col first # contexts) =
    (e = 0 \<and> (if contexts = [] then d = 1 \<and> col = c else 1 < d \<and> stacked c (d - 1) 0 contexts))"

definition tokens_to :: "nat \<Rightarrow> nat \<Rightarrow> bool \<Rightarrow> token list \<Rightarrow> nat \<Rightarrow> nat \<Rightarrow> bool \<Rightarrow> bool" where
  "tokens_to d e pending new d' e' pending' \<longleftrightarrow>
     (\<forall>more. closes d' e' more \<longrightarrow> (pending' \<longrightarrow> opens_block more) \<longrightarrow>
        closes d e (new @ more) \<and> (pending \<longrightarrow> opens_block (new @ more)))"

text \<open>One stage takes a layout with \<open>d\<close> blocks and \<open>e\<close> braces to one with \<open>d'\<close> and \<open>e'\<close>.\<close>

definition stage :: "nat \<Rightarrow> layout \<Rightarrow> nat \<Rightarrow> nat \<Rightarrow> layout \<Rightarrow> nat \<Rightarrow> nat \<Rightarrow> bool" where
  "stage c s d e s' d' e' \<longleftrightarrow> stacked c d' e' (ly_contexts s') \<and>
     (\<exists>new. ly_output s' = ly_output s @ new \<and> tokens_to d e (ly_pending s) new d' e' (ly_pending s'))"

lemma tokens_to_refl: "tokens_to d e pending [] d e pending"
  by (simp add: tokens_to_def)

lemma tokens_to_trans:
  "tokens_to d e a new d' e' b \<Longrightarrow> tokens_to d' e' b new' d'' e'' f \<Longrightarrow> tokens_to d e a (new @ new') d'' e'' f"
  by (auto simp: tokens_to_def)

lemma stage_refl: "stacked c d e (ly_contexts s) \<Longrightarrow> stage c s d e s d e"
  by (auto simp: stage_def intro: tokens_to_refl)

lemma stage_trans: "stage c s d e s' d' e' \<Longrightarrow> stage c s' d' e' s'' d'' e'' \<Longrightarrow> stage c s d e s'' d'' e''"
  by (auto simp: stage_def intro: tokens_to_trans)

lemma stacked_pos: "stacked c d e cs \<Longrightarrow> 0 < d \<and> cs \<noteq> []"
  by (induction c d e cs rule: stacked.induct) (auto split: if_splits)

lemma open_pending_stage:
  assumes "stacked c d e (ly_contexts s)" "ly_pending s \<longrightarrow> e = 0 \<and> tk_kind t \<noteq> TkLBrace"
  shows "\<exists>d'. stage c s d e (open_pending t s) d' e \<and> \<not> ly_pending (open_pending t s)"
proof (cases "ly_pending s")
  case True
  with assms stacked_pos [OF assms(1)] have "stage c s d e (open_pending t s) (d + 1) 0"
    by (auto simp: stage_def open_pending_def Let_def layout_push_def tokens_to_def virtual_at_def closes.simps(2))
  with True assms(2) show ?thesis by (auto simp: open_pending_def Let_def layout_push_def)
next
  case False
  with stage_refl [OF assms(1)] show ?thesis by (auto simp: open_pending_def)
qed

lemma dedent_stage:
  assumes "stacked c d e contexts" "c \<le> column t" "dedent t contexts out = (contexts', out')"
  shows "\<exists>d' new. out' = out @ new \<and> stacked c d' e contexts' \<and> tokens_to d e False new d' e False"
  using assms
proof (induction t contexts out arbitrary: d rule: dedent.induct)
  case (1 t col first contexts out)
  show ?case
  proof (cases "column t < col")
    case True
    from 1(2) have e: "e = 0" by simp
    from 1(2,3) True have "stacked c (d - 1) e contexts" and d: "1 < d"
      by (auto split: if_splits)
    from 1(1) [OF True this(1) 1(3)] 1(4) True obtain d' new where
      "out' = out @ virtual_at TkVirtualRBrace t True # new" "stacked c d' e contexts'" "tokens_to (d - 1) e False new d' e False"
      by auto
    moreover from d this(3) have "tokens_to d e False (virtual_at TkVirtualRBrace t True # new) d' e False"
      by (simp add: e tokens_to_def virtual_at_def closes.simps(2))
    ultimately show ?thesis by blast
  next
    case False
    with 1(2,4) show ?thesis by (intro exI [of _ d] exI [of _ "[]"]) (auto simp: tokens_to_refl)
  qed
qed (auto intro: tokens_to_refl)

lemma close_dedented_stage:
  assumes "stacked c d e (ly_contexts s)" "c \<le> column t" "\<not> ly_pending s"
  shows "\<exists>d'. stage c s d e (close_dedented t s) d' e \<and> \<not> ly_pending (close_dedented t s)"
  using dedent_stage [OF assms(1,2), of "ly_output s"] assms(3)
  by (auto simp: close_dedented_def stage_def split: prod.splits) blast

lemma separate_item_stage:
  assumes "stacked c d e (ly_contexts s)" "\<not> ly_pending s"
  shows "stage c s d e (separate_item t s) d e \<and> \<not> ly_pending (separate_item t s)"
proof -
  have "tokens_to d e False [virtual_at TkVirtualSemicolon t True] d e False"
    using stacked_pos [OF assms(1)] by (auto simp: tokens_to_def virtual_at_def closes.simps(2))
  with assms show ?thesis
    by (auto simp: separate_item_def stage_def layout_push_def tokens_to_refl
        split: list.split layout_context.split)
qed

lemma clear_first_stage:
  assumes "stacked c d e (ly_contexts s)" "\<not> ly_pending s"
  shows "stage c s d e (clear_first s) d e \<and> \<not> ly_pending (clear_first s)"
  using assms
  by (auto simp: clear_first_def stage_def tokens_to_refl split: list.split layout_context.split)

text \<open>The braces and the pending block after a token.\<close>

fun after_brace :: "token_kind \<Rightarrow> nat \<Rightarrow> nat" where
  "after_brace TkLBrace e = e + 1"
| "after_brace TkRBrace e = e - 1"
| "after_brace _ e = e"

definition after_keyword :: "token_kind \<Rightarrow> bool" where
  "after_keyword k \<longleftrightarrow> k \<in> {TkKwDo, TkKwOf}"

lemma enter_token_stage:
  assumes "stacked c d e (ly_contexts s)" "\<not> ly_pending s" "physical t" "tk_kind t \<noteq> TkEof"
    and "tk_kind t = TkRBrace \<longrightarrow> 0 < e" "after_keyword (tk_kind t) \<longrightarrow> e = 0"
  shows "stage c s d e (layout_push t (enter_token t s)) d (after_brace (tk_kind t) e) \<and>
    ly_pending (layout_push t (enter_token t s)) = after_keyword (tk_kind t)"
proof (cases "tk_kind t = TkRBrace")
  case True
  with assms obtain cs where "ly_contexts s = Explicit # cs" "stacked c d (e - 1) cs"
    by (cases "ly_contexts s" rule: pop_explicit.cases) auto
  with True assms stacked_pos [OF assms(1)] show ?thesis
    by (auto simp: stage_def enter_token_def layout_push_def tokens_to_def closes.simps(2) after_keyword_def)
next
  case False
  with assms stacked_pos [OF assms(1)] show ?thesis
    by (cases "tk_kind t") (auto simp: stage_def enter_token_def layout_push_def tokens_to_def closes.simps(2)
        after_keyword_def physical_def)
qed

lemma layout_token_stage:
  assumes "stacked c d e (ly_contexts s)" "physical t" "tk_kind t \<noteq> TkEof" "starts_line t \<longrightarrow> c \<le> column t"
    and "ly_pending s \<longrightarrow> e = 0 \<and> tk_kind t \<noteq> TkLBrace"
    and "tk_kind t = TkRBrace \<longrightarrow> 0 < e" "after_keyword (tk_kind t) \<longrightarrow> e = 0"
  shows "\<exists>d'. stage c s d e (layout_token t s) d' (after_brace (tk_kind t) e) \<and>
    ly_pending (layout_token t s) = after_keyword (tk_kind t)"
proof -
  obtain d1 where 1: "stage c s d e (open_pending t s) d1 e" "\<not> ly_pending (open_pending t s)"
    using open_pending_stage [OF assms(1,5)] by blast
  let ?s1 = "open_pending t s"
  let ?s2 = "if starts_line t then separate_item t (close_dedented t ?s1) else clear_first ?s1"
  have "\<exists>d2. stage c ?s1 d1 e ?s2 d2 e \<and> \<not> ly_pending ?s2"
  proof (cases "starts_line t")
    case True
    then obtain d2 where 2: "stage c ?s1 d1 e (close_dedented t ?s1) d2 e" "\<not> ly_pending (close_dedented t ?s1)"
      using close_dedented_stage [of c d1 e ?s1 t] 1 assms(4) by (auto simp: stage_def)
    from separate_item_stage [of c d2 e "close_dedented t ?s1" t] 2 True show ?thesis
      by (auto simp: stage_def [of c _ d1 e "close_dedented t ?s1"] intro: stage_trans [OF 2(1)])
  next
    case False
    with 1 clear_first_stage [of c d1 e ?s1] show ?thesis by (auto simp: stage_def [of c s])
  qed
  then obtain d2 where 2: "stage c ?s1 d1 e ?s2 d2 e" "\<not> ly_pending ?s2" by blast
  then have "stacked c d2 e (ly_contexts ?s2)" by (simp add: stage_def)
  note last = enter_token_stage [OF this 2(2) assms(2,3,6,7)]
  have "stage c s d e (layout_push t (enter_token t ?s2)) d2 (after_brace (tk_kind t) e)"
    using last stage_trans [OF stage_trans [OF 1(1) 2(1)]] by blast
  with last show ?thesis unfolding layout_token_def Let_def by blast
qed

text \<open>At the end of the file.\<close>

lemma close_implicit_closes:
  "stacked c d 0 contexts \<Longrightarrow> tk_kind t = TkEof \<Longrightarrow> closes d 0 (close_implicit t contexts @ [t])"
proof (induction t contexts arbitrary: d rule: close_implicit.induct)
  case (1 t col first contexts)
  show ?case
  proof (cases "contexts = []")
    case False
    with 1(2) have "stacked c (d - 1) 0 contexts" "1 < d" by auto
    with 1(1,3) show ?thesis by (simp add: closes.simps(2))
  qed (use 1 in \<open>simp add: closes.simps(2)\<close>)
qed auto

lemma layout_tokens_closes:
  assumes "flat_braces c e (ly_pending s) ts" "stacked c d e (ly_contexts s)" "ly_pending s \<longrightarrow> e = 0"
  shows "\<exists>more. layout_tokens ts s = ly_output s @ more \<and> closes d e more \<and> (ly_pending s \<longrightarrow> opens_block more)"
  using assms
proof (induction ts arbitrary: d e s)
  case (Cons t ts)
  show ?case
  proof (cases "tk_kind t = TkEof")
    case True
    with Cons.prems close_implicit_closes [of c d "ly_contexts s" t] show ?thesis by auto
  next
    case False
    from Cons.prems False have t: "physical t" "starts_line t \<longrightarrow> c \<le> column t"
      "ly_pending s \<longrightarrow> e = 0 \<and> tk_kind t \<noteq> TkLBrace" "tk_kind t = TkRBrace \<longrightarrow> 0 < e" "after_keyword (tk_kind t) \<longrightarrow> e = 0"
      and ts: "flat_braces c (after_brace (tk_kind t) e) (after_keyword (tk_kind t)) ts"
      by (cases "tk_kind t"; auto simp: after_keyword_def)+
    obtain d' where d': "stage c s d e (layout_token t s) d' (after_brace (tk_kind t) e)"
        "ly_pending (layout_token t s) = after_keyword (tk_kind t)"
      using layout_token_stage [OF Cons.prems(2) t(1) False t(2-5)] by blast
    have "after_keyword (tk_kind t) \<longrightarrow> after_brace (tk_kind t) e = 0"
      using t(5) by (cases "tk_kind t") (auto simp: after_keyword_def)
    with Cons.IH [of "after_brace (tk_kind t) e" "layout_token t s" d'] ts d' obtain more where
      "layout_tokens ts (layout_token t s) = ly_output (layout_token t s) @ more"
      "closes d' (after_brace (tk_kind t) e) more" "ly_pending (layout_token t s) \<longrightarrow> opens_block more"
      by (auto simp: stage_def)
    with d' False show ?thesis
      by (auto simp: stage_def tokens_to_def)
  qed
qed simp

lemma laid_out_file_tokens:
  assumes "laid_out ts"
  shows "file_tokens (insert_layout f ts)"
proof -
  obtain t us where ts: "ts = t # us" using assms by (cases ts) (auto simp: laid_out_def)
  let ?s = "layout_start f ts"
  have s: "stacked (column t) 1 0 (ly_contexts ?s)" "\<not> ly_pending ?s" "length (ly_output ?s) = 1"
    "tk_kind (hd (ly_output ?s)) = TkVirtualLBrace"
    by (auto simp: layout_start_def ts)
  have "flat_braces (column t) 0 (ly_pending ?s) ts" using assms s(2) by (simp add: laid_out_def ts del: flat_braces.simps)
  from layout_tokens_closes [OF this s(1)] s(2) obtain more where
    "insert_layout f ts = ly_output ?s @ more" "closes 1 0 more"
    by (auto simp: insert_layout_def)
  with s(3,4) show ?thesis by (cases "ly_output ?s") auto
qed

text \<open>
  C13: layout closes what it opens.  For tokens whose explicit braces match, hold no \<open>do\<close>
  or \<open>of\<close> and do not open directly after one, whose lines do not start to the left of the
  first token and that do not end with \<open>do\<close> or \<open>of\<close>, the token stream begins with the brace of the file's block, every block and every
  brace is closed in the order it was opened, each \<open>do\<close> and \<open>of\<close> is followed by the
  brace of its block, and \<open>Eof\<close> comes last and only then.
\<close>

theorem insert_layout_closes:
  assumes "laid_out ts"
  shows "file_tokens (insert_layout f ts)"
  by (rule laid_out_file_tokens [OF assms])

theorem insert_layout_closes_witness:
  "file_tokens (insert_layout (sample_file ''x = do y'')
     [sample_token (TkLower ''x'') 0 1 True, sample_token TkEquals 2 3 False, sample_token TkKwDo 4 5 False,
      sample_token (TkLower ''y'') 7 8 False, sample_token TkEof 8 9 False])"
  by (rule insert_layout_closes) (simp add: laid_out_def sample_token_def physical_def)

section \<open>The whole front end\<close>

lemma nesting_from_returns: "nesting_from depth ts limit profile \<noteq> Panic \<and> (\<forall>es. nesting_from depth ts limit profile = Err es \<longrightarrow> es \<noteq> [])"
  by (induction depth ts limit profile rule: nesting_from.induct) (auto split: option.splits)

text \<open>
  C2: the front end is total.  On every source file whose explicit braces match, hold
  no \<open>do\<close> or \<open>of\<close> and do not open directly after one, whose lines do not start to the left of
  the first token and that does not end with \<open>do\<close> or \<open>of\<close>, whatever else its text is, lexing, layout and parsing return: errors
  come as a nonempty list, never as a panic, and a file that is accepted is well formed.  The
  bound on the number of tokens is what keeps 32-bit identifiers from overflowing.
\<close>

theorem parse_total:
  assumes "source_ok f"
    and "\<And>ts. lex upper f = Some (Ok ts) \<Longrightarrow> laid_out (filter physical ts) \<and> length ts \<le> max_source_tokens"
  shows "\<exists>r. parse_with_limits upper f limits = Some r \<and> r \<noteq> Panic \<and>
    (\<forall>file. r = Ok file \<longrightarrow> file_ok file) \<and> (\<forall>es. r = Err es \<longrightarrow> es \<noteq> [])"
proof -
  obtain l tokens where run: "run_calls (lex_round upper) (lexer_new f, []) = Some (Ok (l, tokens))"
    and chain: "token_chain f 0 tokens"
    using lex_run [OF assms(1)] by blast
  show ?thesis
  proof (cases "lx_errors l = []")
    case True
    let ?ts = "insert_layout f tokens"
    have lex: "lex upper f = Some (Ok ?ts)" using run True by (simp add: lex_def)
    have "filter physical ?ts = tokens"
      using token_chain_shape [OF chain] insert_layout_physical by blast
    with assms(2) [OF lex] have "file_tokens ?ts" "length ?ts \<le> max_source_tokens"
      by (auto intro: laid_out_file_tokens)
    from file_parsed [OF this] show ?thesis
      using nesting_from_returns [of 0 ?ts "max_nesting_depth limits" "profile_id limits"]
      by (auto simp: parse_with_limits_def parse_on_current_thread_def lex parse_lexed_def parse_nested_def
          reject_excessive_delimiter_nesting_def split: option.split res.split)
  qed (use run in \<open>simp add: parse_with_limits_def parse_on_current_thread_def lex_def\<close>)
qed

text \<open>A program with a block, a record and nested parentheses.\<close>

definition sample_source :: string where
  "sample_source = ''main = do'' @ [CHR 0x0A] @ ''  x <- f ((a))'' @ [CHR 0x0A] @ ''  M.R {k = x}'' @ [CHR 0x0A]"

theorem parse_total_witness:
  "\<exists>r. parse_with_limits (\<lambda>_. False) (sample_file sample_source) limits_sandboxed = Some r \<and> r \<noteq> Panic \<and>
    (\<forall>file. r = Ok file \<longrightarrow> file_ok file) \<and> (\<forall>es. r = Err es \<longrightarrow> es \<noteq> [])"
proof (rule parse_total)
  show "source_ok (sample_file sample_source)"
    by (simp add: source_ok_def sample_file_def sample_source_def utf8_valid_ascii)
  fix ts assume lex: "lex (\<lambda>_. False) (sample_file sample_source) = Some (Ok ts)"
  have "case lex (\<lambda>_. False) (sample_file sample_source) of
      Some (Ok ts) \<Rightarrow> laid_out (filter physical ts) \<and> length ts \<le> 64 | _ \<Rightarrow> False"
    by code_simp
  with lex show "laid_out (filter physical ts) \<and> length ts \<le> max_source_tokens"
    by (simp add: max_source_tokens_def)
qed

end
