(* ===== verification/Hell_Boundaries.thy ===== *)
theory Hell_Boundaries
  imports Hell_Parse_Total
begin

text \<open>
  Inputs outside the sources of \<open>parse_total\<close>, evaluated: what the front end does with
  braces that are not closed, with lines to the left of the first token, and with blocks
  inside braces.
\<close>

text \<open>A text added to an empty source map, and what the parser makes of the file.\<close>

definition added_file :: "string \<Rightarrow> source_file option" where
  "added_file source = (case snd (add_text [] ''sample'' source) of Ok f \<Rightarrow> Some f | _ \<Rightarrow> None)"

definition parsed :: "string \<Rightarrow> (parsed_file, syntax_error list) res option" where
  "parsed source = Option.bind (added_file source) (parse (\<lambda>_. False))"

lemma parse_code [code]:
  "parse upper f =
    (case lex upper f of
       None \<Rightarrow> None
     | Some (Err es) \<Rightarrow> Some (Err es)
     | Some Panic \<Rightarrow> Some Panic
     | Some (Ok tokens) \<Rightarrow>
         if length tokens \<le> 64 then
           (case reject_excessive_delimiter_nesting tokens (Some 64) ''sandboxed'' of
              Ok _ \<Rightarrow> parse_tokens tokens
            | Err es \<Rightarrow> Some (Err es)
            | Panic \<Rightarrow> Some Panic)
         else parse_lexed f limits_sandboxed tokens)"
  by (auto simp: parse_def parse_with_limits_def parse_on_current_thread_def parse_lexed_def parse_nested_def
      limits_sandboxed_def split: option.split res.split)

definition newline :: string where
  "newline = [CHR 0x0A]"










definition declared_names :: "(parsed_file, syntax_error list) res option \<Rightarrow> string list" where
  "declared_names r = (case r of
     Some (Ok f) \<Rightarrow> map (\<lambda>d. case d of DValue v \<Rightarrow> vd_name v | DRecord v \<Rightarrow> rd_type_name v | DSum v \<Rightarrow> sd_type_name v) (pf_declarations f)
   | _ \<Rightarrow> [])"

fun rejected :: "(parsed_file, syntax_error list) res option \<Rightarrow> bool" where
  "rejected (Some (Err es)) = True"
| "rejected r = False"

text \<open>
  Declarations to the left of the first are dropped.  The first declaration sets the
  column of the file's block; a declaration on a line that starts further left closes the
  block, and the parser stops there: it accepts the file without the declarations that
  follow.
\<close>

theorem outdented_declarations_dropped:
  "declared_names (parsed (''  x = 1'' @ newline @ ''y = 2'')) = [''x''] \<and>
   declared_names (parsed (''  x = 1'' @ newline @ ''  y = 2'')) = [''x'', ''y'']"
  by (intro conjI; code_simp)

text \<open>
  A block cannot end at the closing brace of a record.  Layout drops the contexts of the
  blocks inside an explicit brace without closing them, so a \<open>do\<close> in a field is rejected,
  while the same block in parentheses is accepted.
\<close>

theorem record_brace_does_not_close_blocks:
  "rejected (parsed ''x = M.R {a = do q}'') \<and>
   declared_names (parsed ''x = M.R {a = q}'') = [''x''] \<and> declared_names (parsed ''x = (do q)'') = [''x'']"
  by (intro conjI; code_simp)

end
