(* ===== verification/Hell_Registry.thy ===== *)
theory Hell_Registry
  imports Hell_Types
begin

text \<open>
  The data of crate \<open>hell-builtins\<close>: type classes and their instances, the specification
  of a builtin, and the tables that are keyed by its name.  A string of the sources with an
  apostrophe is written with the character \<open>CHR 0x27\<close>.
\<close>

section \<open>Classes and instances\<close>

datatype builtin_class = ShowClass | EqClass | OrdClass | MonadClass | FunctorClass
  | ApplicativeClass | AlternativeClass | MonoidClass | SemigroupClass | FoldCaseClass

datatype class_head_kind = HeadType | HeadUnaryTypeConstructor

definition all_classes :: "builtin_class list" where
  "all_classes = [ShowClass, EqClass, OrdClass, MonadClass, FunctorClass, ApplicativeClass,
     AlternativeClass, MonoidClass, SemigroupClass, FoldCaseClass]"

fun class_text :: "builtin_class \<Rightarrow> string" where
  "class_text ShowClass = ''Show''"
| "class_text EqClass = ''Eq''"
| "class_text OrdClass = ''Ord''"
| "class_text MonadClass = ''Monad''"
| "class_text FunctorClass = ''Functor''"
| "class_text ApplicativeClass = ''Applicative''"
| "class_text AlternativeClass = ''Alternative''"
| "class_text MonoidClass = ''Monoid''"
| "class_text SemigroupClass = ''Semigroup''"
| "class_text FoldCaseClass = ''FoldCase''"

fun head_kind :: "builtin_class \<Rightarrow> class_head_kind" where
  "head_kind MonadClass = HeadUnaryTypeConstructor"
| "head_kind FunctorClass = HeadUnaryTypeConstructor"
| "head_kind ApplicativeClass = HeadUnaryTypeConstructor"
| "head_kind AlternativeClass = HeadUnaryTypeConstructor"
| "head_kind _ = HeadType"

datatype instance_resolution = Direct nat | Entail nat

fun head_arity :: "instance_resolution \<Rightarrow> nat" where
  "head_arity (Direct arity) = arity"
| "head_arity (Entail arity) = arity"

fun premise_count :: "instance_resolution \<Rightarrow> nat" where
  "premise_count (Direct _) = 0"
| "premise_count (Entail count) = count"

record instance_spec =
  in_class :: builtin_class
  in_target :: string
  in_resolution :: instance_resolution

text \<open>\<open>instance\<close>: the first entry of the manifest for the class and the target.\<close>

definition find_instance :: "instance_spec list \<Rightarrow> builtin_class \<Rightarrow> string \<Rightarrow> instance_spec option" where
  "find_instance instances cls target =
    List.find (\<lambda>spec. in_class spec = cls \<and> in_target spec = target) instances"

definition resolve_instance ::
  "instance_spec list \<Rightarrow> builtin_class \<Rightarrow> string \<Rightarrow> nat \<Rightarrow> (nat \<Rightarrow> bool) \<Rightarrow> bool" where
  "resolve_instance instances cls target argument_count has_premise =
    (case find_instance instances cls target of
       None \<Rightarrow> False
     | Some spec \<Rightarrow>
         if head_arity (in_resolution spec) \<noteq> argument_count then False
         else list_all has_premise [0..<premise_count (in_resolution spec)])"

section \<open>Builtins\<close>

datatype visibility = PublicName | InternalName

datatype demand = Lazy | Whnf | Deep | OnIoExecution | Conditional

datatype fixity_spec = FixityLeft nat | FixityRight nat

datatype wiring_status = DeclaredOnly | Executable

record builtin_spec =
  bs_id :: nat
  bs_name :: string
  bs_visibility :: visibility
  bs_scheme :: "string option"
  bs_arity :: nat
  bs_demand :: "demand list"
  bs_fixity :: "fixity_spec option"
  bs_wiring :: wiring_status
  bs_type_class :: "builtin_class option"
  bs_implementation :: "string option"

definition lookup_builtin :: "builtin_spec list \<Rightarrow> string \<Rightarrow> builtin_spec option" where
  "lookup_builtin specs name = List.find (\<lambda>spec. bs_name spec = name) specs"

datatype head_projection = FunctionArgument nat | FunctionResult | ApplyFunction | ApplyArgument

text \<open>The path from a constrained builtin's type to the head that its class constrains.\<close>

definition instance_head_projection :: "string \<Rightarrow> head_projection list option" where
  "instance_head_projection name =
    (if name \<in> set [''Show.show'', ''IO.print'', ''Eq.eq'', ''Ord.lt'', ''Ord.gt'', ''List.lookup'', ''List.elem'',
         ''List.notElem'', ''List.elemIndex'', ''List.elemIndices'', ''Map.lookup'', ''Map.insert'',
         ''Map.delete'', ''Map.singleton'', ''Set.insert'', ''Set.member'', ''Set.delete'',
         ''Set.singleton'', ''CI.mk'', ''<>'']
     then Some [FunctionArgument 0]
     else if name \<in> set [''Map.insertWith'', ''Map.adjust''] then Some [FunctionArgument 1]
     else if name \<in> set [''List.group'', ''List.isInfixOf'', ''List.isPrefixOf'', ''List.isSubsequenceOf'',
         ''List.isSuffixOf'', ''List.sort'', ''List.nubOrd'', ''Set.union'', ''Set.difference'', ''Set.intersection'']
     then Some [FunctionArgument 0, ApplyArgument]
     else if name = ''List.sortOn'' then Some [FunctionArgument 0, FunctionResult]
     else if name = ''Map.fromList'' then Some [FunctionResult, ApplyFunction, ApplyArgument]
     else if name = ''Map.unionWith'' then Some [FunctionArgument 1, ApplyFunction, ApplyArgument]
     else if name = ''Set.fromList'' then Some [FunctionResult, ApplyArgument]
     else if name \<in> set [''Functor.fmap'', ''<$>'', ''Monad.when''] then Some [FunctionArgument 1, ApplyFunction]
     else if name \<in> set [''Applicative.pure'', ''Monad.return''] then Some [FunctionResult, ApplyFunction]
     else if name \<in> set [''<*>'', ''<**>'', ''Alternative.optional'', ''Alternative.many'', ''Monad.bind'', ''Monad.then'']
     then Some [FunctionArgument 0, ApplyFunction]
     else if name \<in> set [''Monad.mapM'', ''Monad.mapM_''] then Some [FunctionArgument 0, FunctionResult, ApplyFunction]
     else if name \<in> set [''Monad.forM'', ''Monad.forM_''] then Some [FunctionArgument 1, FunctionResult, ApplyFunction]
     else if name = ''Monad.sequence'' then Some [FunctionArgument 0, ApplyArgument, ApplyFunction]
     else None)"

definition builtin_type_class :: "string \<Rightarrow> builtin_class option" where
  "builtin_type_class name =
    (if name \<in> set [''Show.show'', ''IO.print''] then Some ShowClass
     else if name \<in> set [''Eq.eq'', ''List.lookup'', ''List.elem'', ''List.notElem'', ''List.elemIndex'',
         ''List.elemIndices'', ''List.group'', ''List.isInfixOf'', ''List.isPrefixOf'', ''List.isSubsequenceOf'',
         ''List.isSuffixOf'']
     then Some EqClass
     else if name \<in> set [''Ord.lt'', ''Ord.gt'', ''List.sort'', ''List.sortOn'', ''List.nubOrd'', ''Map.fromList'',
         ''Map.lookup'', ''Map.insert'', ''Map.delete'', ''Map.singleton'', ''Map.insertWith'', ''Map.adjust'',
         ''Map.unionWith'', ''Set.fromList'', ''Set.insert'', ''Set.member'', ''Set.delete'', ''Set.union'',
         ''Set.difference'', ''Set.intersection'', ''Set.singleton'']
     then Some OrdClass
     else if name \<in> set [''Functor.fmap'', ''<$>''] then Some FunctorClass
     else if name \<in> set [''Applicative.pure'', ''<*>'', ''<**>''] then Some ApplicativeClass
     else if name \<in> set [''Monad.bind'', ''Monad.then'', ''Monad.return'', ''Monad.mapM'', ''Monad.mapM_'',
         ''Monad.forM'', ''Monad.forM_'', ''Monad.sequence'', ''Monad.when'']
     then Some MonadClass
     else if name \<in> set [''Alternative.optional'', ''Alternative.many''] then Some AlternativeClass
     else if name = ''<>'' then Some SemigroupClass
     else if name = ''CI.mk'' then Some FoldCaseClass
     else None)"

definition operator_fixity :: "string \<Rightarrow> fixity_spec option" where
  "operator_fixity name =
    (if name = ''$'' then Some (FixityRight 0)
     else if name \<in> set [''<$>'', ''<*>'', ''<**>''] then Some (FixityLeft 4)
     else if name = ''<>'' then Some (FixityRight 6)
     else if name = ''.'' then Some (FixityRight 9)
     else None)"

end
