(* ===== verification/Hell_Core.thy ===== *)
theory Hell_Core
  imports Hell_Registry Hell_Source
begin

text \<open>
  Crate \<open>hell-core\<close>: typed core and \<open>verify\<close>, the independent checker that seals a
  program for the runtime.  It checks the nominal layouts, that the nodes form a tree, the
  type of every node against its own parts, the class evidence and the type of \<open>main\<close>.
  Type identifiers, core identifiers and plan identifiers are natural numbers.
\<close>

section \<open>Programs\<close>

datatype projection = Identity | TupleElement nat nat

datatype core_constant = ConstUnit | ConstBool bool | ConstInt "64 word" | ConstDouble "64 word"
  | ConstCharacter nat | ConstText string

record record_field_layout =
  rfl_name :: string
  rfl_ty :: nat

record record_layout =
  rl_type_name :: string
  rl_constructor :: string
  rl_fields :: "record_field_layout list"

record variant_constructor_layout =
  vcl_name :: string
  vcl_payload :: "nat option"

record variant_layout =
  vl_type_name :: string
  vl_constructors :: "variant_constructor_layout list"

record case_branch =
  cb_constructor_index :: nat
  cb_payload_type :: "nat option"
  cb_body :: nat

record class_evidence =
  ce_class :: builtin_class
  ce_head :: nat
  ce_plan :: nat

record evidence_plan =
  ep_class :: builtin_class
  ep_head :: nat
  ep_resolution :: instance_resolution
  ep_premises :: "nat list"

datatype core_kind =
    CoreBoundVar nat projection
  | CoreLambda nat nat
  | CoreApply nat nat
  | CoreConstant core_constant
  | CoreBuiltin nat "class_evidence option"
  | CoreTuple "nat list"
  | CoreList "nat list"
  | CoreRecord record_layout "nat list"
  | CoreRecordGet record_layout nat nat
  | CoreRecordSet record_layout nat nat nat
  | CoreRecordModify record_layout nat nat nat
  | CoreVariant variant_layout nat "nat option"
  | CoreCase nat variant_layout "case_branch list" "nat option"

record core_node =
  cn_ty :: nat
  cn_span :: span
  cn_kind :: core_kind

record builtin_evidence =
  be_parsed :: "nat list"
  be_resolved :: "nat list"
  be_specialized :: "nat list"

record core_program =
  cp_root :: nat
  cp_nodes :: "core_node list"
  cp_types :: type_arena
  cp_main_type :: nat
  cp_instance_evidence :: "evidence_plan list"
  cp_compiler_evidence :: builtin_evidence

text \<open>What the checker takes from the registry: the builtins and the instances.\<close>

record registry =
  reg_specs :: "builtin_spec list"
  reg_instances :: "instance_spec list"

section \<open>Errors\<close>

record verification_error =
  ve_message :: string
  ve_node :: "nat option"
  ve_span :: "span option"

definition error_at :: "nat \<Rightarrow> core_node \<Rightarrow> string \<Rightarrow> verification_error" where
  "error_at i node message = \<lparr>ve_message = message, ve_node = Some i, ve_span = Some (cn_span node)\<rparr>"

definition error_edge :: "nat \<Rightarrow> string \<Rightarrow> verification_error" where
  "error_edge i message = \<lparr>ve_message = message, ve_node = Some i, ve_span = None\<rparr>"

text \<open>A check that may call a loop over a type (\<open>None\<close> when that loop does not return).\<close>

type_synonym 'a checked = "('a, verification_error) res option"

definition done_with :: "'a \<Rightarrow> 'a checked" where
  "done_with x = Some (Ok x)"

definition refuse :: "verification_error \<Rightarrow> 'a checked" where
  "refuse e = Some (Err e)"

definition cbind :: "'a checked \<Rightarrow> ('a \<Rightarrow> 'b checked) \<Rightarrow> 'b checked" where
  "cbind m f = (case m of
     None \<Rightarrow> None | Some (Ok x) \<Rightarrow> f x | Some (Err e) \<Rightarrow> Some (Err e) | Some Panic \<Rightarrow> Some Panic)"

definition lift_res :: "('a, verification_error) res \<Rightarrow> 'a checked" where
  "lift_res r = Some r"

text \<open>\<open>types.get(ty)\<close>\<close>

definition get_type :: "type_arena \<Rightarrow> nat \<Rightarrow> type_node checked" where
  "get_type types ty = (case type_get types ty of None \<Rightarrow> Some Panic | Some node \<Rightarrow> Some (Ok node))"

section \<open>Looking at types\<close>

fun node_name :: "type_node \<Rightarrow> string option" where
  "node_name (TConstructor name _) = Some name"
| "node_name _ = None"

definition constructor_name :: "type_arena \<Rightarrow> nat \<Rightarrow> string option checked" where
  "constructor_name types ty = cbind (get_type types ty) (\<lambda>node. done_with (node_name node))"

text \<open>The head of nested applications and their arguments from left to right.\<close>

partial_function (option) type_spine :: "type_arena \<Rightarrow> nat \<Rightarrow> nat list \<Rightarrow> (nat \<times> nat list) checked" where
  "type_spine types ty arguments =
    (case type_get types ty of
       None \<Rightarrow> Some Panic
     | Some node \<Rightarrow>
        (case node of
           TApply function argument \<Rightarrow> type_spine types function (argument # arguments)
         | _ \<Rightarrow> Some (Ok (ty, arguments))))"

declare type_spine.simps [code]

definition type_head_name :: "type_arena \<Rightarrow> nat \<Rightarrow> string option checked" where
  "type_head_name types ty = cbind (type_spine types ty []) (\<lambda>(head, _). constructor_name types head)"

partial_function (option) function_parts :: "type_arena \<Rightarrow> nat \<Rightarrow> nat list \<Rightarrow> (nat list \<times> nat) checked" where
  "function_parts types ty arguments =
    (case type_get types ty of
       None \<Rightarrow> Some Panic
     | Some node \<Rightarrow>
        (case node of
           TFunction argument result \<Rightarrow> function_parts types result (arguments @ [argument])
         | _ \<Rightarrow> Some (Ok (arguments, ty))))"

declare function_parts.simps [code]

text \<open>One round of the loop of \<open>type_is_closed\<close>; the stack has its top in front.\<close>

definition closed_step :: "type_arena \<Rightarrow> nat list \<times> nat set \<Rightarrow> nat list \<times> nat set + (bool, verification_error) res" where
  "closed_step types s =
    (case s of
       ([], visited) \<Rightarrow> Inr (Ok True)
     | (ty # stack, visited) \<Rightarrow>
        if ty \<in> visited then Inl (stack, visited)
        else (case type_get types ty of
          None \<Rightarrow> Inr Panic
        | Some node \<Rightarrow>
           (case node of
              TMeta _ \<Rightarrow> Inr (Ok False)
            | TBound _ \<Rightarrow> Inr (Ok False)
            | TApply left right \<Rightarrow> Inl (right # left # stack, insert ty visited)
            | TFunction left right \<Rightarrow> Inl (right # left # stack, insert ty visited)
            | TRowCons _ field tail \<Rightarrow> Inl (tail # field # stack, insert ty visited)
            | _ \<Rightarrow> Inl (stack, insert ty visited))))"

definition type_is_closed :: "type_arena \<Rightarrow> nat \<Rightarrow> bool checked" where
  "type_is_closed types root = run (closed_step types) ([root], {})"

fun constant_type_name :: "core_constant \<Rightarrow> string" where
  "constant_type_name ConstUnit = ''()''"
| "constant_type_name (ConstBool _) = ''Bool''"
| "constant_type_name (ConstInt _) = ''Int''"
| "constant_type_name (ConstDouble _) = ''Double''"
| "constant_type_name (ConstCharacter _) = ''Char''"
| "constant_type_name (ConstText _) = ''Text''"

definition constant_has_type :: "type_arena \<Rightarrow> core_constant \<Rightarrow> nat \<Rightarrow> bool checked" where
  "constant_has_type types c ty =
    cbind (constructor_name types ty) (\<lambda>name. done_with (name = Some (constant_type_name c)))"

section \<open>The layouts\<close>

fun record_layout_of :: "core_kind \<Rightarrow> record_layout option" where
  "record_layout_of (CoreRecord layout _) = Some layout"
| "record_layout_of (CoreRecordGet layout _ _) = Some layout"
| "record_layout_of (CoreRecordSet layout _ _ _) = Some layout"
| "record_layout_of (CoreRecordModify layout _ _ _) = Some layout"
| "record_layout_of _ = None"

fun variant_layout_of :: "core_kind \<Rightarrow> variant_layout option" where
  "variant_layout_of (CoreVariant layout _ _) = Some layout"
| "variant_layout_of (CoreCase _ layout _ _) = Some layout"
| "variant_layout_of _ = None"

text \<open>\<open>insert\<close> into a map of layouts; \<open>None\<close> when another layout was there.\<close>

definition insert_layout_name :: "(string \<rightharpoonup> 'l) \<Rightarrow> string \<Rightarrow> 'l \<Rightarrow> (string \<rightharpoonup> 'l) option" where
  "insert_layout_name m name layout =
    (case m name of
       Some previous \<Rightarrow> if previous \<noteq> layout then None else Some (m(name \<mapsto> layout))
     | None \<Rightarrow> Some (m(name \<mapsto> layout)))"

definition record_layout_step ::
  "nat \<Rightarrow> core_node \<Rightarrow> (string \<rightharpoonup> record_layout) \<Rightarrow> (string \<rightharpoonup> record_layout, verification_error) res" where
  "record_layout_step i node m =
    (case record_layout_of (cn_kind node) of
       None \<Rightarrow> Ok m
     | Some layout \<Rightarrow>
        ok_or (error_at i node ''conflicting record layouts share one nominal type'')
          (insert_layout_name m (rl_type_name layout) layout))"

definition variant_layout_step ::
  "nat \<Rightarrow> core_node \<Rightarrow> (string \<rightharpoonup> variant_layout) \<Rightarrow> (string \<rightharpoonup> variant_layout, verification_error) res" where
  "variant_layout_step i node m =
    (case variant_layout_of (cn_kind node) of
       None \<Rightarrow> Ok m
     | Some layout \<Rightarrow>
        ok_or (error_at i node ''conflicting variant layouts share one nominal type'')
          (insert_layout_name m (vl_type_name layout) layout))"

fun check_layouts ::
  "nat \<Rightarrow> core_node list \<Rightarrow> (string \<rightharpoonup> record_layout) \<Rightarrow> (string \<rightharpoonup> variant_layout) \<Rightarrow>
   (unit, verification_error) res" where
  "check_layouts index [] records variants = Ok ()"
| "check_layouts index (node # nodes) records variants =
    (let i = u32_saturate index in
     res_bind (record_layout_step i node records) (\<lambda>records'.
     res_bind (variant_layout_step i node variants) (\<lambda>variants'.
       check_layouts (index + 1) nodes records' variants')))"

section \<open>The tree\<close>

text \<open>The children of a node in the order in which they are visited.\<close>

fun core_children :: "core_kind \<Rightarrow> nat list" where
  "core_children (CoreBoundVar _ _) = []"
| "core_children (CoreLambda _ body) = [body]"
| "core_children (CoreApply function argument) = [function, argument]"
| "core_children (CoreConstant _) = []"
| "core_children (CoreBuiltin _ _) = []"
| "core_children (CoreTuple elements) = elements"
| "core_children (CoreList elements) = elements"
| "core_children (CoreRecord _ parts) = parts"
| "core_children (CoreRecordGet _ _ record) = [record]"
| "core_children (CoreRecordSet _ _ v record) = [v, record]"
| "core_children (CoreRecordModify _ _ function record) = [function, record]"
| "core_children (CoreVariant _ _ payload) = (case payload of None \<Rightarrow> [] | Some p \<Rightarrow> [p])"
| "core_children (CoreCase scrutinee _ branches fallback) =
    scrutinee # map cb_body branches @ (case fallback of None \<Rightarrow> [] | Some d \<Rightarrow> [d])"

record graph_state =
  g_stack :: "(nat \<times> bool) list"
  g_colors :: "nat list"
  g_incoming :: "nat list"

text \<open>\<open>push_child\<close> on the children, the last one first.\<close>

fun push_children ::
  "core_node list \<Rightarrow> nat \<Rightarrow> core_node \<Rightarrow> nat list \<Rightarrow> graph_state \<Rightarrow> (graph_state, verification_error) res" where
  "push_children nodes i node [] s = Ok s"
| "push_children nodes i node (child # cs) s =
    (case vget (g_incoming s) child of
       None \<Rightarrow> Err (error_at i node ''core edge is out of bounds'')
     | Some count \<Rightarrow>
        (let count' = u32_saturate (count + 1) in
         if 1 < count' then
           (case vget nodes child of
              None \<Rightarrow> Panic
            | Some child_node \<Rightarrow>
                Err (error_at child child_node ''shared core node lacks an environment capture key''))
         else push_children nodes i node cs
                (s\<lparr>g_incoming := (g_incoming s)[child := count'], g_stack := (child, False) # g_stack s\<rparr>)))"

definition graph_enter ::
  "core_node list \<Rightarrow> nat \<Rightarrow> core_node \<Rightarrow> graph_state \<Rightarrow> (graph_state, verification_error) res" where
  "graph_enter nodes i node s =
    push_children nodes i node (rev (core_children (cn_kind node)))
      (s\<lparr>g_colors := (g_colors s)[i := 1], g_stack := (i, True) # g_stack s\<rparr>)"

definition graph_step ::
  "core_node list \<Rightarrow> graph_state \<Rightarrow> graph_state + (unit, verification_error) res" where
  "graph_step nodes s =
    (case g_stack s of
       [] \<Rightarrow> Inr (Ok ())
     | (i, exiting) # stack \<Rightarrow>
        (let s' = s\<lparr>g_stack := stack\<rparr> in
         case vget nodes i of
           None \<Rightarrow> Inr (Err (error_edge i ''core edge is out of bounds''))
         | Some node \<Rightarrow>
            if exiting then Inl (s'\<lparr>g_colors := (g_colors s')[i := 2]\<rparr>)
            else (case vget (g_colors s') i of
                None \<Rightarrow> Inr Panic
              | Some color \<Rightarrow>
                  if color = 1 then Inr (Err (error_at i node ''cyclic core graph''))
                  else if color = 2 then Inl s'
                  else (case graph_enter nodes i node s' of
                      Ok s'' \<Rightarrow> Inl s'' | Err e \<Rightarrow> Inr (Err e) | Panic \<Rightarrow> Inr Panic))))"

definition check_graph :: "core_node list \<Rightarrow> nat \<Rightarrow> (unit, verification_error) res option" where
  "check_graph nodes root =
    run (graph_step nodes)
      \<lparr>g_stack = [(root, False)], g_colors = replicate (length nodes) 0, g_incoming = replicate (length nodes) 0\<rparr>"

section \<open>Guards\<close>

text \<open>The condition of an \<open>if\<close> whose branch refuses the program, evaluated from the left.\<close>

definition both :: "bool checked \<Rightarrow> bool checked \<Rightarrow> bool checked" where
  "both m n = cbind m (\<lambda>b. if b then n else done_with False)"

definition require :: "bool checked \<Rightarrow> verification_error \<Rightarrow> 'a checked \<Rightarrow> 'a checked" where
  "require m e rest = cbind m (\<lambda>b. if b then rest else refuse e)"

text \<open>\<open>computed[child]\<close>\<close>

definition computed_at :: "nat option list \<Rightarrow> nat \<Rightarrow> nat option checked" where
  "computed_at computed child = (case vget computed child of None \<Rightarrow> Some Panic | Some t \<Rightarrow> Some (Ok t))"

definition has_computed :: "nat option list \<Rightarrow> nat \<Rightarrow> nat \<Rightarrow> bool checked" where
  "has_computed computed child ty = cbind (computed_at computed child) (\<lambda>t. done_with (t = Some ty))"

fun all_computed :: "nat option list \<Rightarrow> nat list \<Rightarrow> nat list \<Rightarrow> bool checked" where
  "all_computed computed (child # cs) (ty # tys) =
    both (has_computed computed child ty) (all_computed computed cs tys)"
| "all_computed computed _ _ = done_with True"

definition head_is :: "type_arena \<Rightarrow> nat \<Rightarrow> string \<Rightarrow> bool checked" where
  "head_is types ty name = cbind (type_head_name types ty) (\<lambda>n. done_with (n = Some name))"

definition constructor_is :: "type_arena \<Rightarrow> nat \<Rightarrow> string \<Rightarrow> bool checked" where
  "constructor_is types ty name = cbind (constructor_name types ty) (\<lambda>n. done_with (n = Some name))"

section \<open>Class evidence\<close>

definition instance_head :: "type_arena \<Rightarrow> nat \<Rightarrow> (string \<times> nat list) option checked" where
  "instance_head types ty = cbind (type_spine types ty []) (\<lambda>(head, arguments).
     cbind (constructor_name types head) (\<lambda>name.
       done_with (case name of None \<Rightarrow> None | Some target \<Rightarrow> Some (target, arguments))))"

definition project_head :: "type_arena \<Rightarrow> nat \<Rightarrow> head_projection \<Rightarrow> nat option checked" where
  "project_head types current projection =
    (case projection of
       FunctionArgument index \<Rightarrow>
         cbind (function_parts types current []) (\<lambda>(arguments, _). done_with (vget arguments index))
     | FunctionResult \<Rightarrow> cbind (function_parts types current []) (\<lambda>(_, result). done_with (Some result))
     | ApplyFunction \<Rightarrow> cbind (get_type types current) (\<lambda>node.
         done_with (case node of TApply function _ \<Rightarrow> Some function | _ \<Rightarrow> None))
     | ApplyArgument \<Rightarrow> cbind (get_type types current) (\<lambda>node.
         done_with (case node of TApply _ argument \<Rightarrow> Some argument | _ \<Rightarrow> None)))"

fun project_heads :: "type_arena \<Rightarrow> nat \<Rightarrow> head_projection list \<Rightarrow> nat option checked" where
  "project_heads types current [] = done_with (Some current)"
| "project_heads types current (projection # projections) =
    cbind (project_head types current projection) (\<lambda>t.
      case t of None \<Rightarrow> done_with None | Some current' \<Rightarrow> project_heads types current' projections)"

definition builtin_instance_head :: "type_arena \<Rightarrow> string \<Rightarrow> nat \<Rightarrow> nat option checked" where
  "builtin_instance_head types name ty =
    (case instance_head_projection name of
       None \<Rightarrow> done_with None
     | Some projections \<Rightarrow> project_heads types ty projections)"

datatype plan_work = Enter nat | Leave nat

text \<open>The premises of a plan against the arguments of its head.\<close>

fun premises_fit :: "evidence_plan list \<Rightarrow> builtin_class \<Rightarrow> nat list \<Rightarrow> nat list \<Rightarrow> bool checked" where
  "premises_fit plans cls [] arguments = done_with True"
| "premises_fit plans cls (premise # premises) arguments =
    (case vget plans premise of
       None \<Rightarrow> done_with False
     | Some child \<Rightarrow>
        if ep_class child \<noteq> cls then done_with False
        else (case arguments of
           [] \<Rightarrow> Some Panic
         | argument # arguments' \<Rightarrow>
             if ep_head child \<noteq> argument then done_with False
             else premises_fit plans cls premises arguments'))"

definition plan_fits :: "type_arena \<Rightarrow> instance_spec list \<Rightarrow> evidence_plan list \<Rightarrow> evidence_plan \<Rightarrow> bool checked" where
  "plan_fits types instances plans plan = cbind (instance_head types (ep_head plan)) (\<lambda>h.
     case h of
       None \<Rightarrow> done_with False
     | Some (target, arguments) \<Rightarrow>
        (case find_instance instances (ep_class plan) target of
           None \<Rightarrow> done_with False
         | Some spec \<Rightarrow>
            if ep_resolution plan \<noteq> in_resolution spec
              \<or> head_arity (in_resolution spec) \<noteq> length arguments
              \<or> length (ep_premises plan) \<noteq> premise_count (in_resolution spec)
            then done_with False
            else premises_fit plans (ep_class plan) (ep_premises plan) arguments))"

type_synonym evidence_state = "plan_work list \<times> nat set \<times> nat set"

fun evidence_step ::
  "type_arena \<Rightarrow> instance_spec list \<Rightarrow> evidence_plan list \<Rightarrow> evidence_state \<Rightarrow>
   (evidence_state + (nat set option, verification_error) res) option" where
  "evidence_step types instances plans ([], active, visited) = Some (Inr (Ok (Some visited)))"
| "evidence_step types instances plans (Leave i # work, active, visited) =
    (if i \<notin> active then Some (Inr (Ok None)) else Some (Inl (work, active - {i}, visited)))"
| "evidence_step types instances plans (Enter i # work, active, visited) =
    (if i \<in> active then Some (Inr (Ok None))
     else if i \<in> visited then Some (Inl (work, active, visited))
     else (case vget plans i of
        None \<Rightarrow> Some (Inr (Ok None))
      | Some plan \<Rightarrow>
          call (plan_fits types instances plans plan) (\<lambda>fits.
            if \<not> fits then Some (Inr (Ok None))
            else Some (Inl (map Enter (ep_premises plan) @ Leave i # work, insert i active, insert i visited)))))"

definition validate_evidence_graph ::
  "type_arena \<Rightarrow> instance_spec list \<Rightarrow> evidence_plan list \<Rightarrow> nat \<Rightarrow> nat set option checked" where
  "validate_evidence_graph types instances plans root =
    run_calls (evidence_step types instances plans) ([Enter root], {}, {})"

definition validate_evidence_plan ::
  "type_arena \<Rightarrow> instance_spec list \<Rightarrow> evidence_plan list \<Rightarrow> class_evidence \<Rightarrow> bool checked" where
  "validate_evidence_plan types instances plans evidence =
    (case vget plans (ce_plan evidence) of
       None \<Rightarrow> done_with False
     | Some root \<Rightarrow>
        if ep_class root = ce_class evidence \<and> ep_head root = ce_head evidence
        then cbind (validate_evidence_graph types instances plans (ce_plan evidence))
               (\<lambda>v. done_with (v \<noteq> None))
        else done_with False)"

fun evidence_root :: "core_kind \<Rightarrow> nat option" where
  "evidence_root (CoreBuiltin _ (Some evidence)) = Some (ce_plan evidence)"
| "evidence_root _ = None"

text \<open>The plans reached from the other roots; \<open>None\<close> when one of them is refused.\<close>

fun reach_plans ::
  "type_arena \<Rightarrow> instance_spec list \<Rightarrow> evidence_plan list \<Rightarrow> nat list \<Rightarrow> nat set \<Rightarrow> nat set option checked" where
  "reach_plans types instances plans [] reachable = done_with (Some reachable)"
| "reach_plans types instances plans (root # roots) reachable =
    cbind (validate_evidence_graph types instances plans root) (\<lambda>v.
      case v of
        None \<Rightarrow> done_with None
      | Some ids \<Rightarrow> reach_plans types instances plans roots (reachable \<union> ids))"

definition inventory_is_exact :: "registry \<Rightarrow> core_program \<Rightarrow> bool checked" where
  "inventory_is_exact reg p =
    (let types = cp_types p; instances = reg_instances reg; plans = cp_instance_evidence p in
     case List.map_filter (\<lambda>node. evidence_root (cn_kind node)) (cp_nodes p) of
       [] \<Rightarrow> done_with (plans = [])
     | first # roots \<Rightarrow>
        cbind (validate_evidence_graph types instances plans first) (\<lambda>v.
        cbind (reach_plans types instances plans roots (case v of None \<Rightarrow> {} | Some ids \<Rightarrow> ids)) (\<lambda>r.
          done_with (case r of
            None \<Rightarrow> False
          | Some reachable \<Rightarrow>
              card reachable = length plans \<and>
              distinct (map (\<lambda>plan. (ep_class plan, ep_head plan)) plans)))))"

end
