(* ===== verification/Hell_Checker.thy ===== *)
theory Hell_Checker
  imports Hell_Core
begin

text \<open>
  The second half of \<open>verify\<close> in crate \<open>hell-core\<close>: the type pass, which recomputes
  the type of every node from its parts, and the checks of the whole program.  One
  definition per arm of the pass; \<open>locals\<close> has the innermost local last, as the code
  has it.
\<close>

section \<open>The types of builtins\<close>

definition arrow :: "type_arena \<Rightarrow> nat \<Rightarrow> (nat \<times> nat) option checked" where
  "arrow types ty = cbind (get_type types ty) (\<lambda>node.
     done_with (case node of TFunction argument result \<Rightarrow> Some (argument, result) | _ \<Rightarrow> None))"

text \<open>\<open>arrow(ty).is_some_and(...)\<close>\<close>

definition when_arrow :: "type_arena \<Rightarrow> nat \<Rightarrow> (nat \<Rightarrow> nat \<Rightarrow> bool checked) \<Rightarrow> bool checked" where
  "when_arrow types ty f = cbind (arrow types ty) (\<lambda>a.
     case a of None \<Rightarrow> done_with False | Some (argument, result) \<Rightarrow> f argument result)"

definition displayed :: "type_arena \<Rightarrow> nat \<Rightarrow> string checked" where
  "displayed types ty =
    (case display types ty of
       Some (Ok text) \<Rightarrow> Some (Ok text) | Some _ \<Rightarrow> Some Panic | None \<Rightarrow> None)"

text \<open>The builtins whose type is fixed, with its text.\<close>

definition fixed_type :: "string \<Rightarrow> string option" where
  "fixed_type name =
    (if name \<in> set [''Bool.False'', ''Bool.True''] then Some ''Bool''
     else if name = ''Bool.not'' then Some ''Bool -> Bool''
     else if name \<in> set [''Int.plus'', ''Int.subtract'', ''Int.mult''] then Some ''Int -> Int -> Int''
     else if name = ''Int.eq'' then Some ''Int -> Int -> Bool''
     else if name = ''Int.show'' then Some ''Int -> Text''
     else if name = ''Text.eq'' then Some ''Text -> Text -> Bool''
     else if name = ''Text.length'' then Some ''Text -> Int''
     else if name = ''Text.reverse'' then Some ''Text -> Text''
     else if name \<in> set [''Text.putStr'', ''Text.putStrLn''] then Some ''Text -> IO ()''
     else None)"

text \<open>The builtins of which a shape is asked; \<open>None\<close> for the others.\<close>

definition shape_check :: "type_arena \<Rightarrow> string \<Rightarrow> nat \<Rightarrow> bool checked option" where
  "shape_check types name ty =
    (if name \<in> set [''Eq.eq'', ''Ord.lt'', ''Ord.gt''] then
       Some (when_arrow types ty (\<lambda>left rest. when_arrow types rest (\<lambda>right result.
         both (done_with (left = right)) (constructor_is types result ''Bool''))))
     else if name = ''Function.id'' then
       Some (when_arrow types ty (\<lambda>argument result. done_with (argument = result)))
     else if name = ''Function.fix'' then
       Some (when_arrow types ty (\<lambda>function result. when_arrow types function (\<lambda>argument function_result.
         done_with (argument = result \<and> function_result = result))))
     else if name = ''Error.error'' then
       Some (when_arrow types ty (\<lambda>argument _. constructor_is types argument ''Text''))
     else if name = ''hell:Hell.NilR'' then Some (head_is types ty ''hell:Hell.Record'')
     else if name = ''hell:Hell.ConsR'' then
       Some (when_arrow types ty (\<lambda>_ rest. when_arrow types rest (\<lambda>tail result.
         both (head_is types tail ''hell:Hell.Record'') (head_is types result ''hell:Hell.Record''))))
     else if name = ''hell:Hell.LeftV'' then
       Some (when_arrow types ty (\<lambda>_ result. head_is types result ''hell:Hell.Variant''))
     else if name = ''hell:Hell.RightV'' then
       Some (when_arrow types ty (\<lambda>v result.
         both (head_is types v ''hell:Hell.Variant'') (head_is types result ''hell:Hell.Variant'')))
     else if name = ''hell:Hell.NilA'' then Some (head_is types ty ''hell:Hell.Accessor'')
     else if name = ''hell:Hell.WildA'' then
       Some (when_arrow types ty (\<lambda>_ result. head_is types result ''hell:Hell.Accessor''))
     else if name = ''hell:Hell.ConsA'' then
       Some (when_arrow types ty (\<lambda>handler rest. when_arrow types handler (\<lambda>_ _.
         when_arrow types rest (\<lambda>tail result.
           both (head_is types tail ''hell:Hell.Accessor'') (head_is types result ''hell:Hell.Accessor'')))))
     else if name = ''hell:Hell.runAccessor'' then
       Some (when_arrow types ty (\<lambda>tagged rest. both (head_is types tagged ''hell:Hell.Tagged'')
         (when_arrow types rest (\<lambda>accessor _. head_is types accessor ''hell:Hell.Accessor''))))
     else if name = ''hell:Hell.Tagged'' then
       Some (when_arrow types ty (\<lambda>_ result. head_is types result ''hell:Hell.Tagged''))
     else if name = ''hell:Hell.Nullary'' then Some (constructor_is types ty ''hell:Hell.Nullary'')
     else None)"

text \<open>Any other builtin has as many arrows as its arity; \<open>None\<close> stands for \<open>usize::MAX\<close>.\<close>

definition arity_check :: "registry \<Rightarrow> type_arena \<Rightarrow> string \<Rightarrow> nat \<Rightarrow> bool checked" where
  "arity_check reg types name ty =
    cbind (function_parts types ty []) (\<lambda>(arguments, _).
      done_with (map_option bs_arity (lookup_builtin (reg_specs reg) name) = Some (length arguments)))"

definition builtin_type_is_plausible :: "registry \<Rightarrow> type_arena \<Rightarrow> string \<Rightarrow> nat \<Rightarrow> bool checked" where
  "builtin_type_is_plausible reg types name ty =
    cbind (displayed types ty) (\<lambda>text.
      case fixed_type name of
        Some expected \<Rightarrow> done_with (text = expected)
      | None \<Rightarrow> (case shape_check types name ty of
          Some check \<Rightarrow> check
        | None \<Rightarrow> arity_check reg types name ty))"

section \<open>The arms of the type pass\<close>

definition infer_bound ::
  "type_arena \<Rightarrow> nat \<Rightarrow> core_node \<Rightarrow> nat list \<Rightarrow> nat \<Rightarrow> projection \<Rightarrow> nat checked" where
  "infer_bound types i node locals de_bruijn projection =
    (if length locals < de_bruijn + 1 then refuse (error_at i node ''de Bruijn index is out of scope'')
     else
       (let local = locals ! (length locals - (de_bruijn + 1)) in
        case projection of
          Identity \<Rightarrow> done_with local
        | TupleElement arity index \<Rightarrow>
            cbind (type_spine types local []) (\<lambda>(current, arguments).
              case tuple_name arity of
                None \<Rightarrow> refuse (error_at i node ''tuple projection arity is invalid'')
              | Some expected \<Rightarrow>
                  require (both (constructor_is types current expected)
                      (done_with (length arguments = arity \<and> index < length arguments)))
                    (error_at i node ''tuple projection does not match local type'')
                    (done_with (arguments ! index)))))"

definition infer_lambda ::
  "type_arena \<Rightarrow> nat option list \<Rightarrow> nat \<Rightarrow> core_node \<Rightarrow> nat \<Rightarrow> nat \<Rightarrow> nat checked" where
  "infer_lambda types computed i node parameter_type body =
    (case Option.bind (vget computed body) (\<lambda>t. t) of
       None \<Rightarrow> refuse (error_at i node ''lambda body was not verified'')
     | Some body_type \<Rightarrow>
         cbind (get_type types (cn_ty node)) (\<lambda>n.
           if n = TFunction parameter_type body_type then done_with (cn_ty node)
           else refuse (error_at i node ''lambda type is inconsistent'')))"

definition infer_apply ::
  "type_arena \<Rightarrow> nat option list \<Rightarrow> nat \<Rightarrow> core_node \<Rightarrow> nat \<Rightarrow> nat \<Rightarrow> nat checked" where
  "infer_apply types computed i node function argument =
    cbind (computed_at computed function) (\<lambda>f. case f of
      None \<Rightarrow> refuse (error_at i node ''application function was not verified'')
    | Some function_type \<Rightarrow>
    cbind (computed_at computed argument) (\<lambda>a. case a of
      None \<Rightarrow> refuse (error_at i node ''application argument was not verified'')
    | Some argument_type \<Rightarrow>
    cbind (get_type types function_type) (\<lambda>n.
      if n = TFunction argument_type (cn_ty node) then done_with (cn_ty node)
      else refuse (error_at i node ''application edge does not reconstruct its stored type''))))"

definition infer_constant :: "type_arena \<Rightarrow> nat \<Rightarrow> core_node \<Rightarrow> core_constant \<Rightarrow> nat checked" where
  "infer_constant types i node c =
    require (constant_has_type types c (cn_ty node)) (error_at i node ''constant type is inconsistent'')
      (done_with (cn_ty node))"

text \<open>The match on the class of a builtin and the evidence of its node.\<close>

definition evidence_fits ::
  "registry \<Rightarrow> core_program \<Rightarrow> core_node \<Rightarrow> builtin_spec \<Rightarrow> class_evidence option \<Rightarrow> bool checked" where
  "evidence_fits reg p node spec evidence =
    (case (bs_type_class spec, evidence) of
       (None, None) \<Rightarrow> done_with True
     | (Some expected, Some actual) \<Rightarrow>
         both (done_with (expected = ce_class actual))
           (both (cbind (builtin_instance_head (cp_types p) (bs_name spec) (cn_ty node))
                    (\<lambda>h. done_with (h = Some (ce_head actual))))
              (validate_evidence_plan (cp_types p) (reg_instances reg) (cp_instance_evidence p) actual))
     | _ \<Rightarrow> done_with False)"

definition infer_builtin ::
  "registry \<Rightarrow> core_program \<Rightarrow> nat \<Rightarrow> core_node \<Rightarrow> nat \<Rightarrow> class_evidence option \<Rightarrow> nat checked" where
  "infer_builtin reg p i node builtin evidence =
    (case vget (reg_specs reg) builtin of
       None \<Rightarrow> refuse (error_at i node ''unknown built-in id'')
     | Some spec \<Rightarrow>
        if bs_implementation spec = None \<or> bs_scheme spec = None
        then refuse (error_at i node ''unavailable built-in entered executable core'')
        else
          require (builtin_type_is_plausible reg (cp_types p) (bs_name spec) (cn_ty node))
            (error_at i node ''built-in type does not instantiate its registry scheme'')
            (require (evidence_fits reg p node spec evidence)
              (error_at i node ''built-in class evidence is absent, mismatched, or unresolved'')
              (done_with (cn_ty node))))"

definition infer_tuple ::
  "type_arena \<Rightarrow> nat option list \<Rightarrow> nat \<Rightarrow> core_node \<Rightarrow> nat list \<Rightarrow> nat checked" where
  "infer_tuple types computed i node elements =
    (case tuple_name (length elements) of
       None \<Rightarrow> refuse (error_at i node ''tuple arity invariant failed'')
     | Some expected \<Rightarrow>
        cbind (type_spine types (cn_ty node) []) (\<lambda>(head, arguments).
          require (both (constructor_is types head expected) (done_with (length arguments = length elements)))
            (error_at i node ''tuple node has non-tuple type'')
            (require (all_computed computed elements arguments)
              (error_at i node ''tuple element type mismatch'') (done_with (cn_ty node)))))"

definition infer_list ::
  "type_arena \<Rightarrow> nat option list \<Rightarrow> nat \<Rightarrow> core_node \<Rightarrow> nat list \<Rightarrow> nat checked" where
  "infer_list types computed i node elements =
    cbind (get_type types (cn_ty node)) (\<lambda>n. case n of
      TApply c item \<Rightarrow>
        require (constructor_is types c ''[]'') (error_at i node ''list node has non-list type'')
          (require (all_computed computed elements (replicate (length elements) item))
            (error_at i node ''list element type mismatch'') (done_with (cn_ty node)))
    | _ \<Rightarrow> refuse (error_at i node ''list node has non-list type''))"

definition infer_record ::
  "type_arena \<Rightarrow> nat option list \<Rightarrow> nat \<Rightarrow> core_node \<Rightarrow> record_layout \<Rightarrow> nat list \<Rightarrow> nat checked" where
  "infer_record types computed i node layout parts =
    require (both (head_is types (cn_ty node) (rl_type_name layout))
        (done_with (length parts = length (rl_fields layout))))
      (error_at i node ''record layout does not match its nominal type'')
      (require (all_computed computed parts (map rfl_ty (rl_fields layout)))
        (error_at i node ''record field type mismatch'') (done_with (cn_ty node)))"

text \<open>The field of a layout that an access names.\<close>

definition with_field ::
  "nat \<Rightarrow> core_node \<Rightarrow> record_layout \<Rightarrow> nat \<Rightarrow> (record_field_layout \<Rightarrow> nat checked) \<Rightarrow> nat checked" where
  "with_field i node layout index f =
    (case vget (rl_fields layout) index of
       None \<Rightarrow> refuse (error_at i node ''record field index is out of bounds'')
     | Some field \<Rightarrow> f field)"

definition infer_get ::
  "type_arena \<Rightarrow> nat option list \<Rightarrow> nat \<Rightarrow> core_node \<Rightarrow> record_layout \<Rightarrow> nat \<Rightarrow> nat \<Rightarrow> nat checked" where
  "infer_get types computed i node layout index r =
    with_field i node layout index (\<lambda>field.
      require (both
          (cbind (computed_at computed r) (\<lambda>t. case t of
             None \<Rightarrow> done_with False | Some ty \<Rightarrow> head_is types ty (rl_type_name layout)))
          (done_with (cn_ty node = rfl_ty field)))
        (error_at i node ''record getter is inconsistent with its layout'') (done_with (cn_ty node)))"

definition infer_set ::
  "type_arena \<Rightarrow> nat option list \<Rightarrow> nat \<Rightarrow> core_node \<Rightarrow> record_layout \<Rightarrow> nat \<Rightarrow> nat \<Rightarrow> nat \<Rightarrow> nat checked" where
  "infer_set types computed i node layout index v r =
    with_field i node layout index (\<lambda>field.
      require (both (has_computed computed r (cn_ty node))
          (both (head_is types (cn_ty node) (rl_type_name layout)) (has_computed computed v (rfl_ty field))))
        (error_at i node ''record setter is inconsistent with its layout'') (done_with (cn_ty node)))"

definition infer_modify ::
  "type_arena \<Rightarrow> nat option list \<Rightarrow> nat \<Rightarrow> core_node \<Rightarrow> record_layout \<Rightarrow> nat \<Rightarrow> nat \<Rightarrow> nat \<Rightarrow> nat checked" where
  "infer_modify types computed i node layout index function r =
    with_field i node layout index (\<lambda>field.
      cbind (computed_at computed function) (\<lambda>f.
      cbind (case f of
          None \<Rightarrow> done_with False
        | Some ty \<Rightarrow> cbind (get_type types ty) (\<lambda>n. done_with (n = TFunction (rfl_ty field) (rfl_ty field))))
        (\<lambda>valid_function.
      require (both (has_computed computed r (cn_ty node))
          (both (head_is types (cn_ty node) (rl_type_name layout)) (done_with valid_function)))
        (error_at i node ''record modifier is inconsistent with its layout'') (done_with (cn_ty node)))))"

definition infer_variant ::
  "type_arena \<Rightarrow> nat option list \<Rightarrow> nat \<Rightarrow> core_node \<Rightarrow> variant_layout \<Rightarrow> nat \<Rightarrow> nat option \<Rightarrow> nat checked" where
  "infer_variant types computed i node layout index payload =
    require (head_is types (cn_ty node) (vl_type_name layout))
      (error_at i node ''variant layout does not match its nominal type'')
      (case vget (vl_constructors layout) index of
         None \<Rightarrow> refuse (error_at i node ''variant constructor index is out of bounds'')
       | Some c \<Rightarrow>
           require
             (case payload of
                None \<Rightarrow> done_with (vcl_payload c = None)
              | Some child \<Rightarrow> cbind (computed_at computed child) (\<lambda>t.
                  done_with (t \<noteq> None \<and> vcl_payload c = t)))
             (error_at i node ''variant payload type mismatch'') (done_with (cn_ty node)))"

text \<open>The branches of a case, with the constructors seen so far.\<close>

fun check_branches ::
  "nat option list \<Rightarrow> nat \<Rightarrow> core_node \<Rightarrow> variant_layout \<Rightarrow> case_branch list \<Rightarrow> nat set \<Rightarrow> nat set checked" where
  "check_branches computed i node layout [] seen = done_with seen"
| "check_branches computed i node layout (branch # branches) seen =
    (case vget (vl_constructors layout) (cb_constructor_index branch) of
       None \<Rightarrow> refuse (error_at i node ''case constructor index is out of bounds'')
     | Some c \<Rightarrow>
        require (both (done_with (cb_constructor_index branch \<notin> seen))
            (both (done_with (vcl_payload c = cb_payload_type branch))
              (has_computed computed (cb_body branch) (cn_ty node))))
          (error_at i node ''case branch is inconsistent with its layout'')
          (check_branches computed i node layout branches (insert (cb_constructor_index branch) seen)))"

definition infer_case ::
  "type_arena \<Rightarrow> nat option list \<Rightarrow> nat \<Rightarrow> core_node \<Rightarrow> nat \<Rightarrow> variant_layout \<Rightarrow> case_branch list \<Rightarrow>
   nat option \<Rightarrow> nat checked" where
  "infer_case types computed i node scrutinee layout branches fallback =
    cbind (computed_at computed scrutinee) (\<lambda>t. case t of
      None \<Rightarrow> refuse (error_at i node ''case scrutinee was not verified'')
    | Some scrutinee_type \<Rightarrow>
    require (head_is types scrutinee_type (vl_type_name layout))
      (error_at i node ''case scrutinee does not match its variant layout'')
    (cbind (check_branches computed i node layout branches {}) (\<lambda>seen.
    require (case fallback of None \<Rightarrow> done_with True | Some d \<Rightarrow> has_computed computed d (cn_ty node))
      (error_at i node ''case default branch type mismatch'')
    (if fallback = None \<and> card seen \<noteq> length (vl_constructors layout)
     then refuse (error_at i node ''non-exhaustive user case'')
     else done_with (cn_ty node)))))"

fun infer ::
  "registry \<Rightarrow> core_program \<Rightarrow> nat option list \<Rightarrow> nat \<Rightarrow> core_node \<Rightarrow> nat list \<Rightarrow> core_kind \<Rightarrow> nat checked" where
  "infer reg p computed i node locals (CoreBoundVar de_bruijn projection) =
    infer_bound (cp_types p) i node locals de_bruijn projection"
| "infer reg p computed i node locals (CoreLambda parameter_type body) =
    infer_lambda (cp_types p) computed i node parameter_type body"
| "infer reg p computed i node locals (CoreApply function argument) =
    infer_apply (cp_types p) computed i node function argument"
| "infer reg p computed i node locals (CoreConstant c) = infer_constant (cp_types p) i node c"
| "infer reg p computed i node locals (CoreBuiltin builtin evidence) =
    infer_builtin reg p i node builtin evidence"
| "infer reg p computed i node locals (CoreTuple elements) =
    infer_tuple (cp_types p) computed i node elements"
| "infer reg p computed i node locals (CoreList elements) =
    infer_list (cp_types p) computed i node elements"
| "infer reg p computed i node locals (CoreRecord layout parts) =
    infer_record (cp_types p) computed i node layout parts"
| "infer reg p computed i node locals (CoreRecordGet layout index r) =
    infer_get (cp_types p) computed i node layout index r"
| "infer reg p computed i node locals (CoreRecordSet layout index v r) =
    infer_set (cp_types p) computed i node layout index v r"
| "infer reg p computed i node locals (CoreRecordModify layout index function r) =
    infer_modify (cp_types p) computed i node layout index function r"
| "infer reg p computed i node locals (CoreVariant layout index payload) =
    infer_variant (cp_types p) computed i node layout index payload"
| "infer reg p computed i node locals (CoreCase scrutinee layout branches fallback) =
    infer_case (cp_types p) computed i node scrutinee layout branches fallback"

section \<open>The type pass\<close>

text \<open>The children of a node with the locals each is checked under, in the order of the visits.\<close>

fun scoped_children :: "nat list \<Rightarrow> core_kind \<Rightarrow> (nat \<times> nat list) list" where
  "scoped_children locals (CoreLambda parameter_type body) = [(body, locals @ [parameter_type])]"
| "scoped_children locals (CoreCase scrutinee layout branches fallback) =
    (scrutinee, locals)
    # map (\<lambda>branch. (cb_body branch,
        case cb_payload_type branch of None \<Rightarrow> locals | Some t \<Rightarrow> locals @ [t])) branches
    @ (case fallback of None \<Rightarrow> [] | Some d \<Rightarrow> [(d, locals)])"
| "scoped_children locals kind = map (\<lambda>child. (child, locals)) (core_children kind)"

type_synonym pass_state = "(nat \<times> bool \<times> nat list) list \<times> nat option list"

definition pass_leave ::
  "registry \<Rightarrow> core_program \<Rightarrow> nat \<Rightarrow> core_node \<Rightarrow> nat list \<Rightarrow> (nat \<times> bool \<times> nat list) list \<Rightarrow>
   nat option list \<Rightarrow> (pass_state + (nat option list, verification_error) res) option" where
  "pass_leave reg p i node locals stack computed =
    call (infer reg p computed i node locals (cn_kind node)) (\<lambda>inferred.
      if inferred \<noteq> cn_ty node
      then Some (Inr (Err (error_at i node ''stored type differs from recomputed type'')))
      else if i < length computed then Some (Inl (stack, computed[i := Some inferred]))
      else Some (Inr Panic))"

fun pass_step ::
  "registry \<Rightarrow> core_program \<Rightarrow> pass_state \<Rightarrow>
   (pass_state + (nat option list, verification_error) res) option" where
  "pass_step reg p ([], computed) = Some (Inr (Ok computed))"
| "pass_step reg p ((i, visited, locals) # stack, computed) =
    (case vget (cp_nodes p) i of
       None \<Rightarrow> Some (Inr (Err (error_edge i ''core edge is out of bounds'')))
     | Some node \<Rightarrow>
        call (type_is_closed (cp_types p) (cn_ty node)) (\<lambda>closed.
          if \<not> closed then Some (Inr (Err (error_at i node ''core node carries an open type'')))
          else if visited then pass_leave reg p i node locals stack computed
          else Some (Inl (map (\<lambda>(child, ls). (child, False, ls)) (scoped_children locals (cn_kind node))
                 @ (i, True, locals) # stack, computed))))"

definition type_pass :: "registry \<Rightarrow> core_program \<Rightarrow> nat option list checked" where
  "type_pass reg p = run_calls (pass_step reg p)
     ([(cp_root p, False, [])], replicate (length (cp_nodes p)) None)"

section \<open>The program\<close>

definition at_root :: "core_program \<Rightarrow> string \<Rightarrow> verification_error" where
  "at_root p message = error_at (cp_root p) (cp_nodes p ! cp_root p) message"

definition main_is_io_unit :: "core_program \<Rightarrow> bool checked" where
  "main_is_io_unit p = cbind (get_type (cp_types p) (cp_main_type p)) (\<lambda>n. case n of
     TApply io u \<Rightarrow> both (constructor_is (cp_types p) io ''IO'') (constructor_is (cp_types p) u ''()'')
   | _ \<Rightarrow> done_with False)"

text \<open>The builtins a node retains under the feature \<open>compat-tracing\<close>.\<close>

fun retained_names :: "core_kind \<Rightarrow> string list" where
  "retained_names (CoreTuple elements) =
    (if length elements = 2 then [''Tuple.(,)''] else if length elements = 3 then [''Tuple.(,,)'']
     else if length elements = 4 then [''Tuple.(,,,)''] else [])"
| "retained_names (CoreRecord _ parts) =
    ''hell:Hell.NilR'' # (if parts \<noteq> [] then [''hell:Hell.ConsR''] else [])"
| "retained_names (CoreRecordGet _ _ _) = [''Record.get'']"
| "retained_names (CoreRecordSet _ _ _ _) = [''Record.set'']"
| "retained_names (CoreRecordModify _ _ _ _) = [''Record.modify'']"
| "retained_names (CoreVariant _ index payload) =
    ''hell:Hell.LeftV'' # (if index \<noteq> 0 then [''hell:Hell.RightV''] else [])
    @ ''hell:Hell.Tagged'' # (if payload = None then [''hell:Hell.Nullary''] else [])"
| "retained_names (CoreCase _ _ branches fallback) =
    ''hell:Hell.NilA'' # (if branches \<noteq> [] then [''hell:Hell.ConsA''] else [])
    @ (if fallback \<noteq> None then [''hell:Hell.WildA''] else []) @ [''hell:Hell.runAccessor'']"
| "retained_names _ = []"

definition present_builtins :: "registry \<Rightarrow> core_program \<Rightarrow> nat list" where
  "present_builtins reg p =
    List.map_filter (\<lambda>node. case cn_kind node of CoreBuiltin builtin _ \<Rightarrow> Some builtin | _ \<Rightarrow> None) (cp_nodes p)
    @ map bs_id (List.map_filter (lookup_builtin (reg_specs reg))
        (concat (map (\<lambda>node. retained_names (cn_kind node)) (cp_nodes p))))"

definition validate_compiler_evidence :: "registry \<Rightarrow> core_program \<Rightarrow> unit checked" where
  "validate_compiler_evidence reg p =
    (let e = cp_compiler_evidence p; present = present_builtins reg p in
     if list_ex (\<lambda>ids. \<not> sorted_wrt (<) ids \<or> list_ex (\<lambda>b. b \<notin> set present) ids)
          [be_parsed e, be_resolved e, be_specialized e]
     then refuse (at_root p ''compiler builtin evidence is unsorted or not retained in typed core'')
     else if be_parsed e \<noteq> be_resolved e \<or> be_resolved e \<noteq> be_specialized e
     then refuse (at_root p ''compiler builtin phase evidence is incomplete'')
     else done_with ())"

text \<open>The sealed program; its compiler evidence is kept under \<open>compat-tracing\<close> only.\<close>

record executable_program =
  xp_root :: nat
  xp_nodes :: "core_node list"
  xp_types :: type_arena
  xp_main_type :: nat
  xp_instance_evidence :: "evidence_plan list"
  xp_compiler_evidence :: "builtin_evidence option"

definition seal :: "bool \<Rightarrow> core_program \<Rightarrow> executable_program" where
  "seal tracing p =
    \<lparr>xp_root = cp_root p, xp_nodes = cp_nodes p, xp_types = cp_types p, xp_main_type = cp_main_type p,
     xp_instance_evidence = cp_instance_evidence p,
     xp_compiler_evidence = (if tracing then Some (cp_compiler_evidence p) else None)\<rparr>"

text \<open>What follows the type pass.\<close>

definition verify_whole ::
  "bool \<Rightarrow> registry \<Rightarrow> core_program \<Rightarrow> nat option list \<Rightarrow> executable_program checked" where
  "verify_whole tracing reg p computed =
    require (has_computed computed (cp_root p) (cp_main_type p))
      (at_root p ''program root differs from declared main type'')
    (require (inventory_is_exact reg p)
      (at_root p ''class-instance evidence inventory is noncanonical or contains unused plans'')
    (require (main_is_io_unit p) (at_root p ''main is not `IO ()`'')
    (cbind (if tracing then validate_compiler_evidence reg p else done_with ()) (\<lambda>_.
      done_with (seal tracing p)))))"

definition verify :: "bool \<Rightarrow> registry \<Rightarrow> core_program \<Rightarrow> executable_program checked" where
  "verify tracing reg p =
    (if length (cp_nodes p) \<le> cp_root p
     then refuse (error_edge (cp_root p) ''root core id is out of bounds'')
     else
       cbind (lift_res (check_layouts 0 (cp_nodes p) Map.empty Map.empty)) (\<lambda>_.
       cbind (check_graph (cp_nodes p) (cp_root p)) (\<lambda>_.
       cbind (type_pass reg p) (verify_whole tracing reg p))))"

end
