(* ===== verification/Hell_Core_Graph.thy ===== *)
theory Hell_Core_Graph
  imports Hell_Checker
begin

text \<open>
  The graph pass of \<open>verify\<close>: it returns on every program, never panics, and accepts
  exactly the programs whose nodes form a finite tree below the root, that is, whose
  unfolding visits no node twice.
\<close>

section \<open>Trees of nodes\<close>

definition kids :: "core_node list \<Rightarrow> nat \<Rightarrow> nat list" where
  "kids nodes i = (case vget nodes i of None \<Rightarrow> [] | Some node \<Rightarrow> core_children (cn_kind node))"

lemma kids_node: "vget nodes i = Some node \<Longrightarrow> kids nodes i = core_children (cn_kind node)"
  by (simp add: kids_def)

inductive unfolds :: "core_node list \<Rightarrow> nat \<Rightarrow> nat list \<Rightarrow> bool" for nodes where
  unfolds_node: "i < length nodes \<Longrightarrow> list_all2 (unfolds nodes) (kids nodes i) xss \<Longrightarrow>
    unfolds nodes i (i # concat xss)"
monos list_all2_mono

definition core_tree :: "core_node list \<Rightarrow> nat \<Rightarrow> bool" where
  "core_tree nodes root \<longleftrightarrow> (\<exists>xs. unfolds nodes root xs \<and> distinct xs)"

text \<open>Below a node of finite depth there is no cycle.\<close>

inductive deep :: "core_node list \<Rightarrow> nat \<Rightarrow> bool" for nodes where
  deepI: "i < length nodes \<Longrightarrow> (\<And>c. c \<in> set (kids nodes i) \<Longrightarrow> deep nodes c) \<Longrightarrow> deep nodes i"

lemma deep_bound: "deep nodes i \<Longrightarrow> i < length nodes"
  by (erule deep.cases) simp

lemma unfolds_bounds: "unfolds nodes i xs \<Longrightarrow> i < length nodes \<and> i \<in> set xs"
  by (erule unfolds.cases) simp

lemma unfolds_deep: "unfolds nodes i xs \<Longrightarrow> deep nodes i"
proof (induction rule: unfolds.induct)
  case (unfolds_node i xss)
  show ?case
    using unfolds_node(1) by (rule deepI) (use unfolds_node(2) in \<open>auto simp: list_all2_conv_all_nth in_set_conv_nth\<close>)
qed

text \<open>Edges from the nodes of a set, with a single parent each: their unfoldings are distinct.\<close>

definition edges :: "core_node list \<Rightarrow> nat set \<Rightarrow> (nat \<times> nat) set" where
  "edges nodes A = {(i, c). i \<in> A \<and> c \<in> set (kids nodes i)}"

lemma deep_acyclic: "deep nodes i \<Longrightarrow> (i, i) \<notin> (edges nodes A)\<^sup>+"
proof (induction rule: deep.induct)
  case (deepI i)
  show ?case
  proof
    assume "(i, i) \<in> (edges nodes A)\<^sup>+"
    then obtain c where c: "(i, c) \<in> edges nodes A" "(c, i) \<in> (edges nodes A)\<^sup>*" by (meson tranclD)
    then have "(c, c) \<in> (edges nodes A)\<^sup>+" by (rule rtrancl_into_trancl1 [rotated])
    with c(1) deepI.IH show False by (auto simp: edges_def)
  qed
qed

lemma siblings_apart:
  assumes sv: "single_valued ((edges nodes A)\<inverse>)" and i: "deep nodes i"
    and c: "(i, c) \<in> edges nodes A" and d: "(i, d) \<in> edges nodes A" and ne: "c \<noteq> d"
    and y: "(c, y) \<in> (edges nodes A)\<^sup>*" "(d, y) \<in> (edges nodes A)\<^sup>*"
  shows False
proof -
  have under: False if cd: "(a, b) \<in> (edges nodes A)\<^sup>*" "a \<noteq> b" and a: "(i, a) \<in> edges nodes A" and b: "(i, b) \<in> edges nodes A" for a b
  proof -
    from cd obtain x where x: "(a, x) \<in> (edges nodes A)\<^sup>*" "(x, b) \<in> edges nodes A" by (meson rtranclE)
    from sv x(2) b have "x = i" by (auto dest: single_valuedD)
    with x(1) a have "(i, i) \<in> (edges nodes A)\<^sup>+" by (metis rtrancl_into_trancl2)
    with deep_acyclic [OF i] show False by blast
  qed
  have "(y, c) \<in> ((edges nodes A)\<inverse>)\<^sup>*" "(y, d) \<in> ((edges nodes A)\<inverse>)\<^sup>*"
    using y by (simp_all add: rtrancl_converse)
  from single_valued_confluent [OF sv this]
  have "(c, d) \<in> ((edges nodes A)\<inverse>)\<^sup>* \<or> (d, c) \<in> ((edges nodes A)\<inverse>)\<^sup>*" .
  then have "(d, c) \<in> (edges nodes A)\<^sup>* \<or> (c, d) \<in> (edges nodes A)\<^sup>*"
    by (simp add: rtrancl_converse)
  with under [of c d] under [of d c] c d ne show False by blast
qed

lemma deep_unfolds:
  assumes sv: "single_valued ((edges nodes A)\<inverse>)"
    and closed: "\<And>i c. i \<in> A \<Longrightarrow> c \<in> set (kids nodes i) \<Longrightarrow> c \<in> A"
    and dist: "\<And>i. i \<in> A \<Longrightarrow> distinct (kids nodes i)"
  shows "deep nodes i \<Longrightarrow> i \<in> A \<Longrightarrow>
    \<exists>xs. unfolds nodes i xs \<and> distinct xs \<and> set xs = (edges nodes A)\<^sup>* `` {i}"
proof (induction rule: deep.induct)
  case (deepI i)
  have "\<exists>f. \<forall>c \<in> set (kids nodes i).
      unfolds nodes c (f c) \<and> distinct (f c) \<and> set (f c) = (edges nodes A)\<^sup>* `` {c}"
    using deepI closed by (intro bchoice) blast
  then obtain f where f: "\<And>c. c \<in> set (kids nodes i) \<Longrightarrow>
      unfolds nodes c (f c) \<and> distinct (f c) \<and> set (f c) = (edges nodes A)\<^sup>* `` {c}" by blast
  have edge: "(i, c) \<in> edges nodes A \<longleftrightarrow> c \<in> set (kids nodes i)" for c
    using deepI.prems by (simp add: edges_def)
  have i: "deep nodes i" using deepI by (blast intro: deep.intros)
  have apart: "set (f c) \<inter> set (f d) = {}" if "c \<in> set (kids nodes i)" "d \<in> set (kids nodes i)" "c \<noteq> d" for c d
    using siblings_apart [OF sv i, of c d] that f by (auto simp: edge)
  have root: "i \<notin> set (f c)" if "c \<in> set (kids nodes i)" for c
  proof
    assume "i \<in> set (f c)"
    then have "(c, i) \<in> (edges nodes A)\<^sup>*" using f [OF that] by simp
    with that have "(i, i) \<in> (edges nodes A)\<^sup>+" by (metis edge rtrancl_into_trancl2)
    with deep_acyclic [OF i] show False by blast
  qed
  have nonempty: "f c \<noteq> []" if "c \<in> set (kids nodes i)" for c
    using unfolds_bounds [of nodes c "f c"] f [OF that] by auto
  have inj: "inj_on f (set (kids nodes i))"
    using apart nonempty by (intro inj_onI) (metis Int_absorb set_empty)
  let ?xs = "i # concat (map f (kids nodes i))"
  have "unfolds nodes i ?xs"
    using deepI.hyps(1) f by (intro unfolds_node) (auto simp: list_all2_conv_all_nth)
  moreover have "distinct ?xs"
  proof -
    have "distinct (concat (map f (kids nodes i)))"
    proof (rule distinct_concat)
      show "distinct (map f (kids nodes i))" using inj dist [OF deepI.prems] by (simp add: distinct_map)
      show "distinct xs" if "xs \<in> set (map f (kids nodes i))" for xs using that f by auto
      show "set xs \<inter> set ys = {}"
        if "xs \<in> set (map f (kids nodes i))" "ys \<in> set (map f (kids nodes i))" "xs \<noteq> ys" for xs ys
        using that apart by (metis imageE list.set_map)
    qed
    with root show ?thesis by auto
  qed
  moreover have "set ?xs = (edges nodes A)\<^sup>* `` {i}"
  proof -
    have "(i, y) \<in> (edges nodes A)\<^sup>* \<longleftrightarrow> y = i \<or> (\<exists>c \<in> set (kids nodes i). (c, y) \<in> (edges nodes A)\<^sup>*)" for y
      by (metis converse_rtranclE converse_rtrancl_into_rtrancl edge rtrancl.rtrancl_refl)
    then show ?thesis using f by auto
  qed
  ultimately show ?case by blast
qed

section \<open>Entering a node\<close>

lemma push_children_result:
  assumes "length (g_incoming s) = length nodes"
  shows "case push_children nodes i node cs s of
      Panic \<Rightarrow> False
    | Err e \<Rightarrow> \<not> (distinct cs \<and> (\<forall>c \<in> set cs. c < length nodes \<and> g_incoming s ! c = 0))
    | Ok s' \<Rightarrow> distinct cs \<and> (\<forall>c \<in> set cs. c < length nodes \<and> g_incoming s ! c = 0)
        \<and> g_stack s' = rev (map (\<lambda>c. (c, False)) cs) @ g_stack s \<and> g_colors s' = g_colors s
        \<and> length (g_incoming s') = length nodes
        \<and> (\<forall>c < length nodes. g_incoming s' ! c = (if c \<in> set cs then 1 else g_incoming s ! c))"
  using assms
proof (induction cs arbitrary: s)
  case Nil
  then show ?case by simp
next
  case (Cons c cs)
  show ?case
  proof (cases "c < length nodes \<and> g_incoming s ! c = 0")
    case False
    then show ?thesis using Cons.prems
      by (auto simp: vget_def Let_def u32_saturate_def u32_max_def split: option.splits res.splits)
  next
    case True
    let ?s = "s\<lparr>g_incoming := (g_incoming s)[c := 1], g_stack := (c, False) # g_stack s\<rparr>"
    have eq: "push_children nodes i node (c # cs) s = push_children nodes i node cs ?s"
      using True Cons.prems by (simp add: u32_saturate_def u32_max_def)
    have *: "(\<forall>x \<in> set cs. x < length nodes \<and> g_incoming ?s ! x = 0) \<longleftrightarrow>
        c \<notin> set cs \<and> (\<forall>x \<in> set cs. x < length nodes \<and> g_incoming s ! x = 0)"
      using True Cons.prems by (auto simp: nth_list_update)
    show ?thesis
      using Cons.IH [of ?s] Cons.prems True * unfolding eq
      by (auto split: res.splits simp: nth_list_update)
  qed
qed

definition entered :: "core_node list \<Rightarrow> nat \<Rightarrow> graph_state \<Rightarrow> graph_state \<Rightarrow> bool" where
  "entered nodes i s s' \<longleftrightarrow>
    distinct (kids nodes i) \<and> (\<forall>c \<in> set (kids nodes i). c < length nodes \<and> g_incoming s ! c = 0)
    \<and> g_stack s' = map (\<lambda>c. (c, False)) (kids nodes i) @ (i, True) # g_stack s
    \<and> g_colors s' = (g_colors s)[i := 1] \<and> length (g_incoming s') = length nodes
    \<and> (\<forall>c < length nodes. g_incoming s' ! c = (if c \<in> set (kids nodes i) then 1 else g_incoming s ! c))"

lemma graph_enter_result:
  assumes "length (g_incoming s) = length nodes" "vget nodes i = Some node"
  shows "case graph_enter nodes i node s of
      Panic \<Rightarrow> False
    | Err e \<Rightarrow> \<not> (distinct (kids nodes i) \<and> (\<forall>c \<in> set (kids nodes i). c < length nodes \<and> g_incoming s ! c = 0))
    | Ok s' \<Rightarrow> entered nodes i s s'"
  using push_children_result [where nodes = nodes and i = i and node = node
      and s = "s\<lparr>g_colors := (g_colors s)[i := 1], g_stack := (i, True) # g_stack s\<rparr>"
      and cs = "rev (core_children (cn_kind node))"] assms
  by (simp add: graph_enter_def entered_def rev_map kids_node split: res.splits)

text \<open>The steps of the loop, one rule per branch.\<close>

inductive graph_next :: "core_node list \<Rightarrow> graph_state \<Rightarrow> graph_state \<Rightarrow> bool" for nodes where
  next_exit: "g_stack s = (i, True) # st \<Longrightarrow> i < length nodes \<Longrightarrow>
    graph_next nodes s (s\<lparr>g_stack := st, g_colors := (g_colors s)[i := 2]\<rparr>)"
| next_skip: "g_stack s = (i, False) # st \<Longrightarrow> i < length nodes \<Longrightarrow> g_colors s ! i = 2 \<Longrightarrow>
    graph_next nodes s (s\<lparr>g_stack := st\<rparr>)"
| next_enter: "g_stack s = (i, False) # st \<Longrightarrow> i < length nodes \<Longrightarrow> g_colors s ! i \<noteq> 1 \<Longrightarrow> g_colors s ! i \<noteq> 2 \<Longrightarrow>
    entered nodes i (s\<lparr>g_stack := st\<rparr>) s' \<Longrightarrow> graph_next nodes s s'"

definition sized :: "core_node list \<Rightarrow> graph_state \<Rightarrow> bool" where
  "sized nodes s \<longleftrightarrow> length (g_colors s) = length nodes \<and> length (g_incoming s) = length nodes"

lemma graph_step_next:
  assumes s: "sized nodes s" and step: "graph_step nodes s = Inl s'"
  shows "graph_next nodes s s'"
proof (cases "g_stack s")
  case Nil
  with step show ?thesis by (simp add: graph_step_def)
next
  case (Cons top st)
  obtain i exiting where top: "top = (i, exiting)" by (cases top)
  obtain node where node: "vget nodes i = Some node" "i < length nodes"
    using step Cons top by (auto simp: graph_step_def Let_def vget_def split: if_splits)
  show ?thesis
  proof (cases exiting)
    case True
    with step Cons top node show ?thesis
      using next_exit [where s = s and i = i and st = st and nodes = nodes] by (simp add: graph_step_def Let_def)
  next
    case False
    have col: "vget (g_colors s) i = Some (g_colors s ! i)" using node s by (simp add: sized_def)
    from step Cons top node False col
    have split: "g_colors s ! i = 2 \<and> s' = s\<lparr>g_stack := st\<rparr>
      \<or> g_colors s ! i \<noteq> 1 \<and> g_colors s ! i \<noteq> 2 \<and> graph_enter nodes i node (s\<lparr>g_stack := st\<rparr>) = Ok s'"
      by (auto simp: graph_step_def Let_def split: if_splits res.splits)
    then show ?thesis
    proof (elim disjE conjE)
      assume "g_colors s ! i = 2" "s' = s\<lparr>g_stack := st\<rparr>"
      then show ?thesis using next_skip [where s = s and i = i and st = st and nodes = nodes] Cons top False node by simp
    next
      assume c: "g_colors s ! i \<noteq> 1" "g_colors s ! i \<noteq> 2"
        and e: "graph_enter nodes i node (s\<lparr>g_stack := st\<rparr>) = Ok s'"
      have "entered nodes i (s\<lparr>g_stack := st\<rparr>) s'"
        using graph_enter_result [where s = "s\<lparr>g_stack := st\<rparr>" and nodes = nodes and i = i and node = node] e node s by (simp add: sized_def)
      with c show ?thesis using next_enter [where s = s and i = i and st = st and nodes = nodes and s' = s'] Cons top False node by simp
    qed
  qed
qed

section \<open>What the loop maintains\<close>

definition coloured :: "core_node list \<Rightarrow> graph_state \<Rightarrow> bool" where
  "coloured nodes s \<longleftrightarrow> (\<forall>i < length nodes. g_colors s ! i = 2 \<longrightarrow>
     deep nodes i \<and> (\<forall>c \<in> set (kids nodes i). c < length nodes \<and> g_colors s ! c = 2))"

lemma coloured_stack: "coloured nodes (s\<lparr>g_stack := st\<rparr>) \<longleftrightarrow> coloured nodes s"
  by (cases s) (simp only: coloured_def graph_state.select_convs graph_state.update_convs)

lemma colouredD:
  assumes "coloured nodes s" "i < length nodes" "g_colors s ! i = 2"
  shows "deep nodes i" "c \<in> set (kids nodes i) \<Longrightarrow> c < length nodes \<and> g_colors s ! c = 2"
proof -
  note * = assms(1) [unfolded coloured_def, THEN spec, THEN mp, OF assms(2), THEN mp, OF assms(3)]
  show "deep nodes i" by (rule * [THEN conjunct1])
  show "c \<in> set (kids nodes i) \<Longrightarrow> c < length nodes \<and> g_colors s ! c = 2" by (rule * [THEN conjunct2, THEN bspec])
qed

definition pending :: "core_node list \<Rightarrow> graph_state \<Rightarrow> bool" where
  "pending nodes s \<longleftrightarrow> (\<forall>pre i post. g_stack s = pre @ (i, True) # post \<longrightarrow>
     i < length nodes \<and> g_colors s ! i \<noteq> 0 \<and>
     (\<forall>c \<in> set (kids nodes i). c < length nodes \<and> (g_colors s ! c = 2 \<or> c \<in> fst ` set pre)))"

definition single_parents :: "core_node list \<Rightarrow> graph_state \<Rightarrow> bool" where
  "single_parents nodes s \<longleftrightarrow>
    (\<forall>i < length nodes. g_colors s ! i \<noteq> 0 \<longrightarrow>
       distinct (kids nodes i) \<and> (\<forall>c \<in> set (kids nodes i). c < length nodes \<and> g_incoming s ! c = 1)) \<and>
    (\<forall>i < length nodes. \<forall>j < length nodes. g_colors s ! i \<noteq> 0 \<longrightarrow> g_colors s ! j \<noteq> 0 \<longrightarrow>
       set (kids nodes i) \<inter> set (kids nodes j) \<noteq> {} \<longrightarrow> i = j)"

definition rooted :: "core_node list \<Rightarrow> nat \<Rightarrow> graph_state \<Rightarrow> bool" where
  "rooted nodes root s \<longleftrightarrow> root < length nodes \<and> (g_colors s ! root = 2 \<or> root \<in> fst ` set (g_stack s))"

definition graph_inv :: "core_node list \<Rightarrow> nat \<Rightarrow> graph_state \<Rightarrow> bool" where
  "graph_inv nodes root s \<longleftrightarrow>
    sized nodes s \<and> coloured nodes s \<and> pending nodes s \<and> single_parents nodes s \<and> rooted nodes root s"

lemma pending_pop:
  assumes "pending nodes s" "g_stack s = (i, b) # st" "st = pre @ (k, True) # post"
  shows "k < length nodes \<and> g_colors s ! k \<noteq> 0 \<and>
    (\<forall>c \<in> set (kids nodes k). c < length nodes \<and> (g_colors s ! c = 2 \<or> c = i \<or> c \<in> fst ` set pre))"
  using assms(1) [unfolded pending_def, rule_format, of "(i, b) # pre" k post] assms(2,3) by auto

lemma next_sized: "graph_next nodes s s' \<Longrightarrow> sized nodes s \<Longrightarrow> sized nodes s'"
  by (induction rule: graph_next.induct) (auto simp: sized_def entered_def)

lemma next_coloured:
  "graph_next nodes s s' \<Longrightarrow> sized nodes s \<Longrightarrow> pending nodes s \<Longrightarrow> coloured nodes s \<Longrightarrow> coloured nodes s'"
proof (induction rule: graph_next.induct)
  case (next_exit s i st)
  let ?s = "s\<lparr>g_stack := st, g_colors := (g_colors s)[i := 2]\<rparr>"
  have kids: "c < length nodes \<and> g_colors s ! c = 2" if "c \<in> set (kids nodes i)" for c
    using next_exit.prems(2) [unfolded pending_def, rule_format, of "[]" i st] next_exit.hyps that by simp
  have i: "deep nodes i"
  proof (rule deepI [OF next_exit.hyps(2)])
    show "deep nodes c" if "c \<in> set (kids nodes i)" for c
      using colouredD(1) [OF next_exit.prems(3)] kids [OF that] by simp
  qed
  have two: "g_colors ?s ! c = 2" if "c < length nodes" "g_colors s ! c = 2" for c
    using that next_exit.prems(1) by (cases "c = i") (simp_all add: sized_def)
  have only: "j = i \<or> g_colors s ! j = 2" if "g_colors ?s ! j = 2" for j
    using that by (cases "j = i") simp_all
  show ?case unfolding coloured_def
  proof (intro allI impI)
    fix j assume j: "j < length nodes" "g_colors ?s ! j = 2"
    show "deep nodes j \<and> (\<forall>c \<in> set (kids nodes j). c < length nodes \<and> g_colors ?s ! c = 2)"
    proof (cases "j = i")
      case True
      have "c < length nodes \<and> g_colors ?s ! c = 2" if "c \<in> set (kids nodes i)" for c
        using two [of c] kids [OF that] by blast
      with i True show ?thesis by blast
    next
      case False
      with only [OF j(2)] have "g_colors s ! j = 2" by simp
      note * = colouredD [OF next_exit.prems(3) j(1) this]
      have "c < length nodes \<and> g_colors ?s ! c = 2" if "c \<in> set (kids nodes j)" for c
        using two [of c] *(2) [OF that] by blast
      with *(1) show ?thesis by blast
    qed
  qed
next
  case (next_skip s i st)
  then show ?case by (simp only: coloured_stack)
next
  case (next_enter s i st s')
  have s': "g_colors s' = (g_colors s)[i := 1]" using next_enter.hyps(5) by (simp add: entered_def)
  have "g_colors s' ! j = 2 \<longleftrightarrow> g_colors s ! j = 2" if "j < length nodes" for j
    using that next_enter.hyps(4) next_enter.prems(1) unfolding s' by (cases "j = i") (simp_all add: sized_def)
  with next_enter.prems(3) show ?case unfolding coloured_def by blast
qed

lemma next_pending:
  "graph_next nodes s s' \<Longrightarrow> sized nodes s \<Longrightarrow> pending nodes s \<Longrightarrow> pending nodes s'"
proof (induction rule: graph_next.induct)
  case (next_exit s i st)
  show ?case unfolding pending_def
  proof (intro allI impI)
    fix pre k post
    assume "g_stack (s\<lparr>g_stack := st, g_colors := (g_colors s)[i := 2]\<rparr>) = pre @ (k, True) # post"
    then have "st = pre @ (k, True) # post" by simp
    from pending_pop [OF next_exit.prems(2) next_exit.hyps(1) this] next_exit.prems(1) next_exit.hyps(2)
    show "k < length nodes \<and> g_colors (s\<lparr>g_stack := st, g_colors := (g_colors s)[i := 2]\<rparr>) ! k \<noteq> 0 \<and>
      (\<forall>c \<in> set (kids nodes k). c < length nodes \<and>
        (g_colors (s\<lparr>g_stack := st, g_colors := (g_colors s)[i := 2]\<rparr>) ! c = 2 \<or> c \<in> fst ` set pre))"
      by (auto simp: sized_def nth_list_update)
  qed
next
  case (next_skip s i st)
  show ?case unfolding pending_def
  proof (intro allI impI)
    fix pre k post
    assume "g_stack (s\<lparr>g_stack := st\<rparr>) = pre @ (k, True) # post"
    then have "st = pre @ (k, True) # post" by simp
    from pending_pop [OF next_skip.prems(2) next_skip.hyps(1) this] next_skip.hyps(3)
    show "k < length nodes \<and> g_colors (s\<lparr>g_stack := st\<rparr>) ! k \<noteq> 0 \<and>
      (\<forall>c \<in> set (kids nodes k). c < length nodes \<and>
        (g_colors (s\<lparr>g_stack := st\<rparr>) ! c = 2 \<or> c \<in> fst ` set pre))"
      by auto
  qed
next
  case (next_enter s i st s')
  have s': "g_stack s' = map (\<lambda>c. (c, False)) (kids nodes i) @ (i, True) # st"
      "g_colors s' = (g_colors s)[i := 1]" "\<forall>c \<in> set (kids nodes i). c < length nodes"
    using next_enter.hyps(5) by (auto simp: entered_def)
  show ?case unfolding pending_def
  proof (intro allI impI)
    fix pre k post
    assume "g_stack s' = pre @ (k, True) # post"
    then have "map (\<lambda>c. (c, False)) (kids nodes i) @ (i, True) # st = pre @ (k, True) # post"
      using s' by simp
    then obtain us where
      "pre = map (\<lambda>c. (c, False)) (kids nodes i) @ us \<and> us @ (k, True) # post = (i, True) # st
       \<or> map (\<lambda>c. (c, False)) (kids nodes i) = pre @ us \<and> us @ (i, True) # st = (k, True) # post"
      unfolding append_eq_append_conv2 by metis
    then consider (top) "k = i" "pre = map (\<lambda>c. (c, False)) (kids nodes i)"
      | (below) pre' where "pre = map (\<lambda>c. (c, False)) (kids nodes i) @ (i, True) # pre'" "st = pre' @ (k, True) # post"
      by (auto simp: append_eq_Cons_conv Cons_eq_append_conv map_eq_append_conv Cons_eq_map_conv)
    then show "k < length nodes \<and> g_colors s' ! k \<noteq> 0 \<and>
      (\<forall>c \<in> set (kids nodes k). c < length nodes \<and> (g_colors s' ! c = 2 \<or> c \<in> fst ` set pre))"
    proof cases
      case top
      then show ?thesis using s' next_enter.prems(1) next_enter.hyps(2) by (auto simp: sized_def image_image)
    next
      case below
      with pending_pop [OF next_enter.prems(2) next_enter.hyps(1) below(2)] s' next_enter.prems(1) next_enter.hyps(2,4)
      show ?thesis by (auto simp: sized_def nth_list_update)
    qed
  qed
qed

lemma next_parents:
  "graph_next nodes s s' \<Longrightarrow> sized nodes s \<Longrightarrow> pending nodes s \<Longrightarrow> single_parents nodes s \<Longrightarrow> single_parents nodes s'"
proof (induction rule: graph_next.induct)
  case (next_exit s i st)
  have i: "g_colors s ! i \<noteq> 0"
    using next_exit.prems(2) [unfolded pending_def, rule_format, of "[]" i st] next_exit.hyps by simp
  have "(g_colors s)[i := 2] ! j \<noteq> 0 \<longleftrightarrow> g_colors s ! j \<noteq> 0" if "j < length nodes" for j
    using that i next_exit.prems(1) by (cases "j = i") (simp_all add: sized_def)
  with next_exit.prems(3) show ?case by (simp add: single_parents_def)
next
  case (next_skip s i st)
  then show ?case by (simp add: single_parents_def)
next
  case (next_enter s i st s')
  from next_enter.hyps(5) have s': "g_colors s' = (g_colors s)[i := 1]" "distinct (kids nodes i)"
      "\<And>c. c \<in> set (kids nodes i) \<Longrightarrow> c < length nodes \<and> g_incoming s ! c = 0"
      "\<And>c. c < length nodes \<Longrightarrow> g_incoming s' ! c = (if c \<in> set (kids nodes i) then 1 else g_incoming s ! c)"
    by (auto simp: entered_def)
  have col: "g_colors s' ! j \<noteq> 0 \<longleftrightarrow> j = i \<or> g_colors s ! j \<noteq> 0" if "j < length nodes" for j
    using that next_enter.prems(1) unfolding s' by (cases "j = i") (simp_all add: sized_def)
  from next_enter.prems(3) have one: "distinct (kids nodes j)"
      "\<And>c. c \<in> set (kids nodes j) \<Longrightarrow> c < length nodes \<and> g_incoming s ! c = 1"
    if "j < length nodes" "g_colors s ! j \<noteq> 0" for j
    using that unfolding single_parents_def by blast+
  have fresh: "set (kids nodes i) \<inter> set (kids nodes j) = {}" if "j < length nodes" "g_colors s ! j \<noteq> 0" for j
    using one(2) [OF that] s'(3) by fastforce
  have counts: "c < length nodes \<and> g_incoming s' ! c = 1"
    if "j < length nodes" "g_colors s' ! j \<noteq> 0" "c \<in> set (kids nodes j)" for j c
    using that col [of j] one(2) [of j c] s'(3) [of c] s'(4) [of c] by auto
  have dist: "distinct (kids nodes j)" if "j < length nodes" "g_colors s' ! j \<noteq> 0" for j
    using that col [of j] one(1) [of j] s'(2) by auto
  have same: "j = k" if "j < length nodes" "k < length nodes" "g_colors s' ! j \<noteq> 0" "g_colors s' ! k \<noteq> 0"
      "set (kids nodes j) \<inter> set (kids nodes k) \<noteq> {}" for j k
    using that col [of j] col [of k] fresh [of j] fresh [of k] next_enter.prems(3)
    unfolding single_parents_def by (metis Int_commute)
  show ?case unfolding single_parents_def using counts dist same by blast
qed

lemma next_rooted: "graph_next nodes s s' \<Longrightarrow> sized nodes s \<Longrightarrow> rooted nodes root s \<Longrightarrow> rooted nodes root s'"
proof (induction rule: graph_next.induct)
  case (next_exit s i st)
  then show ?case by (cases "root = i") (auto simp: rooted_def sized_def)
next
  case (next_skip s i st)
  then show ?case by (auto simp: rooted_def)
next
  case (next_enter s i st s')
  then show ?case by (cases "root = i") (auto simp: rooted_def sized_def entered_def)
qed

lemma next_inv: "graph_next nodes s s' \<Longrightarrow> graph_inv nodes root s \<Longrightarrow> graph_inv nodes root s'"
  unfolding graph_inv_def using next_sized next_coloured next_pending next_parents next_rooted by blast

text \<open>Work left: the stack, and what the nodes not yet entered will push.\<close>

definition node_cost :: "core_node list \<Rightarrow> graph_state \<Rightarrow> nat \<Rightarrow> nat" where
  "node_cost nodes s i = (if g_colors s ! i \<in> {1, 2} then 0 else length (kids nodes i) + 2)"

definition graph_weight :: "core_node list \<Rightarrow> graph_state \<Rightarrow> nat" where
  "graph_weight nodes s = length (g_stack s) + (\<Sum>i < length nodes. node_cost nodes s i)"

lemma next_weight: "graph_next nodes s s' \<Longrightarrow> sized nodes s \<Longrightarrow> graph_weight nodes s' < graph_weight nodes s"
proof (induction rule: graph_next.induct)
  case (next_exit s i st)
  let ?s = "s\<lparr>g_stack := st, g_colors := (g_colors s)[i := 2]\<rparr>"
  have "(\<Sum>j < length nodes. node_cost nodes ?s j) \<le> (\<Sum>j < length nodes. node_cost nodes s j)"
  proof (rule sum_mono)
    fix j assume "j \<in> {..<length nodes}"
    then show "node_cost nodes ?s j \<le> node_cost nodes s j"
      using next_exit.prems by (cases "j = i") (simp_all add: node_cost_def sized_def)
  qed
  with next_exit.hyps(1) show ?case by (simp add: graph_weight_def)
next
  case (next_skip s i st)
  then show ?case by (simp add: graph_weight_def node_cost_def)
next
  case (next_enter s i st s')
  from next_enter.hyps(5) have s': "g_colors s' = (g_colors s)[i := 1]"
      "length (g_stack s') = length (kids nodes i) + 1 + length st"
    by (simp_all add: entered_def)
  have i: "i \<in> {..<length nodes}" "finite {..<length nodes}" using next_enter.hyps(2) by simp_all
  have "(\<Sum>j \<in> {..<length nodes} - {i}. node_cost nodes s' j) = (\<Sum>j \<in> {..<length nodes} - {i}. node_cost nodes s j)"
    by (rule sum.cong) (simp_all add: node_cost_def s')
  moreover have "node_cost nodes s' i = 0" "node_cost nodes s i = length (kids nodes i) + 2"
    using next_enter.hyps(2-4) next_enter.prems by (simp_all add: node_cost_def s' sized_def)
  ultimately have "(\<Sum>j < length nodes. node_cost nodes s' j) + (length (kids nodes i) + 2) =
      (\<Sum>j < length nodes. node_cost nodes s j)"
    by (simp add: sum.remove [OF i(2,1)])
  with s'(2) next_enter.hyps(1) show ?case by (simp add: graph_weight_def)
qed

lemma done_tree:
  assumes inv: "graph_inv nodes root s" and "g_stack s = []"
  shows "core_tree nodes root"
proof -
  let ?A = "{i. i < length nodes \<and> g_colors s ! i = 2}"
  have root: "root \<in> ?A" using assms by (simp add: graph_inv_def rooted_def)
  have col: "deep nodes i \<and> (\<forall>c \<in> set (kids nodes i). c \<in> ?A)" if "i \<in> ?A" for i
    using inv that by (auto simp: graph_inv_def coloured_def)
  have par: "distinct (kids nodes i)" if "i \<in> ?A" for i
    using inv that by (simp add: graph_inv_def single_parents_def)
  have "single_valued ((edges nodes ?A)\<inverse>)"
  proof (rule single_valuedI)
    fix c i j assume "(c, i) \<in> (edges nodes ?A)\<inverse>" "(c, j) \<in> (edges nodes ?A)\<inverse>"
    then have ij: "i \<in> ?A" "j \<in> ?A" and c: "set (kids nodes i) \<inter> set (kids nodes j) \<noteq> {}"
      by (auto simp: edges_def)
    from inv have "\<forall>i < length nodes. \<forall>j < length nodes. g_colors s ! i \<noteq> 0 \<longrightarrow> g_colors s ! j \<noteq> 0 \<longrightarrow>
        set (kids nodes i) \<inter> set (kids nodes j) \<noteq> {} \<longrightarrow> i = j"
      by (simp add: graph_inv_def single_parents_def)
    with ij c show "i = j" by simp
  qed
  then have "deep nodes root \<Longrightarrow> root \<in> ?A \<Longrightarrow>
      \<exists>xs. unfolds nodes root xs \<and> distinct xs \<and> set xs = (edges nodes ?A)\<^sup>* `` {root}"
    by (rule deep_unfolds) (use col par in blast)+
  with root col [OF root] show ?thesis by (auto simp: core_tree_def)
qed

definition graph_post :: "core_node list \<Rightarrow> nat \<Rightarrow> (unit, verification_error) res \<Rightarrow> bool" where
  "graph_post nodes root r \<longleftrightarrow> r \<noteq> Panic \<and> (r = Ok () \<longrightarrow> core_tree nodes root)"

lemma graph_step_leaves:
  assumes inv: "graph_inv nodes root s" and step: "graph_step nodes s = Inr r"
  shows "graph_post nodes root r"
proof (cases "g_stack s")
  case Nil
  with step done_tree [OF inv] show ?thesis by (auto simp: graph_step_def graph_post_def)
next
  case (Cons top st)
  obtain i exiting where top: "top = (i, exiting)" by (cases top)
  have s: "length (g_colors s) = length nodes" "length (g_incoming (s\<lparr>g_stack := st\<rparr>)) = length nodes"
    using inv by (simp_all add: graph_inv_def sized_def)
  show ?thesis
  proof (cases "vget nodes i")
    case None
    with step Cons top show ?thesis by (auto simp: graph_step_def Let_def graph_post_def)
  next
    case (Some node)
    with s(1) have col: "vget (g_colors s) i = Some (g_colors s ! i)" by (simp add: vget_Some)
    have "graph_enter nodes i node (s\<lparr>g_stack := st\<rparr>) \<noteq> Panic"
      using graph_enter_result [OF s(2) Some] by auto
    with step Cons top Some col show ?thesis
      by (auto simp: graph_step_def Let_def graph_post_def split: if_splits res.splits)
  qed
qed

interpretation graph: loop_machine "graph_step nodes" "graph_inv nodes root" "graph_weight nodes"
  "graph_post nodes root" for nodes root
proof
  fix s s' assume inv: "graph_inv nodes root s" and "graph_step nodes s = Inl s'"
  then have "graph_next nodes s s'" by (simp add: graph_step_next graph_inv_def)
  moreover have "sized nodes s" using inv by (simp add: graph_inv_def)
  ultimately show "graph_inv nodes root s'" "graph_weight nodes s' < graph_weight nodes s"
    using next_inv inv next_weight by blast+
next
  fix s r assume "graph_inv nodes root s" "graph_step nodes s = Inr r"
  then show "graph_post nodes root r" by (rule graph_step_leaves)
qed

lemma check_graph_returns:
  assumes "root < length nodes"
  shows "\<exists>r. check_graph nodes root = Some r \<and> graph_post nodes root r"
  unfolding check_graph_def
proof (rule graph.returns)
  show "graph_inv nodes root \<lparr>g_stack = [(root, False)], g_colors = replicate (length nodes) 0,
      g_incoming = replicate (length nodes) 0\<rparr>"
    using assms by (auto simp: graph_inv_def sized_def coloured_def pending_def single_parents_def rooted_def
        Cons_eq_append_conv)
qed

section \<open>Trees are accepted\<close>

text \<open>The loop works a subtree off its stack and touches nothing outside it.\<close>

lemma all2_left: "list_all2 P cs xss \<Longrightarrow> c \<in> set cs \<Longrightarrow> \<exists>xs \<in> set xss. P c xs"
  by (induction rule: list_all2_induct) auto

lemma all2_right: "list_all2 P cs xss \<Longrightarrow> xs \<in> set xss \<Longrightarrow> \<exists>c \<in> set cs. P c xs"
  by (induction rule: list_all2_induct) auto

lemma heads_distinct:
  "list_all2 (\<lambda>c xs. c \<in> set xs) cs xss \<Longrightarrow> distinct (concat xss) \<Longrightarrow>
    distinct cs \<and> set cs \<subseteq> set (concat xss)"
  by (induction rule: list_all2_induct) auto

lemma unfolds_below: "unfolds nodes i xs \<Longrightarrow> set xs \<subseteq> {..<length nodes}"
proof (induction rule: unfolds.induct)
  case (unfolds_node i xss)
  have "set xs \<subseteq> {..<length nodes}" if "xs \<in> set xss" for xs
    using all2_right [OF unfolds_node(2) that] by blast
  with unfolds_node(1) show ?case by auto
qed

definition works_off :: "core_node list \<Rightarrow> nat \<Rightarrow> nat list \<Rightarrow> bool" where
  "works_off nodes i xs \<longleftrightarrow> distinct xs \<longrightarrow> (\<forall>s st. sized nodes s \<longrightarrow> g_stack s = (i, False) # st \<longrightarrow>
     (\<forall>x \<in> set xs. g_colors s ! x = 0) \<longrightarrow> (\<forall>x \<in> set xs - {i}. g_incoming s ! x = 0) \<longrightarrow>
     (\<exists>s'. run (graph_step nodes) s = run (graph_step nodes) s' \<and> sized nodes s' \<and> g_stack s' = st \<and>
        (\<forall>x < length nodes. x \<notin> set xs \<longrightarrow> g_colors s' ! x = g_colors s ! x \<and> g_incoming s' ! x = g_incoming s ! x)))"

lemma works_offD:
  assumes "works_off nodes i xs" "distinct xs" "sized nodes s" "g_stack s = (i, False) # st"
    and "\<And>x. x \<in> set xs \<Longrightarrow> g_colors s ! x = 0" "\<And>x. x \<in> set xs \<Longrightarrow> x \<noteq> i \<Longrightarrow> g_incoming s ! x = 0"
  obtains s' where "run (graph_step nodes) s = run (graph_step nodes) s'" "sized nodes s'" "g_stack s' = st"
    "\<And>x. x < length nodes \<Longrightarrow> x \<notin> set xs \<Longrightarrow> g_colors s' ! x = g_colors s ! x \<and> g_incoming s' ! x = g_incoming s ! x"
  using assms unfolding works_off_def by blast

lemma works_off_list:
  assumes "list_all2 (works_off nodes) cs xss"
  shows "distinct (concat xss) \<Longrightarrow> list_all2 (\<lambda>c xs. c \<in> set xs) cs xss \<Longrightarrow>
    set (concat xss) \<subseteq> {..<length nodes} \<Longrightarrow> sized nodes s \<Longrightarrow>
    g_stack s = map (\<lambda>c. (c, False)) cs @ st \<Longrightarrow>
    (\<And>x. x \<in> set (concat xss) \<Longrightarrow> g_colors s ! x = 0) \<Longrightarrow>
    (\<And>x. x \<in> set (concat xss) \<Longrightarrow> x \<notin> set cs \<Longrightarrow> g_incoming s ! x = 0) \<Longrightarrow>
    \<exists>s'. run (graph_step nodes) s = run (graph_step nodes) s' \<and> sized nodes s' \<and> g_stack s' = st \<and>
      (\<forall>x < length nodes. x \<notin> set (concat xss) \<longrightarrow>
         g_colors s' ! x = g_colors s ! x \<and> g_incoming s' ! x = g_incoming s ! x)"
  using assms
proof (induction cs xss arbitrary: s rule: list_all2_induct)
  case Nil
  then show ?case by auto
next
  case (Cons c cs xs xss)
  have apart: "x \<notin> set (concat xss)" if "x \<in> set xs" for x using Cons.prems(1) that by auto
  have dist: "distinct (concat xss)" "list_all2 (\<lambda>c xs. c \<in> set xs) cs xss" "c \<in> set xs"
    "set (concat xss) \<subseteq> {..<length nodes}"
    using Cons.prems(1-3) by simp_all
  have cs: "x \<in> set (concat xss)" if "x \<in> set cs" for x using heads_distinct [OF dist(2,1)] that by auto
  obtain s1 where s1: "run (graph_step nodes) s = run (graph_step nodes) s1" "sized nodes s1"
    "g_stack s1 = map (\<lambda>c. (c, False)) cs @ st"
    "\<And>x. x < length nodes \<Longrightarrow> x \<notin> set xs \<Longrightarrow> g_colors s1 ! x = g_colors s ! x \<and> g_incoming s1 ! x = g_incoming s ! x"
  proof (rule works_offD [OF Cons.hyps(1), of s])
    show "distinct xs" "g_stack s = (c, False) # map (\<lambda>c. (c, False)) cs @ st" "sized nodes s"
      using Cons.prems(1,4,5) by simp_all
    show "g_colors s ! x = 0" if "x \<in> set xs" for x using Cons.prems(6) that by simp
    show "g_incoming s ! x = 0" if "x \<in> set xs" "x \<noteq> c" for x
    proof (rule Cons.prems(7))
      show "x \<in> set (concat (xs # xss))" using that by simp
      show "x \<notin> set (c # cs)" using that cs [of x] apart [of x] by auto
    qed
  qed (rule that)
  have kept: "g_colors s1 ! x = g_colors s ! x" "g_incoming s1 ! x = g_incoming s ! x"
    if "x \<in> set (concat xss)" for x
    using s1(4) [of x] that apart [of x] dist(4) by auto
  have "\<exists>s2. run (graph_step nodes) s1 = run (graph_step nodes) s2 \<and> sized nodes s2 \<and> g_stack s2 = st \<and>
      (\<forall>x < length nodes. x \<notin> set (concat xss) \<longrightarrow>
         g_colors s2 ! x = g_colors s1 ! x \<and> g_incoming s2 ! x = g_incoming s1 ! x)"
  proof (rule Cons.IH [OF dist(1,2,4) s1(2,3)])
    show "g_colors s1 ! x = 0" if "x \<in> set (concat xss)" for x
      using Cons.prems(6) [of x] kept [OF that] that by simp
    show "g_incoming s1 ! x = 0" if "x \<in> set (concat xss)" "x \<notin> set cs" for x
    proof -
      have "x \<notin> set (c # cs)" using that dist(3) apart [of c] by auto
      then show ?thesis using Cons.prems(7) [of x] kept [OF that(1)] that(1) by simp
    qed
  qed
  then obtain s2 where s2: "run (graph_step nodes) s1 = run (graph_step nodes) s2" "sized nodes s2" "g_stack s2 = st"
      "\<And>x. x < length nodes \<Longrightarrow> x \<notin> set (concat xss) \<Longrightarrow>
        g_colors s2 ! x = g_colors s1 ! x \<and> g_incoming s2 ! x = g_incoming s1 ! x"
    by blast
  show ?case
  proof (intro exI [of _ s2] conjI allI impI)
    show "run (graph_step nodes) s = run (graph_step nodes) s2" using s1(1) s2(1) by simp
    show "sized nodes s2" "g_stack s2 = st" by fact+
    fix x assume x: "x < length nodes" "x \<notin> set (concat (xs # xss))"
    then have "x \<notin> set xs" "x \<notin> set (concat xss)" by simp_all
    with s1(4) [OF x(1)] s2(4) [OF x(1)]
    show "g_colors s2 ! x = g_colors s ! x" "g_incoming s2 ! x = g_incoming s ! x" by simp_all
  qed
qed

lemma unfolds_works_off: "unfolds nodes i xs \<Longrightarrow> works_off nodes i xs"
proof (induction rule: unfolds.induct)
  case (unfolds_node i xss)
  let ?xs = "i # concat xss"
  have kids: "list_all2 (unfolds nodes) (kids nodes i) xss" "list_all2 (works_off nodes) (kids nodes i) xss"
    using unfolds_node(2) by (auto elim: list_all2_mono)
  have in_set: "list_all2 (\<lambda>c xs. c \<in> set xs) (kids nodes i) xss"
    using kids(1) by (rule list_all2_mono) (auto dest: unfolds_bounds)
  have below: "set (concat xss) \<subseteq> {..<length nodes}"
    using all2_right [OF kids(1)] unfolds_below by fastforce
  have node: "vget nodes i = Some (nodes ! i)" using unfolds_node(1) by simp
  show ?case unfolding works_off_def
  proof (intro impI allI)
    fix s st
    assume dist: "distinct ?xs" and s: "sized nodes s" "g_stack s = (i, False) # st"
      and col: "\<forall>x \<in> set ?xs. g_colors s ! x = 0" and inc: "\<forall>x \<in> set ?xs - {i}. g_incoming s ! x = 0"
    let ?t = "s\<lparr>g_stack := st\<rparr>"
    have len: "length (g_incoming ?t) = length nodes" using s(1) by (simp add: sized_def)
    have kids_dist: "distinct (kids nodes i)" and sub: "set (kids nodes i) \<subseteq> set (concat xss)"
      using heads_distinct [OF in_set] dist by auto
    have "i \<notin> set (kids nodes i)" using dist sub by auto
    then have free: "\<forall>c \<in> set (kids nodes i). c < length nodes \<and> g_incoming ?t ! c = 0"
    proof (intro ballI conjI)
      fix c assume c: "c \<in> set (kids nodes i)"
      then show "c < length nodes" using sub below by blast
      show "g_incoming ?t ! c = 0" using c sub inc \<open>i \<notin> set (kids nodes i)\<close> by auto
    qed
    obtain t where t: "graph_enter nodes i (nodes ! i) ?t = Ok t" "entered nodes i ?t t"
      using graph_enter_result [OF len node] kids_dist free
      by (cases "graph_enter nodes i (nodes ! i) ?t") auto
    have i: "i < length (g_colors s)" using s(1) unfolds_node(1) by (simp add: sized_def)
    have step: "graph_step nodes s = Inl t"
      using s(2) node t(1) col i by (simp add: graph_step_def)
    have tt: "sized nodes t" "g_stack t = map (\<lambda>c. (c, False)) (kids nodes i) @ (i, True) # st"
        "\<And>x. x \<noteq> i \<Longrightarrow> g_colors t ! x = g_colors s ! x"
      using t(2) s(1) by (auto simp: entered_def sized_def)
    have tinc: "g_incoming t ! x = g_incoming s ! x" if "x \<notin> set (kids nodes i)" "x < length nodes" for x
      using t(2) that by (simp add: entered_def)
    have "\<exists>s'. run (graph_step nodes) t = run (graph_step nodes) s' \<and> sized nodes s' \<and> g_stack s' = (i, True) # st \<and>
      (\<forall>x < length nodes. x \<notin> set (concat xss) \<longrightarrow> g_colors s' ! x = g_colors t ! x \<and> g_incoming s' ! x = g_incoming t ! x)"
    proof (rule works_off_list [OF kids(2) _ in_set below tt(1,2)])
      show "distinct (concat xss)" using dist by simp
      show "g_colors t ! x = 0" if "x \<in> set (concat xss)" for x
      proof -
        have "x \<noteq> i" using that dist by auto
        moreover have "g_colors s ! x = 0" using col that by auto
        ultimately show ?thesis using tt(3) by simp
      qed
      show "g_incoming t ! x = 0" if "x \<in> set (concat xss)" "x \<notin> set (kids nodes i)" for x
      proof -
        have "x \<noteq> i" "x < length nodes" using that(1) dist below by auto
        moreover have "g_incoming s ! x = 0" using inc that(1) \<open>x \<noteq> i\<close> by auto
        ultimately show ?thesis using tinc [OF that(2)] by simp
      qed
    qed
    then obtain s' where s': "run (graph_step nodes) t = run (graph_step nodes) s'" "sized nodes s'"
        "g_stack s' = (i, True) # st"
        "\<And>x. x < length nodes \<Longrightarrow> x \<notin> set (concat xss) \<Longrightarrow> g_colors s' ! x = g_colors t ! x \<and> g_incoming s' ! x = g_incoming t ! x"
      by blast
    let ?e = "s'\<lparr>g_stack := st, g_colors := (g_colors s')[i := 2]\<rparr>"
    have exit: "graph_step nodes s' = Inl ?e" using s'(3) node by (simp add: graph_step_def)
    show "\<exists>s'. run (graph_step nodes) s = run (graph_step nodes) s' \<and> sized nodes s' \<and> g_stack s' = st \<and>
        (\<forall>x < length nodes. x \<notin> set ?xs \<longrightarrow> g_colors s' ! x = g_colors s ! x \<and> g_incoming s' ! x = g_incoming s ! x)"
    proof (intro exI [of _ ?e] conjI allI impI)
      show "run (graph_step nodes) s = run (graph_step nodes) ?e"
        using run_Inl [where step = "graph_step nodes", OF step] s'(1)
          run_Inl [where step = "graph_step nodes", OF exit] by simp
      show "sized nodes ?e" using s'(2) by (simp add: sized_def)
      show "g_stack ?e = st" by simp
      fix x assume x: "x < length nodes" "x \<notin> set ?xs"
      then have "x \<noteq> i" "x \<notin> set (concat xss)" by simp_all
      then have "x \<notin> set (kids nodes i)" using sub by blast
      with s'(4) [OF x(1)] tt(3) [of x] tinc [of x] x(1) \<open>x \<noteq> i\<close> \<open>x \<notin> set (concat xss)\<close>
      show "g_colors ?e ! x = g_colors s ! x" "g_incoming ?e ! x = g_incoming s ! x" by simp_all
    qed
  qed
qed

lemma tree_accepted:
  assumes "core_tree nodes root"
  shows "check_graph nodes root = Some (Ok ())"
proof -
  let ?s = "\<lparr>g_stack = [(root, False)], g_colors = replicate (length nodes) 0, g_incoming = replicate (length nodes) 0\<rparr>"
  from assms obtain xs where xs: "unfolds nodes root xs" "distinct xs" by (auto simp: core_tree_def)
  obtain s' where "run (graph_step nodes) ?s = run (graph_step nodes) s'" "g_stack s' = []"
    by (rule works_offD [OF unfolds_works_off [OF xs(1)] xs(2), of ?s "[]"])
       (use unfolds_below [OF xs(1)] in \<open>auto simp: sized_def\<close>)
  moreover have "run (graph_step nodes) s' = Some (Ok ())"
    by (rule run_Inr) (simp add: graph_step_def \<open>g_stack s' = []\<close>)
  ultimately show ?thesis by (simp add: check_graph_def)
qed

end
