(* ===== verification/Hell_Core_Types.thy ===== *)
theory Hell_Core_Types
  imports Hell_Core_Graph Hell_Kinding
begin

text \<open>
  What the checker's loops over types compute, in terms of the trees of a well-formed
  arena: the head and the arguments of an application, the parts of a function type,
  closedness, and whether a builtin's type is plausible.
\<close>

section \<open>Parts of a tree\<close>

fun app_head :: "ty \<Rightarrow> ty" where
  "app_head (App f a) = app_head f"
| "app_head t = t"

fun app_args :: "ty \<Rightarrow> ty list" where
  "app_args (App f a) = app_args f @ [a]"
| "app_args t = []"

fun fun_args :: "ty \<Rightarrow> ty list" where
  "fun_args (Fun a r) = a # fun_args r"
| "fun_args t = []"

fun fun_result :: "ty \<Rightarrow> ty" where
  "fun_result (Fun a r) = fun_result r"
| "fun_result t = t"

fun con_name :: "ty \<Rightarrow> string option" where
  "con_name (Con name _) = Some name"
| "con_name _ = None"

fun closed_ty :: "ty \<Rightarrow> bool" where
  "closed_ty (Meta _) = False"
| "closed_ty (Bound _) = False"
| "closed_ty (App a b) = (closed_ty a \<and> closed_ty b)"
| "closed_ty (Fun a b) = (closed_ty a \<and> closed_ty b)"
| "closed_ty (RCons _ a b) = (closed_ty a \<and> closed_ty b)"
| "closed_ty _ = True"

lemma closed_no_metas: "closed_ty t \<Longrightarrow> metas_of t = {}"
  by (induction t) auto

section \<open>A well-formed arena\<close>

text \<open>The type of an identifier, and identifiers that name one.\<close>

abbreviation T :: "type_arena \<Rightarrow> nat \<Rightarrow> ty" where
  "T ar i \<equiv> tree (t_nodes ar) i"

abbreviation known :: "type_arena \<Rightarrow> nat \<Rightarrow> bool" where
  "known ar i \<equiv> i < length (t_nodes ar)"

lemma T_node:
  assumes "types_ok ar" "type_get ar i = Some n"
  shows "T ar i = node_tree (T ar) n" "\<forall>c \<in> set (children n). c < i \<and> known ar c"
proof -
  have i: "nodes_below (t_nodes ar)" "vget (t_nodes ar) i = Some n"
    using assms by (auto simp: types_ok_def type_get_def)
  then show "T ar i = node_tree (T ar) n" by (rule tree_node)
  show "\<forall>c \<in> set (children n). c < i \<and> known ar c"
    using children_below [OF i] i(2) by (fastforce simp: vget_Some)
qed

lemma T_same:
  "types_ok ar \<Longrightarrow> known ar i \<Longrightarrow> known ar j \<Longrightarrow> closed_ty (T ar i) \<Longrightarrow> T ar i = T ar j \<longleftrightarrow> i = j"
  using tree_injective [of ar i j] closed_no_metas by auto

lemma known_get: "known ar i \<Longrightarrow> type_get ar i = Some (t_nodes ar ! i)"
  by (simp add: type_get_def)

lemma get_type_known: "known ar i \<Longrightarrow> get_type ar i = Some (Ok (t_nodes ar ! i))"
  by (simp add: get_type_def type_get_def)

text \<open>Inversions: the node of an identifier from the shape of its tree.\<close>

lemma T_Fun:
  assumes "types_ok ar" "known ar i" "t_nodes ar ! i = TFunction a b"
  shows "T ar i = Fun (T ar a) (T ar b)" "known ar a" "known ar b" "a < i" "b < i"
  using T_node [OF assms(1), of i "TFunction a b"] assms known_get [of i ar] by auto

lemma T_App:
  assumes "types_ok ar" "known ar i" "t_nodes ar ! i = TApply a b"
  shows "T ar i = App (T ar a) (T ar b)" "known ar a" "known ar b" "a < i" "b < i"
  using T_node [OF assms(1), of i "TApply a b"] assms known_get [of i ar] by auto

lemma T_Row:
  assumes "types_ok ar" "known ar i" "t_nodes ar ! i = TRowCons l a b"
  shows "T ar i = RCons l (T ar a) (T ar b)" "known ar a" "known ar b" "a < i" "b < i"
  using T_node [OF assms(1), of i "TRowCons l a b"] assms known_get [of i ar] by auto

lemma T_leaf:
  assumes "types_ok ar" "known ar i"
  shows "t_nodes ar ! i = TMeta m \<Longrightarrow> T ar i = Meta m" "t_nodes ar ! i = TBound k \<Longrightarrow> T ar i = Bound k"
    "t_nodes ar ! i = TConstructor c n \<Longrightarrow> T ar i = Con c n" "t_nodes ar ! i = TSymbol c \<Longrightarrow> T ar i = Sym c"
    "t_nodes ar ! i = TRowNil \<Longrightarrow> T ar i = RNil"
  using T_node(1) [OF assms(1) known_get [OF assms(2)]] by simp_all

lemmas T_shapes = T_Fun T_App T_Row T_leaf

lemma T_is_Fun:
  assumes "types_ok ar" "known ar i"
  shows "(\<exists>a b. T ar i = Fun a b) \<longleftrightarrow> (\<exists>a b. t_nodes ar ! i = TFunction a b)"
  by (cases "t_nodes ar ! i") (use T_shapes [OF assms] in auto)

section \<open>The accessors\<close>

named_theorems read_types

lemma cbind_simps [simp]:
  "cbind (Some (Ok x)) f = f x" "cbind (done_with x) f = f x" "cbind (Some Panic) f = Some Panic"
  "cbind (Some (Err e)) f = Some (Err e)" "cbind (refuse e) f = refuse e" "cbind None f = None"
  by (simp_all add: cbind_def done_with_def refuse_def)

lemma both_simps [simp]:
  "both (done_with b) n = (if b then n else done_with False)" "both (Some (Ok b)) n = (if b then n else done_with False)"
  by (simp_all add: both_def)

lemma require_simps [simp]:
  "require (done_with b) e n = (if b then n else refuse e)" "require (Some (Ok b)) e n = (if b then n else refuse e)"
  by (simp_all add: require_def)

lemma constructor_name_T [read_types]:
  assumes "types_ok ar" "known ar i"
  shows "constructor_name ar i = done_with (con_name (T ar i))"
  by (cases "t_nodes ar ! i")
     (use T_shapes [OF assms] assms in \<open>simp_all add: constructor_name_def get_type_known\<close>)

lemma type_spine_T:
  assumes "types_ok ar"
  shows "known ar i \<Longrightarrow> \<exists>h as. type_spine ar i acc = Some (Ok (h, as @ acc)) \<and> known ar h \<and>
    T ar h = app_head (T ar i) \<and> list_all (known ar) as \<and> map (T ar) as = app_args (T ar i)"
proof (induction i arbitrary: acc rule: less_induct)
  case (less i)
  show ?case
  proof (cases "t_nodes ar ! i")
    case (TApply f a)
    note fa = T_App [OF assms less.prems TApply]
    from less.IH [OF fa(4,2), of "a # acc"] obtain h as where
      "type_spine ar f (a # acc) = Some (Ok (h, as @ a # acc))" "known ar h" "T ar h = app_head (T ar f)"
      "list_all (known ar) as" "map (T ar) as = app_args (T ar f)" by auto
    with TApply fa less.prems show ?thesis
      by (intro exI [of _ h] exI [of _ "as @ [a]"]) (subst type_spine.simps, simp add: known_get)
  qed (use T_shapes [OF assms less.prems] less.prems in
      \<open>intro exI [of _ i] exI [of _ "[]"], subst type_spine.simps, simp add: known_get\<close>)+
qed

lemma function_parts_T:
  assumes "types_ok ar"
  shows "known ar i \<Longrightarrow> \<exists>as r. function_parts ar i acc = Some (Ok (acc @ as, r)) \<and> known ar r \<and>
    T ar r = fun_result (T ar i) \<and> list_all (known ar) as \<and> map (T ar) as = fun_args (T ar i)"
proof (induction i arbitrary: acc rule: less_induct)
  case (less i)
  show ?case
  proof (cases "t_nodes ar ! i")
    case (TFunction a b)
    note ab = T_Fun [OF assms less.prems TFunction]
    from less.IH [OF ab(5,3), of "acc @ [a]"] obtain as r where
      "function_parts ar b (acc @ [a]) = Some (Ok ((acc @ [a]) @ as, r))" "known ar r" "T ar r = fun_result (T ar b)"
      "list_all (known ar) as" "map (T ar) as = fun_args (T ar b)" by auto
    with TFunction ab less.prems show ?thesis
      by (intro exI [of _ "a # as"] exI [of _ r]) (subst function_parts.simps, simp add: known_get)
  qed (use T_shapes [OF assms less.prems] less.prems in
      \<open>intro exI [of _ "[]"] exI [of _ i], subst function_parts.simps, simp add: known_get\<close>)+
qed

lemma type_head_name_T [read_types]:
  assumes "types_ok ar" "known ar i"
  shows "type_head_name ar i = done_with (con_name (app_head (T ar i)))"
proof -
  from type_spine_T [OF assms, of "[]"] obtain h as where
    "type_spine ar i [] = Some (Ok (h, as))" "known ar h" "T ar h = app_head (T ar i)" by auto
  with assms(1) show ?thesis by (simp add: type_head_name_def constructor_name_T)
qed

lemma head_is_T [read_types]:
  "types_ok ar \<Longrightarrow> known ar i \<Longrightarrow> head_is ar i name = done_with (con_name (app_head (T ar i)) = Some name)"
  by (simp add: head_is_def read_types)

lemma constructor_is_T [read_types]:
  "types_ok ar \<Longrightarrow> known ar i \<Longrightarrow> constructor_is ar i name = done_with (con_name (T ar i) = Some name)"
  by (simp add: constructor_is_def read_types)

lemma constant_has_type_T [read_types]:
  "types_ok ar \<Longrightarrow> known ar i \<Longrightarrow>
    constant_has_type ar c i = done_with (con_name (T ar i) = Some (constant_type_name c))"
  by (simp add: constant_has_type_def read_types)

lemma displayed_T [read_types]:
  "types_ok ar \<Longrightarrow> known ar i \<Longrightarrow> displayed ar i = done_with (show_ty 0 (T ar i))"
  by (simp add: displayed_def display_eq done_with_def)

section \<open>Closedness\<close>

definition closed_inv :: "type_arena \<Rightarrow> nat \<Rightarrow> nat list \<times> nat set \<Rightarrow> bool" where
  "closed_inv ar root = (\<lambda>(stack, visited).
     root \<in> visited \<union> set stack \<and> finite visited \<and>
     (\<forall>v \<in> visited \<union> set stack. known ar v \<and> (closed_ty (T ar root) \<longrightarrow> closed_ty (T ar v))) \<and>
     (\<forall>v \<in> visited. \<not> is_meta (t_nodes ar ! v) \<and> (\<forall>k. t_nodes ar ! v \<noteq> TBound k) \<and>
        set (children (t_nodes ar ! v)) \<subseteq> visited \<union> set stack))"

definition closed_weight :: "type_arena \<Rightarrow> nat list \<times> nat set \<Rightarrow> nat" where
  "closed_weight ar = (\<lambda>(stack, visited). length stack + 3 * card ({..<length (t_nodes ar)} - visited))"

lemma closed_visited:
  assumes "types_ok ar" and inv: "closed_inv ar root ([], visited)"
  shows "v \<in> visited \<Longrightarrow> closed_ty (T ar v)"
proof (induction v rule: less_induct)
  case (less v)
  have v: "known ar v" using inv less.prems by (auto simp: closed_inv_def)
  note n = known_get [OF v]
  have *: "\<not> is_meta (t_nodes ar ! v)" "\<forall>k. t_nodes ar ! v \<noteq> TBound k" "set (children (t_nodes ar ! v)) \<subseteq> visited"
    using inv less.prems by (auto simp: closed_inv_def)
  have "closed_ty (T ar c)" if "c \<in> set (children (t_nodes ar ! v))" for c
    using less.IH [of c] T_node(2) [OF assms(1) n] *(3) that by auto
  with * show ?case
    by (cases "t_nodes ar ! v") (use T_shapes [OF assms(1) v] in auto)
qed

lemma closed_inv_open:
  assumes "types_ok ar" "closed_inv ar root (ty # stack, visited)" "\<not> closed_ty (T ar ty)"
  shows "\<not> closed_ty (T ar root)"
  using assms by (auto simp: closed_inv_def)

lemma closed_inv_push:
  assumes ok: "types_ok ar" and inv: "closed_inv ar root (ty # stack, visited)" and n: "t_nodes ar ! ty = n"
    and kind: "\<not> is_meta n" "\<forall>k. n \<noteq> TBound k" and new: "set new = set (children n)"
  shows "closed_inv ar root (new @ stack, insert ty visited)"
proof -
  have ty: "known ar ty" using inv by (simp add: closed_inv_def)
  note get = known_get [OF ty, unfolded n]
  have sub: "known ar c" "closed_ty (T ar ty) \<Longrightarrow> closed_ty (T ar c)" if "c \<in> set (children n)" for c
  proof -
    show "known ar c" using T_node(2) [OF ok get] that by blast
    show "closed_ty (T ar c)" if "closed_ty (T ar ty)"
      using that T_node(1) [OF ok get] \<open>c \<in> set (children n)\<close> by (cases n) auto
  qed
  from inv have old: "root \<in> visited \<union> set (ty # stack)" "finite visited"
      "\<And>v. v \<in> visited \<union> set (ty # stack) \<Longrightarrow> known ar v \<and> (closed_ty (T ar root) \<longrightarrow> closed_ty (T ar v))"
      "\<And>v. v \<in> visited \<Longrightarrow> \<not> is_meta (t_nodes ar ! v) \<and> (\<forall>k. t_nodes ar ! v \<noteq> TBound k) \<and>
        set (children (t_nodes ar ! v)) \<subseteq> visited \<union> set (ty # stack)"
    unfolding closed_inv_def prod.case by blast+
  show ?thesis unfolding closed_inv_def prod.case
  proof (intro conjI ballI)
    show "root \<in> insert ty visited \<union> set (new @ stack)" using old(1) by auto
    show "finite (insert ty visited)" using old(2) by simp
    fix v assume "v \<in> insert ty visited \<union> set (new @ stack)"
    then have "v \<in> set (children n) \<or> v \<in> visited \<union> set (ty # stack)" using new by auto
    then show "known ar v" "closed_ty (T ar root) \<longrightarrow> closed_ty (T ar v)"
      using sub [of v] old(3) [of v] old(3) [of ty] by auto
  next
    fix v assume v: "v \<in> insert ty visited"
    show "\<not> is_meta (t_nodes ar ! v)" "\<forall>k. t_nodes ar ! v \<noteq> TBound k"
      using v old(4) [of v] kind n by auto
    show "set (children (t_nodes ar ! v)) \<subseteq> insert ty visited \<union> set (new @ stack)"
    proof (cases "v \<in> visited")
      case True
      with old(4) [of v] show ?thesis by auto
    next
      case False
      with v n new show ?thesis by auto
    qed
  qed
qed

lemma closed_weight_push:
  assumes "closed_inv ar root (ty # stack, visited)" "ty \<notin> visited" "length new \<le> 2"
  shows "closed_weight ar (new @ stack, insert ty visited) < closed_weight ar (ty # stack, visited)"
proof -
  have ty: "ty \<in> {..<length (t_nodes ar)} - visited" using assms(1,2) by (simp add: closed_inv_def)
  have "card ({..<length (t_nodes ar)} - visited) = Suc (card ({..<length (t_nodes ar)} - insert ty visited))"
    using card.remove [OF _ ty] by (simp add: Diff_insert [symmetric])
  with assms(3) show ?thesis by (simp add: closed_weight_def)
qed

lemma closed_step_cases:
  assumes ok: "types_ok ar" and inv: "closed_inv ar root s"
  shows "(\<exists>s'. closed_step ar s = Inl s' \<and> closed_inv ar root s' \<and> closed_weight ar s' < closed_weight ar s)
    \<or> closed_step ar s = Inr (Ok (closed_ty (T ar root)))"
proof -
  obtain stack visited where s: "s = (stack, visited)" by (cases s)
  show ?thesis
  proof (cases stack)
    case Nil
    with inv have "root \<in> visited" by (simp add: s closed_inv_def)
    with closed_visited [OF ok, of root visited root] inv Nil show ?thesis by (simp add: s closed_step_def)
  next
    case (Cons ty rest)
    have ty: "known ar ty" using inv by (simp add: s Cons closed_inv_def)
    show ?thesis
    proof (cases "ty \<in> visited")
      case True
      then have "closed_inv ar root (rest, visited)" using inv by (auto simp: s Cons closed_inv_def)
      with True show ?thesis by (simp add: s Cons closed_step_def closed_weight_def)
    next
      case False
      note inv' = inv [unfolded s Cons]
      note push = closed_inv_push [OF ok inv' refl] closed_weight_push [OF inv' False]
      show ?thesis
      proof (cases "t_nodes ar ! ty")
        case (TMeta m)
        with closed_inv_open [OF ok inv'] T_leaf [OF ok ty] False ty show ?thesis
          by (simp add: s Cons closed_step_def known_get)
      next
        case (TBound k)
        with closed_inv_open [OF ok inv'] T_leaf [OF ok ty] False ty show ?thesis
          by (simp add: s Cons closed_step_def known_get)
      next
        case (TApply l r)
        with push [of "[r, l]"] False ty show ?thesis by (auto simp: s Cons closed_step_def known_get)
      next
        case (TFunction l r)
        with push [of "[r, l]"] False ty show ?thesis by (auto simp: s Cons closed_step_def known_get)
      next
        case (TRowCons lab l r)
        with push [of "[r, l]"] False ty show ?thesis by (auto simp: s Cons closed_step_def known_get)
      qed (use push [of "[]"] False ty in \<open>auto simp: s Cons closed_step_def known_get\<close>)
    qed
  qed
qed

interpretation closedness: loop_machine "closed_step ar" "\<lambda>s. types_ok ar \<and> closed_inv ar root s" "closed_weight ar"
  "\<lambda>r. r = Ok (closed_ty (T ar root))" for ar root
  using closed_step_cases by unfold_locales fastforce+

lemma type_is_closed_T [read_types]:
  assumes "types_ok ar" "known ar i"
  shows "type_is_closed ar i = done_with (closed_ty (T ar i))"
  using closedness.returns [of ar i "([i], {})"] assms
  by (simp add: type_is_closed_def done_with_def closed_inv_def)

section \<open>Types of builtins\<close>

text \<open>The same conditions on trees.\<close>

fun fun_test :: "ty \<Rightarrow> (ty \<Rightarrow> ty \<Rightarrow> bool) \<Rightarrow> bool" where
  "fun_test (Fun a r) f = f a r"
| "fun_test _ f = False"

definition head_test :: "string \<Rightarrow> ty \<Rightarrow> bool" where
  "head_test name t \<longleftrightarrow> con_name (app_head t) = Some name"

definition shape_spec :: "string \<Rightarrow> ty \<Rightarrow> bool option" where
  "shape_spec name t =
    (if name \<in> set [''Eq.eq'', ''Ord.lt'', ''Ord.gt''] then
       Some (fun_test t (\<lambda>l rest. fun_test rest (\<lambda>r result. l = r \<and> con_name result = Some ''Bool'')))
     else if name = ''Function.id'' then Some (fun_test t (\<lambda>a r. a = r))
     else if name = ''Function.fix'' then
       Some (fun_test t (\<lambda>f r. fun_test f (\<lambda>a fr. a = r \<and> fr = r)))
     else if name = ''Error.error'' then Some (fun_test t (\<lambda>a _. con_name a = Some ''Text''))
     else if name = ''hell:Hell.NilR'' then Some (head_test ''hell:Hell.Record'' t)
     else if name = ''hell:Hell.ConsR'' then
       Some (fun_test t (\<lambda>_ rest. fun_test rest (\<lambda>tail r.
         head_test ''hell:Hell.Record'' tail \<and> head_test ''hell:Hell.Record'' r)))
     else if name = ''hell:Hell.LeftV'' then Some (fun_test t (\<lambda>_ r. head_test ''hell:Hell.Variant'' r))
     else if name = ''hell:Hell.RightV'' then
       Some (fun_test t (\<lambda>v r. head_test ''hell:Hell.Variant'' v \<and> head_test ''hell:Hell.Variant'' r))
     else if name = ''hell:Hell.NilA'' then Some (head_test ''hell:Hell.Accessor'' t)
     else if name = ''hell:Hell.WildA'' then Some (fun_test t (\<lambda>_ r. head_test ''hell:Hell.Accessor'' r))
     else if name = ''hell:Hell.ConsA'' then
       Some (fun_test t (\<lambda>handler rest. fun_test handler (\<lambda>_ _. fun_test rest (\<lambda>tail r.
         head_test ''hell:Hell.Accessor'' tail \<and> head_test ''hell:Hell.Accessor'' r))))
     else if name = ''hell:Hell.runAccessor'' then
       Some (fun_test t (\<lambda>tagged rest. head_test ''hell:Hell.Tagged'' tagged \<and>
         fun_test rest (\<lambda>accessor _. head_test ''hell:Hell.Accessor'' accessor)))
     else if name = ''hell:Hell.Tagged'' then Some (fun_test t (\<lambda>_ r. head_test ''hell:Hell.Tagged'' r))
     else if name = ''hell:Hell.Nullary'' then Some (con_name t = Some ''hell:Hell.Nullary'')
     else None)"

text \<open>A builtin may be used at a type.\<close>

definition builtin_at :: "registry \<Rightarrow> string \<Rightarrow> ty \<Rightarrow> bool" where
  "builtin_at reg name t =
    (case fixed_type name of
       Some expected \<Rightarrow> show_ty 0 t = expected
     | None \<Rightarrow> (case shape_spec name t of
         Some b \<Rightarrow> b
       | None \<Rightarrow> map_option bs_arity (lookup_builtin (reg_specs reg) name) = Some (length (fun_args t))))"

lemma when_arrow_T:
  assumes "types_ok ar" "known ar i"
    and "\<And>a r. known ar a \<Longrightarrow> known ar r \<Longrightarrow> T ar i = Fun (T ar a) (T ar r) \<Longrightarrow> f a r = done_with (F (T ar a) (T ar r))"
  shows "when_arrow ar i f = done_with (fun_test (T ar i) F)"
  by (cases "t_nodes ar ! i")
     (use T_shapes [OF assms(1,2)] assms in \<open>simp_all add: when_arrow_def arrow_def get_type_known\<close>)

lemma both_T: "m = done_with a \<Longrightarrow> (a \<Longrightarrow> n = done_with b) \<Longrightarrow> both m n = done_with (a \<and> b)"
  by simp

lemma head_test_T: "types_ok ar \<Longrightarrow> known ar i \<Longrightarrow> head_is ar i name = done_with (head_test name (T ar i))"
  by (simp add: head_is_T head_test_def)

lemma same_T:
  "types_ok ar \<Longrightarrow> known ar i \<Longrightarrow> known ar j \<Longrightarrow> closed_ty (T ar i) \<Longrightarrow> done_with (i = j) = done_with (T ar i = T ar j)"
  by (simp add: T_same)

lemma shape_check_T:
  assumes "types_ok ar" "known ar i" "closed_ty (T ar i)"
  shows "shape_check ar name i = map_option done_with (shape_spec name (T ar i))"
proof -
  have eq: "(a = b) = (T ar a = T ar b)" if "known ar a" "known ar b" "closed_ty (T ar a)" for a b
    using T_same [OF assms(1) that] by simp
  show ?thesis
    unfolding shape_check_def shape_spec_def
    by (simp only: if_distrib [of "map_option done_with"] option.map)
       (intro if_cong refl arg_cong [where f = Some] when_arrow_T [OF assms(1)] assms(2) both_T
          head_test_T [OF assms(1)] constructor_is_T [OF assms(1)] arg_cong [where f = done_with]; use assms(3) eq in simp)
qed

lemma arity_check_T:
  assumes "types_ok ar" "known ar i"
  shows "arity_check reg ar name i =
    done_with (map_option bs_arity (lookup_builtin (reg_specs reg) name) = Some (length (fun_args (T ar i))))"
proof -
  from function_parts_T [OF assms, of "[]"] obtain as r where
    *: "function_parts ar i [] = Some (Ok (as, r))" "map (T ar) as = fun_args (T ar i)" by auto
  then have "length as = length (fun_args (T ar i))" by (metis length_map)
  with *(1) show ?thesis by (simp add: arity_check_def)
qed

lemma builtin_type_is_plausible_T [read_types]:
  assumes "types_ok ar" "known ar i" "closed_ty (T ar i)"
  shows "builtin_type_is_plausible reg ar name i = done_with (builtin_at reg name (T ar i))"
  using assms
  by (simp add: builtin_type_is_plausible_def builtin_at_def displayed_T shape_check_T arity_check_T split: option.split)

end
