(* ===== verification/Hell_Core_Evidence.thy ===== *)
theory Hell_Core_Evidence
  imports Hell_Core_Types
begin

text \<open>
  Class evidence.  A plan is justified when it fits the instance of its class for the head
  of its type and its premises are justified; the loop over the graph of plans returns,
  accepts exactly the justified plans and gives the plans below the root.  A justified plan
  proves that its type has an instance of its class by the rules of the manifest.
\<close>

section \<open>Instances\<close>

inductive has_instance :: "instance_spec list \<Rightarrow> builtin_class \<Rightarrow> ty \<Rightarrow> bool" for instances cls where
  instance_rule: "con_name (app_head t) = Some target \<Longrightarrow> find_instance instances cls target = Some spec \<Longrightarrow>
    head_arity (in_resolution spec) = length (app_args t) \<Longrightarrow>
    (\<And>k. k < premise_count (in_resolution spec) \<Longrightarrow> has_instance instances cls (app_args t ! k)) \<Longrightarrow>
    has_instance instances cls t"

lemma premise_count_le: "premise_count r \<le> head_arity r"
  by (cases r) simp_all

section \<open>One plan\<close>

definition fits :: "type_arena \<Rightarrow> instance_spec list \<Rightarrow> evidence_plan list \<Rightarrow> evidence_plan \<Rightarrow> bool" where
  "fits ar instances plans plan \<longleftrightarrow> plan_fits ar instances plans plan = done_with True"

lemma vget_out: "\<not> i < length xs \<Longrightarrow> vget xs i = None"
  by simp

lemma premises_fit_total:
  "length ps \<le> length args \<Longrightarrow> \<exists>b. premises_fit plans cls ps args = done_with b \<and>
    (b \<longrightarrow> (\<forall>k < length ps. \<exists>child. vget plans (ps ! k) = Some child \<and> ep_class child = cls \<and> ep_head child = args ! k))"
proof (induction ps arbitrary: args)
  case (Cons p ps)
  then obtain a as where args: "args = a # as" "length ps \<le> length as" by (cases args) auto
  from Cons.IH [OF args(2)] obtain b where "premises_fit plans cls ps as = done_with b"
    "b \<longrightarrow> (\<forall>k < length ps. \<exists>child. vget plans (ps ! k) = Some child \<and> ep_class child = cls \<and> ep_head child = as ! k)"
    by blast
  then show ?case
    by (cases "p < length plans") (auto simp: args less_Suc_eq_0_disj vget_out)
qed auto

lemma instance_head_T:
  assumes "types_ok ar" "known ar i"
  obtains as where "list_all (known ar) as" "map (T ar) as = app_args (T ar i)"
    "instance_head ar i = done_with (case con_name (app_head (T ar i)) of None \<Rightarrow> None | Some c \<Rightarrow> Some (c, as))"
proof -
  from type_spine_T [OF assms, of "[]"] obtain h as where
    "type_spine ar i [] = Some (Ok (h, as))" "known ar h" "T ar h = app_head (T ar i)"
    "list_all (known ar) as" "map (T ar) as = app_args (T ar i)" by auto
  with assms(1) that [of as] show thesis by (simp add: instance_head_def constructor_name_T)
qed

lemma plan_fits_total:
  assumes "types_ok ar" "known ar (ep_head plan)"
  shows "plan_fits ar instances plans plan = done_with (fits ar instances plans plan)"
    "fits ar instances plans plan \<Longrightarrow> \<exists>target spec.
       con_name (app_head (T ar (ep_head plan))) = Some target \<and>
       find_instance instances (ep_class plan) target = Some spec \<and>
       head_arity (in_resolution spec) = length (app_args (T ar (ep_head plan))) \<and>
       length (ep_premises plan) = premise_count (in_resolution spec) \<and>
       (\<forall>k < length (ep_premises plan). \<exists>child. vget plans (ep_premises plan ! k) = Some child \<and>
          ep_class child = ep_class plan \<and> T ar (ep_head child) = app_args (T ar (ep_head plan)) ! k)"
proof -
  from instance_head_T [OF assms] obtain as where as: "list_all (known ar) as"
    "map (T ar) as = app_args (T ar (ep_head plan))"
    "instance_head ar (ep_head plan) =
      done_with (case con_name (app_head (T ar (ep_head plan))) of None \<Rightarrow> None | Some c \<Rightarrow> Some (c, as))" .
  have len: "length as = length (app_args (T ar (ep_head plan)))" using as(2) by (metis length_map)
  have le: "length (ep_premises plan) \<le> length as"
    if "head_arity r = length as" "length (ep_premises plan) = premise_count r" for r
    using that premise_count_le [of r] by simp
  have "\<exists>b. plan_fits ar instances plans plan = done_with b"
    using premises_fit_total [OF le]
    by (auto simp: plan_fits_def as(3) split: option.split) metis
  then show "plan_fits ar instances plans plan = done_with (fits ar instances plans plan)"
    by (auto simp: fits_def done_with_def)
  assume "fits ar instances plans plan"
  then obtain target spec where *: "con_name (app_head (T ar (ep_head plan))) = Some target"
    "find_instance instances (ep_class plan) target = Some spec" "head_arity (in_resolution spec) = length as"
    "length (ep_premises plan) = premise_count (in_resolution spec)"
    "premises_fit plans (ep_class plan) (ep_premises plan) as = done_with True"
    by (auto simp: fits_def plan_fits_def as(3) done_with_def split: option.splits if_splits)
  from premises_fit_total [OF le [OF *(3,4)], of plans "ep_class plan"] *(5)
  have "\<forall>k < length (ep_premises plan). \<exists>child. vget plans (ep_premises plan ! k) = Some child \<and>
      ep_class child = ep_class plan \<and> ep_head child = as ! k"
    by (auto simp: done_with_def)
  moreover have "T ar (as ! k) = app_args (T ar (ep_head plan)) ! k" if "k < length as" for k
    using that as(2) by (metis nth_map)
  ultimately have "\<forall>k < length (ep_premises plan). \<exists>child. vget plans (ep_premises plan ! k) = Some child \<and>
      ep_class child = ep_class plan \<and> T ar (ep_head child) = app_args (T ar (ep_head plan)) ! k"
    using le [OF *(3,4)] by fastforce
  with * len show "\<exists>target spec.
       con_name (app_head (T ar (ep_head plan))) = Some target \<and>
       find_instance instances (ep_class plan) target = Some spec \<and>
       head_arity (in_resolution spec) = length (app_args (T ar (ep_head plan))) \<and>
       length (ep_premises plan) = premise_count (in_resolution spec) \<and>
       (\<forall>k < length (ep_premises plan). \<exists>child. vget plans (ep_premises plan ! k) = Some child \<and>
          ep_class child = ep_class plan \<and> T ar (ep_head child) = app_args (T ar (ep_head plan)) ! k)"
    by auto
qed

section \<open>Justified plans\<close>

definition premises_of :: "evidence_plan list \<Rightarrow> nat \<Rightarrow> nat list" where
  "premises_of plans i = (case vget plans i of None \<Rightarrow> [] | Some plan \<Rightarrow> ep_premises plan)"

definition plan_edges :: "evidence_plan list \<Rightarrow> (nat \<times> nat) set" where
  "plan_edges plans = {(i, q). q \<in> set (premises_of plans i)}"

inductive justified ::
  "type_arena \<Rightarrow> instance_spec list \<Rightarrow> evidence_plan list \<Rightarrow> nat \<Rightarrow> bool" for ar instances plans where
  justifiedI: "i < length plans \<Longrightarrow> fits ar instances plans (plans ! i) \<Longrightarrow>
    (\<And>q. q \<in> set (premises_of plans i) \<Longrightarrow> justified ar instances plans q) \<Longrightarrow> justified ar instances plans i"

lemma justified_reach:
  "(i, q) \<in> (plan_edges plans)\<^sup>* \<Longrightarrow> justified ar instances plans i \<Longrightarrow> justified ar instances plans q"
  by (induction rule: rtrancl_induct) (auto simp: plan_edges_def elim: justified.cases)

lemma justified_acyclic: "justified ar instances plans i \<Longrightarrow> (i, i) \<notin> (plan_edges plans)\<^sup>+"
proof (induction rule: justified.induct)
  case (justifiedI i)
  show ?case
  proof
    assume "(i, i) \<in> (plan_edges plans)\<^sup>+"
    then obtain q where q: "(i, q) \<in> plan_edges plans" "(q, i) \<in> (plan_edges plans)\<^sup>*" by (meson tranclD)
    then have "(q, q) \<in> (plan_edges plans)\<^sup>+" by (rule rtrancl_into_trancl1 [rotated])
    with q(1) justifiedI.IH show False by (auto simp: plan_edges_def)
  qed
qed

lemma justified_instance:
  assumes "types_ok ar" "list_all (\<lambda>plan. known ar (ep_head plan)) plans"
  shows "justified ar instances plans i \<Longrightarrow>
    has_instance instances (ep_class (plans ! i)) (T ar (ep_head (plans ! i)))"
proof (induction rule: justified.induct)
  case (justifiedI i)
  have "known ar (ep_head (plans ! i))" using assms(2) justifiedI.hyps(1) by (simp add: list_all_length)
  from plan_fits_total(2) [OF assms(1) this justifiedI.hyps(2)] obtain target spec where
    *: "con_name (app_head (T ar (ep_head (plans ! i)))) = Some target"
    "find_instance instances (ep_class (plans ! i)) target = Some spec"
    "head_arity (in_resolution spec) = length (app_args (T ar (ep_head (plans ! i))))"
    "length (ep_premises (plans ! i)) = premise_count (in_resolution spec)"
    "\<And>k. k < length (ep_premises (plans ! i)) \<Longrightarrow> \<exists>child. vget plans (ep_premises (plans ! i) ! k) = Some child \<and>
       ep_class child = ep_class (plans ! i) \<and> T ar (ep_head child) = app_args (T ar (ep_head (plans ! i))) ! k"
    by blast
  show ?case
  proof (rule instance_rule [OF *(1-3)])
    fix k assume "k < premise_count (in_resolution spec)"
    then have k: "k < length (ep_premises (plans ! i))" using *(4) by simp
    then have "ep_premises (plans ! i) ! k \<in> set (premises_of plans i)"
      using justifiedI.hyps(1) by (simp add: premises_of_def)
    from justifiedI.IH [OF this] *(5) [OF k]
    show "has_instance instances (ep_class (plans ! i)) (app_args (T ar (ep_head (plans ! i))) ! k)"
      by (auto simp: vget_Some)
  qed
qed

section \<open>The loop\<close>

text \<open>Where the loop stands: what waits, what is settled, what is below the root.\<close>

definition visits :: "evidence_plan list \<Rightarrow> nat \<Rightarrow> evidence_state \<Rightarrow> bool" where
  "visits plans root = (\<lambda>(work, active, visited).
     visited \<subseteq> {..<length plans} \<and> active \<subseteq> visited \<and> (root \<in> visited \<or> Enter root \<in> set work) \<and>
     active = {i. Leave i \<in> set work} \<and> distinct (filter (\<lambda>w. \<exists>i. w = Leave i) work) \<and>
     (\<forall>v \<in> visited \<union> {i. Enter i \<in> set work}. (root, v) \<in> (plan_edges plans)\<^sup>*))"

definition settled :: "type_arena \<Rightarrow> instance_spec list \<Rightarrow> evidence_plan list \<Rightarrow> evidence_state \<Rightarrow> bool" where
  "settled ar instances plans = (\<lambda>(work, active, visited).
     \<forall>v \<in> visited - active. justified ar instances plans v \<and> set (premises_of plans v) \<subseteq> visited - active)"

definition waiting :: "type_arena \<Rightarrow> instance_spec list \<Rightarrow> evidence_plan list \<Rightarrow> evidence_state \<Rightarrow> bool" where
  "waiting ar instances plans = (\<lambda>(work, active, visited).
     \<forall>pre i post. work = pre @ Leave i # post \<longrightarrow> i < length plans \<and> fits ar instances plans (plans ! i) \<and>
       (\<forall>q \<in> set (premises_of plans i). q \<in> visited - active \<or> Enter q \<in> set pre \<or> Leave q \<in> set pre) \<and>
       (\<forall>q. Enter q \<in> set pre \<or> Leave q \<in> set pre \<longrightarrow> (i, q) \<in> (plan_edges plans)\<^sup>+))"

definition evidence_inv ::
  "type_arena \<Rightarrow> instance_spec list \<Rightarrow> evidence_plan list \<Rightarrow> nat \<Rightarrow> evidence_state \<Rightarrow> bool" where
  "evidence_inv ar instances plans root s \<longleftrightarrow> types_ok ar \<and> list_all (\<lambda>plan. known ar (ep_head plan)) plans \<and>
     visits plans root s \<and> settled ar instances plans s \<and> waiting ar instances plans s"

lemma waitingD:
  assumes "waiting ar instances plans (work, active, visited)" "work = pre @ Leave i # post"
  shows "i < length plans" "fits ar instances plans (plans ! i)"
    "q \<in> set (premises_of plans i) \<Longrightarrow> q \<in> visited - active \<or> Enter q \<in> set pre \<or> Leave q \<in> set pre"
    "Enter q \<in> set pre \<or> Leave q \<in> set pre \<Longrightarrow> (i, q) \<in> (plan_edges plans)\<^sup>+"
  using assms unfolding waiting_def prod.case by blast+

lemma waitingI:
  assumes "\<And>pre i post. work = pre @ Leave i # post \<Longrightarrow> i < length plans \<and> fits ar instances plans (plans ! i) \<and>
       (\<forall>q \<in> set (premises_of plans i). q \<in> visited - active \<or> Enter q \<in> set pre \<or> Leave q \<in> set pre) \<and>
       (\<forall>q. Enter q \<in> set pre \<or> Leave q \<in> set pre \<longrightarrow> (i, q) \<in> (plan_edges plans)\<^sup>+)"
  shows "waiting ar instances plans (work, active, visited)"
  using assms unfolding waiting_def prod.case by blast

text \<open>Leaving a plan, meeting a visited one, entering a new one.\<close>

lemma leave_inv:
  assumes inv: "evidence_inv ar instances plans root (Leave i # work, active, visited)"
  shows "i \<in> active" "evidence_inv ar instances plans root (work, active - {i}, visited)"
proof -
  have v: "visits plans root (Leave i # work, active, visited)"
    and w: "waiting ar instances plans (Leave i # work, active, visited)"
    and st: "settled ar instances plans (Leave i # work, active, visited)"
    using inv by (simp_all add: evidence_inv_def)
  have act: "active = insert i {j. Leave j \<in> set work}" "Leave i \<notin> set work" "i \<in> visited"
    using v by (auto simp: visits_def)
  then show "i \<in> active" by simp
  have rest: "active - {i} = {j. Leave j \<in> set work}" using act by auto
  note top = waitingD [OF w, of "[]" i work, simplified]
  have here: "justified ar instances plans i" "set (premises_of plans i) \<subseteq> visited - active"
    using top(1,2) top(3) st by (auto simp: settled_def intro: justifiedI)
  have "visits plans root (work, active - {i}, visited)"
    using v act rest unfolding visits_def prod.case by (auto simp: rest)
  moreover have "settled ar instances plans (work, active - {i}, visited)"
    using st here act(3) unfolding settled_def prod.case by blast
  moreover have "waiting ar instances plans (work, active - {i}, visited)"
  proof (rule waitingI)
    fix pre k post assume "work = pre @ Leave k # post"
    then have eq: "Leave i # work = (Leave i # pre) @ Leave k # post" by simp
    note k = waitingD [OF w eq]
    show "k < length plans \<and> fits ar instances plans (plans ! k) \<and>
       (\<forall>q \<in> set (premises_of plans k). q \<in> visited - (active - {i}) \<or> Enter q \<in> set pre \<or> Leave q \<in> set pre) \<and>
       (\<forall>q. Enter q \<in> set pre \<or> Leave q \<in> set pre \<longrightarrow> (k, q) \<in> (plan_edges plans)\<^sup>+)"
      using k act(3) by fastforce
  qed
  ultimately show "evidence_inv ar instances plans root (work, active - {i}, visited)"
    using inv by (simp add: evidence_inv_def)
qed

lemma skip_inv:
  assumes inv: "evidence_inv ar instances plans root (Enter i # work, active, visited)"
    and i: "i \<in> visited" "i \<notin> active"
  shows "evidence_inv ar instances plans root (work, active, visited)"
proof -
  have v: "visits plans root (Enter i # work, active, visited)"
    and w: "waiting ar instances plans (Enter i # work, active, visited)"
    and st: "settled ar instances plans (Enter i # work, active, visited)"
    using inv by (simp_all add: evidence_inv_def)
  have "visits plans root (work, active, visited)" using v i by (auto simp: visits_def)
  moreover have "settled ar instances plans (work, active, visited)" using st by (simp add: settled_def)
  moreover have "waiting ar instances plans (work, active, visited)"
  proof (rule waitingI)
    fix pre k post assume "work = pre @ Leave k # post"
    then have eq: "Enter i # work = (Enter i # pre) @ Leave k # post" by simp
    note k = waitingD [OF w eq]
    show "k < length plans \<and> fits ar instances plans (plans ! k) \<and>
       (\<forall>q \<in> set (premises_of plans k). q \<in> visited - active \<or> Enter q \<in> set pre \<or> Leave q \<in> set pre) \<and>
       (\<forall>q. Enter q \<in> set pre \<or> Leave q \<in> set pre \<longrightarrow> (k, q) \<in> (plan_edges plans)\<^sup>+)"
      using k i by fastforce
  qed
  ultimately show ?thesis using inv by (simp add: evidence_inv_def)
qed

lemma enter_split:
  assumes "map Enter ps @ Leave i # work = pre @ Leave k # post"
  obtains (top) "k = i" "pre = map Enter ps" "post = work"
    | (below) pre' where "pre = map Enter ps @ Leave i # pre'" "work = pre' @ Leave k # post"
proof -
  from assms consider us where "pre = map Enter ps @ us" "us @ Leave k # post = Leave i # work"
    | us where "map Enter ps = pre @ us" "us @ Leave i # work = Leave k # post"
    unfolding append_eq_append_conv2 by metis
  then show thesis
  proof cases
    case (1 us)
    then show ?thesis using that by (cases us) auto
  next
    case (2 us)
    then show ?thesis using that by (cases us) (auto simp: map_eq_append_conv Cons_eq_map_conv)
  qed
qed

lemma enter_inv:
  assumes inv: "evidence_inv ar instances plans root (Enter i # work, active, visited)"
    and i: "i \<notin> visited" "i < length plans" "fits ar instances plans (plans ! i)"
  shows "evidence_inv ar instances plans root
    (map Enter (ep_premises (plans ! i)) @ Leave i # work, insert i active, insert i visited)"
proof -
  let ?ps = "ep_premises (plans ! i)"
  have v: "visits plans root (Enter i # work, active, visited)"
    and w: "waiting ar instances plans (Enter i # work, active, visited)"
    and st: "settled ar instances plans (Enter i # work, active, visited)"
    using inv by (simp_all add: evidence_inv_def)
  have ps: "premises_of plans i = ?ps" using i(2) by (simp add: premises_of_def)
  have edge: "(i, q) \<in> plan_edges plans" if "q \<in> set ?ps" for q using that ps by (simp add: plan_edges_def)
  have act: "active \<subseteq> visited" "Leave i \<notin> set work" "(root, i) \<in> (plan_edges plans)\<^sup>*"
    using v i(1) by (auto simp: visits_def)
  have "(root, q) \<in> (plan_edges plans)\<^sup>*" if "q \<in> set ?ps" for q
    using act(3) edge [OF that] by (rule rtrancl_into_rtrancl)
  moreover have "filter (\<lambda>w. \<exists>i. w = Leave i) (map Enter ?ps) = []" by (simp add: filter_empty_conv)
  ultimately have "visits plans root (map Enter ?ps @ Leave i # work, insert i active, insert i visited)"
    using v act i(2) unfolding visits_def prod.case by auto
  moreover have "settled ar instances plans (map Enter ?ps @ Leave i # work, insert i active, insert i visited)"
    using st i(1) unfolding settled_def prod.case by blast
  moreover have "waiting ar instances plans (map Enter ?ps @ Leave i # work, insert i active, insert i visited)"
  proof (rule waitingI)
    fix pre k post assume eq: "map Enter ?ps @ Leave i # work = pre @ Leave k # post"
    from eq show "k < length plans \<and> fits ar instances plans (plans ! k) \<and>
       (\<forall>q \<in> set (premises_of plans k). q \<in> insert i visited - insert i active \<or> Enter q \<in> set pre \<or> Leave q \<in> set pre) \<and>
       (\<forall>q. Enter q \<in> set pre \<or> Leave q \<in> set pre \<longrightarrow> (k, q) \<in> (plan_edges plans)\<^sup>+)"
    proof (cases rule: enter_split)
      case top
      with i ps edge show ?thesis by auto
    next
      case (below pre')
      then have eq': "Enter i # work = (Enter i # pre') @ Leave k # post" by simp
      note k = waitingD [OF w eq']
      have ki: "(k, i) \<in> (plan_edges plans)\<^sup>+" using k(4) [of i] by simp
      have "(k, q) \<in> (plan_edges plans)\<^sup>+" if "Enter q \<in> set pre \<or> Leave q \<in> set pre" for q
        using that k(4) [of q] ki trancl_into_trancl [OF ki edge] by (auto simp: below(1))
      moreover have "q \<in> insert i visited - insert i active \<or> Enter q \<in> set pre \<or> Leave q \<in> set pre"
        if "q \<in> set (premises_of plans k)" for q
        using k(3) [OF that] i(1) by (auto simp: below(1))
      ultimately show ?thesis using k(1,2) by blast
    qed
  qed
  ultimately show ?thesis using inv by (simp add: evidence_inv_def)
qed

definition evidence_weight :: "evidence_plan list \<Rightarrow> evidence_state \<Rightarrow> nat" where
  "evidence_weight plans = (\<lambda>(work, active, visited).
     length work + (\<Sum>i \<in> {..<length plans} - visited. length (ep_premises (plans ! i)) + 2))"

lemma enter_weight:
  assumes "i \<notin> visited" "i < length plans"
  shows "evidence_weight plans (map Enter (ep_premises (plans ! i)) @ Leave i # work, insert i active, insert i visited)
    < evidence_weight plans (Enter i # work, active, visited)"
proof -
  have "i \<in> {..<length plans} - visited" "finite ({..<length plans} - visited)" using assms by simp_all
  from sum.remove [OF this(2,1), of "\<lambda>i. length (ep_premises (plans ! i)) + 2"] show ?thesis
    by (simp add: evidence_weight_def Diff_insert [symmetric])
qed

definition evidence_result ::
  "type_arena \<Rightarrow> instance_spec list \<Rightarrow> evidence_plan list \<Rightarrow> nat \<Rightarrow> nat set option" where
  "evidence_result ar instances plans root =
    (if justified ar instances plans root then Some ((plan_edges plans)\<^sup>* `` {root}) else None)"

lemma evidence_refuses:
  assumes "visits plans root (Enter i # work, active, visited)" "\<not> justified ar instances plans i"
  shows "evidence_result ar instances plans root = None"
proof -
  have "(root, i) \<in> (plan_edges plans)\<^sup>*" using assms(1) by (simp add: visits_def)
  with assms(2) justified_reach show ?thesis by (auto simp: evidence_result_def)
qed

lemma evidence_step_cases:
  assumes inv: "evidence_inv ar instances plans root s"
  shows "(\<exists>s'. evidence_step ar instances plans s = Some (Inl s') \<and> evidence_inv ar instances plans root s'
      \<and> (s', s) \<in> measure (evidence_weight plans))
    \<or> (\<exists>r. evidence_step ar instances plans s = Some (Inr r) \<and> r = Ok (evidence_result ar instances plans root))"
proof -
  obtain work active visited where s: "s = (work, active, visited)" by (cases s)
  note parts = inv [unfolded s evidence_inv_def]
  show ?thesis
  proof (cases work)
    case Nil
    then have v: "active = {}" "root \<in> visited" "\<And>v. v \<in> visited \<Longrightarrow> (root, v) \<in> (plan_edges plans)\<^sup>*"
      and st: "\<And>v. v \<in> visited \<Longrightarrow> justified ar instances plans v \<and> set (premises_of plans v) \<subseteq> visited"
      using parts by (auto simp: visits_def settled_def)
    have "q \<in> visited" if "(root, q) \<in> (plan_edges plans)\<^sup>*" for q
      using that by (induction rule: rtrancl_induct) (use v(2) st in \<open>auto simp: plan_edges_def\<close>)
    with v st have "evidence_result ar instances plans root = Some visited"
      by (auto simp: evidence_result_def)
    then show ?thesis by (simp add: s Nil)
  next
    case (Cons w rest)
    show ?thesis
    proof (cases w)
      case (Leave i)
      from leave_inv [OF inv [unfolded s Cons Leave]] show ?thesis
        by (simp add: s Cons Leave evidence_weight_def)
    next
      case (Enter i)
      note inv' = inv [unfolded s Cons Enter] and v = parts [unfolded Cons Enter, THEN conjunct2, THEN conjunct2, THEN conjunct1]
      consider "i \<in> active" | "i \<notin> active" "i \<in> visited" | "i \<notin> active" "i \<notin> visited" by blast
      then show ?thesis
      proof cases
        case 1
        then have "Leave i \<in> set rest" using v by (auto simp: visits_def)
        then obtain pre post where "Enter i # rest = (Enter i # pre) @ Leave i # post"
          by (metis append_Cons split_list)
        from waitingD(4) [OF _ this, of ar instances plans active visited i] inv'
        have "(i, i) \<in> (plan_edges plans)\<^sup>+" by (simp add: evidence_inv_def)
        with justified_acyclic evidence_refuses [OF v] have "evidence_result ar instances plans root = None" by blast
        with 1 show ?thesis by (simp add: s Cons Enter)
      next
        case 2
        with skip_inv [OF inv'] show ?thesis by (simp add: s Cons Enter evidence_weight_def)
      next
        case 3
        show ?thesis
        proof (cases "i < length plans")
          case False
          then have "\<not> justified ar instances plans i" by (auto elim: justified.cases)
          with evidence_refuses [OF v] 3 False show ?thesis by (simp add: s Cons Enter vget_out)
        next
          case True
          then have "known ar (ep_head (plans ! i))" using parts by (simp add: list_all_length)
          note fit = plan_fits_total(1) [OF parts [THEN conjunct1] this, of instances plans, unfolded done_with_def]
          show ?thesis
          proof (cases "fits ar instances plans (plans ! i)")
            case False
            then have "\<not> justified ar instances plans i" by (auto elim: justified.cases)
            with evidence_refuses [OF v] 3 True False fit show ?thesis by (simp add: s Cons Enter)
          next
            case fits: True
            with enter_inv [OF inv' 3(2) True] enter_weight [OF 3(2) True] fit 3 True show ?thesis
              by (simp add: s Cons Enter)
          qed
        qed
      qed
    qed
  qed
qed

lemma validate_evidence_graph_eq:
  assumes "types_ok ar" "list_all (\<lambda>plan. known ar (ep_head plan)) plans"
  shows "validate_evidence_graph ar instances plans root = done_with (evidence_result ar instances plans root)"
proof -
  have "\<exists>r. run_calls (evidence_step ar instances plans) ([Enter root], {}, {}) = Some r \<and>
      r = Ok (evidence_result ar instances plans root)"
  proof (rule run_calls_total [where I = "evidence_inv ar instances plans root" and R = "measure (evidence_weight plans)"])
    show "evidence_inv ar instances plans root ([Enter root], {}, {})"
      using assms by (auto simp: evidence_inv_def visits_def settled_def waiting_def Cons_eq_append_conv)
  qed (simp, rule evidence_step_cases)
  then show ?thesis by (simp add: validate_evidence_graph_def done_with_def)
qed

end
