(* ===== verification/Hell_Core_Typing.thy ===== *)
theory Hell_Core_Typing
  imports Hell_Core_Evidence
begin

text \<open>
  A type system for core, in rules over trees of types, and the arms of the type pass: with
  the types of its children stored, an arm returns, and infers the stored type of its node
  exactly when the rule of the node's kind allows it.
\<close>

section \<open>Well-formed core\<close>

text \<open>Every type identifier of the program names a node of a well-formed arena.\<close>

fun kind_types :: "core_kind \<Rightarrow> nat list" where
  "kind_types (CoreLambda parameter_type _) = [parameter_type]"
| "kind_types (CoreBuiltin _ (Some evidence)) = [ce_head evidence]"
| "kind_types (CoreRecord layout _) = map rfl_ty (rl_fields layout)"
| "kind_types (CoreRecordGet layout _ _) = map rfl_ty (rl_fields layout)"
| "kind_types (CoreRecordSet layout _ _ _) = map rfl_ty (rl_fields layout)"
| "kind_types (CoreRecordModify layout _ _ _) = map rfl_ty (rl_fields layout)"
| "kind_types (CoreVariant layout _ _) = List.map_filter vcl_payload (vl_constructors layout)"
| "kind_types (CoreCase _ layout branches _) =
    List.map_filter vcl_payload (vl_constructors layout) @ List.map_filter cb_payload_type branches"
| "kind_types _ = []"

definition core_ok :: "core_program \<Rightarrow> bool" where
  "core_ok p \<longleftrightarrow> types_ok (cp_types p) \<and> known (cp_types p) (cp_main_type p) \<and>
     list_all (\<lambda>node. known (cp_types p) (cn_ty node) \<and> list_all (known (cp_types p)) (kind_types (cn_kind node)))
       (cp_nodes p) \<and>
     list_all (\<lambda>plan. known (cp_types p) (ep_head plan)) (cp_instance_evidence p)"

text \<open>The stored type of a node, as an identifier and as a tree.\<close>

definition stored :: "core_program \<Rightarrow> nat \<Rightarrow> nat" where
  "stored p i = cn_ty (cp_nodes p ! i)"

definition S :: "core_program \<Rightarrow> nat \<Rightarrow> ty" where
  "S p i = T (cp_types p) (stored p i)"

lemma core_okD:
  assumes "core_ok p"
  shows "types_ok (cp_types p)" "known (cp_types p) (cp_main_type p)"
    "i < length (cp_nodes p) \<Longrightarrow> known (cp_types p) (stored p i)"
    "i < length (cp_nodes p) \<Longrightarrow> list_all (known (cp_types p)) (kind_types (cn_kind (cp_nodes p ! i)))"
    "list_all (\<lambda>plan. known (cp_types p) (ep_head plan)) (cp_instance_evidence p)"
  using assms by (simp_all add: core_ok_def stored_def list_all_length)

section \<open>The type system\<close>

definition tuple_ty :: "ty \<Rightarrow> ty list \<Rightarrow> bool" where
  "tuple_ty t ts \<longleftrightarrow> app_args t = ts \<and> tuple_name (length ts) \<noteq> None \<and>
     con_name (app_head t) = tuple_name (length ts)"

text \<open>The type that a class constrains in the type of a builtin.\<close>

fun project_ty :: "head_projection \<Rightarrow> ty \<Rightarrow> ty option" where
  "project_ty (FunctionArgument index) t = vget (fun_args t) index"
| "project_ty FunctionResult t = Some (fun_result t)"
| "project_ty ApplyFunction t = (case t of App f _ \<Rightarrow> Some f | _ \<Rightarrow> None)"
| "project_ty ApplyArgument t = (case t of App _ a \<Rightarrow> Some a | _ \<Rightarrow> None)"

fun project_tys :: "head_projection list \<Rightarrow> ty \<Rightarrow> ty option" where
  "project_tys [] t = Some t"
| "project_tys (q # qs) t = Option.bind (project_ty q t) (project_tys qs)"

definition constrained_type :: "string \<Rightarrow> ty \<Rightarrow> ty option" where
  "constrained_type name t = Option.bind (instance_head_projection name) (\<lambda>qs. project_tys qs t)"

definition evidence_for :: "registry \<Rightarrow> core_program \<Rightarrow> builtin_spec \<Rightarrow> ty \<Rightarrow> class_evidence option \<Rightarrow> bool" where
  "evidence_for reg p spec t evidence \<longleftrightarrow>
    (case (bs_type_class spec, evidence) of
       (None, None) \<Rightarrow> True
     | (Some cls, Some e) \<Rightarrow>
         ce_class e = cls \<and> constrained_type (bs_name spec) t = Some (T (cp_types p) (ce_head e)) \<and>
         (\<exists>root. vget (cp_instance_evidence p) (ce_plan e) = Some root \<and> ep_class root = cls \<and>
            ep_head root = ce_head e \<and>
            justified (cp_types p) (reg_instances reg) (cp_instance_evidence p) (ce_plan e))
     | _ \<Rightarrow> False)"

definition builtin_use :: "registry \<Rightarrow> core_program \<Rightarrow> nat \<Rightarrow> ty \<Rightarrow> class_evidence option \<Rightarrow> bool" where
  "builtin_use reg p b t evidence \<longleftrightarrow> (\<exists>spec. vget (reg_specs reg) b = Some spec \<and>
     bs_implementation spec \<noteq> None \<and> bs_scheme spec \<noteq> None \<and> builtin_at reg (bs_name spec) t \<and>
     evidence_for reg p spec t evidence)"

definition node_at :: "core_program \<Rightarrow> nat \<Rightarrow> core_kind \<Rightarrow> ty \<Rightarrow> bool" where
  "node_at p i kind t \<longleftrightarrow> i < length (cp_nodes p) \<and> cn_kind (cp_nodes p ! i) = kind \<and> S p i = t \<and> closed_ty t"

definition branch_scope :: "core_program \<Rightarrow> case_branch \<Rightarrow> ty list \<Rightarrow> ty list" where
  "branch_scope p b scope = (case cb_payload_type b of None \<Rightarrow> scope | Some ty \<Rightarrow> T (cp_types p) ty # scope)"

text \<open>
  \<open>has_type reg p scope i t\<close>: the node \<open>i\<close> has type \<open>t\<close> when its variables have the types
  of \<open>scope\<close>, the innermost first.
\<close>

inductive has_type :: "registry \<Rightarrow> core_program \<Rightarrow> ty list \<Rightarrow> nat \<Rightarrow> ty \<Rightarrow> bool" for reg p where
  ht_local: "node_at p i (CoreBoundVar j Identity) t \<Longrightarrow> vget scope j = Some t \<Longrightarrow> has_type reg p scope i t"
| ht_element: "node_at p i (CoreBoundVar j (TupleElement arity index)) t \<Longrightarrow> vget scope j = Some s \<Longrightarrow>
    tuple_ty s ts \<Longrightarrow> length ts = arity \<Longrightarrow> vget ts index = Some t \<Longrightarrow> has_type reg p scope i t"
| ht_lambda: "node_at p i (CoreLambda a body) (Fun (T (cp_types p) a) t) \<Longrightarrow>
    has_type reg p (T (cp_types p) a # scope) body t \<Longrightarrow> has_type reg p scope i (Fun (T (cp_types p) a) t)"
| ht_apply: "node_at p i (CoreApply f a) t \<Longrightarrow> has_type reg p scope f (Fun s t) \<Longrightarrow> has_type reg p scope a s \<Longrightarrow>
    has_type reg p scope i t"
| ht_constant: "node_at p i (CoreConstant c) t \<Longrightarrow> con_name t = Some (constant_type_name c) \<Longrightarrow>
    has_type reg p scope i t"
| ht_builtin: "node_at p i (CoreBuiltin b evidence) t \<Longrightarrow> builtin_use reg p b t evidence \<Longrightarrow>
    has_type reg p scope i t"
| ht_tuple: "node_at p i (CoreTuple es) t \<Longrightarrow> tuple_ty t ts \<Longrightarrow> list_all2 (has_type reg p scope) es ts \<Longrightarrow>
    has_type reg p scope i t"
| ht_list: "node_at p i (CoreList es) (App c t) \<Longrightarrow> con_name c = Some ''[]'' \<Longrightarrow>
    (\<And>e. e \<in> set es \<Longrightarrow> has_type reg p scope e t) \<Longrightarrow> has_type reg p scope i (App c t)"
| ht_record: "node_at p i (CoreRecord layout parts) t \<Longrightarrow> head_test (rl_type_name layout) t \<Longrightarrow>
    list_all2 (\<lambda>c field. has_type reg p scope c (T (cp_types p) (rfl_ty field))) parts (rl_fields layout) \<Longrightarrow>
    has_type reg p scope i t"
| ht_get: "node_at p i (CoreRecordGet layout index r) t \<Longrightarrow> vget (rl_fields layout) index = Some field \<Longrightarrow>
    T (cp_types p) (rfl_ty field) = t \<Longrightarrow> has_type reg p scope r s \<Longrightarrow> head_test (rl_type_name layout) s \<Longrightarrow>
    has_type reg p scope i t"
| ht_set: "node_at p i (CoreRecordSet layout index v r) t \<Longrightarrow> vget (rl_fields layout) index = Some field \<Longrightarrow>
    head_test (rl_type_name layout) t \<Longrightarrow> has_type reg p scope r t \<Longrightarrow>
    has_type reg p scope v (T (cp_types p) (rfl_ty field)) \<Longrightarrow> has_type reg p scope i t"
| ht_modify: "node_at p i (CoreRecordModify layout index f r) t \<Longrightarrow> vget (rl_fields layout) index = Some field \<Longrightarrow>
    head_test (rl_type_name layout) t \<Longrightarrow> has_type reg p scope r t \<Longrightarrow>
    has_type reg p scope f (Fun (T (cp_types p) (rfl_ty field)) (T (cp_types p) (rfl_ty field))) \<Longrightarrow>
    has_type reg p scope i t"
| ht_variant: "node_at p i (CoreVariant layout index payload) t \<Longrightarrow> head_test (vl_type_name layout) t \<Longrightarrow>
    vget (vl_constructors layout) index = Some c \<Longrightarrow>
    rel_option (\<lambda>e ty. has_type reg p scope e (T (cp_types p) ty)) payload (vcl_payload c) \<Longrightarrow>
    has_type reg p scope i t"
| ht_case: "node_at p i (CoreCase e layout branches fallback) t \<Longrightarrow> has_type reg p scope e s \<Longrightarrow>
    head_test (vl_type_name layout) s \<Longrightarrow> distinct (map cb_constructor_index branches) \<Longrightarrow>
    (\<And>b. b \<in> set branches \<Longrightarrow>
       map_option vcl_payload (vget (vl_constructors layout) (cb_constructor_index b)) = Some (cb_payload_type b)) \<Longrightarrow>
    (\<And>b. b \<in> set branches \<Longrightarrow> has_type reg p (branch_scope p b scope) (cb_body b) t) \<Longrightarrow>
    (\<And>d. fallback = Some d \<Longrightarrow> has_type reg p scope d t) \<Longrightarrow>
    fallback \<noteq> None \<or> length branches = length (vl_constructors layout) \<Longrightarrow> has_type reg p scope i t"

section \<open>The rule of a node, given the types of its children\<close>

fun local_ok :: "registry \<Rightarrow> core_program \<Rightarrow> ty list \<Rightarrow> ty \<Rightarrow> core_kind \<Rightarrow> bool" where
  "local_ok reg p scope t (CoreBoundVar j q) = (\<exists>s. vget scope j = Some s \<and>
     (case q of Identity \<Rightarrow> s = t
      | TupleElement arity index \<Rightarrow>
          tuple_ty s (app_args s) \<and> length (app_args s) = arity \<and> vget (app_args s) index = Some t))"
| "local_ok reg p scope t (CoreLambda a body) = (t = Fun (T (cp_types p) a) (S p body))"
| "local_ok reg p scope t (CoreApply f a) = (S p f = Fun (S p a) t)"
| "local_ok reg p scope t (CoreConstant c) = (con_name t = Some (constant_type_name c))"
| "local_ok reg p scope t (CoreBuiltin b evidence) = builtin_use reg p b t evidence"
| "local_ok reg p scope t (CoreTuple es) = tuple_ty t (map (S p) es)"
| "local_ok reg p scope t (CoreList es) =
     (\<exists>c item. t = App c item \<and> con_name c = Some ''[]'' \<and> (\<forall>e \<in> set es. S p e = item))"
| "local_ok reg p scope t (CoreRecord layout parts) = (head_test (rl_type_name layout) t \<and>
     list_all2 (\<lambda>c field. S p c = T (cp_types p) (rfl_ty field)) parts (rl_fields layout))"
| "local_ok reg p scope t (CoreRecordGet layout index r) = (\<exists>field. vget (rl_fields layout) index = Some field \<and>
     T (cp_types p) (rfl_ty field) = t \<and> head_test (rl_type_name layout) (S p r))"
| "local_ok reg p scope t (CoreRecordSet layout index v r) = (\<exists>field. vget (rl_fields layout) index = Some field \<and>
     head_test (rl_type_name layout) t \<and> S p r = t \<and> S p v = T (cp_types p) (rfl_ty field))"
| "local_ok reg p scope t (CoreRecordModify layout index f r) = (\<exists>field. vget (rl_fields layout) index = Some field \<and>
     head_test (rl_type_name layout) t \<and> S p r = t \<and>
     S p f = Fun (T (cp_types p) (rfl_ty field)) (T (cp_types p) (rfl_ty field)))"
| "local_ok reg p scope t (CoreVariant layout index payload) = (head_test (vl_type_name layout) t \<and>
     (\<exists>c. vget (vl_constructors layout) index = Some c \<and>
        rel_option (\<lambda>e ty. S p e = T (cp_types p) ty) payload (vcl_payload c)))"
| "local_ok reg p scope t (CoreCase e layout branches fallback) = (head_test (vl_type_name layout) (S p e) \<and>
     distinct (map cb_constructor_index branches) \<and>
     (\<forall>b \<in> set branches.
        map_option vcl_payload (vget (vl_constructors layout) (cb_constructor_index b)) = Some (cb_payload_type b) \<and>
        S p (cb_body b) = t) \<and>
     (\<forall>d. fallback = Some d \<longrightarrow> S p d = t) \<and>
     (fallback \<noteq> None \<or> length branches = length (vl_constructors layout)))"

text \<open>The arm returns, and infers \<open>t\<close> exactly under the condition \<open>b\<close>.\<close>

definition settles :: "nat checked \<Rightarrow> nat \<Rightarrow> bool \<Rightarrow> bool" where
  "settles m t b \<longleftrightarrow> (m = done_with t \<longleftrightarrow> b) \<and> ((\<exists>t'. m = done_with t') \<or> (\<exists>e. m = refuse e))"

lemma settles_simps [simp]:
  "settles (done_with t') t b \<longleftrightarrow> (t' = t) = b" "settles (refuse e) t b \<longleftrightarrow> \<not> b"
  "settles (if c then m else n) t b \<longleftrightarrow> (if c then settles m t b else settles n t b)"
  by (auto simp: settles_def done_with_def refuse_def)

text \<open>Where an arm runs: the node, its closed type, its children in place and closed, the locals known.\<close>

definition arm_at :: "core_program \<Rightarrow> nat \<Rightarrow> nat list \<Rightarrow> bool" where
  "arm_at p i locals \<longleftrightarrow> core_ok p \<and> i < length (cp_nodes p) \<and> closed_ty (S p i) \<and>
     (\<forall>c \<in> set (kids (cp_nodes p) i). c < length (cp_nodes p) \<and> closed_ty (S p c)) \<and>
     list_all (known (cp_types p)) locals"

definition full :: "core_program \<Rightarrow> nat option list" where
  "full p = map (\<lambda>node. Some (cn_ty node)) (cp_nodes p)"

lemma full_at: "c < length (cp_nodes p) \<Longrightarrow> vget (full p) c = Some (Some (stored p c))"
  by (simp add: full_def stored_def)

lemma computed_full [simp]: "c < length (cp_nodes p) \<Longrightarrow> computed_at (full p) c = done_with (Some (stored p c))"
  by (simp add: computed_at_def full_at done_with_def)

lemma has_computed_full [simp]:
  "c < length (cp_nodes p) \<Longrightarrow> has_computed (full p) c ty = done_with (stored p c = ty)"
  by (simp add: has_computed_def)

lemma all_computed_full:
  "\<forall>c \<in> set cs. c < length (cp_nodes p) \<Longrightarrow> length cs = length tys \<Longrightarrow>
    all_computed (full p) cs tys = done_with (map (stored p) cs = tys)"
  by (induction "full p" cs tys rule: all_computed.induct) auto

lemma arm_kids:
  assumes "arm_at p i locals" "cn_kind (cp_nodes p ! i) = kind" "c \<in> set (core_children kind)"
  shows "c < length (cp_nodes p)" "closed_ty (S p c)" "known (cp_types p) (stored p c)"
  using assms core_okD(3) by (auto simp: arm_at_def kids_def)

lemma arm_here:
  assumes "arm_at p i locals"
  shows "types_ok (cp_types p)" "known (cp_types p) (stored p i)" "closed_ty (T (cp_types p) (stored p i))"
    "list_all (known (cp_types p)) locals" "core_ok p" "i < length (cp_nodes p)"
  using assms core_okD(1,3) by (auto simp: arm_at_def S_def)

lemma arm_types:
  assumes "arm_at p i locals" "cn_kind (cp_nodes p ! i) = kind" "ty \<in> set (kind_types kind)"
  shows "known (cp_types p) ty"
  using assms core_okD(4) by (auto simp: arm_at_def list_all_iff)

text \<open>A stored type against another identifier, and against a tree.\<close>

lemma stored_eq:
  assumes "core_ok p" "i < length (cp_nodes p)" "closed_ty (S p i)" "known (cp_types p) j"
  shows "stored p i = j \<longleftrightarrow> S p i = T (cp_types p) j" "j = stored p i \<longleftrightarrow> T (cp_types p) j = S p i"
  using T_same [of "cp_types p" "stored p i" j] core_okD(1,3) [OF assms(1)] assms by (auto simp: S_def)

lemma closed_head: "closed_ty t \<Longrightarrow> closed_ty (app_head t)"
  by (induction t) auto

lemma closed_args: "a \<in> set (app_args t) \<Longrightarrow> closed_ty t \<Longrightarrow> closed_ty a"
  by (induction t) auto

lemma closed_result: "closed_ty t \<Longrightarrow> closed_ty (fun_result t)"
  by (induction t) auto

lemma closed_parameters: "a \<in> set (fun_args t) \<Longrightarrow> closed_ty t \<Longrightarrow> closed_ty a"
  by (induction t) auto

section \<open>The arms\<close>

lemma arm_bound:
  assumes arm: "arm_at p i locals"
  shows "settles (infer_bound (cp_types p) i (cp_nodes p ! i) locals j q) (stored p i)
    (local_ok reg p (rev (map (T (cp_types p)) locals)) (S p i) (CoreBoundVar j q))"
proof (cases "j < length locals")
  case False
  then show ?thesis by (simp add: infer_bound_def vget_out)
next
  case True
  let ?ar = "cp_types p" and ?local = "locals ! (length locals - (j + 1))"
  have l: "known ?ar ?local" using arm_here(4) [OF arm] True by (simp add: list_all_length)
  have nthj: "rev (map (T ?ar) locals) ! j = T ?ar ?local" using True by (simp add: rev_nth)
  note here = arm_here [OF arm]
  have same: "ty = stored p i \<longleftrightarrow> T ?ar ty = S p i" if "known ?ar ty" for ty
    using stored_eq(2) [OF here(5,6) _ that] here(3) by (simp add: S_def)
  show ?thesis
  proof (cases q)
    case Identity
    with True same [OF l] show ?thesis by (simp add: infer_bound_def nthj)
  next
    case (TupleElement arity index)
    from type_spine_T [OF here(1) l, of "[]"] obtain h as where
      *: "type_spine ?ar ?local [] = Some (Ok (h, as))" "known ?ar h" "T ?ar h = app_head (T ?ar ?local)"
      "list_all (known ?ar) as" "map (T ?ar) as = app_args (T ?ar ?local)" by auto
    then have len: "length (app_args (T ?ar ?local)) = length as" by (metis length_map)
    have nth: "app_args (T ?ar ?local) ! k = T ?ar (as ! k)" "known ?ar (as ! k)" if "k < length as" for k
      using that *(4,5) by (simp_all add: list_all_length) (metis nth_map)
    show ?thesis
      using True here(1) *(1,2,3) len nth same
      by (auto simp: infer_bound_def TupleElement nthj constructor_is_T tuple_ty_def vget_Some
          split: option.splits)
  qed
qed

text \<open>Hash-consing: a function type is recognised by its two identifiers.\<close>

lemma function_node:
  assumes "types_ok ar" "known ar i" "closed_ty (T ar i)" "known ar a" "known ar b"
  shows "t_nodes ar ! i = TFunction a b \<longleftrightarrow> T ar i = Fun (T ar a) (T ar b)"
proof
  show "t_nodes ar ! i = TFunction a b \<Longrightarrow> T ar i = Fun (T ar a) (T ar b)" by (rule T_Fun [OF assms(1,2)])
  assume eq: "T ar i = Fun (T ar a) (T ar b)"
  then obtain x y where xy: "t_nodes ar ! i = TFunction x y" using T_is_Fun [OF assms(1,2)] by blast
  note parts = T_Fun [OF assms(1,2) xy]
  have "x = a" "y = b"
    using T_same [OF assms(1) parts(2) assms(4)] T_same [OF assms(1) parts(3) assms(5)] parts(1) eq assms(3)
    by simp_all
  with xy show "t_nodes ar ! i = TFunction a b" by simp
qed

lemma arm_lambda:
  assumes arm: "arm_at p i locals" and kind: "cn_kind (cp_nodes p ! i) = CoreLambda a body"
  shows "settles (infer_lambda (cp_types p) (full p) i (cp_nodes p ! i) a body) (stored p i)
    (local_ok reg p scope (S p i) (CoreLambda a body))"
proof -
  note here = arm_here [OF arm] and body = arm_kids [OF arm kind, of body, simplified]
  have a: "known (cp_types p) a" using arm_types [OF arm kind, of a] by simp
  show ?thesis
    using full_at [OF body(1)] here(2) function_node [OF here(1-3) a body(3)]
    by (simp add: infer_lambda_def get_type_known stored_def [of p i, symmetric]) (simp add: S_def)
qed

lemma arm_apply:
  assumes arm: "arm_at p i locals" and kind: "cn_kind (cp_nodes p ! i) = CoreApply f a"
  shows "settles (infer_apply (cp_types p) (full p) i (cp_nodes p ! i) f a) (stored p i)
    (local_ok reg p scope (S p i) (CoreApply f a))"
proof -
  note here = arm_here [OF arm]
  note f = arm_kids [OF arm kind, of f, simplified] and a = arm_kids [OF arm kind, of a, simplified]
  have "closed_ty (T (cp_types p) (stored p f))" using f(2) by (simp add: S_def)
  from function_node [OF here(1) f(3) this a(3) here(2)] show ?thesis
    using f(1,3) a(1) by (simp add: infer_apply_def get_type_known stored_def [of p i, symmetric]) (simp add: S_def)
qed

lemma arm_constant:
  assumes arm: "arm_at p i locals"
  shows "settles (infer_constant (cp_types p) i (cp_nodes p ! i) c) (stored p i)
    (local_ok reg p scope (S p i) (CoreConstant c))"
  using arm_here [OF arm]
  by (simp add: infer_constant_def read_types stored_def [of p i, symmetric]) (simp add: S_def)

lemma project_head_T:
  assumes "types_ok ar" "known ar i"
  shows "\<exists>r. project_head ar i q = done_with r \<and> map_option (T ar) r = project_ty q (T ar i) \<and>
    (\<forall>j. r = Some j \<longrightarrow> known ar j)"
proof (cases q)
  case (FunctionArgument index)
  from function_parts_T [OF assms, of "[]"] obtain as r where
    *: "function_parts ar i [] = Some (Ok (as, r))" "list_all (known ar) as" "map (T ar) as = fun_args (T ar i)" by auto
  then have "vget (fun_args (T ar i)) index = map_option (T ar) (vget as index)"
    by (auto simp: vget_def *(3) [symmetric])
  with * show ?thesis
    by (auto simp: project_head_def FunctionArgument vget_Some list_all_length done_with_def)
next
  case FunctionResult
  from function_parts_T [OF assms, of "[]"] obtain as r where
    "function_parts ar i [] = Some (Ok (as, r))" "known ar r" "T ar r = fun_result (T ar i)" by auto
  then show ?thesis by (simp add: project_head_def FunctionResult done_with_def)
next
  case ApplyFunction
  then show ?thesis
    by (cases "t_nodes ar ! i") (use T_shapes [OF assms] assms in
        \<open>auto simp: project_head_def get_type_known done_with_def\<close>)
next
  case ApplyArgument
  then show ?thesis
    by (cases "t_nodes ar ! i") (use T_shapes [OF assms] assms in
        \<open>auto simp: project_head_def get_type_known done_with_def\<close>)
qed

lemma project_heads_T:
  assumes "types_ok ar"
  shows "known ar i \<Longrightarrow> \<exists>r. project_heads ar i qs = done_with r \<and> map_option (T ar) r = project_tys qs (T ar i) \<and>
    (\<forall>j. r = Some j \<longrightarrow> known ar j)"
proof (induction qs arbitrary: i)
  case Nil
  then show ?case by (simp add: done_with_def)
next
  case (Cons q qs)
  from project_head_T [OF assms Cons.prems, of q] obtain r where
    r: "project_head ar i q = done_with r" "map_option (T ar) r = project_ty q (T ar i)"
      "\<forall>j. r = Some j \<longrightarrow> known ar j" by blast
  show ?case
  proof (cases r)
    case None
    with r show ?thesis by (auto simp: done_with_def)
  next
    case (Some j)
    with r have "project_ty q (T ar i) = Some (T ar j)" by simp
    with Cons.IH [of j] r Some show ?thesis by simp
  qed
qed

lemma builtin_instance_head_T:
  assumes "types_ok ar" "known ar i"
  shows "\<exists>r. builtin_instance_head ar name i = done_with r \<and> map_option (T ar) r = constrained_type name (T ar i) \<and>
    (\<forall>j. r = Some j \<longrightarrow> known ar j)"
  using project_heads_T [OF assms]
  by (auto simp: builtin_instance_head_def constrained_type_def done_with_def split: option.split)

lemma project_ty_closed: "project_ty q t = Some s \<Longrightarrow> closed_ty t \<Longrightarrow> closed_ty s"
  by (cases q) (auto simp: vget_Some closed_result intro: closed_parameters [OF nth_mem] split: ty.splits)

lemma constrained_closed: "constrained_type name t = Some s \<Longrightarrow> closed_ty t \<Longrightarrow> closed_ty s"
proof -
  have *: "project_tys qs t = Some s \<Longrightarrow> closed_ty t \<Longrightarrow> closed_ty s" for qs
    by (induction qs arbitrary: t) (auto simp: bind_eq_Some_conv dest: project_ty_closed)
  show "constrained_type name t = Some s \<Longrightarrow> closed_ty t \<Longrightarrow> closed_ty s"
    by (auto simp: constrained_type_def bind_eq_Some_conv dest: *)
qed

lemma validate_evidence_plan_T:
  assumes "core_ok p"
  shows "validate_evidence_plan (cp_types p) instances (cp_instance_evidence p) e =
    done_with (\<exists>root. vget (cp_instance_evidence p) (ce_plan e) = Some root \<and> ep_class root = ce_class e \<and>
      ep_head root = ce_head e \<and> justified (cp_types p) instances (cp_instance_evidence p) (ce_plan e))"
  using validate_evidence_graph_eq [OF core_okD(1) [OF assms] core_okD(5) [OF assms], of instances "ce_plan e"]
  by (cases "ce_plan e < length (cp_instance_evidence p)")
     (auto simp: validate_evidence_plan_def evidence_result_def done_with_def vget_out)

lemma evidence_fits_T:
  assumes arm: "arm_at p i locals" and kind: "cn_kind (cp_nodes p ! i) = CoreBuiltin b evidence"
  shows "evidence_fits reg p (cp_nodes p ! i) spec evidence = done_with (evidence_for reg p spec (S p i) evidence)"
proof (cases evidence)
  case None
  then show ?thesis by (simp add: evidence_fits_def evidence_for_def split: option.split)
next
  case (Some e)
  note here = arm_here [OF arm]
  have head: "known (cp_types p) (ce_head e)" using arm_types [OF arm kind, of "ce_head e"] Some by simp
  from builtin_instance_head_T [OF here(1,2), of "bs_name spec"] obtain r where
    r: "builtin_instance_head (cp_types p) (bs_name spec) (stored p i) = done_with r"
      "map_option (T (cp_types p)) r = constrained_type (bs_name spec) (S p i)"
      "\<forall>j. r = Some j \<longrightarrow> known (cp_types p) j" by (auto simp: S_def)
  have "r = Some (ce_head e) \<longleftrightarrow> constrained_type (bs_name spec) (S p i) = Some (T (cp_types p) (ce_head e))"
  proof (cases r)
    case None
    with r(2) show ?thesis by auto
  next
    case (Some j)
    with r(2) have j: "constrained_type (bs_name spec) (S p i) = Some (T (cp_types p) j)" by auto
    have "closed_ty (S p i)" using here(3) by (simp add: S_def)
    from constrained_closed [OF j this] T_same [OF here(1) _ head, of j] r(3) Some j show ?thesis by auto
  qed
  then show ?thesis
    using r(1) validate_evidence_plan_T [OF here(5)]
    by (auto simp: evidence_fits_def evidence_for_def Some stored_def split: option.split)
qed

lemma arm_builtin:
  assumes arm: "arm_at p i locals" and kind: "cn_kind (cp_nodes p ! i) = CoreBuiltin b evidence"
  shows "settles (infer_builtin reg p i (cp_nodes p ! i) b evidence) (stored p i)
    (local_ok reg p scope (S p i) (CoreBuiltin b evidence))"
  using arm_here [OF arm] evidence_fits_T [OF arm kind]
  by (cases "b < length (reg_specs reg)")
     (auto simp: infer_builtin_def read_types builtin_use_def vget_out S_def stored_def [of p i, symmetric])

text \<open>The stored types of the children against a list of identifiers.\<close>

lemma stored_list:
  assumes "core_ok p" "\<forall>c \<in> set cs. c < length (cp_nodes p) \<and> closed_ty (S p c)" "list_all (known (cp_types p)) tys"
  shows "map (stored p) cs = tys \<longleftrightarrow> map (S p) cs = map (T (cp_types p)) tys"
  using assms(2,3)
proof (induction cs arbitrary: tys)
  case (Cons c cs)
  then show ?case using stored_eq(1) [OF assms(1), of c] by (cases tys) auto
qed auto

lemma arm_kids_all:
  assumes "arm_at p i locals" "cn_kind (cp_nodes p ! i) = kind" "set cs \<subseteq> set (core_children kind)"
  shows "\<forall>c \<in> set cs. c < length (cp_nodes p) \<and> closed_ty (S p c)" "\<forall>c \<in> set cs. c < length (cp_nodes p)"
  using arm_kids [OF assms(1,2)] assms(3) by auto

lemma arm_tuple:
  assumes arm: "arm_at p i locals" and kind: "cn_kind (cp_nodes p ! i) = CoreTuple es"
  shows "settles (infer_tuple (cp_types p) (full p) i (cp_nodes p ! i) es) (stored p i)
    (local_ok reg p scope (S p i) (CoreTuple es))"
proof -
  note here = arm_here [OF arm] and kids = arm_kids_all [OF arm kind, of es, simplified]
  from type_spine_T [OF here(1,2), of "[]"] obtain h as where
    *: "type_spine (cp_types p) (stored p i) [] = Some (Ok (h, as))" "known (cp_types p) h"
      "T (cp_types p) h = app_head (S p i)" "list_all (known (cp_types p)) as"
      "map (T (cp_types p)) as = app_args (S p i)" by (auto simp: S_def)
  have len: "length (app_args (S p i)) = length as" using *(5) by (metis length_map)
  have all: "length es = length as \<Longrightarrow> all_computed (full p) es as = done_with (app_args (S p i) = map (S p) es)"
    using all_computed_full [of es p as] kids stored_list [OF here(5) kids(1) *(4)] *(5) by auto
  show ?thesis
  proof (cases "tuple_name (length es)")
    case None
    then show ?thesis by (simp add: infer_tuple_def tuple_ty_def)
  next
    case (Some name)
    with *(1-3) here(1) len all show ?thesis
      by (auto simp: infer_tuple_def tuple_ty_def constructor_is_T stored_def [of p i, symmetric])
  qed
qed

lemma arm_list:
  assumes arm: "arm_at p i locals" and kind: "cn_kind (cp_nodes p ! i) = CoreList es"
  shows "settles (infer_list (cp_types p) (full p) i (cp_nodes p ! i) es) (stored p i)
    (local_ok reg p scope (S p i) (CoreList es))"
proof -
  note here = arm_here [OF arm] and kids = arm_kids_all [OF arm kind, of es, simplified]
  note shapes = T_shapes [OF here(1,2), folded S_def]
  show ?thesis
  proof (cases "t_nodes (cp_types p) ! stored p i")
    case (TApply c item)
    note app = T_App [OF here(1,2) TApply, folded S_def]
    have "list_all (known (cp_types p)) (replicate (length es) item)" using app(3) by (simp add: list_all_length)
    then have "map (stored p) es = replicate (length es) item \<longleftrightarrow> map (S p) es = replicate (length es) (T (cp_types p) item)"
      using stored_list [OF here(5) kids(1)] by simp
    also have "\<dots> \<longleftrightarrow> (\<forall>e \<in> set es. S p e = T (cp_types p) item)" by (induction es) auto
    finally have "all_computed (full p) es (replicate (length es) item) =
        done_with (\<forall>e \<in> set es. S p e = T (cp_types p) item)"
      using all_computed_full [of es p "replicate (length es) item"] kids(2) by simp
    with TApply app here(1,2) show ?thesis
      by (auto simp: infer_list_def get_type_known constructor_is_T stored_def [of p i, symmetric])
  qed (use shapes here(2) in \<open>auto simp: infer_list_def get_type_known stored_def [of p i, symmetric]\<close>)
qed

lemma arm_record:
  assumes arm: "arm_at p i locals" and kind: "cn_kind (cp_nodes p ! i) = CoreRecord layout parts"
  shows "settles (infer_record (cp_types p) (full p) i (cp_nodes p ! i) layout parts) (stored p i)
    (local_ok reg p scope (S p i) (CoreRecord layout parts))"
proof -
  let ?tys = "map rfl_ty (rl_fields layout)"
  note here = arm_here [OF arm] and kids = arm_kids_all [OF arm kind, of parts, simplified]
  have tys: "list_all (known (cp_types p)) ?tys" using arm_types [OF arm kind] by (auto simp: list_all_iff)
  have "list_all2 (\<lambda>c field. S p c = T (cp_types p) (rfl_ty field)) parts (rl_fields layout) \<longleftrightarrow>
      map (S p) parts = map (T (cp_types p)) ?tys"
    by (auto simp: list_all2_conv_all_nth list_eq_iff_nth_eq)
  with all_computed_full [of parts p ?tys] kids(2) stored_list [OF here(5) kids(1) tys] here(1,2)
  show ?thesis
    by (auto simp: infer_record_def head_is_T head_test_def stored_def [of p i, symmetric] S_def [of p i, symmetric]
        list_all2_lengthD)
qed

lemma arm_get:
  assumes arm: "arm_at p i locals" and kind: "cn_kind (cp_nodes p ! i) = CoreRecordGet layout index r"
  shows "settles (infer_get (cp_types p) (full p) i (cp_nodes p ! i) layout index r) (stored p i)
    (local_ok reg p scope (S p i) (CoreRecordGet layout index r))"
proof -
  note here = arm_here [OF arm] and r = arm_kids [OF arm kind, of r, simplified]
  have "stored p i = rfl_ty field \<longleftrightarrow> T (cp_types p) (rfl_ty field) = S p i" if "field \<in> set (rl_fields layout)" for field
    using stored_eq(1) [OF here(5,6), of "rfl_ty field"] arm_types [OF arm kind, of "rfl_ty field"] here(3) that
    by (auto simp: S_def)
  with r here(1) show ?thesis
    by (cases "index < length (rl_fields layout)")
       (auto simp: infer_get_def with_field_def head_is_T head_test_def vget_out stored_def [of p i, symmetric]
         S_def [of p r])
qed

lemma arm_set:
  assumes arm: "arm_at p i locals" and kind: "cn_kind (cp_nodes p ! i) = CoreRecordSet layout index v r"
  shows "settles (infer_set (cp_types p) (full p) i (cp_nodes p ! i) layout index v r) (stored p i)
    (local_ok reg p scope (S p i) (CoreRecordSet layout index v r))"
proof -
  note here = arm_here [OF arm] and r = arm_kids [OF arm kind, of r, simplified]
  note v = arm_kids [OF arm kind, of v, simplified]
  have "stored p v = rfl_ty field \<longleftrightarrow> S p v = T (cp_types p) (rfl_ty field)" if "field \<in> set (rl_fields layout)" for field
    using stored_eq(1) [OF here(5) v(1,2), of "rfl_ty field"] arm_types [OF arm kind, of "rfl_ty field"] that by auto
  moreover have "stored p r = stored p i \<longleftrightarrow> S p r = S p i"
    using stored_eq(1) [OF here(5) r(1,2) here(2)] by (simp add: S_def)
  ultimately show ?thesis
    using r v here(1,2)
    by (cases "index < length (rl_fields layout)")
       (auto simp: infer_set_def with_field_def head_is_T head_test_def vget_out stored_def [of p i, symmetric]
         S_def [of p i, symmetric])
qed

lemma arm_modify:
  assumes arm: "arm_at p i locals" and kind: "cn_kind (cp_nodes p ! i) = CoreRecordModify layout index f r"
  shows "settles (infer_modify (cp_types p) (full p) i (cp_nodes p ! i) layout index f r) (stored p i)
    (local_ok reg p scope (S p i) (CoreRecordModify layout index f r))"
proof -
  note here = arm_here [OF arm] and r = arm_kids [OF arm kind, of r, simplified]
  note f = arm_kids [OF arm kind, of f, simplified]
  have "t_nodes (cp_types p) ! stored p f = TFunction (rfl_ty field) (rfl_ty field) \<longleftrightarrow>
      S p f = Fun (T (cp_types p) (rfl_ty field)) (T (cp_types p) (rfl_ty field))"
    if "field \<in> set (rl_fields layout)" for field
  proof -
    have "known (cp_types p) (rfl_ty field)" using arm_types [OF arm kind, of "rfl_ty field"] that by simp
    from function_node [OF here(1) f(3) _ this this] f(2) show ?thesis by (simp add: S_def)
  qed
  moreover have "stored p r = stored p i \<longleftrightarrow> S p r = S p i"
    using stored_eq(1) [OF here(5) r(1,2) here(2)] by (simp add: S_def)
  ultimately show ?thesis
    using r f here(1,2)
    by (cases "index < length (rl_fields layout)")
       (auto simp: infer_modify_def with_field_def head_is_T head_test_def vget_out get_type_known
         stored_def [of p i, symmetric] S_def [of p i, symmetric])
qed

lemma arm_variant:
  assumes arm: "arm_at p i locals" and kind: "cn_kind (cp_nodes p ! i) = CoreVariant layout index payload"
  shows "settles (infer_variant (cp_types p) (full p) i (cp_nodes p ! i) layout index payload) (stored p i)
    (local_ok reg p scope (S p i) (CoreVariant layout index payload))"
proof -
  note here = arm_here [OF arm]
  have ty: "known (cp_types p) ty" if "c \<in> set (vl_constructors layout)" "vcl_payload c = Some ty" for c ty
    using arm_types [OF arm kind, of ty] that by (force simp: map_filter_def)
  show ?thesis
  proof (cases "index < length (vl_constructors layout)")
    case False
    with here(1,2) show ?thesis
      by (auto simp: infer_variant_def head_is_T head_test_def vget_out stored_def [of p i, symmetric])
  next
    case True
    let ?c = "vl_constructors layout ! index"
    have pay: "(vcl_payload ?c = Some (stored p e)) = rel_option (\<lambda>e ty. S p e = T (cp_types p) ty) (Some e) (vcl_payload ?c)"
      if "payload = Some e" for e
    proof (cases "vcl_payload ?c")
      case (Some ty)
      have "e < length (cp_nodes p)" "closed_ty (S p e)" using arm_kids [OF arm kind, of e] that by simp_all
      from stored_eq(2) [OF here(5) this ty [OF nth_mem [OF True] Some]] Some show ?thesis by auto
    qed simp
    have "e < length (cp_nodes p)" if "payload = Some e" for e using arm_kids [OF arm kind, of e] that by simp
    with True here(1,2) pay show ?thesis
      by (cases payload)
         (auto simp: infer_variant_def head_is_T head_test_def stored_def [of p i, symmetric] S_def [of p i, symmetric])
  qed
qed

definition branches_ok :: "core_program \<Rightarrow> nat \<Rightarrow> variant_layout \<Rightarrow> case_branch list \<Rightarrow> nat set \<Rightarrow> bool" where
  "branches_ok p ty layout branches seen \<longleftrightarrow>
    (\<forall>b \<in> set branches.
       map_option vcl_payload (vget (vl_constructors layout) (cb_constructor_index b)) = Some (cb_payload_type b) \<and>
       stored p (cb_body b) = ty) \<and>
    distinct (map cb_constructor_index branches) \<and> set (map cb_constructor_index branches) \<inter> seen = {}"

lemma check_branches_full:
  "\<forall>b \<in> set branches. cb_body b < length (cp_nodes p) \<Longrightarrow>
    (branches_ok p (cn_ty node) layout branches seen \<longrightarrow>
       check_branches (full p) i node layout branches seen = done_with (seen \<union> set (map cb_constructor_index branches))) \<and>
    (\<not> branches_ok p (cn_ty node) layout branches seen \<longrightarrow>
       (\<exists>e. check_branches (full p) i node layout branches seen = refuse e))"
proof (induction branches arbitrary: seen)
  case Nil
  then show ?case by (simp add: branches_ok_def)
next
  case (Cons b branches)
  let ?here = "map_option vcl_payload (vget (vl_constructors layout) (cb_constructor_index b)) = Some (cb_payload_type b)
    \<and> cb_constructor_index b \<notin> seen \<and> stored p (cb_body b) = cn_ty node"
  have ok: "branches_ok p (cn_ty node) layout (b # branches) seen \<longleftrightarrow>
      ?here \<and> branches_ok p (cn_ty node) layout branches (insert (cb_constructor_index b) seen)"
    by (auto simp: branches_ok_def)
  show ?case
  proof (cases "cb_constructor_index b < length (vl_constructors layout)")
    case False
    with ok show ?thesis by (auto simp: vget_out)
  next
    case True
    with Cons.prems Cons.IH [of "insert (cb_constructor_index b) seen"] show ?thesis
      unfolding ok by (cases ?here) auto
  qed
qed

lemma arm_case:
  assumes arm: "arm_at p i locals" and kind: "cn_kind (cp_nodes p ! i) = CoreCase e layout branches fallback"
  shows "settles (infer_case (cp_types p) (full p) i (cp_nodes p ! i) e layout branches fallback) (stored p i)
    (local_ok reg p scope (S p i) (CoreCase e layout branches fallback))"
proof -
  note here = arm_here [OF arm]
  have e: "e < length (cp_nodes p)" "known (cp_types p) (stored p e)" using arm_kids [OF arm kind, of e] by simp_all
  have body: "cb_body b < length (cp_nodes p)" "stored p (cb_body b) = stored p i \<longleftrightarrow> S p (cb_body b) = S p i"
    if "b \<in> set branches" for b
  proof -
    have "cb_body b < length (cp_nodes p)" "closed_ty (S p (cb_body b))"
      using arm_kids [OF arm kind, of "cb_body b"] that by simp_all
    then show "cb_body b < length (cp_nodes p)" "stored p (cb_body b) = stored p i \<longleftrightarrow> S p (cb_body b) = S p i"
      using stored_eq(1) [OF here(5) _ _ here(2)] by (simp_all add: S_def)
  qed
  have fall: "d < length (cp_nodes p)" "stored p d = stored p i \<longleftrightarrow> S p d = S p i" if "fallback = Some d" for d
  proof -
    have "d < length (cp_nodes p)" "closed_ty (S p d)" using arm_kids [OF arm kind, of d] that by simp_all
    then show "d < length (cp_nodes p)" "stored p d = stored p i \<longleftrightarrow> S p d = S p i"
      using stored_eq(1) [OF here(5) _ _ here(2)] by (simp_all add: S_def)
  qed
  let ?ok = "branches_ok p (stored p i) layout branches {}"
  have ok: "?ok \<longleftrightarrow> distinct (map cb_constructor_index branches) \<and> (\<forall>b \<in> set branches.
      map_option vcl_payload (vget (vl_constructors layout) (cb_constructor_index b)) = Some (cb_payload_type b) \<and>
      S p (cb_body b) = S p i)"
    using body(2) by (auto simp: branches_ok_def)
  have seen: "?ok \<Longrightarrow> card (set (map cb_constructor_index branches)) = length branches"
    using distinct_card [of "map cb_constructor_index branches"] unfolding branches_ok_def by simp
  have checked: "(?ok \<longrightarrow> check_branches (full p) i (cp_nodes p ! i) layout branches {} =
      done_with (set (map cb_constructor_index branches))) \<and>
    (\<not> ?ok \<longrightarrow> (\<exists>e. check_branches (full p) i (cp_nodes p ! i) layout branches {} = refuse e))"
    using check_branches_full [of branches p "cp_nodes p ! i" layout "{}" i] body(1) by (simp add: stored_def)
  show ?thesis
  proof (cases "?ok")
    case True
    with checked seen ok e here(1) fall show ?thesis
      by (cases fallback)
         (auto simp: infer_case_def head_is_T head_test_def S_def [of p e] stored_def [of p i, symmetric])
  next
    case False
    with checked obtain x where "check_branches (full p) i (cp_nodes p ! i) layout branches {} = refuse x" by blast
    with False ok e here(1) show ?thesis
      by (auto simp: infer_case_def head_is_T head_test_def S_def [of p e])
  qed
qed

text \<open>Every arm.\<close>

lemma infer_settles:
  assumes arm: "arm_at p i locals"
  shows "settles (infer reg p (full p) i (cp_nodes p ! i) locals (cn_kind (cp_nodes p ! i))) (stored p i)
    (local_ok reg p (rev (map (T (cp_types p)) locals)) (S p i) (cn_kind (cp_nodes p ! i)))"
  using arm_bound [OF arm] arm_lambda [OF arm] arm_apply [OF arm] arm_constant [OF arm] arm_builtin [OF arm]
    arm_tuple [OF arm] arm_list [OF arm] arm_record [OF arm] arm_get [OF arm] arm_set [OF arm] arm_modify [OF arm]
    arm_variant [OF arm] arm_case [OF arm]
  by (cases "cn_kind (cp_nodes p ! i)") simp_all

end
