(* ===== verification/Hell_Core_Pass.thy ===== *)
theory Hell_Core_Pass
  imports Hell_Core_Typing
begin

text \<open>
  The type pass: on a core without cycles it returns, and leaves the stored type of every
  node behind exactly when each node satisfies its rule under the locals of its place.  The
  proof is by induction on the depth of a node: the loop works the node and everything below
  it off the top of its stack, or stops with an error.
\<close>

section \<open>What the pass checks\<close>

inductive passes :: "registry \<Rightarrow> core_program \<Rightarrow> nat list \<Rightarrow> nat \<Rightarrow> bool" for reg p where
  passesI: "i < length (cp_nodes p) \<Longrightarrow> closed_ty (S p i) \<Longrightarrow>
    local_ok reg p (rev (map (T (cp_types p)) locals)) (S p i) (cn_kind (cp_nodes p ! i)) \<Longrightarrow>
    (\<And>c ls. (c, ls) \<in> set (scoped_children locals (cn_kind (cp_nodes p ! i))) \<Longrightarrow> passes reg p ls c) \<Longrightarrow>
    passes reg p locals i"

inductive_simps passes_node: "passes reg p locals i"

lemma scoped_kids: "map fst (scoped_children locals kind) = core_children kind"
  by (cases kind) (simp_all add: comp_def split: option.split)

lemma scoped_known:
  assumes "core_ok p" "i < length (cp_nodes p)" "list_all (known (cp_types p)) locals"
    and "(c, ls) \<in> set (scoped_children locals (cn_kind (cp_nodes p ! i)))"
  shows "list_all (known (cp_types p)) ls"
proof -
  note types = core_okD(4) [OF assms(1,2)]
  have branch: "known (cp_types p) ty" if "b \<in> set branches" "cb_payload_type b = Some ty"
      "cn_kind (cp_nodes p ! i) = CoreCase e layout branches d" for b ty e layout branches d
    using types that by (force simp: list_all_iff map_filter_def)
  show ?thesis
  proof (cases "cn_kind (cp_nodes p ! i)")
    case (CoreCase e layout branches d)
    then show ?thesis using assms(3,4) branch [OF _ _ CoreCase] by (auto split: option.splits)
  qed (use assms(3,4) types in auto)
qed

section \<open>An arm reads the children of its node only\<close>

definition agrees :: "core_program \<Rightarrow> nat option list \<Rightarrow> nat list \<Rightarrow> bool" where
  "agrees p computed cs \<longleftrightarrow> (\<forall>c \<in> set cs. vget computed c = Some (Some (stored p c)) \<and> c < length (cp_nodes p))"

lemma agrees_at: "agrees p computed cs \<Longrightarrow> c \<in> set cs \<Longrightarrow> computed_at computed c = computed_at (full p) c"
  by (auto simp: agrees_def computed_at_def full_at)

lemma agrees_has:
  "agrees p computed cs \<Longrightarrow> c \<in> set cs \<Longrightarrow> has_computed computed c ty = has_computed (full p) c ty"
  by (simp add: has_computed_def agrees_at)

lemma agrees_all:
  "agrees p computed cs \<Longrightarrow> set ds \<subseteq> set cs \<Longrightarrow> all_computed computed ds tys = all_computed (full p) ds tys"
  by (induction computed ds tys rule: all_computed.induct) (auto simp: agrees_has)

lemma agrees_branches:
  "agrees p computed cs \<Longrightarrow> cb_body ` set branches \<subseteq> set cs \<Longrightarrow>
    check_branches computed i node layout branches seen = check_branches (full p) i node layout branches seen"
  by (induction branches arbitrary: seen) (simp_all add: agrees_has cong: option.case_cong)

lemma infer_full:
  assumes "agrees p computed (core_children kind)"
  shows "infer reg p computed i node locals kind = infer reg p (full p) i node locals kind"
proof (cases kind)
  case (CoreLambda a body)
  with assms show ?thesis by (simp add: infer_lambda_def agrees_def full_at)
next
  case (CoreApply f a)
  with agrees_at [OF assms] show ?thesis by (simp add: infer_apply_def cong: option.case_cong)
next
  case (CoreTuple es)
  with agrees_all [OF assms] show ?thesis by (simp add: infer_tuple_def cong: option.case_cong)
next
  case (CoreList es)
  with agrees_all [OF assms] show ?thesis by (simp add: infer_list_def cong: type_node.case_cong)
next
  case (CoreRecord layout es)
  with agrees_all [OF assms] show ?thesis by (simp add: infer_record_def)
next
  case (CoreRecordGet layout index r)
  with agrees_at [OF assms] show ?thesis by (simp add: infer_get_def)
next
  case (CoreRecordSet layout index v r)
  with agrees_has [OF assms] show ?thesis by (simp add: infer_set_def)
next
  case (CoreRecordModify layout index f r)
  with agrees_at [OF assms] agrees_has [OF assms] show ?thesis by (simp add: infer_modify_def)
next
  case (CoreVariant layout index payload)
  with agrees_at [OF assms] show ?thesis by (simp add: infer_variant_def cong: option.case_cong)
next
  case (CoreCase e layout branches d)
  have kids: "e \<in> set (core_children kind)" "cb_body ` set branches \<subseteq> set (core_children kind)"
    using CoreCase by auto
  have d: "(case d of None \<Rightarrow> done_with True | Some d \<Rightarrow> has_computed computed d (cn_ty node)) =
      (case d of None \<Rightarrow> done_with True | Some d \<Rightarrow> has_computed (full p) d (cn_ty node))"
    using agrees_has [OF assms] CoreCase by (cases d) simp_all
  show ?thesis
    by (simp add: CoreCase infer_case_def agrees_at [OF assms kids(1)] agrees_branches [OF assms kids(2)] d
        cong: option.case_cong)
qed simp_all

section \<open>The loop\<close>

definition partly :: "core_program \<Rightarrow> nat option list \<Rightarrow> bool" where
  "partly p computed \<longleftrightarrow> length computed = length (cp_nodes p) \<and>
     (\<forall>c < length (cp_nodes p). computed ! c = None \<or> computed ! c = Some (stored p c))"

definition grown :: "core_program \<Rightarrow> nat option list \<Rightarrow> nat option list \<Rightarrow> bool" where
  "grown p a b \<longleftrightarrow> partly p b \<and> (\<forall>c < length (cp_nodes p). a ! c \<noteq> None \<longrightarrow> b ! c \<noteq> None)"

lemma grown_refl: "partly p a \<Longrightarrow> grown p a a" by (simp add: grown_def)

lemma grown_trans: "grown p a b \<Longrightarrow> grown p b c \<Longrightarrow> grown p a c" by (simp add: grown_def)

lemma grown_set: "grown p a b \<Longrightarrow> grown p a (b[i := Some (stored p i)])"
proof -
  have "b[i := Some (stored p i)] ! c = (if c = i \<and> i < length b then Some (stored p i) else b ! c)" for c
    by (cases "i < length b"; cases "c = i") (simp_all add: list_update_beyond)
  then show "grown p a b \<Longrightarrow> grown p a (b[i := Some (stored p i)])"
    by (simp add: grown_def partly_def)
qed

definition finishes ::
  "registry \<Rightarrow> core_program \<Rightarrow> pass_state \<Rightarrow> pass_state \<Rightarrow> bool" where
  "finishes reg p s s' \<longleftrightarrow> run_calls (pass_step reg p) s = run_calls (pass_step reg p) s'"

definition stops :: "registry \<Rightarrow> core_program \<Rightarrow> pass_state \<Rightarrow> bool" where
  "stops reg p s \<longleftrightarrow> (\<exists>e. run_calls (pass_step reg p) s = Some (Err e))"

text \<open>The loop on a node on top of its stack, under locals, from any vector of types.\<close>

definition decides_node :: "registry \<Rightarrow> core_program \<Rightarrow> nat \<Rightarrow> bool" where
  "decides_node reg p i \<longleftrightarrow> (\<forall>locals stack computed.
     list_all (known (cp_types p)) locals \<longrightarrow> partly p computed \<longrightarrow>
     (if passes reg p locals i
      then \<exists>computed'. finishes reg p ((i, False, locals) # stack, computed) (stack, computed') \<and>
        grown p computed computed' \<and> computed' ! i \<noteq> None
      else stops reg p ((i, False, locals) # stack, computed)))"

lemma decides_nodeD:
  assumes "decides_node reg p i" "list_all (known (cp_types p)) locals" "partly p computed"
  shows "passes reg p locals i \<Longrightarrow> \<exists>computed'. finishes reg p ((i, False, locals) # stack, computed) (stack, computed') \<and>
      grown p computed computed' \<and> computed' ! i \<noteq> None"
    "\<not> passes reg p locals i \<Longrightarrow> stops reg p ((i, False, locals) # stack, computed)"
  using assms unfolding decides_node_def by metis+

lemma finishes_stops: "finishes reg p s s' \<Longrightarrow> stops reg p s' \<Longrightarrow> stops reg p s"
  by (simp add: finishes_def stops_def)

lemma finishes_trans: "finishes reg p a b \<Longrightarrow> finishes reg p b c \<Longrightarrow> finishes reg p a c"
  by (simp add: finishes_def)

lemma finishes_step: "pass_step reg p s = Some (Inl s') \<Longrightarrow> finishes reg p s s'"
  by (simp add: finishes_def run_calls_Inl)

lemma stops_step: "pass_step reg p s = Some (Inr (Err e)) \<Longrightarrow> stops reg p s"
  by (simp add: stops_def run_calls_Inr)

text \<open>Nodes on top of the stack, one after the other.\<close>

lemma decides_list:
  assumes "\<And>c ls. (c, ls) \<in> set cs \<Longrightarrow> decides_node reg p c \<and> list_all (known (cp_types p)) ls \<and> c < length (cp_nodes p)"
    and "partly p computed"
  shows "(if \<forall>(c, ls) \<in> set cs. passes reg p ls c
     then \<exists>computed'. finishes reg p (map (\<lambda>(c, ls). (c, False, ls)) cs @ stack, computed) (stack, computed') \<and>
       grown p computed computed' \<and> (\<forall>(c, ls) \<in> set cs. computed' ! c \<noteq> None)
     else stops reg p (map (\<lambda>(c, ls). (c, False, ls)) cs @ stack, computed))"
  using assms
proof (induction cs arbitrary: computed)
  case Nil
  then show ?case by (auto simp: finishes_def intro: grown_refl)
next
  case (Cons x cs)
  obtain c ls where x: "x = (c, ls)" by (cases x)
  note c = Cons.prems(1) [of c ls, simplified x, simplified]
  let ?rest = "map (\<lambda>(c, ls). (c, False, ls)) cs @ stack"
  show ?case
  proof (cases "passes reg p ls c")
    case False
    with decides_nodeD(2) [OF _ _ Cons.prems(2) False, of ?rest] c show ?thesis by (simp add: x)
  next
    case True
    from decides_nodeD(1) [OF _ _ Cons.prems(2) True, of ?rest] c obtain comp1 where
      1: "finishes reg p ((c, False, ls) # ?rest, computed) (?rest, comp1)" "grown p computed comp1" "comp1 ! c \<noteq> None"
      by blast
    then have "partly p comp1" by (simp add: grown_def)
    note IH = Cons.IH [OF Cons.prems(1) this, simplified]
    show ?thesis
    proof (cases "\<forall>(c, ls) \<in> set cs. passes reg p ls c")
      case False
      with IH have "stops reg p (?rest, comp1)" by auto
      with finishes_stops [OF 1(1)] False True show ?thesis by (auto simp: x)
    next
      case all: True
      with IH obtain comp2 where 2: "finishes reg p (?rest, comp1) (stack, comp2)" "grown p comp1 comp2"
        "\<forall>(c, ls) \<in> set cs. comp2 ! c \<noteq> None" by auto
      have "comp2 ! c \<noteq> None" using 1(3) 2(2) c by (auto simp: grown_def)
      with all True 2 finishes_trans [OF 1(1) 2(1)] grown_trans [OF 1(2) 2(2)] show ?thesis
        by (auto simp: x intro!: exI [of _ comp2])
    qed
  qed
qed

lemma closed_here:
  "core_ok p \<Longrightarrow> i < length (cp_nodes p) \<Longrightarrow>
    type_is_closed (cp_types p) (cn_ty (cp_nodes p ! i)) = Some (Ok (closed_ty (S p i)))"
  using type_is_closed_T [of "cp_types p" "stored p i"] core_okD(1) [of p] core_okD(3) [of p i]
  by (simp add: S_def stored_def done_with_def)

lemma deep_decides:
  assumes ok: "core_ok p"
  shows "deep (cp_nodes p) i \<Longrightarrow> decides_node reg p i"
proof (induction rule: deep.induct)
  case (deepI i)
  let ?kind = "cn_kind (cp_nodes p ! i)"
  have kids: "kids (cp_nodes p) i = core_children ?kind" using deepI.hyps(1) by (simp add: kids_def)
  show ?case unfolding decides_node_def
  proof (intro allI impI)
    fix locals stack computed
    assume l: "list_all (known (cp_types p)) locals" and comp: "partly p computed"
    let ?s = "((i, False, locals) # stack, computed)"
    let ?cs = "scoped_children locals ?kind" and ?stack = "(i, True, locals) # stack"
    have in_kids: "c \<in> set (core_children ?kind)" if "(c, ls) \<in> set ?cs" for c ls
      using that unfolding scoped_kids [of locals, symmetric] by force
    have scoped: "\<exists>ls. (c, ls) \<in> set ?cs" if "c \<in> set (core_children ?kind)" for c
      using that unfolding scoped_kids [of locals, symmetric] by force
    have each: "decides_node reg p c \<and> list_all (known (cp_types p)) ls \<and> c < length (cp_nodes p)"
      if "(c, ls) \<in> set ?cs" for c ls
      using deepI.IH [of c] deepI.hyps(2) [of c] in_kids [OF that] scoped_known [OF ok deepI.hyps(1) l that]
        deep_bound kids by auto
    show "if passes reg p locals i
      then \<exists>computed'. finishes reg p ?s (stack, computed') \<and> grown p computed computed' \<and> computed' ! i \<noteq> None
      else stops reg p ?s"
    proof (cases "closed_ty (S p i)")
      case False
      then have "\<not> passes reg p locals i" by (auto elim: passes.cases)
      moreover have "stops reg p ?s"
        using deepI.hyps(1) closed_here [OF ok deepI.hyps(1)] False by (intro stops_step) simp
      ultimately show ?thesis by simp
    next
      case closed: True
      have enter: "finishes reg p ?s (map (\<lambda>(c, ls). (c, False, ls)) ?cs @ ?stack, computed)"
        using deepI.hyps(1) closed_here [OF ok deepI.hyps(1)] closed by (intro finishes_step) simp
      note all = decides_list [where cs = ?cs and stack = ?stack, OF each comp]
      show ?thesis
      proof (cases "\<forall>(c, ls) \<in> set ?cs. passes reg p ls c")
        case False
        then have "\<not> passes reg p locals i" by (auto elim: passes.cases)
        moreover have "stops reg p ?s" using all False finishes_stops [OF enter] by auto
        ultimately show ?thesis by simp
      next
        case True
        with all obtain comp1 where 1: "finishes reg p (map (\<lambda>(c, ls). (c, False, ls)) ?cs @ ?stack, computed) (?stack, comp1)"
          "grown p computed comp1" "\<forall>(c, ls) \<in> set ?cs. comp1 ! c \<noteq> None" by auto
        have len: "length comp1 = length (cp_nodes p)" using 1(2) by (simp add: grown_def partly_def)
        have "agrees p comp1 (core_children ?kind)"
          unfolding agrees_def
        proof
          fix c assume "c \<in> set (core_children ?kind)"
          then obtain ls where ls: "(c, ls) \<in> set ?cs" using scoped by blast
          have c: "c < length (cp_nodes p)" "comp1 ! c \<noteq> None" using each [OF ls] bspec [OF 1(3) ls] by simp_all
          moreover have "comp1 ! c = Some (stored p c)"
            using 1(2) [unfolded grown_def partly_def, THEN conjunct1, THEN conjunct2, THEN spec, THEN mp, OF c(1)] c(2)
            by simp
          ultimately show "vget comp1 c = Some (Some (stored p c)) \<and> c < length (cp_nodes p)"
            using len by simp
        qed
        note infer = infer_full [OF this, of reg i "cp_nodes p ! i" locals]
        have "arm_at p i locals" unfolding arm_at_def kids
        proof (intro conjI ballI)
          fix c assume "c \<in> set (core_children ?kind)"
          then obtain ls where ls: "(c, ls) \<in> set ?cs" using scoped by blast
          show "c < length (cp_nodes p)" using each [OF ls] by simp
          have "passes reg p ls c" using bspec [OF True ls] by simp
          then show "closed_ty (S p c)" by (rule passes.cases) simp
        qed (use ok deepI.hyps(1) closed l in simp_all)
        note settles = infer_settles [OF this, of reg, folded infer]
        let ?b = "local_ok reg p (rev (map (T (cp_types p)) locals)) (S p i) ?kind"
        have pass: "passes reg p locals i \<longleftrightarrow> ?b"
          using True deepI.hyps(1) closed by (subst passes_node) auto
        have step: "pass_step reg p (?stack, comp1) = pass_leave reg p i (cp_nodes p ! i) locals stack comp1"
          using deepI.hyps(1) closed_here [OF ok deepI.hyps(1)] closed by simp
        show ?thesis
        proof (cases ?b)
          case True
          let ?comp2 = "comp1[i := Some (stored p i)]"
          have "infer reg p comp1 i (cp_nodes p ! i) locals ?kind = Some (Ok (stored p i))"
            using settles True by (simp add: settles_def done_with_def)
          then have "finishes reg p (?stack, comp1) (stack, ?comp2)"
            using deepI.hyps(1) len unfolding stored_def
            by (intro finishes_step) (simp only: step, simp add: pass_leave_def)
          then have "finishes reg p ?s (stack, ?comp2)"
            using enter 1(1) finishes_trans by blast
          moreover have "grown p computed ?comp2" using 1(2) by (rule grown_set)
          ultimately show ?thesis using pass True len deepI.hyps(1) by (auto intro!: exI [of _ ?comp2])
        next
          case False
          then consider t where "infer reg p comp1 i (cp_nodes p ! i) locals ?kind = Some (Ok t)" "t \<noteq> stored p i"
            | e where "infer reg p comp1 i (cp_nodes p ! i) locals ?kind = Some (Err e)"
            using settles by (auto simp: settles_def done_with_def refuse_def)
          then have "\<exists>e. pass_leave reg p i (cp_nodes p ! i) locals stack comp1 = Some (Inr (Err e))"
            by cases (auto simp: pass_leave_def stored_def)
          then have "stops reg p (?stack, comp1)" using step by (auto intro: stops_step)
          then have "stops reg p ?s" using finishes_stops [OF enter] finishes_stops [OF 1(1)] by blast
          with pass False show ?thesis by simp
        qed
      qed
    qed
  qed
qed

lemma type_pass_decides:
  assumes "core_ok p" "deep (cp_nodes p) (cp_root p)"
  shows "if passes reg p [] (cp_root p)
    then \<exists>computed. type_pass reg p = done_with computed \<and> has_computed computed (cp_root p) ty = done_with (stored p (cp_root p) = ty)
    else \<exists>e. type_pass reg p = refuse e"
proof -
  let ?none = "replicate (length (cp_nodes p)) None"
  have root: "cp_root p < length (cp_nodes p)" using assms(2) by (rule deep_bound)
  have "partly p ?none" "list_all (known (cp_types p)) []" by (simp_all add: partly_def)
  note d = decides_nodeD [OF deep_decides [OF assms] this(2,1), where stack = "[]"]
  have "\<exists>computed. type_pass reg p = done_with computed \<and> has_computed computed (cp_root p) ty = done_with (stored p (cp_root p) = ty)"
    if "passes reg p [] (cp_root p)"
  proof -
    from d(1) [OF that] obtain computed where
      *: "finishes reg p ([(cp_root p, False, [])], ?none) ([], computed)" "grown p ?none computed"
        "computed ! cp_root p \<noteq> None" by blast
    then have "computed ! cp_root p = Some (stored p (cp_root p))" "length computed = length (cp_nodes p)"
      using root by (auto simp: grown_def partly_def)
    moreover have "type_pass reg p = done_with computed"
      using *(1) by (simp add: type_pass_def finishes_def done_with_def run_calls_Inr)
    ultimately show ?thesis using root by (auto simp: has_computed_def computed_at_def done_with_def)
  qed
  moreover have "\<exists>e. type_pass reg p = refuse e" if "\<not> passes reg p [] (cp_root p)"
    using d(2) [OF that] by (simp add: type_pass_def stops_def refuse_def)
  ultimately show ?thesis by simp
qed

end
