(* ===== verification/Hell_Core_Verified.thy ===== *)
theory Hell_Core_Verified
  imports Hell_Core_Pass
begin

text \<open>
  \<open>verify\<close> as a whole: what the type pass checks is the type system, and the verifier
  seals exactly the well-formed, well-typed programs with exact class evidence.
\<close>

section \<open>The pass and the type system\<close>

lemma has_type_stored: "has_type reg p scope i t \<Longrightarrow> i < length (cp_nodes p) \<and> S p i = t \<and> closed_ty t"
  by (cases rule: has_type.cases) (auto simp: node_at_def)

lemma passes_node_at: "passes reg p locals i \<Longrightarrow> node_at p i (cn_kind (cp_nodes p ! i)) (S p i)"
  by (auto simp: node_at_def elim: passes.cases)

lemma passes_has_type:
  "passes reg p locals i \<Longrightarrow> has_type reg p (rev (map (T (cp_types p)) locals)) i (S p i)"
proof (induction rule: passes.induct)
  case (passesI i locals)
  let ?scope = "rev (map (T (cp_types p)) locals)"
  note ok = passesI.hyps(3)
  have at: "cn_kind (cp_nodes p ! i) = kind \<Longrightarrow> S p i = t \<Longrightarrow> node_at p i kind t" for kind t
    using passesI.hyps(1,2) by (simp add: node_at_def)
  note kid = passesI.IH [of _ locals]
  show ?case
  proof (cases "cn_kind (cp_nodes p ! i)")
    case (CoreBoundVar j q)
    with ok show ?thesis
      by (cases q) (auto intro: ht_local [OF at] ht_element [OF at])
  next
    case (CoreLambda a body)
    then have "has_type reg p (T (cp_types p) a # ?scope) body (S p body)"
      using passesI.IH [of body "locals @ [a]"] by simp
    with ok CoreLambda show ?thesis using ht_lambda [OF at [OF CoreLambda]] by simp
  next
    case (CoreApply f a)
    have "has_type reg p ?scope f (Fun (S p a) (S p i))" "has_type reg p ?scope a (S p a)"
      using kid [of f] kid [of a] ok CoreApply by simp_all
    then show ?thesis by (rule ht_apply [OF at [OF CoreApply refl]])
  next
    case (CoreConstant c)
    with ok show ?thesis by (intro ht_constant [OF at [OF CoreConstant refl]]) simp
  next
    case (CoreBuiltin b e)
    with ok show ?thesis by (intro ht_builtin [OF at [OF CoreBuiltin refl]]) simp
  next
    case (CoreTuple es)
    with kid ok show ?thesis
      by (intro ht_tuple [OF at [OF CoreTuple refl]]) (auto simp: list_all2_conv_all_nth)
  next
    case (CoreList es)
    then obtain c item where c: "S p i = App c item" "con_name c = Some ''[]''" "\<forall>e \<in> set es. S p e = item"
      using ok by auto
    show ?thesis unfolding c(1)
      by (rule ht_list [OF at [OF CoreList c(1)] c(2)]) (use kid CoreList c(3) in fastforce)
  next
    case (CoreRecord layout parts)
    have "list_all2 (\<lambda>c field. S p c = T (cp_types p) (rfl_ty field)) parts (rl_fields layout)"
      using ok CoreRecord by simp
    then have "list_all2 (\<lambda>c field. has_type reg p ?scope c (T (cp_types p) (rfl_ty field))) parts (rl_fields layout)"
      by (rule list.rel_mono_strong) (use kid CoreRecord in fastforce)
    with ok CoreRecord show ?thesis by (intro ht_record [OF at [OF CoreRecord refl]]) simp_all
  next
    case (CoreRecordGet layout index r)
    with kid ok show ?thesis by (auto intro: ht_get [OF at [OF CoreRecordGet refl]])
  next
    case (CoreRecordSet layout index v r)
    then obtain field where *: "vget (rl_fields layout) index = Some field" "head_test (rl_type_name layout) (S p i)"
      "S p r = S p i" "S p v = T (cp_types p) (rfl_ty field)" using ok by auto
    show ?thesis
      by (rule ht_set [OF at [OF CoreRecordSet refl] *(1,2)])
        (use kid [of r] kid [of v] CoreRecordSet *(3,4) in simp_all)
  next
    case (CoreRecordModify layout index f r)
    then obtain field where *: "vget (rl_fields layout) index = Some field" "head_test (rl_type_name layout) (S p i)"
      "S p r = S p i" "S p f = Fun (T (cp_types p) (rfl_ty field)) (T (cp_types p) (rfl_ty field))" using ok by auto
    show ?thesis
      by (rule ht_modify [OF at [OF CoreRecordModify refl] *(1,2)])
        (use kid [of r] kid [of f] CoreRecordModify *(3,4) in simp_all)
  next
    case (CoreVariant layout index payload)
    then obtain c where *: "head_test (vl_type_name layout) (S p i)" "vget (vl_constructors layout) index = Some c"
      "rel_option (\<lambda>e ty. S p e = T (cp_types p) ty) payload (vcl_payload c)" using ok by auto
    show ?thesis
    proof (rule ht_variant [OF at [OF CoreVariant refl] *(1,2)])
      show "rel_option (\<lambda>e ty. has_type reg p ?scope e (T (cp_types p) ty)) payload (vcl_payload c)"
        using *(3) kid CoreVariant by (cases payload; cases "vcl_payload c") auto
    qed
  next
    case (CoreCase e layout branches fallback)
    note ok = ok [unfolded CoreCase, simplified]
    have b: "has_type reg p (branch_scope p b ?scope) (cb_body b) (S p i)" if "b \<in> set branches" for b
    proof -
      let ?ls = "case cb_payload_type b of None \<Rightarrow> locals | Some t \<Rightarrow> locals @ [t]"
      have "(cb_body b, ?ls) \<in> set (scoped_children locals (cn_kind (cp_nodes p ! i)))"
        unfolding CoreCase using that by auto
      from passesI.IH [OF this] have "has_type reg p (branch_scope p b ?scope) (cb_body b) (S p (cb_body b))"
        by (cases "cb_payload_type b") (simp_all add: branch_scope_def)
      moreover have "S p (cb_body b) = S p i" using ok that by blast
      ultimately show ?thesis by simp
    qed
    have d: "has_type reg p ?scope d (S p i)" if "fallback = Some d" for d
      using kid [of d] CoreCase ok that by auto
    show ?thesis
      by (rule ht_case [OF at [OF CoreCase refl]]) (use kid [of e] CoreCase ok b d in auto)
  qed
qed

lemma passes_at:
  assumes "node_at p i kind t" "local_ok reg p (rev (map (T (cp_types p)) locals)) t kind"
    and "\<And>c ls. (c, ls) \<in> set (scoped_children locals kind) \<Longrightarrow> passes reg p ls c"
  shows "passes reg p locals i"
  using assms by (auto simp: node_at_def intro: passesI)

lemma has_type_S: "has_type reg p scope i t \<Longrightarrow> S p i = t"
  using has_type_stored by blast

lemma has_type_passes:
  "has_type reg p scope i t \<Longrightarrow> scope = rev (map (T (cp_types p)) locals) \<Longrightarrow> passes reg p locals i"
proof (induction arbitrary: locals rule: has_type.induct)
  case (ht_local i j t scope)
  show ?case by (rule passes_at [OF ht_local.hyps(1)]) (use ht_local in simp_all)
next
  case (ht_element i j arity index t scope s ts)
  show ?case by (rule passes_at [OF ht_element.hyps(1)]) (use ht_element in \<open>simp_all add: tuple_ty_def\<close>)
next
  case (ht_lambda i a body t scope)
  show ?case
    by (rule passes_at [OF ht_lambda.hyps(1)])
       (use ht_lambda.IH [of "locals @ [a]"] ht_lambda.prems has_type_S [OF ht_lambda.hyps(2)] in simp_all)
next
  case (ht_apply i f a t scope s)
  show ?case
    by (rule passes_at [OF ht_apply.hyps(1)])
       (use ht_apply.IH [OF ht_apply.prems] has_type_S [OF ht_apply.hyps(2)] has_type_S [OF ht_apply.hyps(3)] in auto)
next
  case (ht_constant i c t scope)
  show ?case by (rule passes_at [OF ht_constant.hyps(1)]) (use ht_constant in simp_all)
next
  case (ht_builtin i b e t scope)
  show ?case by (rule passes_at [OF ht_builtin.hyps(1)]) (use ht_builtin in simp_all)
next
  case (ht_tuple i es t ts scope)
  have "map (S p) es = ts"
    using ht_tuple(3) has_type_S by (auto simp: list_all2_conv_all_nth intro!: nth_equalityI)
  moreover have "passes reg p locals e" if "e \<in> set es" for e
    using ht_tuple(3,4) that by (auto simp: list_all2_conv_all_nth in_set_conv_nth)
  ultimately show ?case by (intro passes_at [OF ht_tuple(1)]) (use ht_tuple(2) in auto)
next
  case (ht_list i es c t scope)
  have "S p e = t" "passes reg p locals e" if "e \<in> set es" for e
    using has_type_S [OF ht_list(3) [OF that]] ht_list(4) [OF that ht_list.prems] by simp_all
  with ht_list(2) show ?case by (intro passes_at [OF ht_list(1)]) auto
next
  case (ht_record i layout parts t scope)
  have "list_all2 (\<lambda>c field. S p c = T (cp_types p) (rfl_ty field)) parts (rl_fields layout)"
    using ht_record(3) has_type_S by (auto simp: list_all2_conv_all_nth)
  moreover have "passes reg p locals e" if "e \<in> set parts" for e
    using ht_record(3,4) that by (auto simp: list_all2_conv_all_nth in_set_conv_nth)
  ultimately show ?case by (intro passes_at [OF ht_record(1)]) (use ht_record(2) in auto)
next
  case (ht_get i layout index r t field scope s)
  show ?case
    by (rule passes_at [OF ht_get.hyps(1)])
       (use ht_get.hyps(2,3,5) ht_get.IH [OF ht_get.prems] has_type_S [OF ht_get.hyps(4)] in simp_all)
next
  case (ht_set i layout index v r t field scope)
  show ?case
    by (rule passes_at [OF ht_set.hyps(1)])
       (use ht_set.hyps(2,3) ht_set.IH [OF ht_set.prems] has_type_S [OF ht_set.hyps(4)] has_type_S [OF ht_set.hyps(5)]
         in auto)
next
  case (ht_modify i layout index f r t field scope)
  show ?case
    by (rule passes_at [OF ht_modify.hyps(1)])
       (use ht_modify.hyps(2,3) ht_modify.IH [OF ht_modify.prems] has_type_S [OF ht_modify.hyps(4)]
         has_type_S [OF ht_modify.hyps(5)] in auto)
next
  case (ht_variant i layout index payload t c scope)
  have "rel_option (\<lambda>e ty. S p e = T (cp_types p) ty) payload (vcl_payload c)"
    using ht_variant(4) has_type_S by (auto simp: option.rel_sel)
  moreover have "passes reg p locals e" if "payload = Some e" for e
    using ht_variant(4,5) that by (auto simp: option.rel_sel)
  ultimately show ?case
    by (intro passes_at [OF ht_variant(1)]) (use ht_variant(2,3) in \<open>auto split: option.splits\<close>)
next
  case (ht_case i e layout branches fallback t scope s)
  have e: "S p e = s" "passes reg p locals e" using has_type_S [OF ht_case.hyps(2)] ht_case.IH(1) [OF ht_case.prems] .
  have b: "passes reg p (case cb_payload_type b of None \<Rightarrow> locals | Some t \<Rightarrow> locals @ [t]) (cb_body b)"
    "S p (cb_body b) = t" if "b \<in> set branches" for b
  proof -
    have "has_type reg p (branch_scope p b scope) (cb_body b) t" using ht_case.IH(2) [OF that] ht_case.hyps that by blast
    then show "S p (cb_body b) = t" by (rule has_type_S)
    have "branch_scope p b scope =
        rev (map (T (cp_types p)) (case cb_payload_type b of None \<Rightarrow> locals | Some t \<Rightarrow> locals @ [t]))"
      using ht_case.prems by (simp add: branch_scope_def split: option.split)
    then show "passes reg p (case cb_payload_type b of None \<Rightarrow> locals | Some t \<Rightarrow> locals @ [t]) (cb_body b)"
      using ht_case.IH(2) [OF that] by blast
  qed
  have d: "S p d = t" "passes reg p locals d" if "fallback = Some d" for d
    using ht_case.IH(3) [OF that ht_case.prems] ht_case.hyps(7) [OF that] has_type_S by auto
  show ?case
    by (rule passes_at [OF ht_case.hyps(1)])
       (use b d e ht_case.hyps(3,4,5) ht_case.hyps(8) in \<open>auto split: option.splits\<close>)
qed

lemma passes_iff: "passes reg p [] i \<longleftrightarrow> has_type reg p [] i (S p i)"
  using passes_has_type [of reg p "[]" i] has_type_passes [of reg p "[]" i "S p i" "[]"] by auto

section \<open>Layouts\<close>

text \<open>Two layouts of one nominal type are the same.\<close>

definition layouts_agree :: "core_node list \<Rightarrow> bool" where
  "layouts_agree nodes \<longleftrightarrow>
    (\<forall>n \<in> set nodes. \<forall>m \<in> set nodes. \<forall>a b. record_layout_of (cn_kind n) = Some a \<longrightarrow>
       record_layout_of (cn_kind m) = Some b \<longrightarrow> rl_type_name a = rl_type_name b \<longrightarrow> a = b) \<and>
    (\<forall>n \<in> set nodes. \<forall>m \<in> set nodes. \<forall>a b. variant_layout_of (cn_kind n) = Some a \<longrightarrow>
       variant_layout_of (cn_kind m) = Some b \<longrightarrow> vl_type_name a = vl_type_name b \<longrightarrow> a = b)"

text \<open>A list of named things against a map, and among themselves.\<close>

definition names_agree :: "('l \<Rightarrow> string) \<Rightarrow> (string \<rightharpoonup> 'l) \<Rightarrow> 'l set \<Rightarrow> bool" where
  "names_agree name m A \<longleftrightarrow> (\<forall>a \<in> A. \<forall>b. m (name a) = Some b \<longrightarrow> a = b) \<and>
     (\<forall>a \<in> A. \<forall>b \<in> A. name a = name b \<longrightarrow> a = b)"

lemma names_agree_empty: "names_agree name Map.empty A \<longleftrightarrow> (\<forall>a \<in> A. \<forall>b \<in> A. name a = name b \<longrightarrow> a = b)"
  by (simp add: names_agree_def)

lemma names_agree_insert:
  "names_agree name m (insert a A) \<longleftrightarrow>
    (case insert_layout_name m (name a) a of None \<Rightarrow> False | Some m' \<Rightarrow> names_agree name m' A)"
  by (auto simp: names_agree_def insert_layout_name_def split: option.split)

definition layouts_of :: "('k \<Rightarrow> 'l option) \<Rightarrow> 'k set \<Rightarrow> 'l set" where
  "layouts_of f K = {a. \<exists>k \<in> K. f k = Some a}"

lemma layouts_of_insert:
  "layouts_of f (insert k K) = (case f k of None \<Rightarrow> layouts_of f K | Some a \<Rightarrow> insert a (layouts_of f K))"
  by (auto simp: layouts_of_def split: option.split)

lemma check_layouts_agree:
  "(check_layouts index nodes R V = Ok () \<longleftrightarrow>
     names_agree rl_type_name R (layouts_of record_layout_of (set (map cn_kind nodes))) \<and>
     names_agree vl_type_name V (layouts_of variant_layout_of (set (map cn_kind nodes)))) \<and>
   check_layouts index nodes R V \<noteq> Panic"
proof (induction nodes arbitrary: index R V)
  case Nil
  then show ?case by (simp add: names_agree_def layouts_of_def)
next
  case (Cons node nodes)
  show ?case
  proof (cases "record_layout_of (cn_kind node)")
    case None
    then show ?thesis using Cons.IH
      by (auto simp: Let_def layouts_of_insert record_layout_step_def variant_layout_step_def names_agree_insert ok_or_def
          split: option.splits)
  next
    case (Some l)
    then have "variant_layout_of (cn_kind node) = None" by (cases "cn_kind node") simp_all
    with Some show ?thesis using Cons.IH
      by (auto simp: Let_def layouts_of_insert record_layout_step_def variant_layout_step_def names_agree_insert ok_or_def
          split: option.splits)
  qed
qed

lemma check_layouts_iff:
  "check_layouts 0 nodes Map.empty Map.empty = Ok () \<longleftrightarrow> layouts_agree nodes"
  unfolding check_layouts_agree [THEN conjunct1] names_agree_empty layouts_agree_def layouts_of_def
  by (simp add: Bex_def Ball_def) blast

section \<open>The inventory of evidence\<close>

definition evidence_roots :: "core_program \<Rightarrow> nat list" where
  "evidence_roots p = List.map_filter (\<lambda>node. evidence_root (cn_kind node)) (cp_nodes p)"

definition plans_below :: "registry \<Rightarrow> core_program \<Rightarrow> nat \<Rightarrow> nat set" where
  "plans_below reg p root =
    (if justified (cp_types p) (reg_instances reg) (cp_instance_evidence p) root
     then (plan_edges (cp_instance_evidence p))\<^sup>* `` {root} else {})"

text \<open>Every plan is below the evidence of a node, and no two plans are for the same class and type.\<close>

definition inventory_exact :: "registry \<Rightarrow> core_program \<Rightarrow> bool" where
  "inventory_exact reg p \<longleftrightarrow>
    (\<forall>root \<in> set (tl (evidence_roots p)).
       justified (cp_types p) (reg_instances reg) (cp_instance_evidence p) root) \<and>
    (\<Union>root \<in> set (evidence_roots p). plans_below reg p root) = {..<length (cp_instance_evidence p)} \<and>
    distinct (map (\<lambda>plan. (ep_class plan, ep_head plan)) (cp_instance_evidence p))"

lemma plans_below_bound: "plans_below reg p root \<subseteq> {..<length (cp_instance_evidence p)}"
proof
  fix q assume "q \<in> plans_below reg p root"
  then have "justified (cp_types p) (reg_instances reg) (cp_instance_evidence p) q"
    using justified_reach by (auto simp: plans_below_def split: if_splits)
  then show "q \<in> {..<length (cp_instance_evidence p)}" by (auto elim: justified.cases)
qed

lemma graph_result:
  assumes "core_ok p"
  shows "validate_evidence_graph (cp_types p) (reg_instances reg) (cp_instance_evidence p) root =
    done_with (if justified (cp_types p) (reg_instances reg) (cp_instance_evidence p) root
      then Some (plans_below reg p root) else None)"
  using validate_evidence_graph_eq [OF core_okD(1,5) [OF assms]]
  by (simp add: evidence_result_def plans_below_def)

lemma reach_plans_eq:
  assumes "core_ok p"
  shows "reach_plans (cp_types p) (reg_instances reg) (cp_instance_evidence p) roots A =
    done_with (if \<forall>root \<in> set roots. justified (cp_types p) (reg_instances reg) (cp_instance_evidence p) root
      then Some (A \<union> (\<Union>root \<in> set roots. plans_below reg p root)) else None)"
  by (induction roots arbitrary: A) (auto simp: graph_result [OF assms] Un_assoc)

lemma inventory_is_exact_eq:
  assumes "core_ok p"
  shows "inventory_is_exact reg p = done_with (inventory_exact reg p)"
proof (cases "evidence_roots p")
  case Nil
  then show ?thesis
    by (cases "cp_instance_evidence p")
       (auto simp: inventory_is_exact_def inventory_exact_def evidence_roots_def Let_def done_with_def)
next
  case (Cons first roots)
  let ?n = "length (cp_instance_evidence p)"
  let ?all = "plans_below reg p first \<union> (\<Union>root \<in> set roots. plans_below reg p root)"
  have "?all \<subseteq> {..<?n}" using plans_below_bound by blast
  then have "card ?all = ?n \<longleftrightarrow> ?all = {..<?n}"
    by (metis card_lessThan card_subset_eq finite_lessThan)
  moreover have "(if justified (cp_types p) (reg_instances reg) (cp_instance_evidence p) first
      then plans_below reg p first else {}) = plans_below reg p first"
    by (simp add: plans_below_def)
  ultimately show ?thesis
    using Cons
    by (auto simp: inventory_is_exact_def inventory_exact_def evidence_roots_def [symmetric] Let_def
        graph_result [OF assms] reach_plans_eq [OF assms] done_with_def split: if_splits)
qed

section \<open>The verifier\<close>

definition compiler_evidence_ok :: "registry \<Rightarrow> core_program \<Rightarrow> bool" where
  "compiler_evidence_ok reg p \<longleftrightarrow>
    (let e = cp_compiler_evidence p in
     be_parsed e = be_resolved e \<and> be_resolved e = be_specialized e \<and>
     sorted_wrt (<) (be_parsed e) \<and> set (be_parsed e) \<subseteq> set (present_builtins reg p))"

lemma validate_compiler_evidence_eq:
  "validate_compiler_evidence reg p = done_with () \<and> compiler_evidence_ok reg p \<or>
   (\<exists>e. validate_compiler_evidence reg p = refuse e) \<and> \<not> compiler_evidence_ok reg p"
  by (auto simp: validate_compiler_evidence_def compiler_evidence_ok_def Let_def list_ex_iff)

text \<open>A program that may run: the specification of the verifier.\<close>

definition io_unit :: "ty \<Rightarrow> bool" where
  "io_unit t \<longleftrightarrow> (\<exists>io u. t = App io u \<and> con_name io = Some ''IO'' \<and> con_name u = Some ''()'')"

definition verifiable :: "bool \<Rightarrow> registry \<Rightarrow> core_program \<Rightarrow> bool" where
  "verifiable tracing reg p \<longleftrightarrow>
     layouts_agree (cp_nodes p) \<and> core_tree (cp_nodes p) (cp_root p) \<and>
     (\<exists>t. T (cp_types p) (cp_main_type p) = t \<and> io_unit t \<and> has_type reg p [] (cp_root p) t) \<and>
     inventory_exact reg p \<and> (tracing \<longrightarrow> compiler_evidence_ok reg p)"

lemma main_is_io_unit_T:
  assumes "core_ok p"
  shows "main_is_io_unit p = done_with (io_unit (T (cp_types p) (cp_main_type p)))"
proof -
  note ok = core_okD(1,2) [OF assms]
  show ?thesis
  proof (cases "t_nodes (cp_types p) ! cp_main_type p")
    case (TApply io u)
    note app = T_App [OF ok TApply]
    with TApply ok show ?thesis
      by (auto simp: main_is_io_unit_def get_type_known constructor_is_T io_unit_def)
  qed (use T_shapes [OF ok] ok in \<open>auto simp: main_is_io_unit_def get_type_known io_unit_def\<close>)
qed

definition answers :: "'a checked \<Rightarrow> bool \<Rightarrow> 'a \<Rightarrow> bool" where
  "answers m b x \<longleftrightarrow> (if b then m = done_with x else \<exists>e. m = refuse e)"

lemma verify_whole_answers:
  assumes "core_ok p"
    and "has_computed computed (cp_root p) (cp_main_type p) = done_with (stored p (cp_root p) = cp_main_type p)"
  shows "answers (verify_whole tracing reg p computed)
    (stored p (cp_root p) = cp_main_type p \<and> inventory_exact reg p \<and>
     io_unit (T (cp_types p) (cp_main_type p)) \<and> (tracing \<longrightarrow> compiler_evidence_ok reg p)) (seal tracing p)"
  using validate_compiler_evidence_eq [of reg p]
  by (auto simp: answers_def verify_whole_def assms(2) inventory_is_exact_eq [OF assms(1)] main_is_io_unit_T [OF assms(1)])

lemma verify_answers:
  assumes ok: "core_ok p"
  shows "answers (verify tracing reg p) (verifiable tracing reg p) (seal tracing p)"
proof (cases "cp_root p < length (cp_nodes p) \<and> layouts_agree (cp_nodes p) \<and> core_tree (cp_nodes p) (cp_root p)")
  case False
  show ?thesis
  proof (cases "cp_root p < length (cp_nodes p)")
    case out: False
    then have "\<not> core_tree (cp_nodes p) (cp_root p)" by (auto simp: core_tree_def dest: unfolds_bounds)
    with out show ?thesis by (auto simp: answers_def verifiable_def verify_def)
  next
    case root: True
    obtain r where r: "check_graph (cp_nodes p) (cp_root p) = Some r" "graph_post (cp_nodes p) (cp_root p) r"
      using check_graph_returns [OF root] by blast
    have "r \<noteq> Ok ()" if "\<not> core_tree (cp_nodes p) (cp_root p)" using that r(2) by (auto simp: graph_post_def)
    with False root r check_layouts_iff [of "cp_nodes p"] check_layouts_agree [of 0 "cp_nodes p" Map.empty Map.empty]
    show ?thesis
      by (cases "check_layouts 0 (cp_nodes p) Map.empty Map.empty"; cases r)
         (auto simp: answers_def verifiable_def verify_def lift_res_def graph_post_def refuse_def)
  qed
next
  case True
  then have deep: "deep (cp_nodes p) (cp_root p)" by (auto simp: core_tree_def dest: unfolds_deep)
  have before: "verify tracing reg p = cbind (type_pass reg p) (verify_whole tracing reg p)"
    using True tree_accepted [of "cp_nodes p" "cp_root p"] check_layouts_iff [of "cp_nodes p"]
    by (simp add: verify_def lift_res_def)
  note pass = type_pass_decides [OF ok deep, of reg "cp_main_type p"]
  show ?thesis
  proof (cases "passes reg p [] (cp_root p)")
    case False
    then have "\<not> verifiable tracing reg p"
      using has_type_passes [of reg p "[]" "cp_root p" _ "[]"] by (auto simp: verifiable_def)
    with pass False before show ?thesis by (auto simp: answers_def)
  next
    case typed: True
    with pass obtain computed where c: "type_pass reg p = done_with computed"
      "has_computed computed (cp_root p) (cp_main_type p) = done_with (stored p (cp_root p) = cp_main_type p)" by auto
    have root: "has_type reg p [] (cp_root p) (S p (cp_root p))" using typed passes_iff by blast
    have closed: "closed_ty (S p (cp_root p))" using has_type_stored [OF root] by simp
    have "stored p (cp_root p) = cp_main_type p \<longleftrightarrow> S p (cp_root p) = T (cp_types p) (cp_main_type p)"
      using stored_eq(1) [OF ok _ closed core_okD(2) [OF ok]] True by simp
    also have "\<dots> \<longleftrightarrow> has_type reg p [] (cp_root p) (T (cp_types p) (cp_main_type p))"
    proof
      show "S p (cp_root p) = T (cp_types p) (cp_main_type p) \<Longrightarrow>
          has_type reg p [] (cp_root p) (T (cp_types p) (cp_main_type p))"
        by (erule subst) (rule root)
    qed (rule has_type_S)
    finally have "verifiable tracing reg p \<longleftrightarrow> stored p (cp_root p) = cp_main_type p \<and> inventory_exact reg p \<and>
        io_unit (T (cp_types p) (cp_main_type p)) \<and> (tracing \<longrightarrow> compiler_evidence_ok reg p)"
      using True unfolding verifiable_def by simp blast
    with verify_whole_answers [OF ok c(2)] before c(1) show ?thesis by simp
  qed
qed

end
