(* ===== verification/Hell_Core_Theorems.thy ===== *)
theory Hell_Core_Theorems
  imports Hell_Core_Verified
begin

text \<open>The theorems about the core verifier, each with a program on which it says something.\<close>

section \<open>A program\<close>

text \<open>An arena that holds given nodes.\<close>

definition arena_of :: "type_node list \<Rightarrow> type_arena" where
  "arena_of ns = \<lparr>t_nodes = ns, t_interned = map_of (zip ns [0..<length ns])\<rparr>"

lemma arena_of_ok:
  assumes "distinct ns" "list_all (\<lambda>n. \<not> is_meta n) ns" "nodes_below ns"
  shows "types_ok (arena_of ns)"
proof -
  have "map_of (zip ns [0..<length ns]) n = Some i \<longleftrightarrow> i < length ns \<and> ns ! i = n" for n i
    using assms(1) by (auto simp: map_of_zip_nth in_set_zip dest!: map_of_SomeD)
  with assms(2,3) show ?thesis
    by (auto simp: types_ok_def type_arena_ok_def arena_of_def vget_Some list_all_length)
qed

text \<open>\<open>main = IO.print 7\<close>, with the evidence that \<open>Int\<close> has an instance of \<open>Show\<close>.\<close>

definition print_types :: "type_node list" where
  "print_types = [TConstructor ''Int'' 0, TConstructor ''()'' 0, TConstructor ''IO'' 5, TApply 2 1, TFunction 0 3]"

definition print_spec :: builtin_spec where
  "print_spec = \<lparr>bs_id = 0, bs_name = ''IO.print'', bs_visibility = PublicName, bs_scheme = Some ''a -> IO ()'',
     bs_arity = 1, bs_demand = [OnIoExecution], bs_fixity = None, bs_wiring = Executable,
     bs_type_class = Some ShowClass, bs_implementation = Some ''io_print''\<rparr>"

definition print_registry :: registry where
  "print_registry = \<lparr>reg_specs = [print_spec],
     reg_instances = [\<lparr>in_class = ShowClass, in_target = ''Int'', in_resolution = Direct 0\<rparr>]\<rparr>"

definition print_nodes :: "nat list \<Rightarrow> core_node list" where
  "print_nodes arguments =
    map (\<lambda>argument. \<lparr>cn_ty = 3, cn_span = span_empty 0 0, cn_kind = CoreApply 1 argument\<rparr>) arguments @
    [\<lparr>cn_ty = 4, cn_span = span_empty 0 0,
       cn_kind = CoreBuiltin 0 (Some \<lparr>ce_class = ShowClass, ce_head = 0, ce_plan = 0\<rparr>)\<rparr>,
     \<lparr>cn_ty = 0, cn_span = span_empty 0 0, cn_kind = CoreConstant (ConstInt 7)\<rparr>]"

text \<open>The argument of the application is the constant, or something else.\<close>

definition print_program :: "nat \<Rightarrow> core_program" where
  "print_program argument = \<lparr>cp_root = 0, cp_nodes = print_nodes [argument], cp_types = arena_of print_types,
     cp_main_type = 3,
     cp_instance_evidence = [\<lparr>ep_class = ShowClass, ep_head = 0, ep_resolution = Direct 0, ep_premises = []\<rparr>],
     cp_compiler_evidence = \<lparr>be_parsed = [0], be_resolved = [0], be_specialized = [0]\<rparr>\<rparr>"

lemma print_program_ok: "argument < 3 \<Longrightarrow> core_ok (print_program argument)"
proof -
  have "types_ok (arena_of print_types)"
    by (rule arena_of_ok) (simp_all add: print_types_def nodes_below_def All_less_Suc)
  then show ?thesis
    by (simp add: core_ok_def print_program_def print_nodes_def arena_of_def print_types_def)
qed

lemma print_program_runs:
  "(case verify True print_registry (print_program 2) of
     Some (Ok x) \<Rightarrow> xp_root x = 0 \<and> xp_nodes x = print_nodes [2] | _ \<Rightarrow> False)"
  by code_simp

lemma shared_program_refused:
  "(case verify True print_registry (print_program 1) of
     Some (Err e) \<Rightarrow> ve_message e = ''shared core node lacks an environment capture key'' \<and> ve_node e = Some 1
   | _ \<Rightarrow> False)"
  by code_simp

section \<open>The theorems\<close>

text \<open>
  C1: The verifier decides well-typed programs.  On every program whose type identifiers
  name types of a well-formed arena it returns without a panic, and seals the program, as it
  is, exactly when it is verifiable: layouts of one nominal type agree, the nodes form a tree,
  the root has the type of \<open>main\<close> in the type system, that type is \<open>IO ()\<close>, and the
  class evidence is exact (under tracing also the compiler's evidence).
\<close>

theorem verify_decides:
  assumes "core_ok p"
  shows "\<exists>r. verify tracing reg p = Some r \<and> r \<noteq> Panic \<and>
    (\<forall>x. r = Ok x \<longleftrightarrow> verifiable tracing reg p \<and> x = seal tracing p)"
  using verify_answers [OF assms, of tracing reg]
  by (auto simp: answers_def done_with_def refuse_def split: if_splits)

theorem verify_decides_witness:
  "verifiable True print_registry (print_program 2) \<and> \<not> verifiable True print_registry (print_program 1)"
proof
  obtain r where r: "verify True print_registry (print_program 2) = Some r"
    "\<forall>x. r = Ok x \<longleftrightarrow> verifiable True print_registry (print_program 2) \<and> x = seal True (print_program 2)"
    using verify_decides [OF print_program_ok [of 2], of True print_registry] by auto
  from print_program_runs r(1) obtain x where "r = Ok x" by (cases r) auto
  with r(2) show "verifiable True print_registry (print_program 2)" by blast
  obtain q where q: "verify True print_registry (print_program 1) = Some q"
    "\<forall>x. q = Ok x \<longleftrightarrow> verifiable True print_registry (print_program 1) \<and> x = seal True (print_program 1)"
    using verify_decides [OF print_program_ok [of 1], of True print_registry] by auto
  from shared_program_refused q(1) have "q \<noteq> Ok x" for x by (cases q) auto
  with q(2) show "\<not> verifiable True print_registry (print_program 1)" by blast
qed

text \<open>
  C23: The graph pass of the verifier returns on every core whose root is a node, never
  panics, and accepts exactly the cores that are trees: the unfolding of the root is finite
  and meets no node twice, so there is no cycle, no shared node and no edge out of bounds.
\<close>

theorem graph_pass_decides_trees:
  assumes "root < length nodes"
  shows "\<exists>r. check_graph nodes root = Some r \<and> r \<noteq> Panic \<and> (r = Ok () \<longleftrightarrow> core_tree nodes root)"
proof -
  obtain r where r: "check_graph nodes root = Some r" "graph_post nodes root r"
    using check_graph_returns [OF assms] by blast
  with tree_accepted [of nodes root] show ?thesis by (auto simp: graph_post_def)
qed

theorem graph_pass_decides_trees_witness:
  "\<exists>r. check_graph (print_nodes [2]) 0 = Some r \<and> r \<noteq> Panic \<and> (r = Ok () \<longleftrightarrow> core_tree (print_nodes [2]) 0)"
  by (rule graph_pass_decides_trees) (simp add: print_nodes_def)

text \<open>
  C15: Accepted class evidence is sound.  On a well-formed arena the check of an evidence
  graph returns without a panic on every graph, cyclic ones included, and when it accepts a
  root, every plan it reached proves an instance of its class for its type by the rules of
  the manifest.
\<close>

theorem evidence_sound:
  assumes "types_ok ar" "list_all (\<lambda>plan. known ar (ep_head plan)) plans"
  shows "\<exists>v. validate_evidence_graph ar instances plans root = Some (Ok v) \<and>
    (\<forall>V. v = Some V \<longrightarrow> root \<in> V \<and>
       (\<forall>i \<in> V. i < length plans \<and> has_instance instances (ep_class (plans ! i)) (T ar (ep_head (plans ! i)))))"
proof -
  have "i < length plans \<and> has_instance instances (ep_class (plans ! i)) (T ar (ep_head (plans ! i)))"
    if "justified ar instances plans root" "(root, i) \<in> (plan_edges plans)\<^sup>*" for i
  proof -
    have "justified ar instances plans i" using justified_reach [OF that(2,1)] .
    with justified_instance [OF assms this] show ?thesis by (auto elim: justified.cases)
  qed
  then show ?thesis
    using validate_evidence_graph_eq [OF assms, of instances root]
    by (auto simp: done_with_def evidence_result_def)
qed

text \<open>\<open>Show (Maybe Int)\<close> from \<open>Show Int\<close>.\<close>

definition maybe_types :: "type_node list" where
  "maybe_types = [TConstructor ''Int'' 0, TConstructor ''Maybe'' 5, TApply 1 0]"

definition show_instances :: "instance_spec list" where
  "show_instances = [\<lparr>in_class = ShowClass, in_target = ''Int'', in_resolution = Direct 0\<rparr>,
     \<lparr>in_class = ShowClass, in_target = ''Maybe'', in_resolution = Entail 1\<rparr>]"

definition maybe_plans :: "evidence_plan list" where
  "maybe_plans = [\<lparr>ep_class = ShowClass, ep_head = 2, ep_resolution = Entail 1, ep_premises = [1]\<rparr>,
     \<lparr>ep_class = ShowClass, ep_head = 0, ep_resolution = Direct 0, ep_premises = []\<rparr>]"

lemma maybe_evidence_accepted:
  "(case validate_evidence_graph (arena_of maybe_types) show_instances maybe_plans 0 of
     Some (Ok (Some V)) \<Rightarrow> 1 \<in> V | _ \<Rightarrow> False)"
  by code_simp

theorem evidence_sound_witness:
  "has_instance show_instances ShowClass (App (Con ''Maybe'' 5) (Con ''Int'' 0))"
proof -
  have "types_ok (arena_of maybe_types)"
    by (rule arena_of_ok) (simp_all add: maybe_types_def nodes_below_def All_less_Suc)
  moreover have "list_all (\<lambda>plan. known (arena_of maybe_types) (ep_head plan)) maybe_plans"
    by (simp add: maybe_plans_def arena_of_def maybe_types_def)
  ultimately obtain V where "0 \<in> V" "\<forall>i \<in> V. has_instance show_instances (ep_class (maybe_plans ! i))
      (T (arena_of maybe_types) (ep_head (maybe_plans ! i)))"
    using evidence_sound [of "arena_of maybe_types" maybe_plans show_instances 0] maybe_evidence_accepted
    by (auto split: res.splits option.splits)
  then have "has_instance show_instances ShowClass (T (arena_of maybe_types) 2)"
    by (fastforce simp: maybe_plans_def)
  then show ?thesis by (simp add: arena_of_def maybe_types_def tree.simps)
qed

text \<open>
  The tables of the registry fit together: a builtin has a type class exactly when there
  is a path from its type to the type that the class constrains.  Without the path the
  verifier would refuse every use of the builtin, without the class it would accept no evidence.
\<close>

theorem constrained_builtins_have_heads:
  "builtin_type_class name = None \<longleftrightarrow> instance_head_projection name = None"
  by (simp add: builtin_type_class_def instance_head_projection_def)

end
