(* ===== verification/Hell_Positional.thy ===== *)
theory Hell_Positional
  imports Hell_Prelude
begin

text \<open>
  Positional notation: the number a list of digits stands for, least significant first,
  in any base of at least two.  The integers of the guest use it twice, for their limbs
  (base \<open>10 ^ 9\<close>) and for the decimal text they are read from and printed to, and each
  use is an interpretation.
\<close>

section \<open>Canonical lists of digits\<close>

text \<open>No zero at the most significant end.\<close>

fun canonical :: "('a \<Rightarrow> nat) \<Rightarrow> 'a list \<Rightarrow> bool" where
  "canonical digit [] = True"
| "canonical digit (x # xs) = (if xs = [] then digit x \<noteq> 0 else canonical digit xs)"

lemma canonical_last: "canonical digit xs \<longleftrightarrow> xs = [] \<or> digit (last xs) \<noteq> 0"
  by (induction xs) auto

lemma canonical_tl: "canonical digit (x # xs) \<Longrightarrow> canonical digit xs"
  by (cases xs) auto

text \<open>Zeros at the most significant end stand for nothing.\<close>

fun strip_zeros :: "('a \<Rightarrow> nat) \<Rightarrow> 'a list \<Rightarrow> 'a list" where
  "strip_zeros digit [] = []"
| "strip_zeros digit (x # xs) =
    (let rest = strip_zeros digit xs in if rest = [] \<and> digit x = 0 then [] else x # rest)"

lemma strip_zeros_canonical: "canonical digit (strip_zeros digit xs)"
  by (induction xs) (auto simp: Let_def)

lemma strip_zeros_set: "set (strip_zeros digit xs) \<subseteq> set xs"
  by (induction xs) (auto simp: Let_def)

lemma strip_zeros_id: "canonical digit xs \<Longrightarrow> strip_zeros digit xs = xs"
  by (induction xs) (auto split: if_splits)

text \<open>A three-way comparison, as \<open>Ord::cmp\<close> returns it.\<close>

datatype ordering = Less | Equal | Greater

definition compare :: "'a::linorder \<Rightarrow> 'a \<Rightarrow> ordering" where
  "compare a b = (if a < b then Less else if a = b then Equal else Greater)"

text \<open>Lexicographic comparison of sequences, as \<open>Iterator::cmp\<close>.\<close>

fun compare_lex :: "'a::linorder list \<Rightarrow> 'a list \<Rightarrow> ordering" where
  "compare_lex [] [] = Equal"
| "compare_lex [] (y # ys) = Less"
| "compare_lex (x # xs) [] = Greater"
| "compare_lex (x # xs) (y # ys) = (if x < y then Less else if x = y then compare_lex xs ys else Greater)"

lemma compare_lex_snoc:
  "length xs = length ys \<Longrightarrow> compare_lex (xs @ [x]) (ys @ [y]) =
    (case compare_lex xs ys of Equal \<Rightarrow> compare x y | r \<Rightarrow> r)"
  by (induction xs ys rule: list_induct2) (auto simp: compare_def split: ordering.splits)

section \<open>Values\<close>

locale positional =
  fixes digit :: "'a \<Rightarrow> nat" and base :: nat
  assumes base: "2 \<le> base"
begin

abbreviation val :: "'a list \<Rightarrow> nat" where
  "val xs \<equiv> horner_sum digit base xs"

abbreviation digits :: "'a list \<Rightarrow> bool" where
  "digits xs \<equiv> \<forall>x\<in>set xs. digit x < base"

lemma val_bound: "digits xs \<Longrightarrow> val xs < base ^ length xs"
proof (induction xs)
  case (Cons x xs)
  then have "digit x < base" "val xs + 1 \<le> base ^ length xs" by auto
  then have "digit x + base * val xs < base * (val xs + 1)" by simp
  also have "\<dots> \<le> base * base ^ length xs"
    using \<open>val xs + 1 \<le> base ^ length xs\<close> by (rule mult_le_mono2)
  finally show ?case by simp
qed simp

lemma val_append: "val (xs @ ys) = val xs + base ^ length xs * val ys"
  by (rule horner_sum_append)

lemma val_zeros: "\<forall>x\<in>set xs. digit x = 0 \<Longrightarrow> val xs = 0"
  by (induction xs) auto

text \<open>A digit replaced, with both sides kept positive.\<close>

lemma val_update:
  "i < length xs \<Longrightarrow> val (xs[i := y]) + digit (xs ! i) * base ^ i = val xs + digit y * base ^ i"
proof (induction xs arbitrary: i)
  case (Cons x xs)
  show ?case
  proof (cases i)
    case (Suc j)
    with Cons have "val (xs[j := y]) + digit (xs ! j) * base ^ j = val xs + digit y * base ^ j" by simp
    then have "base * (val (xs[j := y]) + digit (xs ! j) * base ^ j) = base * (val xs + digit y * base ^ j)"
      by simp
    with Suc show ?thesis by (simp add: algebra_simps)
  qed simp
qed simp

lemma val_take_Suc: "i < length xs \<Longrightarrow> val (take (Suc i) xs) = val (take i xs) + base ^ i * digit (xs ! i)"
  by (simp add: take_Suc_conv_app_nth val_append)

lemma val_drop: "i < length xs \<Longrightarrow> val (drop i xs) = digit (xs ! i) + base * val (drop (Suc i) xs)"
  by (simp add: Cons_nth_drop_Suc [symmetric])

lemma val_strip: "val (strip_zeros digit xs) = val xs"
  by (induction xs) (auto simp: Let_def dest!: arg_cong [where f = val])

lemma val_eq_0: "canonical digit xs \<Longrightarrow> val xs = 0 \<longleftrightarrow> xs = []"
proof (induction xs)
  case (Cons x xs)
  then show ?case using base by (auto split: if_splits)
qed simp

text \<open>The list of digits of a number is unique, and the order of the numbers is read off it.\<close>

lemma val_length:
  assumes "digits xs" "canonical digit ys" "length xs < length ys"
  shows "val xs < val ys"
proof -
  from assms(2,3) obtain zs z where ys: "ys = zs @ [z]" "digit z \<noteq> 0"
    by (metis canonical_last append_butlast_last_id length_0_conv not_less_zero)
  then have "base ^ length zs \<le> val ys" by (simp add: val_append trans_le_add2)
  moreover have "base ^ length xs \<le> base ^ length zs"
    using ys assms(3) base by (intro power_increasing) auto
  moreover note val_bound [OF assms(1)]
  ultimately show ?thesis by linarith
qed

lemma val_lex:
  assumes "length xs = length ys" "digits xs" "digits ys"
  shows "compare_lex (map digit (rev xs)) (map digit (rev ys)) = compare (val xs) (val ys)"
  using assms
proof (induction xs ys rule: list_induct2)
  case (Cons x xs y ys)
  have *: "compare (digit x + base * a) (digit y + base * b) =
      (case compare a b of Equal \<Rightarrow> compare (digit x) (digit y) | r \<Rightarrow> r)" for a b
  proof -
    have "digit x + base * a < digit y + base * b" if "a < b" "digit x < base" for a b x y
    proof -
      from \<open>a < b\<close> have "base * (a + 1) \<le> base * b" by (intro mult_le_mono2) simp
      with that show ?thesis by (simp add: algebra_simps)
    qed
    from this [of a b x y] this [of b a y x] Cons.prems show ?thesis
      by (auto simp: compare_def)
  qed
  from Cons show ?case by (simp add: compare_lex_snoc *)
qed (simp add: compare_def)

lemma val_compare:
  assumes "digits xs" "digits ys" "canonical digit xs" "canonical digit ys"
  shows "compare (val xs) (val ys) =
    (case compare (length xs) (length ys) of
       Equal \<Rightarrow> compare_lex (map digit (rev xs)) (map digit (rev ys)) | r \<Rightarrow> r)"
  using val_length [of xs ys] val_length [of ys xs] val_lex [of xs ys] assms
  by (cases "length xs" "length ys" rule: linorder_cases) (auto simp: compare_def)

end

end
