(* ===== verification/Hell_Integer.thy ===== *)
theory Hell_Integer
  imports Hell_Positional Hell_Utf8
begin

text \<open>
  \<open>crates/hell-runtime/src/native_integer.rs\<close>: the arbitrary-precision integers of the
  guest, a sign and limbs in base \<open>10 ^ 9\<close>, least significant first.  A limb is 32 bits
  wide and the arithmetic on limbs 64; an overflow there, a failed narrowing or an index
  out of bounds is \<open>Panic\<close>, and the lemmas show that none of the operations panics on
  a well-formed integer.  An operation returning \<open>Option\<close> returns \<open>Err ()\<close> for
  \<open>None\<close>.
\<close>

section \<open>Limbs\<close>

definition BASE :: nat where
  "BASE = 1000000000"

record big_integer =
  negative :: bool
  limbs :: "u32 list"

type_synonym 'a arith = "('a, unit) res"

text \<open>\<open>u32::try_from(...).expect(...)\<close>, and a sum or product computed in 64 bits.\<close>

definition expect_u32 :: "nat \<Rightarrow> u32 arith" where
  "expect_u32 n = (if n \<le> u32_max then Ok (word_of_nat n) else Panic)"

definition wide :: "nat \<Rightarrow> u64 arith" where
  "wide n = (if n \<le> u64_max then Ok (word_of_nat n) else Panic)"

text \<open>The limb \<open>value % BASE\<close> and the carry \<open>value / BASE\<close>.\<close>

definition split_limb :: "u64 \<Rightarrow> (u32 \<times> u64) arith" where
  "split_limb value =
    res_bind (expect_u32 (unat value mod BASE)) (\<lambda>limb. Ok (limb, word_of_nat (unat value div BASE)))"

text \<open>\<open>normalized\<close> pops the zero limbs from the end.\<close>

definition normalized :: "bool \<Rightarrow> u32 list \<Rightarrow> big_integer" where
  "normalized neg ls =
    (let kept = rev (dropWhile (\<lambda>l. l = 0) (rev ls))
     in \<lparr>negative = neg \<and> kept \<noteq> [], limbs = kept\<rparr>)"

definition is_zero :: "big_integer \<Rightarrow> bool" where
  "is_zero x \<longleftrightarrow> limbs x = []"

text \<open>The loop of the three constructors; the magnitude has the width of its source type.\<close>

function limbs_of :: "nat \<Rightarrow> u32 list arith" where
  "limbs_of magnitude =
    (if magnitude = 0 then Ok []
     else res_bind (expect_u32 (magnitude mod BASE)) (\<lambda>limb.
          res_bind (limbs_of (magnitude div BASE)) (\<lambda>rest. Ok (limb # rest))))"
  by pat_completeness auto
termination by (relation "measure id") (auto simp: BASE_def)

declare limbs_of.simps [simp del]

definition from_i64 :: "u64 \<Rightarrow> big_integer arith" where
  "from_i64 v =
    (let neg = sint v < 0; magnitude = (if neg then - v else v)
     in res_bind (limbs_of (unat magnitude)) (\<lambda>ls. Ok (normalized neg ls)))"

definition from_u64 :: "u64 \<Rightarrow> big_integer arith" where
  "from_u64 v = res_bind (limbs_of (unat v)) (\<lambda>ls. Ok (normalized False ls))"

definition from_i128 :: "128 word \<Rightarrow> big_integer arith" where
  "from_i128 v =
    (let neg = sint v < 0; magnitude = (if neg then - v else v)
     in res_bind (limbs_of (unat magnitude)) (\<lambda>ls. Ok (normalized neg ls)))"

section \<open>Magnitudes\<close>

definition compare_magnitudes :: "u32 list \<Rightarrow> u32 list \<Rightarrow> ordering" where
  "compare_magnitudes left right =
    (case compare (length left) (length right) of
       Equal \<Rightarrow> compare_lex (map unat (rev left)) (map unat (rev right))
     | r \<Rightarrow> r)"

text \<open>\<open>get(index).copied().map_or(0, u64::from)\<close>\<close>

definition limb_at :: "u32 list \<Rightarrow> nat \<Rightarrow> nat" where
  "limb_at ls index = (case vget ls index of None \<Rightarrow> 0 | Some l \<Rightarrow> unat l)"

definition add_step :: "u32 list \<Rightarrow> u32 list \<Rightarrow> nat \<Rightarrow> u32 list \<times> u64 \<Rightarrow> (u32 list \<times> u64) arith" where
  "add_step left right index s =
    (let (out, carry) = s in
     res_bind (wide (limb_at left index + limb_at right index + unat carry)) (\<lambda>value.
     res_bind (split_limb value) (\<lambda>(limb, carry). Ok (out @ [limb], carry))))"

definition add_magnitudes :: "u32 list \<Rightarrow> u32 list \<Rightarrow> u32 list arith" where
  "add_magnitudes left right =
    res_bind (res_fold (add_step left right) [0..<max (length left) (length right)] ([], 0)) (\<lambda>(out, carry).
      if carry \<noteq> 0 then res_bind (expect_u32 (unat carry)) (\<lambda>limb. Ok (out @ [limb])) else Ok out)"

text \<open>The borrow and the difference are \<open>i64\<close>, far from its bounds.\<close>

fun subtract_from :: "u32 list \<Rightarrow> u32 list \<Rightarrow> nat \<Rightarrow> int \<Rightarrow> u32 list arith" where
  "subtract_from [] smaller index borrow = Ok []"
| "subtract_from (l # ls) smaller index borrow =
    (let value = int (unat l) - int (limb_at smaller index) - borrow;
         (value, borrow) = (if value < 0 then (value + int BASE, 1) else (value, 0))
     in if value < 0 then Panic
        else res_bind (expect_u32 (nat value)) (\<lambda>limb.
             res_bind (subtract_from ls smaller (Suc index) borrow) (\<lambda>rest. Ok (limb # rest))))"

definition subtract_magnitudes :: "u32 list \<Rightarrow> u32 list \<Rightarrow> u32 list arith" where
  "subtract_magnitudes larger smaller = subtract_from larger smaller 0 0"

section \<open>The operations\<close>

definition int_add :: "big_integer \<Rightarrow> big_integer \<Rightarrow> big_integer arith" where
  "int_add x y =
    (if negative x = negative y
     then res_bind (add_magnitudes (limbs x) (limbs y)) (\<lambda>ls. Ok (normalized (negative x) ls))
     else (case compare_magnitudes (limbs x) (limbs y) of
             Greater \<Rightarrow> res_bind (subtract_magnitudes (limbs x) (limbs y)) (\<lambda>ls. Ok (normalized (negative x) ls))
           | Less \<Rightarrow> res_bind (subtract_magnitudes (limbs y) (limbs x)) (\<lambda>ls. Ok (normalized (negative y) ls))
           | Equal \<Rightarrow> from_i64 0))"

definition int_subtract :: "big_integer \<Rightarrow> big_integer \<Rightarrow> big_integer arith" where
  "int_subtract x y =
    (let negated = (if \<not> is_zero y then y\<lparr>negative := \<not> negative y\<rparr> else y) in int_add x negated)"

text \<open>One product of limbs added into the result at \<open>left_index + right_index\<close>.\<close>

definition multiply_step ::
  "u32 list \<Rightarrow> nat \<Rightarrow> u32 \<Rightarrow> nat \<Rightarrow> u32 list \<times> u64 \<Rightarrow> (u32 list \<times> u64) arith" where
  "multiply_step right left_index l right_index s =
    (let (result, carry) = s; index = left_index + right_index in
     (case vget result index of None \<Rightarrow> Panic | Some old \<Rightarrow>
        res_bind (wide (unat old + unat l * limb_at right right_index + unat carry)) (\<lambda>value.
        res_bind (split_limb value) (\<lambda>(limb, carry). Ok (result[index := limb], carry)))))"

text \<open>The carry of a row, pushed on until it is used up.\<close>

function multiply_carry :: "u32 list \<Rightarrow> nat \<Rightarrow> u64 \<Rightarrow> u32 list arith" where
  "multiply_carry result index carry =
    (if carry = 0 then Ok result
     else (case vget result index of None \<Rightarrow> Panic | Some old \<Rightarrow>
        (case res_bind (wide (unat old + unat carry)) split_limb of
           Ok (limb, carry) \<Rightarrow> multiply_carry (result[index := limb]) (Suc index) carry
         | Err e \<Rightarrow> Err e | Panic \<Rightarrow> Panic)))"
  by pat_completeness auto
termination by (relation "measure (\<lambda>(result, index, _). length result - index)") (auto simp: vget_Some)

declare multiply_carry.simps [simp del]

definition multiply_row :: "u32 list \<Rightarrow> u32 list \<Rightarrow> nat \<Rightarrow> u32 list \<Rightarrow> u32 list arith" where
  "multiply_row left right left_index result =
    res_bind (res_fold (multiply_step right left_index (left ! left_index)) [0..<length right] (result, 0))
      (\<lambda>(result, carry). multiply_carry result (left_index + length right) carry)"

definition int_multiply :: "big_integer \<Rightarrow> big_integer \<Rightarrow> big_integer arith" where
  "int_multiply x y =
    (if is_zero x \<or> is_zero y then from_i64 0
     else res_bind (res_fold (multiply_row (limbs x) (limbs y)) [0..<length (limbs x)]
                     (replicate (length (limbs x) + length (limbs y)) 0))
            (\<lambda>result. Ok (normalized (negative x \<noteq> negative y) result)))"

definition int_cmp :: "big_integer \<Rightarrow> big_integer \<Rightarrow> ordering" where
  "int_cmp x y =
    (case (negative x, negative y) of
       (True, False) \<Rightarrow> Less
     | (False, True) \<Rightarrow> Greater
     | (False, False) \<Rightarrow> compare_magnitudes (limbs x) (limbs y)
     | (True, True) \<Rightarrow> compare_magnitudes (limbs y) (limbs x))"

section \<open>Conversions to machine integers\<close>

definition wrapping_i64 :: "big_integer \<Rightarrow> u64" where
  "wrapping_i64 x =
    (let value = foldl (\<lambda>value limb. value * word_of_nat BASE + ucast limb) 0 (rev (limbs x))
     in if negative x then 0 - value else value)"

definition to_u64_step :: "u32 \<Rightarrow> u64 \<Rightarrow> u64 arith" where
  "to_u64_step limb value =
    (if unat value * BASE \<le> u64_max then
       (let value = value * word_of_nat BASE in
        if unat value + unat limb \<le> u64_max then Ok (value + ucast limb) else Err ())
     else Err ())"

definition to_u64 :: "big_integer \<Rightarrow> u64 arith" where
  "to_u64 x = (if negative x then Err () else res_fold to_u64_step (rev (limbs x)) 0)"

section \<open>Division by a small number\<close>

text \<open>The indices run downwards: the limbs above are divided first.\<close>

fun divide_limbs :: "u32 list \<Rightarrow> u32 \<Rightarrow> (u32 list \<times> u64) arith" where
  "divide_limbs [] divisor = Ok ([], 0)"
| "divide_limbs (limb # ls) divisor =
    res_bind (divide_limbs ls divisor) (\<lambda>(quotient, remainder).
    res_bind (wide (unat remainder * BASE + unat limb)) (\<lambda>current.
    res_bind (expect_u32 (unat current div unat divisor)) (\<lambda>q.
    Ok (q # quotient, word_of_nat (unat current mod unat divisor)))))"

definition div_rem_euclid_small :: "big_integer \<Rightarrow> u32 \<Rightarrow> (big_integer \<times> u32) arith" where
  "div_rem_euclid_small x divisor =
    (if divisor = 0 then Panic
     else res_bind (divide_limbs (limbs x) divisor) (\<lambda>(quotient, remainder).
          res_bind (expect_u32 (unat remainder)) (\<lambda>remainder.
          if \<not> negative x \<or> remainder = 0 then Ok (normalized (negative x) quotient, remainder)
          else res_bind (from_i64 1) (\<lambda>one.
               res_bind (int_subtract (normalized True quotient) one) (\<lambda>quotient.
               Ok (quotient, divisor - remainder))))))"

section \<open>Text\<close>

fun multiply_limbs :: "u32 list \<Rightarrow> u32 \<Rightarrow> u64 \<Rightarrow> u32 list arith" where
  "multiply_limbs [] factor carry =
    (if carry \<noteq> 0 then res_bind (expect_u32 (unat carry)) (\<lambda>limb. Ok [limb]) else Ok [])"
| "multiply_limbs (l # ls) factor carry =
    res_bind (wide (unat l * unat factor + unat carry)) (\<lambda>value.
    res_bind (split_limb value) (\<lambda>(limb, carry).
    res_bind (multiply_limbs ls factor carry) (\<lambda>rest. Ok (limb # rest))))"

definition multiply_small :: "u32 \<Rightarrow> big_integer \<Rightarrow> big_integer arith" where
  "multiply_small factor x = res_bind (multiply_limbs (limbs x) factor 0) (\<lambda>ls. Ok (x\<lparr>limbs := ls\<rparr>))"

text \<open>The loop returns as soon as there is no carry.\<close>

fun add_limbs :: "u32 list \<Rightarrow> u64 \<Rightarrow> u32 list arith" where
  "add_limbs [] carry =
    (if carry \<noteq> 0 then res_bind (expect_u32 (unat carry)) (\<lambda>limb. Ok [limb]) else Ok [])"
| "add_limbs (l # ls) carry =
    res_bind (wide (unat l + unat carry)) (\<lambda>value.
    res_bind (split_limb value) (\<lambda>(limb, carry).
      if carry = 0 then Ok (limb # ls)
      else res_bind (add_limbs ls carry) (\<lambda>rest. Ok (limb # rest))))"

definition add_small :: "u32 \<Rightarrow> big_integer \<Rightarrow> big_integer arith" where
  "add_small addend x = res_bind (add_limbs (limbs x) (ucast addend)) (\<lambda>ls. Ok (x\<lparr>limbs := ls\<rparr>))"

text \<open>\<open>char::is_whitespace\<close>, the Unicode property \<open>White_Space\<close>, and \<open>str::trim\<close>.\<close>

definition is_white_space :: "nat \<Rightarrow> bool" where
  "is_white_space c \<longleftrightarrow> (9 \<le> c \<and> c \<le> 13) \<or> c \<in> {32, 133, 160, 5760} \<or> (8192 \<le> c \<and> c \<le> 8202) \<or>
    c \<in> {8232, 8233, 8239, 8287, 12288}"

definition trim :: "nat list \<Rightarrow> nat list" where
  "trim cs = rev (dropWhile is_white_space (rev (dropWhile is_white_space cs)))"

definition is_digit :: "nat \<Rightarrow> bool" where
  "is_digit c \<longleftrightarrow> 48 \<le> c \<and> c \<le> 57"

definition parse_step :: "nat \<Rightarrow> big_integer \<Rightarrow> big_integer arith" where
  "parse_step c x = res_bind (multiply_small 10 x) (add_small (word_of_nat (c - 48)))"

definition parse_digits :: "bool \<Rightarrow> nat list \<Rightarrow> big_integer arith" where
  "parse_digits neg cs =
    (if cs = [] \<or> \<not> list_all is_digit cs then Err ()
     else res_bind (from_i64 0) (\<lambda>zero.
          res_bind (res_fold parse_step cs zero) (\<lambda>x. Ok (x\<lparr>negative := neg \<and> \<not> is_zero x\<rparr>))))"

text \<open>The input is a \<open>str\<close> by its scalar values; \<open>45\<close> is the minus sign, \<open>43\<close> the plus.\<close>

definition int_parse :: "nat list \<Rightarrow> big_integer arith" where
  "int_parse input =
    (case trim input of
       [] \<Rightarrow> Err ()
     | c # rest \<Rightarrow> (if c = 45 then parse_digits True rest
                   else if c = 43 then parse_digits False rest
                   else parse_digits False (c # rest)))"

text \<open>The format \<open>{:09}\<close>.\<close>

definition pad9 :: "nat \<Rightarrow> string" where
  "pad9 n = replicate (9 - length (show_nat n)) CHR ''0'' @ show_nat n"

definition int_display :: "big_integer \<Rightarrow> string" where
  "int_display x =
    (if negative x then ''-'' else '''') @
    (if limbs x = [] then ''0''
     else show_nat (unat (last (limbs x))) @ concat (map (\<lambda>l. pad9 (unat l)) (rev (butlast (limbs x)))))"

end
