(* ===== verification/Hell_Integer_Arith.thy ===== *)
theory Hell_Integer_Arith
  imports Hell_Integer
begin

text \<open>
  The arithmetic of \<open>Hell_Integer\<close> against the integers: what a big integer stands for
  (\<open>int_of\<close>), when its representation is canonical (\<open>well_formed\<close>), and, for every
  operation, that on well-formed operands it does not panic, keeps well-formedness and
  computes the exact result.
\<close>

section \<open>What a big integer stands for\<close>

interpretation limb: positional unat BASE
  by unfold_locales (simp add: BASE_def)

abbreviation magnitude :: "u32 list \<Rightarrow> nat" where
  "magnitude ls \<equiv> horner_sum unat BASE ls"

abbreviation limbs_ok :: "u32 list \<Rightarrow> bool" where
  "limbs_ok ls \<equiv> \<forall>l\<in>set ls. unat l < BASE"

definition well_formed :: "big_integer \<Rightarrow> bool" where
  "well_formed x \<longleftrightarrow> limbs_ok (limbs x) \<and> canonical unat (limbs x) \<and> (negative x \<longrightarrow> limbs x \<noteq> [])"

definition int_of :: "big_integer \<Rightarrow> int" where
  "int_of x = (if negative x then - int (magnitude (limbs x)) else int (magnitude (limbs x)))"

section \<open>Narrowing and splitting\<close>

lemma unat_u32 [simp]: "n \<le> u32_max \<Longrightarrow> unat (word_of_nat n :: u32) = n"
  by (simp add: u32_max_def unat_of_nat)

lemma unat_u64 [simp]: "n \<le> u64_max \<Longrightarrow> unat (word_of_nat n :: u64) = n"
  by (simp add: u64_max_def unat_of_nat)

lemma u32_range: "unat (d :: u32) \<le> u32_max"
proof -
  have "unat d < 2 ^ LENGTH(32)" by (rule unsigned_less)
  then show ?thesis by (simp add: u32_max_def)
qed

lemma unat_widen [simp]: "unat (ucast (d :: u32) :: u64) = unat d"
proof -
  have "unat d \<le> u64_max" using u32_range [of d] by (simp add: u32_max_def u64_max_def)
  moreover have "ucast d = (word_of_nat (unat d) :: u64)" by simp
  ultimately show ?thesis by (simp only: unat_u64)
qed

lemma BASE_bounds: "0 < BASE" "BASE \<le> u32_max" "BASE * BASE \<le> u64_max" "n mod BASE < BASE"
  by (simp_all add: BASE_def u32_max_def u64_max_def)

lemma expect_below: "n \<le> u32_max \<Longrightarrow> expect_u32 n = Ok (word_of_nat n)"
  by (simp add: expect_u32_def)

lemma expect_ok: "n \<le> u32_max \<Longrightarrow> \<exists>d. expect_u32 n = Ok d \<and> unat d = n"
  by (simp add: expect_u32_def)

definition lo :: "nat \<Rightarrow> u32" where
  "lo n = word_of_nat (n mod BASE)"

definition hi :: "nat \<Rightarrow> u64" where
  "hi n = word_of_nat (n div BASE)"

lemma unat_lo [simp]: "unat (lo n) = n mod BASE"
  using BASE_bounds(2) BASE_bounds(4) [of n] by (simp add: lo_def)

lemma unat_hi [simp]: "n \<le> u64_max \<Longrightarrow> unat (hi n) = n div BASE"
  by (simp add: hi_def order_trans [OF div_le_dividend])

lemma wide_split [simp]:
  "n \<le> u64_max \<Longrightarrow> res_bind (wide n) (\<lambda>v. res_bind (split_limb v) f) = f (lo n, hi n)"
  using BASE_bounds(2) BASE_bounds(4) [of n]
  by (simp add: wide_def split_limb_def expect_below lo_def hi_def)

lemma wide_split' [simp]: "n \<le> u64_max \<Longrightarrow> res_bind (wide n) split_limb = Ok (lo n, hi n)"
  using BASE_bounds(2) BASE_bounds(4) [of n]
  by (simp add: wide_def split_limb_def expect_below lo_def hi_def)

lemma split_sum: "p * (n mod BASE) + p * BASE * (n div BASE) = p * n"
proof -
  have "p * n = p * (BASE * (n div BASE) + n mod BASE)" by (simp only: mult_div_mod_eq)
  then show ?thesis by (simp only: distrib_left mult.assoc add.commute)
qed

lemma limb_at_simps [simp]:
  "i < length ls \<Longrightarrow> limb_at ls i = unat (ls ! i)" "length ls \<le> i \<Longrightarrow> limb_at ls i = 0"
  by (simp_all add: limb_at_def vget_def)

lemma limb_at_bound: "limbs_ok ls \<Longrightarrow> limb_at ls i < BASE"
  using BASE_bounds(1) by (cases "i < length ls") auto

lemma magnitude_take_Suc: "magnitude (take (Suc i) ls) = magnitude (take i ls) + BASE ^ i * limb_at ls i"
  by (cases "i < length ls") (auto simp: limb.val_take_Suc)

lemma magnitude_drop: "magnitude (drop i ls) = limb_at ls i + BASE * magnitude (drop (Suc i) ls)"
  by (cases "i < length ls") (auto simp: limb.val_drop)

section \<open>Normal forms\<close>

lemma kept_eq: "rev (dropWhile (\<lambda>l. l = 0) (rev ls)) = strip_zeros unat ls"
proof (induction ls)
  case (Cons l ls)
  show ?case
  proof (cases "\<exists>x\<in>set ls. x \<noteq> 0")
    case True
    then obtain x where x: "x \<in> set (rev ls)" "x \<noteq> 0" by auto
    then have "rev (dropWhile (\<lambda>l. l = 0) (rev ls)) \<noteq> []" by (auto simp: dropWhile_eq_Nil_conv)
    with x Cons show ?thesis by (simp add: dropWhile_append1 [OF x(1)] Let_def)
  next
    case False
    then have *: "dropWhile (\<lambda>l. l = 0) (rev ls) = []" by (simp add: dropWhile_eq_Nil_conv)
    then have "strip_zeros unat ls = []" unfolding Cons [symmetric] by simp
    moreover have "dropWhile (\<lambda>l. l = 0) (rev ls @ [l]) = dropWhile (\<lambda>l. l = 0) [l]"
      using False by (intro dropWhile_append2) auto
    ultimately show ?thesis by (simp add: unat_eq_0)
  qed
qed simp

lemma normalized_eq:
  "normalized neg ls = \<lparr>negative = neg \<and> strip_zeros unat ls \<noteq> [], limbs = strip_zeros unat ls\<rparr>"
  by (simp add: normalized_def kept_eq Let_def)

lemma normalized_wf: "limbs_ok ls \<Longrightarrow> well_formed (normalized neg ls)"
  using strip_zeros_set [of unat ls] by (auto simp: well_formed_def normalized_eq strip_zeros_canonical)

lemma normalized_int:
  "int_of (normalized neg ls) = (if neg then - int (magnitude ls) else int (magnitude ls))"
  using limb.val_strip [of ls] by (auto simp: int_of_def normalized_eq)

lemma limbs_of_ok: "\<exists>ls. limbs_of n = Ok ls \<and> limbs_ok ls \<and> magnitude ls = n"
proof (induction n rule: limbs_of.induct)
  case (1 n)
  show ?case
  proof (cases "n = 0")
    case False
    from 1 [OF False] obtain ls where ls: "limbs_of (n div BASE) = Ok ls" "limbs_ok ls" "magnitude ls = n div BASE"
      using expect_below [of "n mod BASE"] BASE_bounds(2) BASE_bounds(4) [of n] by fastforce
    with False BASE_bounds(2) BASE_bounds(4) [of n] show ?thesis
      by (subst limbs_of.simps) (simp add: expect_below)
  qed (simp add: limbs_of.simps)
qed

lemma from_parts:
  assumes "0 \<le> v \<longleftrightarrow> \<not> neg" "n = nat \<bar>v\<bar>"
  shows "\<exists>x. res_bind (limbs_of n) (\<lambda>ls. Ok (normalized neg ls)) = Ok x \<and> well_formed x \<and> int_of x = v"
  using limbs_of_ok [of n] assms by (auto simp: normalized_wf normalized_int)

lemma uint_in_range:
  fixes v :: "'a::len word"
  assumes "v = word_of_int k" "0 \<le> k" "k < 2 ^ LENGTH('a)"
  shows "unat v = nat k"
proof -
  have "uint v = k" using assms by (simp add: uint_word_of_int_eq take_bit_int_eq_self)
  then show ?thesis by (simp add: unat_eq_nat_uint)
qed

lemma sint_range:
  fixes v :: "'a::len word"
  shows "\<bar>sint v\<bar> < 2 ^ LENGTH('a)"
proof -
  have *: "(2::int) ^ LENGTH('a) = 2 * 2 ^ (LENGTH('a) - 1)" by (simp flip: power_Suc)
  have "(0::int) < 2 ^ (LENGTH('a) - 1)" by simp
  then show ?thesis using sint_lt [of v] sint_ge [of v] unfolding * by linarith
qed

lemma magnitude_of_sint:
  fixes v :: "'a::len word"
  shows "unat (if sint v < 0 then - v else v) = nat \<bar>sint v\<bar>"
  using sint_range [of v] uint_in_range [of "- v" "- sint v"] uint_in_range [of v "sint v"] by auto

lemma from_i64_ok: "\<exists>x. from_i64 v = Ok x \<and> well_formed x \<and> int_of x = sint v"
  unfolding from_i64_def Let_def by (rule from_parts) (simp_all add: not_less magnitude_of_sint)

lemma from_i128_ok: "\<exists>x. from_i128 v = Ok x \<and> well_formed x \<and> int_of x = sint v"
  unfolding from_i128_def Let_def by (rule from_parts) (simp_all add: not_less magnitude_of_sint)

lemma from_u64_ok: "\<exists>x. from_u64 v = Ok x \<and> well_formed x \<and> int_of x = int (unat v)"
  using from_parts [of "int (unat v)" False "unat v"] by (auto simp: from_u64_def)

section \<open>Comparison\<close>

lemma compare_magnitudes_eq:
  assumes "limbs_ok a" "limbs_ok b" "canonical unat a" "canonical unat b"
  shows "compare_magnitudes a b = compare (magnitude a) (magnitude b)"
  using limb.val_compare [OF assms] by (simp add: compare_magnitudes_def)

lemma int_cmp_ok:
  assumes "well_formed x" "well_formed y"
  shows "int_cmp x y = compare (int_of x) (int_of y)"
proof -
  have "compare_magnitudes (limbs x) (limbs y) = compare (magnitude (limbs x)) (magnitude (limbs y))"
    "compare_magnitudes (limbs y) (limbs x) = compare (magnitude (limbs y)) (magnitude (limbs x))"
    using assms by (auto simp: well_formed_def intro!: compare_magnitudes_eq)
  moreover have "negative x \<Longrightarrow> 0 < magnitude (limbs x)" "negative y \<Longrightarrow> 0 < magnitude (limbs y)"
    using assms limb.val_eq_0 [of "limbs x"] limb.val_eq_0 [of "limbs y"] by (auto simp: well_formed_def)
  ultimately show ?thesis
    by (cases "negative x"; cases "negative y") (auto simp: int_cmp_def int_of_def compare_def)
qed

lemma compare_Equal: "compare a b = Equal \<longleftrightarrow> a = b"
  by (auto simp: compare_def)

lemma canonical_unique:
  assumes "limbs_ok a" "limbs_ok b" "canonical unat a" "canonical unat b" "magnitude a = magnitude b"
  shows "a = b"
  using assms
proof (induction a arbitrary: b)
  case Nil
  then show ?case using limb.val_eq_0 [of b] by simp
next
  case (Cons l ls)
  show ?case
  proof (cases b)
    case Nil
    with Cons.prems show ?thesis using limb.val_eq_0 [of "l # ls"] by simp
  next
    case (Cons m ms)
    with Cons.prems have eq: "unat l + BASE * magnitude ls = unat m + BASE * magnitude ms"
      and lt: "unat l < BASE" "unat m < BASE" by simp_all
    from arg_cong [where f = "\<lambda>n. n mod BASE", OF eq] lt have "unat l = unat m" by simp
    with eq BASE_bounds(1) have "l = m" "magnitude ls = magnitude ms" by (auto simp: unsigned_word_eqI)
    with Cons Cons.prems Cons.IH [of ms] show ?thesis
      by (auto simp: canonical_tl dest!: canonical_tl)
  qed
qed

lemma int_of_unique:
  assumes "well_formed x" "well_formed y"
  shows "int_of x = int_of y \<longleftrightarrow> x = y"
proof
  assume eq: "int_of x = int_of y"
  have pos: "negative z \<Longrightarrow> 0 < magnitude (limbs z)" if "well_formed z" for z
    using that limb.val_eq_0 [of "limbs z"] by (auto simp: well_formed_def)
  from pos [OF assms(1)] pos [OF assms(2)] eq
  have "negative x = negative y" and "magnitude (limbs x) = magnitude (limbs y)"
    by (auto simp: int_of_def split: if_splits)
  then show "x = y"
    using canonical_unique [of "limbs x" "limbs y"] assms by (simp add: well_formed_def)
qed simp

section \<open>Addition and subtraction\<close>

lemma add_bound:
  assumes "a < BASE" "b < BASE" "c \<le> 1"
  shows "a + b + c \<le> u64_max" "(a + b + c) div BASE \<le> 1"
  using assms by (simp_all add: BASE_def u64_max_def)

lemma add_step_ok:
  assumes "limbs_ok left" "limbs_ok right" "limbs_ok out" "unat carry \<le> 1"
  obtains limb carry' where "add_step left right i (out, carry) = Ok (out @ [limb], carry')"
    "unat limb < BASE" "unat carry' \<le> 1"
    "unat limb + BASE * unat carry' = limb_at left i + limb_at right i + unat carry"
proof -
  define v where "v = limb_at left i + limb_at right i + unat carry"
  have v: "v \<le> u64_max" "v div BASE \<le> 1"
    unfolding v_def using add_bound limb_at_bound assms by blast+
  show thesis
  proof (rule that)
    show "add_step left right i (out, carry) = Ok (out @ [lo v], hi v)"
      using v by (simp add: add_step_def v_def [symmetric])
  qed (use v BASE_bounds(4) [of v] in \<open>simp_all add: v_def\<close>)
qed

lemma add_loop:
  assumes "limbs_ok left" "limbs_ok right"
  shows "\<exists>s. res_fold (add_step left right) [0..<n] ([], 0) = Ok s \<and>
    (case s of (out, carry) \<Rightarrow> length out = n \<and> limbs_ok out \<and> unat carry \<le> 1 \<and>
      magnitude out + BASE ^ n * unat carry = magnitude (take n left) + magnitude (take n right))"
proof (rule res_fold_upto, goal_cases)
  case (2 i s)
  then obtain out carry where s: "s = (out, carry)" and I: "length out = i" "limbs_ok out" "unat carry \<le> 1"
    "magnitude out + BASE ^ i * unat carry = magnitude (take i left) + magnitude (take i right)"
    by auto
  from add_step_ok [OF assms I(2,3), of i] obtain limb carry' where
    step: "add_step left right i (out, carry) = Ok (out @ [limb], carry')"
      "unat limb < BASE" "unat carry' \<le> 1"
    and sum: "unat limb + BASE * unat carry' = limb_at left i + limb_at right i + unat carry" .
  have "magnitude (out @ [limb]) + BASE ^ Suc i * unat carry' =
      magnitude out + BASE ^ i * (unat limb + BASE * unat carry')"
    using I(1) by (simp add: limb.val_append distrib_left)
  also have "\<dots> = magnitude (take (Suc i) left) + magnitude (take (Suc i) right)"
    using I(4) by (simp add: sum magnitude_take_Suc distrib_left)
  finally show ?case using s step I by auto
qed simp

lemma add_magnitudes_ok:
  assumes "limbs_ok a" "limbs_ok b"
  shows "\<exists>ls. add_magnitudes a b = Ok ls \<and> limbs_ok ls \<and> magnitude ls = magnitude a + magnitude b"
proof -
  let ?n = "max (length a) (length b)"
  from add_loop [OF assms, of ?n] obtain out c where
    loop: "res_fold (add_step a b) [0..<?n] ([], 0) = Ok (out, c)"
    and out: "limbs_ok out" "length out = ?n" "unat c \<le> 1"
      "magnitude out + BASE ^ ?n * unat c = magnitude a + magnitude b"
    by fastforce
  show ?thesis
  proof (cases "c = 0")
    case True
    with loop out show ?thesis by (simp add: add_magnitudes_def)
  next
    case False
    obtain d where d: "expect_u32 (unat c) = Ok d" "unat d = unat c"
      using expect_ok [of "unat c"] out(3) by (auto simp: u32_max_def)
    have "unat d < BASE" using d out(3) by (simp add: BASE_def)
    with False loop out d show ?thesis by (simp add: add_magnitudes_def limb.val_append)
  qed
qed

lemma borrow_arith:
  fixes l x b big small base :: int
  assumes "0 \<le> l" "l < base" "0 \<le> x" "x < base" "b \<in> {0, 1}" "x + base * small + b \<le> l + base * big"
  shows "small + (if l - x - b < 0 then 1 else 0) \<le> big"
proof -
  have "0 < base" using assms(1,2) by linarith
  note cancel = mult_less_cancel_left_pos [OF this]
  show ?thesis
  proof (cases "l - x - b < 0")
    case True
    with assms(6) have "base * small < base * big" by linarith
    with True show ?thesis by (simp add: cancel)
  next
    case False
    have "base * small < base * big + base" using False assms by auto
    then have "base * small < base * (big + 1)" by (simp add: distrib_left)
    with False show ?thesis by (simp add: cancel)
  qed
qed

lemma subtract_from_ok:
  assumes "limbs_ok ls" "limbs_ok smaller" "b \<in> {0, 1}"
    "int (magnitude (drop i smaller)) + b \<le> int (magnitude ls)"
  shows "\<exists>out. subtract_from ls smaller i b = Ok out \<and> limbs_ok out \<and>
    int (magnitude out) = int (magnitude ls) - int (magnitude (drop i smaller)) - b"
  using assms
proof (induction ls arbitrary: i b)
  case Nil
  then show ?case by auto
next
  case (Cons l ls)
  define x where "x = limb_at smaller i"
  define y where "y = unat l"
  define v where "v = int y - int x - b"
  define c where "c = (if v < 0 then 1 else 0 :: int)"
  define d where "d = v + c * int BASE"
  have c: "c \<in> {0, 1}" by (simp add: c_def)
  have lt: "y < BASE" "x < BASE" using Cons.prems by (auto simp: x_def y_def limb_at_bound)
  have low: "int (magnitude (drop i smaller)) = int x + int BASE * int (magnitude (drop (Suc i) smaller))"
    unfolding x_def by (subst magnitude_drop) simp
  have d: "0 \<le> d" "d < int BASE"
    using lt Cons.prems(3) unfolding d_def v_def c_def by (auto split: if_splits)
  then have "nat d \<le> u32_max" using BASE_bounds(2) by linarith
  then obtain limb where "expect_u32 (nat d) = Ok limb" "unat limb = nat d" using expect_ok by blast
  with d have limb: "expect_u32 (nat d) = Ok limb" "int (unat limb) = d" "unat limb < BASE" by simp_all
  have "int (magnitude (drop (Suc i) smaller)) + c \<le> int (magnitude ls)"
    using Cons.prems(3,4) lt low unfolding c_def v_def
    by (intro borrow_arith [where base = "int BASE"]) (auto simp flip: y_def)
  then obtain out where out: "subtract_from ls smaller (Suc i) c = Ok out" "limbs_ok out"
    "int (magnitude out) = int (magnitude ls) - int (magnitude (drop (Suc i) smaller)) - c"
    using Cons.IH [of c "Suc i"] Cons.prems(1,2) c by auto
  have "subtract_from (l # ls) smaller i b = Ok (limb # out)"
    using limb d out(1) by (auto simp: c_def d_def v_def Let_def simp flip: x_def y_def)
  moreover have "int (magnitude (limb # out)) = int (magnitude (l # ls)) - int (magnitude (drop i smaller)) - b"
  proof -
    have "int (magnitude ls) = int (magnitude out) + int (magnitude (drop (Suc i) smaller)) + c"
      using out(3) by simp
    with limb(2) low show ?thesis by (simp add: d_def v_def algebra_simps flip: y_def)
  qed
  moreover have "limbs_ok (limb # out)" using limb(3) out(2) by simp
  ultimately show ?case by blast
qed

lemma subtract_magnitudes_ok:
  assumes "limbs_ok a" "limbs_ok b" "magnitude b \<le> magnitude a"
  shows "\<exists>ls. subtract_magnitudes a b = Ok ls \<and> limbs_ok ls \<and> magnitude ls = magnitude a - magnitude b"
  using subtract_from_ok [of a b 0 0] assms by (auto simp: subtract_magnitudes_def)

lemma wfD: "well_formed x \<Longrightarrow> limbs_ok (limbs x)" "well_formed x \<Longrightarrow> canonical unat (limbs x)"
  "well_formed x \<Longrightarrow> negative x \<Longrightarrow> limbs x \<noteq> []"
  by (simp_all add: well_formed_def)

lemma int_add_ok:
  assumes "well_formed x" "well_formed y"
  shows "\<exists>z. int_add x y = Ok z \<and> well_formed z \<and> int_of z = int_of x + int_of y"
proof (cases "negative x = negative y")
  case True
  with add_magnitudes_ok [OF wfD(1) wfD(1), OF assms] show ?thesis
    by (auto simp: int_add_def int_of_def [of x] int_of_def [of y] normalized_wf normalized_int)
next
  case False
  note cmp = compare_magnitudes_eq [OF wfD(1) wfD(1) wfD(2) wfD(2), OF assms assms]
  show ?thesis
  proof (cases "magnitude (limbs x)" "magnitude (limbs y)" rule: linorder_cases)
    case less
    with subtract_magnitudes_ok [OF wfD(1) wfD(1), OF assms(2,1)] False cmp show ?thesis
      by (auto simp: int_add_def int_of_def [of x] int_of_def [of y] normalized_wf normalized_int compare_def)
  next
    case equal
    with from_i64_ok [of 0] False cmp show ?thesis
      by (auto simp: int_add_def int_of_def compare_def)
  next
    case greater
    with subtract_magnitudes_ok [OF wfD(1) wfD(1), OF assms] False cmp show ?thesis
      by (auto simp: int_add_def int_of_def [of x] int_of_def [of y] normalized_wf normalized_int compare_def)
  qed
qed

lemma int_subtract_ok:
  assumes "well_formed x" "well_formed y"
  shows "\<exists>z. int_subtract x y = Ok z \<and> well_formed z \<and> int_of z = int_of x - int_of y"
proof -
  define n where "n = (if \<not> is_zero y then y\<lparr>negative := \<not> negative y\<rparr> else y)"
  have "well_formed n" "int_of n = - int_of y"
    using assms(2) by (auto simp: n_def is_zero_def well_formed_def int_of_def)
  with int_add_ok [OF assms(1), of n] show ?thesis by (simp add: int_subtract_def n_def [symmetric])
qed

section \<open>Multiplication\<close>

lemma product_bound:
  assumes "old < BASE" "a < BASE" "b < BASE" "carry < BASE"
  shows "old + a * b + carry \<le> u64_max" "(old + a * b + carry) div BASE < BASE"
proof -
  have "a * b \<le> (BASE - 1) * (BASE - 1)" using assms by (intro mult_le_mono) auto
  then have "old + a * b + carry < BASE * BASE" using assms by (simp add: BASE_def)
  then show "old + a * b + carry \<le> u64_max" "(old + a * b + carry) div BASE < BASE"
    using BASE_bounds(3) by (simp_all add: less_mult_imp_div_less)
qed

text \<open>One limb of the result updated with what it becomes and what is carried on.\<close>

lemma update_limb:
  assumes "limbs_ok r" "i < length r" "v \<le> u64_max" "v div BASE < BASE"
  shows "limbs_ok (r[i := lo v])"
    "magnitude (r[i := lo v]) + BASE ^ Suc i * unat (hi v) + unat (r ! i) * BASE ^ i =
     magnitude r + v * BASE ^ i"
proof -
  show "limbs_ok (r[i := lo v])"
    using assms(1) BASE_bounds(4) [of v] by (auto dest!: subsetD [OF set_update_subset_insert])
  have "magnitude (r[i := lo v]) + unat (r ! i) * BASE ^ i = magnitude r + v mod BASE * BASE ^ i"
    using limb.val_update [OF assms(2), of "lo v"] by simp
  moreover have "BASE ^ i * (v mod BASE) + BASE ^ Suc i * (v div BASE) = BASE ^ i * v"
    using split_sum [of "BASE ^ i" v] by (simp add: mult.commute)
  ultimately show "magnitude (r[i := lo v]) + BASE ^ Suc i * unat (hi v) + unat (r ! i) * BASE ^ i =
     magnitude r + v * BASE ^ i"
    using assms(3) by (simp add: mult.commute)
qed

lemma multiply_step_ok:
  assumes "limbs_ok right" "limbs_ok r" "unat l < BASE" "i + j < length r" "unat carry < BASE"
  obtains r' carry' where "multiply_step right i l j (r, carry) = Ok (r', carry')"
    "length r' = length r" "limbs_ok r'" "unat carry' < BASE"
    "magnitude r' + BASE ^ (i + Suc j) * unat carry' =
     magnitude r + BASE ^ (i + j) * unat carry + BASE ^ (i + j) * (unat l * limb_at right j)"
proof -
  define v where "v = unat (r ! (i + j)) + unat l * limb_at right j + unat carry"
  have "unat (r ! (i + j)) < BASE" using assms(2,4) by simp
  note v = product_bound [OF this assms(3) limb_at_bound [OF assms(1), of j] assms(5), folded v_def]
  show thesis
  proof (rule that)
    show "multiply_step right i l j (r, carry) = Ok (r[i + j := lo v], hi v)"
      using assms(4) v(1) by (simp add: multiply_step_def Let_def v_def [symmetric])
    show "magnitude (r[i + j := lo v]) + BASE ^ (i + Suc j) * unat (hi v) =
        magnitude r + BASE ^ (i + j) * unat carry + BASE ^ (i + j) * (unat l * limb_at right j)"
      using update_limb(2) [OF assms(2,4) v] by (simp add: v_def algebra_simps)
  qed (use update_limb(1) [OF assms(2,4) v] v in simp_all)
qed

lemma multiply_loop:
  assumes "limbs_ok right" "limbs_ok r" "unat l < BASE" "i + length right \<le> length r"
  shows "\<exists>s. res_fold (multiply_step right i l) [0..<length right] (r, 0) = Ok s \<and>
    (case s of (r', carry) \<Rightarrow> length r' = length r \<and> limbs_ok r' \<and> unat carry < BASE \<and>
      magnitude r' + BASE ^ (i + length right) * unat carry =
      magnitude r + BASE ^ i * (unat l * magnitude (take (length right) right)))"
proof (rule res_fold_upto [where I = "\<lambda>j (r', carry). length r' = length r \<and> limbs_ok r' \<and>
    unat carry < BASE \<and> magnitude r' + BASE ^ (i + j) * unat carry =
    magnitude r + BASE ^ i * (unat l * magnitude (take j right))"], goal_cases)
  case 1
  with assms BASE_bounds(1) show ?case by simp
next
  case (2 j s)
  then obtain r' carry where s: "s = (r', carry)" and I: "length r' = length r" "limbs_ok r'"
    "unat carry < BASE"
    "magnitude r' + BASE ^ (i + j) * unat carry = magnitude r + BASE ^ i * (unat l * magnitude (take j right))"
    by auto
  have "i + j < length r'" using 2(1) I(1) assms(4) by simp
  from multiply_step_ok [OF assms(1) I(2) assms(3) this I(3)] obtain r'' carry' where
    step: "multiply_step right i l j (r', carry) = Ok (r'', carry')"
      "length r'' = length r'" "limbs_ok r''" "unat carry' < BASE"
    and sum: "magnitude r'' + BASE ^ (i + Suc j) * unat carry' =
      magnitude r' + BASE ^ (i + j) * unat carry + BASE ^ (i + j) * (unat l * limb_at right j)" .
  have "magnitude r'' + BASE ^ (i + Suc j) * unat carry' =
      magnitude r + BASE ^ i * (unat l * magnitude (take (Suc j) right))"
    unfolding sum I(4) magnitude_take_Suc by (simp add: power_add algebra_simps)
  with s step I(1) show ?case by auto
qed

lemma multiply_carry_ok:
  assumes "limbs_ok r" "unat carry < BASE" "magnitude r + BASE ^ i * unat carry < BASE ^ length r"
  shows "\<exists>r'. multiply_carry r i carry = Ok r' \<and> length r' = length r \<and> limbs_ok r' \<and>
    magnitude r' = magnitude r + BASE ^ i * unat carry"
  using assms
proof (induction r i carry rule: multiply_carry.induct)
  case (1 r i carry)
  show ?case
  proof (cases "carry = 0")
    case True
    with 1 show ?thesis by (simp add: multiply_carry.simps)
  next
    case False
    have i: "i < length r"
    proof (rule ccontr)
      assume "\<not> i < length r"
      then have "BASE ^ length r \<le> BASE ^ i" using BASE_bounds(1) by (intro power_increasing) auto
      moreover have "BASE ^ i * 1 \<le> BASE ^ i * unat carry"
        using False by (intro mult_le_mono2) (simp add: unat_gt_0 Suc_leI)
      ultimately show False using "1.prems"(3) by linarith
    qed
    define v where "v = unat (r ! i) + unat carry"
    have "unat (r ! i) < BASE" using 1 i by simp
    from product_bound [OF this, of 0 0 "unat carry"] have v: "v \<le> u64_max" "v div BASE < BASE"
      using "1.prems"(2) BASE_bounds(1) by (simp_all add: v_def)
    note upd = update_limb [OF "1.prems"(1) i v]
    have eq: "magnitude (r[i := lo v]) + BASE ^ Suc i * unat (hi v) = magnitude r + BASE ^ i * unat carry"
      using upd(2) by (simp add: v_def algebra_simps)
    have step: "res_bind (wide (unat (r ! i) + unat carry)) split_limb = Ok (lo v, hi v)"
      using v(1) by (simp add: v_def)
    from "1.IH" [OF False vget_in [OF i] step refl upd(1)] eq v "1.prems"(3) obtain r' where
      "multiply_carry (r[i := lo v]) (Suc i) (hi v) = Ok r'" "length r' = length r" "limbs_ok r'"
      "magnitude r' = magnitude r + BASE ^ i * unat carry"
      by auto
    with False i show ?thesis by (subst multiply_carry.simps) (simp add: step)
  qed
qed

lemma magnitude_take_le: "magnitude (take n ls) \<le> magnitude ls"
  using limb.val_append [of "take n ls" "drop n ls"] by simp

lemma magnitude_product: 
  "limbs_ok a \<Longrightarrow> limbs_ok b \<Longrightarrow> magnitude (take n a) * magnitude b < BASE ^ (length a + length b)"
  using limb.val_bound [of a] limb.val_bound [of b] magnitude_take_le [of n a]
  by (auto simp: power_add BASE_bounds(1) intro!: mult_strict_mono)

lemma multiply_rows:
  assumes "limbs_ok a" "limbs_ok b"
  shows "\<exists>r. res_fold (multiply_row a b) [0..<length a] (replicate (length a + length b) 0) = Ok r \<and>
    length r = length a + length b \<and> limbs_ok r \<and> magnitude r = magnitude (take (length a) a) * magnitude b"
proof (rule res_fold_upto [where I = "\<lambda>i r. length r = length a + length b \<and> limbs_ok r \<and>
    magnitude r = magnitude (take i a) * magnitude b"], goal_cases)
  case 1
  have "magnitude (replicate (length a + length b) 0) = 0" by (rule limb.val_zeros) simp
  with BASE_bounds(1) show ?case by simp
next
  case (2 i r)
  then have I: "length r = length a + length b" "limbs_ok r" "magnitude r = magnitude (take i a) * magnitude b"
    by auto
  have "unat (a ! i) < BASE" using assms(1) 2(1) by simp
  from multiply_loop [OF assms(2) I(2) this, of i] 2(1) I(1) obtain r' carry where
    loop: "res_fold (multiply_step b i (a ! i)) [0..<length b] (r, 0) = Ok (r', carry)"
      "length r' = length r" "limbs_ok r'" "unat carry < BASE"
    and sum: "magnitude r' + BASE ^ (i + length b) * unat carry =
      magnitude r + BASE ^ i * (unat (a ! i) * magnitude b)"
    by auto
  have whole: "magnitude r + BASE ^ i * (unat (a ! i) * magnitude b) = magnitude (take (Suc i) a) * magnitude b"
    using 2(1) by (simp add: I(3) limb.val_take_Suc algebra_simps)
  from multiply_carry_ok [OF loop(3,4), of "i + length b"] magnitude_product [OF assms, of "Suc i"]
  obtain r'' where "multiply_carry r' (i + length b) carry = Ok r''" "length r'' = length r'"
    "limbs_ok r''" "magnitude r'' = magnitude (take (Suc i) a) * magnitude b"
    unfolding sum whole loop(2) I(1) by auto
  with loop I(1) show ?case by (simp add: multiply_row_def)
qed

lemma int_multiply_ok:
  assumes "well_formed x" "well_formed y"
  shows "\<exists>z. int_multiply x y = Ok z \<and> well_formed z \<and> int_of z = int_of x * int_of y"
proof (cases "is_zero x \<or> is_zero y")
  case True
  then have "int_of x * int_of y = 0" by (auto simp: int_of_def is_zero_def)
  moreover have "int_multiply x y = from_i64 0" using True by (simp add: int_multiply_def)
  ultimately show ?thesis using from_i64_ok [of 0] by (simp only: signed_0)
next
  case False
  from multiply_rows [OF wfD(1) [OF assms(1)] wfD(1) [OF assms(2)], unfolded take_all [OF order_refl]]
  obtain r where
    rows: "res_fold (multiply_row (limbs x) (limbs y)) [0..<length (limbs x)]
      (replicate (length (limbs x) + length (limbs y)) 0) = Ok r"
    and r: "limbs_ok r" "magnitude r = magnitude (limbs x) * magnitude (limbs y)"
    by (elim exE conjE)
  have "int_multiply x y = Ok (normalized (negative x \<noteq> negative y) r)"
    using False by (simp add: int_multiply_def rows)
  moreover have "int_of (normalized (negative x \<noteq> negative y) r) = int_of x * int_of y"
    unfolding normalized_int r(2) int_of_def [of x] int_of_def [of y] by simp
  ultimately show ?thesis using normalized_wf [OF r(1)] by blast
qed

section \<open>Conversions\<close>

lemma wrapping_fold:
  "foldl (\<lambda>value limb. value * word_of_nat BASE + ucast limb) 0 (rev ls) = (word_of_nat (magnitude ls) :: u64)"
proof (induction ls)
  case (Cons l ls)
  have "ucast l = (word_of_nat (unat l) :: u64)" by simp
  with Cons show ?case by (simp only: rev.simps foldl_append foldl.simps horner_sum_simps of_nat_add of_nat_mult)
      (simp add: mult.commute)
qed simp

lemma wrapping_i64_ok: "wrapping_i64 x = word_of_int (int_of x)"
  by (simp add: wrapping_i64_def wrapping_fold int_of_def Let_def)

lemma to_u64_fold:
  "res_fold to_u64_step (rev ls) 0 =
    (if magnitude ls \<le> u64_max then Ok (word_of_nat (magnitude ls)) else Err ())"
proof (induction ls)
  case (Cons l ls)
  have le: "magnitude ls \<le> unat l + BASE * magnitude ls"
    using BASE_bounds(1) by (simp add: trans_le_add2)
  show ?case
  proof (cases "magnitude ls \<le> u64_max")
    case True
    have "unat (word_of_nat (magnitude ls) * word_of_nat BASE :: u64) = magnitude ls * BASE"
      if "magnitude ls * BASE \<le> u64_max"
      using that unat_u64 [of "magnitude ls * BASE"] by (simp only: of_nat_mult)
    with True Cons show ?thesis
      by (auto simp: to_u64_step_def Let_def mult.commute add.commute simp del: res_bind_Ok)
  next
    case False
    with le have "\<not> unat l + BASE * magnitude ls \<le> u64_max" by linarith
    with False Cons show ?thesis by simp
  qed
qed simp

lemma to_u64_ok:
  assumes "well_formed x"
  shows "to_u64 x =
    (if 0 \<le> int_of x \<and> int_of x \<le> int u64_max then Ok (word_of_int (int_of x)) else Err ())"
proof (cases "negative x")
  case True
  with assms limb.val_eq_0 [of "limbs x"] have "int_of x < 0" by (simp add: int_of_def well_formed_def)
  with True show ?thesis by (simp add: to_u64_def)
next
  case False
  then show ?thesis by (simp add: to_u64_def to_u64_fold int_of_def)
qed

section \<open>Division\<close>

lemma divide_bound:
  fixes d r l :: nat
  assumes "r < d" "l < BASE" "d \<le> u32_max"
  shows "r * BASE + l \<le> u64_max" "(r * BASE + l) div d < BASE" "(r * BASE + l) mod d < d"
proof -
  have "(r + 1) * BASE \<le> d * BASE" using assms(1) by (intro mult_le_mono1) simp
  then have *: "r * BASE + l < d * BASE" using assms(2) by (simp add: distrib_right)
  then show "(r * BASE + l) div d < BASE" by (simp add: less_mult_imp_div_less mult.commute)
  have "d * BASE \<le> u32_max * BASE" using assms(3) by (rule mult_le_mono1)
  also have "\<dots> \<le> u64_max" by (simp add: u32_max_def u64_max_def BASE_def)
  finally show "r * BASE + l \<le> u64_max" using * by linarith
qed (use assms in simp)

lemma divide_limbs_ok:
  assumes "limbs_ok ls" "divisor \<noteq> 0"
  shows "\<exists>q r. divide_limbs ls divisor = Ok (q, r) \<and> limbs_ok q \<and> unat r < unat divisor \<and>
    magnitude ls = magnitude q * unat divisor + unat r"
  using assms(1)
proof (induction ls)
  case Nil
  with assms(2) show ?case by (simp add: unat_gt_0)
next
  case (Cons l ls)
  then obtain q r where qr: "divide_limbs ls divisor = Ok (q, r)" "limbs_ok q" "unat r < unat divisor"
    "magnitude ls = magnitude q * unat divisor + unat r" by auto
  define c where "c = unat r * BASE + unat l"
  define d where "d = unat divisor"
  have "unat divisor \<le> u32_max" by (rule u32_range)
  with Cons.prems qr(3) divide_bound [of "unat r" "unat divisor" "unat l"]
  have c: "c \<le> u64_max" "c div d < BASE" "c mod d < d" by (simp_all add: c_def d_def)
  then obtain limb where limb: "expect_u32 (c div d) = Ok limb" "unat limb = c div d"
    using expect_ok [of "c div d"] BASE_bounds(2) by auto
  have m: "c mod d \<le> u64_max" using c(1) mod_less_eq_dividend [of c d] by linarith
  have "divide_limbs (l # ls) divisor = Ok (limb # q, word_of_nat (c mod d))"
    using qr(1) c(1) limb(1) by (simp add: wide_def flip: c_def d_def)
  moreover have "magnitude (l # ls) = magnitude (limb # q) * d + c mod d"
    using qr(4) limb(2) div_mult_mod_eq [of c d]
    by (simp add: algebra_simps c_def flip: d_def)
  ultimately show ?case using qr(2) c limb(2) m by (auto simp flip: d_def)
qed

lemma div_rem_ok:
  assumes "well_formed x" "divisor \<noteq> 0"
  shows "\<exists>q r. div_rem_euclid_small x divisor = Ok (q, r) \<and> well_formed q \<and> unat r < unat divisor \<and>
    int_of x = int_of q * int (unat divisor) + int (unat r)"
proof -
  from divide_limbs_ok [OF wfD(1) [OF assms(1)] assms(2)] obtain q r where
    qr: "divide_limbs (limbs x) divisor = Ok (q, r)" "limbs_ok q" "unat r < unat divisor"
    "magnitude (limbs x) = magnitude q * unat divisor + unat r" by blast
  have "unat divisor \<le> u32_max" by (rule u32_range)
  with qr(3) obtain s where s: "expect_u32 (unat r) = Ok s" "unat s = unat r"
    using expect_ok [of "unat r"] by auto
  show ?thesis
  proof (cases "\<not> negative x \<or> s = 0")
    case True
    then have "div_rem_euclid_small x divisor = Ok (normalized (negative x) q, s)"
      using assms(2) qr(1) s(1) by (simp add: div_rem_euclid_small_def)
    moreover have "int_of x = int_of (normalized (negative x) q) * int (unat divisor) + int (unat s)"
    proof -
      have "negative x \<Longrightarrow> unat r = 0" using True s(2) by auto
      then have "negative x \<Longrightarrow> int (unat r) = 0" by simp
      then show ?thesis unfolding int_of_def [of x] normalized_int qr(4) s(2) by simp
    qed
    moreover have "unat s < unat divisor" using qr(3) s(2) by simp
    ultimately show ?thesis using normalized_wf [OF qr(2)] by blast
  next
    case False
    from from_i64_ok [of 1] obtain one where one: "from_i64 1 = Ok one" "well_formed one" "int_of one = 1"
      by auto
    from int_subtract_ok [OF normalized_wf [OF qr(2)] one(2), of True] one(3) obtain p where
      p: "int_subtract (normalized True q) one = Ok p" "well_formed p" "int_of p = - int (magnitude q) - 1"
      by (auto simp: normalized_int)
    have "div_rem_euclid_small x divisor = Ok (p, divisor - s)"
      using False assms(2) qr(1) s(1) one(1) p(1) by (simp add: div_rem_euclid_small_def)
    moreover have lt: "unat (divisor - s) < unat divisor"
      and diff: "int (unat (divisor - s)) = int (unat divisor) - int (unat r)"
    proof -
      have "unat (divisor - s) = unat divisor - unat r"
        using qr(3) s(2) by (simp add: unat_sub word_le_nat_alt)
      moreover have "0 < unat r" using False s(2) by (simp flip: s(2) add: unat_gt_0)
      ultimately show "unat (divisor - s) < unat divisor"
        "int (unat (divisor - s)) = int (unat divisor) - int (unat r)"
        using qr(3) by (linarith, simp only: of_nat_diff less_imp_le)
    qed
    moreover have "int_of x = int_of p * int (unat divisor) + int (unat (divisor - s))"
      using False qr(4) unfolding p(3) diff by (simp add: int_of_def [of x] algebra_simps)
    ultimately show ?thesis using p(2) by blast
  qed
qed

end
