(* ===== verification/Hell_Integer_Text.thy ===== *)
theory Hell_Integer_Text
  imports Hell_Integer_Arith
begin

text \<open>
  The text of \<open>Hell_Integer\<close>: \<open>fmt\<close> prints the decimal digits of the number without a
  leading zero, \<open>parse\<close> reads any sequence of digits exactly, and what is printed reads
  back as the same integer.
\<close>

section \<open>Decimal digits\<close>

interpretation decimal: positional "\<lambda>c :: nat. c - 48" 10
  by unfold_locales simp

text \<open>The number a sequence of digits stands for, most significant first.\<close>

definition number :: "nat list \<Rightarrow> nat" where
  "number cs = decimal.val (rev cs)"

lemma number_simps [simp]: "number [] = 0" "number (cs @ [c]) = 10 * number cs + (c - 48)"
  by (simp_all add: number_def)

lemma map_byte_show_nat:
  "list_all is_digit (map byte (show_nat n)) \<and> number (map byte (show_nat n)) = n"
proof (induction n rule: show_nat.induct)
  case (1 n)
  show ?case
  proof (cases "n < 10")
    case True
    with number_simps(2) [of "[]" "48 + n"] show ?thesis
      by (subst (1 2) show_nat.simps) (simp add: is_digit_def)
  next
    case False
    have "n mod 10 < 10" by simp
    then have "byte (char_of (48 + n mod 10)) = 48 + n mod 10" "is_digit (48 + n mod 10)"
      unfolding is_digit_def by simp_all
    with 1 False show ?thesis by (subst (1 2) show_nat.simps) simp
  qed
qed

lemma char_48: "char_of (48 :: nat) = CHR ''0''"
  by code_simp

text \<open>A fixed number of digits of a number, least significant last.\<close>

fun fixed :: "nat \<Rightarrow> nat \<Rightarrow> string" where
  "fixed 0 n = []"
| "fixed (Suc k) n = fixed k (n div 10) @ [char_of (48 + n mod 10)]"

lemma length_fixed [simp]: "length (fixed k n) = k"
  by (induction k arbitrary: n) auto

lemma fixed_0: "fixed k 0 = replicate k CHR ''0''"
  by (induction k) (simp_all add: replicate_append_same char_48)

lemma show_nat_append_fixed: "0 < a \<Longrightarrow> b < 10 ^ k \<Longrightarrow> show_nat (a * 10 ^ k + b) = show_nat a @ fixed k b"
proof (induction k arbitrary: b)
  case (Suc k)
  define n where "n = a * 10 ^ Suc k + b"
  have n: "n div 10 = a * 10 ^ k + b div 10" "n mod 10 = b mod 10" "\<not> n < 10"
  proof -
    have eq: "n = b + 10 * (a * 10 ^ k)" by (simp add: n_def)
    then show "n div 10 = a * 10 ^ k + b div 10" "n mod 10 = b mod 10" by simp_all
    have "1 * 1 \<le> a * 10 ^ k" using Suc.prems(1) by (intro mult_le_mono) auto
    with eq show "\<not> n < 10" by linarith
  qed
  have "b div 10 < 10 ^ k" using Suc.prems(2) by (simp add: div_less_iff_less_mult mult.commute)
  with Suc.IH Suc.prems(1) have "show_nat (n div 10) = show_nat a @ fixed k (b div 10)" by (simp add: n(1))
  then have "show_nat n = show_nat a @ fixed (Suc k) b" using n(2,3) by (subst show_nat.simps) simp
  then show ?case by (simp add: n_def)
qed simp

text \<open>\<open>{:09}\<close> prints exactly nine digits of a limb.\<close>

lemma padded: "n < 10 ^ Suc k \<Longrightarrow> replicate (Suc k - length (show_nat n)) CHR ''0'' @ show_nat n = fixed (Suc k) n"
proof (induction k arbitrary: n)
  case 0
  then show ?case by (subst (1 2) show_nat.simps) simp
next
  case (Suc k)
  show ?case
  proof (cases "n < 10")
    case True
    then show ?thesis by (subst (1 2) show_nat.simps) (simp add: fixed_0 replicate_append_same)
  next
    case False
    have "n div 10 < 10 ^ Suc k" using Suc.prems by (simp add: div_less_iff_less_mult mult.commute)
    note IH = Suc.IH [OF this]
    have "show_nat n = show_nat (n div 10) @ [char_of (48 + n mod 10)]"
      using False by (subst show_nat.simps) simp
    with IH show ?thesis by simp
  qed
qed

lemma pad9_fixed: "n < BASE \<Longrightarrow> pad9 n = fixed 9 n"
  using padded [of n 8] by (simp add: pad9_def BASE_def)

section \<open>Printing\<close>

lemma display_limbs:
  assumes "limbs_ok ls" "canonical unat ls" "ls \<noteq> []"
  shows "show_nat (unat (last ls)) @ concat (map (\<lambda>l. pad9 (unat l)) (rev (butlast ls))) = show_nat (magnitude ls)"
  using assms
proof (induction ls)
  case (Cons l ls)
  show ?case
  proof (cases "ls = []")
    case False
    with Cons have IH: "show_nat (unat (last ls)) @ concat (map (\<lambda>l. pad9 (unat l)) (rev (butlast ls))) =
      show_nat (magnitude ls)" and l: "unat l < BASE" by simp_all
    have pos: "0 < magnitude ls" using False Cons.prems(2) limb.val_eq_0 [of ls] by simp
    have B: "BASE = 10 ^ 9" by (simp add: BASE_def)
    have "show_nat (magnitude (l # ls)) = show_nat (magnitude ls) @ fixed 9 (unat l)"
      using show_nat_append_fixed [OF pos, of "unat l" 9] l by (simp add: B mult.commute add.commute)
    with False IH [symmetric] l show ?thesis by (simp add: pad9_fixed)
  qed simp
qed simp

lemma int_display_ok:
  assumes "well_formed x"
  shows "int_display x = (if int_of x < 0 then ''-'' else '''') @ show_nat (nat \<bar>int_of x\<bar>)"
proof -
  have "show_nat 0 = ''0''" by (simp add: show_nat.simps char_48)
  moreover have "negative x \<longleftrightarrow> int_of x < 0"
    using assms limb.val_eq_0 [of "limbs x"] by (auto simp: int_of_def well_formed_def)
  moreover have "nat \<bar>int_of x\<bar> = magnitude (limbs x)" by (simp add: int_of_def)
  ultimately show ?thesis
    using assms display_limbs [of "limbs x"] by (auto simp: int_display_def well_formed_def)
qed

section \<open>Reading\<close>

lemma multiply_limbs_ok:
  assumes "limbs_ok ls" "canonical unat ls" "unat f < BASE" "f \<noteq> 0" "unat c < BASE"
  shows "\<exists>out. multiply_limbs ls f c = Ok out \<and> limbs_ok out \<and> canonical unat out \<and>
    magnitude out = magnitude ls * unat f + unat c \<and> (ls \<noteq> [] \<longrightarrow> out \<noteq> [])"
  using assms(1,2,5)
proof (induction ls arbitrary: c)
  case Nil
  obtain d where "expect_u32 (unat c) = Ok d" "unat d = unat c"
    using expect_ok [of "unat c"] Nil BASE_bounds(2) by auto
  then show ?case using Nil by (auto simp: unat_eq_0)
next
  case (Cons l ls)
  define v where "v = unat l * unat f + unat c"
  have lt: "unat l < BASE" "limbs_ok ls" using Cons.prems by simp_all
  from product_bound [OF BASE_bounds(1) lt(1) assms(3) Cons.prems(3)]
  have v: "v \<le> u64_max" "v div BASE < BASE" by (simp_all add: v_def)
  then have "unat (hi v) < BASE" by simp
  from Cons.IH [OF lt(2) canonical_tl [OF Cons.prems(2)] this] obtain out where
    out: "multiply_limbs ls f (hi v) = Ok out" "limbs_ok out" "canonical unat out"
      "magnitude out = magnitude ls * unat f + v div BASE" "ls \<noteq> [] \<longrightarrow> out \<noteq> []"
    using v(1) by auto
  have "multiply_limbs (l # ls) f c = Ok (lo v # out)"
    using v(1) out(1) by (simp flip: v_def)
  moreover have "canonical unat (lo v # out)"
  proof (cases "out = []")
    case True
    with out(5) Cons.prems(2) have "unat l \<noteq> 0" by (auto split: if_splits)
    with assms(4) have "0 < v" by (simp add: v_def unat_gt_0)
    moreover have "v div BASE = 0" using True out(4) by simp
    ultimately show ?thesis using True mult_div_mod_eq [of BASE v] by simp
  qed (use out in simp)
  moreover have "magnitude (lo v # out) = magnitude (l # ls) * unat f + unat c"
    using out(4) mult_div_mod_eq [of BASE v] by (simp add: v_def algebra_simps)
  moreover have "limbs_ok (lo v # out)" using out(2) BASE_bounds(4) [of v] by simp
  ultimately show ?case by blast
qed

lemma add_limbs_ok:
  assumes "limbs_ok ls" "canonical unat ls" "unat c < BASE"
  shows "\<exists>out. add_limbs ls c = Ok out \<and> limbs_ok out \<and> canonical unat out \<and>
    magnitude out = magnitude ls + unat c \<and> (ls \<noteq> [] \<longrightarrow> out \<noteq> [])"
  using assms
proof (induction ls arbitrary: c)
  case Nil
  obtain d where "expect_u32 (unat c) = Ok d" "unat d = unat c"
    using expect_ok [of "unat c"] Nil BASE_bounds(2) by auto
  then show ?case using Nil by (auto simp: unat_eq_0)
next
  case (Cons l ls)
  define v where "v = unat l + unat c"
  have lt: "unat l < BASE" "limbs_ok ls" using Cons.prems by simp_all
  have v: "v \<le> u64_max" "v div BASE < BASE"
    using product_bound [OF lt(1) BASE_bounds(1) BASE_bounds(1) Cons.prems(3)] by (simp_all add: v_def)
  show ?case
  proof (cases "hi v = 0")
    case True
    then have "v div BASE = 0" using unat_hi [OF v(1)] by simp
    then have "unat (lo v) = v" using mult_div_mod_eq [of BASE v] by simp
    moreover have "add_limbs (l # ls) c = Ok (lo v # ls)" using v(1) True by (simp flip: v_def)
    moreover have "lo v = 0 \<Longrightarrow> v = 0" using \<open>unat (lo v) = v\<close> by simp
    ultimately have "canonical unat (lo v # ls)" "magnitude (lo v # ls) = magnitude (l # ls) + unat c"
      using Cons.prems(2) by (auto simp: v_def split: if_splits)
    moreover have "limbs_ok (lo v # ls)" using lt(2) BASE_bounds(4) [of v] by simp
    ultimately show ?thesis using \<open>add_limbs (l # ls) c = Ok (lo v # ls)\<close> by blast
  next
    case False
    from v have "unat (hi v) < BASE" by simp
    from Cons.IH [OF lt(2) canonical_tl [OF Cons.prems(2)] this] obtain out where
      out: "add_limbs ls (hi v) = Ok out" "limbs_ok out" "canonical unat out"
        "magnitude out = magnitude ls + v div BASE"
      using v(1) by auto
    have "0 < v div BASE" using False unat_hi [OF v(1)] unat_eq_0 [of "hi v"] by auto
    then have "out \<noteq> []" using out(4) by auto
    moreover have "add_limbs (l # ls) c = Ok (lo v # out)" using v(1) False out(1) by (simp flip: v_def)
    moreover have "magnitude (lo v # out) = magnitude (l # ls) + unat c"
      using out(4) mult_div_mod_eq [of BASE v] by (simp add: v_def algebra_simps)
    moreover have "canonical unat (lo v # out)" "limbs_ok (lo v # out)"
      using \<open>out \<noteq> []\<close> out(2,3) BASE_bounds(4) [of v] by simp_all
    ultimately show ?thesis by blast
  qed
qed

lemma parse_step_ok:
  assumes "well_formed x" "\<not> negative x" "is_digit c"
  shows "\<exists>y. parse_step c x = Ok y \<and> well_formed y \<and> \<not> negative y \<and>
    magnitude (limbs y) = 10 * magnitude (limbs x) + (c - 48)"
proof -
  have ten: "unat (10 :: u32) = 10" by simp
  have "c - 48 \<le> u32_max" using assms(3) unfolding is_digit_def u32_max_def by linarith
  then have d: "unat (ucast (word_of_nat (c - 48) :: u32) :: u64) = c - 48"
    by (simp only: unat_widen unat_u32)
  have "c - 48 \<le> 9" using assms(3) unfolding is_digit_def by linarith
  then have lt: "unat (10 :: u32) < BASE" "c - 48 < BASE" by (simp_all add: BASE_def)
  from multiply_limbs_ok [OF wfD(1,2) [OF assms(1)] lt(1), of 0] obtain p where
    p: "multiply_limbs (limbs x) 10 0 = Ok p" "limbs_ok p" "canonical unat p"
      "magnitude p = 10 * magnitude (limbs x)"
    using BASE_bounds(1) by (auto simp: ten mult.commute)
  from add_limbs_ok [OF p(2,3), of "ucast (word_of_nat (c - 48) :: u32)"] obtain q where
    q: "add_limbs p (ucast (word_of_nat (c - 48) :: u32)) = Ok q" "limbs_ok q" "canonical unat q"
      "magnitude q = magnitude p + (c - 48)"
    unfolding d using lt(2) by blast
  have "parse_step c x = Ok (x\<lparr>limbs := q\<rparr>)"
    using p(1) q(1) by (simp add: parse_step_def multiply_small_def add_small_def)
  with p(4) q assms(2) show ?thesis by (simp add: well_formed_def)
qed

lemma parse_loop:
  assumes "list_all is_digit cs" "well_formed x" "limbs x = []" "\<not> negative x"
  shows "\<exists>y. res_fold parse_step cs x = Ok y \<and> well_formed y \<and> \<not> negative y \<and>
    magnitude (limbs y) = number cs"
  using assms(1)
proof (induction cs rule: rev_induct)
  case (snoc c cs)
  then obtain y where y: "res_fold parse_step cs x = Ok y" "well_formed y" "\<not> negative y"
    "magnitude (limbs y) = number cs" by auto
  from parse_step_ok [OF y(2,3), of c] snoc.prems y show ?case by auto
qed (use assms in auto)

lemma parse_digits_ok:
  assumes "cs \<noteq> []" "list_all is_digit cs"
  shows "\<exists>x. parse_digits neg cs = Ok x \<and> well_formed x \<and>
    int_of x = (if neg then - int (number cs) else int (number cs))"
proof -
  from from_i64_ok [of 0] obtain z where z: "from_i64 0 = Ok z" "well_formed z" "int_of z = 0" by auto
  then have "limbs z = []" "\<not> negative z"
    using limb.val_eq_0 [of "limbs z"] by (auto simp: int_of_def well_formed_def split: if_splits)
  from parse_loop [OF assms(2) z(2) this] obtain y where
    y: "res_fold parse_step cs z = Ok y" "well_formed y" "magnitude (limbs y) = number cs" by blast
  have "parse_digits neg cs = Ok (y\<lparr>negative := neg \<and> \<not> is_zero y\<rparr>)"
    using assms z(1) y(1) by (simp add: parse_digits_def)
  with y(2,3) limb.val_eq_0 [of "limbs y"] show ?thesis
    by (auto simp: well_formed_def int_of_def is_zero_def)
qed

lemma trim_solid:
  assumes "cs \<noteq> []" "\<not> is_white_space (hd cs)" "\<not> is_white_space (last cs)"
  shows "trim cs = cs"
proof -
  obtain c ds where cs: "cs = c # ds" using assms(1) by (cases cs) auto
  obtain es e where cs': "cs = es @ [e]" using assms(1) by (cases cs rule: rev_cases) auto
  have "dropWhile is_white_space cs = cs" using assms(2) by (simp add: cs)
  moreover have "dropWhile is_white_space (rev cs) = rev cs" using assms(3) by (simp add: cs')
  ultimately show ?thesis by (simp add: trim_def)
qed

lemma digit_not_space: "is_digit c \<Longrightarrow> \<not> is_white_space c" "is_digit c \<Longrightarrow> c \<noteq> 45 \<and> c \<noteq> 43"
  by (auto simp: is_digit_def is_white_space_def)

lemma show_nat_ne [simp]: "show_nat n \<noteq> []"
  by (subst show_nat.simps) simp

lemma show_nat_ends:
  "is_digit (byte (hd (show_nat n)))" "is_digit (byte (last (show_nat n)))"
  using map_byte_show_nat [of n] hd_in_set [of "show_nat n"] last_in_set [of "show_nat n"]
  by (simp_all add: list_all_iff)

lemma parse_display:
  assumes "well_formed x"
  shows "int_parse (map byte (int_display x)) = Ok x"
proof -
  define n where "n = nat \<bar>int_of x\<bar>"
  define cs where "cs = map byte (show_nat n)"
  have cs: "cs \<noteq> []" "list_all is_digit cs" "number cs = n"
    using map_byte_show_nat [of n] by (simp_all add: cs_def)
  have ends: "\<not> is_white_space (hd cs)" "\<not> is_white_space (last cs)" "hd cs \<noteq> 45" "hd cs \<noteq> 43"
    using digit_not_space [OF show_nat_ends(1) [of n]] digit_not_space [OF show_nat_ends(2) [of n]]
    by (simp_all add: cs_def hd_map last_map)
  have eq: "int_parse (map byte (int_display x)) = parse_digits (int_of x < 0) cs"
  proof (cases "int_of x < 0")
    case True
    then have "map byte (int_display x) = 45 # cs"
      using int_display_ok [OF assms] by (simp add: cs_def n_def)
    moreover have "trim (45 # cs) = 45 # cs"
      using ends(2) cs(1) by (intro trim_solid) (auto simp: is_white_space_def)
    ultimately show ?thesis using True by (simp add: int_parse_def)
  next
    case False
    then have "map byte (int_display x) = cs"
      using int_display_ok [OF assms] by (simp add: cs_def n_def)
    moreover have "trim cs = cs" using ends(1,2) cs(1) by (intro trim_solid)
    ultimately show ?thesis using False ends(3,4) cs(1) by (cases cs) (simp_all add: int_parse_def)
  qed
  from parse_digits_ok [OF cs(1,2), of "int_of x < 0"] obtain y where
    y: "parse_digits (int_of x < 0) cs = Ok y" "well_formed y" "int_of y = int_of x"
    by (auto simp: cs(3) n_def)
  with int_of_unique [OF y(2) assms] show ?thesis by (simp add: eq)
qed

section \<open>Properties\<close>

definition minus_two_billion_one :: big_integer where
  "minus_two_billion_one = \<lparr>negative = True, limbs = [1, 2]\<rparr>"

definition seven :: big_integer where
  "seven = \<lparr>negative = False, limbs = [7]\<rparr>"

lemma samples: "well_formed minus_two_billion_one" "well_formed seven"
  by (simp_all add: well_formed_def minus_two_billion_one_def seven_def BASE_def)

text \<open>
  C11: addition, subtraction and multiplication of well-formed big integers never panic
  (no 64-bit sum or product overflows, no limb fails to narrow, no index leaves the
  result), return a well-formed integer, and the number it stands for is the exact sum,
  difference or product.
\<close>

theorem integer_arithmetic_exact:
  assumes "well_formed x" "well_formed y"
  shows "(\<exists>z. int_add x y = Ok z \<and> well_formed z \<and> int_of z = int_of x + int_of y) \<and>
    (\<exists>z. int_subtract x y = Ok z \<and> well_formed z \<and> int_of z = int_of x - int_of y) \<and>
    (\<exists>z. int_multiply x y = Ok z \<and> well_formed z \<and> int_of z = int_of x * int_of y)"
  using int_add_ok [OF assms] int_subtract_ok [OF assms] int_multiply_ok [OF assms] by blast

theorem integer_arithmetic_exact_witness:
  "\<exists>z. int_multiply minus_two_billion_one seven = Ok z \<and> well_formed z \<and> int_of z = - 14000000007"
proof -
  have "int_of minus_two_billion_one * int_of seven = - 14000000007"
    by (simp add: int_of_def minus_two_billion_one_def seven_def BASE_def)
  then show ?thesis using integer_arithmetic_exact [OF samples] by metis
qed

text \<open>
  C28: Euclidean division of a well-formed big integer by a non-zero 32-bit number returns
  the quotient and the remainder with \<open>0 <= remainder < divisor\<close>, for negative
  dividends too, without a panic; a zero divisor is the panic of the source's assertion.
\<close>

theorem integer_division_euclidean:
  assumes "well_formed x"
  shows "if divisor = 0 then div_rem_euclid_small x divisor = Panic
    else (\<exists>q r. div_rem_euclid_small x divisor = Ok (q, r) \<and> well_formed q \<and>
      int_of q = int_of x div int (unat divisor) \<and> int (unat r) = int_of x mod int (unat divisor))"
proof (cases "divisor = 0")
  case False
  from div_rem_ok [OF assms False] obtain q r where
    qr: "div_rem_euclid_small x divisor = Ok (q, r)" "well_formed q" "unat r < unat divisor"
    "int_of x = int_of q * int (unat divisor) + int (unat r)" by blast
  have eq: "int_of x = int (unat divisor) * int_of q + int (unat r)" "0 \<le> int (unat r)"
    "int (unat r) < int (unat divisor)"
    using qr(4) qr(3) by (simp only: mult.commute, simp, simp only: of_nat_less_iff)
  from int_div_pos_eq [OF this] int_mod_pos_eq [OF this]
  show ?thesis using False qr(1,2) by auto
qed (simp add: div_rem_euclid_small_def)

theorem integer_division_euclidean_witness:
  "\<exists>q r. div_rem_euclid_small minus_two_billion_one 7 = Ok (q, r) \<and> int_of q = - 285714286 \<and> int (unat r) = 1"
proof -
  have "int_of minus_two_billion_one = - 2000000001" "(7 :: u32) \<noteq> 0" "int (unat (7 :: u32)) = 7"
    by (simp_all add: int_of_def minus_two_billion_one_def BASE_def)
  then show ?thesis using integer_division_euclidean [OF samples(1), of 7] by auto
qed

text \<open>
  C22: a well-formed big integer is printed as the decimal digits of the number it stands
  for, after a minus sign exactly when it is negative, and parsing what was printed
  returns the same integer.
\<close>

theorem integer_text_roundtrip:
  assumes "well_formed x"
  shows "int_display x = (if int_of x < 0 then ''-'' else '''') @ show_nat (nat \<bar>int_of x\<bar>) \<and>
    int_parse (map byte (int_display x)) = Ok x"
  using int_display_ok [OF assms] parse_display [OF assms] by blast

theorem integer_text_roundtrip_witness:
  "int_parse (map byte (int_display minus_two_billion_one)) = Ok minus_two_billion_one"
  using integer_text_roundtrip [OF samples(1)] by blast

text \<open>
  The comparison of well-formed big integers is that of the numbers they stand for,
  and it is \<open>Equal\<close> exactly for equal representations, so that the derived \<open>Eq\<close> and
  the written \<open>Ord\<close> agree.
\<close>

theorem integer_order:
  assumes "well_formed x" "well_formed y"
  shows "int_cmp x y = compare (int_of x) (int_of y) \<and> (int_cmp x y = Equal \<longleftrightarrow> x = y)"
  using int_cmp_ok [OF assms] int_of_unique [OF assms] by (simp add: compare_Equal)

theorem integer_order_witness: "int_cmp minus_two_billion_one seven = Less"
proof -
  have "int_of minus_two_billion_one < int_of seven"
    by (simp add: int_of_def minus_two_billion_one_def seven_def BASE_def)
  then show ?thesis using integer_order [OF samples] by (simp add: compare_def)
qed

text \<open>
  C30: the conversions at the machine's bounds.  \<open>to_u64\<close> answers exactly for the numbers
  from 0 to \<open>2 ^ 64 - 1\<close>, with that number; \<open>wrapping_i64\<close> reduces any number
  modulo \<open>2 ^ 64\<close>, and gives back every 64-bit number \<open>from_i64\<close> has read.
\<close>

theorem integer_conversion_bounds:
  assumes "well_formed x"
  shows "to_u64 x = (if 0 \<le> int_of x \<and> int_of x \<le> int u64_max then Ok (word_of_int (int_of x)) else Err ()) \<and>
    uint (wrapping_i64 x) = int_of x mod 2 ^ 64 \<and>
    (\<exists>y. from_i64 v = Ok y \<and> well_formed y \<and> int_of y = sint v \<and> wrapping_i64 y = v)"
proof (intro conjI)
  show "uint (wrapping_i64 x) = int_of x mod 2 ^ 64"
    by (simp add: wrapping_i64_ok uint_word_of_int_eq take_bit_eq_mod)
  show "\<exists>y. from_i64 v = Ok y \<and> well_formed y \<and> int_of y = sint v \<and> wrapping_i64 y = v"
    using from_i64_ok [of v] by (auto simp: wrapping_i64_ok)
qed (rule to_u64_ok [OF assms])

theorem integer_conversion_bounds_witness:
  "to_u64 minus_two_billion_one = Err () \<and> uint (wrapping_i64 minus_two_billion_one) = 18446744071709551615"
proof -
  have "int_of minus_two_billion_one = - 2000000001"
    by (simp add: int_of_def minus_two_billion_one_def BASE_def)
  then show ?thesis using integer_conversion_bounds [OF samples(1)] by simp
qed

end
