(* ===== verification/Hell_Runtime_Error.thy ===== *)
theory Hell_Runtime_Error
  imports Hell_Budget
begin

text \<open>
  The structured errors of \<open>crates/hell-runtime/src/lib.rs\<close>: their kinds, the
  constructors with their diagnostic codes, and \<open>Display\<close>.  A code is the string of the
  source; \<open>suppressed\<close> holds the errors of the cleanup that followed.
\<close>

section \<open>Kinds and presentations\<close>

datatype error_kind = UserError | OptionParse | BlackHole | Cancelled | Exit int | Io
  | ResourceLimit | CancellationStalledKind | InternalInvariant

datatype file_operation = WithBinaryFile | OpenFile

datatype directory_operation = CopyFile | CreateDirectory | CreateDirectoryIfMissing | GetFileSize
  | RemoveFile | RenameFile | ListDirectory | RemoveDirectory | SetCurrentDirectory

datatype presentation =
    ListCycleEmpty
  | TextInvalidUtf8 u8
  | TextGetLineEndOfFile
  | FileNotFound string file_operation
  | ProcessNotFound string
  | EnvironmentVariableNotFound string
  | DirectoryOperation directory_operation string "string option"

datatype runtime_error = RuntimeError
  (error_code: string)
  (error_kind: error_kind)
  (error_message: string)
  (error_presentation: "presentation option")
  (suppressed: "runtime_error list")

type_synonym 'a runtime_result = "('a, runtime_error) res"

section \<open>Constructors\<close>

definition plain_error :: "string \<Rightarrow> error_kind \<Rightarrow> string \<Rightarrow> runtime_error" where
  "plain_error code kind message = RuntimeError code kind message None []"

definition user :: "string \<Rightarrow> runtime_error" where
  "user message = plain_error ''H0901'' UserError message"

definition list_cycle_empty :: runtime_error where
  "list_cycle_empty = RuntimeError ''H0901'' UserError ''List.cycle: empty list'' (Some ListCycleEmpty) []"

definition option_parse :: "string \<Rightarrow> runtime_error" where
  "option_parse message = plain_error ''H0901'' OptionParse message"

definition internal :: "string \<Rightarrow> runtime_error" where
  "internal message = plain_error ''H9001'' InternalInvariant message"

definition resource_limit :: "string \<Rightarrow> runtime_error" where
  "resource_limit message = plain_error ''H0803'' ResourceLimit message"

definition cancelled :: runtime_error where
  "cancelled = plain_error ''H0906'' Cancelled ''IO action was cancelled''"

definition cancellation_stalled :: "string \<Rightarrow> runtime_error" where
  "cancellation_stalled message = plain_error ''H0909'' CancellationStalledKind message"

definition exit_requested :: "int \<Rightarrow> runtime_error" where
  "exit_requested status = plain_error ''H0907'' (Exit status) ''guest requested process exit''"

definition panic_contained :: "string \<Rightarrow> runtime_error" where
  "panic_contained message = plain_error ''H9004'' InternalInvariant message"

definition http_error :: "string \<Rightarrow> runtime_error" where
  "http_error message = plain_error ''H0908'' Io message"

definition resource_closed :: "string \<Rightarrow> runtime_error" where
  "resource_closed message = plain_error ''H0909'' Io message"

lemmas error_constructors = plain_error_def user_def option_parse_def internal_def resource_limit_def
  cancelled_def cancellation_stalled_def exit_requested_def panic_contained_def http_error_def
  resource_closed_def list_cycle_empty_def

text \<open>The message of a refused charge or permit, with the \<open>Debug\<close> forms of kind and limit.\<close>

fun show_kind :: "budget_kind \<Rightarrow> string" where
  "show_kind EvaluatorSteps = ''EvaluatorSteps''"
| "show_kind Allocations = ''Allocations''"
| "show_kind LiveThunks = ''LiveThunks''"
| "show_kind MaterializedElements = ''MaterializedElements''"
| "show_kind CapturedBytes = ''CapturedBytes''"
| "show_kind Tasks = ''Tasks''"
| "show_kind Handles = ''Handles''"
| "show_kind Processes = ''Processes''"
| "show_kind HttpConnections = ''HttpConnections''"
| "show_kind TempResources = ''TempResources''"

fun show_limit :: "nat limit \<Rightarrow> string" where
  "show_limit Unlimited = ''Unlimited''"
| "show_limit (At n) = ''At('' @ show_nat n @ '')''"

fun budget_message :: "budget_error \<Rightarrow> string" where
  "budget_message (BudgetOverflowed kind limit operation profile) =
     show_kind kind @ '' budget overflowed: configured='' @ show_limit limit @
     '', observed=integer overflow, operation='' @ operation @ '', profile='' @ profile"
| "budget_message (BudgetExceeded kind maximum next operation profile) =
     show_kind kind @ '' budget exceeded: configured='' @ show_nat maximum @
     '', observed='' @ show_nat next @ '', operation='' @ operation @ '', profile='' @ profile"

definition refused :: "('a, budget_error) res \<Rightarrow> 'a runtime_result" where
  "refused r = (case r of Ok a \<Rightarrow> Ok a | Err e \<Rightarrow> Err (resource_limit (budget_message e)) | Panic \<Rightarrow> Panic)"

section \<open>Display\<close>

definition line_feed :: string where
  "line_feed = [CHR 0x0A]"

definition quote :: string where
  "quote = [CHR 0x27]"

definition hex_digit :: "nat \<Rightarrow> char" where
  "hex_digit n = (if n < 10 then char_of (48 + n) else char_of (87 + n))"

definition missing :: string where
  "missing = ''does not exist (No such file or directory)''"

text \<open>\<open>rename\<close> carries a target path by construction; its absence is a panic.\<close>

fun fmt_directory :: "directory_operation \<Rightarrow> string \<Rightarrow> string option \<Rightarrow> (string, unit) res" where
  "fmt_directory CopyFile path target =
     Ok (''hell: '' @ path @ '': copyFile:atomicCopyFileContents:withReplacementFile:copyFileToHandle:openFdAt: '' @ missing)"
| "fmt_directory CreateDirectory path target =
     Ok (''hell: '' @ path @ '': createDirectory: already exists (File exists)'')"
| "fmt_directory CreateDirectoryIfMissing path target =
     Ok (''hell: '' @ path @ '': createDirectory: '' @ missing)"
| "fmt_directory GetFileSize path target =
     Ok (''hell: '' @ path @ '': getFileSize:getFileStatus: '' @ missing)"
| "fmt_directory RemoveFile path target = Ok (''hell: '' @ path @ '': removeLink: '' @ missing)"
| "fmt_directory RenameFile path target =
     (case target of None \<Rightarrow> Panic | Some t \<Rightarrow>
       Ok (''hell: '' @ path @ '': renameFile:renamePath:rename '' @ quote @ path @ quote @ '' to '' @
           quote @ t @ quote @ '': '' @ missing))"
| "fmt_directory ListDirectory path target =
     Ok (''hell: '' @ path @ '': getDirectoryContents:openDirStream: '' @ missing)"
| "fmt_directory RemoveDirectory path target =
     Ok (''hell: '' @ path @ '': removeDirectory: '' @ missing)"
| "fmt_directory SetCurrentDirectory path target =
     Ok (''hell: '' @ path @ '': changeWorkingDirectory: '' @ missing)"

text \<open>\<open>unix\<close> is the compilation target.\<close>

fun fmt_presentation :: "bool \<Rightarrow> presentation \<Rightarrow> (string, unit) res" where
  "fmt_presentation unix ListCycleEmpty = Ok (
     ''hell: Prelude.cycle: empty list'' @ line_feed @
     ''CallStack (from HasCallStack):'' @ line_feed @
     ''  error, called at libraries/base/GHC/List.hs:2004:3 in base:GHC.List'' @ line_feed @
     ''  errorEmptyList, called at libraries/base/GHC/List.hs:972:27 in base:GHC.List'' @ line_feed @
     ''  cycle, called at src/Hell.hs:1953:4 in main:Main'')"
| "fmt_presentation unix (TextInvalidUtf8 b) = Ok (
     ''hell: Cannot decode byte '' @ quote @ [CHR 0x5C] @ ''x'' @
     [hex_digit (unat b div 16), hex_digit (unat b mod 16)] @ quote @
     '': Data.Text.Encoding: Invalid UTF-8 stream'')"
| "fmt_presentation unix TextGetLineEndOfFile =
     Ok ''hell: <stdin>: Data.ByteString.hGetLine: end of file''"
| "fmt_presentation unix (FileNotFound path op) = Ok (
     ''hell: '' @ path @ '': '' @
     (case op of WithBinaryFile \<Rightarrow> ''withBinaryFile'' | OpenFile \<Rightarrow> ''openFile'') @ '': '' @ missing)"
| "fmt_presentation unix (ProcessNotFound command) = Ok (
     ''hell: '' @ command @ '': startProcess: '' @
     (if unix then ''posix_spawnp'' else ''CreateProcess'') @ '': '' @ missing)"
| "fmt_presentation unix (EnvironmentVariableNotFound name) = Ok (
     ''hell: '' @ name @ '': getEnv: does not exist (no environment variable)'')"
| "fmt_presentation unix (DirectoryOperation op path target) = fmt_directory op path target"

definition fmt_error :: "bool \<Rightarrow> runtime_error \<Rightarrow> (string, unit) res" where
  "fmt_error unix e =
    (case error_presentation e of
       Some p \<Rightarrow> fmt_presentation unix p
     | None \<Rightarrow>
         if error_kind e = UserError then
           Ok (''hell: '' @ error_message e @ line_feed @ ''CallStack (from HasCallStack):'' @ line_feed @
               ''  error, called at src/Hell.hs:1953:4 in main:Main'')
         else Ok (error_code e @ '': '' @ error_message e))"

end
