(* ===== verification/Hell_Tokens.thy ===== *)
theory Hell_Tokens
  imports Hell_Runtime_Error
begin

text \<open>
  The cancellation tokens of \<open>crates/hell-runtime/src/scope.rs\<close>.  A token is a counted
  reference to a state, which knows its parent and its children by weak references: the
  heap of states is a list, a reference an index into it, and a state whose count has
  fallen to zero is gone, so that a weak reference to it no longer upgrades.
  Waiting on the condition variable is not modelled.
\<close>

section \<open>States\<close>

text \<open>\<open>ReasonBudgetExceeded\<close> is the source's \<open>BudgetExceeded\<close>, a name of \<open>Hell_Budget\<close>.\<close>

datatype cancel_reason = Timeout | RaceLost | SiblingFailed | ParentCancelled | UserInterrupt
  | ReasonBudgetExceeded | ScopeClosed

record cancellation =
  reason_set :: "cancel_reason option"
  generation :: u64
  parent_state :: "nat option"
  child_states :: "nat list"
  strong_count :: nat

type_synonym tokens = "cancellation list"

definition fresh_state :: "nat option \<Rightarrow> cancellation" where
  "fresh_state p = \<lparr>reason_set = None, generation = 0, parent_state = p, child_states = [], strong_count = 1\<rparr>"

text \<open>Whether a weak reference upgrades.\<close>

definition live :: "tokens \<Rightarrow> nat \<Rightarrow> bool" where
  "live ts i \<longleftrightarrow> (case vget ts i of None \<Rightarrow> False | Some s \<Rightarrow> strong_count s \<noteq> 0)"

definition upgrade :: "tokens \<Rightarrow> nat option \<Rightarrow> nat option" where
  "upgrade ts w = (case w of None \<Rightarrow> None | Some i \<Rightarrow> if live ts i then Some i else None)"

definition retain_live :: "nat \<Rightarrow> tokens \<Rightarrow> tokens" where
  "retain_live i ts = ts[i := (ts ! i)\<lparr>child_states := filter (live ts) (child_states (ts ! i))\<rparr>]"

section \<open>Creation and destruction\<close>

definition token_new :: "tokens \<Rightarrow> tokens \<times> nat" where
  "token_new ts = (ts @ [fresh_state None], length ts)"

definition token_child :: "nat \<Rightarrow> tokens \<Rightarrow> tokens \<times> nat" where
  "token_child p ts =
    (let ts = retain_live p ts;
         child = length ts;
         ts = ts[p := (ts ! p)\<lparr>child_states := child_states (ts ! p) @ [child]\<rparr>]
     in (ts @ [fresh_state (Some p)], child))"

definition token_clone :: "nat \<Rightarrow> tokens \<Rightarrow> tokens" where
  "token_clone i ts = ts[i := (ts ! i)\<lparr>strong_count := strong_count (ts ! i) + 1\<rparr>]"

text \<open>The last reference first leaves the parent's list, then the state goes.\<close>

definition forget_child :: "nat \<Rightarrow> tokens \<Rightarrow> tokens" where
  "forget_child i ts =
    (case upgrade ts (parent_state (ts ! i)) of
       None \<Rightarrow> ts
     | Some p \<Rightarrow> ts[p := (ts ! p)\<lparr>child_states := filter (\<lambda>c. live ts c \<and> c \<noteq> i) (child_states (ts ! p))\<rparr>])"

definition token_drop :: "nat \<Rightarrow> tokens \<Rightarrow> tokens" where
  "token_drop i ts =
    (let ts = (if strong_count (ts ! i) \<noteq> 1 then ts else forget_child i ts)
     in ts[i := (ts ! i)\<lparr>strong_count := strong_count (ts ! i) - 1\<rparr>])"

section \<open>Cancellation\<close>

text \<open>A child state is told: its generation moves on, its waiters wake.\<close>

definition bump_generation :: "nat \<Rightarrow> tokens \<Rightarrow> tokens" where
  "bump_generation i ts = ts[i := (ts ! i)\<lparr>generation := generation (ts ! i) + 1\<rparr>]"

text \<open>
  \<open>notify_descendants\<close> over a list of children already collected: each is told, then its
  own children, collected after the dead ones are dropped from its list.
\<close>

partial_function (option) notify_children :: "nat list \<Rightarrow> tokens \<Rightarrow> tokens option" where
  "notify_children cs ts =
    (case cs of
       [] \<Rightarrow> Some ts
     | c # cs \<Rightarrow>
         (let ts = retain_live c (bump_generation c ts)
          in Option.bind (notify_children (filter (live ts) (child_states (ts ! c))) ts)
               (notify_children cs)))"

definition notify_descendants :: "nat \<Rightarrow> tokens \<Rightarrow> tokens option" where
  "notify_descendants i ts =
    (let ts = retain_live i ts in notify_children (filter (live ts) (child_states (ts ! i))) ts)"

text \<open>The reason is set once; whoever set it is told so and tells the descendants.\<close>

definition cancel_once :: "nat \<Rightarrow> cancel_reason \<Rightarrow> tokens \<Rightarrow> (tokens \<times> bool) option" where
  "cancel_once i reason ts =
    (if reason_set (ts ! i) = None then
       (let ts = bump_generation i (ts[i := (ts ! i)\<lparr>reason_set := Some reason\<rparr>])
        in map_option (\<lambda>ts. (ts, True)) (notify_descendants i ts))
     else Some (ts, False))"

partial_function (option) cancellation_reason :: "tokens \<Rightarrow> nat \<Rightarrow> cancel_reason option option" where
  "cancellation_reason ts i =
    (case reason_set (ts ! i) of
       Some r \<Rightarrow> Some (Some r)
     | None \<Rightarrow>
         (case upgrade ts (parent_state (ts ! i)) of
            None \<Rightarrow> Some None
          | Some p \<Rightarrow> Option.bind (cancellation_reason ts p)
              (\<lambda>r. Some (map_option (\<lambda>_. ParentCancelled) r))))"

definition token_reason :: "tokens \<Rightarrow> nat \<Rightarrow> cancel_reason option option" where
  "token_reason ts i =
    (case reason_set (ts ! i) of
       Some r \<Rightarrow> Some (Some r)
     | None \<Rightarrow>
         (case upgrade ts (parent_state (ts ! i)) of
            None \<Rightarrow> Some None
          | Some p \<Rightarrow> map_option (map_option (\<lambda>_. ParentCancelled)) (cancellation_reason ts p)))"

definition is_cancelled :: "tokens \<Rightarrow> nat \<Rightarrow> bool option" where
  "is_cancelled ts i = map_option (\<lambda>r. r \<noteq> None) (token_reason ts i)"

definition token_generation :: "tokens \<Rightarrow> nat \<Rightarrow> u64" where
  "token_generation ts i =
    generation (ts ! i) +
    (case upgrade ts (parent_state (ts ! i)) of None \<Rightarrow> 0 | Some p \<Rightarrow> generation (ts ! p))"

definition token_check :: "tokens \<Rightarrow> nat \<Rightarrow> unit runtime_result option" where
  "token_check ts i = map_option (\<lambda>c. if c then Err cancelled else Ok ()) (is_cancelled ts i)"

declare notify_children.simps [code] cancellation_reason.simps [code]

end
