(* ===== verification/Hell_Scope.thy ===== *)
theory Hell_Scope
  imports Hell_Tokens
begin

text \<open>
  \<open>crates/hell-runtime/src/scope.rs\<close>: execution scopes, which own resources, finalizers
  and tasks and clean them up when closed.  The scopes sharing one budget live in a heap,
  a list indexed by scope identity (the source counts identities from 1), with weak
  references to parents and children as in \<open>Hell_Tokens\<close>.

  A resource and a finalizer are code of the client: functions on a world \<open>'w\<close> of the
  client's choosing, any of which may panic.  A task runs on a thread of its own; the
  model takes from it what it leaves in the scope, its result (\<open>task_return\<close>), and, while
  a closing scope waits, which tasks come to their end before the deadlines (\<open>quiesces\<close>).
  An operation is one step: what other threads, or callbacks that use the scope again, do
  between its parts is outside the model, but for the two halves of a registration.  The
  recursions of \<open>cancel\<close>, \<open>notify_descendants\<close> and \<open>close\<close> run on the native stack, which
  the model does not bound.
  Mutex poisoning, the process-wide list of stalled threads and the time a wait takes are
  not modelled.
\<close>

section \<open>Resources, finalizers, failures\<close>

datatype resource_kind = HandleResource | ProcessResource | ListenerResource | SocketResource
  | TemporaryResource | OtherResource

record 'w resource =
  res_kind :: resource_kind
  request_cancel :: "cancel_reason \<Rightarrow> 'w \<Rightarrow> 'w \<times> unit runtime_result"
  release :: "'w \<Rightarrow> 'w \<times> unit runtime_result"
  is_closed :: "'w \<Rightarrow> bool"

type_synonym 'w finalizer = "'w \<Rightarrow> 'w \<times> unit runtime_result"

datatype cleanup_failure =
    ResourceFailure nat resource_kind runtime_error
  | FinalizerFailure runtime_error
  | TaskPanic nat
  | StalledTasks "nat list"

fun show_ids :: "nat list \<Rightarrow> string" where
  "show_ids [] = []"
| "show_ids [n] = show_nat n"
| "show_ids (n # ns) = show_nat n @ '', '' @ show_ids ns"

fun failure_error :: "cleanup_failure \<Rightarrow> runtime_error" where
  "failure_error (ResourceFailure i k e) = e"
| "failure_error (FinalizerFailure e) = e"
| "failure_error (TaskPanic i) = panic_contained (''scoped task '' @ show_nat i @ '' panicked'')"
| "failure_error (StalledTasks ids) = cancellation_stalled (''CancellationStalled: tasks ['' @ show_ids ids @
     ''] did not quiesce before the forced deadline'')"

text \<open>The phases of the cleanup, each in the order it visits the entries.\<close>

fun cancel_resources ::
  "cancel_reason \<Rightarrow> (nat \<times> 'w resource) list \<Rightarrow> 'w \<Rightarrow> 'w \<times> cleanup_failure list" where
  "cancel_resources reason [] w = (w, [])"
| "cancel_resources reason ((i, r) # rs) w =
    (let (w, result) = request_cancel r reason w;
         (w, failures) = cancel_resources reason rs w
     in (w, (if result = Panic
             then [ResourceFailure i (res_kind r) (panic_contained ''scoped resource cancellation panicked'')]
             else []) @ failures))"

fun close_resources :: "(nat \<times> 'w resource) list \<Rightarrow> 'w \<Rightarrow> 'w \<times> cleanup_failure list" where
  "close_resources [] w = (w, [])"
| "close_resources ((i, r) # rs) w =
    (if is_closed r w then close_resources rs w
     else (let (w, result) = release r w; (w, failures) = close_resources rs w
           in (w, (case result of
                     Ok _ \<Rightarrow> failures
                   | Err e \<Rightarrow> ResourceFailure i (res_kind r) e # failures
                   | Panic \<Rightarrow> ResourceFailure i (res_kind r)
                       (panic_contained ''scoped resource close panicked'') # failures))))"

fun run_finalizers :: "'w finalizer list \<Rightarrow> 'w \<Rightarrow> 'w \<times> cleanup_failure list" where
  "run_finalizers [] w = (w, [])"
| "run_finalizers (f # fs) w =
    (let (w, result) = f w; (w, failures) = run_finalizers fs w
     in (w, (case result of
               Ok _ \<Rightarrow> failures
             | Err e \<Rightarrow> FinalizerFailure e # failures
             | Panic \<Rightarrow> FinalizerFailure (panic_contained ''scope finalizer panicked'') # failures)))"

section \<open>Scopes\<close>

record task =
  finished :: bool
  worker_panicked :: bool

record 'w scope =
  scope_token :: nat
  scope_deadline :: "nat option"
  scope_policy :: runtime_policy
  tasks :: "(nat \<times> task) list"
  entries :: "(nat \<times> 'w resource) list"
  cancellation_failures :: "cleanup_failure list"
  finalizers :: "'w finalizer list"
  scope_children :: "nat list"
  scope_parent :: "nat option"
  closed :: bool
  scope_refs :: nat

record 'w system =
  scopes :: "'w scope list"
  tokens :: tokens
  budget :: budget
  world :: 'w
  task_ids :: nat
  resource_ids :: nat

definition on_scope :: "nat \<Rightarrow> ('w scope \<Rightarrow> 'w scope) \<Rightarrow> 'w system \<Rightarrow> 'w system" where
  "on_scope i f sys = sys\<lparr>scopes := (scopes sys)[i := f (scopes sys ! i)]\<rparr>"

definition scope_live :: "'w system \<Rightarrow> nat \<Rightarrow> bool" where
  "scope_live sys i \<longleftrightarrow> (case vget (scopes sys) i of None \<Rightarrow> False | Some s \<Rightarrow> scope_refs s \<noteq> 0)"

definition earliest :: "nat option \<Rightarrow> nat option \<Rightarrow> nat option" where
  "earliest a b =
    (case (a, b) of
       (Some l, Some r) \<Rightarrow> Some (min l r)
     | (Some v, None) \<Rightarrow> Some v
     | (None, Some v) \<Rightarrow> Some v
     | (None, None) \<Rightarrow> None)"

definition expired :: "nat \<Rightarrow> nat option \<Rightarrow> bool" where
  "expired now d = (case d of None \<Rightarrow> False | Some v \<Rightarrow> v \<le> now)"

definition fresh_scope :: "nat \<Rightarrow> nat option \<Rightarrow> runtime_policy \<Rightarrow> nat option \<Rightarrow> 'w scope" where
  "fresh_scope t deadline p parent =
    \<lparr>scope_token = t, scope_deadline = deadline, scope_policy = p, tasks = [], entries = [],
     cancellation_failures = [], finalizers = [], scope_children = [], scope_parent = parent,
     closed = False, scope_refs = 1\<rparr>"

definition scope_root :: "runtime_policy \<Rightarrow> 'w system \<Rightarrow> 'w system \<times> nat" where
  "scope_root p sys =
    (let (ts, t) = token_new (tokens sys)
     in (sys\<lparr>tokens := ts, scopes := scopes sys @ [fresh_scope t None p None]\<rparr>, length (scopes sys)))"

definition scope_child :: "nat \<Rightarrow> nat option \<Rightarrow> 'w system \<Rightarrow> 'w system \<times> nat runtime_result" where
  "scope_child i deadline sys =
    (let s = scopes sys ! i in
     if closed s then (sys, Err (resource_closed ''cannot create a child of a closed execution scope''))
     else (let (ts, t) = token_child (scope_token s) (tokens sys);
               child = length (scopes sys);
               c = fresh_scope t (earliest (scope_deadline s) deadline) (scope_policy s) (Some i);
               sys = sys\<lparr>tokens := ts, scopes := scopes sys @ [c]\<rparr>
           in (on_scope i (\<lambda>s. s\<lparr>scope_children := insort child (scope_children s)\<rparr>) sys, Ok child)))"

text \<open>
  Registering is two steps in the sources, a load of \<open>closed\<close> and, under another lock, the
  push; a thread can be between them while the scope is closed.
\<close>

definition register_entry :: "nat \<Rightarrow> 'w resource \<Rightarrow> 'w system \<Rightarrow> 'w system \<times> nat" where
  "register_entry i r sys =
    (let rid = resource_ids sys; sys = sys\<lparr>resource_ids := rid + 1\<rparr>
     in (on_scope i (\<lambda>s. s\<lparr>entries := entries s @ [(rid, r)]\<rparr>) sys, rid))"

definition register :: "nat \<Rightarrow> 'w resource \<Rightarrow> 'w system \<Rightarrow> 'w system \<times> nat runtime_result" where
  "register i r sys =
    (if closed (scopes sys ! i)
     then (sys, Err (resource_closed ''cannot register a resource in a closed execution scope''))
     else (let (sys, rid) = register_entry i r sys in (sys, Ok rid)))"

definition push_finalizer :: "nat \<Rightarrow> 'w finalizer \<Rightarrow> 'w system \<Rightarrow> 'w system" where
  "push_finalizer i f sys = on_scope i (\<lambda>s. s\<lparr>finalizers := finalizers s @ [f]\<rparr>) sys"

definition defer_finalizer :: "nat \<Rightarrow> 'w finalizer \<Rightarrow> 'w system \<Rightarrow> 'w system \<times> unit runtime_result" where
  "defer_finalizer i f sys =
    (if closed (scopes sys ! i)
     then (sys, Err (resource_closed ''cannot register a finalizer in a closed execution scope''))
     else (push_finalizer i f sys, Ok ()))"

section \<open>Cancelling\<close>

text \<open>
  The scope itself: its token, then its resources, the last registered first.  The live
  children to go on with are none when the token was cancelled before.
\<close>

definition cancel_here ::
  "nat \<Rightarrow> cancel_reason \<Rightarrow> 'w system \<Rightarrow> ('w system \<times> nat list) option" where
  "cancel_here i reason sys =
    (case cancel_once (scope_token (scopes sys ! i)) reason (tokens sys) of
       None \<Rightarrow> None
     | Some (ts, first) \<Rightarrow>
         if \<not> first then Some (sys\<lparr>tokens := ts\<rparr>, [])
         else (let (w, failures) = cancel_resources reason (rev (entries (scopes sys ! i))) (world sys);
                   sys = sys\<lparr>tokens := ts, world := w\<rparr>;
                   sys = on_scope i (\<lambda>s. s\<lparr>cancellation_failures := cancellation_failures s @ failures\<rparr>) sys
               in Some (sys, filter (scope_live sys) (scope_children (scopes sys ! i)))))"

partial_function (option) cancel_children :: "nat list \<Rightarrow> 'w system \<Rightarrow> 'w system option" where
  "cancel_children cs sys =
    (case cs of
       [] \<Rightarrow> Some sys
     | c # cs \<Rightarrow> Option.bind (cancel_here c ParentCancelled sys)
         (\<lambda>(sys, below). Option.bind (cancel_children below sys) (cancel_children cs)))"

definition scope_cancel :: "nat \<Rightarrow> cancel_reason \<Rightarrow> 'w system \<Rightarrow> 'w system option" where
  "scope_cancel i reason sys =
    Option.bind (cancel_here i reason sys) (\<lambda>(sys, below). cancel_children below sys)"

definition safepoint :: "nat \<Rightarrow> nat \<Rightarrow> 'w system \<Rightarrow> ('w system \<times> unit runtime_result) option" where
  "safepoint now i sys =
    (if closed (scopes sys ! i) then Some (sys, Err (resource_closed ''execution scope is closed''))
     else Option.bind
            (if expired now (scope_deadline (scopes sys ! i)) then scope_cancel i Timeout sys else Some sys)
            (\<lambda>sys. map_option (\<lambda>r. (sys, r)) (token_check (tokens sys) (scope_token (scopes sys ! i)))))"

section \<open>Closing\<close>

record scope_snapshot =
  child_scopes :: nat
  live_task_count :: nat
  resource_count :: nat
  finalizer_count :: nat
  snapshot_budget :: budget_snapshot

definition live_count :: "'w scope \<Rightarrow> nat" where
  "live_count s = length (filter (\<lambda>(i, t). \<not> finished t) (tasks s))"

definition scope_snapshot_of :: "nat \<Rightarrow> 'w system \<Rightarrow> scope_snapshot" where
  "scope_snapshot_of i sys =
    (let s = scopes sys ! i in
     \<lparr>child_scopes = length (filter (scope_live sys) (scope_children s)),
      live_task_count = live_count s, resource_count = length (entries s),
      finalizer_count = length (finalizers s), snapshot_budget = snapshot (budget sys)\<rparr>)"

record close_report =
  report_scope :: nat
  report_failures :: "cleanup_failure list"
  report_before :: scope_snapshot
  report_after :: scope_snapshot

text \<open>
  The primary error, or else the first failure, with what it already suppressed and then
  the rest of the failures suppressed in it.
\<close>

definition combine_failures :: "runtime_error option \<Rightarrow> cleanup_failure list \<Rightarrow> runtime_error" where
  "combine_failures primary failures =
    (let errors = map failure_error failures;
         (primary, errors) =
           (case primary of
              Some p \<Rightarrow> (p, errors)
            | None \<Rightarrow> (case errors of
                [] \<Rightarrow> (internal ''execution scope failed without a recorded cleanup error'', [])
              | e # es \<Rightarrow> (e, es)))
     in RuntimeError (error_code primary) (error_kind primary) (error_message primary)
          (error_presentation primary) (suppressed primary @ errors))"

text \<open>While the scope waits, some of its unfinished tasks end and give back their permit.\<close>

definition await_tasks :: "(nat \<Rightarrow> bool) \<Rightarrow> nat \<Rightarrow> 'w system \<Rightarrow> 'w system" where
  "await_tasks quiesces i sys =
    (let ending = filter (\<lambda>(t, r). \<not> finished r \<and> quiesces t) (tasks (scopes sys ! i));
         sys = sys\<lparr>budget := (drop_permit Tasks ^^ length ending) (budget sys)\<rparr>
     in on_scope i (\<lambda>s. s\<lparr>tasks := map (\<lambda>(t, r). (t, if quiesces t then r\<lparr>finished := True\<rparr> else r)) (tasks s)\<rparr>) sys)"

definition stalled_tasks :: "'w scope \<Rightarrow> nat list" where
  "stalled_tasks s = map fst (filter (\<lambda>(t, r). \<not> finished r) (tasks s))"

definition panicked_tasks :: "'w scope \<Rightarrow> nat list" where
  "panicked_tasks s = map fst (filter (\<lambda>(t, r). finished r \<and> worker_panicked r) (tasks s))"

definition begin_close :: "nat \<Rightarrow> 'w system \<Rightarrow> 'w system option" where
  "begin_close i sys = scope_cancel i ScopeClosed (on_scope i (\<lambda>s. s\<lparr>closed := True\<rparr>) sys)"

definition closing_order :: "nat \<Rightarrow> 'w system \<Rightarrow> nat list" where
  "closing_order i sys = rev (filter (scope_live sys) (scope_children (scopes sys ! i)))"

definition leave_parent :: "nat \<Rightarrow> 'w system \<Rightarrow> 'w system" where
  "leave_parent i sys =
    (case scope_parent (scopes sys ! i) of
       None \<Rightarrow> sys
     | Some p \<Rightarrow> if scope_live sys p
         then on_scope p (\<lambda>s. s\<lparr>scope_children := removeAll i (scope_children s)\<rparr>) sys else sys)"

text \<open>What follows the children: tasks, resources, finalizers, the parent's map.\<close>

definition end_close ::
  "(nat \<Rightarrow> bool) \<Rightarrow> nat \<Rightarrow> cleanup_failure list \<Rightarrow> 'w system \<Rightarrow> 'w system \<times> cleanup_failure list" where
  "end_close quiesces i failures sys =
    (let sys = on_scope i (\<lambda>s. s\<lparr>scope_children := []\<rparr>) sys;
         sys = await_tasks quiesces i sys;
         s = scopes sys ! i;
         failures = failures @ map TaskPanic (panicked_tasks s) @
           (if stalled_tasks s \<noteq> [] \<and> stalled_cleanup_is_error (policy_cancellation (scope_policy s))
            then [StalledTasks (stalled_tasks s)] else []) @ cancellation_failures s;
         (w, closing) = close_resources (rev (entries s)) (world sys);
         (w, finalizing) = run_finalizers (rev (finalizers s)) w;
         sys = on_scope i (\<lambda>s. s\<lparr>tasks := [], entries := [], cancellation_failures := [], finalizers := []\<rparr>)
                 (sys\<lparr>world := w\<rparr>)
     in (leave_parent i sys, failures @ closing @ finalizing))"

text \<open>The children in turn, each closed with its own descendants; their failures.\<close>

partial_function (option) close_children ::
  "(nat \<Rightarrow> bool) \<Rightarrow> nat list \<Rightarrow> 'w system \<Rightarrow> ('w system \<times> cleanup_failure list) option" where
  "close_children quiesces cs sys =
    (case cs of
       [] \<Rightarrow> Some (sys, [])
     | c # cs \<Rightarrow>
         if closed (scopes sys ! c) then close_children quiesces cs sys
         else Option.bind (begin_close c sys) (\<lambda>sys.
              Option.bind (close_children quiesces (closing_order c sys) sys) (\<lambda>(sys, below).
              let (sys, failures) = end_close quiesces c below sys
              in Option.bind (close_children quiesces cs sys) (\<lambda>(sys, rest).
                 Some (sys, (if failures = [] then [] else [FinalizerFailure (combine_failures None failures)]) @ rest)))))"

definition close_with_primary ::
  "(nat \<Rightarrow> bool) \<Rightarrow> nat \<Rightarrow> runtime_error option \<Rightarrow> 'w system \<Rightarrow>
   ('w system \<times> close_report runtime_result) option" where
  "close_with_primary quiesces i primary sys =
    (let before = scope_snapshot_of i sys in
     if closed (scopes sys ! i) then
       Some (sys, (case primary of
                     Some e \<Rightarrow> Err e
                   | None \<Rightarrow> Ok \<lparr>report_scope = i, report_failures = [], report_before = before, report_after = before\<rparr>))
     else Option.bind (begin_close i sys) (\<lambda>sys.
          Option.bind (close_children quiesces (closing_order i sys) sys) (\<lambda>(sys, below).
          let (sys, failures) = end_close quiesces i below sys;
              report = \<lparr>report_scope = i, report_failures = failures, report_before = before,
                        report_after = scope_snapshot_of i sys\<rparr>
          in Some (sys, (if primary \<noteq> None \<or> failures \<noteq> [] then Err (combine_failures primary failures)
                         else Ok report)))))"

definition scope_close ::
  "(nat \<Rightarrow> bool) \<Rightarrow> nat \<Rightarrow> 'w system \<Rightarrow> ('w system \<times> close_report runtime_result) option" where
  "scope_close quiesces i = close_with_primary quiesces i None"

text \<open>Dropping an armed guard closes its scope and ignores the result.\<close>

definition guard_drop :: "(nat \<Rightarrow> bool) \<Rightarrow> bool \<Rightarrow> nat \<Rightarrow> 'w system \<Rightarrow> 'w system option" where
  "guard_drop quiesces armed i sys =
    (if armed then map_option fst (scope_close quiesces i sys) else Some sys)"

section \<open>References and tasks\<close>

text \<open>With the last reference the scope and the token it owns go; nothing is run.\<close>

definition scope_drop :: "nat \<Rightarrow> 'w system \<Rightarrow> 'w system" where
  "scope_drop i sys =
    (let s = scopes sys ! i;
         sys = on_scope i (\<lambda>s. s\<lparr>scope_refs := scope_refs s - 1\<rparr>) sys
     in if scope_refs s = 1 then sys\<lparr>tokens := token_drop (scope_token s) (tokens sys)\<rparr> else sys)"

definition scope_clone :: "nat \<Rightarrow> 'w system \<Rightarrow> 'w system" where
  "scope_clone i = on_scope i (\<lambda>s. s\<lparr>scope_refs := scope_refs s + 1\<rparr>)"

text \<open>
  Admission takes a permit and a child scope, which move into the thread; \<open>started\<close> is
  whether the operating system gave one, and otherwise both are dropped.
\<close>

definition spawn :: "bool \<Rightarrow> string \<Rightarrow> nat \<Rightarrow> 'w system \<Rightarrow> 'w system \<times> (nat \<times> nat) runtime_result" where
  "spawn started os_error i sys =
    (if closed (scopes sys ! i)
     then (sys, Err (resource_closed ''cannot spawn a task in a closed execution scope''))
     else
       (case acquire_task (budget sys) of
          (b, Err e) \<Rightarrow> (sys\<lparr>budget := b\<rparr>, Err (resource_limit (budget_message e)))
        | (b, Panic) \<Rightarrow> (sys\<lparr>budget := b\<rparr>, Panic)
        | (b, Ok permit) \<Rightarrow>
            (case scope_child i None (sys\<lparr>budget := b\<rparr>) of
               (sys, Err e) \<Rightarrow> (sys\<lparr>budget := drop_permit permit (budget sys)\<rparr>, Err e)
             | (sys, Panic) \<Rightarrow> (sys, Panic)
             | (sys, Ok child) \<Rightarrow>
                 (let task = task_ids sys; sys = sys\<lparr>task_ids := task + 1\<rparr> in
                  if started then
                    (on_scope i (\<lambda>s. s\<lparr>tasks := insort_key fst (task, \<lparr>finished = False, worker_panicked = False\<rparr>) (tasks s)\<rparr>) sys,
                     Ok (task, child))
                  else
                    (on_scope i (\<lambda>s. s\<lparr>scope_children := removeAll child (scope_children s)\<rparr>)
                       (scope_drop child (sys\<lparr>budget := drop_permit permit (budget sys)\<rparr>)),
                     Err (internal (''failed to spawn scoped task: '' @ os_error)))))))"

text \<open>The thread after the task's own code: a panic of the task is an error like another.\<close>

definition task_return ::
  "(nat \<Rightarrow> bool) \<Rightarrow> nat \<Rightarrow> nat \<Rightarrow> nat \<Rightarrow> 'a runtime_result \<Rightarrow> 'w system \<Rightarrow>
   ('w system \<times> 'a runtime_result) option" where
  "task_return quiesces i task child outcome sys =
    (let outcome = (case outcome of Panic \<Rightarrow> Err (panic_contained ''scoped task panicked'') | r \<Rightarrow> r)
     in map_option (\<lambda>(sys, result).
          (scope_drop child (on_scope i (\<lambda>s. s\<lparr>tasks :=
             map (\<lambda>(t, r). (t, if t = task then r\<lparr>finished := True\<rparr> else r)) (tasks s)\<rparr>)
             (sys\<lparr>budget := drop_permit Tasks (budget sys)\<rparr>)), result))
        (case outcome of
           Ok v \<Rightarrow> map_option (\<lambda>(sys, r). (sys, res_bind r (\<lambda>_. Ok v))) (close_with_primary quiesces child None sys)
         | Err e \<Rightarrow> map_option (\<lambda>(sys, r). (sys, res_bind r (\<lambda>_. Err (internal
               ''failed scoped task unexpectedly closed without its primary error''))))
             (close_with_primary quiesces child (Some e) sys)
         | Panic \<Rightarrow> Some (sys, Panic)))"

declare cancel_children.simps [code] close_children.simps [code]

end
