(* ===== verification/Hell_Token_Tree.thy ===== *)
theory Hell_Token_Tree
  imports Hell_Tokens
begin

text \<open>
  The tokens of \<open>Hell_Tokens\<close> as a tree: the well-formedness every operation keeps, the
  relation \<open>linked\<close> of a state to itself and its ancestors through references that still
  upgrade, and what a token answers in terms of it.
\<close>

section \<open>Well-formed heaps of states\<close>

text \<open>
  A parent is older than its children; a child list holds each child of the state at most
  once and every live one; a live token's state is in the heap.
\<close>

definition tree_ok :: "tokens \<Rightarrow> bool" where
  "tree_ok ts \<longleftrightarrow> (\<forall>i < length ts.
     (\<forall>p. parent_state (ts ! i) = Some p \<longrightarrow> p < i \<and> (live ts i \<longrightarrow> i \<in> set (child_states (ts ! p)))) \<and>
     distinct (child_states (ts ! i)) \<and>
     (\<forall>c \<in> set (child_states (ts ! i)). c < length ts \<and> parent_state (ts ! c) = Some i))"

lemma tree_okI:
  assumes "\<And>i p. i < length ts \<Longrightarrow> parent_state (ts ! i) = Some p \<Longrightarrow> p < i"
    and "\<And>i p. i < length ts \<Longrightarrow> parent_state (ts ! i) = Some p \<Longrightarrow> live ts i \<Longrightarrow> i \<in> set (child_states (ts ! p))"
    and "\<And>i. i < length ts \<Longrightarrow> distinct (child_states (ts ! i))"
    and "\<And>i c. i < length ts \<Longrightarrow> c \<in> set (child_states (ts ! i)) \<Longrightarrow> c < length ts \<and> parent_state (ts ! c) = Some i"
  shows "tree_ok ts"
  using assms unfolding tree_ok_def by blast

lemma tree_okD:
  assumes "tree_ok ts" "i < length ts"
  shows "parent_state (ts ! i) = Some p \<Longrightarrow> p < i"
    and "parent_state (ts ! i) = Some p \<Longrightarrow> live ts i \<Longrightarrow> i \<in> set (child_states (ts ! p))"
    and "distinct (child_states (ts ! i))"
    and "c \<in> set (child_states (ts ! i)) \<Longrightarrow> c < length ts \<and> parent_state (ts ! c) = Some i"
  using assms unfolding tree_ok_def by blast+

lemma live_nth [simp]: "i < length ts \<Longrightarrow> live ts i \<longleftrightarrow> strong_count (ts ! i) \<noteq> 0"
  by (simp add: live_def)

lemma live_out [simp]: "length ts \<le> i \<Longrightarrow> \<not> live ts i"
  by (simp add: live_def vget_def)

lemma live_in: "live ts i \<Longrightarrow> i < length ts"
  by (cases "i < length ts") auto

lemma upgrade_Some: "upgrade ts w = Some p \<longleftrightarrow> w = Some p \<and> live ts p"
  by (cases w) (auto simp: upgrade_def)

lemma child_greater: "tree_ok ts \<Longrightarrow> i < length ts \<Longrightarrow> c \<in> set (child_states (ts ! i)) \<Longrightarrow> i < c \<and> c < length ts"
  using tree_okD(1,4) by blast

lemma nth_update: "j < length xs \<Longrightarrow> xs[i := x] ! j = (if i = j then x else xs ! j)"
  by (auto simp: nth_list_update)

section \<open>What telling the descendants changes\<close>

text \<open>Generations aside, only dead children leave their lists.\<close>

definition tells :: "tokens \<Rightarrow> tokens \<Rightarrow> bool" where
  "tells ts ts' \<longleftrightarrow> length ts' = length ts \<and> (\<forall>i < length ts.
     reason_set (ts' ! i) = reason_set (ts ! i) \<and> parent_state (ts' ! i) = parent_state (ts ! i) \<and>
     strong_count (ts' ! i) = strong_count (ts ! i) \<and>
     child_states (ts' ! i) \<in> {child_states (ts ! i), filter (live ts) (child_states (ts ! i))})"

lemma tells_live: "tells ts ts' \<Longrightarrow> live ts' = live ts"
proof
  fix i
  assume "tells ts ts'"
  then show "live ts' i = live ts i" by (cases "i < length ts") (auto simp: tells_def)
qed

lemma tells_refl [simp]: "tells ts ts"
  by (simp add: tells_def)

lemma tells_trans:
  assumes "tells a b" "tells b c"
  shows "tells a c"
  unfolding tells_def
proof (intro conjI allI impI)
  show "length c = length a" using assms by (simp add: tells_def)
  fix i assume "i < length a"
  with assms tells_live [OF assms(1)] show "reason_set (c ! i) = reason_set (a ! i)"
    "parent_state (c ! i) = parent_state (a ! i)" "strong_count (c ! i) = strong_count (a ! i)"
    "child_states (c ! i) \<in> {child_states (a ! i), filter (live a) (child_states (a ! i))}"
    by (fastforce simp: tells_def)+
qed

lemma tells_bump_generation: "tells ts (bump_generation i ts)"
  by (auto simp: tells_def bump_generation_def nth_update)

lemma tells_retain: "tells ts (retain_live i ts)"
  by (auto simp: tells_def retain_live_def nth_update)

lemma tells_tree_ok:
  assumes "tells ts ts'" "tree_ok ts"
  shows "tree_ok ts'"
proof -
  have sub: "set (child_states (ts' ! i)) \<subseteq> set (child_states (ts ! i))" if "i < length ts" for i
    using assms(1) that by (fastforce simp: tells_def)
  have keep: "c \<in> set (child_states (ts' ! i))"
    if "i < length ts" "c \<in> set (child_states (ts ! i))" "live ts c" for i c
    using assms(1) that by (fastforce simp: tells_def)
  note live = tells_live [OF assms(1)]
  show ?thesis
  proof (rule tree_okI, goal_cases)
    case (1 i p)
    then show ?case using assms tree_okD(1) by (fastforce simp: tells_def)
  next
    case (2 i p)
    then have "i < length ts" "parent_state (ts ! i) = Some p" "live ts i"
      using assms(1) by (auto simp: tells_def live)
    then show ?case using tree_okD(1,2) [OF assms(2)] keep by (meson order.strict_trans)
  next
    case (3 i)
    then show ?case using assms tree_okD(3) by (fastforce simp: tells_def)
  next
    case (4 i c)
    then have "i < length ts" "c \<in> set (child_states (ts ! i))"
      using assms(1) sub by (auto simp: tells_def)
    then show ?case using assms tree_okD(4) by (fastforce simp: tells_def)
  qed
qed

lemma notify_children_returns:
  assumes "tree_ok ts" "\<forall>c\<in>set cs. c < length ts \<and> length ts - c \<le> m"
  shows "\<exists>ts'. notify_children cs ts = Some ts' \<and> tells ts ts'"
  using assms
proof (induction m arbitrary: cs ts)
  case 0
  then have "cs = []" by (cases cs) auto
  then show ?case by (simp add: notify_children.simps)
next
  case (Suc m)
  show ?case
    using Suc.prems
  proof (induction cs arbitrary: ts)
    case Nil
    then show ?case by (simp add: notify_children.simps)
  next
    case (Cons c cs)
    define t where "t = retain_live c (bump_generation c ts)"
    have t: "tells ts t" unfolding t_def using tells_bump_generation tells_retain tells_trans by blast
    have ok: "tree_ok t" and len: "length t = length ts"
      using tells_tree_ok [OF t Cons.prems(1)] t by (simp_all add: tells_def)
    have c: "c < length t" "length t - c \<le> Suc m" using Cons.prems(2) len by auto
    have "\<forall>d\<in>set (filter (live t) (child_states (t ! c))). d < length t \<and> length t - d \<le> m"
    proof
      fix d
      assume "d \<in> set (filter (live t) (child_states (t ! c)))"
      then have "c < d \<and> d < length t" using child_greater [OF ok c(1)] by simp
      with c(2) show "d < length t \<and> length t - d \<le> m" by linarith
    qed
    from Suc.IH [OF ok this] obtain u where
      u: "notify_children (filter (live t) (child_states (t ! c))) t = Some u" "tells t u" by blast
    have "tree_ok u" "length u = length ts" using tells_tree_ok [OF u(2) ok] u(2) len by (simp_all add: tells_def)
    from Cons.IH [of u] this Cons.prems(2) obtain v where "notify_children cs u = Some v" "tells u v" by auto
    with u t show ?case
      by (subst notify_children.simps) (auto simp: Let_def t_def [symmetric] intro: tells_trans)
  qed
qed

lemma notify_descendants_returns:
  assumes "tree_ok ts" "i < length ts"
  shows "\<exists>ts'. notify_descendants i ts = Some ts' \<and> tells ts ts'"
proof -
  define t where "t = retain_live i ts"
  have t: "tells ts t" "tree_ok t" "length t = length ts"
    using tells_retain [of ts i] tells_tree_ok [OF tells_retain assms(1)] by (auto simp: t_def tells_def)
  have "\<forall>c\<in>set (filter (live t) (child_states (t ! i))). c < length t \<and> length t - c \<le> length t"
    using child_greater [OF t(2), of i] assms(2) t(3) by auto
  from notify_children_returns [OF t(2) this] t(1) show ?thesis
    by (auto simp: notify_descendants_def Let_def t_def [symmetric] intro: tells_trans)
qed

section \<open>Ancestors through live references\<close>

inductive linked :: "tokens \<Rightarrow> nat \<Rightarrow> nat \<Rightarrow> bool" for ts where
  itself: "linked ts i i"
| up: "upgrade ts (parent_state (ts ! i)) = Some p \<Longrightarrow> linked ts p j \<Longrightarrow> linked ts i j"

inductive_cases linkedE: "linked ts i j"

lemma linked_step:
  "linked ts i j \<longleftrightarrow> i = j \<or> (\<exists>p. upgrade ts (parent_state (ts ! i)) = Some p \<and> linked ts p j)"
  by (auto elim: linkedE intro: linked.intros)

lemma linked_trans: "linked ts i j \<Longrightarrow> linked ts j k \<Longrightarrow> linked ts i k"
  by (induction rule: linked.induct) (auto intro: linked.intros)

lemma linked_le: "linked ts i j \<Longrightarrow> tree_ok ts \<Longrightarrow> i < length ts \<Longrightarrow> j \<le> i"
proof (induction rule: linked.induct)
  case (up i p j)
  then have "p < i" using tree_okD(1) [OF up.prems] by (simp add: upgrade_Some)
  with up show ?case by (meson order.strict_implies_order order.trans order.strict_trans1 less_trans)
qed simp

definition token_stopped :: "tokens \<Rightarrow> nat \<Rightarrow> bool" where
  "token_stopped ts i \<longleftrightarrow> (\<exists>j. linked ts i j \<and> reason_set (ts ! j) \<noteq> None)"

lemma token_stopped_step:
  "token_stopped ts i \<longleftrightarrow> reason_set (ts ! i) \<noteq> None \<or> (\<exists>p. upgrade ts (parent_state (ts ! i)) = Some p \<and> token_stopped ts p)"
  unfolding token_stopped_def by (subst linked_step) blast

definition reason_of :: "tokens \<Rightarrow> nat \<Rightarrow> cancel_reason option" where
  "reason_of ts i =
    (case reason_set (ts ! i) of Some r \<Rightarrow> Some r | None \<Rightarrow> if token_stopped ts i then Some ParentCancelled else None)"

lemma reason_of_None: "reason_of ts i = None \<longleftrightarrow> \<not> token_stopped ts i"
  using token_stopped_step [of ts i] by (auto simp: reason_of_def split: option.splits)

lemma cancellation_reason_eq:
  assumes "tree_ok ts" "i < length ts"
  shows "cancellation_reason ts i = Some (reason_of ts i)"
  using assms(2)
proof (induction i rule: less_induct)
  case (less i)
  show ?case
  proof (cases "reason_set (ts ! i)")
    case None
    show ?thesis
    proof (cases "upgrade ts (parent_state (ts ! i))")
      case (Some p)
      then have p: "p < i" "p < length ts"
        using tree_okD(1) [OF assms(1) less.prems] live_in by (auto simp: upgrade_Some)
      have "token_stopped ts i \<longleftrightarrow> token_stopped ts p" using None Some by (subst token_stopped_step) simp
      then show ?thesis using None Some less.IH [OF p] reason_of_None [of ts p]
        by (subst cancellation_reason.simps) (auto simp: reason_of_def split: option.splits)
    next
      case None': None
      have "\<not> token_stopped ts i" using None None' by (subst token_stopped_step) simp
      then show ?thesis using None None' by (subst cancellation_reason.simps) (simp add: reason_of_def)
    qed
  qed (subst cancellation_reason.simps, simp add: reason_of_def)
qed

lemma cancellation_is_token_reason: "cancellation_reason ts i = token_reason ts i"
  by (subst cancellation_reason.simps)
    (auto simp: token_reason_def map_option_case Option.bind_def split: option.split)

lemma token_reason_eq:
  assumes "tree_ok ts" "i < length ts"
  shows "token_reason ts i = Some (reason_of ts i)"
  using cancellation_reason_eq [OF assms] by (simp add: cancellation_is_token_reason)

lemma is_cancelled_eq: "tree_ok ts \<Longrightarrow> i < length ts \<Longrightarrow> is_cancelled ts i = Some (token_stopped ts i)"
  using reason_of_None [of ts i] by (simp add: is_cancelled_def token_reason_eq del: not_None_eq)

lemma token_check_eq:
  "tree_ok ts \<Longrightarrow> i < length ts \<Longrightarrow> token_check ts i = Some (if token_stopped ts i then Err cancelled else Ok ())"
  by (simp add: token_check_def is_cancelled_eq)

text \<open>The links depend on the parents and counts alone.\<close>

lemma linked_cong:
  assumes "\<And>i. upgrade ts' (parent_state (ts' ! i)) = upgrade ts (parent_state (ts ! i))"
  shows "linked ts' = linked ts"
proof -
  have "linked s i j \<Longrightarrow> (\<And>i. upgrade s' (parent_state (s' ! i)) = upgrade s (parent_state (s ! i))) \<Longrightarrow>
      linked s' i j" for s s' i j
    by (induction rule: linked.induct) (auto intro: linked.intros)
  then show ?thesis using assms by (intro ext) metis
qed

section \<open>The operations\<close>

lemma linked_tells: "tells ts ts' \<Longrightarrow> tree_ok ts \<Longrightarrow> i < length ts \<Longrightarrow> linked ts' i j \<longleftrightarrow> linked ts i j"
proof (induction i rule: less_induct)
  case (less i)
  have same: "upgrade ts' (parent_state (ts' ! i)) = upgrade ts (parent_state (ts ! i))"
    using less.prems fun_cong [OF tells_live [OF less.prems(1)]]
    by (auto simp: tells_def upgrade_def split: option.split)
  have "linked ts' p j \<longleftrightarrow> linked ts p j" if "upgrade ts (parent_state (ts ! i)) = Some p" for p
    using less that tree_okD(1) [OF less.prems(2,3)] live_in by (auto simp: upgrade_Some)
  with same show ?case by (subst (1 2) linked_step) auto
qed

text \<open>Setting a reason touches neither the links nor the tree.\<close>

lemma set_reason:
  fixes r :: cancel_reason
  assumes "tree_ok ts" "i < length ts"
  defines "t \<equiv> ts[i := (ts ! i)\<lparr>reason_set := Some r\<rparr>]"
  shows "tree_ok t" "length t = length ts" "k < length ts \<Longrightarrow> linked t k j \<longleftrightarrow> linked ts k j"
    "k < length ts \<Longrightarrow> reason_set (t ! k) = (if k = i then Some r else reason_set (ts ! k))"
proof -
  have same: "parent_state (t ! k) = parent_state (ts ! k)" "child_states (t ! k) = child_states (ts ! k)"
    "strong_count (t ! k) = strong_count (ts ! k)"
    "reason_set (t ! k) = (if k = i then Some r else reason_set (ts ! k))" if "k < length ts" for k
    using that by (auto simp: t_def nth_update)
  show len: "length t = length ts" by (simp add: t_def)
  then have live: "live t k = live ts k" for k
    using same by (cases "k < length ts") auto
  show "k < length ts \<Longrightarrow> reason_set (t ! k) = (if k = i then Some r else reason_set (ts ! k))"
    by (rule same)
  show "tree_ok t"
    using assms(1) unfolding tree_ok_def len by (smt (verit) live order.strict_trans same)
  show "linked t k j \<longleftrightarrow> linked ts k j" if "k < length ts" for k
    using that
  proof (induction k rule: less_induct)
    case (less k)
    have "upgrade t (parent_state (t ! k)) = upgrade ts (parent_state (ts ! k))"
      using same less.prems by (simp add: upgrade_def live split: option.split)
    moreover have "linked t p j \<longleftrightarrow> linked ts p j" if "upgrade ts (parent_state (ts ! k)) = Some p" for p
      using less that tree_okD(1) [OF assms(1) less.prems] live_in by (auto simp: upgrade_Some)
    ultimately show ?case by (subst (1 2) linked_step) auto
  qed
qed

lemma linked_in: "linked ts k j \<Longrightarrow> tree_ok ts \<Longrightarrow> k < length ts \<Longrightarrow> j < length ts"
  using linked_le by fastforce

lemma cancel_once_first:
  assumes "tree_ok ts" "i < length ts" "reason_set (ts ! i) = None"
  obtains ts' where "cancel_once i r ts = Some (ts', True)" "tree_ok ts'" "length ts' = length ts"
    "\<And>k. k < length ts \<Longrightarrow> live ts' k = live ts k"
    "\<And>k. k < length ts \<Longrightarrow> token_stopped ts' k \<longleftrightarrow> token_stopped ts k \<or> linked ts k i"
    "\<And>k. k < length ts \<Longrightarrow> reason_set (ts' ! k) = (if k = i then Some r else reason_set (ts ! k))"
proof -
  define t where "t = ts[i := (ts ! i)\<lparr>reason_set := Some r\<rparr>]"
  note t = set_reason [OF assms(1,2), where r = r, folded t_def]
  define u where "u = bump_generation i t"
  have u: "tells t u" "tree_ok u" "length u = length ts"
    using tells_bump_generation [of t i] tells_tree_ok [OF tells_bump_generation t(1)] t(2) by (auto simp: u_def tells_def)
  from notify_descendants_returns [OF u(2), of i] u(3) assms(2) obtain v where
    v: "notify_descendants i u = Some v" "tells u v" by auto
  from tells_trans [OF u(1) v(2)] have tv: "tells t v" .
  have links: "linked v k j \<longleftrightarrow> linked ts k j" if "k < length ts" for k j
    using linked_tells [OF tv t(1)] t(2,3) that by simp
  have reasons: "reason_set (v ! k) = (if k = i then Some r else reason_set (ts ! k))" if "k < length ts" for k
    using tv t(2,4) that by (auto simp: tells_def)
  show thesis
  proof (rule that)
    show "cancel_once i r ts = Some (v, True)"
      using assms(3) v(1) by (simp add: cancel_once_def Let_def u_def t_def)
    show "tree_ok v" "length v = length ts"
      using tells_tree_ok [OF tv t(1)] tv t(2) by (simp_all add: tells_def)
    show "live v k = live ts k" if "k < length ts" for k
      using tells_live [OF tv] that t(2) by (simp add: t_def nth_update)
    show "token_stopped v k \<longleftrightarrow> token_stopped ts k \<or> linked ts k i" if "k < length ts" for k
      using links [OF that] reasons linked_in [OF _ assms(1) that] assms(3)
      unfolding token_stopped_def by (metis option.distinct(1))
  qed (rule reasons)
qed

lemma cancel_once_again:
  "reason_set (ts ! i) \<noteq> None \<Longrightarrow> cancel_once i r ts = Some (ts, False)"
  by (simp add: cancel_once_def)

lemma live_append:
  "live (ts @ [s]) i \<longleftrightarrow> (if i = length ts then strong_count s \<noteq> 0 else live ts i)"
proof -
  consider "i < length ts" | "i = length ts" | "length ts < i" by linarith
  then show ?thesis by cases (auto simp: nth_append)
qed

lemma tree_ok_new:
  assumes "tree_ok ts"
  shows "tree_ok (ts @ [fresh_state None])"
proof (rule tree_okI, goal_cases)
  case (1 i p)
  then show ?case using tree_okD(1) [OF assms, of i p] by (auto simp: nth_append fresh_state_def split: if_splits)
next
  case (2 i p)
  then have i: "i < length ts" "parent_state (ts ! i) = Some p" "live ts i"
    by (auto simp: nth_append fresh_state_def live_append split: if_splits)
  with tree_okD(1,2) [OF assms i(1,2)] show ?case by (auto simp: nth_append)
next
  case (3 i)
  then show ?case using tree_okD(3) [OF assms, of i] by (auto simp: nth_append fresh_state_def)
next
  case (4 i c)
  then show ?case using tree_okD(4) [OF assms, of i c]
    by (auto simp: nth_append fresh_state_def split: if_splits)
qed

lemma tree_ok_adopt:
  assumes "tree_ok ts" "p < length ts"
  shows "tree_ok (ts[p := (ts ! p)\<lparr>child_states := child_states (ts ! p) @ [length ts]\<rparr>] @ [fresh_state (Some p)])"
    (is "tree_ok ?t")
proof -
  have old: "parent_state (?t ! i) = parent_state (ts ! i)" "strong_count (?t ! i) = strong_count (ts ! i)"
    "child_states (?t ! i) = child_states (ts ! i) @ (if i = p then [length ts] else [])" if "i < length ts" for i
    using that by (auto simp: nth_append nth_update)
  have new: "?t ! length ts = fresh_state (Some p)" by (simp add: nth_append)
  have live: "live ?t i = live ts i" if "i < length ts" for i
    using that old(2) [OF that] by simp
  show ?thesis
  proof (rule tree_okI, goal_cases)
    case (1 i q)
    then consider "i < length ts" | "i = length ts" by fastforce
    then show ?case using 1 tree_okD(1) [OF assms(1), of i q] old new assms(2)
      by cases (auto simp: fresh_state_def)
  next
    case (2 i q)
    then consider "i < length ts" | "i = length ts" by fastforce
    then show ?case
    proof cases
      case 1
      with 2 have "parent_state (ts ! i) = Some q" "live ts i" using old live by auto
      with tree_okD(1,2) [OF assms(1) 1, of q] 1 old(3) [of q] show ?thesis by auto
    next
      case 2
      with \<open>parent_state (?t ! i) = Some q\<close> new have "q = p" by (simp add: fresh_state_def)
      with old(3) [of p] assms(2) 2 show ?thesis by simp
    qed
  next
    case (3 i)
    then consider "i < length ts" | "i = length ts" by fastforce
    then show ?case using tree_okD(3,4) [OF assms(1), of i] old new
      by cases (auto simp: fresh_state_def)
  next
    case (4 i c)
    then consider "i < length ts" | "i = length ts" by fastforce
    then show ?case
    proof cases
      case 1
      with 4 old(3) have "c \<in> set (child_states (ts ! i)) \<or> i = p \<and> c = length ts" by (auto split: if_splits)
      then show ?thesis
        using tree_okD(4) [OF assms(1) 1, of c] old(1) [of c] new by (auto simp: fresh_state_def)
    next
      case 2
      with 4 new show ?thesis by (simp add: fresh_state_def)
    qed
  qed
qed

lemma token_new_ok: "tree_ok ts \<Longrightarrow> tree_ok (fst (token_new ts))"
  by (simp add: token_new_def tree_ok_new)

lemma token_child_ok:
  assumes "tree_ok ts" "p < length ts"
  shows "tree_ok (fst (token_child p ts))"
proof -
  have "tells ts (retain_live p ts)" by (rule tells_retain)
  then have "tree_ok (retain_live p ts)" "length (retain_live p ts) = length ts"
    using tells_tree_ok assms(1) by (auto simp: tells_def)
  with tree_ok_adopt [of "retain_live p ts" p] assms(2) show ?thesis by (simp add: token_child_def Let_def)
qed

lemma tree_ok_count:
  assumes "tree_ok ts" "live ts i \<or> n = 0"
  shows "tree_ok (ts[i := (ts ! i)\<lparr>strong_count := n\<rparr>])" (is "tree_ok ?t")
proof -
  have old: "parent_state (?t ! k) = parent_state (ts ! k)" "child_states (?t ! k) = child_states (ts ! k)"
    if "k < length ts" for k using that by (auto simp: nth_update)
  have live: "live ?t k \<Longrightarrow> live ts k" for k
    using assms(2) live_in [of ?t k] by (auto simp: nth_update split: if_splits)
  show ?thesis
  proof (rule tree_okI, goal_cases)
    case (2 k p)
    then have k: "k < length ts" "parent_state (ts ! k) = Some p" "live ts k"
      using old live [of k] by (simp_all del: live_nth)
    with tree_okD(1,2) [OF assms(1) k(1,2)] old(2) [of p] show ?case by simp
  next
    case (1 k p)
    then show ?case using tree_okD(1) [OF assms(1), of k p] old(1) [of k] by simp
  next
    case (3 k)
    then show ?case using tree_okD(3) [OF assms(1), of k] old(2) [of k] by simp
  next
    case (4 k c)
    then show ?case using tree_okD(4) [OF assms(1), of k c] old(2) [of k] old(1) [of c] by simp
  qed
qed

lemma token_clone_ok: "tree_ok ts \<Longrightarrow> live ts i \<Longrightarrow> tree_ok (token_clone i ts)"
  unfolding token_clone_def by (rule tree_ok_count) auto

lemma token_drop_ok:
  assumes "tree_ok ts" "live ts i"
  shows "tree_ok (token_drop i ts)"
proof (cases "strong_count (ts ! i) = 1 \<and> (\<exists>p. upgrade ts (parent_state (ts ! i)) = Some p)")
  case False
  then have "token_drop i ts = ts[i := (ts ! i)\<lparr>strong_count := strong_count (ts ! i) - 1\<rparr>]"
    by (auto simp: token_drop_def forget_child_def)
  with assms show ?thesis using tree_ok_count by simp
next
  case True
  then obtain p where p: "upgrade ts (parent_state (ts ! i)) = Some p" by blast
  note i = live_in [OF assms(2)]
  have "p < i" using tree_okD(1) [OF assms(1) i] p by (simp add: upgrade_Some)
  define t where "t = token_drop i ts"
  have t: "t = ts[p := (ts ! p)\<lparr>child_states := filter (\<lambda>c. live ts c \<and> c \<noteq> i) (child_states (ts ! p))\<rparr>,
      i := (ts ! i)\<lparr>strong_count := 0\<rparr>]"
    using True p \<open>p < i\<close> by (simp add: t_def token_drop_def forget_child_def Let_def)
  have old: "parent_state (t ! k) = parent_state (ts ! k)"
    "set (child_states (t ! k)) \<subseteq> set (child_states (ts ! k))"
    "distinct (child_states (ts ! k)) \<Longrightarrow> distinct (child_states (t ! k))"
    "c \<in> set (child_states (ts ! k)) \<Longrightarrow> live ts c \<Longrightarrow> c \<noteq> i \<Longrightarrow> c \<in> set (child_states (t ! k))"
    if "k < length ts" for k c
    using that i \<open>p < i\<close> by (auto simp: t nth_update)
  have len: "length t = length ts" by (simp add: t)
  have live: "live t k \<Longrightarrow> live ts k \<and> k \<noteq> i" for k
    using live_in [of t k] i \<open>p < i\<close> by (auto simp: t nth_update split: if_splits)
  show ?thesis
    unfolding t_def [symmetric]
  proof (rule tree_okI, goal_cases)
    case (2 k q)
    then have k: "k < length ts" "parent_state (ts ! k) = Some q" "live ts k" "k \<noteq> i"
      using old(1) live [of k] len by (simp_all del: live_nth)
    with tree_okD(1,2) [OF assms(1) k(1,2)] have "q < length ts" "k \<in> set (child_states (ts ! q))" by auto
    then show ?case using old(4) k by blast
  next
    case (4 k c)
    then have "k < length ts" "c \<in> set (child_states (ts ! k))" using old(2) [of k] len by auto
    with tree_okD(4) [OF assms(1) this] old(1) [of c] len show ?case by simp
  next
    case (1 k p)
    then show ?case using tree_okD(1) [OF assms(1), of k p] old(1) [of k] len by simp
  next
    case (3 k)
    then show ?case using tree_okD(3) [OF assms(1), of k] old(3) [of k] len by simp
  qed
qed

end
