(* ===== verification/Hell_Scope_Inv.thy ===== *)
theory Hell_Scope_Inv
  imports Hell_Scope Hell_Token_Tree
begin

text \<open>
  The scopes of \<open>Hell_Scope\<close> as a forest: its well-formedness, the changes that
  cancelling and closing may make to scopes other than the one at hand (\<open>evolves\<close>), and,
  from the two, that cancelling and closing return whatever the descendants.
\<close>

section \<open>Well-formed systems and what may change\<close>

definition sys_ok :: "'w system \<Rightarrow> bool" where
  "sys_ok sys \<longleftrightarrow> tree_ok (tokens sys) \<and> (\<forall>i < length (scopes sys).
     scope_token (scopes sys ! i) < length (tokens sys) \<and>
     (\<forall>c \<in> set (scope_children (scopes sys ! i)). i < c \<and> c < length (scopes sys)))"

lemma sys_okD:
  assumes "sys_ok sys"
  shows "tree_ok (tokens sys)" "i < length (scopes sys) \<Longrightarrow> scope_token (scopes sys ! i) < length (tokens sys)"
    "i < length (scopes sys) \<Longrightarrow> c \<in> set (scope_children (scopes sys ! i)) \<Longrightarrow> i < c \<and> c < length (scopes sys)"
  using assms unfolding sys_ok_def by blast+

text \<open>
  No scope or token appears or goes, a token stopped stays stopped, a scope closed stays
  closed and gets no new child, resource, finalizer or task.
\<close>

definition scope_evolves :: "'w scope \<Rightarrow> 'w scope \<Rightarrow> bool" where
  "scope_evolves s s' \<longleftrightarrow> scope_token s' = scope_token s \<and> scope_parent s' = scope_parent s \<and>
     scope_refs s' = scope_refs s \<and> (closed s \<longrightarrow> closed s') \<and>
     set (scope_children s') \<subseteq> set (scope_children s) \<and>
     entries s' \<in> {entries s, []} \<and> finalizers s' \<in> {finalizers s, []} \<and> (tasks s = [] \<longrightarrow> tasks s' = [])"

definition evolves :: "'w system \<Rightarrow> 'w system \<Rightarrow> bool" where
  "evolves sys sys' \<longleftrightarrow> tree_ok (tokens sys') \<and> length (tokens sys') = length (tokens sys) \<and>
     length (scopes sys') = length (scopes sys) \<and>
     (\<forall>i < length (scopes sys). scope_evolves (scopes sys ! i) (scopes sys' ! i)) \<and>
     (\<forall>k < length (tokens sys). token_stopped (tokens sys) k \<longrightarrow> token_stopped (tokens sys') k) \<and>
     (\<forall>k < length (tokens sys). reason_set (tokens sys ! k) \<noteq> None \<longrightarrow> reason_set (tokens sys' ! k) \<noteq> None) \<and>
     (\<forall>k < length (tokens sys). live (tokens sys') k = live (tokens sys) k)"

text \<open>Apart from the scope being closed the flags do not move.\<close>

definition same_closed :: "'w system \<Rightarrow> 'w system \<Rightarrow> bool" where
  "same_closed sys sys' \<longleftrightarrow>
    (\<forall>i < length (scopes sys). closed (scopes sys' ! i) = closed (scopes sys ! i))"

lemma scope_evolves_refl [simp]: "scope_evolves s s"
  by (simp add: scope_evolves_def)

lemma scope_evolves_trans: "scope_evolves a b \<Longrightarrow> scope_evolves b c \<Longrightarrow> scope_evolves a c"
  unfolding scope_evolves_def insert_iff empty_iff by (elim conjE, intro conjI) (metis subset_trans)+

lemma evolves_refl: "sys_ok sys \<Longrightarrow> evolves sys sys"
  using sys_okD(1) by (simp add: evolves_def)

lemma evolves_trans:
  assumes "evolves a b" "evolves b c"
  shows "evolves a c"
  unfolding evolves_def
proof (intro conjI allI impI)
  show "scope_evolves (scopes a ! i) (scopes c ! i)" if "i < length (scopes a)" for i
    using assms that scope_evolves_trans [of "scopes a ! i" "scopes b ! i" "scopes c ! i"]
    by (simp add: evolves_def)
qed (use assms in \<open>simp_all add: evolves_def del: live_nth\<close>)

lemma evolves_length: "evolves a b \<Longrightarrow> length (scopes b) = length (scopes a)"
  by (simp add: evolves_def)

lemma same_closed_refl [simp]: "same_closed a a"
  by (simp add: same_closed_def)

lemma same_closed_trans: "same_closed a b \<Longrightarrow> same_closed b c \<Longrightarrow> evolves a b \<Longrightarrow> same_closed a c"
  by (simp add: same_closed_def evolves_length)

lemma evolves_scope: "evolves a b \<Longrightarrow> i < length (scopes a) \<Longrightarrow> scope_evolves (scopes a ! i) (scopes b ! i)"
  by (simp add: evolves_def)

lemma evolves_sys_ok:
  assumes "sys_ok a" "evolves a b"
  shows "sys_ok b"
  unfolding sys_ok_def
proof (intro conjI allI impI ballI)
  show "tree_ok (tokens b)" using assms(2) by (simp add: evolves_def)
  fix i assume "i < length (scopes b)"
  then have i: "i < length (scopes a)" "scope_evolves (scopes a ! i) (scopes b ! i)"
    using assms(2) by (auto simp: evolves_def)
  then show "scope_token (scopes b ! i) < length (tokens b)"
    using sys_okD(2) [OF assms(1) i(1)] assms(2) by (simp add: scope_evolves_def evolves_def)
  fix c assume "c \<in> set (scope_children (scopes b ! i))"
  then have "c \<in> set (scope_children (scopes a ! i))" using i(2) by (auto simp: scope_evolves_def)
  then show "i < c" "c < length (scopes b)"
    using sys_okD(3) [OF assms(1) i(1)] evolves_length [OF assms(2)] by auto
qed

lemma scopes_on_scope: "scopes (on_scope i f sys) = (scopes sys)[i := f (scopes sys ! i)]"
  by (simp add: on_scope_def)

lemma on_scope_simps [simp]:
  "tokens (on_scope i f sys) = tokens sys" "world (on_scope i f sys) = world sys"
  "budget (on_scope i f sys) = budget sys" "length (scopes (on_scope i f sys)) = length (scopes sys)"
  "i < length (scopes sys) \<Longrightarrow> scopes (on_scope i f sys) ! i = f (scopes sys ! i)"
  "j \<noteq> i \<Longrightarrow> scopes (on_scope i f sys) ! j = scopes sys ! j"
  by (simp_all add: on_scope_def)

lemma evolves_on_scope:
  assumes "sys_ok sys" "\<And>s. scope_evolves s (f s)"
  shows "evolves sys (on_scope i f sys)"
  using sys_okD(1) [OF assms(1)] assms(2) by (auto simp: evolves_def scopes_on_scope nth_update)

text \<open>The world and the budget are outside the forest.\<close>

lemma evolves_outside [simp]:
  "evolves a (b\<lparr>world := w\<rparr>) = evolves a b" "evolves a (b\<lparr>budget := u\<rparr>) = evolves a b"
  "sys_ok (b\<lparr>world := w\<rparr>) = sys_ok b" "sys_ok (b\<lparr>budget := u\<rparr>) = sys_ok b"
proof -
  have *: "tokens (b\<lparr>world := w\<rparr>) = tokens b" "scopes (b\<lparr>world := w\<rparr>) = scopes b"
    "tokens (b\<lparr>budget := u\<rparr>) = tokens b" "scopes (b\<lparr>budget := u\<rparr>) = scopes b" by simp_all
  show "evolves a (b\<lparr>world := w\<rparr>) = evolves a b" "evolves a (b\<lparr>budget := u\<rparr>) = evolves a b"
    "sys_ok (b\<lparr>world := w\<rparr>) = sys_ok b" "sys_ok (b\<lparr>budget := u\<rparr>) = sys_ok b"
    unfolding evolves_def sys_ok_def * by (rule refl)+
qed

section \<open>Cancelling returns\<close>

lemma cancel_here_ok:
  assumes "sys_ok sys" "i < length (scopes sys)"
  obtains sys' below where "cancel_here i reason sys = Some (sys', below)" "evolves sys sys'"
    "set below \<subseteq> set (scope_children (scopes sys' ! i))"
    "reason_set (tokens sys' ! scope_token (scopes sys ! i)) \<noteq> None" "same_closed sys sys'"
proof (cases "reason_set (tokens sys ! scope_token (scopes sys ! i))")
  case (Some r)
  then have "cancel_here i reason sys = Some (sys, [])"
    by (simp add: cancel_here_def cancel_once_again)
  then show ?thesis using that evolves_refl [OF assms(1)] Some by simp
next
  case None
  let ?t = "scope_token (scopes sys ! i)"
  obtain ts where
    ts: "cancel_once ?t reason (tokens sys) = Some (ts, True)" "tree_ok ts" "length ts = length (tokens sys)"
    "\<And>k. k < length (tokens sys) \<Longrightarrow> live ts k = live (tokens sys) k"
    "\<And>k. k < length (tokens sys) \<Longrightarrow> token_stopped ts k \<longleftrightarrow> token_stopped (tokens sys) k \<or> linked (tokens sys) k ?t"
    "\<And>k. k < length (tokens sys) \<Longrightarrow>
      reason_set (ts ! k) = (if k = ?t then Some reason else reason_set (tokens sys ! k))"
    by (rule cancel_once_first [where r = reason, OF sys_okD(1) [OF assms(1)] sys_okD(2) [OF assms] None], rule that)
  obtain w fs where w: "cancel_resources reason (rev (entries (scopes sys ! i))) (world sys) = (w, fs)"
    by fastforce
  define u where "u = on_scope i (\<lambda>s. s\<lparr>cancellation_failures := cancellation_failures s @ fs\<rparr>)
    (sys\<lparr>tokens := ts, world := w\<rparr>)"
  have "evolves sys (sys\<lparr>tokens := ts, world := w\<rparr>)"
    using ts(2-6) unfolding evolves_def by simp
  moreover have "evolves (sys\<lparr>tokens := ts, world := w\<rparr>) u"
    unfolding u_def using calculation assms(1)
    by (intro evolves_on_scope) (auto intro: evolves_sys_ok simp: scope_evolves_def)
  ultimately have u: "evolves sys u" by (rule evolves_trans)
  have "reason_set (ts ! ?t) \<noteq> None" using ts(6) [OF sys_okD(2) [OF assms]] by simp
  then have "reason_set (tokens u ! ?t) \<noteq> None" by (simp add: u_def)
  moreover have "same_closed sys u" by (simp add: same_closed_def u_def scopes_on_scope nth_update)
  moreover have "cancel_here i reason sys = Some (u, filter (scope_live u) (scope_children (scopes u ! i)))"
    using ts(1) w by (simp add: cancel_here_def u_def Let_def)
  ultimately show ?thesis using that u by simp
qed

lemma below_decreases:
  assumes "sys_ok sys" "i < length (scopes sys)" "set below \<subseteq> set (scope_children (scopes sys ! i))"
    "length (scopes sys) - i \<le> Suc m"
  shows "\<forall>c\<in>set below. c < length (scopes sys) \<and> length (scopes sys) - c \<le> m"
  using sys_okD(3) [OF assms(1,2)] assms(3,4) by fastforce

lemma cancel_children_ok:
  assumes "sys_ok sys" "\<forall>c\<in>set cs. c < length (scopes sys) \<and> length (scopes sys) - c \<le> m"
  shows "\<exists>sys'. cancel_children cs sys = Some sys' \<and> evolves sys sys' \<and> same_closed sys sys'"
  using assms
proof (induction m arbitrary: cs sys)
  case 0
  then have "cs = []" by (cases cs) auto
  then show ?case using 0 by (simp add: cancel_children.simps evolves_refl)
next
  case (Suc m)
  show ?case
    using Suc.prems
  proof (induction cs arbitrary: sys)
    case Nil
    then show ?case by (simp add: cancel_children.simps evolves_refl)
  next
    case (Cons c cs)
    then have c: "c < length (scopes sys)" "length (scopes sys) - c \<le> Suc m" by simp_all
    from cancel_here_ok [OF Cons.prems(1) c(1), of ParentCancelled] obtain t below where
      t: "cancel_here c ParentCancelled sys = Some (t, below)" "evolves sys t"
      "set below \<subseteq> set (scope_children (scopes t ! c))" "same_closed sys t" by blast
    note t_ok = evolves_sys_ok [OF Cons.prems(1) t(2)] and len = evolves_length [OF t(2)]
    have "\<forall>d\<in>set below. d < length (scopes t) \<and> length (scopes t) - d \<le> m"
      using below_decreases [OF t_ok _ t(3)] c len by simp
    from Suc.IH [OF t_ok this] obtain u where u: "cancel_children below t = Some u" "evolves t u" "same_closed t u"
      by blast
    from Cons.IH [OF evolves_sys_ok [OF t_ok u(2)]] Cons.prems(2) len evolves_length [OF u(2)] obtain v where
      v: "cancel_children cs u = Some v" "evolves u v" "same_closed u v" by auto
    have "evolves sys u" "same_closed sys u"
      using evolves_trans [OF t(2) u(2)] same_closed_trans [OF t(4) u(3) t(2)] .
    with t(1) u(1) v show ?case using evolves_trans same_closed_trans
      by (subst cancel_children.simps) (simp, blast)
  qed
qed

lemma scope_cancel_ok:
  assumes "sys_ok sys" "i < length (scopes sys)"
  obtains sys' where "scope_cancel i reason sys = Some sys'" "evolves sys sys'"
    "reason_set (tokens sys' ! scope_token (scopes sys ! i)) \<noteq> None" "same_closed sys sys'"
proof -
  from cancel_here_ok [OF assms, of reason] obtain t below where
    t: "cancel_here i reason sys = Some (t, below)" "evolves sys t"
    "set below \<subseteq> set (scope_children (scopes t ! i))"
    "reason_set (tokens t ! scope_token (scopes sys ! i)) \<noteq> None" "same_closed sys t"
    by blast
  note t_ok = evolves_sys_ok [OF assms(1) t(2)]
  have "\<forall>c\<in>set below. c < length (scopes t) \<and> length (scopes t) - c \<le> length (scopes t)"
    using sys_okD(3) [OF t_ok, of i] t(3) assms(2) evolves_length [OF t(2)] by auto
  from cancel_children_ok [OF t_ok this] obtain u where u: "cancel_children below t = Some u" "evolves t u" "same_closed t u"
    by blast
  have "reason_set (tokens u ! scope_token (scopes sys ! i)) \<noteq> None"
    using u(2) t(2,4) sys_okD(2) [OF assms] unfolding evolves_def by metis
  with t(1) u evolves_trans [OF t(2) u(2)] same_closed_trans [OF t(5) u(3) t(2)] show ?thesis by (intro that) (simp_all add: scope_cancel_def)
qed

section \<open>Closing returns\<close>

lemma begin_close_ok:
  assumes "sys_ok sys" "i < length (scopes sys)"
  obtains sys' where "begin_close i sys = Some sys'" "evolves sys sys'" "closed (scopes sys' ! i)"
    "reason_set (tokens sys' ! scope_token (scopes sys ! i)) \<noteq> None"
    "\<And>j. j < length (scopes sys) \<Longrightarrow> j \<noteq> i \<Longrightarrow> closed (scopes sys' ! j) = closed (scopes sys ! j)"
proof -
  define t where "t = on_scope i (\<lambda>s. s\<lparr>closed := True\<rparr>) sys"
  have t: "evolves sys t" "closed (scopes t ! i)" "scope_token (scopes t ! i) = scope_token (scopes sys ! i)"
    unfolding t_def using assms by (auto intro!: evolves_on_scope simp: scope_evolves_def)
  from scope_cancel_ok [OF evolves_sys_ok [OF assms(1) t(1)], of i ScopeClosed] assms(2) evolves_length [OF t(1)]
  obtain u where u: "scope_cancel i ScopeClosed t = Some u" "evolves t u"
    "reason_set (tokens u ! scope_token (scopes sys ! i)) \<noteq> None" "same_closed t u" by (auto simp: t(3))
  have "closed (scopes u ! i)"
    using evolves_scope [OF u(2), of i] t(2) assms(2) evolves_length [OF t(1)] by (simp add: scope_evolves_def)
  moreover have "closed (scopes u ! j) = closed (scopes sys ! j)" if "j < length (scopes sys)" "j \<noteq> i" for j
    using u(4) that evolves_length [OF t(1)] by (simp add: same_closed_def t_def)
  moreover have "begin_close i sys = Some u" using u(1) by (simp add: begin_close_def t_def)
  ultimately show ?thesis using that u(3) evolves_trans [OF t(1) u(2)] by blast
qed

lemma await_tasks_evolves: "sys_ok sys \<Longrightarrow> evolves sys (await_tasks quiesces i sys)"
  unfolding await_tasks_def Let_def
  by (rule evolves_trans [OF _ evolves_on_scope]) (auto simp: evolves_refl scope_evolves_def)

lemma leave_parent_evolves: "sys_ok sys \<Longrightarrow> evolves sys (leave_parent i sys)"
  by (auto simp: leave_parent_def evolves_refl scope_evolves_def intro!: evolves_on_scope split: option.split)

lemma end_close_evolves:
  assumes "sys_ok sys"
  shows "evolves sys (fst (end_close quiesces i failures sys))"
proof -
  define a where "a = on_scope i (\<lambda>s. s\<lparr>scope_children := []\<rparr>) sys"
  define b where "b = await_tasks quiesces i a"
  obtain w c where w: "close_resources (rev (entries (scopes b ! i))) (world b) = (w, c)" by fastforce
  obtain v d where v: "run_finalizers (rev (finalizers (scopes b ! i))) w = (v, d)" by fastforce
  define e where "e = on_scope i (\<lambda>s. s\<lparr>tasks := [], entries := [], cancellation_failures := [], finalizers := []\<rparr>)
    (b\<lparr>world := v\<rparr>)"
  have a: "evolves sys a" unfolding a_def by (intro evolves_on_scope assms) (simp add: scope_evolves_def)
  have b: "evolves a b" unfolding b_def by (intro await_tasks_evolves evolves_sys_ok [OF assms a])
  have e: "evolves b e"
    unfolding e_def using evolves_sys_ok [OF evolves_sys_ok [OF assms a] b]
    by (intro evolves_trans [OF _ evolves_on_scope]) (auto simp: evolves_refl scope_evolves_def)
  have "fst (end_close quiesces i failures sys) = leave_parent i e"
    by (simp add: end_close_def Let_def a_def [symmetric] b_def [symmetric] w v e_def)
  then show ?thesis
    using evolves_trans [OF evolves_trans [OF evolves_trans [OF a b] e]]
      leave_parent_evolves [OF evolves_sys_ok [OF evolves_sys_ok [OF evolves_sys_ok [OF assms a] b] e]]
    by simp
qed

text \<open>What an ended scope owns, and that every closed scope has ended but those at work.\<close>

definition owns_nothing :: "'w scope \<Rightarrow> bool" where
  "owns_nothing s \<longleftrightarrow> entries s = [] \<and> finalizers s = [] \<and> tasks s = []"

definition ended :: "nat set \<Rightarrow> 'w system \<Rightarrow> bool" where
  "ended S sys \<longleftrightarrow> (\<forall>j < length (scopes sys). closed (scopes sys ! j) \<longrightarrow> j \<notin> S \<longrightarrow>
     owns_nothing (scopes sys ! j) \<and> reason_set (tokens sys ! scope_token (scopes sys ! j)) \<noteq> None)"

lemma ended_evolves:
  assumes "ended S a" "evolves a b" "sys_ok a"
    and "\<And>j. j < length (scopes a) \<Longrightarrow> j \<notin> S \<Longrightarrow> closed (scopes b ! j) = closed (scopes a ! j)"
  shows "ended S b"
  unfolding ended_def
proof (intro allI impI)
  fix j
  assume j: "j < length (scopes b)" "closed (scopes b ! j)" "j \<notin> S"
  have ja: "j < length (scopes a)" using j(1) evolves_length [OF assms(2)] by simp
  then have "closed (scopes a ! j)" using assms(4) j by simp
  then have old: "owns_nothing (scopes a ! j)" "reason_set (tokens a ! scope_token (scopes a ! j)) \<noteq> None"
    using assms(1) ja j(3) unfolding ended_def by blast+
  have "scope_evolves (scopes a ! j) (scopes b ! j)" using evolves_scope [OF assms(2) ja] .
  moreover have "reason_set (tokens b ! scope_token (scopes a ! j)) \<noteq> None"
    using old(2) assms(2) sys_okD(2) [OF assms(3) ja] unfolding evolves_def by metis
  ultimately show "owns_nothing (scopes b ! j) \<and> reason_set (tokens b ! scope_token (scopes b ! j)) \<noteq> None"
    using old(1) by (auto simp: owns_nothing_def scope_evolves_def)
qed

lemma leave_parent_scope:
  assumes "j < length (scopes sys)"
  shows "\<exists>cs. scopes (leave_parent i sys) ! j = (scopes sys ! j)\<lparr>scope_children := cs\<rparr>"
proof -
  have "\<exists>cs. s = s\<lparr>scope_children := cs\<rparr>" for s :: "'a scope" by (rule exI [of _ "scope_children s"]) simp
  with assms show ?thesis
    by (auto simp: leave_parent_def scopes_on_scope nth_update split: option.split)
qed

lemma end_close_scopes:
  fixes sys :: "'w system" and quiesces :: "nat \<Rightarrow> bool" and i :: nat and failures :: "cleanup_failure list"
  assumes "j < length (scopes sys)"
  defines "sys' \<equiv> fst (end_close quiesces i failures sys)"
  shows "closed (scopes sys' ! j) = closed (scopes sys ! j)" "i = j \<Longrightarrow> owns_nothing (scopes sys' ! j)"
proof -
  define b where "b = await_tasks quiesces i (on_scope i (\<lambda>s. s\<lparr>scope_children := []\<rparr>) sys)"
  obtain w c where w: "close_resources (rev (entries (scopes b ! i))) (world b) = (w, c)" by fastforce
  obtain v d where v: "run_finalizers (rev (finalizers (scopes b ! i))) w = (v, d)" by fastforce
  define e where "e = on_scope i (\<lambda>s. s\<lparr>tasks := [], entries := [], cancellation_failures := [], finalizers := []\<rparr>)
    (b\<lparr>world := v\<rparr>)"
  have "sys' = leave_parent i e"
    by (simp add: sys'_def end_close_def Let_def b_def [symmetric] w v e_def)
  moreover have len: "length (scopes e) = length (scopes sys)" "length (scopes b) = length (scopes sys)"
    by (simp_all add: e_def b_def await_tasks_def Let_def)
  moreover have "closed (scopes b ! j) = closed (scopes sys ! j)"
    using assms(1) by (simp add: b_def await_tasks_def Let_def scopes_on_scope nth_update)
  ultimately show "closed (scopes sys' ! j) = closed (scopes sys ! j)" "i = j \<Longrightarrow> owns_nothing (scopes sys' ! j)"
    using leave_parent_scope [of j e i] assms(1)
    by (cases "i = j"; auto simp: e_def scopes_on_scope nth_update owns_nothing_def)+
qed

lemma end_close_ended:
  assumes "sys_ok sys" "i < length (scopes sys)" "ended (insert i S) sys"
    "reason_set (tokens sys ! scope_token (scopes sys ! i)) \<noteq> None"
  shows "ended S (fst (end_close quiesces i failures sys))"
proof -
  define t where "t = fst (end_close quiesces i failures sys)"
  have t: "evolves sys t" unfolding t_def by (rule end_close_evolves [OF assms(1)])
  have "ended (insert i S) t"
    using end_close_scopes(1) [of _ sys quiesces i failures]
    by (intro ended_evolves [OF assms(3) t assms(1)]) (simp add: t_def)
  moreover have "owns_nothing (scopes t ! i)" using end_close_scopes(2) [OF assms(2)] by (simp add: t_def)
  moreover have "reason_set (tokens t ! scope_token (scopes t ! i)) \<noteq> None"
    using assms(4) t sys_okD(2) [OF assms(1,2)] evolves_scope [OF t assms(2)]
    unfolding evolves_def scope_evolves_def by metis
  ultimately show ?thesis unfolding ended_def t_def [symmetric] by blast
qed

lemma closing_order_below:
  "set (closing_order i sys) \<subseteq> set (scope_children (scopes sys ! i))"
  by (auto simp: closing_order_def)

lemma close_children_ok:
  assumes "sys_ok sys" "\<forall>c\<in>set cs. c < length (scopes sys) \<and> length (scopes sys) - c \<le> m"
  shows "\<exists>sys' fs. close_children q cs sys = Some (sys', fs) \<and> evolves sys sys' \<and>
    (\<forall>S. ended S sys \<longrightarrow> ended S sys')"
  using assms
proof (induction m arbitrary: cs sys)
  case 0
  then have "cs = []" by (cases cs) auto
  then show ?case using 0 by (simp add: close_children.simps evolves_refl)
next
  case (Suc m)
  show ?case
    using Suc.prems
  proof (induction cs arbitrary: sys)
    case Nil
    then show ?case by (simp add: close_children.simps evolves_refl)
  next
    case (Cons c cs)
    show ?case
    proof (cases "closed (scopes sys ! c)")
      case True
      with Cons.IH [OF Cons.prems(1)] Cons.prems(2) show ?thesis
        by (subst close_children.simps) simp
    next
      case False
      have c: "c < length (scopes sys)" "length (scopes sys) - c \<le> Suc m" using Cons.prems(2) by simp_all
      obtain t where t: "begin_close c sys = Some t" "evolves sys t" "closed (scopes t ! c)"
        "reason_set (tokens t ! scope_token (scopes sys ! c)) \<noteq> None"
        "\<And>j. j < length (scopes sys) \<Longrightarrow> j \<noteq> c \<Longrightarrow> closed (scopes t ! j) = closed (scopes sys ! j)"
        by (rule begin_close_ok [OF Cons.prems(1) c(1)], rule that)
      note t_ok = evolves_sys_ok [OF Cons.prems(1) t(2)] and len = evolves_length [OF t(2)]
      have "\<forall>d\<in>set (closing_order c t). d < length (scopes t) \<and> length (scopes t) - d \<le> m"
        using below_decreases [OF t_ok _ closing_order_below, of c m] c len by simp
      from Suc.IH [OF t_ok this] obtain u fs where
        u: "close_children q (closing_order c t) t = Some (u, fs)" "evolves t u"
        "\<And>S. ended S t \<Longrightarrow> ended S u" by blast
      note u_ok = evolves_sys_ok [OF t_ok u(2)] and su = evolves_trans [OF t(2) u(2)]
      obtain v gs where v: "end_close q c fs u = (v, gs)" by fastforce
      with end_close_evolves [OF u_ok, of q c fs] have uv: "evolves u v" by simp
      note sv = evolves_trans [OF su uv]
      have reason: "reason_set (tokens u ! scope_token (scopes u ! c)) \<noteq> None"
        using t(4) u(2) sys_okD(2) [OF Cons.prems(1) c(1)] evolves_scope [OF su c(1)] t(2)
        unfolding evolves_def scope_evolves_def by metis
      have "ended S v" if "ended S sys" for S
      proof -
        have "ended (insert c S) sys" using that by (simp add: ended_def)
        then have "ended (insert c S) t"
          by (rule ended_evolves [OF _ t(2) Cons.prems(1)]) (use t(5) in auto)
        from end_close_ended [OF u_ok _ u(3) [OF this] reason, of q fs] v c(1) evolves_length [OF su]
        show ?thesis by simp
      qed
      moreover from Cons.IH [OF evolves_sys_ok [OF Cons.prems(1) sv]] Cons.prems(2) evolves_length [OF sv]
      obtain x hs where "close_children q cs v = Some (x, hs)" "evolves v x"
        "\<And>S. ended S v \<Longrightarrow> ended S x" by auto
      ultimately show ?thesis using False t(1) u(1) v evolves_trans [OF sv]
        by (subst close_children.simps) (simp add: Let_def)
    qed
  qed
qed

text \<open>The three stages of a first close.\<close>

lemma close_stages:
  assumes "sys_ok sys" "i < length (scopes sys)" "ended {} sys"
  obtains a b fs where "begin_close i sys = Some a" "evolves sys a" "closed (scopes a ! i)"
    "close_children q (closing_order i a) a = Some (b, fs)" "evolves a b" "sys_ok b"
    "ended {i} b" "reason_set (tokens b ! scope_token (scopes b ! i)) \<noteq> None"
proof -
  obtain a where a: "begin_close i sys = Some a" "evolves sys a"
    "closed (scopes a ! i)" "reason_set (tokens a ! scope_token (scopes sys ! i)) \<noteq> None"
    "\<And>j. j < length (scopes sys) \<Longrightarrow> j \<noteq> i \<Longrightarrow> closed (scopes a ! j) = closed (scopes sys ! j)"
    by (rule begin_close_ok [OF assms(1,2)], rule that)
  note a_ok = evolves_sys_ok [OF assms(1) a(2)]
  have "ended {i} sys" using assms(3) by (simp add: ended_def)
  then have "ended {i} a" by (rule ended_evolves [OF _ a(2) assms(1)]) (use a(5) in auto)
  have "\<forall>c\<in>set (closing_order i a). c < length (scopes a) \<and> length (scopes a) - c \<le> length (scopes a)"
    using sys_okD(3) [OF a_ok, of i] closing_order_below [of i a] assms(2) evolves_length [OF a(2)] by auto
  from close_children_ok [OF a_ok this, of q] obtain b fs where
    b: "close_children q (closing_order i a) a = Some (b, fs)" "evolves a b" "\<And>S. ended S a \<Longrightarrow> ended S b"
    by blast
  have "reason_set (tokens b ! scope_token (scopes b ! i)) \<noteq> None"
    using a(2,4) b(2) sys_okD(2) [OF assms(1,2)] evolves_scope [OF evolves_trans [OF a(2) b(2)] assms(2)]
    unfolding evolves_def scope_evolves_def by metis
  with a(1-3) b(1,2) b(3) [OF \<open>ended {i} a\<close>] evolves_sys_ok [OF a_ok b(2)] show ?thesis by (intro that)
qed

lemma close_ok:
  assumes "sys_ok sys" "i < length (scopes sys)" "ended {} sys"
  obtains sys' r where "close_with_primary q i primary sys = Some (sys', r)" "evolves sys sys'"
    "ended {} sys'" "closed (scopes sys' ! i)"
proof (cases "closed (scopes sys ! i)")
  case True
  then obtain r where "close_with_primary q i primary sys = Some (sys, r)"
    by (simp add: close_with_primary_def Let_def)
  then show ?thesis using that evolves_refl [OF assms(1)] assms(3) True by blast
next
  case False
  obtain a b fs where s: "begin_close i sys = Some a" "evolves sys a" "closed (scopes a ! i)"
    "close_children q (closing_order i a) a = Some (b, fs)" "evolves a b" "sys_ok b"
    "ended {i} b" "reason_set (tokens b ! scope_token (scopes b ! i)) \<noteq> None"
    by (rule close_stages [OF assms], rule that)
  obtain c gs where c: "end_close q i fs b = (c, gs)" by fastforce
  have i: "i < length (scopes b)" using assms(2) evolves_length [OF s(2)] evolves_length [OF s(5)] by simp
  have bc: "evolves b c" using end_close_evolves [OF s(6), of q i fs] c by simp
  have "ended {} c" using end_close_ended [OF s(6) i s(7,8), of q fs] c by simp
  moreover have "closed (scopes c ! i)"
    using evolves_scope [OF s(5)] evolves_scope [OF bc i] s(3) i evolves_length [OF s(5)]
    by (auto simp: scope_evolves_def)
  moreover note evolves_trans [OF evolves_trans [OF s(2,5)] bc]
  ultimately show ?thesis using False s(1,4) c by (intro that) (simp_all add: close_with_primary_def Let_def)
qed

end
