(* ===== verification/Hell_Scope_Run.thy ===== *)
theory Hell_Scope_Run
  imports Hell_Scope_Inv
begin

text \<open>
  Runs of the scope API: any sequence of calls, by whoever holds a reference to the scope
  called, from no scope at all.  The invariant of every run: the forest is well formed,
  each scope owns its own token, and every closed scope has been emptied and cancelled.
\<close>

section \<open>Frames of the token operations\<close>

lemma token_child_frame:
  assumes "p < length ts"
  shows "length (fst (token_child p ts)) = Suc (length ts)" "snd (token_child p ts) = length ts"
    "k < length ts \<Longrightarrow> reason_set (fst (token_child p ts) ! k) = reason_set (ts ! k)"
    "k < length ts \<Longrightarrow> live (fst (token_child p ts)) k = live ts k"
    "live (fst (token_child p ts)) (length ts)"
  using assms
  by (auto simp: token_child_def Let_def retain_live_def nth_append nth_update fresh_state_def)

lemma token_new_frame:
  "length (fst (token_new ts)) = Suc (length ts)" "snd (token_new ts) = length ts"
  "k < length ts \<Longrightarrow> fst (token_new ts) ! k = ts ! k"
  "k < length ts \<Longrightarrow> live (fst (token_new ts)) k = live ts k"
  "live (fst (token_new ts)) (length ts)"
  by (auto simp: token_new_def nth_append fresh_state_def)

lemma forget_child_frame:
  "length (forget_child i ts) = length ts"
  "k < length ts \<Longrightarrow> reason_set (forget_child i ts ! k) = reason_set (ts ! k)"
  "k < length ts \<Longrightarrow> strong_count (forget_child i ts ! k) = strong_count (ts ! k)"
  by (auto simp: forget_child_def nth_update split: option.split)

lemma token_drop_frame:
  "length (token_drop i ts) = length ts"
  "k < length ts \<Longrightarrow> reason_set (token_drop i ts ! k) = reason_set (ts ! k)"
  "k < length ts \<Longrightarrow> k \<noteq> i \<Longrightarrow> live (token_drop i ts) k = live ts k"
  by (auto simp: token_drop_def Let_def nth_update forget_child_frame)

section \<open>The invariant\<close>

definition scopes_ok :: "'w system \<Rightarrow> bool" where
  "scopes_ok sys \<longleftrightarrow> sys_ok sys \<and> ended {} sys \<and> distinct (map scope_token (scopes sys)) \<and>
     (\<forall>i < length (scopes sys). scope_refs (scopes sys ! i) \<noteq> 0 \<longrightarrow>
        live (tokens sys) (scope_token (scopes sys ! i)))"

lemma scopes_okD:
  assumes "scopes_ok sys"
  shows "sys_ok sys" "ended {} sys" "distinct (map scope_token (scopes sys))"
    "i < length (scopes sys) \<Longrightarrow> scope_refs (scopes sys ! i) \<noteq> 0 \<Longrightarrow> live (tokens sys) (scope_token (scopes sys ! i))"
  using assms unfolding scopes_ok_def by blast+

lemma scope_live_in: "scope_live sys i \<Longrightarrow> i < length (scopes sys) \<and> scope_refs (scopes sys ! i) \<noteq> 0"
  by (cases "i < length (scopes sys)") (auto simp: scope_live_def vget_def)

lemma map_token_cong:
  assumes "length ys = length xs" "\<And>i. i < length xs \<Longrightarrow> scope_token (ys ! i) = scope_token (xs ! i)"
  shows "map scope_token ys = map scope_token xs"
  using assms by (intro nth_equalityI) auto

lemma scopes_ok_outside [simp]:
  "scopes_ok (b\<lparr>budget := u\<rparr>) = scopes_ok b" "scopes_ok (b\<lparr>task_ids := n\<rparr>) = scopes_ok b"
  "scopes_ok (b\<lparr>resource_ids := n\<rparr>) = scopes_ok b"
proof -
  have *: "tokens (b\<lparr>budget := u\<rparr>) = tokens b" "scopes (b\<lparr>budget := u\<rparr>) = scopes b"
    "tokens (b\<lparr>task_ids := n\<rparr>) = tokens b" "scopes (b\<lparr>task_ids := n\<rparr>) = scopes b"
    "tokens (b\<lparr>resource_ids := n\<rparr>) = tokens b" "scopes (b\<lparr>resource_ids := n\<rparr>) = scopes b" by simp_all
  show "scopes_ok (b\<lparr>budget := u\<rparr>) = scopes_ok b" "scopes_ok (b\<lparr>task_ids := n\<rparr>) = scopes_ok b"
    "scopes_ok (b\<lparr>resource_ids := n\<rparr>) = scopes_ok b"
    unfolding scopes_ok_def sys_ok_def ended_def * by (rule refl)+
qed

text \<open>A change that evolves the system keeps the invariant if it leaves no closed scope unfinished.\<close>

lemma scopes_ok_evolves:
  assumes "scopes_ok a" "evolves a b" "ended {} b"
  shows "scopes_ok b"
  unfolding scopes_ok_def
proof (intro conjI allI impI)
  note a = scopes_okD [OF assms(1)]
  have same: "scope_token (scopes b ! i) = scope_token (scopes a ! i)"
    "scope_refs (scopes b ! i) = scope_refs (scopes a ! i)" if "i < length (scopes a)" for i
    using evolves_scope [OF assms(2) that] by (simp_all add: scope_evolves_def)
  show "sys_ok b" by (rule evolves_sys_ok [OF a(1) assms(2)])
  have "map scope_token (scopes b) = map scope_token (scopes a)"
    using same evolves_length [OF assms(2)] by (intro map_token_cong) auto
  with a(3) show "distinct (map scope_token (scopes b))" by simp
  show "live (tokens b) (scope_token (scopes b ! i))"
    if "i < length (scopes b)" "scope_refs (scopes b ! i) \<noteq> 0" for i
    using that same [of i] a(4) [of i] sys_okD(2) [OF a(1), of i] assms(2) evolves_length [OF assms(2)]
    by (simp add: evolves_def del: live_nth)
qed (rule assms(3))

text \<open>A change to one open scope that touches neither its token nor its children.\<close>

lemma scopes_ok_on_scope:
  assumes "scopes_ok sys" "i < length (scopes sys)"
    and "scope_token (f (scopes sys ! i)) = scope_token (scopes sys ! i)"
    and "scope_refs (scopes sys ! i) = 0 \<Longrightarrow> scope_refs (f (scopes sys ! i)) = 0"
    and "set (scope_children (f (scopes sys ! i))) \<subseteq> set (scope_children (scopes sys ! i))"
    and "closed (f (scopes sys ! i)) = closed (scopes sys ! i)"
    and "closed (scopes sys ! i) \<Longrightarrow> owns_nothing (scopes sys ! i) \<Longrightarrow> owns_nothing (f (scopes sys ! i))"
  shows "scopes_ok (on_scope i f sys)"
  unfolding scopes_ok_def
proof (intro conjI)
  note a = scopes_okD [OF assms(1)]
  let ?t = "on_scope i f sys"
  have nth: "scopes ?t ! j = (if i = j then f (scopes sys ! i) else scopes sys ! j)"
    if "j < length (scopes sys)" for j using that by (auto simp: scopes_on_scope nth_update)
  show "sys_ok ?t"
    unfolding sys_ok_def
  proof (intro conjI allI impI ballI)
    show "tree_ok (tokens ?t)" using sys_okD(1) [OF a(1)] by simp
    fix j assume "j < length (scopes ?t)"
    then have j: "j < length (scopes sys)" by simp
    show "scope_token (scopes ?t ! j) < length (tokens ?t)"
      using sys_okD(2) [OF a(1) j] nth [OF j] assms(3) by (cases "i = j") simp_all
    fix c assume "c \<in> set (scope_children (scopes ?t ! j))"
    then have "c \<in> set (scope_children (scopes sys ! j))" using nth [OF j] assms(5) by (auto split: if_splits)
    from sys_okD(3) [OF a(1) j this] show "j < c" "c < length (scopes ?t)" by simp_all
  qed
  show "ended {} ?t"
    unfolding ended_def
  proof (intro allI impI)
    fix j assume j: "j < length (scopes ?t)" "closed (scopes ?t ! j)"
    then have j': "j < length (scopes sys)" "closed (scopes sys ! j)"
      using nth [of j] assms(6) by (auto split: if_splits)
    then have "owns_nothing (scopes sys ! j)" "reason_set (tokens sys ! scope_token (scopes sys ! j)) \<noteq> None"
      using a(2) unfolding ended_def by blast+
    then show "owns_nothing (scopes ?t ! j) \<and> reason_set (tokens ?t ! scope_token (scopes ?t ! j)) \<noteq> None"
      using nth [OF j'(1)] assms(3,7) j'(2) by auto
  qed
  have "map scope_token (scopes ?t) = map scope_token (scopes sys)"
    by (intro map_token_cong) (auto simp: assms(3) scopes_on_scope nth_update)
  with a(3) show "distinct (map scope_token (scopes ?t))" by simp
  show "\<forall>j<length (scopes ?t). scope_refs (scopes ?t ! j) \<noteq> 0 \<longrightarrow> live (tokens ?t) (scope_token (scopes ?t ! j))"
  proof (intro allI impI)
    fix j assume j: "j < length (scopes ?t)" "scope_refs (scopes ?t ! j) \<noteq> 0"
    then have "j < length (scopes sys)" by simp
    with j(2) show "live (tokens ?t) (scope_token (scopes ?t ! j))"
      using a(4) [of j] nth [of j] assms(3,4) by (cases "i = j") (auto simp del: live_nth)
  qed
qed

text \<open>A scope added with a token of its own.\<close>

lemma scopes_ok_append:
  assumes "scopes_ok sys" "tree_ok ts" "length ts = Suc (length (tokens sys))"
    and "\<And>k. k < length (tokens sys) \<Longrightarrow> reason_set (ts ! k) = reason_set (tokens sys ! k)"
    and "\<And>k. k < length (tokens sys) \<Longrightarrow> live ts k = live (tokens sys) k"
    and "live ts (length (tokens sys))"
  shows "scopes_ok (sys\<lparr>tokens := ts, scopes := scopes sys @ [fresh_scope (length (tokens sys)) d p parent]\<rparr>)"
    (is "scopes_ok ?t")
  unfolding scopes_ok_def
proof (intro conjI)
  note a = scopes_okD [OF assms(1)]
  have old: "scopes ?t ! j = scopes sys ! j" if "j < length (scopes sys)" for j
    using that by (simp add: nth_append)
  have new: "scopes ?t ! length (scopes sys) = fresh_scope (length (tokens sys)) d p parent" by simp
  have len: "length (scopes ?t) = Suc (length (scopes sys))" "tokens ?t = ts" by simp_all
  show "sys_ok ?t"
    unfolding sys_ok_def len
  proof (intro conjI allI impI ballI)
    fix j assume "j < Suc (length (scopes sys))"
    then consider "j < length (scopes sys)" | "j = length (scopes sys)" by linarith
    then show "scope_token (scopes ?t ! j) < length ts"
      using sys_okD(2) [OF a(1), of j] old [of j] new assms(3) by cases (auto simp: fresh_scope_def)
    fix c assume c: "c \<in> set (scope_children (scopes ?t ! j))"
    with \<open>j < Suc _\<close> have j: "j < length (scopes sys)"
      using new by (cases "j = length (scopes sys)") (auto simp: fresh_scope_def)
    with c old sys_okD(3) [OF a(1) j] have "j < c \<and> c < length (scopes sys)" by auto
    then show "j < c" "c < Suc (length (scopes sys))" by auto
  qed (rule assms(2))
  show "ended {} ?t"
    unfolding ended_def len
  proof (intro allI impI)
    fix j assume j: "j < Suc (length (scopes sys))" "closed (scopes ?t ! j)"
    then have j': "j < length (scopes sys)"
      using new by (cases "j = length (scopes sys)") (auto simp: fresh_scope_def)
    with j(2) a(2) old [OF j'] have "owns_nothing (scopes sys ! j)"
      "reason_set (tokens sys ! scope_token (scopes sys ! j)) \<noteq> None" unfolding ended_def by auto
    then show "owns_nothing (scopes ?t ! j) \<and> reason_set (ts ! scope_token (scopes ?t ! j)) \<noteq> None"
      using old [OF j'] assms(4) sys_okD(2) [OF a(1) j'] by simp
  qed
  have "length (tokens sys) \<notin> set (map scope_token (scopes sys))"
    using sys_okD(2) [OF a(1)] by (force simp: in_set_conv_nth)
  with a(3) show "distinct (map scope_token (scopes ?t))" by (simp add: fresh_scope_def)
  show "\<forall>j<length (scopes ?t). scope_refs (scopes ?t ! j) \<noteq> 0 \<longrightarrow> live (tokens ?t) (scope_token (scopes ?t ! j))"
    unfolding len
  proof (intro allI impI)
    fix j assume j: "j < Suc (length (scopes sys))" "scope_refs (scopes ?t ! j) \<noteq> 0"
    then consider "j < length (scopes sys)" | "j = length (scopes sys)" by linarith
    then show "live ts (scope_token (scopes ?t ! j))"
    proof cases
      case 1
      then have "live (tokens sys) (scope_token (scopes sys ! j))" using j(2) old a(4) by simp
      then show ?thesis using assms(5) sys_okD(2) [OF a(1) 1] old [OF 1] by (simp del: live_nth)
    next
      case 2
      then show ?thesis using new assms(6) by (simp add: fresh_scope_def del: live_nth)
    qed
  qed
qed

section \<open>The operations keep it\<close>

lemma scope_root_ok:
  assumes "scopes_ok sys"
  shows "scopes_ok (fst (scope_root p sys))"
proof -
  let ?ts = "fst (token_new (tokens sys))"
  have "scopes_ok (sys\<lparr>tokens := ?ts, scopes := scopes sys @ [fresh_scope (length (tokens sys)) None p None]\<rparr>)"
    using token_new_ok [OF sys_okD(1) [OF scopes_okD(1) [OF assms]]]
    by (intro scopes_ok_append assms) (simp_all add: token_new_frame del: live_nth)
  then show ?thesis by (simp add: scope_root_def token_new_def)
qed

lemma scope_child_ok:
  assumes "scopes_ok sys" "i < length (scopes sys)"
  shows "scopes_ok (fst (scope_child i d sys))"
proof (cases "closed (scopes sys ! i)")
  case False
  note ok = scopes_okD(1) [OF assms(1)]
  let ?p = "scope_token (scopes sys ! i)"
  let ?ts = "fst (token_child ?p (tokens sys))"
  let ?c = "fresh_scope (length (tokens sys)) (earliest (scope_deadline (scopes sys ! i)) d)
    (scope_policy (scopes sys ! i)) (Some i)"
  let ?u = "sys\<lparr>tokens := ?ts, scopes := scopes sys @ [?c]\<rparr>"
  have p: "?p < length (tokens sys)" by (rule sys_okD(2) [OF ok assms(2)])
  have u: "scopes_ok ?u"
    using token_child_ok [OF sys_okD(1) [OF ok] p] token_child_frame [OF p]
    by (intro scopes_ok_append assms) (simp_all del: live_nth)
  have eq: "fst (scope_child i d sys) =
      on_scope i (\<lambda>s. s\<lparr>scope_children := insort (length (scopes sys)) (scope_children s)\<rparr>) ?u" (is "_ = ?t")
    using False token_child_frame(2) [OF p] by (simp add: scope_child_def Let_def split_beta)
  have ui: "scopes ?u ! i = scopes sys ! i" using assms(2) by (simp add: nth_append)
  have t: "scopes ?t ! j = (if i = j then (scopes sys ! i)\<lparr>scope_children :=
      insort (length (scopes sys)) (scope_children (scopes sys ! i))\<rparr> else scopes ?u ! j)"
    if "j < Suc (length (scopes sys))" for j
    using that ui by (auto simp: scopes_on_scope nth_update)
  have "sys_ok ?t"
    unfolding sys_ok_def
  proof (intro conjI allI impI ballI)
    show "tree_ok (tokens ?t)" using sys_okD(1) [OF scopes_okD(1) [OF u]] by simp
    fix j assume "j < length (scopes ?t)"
    then have j: "j < Suc (length (scopes sys))" by simp
    show "scope_token (scopes ?t ! j) < length (tokens ?t)"
      using t [OF j] sys_okD(2) [OF scopes_okD(1) [OF u], of j] j ui by (cases "i = j") simp_all
    fix c assume "c \<in> set (scope_children (scopes ?t ! j))"
    then have "c \<in> set (scope_children (scopes ?u ! j)) \<or> i = j \<and> c = length (scopes sys)"
      using t [OF j] ui by (auto simp: set_insort_key split: if_splits)
    then show "j < c" "c < length (scopes ?t)"
      using sys_okD(3) [OF scopes_okD(1) [OF u], of j c] j assms(2) by auto
  qed
  moreover have "ended {} ?t"
    using scopes_okD(2) [OF u] t ui False unfolding ended_def by auto
  moreover have "map scope_token (scopes ?t) = map scope_token (scopes ?u)"
    using t ui by (intro map_token_cong) auto
  moreover have "\<forall>j<length (scopes ?t). scope_refs (scopes ?t ! j) \<noteq> 0 \<longrightarrow>
      live (tokens ?t) (scope_token (scopes ?t ! j))"
  proof (intro allI impI)
    fix j assume j: "j < length (scopes ?t)" "scope_refs (scopes ?t ! j) \<noteq> 0"
    then have "j < Suc (length (scopes sys))" by simp
    with j(2) show "live (tokens ?t) (scope_token (scopes ?t ! j))"
      using scopes_okD(4) [OF u, of j] t [of j] ui by (cases "i = j") (simp_all del: live_nth)
  qed
  ultimately show ?thesis using scopes_okD(3) [OF u] unfolding eq scopes_ok_def by simp
qed (use assms in \<open>simp add: scope_child_def\<close>)

lemma register_ok:
  assumes "scopes_ok sys" "i < length (scopes sys)"
  shows "scopes_ok (fst (register i r sys))"
  using assms by (auto simp: register_def register_entry_def Let_def intro!: scopes_ok_on_scope)

lemma defer_ok:
  assumes "scopes_ok sys" "i < length (scopes sys)"
  shows "scopes_ok (fst (defer_finalizer i f sys))"
  using assms by (auto simp: defer_finalizer_def push_finalizer_def intro!: scopes_ok_on_scope)

lemma ended_same_closed:
  assumes "scopes_ok a" "evolves a b" "same_closed a b"
  shows "ended {} b"
  using ended_evolves [OF scopes_okD(2) [OF assms(1)] assms(2) scopes_okD(1) [OF assms(1)]] assms(3)
  by (simp add: same_closed_def)

lemma cancel_ok:
  assumes "scopes_ok sys" "i < length (scopes sys)"
  shows "\<exists>sys'. scope_cancel i reason sys = Some sys' \<and> scopes_ok sys' \<and> evolves sys sys'"
proof -
  obtain t where t: "scope_cancel i reason sys = Some t" "evolves sys t"
    "reason_set (tokens t ! scope_token (scopes sys ! i)) \<noteq> None" "same_closed sys t"
    by (rule scope_cancel_ok [OF scopes_okD(1) [OF assms(1)] assms(2)], rule that)
  with scopes_ok_evolves [OF assms(1) t(2) ended_same_closed [OF assms(1) t(2,4)]] show ?thesis by blast
qed

lemma safepoint_ok:
  assumes "scopes_ok sys" "i < length (scopes sys)"
  shows "\<exists>sys' r. safepoint now i sys = Some (sys', r) \<and> scopes_ok sys'"
proof -
  have check: "\<exists>r. map_option (\<lambda>r. (t, r)) (token_check (tokens t) (scope_token (scopes t ! i))) = Some (t, r)"
    if "scopes_ok t" "i < length (scopes t)" for t :: "'a system"
    using token_check_eq [OF sys_okD(1,2) [OF scopes_okD(1) [OF that(1)]] , of i] that(2) by simp
  from cancel_ok [OF assms, of Timeout] obtain t where
    t: "scope_cancel i Timeout sys = Some t" "scopes_ok t" "evolves sys t" by blast
  with check [OF assms] check [OF t(2)] assms evolves_length [OF t(3)] show ?thesis
    by (auto simp: safepoint_def)
qed

lemma scope_close_ok:
  assumes "scopes_ok sys" "i < length (scopes sys)"
  shows "\<exists>sys' r. close_with_primary q i primary sys = Some (sys', r) \<and> scopes_ok sys' \<and>
    evolves sys sys' \<and> closed (scopes sys' ! i)"
proof -
  obtain t r where "close_with_primary q i primary sys = Some (t, r)" "evolves sys t" "ended {} t"
    "closed (scopes t ! i)"
    by (rule close_ok [OF scopes_okD(1) [OF assms(1)] assms(2) scopes_okD(2) [OF assms(1)]], rule that)
  with scopes_ok_evolves [OF assms(1)] show ?thesis by blast
qed

lemma scope_clone_ok:
  assumes "scopes_ok sys" "scope_live sys i"
  shows "scopes_ok (scope_clone i sys)"
  using assms scope_live_in [OF assms(2)]
  by (auto simp: scope_clone_def owns_nothing_def intro!: scopes_ok_on_scope)

lemma scope_drop_ok:
  assumes "scopes_ok sys" "scope_live sys i"
  shows "scopes_ok (scope_drop i sys)" "length (scopes (scope_drop i sys)) = length (scopes sys)"
proof -
  note i = scope_live_in [OF assms(2)]
  define t where "t = on_scope i (\<lambda>s. s\<lparr>scope_refs := scope_refs s - 1\<rparr>) sys"
  have t: "scopes_ok t"
    unfolding t_def using assms(1) i
    by (intro scopes_ok_on_scope) (auto simp: owns_nothing_def)
  have nth: "scopes t ! j = (if i = j then (scopes sys ! i)\<lparr>scope_refs := scope_refs (scopes sys ! i) - 1\<rparr>
      else scopes sys ! j)" if "j < length (scopes sys)" for j
    using that by (auto simp: t_def scopes_on_scope nth_update)
  have len: "length (scopes t) = length (scopes sys)" "tokens t = tokens sys" by (simp_all add: t_def)
  show "length (scopes (scope_drop i sys)) = length (scopes sys)"
    by (simp add: scope_drop_def Let_def)
  show "scopes_ok (scope_drop i sys)"
  proof (cases "scope_refs (scopes sys ! i) = 1")
    case False
    then show ?thesis using t by (simp add: scope_drop_def Let_def t_def)
  next
    case True
    let ?k = "scope_token (scopes sys ! i)"
    let ?u = "t\<lparr>tokens := token_drop ?k (tokens sys)\<rparr>"
    have k: "live (tokens sys) ?k" using scopes_okD(4) [OF assms(1)] i by blast
    have eq: "scope_drop i sys = ?u" using True by (simp add: scope_drop_def Let_def t_def)
    have sc: "scopes ?u = scopes t" "tokens ?u = token_drop ?k (tokens sys)" by simp_all
    note tok = sys_okD(2) [OF scopes_okD(1) [OF t], unfolded len]
    show ?thesis
      unfolding eq scopes_ok_def sc
    proof (intro conjI allI impI)
      show "sys_ok ?u"
        using token_drop_ok [OF sys_okD(1) [OF scopes_okD(1) [OF assms(1)]] k] scopes_okD(1) [OF t]
        unfolding sys_ok_def sc token_drop_frame(1) len(2) by (elim conjE) (rule conjI)
      show "ended {} ?u"
        using scopes_okD(2) [OF t] tok unfolding ended_def sc len by (metis token_drop_frame(2))
      show "distinct (map scope_token (scopes t))" by (rule scopes_okD(3) [OF t])
      fix j assume j: "j < length (scopes t)" "scope_refs (scopes t ! j) \<noteq> 0"
      then have "j \<noteq> i" using nth [of j] len True by auto
      then have "scope_token (scopes t ! j) \<noteq> ?k"
        using nth_eq_iff_index_eq [OF scopes_okD(3) [OF assms(1)], of j i] j(1) i nth [of j] len by simp
      then show "live (token_drop ?k (tokens sys)) (scope_token (scopes t ! j))"
        using scopes_okD(4) [OF t j] tok [OF j(1) [unfolded len]] len token_drop_frame(3) by (simp del: live_nth)
    qed
  qed
qed

lemma unlist_child_ok:
  "scopes_ok sys \<Longrightarrow> i < length (scopes sys) \<Longrightarrow>
    scopes_ok (on_scope i (\<lambda>s. s\<lparr>scope_children := removeAll c (scope_children s)\<rparr>) sys)"
  by (intro scopes_ok_on_scope) (auto simp: owns_nothing_def)

lemma mark_tasks_ok:
  assumes "scopes_ok sys" "i < length (scopes sys)" "g [] = []"
  shows "scopes_ok (on_scope i (\<lambda>s. s\<lparr>tasks := g (tasks s)\<rparr>) sys)"
  using assms by (intro scopes_ok_on_scope) (auto simp: owns_nothing_def)

lemma scope_child_new:
  assumes "scope_child i d sys = (sys', Ok c)" "i < length (scopes sys)"
  shows "length (scopes sys') = Suc (length (scopes sys))" "c = length (scopes sys)" "scope_live sys' c"
    "closed (scopes sys' ! i) = closed (scopes sys ! i)" "\<not> closed (scopes sys ! i)"
proof -
  show open_scope: "\<not> closed (scopes sys ! i)" using assms(1) by (auto simp: scope_child_def Let_def)
  with assms(1) show len: "length (scopes sys') = Suc (length (scopes sys))" and c: "c = length (scopes sys)"
    by (auto simp: scope_child_def Let_def split_beta)
  show "scope_live sys' c" "closed (scopes sys' ! i) = closed (scopes sys ! i)"
    using assms open_scope
    by (auto simp: scope_child_def Let_def split_beta scope_live_def vget_def on_scope_def nth_append
        nth_update fresh_scope_def)
qed

lemma spawn_ok:
  assumes "scopes_ok sys" "i < length (scopes sys)"
  shows "scopes_ok (fst (spawn started os i sys))"
proof (cases "closed (scopes sys ! i)")
  case True
  with assms show ?thesis by (simp add: spawn_def)
next
  case False
  obtain b r where b: "acquire_task (budget sys) = (b, r)" by fastforce
  let ?s = "sys\<lparr>budget := b\<rparr>"
  obtain t q where t: "scope_child i None ?s = (t, q)" by fastforce
  have t_ok: "scopes_ok t" using scope_child_ok [of ?s i None] assms t by simp
  show ?thesis
  proof (cases r)
    case (Ok permit)
    show ?thesis
    proof (cases q)
      case (Ok c)
      note new = scope_child_new [OF t [unfolded Ok]]
      let ?u = "t\<lparr>task_ids := task_ids t + 1\<rparr>"
      have i: "i < length (scopes t)" "\<not> closed (scopes t ! i)" using new(1,4,5) assms(2) by simp_all
      show ?thesis
      proof (cases started)
        case True
        have "scopes_ok (on_scope i (\<lambda>s. s\<lparr>tasks := insort_key fst (task_ids t, \<lparr>finished = False, worker_panicked = False\<rparr>) (tasks s)\<rparr>) ?u)"
          using i t_ok by (intro scopes_ok_on_scope) auto
        then show ?thesis using False b t \<open>r = Ok permit\<close> Ok True by (simp add: spawn_def Let_def)
      next
        case not_started: False
        let ?v = "?u\<lparr>budget := drop_permit permit (budget ?u)\<rparr>"
        have "scope_live ?v c" using new(3) assms(2) by (simp add: scope_live_def)
        then have "scopes_ok (scope_drop c ?v)" "length (scopes (scope_drop c ?v)) = length (scopes t)"
          using scope_drop_ok [of ?v c] t_ok by simp_all
        then have "scopes_ok (on_scope i (\<lambda>s. s\<lparr>scope_children := removeAll c (scope_children s)\<rparr>) (scope_drop c ?v))"
          using i by (intro unlist_child_ok) simp_all
        then show ?thesis using False b t \<open>r = Ok permit\<close> Ok not_started by (simp add: spawn_def Let_def)
      qed
    qed (use False b t t_ok \<open>r = Ok permit\<close> in \<open>simp_all add: spawn_def\<close>)
  qed (use False b assms in \<open>simp_all add: spawn_def\<close>)
qed

lemma task_return_ok:
  assumes "scopes_ok sys" "i < length (scopes sys)" "scope_live sys child"
  shows "\<exists>sys' r. task_return q i task child outcome sys = Some (sys', r) \<and> scopes_ok sys'"
proof -
  define out where "out = (case outcome of Panic \<Rightarrow> Err (panic_contained ''scoped task panicked'') | r \<Rightarrow> r)"
  note child = scope_live_in [OF assms(3)]
  have finish: "scopes_ok (scope_drop child (on_scope i (\<lambda>s. s\<lparr>tasks :=
      map (\<lambda>(t, r). (t, if t = task then r\<lparr>finished := True\<rparr> else r)) (tasks s)\<rparr>)
      (t\<lparr>budget := drop_permit Tasks (budget t)\<rparr>)))"
    if "scopes_ok t" "evolves sys t" for t
  proof (rule scope_drop_ok)
    let ?t = "on_scope i (\<lambda>s. s\<lparr>tasks :=
      map (\<lambda>(t, r). (t, if t = task then r\<lparr>finished := True\<rparr> else r)) (tasks s)\<rparr>)
      (t\<lparr>budget := drop_permit Tasks (budget t)\<rparr>)"
    show "scopes_ok ?t" using that assms(2) evolves_length [OF that(2)] by (intro mark_tasks_ok) auto
    have "scope_refs (scopes t ! child) = scope_refs (scopes sys ! child)"
      using evolves_scope [OF that(2), of child] child by (simp add: scope_evolves_def)
    then show "scope_live ?t child" using child evolves_length [OF that(2)]
      by (auto simp: scope_live_def vget_def on_scope_def nth_update)
  qed
  from scope_close_ok [OF assms(1), of child q] child
  have close: "\<exists>t r. close_with_primary q child p sys = Some (t, r) \<and> scopes_ok t \<and> evolves sys t" for p by blast
  have "out \<noteq> Panic" by (simp add: out_def split: res.split)
  then show ?thesis
  proof (cases out)
    case (Ok v)
    with close [of None] finish show ?thesis by (auto simp: task_return_def out_def [symmetric])
  next
    case (Err e)
    with close [of "Some e"] finish show ?thesis by (auto simp: task_return_def out_def [symmetric])
  qed simp
qed

end
