(* ===== verification/Hell_Scope_Theorems.thy ===== *)
theory Hell_Scope_Theorems
  imports Hell_Scope_Run
begin

text \<open>
  The properties of tokens and scopes: cancellation flows down and not up, closing returns
  and leaves nothing behind, the cleanup is in two phases from the last registered to the
  first, and the primary error survives it; the loss of a parent token undoes a
  cancellation, and a registration that overlaps a close leaks.
\<close>

section \<open>Runs\<close>

inductive scope_step :: "'w system \<Rightarrow> 'w system \<Rightarrow> bool" where
  Root: "scope_step sys (fst (scope_root p sys))"
| Child: "scope_live sys i \<Longrightarrow> scope_step sys (fst (scope_child i d sys))"
| Register: "scope_live sys i \<Longrightarrow> scope_step sys (fst (register i r sys))"
| Defer: "scope_live sys i \<Longrightarrow> scope_step sys (fst (defer_finalizer i f sys))"
| Cancel: "scope_live sys i \<Longrightarrow> scope_cancel i reason sys = Some sys' \<Longrightarrow> scope_step sys sys'"
| Safepoint: "scope_live sys i \<Longrightarrow> safepoint now i sys = Some (sys', result) \<Longrightarrow> scope_step sys sys'"
| Close: "scope_live sys i \<Longrightarrow> close_with_primary q i primary sys = Some (sys', report) \<Longrightarrow> scope_step sys sys'"
| Spawn: "scope_live sys i \<Longrightarrow> scope_step sys (fst (spawn started os i sys))"
| Return: "scope_live sys i \<Longrightarrow> scope_live sys c \<Longrightarrow>
    task_return q i task c (outcome :: unit runtime_result) sys = Some (sys', result') \<Longrightarrow> scope_step sys sys'"
| Clone: "scope_live sys i \<Longrightarrow> scope_step sys (scope_clone i sys)"
| Drop: "scope_live sys i \<Longrightarrow> scope_step sys (scope_drop i sys)"

inductive scope_run :: "'w system \<Rightarrow> bool" where
  start: "scopes sys = [] \<Longrightarrow> tokens sys = [] \<Longrightarrow> scope_run sys"
| step: "scope_run sys \<Longrightarrow> scope_step sys sys' \<Longrightarrow> scope_run sys'"

lemma scope_step_ok: "scope_step sys sys' \<Longrightarrow> scopes_ok sys \<Longrightarrow> scopes_ok sys'"
proof (induction rule: scope_step.induct)
  case (Cancel sys i reason sys')
  then show ?case using cancel_ok [of sys i reason] scope_live_in by fastforce
next
  case (Safepoint sys i now sys' r)
  then show ?case using safepoint_ok [of sys i now] scope_live_in by fastforce
next
  case (Close sys i q primary sys' r)
  then show ?case using scope_close_ok [of sys i q primary] scope_live_in by fastforce
next
  case (Return sys i c q task outcome sys' r)
  then show ?case using task_return_ok [of sys i c q task outcome] scope_live_in by fastforce
qed (auto intro: scope_root_ok scope_child_ok register_ok defer_ok spawn_ok scope_clone_ok scope_drop_ok
      dest: scope_live_in)

lemma scope_run_ok: "scope_run sys \<Longrightarrow> scopes_ok sys"
proof (induction rule: scope_run.induct)
  case (start sys)
  then show ?case by (simp add: scopes_ok_def sys_ok_def tree_ok_def ended_def)
qed (rule scope_step_ok)

section \<open>Tokens\<close>

text \<open>
  C19: cancelling a token returns, and afterwards exactly those tokens are cancelled that
  were cancelled before or reach the token through parents still referenced: cancellation
  flows down to every such descendant and neither up nor sideways.  The first reason
  stays, and only the first canceller is told that it was the first.
\<close>

theorem cancellation_flows_down:
  assumes "tree_ok ts" "i < length ts"
  shows "\<exists>ts' first. cancel_once i r ts = Some (ts', first) \<and> tree_ok ts' \<and>
    (first \<longleftrightarrow> reason_set (ts ! i) = None) \<and>
    token_reason ts' i = Some (Some (case reason_set (ts ! i) of None \<Rightarrow> r | Some old \<Rightarrow> old)) \<and>
    (\<forall>k < length ts. is_cancelled ts' k = Some (is_cancelled ts k = Some True \<or> linked ts k i))"
proof (cases "reason_set (ts ! i)")
  case (Some old)
  have "token_stopped ts k" if "linked ts k i" for k
    using that Some unfolding token_stopped_def by auto
  then have "\<forall>k < length ts. is_cancelled ts k = Some (is_cancelled ts k = Some True \<or> linked ts k i)"
    using is_cancelled_eq [OF assms(1)] by auto
  then show ?thesis
    using cancel_once_again [of ts i r] Some assms token_reason_eq [OF assms]
    by (auto simp: reason_of_def)
next
  case None
  obtain ts' where *: "cancel_once i r ts = Some (ts', True)" "tree_ok ts'" "length ts' = length ts"
    "\<And>k. k < length ts \<Longrightarrow> live ts' k = live ts k"
    "\<And>k. k < length ts \<Longrightarrow> token_stopped ts' k \<longleftrightarrow> token_stopped ts k \<or> linked ts k i"
    "\<And>k. k < length ts \<Longrightarrow> reason_set (ts' ! k) = (if k = i then Some r else reason_set (ts ! k))"
    by (rule cancel_once_first [where r = r, OF assms None], rule that)
  have "\<forall>k < length ts. is_cancelled ts' k = Some (is_cancelled ts k = Some True \<or> linked ts k i)"
    using is_cancelled_eq [OF assms(1)] is_cancelled_eq [OF *(2)] *(3,5) by simp
  moreover have "token_reason ts' i = Some (Some r)"
    using token_reason_eq [OF *(2)] *(3,6) assms(2) by (simp add: reason_of_def)
  ultimately show ?thesis using *(1,2) None by auto
qed

definition three_tokens :: tokens where
  "three_tokens = fst (token_child 1 (fst (token_child 0 (fst (token_new [])))))"

lemma three_tokens_ok: "tree_ok three_tokens" "length three_tokens = 3"
proof -
  have "tree_ok (fst (token_new []))" by (rule token_new_ok) (simp add: tree_ok_def)
  then have "tree_ok (fst (token_child 0 (fst (token_new []))))"
    by (rule token_child_ok) (simp add: token_new_def)
  then show "tree_ok three_tokens"
    unfolding three_tokens_def by (rule token_child_ok) (simp add: token_child_frame token_new_def)
  show "length three_tokens = 3" by code_simp
qed

theorem cancellation_flows_down_witness:
  "\<exists>ts' first. cancel_once 1 UserInterrupt three_tokens = Some (ts', first) \<and>
     is_cancelled ts' 2 = Some (is_cancelled three_tokens 2 = Some True \<or> linked three_tokens 2 1)"
  using cancellation_flows_down [OF three_tokens_ok(1), of 1 UserInterrupt] three_tokens_ok(2) by auto

lemma updated_nth: "xs[i := x] ! j = (if i = j \<and> j < length xs then x else xs ! j)"
  by (induction xs arbitrary: i j) (auto simp: nth_Cons' split: nat.split)

text \<open>
  C31: \<open>check\<close> promises an error once a token \<^emph>\<open>or an ancestor\<close> is cancelled, and the wait
  relies on cancellation being monotonic; neither holds when a parent is dropped.  A token
  without a reason of its own is cancelled exactly when its parent is; once the last
  reference to the parent is dropped it is not, and its check succeeds, although every
  token that had a reason, the ancestors among them, keeps it and is still cancelled.
\<close>

theorem dropped_parent_undoes_cancellation:
  assumes "k < length ts" "reason_set (ts ! k) = None"
    and "parent_state (ts ! k) = Some m" "m < length ts" "strong_count (ts ! m) = 1"
  shows "is_cancelled ts k = is_cancelled ts m \<and>
    is_cancelled (token_drop m ts) k = Some False \<and> token_check (token_drop m ts) k = Some (Ok ()) \<and>
    (\<forall>a. reason_set (ts ! a) \<noteq> None \<longrightarrow>
      reason_set (token_drop m ts ! a) = reason_set (ts ! a) \<and> is_cancelled (token_drop m ts) a = Some True)"
proof -
  have "live ts m" using assms(4,5) by (simp add: live_def vget_def)
  then have "is_cancelled ts k = is_cancelled ts m"
    using assms(2,3) cancellation_is_token_reason [of ts m]
    by (simp add: is_cancelled_def token_reason_def [of ts k] upgrade_def option.map_comp comp_def)
  moreover have reasons: "reason_set (token_drop m ts ! a) = reason_set (ts ! a)"
    and parents: "parent_state (token_drop m ts ! a) = parent_state (ts ! a)" for a
    by (auto simp: token_drop_def forget_child_def Let_def updated_nth split: option.split)
  have "\<not> live (token_drop m ts) m"
    using assms(4,5) by (simp add: live_def vget_def token_drop_def forget_child_def Let_def updated_nth split: option.split)
  then have "is_cancelled (token_drop m ts) k = Some False"
    using assms(2,3) by (simp add: is_cancelled_def token_reason_def upgrade_def reasons parents)
  moreover have "is_cancelled (token_drop m ts) a = Some True" if "reason_set (ts ! a) \<noteq> None" for a
    using that by (auto simp: is_cancelled_def token_reason_def reasons)
  ultimately show ?thesis using reasons by (simp add: token_check_def)
qed

text \<open>Of a chain of three tokens the first is cancelled and the second dropped.\<close>

definition cancelled_chain :: tokens where
  "cancelled_chain = (case cancel_once 0 UserInterrupt three_tokens of Some (ts, first) \<Rightarrow> ts | None \<Rightarrow> [])"

theorem dropped_parent_undoes_cancellation_witness:
  "is_cancelled cancelled_chain 2 = Some True \<and> is_cancelled (token_drop 1 cancelled_chain) 2 = Some False \<and>
   is_cancelled (token_drop 1 cancelled_chain) 0 = Some True"
proof -
  have "2 < length cancelled_chain \<and> reason_set (cancelled_chain ! 2) = None \<and>
    parent_state (cancelled_chain ! 2) = Some 1 \<and> 1 < length cancelled_chain \<and> strong_count (cancelled_chain ! 1) = 1 \<and>
    reason_set (cancelled_chain ! 0) \<noteq> None \<and> is_cancelled cancelled_chain 2 = Some True"
    by code_simp
  with dropped_parent_undoes_cancellation [of 2 cancelled_chain 1] show ?thesis by metis
qed

section \<open>Closing\<close>

text \<open>
  C8: in every run of calls of the scope API, each complete before the next begins, a
  closed scope holds no resource, no finalizer and no task, its token is cancelled, it refuses children, resources, finalizers, tasks and
  safepoints with \<open>resource closed\<close> and without any effect, and closing it again runs
  nothing.
\<close>

theorem closed_scopes_are_finished:
  assumes "scope_run sys" "i < length (scopes sys)" "closed (scopes sys ! i)"
  shows "owns_nothing (scopes sys ! i) \<and>
    is_cancelled (tokens sys) (scope_token (scopes sys ! i)) = Some True \<and>
    (\<exists>e. register i r sys = (sys, Err e) \<and> error_code e = ''H0909'') \<and>
    (\<exists>e. defer_finalizer i f sys = (sys, Err e) \<and> error_code e = ''H0909'') \<and>
    (\<exists>e. scope_child i d sys = (sys, Err e) \<and> error_code e = ''H0909'') \<and>
    (\<exists>e. spawn started os i sys = (sys, Err e) \<and> error_code e = ''H0909'') \<and>
    (\<exists>e. safepoint now i sys = Some (sys, Err e) \<and> error_code e = ''H0909'') \<and>
    (\<exists>report. scope_close q i sys = Some (sys, Ok report) \<and> report_failures report = [])"
proof -
  note ok = scopes_okD [OF scope_run_ok [OF assms(1)]]
  have "owns_nothing (scopes sys ! i)" "reason_set (tokens sys ! scope_token (scopes sys ! i)) \<noteq> None"
    using ok(2) assms(2,3) unfolding ended_def by blast+
  moreover from this(2) have "token_stopped (tokens sys) (scope_token (scopes sys ! i))"
    using linked.itself unfolding token_stopped_def by blast
  then have "is_cancelled (tokens sys) (scope_token (scopes sys ! i)) = Some True"
    using is_cancelled_eq [OF sys_okD(1) [OF ok(1)] sys_okD(2) [OF ok(1) assms(2)]] by simp
  ultimately show ?thesis
    using assms(3) by (simp add: register_def defer_finalizer_def scope_child_def spawn_def safepoint_def
        scope_close_def close_with_primary_def Let_def error_constructors)
qed

text \<open>
  C21: closing any scope of any run returns and leaves the scope closed and empty, and
  cancelling it returns: the recursions through its descendants end, on a stack deep enough
  for the longest chain of them, which the model does not bound.  What follows is a run again.
\<close>

theorem closing_returns:
  assumes "scope_run sys" "scope_live sys i"
  shows "(\<exists>sys' r. close_with_primary q i primary sys = Some (sys', r) \<and> closed (scopes sys' ! i) \<and>
      owns_nothing (scopes sys' ! i) \<and> scope_run sys') \<and>
    (\<exists>sys'. scope_cancel i reason sys = Some sys' \<and> scope_run sys')"
proof -
  note i = scope_live_in [OF assms(2)]
  from scope_close_ok [OF scope_run_ok [OF assms(1)], of i q primary] i obtain t r where
    t: "close_with_primary q i primary sys = Some (t, r)" "scopes_ok t" "evolves sys t" "closed (scopes t ! i)"
    by blast
  have "owns_nothing (scopes t ! i)"
    using scopes_okD(2) [OF t(2)] t(4) i evolves_length [OF t(3)] unfolding ended_def by simp
  with t have "\<exists>sys' r. close_with_primary q i primary sys = Some (sys', r) \<and> closed (scopes sys' ! i) \<and>
    owns_nothing (scopes sys' ! i) \<and> scope_run sys'"
    using scope_run.step [OF assms(1) scope_step.Close [OF assms(2) t(1)]] by blast
  moreover from cancel_ok [OF scope_run_ok [OF assms(1)], of i reason] i
  have "\<exists>sys'. scope_cancel i reason sys = Some sys' \<and> scope_run sys'"
    using scope_run.step [OF assms(1) scope_step.Cancel [OF assms(2)]] by blast
  ultimately show ?thesis by blast
qed

section \<open>A registration that overlaps a close\<close>

text \<open>
  C40: \<open>register\<close> and \<open>defer\<close> test \<open>closed\<close> before they take the lock under which they
  push, and \<open>close\<close> does not look again.  When a scope is closed between the test and the
  push, the closed scope holds the resource and the finalizer, and nothing ever gives them
  up: closing it again and cancelling it touch neither.
\<close>

theorem late_registration_leaks:
  assumes "scope_run sys" "scope_live sys i" "\<not> closed (scopes sys ! i)"
    and "close_with_primary q i primary sys = Some (sys', answer)"
  shows "let late = push_finalizer i f (fst (register_entry i r sys')) in (\<exists>id. register i r sys = (fst (register_entry i r sys), Ok id)) \<and>
    defer_finalizer i f sys = (push_finalizer i f sys, Ok ()) \<and>
    closed (scopes late ! i) \<and> entries (scopes late ! i) = [(resource_ids sys', r)] \<and> finalizers (scopes late ! i) = [f] \<and>
    (\<exists>report. scope_close q' i late = Some (late, Ok report) \<and> report_failures report = []) \<and>
    scope_cancel i reason late = Some late \<and> world late = world sys'"
proof -
  note i = scope_live_in [OF assms(2)]
  from scope_close_ok [OF scope_run_ok [OF assms(1)], of i q primary] i assms(4)
  have t: "scopes_ok sys'" "evolves sys sys'" "closed (scopes sys' ! i)" by auto
  have len: "i < length (scopes sys')" using evolves_length [OF t(2)] i by simp
  then have "owns_nothing (scopes sys' ! i)" "reason_set (tokens sys' ! scope_token (scopes sys' ! i)) \<noteq> None"
    using scopes_okD(2) [OF t(1)] t(3) unfolding ended_def by blast+
  then show ?thesis
    using assms(3) t(3) len
    by (auto simp: register_def register_entry_def defer_finalizer_def push_finalizer_def on_scope_def Let_def
        owns_nothing_def scope_close_def close_with_primary_def scope_cancel_def cancel_here_def cancel_once_def
        cancel_children.simps)
qed

section \<open>The order of the cleanup\<close>

text \<open>A leaf: an open scope with no children and no tasks.\<close>

definition is_leaf :: "'w system \<Rightarrow> nat \<Rightarrow> bool" where
  "is_leaf sys i \<longleftrightarrow> \<not> closed (scopes sys ! i) \<and> scope_children (scopes sys ! i) = [] \<and> tasks (scopes sys ! i) = []"

definition cancelled_before :: "'w system \<Rightarrow> nat \<Rightarrow> bool" where
  "cancelled_before sys i \<longleftrightarrow> reason_set (tokens sys ! scope_token (scopes sys ! i)) \<noteq> None"

text \<open>
  One action of the cleanup on the client's world, with the error it leaves: asking a
  resource to cancel, closing it unless it is closed, running a finalizer.
\<close>

type_synonym 'w act = "'w \<Rightarrow> 'w \<times> runtime_error option"

definition ask :: "nat \<times> 'w resource \<Rightarrow> 'w act" where
  "ask = (\<lambda>(i, r) w. (fst (request_cancel r ScopeClosed w),
     if snd (request_cancel r ScopeClosed w) = Panic
     then Some (panic_contained ''scoped resource cancellation panicked'') else None))"

definition shut :: "nat \<times> 'w resource \<Rightarrow> 'w act" where
  "shut = (\<lambda>(i, r) w. if is_closed r w then (w, None)
     else (fst (release r w), case snd (release r w) of
       Ok _ \<Rightarrow> None | Err e \<Rightarrow> Some e | Panic \<Rightarrow> Some (panic_contained ''scoped resource close panicked'')))"

definition finish :: "'w finalizer \<Rightarrow> 'w act" where
  "finish f w = (fst (f w), case snd (f w) of
     Ok _ \<Rightarrow> None | Err e \<Rightarrow> Some e | Panic \<Rightarrow> Some (panic_contained ''scope finalizer panicked''))"

text \<open>All the actions one after the other, whatever errors they leave; the errors they leave.\<close>

definition after :: "'w act list \<Rightarrow> 'w \<Rightarrow> 'w" where
  "after acts w = fold (\<lambda>a w. fst (a w)) acts w"

definition errors_left :: "'w act list \<Rightarrow> 'w \<Rightarrow> runtime_error list" where
  "errors_left acts w = concat (map (\<lambda>k. case snd ((acts ! k) (after (take k acts) w)) of
     None \<Rightarrow> [] | Some e \<Rightarrow> [e]) [0..<length acts])"

lemma after_simps [simp]: "after [] w = w" "after (a # acts) w = after acts (fst (a w))"
  "after (acts @ others) w = after others (after acts w)"
  by (simp_all add: after_def)

lemma errors_left_simps [simp]: "errors_left [] w = []"
  "errors_left (a # acts) w = (case snd (a w) of None \<Rightarrow> [] | Some e \<Rightarrow> [e]) @ errors_left acts (fst (a w))"
proof -
  have "[0..<length (a # acts)] = 0 # map Suc [0..<length acts]" by (simp add: map_Suc_upt upt_conv_Cons del: upt_Suc)
  then show "errors_left (a # acts) w = (case snd (a w) of None \<Rightarrow> [] | Some e \<Rightarrow> [e]) @ errors_left acts (fst (a w))"
    by (simp add: errors_left_def comp_def del: upt_Suc)
qed (simp add: errors_left_def)

lemma errors_left_append [simp]: "errors_left (acts @ others) w = errors_left acts w @ errors_left others (after acts w)"
  by (induction acts arbitrary: w) simp_all

lemma cancel_resources_acts:
  "cancel_resources ScopeClosed es w = (w', fs) \<Longrightarrow> w' = after (map ask es) w \<and> map failure_error fs = errors_left (map ask es) w"
  by (induction es arbitrary: w w' fs) (auto simp: ask_def Let_def split: prod.splits if_splits)

lemma close_resources_acts:
  "close_resources es w = (w', fs) \<Longrightarrow> w' = after (map shut es) w \<and> map failure_error fs = errors_left (map shut es) w"
  by (induction es arbitrary: w w' fs) (auto simp: shut_def Let_def split: prod.splits if_splits res.splits)

lemma run_finalizers_acts:
  "run_finalizers gs w = (w', fs) \<Longrightarrow> w' = after (map finish gs) w \<and> map failure_error fs = errors_left (map finish gs) w"
  by (induction gs arbitrary: w w' fs) (auto simp: finish_def Let_def split: prod.splits res.splits)

text \<open>An error with more errors suppressed in it.\<close>

definition suppressing :: "runtime_error \<Rightarrow> runtime_error list \<Rightarrow> runtime_error" where
  "suppressing e es = RuntimeError (error_code e) (error_kind e) (error_message e) (error_presentation e)
     (suppressed e @ es)"

lemma suppressing_none [simp]: "suppressing e [] = e"
  by (simp add: suppressing_def)

lemma combine_suppressing:
  "combine_failures (Some e) fs = suppressing e (map failure_error fs)"
  "combine_failures None (f # fs) = suppressing (failure_error f) (map failure_error fs)"
  by (simp_all add: combine_failures_def suppressing_def)

text \<open>The answer of a close: the first error with the others suppressed, or the report.\<close>

definition answer_with :: "runtime_error list \<Rightarrow> 'r \<Rightarrow> 'r runtime_result" where
  "answer_with es report = (case es of [] \<Rightarrow> Ok report | e # es \<Rightarrow> Err (suppressing e es))"

lemma answer_combined:
  "(if primary \<noteq> None \<or> fs \<noteq> [] then Err (combine_failures primary fs) else Ok report) =
   answer_with (case_option [] (\<lambda>e. [e]) primary @ map failure_error fs) report"
  by (cases primary; cases fs) (simp_all add: answer_with_def combine_suppressing)

lemma leave_parent_outside [simp]: "world (leave_parent i sys) = world sys"
  by (simp add: leave_parent_def split: option.split)

lemma leaf_begin_close:
  assumes "scopes_ok sys" "i < length (scopes sys)" "is_leaf sys i"
    and "(w, fs) = (if cancelled_before sys i then (world sys, [])
      else cancel_resources ScopeClosed (rev (entries (scopes sys ! i))) (world sys))"
  obtains ts where "begin_close i sys = Some (sys\<lparr>tokens := ts, world := w,
    scopes := (scopes sys)[i := (scopes sys ! i)\<lparr>closed := True,
      cancellation_failures := cancellation_failures (scopes sys ! i) @ fs\<rparr>]\<rparr>)"
proof (cases "cancelled_before sys i")
  case True
  then obtain old where "reason_set (tokens sys ! scope_token (scopes sys ! i)) = Some old"
    by (auto simp: cancelled_before_def)
  then show thesis
    by (intro that [of "tokens sys"])
      (use assms(2,4) True in \<open>simp add: begin_close_def scope_cancel_def cancel_here_def on_scope_def cancel_once_def
        cancel_children.simps\<close>)
next
  case False
  note ok = scopes_okD(1) [OF assms(1)]
  let ?t = "scope_token (scopes sys ! i)"
  have none: "reason_set (tokens sys ! ?t) = None" using False by (simp add: cancelled_before_def)
  obtain ts where ts: "cancel_once ?t ScopeClosed (tokens sys) = Some (ts, True)" "tree_ok ts"
    "length ts = length (tokens sys)"
    "\<And>k. k < length (tokens sys) \<Longrightarrow> live ts k = live (tokens sys) k"
    "\<And>k. k < length (tokens sys) \<Longrightarrow> token_stopped ts k \<longleftrightarrow> token_stopped (tokens sys) k \<or> linked (tokens sys) k ?t"
    "\<And>k. k < length (tokens sys) \<Longrightarrow>
      reason_set (ts ! k) = (if k = ?t then Some ScopeClosed else reason_set (tokens sys ! k))"
    by (rule cancel_once_first [where r = ScopeClosed, OF sys_okD(1) [OF ok] sys_okD(2) [OF ok assms(2)] none],
        rule that)
  have "cancel_resources ScopeClosed (rev (entries (scopes sys ! i))) (world sys) = (w, fs)"
    using assms(4) False by simp
  then show thesis
    by (intro that [of ts])
      (use assms(2,3) ts(1) in \<open>simp add: begin_close_def scope_cancel_def cancel_here_def on_scope_def
        is_leaf_def Let_def cancel_children.simps\<close>)
qed

lemma leaf_end_close:
  assumes "i < length (scopes sys)" "tasks (scopes sys ! i) = []"
    and "close_resources (rev (entries (scopes sys ! i))) (world sys) = (w2, f2)"
    and "run_finalizers (rev (finalizers (scopes sys ! i))) w2 = (w3, f3)"
  shows "snd (end_close q i [] sys) = cancellation_failures (scopes sys ! i) @ f2 @ f3"
    "world (fst (end_close q i [] sys)) = w3"
  using assms
  by (simp_all add: end_close_def Let_def await_tasks_def on_scope_def panicked_tasks_def stalled_tasks_def)

lemma leaf_cleanup:
  assumes "scopes_ok sys" "i < length (scopes sys)" "is_leaf sys i"
    and c: "(w1, f1) = (if cancelled_before sys i then (world sys, [])
      else cancel_resources ScopeClosed (rev (entries (scopes sys ! i))) (world sys))"
    and r: "close_resources (rev (entries (scopes sys ! i))) w1 = (w2, f2)"
    and f: "run_finalizers (rev (finalizers (scopes sys ! i))) w2 = (w3, f3)"
  defines "fs \<equiv> cancellation_failures (scopes sys ! i) @ f1 @ f2 @ f3"
  shows "\<exists>sys' report. close_with_primary q i primary sys =
      Some (sys', answer_with (case_option [] (\<lambda>e. [e]) primary @ map failure_error fs) report) \<and>
    world sys' = w3"
proof -
  obtain ts where first: "begin_close i sys = Some (sys\<lparr>tokens := ts, world := w1,
    scopes := (scopes sys)[i := (scopes sys ! i)\<lparr>closed := True,
      cancellation_failures := cancellation_failures (scopes sys ! i) @ f1\<rparr>]\<rparr>)" (is "_ = Some ?t")
    by (rule leaf_begin_close [OF assms(1-3) c], rule that)
  have ti: "i < length (scopes ?t)" "tasks (scopes ?t ! i) = []" "scope_children (scopes ?t ! i) = []"
    using assms(2,3) by (simp_all add: is_leaf_def)
  have "closing_order i ?t = []" using ti(3) by (simp add: closing_order_def)
  moreover obtain u gs where u: "end_close q i [] ?t = (u, gs)" by fastforce
  moreover have "gs = fs" "world u = w3"
    using leaf_end_close [OF ti(1,2), where q = q] r f assms(2) u by (simp_all add: fs_def)
  ultimately show ?thesis
    using first assms(3) unfolding answer_combined [symmetric]
    by (auto simp: close_with_primary_def is_leaf_def Let_def close_children.simps)
qed

text \<open>
  C10: closing a scope that has neither children nor tasks cleans up in two phases, each
  from the last registered to the first: every resource is asked to cancel, unless the
  scope was cancelled before, then every resource still open is closed and every finalizer
  is run, each exactly once, whatever fails or panics on the way.  The errors are those of
  an earlier cancellation and then, in order, all that the actions leave; the answer is
  the primary error, or else the first of these, with all the others suppressed in it, and
  a report exactly when there is none.
\<close>

theorem cleanup_is_two_phase_and_lifo:
  assumes "scope_run sys" "scope_live sys i" "is_leaf sys i"
  shows "let s = scopes sys ! i;
      acts = (if cancelled_before sys i then [] else map ask (rev (entries s))) @
        map shut (rev (entries s)) @ map finish (rev (finalizers s));
      errors = map failure_error (cancellation_failures s) @ errors_left acts (world sys)
    in \<exists>sys' report. world sys' = after acts (world sys) \<and>
      close_with_primary q i primary sys = Some (sys', answer_with (case_option [] (\<lambda>e. [e]) primary @ errors) report)"
proof -
  let ?es = "rev (entries (scopes sys ! i))" and ?before = "cancelled_before sys i"
  obtain w1 f1 where c: "(w1, f1) = (if ?before then (world sys, []) else cancel_resources ScopeClosed ?es (world sys))"
    by (metis surj_pair)
  obtain w2 f2 where r: "close_resources ?es w1 = (w2, f2)" by fastforce
  obtain w3 f3 where f: "run_finalizers (rev (finalizers (scopes sys ! i))) w2 = (w3, f3)" by fastforce
  have asked: "w1 = after (if ?before then [] else map ask ?es) (world sys)"
    "map failure_error f1 = errors_left (if ?before then [] else map ask ?es) (world sys)"
    using c cancel_resources_acts [of ?es "world sys" w1 f1] by (auto split: if_splits)
  have "i < length (scopes sys)" using scope_live_in [OF assms(2)] by blast
  from leaf_cleanup [OF scope_run_ok [OF assms(1)] this assms(3) c r f, of q primary]
  show ?thesis
    using close_resources_acts [OF r] run_finalizers_acts [OF f] asked
    by (simp only: Let_def after_simps errors_left_append map_append) blast
qed

section \<open>Errors\<close>

lemma close_both_ways:
  assumes "close_with_primary q i None sys = Some (sys', r)"
  obtains report es where "r = answer_with es report"
    "close_with_primary q i (Some e) sys = Some (sys', Err (suppressing e es))"
proof (cases "closed (scopes sys ! i)")
  case True
  with assms show thesis
    by (intro that [of "[]"]) (auto simp: close_with_primary_def Let_def answer_with_def)
next
  case False
  with assms obtain a b below where begins: "begin_close i sys = Some a" "close_children q (closing_order i a) a = Some (b, below)"
    by (auto simp: close_with_primary_def Let_def bind_eq_Some_conv)
  define u where "u = fst (end_close q i below b)"
  define fs where "fs = snd (end_close q i below b)"
  define report where "report = \<lparr>report_scope = i, report_failures = fs, report_before = scope_snapshot_of i sys,
    report_after = scope_snapshot_of i u\<rparr>"
  have closes: "close_with_primary q i primary sys =
      Some (u, answer_with (case_option [] (\<lambda>e. [e]) primary @ map failure_error fs) report)" for primary
    using False begins
    by (simp add: close_with_primary_def Let_def split_beta answer_combined [symmetric] u_def fs_def report_def)
  show thesis
    by (rule that [of "map failure_error fs" report]) (use closes assms in \<open>simp_all add: answer_with_def\<close>)
qed

text \<open>
  C26: closing with a primary error does what closing without does and always answers with
  that error.  The errors of the cleanup, which the plain close reports as the first of
  them with the rest suppressed in it, are all suppressed in the primary error, in the same
  order; so the statements after such a close that the sources call unreachable are, and
  a failed task's result is its own error and never the internal one the worker keeps for
  the other case.
\<close>

theorem primary_error_survives:
  assumes "scope_run sys" "scope_live sys i"
  shows "\<exists>sys' report es. close_with_primary q i None sys = Some (sys', answer_with es report) \<and>
    close_with_primary q i (Some e) sys = Some (sys', Err (suppressing e es)) \<and>
    (\<exists>sys''. task_return q j task i (Err e :: unit runtime_result) sys = Some (sys'', Err (suppressing e es)))"
proof -
  from scope_close_ok [OF scope_run_ok [OF assms(1)], of i q None] scope_live_in [OF assms(2)]
  obtain t r where t: "close_with_primary q i None sys = Some (t, r)" by blast
  from close_both_ways [OF t, of e] obtain report es where "r = answer_with es report"
    "close_with_primary q i (Some e) sys = Some (t, Err (suppressing e es))" .
  with t show ?thesis by (simp add: task_return_def Let_def) blast
qed

section \<open>A run\<close>

text \<open>A world that records what is done to it; the second resource refuses to close.\<close>

datatype event = Asked nat | Shut nat | Ran nat

definition recorded :: "nat \<Rightarrow> bool \<Rightarrow> event list resource" where
  "recorded n fails = \<lparr>res_kind = OtherResource,
     request_cancel = (\<lambda>_ w. (w @ [Asked n], Ok ())),
     release = (\<lambda>w. (w @ [Shut n], if fails then Err (internal ''close failed'') else Ok ())),
     is_closed = (\<lambda>_. False)\<rparr>"

definition run_event :: "nat \<Rightarrow> event list finalizer" where
  "run_event n w = (w @ [Ran n], Ok ())"

definition idle :: "event list system" where
  "idle = \<lparr>scopes = [], tokens = [], budget = budget_new sandboxed, world = [], task_ids = 1, resource_ids = 1\<rparr>"

definition one_scope :: "event list system" where
  "one_scope = fst (scope_root sandboxed idle)"

definition full_scope :: "event list system" where
  "full_scope = fst (defer_finalizer 0 (run_event 2) (fst (defer_finalizer 0 (run_event 1)
     (fst (register 0 (recorded 2 True) (fst (register 0 (recorded 1 False) one_scope)))))))"

lemmas run_defs = full_scope_def one_scope_def idle_def scope_root_def token_new_def fresh_scope_def
  fresh_state_def register_def register_entry_def defer_finalizer_def push_finalizer_def on_scope_def Let_def

lemma full_scope_run: "scope_run full_scope" "scope_live full_scope 0" "is_leaf full_scope 0"
proof -
  have "scope_run idle" by (rule scope_run.start) (simp_all add: idle_def)
  then have "scope_run one_scope" unfolding one_scope_def by (rule scope_run.step) (rule scope_step.Root)
  moreover have "scope_live one_scope 0" by (simp add: scope_live_def run_defs)
  ultimately show "scope_run full_scope"
    unfolding full_scope_def
    by (intro scope_run.step [OF _ scope_step.Defer] scope_run.step [OF _ scope_step.Register])
      (simp_all add: scope_live_def run_defs)
  show "scope_live full_scope 0" "is_leaf full_scope 0"
    by (simp_all add: scope_live_def is_leaf_def run_defs)
qed

theorem cleanup_is_two_phase_and_lifo_witness:
  "\<exists>sys' e. scope_close (\<lambda>_. True) 0 full_scope = Some (sys', Err e) \<and> error_message e = ''close failed'' \<and>
     world sys' = [Asked 2, Asked 1, Shut 2, Shut 1, Ran 2, Ran 1]"
proof -
  let ?s = "scopes full_scope ! 0"
  have s: "entries ?s = [(1, recorded 1 False), (2, recorded 2 True)]" "finalizers ?s = [run_event 1, run_event 2]"
    "cancellation_failures ?s = []" "world full_scope = []" "\<not> cancelled_before full_scope 0"
    by (simp_all add: run_defs cancelled_before_def)
  have acts: "after (map ask (rev (entries ?s)) @ map shut (rev (entries ?s)) @ map finish (rev (finalizers ?s))) [] =
      [Asked 2, Asked 1, Shut 2, Shut 1, Ran 2, Ran 1]"
    "errors_left (map ask (rev (entries ?s)) @ map shut (rev (entries ?s)) @ map finish (rev (finalizers ?s))) [] =
      [internal ''close failed'']"
    by (simp_all add: s ask_def shut_def finish_def recorded_def run_event_def)
  from cleanup_is_two_phase_and_lifo [OF full_scope_run, of "\<lambda>_. True" None]
  obtain sys' where "close_with_primary (\<lambda>_. True) 0 None full_scope =
      Some (sys', answer_with [internal ''close failed''] undefined)" 
    "world sys' = [Asked 2, Asked 1, Shut 2, Shut 1, Ran 2, Ran 1]"
    using s(3-5) acts by (auto simp: Let_def answer_with_def)
  then show ?thesis by (auto simp: scope_close_def answer_with_def error_constructors)
qed

theorem late_registration_leaks_witness:
  "\<exists>sys answer late. close_with_primary (\<lambda>_. True) 0 None full_scope = Some (sys, answer) \<and>
     late = fst (register_entry 0 (recorded 3 False) sys) \<and> entries (scopes late ! 0) \<noteq> []"
proof -
  from scope_close_ok [OF scope_run_ok [OF full_scope_run(1)], of 0 "\<lambda>_. True" None] scope_live_in [OF full_scope_run(2)]
  obtain sys r where c: "close_with_primary (\<lambda>_. True) 0 None full_scope = Some (sys, r)" by blast
  have "\<not> closed (scopes full_scope ! 0)" using full_scope_run(3) by (simp add: is_leaf_def)
  from late_registration_leaks [OF full_scope_run(1,2) this c, where r = "recorded 3 False" and f = "run_event 3"] c
  show ?thesis
    by (intro exI [of _ sys] exI [of _ r] exI conjI refl)
      (auto simp: push_finalizer_def on_scope_def register_entry_def Let_def updated_nth split: if_splits)
qed

theorem closing_returns_witness:
  "\<exists>sys' r. close_with_primary (\<lambda>_. True) 0 None full_scope = Some (sys', r) \<and> closed (scopes sys' ! 0)"
  using closing_returns [OF full_scope_run(1,2), of "\<lambda>_. True" None] by blast

theorem closed_scopes_are_finished_witness:
  "\<exists>sys. scope_run sys \<and> closed (scopes sys ! 0) \<and> owns_nothing (scopes sys ! 0 :: event list scope) \<and>
     (\<exists>report. scope_close (\<lambda>_. True) 0 sys = Some (sys, Ok report))"
proof -
  from scope_close_ok [OF scope_run_ok [OF full_scope_run(1)], of 0 "\<lambda>_. True" None]
  obtain sys r where "close_with_primary (\<lambda>_. True) 0 None full_scope = Some (sys, r)"
    and sys: "evolves full_scope sys" "closed (scopes sys ! 0)"
    using scope_live_in [OF full_scope_run(2)] by blast
  then have run: "scope_run sys"
    using scope_run.step [OF full_scope_run(1) scope_step.Close [OF full_scope_run(2)]] by blast
  have "0 < length (scopes sys)" using evolves_length [OF sys(1)] scope_live_in [OF full_scope_run(2)] by simp
  from closed_scopes_are_finished [OF run this sys(2), where q = "\<lambda>_. True"] run sys(2) show ?thesis by blast
qed

theorem primary_error_survives_witness:
  "\<exists>sys' report es. close_with_primary (\<lambda>_. True) 0 None full_scope = Some (sys', answer_with es report) \<and>
     close_with_primary (\<lambda>_. True) 0 (Some cancelled) full_scope = Some (sys', Err (suppressing cancelled es))"
  using primary_error_survives [OF full_scope_run(1,2), of "\<lambda>_. True" cancelled] by blast

end
