(* ===== verification/Hell_Json.thy ===== *)
theory Hell_Json
  imports Hell_Integer Hell_Runtime_Error
begin

text \<open>
  \<open>crates/hell-runtime/src/native_json.rs\<close>: the JSON of the guest, with the decoder, the
  flat documents it is stored in, the exact decimal numbers, and the encoder of
  \<open>crates/hell-runtime/src/lib.rs\<close>.  A \<open>String\<close> is its bytes, an offset a natural number;
  a method of the parser takes the bytes and the offset and returns the new offset with
  its answer.  As for the integers, \<open>Err ()\<close> is \<open>None\<close>, and a slice out of bounds or a
  failed \<open>expect\<close> is \<open>Panic\<close>.
\<close>

section \<open>Data\<close>

definition i64_max :: int where
  "i64_max = 9223372036854775807"

definition i64_min :: int where
  "i64_min = - 9223372036854775808"

record json_number =
  coefficient :: big_integer
  exponent10 :: int
  lexeme :: string

text \<open>A \<open>BTreeMap<String, _>\<close> is its entries in the order of the keys, byte by byte.\<close>

datatype json_node =
    JNull
  | JBool bool
  | JString string
  | JNumber json_number
  | JArray "json_node list"
  | JObject "(string \<times> json_node) list"

fun btree_insert :: "string \<Rightarrow> 'a \<Rightarrow> (string \<times> 'a) list \<Rightarrow> (string \<times> 'a) list" where
  "btree_insert k v [] = [(k, v)]"
| "btree_insert k v ((k', v') # rest) =
    (case compare_lex (map byte k) (map byte k') of
       Less \<Rightarrow> (k, v) # (k', v') # rest
     | Equal \<Rightarrow> (k', v) # rest
     | Greater \<Rightarrow> (k', v') # btree_insert k v rest)"

text \<open>Checked 64-bit arithmetic, on \<open>i64\<close> and \<open>u64\<close>.\<close>

definition checked_i64 :: "int \<Rightarrow> int arith" where
  "checked_i64 v = (if i64_min \<le> v \<and> v \<le> i64_max then Ok v else Err ())"

definition checked_u64 :: "nat \<Rightarrow> nat arith" where
  "checked_u64 n = (if n \<le> u64_max then Ok n else Err ())"

text \<open>Evaluation compares and divides as integers, which are binary.\<close>

lemma checked_u64_code [code]: "checked_u64 n = (if int n \<le> 18446744073709551615 then Ok n else Err ())"
  by (simp add: checked_u64_def u64_max_def)

lemma expect_u32_code [code]: "expect_u32 n = (if int n \<le> 4294967295 then Ok (word_of_nat n) else Panic)"
  by (simp add: expect_u32_def u32_max_def)

lemma wide_code [code]: "wide n = (if int n \<le> 18446744073709551615 then Ok (word_of_nat n) else Panic)"
  by (simp add: wide_def u64_max_def)

lemma split_limb_code [code]:
  "split_limb v = res_bind (expect_u32 (nat (uint v mod 1000000000)))
    (\<lambda>limb. Ok (limb, word_of_int (uint v div 1000000000)))"
proof -
  have u: "unat v = nat (uint v)" and ge: "0 \<le> uint v" by (simp_all only: unat_eq_nat_uint uint_ge_0)
  have B: "BASE = nat 1000000000" by (simp add: BASE_def)
  have "unat v mod BASE = nat (uint v mod 1000000000)" "unat v div BASE = nat (uint v div 1000000000)"
    unfolding u B using ge by (simp_all only: nat_mod_distrib nat_div_distrib)
  moreover have "(word_of_nat (nat (uint v div 1000000000)) :: u64) = word_of_int (uint v div 1000000000)"
    using ge by (intro of_nat_nat) (simp only: pos_imp_zdiv_nonneg_iff)
  ultimately show ?thesis by (simp only: split_limb_def)
qed

lemma divide_limbs_code [code]:
  "divide_limbs [] divisor = Ok ([], 0)"
  "divide_limbs (limb # ls) divisor =
    res_bind (divide_limbs ls divisor) (\<lambda>(quotient, remainder).
    res_bind (wide (nat (uint remainder * 1000000000 + uint limb))) (\<lambda>current.
    res_bind (expect_u32 (unat current div unat divisor)) (\<lambda>q.
    Ok (q # quotient, word_of_nat (unat current mod unat divisor)))))"
proof -
  have "nat (uint r * 1000000000 + uint limb) = unat r * BASE + unat limb" for r :: u64
    by (simp add: BASE_def nat_add_distrib nat_mult_distrib)
  then show "divide_limbs (limb # ls) divisor =
    res_bind (divide_limbs ls divisor) (\<lambda>(quotient, remainder).
    res_bind (wide (nat (uint remainder * 1000000000 + uint limb))) (\<lambda>current.
    res_bind (expect_u32 (unat current div unat divisor)) (\<lambda>q.
    Ok (q # quotient, word_of_nat (unat current mod unat divisor)))))" by simp
qed simp

lemma is_white_space_code [code]:
  "is_white_space c = (let i = int c in (9 \<le> i \<and> i \<le> 13) \<or> i = 32 \<or> i = 133 \<or> i = 160 \<or> i = 5760 \<or>
    (8192 \<le> i \<and> i \<le> 8202) \<or> i = 8232 \<or> i = 8233 \<or> i = 8239 \<or> i = 8287 \<or> i = 12288)"
  unfolding is_white_space_def Let_def by auto

section \<open>The bytes\<close>

definition json_peek :: "string \<Rightarrow> nat \<Rightarrow> char option" where
  "json_peek bytes off = vget bytes off"

definition json_take :: "string \<Rightarrow> char \<Rightarrow> nat \<Rightarrow> bool \<times> nat" where
  "json_take bytes ch off =
    (if json_peek bytes off = Some ch then (True, Suc off) else (False, off))"

definition json_consume :: "string \<Rightarrow> char \<Rightarrow> nat \<Rightarrow> nat arith" where
  "json_consume bytes ch off =
    (case json_peek bytes off of
       None \<Rightarrow> Err ()
     | Some b \<Rightarrow> if b \<noteq> ch then Err () else Ok (Suc off))"

definition is_json_space :: "char \<Rightarrow> bool" where
  "is_json_space c \<longleftrightarrow> c \<in> {CHR 0x20, CHR 0x0A, CHR 0x0D, CHR 0x09}"

text \<open>\<open>while matches!(self.peek(), Some(...)) \{ self.offset += 1; \}\<close>\<close>

function skip_bytes :: "(char \<Rightarrow> bool) \<Rightarrow> string \<Rightarrow> nat \<Rightarrow> nat" where
  "skip_bytes P bytes off =
    (case json_peek bytes off of
       None \<Rightarrow> off
     | Some b \<Rightarrow> if P b then skip_bytes P bytes (Suc off) else off)"
  by pat_completeness auto
termination
  by (relation "measure (\<lambda>(P, bytes, off). length bytes - off)") (auto simp: json_peek_def vget_Some)

declare skip_bytes.simps [simp del]

definition json_whitespace :: "string \<Rightarrow> nat \<Rightarrow> nat" where
  "json_whitespace = skip_bytes is_json_space"

definition json_literal :: "string \<Rightarrow> string \<Rightarrow> json_node \<Rightarrow> nat \<Rightarrow> (json_node \<times> nat) arith" where
  "json_literal bytes word v off =
    (case vslice bytes off (off + length word) of
       None \<Rightarrow> Err ()
     | Some found \<Rightarrow> if found \<noteq> word then Err () else Ok (v, off + length word))"

text \<open>A slice \<open>&bytes[a..b]\<close> read as text, with \<open>ok()?\<close> on the conversion.\<close>

definition json_str :: "string \<Rightarrow> nat \<Rightarrow> nat \<Rightarrow> string arith" where
  "json_str bytes a b =
    (case vslice bytes a b of
       None \<Rightarrow> Panic
     | Some s \<Rightarrow> (case from_utf8 s of Ok _ \<Rightarrow> Ok s | Err _ \<Rightarrow> Err () | Panic \<Rightarrow> Panic))"

section \<open>Strings\<close>

text \<open>\<open>char::to_digit(16)\<close>\<close>

definition hex_value :: "char \<Rightarrow> nat option" where
  "hex_value c =
    (if 48 \<le> byte c \<and> byte c \<le> 57 then Some (byte c - 48)
     else if 97 \<le> byte c \<and> byte c \<le> 102 then Some (byte c - 87)
     else if 65 \<le> byte c \<and> byte c \<le> 70 then Some (byte c - 55)
     else None)"

definition quad_step :: "string \<Rightarrow> nat \<times> nat \<Rightarrow> (nat \<times> nat) arith" where
  "quad_step bytes s =
    (let (value, off) = s in
     if u32_max < value * 16 then Err ()
     else (case json_peek bytes off of None \<Rightarrow> Err () | Some c \<Rightarrow>
          (case hex_value c of None \<Rightarrow> Err () | Some d \<Rightarrow>
             if u32_max < value * 16 + d then Panic else Ok (value * 16 + d, Suc off))))"

definition hex_quad :: "string \<Rightarrow> nat \<Rightarrow> (nat \<times> nat) arith" where
  "hex_quad bytes off = res_fold (\<lambda>_ :: nat. quad_step bytes) [0..<4] (0, off)"

definition unicode_escape :: "string \<Rightarrow> nat \<Rightarrow> (nat \<times> nat) arith" where
  "unicode_escape bytes off =
    res_bind (hex_quad bytes off) (\<lambda>(first, off).
    res_bind
      (if 55296 \<le> first \<and> first \<le> 56319 then
         res_bind (json_consume bytes (CHR 0x5C) off) (\<lambda>off.
         res_bind (json_consume bytes (CHR ''u'') off) (\<lambda>off.
         res_bind (hex_quad bytes off) (\<lambda>(second, off).
           if \<not> (56320 \<le> second \<and> second \<le> 57343) then Err ()
           else Ok (65536 + (first - 55296) * 1024 + (second - 56320), off))))
       else if 56320 \<le> first \<and> first \<le> 57343 then Err ()
       else Ok (first, off)) (\<lambda>(scalar, off).
      (case char_from_u32 scalar of None \<Rightarrow> Err () | Some c \<Rightarrow> Ok (c, off))))"

text \<open>The escapes of one byte and the scalar they stand for.\<close>

definition plain_escape :: "char \<Rightarrow> nat option" where
  "plain_escape c =
    (if c = CHR 0x22 then Some 34 else if c = CHR 0x5C then Some 92 else if c = CHR ''/'' then Some 47
     else if c = CHR ''b'' then Some 8 else if c = CHR ''f'' then Some 12 else if c = CHR ''n'' then Some 10
     else if c = CHR ''r'' then Some 13 else if c = CHR ''t'' then Some 9 else None)"

definition json_escape :: "string \<Rightarrow> nat \<Rightarrow> string \<Rightarrow> (string \<times> nat) arith" where
  "json_escape bytes off out =
    (case json_peek bytes off of
       None \<Rightarrow> Err ()
     | Some c \<Rightarrow>
        if c = CHR ''u'' then
          res_bind (unicode_escape bytes (Suc off)) (\<lambda>(c, off). Ok (out @ encode_utf8 c, off))
        else (case plain_escape c of None \<Rightarrow> Err () | Some k \<Rightarrow> Ok (out @ encode_utf8 k, Suc off)))"

lemma json_consume_Ok: "json_consume bytes c off = Ok off' \<longleftrightarrow> json_peek bytes off = Some c \<and> off' = Suc off"
  by (auto simp: json_consume_def split: option.splits)

lemma json_peek_bound: "json_peek bytes off = Some c \<Longrightarrow> off < length bytes"
  by (simp add: json_peek_def vget_Some)

lemma quad_step_bound:
  "quad_step bytes (v, off) = Ok (v', off') \<Longrightarrow> off' = Suc off \<and> off < length bytes"
  by (auto simp: quad_step_def dest: json_peek_bound split: if_splits option.splits)

lemma hex_quad_bound: "hex_quad bytes off = Ok (v, off') \<Longrightarrow> off < off' \<and> off' \<le> length bytes"
  by (auto simp: hex_quad_def eval_nat_numeral dest!: quad_step_bound)

lemma unicode_escape_bound:
  assumes "unicode_escape bytes off = Ok (c, off')"
  shows "off < off' \<and> off' \<le> length bytes"
  using assms
  by (fastforce simp: unicode_escape_def json_consume_Ok dest: hex_quad_bound json_peek_bound
      split: if_splits option.splits prod.splits)

lemma json_escape_bound:
  assumes "json_escape bytes off out = Ok (out', off')"
  shows "off < off' \<and> off' \<le> length bytes"
  using assms
  by (fastforce simp: json_escape_def Let_def dest: json_peek_bound unicode_escape_bound
      split: if_splits option.splits prod.splits)

function json_chars :: "string \<Rightarrow> nat \<Rightarrow> string \<Rightarrow> (string \<times> nat) arith" where
  "json_chars bytes off out =
    (case json_peek bytes off of
       None \<Rightarrow> Err ()
     | Some b \<Rightarrow>
        if b = CHR 0x22 then Ok (out, Suc off)
        else if b = CHR 0x5C then
          (case json_escape bytes (Suc off) out of
             Ok (out, off') \<Rightarrow> json_chars bytes off' out
           | Err e \<Rightarrow> Err e | Panic \<Rightarrow> Panic)
        else if byte b \<le> 31 then Err ()
        else if byte b \<le> 127 then json_chars bytes (Suc off) (out @ [b])
        else (case from_utf8 (drop off bytes) of
            Ok (c # _) \<Rightarrow> json_chars bytes (off + len_utf8 c) (out @ encode_utf8 c)
          | _ \<Rightarrow> Err ()))"
  by pat_completeness auto
termination
  by (relation "measure (\<lambda>(bytes, off, out). length bytes - off)")
     (auto simp: len_utf8_def dest!: json_peek_bound json_escape_bound)

declare json_chars.simps [simp del]

definition json_string :: "string \<Rightarrow> nat \<Rightarrow> (string \<times> nat) arith" where
  "json_string bytes off = res_bind (json_consume bytes (CHR 0x22) off) (\<lambda>off. json_chars bytes off [])"

text \<open>\<open>push_string\<close>, the text of a string.\<close>

definition escape_char :: "nat \<Rightarrow> string" where
  "escape_char c =
    (if c = 34 then [CHR 0x5C, CHR 0x22]
     else if c = 92 then [CHR 0x5C, CHR 0x5C]
     else if c = 8 then [CHR 0x5C, CHR ''b'']
     else if c = 12 then [CHR 0x5C, CHR ''f'']
     else if c = 10 then [CHR 0x5C, CHR ''n'']
     else if c = 13 then [CHR 0x5C, CHR ''r'']
     else if c = 9 then [CHR 0x5C, CHR ''t'']
     else if c \<le> 31 then
       [CHR 0x5C, CHR ''u'', hex_digit (c div 4096), hex_digit (c div 256 mod 16),
        hex_digit (c div 16 mod 16), hex_digit (c mod 16)]
     else encode_utf8 c)"

definition push_string :: "string \<Rightarrow> string \<Rightarrow> string arith" where
  "push_string out v =
    (case from_utf8 v of
       Ok cs \<Rightarrow> Ok (out @ [CHR 0x22] @ concat (map escape_char cs) @ [CHR 0x22])
     | _ \<Rightarrow> Panic)"

section \<open>Numbers\<close>

definition is_json_digit :: "char \<Rightarrow> bool" where
  "is_json_digit c \<longleftrightarrow> is_digit (byte c)"

definition digit_ahead :: "string \<Rightarrow> nat \<Rightarrow> bool" where
  "digit_ahead bytes off = (case json_peek bytes off of None \<Rightarrow> False | Some c \<Rightarrow> is_json_digit c)"

definition integer_part :: "string \<Rightarrow> nat \<Rightarrow> nat arith" where
  "integer_part bytes off =
    (case json_peek bytes off of
       None \<Rightarrow> Err ()
     | Some c \<Rightarrow>
        if c = CHR ''0'' then (if digit_ahead bytes (Suc off) then Err () else Ok (Suc off))
        else if is_json_digit c then Ok (skip_bytes is_json_digit bytes (Suc off))
        else Err ())"

text \<open>The bounds of the fraction, if there is one, and where it ends.\<close>

definition json_fraction :: "string \<Rightarrow> nat \<Rightarrow> ((nat \<times> nat) option \<times> nat) arith" where
  "json_fraction bytes off =
    (let (dot, start) = json_take bytes (CHR ''.'') off in
     if \<not> dot then Ok (None, off)
     else if \<not> digit_ahead bytes start then Err ()
     else (let ending = skip_bytes is_json_digit bytes start in Ok (Some (start, ending), ending)))"

function exponent_digits :: "string \<Rightarrow> int \<Rightarrow> nat \<Rightarrow> (int \<times> nat) arith" where
  "exponent_digits bytes v off =
    (case json_peek bytes off of
       None \<Rightarrow> Ok (v, off)
     | Some c \<Rightarrow>
        if is_json_digit c then
          (case res_bind (checked_i64 (v * 10)) (\<lambda>v. checked_i64 (v + int (byte c - 48))) of
             Ok v \<Rightarrow> exponent_digits bytes v (Suc off)
           | Err e \<Rightarrow> Err e | Panic \<Rightarrow> Panic)
        else Ok (v, off))"
  by pat_completeness auto
termination
  by (relation "measure (\<lambda>(bytes, v, off). length bytes - off)") (auto dest: json_peek_bound)

declare exponent_digits.simps [simp del]

definition json_exponent :: "string \<Rightarrow> nat \<Rightarrow> (int \<times> nat) arith" where
  "json_exponent bytes off =
    (if json_peek bytes off \<in> {Some (CHR ''e''), Some (CHR ''E'')} then
       (let (minus, off) = json_take bytes (CHR ''-'') (Suc off);
            off = (if minus then off else snd (json_take bytes (CHR ''+'') off)) in
        if \<not> digit_ahead bytes off then Err ()
        else res_bind (exponent_digits bytes 0 off) (\<lambda>(v, off).
             if minus then res_bind (checked_i64 (- v)) (\<lambda>v. Ok (v, off)) else Ok (v, off)))
     else Ok (0, off))"

text \<open>
  The number from its parts.  The text of the coefficient holds ASCII only, so that its
  bytes are its scalar values.
\<close>

definition number_from ::
  "string \<Rightarrow> nat \<Rightarrow> bool \<Rightarrow> nat \<Rightarrow> nat \<Rightarrow> (nat \<times> nat) option \<Rightarrow> int \<Rightarrow> nat \<Rightarrow> (json_number \<times> nat) arith" where
  "number_from bytes start neg digits_start integer_end fraction explicit off =
    res_bind (case fraction of None \<Rightarrow> Ok 0
              | Some (a, b) \<Rightarrow> if b < a then Err () else checked_i64 (int (b - a))) (\<lambda>fraction_digits.
    res_bind (checked_i64 (explicit - fraction_digits)) (\<lambda>exponent.
    res_bind (json_str bytes digits_start integer_end) (\<lambda>whole.
    res_bind (case fraction of None \<Rightarrow> Ok [] | Some (a, b) \<Rightarrow> json_str bytes a b) (\<lambda>part.
    res_bind (int_parse (map byte ((if neg then ''-'' else []) @ whole @ part))) (\<lambda>c.
    res_bind (json_str bytes start off) (\<lambda>text.
      Ok (\<lparr>coefficient = c, exponent10 = exponent, lexeme = text\<rparr>, off)))))))"

definition json_number_at :: "string \<Rightarrow> nat \<Rightarrow> (json_number \<times> nat) arith" where
  "json_number_at bytes start =
    (let (neg, digits_start) = json_take bytes (CHR ''-'') start in
     res_bind (integer_part bytes digits_start) (\<lambda>integer_end.
     res_bind (json_fraction bytes integer_end) (\<lambda>(fraction, off).
     res_bind (json_exponent bytes off) (\<lambda>(explicit, off).
       number_from bytes start neg digits_start integer_end fraction explicit off))))"

text \<open>
  \<open>normalized_parts\<close> moves the zeros of the coefficient into the exponent.  The quotient
  is assigned before the checked addition: where the exponent is at its maximum the pair
  returned is the quotient with the exponent unchanged.
\<close>

function normalize_loop :: "big_integer \<Rightarrow> int \<Rightarrow> (big_integer \<times> int) arith" where
  "normalize_loop c e =
    (case div_rem_euclid_small c 10 of
       Ok (q, r) \<Rightarrow>
         if r \<noteq> 0 then Ok (c, e)
         else (case checked_i64 (e + 1) of Ok e \<Rightarrow> normalize_loop q e | _ \<Rightarrow> Ok (q, e))
     | Err x \<Rightarrow> Err x | Panic \<Rightarrow> Panic)"
  by pat_completeness auto
termination
  by (relation "measure (\<lambda>(c, e). nat (i64_max - e))") (auto simp: checked_i64_def split: if_splits)

declare normalize_loop.simps [simp del]

definition normalized_parts :: "json_number \<Rightarrow> (big_integer \<times> int) arith" where
  "normalized_parts n =
    (if int_display (coefficient n) = ''0'' then Ok (coefficient n, 0)
     else normalize_loop (coefficient n) (exponent10 n))"

definition json_number_eq :: "json_number \<Rightarrow> json_number \<Rightarrow> bool arith" where
  "json_number_eq a b =
    res_bind (normalized_parts a) (\<lambda>x. res_bind (normalized_parts b) (\<lambda>y. Ok (x = y)))"

text \<open>\<open>push_json\<close> keeps one digit after the point at least.\<close>

function trim_fraction :: "big_integer \<Rightarrow> int \<Rightarrow> (big_integer \<times> int) arith" where
  "trim_fraction c e =
    (if e < - 1 \<and> int_display c \<noteq> ''0'' then
       (case div_rem_euclid_small c 10 of
          Ok (q, r) \<Rightarrow> if r \<noteq> 0 then Ok (c, e) else trim_fraction q (e + 1)
        | Err x \<Rightarrow> Err x | Panic \<Rightarrow> Panic)
     else Ok (c, e))"
  by pat_completeness auto
termination by (relation "measure (\<lambda>(c, e). nat (- e))") auto

declare trim_fraction.simps [simp del]

definition show_int :: "int \<Rightarrow> string" where
  "show_int i = (if i < 0 then ''-'' else '''') @ show_nat (nat \<bar>i\<bar>)"

text \<open>The same digits from an integer, for the evaluation.\<close>

function int_digits :: "int \<Rightarrow> string" where
  "int_digits i = (if i < 10 then [char_of (48 + i)] else int_digits (i div 10) @ [char_of (48 + i mod 10)])"
  by pat_completeness auto
termination by (relation "measure nat") auto

declare int_digits.simps [simp del]

lemma char_of_int: "char_of (int n) = char_of n"
  by (simp add: char_of_def bit_of_nat_iff_bit)

lemma show_nat_int: "show_nat n = int_digits (int n)"
proof (induction n rule: show_nat.induct)
  case (1 n)
  have c: "char_of (48 + int m) = char_of (48 + m)" for m using char_of_int [of "48 + m"] by simp
  have "char_of (48 + int n mod 10) = char_of (48 + n mod 10)" using c [of "n mod 10"] by (simp add: zmod_int)
  then show ?case
    using 1 c [of n] by (simp add: show_nat.simps [of n] int_digits.simps [of "int n"] zdiv_int)
qed

lemma show_int_code [code]: "show_int i = (if i < 0 then ''-'' else '''') @ int_digits \<bar>i\<bar>"
  by (simp add: show_int_def show_nat_int)

definition split_sign :: "string \<Rightarrow> string \<times> string" where
  "split_sign s = (case s of [] \<Rightarrow> ([], []) | c # rest \<Rightarrow> if c = CHR ''-'' then (''-'', rest) else ([], c # rest))"

definition decimal_text :: "string \<Rightarrow> int \<Rightarrow> string arith" where
  "decimal_text ds e =
    (if ds = ''0'' then Ok (if e < 0 then ''0.0'' else ''0'')
     else if 0 \<le> e then Ok (ds @ replicate (nat e) (CHR ''0''))
     else (let position = int (length ds) + e in
       if 0 \<le> position then
         Ok (if position = 0 then ''0.'' @ ds
             else take (nat position) ds @ ''.'' @ drop (nat position) ds)
       else (case ds of [] \<Rightarrow> Panic | first # rest \<Rightarrow>
         Ok ([first] @ ''.'' @ (if rest = [] then ''0'' else rest) @ ''e'' @ show_int (position - 1)))))"

definition push_json :: "string \<Rightarrow> json_number \<Rightarrow> string arith" where
  "push_json out n =
    res_bind (trim_fraction (coefficient n) (exponent10 n)) (\<lambda>(c, e).
      (let (sign, ds) = split_sign (int_display c) in
       res_bind (decimal_text ds e) (\<lambda>s. Ok (out @ sign @ s))))"

end
