(* ===== verification/Hell_Json_Text.thy ===== *)
theory Hell_Json_Text
  imports Hell_Json Hell_Integer_Text
begin

text \<open>
  The text of strings and numbers in \<open>Hell_Json\<close>: a string is read back from what
  \<open>push_string\<close> prints, the grammar of numbers, the value of a number and of its text.
\<close>

section \<open>Scalar values and their encoding\<close>

abbreviation scalar :: "nat \<Rightarrow> bool" where
  "scalar c \<equiv> char_from_u32 c = Some c"

lemma scalar_iff: "scalar c \<longleftrightarrow> c \<le> 1114111 \<and> \<not> (55296 \<le> c \<and> c \<le> 57343)"
  by (simp add: char_from_u32_def)

lemma byte_char_of: "byte (char_of n) = n mod 256"
  by simp

lemma scalar_cases:
  assumes "scalar c"
  obtains
    (one) "c < 128"
  | (two) a b where "c = a * 64 + b" "2 \<le> a" "a < 32" "b < 64"
  | (three) a b x where "c = a * 4096 + b * 64 + x" "a < 16" "b < 64" "x < 64" "a = 0 \<Longrightarrow> 32 \<le> b"
      "a = 13 \<Longrightarrow> b < 32"
  | (four) a b x y where "c = a * 262144 + b * 4096 + x * 64 + y" "a < 5" "b < 64" "x < 64" "y < 64"
      "a = 0 \<Longrightarrow> 16 \<le> b" "a = 4 \<Longrightarrow> b < 16"
proof -
  have eq1: "c = c div 64 * 64 + c mod 64" by simp
  have eq2: "c div 64 = c div 4096 * 64 + c div 64 mod 64"
    using div_mult_mod_eq [of "c div 64" 64] by (simp add: div_mult2_eq [of c 64 64, simplified])
  have eq3: "c div 4096 = c div 262144 * 64 + c div 4096 mod 64"
    using div_mult_mod_eq [of "c div 4096" 64] by (simp add: div_mult2_eq [of c 4096 64, simplified])
  have lt: "c mod 64 < 64" "c div 64 mod 64 < 64" "c div 4096 mod 64 < 64" by simp_all
  consider "c < 128" | "128 \<le> c" "c < 2048" | "2048 \<le> c" "c < 65536" | "65536 \<le> c" by linarith
  then show ?thesis
  proof cases
    case 1
    then show ?thesis by (rule one)
  next
    case 2
    show ?thesis by (rule two [OF eq1]) (use 2 eq1 lt(1) in linarith)+
  next
    case 3
    have eq: "c = c div 4096 * 4096 + c div 64 mod 64 * 64 + c mod 64" using eq1 eq2 by linarith
    show ?thesis
    proof (rule three [OF eq _ lt(2,1)])
      show "c div 4096 < 16" using 3 eq by linarith
      show "32 \<le> c div 64 mod 64" if "c div 4096 = 0" using 3 that eq lt by linarith
      show "c div 64 mod 64 < 32" if "c div 4096 = 13"
        using assms that eq lt unfolding scalar_iff by linarith
    qed
  next
    case 4
    have eq: "c = c div 262144 * 262144 + c div 4096 mod 64 * 4096 + c div 64 mod 64 * 64 + c mod 64"
      using eq1 eq2 eq3 by linarith
    show ?thesis
    proof (rule four [OF eq _ lt(3,2,1)])
      show "c div 262144 < 5" using assms eq unfolding scalar_iff by linarith
      show "16 \<le> c div 4096 mod 64" if "c div 262144 = 0" using 4 that eq lt by linarith
      show "c div 4096 mod 64 < 16" if "c div 262144 = 4" using assms that eq lt unfolding scalar_iff by linarith
    qed
  qed
qed

lemma digits64:
  fixes b x y :: nat
  shows "x < 64 \<Longrightarrow> (b * 64 + x) div 64 = b" "x < 64 \<Longrightarrow> (b * 64 + x) mod 64 = x"
  by simp_all


text \<open>The bytes of a value by its groups of six bits.\<close>

lemma encode_utf8_two:
  assumes "2 \<le> a" "a < 32" "b < 64"
  shows "encode_utf8 (a * 64 + b) = [char_of (192 + a), char_of (128 + b)]"
    and "len_utf8 (a * 64 + b) = 2"
  using assms by (simp_all add: encode_utf8_def len_utf8_def)

lemma encode_utf8_three:
  assumes "a < 16" "b < 64" "x < 64" "a = 0 \<Longrightarrow> 32 \<le> b"
  shows "encode_utf8 (a * 4096 + b * 64 + x) = [char_of (224 + a), char_of (128 + b), char_of (128 + x)]"
    and "len_utf8 (a * 4096 + b * 64 + x) = 3"
proof -
  define c where "c = a * 4096 + b * 64 + x"
  have "c = (a * 64 + b) * 64 + x" by (simp add: c_def)
  then have d: "c div 64 = a * 64 + b" "c mod 64 = x" using assms(3) by (simp_all only: digits64)
  then have "c div 64 mod 64 = b" "c div 64 div 64 = a" using assms(2) by (simp_all only: digits64)
  then have "c div 64 mod 64 = b" "c div 4096 = a" by (simp_all add: div_mult2_eq [of c 64 64, simplified])
  moreover have "\<not> c < 2048" "c < 65536" using assms unfolding c_def by (cases "a = 0"; simp)+
  moreover have "\<not> c < 128" using calculation(3) by simp
  ultimately show "encode_utf8 (a * 4096 + b * 64 + x) = [char_of (224 + a), char_of (128 + b), char_of (128 + x)]"
    "len_utf8 (a * 4096 + b * 64 + x) = 3"
    using d unfolding c_def [symmetric] encode_utf8_def len_utf8_def by simp_all
qed

lemma encode_utf8_four:
  assumes "a < 5" "b < 64" "x < 64" "y < 64" "a = 0 \<Longrightarrow> 16 \<le> b"
  shows "encode_utf8 (a * 262144 + b * 4096 + x * 64 + y) =
      [char_of (240 + a), char_of (128 + b), char_of (128 + x), char_of (128 + y)]"
    and "len_utf8 (a * 262144 + b * 4096 + x * 64 + y) = 4"
proof -
  define c where "c = a * 262144 + b * 4096 + x * 64 + y"
  have "c = ((a * 64 + b) * 64 + x) * 64 + y" by (simp add: c_def)
  then have d: "c div 64 = (a * 64 + b) * 64 + x" "c mod 64 = y" using assms(4) by (simp_all only: digits64)
  then have e: "c div 64 mod 64 = x" "c div 64 div 64 = a * 64 + b" using assms(3) by (simp_all only: digits64)
  then have "c div 64 div 64 mod 64 = b" "c div 64 div 64 div 64 = a" using assms(2) by (simp_all only: digits64)
  then have "c div 4096 mod 64 = b" "c div 262144 = a"
    by (simp_all add: div_mult2_eq [of c 64 64, simplified] div_mult2_eq [of c 4096 64, simplified])
  moreover have "\<not> c < 65536" using assms unfolding c_def by (cases "a = 0"; simp)
  moreover have "\<not> c < 128" "\<not> c < 2048" using calculation(3) by simp_all
  ultimately show "encode_utf8 (a * 262144 + b * 4096 + x * 64 + y) =
      [char_of (240 + a), char_of (128 + b), char_of (128 + x), char_of (128 + y)]"
    "len_utf8 (a * 262144 + b * 4096 + x * 64 + y) = 4"
    using d e unfolding c_def [symmetric] encode_utf8_def len_utf8_def by simp_all
qed

lemma decode1_encode:
  assumes "scalar c"
  shows "decode1 (encode_utf8 c @ t) = Ok (c, len_utf8 c)"
  using assms
proof (cases rule: scalar_cases)
  case one
  then show ?thesis by (simp add: encode_utf8_def len_utf8_def decode1_def)
next
  case (two a b)
  then show ?thesis by (simp add: encode_utf8_two decode1_def is_cont_def)
next
  case (three a b x)
  have "encode_utf8 c = [char_of (224 + a), char_of (128 + b), char_of (128 + x)]" "len_utf8 c = 3"
    unfolding three(1) by (rule encode_utf8_three, use three in auto)+
  with three show ?thesis by (auto simp: decode1_def is_cont_def second_of_3_def)
next
  case (four a b x y)
  have "encode_utf8 c = [char_of (240 + a), char_of (128 + b), char_of (128 + x), char_of (128 + y)]"
    "len_utf8 c = 4"
    unfolding four(1) by (rule encode_utf8_four, use four in auto)+
  with four show ?thesis by (auto simp: decode1_def is_cont_def second_of_4_def)
qed

lemma char_of_byte: "n = byte c \<Longrightarrow> char_of n = c"
  by simp

lemma encode_decode1:
  assumes "decode1 s = Ok (c, w)"
  shows "scalar c \<and> len_utf8 c = w \<and> encode_utf8 c = take w s"
  using assms
proof (cases rule: decode1_cases)
  case (one a t)
  then show ?thesis by (simp add: scalar_iff encode_utf8_def len_utf8_def)
next
  case (two a b t)
  define a' where "a' = byte a - 192"
  define b' where "b' = byte b - 128"
  have "2 \<le> a'" "a' < 32" "b' < 64" "byte a = 192 + a'" "byte b = 128 + b'"
    using two unfolding a'_def b'_def is_cont_def by linarith+
  with two show ?thesis
    by (auto simp: scalar_iff encode_utf8_two simp flip: a'_def b'_def intro: char_of_byte)
next
  case (three a b x t)
  define a' where "a' = byte a - 224"
  define b' where "b' = byte b - 128"
  define x' where "x' = byte x - 128"
  have *: "a' < 16" "b' < 64" "x' < 64" "a' = 0 \<Longrightarrow> 32 \<le> b'" "a' = 13 \<Longrightarrow> b' < 32"
    "byte a = 224 + a'" "byte b = 128 + b'" "byte x = 128 + x'"
    using three unfolding a'_def b'_def x'_def is_cont_def second_of_3_def by (auto split: if_splits)
  have "scalar (a' * 4096 + b' * 64 + x')"
  proof -
    consider "a' \<le> 12" | "a' = 13" | "14 \<le> a'" by linarith
    then show ?thesis unfolding scalar_iff by cases (use *(1-5) in linarith)+
  qed
  with * three show ?thesis
    by (auto simp: encode_utf8_three simp flip: a'_def b'_def x'_def intro: char_of_byte)
next
  case (four a b x y t)
  define a' where "a' = byte a - 240"
  define b' where "b' = byte b - 128"
  define x' where "x' = byte x - 128"
  define y' where "y' = byte y - 128"
  have *: "a' < 5" "b' < 64" "x' < 64" "y' < 64" "a' = 0 \<Longrightarrow> 16 \<le> b'" "a' = 4 \<Longrightarrow> b' < 16"
    "byte a = 240 + a'" "byte b = 128 + b'" "byte x = 128 + x'" "byte y = 128 + y'"
    using four unfolding a'_def b'_def x'_def y'_def is_cont_def second_of_4_def by (auto split: if_splits)
  have "scalar (a' * 262144 + b' * 4096 + x' * 64 + y')"
  proof -
    consider "a' = 0" | "1 \<le> a'" "a' \<le> 3" | "a' = 4" using *(1) by linarith
    then show ?thesis unfolding scalar_iff by cases (use *(1-6) in linarith)+
  qed
  with * four show ?thesis
    by (auto simp: encode_utf8_four simp flip: a'_def b'_def x'_def y'_def intro: char_of_byte)
qed

text \<open>Valid text is the encoding of its scalar values.\<close>

lemma utf8_scan_pos: "utf8_scan p s = Ok cs \<Longrightarrow> utf8_scan q s = Ok cs"
proof (induction p s arbitrary: q cs rule: utf8_scan.induct)
  case (1 p s)
  show ?case
  proof (cases "s = []")
    case False
    with 1(2) obtain c w ds where d: "decode1 s = Ok (c, w)" "utf8_scan (p + w) (drop w s) = Ok ds" "cs = c # ds"
      by (auto simp: utf8_scan.simps [of p s] split: res.splits)
    with 1(1) [OF False d(1) refl, of ds "q + w"] False show ?thesis
      by (simp add: utf8_scan.simps [of q s])
  qed (use 1 in \<open>simp add: utf8_scan.simps\<close>)
qed

lemma from_utf8_Nil [simp]: "from_utf8 [] = Ok []"
  by (simp add: from_utf8_def utf8_scan.simps)

lemma from_utf8_step:
  assumes "decode1 s = Ok (c, w)" "from_utf8 (drop w s) = Ok cs"
  shows "from_utf8 s = Ok (c # cs)"
proof -
  have "s \<noteq> []" using assms(1) by (auto simp: decode1_def)
  then show ?thesis
    using assms utf8_scan_pos [of 0 "drop w s" cs w] by (simp add: from_utf8_def utf8_scan.simps [of 0 s])
qed

lemma from_utf8_cases:
  assumes "from_utf8 s = Ok cs"
  shows "(s = [] \<and> cs = []) \<or>
    (\<exists>c w ds. decode1 s = Ok (c, w) \<and> from_utf8 (drop w s) = Ok ds \<and> cs = c # ds)"
proof (cases "s = []")
  case False
  with assms obtain c w ds where "decode1 s = Ok (c, w)" "utf8_scan w (drop w s) = Ok ds" "cs = c # ds"
    by (auto simp: from_utf8_def utf8_scan.simps [of 0 s] split: res.splits)
  then show ?thesis using utf8_scan_pos [of w "drop w s" ds 0] by (auto simp: from_utf8_def)
qed (use assms in simp)

lemma length_encode [simp]: "length (encode_utf8 c) = len_utf8 c"
  by (simp add: encode_utf8_def len_utf8_def)

lemma from_utf8_encode:
  "list_all scalar cs \<Longrightarrow> from_utf8 (concat (map encode_utf8 cs)) = Ok cs"
proof (induction cs)
  case (Cons c cs)
  then show ?case
    by (intro from_utf8_step [OF _ , where w = "len_utf8 c"]) (auto intro: decode1_encode)
qed simp

lemma from_utf8_decode:
  "from_utf8 s = Ok cs \<Longrightarrow> list_all scalar cs \<and> concat (map encode_utf8 cs) = s"
proof (induction cs arbitrary: s)
  case Nil
  then show ?case using from_utf8_cases by fastforce
next
  case (Cons c cs)
  then obtain w where w: "decode1 s = Ok (c, w)" "from_utf8 (drop w s) = Ok cs"
    using from_utf8_cases by fastforce
  from Cons.IH [OF w(2)] encode_decode1 [OF w(1)] show ?case by simp
qed

lemma utf8_valid_encode: "list_all scalar cs \<Longrightarrow> utf8_valid (concat (map encode_utf8 cs))"
  using from_utf8_encode utf8_valid_def by blast

lemma utf8_valid_scalar: "scalar c \<Longrightarrow> utf8_valid (encode_utf8 c)"
  using utf8_valid_encode [of "[c]"] by simp

lemma utf8_valid_obtain:
  assumes "utf8_valid s"
  obtains cs where "from_utf8 s = Ok cs" "list_all scalar cs" "s = concat (map encode_utf8 cs)"
  using assms from_utf8_decode unfolding utf8_valid_def by metis

section \<open>Reading what lies ahead\<close>

lemma peek_ahead:
  assumes "drop off bytes = c # t"
  shows "json_peek bytes off = Some c" and "drop (Suc off) bytes = t" and "off < length bytes"
proof -
  show "off < length bytes"
  proof (rule ccontr)
    assume "\<not> off < length bytes"
    then show False using assms by simp
  qed
  then show "json_peek bytes off = Some c"
    using assms by (simp add: json_peek_def vget_def hd_drop_conv_nth [symmetric])
  show "drop (Suc off) bytes = t" using assms by (metis drop_Suc list.sel(3) tl_drop)
qed

lemma peek_end: "drop off bytes = [] \<Longrightarrow> json_peek bytes off = None"
  by (simp add: json_peek_def)

lemma drop_ahead: "drop off bytes = u @ t \<Longrightarrow> n = length u \<Longrightarrow> drop (off + n) bytes = t"
  by (metis add.commute append_eq_conv_conj drop_drop)

lemma consume_ahead: "drop off bytes = c # t \<Longrightarrow> json_consume bytes c off = Ok (Suc off)"
  by (simp add: json_consume_def peek_ahead(1))

lemma take_ahead: "drop off bytes = c # t \<Longrightarrow> json_take bytes c off = (True, Suc off)"
  by (simp add: json_take_def peek_ahead(1))

lemma take_other: "drop off bytes = [] \<or> hd (drop off bytes) \<noteq> c \<Longrightarrow> json_take bytes c off = (False, off)"
  by (cases "drop off bytes") (auto simp: json_take_def peek_ahead(1) peek_end)

lemma slice_ahead:
  "off \<le> length bytes \<Longrightarrow> drop off bytes = u @ t \<Longrightarrow> n = off + length u \<Longrightarrow> vslice bytes off n = Some u"
proof -
  assume *: "off \<le> length bytes" "drop off bytes = u @ t" "n = off + length u"
  from arg_cong [OF *(2), of length] *(1) have "length bytes = off + length u + length t" by simp
  with * show ?thesis by (simp add: vslice_def)
qed

lemma skip_ahead:
  assumes "drop off bytes = u @ t" "list_all P u" "t = [] \<or> \<not> P (hd t)"
  shows "skip_bytes P bytes off = off + length u"
  using assms(1,2)
proof (induction u arbitrary: off)
  case Nil
  then show ?case using assms(3)
    by (cases t) (auto simp: skip_bytes.simps [of P bytes off] peek_ahead(1) peek_end)
next
  case (Cons c u)
  then have "drop off bytes = c # u @ t" by simp
  note ahead = peek_ahead [OF this]
  from Cons.IH [OF ahead(2)] Cons.prems(2) show ?case
    by (simp add: skip_bytes.simps [of P bytes off] ahead(1))
qed

lemma skip_bytes_bound: "off \<le> skip_bytes P bytes off \<and> (off \<le> length bytes \<longrightarrow> skip_bytes P bytes off \<le> length bytes)"
proof (induction P bytes off rule: skip_bytes.induct)
  case (1 P bytes off)
  then show ?case
    by (fastforce simp: skip_bytes.simps [of P bytes off] dest: json_peek_bound split: option.splits)
qed

section \<open>Strings\<close>

lemma hex_value_digit: "d < 16 \<Longrightarrow> hex_value (hex_digit d) = Some d"
  by (simp add: hex_value_def hex_digit_def)

lemma quad_ahead:
  assumes "drop off bytes = map hex_digit [a, b, x, y] @ t" "a < 16" "b < 16" "x < 16" "y < 16"
  shows "hex_quad bytes off = Ok (((a * 16 + b) * 16 + x) * 16 + y, off + 4)"
proof -
  have step: "quad_step bytes (v, off) = Ok (v * 16 + d, Suc off)"
    if "drop off bytes = hex_digit d # t" "d < 16" "v < 4096" for off t d v
    using that peek_ahead(1) [OF that(1)] by (simp add: quad_step_def hex_value_digit u32_max_def)
  from assms(1) have 0: "drop off bytes = hex_digit a # map hex_digit [b, x, y] @ t" by simp
  from peek_ahead(2) [OF 0] have 1: "drop (Suc off) bytes = hex_digit b # map hex_digit [x, y] @ t" by simp
  from peek_ahead(2) [OF 1] have 2: "drop (Suc (Suc off)) bytes = hex_digit x # map hex_digit [y] @ t" by simp
  from peek_ahead(2) [OF 2] have 3: "drop (Suc (Suc (Suc off))) bytes = hex_digit y # t" by simp
  have "[0..<4] = [0, 1, 2, 3 :: nat]" by (simp add: upt_rec)
  then show ?thesis
    using step [OF 0, of 0] step [OF 1, of a] step [OF 2, of "a * 16 + b"] step [OF 3, of "(a * 16 + b) * 16 + x"] assms(2-5)
    by (simp add: hex_quad_def)
qed

lemma length_escape: "0 < length (escape_char c)"
  by (simp add: escape_char_def encode_utf8_def)

lemma escape_char_cases:
  obtains
    (short) e where "escape_char c = [CHR 0x5C, e]" "c < 128"
      "(c, e) \<in> {(34, CHR 0x22), (92, CHR 0x5C), (8, CHR ''b''), (12, CHR ''f''), (10, CHR ''n''), (13, CHR ''r''), (9, CHR ''t'')}"
  | (control) "c \<le> 31" "escape_char c = [CHR 0x5C, CHR ''u''] @
      map hex_digit [c div 4096, c div 256 mod 16, c div 16 mod 16, c mod 16]"
  | (ascii) "escape_char c = [char_of c]" "31 < c" "c < 128" "c \<noteq> 34" "c \<noteq> 92"
  | (wide) "escape_char c = encode_utf8 c" "128 \<le> c"
proof -
  consider "c \<in> {34, 92, 8, 12, 10, 13, 9}" | "c \<le> 31" "c \<notin> {8, 12, 10, 13, 9}"
    | "31 < c" "c < 128" "c \<noteq> 34" "c \<noteq> 92" | "128 \<le> c" by fastforce
  then show ?thesis
  proof cases
    case 1
    then show ?thesis by (auto simp: escape_char_def intro: short)
  next
    case 2
    then have "c \<noteq> 34" "c \<noteq> 92" by auto
    with 2 show ?thesis by (intro control) (simp_all add: escape_char_def)
  next
    case 3
    then show ?thesis by (intro ascii) (simp_all add: escape_char_def encode_utf8_def)
  next
    case 4
    then show ?thesis by (intro wide) (simp_all add: escape_char_def)
  qed
qed

lemma escape_ahead:
  assumes "drop off bytes = escape_char c @ t" "scalar c" "utf8_valid bytes"
  shows "json_chars bytes off out = json_chars bytes (off + length (escape_char c)) (out @ encode_utf8 c)"
proof -
  note unfold = json_chars.simps [of bytes off out]
  show ?thesis
  proof (cases c rule: escape_char_cases)
    case (short e)
    then have d: "drop off bytes = CHR 0x5C # e # t" using assms(1) by simp
    note ahead = peek_ahead [OF d] peek_ahead [OF peek_ahead(2) [OF d]]
    have "json_escape bytes (Suc off) out = Ok (out @ encode_utf8 c, Suc (Suc off))"
      using short(3) ahead(4) by (auto simp: json_escape_def plain_escape_def)
    then show ?thesis using short(1) ahead(1) by (subst unfold) simp
  next
    case control
    then have d: "drop off bytes = CHR 0x5C # CHR ''u'' #
        map hex_digit [c div 4096, c div 256 mod 16, c div 16 mod 16, c mod 16] @ t" using assms(1) by simp
    note ahead = peek_ahead [OF d] peek_ahead [OF peek_ahead(2) [OF d]]
    have small: "c div 4096 = 0" "c div 256 = 0" "c div 16 < 16" using control(1) by simp_all
    have "((c div 4096 * 16 + c div 256 mod 16) * 16 + c div 16 mod 16) * 16 + c mod 16 = c"
      using small by simp
    then have "hex_quad bytes (Suc (Suc off)) = Ok (c, Suc (Suc off) + 4)"
      using quad_ahead [OF ahead(5)] small by simp
    moreover have "\<not> (55296 \<le> c \<and> c \<le> 56319)" "\<not> (56320 \<le> c \<and> c \<le> 57343)" using control(1) by simp_all
    ultimately have "unicode_escape bytes (Suc (Suc off)) = Ok (c, off + 6)"
      using assms(2) by (auto simp: unicode_escape_def)
    then have "json_escape bytes (Suc off) out = Ok (out @ encode_utf8 c, off + 6)"
      using ahead(4) by (simp add: json_escape_def)
    moreover have "length (escape_char c) = 6" using control(2) by simp
    ultimately show ?thesis using ahead(1) by (subst unfold) simp
  next
    case ascii
    then have d: "drop off bytes = char_of c # t" using assms(1) by simp
    have "char_of c \<noteq> CHR 0x22" "char_of c \<noteq> CHR 0x5C" "byte (char_of c) = c"
      using ascii(3-5) by (auto dest!: arg_cong [where f = byte])
    then show ?thesis using ascii peek_ahead(1) [OF d] by (subst unfold) (simp add: encode_utf8_def)
  next
    case wide
    then have d: "drop off bytes = encode_utf8 c @ t" using assms(1) by simp
    obtain a u where a: "encode_utf8 c = a # u" "128 \<le> byte a" "\<not> is_cont a"
    proof -
      have "decode1 (encode_utf8 c @ t) = Ok (c, len_utf8 c)" by (rule decode1_encode [OF assms(2)])
      moreover obtain a u where au: "encode_utf8 c = a # u" by (cases "encode_utf8 c") (auto simp: encode_utf8_def split: if_splits)
      ultimately have d: "decode1 (a # u @ t) = Ok (c, len_utf8 c)" by simp
      then have "\<not> is_cont a" by (rule decode1_front)
      moreover have "128 \<le> byte a"
      proof (rule ccontr)
        assume "\<not> 128 \<le> byte a"
        then show False using d decode1_ascii [of a "u @ t"] wide(2) by simp
      qed
      ultimately show ?thesis using that au by blast
    qed
    have d': "drop off bytes = a # u @ t" using d a(1) by simp
    have "bytes ! off = a" using peek_ahead(1) [OF d'] by (simp add: json_peek_def vget_Some)
    with peek_ahead(3) [OF d'] have "utf8_valid (drop off bytes)"
      by (intro utf8_valid_drop [OF assms(3)]) (use a(3) in simp_all)
    then obtain cs where "from_utf8 (drop off bytes) = Ok (c # cs)"
      using from_utf8_first [of "drop off bytes"] decode1_encode [OF assms(2), of t] d d' by (metis list.distinct(1) prod.inject res.inject(1))
    moreover have "a \<noteq> CHR 0x22" "a \<noteq> CHR 0x5C" using a(2) by auto
    ultimately show ?thesis
      using a(2) wide(1) peek_ahead(1) [OF d'] by (subst unfold) simp
  qed
qed

lemma chars_ahead:
  assumes "drop off bytes = concat (map escape_char cs) @ CHR 0x22 # t" "list_all scalar cs" "utf8_valid bytes"
  shows "json_chars bytes off out =
    Ok (out @ concat (map encode_utf8 cs), off + length (concat (map escape_char cs)) + 1)"
  using assms(1,2)
proof (induction cs arbitrary: off out)
  case Nil
  then show ?case by (subst json_chars.simps) (simp add: peek_ahead(1))
next
  case (Cons c cs)
  then have d: "drop off bytes = escape_char c @ concat (map escape_char cs) @ CHR 0x22 # t" by simp
  from Cons.IH [OF drop_ahead [OF d refl]] Cons.prems(2) show ?case
    using escape_ahead [OF d _ assms(3)] by (simp add: add.assoc)
qed

text \<open>The text of a string, and that it reads back.\<close>

definition string_text :: "string \<Rightarrow> string" where
  "string_text s = (case from_utf8 s of
     Ok cs \<Rightarrow> [CHR 0x22] @ concat (map escape_char cs) @ [CHR 0x22] | _ \<Rightarrow> [])"

lemma push_string_text: "utf8_valid s \<Longrightarrow> push_string out s = Ok (out @ string_text s)"
  by (auto simp: utf8_valid_def push_string_def string_text_def)

lemma string_ahead:
  assumes "drop off bytes = string_text s @ t" "utf8_valid s" "utf8_valid bytes"
  shows "json_string bytes off = Ok (s, off + length (string_text s))"
proof -
  obtain cs where cs: "from_utf8 s = Ok cs" "list_all scalar cs" "s = concat (map encode_utf8 cs)"
    using utf8_valid_obtain [OF assms(2)] .
  then have d: "drop off bytes = CHR 0x22 # concat (map escape_char cs) @ CHR 0x22 # t"
    using assms(1) by (simp add: string_text_def)
  show ?thesis
    using chars_ahead [OF peek_ahead(2) [OF d] cs(2) assms(3), of "[]"] consume_ahead [OF d] cs
    by (simp add: json_string_def string_text_def)
qed

lemma utf8_valid_escape: "scalar c \<Longrightarrow> utf8_valid (escape_char c)"
  unfolding escape_char_def
  by (simp add: utf8_valid_ascii utf8_valid_scalar hex_digit_def)

lemma utf8_valid_text: "utf8_valid s \<Longrightarrow> utf8_valid (string_text s)"
proof -
  assume "utf8_valid s"
  then obtain cs where cs: "from_utf8 s = Ok cs" "list_all scalar cs" using utf8_valid_obtain by metis
  have "utf8_valid (concat (map escape_char cs))"
    using cs(2) by (induction cs) (auto intro: utf8_valid_append utf8_valid_escape)
  then show ?thesis
    using cs(1) by (auto simp: string_text_def utf8_valid_ascii intro!: utf8_valid_append)
qed

text \<open>What is read is valid text.\<close>

lemma unicode_escape_scalar: "unicode_escape bytes off = Ok (c, off') \<Longrightarrow> scalar c"
  by (auto simp: unicode_escape_def char_from_u32_def split: option.splits if_splits)

lemma json_escape_valid:
  assumes "json_escape bytes off out = Ok (out', off')" "utf8_valid out"
  shows "utf8_valid out'"
proof -
  obtain e where e: "json_peek bytes off = Some e"
    using assms(1) by (auto simp: json_escape_def split: option.splits)
  show ?thesis
  proof (cases "e = CHR ''u''")
    case True
    with e assms show ?thesis
      by (auto simp: json_escape_def dest!: unicode_escape_scalar intro: utf8_valid_append utf8_valid_scalar)
  next
    case False
    with e assms(1) obtain k where k: "plain_escape e = Some k" "out' = out @ encode_utf8 k"
      by (auto simp: json_escape_def split: option.splits)
    then have "scalar k" by (auto simp: plain_escape_def scalar_iff split: if_splits)
    with k(2) assms(2) show ?thesis by (auto intro: utf8_valid_append utf8_valid_scalar)
  qed
qed

lemma json_chars_valid:
  "json_chars bytes off out = Ok (s, off') \<Longrightarrow> utf8_valid out \<Longrightarrow> utf8_valid s \<and> off < off' \<and> off' \<le> length bytes"
proof (induction bytes off out rule: json_chars.induct)
  case (1 bytes off out)
  obtain b where b: "json_peek bytes off = Some b"
    using "1.prems"(1) by (subst (asm) json_chars.simps) (auto split: option.splits)
  note unfold = json_chars.simps [of bytes off out]
  note below = json_peek_bound [OF b]
  consider "b = CHR 0x22" | "b = CHR 0x5C" | "b \<noteq> CHR 0x22" "b \<noteq> CHR 0x5C" "byte b \<le> 31"
    | "b \<noteq> CHR 0x22" "b \<noteq> CHR 0x5C" "\<not> byte b \<le> 31" "byte b \<le> 127"
    | "b \<noteq> CHR 0x22" "b \<noteq> CHR 0x5C" "\<not> byte b \<le> 31" "\<not> byte b \<le> 127" by blast
  then show ?case
  proof cases
    case 1
    with \<open>json_chars bytes off out = Ok (s, off')\<close> \<open>utf8_valid out\<close> b below show ?thesis
      by (subst (asm) unfold) auto
  next
    case 2
    with \<open>json_chars bytes off out = Ok (s, off')\<close> b obtain out2 off2 where
      e: "json_escape bytes (Suc off) out = Ok (out2, off2)" "json_chars bytes off2 out2 = Ok (s, off')"
      by (subst (asm) unfold) (auto split: res.splits)
    with 2 1(1) [OF b _ _ e(1) refl] json_escape_valid [OF e(1) \<open>utf8_valid out\<close>]
      json_escape_bound [OF e(1)]
    show ?thesis by auto
  next
    case 3
    with \<open>json_chars bytes off out = Ok (s, off')\<close> b show ?thesis by (subst (asm) unfold) auto
  next
    case 4
    then have "byte b < 128" by simp
    then have "utf8_valid (out @ [b])" using \<open>utf8_valid out\<close> by (simp add: utf8_valid_append utf8_valid_ascii)
    with 4 1(2) [OF b] \<open>json_chars bytes off out = Ok (s, off')\<close> b show ?thesis
      by (subst (asm) unfold) auto
  next
    case 5
    with \<open>json_chars bytes off out = Ok (s, off')\<close> b obtain c cs where
      c: "from_utf8 (drop off bytes) = Ok (c # cs)"
        "json_chars bytes (off + len_utf8 c) (out @ encode_utf8 c) = Ok (s, off')"
      by (subst (asm) unfold) (auto split: res.splits list.splits)
    then have "scalar c" using from_utf8_decode by fastforce
    with 5 1(3) [OF b _ _ _ _ c(1) refl] c(2) utf8_valid_append [OF \<open>utf8_valid out\<close> utf8_valid_scalar]
    show ?thesis by fastforce
  qed
qed

lemma json_string_valid:
  assumes "json_string bytes off = Ok (s, off')"
  shows "utf8_valid s \<and> off < off' \<and> off' \<le> length bytes"
  using assms by (auto simp: json_string_def json_consume_Ok dest!: json_chars_valid)

end
