(* ===== verification/Hell_Json_Number.thy ===== *)
theory Hell_Json_Number
  imports Complex_Main Hell_Json_Text
begin

text \<open>
  The numbers of \<open>Hell_Json\<close>: the rational a number stands for, that \<open>normalized_parts\<close>
  decides equality of these rationals below the largest exponent, and that the text
  \<open>push_json\<close> prints is read back as the same rational.
\<close>

section \<open>Values\<close>

definition decimal_value :: "int \<Rightarrow> int \<Rightarrow> rat" where
  "decimal_value c e = rat_of_int c * 10 powi e"

definition number_value :: "json_number \<Rightarrow> rat" where
  "number_value n = decimal_value (int_of (coefficient n)) (exponent10 n)"

definition number_ok :: "json_number \<Rightarrow> bool" where
  "number_ok n \<longleftrightarrow> well_formed (coefficient n) \<and> i64_min \<le> exponent10 n \<and> exponent10 n \<le> i64_max"

lemma decimal_value_0 [simp]: "decimal_value 0 e = 0"
  by (simp add: decimal_value_def)

lemma decimal_value_shift: "decimal_value (c * 10 ^ k) e = decimal_value c (e + int k)"
  by (simp add: decimal_value_def power_int_add mult.assoc mult.commute [of "10 ^ k"])

lemma decimal_value_10: "decimal_value (c * 10) e = decimal_value c (e + 1)"
  using decimal_value_shift [of c 1 e] by simp

lemma decimal_value_eq_0 [simp]: "decimal_value c e = 0 \<longleftrightarrow> c = 0"
  by (simp add: decimal_value_def)

text \<open>A number without a zero at its end has one representation.\<close>

lemma decimal_value_unique_le:
  assumes "decimal_value c e = decimal_value d f" "\<not> 10 dvd d" "f \<le> e"
  shows "c = d \<and> e = f"
proof -
  define k where "k = nat (e - f)"
  have "e = f + int k" using assms(3) by (simp add: k_def)
  then have "decimal_value (c * 10 ^ k) f = decimal_value d f"
    using assms(1) by (simp add: decimal_value_shift)
  then have "rat_of_int (c * 10 ^ k) = rat_of_int d"
    by (simp add: decimal_value_def del: of_int_mult of_int_power)
  then have eq: "c * 10 ^ k = d" by (simp only: of_int_eq_iff)
  moreover have "k = 0" using eq assms(2) by (cases k) auto
  ultimately show ?thesis using \<open>e = f + int k\<close> by simp
qed

lemma decimal_value_unique:
  assumes "decimal_value c e = decimal_value d f" "\<not> 10 dvd c" "\<not> 10 dvd d"
  shows "c = d \<and> e = f"
  using decimal_value_unique_le [of c e d f] decimal_value_unique_le [of d f c e] assms
  by (cases "f \<le> e") auto

section \<open>Division by ten\<close>

lemma unat_ten [simp]: "unat (10 :: u32) = 10"
  by simp

lemma div_ten:
  assumes "well_formed c"
  shows "\<exists>q r. div_rem_euclid_small c 10 = Ok (q, r) \<and> well_formed q \<and> (r \<noteq> 0 \<longleftrightarrow> \<not> 10 dvd int_of c) \<and>
    (r = 0 \<longrightarrow> int_of c = int_of q * 10)"
proof -
  from div_rem_ok [OF assms, of 10] obtain q r where
    qr: "div_rem_euclid_small c 10 = Ok (q, r)" "well_formed q" "unat r < 10"
      "int_of c = int_of q * 10 + int (unat r)" by auto
  have small: "(10 :: int) dvd int m \<longleftrightarrow> m = 0" if "m < 10" for m using that by presburger
  have "10 dvd int_of c \<longleftrightarrow> (10 :: int) dvd int (unat r)" unfolding qr(4) by (rule dvd_add_right_iff) simp
  with small [OF qr(3)] have "10 dvd int_of c \<longleftrightarrow> r = 0" by (simp only: unat_eq_0)
  moreover have "int_of c = int_of q * 10" if "r = 0" using qr(4) that by simp
  ultimately show ?thesis using qr(1,2) by blast
qed

lemma display_zero: "well_formed c \<Longrightarrow> int_display c = ''0'' \<longleftrightarrow> int_of c = 0"
proof -
  assume c: "well_formed c"
  have zero: "show_nat 0 = ''0''" by (simp add: show_nat.simps char_48)
  have "show_nat n = ''0'' \<longleftrightarrow> n = 0" for n
  proof
    assume "show_nat n = ''0''"
    then show "n = 0" using map_byte_show_nat [of n] number_simps(2) [of "[]" 48] by simp
  qed (simp add: zero)
  then show ?thesis unfolding int_display_ok [OF c] by auto
qed

section \<open>Equality\<close>

text \<open>Room for the zeros at the end of the coefficient below the largest exponent.\<close>

definition roomy :: "int \<Rightarrow> int \<Rightarrow> bool" where
  "roomy c e \<longleftrightarrow> i64_min \<le> e \<and> \<bar>c\<bar> < 10 ^ nat (i64_max - e)"

lemma normalize_loop_ok:
  assumes "well_formed c" "int_of c \<noteq> 0" "roomy (int_of c) e"
  shows "\<exists>q x. normalize_loop c e = Ok (q, x) \<and> well_formed q \<and> \<not> 10 dvd int_of q \<and>
    decimal_value (int_of q) x = decimal_value (int_of c) e"
  using assms
proof (induction c e rule: normalize_loop.induct)
  case (1 c e)
  from div_ten [OF 1(2)] obtain q r where
    qr: "div_rem_euclid_small c 10 = Ok (q, r)" "well_formed q" "r \<noteq> 0 \<longleftrightarrow> \<not> 10 dvd int_of c"
      "r = 0 \<longrightarrow> int_of c = int_of q * 10" by blast
  show ?case
  proof (cases "r = 0")
    case False
    then have "normalize_loop c e = Ok (c, e)" using qr(1) by (simp add: normalize_loop.simps [of c e])
    then show ?thesis using 1(2) False qr(3) by blast
  next
    case True
    with qr(4) have q: "int_of c = int_of q * 10" by blast
    then have nz: "int_of q \<noteq> 0" using 1(3) by auto
    have lt: "\<bar>int_of q\<bar> * 10 < 10 ^ nat (i64_max - e)" using 1(4) unfolding roomy_def q by (simp add: abs_mult)
    have "nat (i64_max - e) \<noteq> 0"
    proof
      assume "nat (i64_max - e) = 0"
      then have "\<bar>int_of q\<bar> * 10 < 1" using lt by simp
      then show False using nz by linarith
    qed
    then have e: "e + 1 \<le> i64_max" "nat (i64_max - e) = Suc (nat (i64_max - (e + 1)))" by linarith+
    then have step: "checked_i64 (e + 1) = Ok (e + 1)" using 1(4) by (simp add: checked_i64_def roomy_def)
    have "roomy (int_of q) (e + 1)" using lt 1(4) unfolding roomy_def e(2) by simp
    with 1(1) [OF qr(1) refl _ step] True qr(2) nz obtain p x where
      p: "normalize_loop q (e + 1) = Ok (p, x)" "well_formed p" "\<not> 10 dvd int_of p"
        "decimal_value (int_of p) x = decimal_value (int_of q) (e + 1)" by auto
    have "normalize_loop c e = Ok (p, x)"
      using True qr(1) step p(1) by (simp add: normalize_loop.simps [of c e])
    with p(2-4) q show ?thesis by (simp add: decimal_value_10)
  qed
qed

lemma normalized_parts_ok:
  assumes "well_formed (coefficient n)" "roomy (int_of (coefficient n)) (exponent10 n)"
  shows "\<exists>q x. normalized_parts n = Ok (q, x) \<and> well_formed q \<and>
    (if int_of (coefficient n) = 0 then int_of q = 0 \<and> x = 0
     else \<not> 10 dvd int_of q \<and> decimal_value (int_of q) x = number_value n)"
  using assms normalize_loop_ok [OF assms(1) _ assms(2)]
  by (auto simp: normalized_parts_def display_zero number_value_def)

lemma json_number_eq_ok:
  assumes "well_formed (coefficient n)" "roomy (int_of (coefficient n)) (exponent10 n)"
    and "well_formed (coefficient m)" "roomy (int_of (coefficient m)) (exponent10 m)"
  shows "json_number_eq n m = Ok (number_value n = number_value m)"
proof -
  from normalized_parts_ok [OF assms(1,2)] obtain q x where
    q: "normalized_parts n = Ok (q, x)" "well_formed q"
      "if int_of (coefficient n) = 0 then int_of q = 0 \<and> x = 0
       else \<not> 10 dvd int_of q \<and> decimal_value (int_of q) x = number_value n" by blast
  from normalized_parts_ok [OF assms(3,4)] obtain p y where
    p: "normalized_parts m = Ok (p, y)" "well_formed p"
      "if int_of (coefficient m) = 0 then int_of p = 0 \<and> y = 0
       else \<not> 10 dvd int_of p \<and> decimal_value (int_of p) y = number_value m" by blast
  have v: "decimal_value (int_of q) x = number_value n" "decimal_value (int_of p) y = number_value m"
    using q(3) p(3) by (auto simp: number_value_def split: if_splits)
  have "number_value n = number_value m \<longleftrightarrow> int_of q = int_of p \<and> x = y"
  proof
    assume eq: "number_value n = number_value m"
    show "int_of q = int_of p \<and> x = y"
    proof (cases "int_of (coefficient n) = 0")
      case True
      then have "number_value m = 0" using eq by (simp add: number_value_def)
      then have "int_of (coefficient m) = 0" by (simp add: number_value_def)
      with True q(3) p(3) show ?thesis by simp
    next
      case False
      then have "number_value n \<noteq> 0" by (simp add: number_value_def)
      with eq have "number_value m \<noteq> 0" by metis
      then have "int_of (coefficient m) \<noteq> 0" by (auto simp: number_value_def)
      with False q(3) p(3) v eq decimal_value_unique [of "int_of q" x "int_of p" y] show ?thesis by simp
    qed
  qed (use v in simp)
  also have "\<dots> \<longleftrightarrow> (q, x) = (p, y)" using int_of_unique [OF q(2) p(2)] by simp
  finally show ?thesis using q(1) p(1) by (simp add: json_number_eq_def)
qed

section \<open>Digits as text\<close>

abbreviation all_digits :: "string \<Rightarrow> bool" where
  "all_digits s \<equiv> list_all is_json_digit s"

abbreviation digits_value :: "string \<Rightarrow> nat" where
  "digits_value s \<equiv> number (map byte s)"

lemma number_append: "number (xs @ ys) = number xs * 10 ^ length ys + number ys"
proof (induction ys rule: rev_induct)
  case (snoc y ys)
  have "number (xs @ ys @ [y]) = 10 * number (xs @ ys) + (y - 48)"
    using number_simps(2) [of "xs @ ys" y] by simp
  with snoc show ?case by (simp add: algebra_simps)
qed simp

lemma number_zeros: "number (replicate k 48) = 0"
  using number_simps(2) [of "[]" 48] by (induction k) (simp_all add: number_append replicate_append_same [symmetric])

lemma all_digits_iff: "all_digits s \<longleftrightarrow> list_all is_digit (map byte s)"
  by (simp add: list_all_iff is_json_digit_def)

lemma show_nat_digits: "all_digits (show_nat n)" "digits_value (show_nat n) = n"
  using map_byte_show_nat [of n] by (simp_all add: all_digits_iff)

lemma show_nat_first: "0 < n \<Longrightarrow> hd (show_nat n) \<noteq> CHR ''0''"
proof (induction n rule: show_nat.induct)
  case (1 n)
  show ?case
  proof (cases "n < 10")
    case True
    have "char_of (48 + n) \<noteq> CHR ''0''"
    proof
      assume "char_of (48 + n) = CHR ''0''"
      then have "byte (char_of (48 + n)) = 48" by simp
      then show False using True 1(2) by simp
    qed
    then show ?thesis using True by (subst show_nat.simps) simp
  next
    case False
    then show ?thesis using 1 by (subst show_nat.simps) simp
  qed
qed

lemma json_digit_ascii: "is_json_digit c \<Longrightarrow> byte c < 128"
  by (simp add: is_json_digit_def is_digit_def)

lemma ascii_valid: "list_all (\<lambda>c. byte c < 128) s \<Longrightarrow> utf8_valid s"
  by (induction s) (auto simp: utf8_valid_ascii)

lemma all_digits_ascii: "all_digits s \<Longrightarrow> list_all (\<lambda>c. byte c < 128) s"
  by (auto simp: list_all_iff json_digit_ascii)

lemma int_parse_digits:
  assumes "s \<noteq> []" "all_digits s"
  shows "int_parse (map byte ((if neg then ''-'' else []) @ s)) = parse_digits neg (map byte s)"
proof -
  define cs where "cs = map byte s"
  have cs: "cs \<noteq> []" "list_all is_digit cs" using assms by (simp_all add: cs_def all_digits_iff)
  then have ends: "is_digit (hd cs)" "is_digit (last cs)" by (simp_all add: list_all_iff)
  note space = digit_not_space [OF ends(1)] digit_not_space [OF ends(2)]
  show ?thesis
  proof (cases neg)
    case True
    have "trim (45 # cs) = 45 # cs"
      by (rule trim_solid) (use cs(1) space in \<open>auto simp: is_white_space_def\<close>)
    then show ?thesis using True by (simp add: int_parse_def flip: cs_def)
  next
    case False
    have "trim cs = cs" by (rule trim_solid) (use cs(1) space in auto)
    then show ?thesis using False space cs(1) by (cases cs) (simp_all add: int_parse_def flip: cs_def)
  qed
qed

lemma int_parse_ok:
  assumes "s \<noteq> []" "all_digits s"
  shows "\<exists>c. int_parse (map byte ((if neg then ''-'' else []) @ s)) = Ok c \<and> well_formed c \<and>
    int_of c = (if neg then - int (digits_value s) else int (digits_value s))"
  using parse_digits_ok [of "map byte s" neg] assms int_parse_digits [OF assms, of neg]
  by (simp add: all_digits_iff)

section \<open>The grammar\<close>

text \<open>What may follow a number in the text of a document.\<close>

definition ends_value :: "string \<Rightarrow> bool" where
  "ends_value t \<longleftrightarrow> t = [] \<or> hd t \<in> {CHR '','', CHR '']'', CHR ''}''}"

definition stops_digits :: "string \<Rightarrow> bool" where
  "stops_digits t \<longleftrightarrow> t = [] \<or> \<not> is_json_digit (hd t)"

lemma ends_value_other:
  assumes "ends_value t"
  shows "stops_digits t" "t = [] \<or> hd t \<noteq> CHR ''.''" "t = [] \<or> hd t \<notin> {CHR ''e'', CHR ''E''}"
  using assms by (auto simp: ends_value_def stops_digits_def is_json_digit_def is_digit_def)

lemma digit_ahead_Cons: "drop off bytes = c # t \<Longrightarrow> digit_ahead bytes off = is_json_digit c"
  by (simp add: digit_ahead_def peek_ahead(1))

lemma digit_ahead_stops: "stops_digits (drop off bytes) \<Longrightarrow> \<not> digit_ahead bytes off"
  by (cases "drop off bytes") (auto simp: stops_digits_def digit_ahead_def peek_ahead(1) peek_end)

lemma skip_digits: "drop off bytes = s @ t \<Longrightarrow> all_digits s \<Longrightarrow> stops_digits t \<Longrightarrow>
    skip_bytes is_json_digit bytes off = off + length s"
  by (rule skip_ahead) (auto simp: stops_digits_def)

lemma integer_part_ahead:
  assumes "drop off bytes = s @ t" "s \<noteq> []" "all_digits s" "s = ''0'' \<or> hd s \<noteq> CHR ''0''" "stops_digits t"
  shows "integer_part bytes off = Ok (off + length s)"
proof -
  obtain c u where s: "s = c # u" using assms(2) by (cases s) auto
  then have d: "drop off bytes = c # u @ t" using assms(1) by simp
  show ?thesis
  proof (cases "c = CHR ''0''")
    case True
    then have "u = []" using assms(4) s by auto
    then show ?thesis
      using True s d peek_ahead [OF d] digit_ahead_stops [of "Suc off" bytes] assms(5)
      by (simp add: integer_part_def)
  next
    case False
    then show ?thesis
      using s peek_ahead(1) [OF d] skip_digits [OF peek_ahead(2) [OF d]] assms(3,5)
      by (simp add: integer_part_def)
  qed
qed

definition fraction_text :: "string \<Rightarrow> string" where
  "fraction_text fs = (if fs = [] then [] else CHR ''.'' # fs)"

lemma fraction_ahead:
  assumes "drop off bytes = fraction_text fs @ t" "all_digits fs" "stops_digits t"
    and "fs = [] \<Longrightarrow> t = [] \<or> hd t \<noteq> CHR ''.''"
  shows "json_fraction bytes off =
    Ok (if fs = [] then None else Some (Suc off, Suc off + length fs), off + length (fraction_text fs))"
proof (cases "fs = []")
  case True
  then have "json_take bytes (CHR ''.'') off = (False, off)"
    using assms(1,4) by (intro take_other) (simp add: fraction_text_def)
  with True show ?thesis by (simp add: json_fraction_def fraction_text_def)
next
  case False
  then have d: "drop off bytes = CHR ''.'' # fs @ t" using assms(1) by (simp add: fraction_text_def)
  obtain f gs where fs: "fs = f # gs" using False by (cases fs) auto
  have "digit_ahead bytes (Suc off)"
    using peek_ahead(2) [OF d] assms(2) by (simp add: digit_ahead_Cons fs)
  then show ?thesis
    using False take_ahead [OF d] skip_digits [OF peek_ahead(2) [OF d] assms(2,3)]
    by (simp add: json_fraction_def fraction_text_def)
qed

lemma exponent_digits_ahead:
  assumes "drop off bytes = s @ t" "all_digits s" "stops_digits t" "0 \<le> v"
    and "v * 10 ^ length s + int (digits_value s) \<le> i64_max"
  shows "exponent_digits bytes v off = Ok (v * 10 ^ length s + int (digits_value s), off + length s)"
  using assms
proof (induction s arbitrary: off v)
  case Nil
  then show ?case
    by (cases t) (auto simp: exponent_digits.simps [of bytes v off] peek_ahead(1) peek_end stops_digits_def)
next
  case (Cons c s)
  then have d: "drop off bytes = c # s @ t" by simp
  define k where "k = byte c - 48"
  define w where "w = v * 10 + int k"
  have split: "digits_value (c # s) = k * 10 ^ length s + digits_value s"
    unfolding k_def using number_append [of "[byte c]" "map byte s"] number_simps(2) [of "[]" "byte c"] by simp
  have eq: "v * 10 ^ length (c # s) + int (digits_value (c # s)) = w * 10 ^ length s + int (digits_value s)"
    unfolding split w_def by (simp add: algebra_simps)
  have w: "0 \<le> w" "v * 10 \<le> w" using Cons.prems(4) by (simp_all add: w_def)
  have "w * 1 \<le> w * 10 ^ length s" by (rule mult_left_mono) (use w(1) in simp_all)
  then have "w \<le> i64_max" using Cons.prems(5) unfolding eq by linarith
  then have "checked_i64 (v * 10) = Ok (v * 10)" "checked_i64 w = Ok w"
    using w Cons.prems(4) by (simp_all add: checked_i64_def i64_min_def)
  then have "exponent_digits bytes v off = exponent_digits bytes w (Suc off)"
    using peek_ahead(1) [OF d] Cons.prems(2) by (simp add: exponent_digits.simps [of bytes v off] flip: k_def w_def)
  also have "\<dots> = Ok (w * 10 ^ length s + int (digits_value s), Suc off + length s)"
    using Cons.prems w(1) peek_ahead(2) [OF d] unfolding eq by (intro Cons.IH) auto
  finally show ?case unfolding eq by simp
qed

definition exponent_text :: "string \<Rightarrow> string" where
  "exponent_text es = (if es = [] then [] else ''e-'' @ es)"

lemma exponent_ahead:
  assumes "drop off bytes = exponent_text es @ t" "all_digits es" "ends_value t"
    and "int (digits_value es) \<le> i64_max"
  shows "json_exponent bytes off = Ok (- int (digits_value es), off + length (exponent_text es))"
proof (cases "es = []")
  case True
  then have "drop off bytes = t" using assms(1) by (simp add: exponent_text_def)
  then have "json_peek bytes off \<notin> {Some (CHR ''e''), Some (CHR ''E'')}"
    using ends_value_other(3) [OF assms(3)] by (cases t) (auto simp: peek_ahead(1) peek_end)
  with True show ?thesis by (simp add: json_exponent_def exponent_text_def)
next
  case False
  then have d: "drop off bytes = CHR ''e'' # CHR ''-'' # es @ t" using assms(1) by (simp add: exponent_text_def)
  note d2 = peek_ahead(2) [OF d]
  note d3 = peek_ahead(2) [OF d2]
  obtain f gs where es: "es = f # gs" using False by (cases es) auto
  have "digit_ahead bytes (Suc (Suc off))" using d3 assms(2) by (simp add: digit_ahead_Cons es)
  moreover have "exponent_digits bytes 0 (Suc (Suc off)) = Ok (int (digits_value es), off + length (exponent_text es))"
    using exponent_digits_ahead [OF d3 assms(2) ends_value_other(1) [OF assms(3)], of 0] assms(4) False
    by (simp add: exponent_text_def)
  moreover have "checked_i64 (- int (digits_value es)) = Ok (- int (digits_value es))"
    using assms(4) by (simp add: checked_i64_def i64_min_def i64_max_def)
  ultimately show ?thesis
    using peek_ahead(1) [OF d] take_ahead [OF d2] by (simp add: json_exponent_def)
qed

lemma str_ahead:
  assumes "off \<le> length bytes" "drop off bytes = u @ t" "n = off + length u" "list_all (\<lambda>c. byte c < 128) u"
  shows "json_str bytes off n = Ok u"
  using slice_ahead [OF assms(1-3)] ascii_valid [OF assms(4)]
  by (auto simp: json_str_def utf8_valid_def)

lemma number_at_ahead:
  assumes d: "drop off bytes = ((if neg then ''-'' else []) @ s @ fraction_text fs @ exponent_text es) @ t"
    and s: "s \<noteq> []" "all_digits s" "s = ''0'' \<or> hd s \<noteq> CHR ''0''"
    and fs: "all_digits fs" "int (length fs) \<le> i64_max"
    and es: "all_digits es" "int (digits_value es) \<le> i64_max"
    and range: "i64_min \<le> - int (digits_value es) - int (length fs)"
    and t: "ends_value t"
  shows "\<exists>n. json_number_at bytes off =
      Ok (n, off + length ((if neg then ''-'' else []) @ s @ fraction_text fs @ exponent_text es)) \<and>
    number_ok n \<and> number_value n =
      decimal_value ((if neg then -1 else 1) * int (digits_value (s @ fs))) (- int (digits_value es) - int (length fs))"
proof -
  define sgn where "sgn = (if neg then ''-'' else [])"
  define lexed where "lexed = sgn @ s @ fraction_text fs @ exponent_text es"
  define start where "start = off + length sgn"
  define stop where "stop = start + length s"
  define rest where "rest = stop + length (fraction_text fs)"
  obtain c u where cu: "s = c # u" using s(1) by (cases s) auto
  have c: "is_json_digit c" "c \<noteq> CHR ''-''"
    using s(2) cu by (auto simp: is_json_digit_def is_digit_def)
  have d0: "drop off bytes = sgn @ s @ fraction_text fs @ exponent_text es @ t" using d by (simp add: sgn_def)
  note d1 = drop_ahead [OF d0 refl, folded start_def]
  note d2 = drop_ahead [OF d1 refl, folded stop_def]
  note d3 = drop_ahead [OF d2 refl, folded rest_def]
  have len: "off \<le> length bytes" "start \<le> length bytes"
    using peek_ahead(3) [of start bytes c "u @ fraction_text fs @ exponent_text es @ t"] d1
    by (simp_all add: cu start_def)
  have take1: "json_take bytes (CHR ''-'') off = (neg, start)"
  proof (cases neg)
    case True
    then show ?thesis using d0 by (simp add: take_ahead sgn_def start_def)
  next
    case False
    then show ?thesis using d0 c(2) cu by (subst take_other) (auto simp: sgn_def start_def)
  qed
  have e_stops: "stops_digits (exponent_text es @ t)"
    using ends_value_other(1) [OF t] by (auto simp: exponent_text_def stops_digits_def is_json_digit_def is_digit_def)
  have f_stops: "stops_digits (fraction_text fs @ exponent_text es @ t)"
    using e_stops by (auto simp: fraction_text_def stops_digits_def is_json_digit_def is_digit_def)
  have no_dot: "exponent_text es @ t = [] \<or> hd (exponent_text es @ t) \<noteq> CHR ''.''"
    using ends_value_other(2) [OF t] by (auto simp: exponent_text_def)
  note i = integer_part_ahead [OF d1 s f_stops, folded stop_def]
  note f = fraction_ahead [OF d2 fs(1) e_stops no_dot, folded rest_def]
  have e: "json_exponent bytes rest = Ok (- int (digits_value es), rest + length (exponent_text es))"
    by (rule exponent_ahead [OF d3 es(1) t es(2)])
  have whole: "json_str bytes start stop = Ok s"
    by (rule str_ahead [OF len(2) d1]) (use s(2) in \<open>simp_all add: stop_def all_digits_ascii\<close>)
  have part: "json_str bytes (Suc stop) (Suc stop + length fs) = Ok fs" if "fs \<noteq> []"
  proof (rule str_ahead)
    have "drop stop bytes = CHR ''.'' # fs @ exponent_text es @ t" using d2 that by (simp add: fraction_text_def)
    from peek_ahead [OF this] show "Suc stop \<le> length bytes" "drop (Suc stop) bytes = fs @ exponent_text es @ t"
      by simp_all
  qed (use fs(1) in \<open>simp_all add: all_digits_ascii\<close>)
  have "list_all (\<lambda>c. byte c < 128) lexed"
    using s(2) fs(1) es(1) by (auto simp: lexed_def sgn_def fraction_text_def exponent_text_def all_digits_ascii)
  then have lexeme: "json_str bytes off (off + length lexed) = Ok lexed"
    using d0 by (intro str_ahead [OF len(1), where t = t]) (simp_all add: lexed_def)
  obtain x where x: "int_parse (map byte (sgn @ s @ fs)) = Ok x" "well_formed x"
      "int_of x = (if neg then - int (digits_value (s @ fs)) else int (digits_value (s @ fs)))"
    using int_parse_ok [of "s @ fs" neg] s fs(1) by (auto simp: sgn_def)
  define v where "v = - int (digits_value es) - int (length fs)"
  have v: "checked_i64 v = Ok v" using range by (simp add: checked_i64_def v_def i64_max_def)
  have fd: "checked_i64 (int (length fs)) = Ok (int (length fs))"
    using fs(2) by (simp add: checked_i64_def i64_min_def)
  define n where "n = \<lparr>coefficient = x, exponent10 = v, lexeme = lexed\<rparr>"
  have stop_eq: "rest + length (exponent_text es) = off + length lexed"
    by (simp add: rest_def stop_def start_def lexed_def)
  have "json_number_at bytes off = Ok (n, off + length lexed)"
  proof (cases "fs = []")
    case True
    then show ?thesis
      using take1 i f e whole x(1) lexeme v stop_eq
      by (simp add: json_number_at_def number_from_def sgn_def n_def v_def)
  next
    case False
    then show ?thesis
      using take1 i f e whole part fd x(1) lexeme v stop_eq
      by (simp add: json_number_at_def number_from_def sgn_def n_def v_def)
  qed
  moreover have "number_ok n" using x(2) range by (simp add: number_ok_def n_def v_def i64_max_def)
  moreover have "number_value n = decimal_value ((if neg then -1 else 1) * int (digits_value (s @ fs))) v"
    using x(3) by (simp add: number_value_def n_def)
  ultimately show ?thesis unfolding v_def lexed_def sgn_def by blast
qed

section \<open>Printing\<close>

definition parts_ok :: "string \<Rightarrow> string \<Rightarrow> string \<Rightarrow> bool" where
  "parts_ok s fs es \<longleftrightarrow> s \<noteq> [] \<and> all_digits s \<and> (s = ''0'' \<or> hd s \<noteq> CHR ''0'') \<and>
    all_digits fs \<and> int (length fs) \<le> i64_max \<and> all_digits es \<and> int (digits_value es) \<le> i64_max \<and>
    i64_min \<le> - int (digits_value es) - int (length fs)"

definition parts_value :: "string \<Rightarrow> string \<Rightarrow> string \<Rightarrow> rat" where
  "parts_value s fs es =
    decimal_value (int (digits_value (s @ fs))) (- int (digits_value es) - int (length fs))"

lemma digits_value_simps [simp]:
  "digits_value [] = 0" "digits_value (s @ replicate k (CHR ''0'')) = digits_value s * 10 ^ k"
  "digits_value (CHR ''0'' # s) = digits_value s"
  using number_append [of "[48]" "map byte s"] number_simps(2) [of "[]" 48]
  by (simp_all add: number_append number_zeros map_replicate)

lemma all_digits_replicate: "all_digits (replicate k (CHR ''0''))"
  by (simp add: list_all_iff is_json_digit_def is_digit_def)

lemma decimal_text_parts:
  assumes "0 < m" "i64_min < e"
  shows "\<exists>s fs es. decimal_text (show_nat m) e = Ok (s @ fraction_text fs @ exponent_text es) \<and>
    parts_ok s fs es \<and> parts_value s fs es = decimal_value (int m) e"
proof -
  define ds where "ds = show_nat m"
  have ds: "all_digits ds" "digits_value ds = m" "ds \<noteq> []" "hd ds \<noteq> CHR ''0''"
    using show_nat_digits [of m] show_nat_first [OF assms(1)] by (simp_all add: ds_def)
  then have nz: "ds \<noteq> ''0''" by auto
  have unit: "all_digits ''0''" by (simp add: is_json_digit_def is_digit_def)
  consider (whole) "0 \<le> e" | (point) "e < 0" "0 \<le> int (length ds) + e" | (scientific) "int (length ds) + e < 0"
    by linarith
  then show ?thesis
  proof cases
    case whole
    let ?s = "ds @ replicate (nat e) (CHR ''0'')"
    have "decimal_text ds e = Ok (?s @ fraction_text [] @ exponent_text [])"
      using whole nz by (simp add: decimal_text_def fraction_text_def exponent_text_def)
    moreover have "parts_ok ?s [] []"
      using ds by (simp add: parts_ok_def all_digits_replicate i64_max_def i64_min_def)
    moreover have "parts_value ?s [] [] = decimal_value (int m) e"
      using whole ds(2) decimal_value_shift [of "int m" "nat e" 0]
      by (simp add: parts_value_def number_append number_zeros)
    ultimately show ?thesis unfolding ds_def by blast
  next
    case point
    define p where "p = nat (int (length ds) + e)"
    have p: "int (length ds - p) = - e" "p < length ds" "p = 0 \<longleftrightarrow> int (length ds) + e = 0"
      using point by (auto simp: p_def)
    define s where "s = (if p = 0 then ''0'' else take p ds)"
    have fs: "drop p ds \<noteq> []" "length (drop p ds) = length ds - p" using p(2) by simp_all
    have "decimal_text ds e = Ok (s @ fraction_text (drop p ds) @ exponent_text [])"
      using point nz fs(1) by (auto simp: decimal_text_def fraction_text_def exponent_text_def Let_def s_def p_def)
    moreover have "hd (take p ds) = hd ds" if "p \<noteq> 0" using that ds(3) by (cases ds; cases p) auto
    then have "s \<noteq> []" "s = ''0'' \<or> hd s \<noteq> CHR ''0''" using ds(3,4) by (auto simp: s_def)
    moreover have "all_digits s" "all_digits (drop p ds)"
      using ds(1) unit by (auto simp: s_def list_all_iff dest: in_set_takeD in_set_dropD)
    moreover have joined: "digits_value (s @ drop p ds) = m"
    proof (cases "p = 0")
      case True
      then show ?thesis using ds(2) digits_value_simps(3) [of ds] by (simp add: s_def)
    next
      case False
      then have "s @ drop p ds = ds" by (simp add: s_def)
      then show ?thesis using ds(2) by presburger
    qed
    ultimately have "parts_ok s (drop p ds) []"
      using assms(2) p(1) unfolding parts_ok_def fs(2) by (simp add: i64_max_def i64_min_def)
    moreover have "parts_value s (drop p ds) [] = decimal_value (int m) e"
      unfolding parts_value_def joined fs(2) p(1) by simp
    ultimately show ?thesis using \<open>decimal_text ds e = _\<close> unfolding ds_def by blast
  next
    case scientific
    obtain f rest where r: "ds = f # rest" using ds(3) by (cases ds) auto
    define fs where "fs = (if rest = [] then ''0'' else rest)"
    define x where "x = nat (- (int (length ds) + e - 1))"
    have x: "int x = - (int (length ds) + e - 1)" using scientific by (simp add: x_def)
    have "decimal_text ds e = Ok ([f] @ fraction_text fs @ exponent_text (show_nat x))"
      using scientific nz r by (auto simp: decimal_text_def fraction_text_def exponent_text_def fs_def show_int_def x_def)
    moreover have "all_digits [f]" "all_digits fs" using ds(1) unit r by (auto simp: fs_def)
    moreover have "f \<noteq> CHR ''0''" using ds(4) r by simp
    moreover have "int (length fs) \<le> i64_max" "i64_min \<le> - int x - int (length fs)" "int x \<le> i64_max"
      using assms(2) scientific r unfolding x by (auto simp: fs_def i64_max_def i64_min_def)
    ultimately have "parts_ok [f] fs (show_nat x)"
      by (simp add: parts_ok_def show_nat_digits)
    moreover have "parts_value [f] fs (show_nat x) = decimal_value (int m) e"
    proof (cases "rest = []")
      case True
      then have "digits_value ([f] @ fs) = m * 10" using ds(2) r digits_value_simps(2) [of "[f]" 1] by (simp add: fs_def)
      moreover have "- int x - int (length fs) = e - 1" using True r unfolding x by (simp add: fs_def)
      ultimately show ?thesis using decimal_value_10 [of "int m" "e - 1"]
        by (simp add: parts_value_def show_nat_digits)
    next
      case False
      then have "digits_value ([f] @ fs) = m" "- int x - int (length fs) = e"
        using ds(2) r unfolding x by (simp_all add: fs_def)
      then show ?thesis by (simp add: parts_value_def show_nat_digits)
    qed
    ultimately show ?thesis using \<open>decimal_text ds e = _\<close> unfolding ds_def by blast
  qed
qed

lemma trim_fraction_ok:
  assumes "well_formed c"
  shows "\<exists>q x. trim_fraction c e = Ok (q, x) \<and> well_formed q \<and> e \<le> x \<and>
    decimal_value (int_of q) x = decimal_value (int_of c) e \<and> (x = e \<longrightarrow> q = c)"
  using assms
proof (induction c e rule: trim_fraction.induct)
  case (1 c e)
  from div_ten [OF 1(2)] obtain q r where
    qr: "div_rem_euclid_small c 10 = Ok (q, r)" "well_formed q" "r = 0 \<longrightarrow> int_of c = int_of q * 10" by blast
  show ?case
  proof (cases "e < - 1 \<and> int_display c \<noteq> ''0'' \<and> r = 0")
    case False
    then have "trim_fraction c e = Ok (c, e)" using qr(1) by (auto simp: trim_fraction.simps [of c e])
    then show ?thesis using 1(2) by blast
  next
    case True
    with 1(1) [OF _ qr(1) refl _ qr(2)] obtain p x where
      p: "trim_fraction q (e + 1) = Ok (p, x)" "well_formed p" "e + 1 \<le> x"
        "decimal_value (int_of p) x = decimal_value (int_of q) (e + 1)" by auto
    have "trim_fraction c e = Ok (p, x)" using True qr(1) p(1) by (simp add: trim_fraction.simps [of c e])
    with p(2-4) qr(3) True show ?thesis by (simp add: decimal_value_10)
  qed
qed

lemma split_sign_display:
  assumes "well_formed c"
  shows "split_sign (int_display c) = (if int_of c < 0 then ''-'' else [], show_nat (nat \<bar>int_of c\<bar>))"
proof -
  obtain d u where du: "show_nat (nat \<bar>int_of c\<bar>) = d # u"
    by (cases "show_nat (nat \<bar>int_of c\<bar>)") auto
  then have "is_json_digit d" using show_nat_digits(1) [of "nat \<bar>int_of c\<bar>"] by simp
  then have "d \<noteq> CHR ''-''" by (auto simp: is_json_digit_def is_digit_def)
  with du show ?thesis unfolding int_display_ok [OF assms] by (simp add: split_sign_def)
qed

lemma decimal_value_sign: "decimal_value (- c) e = - decimal_value c e"
  by (simp add: decimal_value_def)

text \<open>The text of a number is in the grammar and stands for the same rational.\<close>

lemma push_json_parts:
  assumes "well_formed (coefficient n)" "i64_min < exponent10 n"
  shows "\<exists>neg s fs es.
    (\<forall>out. push_json out n = Ok (out @ (if neg then ''-'' else []) @ s @ fraction_text fs @ exponent_text es)) \<and>
    parts_ok s fs es \<and> number_value n = (if neg then -1 else 1) * parts_value s fs es"
proof -
  from trim_fraction_ok [OF assms(1)] obtain c e where
    ce: "trim_fraction (coefficient n) (exponent10 n) = Ok (c, e)" "well_formed c" "exponent10 n \<le> e"
      "decimal_value (int_of c) e = number_value n" unfolding number_value_def by blast
  have e: "i64_min < e" using assms(2) ce(3) by linarith
  define m where "m = nat \<bar>int_of c\<bar>"
  have "\<exists>s fs es. decimal_text (show_nat m) e = Ok (s @ fraction_text fs @ exponent_text es) \<and>
    parts_ok s fs es \<and> parts_value s fs es = decimal_value (int m) e"
  proof (cases "m = 0")
    case True
    let ?fs = "if e < 0 then ''0'' else []"
    have "decimal_text (show_nat m) e = Ok (''0'' @ fraction_text ?fs @ exponent_text [])"
      using True by (simp add: decimal_text_def fraction_text_def exponent_text_def show_nat.simps char_48)
    moreover have "parts_ok ''0'' ?fs []" "parts_value ''0'' ?fs [] = decimal_value (int m) e"
      using True number_zeros [of "Suc 0"] number_zeros [of "Suc (Suc 0)"]
      by (simp_all add: parts_ok_def parts_value_def is_json_digit_def is_digit_def i64_max_def i64_min_def)
    ultimately show ?thesis by blast
  qed (use decimal_text_parts e in blast)
  then obtain s fs es where
    p: "decimal_text (show_nat m) e = Ok (s @ fraction_text fs @ exponent_text es)"
      "parts_ok s fs es" "parts_value s fs es = decimal_value (int m) e" by blast
  let ?neg = "int_of c < 0"
  have "push_json out n = Ok (out @ (if ?neg then ''-'' else []) @ s @ fraction_text fs @ exponent_text es)" for out
    using ce(1) split_sign_display [OF ce(2)] p(1) by (simp add: push_json_def m_def)
  moreover have "number_value n = (if ?neg then -1 else 1) * parts_value s fs es"
  proof -
    have "int_of c = (if ?neg then - int m else int m)" by (simp add: m_def)
    then show ?thesis unfolding ce(4) [symmetric] p(3) by (metis decimal_value_sign mult_1 mult_minus1)
  qed
  ultimately show ?thesis using p(2) by blast
qed

definition number_text :: "json_number \<Rightarrow> string" where
  "number_text n = (case push_json [] n of Ok s \<Rightarrow> s | _ \<Rightarrow> [])"

definition printable :: "json_number \<Rightarrow> bool" where
  "printable n \<longleftrightarrow> number_ok n \<and> i64_min < exponent10 n"

lemma push_json_text:
  assumes "printable n"
  shows "push_json out n = Ok (out @ number_text n)"
  using push_json_parts [of n] assms by (auto simp: printable_def number_ok_def number_text_def)

lemma number_text_ascii: "printable n \<Longrightarrow> list_all (\<lambda>c. byte c < 128) (number_text n)"
proof -
  assume "printable n"
  then obtain neg s fs es where "number_text n = (if neg then ''-'' else []) @ s @ fraction_text fs @ exponent_text es"
    "parts_ok s fs es"
    using push_json_parts [of n] by (fastforce simp: printable_def number_ok_def number_text_def)
  then show ?thesis
    by (auto simp: parts_ok_def fraction_text_def exponent_text_def all_digits_ascii)
qed

lemma number_text_first:
  assumes "printable n"
  obtains c u where "number_text n = c # u" "c = CHR ''-'' \<or> is_json_digit c"
proof -
  obtain neg s fs es where p: "number_text n = (if neg then ''-'' else []) @ s @ fraction_text fs @ exponent_text es"
    "parts_ok s fs es"
    using push_json_parts [of n] assms by (fastforce simp: printable_def number_ok_def number_text_def)
  then obtain d v where "s = d # v" "is_json_digit d" by (cases s) (auto simp: parts_ok_def)
  with p(1) show ?thesis by (cases neg) (auto intro: that)
qed

lemma number_ahead:
  assumes "drop off bytes = number_text n @ t" "printable n" "ends_value t"
  shows "\<exists>m. json_number_at bytes off = Ok (m, off + length (number_text n)) \<and> number_ok m \<and>
    number_value m = number_value n"
proof -
  obtain neg s fs es where
    p: "number_text n = (if neg then ''-'' else []) @ s @ fraction_text fs @ exponent_text es"
      "parts_ok s fs es" "number_value n = (if neg then -1 else 1) * parts_value s fs es"
    using push_json_parts [of n] assms(2) by (fastforce simp: printable_def number_ok_def number_text_def)
  from p(2) obtain m where m: "json_number_at bytes off = Ok (m, off + length (number_text n))" "number_ok m"
      "number_value m = decimal_value ((if neg then -1 else 1) * int (digits_value (s @ fs)))
        (- int (digits_value es) - int (length fs))"
    using number_at_ahead [OF assms(1) [unfolded p(1)] _ _ _ _ _ _ _ _ assms(3)]
    unfolding parts_ok_def p(1) by blast
  moreover have "number_value m = number_value n"
    unfolding m(3) p(3) parts_value_def by (simp add: decimal_value_sign)
  ultimately show ?thesis by blast
qed

end
