(* ===== verification/Hell_Json_Document.thy ===== *)
theory Hell_Json_Document
  imports Hell_Json
begin

text \<open>
  The decoder of \<open>Hell_Json\<close> with its stack of open containers and its limits, the flat
  documents the guest shares, and the encoder with its stack of tasks.
\<close>

section \<open>The decoder\<close>

datatype container_frame =
    ArrayFrame "json_node list"
  | ObjectFrame "(string \<times> json_node) list" string

datatype value_start = Complete json_node | Container container_frame

definition over :: "nat option \<Rightarrow> nat \<Rightarrow> bool" where
  "over limit n \<longleftrightarrow> (case limit of None \<Rightarrow> False | Some l \<Rightarrow> l < n)"

text \<open>\<open>start_value\<close>, the value at the offset or the container that opens there.\<close>

definition start_at :: "string \<Rightarrow> nat \<Rightarrow> (value_start \<times> nat) arith" where
  "start_at bytes off =
    (let off = json_whitespace bytes off in
     (case json_peek bytes off of
        None \<Rightarrow> Err ()
      | Some c \<Rightarrow>
        if c = CHR ''n'' then
          res_bind (json_literal bytes ''null'' JNull off) (\<lambda>(v, off). Ok (Complete v, off))
        else if c = CHR ''t'' then
          res_bind (json_literal bytes ''true'' (JBool True) off) (\<lambda>(v, off). Ok (Complete v, off))
        else if c = CHR ''f'' then
          res_bind (json_literal bytes ''false'' (JBool False) off) (\<lambda>(v, off). Ok (Complete v, off))
        else if c = CHR 0x22 then
          res_bind (json_string bytes off) (\<lambda>(s, off). Ok (Complete (JString s), off))
        else if c = CHR ''['' then
          res_bind (json_consume bytes (CHR ''['') off) (\<lambda>off.
            (let (closed, off) = json_take bytes (CHR '']'') (json_whitespace bytes off) in
             Ok (if closed then Complete (JArray []) else Container (ArrayFrame []), off)))
        else if c = CHR ''{'' then
          res_bind (json_consume bytes (CHR ''{'') off) (\<lambda>off.
            (let (closed, off) = json_take bytes (CHR ''}'') (json_whitespace bytes off) in
             if closed then Ok (Complete (JObject []), off)
             else res_bind (json_string bytes off) (\<lambda>(key, off).
                  res_bind (json_consume bytes (CHR '':'') (json_whitespace bytes off)) (\<lambda>off.
                    Ok (Container (ObjectFrame [] key), off)))))
        else if c = CHR ''-'' \<or> is_json_digit c then
          res_bind (json_number_at bytes off) (\<lambda>(n, off). Ok (Complete (JNumber n), off))
        else Err ()))"

definition start_value ::
  "string \<Rightarrow> nat option \<Rightarrow> nat option \<Rightarrow> nat \<Rightarrow> nat \<Rightarrow> nat \<Rightarrow> (value_start \<times> nat \<times> nat) arith" where
  "start_value bytes max_depth max_nodes level node_count off =
    (if over max_depth level then Err ()
     else res_bind (checked_u64 (node_count + 1)) (\<lambda>node_count.
       if over max_nodes node_count then Err ()
       else res_bind (start_at bytes off) (\<lambda>(start, off). Ok (start, off, node_count))))"

text \<open>The state of the loop: what was started, the open containers, the offset, the count.\<close>

type_synonym decode_state = "value_start \<times> container_frame list \<times> nat \<times> nat"

text \<open>One more value at the top of the stack.\<close>

definition start_next ::
  "string \<Rightarrow> nat option \<Rightarrow> nat option \<Rightarrow> container_frame list \<Rightarrow> nat \<Rightarrow> nat \<Rightarrow>
    decode_state + (json_node \<times> nat) arith" where
  "start_next bytes max_depth max_nodes frames off node_count =
    (case start_value bytes max_depth max_nodes (length frames) node_count off of
       Ok (start, off, node_count) \<Rightarrow> Inl (start, frames, off, node_count)
     | Err e \<Rightarrow> Inr (Err e) | Panic \<Rightarrow> Inr Panic)"

text \<open>The value goes into the frame; the delimiter that closes it.\<close>

fun frame_add :: "container_frame \<Rightarrow> json_node \<Rightarrow> container_frame" where
  "frame_add (ArrayFrame vs) v = ArrayFrame (vs @ [v])"
| "frame_add (ObjectFrame kvs key) v = ObjectFrame (btree_insert key v kvs) []"

fun frame_close :: "container_frame \<Rightarrow> char" where
  "frame_close (ArrayFrame _) = CHR '']''"
| "frame_close (ObjectFrame _ _) = CHR ''}''"

fun frame_node :: "container_frame \<Rightarrow> json_node" where
  "frame_node (ArrayFrame vs) = JArray vs"
| "frame_node (ObjectFrame kvs _) = JObject kvs"

text \<open>After the comma an object reads the next key.\<close>

definition frame_key :: "string \<Rightarrow> container_frame \<Rightarrow> nat \<Rightarrow> (container_frame \<times> nat) arith" where
  "frame_key bytes frame off =
    (case frame of
       ArrayFrame vs \<Rightarrow> Ok (frame, off)
     | ObjectFrame kvs _ \<Rightarrow>
        res_bind (json_string bytes (json_whitespace bytes off)) (\<lambda>(key, off).
        res_bind (json_consume bytes (CHR '':'') (json_whitespace bytes off)) (\<lambda>off.
          Ok (ObjectFrame kvs key, off))))"

text \<open>
  One iteration: of the outer loop when a container was opened, of the inner loop when a
  value is complete.  The inner loop goes on with the container a delimiter completes.
\<close>

fun decode_step :: "string \<Rightarrow> nat option \<Rightarrow> nat option \<Rightarrow> decode_state \<Rightarrow> decode_state + (json_node \<times> nat) arith" where
  "decode_step bytes max_depth max_nodes (Container frame, frames, off, node_count) =
     start_next bytes max_depth max_nodes (frame # frames) off node_count"
| "decode_step bytes max_depth max_nodes (Complete v, [], off, node_count) = Inr (Ok (v, off))"
| "decode_step bytes max_depth max_nodes (Complete v, frame # frames, off, node_count) =
    (let frame = frame_add frame v;
         (closes, off) = json_take bytes (frame_close frame) (json_whitespace bytes off) in
     if closes then Inl (Complete (frame_node frame), frames, off, node_count)
     else (case res_bind (json_consume bytes (CHR '','') off) (frame_key bytes frame) of
             Ok (frame, off) \<Rightarrow> start_next bytes max_depth max_nodes (frame # frames) off node_count
           | Err e \<Rightarrow> Inr (Err e) | Panic \<Rightarrow> Inr Panic))"

text \<open>\<open>parse_with_limits\<close>; the outer \<open>None\<close> would be a loop that does not end.\<close>

definition json_parse :: "string \<Rightarrow> nat option \<Rightarrow> nat option \<Rightarrow> json_node arith option" where
  "json_parse bytes max_depth max_nodes =
    (case from_utf8 bytes of
       Ok _ \<Rightarrow>
        (case start_next bytes max_depth max_nodes [] 0 0 of
           Inr r \<Rightarrow> Some (res_bind r (\<lambda>(v, off). Ok v))
         | Inl s \<Rightarrow> map_option (\<lambda>r. res_bind r (\<lambda>(v, off).
             if json_whitespace bytes off = length bytes then Ok v else Err ()))
             (run (decode_step bytes max_depth max_nodes) s))
     | Err _ \<Rightarrow> Some (Err ()) | Panic \<Rightarrow> Some Panic)"

section \<open>Documents\<close>

datatype document_node =
    DNull
  | DBool bool
  | DString string
  | DNumber json_number
  | DArray "nat list"
  | DObject "(string \<times> nat) list"

record json_document =
  document_nodes :: "document_node list"
  document_root :: nat

datatype document_task =
    Visit json_node
  | FinishArray nat
  | FinishObject "string list"

type_synonym document_state = "document_task list \<times> document_node list \<times> nat list"

text \<open>\<open>push_document_node\<close>; the stack of tasks has its top first, \<open>completed\<close> its top last.\<close>

definition push_document_node :: "document_node list \<Rightarrow> nat list \<Rightarrow> document_node \<Rightarrow> document_node list \<times> nat list" where
  "push_document_node nodes completed node = (nodes @ [node], completed @ [length nodes])"

fun document_step :: "document_state \<Rightarrow> document_state + json_document arith" where
  "document_step ([], nodes, completed) =
    Inr (if completed = [] then Panic
         else Ok \<lparr>document_nodes = nodes, document_root = last completed\<rparr>)"
| "document_step (Visit JNull # tasks, nodes, completed) =
    Inl (tasks, push_document_node nodes completed DNull)"
| "document_step (Visit (JBool b) # tasks, nodes, completed) =
    Inl (tasks, push_document_node nodes completed (DBool b))"
| "document_step (Visit (JString s) # tasks, nodes, completed) =
    Inl (tasks, push_document_node nodes completed (DString s))"
| "document_step (Visit (JNumber n) # tasks, nodes, completed) =
    Inl (tasks, push_document_node nodes completed (DNumber n))"
| "document_step (Visit (JArray vs) # tasks, nodes, completed) =
    Inl (map Visit vs @ FinishArray (length vs) # tasks, nodes, completed)"
| "document_step (Visit (JObject kvs) # tasks, nodes, completed) =
    Inl (map (Visit \<circ> snd) kvs @ FinishObject (map fst kvs) # tasks, nodes, completed)"
| "document_step (FinishArray n # tasks, nodes, completed) =
    (if length completed < n then Inr Panic
     else (let start = length completed - n in
       Inl (tasks, push_document_node nodes (take start completed) (DArray (drop start completed)))))"
| "document_step (FinishObject keys # tasks, nodes, completed) =
    (if length completed < length keys then Inr Panic
     else (let start = length completed - length keys in
       Inl (tasks, push_document_node nodes (take start completed)
         (DObject (zip keys (drop start completed))))))"

definition from_node :: "json_node \<Rightarrow> json_document arith option" where
  "from_node node = run document_step ([Visit node], [], [])"

definition document_node_at :: "json_document \<Rightarrow> nat \<Rightarrow> document_node option" where
  "document_node_at document i = vget (document_nodes document) i"

section \<open>The encoder\<close>

text \<open>
  The values of the guest's \<open>Json\<close> type: nodes of a decoded document and the primitive
  constructors on them, with exact numbers.  Their payloads are evaluated, and the
  encoder runs in a context that is not cancelled.
\<close>

datatype guest_json =
    GDocument json_document nat
  | GNull
  | GBool bool
  | GText string
  | GNumber json_number
  | GArray "guest_json list"
  | GObject "(string \<times> guest_json) list"

definition json_document_value :: "json_document \<Rightarrow> nat \<Rightarrow> guest_json runtime_result" where
  "json_document_value document i =
    (case document_node_at document i of
       None \<Rightarrow> Err (internal ''decoded JSON node index is out of bounds'')
     | Some node \<Rightarrow> Ok (case node of
         DNull \<Rightarrow> GNull
       | DBool b \<Rightarrow> GBool b
       | DString s \<Rightarrow> GText s
       | DNumber n \<Rightarrow> GNumber n
       | DArray children \<Rightarrow> GArray (map (GDocument document) children)
       | DObject entries \<Rightarrow> GObject (map (\<lambda>(key, child). (key, GDocument document child)) entries)))"

datatype encode_task =
    EncodeValue guest_json nat
  | ObjectKey string
  | Raw string

text \<open>The tasks of the elements, and of the entries, with the commas between them.\<close>

fun element_tasks :: "nat \<Rightarrow> guest_json list \<Rightarrow> encode_task list" where
  "element_tasks level [] = []"
| "element_tasks level (v # vs) =
    EncodeValue v level # concat (map (\<lambda>v. [Raw '','', EncodeValue v level]) vs)"

definition entry_task :: "nat \<Rightarrow> string \<times> guest_json \<Rightarrow> encode_task list" where
  "entry_task level kv = [ObjectKey (fst kv), Raw '':'', EncodeValue (snd kv) level]"

fun entry_tasks :: "nat \<Rightarrow> (string \<times> guest_json) list \<Rightarrow> encode_task list" where
  "entry_tasks level [] = []"
| "entry_tasks level (kv # kvs) =
    entry_task level kv @ concat (map (\<lambda>kv. Raw '','' # entry_task level kv) kvs)"

definition nesting_refused :: "nat option \<Rightarrow> runtime_error" where
  "nesting_refused limit =
    resource_limit (''JSON encoding exceeds the configured nesting limit '' @
      (case limit of None \<Rightarrow> ''None'' | Some n \<Rightarrow> ''Some('' @ show_nat n @ '')''))"

text \<open>Writing to a \<open>String\<close> does not fail.\<close>

definition written :: "string arith \<Rightarrow> string runtime_result" where
  "written r = (case r of Ok out \<Rightarrow> Ok out | _ \<Rightarrow> Panic)"

definition goes_on :: "encode_task list \<Rightarrow> string runtime_result \<Rightarrow> encode_task list \<times> string + string runtime_result" where
  "goes_on tasks r = (case r of Ok out \<Rightarrow> Inl (tasks, out) | Err e \<Rightarrow> Inr (Err e) | Panic \<Rightarrow> Inr Panic)"

fun encode_value :: "encode_task list \<Rightarrow> string \<Rightarrow> guest_json \<Rightarrow> nat \<Rightarrow> encode_task list \<times> string + string runtime_result" where
  "encode_value tasks out (GDocument document i) level =
    (case json_document_value document i of
       Ok v \<Rightarrow> Inl (EncodeValue v level # tasks, out)
     | Err e \<Rightarrow> Inr (Err e) | Panic \<Rightarrow> Inr Panic)"
| "encode_value tasks out GNull level = Inl (tasks, out @ ''null'')"
| "encode_value tasks out (GBool b) level = Inl (tasks, out @ (if b then ''true'' else ''false''))"
| "encode_value tasks out (GText s) level = goes_on tasks (written (push_string out s))"
| "encode_value tasks out (GNumber n) level = goes_on tasks (written (push_json out n))"
| "encode_value tasks out (GArray vs) level =
    Inl (element_tasks (level + 1) vs @ Raw '']'' # tasks, out @ ''['')"
| "encode_value tasks out (GObject kvs) level =
    Inl (entry_tasks (level + 1) kvs @ Raw ''}'' # tasks, out @ ''{'')"

fun encode_step :: "nat option \<Rightarrow> encode_task list \<times> string \<Rightarrow> encode_task list \<times> string + string runtime_result" where
  "encode_step limit ([], out) = Inr (Ok out)"
| "encode_step limit (Raw s # tasks, out) = Inl (tasks, out @ s)"
| "encode_step limit (ObjectKey key # tasks, out) = goes_on tasks (written (push_string out key))"
| "encode_step limit (EncodeValue v level # tasks, out) =
    (if over limit level then Inr (Err (nesting_refused limit)) else encode_value tasks out v level)"

text \<open>The builtins \<open>json_encode\<close> and \<open>json_decode\<close>.\<close>

definition json_encode :: "runtime_limits \<Rightarrow> guest_json \<Rightarrow> string runtime_result option" where
  "json_encode limits v = run (encode_step (limit_value (lim_json_depth limits))) ([EncodeValue v 0], [])"

definition json_decode :: "runtime_limits \<Rightarrow> string \<Rightarrow> guest_json option arith option" where
  "json_decode limits bytes =
    (case json_parse bytes (limit_value (lim_json_depth limits)) (limit_value (lim_json_nodes limits)) of
       None \<Rightarrow> None
     | Some (Ok n) \<Rightarrow> map_option (\<lambda>r. res_bind r (\<lambda>d. Ok (Some (GDocument d (document_root d))))) (from_node n)
     | Some (Err _) \<Rightarrow> Some (Ok None)
     | Some Panic \<Rightarrow> Some Panic)"

end
