(* ===== verification/Hell_Json_Decode.thy ===== *)
theory Hell_Json_Decode
  imports Hell_Json_Number Hell_Json_Document
begin

text \<open>
  The decoder of \<open>Hell_Json_Document\<close> on every input: it returns, does not panic, and what
  it answers is a well-formed tree within the limits it was given.
\<close>

section \<open>Answers that are not a panic\<close>

definition yields :: "('a \<Rightarrow> bool) \<Rightarrow> 'a arith \<Rightarrow> bool" where
  "yields Q m \<longleftrightarrow> m \<noteq> Panic \<and> (\<forall>a. m = Ok a \<longrightarrow> Q a)"

lemma yields_simps [simp]:
  "yields Q (Ok a) = Q a" "yields Q (Err e)" "\<not> yields Q Panic"
  by (simp_all add: yields_def)

lemma yields_bind:
  "yields P m \<Longrightarrow> (\<And>a. P a \<Longrightarrow> yields Q (f a)) \<Longrightarrow> yields Q (res_bind m f)"
  by (cases m) simp_all

lemma yields_weaken: "yields P m \<Longrightarrow> (\<And>a. P a \<Longrightarrow> Q a) \<Longrightarrow> yields Q m"
  by (simp add: yields_def)

lemma yields_cases:
  assumes "yields Q m"
  obtains a where "m = Ok a" "Q a" | "m = Err ()"
  using assms by (cases m) auto

section \<open>Strings and numbers\<close>

lemma from_utf8_returns: "from_utf8 s \<noteq> Panic"
proof -
  have d: "decode1 s \<noteq> Panic" for s
    by (simp add: decode1_def split: list.split)
  have "utf8_scan p s \<noteq> Panic" for p
  proof (induction p s rule: utf8_scan.induct)
    case (1 p s)
    show ?case
    proof (cases "s = [] \<or> (\<exists>e. decode1 s = Err e)")
      case True
      then show ?thesis by (auto simp: utf8_scan.simps [of p s])
    next
      case False
      then obtain c w where w: "decode1 s = Ok (c, w)" using d [of s] by (cases "decode1 s") auto
      show ?thesis
        using 1 [OF _ w refl] False w
        by (cases "utf8_scan (p + w) (drop w s)") (auto simp: utf8_scan.simps [of p s])
    qed
  qed
  then show ?thesis by (simp add: from_utf8_def)
qed

lemma json_str_yields: "a \<le> b \<Longrightarrow> b \<le> length bytes \<Longrightarrow> yields (\<lambda>_. True) (json_str bytes a b)"
  using from_utf8_returns [of "take (b - a) (drop a bytes)"]
  by (auto simp: json_str_def vslice_def split: res.split)

lemma checked_i64_yields: "yields (\<lambda>w. w = v \<and> i64_min \<le> v \<and> v \<le> i64_max) (checked_i64 v)"
  by (simp add: checked_i64_def)

lemma int_parse_yields: "yields well_formed (int_parse cs)"
proof -
  have digits: "yields well_formed (parse_digits neg ds)" for neg ds
  proof (cases "ds = [] \<or> \<not> list_all is_digit ds")
    case True
    then show ?thesis by (auto simp: parse_digits_def)
  next
    case False
    then show ?thesis using parse_digits_ok [of ds neg] by auto
  qed
  then show ?thesis by (simp add: int_parse_def split: list.split)
qed

lemma json_take_bound:
  assumes "off \<le> length bytes" "json_take bytes c off = (b, off')"
  shows "off \<le> off' \<and> off' \<le> length bytes \<and> (b \<longrightarrow> off' = Suc off)"
  using assms by (auto simp: json_take_def dest: json_peek_bound split: if_splits)

lemma whitespace_bound:
  "off \<le> length bytes \<Longrightarrow> off \<le> json_whitespace bytes off \<and> json_whitespace bytes off \<le> length bytes"
  using skip_bytes_bound [of off is_json_space bytes] by (simp add: json_whitespace_def)

lemma consume_yields: "yields (\<lambda>off'. off' = Suc off \<and> off' \<le> length bytes) (json_consume bytes c off)"
  by (auto simp: json_consume_def dest: json_peek_bound split: option.split)

lemma quad_yields: "yields (\<lambda>(v, off'). off < off' \<and> off' \<le> length bytes) (hex_quad bytes off)"
proof -
  have hex: "hex_value c = Some d \<Longrightarrow> d < 16" for c d by (auto simp: hex_value_def split: if_splits)
  have le: "\<not> u32_max < v * 16 + d" if "\<not> u32_max < v * 16" "d < 16" for v d :: nat
    using that unfolding u32_max_def by presburger
  have "quad_step bytes s \<noteq> Panic" for s
    by (cases s) (auto simp: quad_step_def hex le split: option.split)
  then have step: "yields (\<lambda>(v, off'). off' = Suc off \<and> off < length bytes) (quad_step bytes (v, off))" for v off
    using quad_step_bound [of bytes v off] by (auto simp: yields_def)
  have "[0..<4] = [0, 1, 2, 3 :: nat]" by (simp add: upt_rec)
  then show ?thesis unfolding hex_quad_def
    by (simp, intro yields_bind [OF step]) (auto split: prod.splits intro!: yields_bind [OF step])
qed

lemma unicode_escape_returns: "unicode_escape bytes off \<noteq> Panic"
proof -
  have "yields (\<lambda>_. True) (unicode_escape bytes off)"
    unfolding unicode_escape_def
    by (auto intro!: yields_bind [OF quad_yields] yields_bind [OF consume_yields]
        yields_bind [where P = "\<lambda>_. True"] split: prod.splits option.splits)
  then show ?thesis by (simp add: yields_def)
qed

lemma json_escape_returns: "json_escape bytes off out \<noteq> Panic"
  using unicode_escape_returns [of bytes "Suc off"]
  by (cases "unicode_escape bytes (Suc off)") (auto simp: json_escape_def split: option.splits prod.splits)

lemma json_chars_returns: "json_chars bytes off out \<noteq> Panic"
proof (induction bytes off out rule: json_chars.induct)
  case (1 bytes off out)
  show ?case
  proof (cases "json_peek bytes off")
    case None
    then show ?thesis by (simp add: json_chars.simps [of bytes off out])
  next
    case (Some b)
    note IH = 1 [OF Some]
    note unfold = json_chars.simps [of bytes off out]
    consider "b = CHR 0x22" | "b = CHR 0x5C" | "b \<noteq> CHR 0x22" "b \<noteq> CHR 0x5C" by blast
    then show ?thesis
    proof cases
      case 2
      with Some IH(1) json_escape_returns [of bytes "Suc off" out] show ?thesis
        by (subst unfold) (auto split: res.splits)
    next
      case 3
      with Some IH(2,3) show ?thesis
        by (subst unfold) (auto split: res.splits list.splits)
    qed (use Some in \<open>simp add: unfold\<close>)
  qed
qed

lemma string_yields: "yields (\<lambda>(s, off'). utf8_valid s \<and> off < off' \<and> off' \<le> length bytes) (json_string bytes off)"
proof -
  have "json_string bytes off \<noteq> Panic"
    using json_chars_returns by (auto simp: json_string_def json_consume_def split: option.split)
  then show ?thesis by (auto simp: yields_def dest: json_string_valid)
qed

lemma integer_part_yields: "yields (\<lambda>e. off < e \<and> e \<le> length bytes) (integer_part bytes off)"
  using skip_bytes_bound [of "Suc off" is_json_digit bytes]
  by (auto simp: integer_part_def Suc_le_eq dest!: json_peek_bound split: option.split)

lemma fraction_yields:
  assumes "off \<le> length bytes"
  shows "yields (\<lambda>(fraction, e). off \<le> e \<and> e \<le> length bytes \<and>
    (case fraction of None \<Rightarrow> True | Some (a, b) \<Rightarrow> a \<le> b \<and> b \<le> length bytes)) (json_fraction bytes off)"
proof -
  obtain dot start where t: "json_take bytes (CHR ''.'') off = (dot, start)" by fastforce
  note start = json_take_bound [OF assms t]
  then show ?thesis
    using skip_bytes_bound [of start is_json_digit bytes] assms by (auto simp: json_fraction_def t Let_def)
qed

lemma exponent_digits_yields:
  "off \<le> length bytes \<Longrightarrow> yields (\<lambda>(v, e). off \<le> e \<and> e \<le> length bytes) (exponent_digits bytes v off)"
proof (induction bytes v off rule: exponent_digits.induct)
  case (1 bytes v off)
  show ?case
  proof (cases "json_peek bytes off")
    case (Some c)
    note below = json_peek_bound [OF Some]
    show ?thesis
    proof (cases "is_json_digit c")
      case True
      have "yields (\<lambda>_. True) (res_bind (checked_i64 (v * 10)) (\<lambda>v. checked_i64 (v + int (byte c - 48))))"
        by (simp add: checked_i64_def)
      then show ?thesis
      proof (cases rule: yields_cases)
        case (1 w)
        then show ?thesis
          using "1.IH" [OF Some True 1(1)] below Some True
          by (auto simp: exponent_digits.simps [of bytes v off] elim!: yields_weaken)
      next
        case 2
        then show ?thesis using Some True by (simp add: exponent_digits.simps [of bytes v off])
      qed
    qed (use 1 Some in \<open>simp add: exponent_digits.simps [of bytes v off]\<close>)
  qed (use 1 in \<open>simp add: exponent_digits.simps [of bytes v off]\<close>)
qed

lemma exponent_yields:
  assumes "off \<le> length bytes"
  shows "yields (\<lambda>(v, e). off \<le> e \<and> e \<le> length bytes) (json_exponent bytes off)"
proof (cases "json_peek bytes off \<in> {Some (CHR ''e''), Some (CHR ''E'')}")
  case True
  then have below: "Suc off \<le> length bytes" by (auto dest: json_peek_bound)
  obtain minus o1 where t1: "json_take bytes (CHR ''-'') (Suc off) = (minus, o1)" by fastforce
  obtain plus o2 where t2: "json_take bytes (CHR ''+'') o1 = (plus, o2)" by fastforce
  from json_take_bound [OF below t1] have o1: "off \<le> o1" "o1 \<le> length bytes" by simp_all
  from json_take_bound [OF o1(2) t2] have o2: "o1 \<le> o2" "o2 \<le> length bytes" by simp_all
  define o3 where "o3 = (if minus then o1 else o2)"
  have o3: "off \<le> o3" "o3 \<le> length bytes" using o1 o2 by (simp_all add: o3_def)
  show ?thesis
    unfolding json_exponent_def if_P [OF True] t1 Let_def prod.case t2 snd_conv o3_def [symmetric]
    using o3 by (auto simp: checked_i64_def intro!: yields_bind [OF exponent_digits_yields [OF o3(2)]])
qed (use assms in \<open>simp add: json_exponent_def\<close>)

lemma number_from_yields:
  assumes "digits_start \<le> integer_end" "integer_end \<le> length bytes" "start < off" "off \<le> length bytes"
    and "case fraction of None \<Rightarrow> True | Some (a, b) \<Rightarrow> a \<le> b \<and> b \<le> length bytes"
  shows "yields (\<lambda>(n, e). number_ok n \<and> e = off)
    (number_from bytes start neg digits_start integer_end fraction explicit off)"
proof -
  have part: "yields (\<lambda>_. True) (case fraction of None \<Rightarrow> Ok [] | Some (a, b) \<Rightarrow> json_str bytes a b)"
    using assms(5) json_str_yields by (auto split: option.split)
  have count: "yields (\<lambda>_. True)
      (case fraction of None \<Rightarrow> Ok 0 | Some (a, b) \<Rightarrow> if b < a then Err () else checked_i64 (int (b - a)))"
    by (auto simp: checked_i64_def split: option.split)
  show ?thesis
    unfolding number_from_def
    apply (rule yields_bind [OF count])
    apply (rule yields_bind [OF checked_i64_yields])
    apply (rule yields_bind [OF json_str_yields [OF assms(1,2)]])
    apply (rule yields_bind [OF part])
    apply (rule yields_bind [OF int_parse_yields])
    apply (rule yields_bind [OF json_str_yields])
      apply (use assms(3,4) in \<open>simp_all add: number_ok_def\<close>)
    done
qed

lemma number_yields:
  assumes "off \<le> length bytes"
  shows "yields (\<lambda>(n, e). number_ok n \<and> off < e \<and> e \<le> length bytes) (json_number_at bytes off)"
proof -
  obtain neg start where t: "json_take bytes (CHR ''-'') off = (neg, start)" by fastforce
  note start = json_take_bound [OF assms t]
  show ?thesis
    unfolding json_number_at_def t Let_def prod.case
    apply (rule yields_bind [OF integer_part_yields])
    apply (rule yields_bind [OF fraction_yields], simp, clarify)
    apply (rule yields_bind [OF exponent_yields], simp, clarify)
    apply (rule yields_weaken [OF number_from_yields])
    using start apply auto
    done
qed

section \<open>Ordered maps\<close>

abbreviation key_less :: "string \<Rightarrow> string \<Rightarrow> bool" where
  "key_less k l \<equiv> compare_lex (map byte k) (map byte l) = Less"

lemma compare_lex_swap: "compare_lex xs ys = Greater \<longleftrightarrow> compare_lex ys xs = Less"
  by (induction xs ys rule: compare_lex.induct) auto

lemma compare_lex_Equal [simp]: "compare_lex xs ys = Equal \<longleftrightarrow> xs = ys"
  by (induction xs ys rule: compare_lex.induct) auto

lemma compare_lex_refl [simp]: "compare_lex xs xs = Equal"
  by simp

lemma compare_lex_trans: "compare_lex xs ys = Less \<Longrightarrow> compare_lex ys zs = Less \<Longrightarrow> compare_lex xs zs = Less"
proof (induction xs ys arbitrary: zs rule: compare_lex.induct)
  case (2 y ys)
  then show ?case by (cases zs) auto
next
  case (4 x xs y ys)
  then show ?case by (cases zs) (auto split: if_splits)
qed auto

lemma map_byte_inject [simp]: "map byte s = map byte t \<longleftrightarrow> s = t"
  by (simp add: inj_map_eq_map inj_on_def)

definition keys_sorted :: "(string \<times> 'a) list \<Rightarrow> bool" where
  "keys_sorted kvs \<longleftrightarrow> sorted_wrt key_less (map fst kvs)"

lemma map_insert_set: "set (btree_insert k v kvs) \<subseteq> insert (k, v) (set kvs)"
  by (induction kvs) (auto split: ordering.splits prod.splits)

lemma map_insert_keys: "fst ` set (btree_insert k v kvs) \<subseteq> insert k (fst ` set kvs)"
  using map_insert_set by fastforce

lemma map_insert_sorted: "keys_sorted kvs \<Longrightarrow> keys_sorted (btree_insert k v kvs)"
proof (induction kvs)
  case (Cons e kvs)
  obtain k' v' where e: "e = (k', v')" by force
  have tail: "keys_sorted kvs" "\<forall>l \<in> fst ` set kvs. key_less k' l"
    using Cons.prems by (simp_all add: keys_sorted_def e)
  show ?case
  proof (cases "compare_lex (map byte k) (map byte k')")
    case Less
    then have "\<forall>l \<in> fst ` set kvs. key_less k l" using tail(2) compare_lex_trans by blast
    with Less Cons.prems show ?thesis by (simp add: e keys_sorted_def)
  next
    case Equal
    with Cons.prems show ?thesis by (simp add: e keys_sorted_def)
  next
    case Greater
    then have "key_less k' k" by (simp add: compare_lex_swap)
    with tail(2) have "\<forall>l \<in> fst ` set (btree_insert k v kvs). key_less k' l"
      using map_insert_keys by fastforce
    with Greater Cons.IH [OF tail(1)] show ?thesis by (simp add: e keys_sorted_def)
  qed
qed (simp add: keys_sorted_def)

lemma map_insert_last:
  assumes "\<forall>l \<in> fst ` set kvs. key_less l k"
  shows "btree_insert k v kvs = kvs @ [(k, v)]"
  using assms
proof (induction kvs)
  case (Cons e kvs)
  obtain k' v' where e: "e = (k', v')" by force
  have "compare_lex (map byte k) (map byte k') = Greater"
    using Cons.prems by (simp add: e compare_lex_swap)
  with Cons show ?case by (simp add: e)
qed simp

section \<open>Trees and their measures\<close>

fun node_ok :: "json_node \<Rightarrow> bool" where
  "node_ok (JString s) = utf8_valid s"
| "node_ok (JNumber n) = number_ok n"
| "node_ok (JArray vs) = (\<forall>v \<in> set vs. node_ok v)"
| "node_ok (JObject kvs) = (keys_sorted kvs \<and> (\<forall>kv \<in> set kvs. utf8_valid (fst kv) \<and> node_ok (snd kv)))"
| "node_ok _ = True"

text \<open>How many values a tree has, and how many containers its deepest value is in.\<close>

fun node_size :: "json_node \<Rightarrow> nat" where
  "node_size (JArray vs) = Suc (sum_list (map node_size vs))"
| "node_size (JObject kvs) = Suc (sum_list (map (\<lambda>kv. node_size (snd kv)) kvs))"
| "node_size _ = 1"

fun node_height :: "json_node \<Rightarrow> nat" where
  "node_height (JArray vs) = foldr (\<lambda>v m. max (Suc (node_height v)) m) vs 0"
| "node_height (JObject kvs) = foldr (\<lambda>kv m. max (Suc (node_height (snd kv))) m) kvs 0"
| "node_height _ = 0"

lemma fold_height_le: "foldr (\<lambda>v m. max (Suc (f v)) m) vs 0 \<le> n \<longleftrightarrow> (\<forall>v \<in> set vs. f v < n)"
  by (induction vs) auto

abbreviation keeps :: "nat option \<Rightarrow> nat \<Rightarrow> bool" where
  "keeps limit n \<equiv> \<not> over limit n"

lemma keeps_mono: "keeps limit n \<Longrightarrow> m \<le> n \<Longrightarrow> keeps limit m"
  by (auto simp: over_def split: option.splits)

lemma keeps_height:
  "keeps limit (k + node_height (JArray vs)) \<longleftrightarrow> keeps limit k \<and> (\<forall>v \<in> set vs. keeps limit (Suc k + node_height v))"
  "keeps limit (k + node_height (JObject kvs)) \<longleftrightarrow> keeps limit k \<and> (\<forall>kv \<in> set kvs. keeps limit (Suc k + node_height (snd kv)))"
proof -
  have gen: "keeps limit (k + foldr (\<lambda>v m. max (Suc (f v)) m) xs 0) \<longleftrightarrow>
      keeps limit k \<and> (\<forall>x \<in> set xs. keeps limit (Suc k + f x))" for f :: "'x \<Rightarrow> nat" and xs
  proof (cases limit)
    case (Some l)
    have "k + foldr (\<lambda>v m. max (Suc (f v)) m) xs 0 \<le> l \<longleftrightarrow> k \<le> l \<and> foldr (\<lambda>v m. max (Suc (f v)) m) xs 0 \<le> l - k"
      by linarith
    also have "\<dots> \<longleftrightarrow> k \<le> l \<and> (\<forall>x \<in> set xs. Suc k + f x \<le> l)" unfolding fold_height_le by auto
    finally show ?thesis by (simp only: Some over_def option.case not_less)
  qed (simp add: over_def)
  show "keeps limit (k + node_height (JArray vs)) \<longleftrightarrow> keeps limit k \<and> (\<forall>v \<in> set vs. keeps limit (Suc k + node_height v))"
    "keeps limit (k + node_height (JObject kvs)) \<longleftrightarrow> keeps limit k \<and> (\<forall>kv \<in> set kvs. keeps limit (Suc k + node_height (snd kv)))"
    using gen by simp_all
qed

section \<open>The loop\<close>

fun frame_values :: "container_frame \<Rightarrow> json_node list" where
  "frame_values (ArrayFrame vs) = vs"
| "frame_values (ObjectFrame kvs key) = map snd kvs"

fun frame_ok :: "container_frame \<Rightarrow> bool" where
  "frame_ok (ArrayFrame vs) = (\<forall>v \<in> set vs. node_ok v)"
| "frame_ok (ObjectFrame kvs key) =
    (keys_sorted kvs \<and> (\<forall>kv \<in> set kvs. utf8_valid (fst kv) \<and> node_ok (snd kv)) \<and> utf8_valid key)"

definition frame_size :: "container_frame \<Rightarrow> nat" where
  "frame_size f = Suc (sum_list (map node_size (frame_values f)))"

text \<open>A frame with \<open>k\<close> frames below it is at level \<open>k\<close>, and its values are one deeper.\<close>

fun frames_keep :: "nat option \<Rightarrow> container_frame list \<Rightarrow> bool" where
  "frames_keep limit [] = True"
| "frames_keep limit (f # fs) =
    (keeps limit (length fs) \<and> (\<forall>v \<in> set (frame_values f). keeps limit (Suc (length fs) + node_height v)) \<and>
     frames_keep limit fs)"

definition stack_ok :: "nat option \<Rightarrow> nat option \<Rightarrow> container_frame list \<Rightarrow> nat \<Rightarrow> bool" where
  "stack_ok max_depth max_nodes fs spent \<longleftrightarrow>
    list_all frame_ok fs \<and> frames_keep max_depth fs \<and> keeps max_nodes spent \<and> spent \<le> u64_max"

fun decode_inv :: "string \<Rightarrow> nat option \<Rightarrow> nat option \<Rightarrow> decode_state \<Rightarrow> bool" where
  "decode_inv bytes max_depth max_nodes (Complete v, fs, off, spent) =
    (off \<le> length bytes \<and> stack_ok max_depth max_nodes fs spent \<and> node_ok v \<and>
     keeps max_depth (length fs + node_height v) \<and> node_size v + sum_list (map frame_size fs) \<le> spent)"
| "decode_inv bytes max_depth max_nodes (Container f, fs, off, spent) =
    (off \<le> length bytes \<and> stack_ok max_depth max_nodes (f # fs) spent \<and>
     sum_list (map frame_size (f # fs)) \<le> spent)"

fun decode_weight :: "string \<Rightarrow> decode_state \<Rightarrow> nat" where
  "decode_weight bytes (start, fs, off, spent) = length bytes - off"

definition decode_post :: "string \<Rightarrow> nat option \<Rightarrow> nat option \<Rightarrow> (json_node \<times> nat) arith \<Rightarrow> bool" where
  "decode_post bytes max_depth max_nodes = yields (\<lambda>(v, off). off \<le> length bytes \<and> node_ok v \<and>
    keeps max_depth (node_height v) \<and> keeps max_nodes (node_size v) \<and> node_size v \<le> u64_max)"

definition fresh_start :: "value_start \<Rightarrow> bool" where
  "fresh_start start \<longleftrightarrow> (case start of
     Complete v \<Rightarrow> node_ok v \<and> node_height v = 0 \<and> node_size v = 1
   | Container f \<Rightarrow> frame_ok f \<and> frame_values f = [])"

lemma literal_yields:
  assumes "word \<noteq> []"
  shows "yields (\<lambda>(w, e). w = v \<and> off < e \<and> e \<le> length bytes) (json_literal bytes word v off)"
  using assms by (auto simp: json_literal_def vslice_def)

lemma start_at_yields:
  assumes "off \<le> length bytes"
  shows "yields (\<lambda>(start, e). fresh_start start \<and> off < e \<and> e \<le> length bytes) (start_at bytes off)"
proof -
  define w where "w = json_whitespace bytes off"
  have w: "off \<le> w" "w \<le> length bytes" using whitespace_bound [OF assms] by (simp_all add: w_def)
  show ?thesis
  proof (cases "json_peek bytes w")
    case (Some c)
    have le: "Suc w \<le> length bytes" using json_peek_bound [OF Some] by simp
    have opened: "json_consume bytes c w = Ok (Suc w)" using Some by (simp add: json_consume_def)
    define x where "x = json_whitespace bytes (Suc w)"
    have x: "Suc w \<le> x" "x \<le> length bytes" using whitespace_bound [OF le] by (simp_all add: x_def)
    have lit: "yields (\<lambda>(start, e). fresh_start start \<and> off < e \<and> e \<le> length bytes)
        (res_bind (json_literal bytes word v w) (\<lambda>(v, e). Ok (Complete v, e)))"
      if "word \<noteq> []" "fresh_start (Complete v)" for word v
      by (rule yields_bind [OF literal_yields [OF that(1)]]) (use that(2) w in auto)
    have num: "yields (\<lambda>(start, e). fresh_start start \<and> off < e \<and> e \<le> length bytes)
        (res_bind (json_number_at bytes w) (\<lambda>(n, e). Ok (Complete (JNumber n), e)))"
      by (rule yields_bind [OF number_yields [OF w(2)]]) (use w in \<open>auto simp: fresh_start_def\<close>)
    have str: "yields (\<lambda>(start, e). fresh_start start \<and> off < e \<and> e \<le> length bytes)
        (res_bind (json_string bytes w) (\<lambda>(s, e). Ok (Complete (JString s), e)))"
      by (rule yields_bind [OF string_yields]) (use w in \<open>auto simp: fresh_start_def\<close>)
    have arr: "yields (\<lambda>(start, e). fresh_start start \<and> off < e \<and> e \<le> length bytes)
        (let (closed, e) = json_take bytes (CHR '']'') x in
         Ok (if closed then Complete (JArray []) else Container (ArrayFrame []), e))"
      using json_take_bound [OF x(2)] w x by (fastforce simp: fresh_start_def Let_def split: prod.split)
    have obj: "yields (\<lambda>(start, e). fresh_start start \<and> off < e \<and> e \<le> length bytes)
        (let (closed, e) = json_take bytes (CHR ''}'') x in
         if closed then Ok (Complete (JObject []), e)
         else res_bind (json_string bytes e) (\<lambda>(key, e).
              res_bind (json_consume bytes (CHR '':'') (json_whitespace bytes e)) (\<lambda>e.
                Ok (Container (ObjectFrame [] key), e))))"
    proof -
      obtain closed e where t: "json_take bytes (CHR ''}'') x = (closed, e)" by fastforce
      note e = json_take_bound [OF x(2) t]
      show ?thesis
      proof (cases closed)
        case True
        then show ?thesis using t e w x by (simp add: fresh_start_def keys_sorted_def)
      next
        case False
        have "yields (\<lambda>(start, e). fresh_start start \<and> off < e \<and> e \<le> length bytes)
          (res_bind (json_string bytes e) (\<lambda>(key, e).
              res_bind (json_consume bytes (CHR '':'') (json_whitespace bytes e)) (\<lambda>e.
                Ok (Container (ObjectFrame [] key), e))))"
        proof (rule yields_bind [OF string_yields], clarify)
          fix key e' assume k: "utf8_valid key" "e < e'" "e' \<le> length bytes"
          then show "yields (\<lambda>(start, e). fresh_start start \<and> off < e \<and> e \<le> length bytes)
            (res_bind (json_consume bytes (CHR '':'') (json_whitespace bytes e')) (\<lambda>e.
                Ok (Container (ObjectFrame [] key), e)))"
            using whitespace_bound [OF k(3)] e w x
            by (intro yields_bind [OF consume_yields]) (auto simp: fresh_start_def keys_sorted_def)
        qed
        then show ?thesis using False t by simp
      qed
    qed
    show ?thesis
      unfolding start_at_def Let_def w_def [symmetric] Some option.case
      using lit num str arr obj opened
      by (auto simp: fresh_start_def x_def Let_def)
  qed (simp add: start_at_def Let_def flip: w_def)
qed

lemma start_next_cases:
  assumes off: "off \<le> length bytes" and stack: "stack_ok max_depth max_nodes fs spent"
    and spent: "sum_list (map frame_size fs) \<le> spent"
  obtains start e where "start_next bytes max_depth max_nodes fs off spent = Inl (start, fs, e, Suc spent)"
      "off < e" "decode_inv bytes max_depth max_nodes (start, fs, e, Suc spent)"
    | "start_next bytes max_depth max_nodes fs off spent = Inr (Err ())"
proof -
  show ?thesis
  proof (cases "keeps max_depth (length fs) \<and> Suc spent \<le> u64_max \<and> keeps max_nodes (Suc spent)")
    case False
    then have "start_next bytes max_depth max_nodes fs off spent = Inr (Err ())"
      by (auto simp: start_next_def start_value_def checked_u64_def)
    then show ?thesis by (rule that(2))
  next
    case True
    from start_at_yields [OF off] show ?thesis
    proof (cases rule: yields_cases)
      case (1 a)
      obtain start e where a: "a = (start, e)" by force
      have "start_next bytes max_depth max_nodes fs off spent = Inl (start, fs, e, Suc spent)"
        using 1 a True by (simp add: start_next_def start_value_def checked_u64_def)
      moreover have "decode_inv bytes max_depth max_nodes (start, fs, e, Suc spent)"
        using 1(2) a True stack spent
        by (cases start) (auto simp: fresh_start_def stack_ok_def frame_size_def)
      ultimately show ?thesis using that(1) 1(2) a by auto
    next
      case 2
      then have "start_next bytes max_depth max_nodes fs off spent = Inr (Err ())"
        using True by (simp add: start_next_def start_value_def checked_u64_def)
      then show ?thesis by (rule that(2))
    qed
  qed
qed

text \<open>The value that goes into a frame is counted in the frame.\<close>

lemma map_insert_size:
  "sum_list (map (\<lambda>kv. node_size (snd kv)) (btree_insert k v kvs)) \<le> node_size v + sum_list (map (\<lambda>kv. node_size (snd kv)) kvs)"
  by (induction kvs) (auto split: ordering.splits prod.splits)

lemma frame_add_ok:
  assumes "frame_ok f" "node_ok v"
  shows "frame_ok (frame_add f v)"
proof (cases f)
  case (ObjectFrame kvs key)
  have "utf8_valid (fst kv) \<and> node_ok (snd kv)" if "kv \<in> set (btree_insert key v kvs)" for kv
    using that map_insert_set [of key v kvs] assms ObjectFrame by auto
  then show ?thesis using assms ObjectFrame by (simp add: map_insert_sorted)
qed (use assms in auto)

lemma frame_add_values: "set (frame_values (frame_add f v)) \<subseteq> insert v (set (frame_values f))"
proof (cases f)
  case (ObjectFrame kvs key)
  then show ?thesis using map_insert_set [of key v kvs] by force
qed auto

lemma frame_add_size: "frame_size (frame_add f v) \<le> node_size v + frame_size f"
  by (cases f) (auto simp: frame_size_def comp_def map_insert_size)

lemma frame_node_measures:
  "node_size (frame_node f) = frame_size f"
  "frame_ok f \<Longrightarrow> node_ok (frame_node f)"
  "keeps limit (k + node_height (frame_node f)) \<longleftrightarrow>
    keeps limit k \<and> (\<forall>v \<in> set (frame_values f). keeps limit (Suc k + node_height v))"
  by (cases f; auto simp: frame_size_def comp_def keeps_height simp del: node_height.simps)+

lemma stack_add:
  assumes "stack_ok max_depth max_nodes (f # fs) spent" "node_ok v"
    "keeps max_depth (Suc (length fs) + node_height v)"
  shows "stack_ok max_depth max_nodes (frame_add f v # fs) spent"
  using assms frame_add_ok [of f v] frame_add_values [of f v] by (auto simp: stack_ok_def)

lemma frame_key_yields:
  assumes "off \<le> length bytes" "frame_ok f"
  shows "yields (\<lambda>(g, e). off \<le> e \<and> e \<le> length bytes \<and> frame_ok g \<and> frame_values g = frame_values f)
    (frame_key bytes f off)"
proof (cases f)
  case (ObjectFrame kvs key)
  note space = whitespace_bound [OF assms(1)]
  show ?thesis
    unfolding frame_key_def ObjectFrame container_frame.case
  proof (rule yields_bind [OF string_yields], clarify)
    fix s e assume s: "utf8_valid s" "json_whitespace bytes off < e" "e \<le> length bytes"
    show "yields (\<lambda>(g, e). off \<le> e \<and> e \<le> length bytes \<and> frame_ok g \<and> frame_values g = frame_values (ObjectFrame kvs key))
      (res_bind (json_consume bytes (CHR '':'') (json_whitespace bytes e)) (\<lambda>off. Ok (ObjectFrame kvs s, off)))"
      using whitespace_bound [OF s(3)] space s assms(2) ObjectFrame
      by (intro yields_bind [OF consume_yields]) auto
  qed
qed (use assms in \<open>simp add: frame_key_def\<close>)

lemma decode_step_cases:
  assumes "decode_inv bytes max_depth max_nodes s"
  obtains s' where "decode_step bytes max_depth max_nodes s = Inl s'" "decode_inv bytes max_depth max_nodes s'"
      "decode_weight bytes s' < decode_weight bytes s"
    | r where "decode_step bytes max_depth max_nodes s = Inr r" "decode_post bytes max_depth max_nodes r"
proof -
  obtain start fs off spent where s: "s = (start, fs, off, spent)" by (cases s) auto
  show ?thesis
  proof (cases start)
    case (Container f)
    with assms s have *: "off \<le> length bytes" "stack_ok max_depth max_nodes (f # fs) spent"
      "sum_list (map frame_size (f # fs)) \<le> spent" by simp_all
    then show ?thesis
    proof (cases rule: start_next_cases)
      case (1 start' e)
      then have "e \<le> length bytes" by (cases start') auto
      with 1 show ?thesis using that(1) s Container by auto
    next
      case 2
      then show ?thesis using that(2) [of "Err ()"] s Container by (simp add: decode_post_def)
    qed
  next
    case (Complete v)
    with assms s have inv: "off \<le> length bytes" "stack_ok max_depth max_nodes fs spent" "node_ok v"
      "keeps max_depth (length fs + node_height v)" "node_size v + sum_list (map frame_size fs) \<le> spent" by simp_all
    show ?thesis
    proof (cases fs)
      case Nil
      have "keeps max_nodes (node_size v)" "node_size v \<le> u64_max"
        using inv(2,5) keeps_mono [of max_nodes spent "node_size v"] by (auto simp: stack_ok_def)
      then show ?thesis using that(2) [of "Ok (v, off)"] s Complete Nil inv by (simp add: decode_post_def)
    next
      case (Cons f gs)
      define g where "g = frame_add f v"
      have g: "stack_ok max_depth max_nodes (g # gs) spent" "sum_list (map frame_size (g # gs)) \<le> spent"
        using stack_add [of max_depth max_nodes f gs spent v] inv Cons frame_add_size [of f v] by (auto simp: g_def)
      define w where "w = json_whitespace bytes off"
      have w: "off \<le> w" "w \<le> length bytes" using whitespace_bound [OF inv(1)] by (simp_all add: w_def)
      obtain closed e where t: "json_take bytes (frame_close g) w = (closed, e)" by fastforce
      note e = json_take_bound [OF w(2) t]
      show ?thesis
      proof (cases closed)
        case True
        have "decode_inv bytes max_depth max_nodes (Complete (frame_node g), gs, e, spent)"
          using g e True frame_node_measures [where f = g] by (auto simp: stack_ok_def)
        moreover have "decode_weight bytes (Complete (frame_node g), gs, e, spent) < decode_weight bytes s"
          using e w True s by (simp, linarith)
        ultimately show ?thesis using that(1) s Complete Cons t True by (simp add: g_def w_def)
      next
        case False
        have "yields (\<lambda>(h, x). e < x \<and> x \<le> length bytes \<and> frame_ok h \<and> frame_values h = frame_values g)
          (res_bind (json_consume bytes (CHR '','') e) (frame_key bytes g))"
          using g(1) by (intro yields_bind [OF consume_yields] yields_weaken [OF frame_key_yields])
            (auto simp: stack_ok_def)
        then show ?thesis
        proof (cases rule: yields_cases)
          case 2
          then show ?thesis using that(2) [of "Err ()"] s Complete Cons t False
            by (simp add: decode_post_def flip: g_def w_def)
        next
          case (1 a)
          obtain h x where a: "a = (h, x)" by force
          have eq: "decode_step bytes max_depth max_nodes s = start_next bytes max_depth max_nodes (h # gs) x spent"
            using 1(1) a s Complete Cons t False by (simp del: res_bind_Ok flip: g_def w_def)
          have "stack_ok max_depth max_nodes (h # gs) spent" "sum_list (map frame_size (h # gs)) \<le> spent"
            "x \<le> length bytes" "e < x"
            using g 1(2) a by (auto simp: stack_ok_def frame_size_def)
          from start_next_cases [OF this(3,1,2)] show ?thesis
          proof cases
            case (1 start' y)
            moreover have "y \<le> length bytes" using 1(3) by (cases start') auto
            ultimately show ?thesis using that(1) [OF eq [THEN trans, OF 1(1)]] s e w \<open>e < x\<close> by auto
          next
            case 2
            then show ?thesis using that(2) [of "Err ()"] eq by (simp add: decode_post_def)
          qed
        qed
      qed
    qed
  qed
qed

interpretation decoder: loop_machine "decode_step bytes max_depth max_nodes" "decode_inv bytes max_depth max_nodes"
  "decode_weight bytes" "decode_post bytes max_depth max_nodes"
  by unfold_locales (metis decode_step_cases sum.inject sum.distinct(1))+


lemma json_parse_yields:
  "\<exists>r. json_parse bytes max_depth max_nodes = Some r \<and>
    yields (\<lambda>v. node_ok v \<and> keeps max_depth (node_height v) \<and> keeps max_nodes (node_size v) \<and> node_size v \<le> u64_max) r"
proof (cases "\<exists>cs. from_utf8 bytes = Ok cs \<and> keeps max_nodes 0")
  case False
  show ?thesis
  proof (cases "from_utf8 bytes")
    case (Ok cs)
    with False have "start_next bytes max_depth max_nodes [] 0 0 = Inr (Err ())"
      by (auto simp: start_next_def start_value_def checked_u64_def over_def split: option.splits)
    with Ok show ?thesis by (simp add: json_parse_def)
  qed (use from_utf8_returns [of bytes] in \<open>simp_all add: json_parse_def\<close>)
next
  case True
  then obtain cs where cs: "from_utf8 bytes = Ok cs" by blast
  have init: "0 \<le> length bytes" "stack_ok max_depth max_nodes [] 0" "sum_list (map frame_size []) \<le> 0"
    using True by (simp_all add: stack_ok_def)
  from start_next_cases [OF init] show ?thesis
  proof cases
    case (1 start e)
    from decoder.returns [OF 1(3)] obtain r where r: "run (decode_step bytes max_depth max_nodes) (start, [], e, Suc 0) = Some r"
      "decode_post bytes max_depth max_nodes r" by auto
    from r(2) have "yields (\<lambda>v. node_ok v \<and> keeps max_depth (node_height v) \<and> keeps max_nodes (node_size v) \<and> node_size v \<le> u64_max)
      (res_bind r (\<lambda>(v, off). if json_whitespace bytes off = length bytes then Ok v else Err ()))"
      unfolding decode_post_def by (rule yields_bind) auto
    then show ?thesis using cs 1(1) r(1) by (simp add: json_parse_def)
  next
    case 2
    then show ?thesis using cs by (simp add: json_parse_def)
  qed
qed

end
