(* ===== verification/Hell_Json_Print.thy ===== *)
theory Hell_Json_Print
  imports Hell_Json_Decode
begin

text \<open>
  The text of a tree as a recursive function, and that the decoder of
  \<open>Hell_Json_Document\<close> reads it back as the same tree, each number with the same value.
\<close>

section \<open>The text of a tree\<close>

fun comma_separated :: "string list \<Rightarrow> string" where
  "comma_separated [] = []"
| "comma_separated (s # ss) = s @ concat (map (\<lambda>s. CHR '','' # s) ss)"

fun json_text :: "json_node \<Rightarrow> string" where
  "json_text JNull = ''null''"
| "json_text (JBool b) = (if b then ''true'' else ''false'')"
| "json_text (JString s) = string_text s"
| "json_text (JNumber n) = number_text n"
| "json_text (JArray vs) = ''['' @ comma_separated (map json_text vs) @ '']''"
| "json_text (JObject kvs) =
    ''{'' @ comma_separated (map (\<lambda>kv. string_text (fst kv) @ '':'' @ json_text (snd kv)) kvs) @ ''}''"

definition entry_text :: "string \<times> json_node \<Rightarrow> string" where
  "entry_text kv = string_text (fst kv) @ '':'' @ json_text (snd kv)"

fun json_numbers :: "json_node \<Rightarrow> json_number list" where
  "json_numbers (JNumber n) = [n]"
| "json_numbers (JArray vs) = concat (map json_numbers vs)"
| "json_numbers (JObject kvs) = concat (map (\<lambda>kv. json_numbers (snd kv)) kvs)"
| "json_numbers _ = []"

definition node_printable :: "json_node \<Rightarrow> bool" where
  "node_printable v \<longleftrightarrow> node_ok v \<and> (\<forall>n \<in> set (json_numbers v). i64_min < exponent10 n)"

lemma node_printable_simps [simp]:
  "node_printable (JString s) = utf8_valid s"
  "node_printable (JNumber n) = printable n"
  "node_printable (JArray vs) = (\<forall>v \<in> set vs. node_printable v)"
  "node_printable (JObject kvs) =
    (keys_sorted kvs \<and> (\<forall>kv \<in> set kvs. utf8_valid (fst kv) \<and> node_printable (snd kv)))"
  "node_printable JNull" "node_printable (JBool b)"
  by (auto simp: node_printable_def printable_def)

text \<open>The same tree up to the representation of its numbers.\<close>

inductive json_same :: "json_node \<Rightarrow> json_node \<Rightarrow> bool" where
  same_null: "json_same JNull JNull"
| same_bool: "json_same (JBool b) (JBool b)"
| same_string: "json_same (JString s) (JString s)"
| same_number: "number_value a = number_value b \<Longrightarrow> json_same (JNumber a) (JNumber b)"
| same_array: "list_all2 json_same vs ws \<Longrightarrow> json_same (JArray vs) (JArray ws)"
| same_object: "list_all2 (\<lambda>kv lw. fst kv = fst lw \<and> json_same (snd kv) (snd lw)) kvs lws \<Longrightarrow>
    json_same (JObject kvs) (JObject lws)"

lemma string_text_first: "utf8_valid s \<Longrightarrow> \<exists>u. string_text s = CHR 0x22 # u"
  by (auto simp: utf8_valid_def string_text_def)

definition opens_value :: "char \<Rightarrow> bool" where
  "opens_value c \<longleftrightarrow> \<not> is_json_space c \<and> c \<notin> {CHR '']'', CHR ''}'', CHR '','', CHR '':''}"

lemma json_text_first:
  assumes "node_printable v"
  shows "\<exists>c u. json_text v = c # u \<and> opens_value c"
proof (cases v)
  case (JString s)
  then show ?thesis using assms string_text_first [of s] by (auto simp: opens_value_def is_json_space_def)
next
  case (JNumber n)
  then obtain c u where "number_text n = c # u" "c = CHR ''-'' \<or> is_json_digit c"
    using assms number_text_first by auto
  then show ?thesis
    using JNumber by (auto simp: opens_value_def is_json_space_def is_json_digit_def is_digit_def)
qed (auto simp: opens_value_def is_json_space_def)

lemma whitespace_ahead:
  assumes "drop off bytes = c # t" "\<not> is_json_space c"
  shows "json_whitespace bytes off = off"
  using skip_ahead [of off bytes "[]" "c # t" is_json_space] assms by (simp add: json_whitespace_def)

lemma whitespace_end: "drop off bytes = [] \<Longrightarrow> json_whitespace bytes off = off"
  using skip_ahead [of off bytes "[]" "[]" is_json_space] by (simp add: json_whitespace_def)

lemma literal_ahead:
  assumes "drop off bytes = word @ t" "word \<noteq> []"
  shows "json_literal bytes word v off = Ok (v, off + length word)"
proof -
  obtain c u where "word = c # u" using assms(2) by (cases word) auto
  then have "off \<le> length bytes" using peek_ahead(3) [of off bytes c "u @ t"] assms(1) by simp
  from slice_ahead [OF this assms(1) refl] show ?thesis by (simp add: json_literal_def)
qed

section \<open>Reading a value\<close>

definition resume ::
  "string \<Rightarrow> nat option \<Rightarrow> nat option \<Rightarrow> container_frame list \<Rightarrow> nat \<Rightarrow> nat \<Rightarrow> (json_node \<times> nat) arith option" where
  "resume bytes max_depth max_nodes fs off spent =
    (case start_next bytes max_depth max_nodes fs off spent of
       Inl s \<Rightarrow> run (decode_step bytes max_depth max_nodes) s
     | Inr r \<Rightarrow> Some r)"

definition go_on ::
  "string \<Rightarrow> nat option \<Rightarrow> nat option \<Rightarrow> json_node \<Rightarrow> container_frame list \<Rightarrow> nat \<Rightarrow> nat \<Rightarrow> (json_node \<times> nat) arith option" where
  "go_on bytes max_depth max_nodes v fs off spent =
    run (decode_step bytes max_depth max_nodes) (Complete v, fs, off, spent)"

lemma resume_start:
  assumes "keeps max_depth (length fs)" "Suc spent \<le> u64_max" "keeps max_nodes (Suc spent)"
    and "start_at bytes off = Ok (start, e)"
  shows "resume bytes max_depth max_nodes fs off spent =
    (case start of
       Complete v \<Rightarrow> go_on bytes max_depth max_nodes v fs e (Suc spent)
     | Container f \<Rightarrow> resume bytes max_depth max_nodes (f # fs) e (Suc spent))"
proof (cases start)
  case (Complete v)
  then show ?thesis
    using assms by (simp add: resume_def go_on_def start_next_def start_value_def checked_u64_def)
next
  case (Container f)
  have "run (decode_step bytes max_depth max_nodes) (Container f, fs, e, Suc spent) =
      resume bytes max_depth max_nodes (f # fs) e (Suc spent)"
    by (subst run_unfold) (simp add: resume_def)
  then show ?thesis
    using assms Container by (simp add: resume_def [of _ _ _ fs] start_next_def start_value_def checked_u64_def)
qed

text \<open>What follows a completed value: the delimiter of its container, or a comma.\<close>

lemma go_on_close:
  assumes "drop off bytes = frame_close (frame_add f v) # t"
  shows "go_on bytes max_depth max_nodes v (f # fs) off spent =
    go_on bytes max_depth max_nodes (frame_node (frame_add f v)) fs (Suc off) spent"
proof -
  have "\<not> is_json_space (frame_close g)" for g by (cases g) (simp_all add: is_json_space_def)
  then have "json_whitespace bytes off = off" by (rule whitespace_ahead [OF assms])
  then show ?thesis
    unfolding go_on_def by (subst run_unfold) (simp add: Let_def take_ahead [OF assms])
qed

lemma go_on_comma:
  assumes "drop off bytes = CHR '','' # t" "frame_key bytes (frame_add f v) (Suc off) = Ok (g, e)"
  shows "go_on bytes max_depth max_nodes v (f # fs) off spent = resume bytes max_depth max_nodes (g # fs) e spent"
proof -
  have space: "json_whitespace bytes off = off"
    by (rule whitespace_ahead [OF assms(1)]) (simp add: is_json_space_def)
  have "CHR '','' \<noteq> frame_close h" for h by (cases h) simp_all
  then have "json_take bytes (frame_close (frame_add f v)) off = (False, off)"
    using assms(1) by (intro take_other) simp
  then show ?thesis
    unfolding go_on_def
    by (subst run_unfold) (simp add: Let_def space consume_ahead [OF assms(1)] assms(2) resume_def)
qed

text \<open>The reading of one value from the text it has, with the counts it needs.\<close>

definition reads :: "string \<Rightarrow> nat option \<Rightarrow> nat option \<Rightarrow> json_node \<Rightarrow> bool" where
  "reads bytes max_depth max_nodes v \<longleftrightarrow>
    (\<forall>off t fs spent. drop off bytes = json_text v @ t \<longrightarrow> ends_value t \<longrightarrow>
      keeps max_depth (length fs + node_height v) \<longrightarrow>
      keeps max_nodes (spent + node_size v) \<longrightarrow> spent + node_size v \<le> u64_max \<longrightarrow>
      (\<exists>w. json_same v w \<and> resume bytes max_depth max_nodes fs off spent =
        go_on bytes max_depth max_nodes w fs (off + length (json_text v)) (spent + node_size v)))"

lemma readsD:
  assumes "reads bytes max_depth max_nodes v" "drop off bytes = json_text v @ t" "ends_value t"
    and "keeps max_depth (length fs + node_height v)"
    and "keeps max_nodes (spent + node_size v)" "spent + node_size v \<le> u64_max"
  obtains w where "json_same v w" "resume bytes max_depth max_nodes fs off spent =
    go_on bytes max_depth max_nodes w fs (off + length (json_text v)) (spent + node_size v)"
  using assms unfolding reads_def by blast

text \<open>The elements of an array, after the ones that were read.\<close>

lemma elements_ahead:
  assumes "\<forall>v \<in> set (v # vs). reads bytes max_depth max_nodes v"
    and "drop off bytes = comma_separated (map json_text (v # vs)) @ CHR '']'' # t"
    and "\<forall>v \<in> set (v # vs). keeps max_depth (Suc (length fs) + node_height v)"
    and "keeps max_nodes (spent + sum_list (map node_size (v # vs)))"
    and "spent + sum_list (map node_size (v # vs)) \<le> u64_max"
  shows "\<exists>ws. list_all2 json_same (v # vs) ws \<and>
    resume bytes max_depth max_nodes (ArrayFrame acc # fs) off spent =
    go_on bytes max_depth max_nodes (JArray (acc @ ws)) fs
      (off + length (comma_separated (map json_text (v # vs))) + 1) (spent + sum_list (map node_size (v # vs)))"
  using assms
proof (induction vs arbitrary: v acc off spent)
  case Nil
  then have d: "drop off bytes = json_text v @ CHR '']'' # t" by simp
  from Nil obtain w where w: "json_same v w" "resume bytes max_depth max_nodes (ArrayFrame acc # fs) off spent =
      go_on bytes max_depth max_nodes w (ArrayFrame acc # fs) (off + length (json_text v)) (spent + node_size v)"
    using readsD [OF _ d, of max_depth max_nodes "ArrayFrame acc # fs" spent] by (auto simp: ends_value_def)
  have "drop (off + length (json_text v)) bytes = frame_close (frame_add (ArrayFrame acc) w) # t"
    using drop_ahead [OF d refl] by simp
  from go_on_close [OF this] w show ?case by (auto intro!: exI [of _ "[w]"])
next
  case (Cons v2 vs)
  let ?rest = "comma_separated (map json_text (v2 # vs)) @ CHR '']'' # t"
  have d: "drop off bytes = json_text v @ CHR '','' # ?rest" using Cons.prems(2) by simp
  have small: "keeps max_nodes (spent + node_size v)" "spent + node_size v \<le> u64_max"
    using keeps_mono [OF Cons.prems(4), of "spent + node_size v"] Cons.prems(5) by simp_all
  obtain w where w: "json_same v w" "resume bytes max_depth max_nodes (ArrayFrame acc # fs) off spent =
      go_on bytes max_depth max_nodes w (ArrayFrame acc # fs) (off + length (json_text v)) (spent + node_size v)"
    using readsD [OF _ d _ _ small, of max_depth "ArrayFrame acc # fs"] Cons.prems(1,3) by (auto simp: ends_value_def)
  note comma = drop_ahead [OF d refl]
  have step: "go_on bytes max_depth max_nodes w (ArrayFrame acc # fs) (off + length (json_text v)) (spent + node_size v) =
      resume bytes max_depth max_nodes (ArrayFrame (acc @ [w]) # fs) (Suc (off + length (json_text v))) (spent + node_size v)"
    by (rule go_on_comma [OF comma]) (simp add: frame_key_def)
  have "\<exists>ws. list_all2 json_same (v2 # vs) ws \<and>
    resume bytes max_depth max_nodes (ArrayFrame (acc @ [w]) # fs) (Suc (off + length (json_text v))) (spent + node_size v) =
    go_on bytes max_depth max_nodes (JArray ((acc @ [w]) @ ws)) fs
      (Suc (off + length (json_text v)) + length (comma_separated (map json_text (v2 # vs))) + 1)
      (spent + node_size v + sum_list (map node_size (v2 # vs)))"
    by (rule Cons.IH [OF _ peek_ahead(2) [OF comma]]) (use Cons.prems in \<open>simp_all add: add.assoc\<close>)
  then obtain ws where ws: "list_all2 json_same (v2 # vs) ws"
    "resume bytes max_depth max_nodes (ArrayFrame (acc @ [w]) # fs) (Suc (off + length (json_text v))) (spent + node_size v) =
    go_on bytes max_depth max_nodes (JArray ((acc @ [w]) @ ws)) fs
      (Suc (off + length (json_text v)) + length (comma_separated (map json_text (v2 # vs))) + 1)
      (spent + node_size v + sum_list (map node_size (v2 # vs)))" by blast
  show ?case
    by (rule exI [of _ "w # ws"]) (use w step ws in \<open>simp add: ac_simps\<close>)
qed

text \<open>A key with its colon, and the entries of an object.\<close>

lemma key_ahead:
  assumes "drop off bytes = string_text k @ CHR '':'' # t" "utf8_valid k" "utf8_valid bytes"
  shows "json_whitespace bytes off = off" "json_string bytes off = Ok (k, off + length (string_text k))"
    "json_whitespace bytes (off + length (string_text k)) = off + length (string_text k)"
    "json_consume bytes (CHR '':'') (off + length (string_text k)) = Ok (Suc (off + length (string_text k)))"
    "drop (Suc (off + length (string_text k))) bytes = t"
proof -
  note colon = drop_ahead [OF assms(1) refl]
  show "json_string bytes off = Ok (k, off + length (string_text k))" by (rule string_ahead [OF assms])
  show "json_whitespace bytes (off + length (string_text k)) = off + length (string_text k)"
    by (rule whitespace_ahead [OF colon]) (simp add: is_json_space_def)
  show "json_consume bytes (CHR '':'') (off + length (string_text k)) = Ok (Suc (off + length (string_text k)))"
    by (rule consume_ahead [OF colon])
  show "drop (Suc (off + length (string_text k))) bytes = t" by (rule peek_ahead(2) [OF colon])
  obtain u where "string_text k = CHR 0x22 # u" using string_text_first [OF assms(2)] by blast
  then show "json_whitespace bytes off = off"
    using whitespace_ahead [of off bytes "CHR 0x22"] assms(1) by (simp add: is_json_space_def)
qed

definition same_entry :: "string \<times> json_node \<Rightarrow> string \<times> json_node \<Rightarrow> bool" where
  "same_entry kv lw \<longleftrightarrow> fst kv = fst lw \<and> json_same (snd kv) (snd lw)"

lemma entries_ahead:
  assumes "\<forall>kv \<in> set ((k, v) # kvs). reads bytes max_depth max_nodes (snd kv)" "utf8_valid bytes"
    and "\<forall>kv \<in> set kvs. utf8_valid (fst kv)" "keys_sorted (acc @ (k, v) # kvs)"
    and "drop off bytes = json_text v @ concat (map (\<lambda>kv. CHR '','' # entry_text kv) kvs) @ CHR ''}'' # t"
    and "\<forall>kv \<in> set ((k, v) # kvs). keeps max_depth (Suc (length fs) + node_height (snd kv))"
    and "keeps max_nodes (spent + sum_list (map (\<lambda>kv. node_size (snd kv)) ((k, v) # kvs)))"
    and "spent + sum_list (map (\<lambda>kv. node_size (snd kv)) ((k, v) # kvs)) \<le> u64_max"
  shows "\<exists>lws. list_all2 same_entry ((k, v) # kvs) lws \<and>
    resume bytes max_depth max_nodes (ObjectFrame acc k # fs) off spent =
    go_on bytes max_depth max_nodes (JObject (acc @ lws)) fs
      (off + length (json_text v @ concat (map (\<lambda>kv. CHR '','' # entry_text kv) kvs)) + 1)
      (spent + sum_list (map (\<lambda>kv. node_size (snd kv)) ((k, v) # kvs)))"
  using assms(1,3-)
proof (induction kvs arbitrary: k v acc off spent)
  case Nil
  then have d: "drop off bytes = json_text v @ CHR ''}'' # t" by simp
  from Nil obtain w where w: "json_same v w" "resume bytes max_depth max_nodes (ObjectFrame acc k # fs) off spent =
      go_on bytes max_depth max_nodes w (ObjectFrame acc k # fs) (off + length (json_text v)) (spent + node_size v)"
    using readsD [OF _ d, of max_depth max_nodes "ObjectFrame acc k # fs" spent] by (auto simp: ends_value_def)
  have "btree_insert k w acc = acc @ [(k, w)]"
    using Nil.prems(3) by (intro map_insert_last) (auto simp: keys_sorted_def sorted_wrt_append)
  moreover have "drop (off + length (json_text v)) bytes = frame_close (frame_add (ObjectFrame acc k) w) # t"
    using drop_ahead [OF d refl] by simp
  ultimately show ?case
    using go_on_close [of "off + length (json_text v)" bytes "ObjectFrame acc k" w t] w
    by (auto intro!: exI [of _ "[(k, w)]"] simp: same_entry_def)
next
  case (Cons kv kvs)
  obtain k2 v2 where kv: "kv = (k2, v2)" by force
  let ?rest = "json_text v2 @ concat (map (\<lambda>kv. CHR '','' # entry_text kv) kvs) @ CHR ''}'' # t"
  have d: "drop off bytes = json_text v @ CHR '','' # string_text k2 @ CHR '':'' # ?rest"
    using Cons.prems(4) by (simp add: kv entry_text_def)
  have small: "keeps max_nodes (spent + node_size v)" "spent + node_size v \<le> u64_max"
    using keeps_mono [OF Cons.prems(6), of "spent + node_size v"] Cons.prems(7) by simp_all
  obtain w where w: "json_same v w" "resume bytes max_depth max_nodes (ObjectFrame acc k # fs) off spent =
      go_on bytes max_depth max_nodes w (ObjectFrame acc k # fs) (off + length (json_text v)) (spent + node_size v)"
    using readsD [OF _ d _ _ small, of max_depth "ObjectFrame acc k # fs"] Cons.prems(1,5) by (auto simp: ends_value_def)
  have ins: "btree_insert k w acc = acc @ [(k, w)]"
    using Cons.prems(3) by (intro map_insert_last) (auto simp: keys_sorted_def sorted_wrt_append)
  note comma = drop_ahead [OF d refl]
  have k2: "utf8_valid k2" using Cons.prems(2) by (simp add: kv)
  note key = key_ahead [OF peek_ahead(2) [OF comma] k2 assms(2)]
  define x where "x = Suc (Suc (off + length (json_text v)) + length (string_text k2))"
  have step: "go_on bytes max_depth max_nodes w (ObjectFrame acc k # fs) (off + length (json_text v)) (spent + node_size v) =
      resume bytes max_depth max_nodes (ObjectFrame (acc @ [(k, w)]) k2 # fs) x (spent + node_size v)"
    by (rule go_on_comma [OF comma]) (use key in \<open>simp add: frame_key_def ins x_def\<close>)
  have "\<exists>lws. list_all2 same_entry ((k2, v2) # kvs) lws \<and>
    resume bytes max_depth max_nodes (ObjectFrame (acc @ [(k, w)]) k2 # fs) x (spent + node_size v) =
    go_on bytes max_depth max_nodes (JObject ((acc @ [(k, w)]) @ lws)) fs
      (x + length (json_text v2 @ concat (map (\<lambda>kv. CHR '','' # entry_text kv) kvs)) + 1)
      (spent + node_size v + sum_list (map (\<lambda>kv. node_size (snd kv)) ((k2, v2) # kvs)))"
    by (rule Cons.IH [OF _ _ _ key(5) [folded x_def]])
      (use Cons.prems in \<open>auto simp: add.assoc kv keys_sorted_def sorted_wrt_append\<close>)
  then obtain lws where lws: "list_all2 same_entry ((k2, v2) # kvs) lws"
    "resume bytes max_depth max_nodes (ObjectFrame (acc @ [(k, w)]) k2 # fs) x (spent + node_size v) =
    go_on bytes max_depth max_nodes (JObject ((acc @ [(k, w)]) @ lws)) fs
      (x + length (json_text v2 @ concat (map (\<lambda>kv. CHR '','' # entry_text kv) kvs)) + 1)
      (spent + node_size v + sum_list (map (\<lambda>kv. node_size (snd kv)) ((k2, v2) # kvs)))" by blast
  have eq: "x + length (json_text v2 @ concat (map (\<lambda>kv. CHR '','' # entry_text kv) kvs)) + 1 =
      off + length (json_text v @ concat (map (\<lambda>kv. CHR '','' # entry_text kv) (kv # kvs))) + 1"
    "spent + node_size v + sum_list (map (\<lambda>kv. node_size (snd kv)) ((k2, v2) # kvs)) =
      spent + sum_list (map (\<lambda>kv. node_size (snd kv)) ((k, v) # kv # kvs))"
    by (simp_all add: x_def kv entry_text_def)
  have "list_all2 same_entry ((k, v) # kv # kvs) ((k, w) # lws)"
    using w(1) lws(1) by (simp add: kv same_entry_def)
  moreover have "resume bytes max_depth max_nodes (ObjectFrame acc k # fs) off spent =
      go_on bytes max_depth max_nodes (JObject (acc @ (k, w) # lws)) fs
        (off + length (json_text v @ concat (map (\<lambda>kv. CHR '','' # entry_text kv) (kv # kvs))) + 1)
        (spent + sum_list (map (\<lambda>kv. node_size (snd kv)) ((k, v) # kv # kvs)))"
    using w(2) step lws(2) unfolding eq by (metis append.assoc append_Cons append_Nil)
  ultimately show ?case by blast
qed

section \<open>Reading a tree\<close>

lemma reads_leaf:
  assumes "\<And>off t. drop off bytes = json_text v @ t \<Longrightarrow> ends_value t \<Longrightarrow>
      \<exists>w. json_same v w \<and> start_at bytes off = Ok (Complete w, off + length (json_text v))"
    and "node_size v = 1"
  shows "reads bytes max_depth max_nodes v"
  unfolding reads_def
proof (intro allI impI)
  fix off t spent and fs :: "container_frame list"
  assume d: "drop off bytes = json_text v @ t" "ends_value t"
    and keeps: "keeps max_depth (length fs + node_height v)" "keeps max_nodes (spent + node_size v)"
      "spent + node_size v \<le> u64_max"
  from assms(1) [OF d] obtain w where w: "json_same v w"
    "start_at bytes off = Ok (Complete w, off + length (json_text v))" by blast
  have "keeps max_depth (length fs)" using keeps(1) by (rule keeps_mono) simp
  moreover have "Suc spent \<le> u64_max" "keeps max_nodes (Suc spent)" using keeps(2,3) assms(2) by simp_all
  ultimately have "resume bytes max_depth max_nodes fs off spent =
      go_on bytes max_depth max_nodes w fs (off + length (json_text v)) (Suc spent)"
    using resume_start [OF _ _ _ w(2)] by simp
  with w(1) assms(2) show "\<exists>w. json_same v w \<and> resume bytes max_depth max_nodes fs off spent =
    go_on bytes max_depth max_nodes w fs (off + length (json_text v)) (spent + node_size v)" by auto
qed

lemma literal_start:
  assumes "drop off bytes = word @ t"
    and "(word, v) \<in> {(''null'', JNull), (''true'', JBool True), (''false'', JBool False)}"
  shows "start_at bytes off = Ok (Complete v, off + length word)"
proof -
  obtain c u where c: "word = c # u" "\<not> is_json_space c" using assms(2) by (auto simp: is_json_space_def)
  then have d: "drop off bytes = c # u @ t" using assms(1) by simp
  have "word \<noteq> []" using c by simp
  note literal = literal_ahead [OF assms(1) this, of v]
  show ?thesis
    using assms(2) c literal peek_ahead(1) [OF d] whitespace_ahead [OF d c(2)]
    by (auto simp: start_at_def)
qed

lemma reads_array:
  assumes "\<forall>v \<in> set vs. reads bytes max_depth max_nodes v" "\<forall>v \<in> set vs. node_printable v"
  shows "reads bytes max_depth max_nodes (JArray vs)"
proof (cases vs)
  case Nil
  have "\<exists>w. json_same (JArray []) w \<and> start_at bytes off = Ok (Complete w, off + length (json_text (JArray [])))"
    if "drop off bytes = json_text (JArray []) @ t" for off t
  proof -
    have d: "drop off bytes = CHR ''['' # CHR '']'' # t" using that by simp
    note d2 = peek_ahead(2) [OF d]
    have "start_at bytes off = Ok (Complete (JArray []), Suc (Suc off))"
      using peek_ahead(1) [OF d] consume_ahead [OF d] take_ahead [OF d2]
        whitespace_ahead [OF d] whitespace_ahead [OF d2]
      by (simp add: start_at_def Let_def is_json_space_def)
    then show ?thesis by (auto intro: same_array)
  qed
  then show ?thesis unfolding Nil by (intro reads_leaf) auto
next
  case (Cons v vs')
  show ?thesis
    unfolding reads_def
  proof (intro allI impI)
    fix off t spent and fs :: "container_frame list"
    assume d0: "drop off bytes = json_text (JArray vs) @ t"
      and keeps: "keeps max_depth (length fs + node_height (JArray vs))"
        "keeps max_nodes (spent + node_size (JArray vs))" "spent + node_size (JArray vs) \<le> u64_max"
    have d: "drop off bytes = CHR ''['' # comma_separated (map json_text vs) @ CHR '']'' # t" using d0 by simp
    note d2 = peek_ahead(2) [OF d]
    obtain c u where c: "json_text v = c # u" "opens_value c"
      using json_text_first [of v] assms(2) Cons by auto
    then obtain z where z: "drop (Suc off) bytes = c # z" using d2 Cons by simp
    have "json_take bytes (CHR '']'') (Suc off) = (False, Suc off)"
      using z c(2) by (intro take_other) (auto simp: opens_value_def)
    then have "start_at bytes off = Ok (Container (ArrayFrame []), Suc off)"
      using peek_ahead(1) [OF d] consume_ahead [OF d] whitespace_ahead [OF d] whitespace_ahead [OF z] c(2)
      by (simp add: start_at_def Let_def is_json_space_def opens_value_def)
    moreover have "keeps max_depth (length fs)" using keeps(1) by (rule keeps_mono) simp
    moreover have "Suc spent \<le> u64_max" "keeps max_nodes (Suc spent)"
      using keeps(3) keeps_mono [OF keeps(2), of "Suc spent"] by simp_all
    ultimately have "resume bytes max_depth max_nodes fs off spent =
        resume bytes max_depth max_nodes (ArrayFrame [] # fs) (Suc off) (Suc spent)"
      using resume_start by simp
    moreover have "\<exists>ws. list_all2 json_same (v # vs') ws \<and>
      resume bytes max_depth max_nodes (ArrayFrame [] # fs) (Suc off) (Suc spent) =
      go_on bytes max_depth max_nodes (JArray ([] @ ws)) fs
        (Suc off + length (comma_separated (map json_text (v # vs'))) + 1)
        (Suc spent + sum_list (map node_size (v # vs')))"
      using assms(1) keeps keeps_height(1) [of max_depth "length fs" vs] d2 unfolding Cons
      by (intro elements_ahead [where t = t]) (auto simp del: node_height.simps)
    ultimately show "\<exists>w. json_same (JArray vs) w \<and> resume bytes max_depth max_nodes fs off spent =
      go_on bytes max_depth max_nodes w fs (off + length (json_text (JArray vs))) (spent + node_size (JArray vs))"
      unfolding Cons by (auto intro: same_array simp: ac_simps)
  qed
qed

lemma entries_text:
  "comma_separated (map (\<lambda>kv. string_text (fst kv) @ '':'' @ json_text (snd kv)) ((k, v) # kvs)) =
    string_text k @ '':'' @ json_text v @ concat (map (\<lambda>kv. CHR '','' # entry_text kv) kvs)"
  by (simp add: entry_text_def comp_def)

lemma reads_object:
  assumes "\<forall>kv \<in> set kvs. reads bytes max_depth max_nodes (snd kv)" "node_printable (JObject kvs)"
    and "utf8_valid bytes"
  shows "reads bytes max_depth max_nodes (JObject kvs)"
proof (cases kvs)
  case Nil
  have "\<exists>w. json_same (JObject []) w \<and> start_at bytes off = Ok (Complete w, off + length (json_text (JObject [])))"
    if "drop off bytes = json_text (JObject []) @ t" for off t
  proof -
    have d: "drop off bytes = CHR ''{'' # CHR ''}'' # t" using that by simp
    note d2 = peek_ahead(2) [OF d]
    have "start_at bytes off = Ok (Complete (JObject []), Suc (Suc off))"
      using peek_ahead(1) [OF d] consume_ahead [OF d] take_ahead [OF d2]
        whitespace_ahead [OF d] whitespace_ahead [OF d2]
      by (simp add: start_at_def Let_def is_json_space_def)
    then show ?thesis by (auto intro: same_object)
  qed
  then show ?thesis unfolding Nil by (intro reads_leaf) auto
next
  case (Cons kv kvs')
  obtain k v where kv: "kv = (k, v)" by force
  show ?thesis
    unfolding reads_def
  proof (intro allI impI)
    fix off t spent and fs :: "container_frame list"
    assume d0: "drop off bytes = json_text (JObject kvs) @ t"
      and keeps: "keeps max_depth (length fs + node_height (JObject kvs))"
        "keeps max_nodes (spent + node_size (JObject kvs))" "spent + node_size (JObject kvs) \<le> u64_max"
    let ?rest = "json_text v @ concat (map (\<lambda>kv. CHR '','' # entry_text kv) kvs') @ CHR ''}'' # t"
    have d: "drop off bytes = CHR ''{'' # string_text k @ CHR '':'' # ?rest"
      using d0 entries_text [of k v kvs'] by (simp add: Cons kv)
    note d2 = peek_ahead(2) [OF d]
    have k: "utf8_valid k" using assms(2) by (simp add: Cons kv)
    then obtain u where u: "string_text k = CHR 0x22 # u" using string_text_first by blast
    note key = key_ahead [OF d2 k assms(3)]
    have "json_take bytes (CHR ''}'') (Suc off) = (False, Suc off)"
      using d2 u by (intro take_other) simp
    then have "start_at bytes off = Ok (Container (ObjectFrame [] k), Suc (Suc off + length (string_text k)))"
      using peek_ahead(1) [OF d] consume_ahead [OF d] whitespace_ahead [OF d] key(1-4)
      by (simp add: start_at_def Let_def is_json_space_def)
    moreover have "keeps max_depth (length fs)" using keeps(1) by (rule keeps_mono) simp
    moreover have "Suc spent \<le> u64_max" "keeps max_nodes (Suc spent)"
      using keeps(3) keeps_mono [OF keeps(2), of "Suc spent"] by simp_all
    ultimately have "resume bytes max_depth max_nodes fs off spent =
        resume bytes max_depth max_nodes (ObjectFrame [] k # fs) (Suc (Suc off + length (string_text k))) (Suc spent)"
      using resume_start by simp
    moreover have "\<exists>lws. list_all2 same_entry ((k, v) # kvs') lws \<and>
      resume bytes max_depth max_nodes (ObjectFrame [] k # fs) (Suc (Suc off + length (string_text k))) (Suc spent) =
      go_on bytes max_depth max_nodes (JObject ([] @ lws)) fs
        (Suc (Suc off + length (string_text k)) +
          length (json_text v @ concat (map (\<lambda>kv. CHR '','' # entry_text kv) kvs')) + 1)
        (Suc spent + sum_list (map (\<lambda>kv. node_size (snd kv)) ((k, v) # kvs')))"
      using assms keeps keeps_height(2) [of max_depth "length fs" kvs] key(5) unfolding Cons kv
      by (intro entries_ahead [where t = t]) (auto simp del: node_height.simps)
    ultimately show "\<exists>w. json_same (JObject kvs) w \<and> resume bytes max_depth max_nodes fs off spent =
      go_on bytes max_depth max_nodes w fs (off + length (json_text (JObject kvs))) (spent + node_size (JObject kvs))"
      using entries_text [of k v kvs'] unfolding Cons kv same_entry_def
      by (auto intro: same_object simp: ac_simps)
  qed
qed

lemma reads_printable:
  assumes "utf8_valid bytes" "node_printable v"
  shows "reads bytes max_depth max_nodes v"
  using assms(2)
proof (induction v)
  case JNull
  show ?case
    using literal_start [where word = "''null''" and v = JNull]
    by (intro reads_leaf exI [of _ JNull]) (auto intro: same_null)
next
  case (JBool b)
  show ?case
    using literal_start [where word = "''true''" and v = "JBool True"]
      literal_start [where word = "''false''" and v = "JBool False"]
    by (intro reads_leaf exI [of _ "JBool b"]) (auto intro: same_bool)
next
  case (JString s)
  have "start_at bytes off = Ok (Complete (JString s), off + length (string_text s))"
    if d: "drop off bytes = string_text s @ t" for off t
  proof -
    obtain u where "string_text s = CHR 0x22 # u" using string_text_first JString by auto
    then have q: "drop off bytes = CHR 0x22 # u @ t" using d by simp
    show ?thesis
      using string_ahead [OF d _ assms(1)] JString peek_ahead(1) [OF q] whitespace_ahead [OF q]
      by (simp add: start_at_def Let_def is_json_space_def)
  qed
  then show ?case by (intro reads_leaf) (auto intro: same_string)
next
  case (JNumber n)
  have "\<exists>m. number_value n = number_value m \<and> start_at bytes off = Ok (Complete (JNumber m), off + length (number_text n))"
    if d: "drop off bytes = number_text n @ t" "ends_value t" for off t
  proof -
    have n: "printable n" using JNumber by simp
    obtain c u where cu: "number_text n = c # u" "c = CHR ''-'' \<or> is_json_digit c" using number_text_first [OF n] .
    then have q: "drop off bytes = c # u @ t" using d by simp
    have c: "\<not> is_json_space c" "c \<notin> {CHR ''n'', CHR ''t'', CHR ''f'', CHR 0x22, CHR ''['', CHR ''{''}"
      using cu(2) by (auto simp: is_json_space_def is_json_digit_def is_digit_def)
    obtain m where "json_number_at bytes off = Ok (m, off + length (number_text n))" "number_value m = number_value n"
      using number_ahead [OF d(1) n d(2)] by blast
    then show ?thesis
      using peek_ahead(1) [OF q] whitespace_ahead [OF q c(1)] c(2) cu(2)
      by (intro exI [of _ m]) (simp add: start_at_def Let_def)
  qed
  then show ?case by (intro reads_leaf) (fastforce intro: same_number)+
next
  case (JArray vs)
  then show ?case by (intro reads_array) auto
next
  case (JObject kvs)
  have "reads bytes max_depth max_nodes (snd kv)" if "kv \<in> set kvs" for kv
    using JObject.IH [OF that, of "snd kv"] JObject.prems that by (cases kv) auto
  then show ?case using JObject.prems assms(1) by (intro reads_object) auto
qed

section \<open>The whole text\<close>

lemma utf8_valid_commas: "\<forall>s \<in> set ss. utf8_valid s \<Longrightarrow> utf8_valid (comma_separated ss)"
proof -
  assume *: "\<forall>s \<in> set ss. utf8_valid s"
  have "utf8_valid (concat (map (\<lambda>s. CHR '','' # s) rest))" if "\<forall>s \<in> set rest. utf8_valid s" for rest
    using that by (induction rest) (auto simp: utf8_valid_ascii intro: utf8_valid_append)
  with * show ?thesis by (cases ss) (auto intro: utf8_valid_append)
qed

lemma utf8_valid_json: "node_printable v \<Longrightarrow> utf8_valid (json_text v)"
proof (induction v)
  case (JString s)
  then show ?case by (simp add: utf8_valid_text)
next
  case (JNumber n)
  then show ?case by (simp add: ascii_valid number_text_ascii)
next
  case (JArray vs)
  then have "utf8_valid (comma_separated (map json_text vs))" by (intro utf8_valid_commas) auto
  then show ?case by (simp add: utf8_valid_ascii utf8_valid_append)
next
  case (JObject kvs)
  have "utf8_valid (string_text k @ CHR '':'' # json_text v)" if "(k, v) \<in> set kvs" for k v
    using JObject.IH [OF that, of v] JObject.prems that
    by (auto simp: utf8_valid_ascii intro!: utf8_valid_append utf8_valid_text)
  then have "utf8_valid (comma_separated (map (\<lambda>kv. string_text (fst kv) @ '':'' @ json_text (snd kv)) kvs))"
    by (intro utf8_valid_commas) auto
  then show ?case by (simp add: utf8_valid_ascii utf8_valid_append)
qed (auto simp: utf8_valid_ascii)

lemma json_parse_text:
  assumes "node_printable v" "keeps max_depth (node_height v)" "keeps max_nodes (node_size v)" "node_size v \<le> u64_max"
  shows "\<exists>w. json_same v w \<and> json_parse (json_text v) max_depth max_nodes = Some (Ok w)"
proof -
  let ?s = "json_text v"
  have valid: "utf8_valid ?s" by (rule utf8_valid_json [OF assms(1)])
  have d: "drop 0 ?s = ?s @ []" by simp
  obtain w where w: "json_same v w" "resume ?s max_depth max_nodes [] 0 0 =
      go_on ?s max_depth max_nodes w [] (0 + length ?s) (0 + node_size v)"
    using readsD [OF reads_printable [OF valid assms(1)] d, of max_depth "[]" max_nodes 0] assms(2-4)
    by (auto simp: ends_value_def)
  have "go_on ?s max_depth max_nodes w [] (0 + length ?s) (0 + node_size v) = Some (Ok (w, length ?s))"
    unfolding go_on_def by (subst run_unfold) simp
  then have run: "resume ?s max_depth max_nodes [] 0 0 = Some (Ok (w, length ?s))" using w(2) by simp
  have space: "json_whitespace ?s (length ?s) = length ?s" by (rule whitespace_end) simp
  obtain cs where cs: "from_utf8 ?s = Ok cs" using valid utf8_valid_def by blast
  show ?thesis
  proof (cases "start_next ?s max_depth max_nodes [] 0 0")
    case (Inl s)
    then have "run (decode_step ?s max_depth max_nodes) s = Some (Ok (w, length ?s))"
      using run by (simp add: resume_def)
    then have "json_parse ?s max_depth max_nodes = Some (Ok w)"
      using Inl cs space by (simp add: json_parse_def)
    with w(1) show ?thesis by blast
  next
    case (Inr r)
    then have "r = Ok (w, length ?s)" using run by (simp add: resume_def)
    then have "json_parse ?s max_depth max_nodes = Some (Ok w)"
      using Inr cs by (simp add: json_parse_def)
    with w(1) show ?thesis by blast
  qed
qed

end
