(* ===== verification/Hell_Json_Encode.thy ===== *)
theory Hell_Json_Encode
  imports Hell_Json_Print
begin

text \<open>
  The flat documents of \<open>Hell_Json_Document\<close>: \<open>from_node\<close> stores a tree, and the encoder
  prints from the document the text of the tree, or refuses it for its nesting.
\<close>

section \<open>Documents\<close>

text \<open>
  The tree at an index of a flat document.  Children come before their parents, so that a
  document is finite and acyclic.
\<close>

inductive denotes :: "document_node list \<Rightarrow> nat \<Rightarrow> json_node \<Rightarrow> bool" for nodes where
  denotes_null: "vget nodes i = Some DNull \<Longrightarrow> denotes nodes i JNull"
| denotes_bool: "vget nodes i = Some (DBool b) \<Longrightarrow> denotes nodes i (JBool b)"
| denotes_string: "vget nodes i = Some (DString s) \<Longrightarrow> denotes nodes i (JString s)"
| denotes_number: "vget nodes i = Some (DNumber n) \<Longrightarrow> denotes nodes i (JNumber n)"
| denotes_array: "vget nodes i = Some (DArray js) \<Longrightarrow> \<forall>j \<in> set js. j < i \<Longrightarrow>
    list_all2 (denotes nodes) js vs \<Longrightarrow> denotes nodes i (JArray vs)"
| denotes_object: "vget nodes i = Some (DObject kjs) \<Longrightarrow> \<forall>kj \<in> set kjs. snd kj < i \<Longrightarrow>
    list_all2 (\<lambda>kj kv. fst kj = fst kv \<and> denotes nodes (snd kj) (snd kv)) kjs kvs \<Longrightarrow>
    denotes nodes i (JObject kvs)"

inductive_cases denotes_cases [elim]:
  "denotes nodes i JNull" "denotes nodes i (JBool b)" "denotes nodes i (JString s)"
  "denotes nodes i (JNumber n)" "denotes nodes i (JArray vs)" "denotes nodes i (JObject kvs)"

lemma denotes_append: "denotes nodes i v \<Longrightarrow> denotes (nodes @ extra) i v"
proof (induction rule: denotes.induct)
  case (denotes_array i js vs)
  show ?case
    by (rule denotes.denotes_array [OF vget_append_old [OF denotes_array(1)] denotes_array(2)])
      (rule list_all2_mono [OF denotes_array(3)], simp)
next
  case (denotes_object i kjs kvs)
  show ?case
    by (rule denotes.denotes_object [OF vget_append_old [OF denotes_object(1)] denotes_object(2)])
      (rule list_all2_mono [OF denotes_object(3)], simp)
qed (auto intro: denotes.intros simp: vget_append_old)

text \<open>The task of a tree adds its nodes, the root last, and the index of the root.\<close>

definition stores :: "json_node \<Rightarrow> bool" where
  "stores v \<longleftrightarrow> (\<forall>tasks nodes completed. \<exists>extra i.
    run document_step (Visit v # tasks, nodes, completed) = run document_step (tasks, nodes @ extra, completed @ [i]) \<and>
    denotes (nodes @ extra) i v \<and> i < length (nodes @ extra))"

lemma stores_all:
  assumes "\<forall>v \<in> set vs. stores v"
  shows "\<exists>extra js.
    run document_step (map Visit vs @ tasks, nodes, completed) = run document_step (tasks, nodes @ extra, completed @ js) \<and>
    list_all2 (denotes (nodes @ extra)) js vs \<and> (\<forall>j \<in> set js. j < length (nodes @ extra))"
  using assms
proof (induction vs arbitrary: nodes completed)
  case Nil
  show ?case by (rule exI [of _ "[]"], rule exI [of _ "[]"]) simp
next
  case (Cons v vs)
  then obtain extra i where m: "run document_step (Visit v # map Visit vs @ tasks, nodes, completed) =
      run document_step (map Visit vs @ tasks, nodes @ extra, completed @ [i])"
    "denotes (nodes @ extra) i v" "i < length (nodes @ extra)" unfolding stores_def by (metis list.set_intros(1))
  from Cons.IH [of "nodes @ extra" "completed @ [i]"] Cons.prems obtain extra' js where
    js: "run document_step (map Visit vs @ tasks, nodes @ extra, completed @ [i]) =
      run document_step (tasks, (nodes @ extra) @ extra', (completed @ [i]) @ js)"
    "list_all2 (denotes ((nodes @ extra) @ extra')) js vs" "\<forall>j \<in> set js. j < length ((nodes @ extra) @ extra')" by auto
  show ?case
    by (rule exI [of _ "extra @ extra'"], rule exI [of _ "i # js"])
      (use m js denotes_append [OF m(2), of extra'] in auto)
qed

lemma document_run: "document_step s = Inl s' \<Longrightarrow> run document_step s = run document_step s'"
  by (rule run_Inl)

lemma stores_leaf:
  assumes "\<And>tasks nodes completed. document_step (Visit v # tasks, nodes, completed) =
      Inl (tasks, push_document_node nodes completed node)"
    and "\<And>nodes i. vget nodes i = Some node \<Longrightarrow> denotes nodes i v"
  shows "stores v"
  unfolding stores_def
proof (intro allI)
  fix tasks nodes completed
  show "\<exists>extra i. run document_step (Visit v # tasks, nodes, completed) = run document_step (tasks, nodes @ extra, completed @ [i]) \<and>
      denotes (nodes @ extra) i v \<and> i < length (nodes @ extra)"
    by (rule exI [of _ "[node]"], rule exI [of _ "length nodes"])
      (simp add: document_run [OF assms(1)] push_document_node_def assms(2))
qed

lemma stores_node: "stores v"
proof (induction v)
  case (JArray vs)
  show ?case
    unfolding stores_def
  proof (intro allI)
    fix tasks nodes completed
    obtain extra js where js: "run document_step (map Visit vs @ FinishArray (length vs) # tasks, nodes, completed) =
        run document_step (FinishArray (length vs) # tasks, nodes @ extra, completed @ js)"
      "list_all2 (denotes (nodes @ extra)) js vs" "\<forall>j \<in> set js. j < length (nodes @ extra)"
      using stores_all [of vs] JArray by blast
    have len: "length js = length vs" using js(2) by (rule list_all2_lengthD)
    have "run document_step (Visit (JArray vs) # tasks, nodes, completed) =
        run document_step (tasks, nodes @ extra @ [DArray js], completed @ [length (nodes @ extra)])"
      by (simp add: document_run [of "(Visit (JArray vs) # tasks, nodes, completed)"] js(1)
          document_run [of "(FinishArray (length vs) # tasks, nodes @ extra, completed @ js)"] Let_def len push_document_node_def)
    moreover have "denotes (nodes @ extra @ [DArray js]) (length (nodes @ extra)) (JArray vs)"
      by (rule denotes_array [where js = js])
        (use js(2,3) denotes_append [of "nodes @ extra" _ _ "[DArray js]"] in \<open>auto simp: vget_def nth_append elim!: list_all2_mono\<close>)
    ultimately show "\<exists>extra i. run document_step (Visit (JArray vs) # tasks, nodes, completed) =
        run document_step (tasks, nodes @ extra, completed @ [i]) \<and>
        denotes (nodes @ extra) i (JArray vs) \<and> i < length (nodes @ extra)"
      by (intro exI [of _ "extra @ [DArray js]"] exI [of _ "length (nodes @ extra)"]) simp
  qed
next
  case (JObject kvs)
  show ?case
    unfolding stores_def
  proof (intro allI)
    fix tasks nodes completed
    define keys where "keys = map fst kvs"
    have "\<forall>v \<in> set (map snd kvs). stores v" using JObject by auto
    then obtain extra js where js: "run document_step (map Visit (map snd kvs) @ FinishObject keys # tasks, nodes, completed) =
        run document_step (FinishObject keys # tasks, nodes @ extra, completed @ js)"
      "list_all2 (denotes (nodes @ extra)) js (map snd kvs)" "\<forall>j \<in> set js. j < length (nodes @ extra)"
      using stores_all by blast
    have len: "length js = length kvs" "length keys = length kvs"
      using list_all2_lengthD [OF js(2)] by (simp_all add: keys_def)
    define kjs where "kjs = zip keys js"
    have "run document_step (Visit (JObject kvs) # tasks, nodes, completed) =
        run document_step (tasks, nodes @ extra @ [DObject kjs], completed @ [length (nodes @ extra)])"
      using js(1)
      by (simp add: document_run [of "(Visit (JObject kvs) # tasks, nodes, completed)"] keys_def [symmetric]
          document_run [of "(FinishObject keys # tasks, nodes @ extra, completed @ js)"] Let_def len push_document_node_def kjs_def)
    moreover have "denotes (nodes @ extra @ [DObject kjs]) (length (nodes @ extra)) (JObject kvs)"
    proof (rule denotes_object [where kjs = kjs])
      show "\<forall>kj \<in> set kjs. snd kj < length (nodes @ extra)"
        using js(3) by (auto simp: kjs_def dest: set_zip_rightD)
      show "list_all2 (\<lambda>kj kv. fst kj = fst kv \<and> denotes (nodes @ extra @ [DObject kjs]) (snd kj) (snd kv)) kjs kvs"
        using js(2) len denotes_append [of "nodes @ extra" _ _ "[DObject kjs]"]
        by (auto simp: list_all2_conv_all_nth kjs_def keys_def)
    qed (simp add: vget_def nth_append)
    ultimately show "\<exists>extra i. run document_step (Visit (JObject kvs) # tasks, nodes, completed) =
        run document_step (tasks, nodes @ extra, completed @ [i]) \<and>
        denotes (nodes @ extra) i (JObject kvs) \<and> i < length (nodes @ extra)"
      by (intro exI [of _ "extra @ [DObject kjs]"] exI [of _ "length (nodes @ extra)"]) simp
  qed
qed (rule stores_leaf; auto intro: denotes.intros)+

lemma from_node_denotes:
  "\<exists>document. from_node v = Some (Ok document) \<and> denotes (document_nodes document) (document_root document) v"
proof -
  obtain nodes i where *: "run document_step ([Visit v], [], []) = run document_step ([], [] @ nodes, [] @ [i])"
    "denotes ([] @ nodes) i v" using stores_node [of v] unfolding stores_def by blast
  have "run document_step ([], nodes, [i]) = Some (Ok \<lparr>document_nodes = nodes, document_root = i\<rparr>)"
    by (rule run_Inr) simp
  with * show ?thesis by (simp add: from_node_def)
qed

section \<open>The encoder\<close>

definition encodes :: "nat option \<Rightarrow> nat \<Rightarrow> guest_json \<Rightarrow> json_node \<Rightarrow> bool" where
  "encodes limit level g v \<longleftrightarrow> (\<forall>tasks out. run (encode_step limit) (EncodeValue g level # tasks, out) =
    (if keeps limit (level + node_height v) then run (encode_step limit) (tasks, out @ json_text v)
     else Some (Err (nesting_refused limit))))"

lemma encodes_run:
  "encodes limit level g v \<Longrightarrow> run (encode_step limit) (EncodeValue g level # tasks, out) =
    (if keeps limit (level + node_height v) then run (encode_step limit) (tasks, out @ json_text v)
     else Some (Err (nesting_refused limit)))"
  by (simp add: encodes_def)

lemma encode_raw [simp]:
  "run (encode_step limit) (Raw s # tasks, out) = run (encode_step limit) (tasks, out @ s)"
  by (rule run_Inl) simp

lemma encode_key [simp]:
  "utf8_valid k \<Longrightarrow> run (encode_step limit) (ObjectKey k # tasks, out) = run (encode_step limit) (tasks, out @ string_text k)"
  by (rule run_Inl) (simp add: push_string_text goes_on_def written_def)

lemma encode_over: "over limit level \<Longrightarrow>
    run (encode_step limit) (EncodeValue g level # tasks, out) = Some (Err (nesting_refused limit))"
  by (rule run_Inr) simp

lemma encode_elements:
  assumes "list_all2 (encodes limit level) gs vs"
  shows "run (encode_step limit) (concat (map (\<lambda>g. [Raw '','', EncodeValue g level]) gs) @ tasks, out) =
    (if \<forall>v \<in> set vs. keeps limit (level + node_height v)
     then run (encode_step limit) (tasks, out @ concat (map (\<lambda>v. CHR '','' # json_text v) vs))
     else Some (Err (nesting_refused limit)))"
  using assms by (induction arbitrary: out rule: list_all2_induct) (auto simp: encodes_def)

lemma encode_array:
  assumes "list_all2 (encodes limit (Suc level)) gs vs"
  shows "encodes limit level (GArray gs) (JArray vs)"
  unfolding encodes_def keeps_height(1)
proof (intro allI)
  fix tasks out
  show "run (encode_step limit) (EncodeValue (GArray gs) level # tasks, out) =
    (if keeps limit level \<and> (\<forall>v \<in> set vs. keeps limit (Suc level + node_height v))
     then run (encode_step limit) (tasks, out @ json_text (JArray vs)) else Some (Err (nesting_refused limit)))"
  proof (cases "keeps limit level")
    case True
    then have step: "run (encode_step limit) (EncodeValue (GArray gs) level # tasks, out) =
        run (encode_step limit) (element_tasks (Suc level) gs @ Raw '']'' # tasks, out @ ''['')"
      by (intro run_Inl) simp
    show ?thesis
      unfolding step using assms True
      by (cases gs; cases vs) (auto simp: encodes_def encode_elements comp_def)
  qed (simp add: encode_over)
qed

lemma json_text_object: "json_text (JObject kvs) = ''{'' @ comma_separated (map entry_text kvs) @ ''}''"
  by (simp add: entry_text_def [abs_def])

lemma encode_entry:
  assumes "fst kg = fst kv" "encodes limit level (snd kg) (snd kv)" "utf8_valid (fst kv)"
  shows "run (encode_step limit) (entry_task level kg @ tasks, out) =
    (if keeps limit (level + node_height (snd kv)) then run (encode_step limit) (tasks, out @ entry_text kv)
     else Some (Err (nesting_refused limit)))"
  using assms by (simp add: entry_task_def entry_text_def encodes_run)

lemma encode_entries:
  assumes "list_all2 (\<lambda>kg kv. fst kg = fst kv \<and> encodes limit level (snd kg) (snd kv)) kgs kvs"
    and "\<forall>kv \<in> set kvs. utf8_valid (fst kv)"
  shows "run (encode_step limit) (concat (map (\<lambda>kg. Raw '','' # entry_task level kg) kgs) @ tasks, out) =
    (if \<forall>kv \<in> set kvs. keeps limit (level + node_height (snd kv))
     then run (encode_step limit) (tasks, out @ concat (map (\<lambda>kv. CHR '','' # entry_text kv) kvs))
     else Some (Err (nesting_refused limit)))"
  using assms by (induction arbitrary: out rule: list_all2_induct) (auto simp: encode_entry)

lemma encode_object:
  assumes "list_all2 (\<lambda>kg kv. fst kg = fst kv \<and> encodes limit (Suc level) (snd kg) (snd kv)) kgs kvs"
    and "\<forall>kv \<in> set kvs. utf8_valid (fst kv)"
  shows "encodes limit level (GObject kgs) (JObject kvs)"
  unfolding encodes_def keeps_height(2)
proof (intro allI)
  fix tasks out
  show "run (encode_step limit) (EncodeValue (GObject kgs) level # tasks, out) =
    (if keeps limit level \<and> (\<forall>kv \<in> set kvs. keeps limit (Suc level + node_height (snd kv)))
     then run (encode_step limit) (tasks, out @ json_text (JObject kvs)) else Some (Err (nesting_refused limit)))"
  proof (cases "keeps limit level")
    case True
    then have step: "run (encode_step limit) (EncodeValue (GObject kgs) level # tasks, out) =
        run (encode_step limit) (entry_tasks (Suc level) kgs @ Raw ''}'' # tasks, out @ ''{'')"
      by (intro run_Inl) simp
    show ?thesis
      unfolding step using assms True
      by (cases kgs; cases kvs) (auto simp: encode_entry encode_entries comp_def json_text_object
          simp del: json_text.simps, fastforce)
  qed (simp add: encode_over)
qed

text \<open>A node of a document encodes as the tree it denotes.\<close>

lemma encode_document:
  assumes "json_document_value document i = Ok g" "encodes limit level g v"
  shows "encodes limit level (GDocument document i) v"
  unfolding encodes_def
proof (intro allI)
  fix tasks out
  show "run (encode_step limit) (EncodeValue (GDocument document i) level # tasks, out) =
    (if keeps limit (level + node_height v) then run (encode_step limit) (tasks, out @ json_text v)
     else Some (Err (nesting_refused limit)))"
  proof (cases "keeps limit level")
    case True
    then have "run (encode_step limit) (EncodeValue (GDocument document i) level # tasks, out) =
        run (encode_step limit) (EncodeValue g level # tasks, out)"
      using assms(1) by (intro run_Inl) simp
    then show ?thesis using assms(2) by (simp add: encodes_def)
  next
    case False
    then show ?thesis using keeps_mono [of limit "level + node_height v" level] by (auto simp: encode_over)
  qed
qed

lemma encode_leaf:
  assumes "node_height v = 0" "\<And>tasks out. encode_value tasks out g level = Inl (tasks, out @ json_text v)"
  shows "encodes limit level g v"
  unfolding encodes_def
proof (intro allI)
  fix tasks out
  show "run (encode_step limit) (EncodeValue g level # tasks, out) =
    (if keeps limit (level + node_height v) then run (encode_step limit) (tasks, out @ json_text v)
     else Some (Err (nesting_refused limit)))"
  proof (cases "keeps limit level")
    case True
    then have "run (encode_step limit) (EncodeValue g level # tasks, out) = run (encode_step limit) (tasks, out @ json_text v)"
      using assms(2) by (intro run_Inl) simp
    then show ?thesis using True assms(1) by simp
  qed (simp add: encode_over assms(1))
qed

lemma encode_denotes:
  assumes "denotes (document_nodes document) i v" "node_printable v"
  shows "encodes limit level (GDocument document i) v"
  using assms
proof (induction v arbitrary: i level rule: json_node.induct)
  case (JArray vs)
  obtain js where js: "vget (document_nodes document) i = Some (DArray js)"
    "list_all2 (denotes (document_nodes document)) js vs" using JArray.prems(1) by auto
  have "list_all2 (encodes limit (Suc level)) (map (GDocument document) js) vs"
    unfolding list_all2_map1
    by (rule list.rel_mono_strong [OF js(2)]) (use JArray in auto)
  then show ?case
    using js(1) by (intro encode_document [OF _ encode_array])
      (simp_all add: json_document_value_def document_node_at_def)
next
  case (JObject kvs)
  obtain kjs where kjs: "vget (document_nodes document) i = Some (DObject kjs)"
    "list_all2 (\<lambda>kj kv. fst kj = fst kv \<and> denotes (document_nodes document) (snd kj) (snd kv)) kjs kvs"
    using JObject.prems(1) by auto
  have "list_all2 (\<lambda>kg kv. fst kg = fst kv \<and> encodes limit (Suc level) (snd kg) (snd kv))
      (map (\<lambda>(key, child). (key, GDocument document child)) kjs) kvs"
    unfolding list_all2_map1
    by (rule list.rel_mono_strong [OF kjs(2)]) (use JObject in \<open>fastforce split: prod.splits\<close>)
  then show ?case
    using kjs(1) JObject.prems(2) by (intro encode_document [OF _ encode_object])
      (simp_all add: json_document_value_def document_node_at_def)
next
  case JNull
  then show ?case
    by (intro encode_document [where g = GNull] encode_leaf)
      (auto simp: json_document_value_def document_node_at_def)
next
  case (JBool b)
  then show ?case
    by (intro encode_document [where g = "GBool b"] encode_leaf)
      (auto simp: json_document_value_def document_node_at_def)
next
  case (JString s)
  then show ?case
    by (intro encode_document [where g = "GText s"] encode_leaf)
      (auto simp: json_document_value_def document_node_at_def push_string_text goes_on_def written_def)
next
  case (JNumber n)
  then show ?case
    by (intro encode_document [where g = "GNumber n"] encode_leaf)
      (auto simp: json_document_value_def document_node_at_def push_json_text goes_on_def written_def)
qed

lemma json_encode_denotes:
  assumes "denotes (document_nodes document) i v" "node_printable v"
  shows "json_encode limits (GDocument document i) =
    Some (if keeps (limit_value (lim_json_depth limits)) (node_height v) then Ok (json_text v)
          else Err (nesting_refused (limit_value (lim_json_depth limits))))"
proof -
  have "run (encode_step limit) ([], out) = Some (Ok out)" for limit out by (rule run_Inr) simp
  with encode_denotes [OF assms] show ?thesis by (simp add: encodes_def json_encode_def)
qed

end
