(* ===== verification/Hell_Json_Theorems.thy ===== *)
theory Hell_Json_Theorems
  imports Hell_Json_Encode
begin

text \<open>
  What the JSON of the guest promises: decoding is total and within the limits, documents
  encode as the trees they store, what is encoded decodes to the same values, equality of
  numbers is that of the decimals; and where the 64-bit exponent breaks the last two.
\<close>

section \<open>Uniqueness\<close>

lemma denotes_unique: "denotes nodes i v \<Longrightarrow> denotes nodes i w \<Longrightarrow> v = w"
proof (induction v arbitrary: i w rule: json_node.induct)
  case (JArray vs)
  obtain js where js: "vget nodes i = Some (DArray js)" "list_all2 (denotes nodes) js vs"
    using JArray.prems(1) by auto
  obtain ws where ws: "w = JArray ws" "list_all2 (denotes nodes) js ws"
    using JArray.prems(2) by (cases rule: denotes.cases) (auto simp: js(1))
  have "vs = ws"
    using js(2) ws(2) JArray.IH
    by (auto simp: list_eq_iff_nth_eq list_all2_conv_all_nth)
  then show ?case by (simp add: ws(1))
next
  case (JObject kvs)
  obtain kjs where kjs: "vget nodes i = Some (DObject kjs)"
    "list_all2 (\<lambda>kj kv. fst kj = fst kv \<and> denotes nodes (snd kj) (snd kv)) kjs kvs"
    using JObject.prems(1) by auto
  obtain lws where lws: "w = JObject lws"
    "list_all2 (\<lambda>kj kv. fst kj = fst kv \<and> denotes nodes (snd kj) (snd kv)) kjs lws"
    using JObject.prems(2) by (cases rule: denotes.cases) (auto simp: kjs(1))
  have "kvs ! n = lws ! n" if n: "n < length kvs" for n
  proof -
    have len: "length kjs = length kvs" using list_all2_lengthD [OF kjs(2)] .
    have "fst (kvs ! n) = fst (lws ! n)" "denotes nodes (snd (kjs ! n)) (snd (kvs ! n))"
      "denotes nodes (snd (kjs ! n)) (snd (lws ! n))"
      using list_all2_nthD [OF kjs(2)] list_all2_nthD [OF lws(2)] n len by auto
    then show ?thesis using JObject.IH [of "kvs ! n" "snd (kvs ! n)"] n
      by (metis nth_mem prod.collapse prod_set_simps(2) singletonI)
  qed
  then have "kvs = lws"
    using list_all2_lengthD [OF kjs(2)] list_all2_lengthD [OF lws(2)] by (simp add: list_eq_iff_nth_eq)
  then show ?case by (simp add: lws(1))
qed (erule denotes.cases; auto)+

section \<open>Decoding\<close>

lemma json_decode_cases:
  obtains "json_decode limits bytes = Some (Ok None)"
  | d v where "json_decode limits bytes = Some (Ok (Some (GDocument d (document_root d))))"
      "json_parse bytes (limit_value (lim_json_depth limits)) (limit_value (lim_json_nodes limits)) = Some (Ok v)"
      "denotes (document_nodes d) (document_root d) v" "node_ok v"
      "keeps (limit_value (lim_json_depth limits)) (node_height v)"
      "keeps (limit_value (lim_json_nodes limits)) (node_size v)" "node_size v \<le> u64_max"
proof -
  let ?d = "limit_value (lim_json_depth limits)" and ?n = "limit_value (lim_json_nodes limits)"
  obtain r where r: "json_parse bytes ?d ?n = Some r"
    "yields (\<lambda>v. node_ok v \<and> keeps ?d (node_height v) \<and> keeps ?n (node_size v) \<and> node_size v \<le> u64_max) r"
    using json_parse_yields by blast
  from r(2) show ?thesis
  proof (cases rule: yields_cases)
    case (1 v)
    obtain d where "from_node v = Some (Ok d)" "denotes (document_nodes d) (document_root d) v"
      using from_node_denotes by blast
    with 1 r(1) show ?thesis using that(2) [of d v] by (simp add: json_decode_def)
  next
    case 2
    with r(1) show ?thesis using that(1) by (simp add: json_decode_def)
  qed
qed

text \<open>
  C9: \<open>json_decode\<close> returns on every byte string and does not panic.  It answers \<open>None\<close> or
  a document whose nodes are a finite tree, children before parents and every index in
  bounds: the strings of the tree are valid UTF-8, the keys of each object strictly
  increase, coefficients are well formed and exponents 64 bits wide, no value lies in more
  containers than the configured depth, and there are at most as many values as the
  configured count.
\<close>

theorem json_decode_bounded:
  "\<exists>r. json_decode limits bytes = Some (Ok r) \<and>
    (case r of None \<Rightarrow> True | Some g \<Rightarrow>
      (\<exists>d v. g = GDocument d (document_root d) \<and> denotes (document_nodes d) (document_root d) v \<and> node_ok v \<and>
        \<not> over (limit_value (lim_json_depth limits)) (node_height v) \<and>
        \<not> over (limit_value (lim_json_nodes limits)) (node_size v)))"
  by (rule json_decode_cases [of limits bytes]) auto

section \<open>Encoding\<close>

text \<open>
  C16: every tree is stored in a document that denotes it, and under every policy the
  document encodes as the text of the tree, or is refused with a resource error exactly
  when a value lies deeper than the configured nesting limit.  The strings of the tree
  are valid, its keys increase, and no exponent is the smallest 64-bit number.
\<close>

theorem json_document_encodes_tree:
  assumes "node_printable v"
  shows "\<exists>d. from_node v = Some (Ok d) \<and> denotes (document_nodes d) (document_root d) v \<and>
    (\<forall>limits. json_encode limits (GDocument d (document_root d)) =
      Some (if over (limit_value (lim_json_depth limits)) (node_height v)
            then Err (nesting_refused (limit_value (lim_json_depth limits))) else Ok (json_text v)))"
proof -
  obtain d where "from_node v = Some (Ok d)" "denotes (document_nodes d) (document_root d) v"
    using from_node_denotes by blast
  with json_encode_denotes [OF _ assms] show ?thesis by auto
qed

theorem json_document_encodes_tree_witness:
  "\<exists>d. from_node (JObject [(''k'', JArray [JNull, JBool True])]) = Some (Ok d) \<and>
    json_encode unlimited_limits (GDocument d (document_root d)) =
      Some (Ok ([CHR ''{'', CHR 0x22, CHR ''k'', CHR 0x22] @ '':[null,true]}''))"
proof -
  let ?v = "JObject [(''k'', JArray [JNull, JBool True])]"
  have "utf8_valid ''k''" by (simp add: utf8_valid_ascii)
  then have printable: "node_printable ?v" by (simp add: keys_sorted_def)
  have printed: "json_text ?v = [CHR ''{'', CHR 0x22, CHR ''k'', CHR 0x22] @ '':[null,true]}''" by code_simp
  obtain d where d: "from_node ?v = Some (Ok d)"
    "\<forall>limits. json_encode limits (GDocument d (document_root d)) =
      Some (if over (limit_value (lim_json_depth limits)) (node_height ?v)
            then Err (nesting_refused (limit_value (lim_json_depth limits))) else Ok (json_text ?v))"
    using json_document_encodes_tree [OF printable] by blast
  have "\<not> over (limit_value (lim_json_depth unlimited_limits)) n" for n
    by (simp add: over_def unlimited_limits_def)
  with d show ?thesis unfolding printed by simp
qed

text \<open>
  C6: a document that was decoded encodes under the same policy, and its text decodes
  there again, to a tree of the same shape with the same strings, keys and booleans, each
  number standing for the same rational.  The one condition is that no number has the
  smallest 64-bit exponent.
\<close>

theorem json_roundtrip:
  assumes "json_decode limits bytes = Some (Ok (Some (GDocument d i)))"
    and "denotes (document_nodes d) i v" "\<forall>n \<in> set (json_numbers v). i64_min < exponent10 n"
  shows "\<exists>s e w. json_encode limits (GDocument d i) = Some (Ok s) \<and>
    json_decode limits s = Some (Ok (Some (GDocument e (document_root e)))) \<and>
    denotes (document_nodes e) (document_root e) w \<and> json_same v w"
proof (rule json_decode_cases [of limits bytes])
  assume "json_decode limits bytes = Some (Ok None)"
  then show ?thesis using assms(1) by simp
next
  fix d' v'
  assume *: "json_decode limits bytes = Some (Ok (Some (GDocument d' (document_root d'))))"
    "denotes (document_nodes d') (document_root d') v'" "node_ok v'"
    "keeps (limit_value (lim_json_depth limits)) (node_height v')"
    "keeps (limit_value (lim_json_nodes limits)) (node_size v')" "node_size v' \<le> u64_max"
  then have "v' = v" "d' = d" "i = document_root d" using assms(1,2) denotes_unique by auto
  then have v: "node_printable v" using * assms(3) by (simp add: node_printable_def)
  from json_parse_text [OF v] * \<open>v' = v\<close> obtain w where w: "json_same v w"
    "json_parse (json_text v) (limit_value (lim_json_depth limits)) (limit_value (lim_json_nodes limits)) = Some (Ok w)"
    by blast
  obtain e where "from_node w = Some (Ok e)" "denotes (document_nodes e) (document_root e) w"
    using from_node_denotes by blast
  with w json_encode_denotes [OF assms(2) v] * \<open>v' = v\<close> show ?thesis by (simp add: json_decode_def) blast
qed

text \<open>The document \<open>[1.50, true]\<close>.\<close>

definition sample_number :: json_number where
  "sample_number = \<lparr>coefficient = \<lparr>negative = False, limbs = [150]\<rparr>, exponent10 = - 2, lexeme = ''1.50''\<rparr>"

definition sample_document :: json_document where
  "sample_document = \<lparr>document_nodes = [DNumber sample_number, DBool True, DArray [0, 1]], document_root = 2\<rparr>"

theorem json_roundtrip_witness:
  "\<exists>s e w. json_encode unlimited_limits (GDocument sample_document 2) = Some (Ok s) \<and>
    json_decode unlimited_limits s = Some (Ok (Some (GDocument e (document_root e)))) \<and>
    denotes (document_nodes e) (document_root e) w \<and> json_same (JArray [JNumber sample_number, JBool True]) w"
proof (rule json_roundtrip)
  show "json_decode unlimited_limits ''[1.50, true]'' = Some (Ok (Some (GDocument sample_document 2)))" by code_simp
  show "denotes (document_nodes sample_document) 2 (JArray [JNumber sample_number, JBool True])"
    by (rule denotes_array [where js = "[0, 1]"]; (intro list_all2_Cons [THEN iffD2] conjI denotes_number denotes_bool)?)
      (simp_all add: sample_document_def)
  show "\<forall>n \<in> set (json_numbers (JArray [JNumber sample_number, JBool True])). i64_min < exponent10 n"
    by (simp add: sample_number_def i64_min_def)
qed

section \<open>Numbers\<close>

text \<open>
  C18: two numbers compare equal exactly when they stand for the same rational, whatever
  their representation, and the comparison does not panic, provided the zeros at the end
  of each coefficient fit below the largest exponent.
\<close>

theorem json_number_equality:
  assumes "well_formed (coefficient a)" "roomy (int_of (coefficient a)) (exponent10 a)"
    and "well_formed (coefficient b)" "roomy (int_of (coefficient b)) (exponent10 b)"
  shows "json_number_eq a b = Ok (number_value a = number_value b)"
  by (rule json_number_eq_ok [OF assms])

definition other_number :: json_number where
  "other_number = \<lparr>coefficient = \<lparr>negative = False, limbs = [15]\<rparr>, exponent10 = - 1, lexeme = ''15e-1''\<rparr>"

theorem json_number_equality_witness: "json_number_eq sample_number other_number = Ok True"
proof -
  have ok: "well_formed (coefficient sample_number)" "well_formed (coefficient other_number)"
    by (simp_all add: well_formed_def sample_number_def other_number_def BASE_def)
  have parts: "int_of (coefficient sample_number) = 150" "exponent10 sample_number = - 2"
    "int_of (coefficient other_number) = 15" "exponent10 other_number = - 1"
    by (simp_all add: int_of_def sample_number_def other_number_def)
  have big: "150 < (10 :: int) ^ nat (i64_max - e)" if "e \<le> 0" for e :: int
  proof -
    have "(10 :: int) ^ 3 \<le> 10 ^ nat (i64_max - e)"
      by (rule power_increasing) (use that in \<open>simp_all add: i64_max_def\<close>)
    then show ?thesis by simp
  qed
  have "roomy 150 (- 2)" "roomy 15 (- 1)"
    using big [of "- 2"] big [of "- 1"] by (simp_all add: roomy_def i64_min_def)
  moreover have "number_value sample_number = number_value other_number"
    using decimal_value_10 [of 15 "- 2"] by (simp add: number_value_def parts)
  ultimately show ?thesis
    using json_number_equality [of sample_number other_number] ok parts by simp
qed

section \<open>The ends of the exponents\<close>

text \<open>
  C34: at the largest exponent two numbers that differ by a factor of ten compare equal,
  since \<open>normalized_parts\<close> keeps the divided coefficient when the exponent cannot grow; and
  at the smallest exponent a number decodes and encodes, but to a text that does not decode.
\<close>

theorem json_exponent_limits:
  "(\<exists>a b. json_parse ''10e9223372036854775807'' None None = Some (Ok (JNumber a)) \<and>
     json_parse ''1e9223372036854775807'' None None = Some (Ok (JNumber b)) \<and>
     json_number_eq a b = Ok True \<and> number_value a = 10 * number_value b \<and> number_value b \<noteq> 0) \<and>
   (\<exists>d. json_decode unlimited_limits ''0.1e-9223372036854775807'' = Some (Ok (Some (GDocument d 0))) \<and>
     json_encode unlimited_limits (GDocument d 0) = Some (Ok ''1.0e-9223372036854775808'') \<and>
     json_decode unlimited_limits ''1.0e-9223372036854775808'' = Some (Ok None))"
proof (intro conjI)
  let ?a = "\<lparr>coefficient = \<lparr>negative = False, limbs = [10]\<rparr>, exponent10 = i64_max, lexeme = ''10e9223372036854775807''\<rparr>"
  let ?b = "\<lparr>coefficient = \<lparr>negative = False, limbs = [1]\<rparr>, exponent10 = i64_max, lexeme = ''1e9223372036854775807''\<rparr>"
  have "json_parse ''10e9223372036854775807'' None None = Some (Ok (JNumber ?a))"
    "json_parse ''1e9223372036854775807'' None None = Some (Ok (JNumber ?b))"
    "json_number_eq ?a ?b = Ok True" by code_simp+
  moreover have "number_value ?a = 10 * number_value ?b" "number_value ?b \<noteq> 0"
    by (simp_all add: number_value_def decimal_value_def int_of_def)
  ultimately show "\<exists>a b. json_parse ''10e9223372036854775807'' None None = Some (Ok (JNumber a)) \<and>
     json_parse ''1e9223372036854775807'' None None = Some (Ok (JNumber b)) \<and>
     json_number_eq a b = Ok True \<and> number_value a = 10 * number_value b \<and> number_value b \<noteq> 0" by blast
  let ?n = "\<lparr>coefficient = \<lparr>negative = False, limbs = [1]\<rparr>, exponent10 = i64_min, lexeme = ''0.1e-9223372036854775807''\<rparr>"
  let ?d = "\<lparr>document_nodes = [DNumber ?n], document_root = 0\<rparr>"
  have "json_decode unlimited_limits ''0.1e-9223372036854775807'' = Some (Ok (Some (GDocument ?d 0)))"
    "json_encode unlimited_limits (GDocument ?d 0) = Some (Ok ''1.0e-9223372036854775808'')"
    "json_decode unlimited_limits ''1.0e-9223372036854775808'' = Some (Ok None)" by code_simp+
  then show "\<exists>d. json_decode unlimited_limits ''0.1e-9223372036854775807'' = Some (Ok (Some (GDocument d 0))) \<and>
     json_encode unlimited_limits (GDocument d 0) = Some (Ok ''1.0e-9223372036854775808'') \<and>
     json_decode unlimited_limits ''1.0e-9223372036854775808'' = Some (Ok None)" by blast
qed

end
