(* ===== verification/Hell_Ordered_Tree.thy ===== *)
theory Hell_Ordered_Tree
  imports Hell_Positional
begin

text \<open>
  The persistent tree of \<open>crates/hell-runtime/src/native_collections.rs\<close>
  (\<open>TreeNode\<close>, \<open>PersistentTree\<close>): the size-balanced search tree under the guest's
  \<open>Map\<close> and \<open>Set\<close>.  A node caches the number of its items, as \<open>len\<close> does; sizes are
  natural numbers.  \<open>Arc\<close> references are the trees they point to; a function that takes a
  node rather than an optional node is undefined on \<open>Empty\<close>, which is a panic here, as is
  each \<open>expect\<close>.
\<close>

section \<open>Computations of the evaluator\<close>

text \<open>
  A comparator is a closure over the mutable evaluator: it may change its state, and it may
  fail.  A computation takes the state and returns the outcome with the new state.
\<close>

type_synonym ('s, 'a, 'e) evaluation = "'s \<Rightarrow> ('a, 'e) res \<times> 's"

definition eval_return :: "'a \<Rightarrow> ('s, 'a, 'e) evaluation" where
  "eval_return a = (\<lambda>s. (Ok a, s))"

definition eval_fail :: "'e \<Rightarrow> ('s, 'a, 'e) evaluation" where
  "eval_fail e = (\<lambda>s. (Err e, s))"

definition eval_res :: "('a, 'e) res \<Rightarrow> ('s, 'a, 'e) evaluation" where
  "eval_res r = (\<lambda>s. (r, s))"

definition eval_bind ::
  "('s, 'a, 'e) evaluation \<Rightarrow> ('a \<Rightarrow> ('s, 'b, 'e) evaluation) \<Rightarrow> ('s, 'b, 'e) evaluation" where
  "eval_bind m f = (\<lambda>s. case m s of
     (Ok a, s') \<Rightarrow> f a s' | (Err e, s') \<Rightarrow> (Err e, s') | (Panic, s') \<Rightarrow> (Panic, s'))"

section \<open>Trees\<close>

datatype 'a tree = Empty | Node 'a "'a tree" "'a tree" nat

definition size_balance_delta :: nat where
  "size_balance_delta = 3"

definition size_balance_ratio :: nat where
  "size_balance_ratio = 2"

fun node_len :: "'a tree \<Rightarrow> nat" where
  "node_len Empty = 0"
| "node_len (Node x l r n) = n"

definition tree_node :: "'a \<Rightarrow> 'a tree \<Rightarrow> 'a tree \<Rightarrow> 'a tree" where
  "tree_node x l r = Node x l r (1 + node_len l + node_len r)"

definition tree_singleton :: "'a \<Rightarrow> 'a tree" where
  "tree_singleton x = tree_node x Empty Empty"

text \<open>\<open>split_at\<close> the middle, then \<open>split_first\<close> of the rest.\<close>

function tree_from_sorted :: "'a list \<Rightarrow> 'a tree" where
  "tree_from_sorted xs =
    (case drop (length xs div 2) xs of
       [] \<Rightarrow> Empty
     | y # ys \<Rightarrow> tree_node y (tree_from_sorted (take (length xs div 2) xs)) (tree_from_sorted ys))"
  by pat_completeness auto
termination
proof (relation "measure length", goal_cases)
  case (2 xs y ys)
  then have "xs \<noteq> []" by auto
  then show ?case by simp
next
  case (3 xs y ys)
  then have "length (y # ys) \<le> length xs" by (metis length_drop diff_le_self)
  then show ?case by simp
qed simp

declare tree_from_sorted.simps [simp del]

section \<open>Iteration\<close>

text \<open>\<open>TreeIter\<close>: a stack of nodes whose item and right branch are still to come.\<close>

fun push_left :: "'a tree list \<Rightarrow> 'a tree \<Rightarrow> 'a tree list" where
  "push_left stack Empty = stack"
| "push_left stack (Node x l r n) = push_left (Node x l r n # stack) l"

fun tree_next :: "'a tree list \<Rightarrow> ('a \<times> 'a tree list) option" where
  "tree_next (Node x l r n # stack) = Some (x, push_left stack r)"
| "tree_next _ = None"

definition drain_step :: "'a list \<times> 'a tree list \<Rightarrow> ('a list \<times> 'a tree list) + 'a list" where
  "drain_step p = (case tree_next (snd p) of
     None \<Rightarrow> Inr (fst p)
   | Some (x, stack) \<Rightarrow> Inl (fst p @ [x], stack))"

text \<open>\<open>iter().collect()\<close>.\<close>

definition tree_collect :: "'a tree \<Rightarrow> 'a list option" where
  "tree_collect t = run drain_step ([], push_left [] t)"

section \<open>Rotations and balance\<close>

fun rotate_left :: "'a tree \<Rightarrow> ('a tree, 'e) res" where
  "rotate_left (Node x l (Node y rl rr m) n) = Ok (tree_node y (tree_node x l rl) rr)"
| "rotate_left _ = Panic"

fun rotate_right :: "'a tree \<Rightarrow> ('a tree, 'e) res" where
  "rotate_right (Node x (Node y ll lr m) r n) = Ok (tree_node y ll (tree_node x lr r))"
| "rotate_right _ = Panic"

fun balance_left :: "'a tree \<Rightarrow> ('a tree, 'e) res" where
  "balance_left Empty = Panic"
| "balance_left (Node x l r n) =
    (if node_len l + node_len r \<le> 1 \<or> node_len l \<le> size_balance_delta * node_len r
     then Ok (Node x l r n)
     else (case l of
       Empty \<Rightarrow> Panic
     | Node y ll lr m \<Rightarrow>
         if node_len lr < size_balance_ratio * node_len ll
         then rotate_right (Node x l r n)
         else res_bind (rotate_left l) (\<lambda>l'. rotate_right (tree_node x l' r))))"

fun balance_right :: "'a tree \<Rightarrow> ('a tree, 'e) res" where
  "balance_right Empty = Panic"
| "balance_right (Node x l r n) =
    (if node_len l + node_len r \<le> 1 \<or> node_len r \<le> size_balance_delta * node_len l
     then Ok (Node x l r n)
     else (case r of
       Empty \<Rightarrow> Panic
     | Node y rl rr m \<Rightarrow>
         if node_len rl < size_balance_ratio * node_len rr
         then rotate_left (Node x l r n)
         else res_bind (rotate_right r) (\<lambda>r'. rotate_left (tree_node x l r'))))"

section \<open>Joining\<close>

fun insert_min :: "'a \<Rightarrow> 'a tree \<Rightarrow> ('a tree, 'e) res" where
  "insert_min x Empty = Ok (tree_node x Empty Empty)"
| "insert_min x (Node y l r n) = res_bind (insert_min x l) (\<lambda>l'. balance_left (tree_node y l' r))"

fun insert_max :: "'a \<Rightarrow> 'a tree \<Rightarrow> ('a tree, 'e) res" where
  "insert_max x Empty = Ok (tree_node x Empty Empty)"
| "insert_max x (Node y l r n) = res_bind (insert_max x r) (\<lambda>r'. balance_right (tree_node y l r'))"

fun link :: "'a \<Rightarrow> 'a tree \<Rightarrow> 'a tree \<Rightarrow> ('a tree, 'e) res" where
  "link x Empty r = insert_min x r"
| "link x (Node y ll lr m) Empty = insert_max x (Node y ll lr m)"
| "link x (Node y ll lr m) (Node z rl rr n) =
    (if size_balance_delta * m < n
     then res_bind (link x (Node y ll lr m) rl) (\<lambda>l'. balance_left (tree_node z l' rr))
     else if size_balance_delta * n < m
     then res_bind (link x lr (Node z rl rr n)) (\<lambda>r'. balance_right (tree_node y ll r'))
     else Ok (tree_node x (Node y ll lr m) (Node z rl rr n)))"

fun take_min :: "'a tree \<Rightarrow> ('a \<times> 'a tree, 'e) res" where
  "take_min Empty = Panic"
| "take_min (Node x l r n) =
    (if l = Empty then Ok (x, r)
     else res_bind (take_min l) (\<lambda>(y, l'). res_bind (balance_right (tree_node x l' r)) (\<lambda>t. Ok (y, t))))"

fun take_max :: "'a tree \<Rightarrow> ('a \<times> 'a tree, 'e) res" where
  "take_max Empty = Panic"
| "take_max (Node x l r n) =
    (if r = Empty then Ok (x, l)
     else res_bind (take_max r) (\<lambda>(y, r'). res_bind (balance_left (tree_node x l r')) (\<lambda>t. Ok (y, t))))"

fun glue :: "'a tree \<Rightarrow> 'a tree \<Rightarrow> ('a tree, 'e) res" where
  "glue Empty r = Ok r"
| "glue (Node x ll lr m) Empty = Ok (Node x ll lr m)"
| "glue (Node x ll lr m) (Node y rl rr n) =
    (if n < m
     then res_bind (take_max (Node x ll lr m)) (\<lambda>(z, l'). balance_right (tree_node z l' (Node y rl rr n)))
     else res_bind (take_min (Node y rl rr n)) (\<lambda>(z, r'). balance_left (tree_node z (Node x ll lr m) r')))"

fun merge_nodes :: "'a tree \<Rightarrow> 'a tree \<Rightarrow> ('a tree, 'e) res" where
  "merge_nodes Empty r = Ok r"
| "merge_nodes (Node x ll lr m) Empty = Ok (Node x ll lr m)"
| "merge_nodes (Node x ll lr m) (Node y rl rr n) =
    (if size_balance_delta * m < n
     then res_bind (merge_nodes (Node x ll lr m) rl) (\<lambda>l'. balance_left (tree_node y l' rr))
     else if size_balance_delta * n < m
     then res_bind (merge_nodes lr (Node y rl rr n)) (\<lambda>r'. balance_right (tree_node x ll r'))
     else glue (Node x ll lr m) (Node y rl rr n))"

section \<open>Searching operations\<close>

fun tree_find :: "('a \<Rightarrow> ('s, ordering, 'e) evaluation) \<Rightarrow> 'a tree \<Rightarrow> ('s, 'a option, 'e) evaluation" where
  "tree_find cmp Empty = eval_return None"
| "tree_find cmp (Node x l r n) = eval_bind (cmp x) (\<lambda>c. case c of
     Less \<Rightarrow> tree_find cmp l
   | Equal \<Rightarrow> eval_return (Some x)
   | Greater \<Rightarrow> tree_find cmp r)"

fun tree_insert :: "'a \<Rightarrow> ('a \<Rightarrow> 'a \<Rightarrow> ('s, ordering, 'e) evaluation) \<Rightarrow> 'a tree \<Rightarrow> ('s, 'a tree, 'e) evaluation" where
  "tree_insert x cmp Empty = eval_return (tree_node x Empty Empty)"
| "tree_insert x cmp (Node y l r n) = eval_bind (cmp x y) (\<lambda>c. case c of
     Less \<Rightarrow> eval_bind (tree_insert x cmp l) (\<lambda>l'. eval_res (balance_left (tree_node y l' r)))
   | Equal \<Rightarrow> eval_return (tree_node x l r)
   | Greater \<Rightarrow> eval_bind (tree_insert x cmp r) (\<lambda>r'. eval_res (balance_right (tree_node y l r'))))"

fun tree_remove :: "('a \<Rightarrow> ('s, ordering, 'e) evaluation) \<Rightarrow> 'a tree \<Rightarrow> ('s, 'a tree, 'e) evaluation" where
  "tree_remove cmp Empty = eval_return Empty"
| "tree_remove cmp (Node y l r n) = eval_bind (cmp y) (\<lambda>c. case c of
     Less \<Rightarrow> eval_bind (tree_remove cmp l) (\<lambda>l'. eval_res (balance_right (tree_node y l' r)))
   | Greater \<Rightarrow> eval_bind (tree_remove cmp r) (\<lambda>r'. eval_res (balance_left (tree_node y l r')))
   | Equal \<Rightarrow> eval_res (glue l r))"

fun tree_split ::
  "('a \<Rightarrow> ('s, ordering, 'e) evaluation) \<Rightarrow> 'a tree \<Rightarrow> ('s, 'a tree \<times> 'a option \<times> 'a tree, 'e) evaluation" where
  "tree_split cmp Empty = eval_return (Empty, None, Empty)"
| "tree_split cmp (Node y l r n) = eval_bind (cmp y) (\<lambda>c. case c of
     Less \<Rightarrow> eval_bind (tree_split cmp l) (\<lambda>(lower, found, upper).
       eval_bind (eval_res (link y upper r)) (\<lambda>u. eval_return (lower, found, u)))
   | Equal \<Rightarrow> eval_return (l, Some y, r)
   | Greater \<Rightarrow> eval_bind (tree_split cmp r) (\<lambda>(lower, found, upper).
       eval_bind (eval_res (link y l lower)) (\<lambda>w. eval_return (w, found, upper))))"

end
