(* ===== verification/Hell_Tree_Balance.thy ===== *)
theory Hell_Tree_Balance
  imports Hell_Ordered_Tree
begin

text \<open>
  The invariant of the persistent tree and what the joining functions make of it: from trees
  in balance, none of the \<open>expect\<close>s of the rotations is reached, the result is in balance
  and holds the same items in the same order.
\<close>

section \<open>The invariant\<close>

fun entries :: "'a tree \<Rightarrow> 'a list" where
  "entries Empty = []"
| "entries (Node x l r n) = entries l @ x # entries r"

definition in_balance :: "nat \<Rightarrow> nat \<Rightarrow> bool" where
  "in_balance a b \<longleftrightarrow> a + b \<le> 1 \<or> (a \<le> 3 * b \<and> b \<le> 3 * a)"

fun wb :: "'a tree \<Rightarrow> bool" where
  "wb Empty = True"
| "wb (Node x l r n) \<longleftrightarrow> n = Suc (node_len l + node_len r) \<and> in_balance (node_len l) (node_len r) \<and> wb l \<and> wb r"

lemma wb_len [simp]: "wb t \<Longrightarrow> length (entries t) = node_len t"
  by (induction t) simp_all

lemma wb_Empty: "wb t \<Longrightarrow> node_len t = 0 \<longleftrightarrow> t = Empty"
  by (cases t) simp_all

text \<open>
  How far from balance a branch may be when it is repaired: one insertion or removal away, or
  as much too large as a \<open>link\<close> that absorbed a small tree leaves it.
\<close>

definition heavy :: "nat \<Rightarrow> nat \<Rightarrow> bool" where
  "heavy a b \<longleftrightarrow> (a + b \<le> 1 \<or> b \<le> 3 * a) \<and> (a \<le> 3 * b + 3 \<or> 3 * a \<le> 13 * b + 3)"

lemma in_balance_sym: "in_balance a b \<longleftrightarrow> in_balance b a"
  by (auto simp: in_balance_def)

lemma in_balanceI: "(1 < a + b \<Longrightarrow> a \<le> 3 * b) \<Longrightarrow> (1 < a + b \<Longrightarrow> b \<le> 3 * a) \<Longrightarrow> in_balance a b"
  by (auto simp: in_balance_def)

lemma heavy_balanced: "heavy a b \<Longrightarrow> a + b \<le> 1 \<or> a \<le> 3 * b \<Longrightarrow> in_balance a b"
  by (auto simp: heavy_def in_balance_def)

lemma single_rotation:
  assumes "heavy (Suc (a + b)) c" "in_balance a b" "3 * c < Suc (a + b)" "1 < Suc (a + b) + c" "b < 2 * a"
  shows "in_balance b c" "in_balance a (Suc (b + c))"
  using assms unfolding in_balance_def heavy_def mult_Suc_right distrib_left by linarith+

lemma double_rotation:
  assumes "heavy (Suc (a + Suc (b + b'))) c" "in_balance a (Suc (b + b'))" "in_balance b b'"
    "3 * c < Suc (a + Suc (b + b'))" "\<not> Suc (b + b') < 2 * a"
  shows "in_balance a b" "in_balance b' c" "in_balance (Suc (a + b)) (Suc (b' + c))"
  using assms unfolding in_balance_def heavy_def mult_Suc_right distrib_left by linarith+

section \<open>Balancing\<close>

definition makes :: "('a tree, 'e) res \<Rightarrow> 'a list \<Rightarrow> bool" where
  "makes m xs \<longleftrightarrow> (\<exists>t. m = Ok t \<and> wb t \<and> entries t = xs)"

lemma balance_left_makes:
  assumes "wb l" "wb r" "heavy (node_len l) (node_len r)"
  shows "makes (balance_left (tree_node x l r)) (entries l @ x # entries r)"
proof (cases "node_len l + node_len r \<le> 1 \<or> node_len l \<le> 3 * node_len r")
  case True
  with assms heavy_balanced [OF assms(3) True] show ?thesis
    by (simp add: makes_def tree_node_def size_balance_delta_def)
next
  case False
  then obtain y ll lr m where l: "l = Node y ll lr m" by (cases l) auto
  with assms have m: "m = Suc (node_len ll + node_len lr)" "in_balance (node_len ll) (node_len lr)" "wb ll" "wb lr"
    by simp_all
  show ?thesis
  proof (cases "node_len lr < 2 * node_len ll")
    case True
    with single_rotation [of "node_len ll" "node_len lr" "node_len r"] assms False l m show ?thesis
      by (simp add: makes_def tree_node_def size_balance_delta_def size_balance_ratio_def)
  next
    case single: False
    then obtain z a b k where lr: "lr = Node z a b k"
      using m(1,2) False l by (cases lr) (auto simp: in_balance_def)
    with double_rotation [of "node_len ll" "node_len a" "node_len b" "node_len r"] assms False l m single
    show ?thesis
      by (simp add: makes_def tree_node_def size_balance_delta_def size_balance_ratio_def)
  qed
qed

text \<open>The operations on the right are those on the left in the mirror.\<close>

fun mirror :: "'a tree \<Rightarrow> 'a tree" where
  "mirror Empty = Empty"
| "mirror (Node x l r n) = Node x (mirror r) (mirror l) n"

definition mirrored :: "('a tree, 'e) res \<Rightarrow> ('a tree, 'e) res" where
  "mirrored m = res_bind m (\<lambda>t. Ok (mirror t))"

lemma node_len_mirror [simp]: "node_len (mirror t) = node_len t"
  by (cases t) simp_all

lemma mirror_simps [simp]:
  "mirror (mirror t) = t" "wb (mirror t) = wb t"
  "entries (mirror t) = rev (entries t)" "mirror t = Empty \<longleftrightarrow> t = Empty"
  by (induction t) (auto simp: in_balance_sym)

lemma mirror_tree_node [simp]: "mirror (tree_node x l r) = tree_node x (mirror r) (mirror l)"
  by (simp add: tree_node_def)

lemma mirrored_bind: "mirrored (res_bind m f) = res_bind m (\<lambda>t. mirrored (f t))"
  by (cases m) (simp_all add: mirrored_def)

lemma mirrored_Ok [simp]: "mirrored (Ok t) = Ok (mirror t)" "mirrored Panic = Panic" "mirrored (Err e) = Err e"
  by (simp_all add: mirrored_def)

lemma makes_mirrored: "makes (mirrored m) xs \<longleftrightarrow> makes m (rev xs)"
  by (cases m) (auto simp: makes_def mirrored_def)

lemma rotate_mirror: "rotate_right t = mirrored (rotate_left (mirror t))"
  by (cases t rule: rotate_right.cases) (auto simp: mirrored_def)

lemma rotate_mirror': "rotate_left t = mirrored (rotate_right (mirror t))"
  by (cases t rule: rotate_left.cases) (auto simp: mirrored_def)

lemma balance_mirror: "balance_right t = mirrored (balance_left (mirror t))"
proof (cases t)
  case (Node x l r n)
  show ?thesis
  proof (cases r)
    case (Node y rl rr m)
    with \<open>t = Node x l r n\<close> show ?thesis
      by (cases rl) (auto simp: rotate_mirror' mirrored_def add.commute tree_node_def)
  qed (use Node in \<open>simp add: mirrored_def\<close>)
qed (simp add: mirrored_def)

lemma balance_right_makes:
  assumes "wb l" "wb r" "heavy (node_len r) (node_len l)"
  shows "makes (balance_right (tree_node x l r)) (entries l @ x # entries r)"
  using balance_left_makes [of "mirror r" "mirror l" x] assms by (simp add: balance_mirror makes_mirrored)

section \<open>Joining\<close>

lemma makes_bind:
  assumes "makes m xs" and "\<And>t. wb t \<Longrightarrow> node_len t = length xs \<Longrightarrow> entries t = xs \<Longrightarrow> makes (f t) ys"
  shows "makes (res_bind m f) ys"
proof -
  from assms(1) obtain t where "m = Ok t" "wb t" "entries t = xs" by (auto simp: makes_def)
  with assms(2) [of t] wb_len [of t] show ?thesis by simp
qed

lemma makes_Ok: "wb t \<Longrightarrow> makes (Ok t) (entries t)"
  by (simp add: makes_def)

lemma makes_single: "makes (Ok (tree_node x Empty Empty)) [x]"
  by (simp add: makes_def tree_node_def in_balance_def)

lemma grown: "in_balance a b \<Longrightarrow> heavy (Suc a) b"
  by (auto simp: heavy_def in_balance_def)

lemma heavy_same: "in_balance a b \<Longrightarrow> heavy a b"
  by (auto simp: heavy_def in_balance_def)

lemma shrunk: "in_balance a (Suc b) \<Longrightarrow> heavy a b"
  by (auto simp: heavy_def in_balance_def)

lemma insert_min_makes: "wb t \<Longrightarrow> makes (insert_min x t) (x # entries t)"
proof (induction t)
  case (Node y l r n)
  have "makes (balance_left (tree_node y l' r)) (x # entries (Node y l r n))"
    if "wb l'" "node_len l' = length (x # entries l)" "entries l' = x # entries l" for l'
    using balance_left_makes [of l' r y] that Node.prems grown [of "node_len l" "node_len r"] by simp
  with Node show ?case by (auto intro!: makes_bind)
qed (simp add: makes_single)

lemma bind_mirrored: "res_bind (mirrored m) f = res_bind m (\<lambda>t. f (mirror t))"
  by (cases m) simp_all

lemma insert_mirror: "insert_max x t = mirrored (insert_min x (mirror t))"
  by (induction t) (simp_all add: mirrored_bind bind_mirrored balance_mirror del: balance_left.simps)

lemma insert_max_makes: "wb t \<Longrightarrow> makes (insert_max x t) (entries t @ [x])"
  using insert_min_makes [of "mirror t" x] by (simp add: insert_mirror makes_mirrored)

lemma absorbed:
  assumes "3 * m < Suc (a + b)" "in_balance a b" "m + a \<le> k" "k \<le> Suc (m + a)"
    "0 < m"
  shows "heavy k b"
  using assms unfolding heavy_def in_balance_def by linarith

lemma link_makes: "wb l \<Longrightarrow> wb r \<Longrightarrow> makes (link x l r) (entries l @ x # entries r)"
proof (induction x l r rule: link.induct)
  case (3 x y ll lr m z rl rr n)
  let ?l = "Node y ll lr m" and ?r = "Node z rl rr n"
  consider "3 * m < n" | "\<not> 3 * m < n" "3 * n < m" | "\<not> 3 * m < n" "\<not> 3 * n < m" by blast
  then show ?case
  proof cases
    case 1
    have "makes (balance_left (tree_node z t rr)) (entries ?l @ x # entries ?r)"
      if "wb t" "node_len t = length (entries ?l @ x # entries rl)" "entries t = entries ?l @ x # entries rl" for t
      using balance_left_makes [of t rr z] that 3(4) 1 absorbed [of m "node_len rl" "node_len rr" "node_len t"] 3(3)
      by simp
    with 1 3 show ?thesis by (auto intro!: makes_bind simp: size_balance_delta_def)
  next
    case 2
    have "makes (balance_right (tree_node y ll t)) (entries ?l @ x # entries ?r)"
      if "wb t" "node_len t = length (entries lr @ x # entries ?r)" "entries t = entries lr @ x # entries ?r" for t
      using balance_right_makes [of ll t y] that 3(3) 2 absorbed [of n "node_len lr" "node_len ll" "node_len t"] 3(4)
      by (simp add: in_balance_sym add.commute)
    with 2 3 show ?thesis by (auto intro!: makes_bind simp: size_balance_delta_def)
  next
    case 3
    with \<open>wb ?l\<close> \<open>wb ?r\<close> show ?thesis
      by (auto simp: size_balance_delta_def makes_def tree_node_def in_balance_def)
  qed
qed (simp_all add: insert_min_makes insert_max_makes [where t = "Node _ _ _ _", simplified])

lemma take_min_ok:
  "wb t \<Longrightarrow> t \<noteq> Empty \<Longrightarrow> \<exists>x t'. (take_min t :: ('a \<times> 'a tree, 'e) res) = Ok (x, t') \<and> wb t' \<and> entries t = x # entries t'"
proof (induction t)
  case (Node y l r n)
  show ?case
  proof (cases "l = Empty")
    case False
    with Node obtain x l' where l': "(take_min l :: ('a \<times> 'a tree, 'e) res) = Ok (x, l')" "wb l'" "entries l = x # entries l'" by auto
    with Node.prems have "node_len l = Suc (node_len l')" by (metis length_Cons wb.simps(2) wb_len)
    with balance_right_makes [of l' r y] l' Node.prems shrunk [of "node_len r" "node_len l'"]
    have "makes (balance_right (tree_node y l' r)) (entries l' @ y # entries r)" by (simp add: in_balance_sym)
    with False l' show ?thesis by (auto simp: makes_def)
  qed (use Node in simp)
qed simp

lemma bind_bind: "res_bind (res_bind m f) g = res_bind m (\<lambda>x. res_bind (f x) g)"
  by (cases m) simp_all

lemma take_mirror: "(take_max t :: ('a \<times> 'a tree, 'e) res) = res_bind (take_min (mirror t)) (\<lambda>(x, t'). Ok (x, mirror t'))"
proof (induction t)
  case (Node y l r n)
  show ?case
  proof (cases "r = Empty")
    case False
    have "(take_max (Node y l r n) :: ('a \<times> 'a tree, 'e) res) = res_bind (take_min (mirror r))
        (\<lambda>(x, t). res_bind (balance_left (tree_node y l (mirror t))) (\<lambda>t. Ok (x, t)))"
      using False Node by (simp add: bind_bind split_def del: balance_left.simps)
    also have "\<dots> = res_bind (take_min (mirror (Node y l r n))) (\<lambda>(x, t). Ok (x, mirror t))"
      using False by (simp add: balance_mirror bind_mirrored bind_bind split_def del: balance_left.simps)
    finally show ?thesis .
  qed simp
qed simp

lemma take_max_ok:
  "wb t \<Longrightarrow> t \<noteq> Empty \<Longrightarrow> \<exists>x t'. (take_max t :: ('a \<times> 'a tree, 'e) res) = Ok (x, t') \<and> wb t' \<and> entries t = entries t' @ [x]"
  using take_min_ok [of "mirror t", where 'e = 'e] by (force simp: take_mirror)

lemma glue_makes:
  fixes l r :: "'a tree"
  assumes "wb l" "wb r" "in_balance (node_len l) (node_len r)"
  shows "makes (glue l r :: ('a tree, 'e) res) (entries l @ entries r)"
proof (cases "(l, r)" rule: glue.cases)
  case (3 x ll lr m y rl rr n)
  show ?thesis
  proof (cases "n < m")
    case True
    from take_max_ok [of l, where 'e = 'e] assms 3 obtain z l' where l': "(take_max l :: ('a \<times> 'a tree, 'e) res) = Ok (z, l')" "wb l'" "entries l = entries l' @ [z]" by auto
    then have "node_len l = Suc (node_len l')" using wb_len [of l] wb_len [of l'] assms by simp
    with balance_right_makes [of l' r z] l' assms shrunk [of "node_len r" "node_len l'"] 3 True
    show ?thesis by (simp add: in_balance_sym)
  next
    case False
    from take_min_ok [of r, where 'e = 'e] assms 3 obtain z r' where r': "(take_min r :: ('a \<times> 'a tree, 'e) res) = Ok (z, r')" "wb r'" "entries r = z # entries r'" by auto
    then have "node_len r = Suc (node_len r')" using wb_len [of r] wb_len [of r'] assms by simp
    with balance_left_makes [of l r' z] r' assms shrunk [of "node_len l" "node_len r'"] 3 False
    show ?thesis by simp
  qed
qed (use assms in \<open>simp_all add: makes_def\<close>)

lemma merge_nodes_makes: "wb l \<Longrightarrow> wb r \<Longrightarrow> makes (merge_nodes l r) (entries l @ entries r)"
proof (induction l r rule: merge_nodes.induct)
  case (3 x ll lr m y rl rr n)
  let ?l = "Node x ll lr m" and ?r = "Node y rl rr n"
  consider "3 * m < n" | "\<not> 3 * m < n" "3 * n < m" | "\<not> 3 * m < n" "\<not> 3 * n < m" by blast
  then show ?case
  proof cases
    case 1
    have "makes (balance_left (tree_node y t rr)) (entries ?l @ entries ?r)"
      if "wb t" "node_len t = length (entries ?l @ entries rl)" "entries t = entries ?l @ entries rl" for t
      using balance_left_makes [of t rr y] that 3(4) 1 absorbed [of m "node_len rl" "node_len rr" "node_len t"] 3(3)
      by simp
    with 1 3 show ?thesis by (auto intro!: makes_bind simp: size_balance_delta_def)
  next
    case 2
    have "makes (balance_right (tree_node x ll t)) (entries ?l @ entries ?r)"
      if "wb t" "node_len t = length (entries lr @ entries ?r)" "entries t = entries lr @ entries ?r" for t
      using balance_right_makes [of ll t x] that 3(3) 2 absorbed [of n "node_len lr" "node_len ll" "node_len t"] 3(4)
      by (simp add: in_balance_sym add.commute)
    with 2 3 show ?thesis by (auto intro!: makes_bind simp: size_balance_delta_def)
  next
    case 3
    with \<open>wb ?l\<close> \<open>wb ?r\<close> glue_makes [of ?l ?r] show ?thesis
      by (simp add: size_balance_delta_def in_balance_def)
  qed
qed (simp_all add: makes_def)

lemma singleton_wb [simp]: "wb (tree_singleton x)" "entries (tree_singleton x) = [x]"
  by (simp_all add: tree_singleton_def tree_node_def in_balance_def)

lemma from_sorted_ok: "wb (tree_from_sorted xs) \<and> entries (tree_from_sorted xs) = xs"
proof (induction xs rule: tree_from_sorted.induct)
  case (1 xs)
  show ?case
  proof (cases "drop (length xs div 2) xs")
    case Nil
    then have "xs = []" by (metis length_drop length_greater_0_conv less_imp_diff_less list.size(3) diff_is_0_eq div_less_dividend leD one_less_numeral_iff semiring_norm(76))
    then show ?thesis by (simp add: tree_from_sorted.simps)
  next
    case (Cons y ys)
    let ?l = "tree_from_sorted (take (length xs div 2) xs)" and ?r = "tree_from_sorted ys"
    have IH: "wb ?l" "entries ?l = take (length xs div 2) xs" "wb ?r" "entries ?r = ys"
      using 1 Cons by auto
    have "length xs - length xs div 2 = Suc (length ys)" using Cons by (metis length_Cons length_drop)
    then have "in_balance (length xs div 2) (length ys)" by (auto simp: in_balance_def)
    moreover have "node_len ?l = length xs div 2" "node_len ?r = length ys"
      using IH wb_len [of ?l] wb_len [of ?r] by simp_all
    moreover have "take (length xs div 2) xs @ y # ys = xs" using Cons by (metis append_take_drop_id)
    ultimately show ?thesis using IH Cons by (simp add: tree_from_sorted.simps [of xs] tree_node_def)
  qed
qed

end
