(* ===== verification/Hell_Tree_Search.thy ===== *)
theory Hell_Tree_Search
  imports Hell_Tree_Balance
begin

text \<open>
  The searching operations of the persistent tree under a comparator that runs guest code.
  Whatever the comparator answers, the result is in balance; when it answers by a linear
  order, the operations are those of a sorted list.  Both are one induction: the locale
  \<open>comparator\<close> says whether the answers are \<open>lawful\<close> and whether a comparison may fail.
\<close>

section \<open>Total correctness of evaluations\<close>

text \<open>
  From a good state the computation does not panic; it ends in a good state with a value in
  \<open>Q\<close>, or, where \<open>fails\<close> allows it, in an error.
\<close>

fun ends :: "bool \<Rightarrow> ('s \<Rightarrow> bool) \<Rightarrow> ('a \<Rightarrow> bool) \<Rightarrow> ('a, 'e) res \<times> 's \<Rightarrow> bool" where
  "ends fails good Q (Ok a, s) \<longleftrightarrow> good s \<and> Q a"
| "ends fails good Q (Err e, s) = fails"
| "ends fails good Q (Panic, s) = False"

definition ensures :: "bool \<Rightarrow> ('s \<Rightarrow> bool) \<Rightarrow> ('s, 'a, 'e) evaluation \<Rightarrow> ('a \<Rightarrow> bool) \<Rightarrow> bool" where
  "ensures fails good m Q \<longleftrightarrow> (\<forall>s. good s \<longrightarrow> ends fails good Q (m s))"

lemma ends_weaken: "ends fails good P r \<Longrightarrow> (\<And>a. P a \<Longrightarrow> Q a) \<Longrightarrow> ends fails good Q r"
  by (cases "(fails, good, P, r)" rule: ends.cases) auto

lemma ensures_weaken: "ensures fails good m P \<Longrightarrow> (\<And>a. P a \<Longrightarrow> Q a) \<Longrightarrow> ensures fails good m Q"
  by (auto simp: ensures_def intro: ends_weaken)

lemma ensures_return: "Q a \<Longrightarrow> ensures fails good (eval_return a) Q"
  by (simp add: ensures_def eval_return_def)

lemma ensures_bind:
  assumes "ensures fails good m P" and "\<And>a. P a \<Longrightarrow> ensures fails good (f a) Q"
  shows "ensures fails good (eval_bind m f) Q"
  unfolding ensures_def
proof (intro allI impI)
  fix s assume "good s"
  with assms(1) have *: "ends fails good P (m s)" by (simp add: ensures_def)
  show "ends fails good Q (eval_bind m f s)"
  proof (cases "m s")
    case (Pair r s')
    with * assms(2) show ?thesis by (cases r) (auto simp: eval_bind_def ensures_def)
  qed
qed

lemma ensures_makes:
  assumes "makes m xs" and "\<And>t. wb t \<Longrightarrow> entries t = xs \<Longrightarrow> Q t"
  shows "ensures fails good (eval_res m) Q"
  using assms by (auto simp: makes_def ensures_def eval_res_def)

lemma ensures_link:
  assumes "wb l" "wb r"
  shows "ensures fails good (eval_res (link x l r)) (\<lambda>t. wb t \<and> entries t = entries l @ x # entries r)"
  by (rule ensures_makes [OF link_makes [OF assms]]) simp

lemma endsE:
  assumes "ends fails good Q r"
  obtains a s where "r = (Ok a, s)" "good s" "Q a" | e s where "r = (Err e, s)" "fails"
  using assms by (cases "(fails, good, Q, r)" rule: ends.cases) auto

text \<open>The arms of a comparison.\<close>

lemma ensures_ordering:
  assumes "c = Less \<Longrightarrow> ensures fails good l Q" "c = Equal \<Longrightarrow> ensures fails good e Q"
    "c = Greater \<Longrightarrow> ensures fails good g Q"
  shows "ensures fails good (case c of Less \<Rightarrow> l | Equal \<Rightarrow> e | Greater \<Rightarrow> g) Q"
  using assms by (cases c) auto

section \<open>Sorted lists\<close>

abbreviation ascending :: "('a \<Rightarrow> 'r::linorder) \<Rightarrow> 'a list \<Rightarrow> bool" where
  "ascending rk \<equiv> sorted_wrt (\<lambda>x y. rk x < rk y)"

definition lower_part :: "('a \<Rightarrow> 'r::linorder) \<Rightarrow> 'r \<Rightarrow> 'a list \<Rightarrow> 'a list" where
  "lower_part rk k = filter (\<lambda>x. rk x < k)"

definition upper_part :: "('a \<Rightarrow> 'r::linorder) \<Rightarrow> 'r \<Rightarrow> 'a list \<Rightarrow> 'a list" where
  "upper_part rk k = filter (\<lambda>x. k < rk x)"

definition without :: "('a \<Rightarrow> 'r::linorder) \<Rightarrow> 'r \<Rightarrow> 'a list \<Rightarrow> 'a list" where
  "without rk k = filter (\<lambda>x. rk x \<noteq> k)"

definition at_rank :: "('a \<Rightarrow> 'r::linorder) \<Rightarrow> 'r \<Rightarrow> 'a list \<Rightarrow> 'a option" where
  "at_rank rk k = find (\<lambda>x. rk x = k)"

lemma find_append: "find P (xs @ ys) = (case find P xs of None \<Rightarrow> find P ys | r \<Rightarrow> r)"
  by (induction xs) auto

lemma sorted_parts:
  assumes "ascending rk (xs @ y # ys)"
  shows "ascending rk xs" "ascending rk ys" "\<forall>x \<in> set xs. rk x < rk y" "\<forall>x \<in> set ys. rk y < rk x"
  using assms by (auto simp: sorted_wrt_append)

lemma parts_less:
  assumes "ascending rk (xs @ y # ys)" "k < rk y"
  shows "lower_part rk k (xs @ y # ys) = lower_part rk k xs" "upper_part rk k (xs @ y # ys) = upper_part rk k xs @ y # ys"
    "at_rank rk k (xs @ y # ys) = at_rank rk k xs"
    "without rk k (xs @ y # ys) = without rk k xs @ y # ys"
proof -
  have ys: "\<forall>x \<in> set ys. k < rk x" using sorted_parts(4) [OF assms(1)] assms(2) by auto
  then have *: "filter (\<lambda>x. rk x < k) ys = []" "filter (\<lambda>x. k < rk x) ys = ys"
    "find (\<lambda>x. rk x = k) ys = None" "filter (\<lambda>x. rk x \<noteq> k) ys = ys"
    by (auto simp: filter_empty_conv find_None_iff intro!: filter_True)
  with assms(2) show "lower_part rk k (xs @ y # ys) = lower_part rk k xs" "upper_part rk k (xs @ y # ys) = upper_part rk k xs @ y # ys"
    "at_rank rk k (xs @ y # ys) = at_rank rk k xs"
    "without rk k (xs @ y # ys) = without rk k xs @ y # ys"
    by (auto simp: lower_part_def upper_part_def without_def at_rank_def find_append split: option.split)
qed

lemma parts_greater:
  assumes "ascending rk (xs @ y # ys)" "rk y < k"
  shows "lower_part rk k (xs @ y # ys) = xs @ y # lower_part rk k ys" "upper_part rk k (xs @ y # ys) = upper_part rk k ys"
    "at_rank rk k (xs @ y # ys) = at_rank rk k ys"
    "without rk k (xs @ y # ys) = xs @ y # without rk k ys"
proof -
  have "\<forall>x \<in> set xs. rk x < k" using sorted_parts(3) [OF assms(1)] assms(2) by auto
  then have *: "filter (\<lambda>x. rk x < k) xs = xs" "filter (\<lambda>x. k < rk x) xs = []"
    "find (\<lambda>x. rk x = k) xs = None" "filter (\<lambda>x. rk x \<noteq> k) xs = xs"
    by (auto simp: filter_empty_conv find_None_iff intro!: filter_True)
  with assms(2) show "lower_part rk k (xs @ y # ys) = xs @ y # lower_part rk k ys" "upper_part rk k (xs @ y # ys) = upper_part rk k ys"
    "at_rank rk k (xs @ y # ys) = at_rank rk k ys"
    "without rk k (xs @ y # ys) = xs @ y # without rk k ys"
    by (auto simp: lower_part_def upper_part_def without_def at_rank_def find_append)
qed

lemma parts_equal:
  assumes "ascending rk (xs @ y # ys)" "k = rk y"
  shows "lower_part rk k (xs @ y # ys) = xs" "upper_part rk k (xs @ y # ys) = ys"
    "at_rank rk k (xs @ y # ys) = Some y"
    "without rk k (xs @ y # ys) = xs @ ys"
proof -
  have "\<forall>x \<in> set xs. rk x < rk y" "\<forall>x \<in> set ys. rk y < rk x" using sorted_parts [OF assms(1)] by auto
  then have "filter (\<lambda>x. rk x < rk y) xs = xs" "filter (\<lambda>x. rk y < rk x) xs = []"
    "filter (\<lambda>x. rk x < rk y) ys = []" "filter (\<lambda>x. rk y < rk x) ys = ys"
    "find (\<lambda>x. rk x = rk y) xs = None" "filter (\<lambda>x. rk x \<noteq> rk y) xs = xs" "filter (\<lambda>x. rk x \<noteq> rk y) ys = ys"
    by (auto simp: filter_empty_conv find_None_iff intro!: filter_True)
  then show "lower_part rk k (xs @ y # ys) = xs" "upper_part rk k (xs @ y # ys) = ys"
    "at_rank rk k (xs @ y # ys) = Some y"
    "without rk k (xs @ y # ys) = xs @ ys"
    by (simp_all add: lower_part_def upper_part_def without_def at_rank_def find_append assms(2))
qed

section \<open>Placing an item\<close>

text \<open>
  The shape that the insertions of the sources share: a new item where the search ends, and
  \<open>merge\<close> of the item found where it meets an equal key.
\<close>

fun tree_place ::
  "'a \<Rightarrow> ('a \<Rightarrow> 'a) \<Rightarrow> ('a \<Rightarrow> ('s, ordering, 'e) evaluation) \<Rightarrow> 'a tree \<Rightarrow> ('s, 'a tree, 'e) evaluation" where
  "tree_place x merge test Empty = eval_return (tree_node x Empty Empty)"
| "tree_place x merge test (Node y l r n) = eval_bind (test y) (\<lambda>c. case c of
     Less \<Rightarrow> eval_bind (tree_place x merge test l) (\<lambda>l'. eval_res (balance_left (tree_node y l' r)))
   | Equal \<Rightarrow> eval_return (tree_node (merge y) l r)
   | Greater \<Rightarrow> eval_bind (tree_place x merge test r) (\<lambda>r'. eval_res (balance_right (tree_node y l r'))))"

lemma tree_insert_place: "tree_insert x cmp t = tree_place x (\<lambda>_. x) (cmp x) t"
  by (induction t) (simp_all cong: ordering.case_cong)

definition placed :: "('a \<Rightarrow> 'r::linorder) \<Rightarrow> 'r \<Rightarrow> 'a \<Rightarrow> ('a \<Rightarrow> 'a) \<Rightarrow> 'a list \<Rightarrow> 'a list" where
  "placed rk k x merge xs =
     lower_part rk k xs @ (case at_rank rk k xs of None \<Rightarrow> x | Some y \<Rightarrow> merge y) # upper_part rk k xs"

section \<open>Comparators\<close>

text \<open>
  \<open>rank\<close> places keys in a linear order; where the comparator is \<open>lawful\<close> it answers by
  that order, and otherwise it may answer anything.
\<close>

lemma compare_cases:
  "compare a b = Less \<longleftrightarrow> a < b" "compare a b = Equal \<longleftrightarrow> a = b" "compare a b = Greater \<longleftrightarrow> b < a"
  "Less = compare a b \<longleftrightarrow> a < b" "Equal = compare a b \<longleftrightarrow> a = b" "Greater = compare a b \<longleftrightarrow> b < a"
  by (auto simp: compare_def)

locale comparator =
  fixes cmp :: "'k \<Rightarrow> 'k \<Rightarrow> ('s, ordering, 'e) evaluation"
    and rank :: "'k \<Rightarrow> 'r::linorder"
    and good :: "'s \<Rightarrow> bool"
    and lawful fails :: bool
  assumes answers: "ensures fails good (cmp a b) (\<lambda>c. lawful \<longrightarrow> c = compare (rank a) (rank b))"
begin

lemma find_ok:
  "ensures fails good (tree_find (\<lambda>x. cmp k (key x)) t)
     (\<lambda>r. lawful \<and> ascending (\<lambda>x. rank (key x)) (entries t) \<longrightarrow>
       r = at_rank (\<lambda>x. rank (key x)) (rank k) (entries t))"
proof (induction t)
  case (Node y l r n)
  show ?case
    unfolding tree_find.simps
    by (rule ensures_bind [OF answers], rule ensures_ordering)
       (auto intro!: ensures_weaken [OF Node(1)] ensures_weaken [OF Node(2)] ensures_return
         simp: compare_cases parts_less parts_greater parts_equal dest: sorted_parts)
qed (auto intro!: ensures_return simp: at_rank_def)

lemma place_ok:
  "wb t \<Longrightarrow> ensures fails good (tree_place x merge (\<lambda>y. cmp k (key y)) t)
     (\<lambda>t'. wb t' \<and> node_len t' \<in> {node_len t, Suc (node_len t)} \<and>
       (lawful \<and> ascending (\<lambda>x. rank (key x)) (entries t) \<longrightarrow>
         entries t' = placed (\<lambda>x. rank (key x)) (rank k) x merge (entries t)))"
proof (induction t)
  case (Node y l r n)
  then have b: "n = Suc (node_len l + node_len r)" "in_balance (node_len l) (node_len r)" "wb l" "wb r" by simp_all
  have left: "ensures fails good (eval_res (balance_left (tree_node y t r))) Q"
    if "wb t" "node_len t \<in> {node_len l, Suc (node_len l)}"
      "\<And>t'. wb t' \<Longrightarrow> entries t' = entries t @ y # entries r \<Longrightarrow> Q t'" for t Q
    by (rule ensures_makes [OF balance_left_makes]) (use that b grown heavy_same in auto)
  have right: "ensures fails good (eval_res (balance_right (tree_node y l t))) Q"
    if "wb t" "node_len t \<in> {node_len r, Suc (node_len r)}"
      "\<And>t'. wb t' \<Longrightarrow> entries t' = entries l @ y # entries t \<Longrightarrow> Q t'" for t Q
    by (rule ensures_makes [OF balance_right_makes]) (use that b grown heavy_same in_balance_sym in auto)
  show ?case
    unfolding tree_place.simps
  proof (rule ensures_bind [OF answers], rule ensures_ordering, goal_cases)
    case (1 c)
    show ?case
    proof (rule ensures_bind [OF Node(1) [OF b(3)]], rule left, goal_cases)
      case (3 t u)
      then have "node_len u = Suc (node_len t + node_len r)" using b wb_len [of u] by simp
      with 1 3 b show ?case by (auto simp: compare_cases placed_def parts_less dest: sorted_parts)
    qed auto
  next
    case (2 c)
    with b show ?case
      by (intro ensures_return) (auto simp: compare_cases placed_def parts_equal tree_node_def)
  next
    case (3 c)
    show ?case
    proof (rule ensures_bind [OF Node(2) [OF b(4)]], rule right, goal_cases)
      case (3 t u)
      then have "node_len u = Suc (node_len l + node_len t)" using b wb_len [of u] by simp
      with \<open>lawful \<longrightarrow> c = _\<close> \<open>c = Greater\<close> 3 b show ?case by (auto simp: compare_cases placed_def parts_greater dest: sorted_parts)
    qed auto
  qed
qed (auto intro!: ensures_return simp: placed_def lower_part_def upper_part_def at_rank_def tree_node_def in_balance_def)

lemma insert_ok:
  "wb t \<Longrightarrow> ensures fails good (tree_insert x (\<lambda>x y. cmp (key x) (key y)) t)
     (\<lambda>t'. wb t' \<and> node_len t' \<in> {node_len t, Suc (node_len t)} \<and>
       (lawful \<and> ascending (\<lambda>x. rank (key x)) (entries t) \<longrightarrow>
         entries t' = placed (\<lambda>x. rank (key x)) (rank (key x)) x (\<lambda>_. x) (entries t)))"
  unfolding tree_insert_place by (rule place_ok)

lemma remove_ok:
  "wb t \<Longrightarrow> ensures fails good (tree_remove (\<lambda>x. cmp k (key x)) t)
     (\<lambda>t'. wb t' \<and> node_len t \<in> {node_len t', Suc (node_len t')} \<and>
       (lawful \<and> ascending (\<lambda>x. rank (key x)) (entries t) \<longrightarrow>
         entries t' = without (\<lambda>x. rank (key x)) (rank k) (entries t)))"
proof (induction t)
  case (Node y l r n)
  then have b: "n = Suc (node_len l + node_len r)" "in_balance (node_len l) (node_len r)" "wb l" "wb r" by simp_all
  have left: "ensures fails good (eval_res (balance_right (tree_node y t r))) Q"
    if "wb t" "node_len l \<in> {node_len t, Suc (node_len t)}"
      "\<And>t'. wb t' \<Longrightarrow> entries t' = entries t @ y # entries r \<Longrightarrow> Q t'" for t Q
    by (rule ensures_makes [OF balance_right_makes]) (use that b shrunk heavy_same in_balance_sym in auto)
  have right: "ensures fails good (eval_res (balance_left (tree_node y l t))) Q"
    if "wb t" "node_len r \<in> {node_len t, Suc (node_len t)}"
      "\<And>t'. wb t' \<Longrightarrow> entries t' = entries l @ y # entries t \<Longrightarrow> Q t'" for t Q
    by (rule ensures_makes [OF balance_left_makes]) (use that b shrunk heavy_same in auto)
  show ?case
    unfolding tree_remove.simps
  proof (rule ensures_bind [OF answers], rule ensures_ordering, goal_cases)
    case (1 c)
    show ?case
    proof (rule ensures_bind [OF Node(1) [OF b(3)]], rule left, goal_cases)
      case (3 t u)
      then have "node_len u = Suc (node_len t + node_len r)" using b wb_len [of u] by simp
      with 1 3 b show ?case by (auto simp: compare_cases parts_less dest: sorted_parts)
    qed auto
  next
    case (2 c)
    show ?case
    proof (rule ensures_makes [OF glue_makes [OF b(3,4,2)]], goal_cases)
      case (1 u)
      then have "node_len u = node_len l + node_len r" using b wb_len [of u] by simp
      with 1 2 b show ?case by (auto simp: compare_cases parts_equal)
    qed
  next
    case (3 c)
    show ?case
    proof (rule ensures_bind [OF Node(2) [OF b(4)]], rule right, goal_cases)
      case (3 t u)
      then have "node_len u = Suc (node_len l + node_len t)" using b wb_len [of u] by simp
      with \<open>lawful \<longrightarrow> c = _\<close> \<open>c = Greater\<close> 3 b show ?case by (auto simp: compare_cases parts_greater dest: sorted_parts)
    qed auto
  qed
qed (simp add: ensures_return without_def)

lemma split_ok:
  "wb t \<Longrightarrow> ensures fails good (tree_split (\<lambda>x. cmp k (key x)) t)
     (\<lambda>(lower, found, upper). wb lower \<and> wb upper \<and>
       node_len t = node_len lower + node_len upper + (if found = None then 0 else 1) \<and>
       (lawful \<and> ascending (\<lambda>x. rank (key x)) (entries t) \<longrightarrow>
         entries lower = lower_part (\<lambda>x. rank (key x)) (rank k) (entries t) \<and>
         found = at_rank (\<lambda>x. rank (key x)) (rank k) (entries t) \<and>
         entries upper = upper_part (\<lambda>x. rank (key x)) (rank k) (entries t)))"
proof (induction t)
  case (Node y l r n)
  then have b: "n = Suc (node_len l + node_len r)" "wb l" "wb r" by simp_all
  show ?case
    unfolding tree_split.simps
  proof (rule ensures_bind [OF answers], rule ensures_ordering, goal_cases)
    case (1 c)
    show ?case
    proof (rule ensures_bind [OF Node(1) [OF b(2)]], clarsimp, rule ensures_bind, rule ensures_link, goal_cases)
      case (3 lower found upper u)
      then have "node_len u = Suc (node_len upper + node_len r)" using b wb_len [of u] by simp
      with 1 3 b show ?case by (auto simp: compare_cases parts_less intro!: ensures_return dest: sorted_parts)
    qed (use b in auto)
  next
    case (2 c)
    with b show ?case by (intro ensures_return) (auto simp: compare_cases parts_equal)
  next
    case (3 c)
    show ?case
    proof (rule ensures_bind [OF Node(2) [OF b(3)]], clarsimp, rule ensures_bind, rule ensures_link, goal_cases)
      case (3 lower found upper u)
      then have "node_len u = Suc (node_len l + node_len lower)" using b wb_len [of u] by simp
      with \<open>lawful \<longrightarrow> c = _\<close> \<open>c = Greater\<close> 3 b show ?case by (auto simp: compare_cases parts_greater intro!: ensures_return dest: sorted_parts)
    qed (use b in auto)
  qed
qed (simp add: ensures_return lower_part_def upper_part_def at_rank_def)

end

end
