(* ===== verification/Hell_Collections.thy ===== *)
theory Hell_Collections
  imports Hell_Tree_Search Hell_Core Hell_Runtime_Error
begin

text \<open>
  The builtins over \<open>Map\<close> and \<open>Set\<close> of \<open>crates/hell-runtime/src/native_collections.rs\<close>,
  without the tracing variants.  Thunks are a type variable; what the builtins ask of the
  evaluator (forcing a thunk, \<open>Eq\<close> and \<open>Ord\<close> on thunks, suspending an application) is the
  record \<open>evaluator\<close> of functions over its state, and every theorem quantifies over it.
\<close>

section \<open>Values and the evaluator\<close>

text \<open>The values the builtins look at or make; \<open>VOther\<close> stands for each of the others.\<close>

datatype 't guest_value =
    VMap "('t \<times> 't) tree"
  | VSet "'t tree"
  | VMaybe "'t option"
  | VTuple "'t list"
  | VNil
  | VCons 't 't
  | VInt int
  | VBool bool
  | VOther

datatype 't force_outcome = Forced "'t guest_value" | Alias 't

type_synonym ('s, 'a) guest = "('s, 'a, runtime_error) evaluation"

text \<open>
  \<open>ev_same\<close> and \<open>ev_same_node\<close> are \<open>Arc::ptr_eq\<close>: equal only for one allocation.
\<close>

record ('s, 't) evaluator =
  ev_force :: "'t \<Rightarrow> ('s, 't guest_value) guest"
  ev_force_list :: "'t \<Rightarrow> ('s, 't list) guest"
  ev_equal :: "'t \<Rightarrow> 't \<Rightarrow> ('s, bool) guest"
  ev_lt :: "class_evidence \<Rightarrow> 't \<Rightarrow> 't \<Rightarrow> ('s, 't force_outcome) guest"
  ev_gt :: "class_evidence \<Rightarrow> 't \<Rightarrow> 't \<Rightarrow> ('s, 't force_outcome) guest"
  ev_instance_target :: "class_evidence \<Rightarrow> ('s, string) guest"
  ev_apply :: "'t \<Rightarrow> 't \<Rightarrow> 't"
  ev_evaluated :: "'t guest_value \<Rightarrow> 't"
  ev_same :: "'t \<Rightarrow> 't \<Rightarrow> bool"
  ev_same_node :: "'t tree \<Rightarrow> 't tree \<Rightarrow> bool"

definition guest_return :: "'t guest_value \<Rightarrow> ('s, 't force_outcome) guest" where
  "guest_return v = eval_return (Forced v)"

text \<open>\<open>list_from_values\<close>: built from its end.\<close>

definition list_from_values :: "('s, 't) evaluator \<Rightarrow> 't list \<Rightarrow> 't" where
  "list_from_values E ts =
     foldr (\<lambda>h t. ev_evaluated E (VCons h t)) ts (ev_evaluated E VNil)"

definition largest_int :: nat where
  "largest_int = 9223372036854775807"

text \<open>The items of a tree in its order; the iterator of every tree ends (lemma \<open>iter_entries\<close>).\<close>

definition iterated :: "'a tree \<Rightarrow> ('s, 'a list, 'e) evaluation" where
  "iterated t = eval_res (case tree_collect t of Some xs \<Rightarrow> Ok xs | None \<Rightarrow> Panic)"

definition ord_evidence ::
  "('s, 't) evaluator \<Rightarrow> class_evidence option \<Rightarrow> string \<Rightarrow> ('s, class_evidence) guest" where
  "ord_evidence E evidence operation =
    (case evidence of
       None \<Rightarrow> eval_fail (internal (operation @ '' reached runtime without retained Ord evidence''))
     | Some e \<Rightarrow>
         if ce_class e \<noteq> OrdClass
         then eval_fail (internal (operation @ '' received non-Ord class evidence''))
         else eval_bind (ev_instance_target E e) (\<lambda>_. eval_return e))"

definition force_map :: "('s, 't) evaluator \<Rightarrow> 't \<Rightarrow> ('s, ('t \<times> 't) tree) guest" where
  "force_map E m = eval_bind (ev_force E m) (\<lambda>v. case v of
     VMap items \<Rightarrow> eval_return items
   | _ \<Rightarrow> eval_fail (internal ''Map operation received a non-Map value''))"

definition force_set :: "('s, 't) evaluator \<Rightarrow> 't \<Rightarrow> ('s, 't tree) guest" where
  "force_set E m = eval_bind (ev_force E m) (\<lambda>v. case v of
     VSet elements \<Rightarrow> eval_return elements
   | _ \<Rightarrow> eval_fail (internal ''Set operation received a non-Set value''))"

section \<open>Comparing keys\<close>

definition force_bool :: "('s, 't) evaluator \<Rightarrow> 't \<Rightarrow> ('s, bool) guest" where
  "force_bool E t = eval_bind (ev_force E t) (\<lambda>v. case v of
     VBool b \<Rightarrow> eval_return b
   | _ \<Rightarrow> eval_fail (internal ''expected Bool''))"

definition force_outcome_bool :: "('s, 't) evaluator \<Rightarrow> 't force_outcome \<Rightarrow> ('s, bool) guest" where
  "force_outcome_bool E outcome = (case outcome of
     Forced v \<Rightarrow> (case v of
       VBool b \<Rightarrow> eval_return b
     | _ \<Rightarrow> eval_fail (internal ''Ord comparator returned a non-Bool value''))
   | Alias t \<Rightarrow> force_bool E t)"

definition compare_keys :: "('s, 't) evaluator \<Rightarrow> class_evidence \<Rightarrow> 't \<Rightarrow> 't \<Rightarrow> ('s, ordering) guest" where
  "compare_keys E e left right =
    eval_bind (ev_equal E left right) (\<lambda>same. if same then eval_return Equal else
    eval_bind (eval_bind (ev_lt E e left right) (force_outcome_bool E)) (\<lambda>less. if less then eval_return Less else
    eval_bind (eval_bind (ev_gt E e left right) (force_outcome_bool E)) (\<lambda>greater.
      if greater then eval_return Greater else eval_return Greater)))"

text \<open>
  \<open>map_entries_not_ordered\<close> and \<open>set_list_not_ordered\<close> with \<open>items.get(index + 1)\<close>: whether
  the item at \<open>index\<close> is not below its successor.
\<close>

definition keys_not_ordered ::
  "('s, 't) evaluator \<Rightarrow> class_evidence \<Rightarrow> 't \<Rightarrow> 't \<Rightarrow> ('s, bool) guest" where
  "keys_not_ordered E e current next_key =
    eval_bind (ev_equal E current next_key) (\<lambda>same. if same then eval_return True else
    eval_bind (ev_gt E e current next_key) (force_outcome_bool E))"

definition not_ordered_at ::
  "('a \<Rightarrow> 'a \<Rightarrow> ('s, bool, 'e) evaluation) \<Rightarrow> 'a list \<Rightarrow> nat \<Rightarrow> ('s, bool, 'e) evaluation" where
  "not_ordered_at no items index = (case vget items (index + 1) of
     None \<Rightarrow> eval_return False
   | Some b \<Rightarrow> no (items ! index) b)"

section \<open>Building from a list\<close>

text \<open>
  \<open>MapCreateResult\<close>, \<open>SetCreateResult\<close>: a tree, the index it stops at, and whether it
  stops because the input is not ascending there.  Widths are powers of two; a call with size
  zero would not return, and is a panic here.
\<close>

type_synonym 'a created = "'a tree \<times> nat \<times> bool"

function create_run ::
  "('a \<Rightarrow> 'a \<Rightarrow> ('s, bool, 'e) evaluation) \<Rightarrow> 'a list \<Rightarrow> nat \<Rightarrow> nat \<Rightarrow> ('s, 'a created, 'e) evaluation" where
  "create_run no items width index =
    (if length items \<le> index then eval_return (Empty, index, False)
     else if width = 0 then eval_res Panic
     else if width = 1 then
       eval_bind (not_ordered_at no items index) (\<lambda>unordered.
         eval_return (tree_node (items ! index) Empty Empty, index + 1, unordered))
     else eval_bind (create_run no items (width div 2) index) (\<lambda>(left, pivot, unordered).
       if unordered \<or> length items \<le> pivot then eval_return (left, pivot, unordered)
       else if pivot + 1 = length items then
         eval_bind (eval_res (insert_max (items ! pivot) left)) (\<lambda>t. eval_return (t, pivot + 1, False))
       else eval_bind (not_ordered_at no items pivot) (\<lambda>stop.
         if stop then eval_return (left, pivot, True)
         else eval_bind (create_run no items (width div 2) (pivot + 1)) (\<lambda>(right, after, unordered).
           eval_bind (eval_res (link (items ! pivot) left right)) (\<lambda>t. eval_return (t, after, unordered))))))"
  by pat_completeness auto
termination by (relation "measure (\<lambda>(no, items, width, index). width)") auto

declare create_run.simps [simp del]

lemma eval_bind_cong [fundef_cong]:
  assumes "m = m'" and "\<And>s a s'. m' s = (Ok a, s') \<Longrightarrow> f a = f' a"
  shows "eval_bind m f = eval_bind m' f'"
  unfolding eval_bind_def using assms by (auto simp: fun_eq_iff split: prod.split res.split)

lemma eval_bind_Ok:
  "eval_bind m f s = (Ok b, s'') \<longleftrightarrow> (\<exists>a s'. m s = (Ok a, s') \<and> f a s' = (Ok b, s''))"
  by (auto simp: eval_bind_def split: prod.splits res.splits)

lemma create_run_next: "create_run no items width index s = (Ok (t, after, u), s') \<Longrightarrow> index \<le> after"
proof (induction no items width index arbitrary: s t after u s' rule: create_run.induct)
  case (1 no items width index)
  show ?case
  proof (cases "length items \<le> index \<or> width = 0 \<or> width = 1")
    case True
    with "1.prems" show ?thesis
      by (auto simp: create_run.simps [of no items width index] eval_bind_Ok eval_return_def eval_res_def split: if_splits)
  next
    case False
    with "1.prems" obtain left pivot v s1 where
      left: "create_run no items (width div 2) index s = (Ok (left, pivot, v), s1)" and
      rest: "(if v \<or> length items \<le> pivot then eval_return (left, pivot, v)
       else if pivot + 1 = length items then
         eval_bind (eval_res (insert_max (items ! pivot) left)) (\<lambda>t. eval_return (t, pivot + 1, False))
       else eval_bind (not_ordered_at no items pivot) (\<lambda>stop.
         if stop then eval_return (left, pivot, True)
         else eval_bind (create_run no items (width div 2) (pivot + 1)) (\<lambda>(right, after, unordered).
           eval_bind (eval_res (link (items ! pivot) left right)) (\<lambda>t. eval_return (t, after, unordered))))) s1
       = (Ok (t, after, u), s')"
      by (auto simp: create_run.simps [of no items width index] eval_bind_Ok)
    have le: "index \<le> pivot" using "1.IH"(1) [OF _ _ _ left] False by auto
    from rest consider "after = pivot" | "after = pivot + 1"
      | r s2 s3 w where "create_run no items (width div 2) (pivot + 1) s2 = (Ok (r, after, w), s3)"
        "\<not> (v \<or> length items \<le> pivot)" "pivot + 1 \<noteq> length items"
      by (auto simp: eval_bind_Ok eval_return_def eval_res_def split: if_splits prod.splits)
    then show ?thesis
    proof cases
      case 3
      with "1.IH"(2) [where xa = pivot and xb = v and xba = False and s = s2] False le show ?thesis
        by auto
    qed (use le in auto)
  qed
qed

text \<open>
  The loop over the ascending prefix (\<open>map_from_ordered_entries\<close>,
  \<open>set_tree_from_ordered_prefix\<close>); \<open>put\<close> inserts what is left once the order is broken.
\<close>

function ordered_run ::
  "('a \<Rightarrow> 'a \<Rightarrow> ('s, bool, 'e) evaluation) \<Rightarrow> ('a tree \<Rightarrow> 'a list \<Rightarrow> ('s, 'a tree, 'e) evaluation) \<Rightarrow>
   'a list \<Rightarrow> nat \<Rightarrow> 'a tree \<Rightarrow> nat \<Rightarrow> ('s, 'a tree, 'e) evaluation" where
  "ordered_run no put items width left index =
    (if length items \<le> index then eval_return left
     else if index + 1 = length items then eval_res (insert_max (items ! index) left)
     else eval_bind (not_ordered_at no items index) (\<lambda>stop.
       if stop then put left (drop index items)
       else eval_bind (create_run no items width (index + 1)) (\<lambda>(created, after, unordered).
         eval_bind (eval_res (link (items ! index) left created)) (\<lambda>linked.
           if unordered then put linked (drop after items)
           else ordered_run no put items (min (width * 2) u64_max) linked after))))"
  by pat_completeness auto
termination
  by (relation "measure (\<lambda>(no, put, items, width, left, index). length items - index)")
     (auto dest: create_run_next)

declare ordered_run.simps [simp del]

end
