(* ===== verification/Hell_Tree_Map.thy ===== *)
theory Hell_Tree_Map
  imports Hell_Collections
begin

text \<open>
  What a tree means: the partial map from ranks to items, and the operations of the tree as
  operations of that map, under a comparator that is either lawful or arbitrary.
\<close>

section \<open>Trees as maps\<close>

definition meaning :: "('a \<Rightarrow> 'r::linorder) \<Rightarrow> 'a tree \<Rightarrow> 'r \<Rightarrow> 'a option" where
  "meaning rk t r = at_rank rk r (entries t)"

definition valid :: "bool \<Rightarrow> ('a \<Rightarrow> 'r::linorder) \<Rightarrow> 'a tree \<Rightarrow> bool" where
  "valid lawful rk t \<longleftrightarrow> wb t \<and> (lawful \<longrightarrow> ascending rk (entries t))"

lemma validD: "valid lawful rk t \<Longrightarrow> wb t" "valid lawful rk t \<Longrightarrow> lawful \<Longrightarrow> ascending rk (entries t)"
  by (auto simp: valid_def)

lemma valid_Empty [simp]: "valid lawful rk Empty" "meaning rk Empty = Map.empty"
  by (auto simp: valid_def meaning_def at_rank_def)

lemma valid_single [simp]: "valid lawful rk (tree_node x Empty Empty)"
    "meaning rk (tree_node x Empty Empty) = [rk x \<mapsto> x]"
  by (auto simp: valid_def meaning_def at_rank_def tree_node_def in_balance_def)

lemma valid_Node: "valid lawful rk (Node y l r n) \<Longrightarrow> valid lawful rk l \<and> valid lawful rk r"
  by (auto simp: valid_def dest: sorted_parts)

lemma at_rank_append:
  "at_rank rk r (xs @ ys) = (case at_rank rk r xs of None \<Rightarrow> at_rank rk r ys | Some x \<Rightarrow> Some x)"
  by (simp add: at_rank_def find_append split: option.split)

lemma at_rank_Cons [simp]: "at_rank rk r (x # xs) = (if rk x = r then Some x else at_rank rk r xs)"
  "at_rank rk r [] = None"
  by (auto simp: at_rank_def)

lemma at_rank_rank: "at_rank rk r xs = Some x \<Longrightarrow> rk x = r \<and> x \<in> set xs"
  by (induction xs) (auto split: if_splits)

lemma at_rank_None: "at_rank rk r xs = None \<longleftrightarrow> r \<notin> rk ` set xs"
  by (induction xs) auto

lemma dom_meaning: "dom (meaning rk t) = rk ` set (entries t)"
proof (rule set_eqI)
  fix r show "r \<in> dom (meaning rk t) \<longleftrightarrow> r \<in> rk ` set (entries t)"
    by (simp add: domIff meaning_def at_rank_None)
qed

lemma at_rank_filter:
  assumes "\<And>x. rk x = r \<Longrightarrow> P x = p"
  shows "at_rank rk r (filter P xs) = (if p then at_rank rk r xs else None)"
  using assms by (induction xs) auto

lemma at_rank_parts:
  "at_rank rk r (lower_part rk k xs) = (if r < k then at_rank rk r xs else None)"
  "at_rank rk r (upper_part rk k xs) = (if k < r then at_rank rk r xs else None)"
  "at_rank rk r (without rk k xs) = (if r \<noteq> k then at_rank rk r xs else None)"
  unfolding lower_part_def upper_part_def without_def by (rule at_rank_filter, simp)+

lemma parts_ascending:
  assumes "ascending rk xs"
  shows "ascending rk (lower_part rk k xs)" "ascending rk (upper_part rk k xs)" "ascending rk (without rk k xs)"
  unfolding lower_part_def upper_part_def without_def by (rule sorted_wrt_filter, rule assms)+

text \<open>The merged item keeps the rank.\<close>

lemma placed_ascending:
  assumes "ascending rk xs" "rk x = k" "\<And>y. rk y = k \<Longrightarrow> rk (merge y) = k"
  shows "ascending rk (placed rk k x merge xs)"
proof -
  have "rk (case at_rank rk k xs of None \<Rightarrow> x | Some y \<Rightarrow> merge y) = k"
    using assms at_rank_rank [of rk k xs] by (auto split: option.split)
  with assms(1) show ?thesis
    by (auto simp: placed_def sorted_wrt_append parts_ascending) (auto simp: lower_part_def upper_part_def)
qed

lemma at_rank_placed:
  assumes "rk x = k" "\<And>y. rk y = k \<Longrightarrow> rk (merge y) = k"
  shows "at_rank rk r (placed rk k x merge xs) =
    (if r = k then Some (case at_rank rk k xs of None \<Rightarrow> x | Some y \<Rightarrow> merge y) else at_rank rk r xs)"
proof -
  have "rk (case at_rank rk k xs of None \<Rightarrow> x | Some y \<Rightarrow> merge y) = k"
    using assms at_rank_rank [of rk k xs] by (auto split: option.split)
  then show ?thesis by (auto simp: placed_def at_rank_append at_rank_parts split: option.split)
qed

lemma placed_end: "ascending rk (xs @ [x]) \<Longrightarrow> placed rk (rk x) x (\<lambda>_. x) xs = xs @ [x]"
  by (auto simp: placed_def lower_part_def upper_part_def sorted_wrt_append filter_empty_conv intro!: filter_True split: option.split)

text \<open>Inserting one item after the other.\<close>

definition all_placed :: "('a \<Rightarrow> 'r::linorder) \<Rightarrow> 'a list \<Rightarrow> 'a list \<Rightarrow> 'a list" where
  "all_placed rk xs items = foldl (\<lambda>xs x. placed rk (rk x) x (\<lambda>_. x) xs) xs items"

lemma all_placed_simps [simp]:
  "all_placed rk xs [] = xs"
  "all_placed rk xs (y # ys) = all_placed rk (placed rk (rk y) y (\<lambda>_. y) xs) ys"
  "all_placed rk xs (ys @ zs) = all_placed rk (all_placed rk xs ys) zs"
  by (simp_all add: all_placed_def)

lemma all_placed_ascending: "ascending rk xs \<Longrightarrow> ascending rk (all_placed rk xs items)"
  by (induction items arbitrary: xs) (simp_all add: placed_ascending)

lemma all_placed_sorted: "ascending rk xs \<Longrightarrow> all_placed rk [] xs = xs"
proof (induction xs rule: rev_induct)
  case (snoc x xs)
  then have "all_placed rk [] xs = xs" by (simp add: sorted_wrt_append)
  with snoc.prems show ?case by (simp add: placed_end)
qed simp

lemma at_rank_all_placed:
  "at_rank rk r (all_placed rk xs items) =
    (case at_rank rk r (rev items) of None \<Rightarrow> at_rank rk r xs | Some x \<Rightarrow> Some x)"
  by (induction items arbitrary: xs) (auto simp: at_rank_placed at_rank_append split: option.split)

section \<open>Nodes and joins\<close>

text \<open>A map whose part below \<open>p\<close> is \<open>a\<close> and whose part above \<open>p\<close> is \<open>b\<close>.\<close>

definition around :: "'r::linorder \<Rightarrow> 'a option \<Rightarrow> ('r \<Rightarrow> 'a option) \<Rightarrow> ('r \<Rightarrow> 'a option) \<Rightarrow> 'r \<Rightarrow> 'a option" where
  "around p x a b = (\<lambda>r. if r < p then a r else if r = p then x else b r)"

lemma meaning_none: "(\<And>x. x \<in> set (entries t) \<Longrightarrow> rk x \<noteq> r) \<Longrightarrow> meaning rk t r = None"
  by (auto simp: meaning_def at_rank_None)

lemma meaning_parts:
  assumes "\<forall>x \<in> set xs. rk x < rk y" "\<forall>x \<in> set ys. rk y < rk x"
  shows "at_rank rk r (xs @ y # ys) = around (rk y) (Some y) (\<lambda>r. at_rank rk r xs) (\<lambda>r. at_rank rk r ys) r"
proof -
  have "at_rank rk r xs = None" if "\<not> r < rk y" using assms(1) that by (auto simp: at_rank_None)
  moreover have "at_rank rk r ys = None" if "r < rk y" using assms(2) that by (auto simp: at_rank_None)
  ultimately show ?thesis by (auto simp: around_def at_rank_append split: option.split)
qed

lemma meaning_Node:
  assumes "valid lawful rk (Node y l r n)" "lawful"
  shows "meaning rk (Node y l r n) = around (rk y) (Some y) (meaning rk l) (meaning rk r)"
  using sorted_parts(3,4) [of rk "entries l" y "entries r"] assms
  by (simp add: fun_eq_iff meaning_def valid_def meaning_parts around_def)

lemma below_root:
  assumes "valid lawful rk (Node y l r n)" "lawful"
  shows "\<forall>k \<in> dom (meaning rk l). k < rk y" "\<forall>k \<in> dom (meaning rk r). rk y < k"
  using sorted_parts(3,4) [of rk "entries l" y "entries r"] assms by (auto simp: dom_meaning valid_def)

lemma ensures_link_meaning:
  assumes "valid lawful rk l" "valid lawful rk r"
    and "lawful \<Longrightarrow> \<forall>k \<in> dom (meaning rk l). k < rk x" "lawful \<Longrightarrow> \<forall>k \<in> dom (meaning rk r). rk x < k"
  shows "ensures fails good (eval_res (link x l r)) (\<lambda>t. valid lawful rk t \<and>
    (lawful \<longrightarrow> meaning rk t = around (rk x) (Some x) (meaning rk l) (meaning rk r)))"
proof (rule ensures_weaken [OF ensures_link])
  fix t assume t: "wb t \<and> entries t = entries l @ x # entries r"
  have "ascending rk (entries t) \<and> meaning rk t = around (rk x) (Some x) (meaning rk l) (meaning rk r)" if lawful
  proof -
    from assms that have *: "\<forall>y \<in> set (entries l). rk y < rk x" "\<forall>y \<in> set (entries r). rk x < rk y"
      by (auto simp: dom_meaning)
    then have "meaning rk t = around (rk x) (Some x) (meaning rk l) (meaning rk r)"
      using t by (simp add: fun_eq_iff meaning_def meaning_parts around_def)
    moreover have "ascending rk (entries t)"
      using t * assms(1,2) that by (fastforce simp: valid_def sorted_wrt_append)
    ultimately show ?thesis by simp
  qed
  with t show "valid lawful rk t \<and> (lawful \<longrightarrow> meaning rk t = around (rk x) (Some x) (meaning rk l) (meaning rk r))"
    by (simp add: valid_def)
qed (use assms in \<open>auto simp: valid_def\<close>)

lemma ensures_merge_meaning:
  assumes "valid lawful rk l" "valid lawful rk r"
    and "lawful \<Longrightarrow> \<forall>k \<in> dom (meaning rk l). k < p" "lawful \<Longrightarrow> \<forall>k \<in> dom (meaning rk r). p < k"
  shows "ensures fails good (eval_res (merge_nodes l r)) (\<lambda>t. valid lawful rk t \<and>
    node_len t = node_len l + node_len r \<and> (lawful \<longrightarrow> meaning rk t = around p None (meaning rk l) (meaning rk r)))"
proof (rule ensures_makes [OF merge_nodes_makes])
  fix t assume t: "wb t" "entries t = entries l @ entries r"
  have "ascending rk (entries t) \<and> meaning rk t = around p None (meaning rk l) (meaning rk r)" if lawful
  proof -
    from assms that have *: "\<forall>y \<in> set (entries l). rk y < p" "\<forall>y \<in> set (entries r). p < rk y"
      by (auto simp: dom_meaning)
    have "at_rank rk k (entries l) = None" if "\<not> k < p" for k using *(1) that by (auto simp: at_rank_None)
    moreover have "at_rank rk k (entries r) = None" if "k \<le> p" for k using *(2) that by (auto simp: at_rank_None)
    ultimately have "meaning rk t = around p None (meaning rk l) (meaning rk r)"
      using t by (auto simp: fun_eq_iff meaning_def around_def at_rank_append split: option.split)
    moreover have "ascending rk (entries t)"
      using t * assms(1,2) that by (fastforce simp: valid_def sorted_wrt_append)
    ultimately show ?thesis by simp
  qed
  moreover have "node_len t = node_len l + node_len r"
    using t wb_len [of t] assms(1,2) by (simp add: valid_def)
  ultimately show "valid lawful rk t \<and> node_len t = node_len l + node_len r \<and> (lawful \<longrightarrow> meaning rk t = around p None (meaning rk l) (meaning rk r))"
    using t by (simp add: valid_def)
qed (use assms in \<open>auto simp: valid_def\<close>)

lemma single_node:
  assumes "valid lawful rk (Node y l r (Suc 0))"
  shows "meaning rk (Node y l r (Suc 0)) = [rk y \<mapsto> y]"
proof -
  have "l = Empty" "r = Empty" using assms wb_Empty [of l] wb_Empty [of r] by (auto simp: valid_def)
  then show ?thesis by (simp add: meaning_def fun_eq_iff)
qed

text \<open>With a lawful order the number of items is the size of the map's domain.\<close>

lemma card_meaning:
  assumes "valid lawful rk t" "lawful"
  shows "card (dom (meaning rk t)) = node_len t"
proof -
  have "inj_on rk (set xs) \<and> distinct xs" if "ascending rk xs" for xs
    using that by (induction xs) auto
  with assms have "inj_on rk (set (entries t))" "distinct (entries t)" by (auto simp: valid_def)
  with assms show ?thesis by (simp add: dom_meaning card_image distinct_card valid_def)
qed

text \<open>Leaving items out changes nothing when the number of items stays.\<close>

lemma restricted_same:
  assumes "valid lawful rk t" "valid lawful rk u" "lawful"
    and "meaning rk u = meaning rk t |` S" "node_len u = node_len t"
  shows "meaning rk u = meaning rk t"
proof -
  have "dom (meaning rk u) \<subseteq> dom (meaning rk t)" using assms(4) by auto
  moreover have "card (dom (meaning rk u)) = card (dom (meaning rk t))" using assms card_meaning by metis
  moreover have "finite (dom (meaning rk t))" by (simp add: dom_meaning)
  ultimately have "dom (meaning rk u) = dom (meaning rk t)" by (metis card_subset_eq)
  then have "dom (meaning rk t) \<subseteq> S" using assms(4) by auto
  then have "meaning rk t k = None" if "k \<notin> S" for k using that by (meson domIff subsetD)
  with assms(4) show ?thesis by (auto simp: restrict_map_def fun_eq_iff)
qed

lemma restrict_map_UNIV [simp]: "m |` UNIV = m"
  by (simp add: restrict_map_def)

section \<open>The searching operations\<close>

context comparator
begin

lemma find_meaning:
  assumes "valid lawful (\<lambda>x. rank (key x)) t"
  shows "ensures fails good (tree_find (\<lambda>x. cmp k (key x)) t)
    (\<lambda>r. lawful \<longrightarrow> r = meaning (\<lambda>x. rank (key x)) t (rank k))"
  by (rule ensures_weaken [OF find_ok]) (use assms in \<open>auto simp: valid_def meaning_def\<close>)

lemma place_meaning:
  assumes "valid lawful (\<lambda>x. rank (key x)) t" "rank (key x) = rank k"
    "\<And>y. rank (key y) = rank k \<Longrightarrow> rank (key (merge y)) = rank k"
  shows "ensures fails good (tree_place x merge (\<lambda>y. cmp k (key y)) t)
    (\<lambda>t'. valid lawful (\<lambda>x. rank (key x)) t' \<and>
      (lawful \<longrightarrow> entries t' = placed (\<lambda>x. rank (key x)) (rank k) x merge (entries t) \<and>
        meaning (\<lambda>x. rank (key x)) t' = (meaning (\<lambda>x. rank (key x)) t)(rank k \<mapsto>
          (case meaning (\<lambda>x. rank (key x)) t (rank k) of None \<Rightarrow> x | Some y \<Rightarrow> merge y))))"
  by (rule ensures_weaken [OF place_ok])
     (use assms in \<open>auto simp: valid_def meaning_def fun_eq_iff placed_ascending at_rank_placed\<close>)

lemma insert_meaning:
  assumes "valid lawful (\<lambda>x. rank (key x)) t"
  shows "ensures fails good (tree_insert x (\<lambda>x y. cmp (key x) (key y)) t)
    (\<lambda>t'. valid lawful (\<lambda>x. rank (key x)) t' \<and>
      (lawful \<longrightarrow> entries t' = placed (\<lambda>x. rank (key x)) (rank (key x)) x (\<lambda>_. x) (entries t) \<and>
        meaning (\<lambda>x. rank (key x)) t' = (meaning (\<lambda>x. rank (key x)) t)(rank (key x) \<mapsto> x)))"
  unfolding tree_insert_place
  by (rule ensures_weaken [OF place_meaning [OF assms]]) (auto split: option.splits)

lemma remove_meaning:
  assumes "valid lawful (\<lambda>x. rank (key x)) t"
  shows "ensures fails good (tree_remove (\<lambda>x. cmp k (key x)) t)
    (\<lambda>t'. valid lawful (\<lambda>x. rank (key x)) t' \<and>
      (lawful \<longrightarrow> meaning (\<lambda>x. rank (key x)) t' = (meaning (\<lambda>x. rank (key x)) t)(rank k := None)))"
  by (rule ensures_weaken [OF remove_ok])
     (use assms in \<open>auto simp: valid_def meaning_def fun_eq_iff at_rank_parts parts_ascending\<close>)

lemma split_meaning:
  assumes "valid lawful (\<lambda>x. rank (key x)) t"
  shows "ensures fails good (tree_split (\<lambda>x. cmp k (key x)) t)
    (\<lambda>(lower, found, upper). valid lawful (\<lambda>x. rank (key x)) lower \<and> valid lawful (\<lambda>x. rank (key x)) upper \<and>
      node_len t = node_len lower + node_len upper + (if found = None then 0 else 1) \<and>
      (lawful \<longrightarrow> found = meaning (\<lambda>x. rank (key x)) t (rank k) \<and>
        meaning (\<lambda>x. rank (key x)) lower = (\<lambda>r. if r < rank k then meaning (\<lambda>x. rank (key x)) t r else None) \<and>
        meaning (\<lambda>x. rank (key x)) upper = (\<lambda>r. if rank k < r then meaning (\<lambda>x. rank (key x)) t r else None)))"
  by (rule ensures_weaken [OF split_ok])
     (use assms in \<open>auto simp: valid_def meaning_def fun_eq_iff at_rank_parts parts_ascending\<close>)

end

section \<open>Building from a list\<close>

text \<open>What the runs ask of the test of two neighbours and of the insertion of the rest.\<close>

locale builder =
  fixes no :: "'a \<Rightarrow> 'a \<Rightarrow> ('s, bool, 'e) evaluation"
    and put :: "'a tree \<Rightarrow> 'a list \<Rightarrow> ('s, 'a tree, 'e) evaluation"
    and rk :: "'a \<Rightarrow> 'r::linorder"
    and good :: "'s \<Rightarrow> bool"
    and lawful fails :: bool
  assumes tests: "ensures fails good (no a b) (\<lambda>u. lawful \<longrightarrow> u = (rk b \<le> rk a))"
    and puts: "valid lawful rk t \<Longrightarrow> ensures fails good (put t xs)
      (\<lambda>t'. valid lawful rk t' \<and> (lawful \<longrightarrow> entries t' = all_placed rk (entries t) xs))"
begin

text \<open>The items from \<open>i\<close> to before \<open>j\<close>.\<close>

definition slice :: "'a list \<Rightarrow> nat \<Rightarrow> nat \<Rightarrow> 'a list" where
  "slice xs i j = take (j - i) (drop i xs)"

text \<open>The order holds from \<open>i\<close> up to and including the item at \<open>j\<close>, if there is one.\<close>

definition run_to :: "'a list \<Rightarrow> nat \<Rightarrow> nat \<Rightarrow> bool" where
  "run_to xs i j \<longleftrightarrow> (\<forall>k. i \<le> k \<longrightarrow> k < j \<longrightarrow> Suc k < length xs \<longrightarrow> rk (xs ! k) < rk (xs ! Suc k))"

lemma run_to_trans: "run_to xs i j \<Longrightarrow> run_to xs j k \<Longrightarrow> run_to xs i k"
  unfolding run_to_def by (meson not_le)

lemma run_to_ascending:
  assumes "run_to xs i j" "j < length xs"
  shows "ascending rk (slice xs i (Suc j))"
  unfolding slice_def
proof (rule sorted_wrt_iff_nth_Suc_transp [THEN iffD2])
  show "transp (\<lambda>x y. rk x < rk y)" by (auto simp: transp_def)
  show "\<forall>k. Suc k < length (take (Suc j - i) (drop i xs)) \<longrightarrow>
      rk (take (Suc j - i) (drop i xs) ! k) < rk (take (Suc j - i) (drop i xs) ! Suc k)"
    using assms by (auto simp: run_to_def)
qed

lemma tests_at:
  "index < length xs \<Longrightarrow> ensures fails good (not_ordered_at no xs index)
    (\<lambda>u. (u \<longrightarrow> Suc index < length xs) \<and> (lawful \<and> \<not> u \<longrightarrow> run_to xs index (Suc index)))"
  unfolding not_ordered_at_def
  by (cases "Suc index < length xs")
     (auto simp: vget_def run_to_def less_Suc_eq intro!: ensures_return ensures_weaken [OF tests])

lemma slice_join:
  assumes "i \<le> j" "j < k" "k \<le> length xs"
  shows "slice xs i j @ xs ! j # slice xs (Suc j) k = slice xs i k"
proof -
  have "k - i = (j - i) + Suc (k - Suc j)" using assms by simp
  then have "slice xs i k = slice xs i j @ take (Suc (k - Suc j)) (drop (j - i) (drop i xs))"
    unfolding slice_def by (metis take_add)
  also have "drop (j - i) (drop i xs) = xs ! j # drop (Suc j) xs"
    using assms by (simp add: Cons_nth_drop_Suc)
  finally show ?thesis by (simp add: slice_def)
qed

lemma slice_simps:
  "slice xs i i = []"
  "i \<le> j \<Longrightarrow> j < length xs \<Longrightarrow> slice xs i (Suc j) = slice xs i j @ [xs ! j]"
  using slice_join [of i j "Suc j" xs] by (simp_all add: slice_def)

definition created_ok :: "'a list \<Rightarrow> nat \<Rightarrow> 'a created \<Rightarrow> bool" where
  "created_ok xs i = (\<lambda>(t, j, u). wb t \<and> i \<le> j \<and> (i < length xs \<longrightarrow> i < j) \<and> j \<le> max i (length xs) \<and>
     entries t = slice xs i j \<and> (u \<longrightarrow> j < length xs) \<and>
     (lawful \<longrightarrow> run_to xs i (j - 1) \<and> (\<not> u \<longrightarrow> run_to xs i j)))"

lemma run_to_shorter: "run_to xs i j \<Longrightarrow> k \<le> j \<Longrightarrow> run_to xs i k"
  by (auto simp: run_to_def)

lemma created_last:
  assumes left: "created_ok xs i (left, pivot, False)" and last: "Suc pivot = length xs"
  shows "ensures fails good (eval_bind (eval_res (insert_max (xs ! pivot) left))
    (\<lambda>t. eval_return (t, pivot + 1, False))) (created_ok xs i)"
proof -
  have l: "wb left" "entries left = slice xs i pivot" "i \<le> pivot" "lawful \<longrightarrow> run_to xs i pivot"
    using left by (auto simp: created_ok_def)
  have "run_to xs pivot (Suc pivot)" using last by (auto simp: run_to_def)
  with l(4) have "lawful \<longrightarrow> run_to xs i (Suc pivot)" by (blast intro: run_to_trans)
  then have "ensures fails good (eval_res (insert_max (xs ! pivot) left)) (\<lambda>t. created_ok xs i (t, Suc pivot, False))"
    by (intro ensures_makes [OF insert_max_makes [OF l(1)]])
       (use l last [symmetric] in \<open>auto simp: created_ok_def slice_simps\<close>)
  then show ?thesis by (auto intro!: ensures_bind ensures_return)
qed

lemma created_link:
  assumes left: "created_ok xs i (left, pivot, False)" and right: "created_ok xs (pivot + 1) (right, after, v)"
    and pivot: "Suc pivot < length xs" and next_ok: "lawful \<longrightarrow> run_to xs pivot (Suc pivot)"
  shows "ensures fails good (eval_bind (eval_res (link (xs ! pivot) left right))
    (\<lambda>t. eval_return (t, after, v))) (created_ok xs i)"
proof -
  have l: "wb left" "entries left = slice xs i pivot" "i \<le> pivot" "lawful \<longrightarrow> run_to xs i pivot"
    using left by (auto simp: created_ok_def)
  have r: "wb right" "entries right = slice xs (Suc pivot) after" "Suc pivot < after" "after \<le> length xs"
      "v \<longrightarrow> after < length xs" "lawful \<longrightarrow> run_to xs (Suc pivot) (after - 1) \<and> (\<not> v \<longrightarrow> run_to xs (Suc pivot) after)"
    using right pivot by (auto simp: created_ok_def)
  have "lawful \<longrightarrow> run_to xs i (Suc pivot)" using l(4) next_ok by (blast intro: run_to_trans)
  with r(6) have run: "lawful \<longrightarrow> run_to xs i (after - 1) \<and> (\<not> v \<longrightarrow> run_to xs i after)"
    by (blast intro: run_to_trans)
  have "ensures fails good (eval_res (link (xs ! pivot) left right)) (\<lambda>t. created_ok xs i (t, after, v))"
    by (rule ensures_weaken [OF ensures_link [OF l(1) r(1)]])
       (use l r run in \<open>auto simp: created_ok_def slice_join\<close>)
  then show ?thesis by (auto intro!: ensures_bind ensures_return)
qed

lemma create_run_ok: "0 < width \<Longrightarrow> ensures fails good (create_run no xs width i) (created_ok xs i)"
proof (induction width arbitrary: i rule: less_induct)
  case (less width)
  consider "length xs \<le> i" | "i < length xs" "width = 1" | "i < length xs" "1 < width" using less.prems by linarith
  then show ?case
  proof cases
    case 1
    then show ?thesis
      by (auto simp: create_run.simps [of no xs width i] created_ok_def slice_simps run_to_def intro!: ensures_return)
  next
    case 2
    then have "created_ok xs i (tree_node (xs ! i) Empty Empty, i + 1, u)"
      if "u \<longrightarrow> Suc i < length xs" "lawful \<and> \<not> u \<longrightarrow> run_to xs i (Suc i)" for u
      using that by (auto simp: created_ok_def slice_simps tree_node_def in_balance_def run_to_def [of _ i i])
    with 2 show ?thesis
      by (auto simp: create_run.simps [of no xs "Suc 0" i] intro!: ensures_bind [OF tests_at] ensures_return)
  next
    case 3
    then have half: "width div 2 < width" "0 < width div 2" by auto
    have go: "create_run no xs width i = eval_bind (create_run no xs (width div 2) i) (\<lambda>(left, pivot, unordered).
       if unordered \<or> length xs \<le> pivot then eval_return (left, pivot, unordered)
       else if pivot + 1 = length xs then
         eval_bind (eval_res (insert_max (xs ! pivot) left)) (\<lambda>t. eval_return (t, pivot + 1, False))
       else eval_bind (not_ordered_at no xs pivot) (\<lambda>stop.
         if stop then eval_return (left, pivot, True)
         else eval_bind (create_run no xs (width div 2) (pivot + 1)) (\<lambda>(right, after, unordered).
           eval_bind (eval_res (link (xs ! pivot) left right)) (\<lambda>t. eval_return (t, after, unordered)))))"
      using 3 by (simp add: create_run.simps [of no xs width i])
    show ?thesis
      unfolding go
    proof (rule ensures_bind [OF less.IH [OF half]], clarify)
      fix left pivot u
      assume left: "created_ok xs i (left, pivot, u)"
      show "ensures fails good (if u \<or> length xs \<le> pivot then eval_return (left, pivot, u)
         else if pivot + 1 = length xs then
           eval_bind (eval_res (insert_max (xs ! pivot) left)) (\<lambda>t. eval_return (t, pivot + 1, False))
         else eval_bind (not_ordered_at no xs pivot) (\<lambda>stop.
           if stop then eval_return (left, pivot, True)
           else eval_bind (create_run no xs (width div 2) (pivot + 1)) (\<lambda>(right, after, unordered).
             eval_bind (eval_res (link (xs ! pivot) left right)) (\<lambda>t. eval_return (t, after, unordered)))))
        (created_ok xs i)"
      proof (cases "u \<or> length xs \<le> pivot")
        case True
        with left show ?thesis by (auto intro: ensures_return)
      next
        case False
        with left have l: "created_ok xs i (left, pivot, False)" by simp
        consider "Suc pivot = length xs" | "Suc pivot < length xs" using False by linarith
        then show ?thesis
        proof cases
          case 1
          with created_last [OF l] False show ?thesis by simp
        next
          case 2
          have stopped: "created_ok xs i (left, pivot, True)" using left False by (auto simp: created_ok_def)
          have rest: "ensures fails good (if stop then eval_return (left, pivot, True)
              else eval_bind (create_run no xs (width div 2) (pivot + 1)) (\<lambda>(right, after, unordered).
                eval_bind (eval_res (link (xs ! pivot) left right)) (\<lambda>t. eval_return (t, after, unordered)))) (created_ok xs i)"
            if "lawful \<and> \<not> stop \<longrightarrow> run_to xs pivot (Suc pivot)" for stop
          proof (cases stop)
            case False
            show ?thesis
              by (simp only: False if_False, rule ensures_bind [OF less.IH [OF half]], clarify, rule created_link [OF l])
                 (use that 2 False in auto)
          qed (use stopped in \<open>simp add: ensures_return\<close>)
          have "pivot + 1 \<noteq> length xs" "pivot < length xs" using 2 by simp_all
          then show ?thesis
            by (simp only: False if_False) (rule ensures_bind [OF tests_at], assumption, rule rest, blast)
        qed
      qed
    qed
  qed
qed

definition built :: "'a list \<Rightarrow> 'a tree \<Rightarrow> bool" where
  "built xs t \<longleftrightarrow> valid lawful rk t \<and> (lawful \<longrightarrow> entries t = all_placed rk [] xs)"

text \<open>What the runs hold so far: the first \<open>j\<close> items, ascending when the order is lawful.\<close>

definition prefix_built :: "'a list \<Rightarrow> nat \<Rightarrow> 'a tree \<Rightarrow> bool" where
  "prefix_built xs j t \<longleftrightarrow> j \<le> length xs \<and> wb t \<and> entries t = take j xs \<and> (lawful \<longrightarrow> ascending rk (take j xs))"

lemma prefix_valid: "prefix_built xs j t \<Longrightarrow> valid lawful rk t"
  by (simp add: prefix_built_def valid_def)

lemma put_rest:
  assumes "prefix_built xs j t"
  shows "ensures fails good (put t (drop j xs)) (built xs)"
proof (rule ensures_weaken [OF puts [OF prefix_valid [OF assms]]])
  fix t' assume t': "valid lawful rk t' \<and> (lawful \<longrightarrow> entries t' = all_placed rk (entries t) (drop j xs))"
  have "all_placed rk [] xs = all_placed rk (all_placed rk [] (take j xs)) (drop j xs)"
    by (metis all_placed_simps(3) append_take_drop_id)
  with t' assms show "built xs t'" by (simp add: built_def prefix_built_def all_placed_sorted)
qed

lemma prefix_done: "prefix_built xs (length xs) t \<Longrightarrow> built xs t"
  by (auto simp: prefix_built_def built_def valid_def all_placed_sorted)

lemma run_prefix: "run_to xs 0 j \<Longrightarrow> j < length xs \<Longrightarrow> ascending rk (take (Suc j) xs)"
  using run_to_ascending [of xs 0 j] by (simp add: slice_def)

lemma ordered_run_ok:
  "prefix_built xs i t \<Longrightarrow> lawful \<longrightarrow> run_to xs 0 i \<Longrightarrow> 0 < width \<Longrightarrow>
   ensures fails good (ordered_run no put xs width t i) (built xs)"
proof (induction "length xs - i" arbitrary: i t width rule: less_induct)
  case less
  note t = less.prems(1) and run = less.prems(2)
  consider "length xs \<le> i" | "Suc i = length xs" | "Suc i < length xs" by linarith
  then show ?case
  proof cases
    case 1
    with t have "i = length xs" by (simp add: prefix_built_def)
    with t show ?thesis by (auto simp: ordered_run.simps [of no put xs width t "length xs"] intro!: ensures_return prefix_done)
  next
    case 2
    have "ensures fails good (eval_res (insert_max (xs ! i) t)) (built xs)"
    proof (rule ensures_makes [OF insert_max_makes])
      fix u assume u: "wb u" "entries u = entries t @ [xs ! i]"
      have "take (length xs) xs = take i xs @ [xs ! i]" using 2 take_Suc_conv_app_nth [of i xs] by simp
      with u t 2 run run_prefix [of xs i] show "built xs u"
        by (intro prefix_done) (simp add: prefix_built_def)
    qed (use t in \<open>simp add: prefix_built_def\<close>)
    with 2 show ?thesis by (simp add: ordered_run.simps [of no put xs width t i])
  next
    case 3
    have "ensures fails good (eval_bind (create_run no xs width (i + 1)) (\<lambda>(made, after, unordered).
        eval_bind (eval_res (link (xs ! i) t made)) (\<lambda>linked.
          if unordered then put linked (drop after xs)
          else ordered_run no put xs (min (width * 2) u64_max) linked after))) (built xs)"
      if next_ok: "lawful \<longrightarrow> run_to xs i (Suc i)"
    proof (rule ensures_bind [OF create_run_ok [OF less.prems(3)]], clarify)
      fix made after v
      assume made: "created_ok xs (i + 1) (made, after, v)"
      have r: "wb made" "entries made = slice xs (Suc i) after" "Suc i < after" "after \<le> length xs"
          "v \<longrightarrow> after < length xs" "lawful \<longrightarrow> run_to xs (Suc i) (after - 1) \<and> (\<not> v \<longrightarrow> run_to xs (Suc i) after)"
        using made 3 by (auto simp: created_ok_def)
      have whole: "lawful \<longrightarrow> run_to xs 0 (after - 1) \<and> (\<not> v \<longrightarrow> run_to xs 0 after)"
        using r(6) run next_ok by (blast intro: run_to_trans)
      have asc: "lawful \<longrightarrow> ascending rk (take after xs)"
        using run_prefix [of xs "after - 1"] whole r(3,4) by auto
      have linked: "prefix_built xs after u" if "wb u \<and> entries u = entries t @ xs ! i # entries made" for u
        using that t r slice_join [of 0 i after xs] asc by (simp add: prefix_built_def slice_def)
      show "ensures fails good (eval_bind (eval_res (link (xs ! i) t made)) (\<lambda>linked.
          if v then put linked (drop after xs)
          else ordered_run no put xs (min (width * 2) u64_max) linked after)) (built xs)"
      proof (rule ensures_bind [OF ensures_link])
        fix u assume u: "wb u \<and> entries u = entries t @ xs ! i # entries made"
        show "ensures fails good (if v then put u (drop after xs)
            else ordered_run no put xs (min (width * 2) u64_max) u after) (built xs)"
          using put_rest [OF linked [OF u]] less.hyps [OF _ linked [OF u], of "min (width * 2) u64_max"] r 3 whole less.prems(3)
          by (auto simp: u64_max_def)
      qed (use t r in \<open>simp_all add: prefix_built_def\<close>)
    qed
    then have rest: "ensures fails good (if stop then put t (drop i xs) else
        eval_bind (create_run no xs width (i + 1)) (\<lambda>(made, after, unordered).
        eval_bind (eval_res (link (xs ! i) t made)) (\<lambda>linked.
          if unordered then put linked (drop after xs)
          else ordered_run no put xs (min (width * 2) u64_max) linked after))) (built xs)"
      if "lawful \<and> \<not> stop \<longrightarrow> run_to xs i (Suc i)" for stop
      using that put_rest [OF t] by (cases stop) auto
    have "\<not> length xs \<le> i" "i + 1 \<noteq> length xs" "i < length xs" using 3 by simp_all
    then show ?thesis
      by (subst ordered_run.simps, simp only: if_False) (rule ensures_bind [OF tests_at], assumption, rule rest, blast)
  qed
qed

text \<open>\<open>map_from_entries\<close> and \<open>set_tree_from_list\<close> on a list that is not empty.\<close>

lemma from_list_ok:
  "ensures fails good (eval_bind (not_ordered_at no (x # xs) 0) (\<lambda>stop.
     if stop then put (tree_singleton x) xs
     else ordered_run no put (x # xs) 1 (tree_singleton x) 1)) (built (x # xs))"
proof -
  have one: "prefix_built (x # xs) 1 (tree_singleton x)" by (simp add: prefix_built_def)
  show ?thesis
    by (rule ensures_bind [OF tests_at])
       (use put_rest [OF one] ordered_run_ok [OF one] in auto)
qed

end

end
