(* ===== verification/Hell_Maps.thy ===== *)
theory Hell_Maps
  imports Hell_Collections
begin

text \<open>
  The builtins over \<open>Map\<close>.  An entry is a pair of thunks, its key and its item; the tree is
  ordered by the keys.  \<open>map_to_list\<close> reverses its pairs when a marker of the feature
  \<open>mutation-testing\<close> is active; without that feature the test is the constant \<open>false\<close>.
\<close>

type_synonym 't map_entry = "'t \<times> 't"

definition compare_entries ::
  "('s, 't) evaluator \<Rightarrow> class_evidence \<Rightarrow> 't map_entry \<Rightarrow> 't map_entry \<Rightarrow> ('s, ordering) guest" where
  "compare_entries E e a b = compare_keys E e (fst a) (fst b)"

section \<open>Building\<close>

definition map_entries_not_ordered ::
  "('s, 't) evaluator \<Rightarrow> class_evidence \<Rightarrow> 't map_entry \<Rightarrow> 't map_entry \<Rightarrow> ('s, bool) guest" where
  "map_entries_not_ordered E e a b = keys_not_ordered E e (fst a) (fst b)"

fun map_insert_entries ::
  "('s, 't) evaluator \<Rightarrow> class_evidence \<Rightarrow> 't map_entry tree \<Rightarrow> 't map_entry list \<Rightarrow> ('s, 't map_entry tree) guest" where
  "map_insert_entries E e t [] = eval_return t"
| "map_insert_entries E e t (x # xs) =
     eval_bind (tree_insert x (compare_entries E e) t) (\<lambda>t'. map_insert_entries E e t' xs)"

definition map_from_ordered_entries ::
  "('s, 't) evaluator \<Rightarrow> class_evidence \<Rightarrow> nat \<Rightarrow> 't map_entry tree \<Rightarrow> 't map_entry list \<Rightarrow> nat \<Rightarrow>
   ('s, 't map_entry tree) guest" where
  "map_from_ordered_entries E e width left items index =
     ordered_run (map_entries_not_ordered E e) (map_insert_entries E e) items width left index"

definition map_from_entries ::
  "('s, 't) evaluator \<Rightarrow> class_evidence \<Rightarrow> 't map_entry list \<Rightarrow> ('s, 't map_entry tree) guest" where
  "map_from_entries E e items = (case items of
     [] \<Rightarrow> eval_return Empty
   | first # rest \<Rightarrow>
       eval_bind (not_ordered_at (map_entries_not_ordered E e) items 0) (\<lambda>stop.
         if stop then map_insert_entries E e (tree_singleton first) rest
         else map_from_ordered_entries E e 1 (tree_singleton first) items 1))"

text \<open>The pairs of \<open>Map.fromList\<close>, in order; the first that is not a pair is an error.\<close>

fun list_entries :: "('s, 't) evaluator \<Rightarrow> 't list \<Rightarrow> ('s, 't map_entry list) guest" where
  "list_entries E [] = eval_return []"
| "list_entries E (pair # pairs) = eval_bind (ev_force E pair) (\<lambda>v. case v of
     VTuple elements \<Rightarrow> (case elements of
       [key, item] \<Rightarrow> eval_bind (list_entries E pairs) (\<lambda>rest. eval_return ((key, item) # rest))
     | _ \<Rightarrow> eval_fail (internal ''Map.fromList received a tuple with the wrong arity''))
   | _ \<Rightarrow> eval_fail (internal ''Map.fromList received a non-pair element''))"

definition map_from_list ::
  "('s, 't) evaluator \<Rightarrow> class_evidence \<Rightarrow> 't \<Rightarrow> ('s, 't force_outcome) guest" where
  "map_from_list E e ts =
    eval_bind (ev_force_list E ts) (\<lambda>pairs.
    eval_bind (list_entries E pairs) (\<lambda>items.
    eval_bind (map_from_entries E e items) (\<lambda>t. guest_return (VMap t))))"

section \<open>Reading\<close>

definition map_to_list :: "('s, 't) evaluator \<Rightarrow> 't \<Rightarrow> ('s, 't force_outcome) guest" where
  "map_to_list E m =
    eval_bind (force_map E m) (\<lambda>t. eval_bind (iterated t) (\<lambda>items.
      eval_return (Alias (list_from_values E (map (\<lambda>(k, v). ev_evaluated E (VTuple [k, v])) items)))))"

definition map_keys :: "('s, 't) evaluator \<Rightarrow> 't \<Rightarrow> ('s, 't force_outcome) guest" where
  "map_keys E m =
    eval_bind (force_map E m) (\<lambda>t. eval_bind (iterated t) (\<lambda>items.
      eval_return (Alias (list_from_values E (map fst items)))))"

definition map_elems :: "('s, 't) evaluator \<Rightarrow> 't \<Rightarrow> ('s, 't force_outcome) guest" where
  "map_elems E m =
    eval_bind (force_map E m) (\<lambda>t. eval_bind (iterated t) (\<lambda>items.
      eval_return (Alias (list_from_values E (map snd items)))))"

definition map_lookup ::
  "('s, 't) evaluator \<Rightarrow> class_evidence \<Rightarrow> 't \<Rightarrow> 't \<Rightarrow> ('s, 't force_outcome) guest" where
  "map_lookup E e key m =
    eval_bind (force_map E m) (\<lambda>t.
    eval_bind (tree_find (\<lambda>x. compare_keys E e key (fst x)) t) (\<lambda>found.
      guest_return (VMaybe (map_option snd found))))"

definition size_value :: "'a tree \<Rightarrow> 't guest_value" where
  "size_value t = VInt (int (min (node_len t) largest_int))"

definition map_size :: "('s, 't) evaluator \<Rightarrow> 't \<Rightarrow> ('s, 't force_outcome) guest" where
  "map_size E m = eval_bind (force_map E m) (\<lambda>t. guest_return (size_value t))"

text \<open>\<open>Map.any\<close> and \<open>Map.all\<close>: the first item that decides, in order of the keys.\<close>

fun quantify :: "('s, 't) evaluator \<Rightarrow> 't \<Rightarrow> bool \<Rightarrow> 't map_entry list \<Rightarrow> ('s, bool) guest" where
  "quantify E predicate every [] = eval_return every"
| "quantify E predicate every ((key, item) # items) =
     eval_bind (force_bool E (ev_apply E predicate item)) (\<lambda>b.
       if b \<noteq> every then eval_return (\<not> every) else quantify E predicate every items)"

definition map_quantifier ::
  "('s, 't) evaluator \<Rightarrow> 't \<Rightarrow> 't \<Rightarrow> bool \<Rightarrow> ('s, 't force_outcome) guest" where
  "map_quantifier E predicate m every =
    eval_bind (force_map E m) (\<lambda>t. eval_bind (iterated t) (\<lambda>items.
    eval_bind (quantify E predicate every items) (\<lambda>b. guest_return (VBool b))))"

section \<open>Changing one key\<close>

definition map_insert ::
  "('s, 't) evaluator \<Rightarrow> class_evidence \<Rightarrow> 't \<Rightarrow> 't \<Rightarrow> 't \<Rightarrow> ('s, 't force_outcome) guest" where
  "map_insert E e key item m =
    eval_bind (force_map E m) (\<lambda>t.
    eval_bind (tree_insert (key, item) (compare_entries E e) t) (\<lambda>t'. guest_return (VMap t')))"

definition map_delete ::
  "('s, 't) evaluator \<Rightarrow> class_evidence \<Rightarrow> 't \<Rightarrow> 't \<Rightarrow> ('s, 't force_outcome) guest" where
  "map_delete E e key m =
    eval_bind (force_map E m) (\<lambda>t.
    eval_bind (tree_remove (\<lambda>x. compare_keys E e key (fst x)) t) (\<lambda>t'. guest_return (VMap t')))"

definition map_collision_callback :: "('s, 't) evaluator \<Rightarrow> 't \<Rightarrow> 't \<Rightarrow> 't \<Rightarrow> 't" where
  "map_collision_callback E f left right = ev_apply E (ev_apply E f left) right"

definition map_value_callback :: "('s, 't) evaluator \<Rightarrow> 't \<Rightarrow> 't \<Rightarrow> 't" where
  "map_value_callback E f item = ev_apply E f item"

fun insert_with_node ::
  "('s, 't) evaluator \<Rightarrow> class_evidence \<Rightarrow> 't \<Rightarrow> 't \<Rightarrow> 't \<Rightarrow> 't map_entry tree \<Rightarrow> ('s, 't map_entry tree) guest" where
  "insert_with_node E e f key item Empty = eval_return (tree_node (key, item) Empty Empty)"
| "insert_with_node E e f key item (Node y l r n) =
     eval_bind (compare_keys E e key (fst y)) (\<lambda>c. case c of
       Less \<Rightarrow> eval_bind (insert_with_node E e f key item l) (\<lambda>l'. eval_res (balance_left (tree_node y l' r)))
     | Equal \<Rightarrow> eval_return (tree_node (key, map_collision_callback E f item (snd y)) l r)
     | Greater \<Rightarrow> eval_bind (insert_with_node E e f key item r) (\<lambda>r'. eval_res (balance_right (tree_node y l r'))))"

definition map_insert_with ::
  "('s, 't) evaluator \<Rightarrow> class_evidence \<Rightarrow> 't \<Rightarrow> 't \<Rightarrow> 't \<Rightarrow> 't \<Rightarrow> ('s, 't force_outcome) guest" where
  "map_insert_with E e f key item m =
    eval_bind (force_map E m) (\<lambda>t.
    eval_bind (insert_with_node E e f key item t) (\<lambda>t'. guest_return (VMap t')))"

fun adjust_node ::
  "('s, 't) evaluator \<Rightarrow> class_evidence \<Rightarrow> 't \<Rightarrow> 't \<Rightarrow> 't map_entry tree \<Rightarrow> ('s, 't map_entry tree) guest" where
  "adjust_node E e f key Empty = eval_return Empty"
| "adjust_node E e f key (Node y l r n) =
     eval_bind (compare_keys E e key (fst y)) (\<lambda>c. case c of
       Less \<Rightarrow> eval_bind (adjust_node E e f key l) (\<lambda>l'. eval_return (tree_node y l' r))
     | Equal \<Rightarrow> eval_return (tree_node (fst y, map_value_callback E f (snd y)) l r)
     | Greater \<Rightarrow> eval_bind (adjust_node E e f key r) (\<lambda>r'. eval_return (tree_node y l r')))"

definition map_adjust ::
  "('s, 't) evaluator \<Rightarrow> class_evidence \<Rightarrow> 't \<Rightarrow> 't \<Rightarrow> 't \<Rightarrow> ('s, 't force_outcome) guest" where
  "map_adjust E e f key m =
    eval_bind (force_map E m) (\<lambda>t.
    eval_bind (adjust_node E e f key t) (\<lambda>t'. guest_return (VMap t')))"

section \<open>Whole maps\<close>

definition map_filter_callback :: "('s, 't) evaluator \<Rightarrow> 't \<Rightarrow> 't map_entry \<Rightarrow> bool \<Rightarrow> 't" where
  "map_filter_callback E predicate x with_key =
    (if with_key then ev_apply E (ev_apply E predicate (fst x)) (snd x)
     else ev_apply E predicate (snd x))"

fun filter_entries ::
  "('s, 't) evaluator \<Rightarrow> 't \<Rightarrow> bool \<Rightarrow> 't map_entry list \<Rightarrow> ('s, 't map_entry list) guest" where
  "filter_entries E predicate with_key [] = eval_return []"
| "filter_entries E predicate with_key (x # xs) =
     eval_bind (force_bool E (map_filter_callback E predicate x with_key)) (\<lambda>b.
     eval_bind (filter_entries E predicate with_key xs) (\<lambda>ys. eval_return (if b then x # ys else ys)))"

definition map_filter ::
  "('s, 't) evaluator \<Rightarrow> 't \<Rightarrow> 't \<Rightarrow> bool \<Rightarrow> ('s, 't force_outcome) guest" where
  "map_filter E predicate m with_key =
    eval_bind (force_map E m) (\<lambda>t. eval_bind (iterated t) (\<lambda>items.
    eval_bind (filter_entries E predicate with_key items) (\<lambda>kept.
      guest_return (VMap (tree_from_sorted kept)))))"

definition map_values :: "('s, 't) evaluator \<Rightarrow> 't \<Rightarrow> 't \<Rightarrow> ('s, 't force_outcome) guest" where
  "map_values E f m =
    eval_bind (force_map E m) (\<lambda>t. eval_bind (iterated t) (\<lambda>items.
      guest_return (VMap (tree_from_sorted (map (\<lambda>(k, v). (k, map_value_callback E f v)) items)))))"

fun insert_union_node ::
  "('s, 't) evaluator \<Rightarrow> class_evidence \<Rightarrow> 't \<Rightarrow> 't map_entry \<Rightarrow> bool \<Rightarrow> 't map_entry tree \<Rightarrow>
   ('s, 't map_entry tree) guest" where
  "insert_union_node E e f x x_is_left Empty = eval_return (tree_node x Empty Empty)"
| "insert_union_node E e f x x_is_left (Node y l r n) =
     eval_bind (compare_keys E e (fst x) (fst y)) (\<lambda>c. case c of
       Less \<Rightarrow> eval_bind (insert_union_node E e f x x_is_left l) (\<lambda>l'. eval_res (balance_left (tree_node y l' r)))
     | Greater \<Rightarrow> eval_bind (insert_union_node E e f x x_is_left r) (\<lambda>r'. eval_res (balance_right (tree_node y l r')))
     | Equal \<Rightarrow> eval_return (if x_is_left
         then tree_node (fst x, map_collision_callback E f (snd x) (snd y)) l r
         else tree_node (fst y, map_collision_callback E f (snd y) (snd x)) l r))"

fun map_union_entries ::
  "('s, 't) evaluator \<Rightarrow> class_evidence \<Rightarrow> 't \<Rightarrow> 't map_entry tree \<Rightarrow> 't map_entry tree \<Rightarrow>
   ('s, 't map_entry tree) guest" where
  "map_union_entries E e f left Empty = eval_return left"
| "map_union_entries E e f Empty (Node y rl rr n) =
    (if n = 1 then insert_union_node E e f y False Empty else eval_return (Node y rl rr n))"
| "map_union_entries E e f (Node x ll lr m) (Node y rl rr n) =
    (if n = 1 then insert_union_node E e f y False (Node x ll lr m)
     else if m = 1 then insert_union_node E e f x True (Node y rl rr n)
     else eval_bind (tree_split (\<lambda>z. compare_keys E e (fst x) (fst z)) (Node y rl rr n))
       (\<lambda>(lower, matching, upper).
         eval_bind (map_union_entries E e f ll lower) (\<lambda>merged_left.
         eval_bind (map_union_entries E e f lr upper) (\<lambda>merged_right.
           eval_res (link
             (case matching of None \<Rightarrow> x
              | Some z \<Rightarrow> (fst x, map_collision_callback E f (snd x) (snd z)))
             merged_left merged_right)))))"

definition map_union_with ::
  "('s, 't) evaluator \<Rightarrow> class_evidence \<Rightarrow> 't \<Rightarrow> 't \<Rightarrow> 't \<Rightarrow> ('s, 't force_outcome) guest" where
  "map_union_with E e f left right =
    eval_bind (force_map E left) (\<lambda>l. eval_bind (force_map E right) (\<lambda>r.
    eval_bind (map_union_entries E e f l r) (\<lambda>t. guest_return (VMap t))))"

definition map_singleton :: "'t \<Rightarrow> 't \<Rightarrow> 't map_entry tree" where
  "map_singleton key item = tree_singleton (key, item)"

end
