(* ===== verification/Hell_Map_Ops.thy ===== *)
theory Hell_Map_Ops
  imports Hell_Tree_Map Hell_Maps
begin

text \<open>
  The operations on maps of keys as operations on partial maps, for every evaluator whose
  comparisons do not panic.
\<close>

section \<open>Iteration\<close>

fun unread :: "'a tree list \<Rightarrow> 'a list" where
  "unread [] = []"
| "unread (Empty # stack) = unread stack"
| "unread (Node x l r n # stack) = x # entries r @ unread stack"

lemma pending_push: "unread (push_left stack t) = entries t @ unread stack"
  by (induction stack t rule: push_left.induct) simp_all

lemma push_nodes: "Empty \<notin> set stack \<Longrightarrow> Empty \<notin> set (push_left stack t)"
  by (induction stack t rule: push_left.induct) simp_all

lemma drain: "Empty \<notin> set stack \<Longrightarrow> run drain_step (out, stack) = Some (out @ unread stack)"
proof (induction "length (unread stack)" arbitrary: out stack rule: less_induct)
  case less
  show ?case
  proof (cases stack rule: tree_next.cases)
    case (1 x l r n rest)
    have "run drain_step (out @ [x], push_left rest r) = Some ((out @ [x]) @ unread (push_left rest r))"
      using less.hyps [of "push_left rest r" "out @ [x]"] less.prems push_nodes [of rest r] 1
      by (simp add: pending_push)
    with 1 show ?thesis by (subst run_unfold) (simp add: drain_step_def pending_push)
  qed (use less.prems in \<open>auto simp: run_unfold [of drain_step] drain_step_def\<close>)
qed

lemma tree_collect_entries [simp]: "tree_collect t = Some (entries t)"
  using drain [of "push_left [] t" "[]"] push_nodes [of "[]" t] by (simp add: tree_collect_def pending_push)

lemma iterated_entries: "iterated t = eval_return (entries t)"
  by (simp add: iterated_def eval_res_def eval_return_def)

lemma bind_return [simp]: "eval_bind (eval_return a) f = f a"
  by (simp add: eval_bind_def eval_return_def)

text \<open>The value of a key in a union: the key of the left map, the callback on both items.\<close>

definition combined :: "('s, 't) evaluator \<Rightarrow> 't \<Rightarrow> 't map_entry option \<Rightarrow> 't map_entry option \<Rightarrow> 't map_entry option" where
  "combined E f a b = (case a of
     None \<Rightarrow> b
   | Some x \<Rightarrow> (case b of None \<Rightarrow> a | Some y \<Rightarrow> Some (fst x, map_collision_callback E f (snd x) (snd y))))"

lemma combined_simps [simp]: "combined E f None b = b" "combined E f a None = a"
  "combined E f (Some x) (Some y) = Some (fst x, map_collision_callback E f (snd x) (snd y))"
  by (auto simp: combined_def split: option.split)

section \<open>Filtering\<close>

text \<open>The answers of a predicate to the entries, one after the other.\<close>

definition answered :: "'a list \<Rightarrow> bool list \<Rightarrow> 'a list" where
  "answered xs bs = map fst (filter snd (zip xs bs))"

lemma filter_entries_ok:
  assumes "\<And>x. x \<in> set xs \<Longrightarrow> ensures fails good (force_bool E (map_filter_callback E p x with_key)) (answer x)"
  shows "ensures fails good (filter_entries E p with_key xs) (\<lambda>ys. \<exists>bs. list_all2 answer xs bs \<and> ys = answered xs bs)"
  using assms
proof (induction xs)
  case (Cons x xs)
  have put: "\<exists>bs'. list_all2 answer (x # xs) bs' \<and> (if b then x # ys else ys) = answered (x # xs) bs'"
    if "answer x b" "list_all2 answer xs bs" "ys = answered xs bs" for b ys bs
    by (rule exI [of _ "b # bs"]) (use that in \<open>simp add: answered_def\<close>)
  have here: "ensures fails good (force_bool E (map_filter_callback E p x with_key)) (answer x)"
    and there: "ensures fails good (filter_entries E p with_key xs) (\<lambda>ys. \<exists>bs. list_all2 answer xs bs \<and> ys = answered xs bs)"
    using Cons by simp_all
  show ?case
    unfolding filter_entries.simps
    by (rule ensures_bind [OF here], rule ensures_bind [OF there], rule ensures_return) (use put in blast)
qed (simp add: ensures_return answered_def)

lemma answered_filter: "list_all2 (\<lambda>x b. b = keep x) xs bs \<Longrightarrow> answered xs bs = filter keep xs"
  by (induction xs bs rule: list_all2_induct) (auto simp: answered_def)

section \<open>The evaluator's contract\<close>

text \<open>
  What is asked of the comparisons of one instance of \<open>Ord\<close>: no panic, and, when the
  instance is lawful, equality and the order of \<open>rank\<close>.  \<open>Arc::ptr_eq\<close> answers only for
  one and the same allocation.
\<close>

locale ord_keys =
  fixes E :: "('s, 't) evaluator"
    and e :: class_evidence
    and rank :: "'t \<Rightarrow> 'r::linorder"
    and good :: "'s \<Rightarrow> bool"
    and lawful fails :: bool
  assumes equals: "ensures fails good (ev_equal E a b) (\<lambda>u. lawful \<longrightarrow> u = (rank a = rank b))"
    and less_than: "ensures fails good (eval_bind (ev_lt E e a b) (force_outcome_bool E))
      (\<lambda>u. lawful \<longrightarrow> u = (rank a < rank b))"
    and greater_than: "ensures fails good (eval_bind (ev_gt E e a b) (force_outcome_bool E))
      (\<lambda>u. lawful \<longrightarrow> u = (rank b < rank a))"
    and same_thunk: "ev_same E a b \<Longrightarrow> a = b"
    and same_node: "ev_same_node E t u \<Longrightarrow> t = u"
begin

lemma compare_ok: "ensures fails good (compare_keys E e a b) (\<lambda>c. lawful \<longrightarrow> c = compare (rank a) (rank b))"
  unfolding compare_keys_def
  by (rule ensures_bind [OF equals], split if_split, intro conjI impI)
     (auto intro!: ensures_return ensures_bind [OF less_than] ensures_bind [OF greater_than] simp: compare_def)

lemma not_ordered_ok: "ensures fails good (keys_not_ordered E e a b) (\<lambda>u. lawful \<longrightarrow> u = (rank b \<le> rank a))"
  unfolding keys_not_ordered_def
  by (rule ensures_bind [OF equals], split if_split, intro conjI impI)
     (auto intro!: ensures_return ensures_weaken [OF greater_than])

end

sublocale ord_keys \<subseteq> comparator "compare_keys E e" rank good lawful fails
  by unfold_locales (rule compare_ok)

context ord_keys
begin

abbreviation entry_rank :: "'t map_entry \<Rightarrow> 'r" where
  "entry_rank \<equiv> \<lambda>x. rank (fst x)"

lemmas entry_insert = insert_meaning [where key = fst]
lemmas entry_remove = remove_meaning [where key = fst]
lemmas entry_find = find_meaning [where key = fst]

lemma map_insert_entries_ok:
  "valid lawful entry_rank t \<Longrightarrow> ensures fails good (map_insert_entries E e t xs)
     (\<lambda>t'. valid lawful entry_rank t' \<and> (lawful \<longrightarrow> entries t' = all_placed entry_rank (entries t) xs))"
proof (induction xs arbitrary: t)
  case (Cons x xs)
  have "compare_entries E e = (\<lambda>x y. compare_keys E e (fst x) (fst y))" by (simp add: compare_entries_def fun_eq_iff)
  with Cons show ?case
    by (auto intro!: ensures_bind [OF insert_meaning [OF Cons.prems]] intro: ensures_weaken [OF Cons.IH])
qed (simp add: ensures_return)

end

sublocale ord_keys \<subseteq> maps: builder "map_entries_not_ordered E e" "map_insert_entries E e"
  "\<lambda>x. rank (fst x)" good lawful fails
  by unfold_locales (auto simp: map_entries_not_ordered_def intro: not_ordered_ok map_insert_entries_ok)

context ord_keys
begin

lemma map_from_entries_ok: "ensures fails good (map_from_entries E e items)
    (\<lambda>t. valid lawful entry_rank t \<and> (lawful \<longrightarrow> entries t = all_placed entry_rank [] items))"
proof (cases items)
  case (Cons x xs)
  with maps.from_list_ok [of x xs] show ?thesis
    unfolding Cons map_from_entries_def map_from_ordered_entries_def by (simp add: maps.built_def [abs_def])
qed (simp add: map_from_entries_def ensures_return)

section \<open>Inserting with a function\<close>

lemma insert_with_place:
  "insert_with_node E e f k v t =
    tree_place (k, v) (\<lambda>y. (k, map_collision_callback E f v (snd y))) (\<lambda>y. compare_keys E e k (fst y)) t"
  by (induction t) (simp_all cong: ordering.case_cong)

lemma insert_union_place:
  "insert_union_node E e f x x_is_left t = tree_place x
    (\<lambda>y. if x_is_left then (fst x, map_collision_callback E f (snd x) (snd y))
         else (fst y, map_collision_callback E f (snd y) (snd x)))
    (\<lambda>y. compare_keys E e (fst x) (fst y)) t"
proof (induction t)
  case (Node y l r n)
  have "(if x_is_left then tree_node a l r else tree_node b l r) = tree_node (if x_is_left then a else b) l r" for a b
    by simp
  with Node show ?case by (simp cong: ordering.case_cong)
qed simp

lemma insert_with_ok:
  assumes "valid lawful entry_rank t"
  shows "ensures fails good (insert_with_node E e f k v t) (\<lambda>t'. valid lawful entry_rank t' \<and>
    (lawful \<longrightarrow> meaning entry_rank t' = (meaning entry_rank t)(rank k \<mapsto>
      (k, case meaning entry_rank t (rank k) of None \<Rightarrow> v | Some y \<Rightarrow> map_collision_callback E f v (snd y)))))"
  unfolding insert_with_place
  by (rule ensures_weaken [OF place_meaning [OF assms]]) (auto split: option.splits)

lemma insert_union_ok:
  assumes "valid lawful entry_rank t"
  shows "ensures fails good (insert_union_node E e f x x_is_left t) (\<lambda>t'. valid lawful entry_rank t' \<and>
    (lawful \<longrightarrow> meaning entry_rank t' = (meaning entry_rank t)(entry_rank x :=
      if x_is_left then combined E f (Some x) (meaning entry_rank t (entry_rank x))
      else combined E f (meaning entry_rank t (entry_rank x)) (Some x))))"
  unfolding insert_union_place
  by (rule ensures_weaken [OF place_meaning [OF assms]]) (auto split: option.splits)

lemma same_keys: "map fst xs = map fst ys \<Longrightarrow> ascending entry_rank xs \<longleftrightarrow> ascending entry_rank ys"
proof -
  have "ascending entry_rank zs = sorted_wrt (\<lambda>a b. rank a < rank b) (map fst zs)" for zs :: "'t map_entry list"
    by (simp add: sorted_wrt_map)
  then show "map fst xs = map fst ys \<Longrightarrow> ?thesis" by simp
qed

lemma replaced_branch:
  assumes "valid lawful entry_rank (Node y l r n)" "map fst (entries l') @ fst y' # map fst (entries r') = map fst (entries l) @ fst y # map fst (entries r)"
    and "wb l'" "wb r'" "node_len l' = node_len l" "node_len r' = node_len r"
  shows "valid lawful entry_rank (tree_node y' l' r')" "node_len (tree_node y' l' r') = n"
  using assms same_keys [of "entries (Node y' l' r' n)" "entries (Node y l r n)"]
  by (auto simp: valid_def tree_node_def)

lemma adjust_ok:
  "valid lawful entry_rank t \<Longrightarrow> ensures fails good (adjust_node E e f k t) (\<lambda>t'. valid lawful entry_rank t' \<and>
    node_len t' = node_len t \<and> map fst (entries t') = map fst (entries t) \<and> (lawful \<longrightarrow>
    meaning entry_rank t' = (meaning entry_rank t)(rank k :=
      map_option (\<lambda>y. (fst y, map_value_callback E f (snd y))) (meaning entry_rank t (rank k)))))"
proof (induction t)
  case (Node y l r n)
  note sub = valid_Node [OF Node.prems] and mean = meaning_Node [OF Node.prems]
  have wbs: "wb l" "wb r" using sub by (auto simp: valid_def)
  show ?case
    unfolding adjust_node.simps
  proof (rule ensures_bind [OF compare_ok], rule ensures_ordering, goal_cases)
    case (1 c)
    show ?case
    proof (rule ensures_bind [OF Node.IH(1)], use sub in simp, rule ensures_return, goal_cases)
      case (1 l')
      then have ok: "valid lawful entry_rank (tree_node y l' r)" "node_len (tree_node y l' r) = n"
        using replaced_branch [OF Node.prems, of l' y r] wbs by (auto simp: valid_def)
      with 1 \<open>lawful \<longrightarrow> c = _\<close> \<open>c = Less\<close> mean meaning_Node [OF ok(1) [unfolded tree_node_def]]
      show ?case by (auto simp: compare_cases around_def fun_eq_iff tree_node_def)
    qed
  next
    case (2 c)
    let ?y = "(fst y, map_value_callback E f (snd y))"
    have ok: "valid lawful entry_rank (tree_node ?y l r)" "node_len (tree_node ?y l r) = n"
      using replaced_branch [OF Node.prems, of l ?y r] wbs by auto
    with 2 mean meaning_Node [OF ok(1) [unfolded tree_node_def]]
    show ?case by (intro ensures_return) (auto simp: compare_cases around_def fun_eq_iff tree_node_def)
  next
    case (3 c)
    show ?case
    proof (rule ensures_bind [OF Node.IH(2)], use sub in simp, rule ensures_return, goal_cases)
      case (1 r')
      then have ok: "valid lawful entry_rank (tree_node y l r')" "node_len (tree_node y l r') = n"
        using replaced_branch [OF Node.prems, of l y r'] wbs by (auto simp: valid_def)
      with 1 \<open>lawful \<longrightarrow> c = _\<close> \<open>c = Greater\<close> mean meaning_Node [OF ok(1) [unfolded tree_node_def]]
      show ?case by (auto simp: compare_cases around_def fun_eq_iff tree_node_def)
    qed
  qed
qed (simp add: ensures_return)

section \<open>Union\<close>

lemma combined_None: "combined E f a b = None \<longleftrightarrow> a = None \<and> b = None"
  by (auto simp: combined_def split: option.splits)

lemma union_link:
  assumes l: "valid lawful entry_rank (Node x ll lr m)"
    and ok: "valid lawful entry_rank a" "valid lawful entry_rank b"
    and a: "lawful \<Longrightarrow> meaning entry_rank a = (\<lambda>k. combined E f (meaning entry_rank ll k) (if k < entry_rank x then M k else None))"
    and b: "lawful \<Longrightarrow> meaning entry_rank b = (\<lambda>k. combined E f (meaning entry_rank lr k) (if entry_rank x < k then M k else None))"
    and found: "lawful \<Longrightarrow> found = M (entry_rank x)"
    and item: "item = (case found of None \<Rightarrow> x | Some z \<Rightarrow> (fst x, map_collision_callback E f (snd x) (snd z)))"
  shows "ensures fails good (eval_res (link item a b)) (\<lambda>t. valid lawful entry_rank t \<and>
    (lawful \<longrightarrow> meaning entry_rank t = (\<lambda>k. combined E f (meaning entry_rank (Node x ll lr m) k) (M k))))"
proof -
  have r: "entry_rank item = entry_rank x" using item by (simp split: option.split)
  show ?thesis
  proof (rule ensures_weaken [OF ensures_link_meaning [OF ok]])
    show "\<forall>k \<in> dom (meaning entry_rank a). k < entry_rank item" if lawful
      using a [OF that] below_root(1) [OF l that] r by (auto simp: domIff combined_None split: if_splits)
    show "\<forall>k \<in> dom (meaning entry_rank b). entry_rank item < k" if lawful
      using b [OF that] below_root(2) [OF l that] r by (auto simp: domIff combined_None split: if_splits)
    fix t assume t: "valid lawful entry_rank t \<and> (lawful \<longrightarrow>
      meaning entry_rank t = around (entry_rank item) (Some item) (meaning entry_rank a) (meaning entry_rank b))"
    have "meaning entry_rank t = (\<lambda>k. combined E f (meaning entry_rank (Node x ll lr m) k) (M k))" if lawful
      using t that a b found item r meaning_Node [OF l that]
      by (auto simp: around_def fun_eq_iff split: option.split)
    with t show "valid lawful entry_rank t \<and> (lawful \<longrightarrow>
      meaning entry_rank t = (\<lambda>k. combined E f (meaning entry_rank (Node x ll lr m) k) (M k)))" by simp
  qed
qed

lemma union_ok:
  "valid lawful entry_rank l \<Longrightarrow> valid lawful entry_rank r \<Longrightarrow>
   ensures fails good (map_union_entries E e f l r) (\<lambda>t. valid lawful entry_rank t \<and>
     (lawful \<longrightarrow> meaning entry_rank t = (\<lambda>k. combined E f (meaning entry_rank l k) (meaning entry_rank r k))))"
proof (induction l arbitrary: r)
  case Empty
  then show ?case
    by (cases r) (auto intro!: ensures_return simp: single_node)
next
  case (Node x ll lr m)
  note left = valid_Node [OF Node.prems(1)] and mean = meaning_Node [OF Node.prems(1)]
  show ?case
  proof (cases r)
    case (Node y rl rr n)
    consider "n = 1" | "n \<noteq> 1" "m = 1" | "n \<noteq> 1" "m \<noteq> 1" by blast
    then show ?thesis
    proof cases
      case 1
      with Node.prems(2) Node single_node [of lawful entry_rank y rl rr] have "meaning entry_rank r = [entry_rank y \<mapsto> y]"
        by simp
      with 1 Node insert_union_ok [OF Node.prems(1), of f y False] show ?thesis
        by (auto elim!: ensures_weaken simp: fun_eq_iff)
    next
      case 2
      with Node.prems(1) single_node [of lawful entry_rank x ll lr] have "meaning entry_rank (Node x ll lr m) = [entry_rank x \<mapsto> x]"
        by simp
      with 2 Node insert_union_ok [OF Node.prems(2), of f x True] show ?thesis
        by (auto elim!: ensures_weaken simp: fun_eq_iff)
    next
      case 3
      have "ensures fails good
          (eval_bind (map_union_entries E e f ll lower) (\<lambda>a. eval_bind (map_union_entries E e f lr upper) (\<lambda>b.
            eval_res (link (case found of None \<Rightarrow> x | Some z \<Rightarrow> (fst x, map_collision_callback E f (snd x) (snd z))) a b))))
          (\<lambda>t. valid lawful entry_rank t \<and> (lawful \<longrightarrow> meaning entry_rank t =
            (\<lambda>k. combined E f (meaning entry_rank (Node x ll lr m) k) (meaning entry_rank r k))))"
        if "valid lawful entry_rank lower" "valid lawful entry_rank upper"
          "lawful \<longrightarrow> found = meaning entry_rank r (entry_rank x) \<and>
            meaning entry_rank lower = (\<lambda>k. if k < entry_rank x then meaning entry_rank r k else None) \<and>
            meaning entry_rank upper = (\<lambda>k. if entry_rank x < k then meaning entry_rank r k else None)"
        for lower found upper
        by (rule ensures_bind [OF Node.IH(1)], use left in blast, rule that,
            rule ensures_bind [OF Node.IH(2)], use left in blast, rule that,
            rule union_link [OF Node.prems(1)]) (use that in auto)
      with 3 Node show ?thesis
        by (auto simp del: tree_split.simps intro!: ensures_bind [OF split_meaning [OF Node.prems(2) [unfolded Node]]])
    qed
  qed (use Node.prems in \<open>simp add: ensures_return\<close>)
qed

section \<open>Whole maps\<close>

lemma answered_ascending:
  assumes "ascending rk xs" "length bs = length xs"
  shows "ascending rk (answered xs bs)"
proof -
  have "sorted_wrt (\<lambda>p q. rk (fst p) < rk (fst q)) (zip xs bs)"
    using assms sorted_wrt_map [of "\<lambda>x y. rk x < rk y" fst "zip xs bs"] by simp
  then show ?thesis by (simp add: answered_def sorted_wrt_map sorted_wrt_filter)
qed

lemma values_ok:
  assumes "valid lawful entry_rank t"
    and "t' = tree_from_sorted (map (\<lambda>(k, v). (k, map_value_callback E f v)) (entries t))"
  shows "valid lawful entry_rank t'" "lawful \<Longrightarrow>
    meaning entry_rank t' = (\<lambda>k. map_option (\<lambda>y. (fst y, map_value_callback E f (snd y))) (meaning entry_rank t k))"
proof -
  let ?g = "\<lambda>(k, v). (k, map_value_callback E f v)"
  have t': "wb t'" "entries t' = map ?g (entries t)" using from_sorted_ok by (auto simp: assms(2))
  have "map fst (map ?g xs) = map fst xs" for xs :: "'t map_entry list" by (induction xs) auto
  with t' assms(1) same_keys [of "map ?g (entries t)" "entries t"] show "valid lawful entry_rank t'"
    by (simp add: valid_def)
  have "at_rank entry_rank k (map ?g xs) = map_option (\<lambda>y. (fst y, map_value_callback E f (snd y))) (at_rank entry_rank k xs)"
    for k xs by (induction xs) auto
  then show "meaning entry_rank t' = (\<lambda>k. map_option (\<lambda>y. (fst y, map_value_callback E f (snd y))) (meaning entry_rank t k))"
    if lawful using t' by (simp add: fun_eq_iff meaning_def)
qed

end

end
