(* ===== verification/Hell_Sets.thy ===== *)
theory Hell_Sets
  imports Hell_Maps
begin

text \<open>
  The builtins over \<open>Set\<close>, whose tree holds the elements themselves, and the dispatch of
  both kinds of builtin.  The sets keep a subtree that an operation leaves alone and test
  for that with \<open>Arc::ptr_eq\<close>.
\<close>

section \<open>Sharing\<close>

definition same_tree_root :: "('s, 't) evaluator \<Rightarrow> 't tree \<Rightarrow> 't tree \<Rightarrow> bool" where
  "same_tree_root E l r = (case (l, r) of
     (Empty, Empty) \<Rightarrow> True
   | (Node _ _ _ _, Node _ _ _ _) \<Rightarrow> ev_same_node E l r
   | _ \<Rightarrow> False)"

section \<open>Inserting\<close>

fun set_insert_replacing ::
  "('s, 't) evaluator \<Rightarrow> class_evidence \<Rightarrow> 't tree \<Rightarrow> 't \<Rightarrow> ('s, 't tree) guest" where
  "set_insert_replacing E e Empty x = eval_return (tree_node x Empty Empty)"
| "set_insert_replacing E e (Node y l r n) x =
     eval_bind (compare_keys E e x y) (\<lambda>c. case c of
       Less \<Rightarrow> eval_bind (set_insert_replacing E e l x) (\<lambda>l'.
         if same_tree_root E l' l then eval_return (Node y l r n)
         else eval_res (balance_left (tree_node y l' r)))
     | Equal \<Rightarrow> eval_return (if ev_same E x y then Node y l r n else tree_node x l r)
     | Greater \<Rightarrow> eval_bind (set_insert_replacing E e r x) (\<lambda>r'.
         if same_tree_root E r' r then eval_return (Node y l r n)
         else eval_res (balance_right (tree_node y l r'))))"

fun set_insert_preserving_existing ::
  "('s, 't) evaluator \<Rightarrow> class_evidence \<Rightarrow> 't tree \<Rightarrow> 't \<Rightarrow> ('s, 't tree) guest" where
  "set_insert_preserving_existing E e Empty x = eval_return (tree_node x Empty Empty)"
| "set_insert_preserving_existing E e (Node y l r n) x =
     eval_bind (compare_keys E e x y) (\<lambda>c. case c of
       Less \<Rightarrow> eval_bind (set_insert_preserving_existing E e l x) (\<lambda>l'.
         if same_tree_root E l' l then eval_return (Node y l r n)
         else eval_res (balance_left (tree_node y l' r)))
     | Equal \<Rightarrow> eval_return (Node y l r n)
     | Greater \<Rightarrow> eval_bind (set_insert_preserving_existing E e r x) (\<lambda>r'.
         if same_tree_root E r' r then eval_return (Node y l r n)
         else eval_res (balance_right (tree_node y l r'))))"

fun set_tree_insert_remaining ::
  "('s, 't) evaluator \<Rightarrow> class_evidence \<Rightarrow> 't tree \<Rightarrow> 't list \<Rightarrow> ('s, 't tree) guest" where
  "set_tree_insert_remaining E e t [] = eval_return t"
| "set_tree_insert_remaining E e t (x # xs) =
     eval_bind (set_insert_replacing E e t x) (\<lambda>t'. set_tree_insert_remaining E e t' xs)"

definition set_tree_from_ordered_prefix ::
  "('s, 't) evaluator \<Rightarrow> class_evidence \<Rightarrow> 't list \<Rightarrow> nat \<Rightarrow> 't tree \<Rightarrow> nat \<Rightarrow> ('s, 't tree) guest" where
  "set_tree_from_ordered_prefix E e input index left width =
     ordered_run (keys_not_ordered E e) (set_tree_insert_remaining E e) input width left index"

definition set_tree_from_list ::
  "('s, 't) evaluator \<Rightarrow> class_evidence \<Rightarrow> 't list \<Rightarrow> ('s, 't tree) guest" where
  "set_tree_from_list E e input = (case input of
     [] \<Rightarrow> eval_return Empty
   | first # rest \<Rightarrow>
       if rest = [] then eval_return (tree_singleton first)
       else eval_bind (not_ordered_at (keys_not_ordered E e) input 0) (\<lambda>stop.
         if stop then set_tree_insert_remaining E e (tree_singleton first) rest
         else set_tree_from_ordered_prefix E e input 1 (tree_singleton first) 1))"

section \<open>Algebra\<close>

fun set_union_tree ::
  "('s, 't) evaluator \<Rightarrow> class_evidence \<Rightarrow> 't tree \<Rightarrow> 't tree \<Rightarrow> ('s, 't tree) guest" where
  "set_union_tree E e Empty right = eval_return right"
| "set_union_tree E e (Node x ll lr m) Empty = eval_return (Node x ll lr m)"
| "set_union_tree E e (Node x ll lr m) (Node y rl rr n) =
    (if n = 1 then set_insert_preserving_existing E e (Node x ll lr m) y
     else if m = 1 then set_insert_replacing E e (Node y rl rr n) x
     else eval_bind (tree_split (compare_keys E e x) (Node y rl rr n)) (\<lambda>(lower, found, upper).
       eval_bind (set_union_tree E e ll lower) (\<lambda>joined_left.
       eval_bind (set_union_tree E e lr upper) (\<lambda>joined_right.
         if same_tree_root E joined_left ll \<and> same_tree_root E joined_right lr
         then eval_return (Node x ll lr m)
         else eval_res (link x joined_left joined_right)))))"

fun set_difference_tree ::
  "('s, 't) evaluator \<Rightarrow> class_evidence \<Rightarrow> 't tree \<Rightarrow> 't tree \<Rightarrow> ('s, 't tree) guest" where
  "set_difference_tree E e left Empty = eval_return left"
| "set_difference_tree E e left (Node y rl rr n) =
    (if left = Empty then eval_return Empty
     else eval_bind (tree_split (compare_keys E e y) left) (\<lambda>(lower, found, upper).
       eval_bind (set_difference_tree E e lower rl) (\<lambda>difference_lower.
       eval_bind (set_difference_tree E e upper rr) (\<lambda>difference_upper.
         if node_len difference_lower + node_len difference_upper = node_len left
         then eval_return left
         else eval_res (merge_nodes difference_lower difference_upper)))))"

fun set_intersection_tree ::
  "('s, 't) evaluator \<Rightarrow> class_evidence \<Rightarrow> 't tree \<Rightarrow> 't tree \<Rightarrow> ('s, 't tree) guest" where
  "set_intersection_tree E e Empty right = eval_return Empty"
| "set_intersection_tree E e (Node x ll lr m) right =
    (if right = Empty then eval_return Empty
     else eval_bind (tree_split (compare_keys E e x) right) (\<lambda>(lower, found, upper).
       eval_bind (set_intersection_tree E e ll lower) (\<lambda>common_lower.
       eval_bind (set_intersection_tree E e lr upper) (\<lambda>common_upper.
         if found \<noteq> None then
           if same_tree_root E common_lower ll \<and> same_tree_root E common_upper lr
           then eval_return (Node x ll lr m)
           else eval_res (link x common_lower common_upper)
         else eval_res (merge_nodes common_lower common_upper)))))"

datatype set_merge_operation = Union | Difference | Intersection

definition set_merge ::
  "('s, 't) evaluator \<Rightarrow> class_evidence \<Rightarrow> 't \<Rightarrow> 't \<Rightarrow> set_merge_operation \<Rightarrow> ('s, 't force_outcome) guest" where
  "set_merge E e left right operation =
    eval_bind (force_set E left) (\<lambda>l. eval_bind (force_set E right) (\<lambda>r.
    eval_bind (case operation of
        Union \<Rightarrow> set_union_tree E e l r
      | Difference \<Rightarrow> set_difference_tree E e l r
      | Intersection \<Rightarrow> set_intersection_tree E e l r)
      (\<lambda>t. guest_return (VSet t))))"

section \<open>The builtins\<close>

definition set_from_list ::
  "('s, 't) evaluator \<Rightarrow> class_evidence \<Rightarrow> 't \<Rightarrow> ('s, 't force_outcome) guest" where
  "set_from_list E e ts =
    eval_bind (ev_force_list E ts) (\<lambda>input.
    eval_bind (set_tree_from_list E e input) (\<lambda>t. guest_return (VSet t)))"

definition set_to_list :: "('s, 't) evaluator \<Rightarrow> 't \<Rightarrow> ('s, 't force_outcome) guest" where
  "set_to_list E m =
    eval_bind (force_set E m) (\<lambda>t. eval_bind (iterated t) (\<lambda>xs. eval_return (Alias (list_from_values E xs))))"

definition set_insert ::
  "('s, 't) evaluator \<Rightarrow> class_evidence \<Rightarrow> 't \<Rightarrow> 't \<Rightarrow> ('s, 't force_outcome) guest" where
  "set_insert E e x m =
    eval_bind (force_set E m) (\<lambda>t.
    eval_bind (set_insert_replacing E e t x) (\<lambda>t'. guest_return (VSet t')))"

definition set_member ::
  "('s, 't) evaluator \<Rightarrow> class_evidence \<Rightarrow> 't \<Rightarrow> 't \<Rightarrow> ('s, 't force_outcome) guest" where
  "set_member E e x m =
    eval_bind (force_set E m) (\<lambda>t.
    eval_bind (tree_find (compare_keys E e x) t) (\<lambda>found. guest_return (VBool (found \<noteq> None))))"

definition set_delete ::
  "('s, 't) evaluator \<Rightarrow> class_evidence \<Rightarrow> 't \<Rightarrow> 't \<Rightarrow> ('s, 't force_outcome) guest" where
  "set_delete E e x m =
    eval_bind (force_set E m) (\<lambda>t.
    eval_bind (tree_remove (compare_keys E e x) t) (\<lambda>t'. guest_return (VSet t')))"

definition set_size :: "('s, 't) evaluator \<Rightarrow> 't \<Rightarrow> ('s, 't force_outcome) guest" where
  "set_size E m = eval_bind (force_set E m) (\<lambda>t. guest_return (size_value t))"

definition set_singleton :: "'t \<Rightarrow> 't tree" where
  "set_singleton x = tree_singleton x"

section \<open>Dispatch\<close>

text \<open>\<open>arguments[i]\<close>, which panics past the end; \<open>None\<close> when the name is not one of these.\<close>

definition arg :: "'t list \<Rightarrow> nat \<Rightarrow> ('t \<Rightarrow> ('s, 'a) guest) \<Rightarrow> ('s, 'a) guest" where
  "arg args i f = (case vget args i of None \<Rightarrow> eval_res Panic | Some t \<Rightarrow> f t)"

definition arg2 :: "'t list \<Rightarrow> ('t \<Rightarrow> 't \<Rightarrow> ('s, 'a) guest) \<Rightarrow> ('s, 'a) guest" where
  "arg2 args f = arg args 0 (\<lambda>a. arg args 1 (f a))"

definition arg3 :: "'t list \<Rightarrow> ('t \<Rightarrow> 't \<Rightarrow> 't \<Rightarrow> ('s, 'a) guest) \<Rightarrow> ('s, 'a) guest" where
  "arg3 args f = arg args 0 (\<lambda>a. arg args 1 (\<lambda>b. arg args 2 (f a b)))"

definition arg4 :: "'t list \<Rightarrow> ('t \<Rightarrow> 't \<Rightarrow> 't \<Rightarrow> 't \<Rightarrow> ('s, 'a) guest) \<Rightarrow> ('s, 'a) guest" where
  "arg4 args f = arg args 0 (\<lambda>a. arg args 1 (\<lambda>b. arg args 2 (\<lambda>c. arg args 3 (f a b c))))"

definition native_collections ::
  "('s, 't) evaluator \<Rightarrow> string \<Rightarrow> 't list \<Rightarrow> class_evidence option \<Rightarrow> ('s, 't force_outcome) guest option" where
  "native_collections E implementation args evidence =
    (let ord = \<lambda>operation f. eval_bind (ord_evidence E evidence operation) f in
     map_of [
       (''map_from_list'', ord ''Map.fromList'' (\<lambda>e. arg args 0 (map_from_list E e))),
       (''map_to_list'', arg args 0 (map_to_list E)),
       (''map_lookup'', ord ''Map.lookup'' (\<lambda>e. arg2 args (map_lookup E e))),
       (''map_insert'', ord ''Map.insert'' (\<lambda>e. arg3 args (map_insert E e))),
       (''map_delete'', ord ''Map.delete'' (\<lambda>e. arg2 args (map_delete E e))),
       (''map_singleton'', ord ''Map.singleton'' (\<lambda>_. arg args 0 (\<lambda>k.
          eval_bind (ev_force E k) (\<lambda>_. arg args 1 (\<lambda>v. guest_return (VMap (map_singleton k v))))))),
       (''map_size'', arg args 0 (map_size E)),
       (''map_filter'', arg2 args (\<lambda>p m. map_filter E p m False)),
       (''map_filter_with_key'', arg2 args (\<lambda>p m. map_filter E p m True)),
       (''map_any'', arg2 args (\<lambda>p m. map_quantifier E p m False)),
       (''map_all'', arg2 args (\<lambda>p m. map_quantifier E p m True)),
       (''map_insert_with'', ord ''Map.insertWith'' (\<lambda>e. arg4 args (map_insert_with E e))),
       (''map_adjust'', ord ''Map.adjust'' (\<lambda>e. arg3 args (map_adjust E e))),
       (''map_union_with'', ord ''Map.unionWith'' (\<lambda>e. arg3 args (map_union_with E e))),
       (''map_map'', arg2 args (map_values E)),
       (''map_keys'', arg args 0 (map_keys E)),
       (''map_elems'', arg args 0 (map_elems E)),
       (''set_from_list'', ord ''Set.fromList'' (\<lambda>e. arg args 0 (set_from_list E e))),
       (''set_to_list'', arg args 0 (set_to_list E)),
       (''set_insert'', ord ''Set.insert'' (\<lambda>e. arg2 args (set_insert E e))),
       (''set_member'', ord ''Set.member'' (\<lambda>e. arg2 args (set_member E e))),
       (''set_delete'', ord ''Set.delete'' (\<lambda>e. arg2 args (set_delete E e))),
       (''set_union'', ord ''Set.union'' (\<lambda>e. arg2 args (\<lambda>a b. set_merge E e a b Union))),
       (''set_difference'', ord ''Set.difference'' (\<lambda>e. arg2 args (\<lambda>a b. set_merge E e a b Difference))),
       (''set_intersection'', ord ''Set.intersection'' (\<lambda>e. arg2 args (\<lambda>a b. set_merge E e a b Intersection))),
       (''set_size'', arg args 0 (set_size E)),
       (''set_singleton'', ord ''Set.singleton'' (\<lambda>_. arg args 0 (\<lambda>x.
          eval_bind (ev_force E x) (\<lambda>_. guest_return (VSet (set_singleton x))))))]
     implementation)"

end
