(* ===== verification/Hell_Set_Ops.thy ===== *)
theory Hell_Set_Ops
  imports Hell_Map_Ops Hell_Sets
begin

text \<open>
  The operations on sets as union, difference and intersection of partial maps from ranks to
  elements.  Keeping a shared subtree gives the tree that rebuilding it would have given.
\<close>

section \<open>Insertion\<close>

lemma balance_id:
  assumes "wb (Node y l r n)"
  shows "balance_left (tree_node y l r) = Ok (Node y l r n)" "balance_right (tree_node y l r) = Ok (Node y l r n)"
  using assms by (auto simp: tree_node_def in_balance_def size_balance_delta_def)

context ord_keys
begin

lemma same_root: "same_tree_root E t u \<Longrightarrow> t = u"
  by (auto simp: same_tree_root_def dest: same_node split: tree.splits)

lemma shared_left:
  assumes "wb (Node y l r n)"
  shows "(if same_tree_root E l' l then eval_return (Node y l r n) else eval_res (balance_left (tree_node y l' r))) =
    eval_res (balance_left (tree_node y l' r))"
  using assms same_root [of l' l] by (auto simp: balance_id eval_return_def eval_res_def simp del: balance_left.simps)

lemma shared_right:
  assumes "wb (Node y l r n)"
  shows "(if same_tree_root E r' r then eval_return (Node y l r n) else eval_res (balance_right (tree_node y l r'))) =
    eval_res (balance_right (tree_node y l r'))"
  using assms same_root [of r' r] by (auto simp: balance_id eval_return_def eval_res_def simp del: balance_right.simps)

lemma replacing_place:
  "wb t \<Longrightarrow> set_insert_replacing E e t x = tree_place x (\<lambda>_. x) (compare_keys E e x) t"
proof (induction t)
  case (Node y l r n)
  have root: "(if ev_same E x y then Node y l r n else tree_node x l r) = tree_node x l r"
    using Node.prems same_thunk [of x y] by (auto simp: tree_node_def)
  have IH: "set_insert_replacing E e l x = tree_place x (\<lambda>_. x) (compare_keys E e x) l"
    "set_insert_replacing E e r x = tree_place x (\<lambda>_. x) (compare_keys E e x) r"
    using Node by simp_all
  show ?case
    by (simp only: set_insert_replacing.simps tree_place.simps IH root
        shared_left [OF Node.prems] shared_right [OF Node.prems])
qed simp

lemma preserving_place:
  "wb t \<Longrightarrow> set_insert_preserving_existing E e t x = tree_place x (\<lambda>y. y) (compare_keys E e x) t"
proof (induction t)
  case (Node y l r n)
  have root: "eval_return (Node y l r n) = eval_return (tree_node y l r)" using Node.prems by (simp add: tree_node_def)
  have IH: "set_insert_preserving_existing E e l x = tree_place x (\<lambda>y. y) (compare_keys E e x) l"
    "set_insert_preserving_existing E e r x = tree_place x (\<lambda>y. y) (compare_keys E e x) r"
    using Node by simp_all
  show ?case
    by (simp only: set_insert_preserving_existing.simps tree_place.simps IH
        shared_left [OF Node.prems] shared_right [OF Node.prems]) (simp only: root)
qed simp

lemmas place_element = place_meaning [where key = "\<lambda>x. x"]
lemmas element_find = find_meaning [where key = "\<lambda>x. x"]
lemmas element_remove = remove_meaning [where key = "\<lambda>x. x"]

lemma replacing_ok:
  assumes "valid lawful rank t"
  shows "ensures fails good (set_insert_replacing E e t x) (\<lambda>t'. valid lawful rank t' \<and>
    (lawful \<longrightarrow> entries t' = placed rank (rank x) x (\<lambda>_. x) (entries t) \<and>
      meaning rank t' = (meaning rank t)(rank x \<mapsto> x)))"
  unfolding replacing_place [OF validD(1) [OF assms]]
  by (rule ensures_weaken [OF place_element]) (use assms in \<open>auto split: option.splits\<close>)

lemma preserving_ok:
  assumes "valid lawful rank t"
  shows "ensures fails good (set_insert_preserving_existing E e t x) (\<lambda>t'. valid lawful rank t' \<and>
    (lawful \<longrightarrow> meaning rank t' = [rank x \<mapsto> x] ++ meaning rank t))"
  unfolding preserving_place [OF validD(1) [OF assms]]
  by (rule ensures_weaken [OF place_element]) (use assms in \<open>auto simp: map_add_def fun_eq_iff split: option.splits\<close>)

lemma set_insert_remaining_ok:
  "valid lawful rank t \<Longrightarrow> ensures fails good (set_tree_insert_remaining E e t xs)
     (\<lambda>t'. valid lawful rank t' \<and> (lawful \<longrightarrow> entries t' = all_placed rank (entries t) xs))"
proof (induction xs arbitrary: t)
  case (Cons x xs)
  then show ?case
    by (auto intro!: ensures_bind [OF replacing_ok [OF Cons.prems]] intro: ensures_weaken [OF Cons.IH])
qed (simp add: ensures_return)

end

sublocale ord_keys \<subseteq> sets: builder "keys_not_ordered E e" "set_tree_insert_remaining E e" rank good lawful fails
  by unfold_locales (auto intro: not_ordered_ok set_insert_remaining_ok)

context ord_keys
begin

lemma set_from_list_ok: "ensures fails good (set_tree_from_list E e items)
    (\<lambda>t. valid lawful rank t \<and> (lawful \<longrightarrow> entries t = all_placed rank [] items))"
proof (cases items)
  case (Cons x xs)
  have "valid lawful rank (tree_singleton x) \<and> entries (tree_singleton x) = [x]" by (simp add: valid_def)
  with Cons sets.from_list_ok [of x xs] show ?thesis
    unfolding set_tree_from_list_def set_tree_from_ordered_prefix_def
    by (auto simp: sets.built_def [abs_def] placed_def lower_part_def upper_part_def at_rank_def
        intro!: ensures_return)
qed (simp add: set_tree_from_list_def ensures_return)

section \<open>Algebra\<close>

lemma split_element:
  assumes "valid lawful rank t"
  shows "ensures fails good (tree_split (compare_keys E e x) t)
    (\<lambda>(lower, found, upper). valid lawful rank lower \<and> valid lawful rank upper \<and>
      node_len t = node_len lower + node_len upper + (if found = None then 0 else 1) \<and>
      (lawful \<longrightarrow> found = meaning rank t (rank x) \<and>
        meaning rank lower = (\<lambda>r. if r < rank x then meaning rank t r else None) \<and>
        meaning rank upper = (\<lambda>r. if rank x < r then meaning rank t r else None)))"
  using split_meaning [where key = "\<lambda>x. x", OF assms] by simp

lemma union_join:
  assumes l: "valid lawful rank (Node x ll lr m)" and ok: "valid lawful rank a" "valid lawful rank b"
    and a: "lawful \<Longrightarrow> meaning rank a = (\<lambda>k. if k < rank x then M k else None) ++ meaning rank ll"
    and b: "lawful \<Longrightarrow> meaning rank b = (\<lambda>k. if rank x < k then M k else None) ++ meaning rank lr"
  shows "ensures fails good (if same_tree_root E a ll \<and> same_tree_root E b lr
      then eval_return (Node x ll lr m) else eval_res (link x a b))
    (\<lambda>t. valid lawful rank t \<and> (lawful \<longrightarrow> meaning rank t = M ++ meaning rank (Node x ll lr m)))"
proof -
  have mean: "around (rank x) (Some x) (meaning rank a) (meaning rank b) = M ++ meaning rank (Node x ll lr m)" if lawful
    using a [OF that] b [OF that] meaning_Node [OF l that]
    by (auto simp: around_def map_add_def fun_eq_iff split: option.split)
  show ?thesis
  proof (cases "same_tree_root E a ll \<and> same_tree_root E b lr")
    case True
    then have "a = ll" "b = lr" using same_root by auto
    with True l mean meaning_Node [OF l] show ?thesis by (auto intro!: ensures_return)
  next
    case False
    have "\<forall>k \<in> dom (meaning rank a). k < rank x" "\<forall>k \<in> dom (meaning rank b). rank x < k" if lawful
      using a [OF that] b [OF that] below_root [OF l that] by (auto simp: domIff map_add_def split: if_splits option.splits)
    with False mean show ?thesis
      by (auto intro!: ensures_weaken [OF ensures_link_meaning [OF ok]])
  qed
qed

lemma set_union_ok:
  "valid lawful rank l \<Longrightarrow> valid lawful rank r \<Longrightarrow>
   ensures fails good (set_union_tree E e l r) (\<lambda>t. valid lawful rank t \<and>
     (lawful \<longrightarrow> meaning rank t = meaning rank r ++ meaning rank l))"
proof (induction l arbitrary: r)
  case (Node x ll lr m)
  note left = valid_Node [OF Node.prems(1)]
  show ?case
  proof (cases r)
    case (Node y rl rr n)
    consider "n = 1" | "n \<noteq> 1" "m = 1" | "n \<noteq> 1" "m \<noteq> 1" by blast
    then show ?thesis
    proof cases
      case 1
      with Node Node.prems(2) single_node [of lawful rank y rl rr] have one: "meaning rank r = [rank y \<mapsto> y]" by simp
      have go: "set_union_tree E e (Node x ll lr m) r = set_insert_preserving_existing E e (Node x ll lr m) y"
        using 1 Node by (simp del: set_insert_preserving_existing.simps)
      show ?thesis unfolding go one by (rule preserving_ok [OF Node.prems(1)])
    next
      case 2
      with Node.prems(1) single_node [of lawful rank x ll lr] have "meaning rank (Node x ll lr m) = [rank x \<mapsto> x]" by simp
      with 2 Node replacing_ok [OF Node.prems(2), of x] show ?thesis
        by (auto simp: map_add_def fun_eq_iff simp del: set_insert_replacing.simps elim!: ensures_weaken)
    next
      case 3
      have "ensures fails good
          (eval_bind (set_union_tree E e ll lower) (\<lambda>a. eval_bind (set_union_tree E e lr upper) (\<lambda>b.
            if same_tree_root E a ll \<and> same_tree_root E b lr then eval_return (Node x ll lr m)
            else eval_res (link x a b))))
          (\<lambda>t. valid lawful rank t \<and> (lawful \<longrightarrow> meaning rank t = meaning rank r ++ meaning rank (Node x ll lr m)))"
        if "valid lawful rank lower" "valid lawful rank upper"
          "lawful \<longrightarrow> meaning rank lower = (\<lambda>k. if k < rank x then meaning rank r k else None) \<and>
            meaning rank upper = (\<lambda>k. if rank x < k then meaning rank r k else None)"
        for lower upper
        by (rule ensures_bind [OF Node.IH(1)], use left in blast, rule that,
            rule ensures_bind [OF Node.IH(2)], use left in blast, rule that,
            rule union_join [OF Node.prems(1)]) (use that in auto)
      with 3 Node show ?thesis
        by (auto simp del: tree_split.simps intro!: ensures_bind [OF split_element [OF Node.prems(2) [unfolded Node]]])
    qed
  qed (use Node.prems in \<open>simp add: ensures_return\<close>)
qed (simp add: ensures_return)

lemma difference_join:
  assumes ok: "valid lawful rank l" "valid lawful rank lower" "valid lawful rank upper" "valid lawful rank (Node y rl rr n)"
    and len: "node_len l = node_len lower + node_len upper + (if found = None then 0 else 1)"
    and sp: "lawful \<Longrightarrow> found = meaning rank l (rank y) \<and>
        meaning rank lower = (\<lambda>k. if k < rank y then meaning rank l k else None) \<and>
        meaning rank upper = (\<lambda>k. if rank y < k then meaning rank l k else None)"
    and a: "valid lawful rank a" "node_len a \<le> node_len lower"
      "lawful \<Longrightarrow> meaning rank a = meaning rank lower |` (- dom (meaning rank rl))"
    and b: "valid lawful rank b" "node_len b \<le> node_len upper"
      "lawful \<Longrightarrow> meaning rank b = meaning rank upper |` (- dom (meaning rank rr))"
  shows "ensures fails good (if node_len a + node_len b = node_len l then eval_return l else eval_res (merge_nodes a b))
      (\<lambda>t. valid lawful rank t \<and> node_len t \<le> node_len l \<and>
        (lawful \<longrightarrow> meaning rank t = meaning rank l |` (- dom (meaning rank (Node y rl rr n)))))"
proof -
  have whole: "around (rank y) None (meaning rank a) (meaning rank b) =
      meaning rank l |` (- dom (meaning rank (Node y rl rr n)))" if lawful
    using sp [OF that] a(3) [OF that] b(3) [OF that] meaning_Node [OF ok(4) that]
    by (auto simp: around_def restrict_map_def fun_eq_iff domIff)
  show ?thesis
  proof (cases "node_len a + node_len b = node_len l")
    case True
    have "meaning rank l = meaning rank l |` (- dom (meaning rank (Node y rl rr n)))" if lawful
    proof -
      have "found = None" "node_len a = node_len lower" "node_len b = node_len upper"
        using True len a(2) b(2) by (auto split: if_splits)
      with restricted_same [OF ok(2) a(1) that a(3) [OF that]] restricted_same [OF ok(3) b(1) that b(3) [OF that]]
      have "around (rank y) None (meaning rank a) (meaning rank b) = meaning rank l"
        using sp [OF that] by (auto simp: around_def fun_eq_iff)
      with whole [OF that] show ?thesis by simp
    qed
    with True ok(1) show ?thesis by (auto intro!: ensures_return)
  next
    case False
    have "\<forall>k \<in> dom (meaning rank a). k < rank y" "\<forall>k \<in> dom (meaning rank b). rank y < k" if lawful
      using a(3) [OF that] b(3) [OF that] sp [OF that] by (auto simp: restrict_map_def split: if_splits)
    with False whole len a(2) b(2) show ?thesis
      by (auto intro!: ensures_weaken [OF ensures_merge_meaning [where p = "rank y", OF a(1) b(1)]] split: if_splits)
  qed
qed

lemma set_difference_ok:
  "valid lawful rank l \<Longrightarrow> valid lawful rank r \<Longrightarrow>
   ensures fails good (set_difference_tree E e l r) (\<lambda>t. valid lawful rank t \<and> node_len t \<le> node_len l \<and>
     (lawful \<longrightarrow> meaning rank t = meaning rank l |` (- dom (meaning rank r))))"
proof (induction r arbitrary: l)
  case (Node y rl rr n)
  note right = valid_Node [OF Node.prems(2)] and mean = meaning_Node [OF Node.prems(2)]
  have "ensures fails good
      (eval_bind (set_difference_tree E e lower rl) (\<lambda>a. eval_bind (set_difference_tree E e upper rr) (\<lambda>b.
        if node_len a + node_len b = node_len l then eval_return l else eval_res (merge_nodes a b))))
      (\<lambda>t. valid lawful rank t \<and> node_len t \<le> node_len l \<and>
        (lawful \<longrightarrow> meaning rank t = meaning rank l |` (- dom (meaning rank (Node y rl rr n)))))"
    if sp: "valid lawful rank lower" "valid lawful rank upper"
      "node_len l = node_len lower + node_len upper + (if found = None then 0 else 1)"
      "lawful \<longrightarrow> found = meaning rank l (rank y) \<and>
        meaning rank lower = (\<lambda>k. if k < rank y then meaning rank l k else None) \<and>
        meaning rank upper = (\<lambda>k. if rank y < k then meaning rank l k else None)"
    for lower found upper
  proof (rule ensures_bind [OF Node.IH(1) [OF sp(1)]], use right in blast,
      rule ensures_bind [OF Node.IH(2) [OF sp(2)]], use right in blast)
    fix a b
    assume a: "valid lawful rank a \<and> node_len a \<le> node_len lower \<and>
        (lawful \<longrightarrow> meaning rank a = meaning rank lower |` (- dom (meaning rank rl)))"
      and b: "valid lawful rank b \<and> node_len b \<le> node_len upper \<and>
        (lawful \<longrightarrow> meaning rank b = meaning rank upper |` (- dom (meaning rank rr)))"
    show "ensures fails good (if node_len a + node_len b = node_len l then eval_return l else eval_res (merge_nodes a b))
      (\<lambda>t. valid lawful rank t \<and> node_len t \<le> node_len l \<and>
        (lawful \<longrightarrow> meaning rank t = meaning rank l |` (- dom (meaning rank (Node y rl rr n)))))"
      by (rule difference_join [OF Node.prems(1) sp(1,2) Node.prems(2) sp(3)]) (use a b sp(4) in blast)+
  qed
  with Node.prems show ?case
    by (cases "l = Empty") (auto simp del: tree_split.simps intro!: ensures_return ensures_bind [OF split_element [OF Node.prems(1)]])
qed (simp add: ensures_return)

lemma intersection_join:
  assumes l: "valid lawful rank (Node x ll lr m)" and ok: "valid lawful rank a" "valid lawful rank b"
    and sp: "lawful \<Longrightarrow> found = M (rank x)"
    and a: "lawful \<Longrightarrow> meaning rank a = meaning rank ll |` {k \<in> dom M. k < rank x}"
    and b: "lawful \<Longrightarrow> meaning rank b = meaning rank lr |` {k \<in> dom M. rank x < k}"
  shows "ensures fails good
      (if found \<noteq> None then
         if same_tree_root E a ll \<and> same_tree_root E b lr then eval_return (Node x ll lr m) else eval_res (link x a b)
       else eval_res (merge_nodes a b))
      (\<lambda>t. valid lawful rank t \<and> (lawful \<longrightarrow> meaning rank t = meaning rank (Node x ll lr m) |` dom M))"
proof -
  have whole: "around (rank x) (if found = None then None else Some x) (meaning rank a) (meaning rank b) =
      meaning rank (Node x ll lr m) |` dom M" if lawful
    using sp [OF that] a [OF that] b [OF that] meaning_Node [OF l that]
    by (auto simp: around_def restrict_map_def fun_eq_iff domIff)
  have sides: "\<forall>k \<in> dom (meaning rank a). k < rank x" "\<forall>k \<in> dom (meaning rank b). rank x < k" if lawful
    using a [OF that] b [OF that] by (auto simp: restrict_map_def split: if_splits)
  consider "found = None" | "found \<noteq> None" "same_tree_root E a ll \<and> same_tree_root E b lr"
    | "found \<noteq> None" "\<not> (same_tree_root E a ll \<and> same_tree_root E b lr)" by blast
  then show ?thesis
  proof cases
    case 1
    with whole sides show ?thesis
      by (auto intro!: ensures_weaken [OF ensures_merge_meaning [where p = "rank x", OF ok]])
  next
    case 2
    then have "a = ll" "b = lr" using same_root by auto
    with 2 whole l meaning_Node [OF l] show ?thesis by (auto intro!: ensures_return)
  next
    case 3
    with whole sides show ?thesis by (auto intro!: ensures_weaken [OF ensures_link_meaning [OF ok]])
  qed
qed

lemma set_intersection_ok:
  "valid lawful rank l \<Longrightarrow> valid lawful rank r \<Longrightarrow>
   ensures fails good (set_intersection_tree E e l r) (\<lambda>t. valid lawful rank t \<and>
     (lawful \<longrightarrow> meaning rank t = meaning rank l |` dom (meaning rank r)))"
proof (induction l arbitrary: r)
  case (Node x ll lr m)
  note left = valid_Node [OF Node.prems(1)]
  have "ensures fails good
      (eval_bind (set_intersection_tree E e ll lower) (\<lambda>a. eval_bind (set_intersection_tree E e lr upper) (\<lambda>b.
        if found \<noteq> None then
          if same_tree_root E a ll \<and> same_tree_root E b lr then eval_return (Node x ll lr m) else eval_res (link x a b)
        else eval_res (merge_nodes a b))))
      (\<lambda>t. valid lawful rank t \<and> (lawful \<longrightarrow> meaning rank t = meaning rank (Node x ll lr m) |` dom (meaning rank r)))"
    if sp: "valid lawful rank lower" "valid lawful rank upper"
      "lawful \<longrightarrow> found = meaning rank r (rank x) \<and>
        meaning rank lower = (\<lambda>k. if k < rank x then meaning rank r k else None) \<and>
        meaning rank upper = (\<lambda>k. if rank x < k then meaning rank r k else None)"
    for lower found upper
  proof (rule ensures_bind [OF Node.IH(1)], use left in blast, rule sp,
      rule ensures_bind [OF Node.IH(2)], use left in blast, rule sp, rule intersection_join [OF Node.prems(1)])
    have "dom (\<lambda>k. if P k then M k else None) = {k \<in> dom M. P k}" for P and M :: "'r \<Rightarrow> 't option"
      by (auto simp: domIff split: if_splits)
    with sp(3) show "lawful \<Longrightarrow> valid lawful rank a \<and> (lawful \<longrightarrow> meaning rank a = meaning rank ll |` dom (meaning rank lower)) \<Longrightarrow>
        meaning rank a = meaning rank ll |` {k \<in> dom (meaning rank r). k < rank x}"
      and "lawful \<Longrightarrow> valid lawful rank b \<and> (lawful \<longrightarrow> meaning rank b = meaning rank lr |` dom (meaning rank upper)) \<Longrightarrow>
        meaning rank b = meaning rank lr |` {k \<in> dom (meaning rank r). rank x < k}" for a b
      by auto
  qed (use sp in auto)
  with Node.prems show ?case
    by (cases "r = Empty") (auto simp del: tree_split.simps intro!: ensures_return ensures_bind [OF split_element [OF Node.prems(2)]])
qed (simp add: ensures_return)

end

end
