(* ===== verification/Hell_Tree_Height.thy ===== *)
theory Hell_Tree_Height
  imports Hell_Tree_Search
begin

text \<open>
  How deep a balanced tree can be, and how many comparisons the searching operations make:
  one for each level at most.  Comparisons are counted by a counter beside the state.
\<close>

section \<open>Height\<close>

fun height :: "'a tree \<Rightarrow> nat" where
  "height Empty = 0"
| "height (Node x l r n) = Suc (max (height l) (height r))"

lemma branch_share: "wb (Node x l r n) \<Longrightarrow> 4 * node_len l \<le> 3 * n \<and> 4 * node_len r \<le> 3 * n"
  by (auto simp: in_balance_def)

lemma height_bound: "wb t \<Longrightarrow> t \<noteq> Empty \<Longrightarrow> 4 ^ (height t - 1) \<le> 3 ^ (height t - 1) * node_len t"
proof (induction t)
  case (Node x l r n)
  define u where "u = (if height l \<le> height r then r else l)"
  have u: "height (Node x l r n) = Suc (height u)" "4 * node_len u \<le> 3 * n" "wb u"
    using branch_share [OF Node.prems(1)] Node.prems(1) by (auto simp: u_def max_def)
  show ?case
  proof (cases "u = Empty")
    case True
    with u Node.prems show ?thesis by simp
  next
    case False
    then obtain h where h: "height u = Suc h" by (cases u) auto
    have "4 ^ h \<le> 3 ^ h * node_len u" using Node.IH u False h by (auto simp: u_def split: if_splits)
    then have "4 ^ Suc h \<le> 3 ^ h * (4 * node_len u)" by simp
    also have "\<dots> \<le> 3 ^ h * (3 * n)" using u(2) by (rule mult_le_mono2)
    finally show ?thesis using u(1) h by (simp add: mult.assoc mult.left_commute)
  qed
qed simp

section \<open>Counting comparisons\<close>

definition counted :: "('s, ordering, 'e) evaluation \<Rightarrow> ('s \<times> nat, ordering, 'e) evaluation" where
  "counted m = (\<lambda>(s, n). let (r, s') = m s in (r, (s', Suc n)))"

text \<open>At most \<open>k\<close> comparisons from any state.\<close>

definition costs :: "nat \<Rightarrow> ('s \<times> nat, 'a, 'e) evaluation \<Rightarrow> bool" where
  "costs k m \<longleftrightarrow> (\<forall>s n r s' n'. m (s, n) = (r, (s', n')) \<longrightarrow> n' \<le> n + k)"

lemma costs_return [simp]: "costs k (eval_return a)" "costs k (eval_res r)"
  by (auto simp: costs_def eval_return_def eval_res_def)

lemma costs_mono: "costs j m \<Longrightarrow> j \<le> k \<Longrightarrow> costs k m"
  by (fastforce simp: costs_def)

lemma costs_counted: "costs 1 (counted m)"
  by (auto simp: costs_def counted_def Let_def split: prod.splits)

lemma costs_bind:
  assumes "costs j m" "\<And>a. costs k (f a)"
  shows "costs (j + k) (eval_bind m f)"
  unfolding costs_def
proof (intro allI impI)
  fix s n r s' n' assume *: "eval_bind m f (s, n) = (r, (s', n'))"
  obtain q s1 n1 where q: "m (s, n) = (q, (s1, n1))" by (metis prod.exhaust)
  with assms(1) have "n1 \<le> n + j" by (auto simp: costs_def)
  moreover have "n' \<le> n1 + k"
  proof (cases q)
    case (Ok a)
    with * q have "f a (s1, n1) = (r, (s', n'))" by (simp add: eval_bind_def)
    with assms(2) show ?thesis by (auto simp: costs_def)
  qed (use * q in \<open>auto simp: eval_bind_def\<close>)
  ultimately show "n' \<le> n + (j + k)" by simp
qed

lemma costs_bind_pure: "costs k m \<Longrightarrow> (\<And>a. costs 0 (f a)) \<Longrightarrow> costs k (eval_bind m f)"
  using costs_bind [of k m 0 f] by simp

lemma costs_node:
  assumes "costs (height l) ml" "costs (height r) mr" "costs 0 q"
  shows "costs (Suc (max (height l) (height r)))
    (eval_bind (counted m) (\<lambda>c. case c of Less \<Rightarrow> ml | Equal \<Rightarrow> q | Greater \<Rightarrow> mr))"
proof -
  have "costs (max (height l) (height r)) (case c of Less \<Rightarrow> ml | Equal \<Rightarrow> q | Greater \<Rightarrow> mr)" for c
    using assms by (cases c) (auto intro: costs_mono)
  from costs_bind [OF costs_counted this] show ?thesis by simp
qed

lemma find_costs: "costs (height t) (tree_find (\<lambda>x. counted (test x)) t)"
  by (induction t) (simp_all add: costs_node)

lemma insert_costs: "costs (height t) (tree_insert x (\<lambda>x y. counted (test x y)) t)"
  by (induction t) (simp_all add: costs_node costs_bind_pure)

lemma remove_costs: "costs (height t) (tree_remove (\<lambda>x. counted (test x)) t)"
  by (induction t) (simp_all add: costs_node costs_bind_pure)

lemma split_costs: "costs (height t) (tree_split (\<lambda>x. counted (test x)) t)"
  by (induction t) (simp_all add: costs_node costs_bind_pure split_def)

end
