(* ===== verification/Hell_Collections_Theorems.thy ===== *)
theory Hell_Collections_Theorems
  imports Hell_Set_Ops Hell_Tree_Height
begin

text \<open>
  The properties of the ordered maps and sets, and the evaluator over keys of the guest's
  \<open>Int\<close> on which they are evaluated: \<open>equal_values\<close> and \<open>less_values\<close> of
  \<open>crates/hell-runtime/src/lib.rs\<close> on two forced values of that type.
\<close>

section \<open>Keys that are machine integers\<close>

type_synonym int_key = "64 word"

definition int_equal :: "int_key \<Rightarrow> int_key \<Rightarrow> bool" where
  "int_equal a b = (a = b)"

definition int_less :: "int_key \<Rightarrow> int_key \<Rightarrow> bool" where
  "int_less a b = (sint a < sint b)"

text \<open>An application is a sum here, so that callbacks can be told apart.\<close>

definition int_evaluator :: "(unit, int_key) evaluator" where
  "int_evaluator = \<lparr>
     ev_force = \<lambda>t. eval_return (VInt (sint t)),
     ev_force_list = \<lambda>t. eval_return [t],
     ev_equal = \<lambda>a b. eval_return (int_equal a b),
     ev_lt = \<lambda>e a b. eval_return (Forced (VBool (int_less a b))),
     ev_gt = \<lambda>e a b. eval_return (Forced (VBool (int_less b a))),
     ev_instance_target = \<lambda>e. eval_return ''Int'',
     ev_apply = \<lambda>f x. f + x,
     ev_evaluated = \<lambda>v. 0,
     ev_same = \<lambda>a b. a = b,
     ev_same_node = \<lambda>t u. t = u\<rparr>"

definition int_evidence :: class_evidence where
  "int_evidence = \<lparr>ce_class = OrdClass, ce_head = 0, ce_plan = 0\<rparr>"

interpretation int_keys: ord_keys int_evaluator int_evidence "sint :: int_key \<Rightarrow> int" "\<lambda>_. True" True False
  by unfold_locales
     (auto simp: int_evaluator_def int_equal_def int_less_def force_outcome_bool_def intro!: ensures_return dest: arg_cong [where f = "word_of_int :: int \<Rightarrow> int_key"])

text \<open>Two small trees of keys, and their contents.\<close>

definition odd_keys :: "(int_key \<times> int_key) tree" where
  "odd_keys = tree_from_sorted [(-1, 10), (1, 11), (3, 12)]"

definition small_keys :: "(int_key \<times> int_key) tree" where
  "small_keys = tree_from_sorted [(1, 20), (2, 21)]"

lemma sample_maps:
  "valid True (\<lambda>x. sint (fst x)) odd_keys" "valid True (\<lambda>x. sint (fst x)) small_keys"
  using from_sorted_ok by (auto simp: odd_keys_def small_keys_def valid_def)

section \<open>Balance\<close>

text \<open>A computation that answers a balanced tree or fails, and never panics.\<close>

definition balances :: "('s, 'a tree, 'e) evaluation \<Rightarrow> bool" where
  "balances m \<longleftrightarrow> ensures True (\<lambda>_. True) m wb"

lemma unordered_valid: "valid False rk t \<longleftrightarrow> wb t"
  by (simp add: valid_def)

lemma keys_balance:
  fixes E :: "('s, 't) evaluator"
  assumes keys: "ord_keys E e (\<lambda>_. 0 :: nat) (\<lambda>_. True) False True"
  shows "balances (map_from_entries E e items)"
    and "wb t \<Longrightarrow> balances (tree_insert x (compare_entries E e) t)"
    and "wb t \<Longrightarrow> balances (tree_remove (\<lambda>y. compare_keys E e k (fst y)) t)"
    and "wb t \<Longrightarrow> balances (insert_with_node E e f k v t)"
    and "wb t \<Longrightarrow> balances (adjust_node E e f k t)"
    and "wb t \<Longrightarrow> wb u \<Longrightarrow> balances (map_union_entries E e f t u)"
proof -
  have order: "compare_entries E e = (\<lambda>x y. compare_keys E e (fst x) (fst y))"
    by (simp add: compare_entries_def fun_eq_iff)
  show "balances (map_from_entries E e items)"
    unfolding balances_def by (rule ensures_weaken [OF ord_keys.map_from_entries_ok [OF keys]]) (simp add: unordered_valid)
  show "balances (tree_insert x (compare_entries E e) t)" if "wb t"
    unfolding balances_def order by (rule ensures_weaken [OF ord_keys.entry_insert [OF keys]]) (use that in \<open>simp_all add: unordered_valid\<close>)
  show "balances (tree_remove (\<lambda>y. compare_keys E e k (fst y)) t)" if "wb t"
    unfolding balances_def by (rule ensures_weaken [OF ord_keys.entry_remove [OF keys]]) (use that in \<open>simp_all add: unordered_valid\<close>)
  show "balances (insert_with_node E e f k v t)" if "wb t"
    unfolding balances_def by (rule ensures_weaken [OF ord_keys.insert_with_ok [OF keys]]) (use that in \<open>simp_all add: unordered_valid\<close>)
  show "balances (adjust_node E e f k t)" if "wb t"
    unfolding balances_def by (rule ensures_weaken [OF ord_keys.adjust_ok [OF keys]]) (use that in \<open>simp_all add: unordered_valid\<close>)
  show "balances (map_union_entries E e f t u)" if "wb t" "wb u"
    unfolding balances_def by (rule ensures_weaken [OF ord_keys.union_ok [OF keys]]) (use that in \<open>simp_all add: unordered_valid\<close>)
qed

lemma keys_balance_sets:
  fixes E :: "('s, 't) evaluator"
  assumes keys: "ord_keys E e (\<lambda>_. 0 :: nat) (\<lambda>_. True) False True"
  shows "balances (set_tree_from_list E e ks)"
    and "wb t \<Longrightarrow> balances (set_insert_replacing E e t k)"
    and "wb t \<Longrightarrow> wb u \<Longrightarrow> balances (set_union_tree E e t u)"
    and "wb t \<Longrightarrow> wb u \<Longrightarrow> balances (set_difference_tree E e t u)"
    and "wb t \<Longrightarrow> wb u \<Longrightarrow> balances (set_intersection_tree E e t u)"
proof -
  show "balances (set_tree_from_list E e ks)"
    unfolding balances_def by (rule ensures_weaken [OF ord_keys.set_from_list_ok [OF keys]]) (simp add: unordered_valid)
  show "balances (set_insert_replacing E e t k)" if "wb t"
    unfolding balances_def by (rule ensures_weaken [OF ord_keys.replacing_ok [OF keys]]) (use that in \<open>simp_all add: unordered_valid\<close>)
  show "balances (set_union_tree E e t u)" if "wb t" "wb u"
    unfolding balances_def by (rule ensures_weaken [OF ord_keys.set_union_ok [OF keys]]) (use that in \<open>simp_all add: unordered_valid\<close>)
  show "balances (set_difference_tree E e t u)" if "wb t" "wb u"
    unfolding balances_def by (rule ensures_weaken [OF ord_keys.set_difference_ok [OF keys]]) (use that in \<open>simp_all add: unordered_valid\<close>)
  show "balances (set_intersection_tree E e t u)" if "wb t" "wb u"
    unfolding balances_def by (rule ensures_weaken [OF ord_keys.set_intersection_ok [OF keys]]) (use that in \<open>simp_all add: unordered_valid\<close>)
qed

text \<open>The contract holds of the integer keys whether or not one relies on their order.\<close>

lemma int_keys_any: "ord_keys int_evaluator int_evidence (\<lambda>_. 0 :: nat) (\<lambda>_. True) False True"
  by unfold_locales (auto simp: int_evaluator_def force_outcome_bool_def intro!: ensures_return)

text \<open>
  C7: Whatever an instance of \<open>Ord\<close> answers, and whichever of its comparisons fail, the
  operations on balanced maps and sets do not panic, and the trees they return are balanced:
  the sizes cached in the nodes are right, and no branch is more than three times its sibling.
\<close>
theorem collections_stay_balanced:
  assumes "ord_keys E e (\<lambda>_. 0 :: nat) (\<lambda>_. True) False True" "wb t" "wb u" "wb a" "wb b"
  shows "balances (map_from_entries E e items) \<and>
    balances (tree_insert x (compare_entries E e) t) \<and>
    balances (tree_remove (\<lambda>y. compare_keys E e k (fst y)) t) \<and>
    balances (insert_with_node E e f k v t) \<and>
    balances (adjust_node E e f k t) \<and>
    balances (map_union_entries E e f t u) \<and>
    balances (set_tree_from_list E e ks) \<and>
    balances (set_insert_replacing E e a k) \<and>
    balances (set_union_tree E e a b) \<and>
    balances (set_difference_tree E e a b) \<and>
    balances (set_intersection_tree E e a b)"
  using assms by (intro conjI keys_balance keys_balance_sets)

theorem collections_stay_balanced_witness:
  "balances (map_union_entries int_evaluator int_evidence 0 odd_keys small_keys) \<and>
   fst (map_union_entries int_evaluator int_evidence 0 odd_keys small_keys ()) =
     Ok (tree_node (1, 31) (tree_singleton (-1, 10)) (tree_node (3, 12) (tree_singleton (2, 21)) Empty))"
proof
  have "wb odd_keys" "wb small_keys" using sample_maps by (auto simp: valid_def)
  with collections_stay_balanced [OF int_keys_any, of odd_keys small_keys Empty Empty]
  show "balances (map_union_entries int_evaluator int_evidence 0 odd_keys small_keys)" by simp
qed code_simp

section \<open>Maps as partial maps\<close>

text \<open>The tree \<open>t\<close> holds the map \<open>M\<close> from ranks to entries.\<close>

definition represents :: "('t \<Rightarrow> 'r::linorder) \<Rightarrow> 't map_entry tree \<Rightarrow> ('r \<Rightarrow> 't map_entry option) \<Rightarrow> bool" where
  "represents rank t M \<longleftrightarrow> valid True (\<lambda>x. rank (fst x)) t \<and> meaning (\<lambda>x. rank (fst x)) t = M"

definition answers_map ::
  "('t \<Rightarrow> 'r::linorder) \<Rightarrow> ('r \<Rightarrow> 't map_entry option) \<Rightarrow> 't force_outcome \<Rightarrow> bool" where
  "answers_map rank M r \<longleftrightarrow> (\<exists>t. r = Forced (VMap t) \<and> represents rank t M)"

text \<open>The thunk \<open>m\<close> forces to the map \<open>M\<close>.\<close>

definition holds_map ::
  "('s, 't) evaluator \<Rightarrow> ('t \<Rightarrow> 'r::linorder) \<Rightarrow> ('s \<Rightarrow> bool) \<Rightarrow> 't \<Rightarrow> ('r \<Rightarrow> 't map_entry option) \<Rightarrow> bool" where
  "holds_map E rank good m M \<longleftrightarrow> ensures False good (ev_force E m) (\<lambda>v. \<exists>t. v = VMap t \<and> represents rank t M)"

lemma with_map:
  assumes "holds_map E rank good m M" "\<And>t. represents rank t M \<Longrightarrow> ensures False good (f t) Q"
  shows "ensures False good (eval_bind (force_map E m) f) Q"
proof (rule ensures_bind)
  show "ensures False good (force_map E m) (\<lambda>t. represents rank t M)"
    unfolding force_map_def by (rule ensures_bind [OF assms(1) [unfolded holds_map_def]]) (auto intro: ensures_return)
qed (rule assms(2))

lemma guest_map: "represents rank t M \<Longrightarrow> ensures False good (guest_return (VMap t)) (answers_map rank M)"
  by (auto simp: guest_return_def answers_map_def intro: ensures_return)

lemma makes_map:
  assumes "ensures False good g (\<lambda>t. represents rank t M)"
  shows "ensures False good (eval_bind g (\<lambda>t. guest_return (VMap t))) (answers_map rank M)"
  by (rule ensures_bind [OF assms guest_map])

lemma map_builtins:
  fixes E :: "('s, 't) evaluator"
  assumes keys: "ord_keys E e rank good True False" and m: "holds_map E rank good m M"
  shows "ensures False good (map_lookup E e k m) (\<lambda>r. r = Forced (VMaybe (map_option snd (M (rank k)))))"
    and "ensures False good (map_insert E e k v m) (answers_map rank (M(rank k \<mapsto> (k, v))))"
    and "ensures False good (map_delete E e k m) (answers_map rank (M(rank k := None)))"
    and "ensures False good (map_insert_with E e f k v m) (answers_map rank (M(rank k \<mapsto>
      (k, case M (rank k) of None \<Rightarrow> v | Some y \<Rightarrow> map_collision_callback E f v (snd y)))))"
    and "ensures False good (map_adjust E e f k m) (answers_map rank (M(rank k :=
      map_option (\<lambda>y. (fst y, map_value_callback E f (snd y))) (M (rank k)))))"
proof -
  have order: "compare_entries E e = (\<lambda>x y. compare_keys E e (fst x) (fst y))"
    by (simp add: compare_entries_def fun_eq_iff)
  show "ensures False good (map_lookup E e k m) (\<lambda>r. r = Forced (VMaybe (map_option snd (M (rank k)))))"
    unfolding map_lookup_def
    by (rule with_map [OF m], rule ensures_bind [OF ord_keys.entry_find [OF keys]])
       (auto simp: represents_def guest_return_def intro!: ensures_return)
  show "ensures False good (map_insert E e k v m) (answers_map rank (M(rank k \<mapsto> (k, v))))"
    unfolding map_insert_def order
    by (rule with_map [OF m], rule makes_map, rule ensures_weaken [OF ord_keys.entry_insert [OF keys]])
       (auto simp: represents_def)
  show "ensures False good (map_delete E e k m) (answers_map rank (M(rank k := None)))"
    unfolding map_delete_def
    by (rule with_map [OF m], rule makes_map, rule ensures_weaken [OF ord_keys.entry_remove [OF keys]])
       (auto simp: represents_def)
  show "ensures False good (map_insert_with E e f k v m) (answers_map rank (M(rank k \<mapsto>
      (k, case M (rank k) of None \<Rightarrow> v | Some y \<Rightarrow> map_collision_callback E f v (snd y)))))"
    unfolding map_insert_with_def
    by (rule with_map [OF m], rule makes_map, rule ensures_weaken [OF ord_keys.insert_with_ok [OF keys]])
       (auto simp: represents_def)
  show "ensures False good (map_adjust E e f k m) (answers_map rank (M(rank k :=
      map_option (\<lambda>y. (fst y, map_value_callback E f (snd y))) (M (rank k)))))"
    unfolding map_adjust_def
    by (rule with_map [OF m], rule makes_map, rule ensures_weaken [OF ord_keys.adjust_ok [OF keys]])
       (auto simp: represents_def)
qed

text \<open>
  C4: Under a lawful instance of \<open>Ord\<close> whose comparisons succeed, the builtins on a map are
  the operations of a partial map from the places of the keys in the order: \<open>lookup\<close>,
  \<open>insert\<close> (which replaces the key too), \<open>delete\<close>, \<open>insertWith\<close> and \<open>adjust\<close>.  None panics
  or fails.
\<close>
theorem map_builtins_refine:
  assumes "ord_keys E e rank good True False" and "holds_map E rank good m M"
  shows "ensures False good (map_lookup E e k m) (\<lambda>r. r = Forced (VMaybe (map_option snd (M (rank k))))) \<and>
    ensures False good (map_insert E e k v m) (answers_map rank (M(rank k \<mapsto> (k, v)))) \<and>
    ensures False good (map_delete E e k m) (answers_map rank (M(rank k := None))) \<and>
    ensures False good (map_insert_with E e f k v m) (answers_map rank (M(rank k \<mapsto>
      (k, case M (rank k) of None \<Rightarrow> v | Some y \<Rightarrow> map_collision_callback E f v (snd y))))) \<and>
    ensures False good (map_adjust E e f k m) (answers_map rank (M(rank k :=
      map_option (\<lambda>y. (fst y, map_value_callback E f (snd y))) (M (rank k)))))"
  using map_builtins [OF assms] by blast

text \<open>For the witnesses: an evaluator whose thunk \<open>7\<close> is a map, and \<open>8\<close> another.\<close>

definition map_evaluator :: "(unit, int_key) evaluator" where
  "map_evaluator = int_evaluator\<lparr>ev_force := \<lambda>t. eval_return
     (if t = 7 then VMap odd_keys else if t = 8 then VMap small_keys else VBool (t \<noteq> 0))\<rparr>"

lemma map_evaluator_keys: "ord_keys map_evaluator int_evidence (sint :: int_key \<Rightarrow> int) (\<lambda>_. True) True False"
  by unfold_locales
     (auto simp: map_evaluator_def int_evaluator_def int_equal_def int_less_def force_outcome_bool_def
       intro!: ensures_return dest: arg_cong [where f = "word_of_int :: int \<Rightarrow> int_key"])

lemma map_evaluator_holds:
  "holds_map map_evaluator (sint :: int_key \<Rightarrow> int) (\<lambda>_. True) 7 (meaning (\<lambda>x. sint (fst x)) odd_keys)"
  "holds_map map_evaluator (sint :: int_key \<Rightarrow> int) (\<lambda>_. True) 8 (meaning (\<lambda>x. sint (fst x)) small_keys)"
  using sample_maps by (auto simp: holds_map_def map_evaluator_def represents_def intro!: ensures_return)

theorem map_builtins_refine_witness:
  "ensures False (\<lambda>_. True) (map_lookup map_evaluator int_evidence 3 7) (\<lambda>r. r = Forced (VMaybe (Some 12))) \<and>
   fst (map_insert map_evaluator int_evidence 3 40 7 ()) =
     Ok (Forced (VMap (tree_node (1, 11) (tree_singleton (-1, 10)) (tree_singleton (3, 40)))))"
proof
  have "meaning (\<lambda>x. sint (fst x)) odd_keys (sint (3 :: int_key)) = Some (3, 12)" by code_simp
  with map_builtins_refine [OF map_evaluator_keys map_evaluator_holds(1), of 3]
  show "ensures False (\<lambda>_. True) (map_lookup map_evaluator int_evidence 3 7) (\<lambda>r. r = Forced (VMaybe (Some 12)))"
    by simp
qed code_simp

section \<open>Construction\<close>

text \<open>
  C20: \<open>Map.fromList\<close> and \<open>Set.fromList\<close> build ascending runs of their input and insert the
  rest; under a lawful instance, whose comparisons succeed and order the keys totally (\<open>Double\<close>
  with NaN is none), the result has the items, in the order, that inserting every element
  into the empty tree has: the last entry of each key.
\<close>
theorem construction_is_insertion:
  assumes "ord_keys E e rank good True False" and "good s"
  shows "(\<exists>t s1 u s2. map_from_entries E e items s = (Ok t, s1) \<and> map_insert_entries E e Empty items s = (Ok u, s2) \<and>
      entries t = entries u \<and> represents rank t (\<lambda>r. at_rank (\<lambda>x. rank (fst x)) r (rev items))) \<and>
    (\<exists>t s1 u s2. set_tree_from_list E e ks s = (Ok t, s1) \<and> set_tree_insert_remaining E e Empty ks s = (Ok u, s2) \<and>
      entries t = entries u \<and> ascending rank (entries t))"
proof -
  note keys = assms(1)
  have runs: "\<exists>a s'. m s = (Ok a, s') \<and> Q a" if "ensures False good m Q" for m :: "('a, 'x, runtime_error) evaluation" and Q
    using that assms(2) by (auto simp: ensures_def elim!: endsE)
  have "meaning (\<lambda>x. rank (fst x)) t = (\<lambda>r. at_rank (\<lambda>x. rank (fst x)) r (rev items))"
    if "entries t = all_placed (\<lambda>x. rank (fst x)) [] items" for t
    using that by (simp add: fun_eq_iff meaning_def at_rank_all_placed split: option.split)
  moreover obtain t s1 where "map_from_entries E e items s = (Ok t, s1)"
      "valid True (\<lambda>x. rank (fst x)) t" "entries t = all_placed (\<lambda>x. rank (fst x)) [] items"
    using runs [OF ord_keys.map_from_entries_ok [OF keys, of items]] by auto
  moreover obtain u s2 where "map_insert_entries E e Empty items s = (Ok u, s2)"
      "entries u = all_placed (\<lambda>x. rank (fst x)) [] items"
    using runs [OF ord_keys.map_insert_entries_ok [OF keys, of Empty items]] by auto
  moreover obtain a s3 where "set_tree_from_list E e ks s = (Ok a, s3)" "valid True rank a" "entries a = all_placed rank [] ks"
    using runs [OF ord_keys.set_from_list_ok [OF keys, of ks]] by auto
  moreover obtain b s4 where "set_tree_insert_remaining E e Empty ks s = (Ok b, s4)" "entries b = all_placed rank [] ks"
    using runs [OF ord_keys.set_insert_remaining_ok [OF keys, of Empty ks]] by auto
  ultimately show ?thesis by (auto simp: represents_def valid_def)
qed

theorem construction_is_insertion_witness:
  "(\<exists>t s1 u s2. map_from_entries int_evaluator int_evidence [(1, 5), (4, 6), (9, 7), (1, 8)] () = (Ok t, s1) \<and>
      map_insert_entries int_evaluator int_evidence Empty [(1, 5), (4, 6), (9, 7), (1, 8)] () = (Ok u, s2) \<and>
      entries t = entries u) \<and>
   fst (set_tree_from_list int_evaluator int_evidence [2, 4, 6, 5, 4] ()) =
     Ok (tree_node 4 (tree_singleton 2) (tree_node 6 (tree_singleton 5) Empty))"
proof
  show "\<exists>t s1 u s2. map_from_entries int_evaluator int_evidence [(1, 5), (4, 6), (9, 7), (1, 8)] () = (Ok t, s1) \<and>
      map_insert_entries int_evaluator int_evidence Empty [(1, 5), (4, 6), (9, 7), (1, 8)] () = (Ok u, s2) \<and>
      entries t = entries u"
    using construction_is_insertion [OF int_keys.ord_keys_axioms, where s = "()" and items = "[(1, 5), (4, 6), (9, 7), (1, 8)]"] by blast
qed code_simp

section \<open>Union\<close>

text \<open>
  C24: \<open>Map.unionWith\<close> under a lawful instance of \<open>Ord\<close>, on maps sorted by it: a key of both maps has the key of the left map
  and the callback applied to the left item and then the right one; the other keys keep their
  entries.
\<close>
theorem map_union_combines:
  assumes "ord_keys E e rank good True False" "holds_map E rank good a A" "holds_map E rank good b B"
  shows "ensures False good (map_union_with E e f a b) (answers_map rank (\<lambda>k. combined E f (A k) (B k)))"
  unfolding map_union_with_def
  by (rule with_map [OF assms(2)], rule with_map [OF assms(3)], rule makes_map,
      rule ensures_weaken [OF ord_keys.union_ok [OF assms(1)]])
     (auto simp: represents_def)

theorem map_union_combines_witness:
  "ensures False (\<lambda>_. True) (map_union_with map_evaluator int_evidence 1 7 8) (answers_map (sint :: int_key \<Rightarrow> int)
     (\<lambda>k. combined map_evaluator 1 (meaning (\<lambda>x. sint (fst x)) odd_keys k) (meaning (\<lambda>x. sint (fst x)) small_keys k)))"
  by (rule map_union_combines [OF map_evaluator_keys map_evaluator_holds])

section \<open>Filtering and enumeration\<close>

lemma meaning_items:
  assumes "ascending rk (entries t)"
  shows "meaning rk t k = Some x \<longleftrightarrow> x \<in> set (entries t) \<and> rk x = k"
proof -
  have "at_rank rk k xs = Some x \<longleftrightarrow> x \<in> set xs \<and> rk x = k" if "ascending rk xs" for xs
    using that by (induction xs) auto
  with assms show ?thesis by (simp add: meaning_def)
qed

lemma represents_items:
  assumes "represents rank t M"
  shows "ran M = set (entries t)" "dom M = rank ` fst ` set (entries t)" "node_len t = card (dom M)"
proof -
  have t: "ascending (\<lambda>x. rank (fst x)) (entries t)" "M = meaning (\<lambda>x. rank (fst x)) t"
    using assms by (auto simp: represents_def valid_def)
  show "ran M = set (entries t)" using t(2) meaning_items [OF t(1)] by (auto simp: ran_def)
  show "dom M = rank ` fst ` set (entries t)" by (simp add: t(2) dom_meaning image_image)
  show "node_len t = card (dom M)" using assms card_meaning [of True "\<lambda>x. rank (fst x)" t] by (simp add: represents_def)
qed

lemma option_same: "(\<And>x. a = Some x \<longleftrightarrow> b = Some x) \<Longrightarrow> a = b"
  by (cases a; cases b) auto

lemma quantify_ok:
  assumes "\<And>x. x \<in> set xs \<Longrightarrow> ensures False good (force_bool E (ev_apply E q (snd x))) (\<lambda>b. b = hits (snd x))"
  shows "ensures False good (quantify E q every xs)
    (\<lambda>b. b = (if every then (\<forall>x \<in> set xs. hits (snd x)) else (\<exists>x \<in> set xs. hits (snd x))))"
  using assms
proof (induction xs)
  case (Cons x xs)
  have head: "ensures False good (force_bool E (ev_apply E q (snd x))) (\<lambda>b. b = hits (snd x))" using Cons.prems by simp
  have tail: "ensures False good (quantify E q every xs)
      (\<lambda>b. b = (if every then (\<forall>x \<in> set xs. hits (snd x)) else (\<exists>x \<in> set xs. hits (snd x))))"
    using Cons by simp
  obtain k v where x: "x = (k, v)" by fastforce
  show ?case
    unfolding x quantify.simps
    by (rule ensures_bind [OF head [unfolded x snd_conv]])
       (use ensures_weaken [OF tail] in \<open>auto intro!: ensures_return split: if_splits\<close>)
qed (simp add: ensures_return)

lemma filter_represents:
  assumes "represents rank t M"
  shows "represents rank (tree_from_sorted (filter keep (entries t)))
    (\<lambda>k. case M k of None \<Rightarrow> None | Some x \<Rightarrow> if keep x then Some x else None)"
proof -
  let ?rk = "\<lambda>x. rank (fst x)" and ?u = "tree_from_sorted (filter keep (entries t))"
  have t: "ascending ?rk (entries t)" "M = meaning ?rk t" using assms by (auto simp: represents_def valid_def)
  have u: "wb ?u" "entries ?u = filter keep (entries t)" using from_sorted_ok by auto
  with t have asc: "ascending ?rk (entries ?u)" by (simp add: sorted_wrt_filter)
  have "meaning ?rk ?u k = (case M k of None \<Rightarrow> None | Some x \<Rightarrow> if keep x then Some x else None)" for k
  proof (rule option_same)
    fix x show "meaning ?rk ?u k = Some x \<longleftrightarrow>
        (case M k of None \<Rightarrow> None | Some x \<Rightarrow> if keep x then Some x else None) = Some x"
      using meaning_items [OF asc, of k x] meaning_items [OF t(1), of k x] t(2) u(2) by (auto split: option.splits)
  qed
  with asc u show ?thesis by (auto simp: represents_def valid_def)
qed

lemma map_readers:
  assumes m: "holds_map E rank good m M"
  shows "ensures False good (map_size E m) (\<lambda>r. r = Forced (VInt (int (min (card (dom M)) largest_int))))"
    and "ensures False good (map_keys E m) (\<lambda>r. \<exists>ks. r = Alias (list_from_values E ks) \<and>
      sorted_wrt (\<lambda>a b. rank a < rank b) ks \<and> rank ` set ks = dom M)"
proof -
  show "ensures False good (map_size E m) (\<lambda>r. r = Forced (VInt (int (min (card (dom M)) largest_int))))"
    unfolding map_size_def
    by (rule with_map [OF m]) (auto simp: guest_return_def size_value_def represents_items intro!: ensures_return)
  show "ensures False good (map_keys E m) (\<lambda>r. \<exists>ks. r = Alias (list_from_values E ks) \<and>
      sorted_wrt (\<lambda>a b. rank a < rank b) ks \<and> rank ` set ks = dom M)"
    unfolding map_keys_def iterated_entries bind_return
  proof (rule with_map [OF m], rule ensures_return, intro exI conjI, rule refl)
    fix t assume t: "represents rank t M"
    then show "sorted_wrt (\<lambda>a b. rank a < rank b) (map fst (entries t))"
      by (simp add: represents_def valid_def sorted_wrt_map)
    show "rank ` set (map fst (entries t)) = dom M" using represents_items(2) [OF t] by simp
  qed
qed

text \<open>
  C27: On a map sorted by a total order of its keys, and for predicates that answer on its
  entries, \<open>Map.filter\<close> keeps the entries the predicate holds of and no
  other, \<open>Map.any\<close> and \<open>Map.all\<close> quantify over the items, \<open>Map.size\<close> counts the keys, and
  \<open>Map.keys\<close> lists them in ascending order.
\<close>
theorem map_enumerations:
  assumes "holds_map E rank good m M"
    and "\<And>x. x \<in> ran M \<Longrightarrow> ensures False good (force_bool E (map_filter_callback E p x with_key)) (\<lambda>b. b = keep x)"
    and "\<And>x. x \<in> ran M \<Longrightarrow> ensures False good (force_bool E (ev_apply E q (snd x))) (\<lambda>b. b = hits (snd x))"
  shows "ensures False good (map_filter E p m with_key) (answers_map rank (\<lambda>k. case M k of
      None \<Rightarrow> None | Some x \<Rightarrow> if keep x then Some x else None)) \<and>
    ensures False good (map_quantifier E q m every) (\<lambda>r. r = Forced (VBool
      (if every then (\<forall>x \<in> ran M. hits (snd x)) else (\<exists>x \<in> ran M. hits (snd x))))) \<and>
    ensures False good (map_size E m) (\<lambda>r. r = Forced (VInt (int (min (card (dom M)) largest_int)))) \<and>
    ensures False good (map_keys E m) (\<lambda>r. \<exists>ks. r = Alias (list_from_values E ks) \<and>
      sorted_wrt (\<lambda>a b. rank a < rank b) ks \<and> rank ` set ks = dom M)"
proof -
  have "ensures False good (map_filter E p m with_key) (answers_map rank (\<lambda>k. case M k of
      None \<Rightarrow> None | Some x \<Rightarrow> if keep x then Some x else None))"
    unfolding map_filter_def iterated_entries bind_return
    by (rule with_map [OF assms(1)], rule ensures_bind [OF filter_entries_ok [OF assms(2)]])
       (auto simp: answered_filter represents_items intro!: guest_map filter_represents)
  moreover have "ensures False good (map_quantifier E q m every) (\<lambda>r. r = Forced (VBool
      (if every then (\<forall>x \<in> ran M. hits (snd x)) else (\<exists>x \<in> ran M. hits (snd x)))))"
    unfolding map_quantifier_def iterated_entries bind_return
    by (rule with_map [OF assms(1)], rule ensures_bind [OF quantify_ok [OF assms(3)]])
       (auto simp: guest_return_def represents_items intro!: ensures_return)
  ultimately show ?thesis using map_readers [OF assms(1)] by blast
qed

definition odd_filter :: "int_key \<times> int_key \<Rightarrow> bool" where
  "odd_filter x = (- 11 + snd x \<noteq> 0)"

theorem map_enumerations_witness:
  "ensures False (\<lambda>_. True) (map_size map_evaluator 7) (\<lambda>r. r = Forced (VInt 3)) \<and>
   fst (map_filter map_evaluator (-11) 7 False ()) =
     Ok (Forced (VMap (tree_node (3, 12) (tree_singleton (-1, 10)) Empty)))"
proof
  have "card (dom (meaning (\<lambda>x. sint (fst x)) odd_keys)) = 3"
    using card_meaning [OF sample_maps(1)] from_sorted_ok [of "[(-1, 10), (1, 11), (3, 12)] :: (int_key \<times> int_key) list"]
      wb_len [of odd_keys] by (simp add: odd_keys_def)
  moreover have items: "x \<in> {(-1, 10), (1, 11), (3, 12)}" if "x \<in> ran (meaning (\<lambda>x. sint (fst x)) odd_keys)" for x
    using that sample_maps(1) represents_items(1) [of sint odd_keys "meaning (\<lambda>x. sint (fst x)) odd_keys"]
    by (simp add: represents_def odd_keys_def from_sorted_ok)
  have keep: "ensures False (\<lambda>_. True) (force_bool map_evaluator (map_filter_callback map_evaluator (-11) x False))
      (\<lambda>b. b = odd_filter x)" if "x \<in> ran (meaning (\<lambda>x. sint (fst x)) odd_keys)" for x
    using items [OF that]
    by (auto simp: map_evaluator_def int_evaluator_def force_bool_def map_filter_callback_def odd_filter_def intro!: ensures_return)
  have hits: "ensures False (\<lambda>_. True) (force_bool map_evaluator (ev_apply map_evaluator 0 (snd x))) (\<lambda>b. b = (snd x \<noteq> 0))"
    if "x \<in> ran (meaning (\<lambda>x. sint (fst x)) odd_keys)" for x
    using items [OF that] by (auto simp: map_evaluator_def int_evaluator_def force_bool_def intro!: ensures_return)
  note map_enumerations [OF map_evaluator_holds(1) keep hits, THEN conjunct2, THEN conjunct2, THEN conjunct1]
  ultimately show "ensures False (\<lambda>_. True) (map_size map_evaluator 7) (\<lambda>r. r = Forced (VInt 3))"
    by (simp add: largest_int_def)
qed code_simp

section \<open>Cost\<close>

text \<open>
  C29: On a balanced tree with \<open>n\<close> items, searching, inserting, removing and splitting make at
  most \<open>h\<close> comparisons each, where \<open>h\<close> is the height and \<open>4 ^ (h - 1) \<le> 3 ^ (h - 1) * n\<close>: the
  height is logarithmic in \<open>n\<close>.
\<close>
theorem comparisons_logarithmic:
  assumes "wb t" "t \<noteq> Empty"
  shows "costs (height t) (tree_find (\<lambda>y. counted (probe y)) t) \<and>
    costs (height t) (tree_insert x (\<lambda>x y. counted (cmp x y)) t) \<and>
    costs (height t) (tree_remove (\<lambda>y. counted (probe y)) t) \<and>
    costs (height t) (tree_split (\<lambda>y. counted (probe y)) t) \<and>
    4 ^ (height t - 1) \<le> 3 ^ (height t - 1) * length (entries t)"
  using assms height_bound [OF assms] find_costs insert_costs remove_costs split_costs by auto

theorem comparisons_logarithmic_witness:
  "costs 2 (tree_find (\<lambda>y. counted (compare_entries int_evaluator int_evidence (2, 0) y)) odd_keys) \<and>
   snd (tree_find (\<lambda>y. counted (compare_entries int_evaluator int_evidence (3, 0) y)) odd_keys ((), 0)) = ((), 2)"
proof
  have "wb odd_keys" using sample_maps by (simp add: valid_def)
  moreover have "odd_keys \<noteq> Empty" by code_simp
  moreover have "height odd_keys = 2" by code_simp
  ultimately show "costs 2 (tree_find (\<lambda>y. counted (compare_entries int_evaluator int_evidence (2, 0) y)) odd_keys)"
    using comparisons_logarithmic [of odd_keys "compare_entries int_evaluator int_evidence (2, 0)"] by metis
qed code_simp

section \<open>Sets\<close>

definition represents_set :: "('t \<Rightarrow> 'r::linorder) \<Rightarrow> 't tree \<Rightarrow> ('r \<Rightarrow> 't option) \<Rightarrow> bool" where
  "represents_set rank t A \<longleftrightarrow> valid True rank t \<and> meaning rank t = A"

definition answers_set :: "('t \<Rightarrow> 'r::linorder) \<Rightarrow> ('r \<Rightarrow> 't option) \<Rightarrow> 't force_outcome \<Rightarrow> bool" where
  "answers_set rank A r \<longleftrightarrow> (\<exists>t. r = Forced (VSet t) \<and> represents_set rank t A)"

definition holds_set ::
  "('s, 't) evaluator \<Rightarrow> ('t \<Rightarrow> 'r::linorder) \<Rightarrow> ('s \<Rightarrow> bool) \<Rightarrow> 't \<Rightarrow> ('r \<Rightarrow> 't option) \<Rightarrow> bool" where
  "holds_set E rank good m A \<longleftrightarrow> ensures False good (ev_force E m) (\<lambda>v. \<exists>t. v = VSet t \<and> represents_set rank t A)"

lemma with_set:
  assumes "holds_set E rank good m A" "\<And>t. represents_set rank t A \<Longrightarrow> ensures False good (f t) Q"
  shows "ensures False good (eval_bind (force_set E m) f) Q"
proof (rule ensures_bind)
  show "ensures False good (force_set E m) (\<lambda>t. represents_set rank t A)"
    unfolding force_set_def by (rule ensures_bind [OF assms(1) [unfolded holds_set_def]]) (auto intro: ensures_return)
qed (rule assms(2))

lemma makes_set:
  assumes "ensures False good g (\<lambda>t. represents_set rank t A)"
  shows "ensures False good (eval_bind g (\<lambda>t. guest_return (VSet t))) (answers_set rank A)"
  by (rule ensures_bind [OF assms]) (auto simp: guest_return_def answers_set_def intro: ensures_return)

lemma set_builtins:
  fixes E :: "('s, 't) evaluator"
  assumes keys: "ord_keys E e rank good True False" and a: "holds_set E rank good a A"
  shows "ensures False good (set_member E e x a) (\<lambda>r. r = Forced (VBool (rank x \<in> dom A)))"
    and "ensures False good (set_insert E e x a) (answers_set rank (A(rank x \<mapsto> x)))"
    and "ensures False good (set_delete E e x a) (answers_set rank (A(rank x := None)))"
proof -
  show "ensures False good (set_member E e x a) (\<lambda>r. r = Forced (VBool (rank x \<in> dom A)))"
    unfolding set_member_def
    by (rule with_set [OF a], rule ensures_bind [OF ord_keys.element_find [OF keys]])
       (auto simp: represents_set_def guest_return_def intro!: ensures_return)
  show "ensures False good (set_insert E e x a) (answers_set rank (A(rank x \<mapsto> x)))"
    unfolding set_insert_def
    by (rule with_set [OF a], rule makes_set, rule ensures_weaken [OF ord_keys.replacing_ok [OF keys]])
       (auto simp: represents_set_def)
  show "ensures False good (set_delete E e x a) (answers_set rank (A(rank x := None)))"
    unfolding set_delete_def
    by (rule with_set [OF a], rule makes_set, rule ensures_weaken [OF ord_keys.element_remove [OF keys]])
       (auto simp: represents_set_def)
qed

lemma set_merges:
  fixes E :: "('s, 't) evaluator"
  assumes keys: "ord_keys E e rank good True False" and a: "holds_set E rank good a A" and b: "holds_set E rank good b B"
  shows "ensures False good (set_merge E e a b Union) (answers_set rank (B ++ A))"
    and "ensures False good (set_merge E e a b Difference) (answers_set rank (A |` (- dom B)))"
    and "ensures False good (set_merge E e a b Intersection) (answers_set rank (A |` dom B))"
  unfolding set_merge_def set_merge_operation.case
  by (rule with_set [OF a], rule with_set [OF b], rule makes_set,
      rule ensures_weaken [OF ord_keys.set_union_ok [OF keys]]
           ensures_weaken [OF ord_keys.set_difference_ok [OF keys]]
           ensures_weaken [OF ord_keys.set_intersection_ok [OF keys]];
      simp add: represents_set_def)+

text \<open>
  C12: Under a lawful instance of \<open>Ord\<close> the builtins on sets are the operations of sets of
  places in its order: membership, insertion (which replaces an equal element), deletion,
  union (which keeps the elements of the left set), difference and intersection.  Sharing
  subtrees never shows.
\<close>
theorem set_builtins_refine:
  assumes "ord_keys E e rank good True False" "holds_set E rank good a A" "holds_set E rank good b B"
  shows "ensures False good (set_member E e x a) (\<lambda>r. r = Forced (VBool (rank x \<in> dom A))) \<and>
    ensures False good (set_insert E e x a) (answers_set rank (A(rank x \<mapsto> x))) \<and>
    ensures False good (set_delete E e x a) (answers_set rank (A(rank x := None))) \<and>
    ensures False good (set_merge E e a b Union) (answers_set rank (B ++ A)) \<and>
    ensures False good (set_merge E e a b Difference) (answers_set rank (A |` (- dom B))) \<and>
    ensures False good (set_merge E e a b Intersection) (answers_set rank (A |` dom B))"
  using set_builtins [OF assms(1,2)] set_merges [OF assms] by blast

definition set_evaluator :: "(unit, int_key) evaluator" where
  "set_evaluator = int_evaluator\<lparr>ev_force := \<lambda>t. eval_return
     (if t = 7 then VSet (tree_from_sorted [-1, 1, 3]) else if t = 8 then VSet (tree_from_sorted [1, 2]) else VInt (sint t))\<rparr>"

lemma set_evaluator_keys: "ord_keys set_evaluator int_evidence (sint :: int_key \<Rightarrow> int) (\<lambda>_. True) True False"
  by unfold_locales
     (auto simp: set_evaluator_def int_evaluator_def int_equal_def int_less_def force_outcome_bool_def
       intro!: ensures_return dest: arg_cong [where f = "word_of_int :: int \<Rightarrow> int_key"])

lemma set_evaluator_holds:
  "holds_set set_evaluator (sint :: int_key \<Rightarrow> int) (\<lambda>_. True) 7 (meaning sint (tree_from_sorted [-1, 1, 3]))"
  "holds_set set_evaluator (sint :: int_key \<Rightarrow> int) (\<lambda>_. True) 8 (meaning sint (tree_from_sorted [1, 2]))"
  by (auto simp: from_sorted_ok holds_set_def set_evaluator_def represents_set_def valid_def intro!: ensures_return)

theorem set_builtins_refine_witness:
  "ensures False (\<lambda>_. True) (set_member set_evaluator int_evidence 3 7) (\<lambda>r. r = Forced (VBool True)) \<and>
   map (\<lambda>operation. fst (set_merge set_evaluator int_evidence 7 8 operation ())) [Union, Difference, Intersection] =
     [Ok (Forced (VSet (tree_node 1 (tree_singleton (-1)) (tree_node 3 (tree_singleton 2) Empty)))),
      Ok (Forced (VSet (tree_node 3 (tree_singleton (-1)) Empty))),
      Ok (Forced (VSet (tree_singleton 1)))]"
proof
  have "meaning sint (tree_from_sorted [-1, 1, 3 :: int_key]) (sint (3 :: int_key)) = Some 3" by code_simp
  then show "ensures False (\<lambda>_. True) (set_member set_evaluator int_evidence 3 7) (\<lambda>r. r = Forced (VBool True))"
    using set_builtins_refine [OF set_evaluator_keys set_evaluator_holds, THEN conjunct1, of 3] by (simp add: domIff)
qed code_simp

end
