(* ===== verification/Spec2Isabelle.thy ===== *)
theory Spec2Isabelle
  imports Hell_Digest Hell_Budget Hell_Source Hell_Zonk Hell_Boundaries Hell_Core_Theorems
    Hell_Integer_Text Hell_Scope_Theorems Hell_Json_Theorems Hell_Collections_Theorems
begin

text \<open>
  A verification development for hell-rs, an implementation of the Hell scripting language
  in Rust (workspace crates under \<open>crates/\<close>).

  The program.  A source file is decoded, checked against a token budget and a nesting
  limit, lexed, given explicit braces by the layout rule and parsed into arenas of syntax
  nodes (crates \<open>hell-source\<close> and \<open>hell-syntax\<close>).  The compiler infers types with the
  arenas and the unifier of \<open>hell-types\<close> and lowers the program to typed core.  The
  independent checker of \<open>hell-core\<close> seals the core, against the registry of
  \<open>hell-builtins\<close>, and only sealed programs are evaluated by \<open>hell-runtime\<close>, which
  charges every resource to a budget under a policy.  \<open>hell-digest\<close> has the SHA-256 that
  the build and the release tooling use.

  Correspondence.
  \<^item> \<open>Hell_Prelude\<close>: results (\<open>Ok\<close>, \<open>Err\<close>, panic), machine bounds, checked vector
    reads, and \<open>run\<close>, by which every work-list loop is modelled, with the locale
    \<open>loop_machine\<close> (what a loop maintains, what descends, what holds when it leaves).
  \<^item> \<open>Hell_Digest\<close>: \<open>hell-digest/src/lib.rs\<close>.  \<open>Hell_Policy\<close>, \<open>Hell_Budget\<close>:
    \<open>hell-runtime/src/policy.rs\<close> and \<open>budget.rs\<close>.
  \<^item> \<open>Hell_Utf8\<close>, \<open>Hell_Source\<close>: \<open>hell-source/src/lib.rs\<close>, with the UTF-8 encoding that
    the sources take from the standard library.
  \<^item> \<open>Hell_Types\<close>, \<open>Hell_Trees\<close>, \<open>Hell_Kinding\<close>, \<open>Hell_Unify\<close>, \<open>Hell_Zonk\<close>:
    \<open>hell-types/src/lib.rs\<close>.  The first holds the definitions; the others read arena
    identifiers as trees and verify kinding, printing, unification and zonking.
  \<^item> \<open>Hell_Lexer\<close>, \<open>Hell_Scanning\<close>, \<open>Hell_Layout\<close>, \<open>Hell_Ast\<close>, \<open>Hell_Type_Parser\<close>,
    \<open>Hell_Parser\<close>, \<open>Hell_Declarations\<close>: \<open>hell-syntax/src/lib.rs\<close> in its order.  The
    theories \<open>Hell_Wp\<close>, \<open>Hell_Blocks\<close>, \<open>Hell_Type_Total\<close>, \<open>Hell_Pattern_Total\<close>,
    \<open>Hell_Expr_Inv\<close>, \<open>Hell_Expr_Arms\<close>, \<open>Hell_Expr_Blocks\<close>, \<open>Hell_Expr_Total\<close>,
    \<open>Hell_Arenas\<close>, \<open>Hell_Declarations_Total\<close> and \<open>Hell_Parse_Total\<close> build up, from a
    weakest precondition of the parser's primitives, the proof that the parser returns;
    \<open>Hell_Boundaries\<close> evaluates it on inputs where it panics or drops text.
  \<^item> \<open>Hell_Registry\<close>: the data and tables of \<open>hell-builtins/src/lib.rs\<close> and
    \<open>manifest.rs\<close>.  \<open>Hell_Core\<close>, \<open>Hell_Checker\<close>: \<open>hell-core/src/lib.rs\<close>, with the
    registry as a parameter.  \<open>Hell_Core_Graph\<close> verifies the graph pass (trees of nodes),
    \<open>Hell_Core_Types\<close> the loops over types, \<open>Hell_Core_Evidence\<close> class evidence (instance
    derivations), \<open>Hell_Core_Typing\<close> states the type system and settles every arm,
    \<open>Hell_Core_Pass\<close> the type pass by induction on the depth of a node, and
    \<open>Hell_Core_Verified\<close> and \<open>Hell_Core_Theorems\<close> the whole verifier.

  \<^item> \<open>Hell_Positional\<close>: digits in a base, as a locale used for limbs and for decimal
    text.  \<open>Hell_Integer\<close>: \<open>hell-runtime/src/native_integer.rs\<close>; \<open>Hell_Integer_Arith\<close> and
    \<open>Hell_Integer_Text\<close> show its arithmetic, conversions, printing and parsing exact.
  \<^item> \<open>Hell_Runtime_Error\<close>: the errors of \<open>hell-runtime/src/lib.rs\<close>.  \<open>Hell_Tokens\<close>,
    \<open>Hell_Scope\<close>: \<open>hell-runtime/src/scope.rs\<close>, cancellation tokens and execution scopes on
    heaps of counted states, with the client's resources and finalizers as functions on a
    world.  \<open>Hell_Token_Tree\<close> has the ancestry of tokens and what cancelling changes,
    \<open>Hell_Scope_Inv\<close> that cancelling and closing return, \<open>Hell_Scope_Run\<close> the invariant of
    every run of the API, and \<open>Hell_Scope_Theorems\<close> the properties.  A run is a sequence of
    complete calls; that a registration overlapping a close leaks is stated on the two halves
    of \<open>register\<close> and \<open>defer\<close>.

  \<^item> \<open>Hell_Json\<close>, \<open>Hell_Json_Document\<close>: \<open>hell-runtime/src/native_json.rs\<close> with the
    builtins \<open>json_decode\<close> and \<open>json_encode\<close> of \<open>lib.rs\<close>: strings and numbers as bytes, the
    decoder with its stack of open containers and limits, flat documents, the encoder with
    its stack of tasks.  \<open>Hell_Json_Text\<close> and \<open>Hell_Json_Number\<close> relate strings and numbers
    to their text and value, \<open>Hell_Json_Decode\<close> has the decoder on every input,
    \<open>Hell_Json_Print\<close> the text of a tree and that it reads back, \<open>Hell_Json_Encode\<close> that
    documents store and print trees, and \<open>Hell_Json_Theorems\<close> the properties.

  \<^item> \<open>Hell_Ordered_Tree\<close>: the persistent tree of \<open>hell-runtime/src/native_collections.rs\<close>
    under the guest's maps and sets; \<open>Hell_Tree_Balance\<close> shows that its joining functions
    keep it in balance and keep its items in order, \<open>Hell_Tree_Search\<close> what its searching
    operations do under a comparator that runs guest code (locale \<open>comparator\<close>), and
    \<open>Hell_Tree_Height\<close> how many comparisons they make.
  \<^item> \<open>Hell_Collections\<close>, \<open>Hell_Maps\<close>, \<open>Hell_Sets\<close>: the builtins of the same file, with their
    dispatch.  What they ask of the evaluator (forcing a thunk, \<open>Eq\<close> and \<open>Ord\<close>, suspending an
    application, \<open>Arc::ptr_eq\<close>) is a record of functions that every theorem quantifies over.
    \<open>Hell_Tree_Map\<close> reads a tree as a partial map from places in the order and verifies the
    construction from ascending runs (locale \<open>builder\<close>); \<open>Hell_Map_Ops\<close> and
    \<open>Hell_Set_Ops\<close> verify the operations for every instance of \<open>Ord\<close> whose comparisons do not
    panic (locale \<open>ord_keys\<close>, which gives \<open>comparator\<close> and two \<open>builder\<close>s), and
    \<open>Hell_Collections_Theorems\<close> has the properties, with keys of the guest's \<open>Int\<close>.

  Conventions.  Indices and lengths are natural numbers, narrowed to 32 bits where the
  sources narrow them; counters of the budget and the words of SHA-256 keep their width.
  A stack of the sources is a list with its top in front.  A function that may fail
  returns \<open>Ok\<close>, \<open>Err\<close> or \<open>Panic\<close>; a function whose loop may not return gives an
  \<open>option\<close> of that, and its theorems say that it returns.  No loop has fuel: each is
  \<open>partial_function\<close>, and returns by a measure on its state (work left, nodes not yet
  entered, weight of the trees below the work list, tokens not yet consumed).

  Bounds.  \<open>max_source_tokens\<close> (46000) is the one bound that a totality theorem needs
  as a hypothesis beyond well-formedness.  A binding pattern is tried and taken back, and
  its types stay in the arena, so the arena is bounded by the square of the number of
  tokens only; 46000 is the largest round number whose square keeps it below \<open>2^32\<close>.
  The round trip of JSON excludes the smallest 64-bit exponent, and equality of numbers asks that the zeros at the
  end of a coefficient fit below the largest one; both bounds are shown to be needed.

  The sizes of trees are natural numbers; nodes are in memory, so a \<open>usize\<close> holds them.
  Recursion on the native stack is unbounded here (\<open>cancel\<close>, \<open>notify_descendants\<close> and \<open>close\<close>
  of scopes, \<open>next_token\<close> after a bad character), and so are strings: \<open>push_json\<close> writes the
  zeros of a large exponent one by one, which the sources cannot do near \<open>2^63\<close>.  Arithmetic
  that wraps in a release build, as in the columns of \<open>line_column\<close>, wraps.
  A guest comparison that does not return is outside the model of the collections.

  Not modelled.  The compiler and the evaluator of the language, which rest on generated
  tables of primitives; the variants of the feature \<open>compat-tracing\<close>; the actions that run scopes on threads, channels, processes and
  every host effect; floating-point numbers, also in JSON; the command line; the
  documentation generator, the CI driver and the test kit, which are tooling around the
  language.  Characters beyond ASCII are classified by a
  parameter where the sources ask the Unicode tables of the standard library.
\<close>

end
